(* ===== verification/CPrelude.thy ===== *)
theory CPrelude
  imports Main "HOL-Library.Monad_Syntax" "HOL-Library.Signed_Division"
begin

text \<open>
  Shared vocabulary of the development.  The library is written in C++, and most of the code
  modelled here works on raw \<open>int *\<close> buffers.  A pointer is modelled by the list of cells that
  can be reached from it (\<open>p + k\<close> is \<open>drop k\<close>), and every C++ expression whose behaviour is
  undefined (a read or a write outside the buffer, a signed overflow, a division by zero, the use
  of a cell that was never written) is the value \<^term>\<open>None\<close>.  A theorem that a function returns
  \<open>Some r\<close> therefore says two things: the function is free of undefined behaviour, and its result
  is \<open>r\<close>.
\<close>

named_theorems c_simps \<open>evaluation of single C operations\<close>
named_theorems buf_simps \<open>accessors of the shape information buffer\<close>

type_synonym cells = "int option list"

subsection \<open>Reads, writes, fresh memory\<close>

definition rd :: "'a list \<Rightarrow> int \<Rightarrow> 'a option" where
  "rd xs i = (if 0 \<le> i \<and> i < int (length xs) then Some (xs ! nat i) else None)"

definition wr :: "'a list \<Rightarrow> int \<Rightarrow> 'a \<Rightarrow> 'a list option" where
  "wr xs i v = (if 0 \<le> i \<and> i < int (length xs) then Some (xs[nat i := v]) else None)"

text \<open>
  \<open>new int[n]\<close> yields \<open>n\<close> cells with indeterminate contents.  \<open>finish\<close> hands the array on: it is
  \<^term>\<open>None\<close> when a cell was never written, since the callers read every cell.
\<close>

definition new_ints :: "int \<Rightarrow> cells option" where
  "new_ints n = (if n < 0 then None else Some (replicate (nat n) None))"

definition finish :: "cells \<Rightarrow> int list option" where
  "finish cs = those cs"

subsection \<open>Signed integers\<close>

definition i32 :: "int \<Rightarrow> int option" where
  "i32 x = (if -(2 ^ 31) \<le> x \<and> x < 2 ^ 31 then Some x else None)"

definition i64 :: "int \<Rightarrow> int option" where
  "i64 x = (if -(2 ^ 63) \<le> x \<and> x < 2 ^ 63 then Some x else None)"

definition cdiv :: "int \<Rightarrow> int \<Rightarrow> int option" where
  "cdiv a b = (if b = 0 then None else Some (a sdiv b))"

definition cmod :: "int \<Rightarrow> int \<Rightarrow> int option" where
  "cmod a b = (if b = 0 then None else Some (a smod b))"

definition c_int :: "bool \<Rightarrow> int" where
  "c_int b = (if b then 1 else 0)"

subsection \<open>Counted loops\<close>

text \<open>
  \<open>for (i = a; i < a + n; i++) s = f(i, s)\<close> and the loop that counts down to 0.
\<close>

fun for_up :: "nat \<Rightarrow> nat \<Rightarrow> (nat \<Rightarrow> 's \<Rightarrow> 's option) \<Rightarrow> 's \<Rightarrow> 's option" where
  "for_up a 0 f s = Some s"
| "for_up a (Suc n) f s = Option.bind (f a s) (for_up (Suc a) n f)"

fun for_down :: "nat \<Rightarrow> (nat \<Rightarrow> 's \<Rightarrow> 's option) \<Rightarrow> 's \<Rightarrow> 's option" where
  "for_down 0 f s = Some s"
| "for_down (Suc n) f s = Option.bind (f n s) (for_down n f)"

subsection \<open>Lemmas on single operations\<close>

lemma rd_nat [simp]: "rd xs (int i) = (if i < length xs then Some (xs ! i) else None)"
  by (simp add: rd_def)

lemma rd_0 [simp]: "rd xs 0 = (if xs = [] then None else Some (hd xs))"
  by (auto simp: rd_def hd_conv_nth)

lemma rd_numeral [simp]:
  "rd xs (numeral k) = (if numeral k < length xs then Some (xs ! numeral k) else None)"
  by (simp add: rd_def)

lemma rd_1 [simp]: "rd xs 1 = (if 1 < length xs then Some (xs ! 1) else None)"
  by (auto simp: rd_def)

lemma rd_neg [simp]: "i < 0 \<Longrightarrow> rd xs i = None"
  by (simp add: rd_def)

lemma rd_Some_iff: "rd xs i = Some v \<longleftrightarrow> 0 \<le> i \<and> i < int (length xs) \<and> v = xs ! nat i"
  by (auto simp: rd_def)

lemma rd_in_range [intro]: "0 \<le> i \<Longrightarrow> i < int (length xs) \<Longrightarrow> rd xs i = Some (xs ! nat i)"
  by (simp add: rd_def)

lemma rd_append_left: "0 \<le> i \<Longrightarrow> i < int (length xs) \<Longrightarrow> rd (xs @ ys) i = Some (xs ! nat i)"
  by (simp add: rd_def nth_append nat_less_iff)

lemma wr_nat [simp]: "wr xs (int i) v = (if i < length xs then Some (xs[i := v]) else None)"
  by (simp add: wr_def)

lemma wr_in_range [intro]: "0 \<le> i \<Longrightarrow> i < int (length xs) \<Longrightarrow> wr xs i v = Some (xs[nat i := v])"
  by (simp add: wr_def)

lemma wr_Some_iff:
  "wr xs i v = Some ys \<longleftrightarrow> 0 \<le> i \<and> i < int (length xs) \<and> ys = xs[nat i := v]"
  by (auto simp: wr_def)

lemma wr_length: "wr xs i v = Some ys \<Longrightarrow> length ys = length xs"
  by (auto simp: wr_def split: if_splits)

lemma wr_append: "i = int (length xs) \<Longrightarrow> wr (xs @ y # ys) i v = Some (xs @ v # ys)"
  by simp

lemma finish_map_Some [simp]: "finish (map Some xs) = Some xs"
  unfolding finish_def by (induction xs) auto

lemma finish_Some_iff: "finish cs = Some xs \<longleftrightarrow> cs = map Some xs"
proof
  show "finish cs = Some xs \<Longrightarrow> cs = map Some xs"
    unfolding finish_def by (induction cs arbitrary: xs) (auto split: option.splits)
qed simp

lemma finish_map_comp [simp]: "finish (map (\<lambda>i. Some (f i)) xs) = Some (map f xs)"
  using finish_map_Some [of "map f xs"] by (simp add: comp_def)

lemma new_ints_nat [simp]: "new_ints (int n) = Some (replicate n None)"
  by (simp add: new_ints_def)

lemma cdiv_pos [c_simps]: "0 \<le> a \<Longrightarrow> 0 < b \<Longrightarrow> cdiv a b = Some (a div b)"
  by (simp add: cdiv_def signed_divide_int_def sgn_if)

lemma cmod_pos [c_simps]: "0 \<le> a \<Longrightarrow> 0 < b \<Longrightarrow> cmod a b = Some (a mod b)"
  by (cases "a = 0") (simp_all add: cmod_def signed_modulo_int_def signed_divide_int_def
      sgn_if minus_div_mult_eq_mod)

lemma cdiv_zero [simp]: "cdiv a 0 = None" and cmod_zero [simp]: "cmod a 0 = None"
  by (simp_all add: cdiv_def cmod_def)

lemma i32_in_range [c_simps]: "-(2 ^ 31) \<le> x \<Longrightarrow> x < 2 ^ 31 \<Longrightarrow> i32 x = Some x"
  by (simp add: i32_def)

lemma i64_in_range [c_simps]: "-(2 ^ 63) \<le> x \<Longrightarrow> x < 2 ^ 63 \<Longrightarrow> i64 x = Some x"
  by (simp add: i64_def)

lemma i32_Some: "i32 x = Some y \<longleftrightarrow> y = x \<and> -(2 ^ 31) \<le> x \<and> x < 2 ^ 31"
  by (auto simp: i32_def)

lemma i64_Some: "i64 x = Some y \<longleftrightarrow> y = x \<and> -(2 ^ 63) \<le> x \<and> x < 2 ^ 63"
  by (auto simp: i64_def)

lemma c_int_simps [simp]: "c_int True = 1" "c_int False = 0"
  by (simp_all add: c_int_def)

lemma c_int_eq_1 [simp]: "c_int b = 1 \<longleftrightarrow> b" and c_int_eq_0 [simp]: "c_int b = 0 \<longleftrightarrow> \<not> b"
  by (simp_all add: c_int_def)

subsection \<open>Total correctness of loops\<close>

text \<open>
  Both rules give termination, freedom from undefined behaviour and the invariant at the exit.
\<close>

lemma for_up_total:
  assumes "P a s"
    and "\<And>j s. a \<le> j \<Longrightarrow> j < a + n \<Longrightarrow> P j s \<Longrightarrow> \<exists>s'. f j s = Some s' \<and> P (Suc j) s'"
  shows "\<exists>s'. for_up a n f s = Some s' \<and> P (a + n) s'"
  using assms
proof (induction n arbitrary: a s)
  case 0
  then show ?case by simp
next
  case (Suc n)
  from Suc.prems(2) [of a s] Suc.prems(1) obtain s' where s': "f a s = Some s'" "P (Suc a) s'"
    by auto
  have "\<exists>s''. for_up (Suc a) n f s' = Some s'' \<and> P (Suc a + n) s''"
    by (rule Suc.IH [OF s'(2)]) (use Suc.prems(2) in auto)
  with s'(1) show ?case by auto
qed

lemma for_up_invariant:
  assumes "for_up a n f s = Some s'" and "P a s"
    and "\<And>j s s'. a \<le> j \<Longrightarrow> j < a + n \<Longrightarrow> P j s \<Longrightarrow> f j s = Some s' \<Longrightarrow> P (Suc j) s'"
  shows "P (a + n) s'"
  using assms
proof (induction n arbitrary: a s)
  case 0
  then show ?case by simp
next
  case (Suc n)
  from Suc.prems(1) obtain t where t: "f a s = Some t" "for_up (Suc a) n f t = Some s'"
    by (auto simp: bind_eq_Some_conv)
  have "P (Suc a) t" using Suc.prems(3) [of a s t] Suc.prems(2) t(1) by simp
  from Suc.IH [OF t(2) this] Suc.prems(3) show ?case by simp
qed

lemma for_up_append:
  "for_up a (m + n) f s = Option.bind (for_up a m f s) (for_up (a + m) n f)"
proof (induction m arbitrary: a s)
  case (Suc m)
  then show ?case by (cases "f a s") simp_all
qed simp

lemma for_up_Suc_end:
  "for_up a (Suc n) f s = Option.bind (for_up a n f s) (f (a + n))"
proof -
  have "for_up a (n + 1) f s = Option.bind (for_up a n f s) (for_up (a + n) 1 f)"
    by (rule for_up_append)
  then show ?thesis by (cases "for_up a n f s") (simp_all split: bind_splits)
qed

lemma for_up_cong [fundef_cong]:
  assumes "a = a'" "n = n'" "s = s'"
    and "\<And>i s. a' \<le> i \<Longrightarrow> i < a' + n' \<Longrightarrow> f i s = g i s"
  shows "for_up a n f s = for_up a' n' g s'"
  unfolding assms(1-3) using assms(4)
proof (induction n' arbitrary: a' s')
  case (Suc n)
  then have "f a' s' = g a' s'" by simp
  moreover have "for_up (Suc a') n f t = for_up (Suc a') n g t" for t
    by (rule Suc.IH) (use Suc.prems in auto)
  ultimately show ?case by (cases "g a' s'") auto
qed simp

lemma for_down_total:
  assumes "P n s"
    and "\<And>j s. j < n \<Longrightarrow> P (Suc j) s \<Longrightarrow> \<exists>s'. f j s = Some s' \<and> P j s'"
  shows "\<exists>s'. for_down n f s = Some s' \<and> P 0 s'"
  using assms
proof (induction n arbitrary: s)
  case 0
  then show ?case by simp
next
  case (Suc n)
  from Suc.prems(2) [of n s] Suc.prems(1) obtain s' where s': "f n s = Some s'" "P n s'"
    by auto
  have "\<exists>s''. for_down n f s' = Some s'' \<and> P 0 s''"
    by (rule Suc.IH [OF s'(2)]) (use Suc.prems(2) in auto)
  with s'(1) show ?case by auto
qed

text \<open>The loop \<open>for (i = 0; i < n; i++) ret[i] = g(i)\<close> fills a prefix of the array.\<close>

lemma for_fill:
  assumes "\<And>i. i < n \<Longrightarrow> g i = Some (f i)" and "n \<le> length a"
  shows "for_up 0 n (\<lambda>i a. Option.bind (g i) (wr a (int i))) a = Some (map f [0..<n] @ drop n a)"
  using assms
proof (induction n)
  case 0
  then show ?case by simp
next
  case (Suc n)
  have IH: "for_up 0 n (\<lambda>i a. Option.bind (g i) (wr a (int i))) a
      = Some (map f [0..<n] @ drop n a)" by (rule Suc.IH) (use Suc.prems in auto)
  have split: "drop n a = a ! n # drop (Suc n) a"
    using Suc.prems(2) by (simp add: Cons_nth_drop_Suc)
  show ?case
    unfolding for_up_Suc_end IH using Suc.prems split
    by (simp add: list_update_append)
qed

lemma for_fill_fresh:
  assumes "\<And>i. i < n \<Longrightarrow> g i = Some (f i)"
  shows "for_up 0 n (\<lambda>i a. Option.bind (g i) (\<lambda>v. wr a (int i) (Some v))) (replicate n None)
    = Some (map (\<lambda>i. Some (f i)) [0..<n])"
proof -
  have "for_up 0 n (\<lambda>i a. Option.bind (map_option Some (g i)) (wr a (int i)))
      (replicate n None) = Some (map (\<lambda>i. Some (f i)) [0..<n] @ drop n (replicate n None))"
    by (rule for_fill) (simp_all add: assms)
  moreover have "Option.bind (map_option Some (g i)) (wr a (int i))
      = Option.bind (g i) (\<lambda>v. wr a (int i) (Some v))" for i and a :: "'a option list"
    by (cases "g i") auto
  ultimately show ?thesis by simp
qed

lemma map_upt_nth: "length xs = n \<Longrightarrow> map (\<lambda>i. f (xs ! i)) [0..<n] = map f xs"
  by (intro nth_equalityI) simp_all

subsection \<open>Products\<close>

lemma prod_list_pos: "\<forall>x \<in> set xs. 0 < x \<Longrightarrow> 0 < prod_list (xs :: int list)"
  by (induction xs) auto

lemma prod_list_ge_1: "\<forall>x \<in> set xs. 0 < x \<Longrightarrow> 1 \<le> prod_list (xs :: int list)"
  using prod_list_pos [of xs] by linarith

lemma prod_list_append_int [simp]:
  "prod_list (xs @ ys) = prod_list xs * prod_list (ys :: int list)"
  by (induction xs) (auto simp: mult.assoc)

lemma prod_list_take_le:
  assumes "\<forall>x \<in> set xs. 0 < x"
  shows "prod_list (take k xs) \<le> prod_list (xs :: int list)"
proof -
  have "prod_list xs = prod_list (take k xs) * prod_list (drop k xs)"
    by (metis append_take_drop_id prod_list_append_int)
  moreover have "1 \<le> prod_list (drop k xs)"
    by (rule prod_list_ge_1) (use assms in \<open>auto dest: in_set_dropD\<close>)
  moreover have "0 < prod_list (take k xs)"
    by (rule prod_list_pos) (use assms in \<open>auto dest: in_set_takeD\<close>)
  ultimately show ?thesis by simp
qed

lemma prod_list_drop_le:
  assumes "\<forall>x \<in> set xs. 0 < x"
  shows "prod_list (drop k xs) \<le> prod_list (xs :: int list)"
proof -
  have "prod_list xs = prod_list (take k xs) * prod_list (drop k xs)"
    by (metis append_take_drop_id prod_list_append_int)
  moreover have "1 \<le> prod_list (take k xs)"
    by (rule prod_list_ge_1) (use assms in \<open>auto dest: in_set_takeD\<close>)
  moreover have "0 < prod_list (drop k xs)"
    by (rule prod_list_pos) (use assms in \<open>auto dest: in_set_dropD\<close>)
  ultimately show ?thesis by simp
qed

lemma prod_list_take_Suc:
  "i < length xs \<Longrightarrow> prod_list (take (Suc i) xs) = prod_list (take i xs) * (xs ! i :: int)"
  by (simp add: take_Suc_conv_app_nth)

lemma prod_list_drop_Suc:
  "i < length xs \<Longrightarrow> prod_list (drop i xs) = (xs ! i :: int) * prod_list (drop (Suc i) xs)"
  by (simp flip: Cons_nth_drop_Suc)

end
