(* ===== verification/ShapeArrays.thy ===== *)
theory ShapeArrays
  imports CPrelude
begin

text \<open>
  The routines of \<open>include/helpers/shape.h\<close> on plain integer arrays: products, copies, reversed
  copies, index removal and selection, ranges and concatenation.  Arrays that a routine allocates or
  fills for its caller are lists of cells, because not every routine writes all of them.
\<close>

subsection \<open>Products\<close>

definition prod_int :: "int list \<Rightarrow> int \<Rightarrow> int option" where
  "prod_int data n =
     for_up 0 (nat n) (\<lambda>i p. do { d \<leftarrow> rd data (int i); i32 (p * d) }) 1"

definition prodLong :: "int list \<Rightarrow> int \<Rightarrow> int option" where
  "prodLong data n =
     for_up 0 (nat n) (\<lambda>i p. do { d \<leftarrow> rd data (int i); i64 (p * d) }) 1"

subsection \<open>Copies\<close>

definition memcpy_ints :: "cells \<Rightarrow> int list \<Rightarrow> int \<Rightarrow> cells option" where
  "memcpy_ints dst src n =
     (if 0 \<le> n \<and> n \<le> int (length src) \<and> n \<le> int (length dst)
      then Some (map Some (take (nat n) src) @ drop (nat n) dst) else None)"

definition copyOf_into :: "int \<Rightarrow> int list \<Rightarrow> cells \<Rightarrow> cells option" where
  "copyOf_into n toCopy ret = memcpy_ints ret toCopy n"

definition copyOf :: "int \<Rightarrow> int list \<Rightarrow> int list option" where
  "copyOf n toCopy = do { ret \<leftarrow> new_ints n; ret \<leftarrow> copyOf_into n toCopy ret; finish ret }"

definition copyTo :: "int \<Rightarrow> int list \<Rightarrow> cells \<Rightarrow> cells option" where
  "copyTo n from to = memcpy_ints to from n"

definition copyTo_indexed :: "int \<Rightarrow> int list \<Rightarrow> cells \<Rightarrow> int list \<Rightarrow> cells option" where
  "copyTo_indexed n from to indexes =
     for_up 0 (nat n)
       (\<lambda>i to. do { j \<leftarrow> rd indexes (int i); v \<leftarrow> rd from j; wr to (int i) (Some v) }) to"

subsection \<open>Reversed copies\<close>

text \<open>
  The three variants share the loop \<open>for (i = 0; i <= length / 2; i++)\<close> that exchanges the cells
  \<open>i\<close> and \<open>length - i - 1\<close>; they differ in how an element of the source is read.  \<open>nullptr\<close> is the
  pointer from which no cell can be reached.
\<close>

definition reverse_loop :: "(int \<Rightarrow> int option) \<Rightarrow> int \<Rightarrow> cells \<Rightarrow> cells option" where
  "reverse_loop get n to =
     for_up 0 (Suc (nat n div 2))
       (\<lambda>i to. do {
          temp \<leftarrow> get (int i);
          v \<leftarrow> get (n - int i - 1);
          to \<leftarrow> wr to (int i) (Some v);
          wr to (n - int i - 1) (Some temp) }) to"

definition reverseCopy :: "int list \<Rightarrow> int \<Rightarrow> int list option" where
  "reverseCopy data n =
     (if n < 1 then Some []
      else do { copy \<leftarrow> new_ints n; copy \<leftarrow> reverse_loop (rd data) n copy; finish copy })"

definition reverseCopyTo :: "int list \<Rightarrow> cells \<Rightarrow> int \<Rightarrow> cells option" where
  "reverseCopyTo from to n = (if n < 1 then Some to else reverse_loop (rd from) n to)"

definition reverseCopyTo_indexed :: "int list \<Rightarrow> cells \<Rightarrow> int list \<Rightarrow> int \<Rightarrow> cells option" where
  "reverseCopyTo_indexed from to indexes n =
     (if n < 1 then Some to
      else reverse_loop (\<lambda>i. do { j \<leftarrow> rd indexes i; rd from j }) n to)"

subsection \<open>Selecting and removing indexes\<close>

text \<open>The inner search loop \<open>for (j = 0; j < n; j++) if (x == indexes[j]) break;\<close>.\<close>

fun idx_search :: "int list \<Rightarrow> int \<Rightarrow> nat \<Rightarrow> nat \<Rightarrow> bool option" where
  "idx_search indexes x j 0 = Some False"
| "idx_search indexes x j (Suc n) =
     do { v \<leftarrow> rd indexes (int j);
          if v = x then Some True else idx_search indexes x (Suc j) n }"

definition removeIndex_into :: "int list \<Rightarrow> int list \<Rightarrow> int \<Rightarrow> int \<Rightarrow> cells \<Rightarrow> cells option" where
  "removeIndex_into data indexes dataLength indexesLength ret = do {
     let absLength = dataLength - indexesLength;
     (count, ret) \<leftarrow> for_up 0 (nat dataLength)
       (\<lambda>i (count, ret).
          if \<not> count < absLength then Some (count, ret)
          else do {
            contains \<leftarrow> idx_search indexes (int i) 0 (nat indexesLength);
            if \<not> contains
            then do { d \<leftarrow> rd data (int i); ret \<leftarrow> wr ret count (Some d); Some (count + 1, ret) }
            else Some (count, ret) })
       (0, ret);
     Some ret }"

definition removeIndex :: "int list \<Rightarrow> int list \<Rightarrow> int \<Rightarrow> int \<Rightarrow> cells option" where
  "removeIndex data indexes dataLength indexesLength = do {
     ret \<leftarrow> new_ints (dataLength - indexesLength);
     removeIndex_into data indexes dataLength indexesLength ret }"

definition everyIndexBut :: "int list \<Rightarrow> int \<Rightarrow> int \<Rightarrow> int \<Rightarrow> cells option" where
  "everyIndexBut indexes indexesLength lo hi = do {
     ret \<leftarrow> new_ints (hi - indexesLength);
     (retIdx, ret) \<leftarrow> for_up 0 (nat (hi - lo))
       (\<lambda>k (retIdx, ret). do {
          let i = lo + int k;
          found \<leftarrow> idx_search indexes i 0 (nat indexesLength);
          if \<not> found then do { ret \<leftarrow> wr ret retIdx (Some i); Some (retIdx + 1, ret) }
          else Some (retIdx, ret) })
       (0, ret);
     Some ret }"

definition keep :: "int list \<Rightarrow> int list \<Rightarrow> int \<Rightarrow> int \<Rightarrow> cells option" where
  "keep data index indexLength dataLength = do {
     ret \<leftarrow> new_ints indexLength;
     (count, ret) \<leftarrow> for_up 0 (nat dataLength)
       (\<lambda>i (count, ret). do {
          contains \<leftarrow> idx_search index (int i) 0 (nat indexLength);
          if contains
          then do { d \<leftarrow> rd data (int i); ret \<leftarrow> wr ret count (Some d); Some (count + 1, ret) }
          else Some (count, ret) })
       (0, ret);
     Some ret }"

subsection \<open>Ranges and concatenation\<close>

function range_up :: "int \<Rightarrow> int \<Rightarrow> int \<Rightarrow> int \<Rightarrow> int \<Rightarrow> cells \<Rightarrow> cells option" where
  "range_up i to inc n count ret =
     (if i < to then
        (if count \<ge> n then Some ret
         else do { ret \<leftarrow> wr ret count (Some i); j \<leftarrow> i32 (i + inc); range_up j to inc n (count + 1) ret })
      else Some ret)"
  by pat_completeness auto
termination
  by (relation "measure (\<lambda>(i, to, inc, n, count, ret). nat (n - count))") auto

function range_down :: "int \<Rightarrow> int \<Rightarrow> int \<Rightarrow> int \<Rightarrow> int \<Rightarrow> cells \<Rightarrow> cells option" where
  "range_down i to inc n count ret =
     (if i \<ge> to then
        (if count \<ge> n then Some ret
         else do { ret \<leftarrow> wr ret count (Some i); j \<leftarrow> i32 (i - inc); range_down j to inc n (count + 1) ret })
      else Some ret)"
  by pat_completeness auto
termination
  by (relation "measure (\<lambda>(i, to, inc, n, count, ret). nat (n - count))") auto

declare range_up.simps [simp del] range_down.simps [simp del]

definition range_inc :: "int \<Rightarrow> int \<Rightarrow> int \<Rightarrow> cells option" where
  "range_inc from to increment = do {
     d \<leftarrow> i32 (from - to);
     diff \<leftarrow> i32 \<bar>d\<bar>;
     retLength \<leftarrow> cdiv diff increment;
     ret \<leftarrow> new_ints (if retLength < 1 then 1 else retLength);
     if from < to then range_up from to increment retLength 0 ret
     else if from > to then range_down (from - 1) to increment retLength 0 ret
     else Some ret }"

definition range_ints :: "int \<Rightarrow> int \<Rightarrow> cells option" where
  "range_ints from to = range_inc from to 1"

definition concat2 :: "int list \<Rightarrow> int \<Rightarrow> int list \<Rightarrow> int \<Rightarrow> int list option" where
  "concat2 arr1 arr1Length arr2 arr2Length = do {
     ret \<leftarrow> new_ints (arr1Length + arr2Length);
     ret \<leftarrow> memcpy_ints ret arr1 arr1Length;
     tail \<leftarrow> memcpy_ints (drop (nat arr1Length) ret) arr2 arr2Length;
     finish (take (nat arr1Length) ret @ tail) }"

definition concat_arrays :: "int \<Rightarrow> int \<Rightarrow> int list list \<Rightarrow> int list \<Rightarrow> cells option" where
  "concat_arrays numArrays numTotalElements arr lengths = do {
     ret \<leftarrow> new_ints numTotalElements;
     (count, ret) \<leftarrow> for_up 0 (nat numArrays)
       (\<lambda>i (count, ret). do {
          n \<leftarrow> rd lengths (int i);
          a \<leftarrow> rd arr (int i);
          for_up 0 (nat n)
            (\<lambda>j (count, ret). do {
               v \<leftarrow> rd a (int j); ret \<leftarrow> wr ret count (Some v); Some (count + 1, ret) })
            (count, ret) })
       (0, ret);
     Some ret }"

definition ensureVectorShape_dim :: "int list \<Rightarrow> int \<Rightarrow> int list option" where
  "ensureVectorShape_dim shape dimension = do {
     s \<leftarrow> rd shape 0;
     Some (if dimension = 0 then [1, s] else [s, 1]) }"

definition ensureVectorShape :: "int list \<Rightarrow> int list option" where
  "ensureVectorShape shape = ensureVectorShape_dim shape 0"

definition slice :: "int list \<Rightarrow> int list" where
  "slice shape = drop 1 shape"

subsection \<open>Products: exact unless the machine word overflows\<close>

definition pos_dims :: "int list \<Rightarrow> bool" where
  "pos_dims shape \<longleftrightarrow> (\<forall>d \<in> set shape. 0 < d)"

lemma pos_dims_simps [simp]:
  "pos_dims []" "pos_dims (x # xs) \<longleftrightarrow> 0 < x \<and> pos_dims xs"
  "pos_dims (xs @ ys) \<longleftrightarrow> pos_dims xs \<and> pos_dims ys"
  by (auto simp: pos_dims_def)

lemma pos_dims_nth: "pos_dims xs \<Longrightarrow> i < length xs \<Longrightarrow> 0 < xs ! i"
  by (simp add: pos_dims_def)

lemma pos_dims_take: "pos_dims xs \<Longrightarrow> pos_dims (take k xs)"
  by (auto simp: pos_dims_def dest: in_set_takeD)

lemma pos_dims_drop: "pos_dims xs \<Longrightarrow> pos_dims (drop k xs)"
  by (auto simp: pos_dims_def dest: in_set_dropD)

lemma pos_dims_prod: "pos_dims xs \<Longrightarrow> 0 < prod_list xs"
  by (simp add: pos_dims_def prod_list_pos)

lemma pos_dims_prod_take_le: "pos_dims xs \<Longrightarrow> prod_list (take k xs) \<le> prod_list xs"
  by (simp add: pos_dims_def prod_list_take_le)

lemma pos_dims_prod_drop_le: "pos_dims xs \<Longrightarrow> prod_list (drop k xs) \<le> prod_list xs"
  by (simp add: pos_dims_def prod_list_drop_le)

lemmas pos_dims_intros = pos_dims_nth pos_dims_take pos_dims_drop pos_dims_prod
  pos_dims_prod_take_le pos_dims_prod_drop_le

lemma prod_loop:
  assumes "pos_dims (take n data)" and "n \<le> length data"
    and "\<And>x. 0 < x \<Longrightarrow> x \<le> prod_list (take n data) \<Longrightarrow> chk x = Some x"
  shows "for_up 0 n (\<lambda>i p. do { d \<leftarrow> rd data (int i); chk (p * d) }) (1 :: int)
    = Some (prod_list (take n data))"
proof -
  let ?f = "\<lambda>i p. do { d \<leftarrow> rd data (int i); chk (p * d) }"
  have "\<exists>p. for_up 0 n ?f 1 = Some p \<and> p = prod_list (take (0 + n) data)"
  proof (rule for_up_total)
    show "(1 :: int) = prod_list (take 0 data)" by simp
  next
    fix j p
    assume j: "0 \<le> j" "j < 0 + n" and p: "p = prod_list (take j data)"
    have le: "prod_list (take (Suc j) data) \<le> prod_list (take n data)"
      using pos_dims_prod_take_le [OF assms(1), of "Suc j"] j by (simp add: min_def)
    have "pos_dims (take (Suc j) data)"
      using pos_dims_take [OF assms(1), of "Suc j"] j by (simp add: min_def)
    then have pos: "0 < prod_list (take (Suc j) data)" by (rule pos_dims_prod)
    have "p * data ! j = prod_list (take (Suc j) data)"
      using p j assms(2) by (simp add: prod_list_take_Suc)
    with assms(3) [OF pos le] show "\<exists>s'. ?f j p = Some s' \<and> s' = prod_list (take (Suc j) data)"
      using j assms(2) by simp
  qed
  then show ?thesis by simp
qed

lemma prod_int_exact:
  assumes "pos_dims (take n data)" "n \<le> length data" "prod_list (take n data) < 2 ^ 31"
  shows "prod_int data (int n) = Some (prod_list (take n data))"
  unfolding prod_int_def nat_int
  by (rule prod_loop [OF assms(1,2)]) (use assms(3) in \<open>simp add: i32_def\<close>)

lemma prodLong_exact:
  assumes "pos_dims (take n data)" "n \<le> length data" "prod_list (take n data) < 2 ^ 63"
  shows "prodLong data (int n) = Some (prod_list (take n data))"
  unfolding prodLong_def nat_int
  by (rule prod_loop [OF assms(1,2)]) (use assms(3) in \<open>simp add: i64_def\<close>)

subsection \<open>Copies and reversed copies\<close>

lemma copyOf_exact: "n \<le> length xs \<Longrightarrow> copyOf (int n) xs = Some (take n xs)"
  by (simp add: copyOf_def copyOf_into_def memcpy_ints_def)

lemma copyTo_indexed_exact:
  assumes "n \<le> length indexes" "n \<le> length to"
    and "\<And>i. i < n \<Longrightarrow> 0 \<le> indexes ! i \<and> indexes ! i < int (length from)"
  shows "copyTo_indexed (int n) from to indexes
    = Some (map (\<lambda>i. Some (from ! nat (indexes ! i))) [0..<n] @ drop n to)"
proof -
  let ?g = "\<lambda>i. do { j \<leftarrow> rd indexes (int i); v \<leftarrow> rd from j; Some (Some v) }"
  have "for_up 0 n (\<lambda>i a. Option.bind (?g i) (wr a (int i))) to
      = Some (map (\<lambda>i. Some (from ! nat (indexes ! i))) [0..<n] @ drop n to)"
    by (rule for_fill) (use assms in \<open>auto simp: rd_in_range\<close>)
  then show ?thesis
    by (simp add: copyTo_indexed_def cong: for_up_cong)
qed

lemma reverse_loop_exact:
  assumes n: "1 \<le> n" "n \<le> length to"
    and get: "\<And>i. i < n \<Longrightarrow> get (int i) = Some (src ! i)" and src: "length src = n"
  shows "reverse_loop get (int n) to = Some (map Some (rev src) @ drop n to)"
proof -
  let ?P = "\<lambda>j a. length a = length to \<and> drop n a = drop n to
    \<and> (\<forall>k < n. (k < j \<or> n - 1 - k < j) \<longrightarrow> a ! k = Some (src ! (n - 1 - k)))"
  let ?f = "\<lambda>i to. do { temp \<leftarrow> get (int i); v \<leftarrow> get (int n - int i - 1);
      to \<leftarrow> wr to (int i) (Some v); wr to (int n - int i - 1) (Some temp) }"
  have "\<exists>a. for_up 0 (Suc (n div 2)) ?f to = Some a \<and> ?P (0 + Suc (n div 2)) a"
  proof (rule for_up_total)
    fix j a
    assume j: "j < 0 + Suc (n div 2)" and P: "?P j a"
    then have jn: "j < n" using n by (cases "n = 1") auto
    have idx: "int n - int j - 1 = int (n - 1 - j)" using jn by (simp add: of_nat_diff)
    have "get (int (n - 1 - j)) = Some (src ! (n - 1 - j))" by (rule get) (use jn in simp)
    then have step: "?f j a = Some (a[j := Some (src ! (n - 1 - j)), n - 1 - j := Some (src ! j)])"
      using get [OF jn] jn n P unfolding idx by (simp del: of_nat_diff)
    moreover have "?P (Suc j) (a[j := Some (src ! (n - 1 - j)), n - 1 - j := Some (src ! j)])"
      using P jn n by (auto simp: nth_list_update less_Suc_eq drop_update_cancel)
    ultimately show "\<exists>s'. ?f j a = Some s' \<and> ?P (Suc j) s'" by blast
  qed simp
  then obtain a where a: "reverse_loop get (int n) to = Some a" "?P (Suc (n div 2)) a"
    by (auto simp: reverse_loop_def)
  have "a ! k = Some (src ! (n - 1 - k))" if "k < n" for k
  proof -
    have "k < Suc (n div 2) \<or> n - 1 - k < Suc (n div 2)" by linarith
    with a(2) that show ?thesis by blast
  qed
  then have "take n a = map Some (rev src)"
    using a(2) n src by (intro nth_equalityI) (auto simp: rev_nth)
  then have "a = map Some (rev src) @ drop n to"
    using a(2) by (metis append_take_drop_id)
  with a(1) show ?thesis by simp
qed

lemma reverseCopy_exact:
  assumes "1 \<le> n" "n \<le> length data"
  shows "reverseCopy data (int n) = Some (rev (take n data))"
proof -
  have "reverse_loop (rd data) (int n) (replicate n None)
      = Some (map Some (rev (take n data)) @ drop n (replicate n None))"
    by (rule reverse_loop_exact) (use assms in auto)
  then show ?thesis using assms by (simp add: reverseCopy_def)
qed

lemma reverseCopyTo_indexed_exact:
  assumes "1 \<le> n" "n \<le> length indexes" "n \<le> length to"
    and "\<And>i. i < n \<Longrightarrow> 0 \<le> indexes ! i \<and> indexes ! i < int (length from)"
  shows "reverseCopyTo_indexed from to indexes (int n)
    = Some (map Some (rev (map (\<lambda>i. from ! nat (indexes ! i)) [0..<n])) @ drop n to)"
proof -
  have "reverse_loop (\<lambda>i. do { j \<leftarrow> rd indexes i; rd from j }) (int n) to
      = Some (map Some (rev (map (\<lambda>i. from ! nat (indexes ! i)) [0..<n])) @ drop n to)"
    by (rule reverse_loop_exact) (use assms in \<open>auto simp: rd_in_range\<close>)
  then show ?thesis using assms(1) by (simp add: reverseCopyTo_indexed_def)
qed

subsection \<open>Selecting and removing indexes\<close>

lemma idx_search_exact:
  "j + n \<le> length indexes \<Longrightarrow>
   idx_search indexes x j n = Some (x \<in> set (take n (drop j indexes)))"
proof (induction n arbitrary: j)
  case (Suc n)
  then have "drop j indexes = indexes ! j # drop (Suc j) indexes"
    by (simp add: Cons_nth_drop_Suc)
  with Suc show ?case by auto
qed simp

lemma idx_search_all [simp]:
  "idx_search indexes x 0 (length indexes) = Some (x \<in> set indexes)"
  by (simp add: idx_search_exact)

text \<open>
  The shape of the selection loops: the elements with \<open>sel i\<close> are appended to the output at a
  running cursor, until the output holds \<open>limit\<close> of them.
\<close>

abbreviation (input) filter_body ::
  "(nat \<Rightarrow> bool option) \<Rightarrow> (nat \<Rightarrow> int option) \<Rightarrow> nat \<Rightarrow> int \<times> cells \<Rightarrow> (int \<times> cells) option" where
  "filter_body S g i cr \<equiv> (case cr of (c, r) \<Rightarrow> Option.bind (S i) (\<lambda>b.
     if b then Option.bind (g i) (\<lambda>d. Option.bind (wr r c (Some d)) (\<lambda>r. Some (c + 1, r)))
     else Some (c, r)))"

lemma for_filter_fill:
  fixes f :: "nat \<Rightarrow> int"
  assumes S: "\<And>i. i < n \<Longrightarrow> S i = Some (sel i)"
    and g: "\<And>i. i < n \<Longrightarrow> sel i \<Longrightarrow> g i = Some (f i)"
    and len: "length (filter sel [0..<n]) \<le> length ret"
  shows "for_up 0 n (filter_body S g) (0, ret)
    = Some (int (length (filter sel [0..<n])),
        map Some (map f (filter sel [0..<n])) @ drop (length (filter sel [0..<n])) ret)"
  using assms
proof (induction n)
  case (Suc n)
  let ?xs = "map f (filter sel [0..<n])"
  have IH: "for_up 0 n (filter_body S g) (0, ret)
      = Some (int (length (filter sel [0..<n])),
          map Some ?xs @ drop (length (filter sel [0..<n])) ret)"
    by (rule Suc.IH) (use Suc.prems in \<open>auto split: if_splits\<close>)
  show ?case
  proof (cases "sel n")
    case True
    then have lt: "length (filter sel [0..<n]) < length ret" using Suc.prems(3) by simp
    then have "drop (length (filter sel [0..<n])) ret
        = ret ! length (filter sel [0..<n]) # drop (Suc (length (filter sel [0..<n]))) ret"
      by (simp add: Cons_nth_drop_Suc)
    with True Suc.prems(1) [of n] Suc.prems(2) [of n] lt show ?thesis
      unfolding for_up_Suc_end IH by (simp add: list_update_append)
  next
    case False
    with Suc.prems(1) [of n] show ?thesis unfolding for_up_Suc_end IH by simp
  qed
qed simp

lemma keep_exact:
  assumes "dl \<le> length data" "length (filter (\<lambda>i. int i \<in> set index) [0..<dl]) \<le> length index"
  shows "keep data index (int (length index)) (int dl)
    = Some (map Some (map ((!) data) (filter (\<lambda>i. int i \<in> set index) [0..<dl]))
        @ replicate (length index - length (filter (\<lambda>i. int i \<in> set index) [0..<dl])) None)"
proof -
  let ?S = "\<lambda>i. idx_search index (int i) 0 (length index)"
  have "for_up 0 dl (filter_body ?S (\<lambda>i. rd data (int i))) (0, replicate (length index) None)
    = Some (int (length (filter (\<lambda>i. int i \<in> set index) [0..<dl])),
        map Some (map ((!) data) (filter (\<lambda>i. int i \<in> set index) [0..<dl]))
        @ drop (length (filter (\<lambda>i. int i \<in> set index) [0..<dl])) (replicate (length index) None))"
    by (rule for_filter_fill) (use assms in auto)
  then show ?thesis by (simp add: keep_def drop_replicate)
qed

lemma filter_index_length:
  "length (filter (\<lambda>i. int i \<in> set index) [0..<n]) = card (set index \<inter> {0..<int n})"
proof -
  have "length (filter (\<lambda>i. int i \<in> set index) [0..<n]) = card {i. i < n \<and> int i \<in> set index}"
    by (simp add: length_filter_conv_card) (rule arg_cong [where f = card], auto)
  also have "\<dots> = card (int ` {i. i < n \<and> int i \<in> set index})"
    by (simp add: card_image)
  also have "int ` {i. i < n \<and> int i \<in> set index} = set index \<inter> {0..<int n}"
    by (auto simp: image_iff) (metis nonneg_int_cases of_nat_less_iff)
  finally show ?thesis .
qed

text \<open>
  The output of \<open>keep\<close> never overflows, whatever the index array holds.  It is completely written
  exactly when the indexes are distinct and in range.
\<close>

lemma keep_never_overflows:
  "length (filter (\<lambda>i. int i \<in> set index) [0..<n]) \<le> length index"
proof -
  have "card (set index \<inter> {0..<int n}) \<le> card (set index)" by (intro card_mono) auto
  also have "\<dots> \<le> length index" by (rule card_length)
  finally show ?thesis by (simp add: filter_index_length)
qed

definition valid_dims :: "int \<Rightarrow> int list \<Rightarrow> bool" where
  "valid_dims rank dims \<longleftrightarrow> distinct dims \<and> (\<forall>d \<in> set dims. 0 \<le> d \<and> d < rank)"

lemma valid_dims_card:
  assumes "valid_dims (int n) dims"
  shows "length (filter (\<lambda>i. int i \<in> set dims) [0..<n]) = length dims"
proof -
  have "set dims \<inter> {0..<int n} = set dims" using assms by (auto simp: valid_dims_def)
  then show ?thesis using assms by (simp add: filter_index_length valid_dims_def distinct_card)
qed

lemma valid_dims_card_compl:
  assumes "valid_dims (int n) dims"
  shows "length (filter (\<lambda>i. int i \<notin> set dims) [0..<n]) = n - length dims"
  using sum_length_filter_compl [of "\<lambda>i. int i \<in> set dims" "[0..<n]"] valid_dims_card [OF assms]
  by simp

lemma valid_dims_length: "valid_dims (int n) dims \<Longrightarrow> length dims \<le> n"
  by (metis valid_dims_card length_filter_le length_upt minus_nat.diff_0)

lemma keep_valid:
  assumes "valid_dims (int dl) index" "dl \<le> length data"
  shows "keep data index (int (length index)) (int dl)
    = Some (map Some (map ((!) data) (filter (\<lambda>i. int i \<in> set index) [0..<dl])))"
  using keep_exact [OF assms(2) keep_never_overflows] assms(1) by (simp add: valid_dims_card)

text \<open>
  \<open>removeIndex\<close> keeps exactly the elements whose index is not listed.  The loop's extra condition
  \<open>count < absLength\<close> never cuts the result short on a valid dimension list.
\<close>

lemma removeIndex_loop:
  fixes data :: "int list"
  assumes "\<And>i. i < n \<Longrightarrow> S i = Some (sel i)" "n \<le> length data"
    and "length (filter sel [0..<n]) \<le> limit" "limit \<le> length ret"
  shows "for_up 0 n (\<lambda>i (c, r). if \<not> c < int limit then Some (c, r)
        else do { contains \<leftarrow> map_option Not (S i); if \<not> contains
          then do { d \<leftarrow> rd data (int i); r \<leftarrow> wr r c (Some d); Some (c + 1, r) }
          else Some (c, r) }) (0, ret)
    = Some (int (length (filter sel [0..<n])),
        map Some (map ((!) data) (filter sel [0..<n])) @ drop (length (filter sel [0..<n])) ret)"
  using assms
proof (induction n)
  case (Suc n)
  let ?f = "\<lambda>i (c, r). if \<not> c < int limit then Some (c, r)
        else do { contains \<leftarrow> map_option Not (S i); if \<not> contains
          then do { d \<leftarrow> rd data (int i); r \<leftarrow> wr r c (Some d); Some (c + 1, r) }
          else Some (c, r) }"
  let ?k = "length (filter sel [0..<n])"
  have IH: "for_up 0 n ?f (0, ret)
      = Some (int ?k, map Some (map ((!) data) (filter sel [0..<n])) @ drop ?k ret)"
    by (rule Suc.IH) (use Suc.prems in \<open>auto split: if_splits\<close>)
  show ?case
  proof (cases "sel n")
    case True
    then have lt: "?k < limit" "?k < length ret" using Suc.prems(3,4) by auto
    then have "drop ?k ret = ret ! ?k # drop (Suc ?k) ret" by (simp add: Cons_nth_drop_Suc)
    with True Suc.prems(1) [of n] Suc.prems(2) lt show ?thesis
      unfolding for_up_Suc_end IH by (simp add: list_update_append)
  next
    case False
    with Suc.prems(1) [of n] show ?thesis unfolding for_up_Suc_end IH by simp
  qed
qed simp

lemma removeIndex_exact:
  assumes v: "valid_dims (int n) indexes" and n: "n \<le> length data"
  shows "removeIndex data indexes (int n) (int (length indexes))
    = Some (map Some (map ((!) data) (filter (\<lambda>i. int i \<notin> set indexes) [0..<n])))"
proof -
  let ?lim = "n - length indexes" and ?sel = "\<lambda>i. int i \<notin> set indexes"
  note len = valid_dims_card_compl [OF v]
  have abs: "int n - int (length indexes) = int ?lim"
    using valid_dims_length [OF v] by (simp add: of_nat_diff)
  have search: "map_option Not (Some (?sel i)) = idx_search indexes (int i) 0 (length indexes)" for i
    by simp
  have "for_up 0 n (\<lambda>i (c, r). if \<not> c < int ?lim then Some (c, r)
        else do { contains \<leftarrow> map_option Not (Some (?sel i)); if \<not> contains
          then do { d \<leftarrow> rd data (int i); r \<leftarrow> wr r c (Some d); Some (c + 1, r) }
          else Some (c, r) }) (0, replicate ?lim None)
    = Some (int (length (filter ?sel [0..<n])), map Some (map ((!) data) (filter ?sel [0..<n]))
        @ drop (length (filter ?sel [0..<n])) (replicate ?lim None))"
    by (rule removeIndex_loop) (use n len in auto)
  then show ?thesis
    unfolding removeIndex_def removeIndex_into_def abs search new_ints_nat nat_int using len by simp
qed

subsection \<open>Ranges\<close>

lemma range_up_exact:
  assumes "n = c + m" "n \<le> length ret" "0 < inc"
    and "\<And>k. k < m \<Longrightarrow> i + int k * inc < to"
    and "- (2 ^ 31) \<le> i" "i + int m * inc < 2 ^ 31"
  shows "range_up i to inc (int n) (int c) ret
    = Some (take c ret @ map (\<lambda>k. Some (i + int k * inc)) [0..<m] @ drop n ret)"
  using assms
proof (induction m arbitrary: i c ret)
  case 0
  then show ?case by (subst range_up.simps) simp
next
  case (Suc m)
  have "i < to" using Suc.prems(4) [of 0] by simp
  have "0 \<le> inc * int m" using Suc.prems(3) by simp
  moreover have "i + inc + inc * int m < 2 ^ 31"
    using Suc.prems(6) by (simp add: algebra_simps)
  ultimately have "i + inc < 2 ^ 31" by linarith
  then have j: "i32 (i + inc) = Some (i + inc)"
    using Suc.prems(3,5) by (intro i32_in_range) auto
  have step: "range_up i to inc (int n) (int c) ret
      = range_up (i + inc) to inc (int n) (int (Suc c)) (ret[c := Some i])"
    using \<open>i < to\<close> j Suc.prems(1,2) by (subst range_up.simps) (simp add: add.commute)
  have "range_up (i + inc) to inc (int n) (int (Suc c)) (ret[c := Some i])
      = Some (take (Suc c) (ret[c := Some i])
          @ map (\<lambda>k. Some (i + inc + int k * inc)) [0..<m] @ drop n (ret[c := Some i]))"
  proof (rule Suc.IH)
    show "i + inc + int k * inc < to" if "k < m" for k
      using Suc.prems(4) [of "Suc k"] that by (simp add: algebra_simps)
  qed (use Suc.prems in \<open>auto simp: algebra_simps\<close>)
  moreover have "take (Suc c) (ret[c := Some i]) = take c ret @ [Some i]"
    using Suc.prems(1,2) by (simp add: take_Suc_conv_app_nth)
  moreover have "map (\<lambda>k. Some (i + int k * inc)) [0..<Suc m]
      = Some i # map (\<lambda>k. Some (i + inc + int k * inc)) [0..<m]"
    by (simp add: upt_conv_Cons map_Suc_upt [symmetric] del: upt_Suc) (simp add: algebra_simps)
  ultimately show ?case using step Suc.prems(1) by simp
qed

lemma range_ints_exact:
  assumes "0 < n" "n < 2 ^ 31"
  shows "range_ints 0 (int n) = Some (map (\<lambda>k. Some (int k)) [0..<n])"
proof -
  have "int n < 2 ^ 31" using assms(2) by (simp flip: of_nat_less_iff)
  then have "i32 (- int n) = Some (- int n)" "i32 (int n) = Some (int n)"
    by (simp_all add: i32_def)
  moreover have "range_up 0 (int n) 1 (int n) (int 0) (replicate n None)
      = Some (take 0 (replicate n None) @ map (\<lambda>k. Some (0 + int k * 1)) [0..<n]
          @ drop n (replicate n None))"
    by (rule range_up_exact) (use assms \<open>int n < 2 ^ 31\<close> in auto)
  ultimately show ?thesis using assms(1)
    by (simp add: range_ints_def range_inc_def cdiv_def)
qed

end
