(* ===== verification/ShapeInfo.thy ===== *)
theory ShapeInfo
  imports ShapeArrays
begin

text \<open>
  The shape information buffer of \<open>include/helpers/shape.h\<close>: one integer array that holds the rank,
  the shape, the strides, the offset, the element-wise stride and the order of an array, with its
  accessors, its record form \<open>ShapeInformation\<close>, the conversions between the two, and the
  predicates and comparisons on it.
\<close>

record ShapeInformation =
  si_shape :: "int list"
  si_stride :: "int list"
  si_order :: int
  si_rank :: int
  si_offset :: int
  si_elementWiseStride :: int

subsection \<open>Accessors\<close>

text \<open>Conversion of an \<open>int\<close> to the \<open>char\<close> type of 8 bits.\<close>

definition to_char :: "int \<Rightarrow> int" where
  "to_char x = (x + 128) mod 256 - 128"

definition shapeInfoLength :: "int \<Rightarrow> int" where
  "shapeInfoLength rank = rank * 2 + 4"

definition shapeInfoByteLength :: "int \<Rightarrow> int" where
  "shapeInfoByteLength rank = (rank * 2 + 4) * 4"

definition rank_of :: "int list \<Rightarrow> int option" where
  "rank_of buffer = rd buffer 0"

definition shapeInfoLength_of :: "int list \<Rightarrow> int option" where
  "shapeInfoLength_of shape = do { r \<leftarrow> rd shape 0; Some (shapeInfoLength r) }"

definition shapeInfoByteLength_of :: "int list \<Rightarrow> int option" where
  "shapeInfoByteLength_of shapeInfo = do { r \<leftarrow> rd shapeInfo 0; Some (shapeInfoByteLength r) }"

definition shapeOf :: "int list \<Rightarrow> int list" where
  "shapeOf buffer = drop 1 buffer"

definition stride_of :: "int list \<Rightarrow> int list option" where
  "stride_of buffer = do {
     r \<leftarrow> rank_of buffer;
     if 0 \<le> 1 + r \<and> 1 + r \<le> int (length buffer) then Some (drop (nat (1 + r)) buffer) else None }"

definition length_of :: "int list \<Rightarrow> int option" where
  "length_of shapeInfo = do { r \<leftarrow> rank_of shapeInfo; prodLong (shapeOf shapeInfo) r }"

definition length_list :: "int list \<Rightarrow> int option" where
  "length_list shape =
     for_up 0 (length shape) (\<lambda>i ret. do { v \<leftarrow> rd shape (int i); i64 (ret * v) }) 0"

definition offset_of :: "int list \<Rightarrow> int option" where
  "offset_of buffer = do { r \<leftarrow> rank_of buffer; rd buffer (shapeInfoLength r - 3) }"

definition elementWiseStride_of :: "int list \<Rightarrow> int option" where
  "elementWiseStride_of buffer = do { r \<leftarrow> rd buffer 0; rd buffer (shapeInfoLength r - 2) }"

definition order_of :: "int list \<Rightarrow> int option" where
  "order_of buffer = do { r \<leftarrow> rd buffer 0; v \<leftarrow> rd buffer ((r * 2 + 4) - 1); Some (to_char v) }"

definition slices :: "int list \<Rightarrow> int option" where
  "slices shapeBuffer = rd (shapeOf shapeBuffer) 0"

subsection \<open>Record form\<close>

definition toShapeBuffer_into :: "ShapeInformation \<Rightarrow> cells \<Rightarrow> cells option" where
  "toShapeBuffer_into info ret = do {
     let rank = si_rank info;
     ret \<leftarrow> wr ret 0 (Some rank);
     ret \<leftarrow> for_up 0 (nat rank) (\<lambda>i ret. do {
       v \<leftarrow> rd (si_shape info) (int i); wr ret (1 + int i) (Some v) }) ret;
     ret \<leftarrow> for_up 0 (nat rank) (\<lambda>i ret. do {
       v \<leftarrow> rd (si_stride info) (int i); wr ret (1 + int (nat rank) + int i) (Some v) }) ret;
     let count = 1 + int (nat rank) + int (nat rank);
     ret \<leftarrow> wr ret count (Some (si_offset info));
     ret \<leftarrow> wr ret (count + 1) (Some (si_elementWiseStride info));
     wr ret (count + 2) (Some (si_order info)) }"

definition toShapeBuffer :: "ShapeInformation \<Rightarrow> int list option" where
  "toShapeBuffer info = do {
     ret \<leftarrow> new_ints (shapeInfoLength (si_rank info));
     ret \<leftarrow> toShapeBuffer_into info ret;
     finish ret }"

definition infoFromBuffer :: "int list \<Rightarrow> ShapeInformation option" where
  "infoFromBuffer buffer = do {
     r \<leftarrow> rank_of buffer;
     let len = shapeInfoLength r;
     stride \<leftarrow> stride_of buffer;
     off \<leftarrow> rd buffer (len - 3);
     ews \<leftarrow> rd buffer (len - 2);
     ord \<leftarrow> rd buffer (len - 1);
     Some \<lparr>si_shape = drop 1 buffer, si_stride = stride, si_order = to_char ord, si_rank = r,
           si_offset = off, si_elementWiseStride = ews\<rparr> }"

definition shapeCopy :: "ShapeInformation \<Rightarrow> ShapeInformation option" where
  "shapeCopy toCopy = do {
     shape \<leftarrow> copyOf (si_rank toCopy) (si_shape toCopy);
     stride \<leftarrow> copyOf (si_rank toCopy) (si_stride toCopy);
     Some \<lparr>si_shape = shape, si_stride = stride, si_order = si_order toCopy,
           si_rank = si_rank toCopy, si_offset = si_offset toCopy,
           si_elementWiseStride = si_elementWiseStride toCopy\<rparr> }"

definition createShapeInfo_into :: "int list \<Rightarrow> int list \<Rightarrow> int \<Rightarrow> cells \<Rightarrow> cells option" where
  "createShapeInfo_into shape stride rank buffer = do {
     buffer \<leftarrow> wr buffer 0 (Some rank);
     for_up 0 (nat rank) (\<lambda>i buffer. do {
       s \<leftarrow> rd shape (int i);
       buffer \<leftarrow> wr buffer (1 + int i) (Some s);
       t \<leftarrow> rd stride (int i);
       wr buffer (1 + rank + int i) (Some t) }) buffer }"

definition createShapeInfo :: "int list \<Rightarrow> int list \<Rightarrow> int \<Rightarrow> cells option" where
  "createShapeInfo shape stride rank = do {
     ret \<leftarrow> new_ints (shapeInfoLength rank);
     createShapeInfo_into shape stride rank ret }"

definition createScalarShapeInfo :: "int list option" where
  "createScalarShapeInfo =
     toShapeBuffer \<lparr>si_shape = [1, 1], si_stride = [1, 1], si_order = 97, si_rank = 2,
                    si_offset = 0, si_elementWiseStride = 1\<rparr>"

definition createScalarShapeInfo_into :: "cells \<Rightarrow> cells option" where
  "createScalarShapeInfo_into ret = do {
     ret \<leftarrow> wr ret 0 (Some 2); ret \<leftarrow> wr ret 1 (Some 1); ret \<leftarrow> wr ret 2 (Some 1);
     ret \<leftarrow> wr ret 3 (Some 1); ret \<leftarrow> wr ret 4 (Some 1); ret \<leftarrow> wr ret 5 (Some 0);
     ret \<leftarrow> wr ret 6 (Some 1); wr ret 7 (Some 99) }"

subsection \<open>Predicates\<close>

definition isVector :: "int list \<Rightarrow> int \<Rightarrow> int option" where
  "isVector shape rank =
     (if rank > 2 then Some 0
      else do {
        s0 \<leftarrow> rd shape 0;
        if s0 = 1 then Some 1
        else do { s1 \<leftarrow> rd shape 1; Some (c_int (s1 = 1)) } })"

definition isVector_of :: "int list \<Rightarrow> int option" where
  "isVector_of shapeInfo = do { r \<leftarrow> rank_of shapeInfo; isVector (shapeOf shapeInfo) r }"

definition isRowVector :: "int list \<Rightarrow> bool option" where
  "isRowVector shapeInfo = do {
     v \<leftarrow> isVector_of shapeInfo;
     s0 \<leftarrow> rd (shapeOf shapeInfo) 0;
     Some (v = 1 \<and> s0 = 1) }"

definition isColumnVector :: "int list \<Rightarrow> bool option" where
  "isColumnVector shapeInfo = do {
     v \<leftarrow> isVector_of shapeInfo;
     s0 \<leftarrow> rd (shapeOf shapeInfo) 0;
     Some (v = 1 \<and> \<not> s0 = 1) }"

fun oneDim_loop :: "int list \<Rightarrow> int \<Rightarrow> nat \<Rightarrow> nat \<Rightarrow> int option" where
  "oneDim_loop shape rank i 0 = Some 0"
| "oneDim_loop shape rank i (Suc n) = do {
     s \<leftarrow> rd shape (int i);
     p \<leftarrow> prod_int shape rank;
     if s = p then Some 1 else oneDim_loop shape rank (Suc i) n }"

definition oneDimEqualToLength :: "int list \<Rightarrow> int \<Rightarrow> int option" where
  "oneDimEqualToLength shape rank = oneDim_loop shape rank 0 (nat rank)"

definition oneDimEqualToLength_of :: "int list \<Rightarrow> int option" where
  "oneDimEqualToLength_of shapeInfo =
     do { r \<leftarrow> rank_of shapeInfo; oneDimEqualToLength (shapeOf shapeInfo) r }"

definition isMatrix :: "int list \<Rightarrow> int \<Rightarrow> int option" where
  "isMatrix shape rank =
     (if rank > 2 then Some 0
      else do {
        s0 \<leftarrow> rd shape 0;
        if s0 = 1 then Some 0
        else do { s1 \<leftarrow> rd shape 1; Some (c_int (\<not> s1 = 1)) } })"

definition isMatrix_of :: "int list \<Rightarrow> int option" where
  "isMatrix_of shapeInfo = do { r \<leftarrow> rank_of shapeInfo; isMatrix (shapeOf shapeInfo) r }"

definition isScalar :: "int list \<Rightarrow> int option" where
  "isScalar info = do {
     r \<leftarrow> rank_of info;
     if r > 2 then Some 0
     else if r = 1 then do { s0 \<leftarrow> rd (shapeOf info) 0; Some (c_int (s0 = 1)) }
     else if r = 2 then do {
       s0 \<leftarrow> rd (shapeOf info) 0;
       if \<not> s0 = 1 then Some 0
       else do { s1 \<leftarrow> rd (shapeOf info) 1; Some (c_int (s1 = 1)) } }
     else Some 0 }"

definition isScalar_info :: "ShapeInformation \<Rightarrow> int option" where
  "isScalar_info info =
     (if si_rank info > 2 then Some 0
      else if si_rank info = 1 then do { s0 \<leftarrow> rd (si_shape info) 0; Some (c_int (s0 = 1)) }
      else if si_rank info = 2 then do {
        s0 \<leftarrow> rd (si_shape info) 0;
        if \<not> s0 = 1 then Some 0
        else do { s1 \<leftarrow> rd (si_shape info) 1; Some (c_int (s1 = 1)) } }
      else Some 0)"

subsection \<open>Comparisons\<close>

text \<open>\<open>for (e = i; e < i + n; e++) if (a[e] != b[e]) return false;\<close>\<close>

fun cells_agree :: "int list \<Rightarrow> int list \<Rightarrow> nat \<Rightarrow> nat \<Rightarrow> bool option" where
  "cells_agree a b i 0 = Some True"
| "cells_agree a b i (Suc n) = do {
     x \<leftarrow> rd a (int i); y \<leftarrow> rd b (int i);
     if x \<noteq> y then Some False else cells_agree a b (Suc i) n }"

definition shapeEquals :: "int \<Rightarrow> int list \<Rightarrow> int \<Rightarrow> int list \<Rightarrow> bool option" where
  "shapeEquals shape1Rank shape1 shape2Rank shape2 =
     (if shape1Rank \<noteq> shape2Rank then Some False
      else cells_agree shape1 shape2 0 (nat shape1Rank))"

definition shapeEquals_of :: "int list \<Rightarrow> int list \<Rightarrow> bool option" where
  "shapeEquals_of shapeInfo1 shapeInfo2 = do {
     r1 \<leftarrow> rank_of shapeInfo1; r2 \<leftarrow> rank_of shapeInfo2;
     shapeEquals r1 (shapeOf shapeInfo1) r2 (shapeOf shapeInfo2) }"

definition strideEquals :: "int \<Rightarrow> int list \<Rightarrow> int \<Rightarrow> int list \<Rightarrow> bool option" where
  "strideEquals shape1Rank shape1 shape2Rank shape2 =
     (if shape1Rank \<noteq> shape2Rank then Some False
      else cells_agree shape1 shape2 0 (nat shape1Rank))"

definition strideEquals_of :: "int list \<Rightarrow> int list \<Rightarrow> bool option" where
  "strideEquals_of shapeInfo1 shapeInfo2 = do {
     r1 \<leftarrow> rank_of shapeInfo1; t1 \<leftarrow> stride_of shapeInfo1;
     r2 \<leftarrow> rank_of shapeInfo2; t2 \<leftarrow> stride_of shapeInfo2;
     strideEquals r1 t1 r2 t2 }"

text \<open>
  The overload on bare strides has no \<open>return\<close> after its loop: control that reaches the end of the
  function has no defined result.
\<close>

definition strideEquals_raw :: "int list \<Rightarrow> int \<Rightarrow> int list \<Rightarrow> int \<Rightarrow> bool option" where
  "strideEquals_raw stride1 rank1 stride2 rank2 =
     (if rank1 \<noteq> rank2 then Some False
      else do {
        agree \<leftarrow> cells_agree stride1 stride2 0 (nat rank1);
        if agree then None else Some False })"

definition equalsStrict :: "int list \<Rightarrow> int list \<Rightarrow> bool option" where
  "equalsStrict shapeA shapeB = do {
     a \<leftarrow> rd shapeA 0; b \<leftarrow> rd shapeB 0;
     if a \<noteq> b then Some False
     else cells_agree shapeA shapeB 1 (nat (shapeInfoLength a - 1)) }"

definition equalsSoft :: "int list \<Rightarrow> int list \<Rightarrow> bool option" where
  "equalsSoft shapeA shapeB = do {
     a \<leftarrow> rd shapeA 0; b \<leftarrow> rd shapeB 0;
     if a \<noteq> b then Some False else cells_agree shapeA shapeB 1 (nat a) }"

subsection \<open>Well-formed buffers\<close>

text \<open>
  Every well-formed buffer is \<open>mk_info\<close> of its parts.  The accessor equations over \<open>mk_info\<close> are
  the interface the other theories use.
\<close>

definition mk_info :: "int list \<Rightarrow> int list \<Rightarrow> int \<Rightarrow> int \<Rightarrow> int \<Rightarrow> int list" where
  "mk_info sh st off ews ord = int (length sh) # sh @ st @ [off, ews, ord]"

definition is_char :: "int \<Rightarrow> bool" where
  "is_char c \<longleftrightarrow> -128 \<le> c \<and> c < 128"

lemma to_char_id [simp]: "is_char c \<Longrightarrow> to_char c = c"
  by (simp add: to_char_def is_char_def)

lemma is_char_literals [simp]: "is_char 97" "is_char 99" "is_char 102"
  by (simp_all add: is_char_def)

lemma length_mk_info [buf_simps]:
  "length st = length sh \<Longrightarrow> length (mk_info sh st off ews ord) = 2 * length sh + 4"
  by (simp add: mk_info_def)

lemma rank_mk_info [buf_simps]: "rank_of (mk_info sh st off ews ord) = Some (int (length sh))"
  by (simp add: rank_of_def mk_info_def)

lemma shapeOf_mk_info [buf_simps]:
  "shapeOf (mk_info sh st off ews ord) = sh @ st @ [off, ews, ord]"
  by (simp add: shapeOf_def mk_info_def)

lemma stride_mk_info [buf_simps]:
  "stride_of (mk_info sh st off ews ord) = Some (st @ [off, ews, ord])"
  by (simp add: stride_of_def rank_of_def mk_info_def nat_add_distrib)

lemma tail_mk_info:
  assumes "length st = length sh"
  shows "mk_info sh st off ews ord ! (2 * length sh + 1) = off"
    and "mk_info sh st off ews ord ! (2 * length sh + 2) = ews"
    and "mk_info sh st off ews ord ! (2 * length sh + 3) = ord"
  using assms by (simp_all add: mk_info_def nth_append nth_Cons')

lemma offset_mk_info [buf_simps]:
  assumes "length st = length sh"
  shows "offset_of (mk_info sh st off ews ord) = Some off"
  using tail_mk_info [OF assms] length_mk_info [OF assms, of off ews ord]
  by (simp add: offset_of_def rank_mk_info shapeInfoLength_def rd_def nat_add_distrib nat_mult_distrib mult.commute)

lemma ews_mk_info [buf_simps]:
  assumes "length st = length sh"
  shows "elementWiseStride_of (mk_info sh st off ews ord) = Some ews"
  using tail_mk_info [OF assms] length_mk_info [OF assms, of off ews ord]
    rank_mk_info [of sh st off ews ord]
  by (simp add: elementWiseStride_of_def rank_of_def shapeInfoLength_def rd_def nat_add_distrib
      nat_mult_distrib mult.commute)

lemma order_mk_info [buf_simps]:
  assumes "length st = length sh"
  shows "order_of (mk_info sh st off ews ord) = Some (to_char ord)"
  using tail_mk_info [OF assms] length_mk_info [OF assms, of off ews ord]
    rank_mk_info [of sh st off ews ord]
  by (simp add: order_of_def rank_of_def rd_def nat_add_distrib nat_mult_distrib ac_simps)

subsection \<open>Functional behaviour over well-formed buffers\<close>

lemma length_of_mk_info:
  assumes "pos_dims sh" "prod_list sh < 2 ^ 63"
  shows "length_of (mk_info sh st off ews ord) = Some (prod_list sh)"
  using prodLong_exact [of "length sh" "sh @ st @ [off, ews, ord]"] assms
  by (simp add: length_of_def buf_simps)

lemma fill_at:
  assumes "n \<le> length xs" "k + n \<le> length r"
  shows "for_up 0 n (\<lambda>i r. do { v \<leftarrow> rd xs (int i); wr r (int k + int i) (Some v) }) r
    = Some (take k r @ map Some (take n xs) @ drop (k + n) r)"
  using assms
proof (induction n)
  case (Suc n)
  have IH: "for_up 0 n (\<lambda>i r. do { v \<leftarrow> rd xs (int i); wr r (int k + int i) (Some v) }) r
    = Some (take k r @ map Some (take n xs) @ drop (k + n) r)"
    by (rule Suc.IH) (use Suc.prems in auto)
  have split: "drop (k + n) r = r ! (k + n) # drop (Suc (k + n)) r"
    using Suc.prems by (simp add: Cons_nth_drop_Suc)
  have idx: "int k + int n = int (k + n)" by simp
  show ?case
    unfolding for_up_Suc_end IH
    using Suc.prems split unfolding add_0 idx
    by (simp add: list_update_append take_Suc_conv_app_nth min_def del: of_nat_add)
qed simp

lemma toShapeBuffer_exact:
  assumes "length sh = n" "length st = n"
  shows "toShapeBuffer \<lparr>si_shape = sh @ sh', si_stride = st @ st', si_order = ord,
      si_rank = int n, si_offset = off, si_elementWiseStride = ews\<rparr> = Some (mk_info sh st off ews ord)"
proof -
  let ?r = "Some (int n) # replicate (2 * n + 3) None"
  have new: "new_ints (shapeInfoLength (int n)) = Some (replicate (2 * n + 4) None)"
    using new_ints_nat [of "2 * n + 4"] by (simp add: shapeInfoLength_def mult.commute add.commute)
  have one: "wr (replicate (2 * n + 4) None) 0 (Some (int n)) = Some ?r"
    by (simp add: wr_def numeral_eq_Suc)
  have sh: "for_up 0 n (\<lambda>i r. do { v \<leftarrow> rd (sh @ sh') (int i); wr r (int 1 + int i) (Some v) }) ?r
      = Some (Some (int n) # map Some sh @ replicate (n + 3) None)"
    using assms by (subst fill_at) simp_all
  have st: "for_up 0 n (\<lambda>i r. do { v \<leftarrow> rd (st @ st') (int i);
        wr r (int (1 + n) + int i) (Some v) }) (Some (int n) # map Some sh @ replicate (n + 3) None)
      = Some (Some (int n) # map Some sh @ map Some st @ replicate 3 None)"
    using assms by (subst fill_at) simp_all
  have tail: "wr (Some (int n) # map Some sh @ map Some st @ replicate 3 None) (1 + 2 * int n) v
      = Some (Some (int n) # map Some sh @ map Some st @ [v, None, None])"
    "wr (Some (int n) # map Some sh @ map Some st @ [v, None, None]) (2 + 2 * int n) w
      = Some (Some (int n) # map Some sh @ map Some st @ [v, w, None])"
    "wr (Some (int n) # map Some sh @ map Some st @ [v, w, None]) (3 + 2 * int n) x
      = Some (Some (int n) # map Some sh @ map Some st @ [v, w, x])" for v w x
    using assms wr_append [of "1 + 2 * int n" "Some (int n) # map Some sh @ map Some st" None]
      wr_append [of "2 + 2 * int n" "Some (int n) # map Some sh @ map Some st @ [v]" None]
      wr_append [of "3 + 2 * int n" "Some (int n) # map Some sh @ map Some st @ [v, w]" None]
    by (simp_all add: numeral_eq_Suc)
  have "toShapeBuffer_into \<lparr>si_shape = sh @ sh', si_stride = st @ st', si_order = ord,
      si_rank = int n, si_offset = off, si_elementWiseStride = ews\<rparr> (replicate (2 * n + 4) None)
    = Some (map Some (mk_info sh st off ews ord))"
    using sh st assms unfolding toShapeBuffer_into_def Let_def
    by (simp add: one tail mk_info_def add.assoc del: replicate.simps)
  then show ?thesis unfolding toShapeBuffer_def using new by simp
qed

lemma infoFromBuffer_exact:
  assumes "length st = length sh"
  shows "infoFromBuffer (mk_info sh st off ews ord)
    = Some \<lparr>si_shape = sh @ st @ [off, ews, ord], si_stride = st @ [off, ews, ord],
        si_order = to_char ord, si_rank = int (length sh), si_offset = off,
        si_elementWiseStride = ews\<rparr>"
  using tail_mk_info [OF assms, of off ews ord] length_mk_info [OF assms, of off ews ord]
    shapeOf_mk_info [of sh st off ews ord]
  by (simp add: infoFromBuffer_def Let_def buf_simps assms shapeInfoLength_def rd_def
      nat_add_distrib nat_mult_distrib shapeOf_def ac_simps)

lemma cells_agree_exact:
  assumes "i + n \<le> length a" "i + n \<le> length b"
  shows "cells_agree a b i n = Some (take n (drop i a) = take n (drop i b))"
  using assms
proof (induction n arbitrary: i)
  case (Suc n)
  then have "drop i a = a ! i # drop (Suc i) a" "drop i b = b ! i # drop (Suc i) b"
    by (simp_all add: Cons_nth_drop_Suc)
  with Suc show ?case by auto
qed simp

lemma wr_mk_info [buf_simps]:
  assumes "length st = length sh"
  shows "wr (mk_info sh st off ews ord) (shapeInfoLength (int (length sh)) - 3) v
      = Some (mk_info sh st v ews ord)"
    and "wr (mk_info sh st off ews ord) (shapeInfoLength (int (length sh)) - 2) v
      = Some (mk_info sh st off v ord)"
    and "wr (mk_info sh st off ews ord) (shapeInfoLength (int (length sh)) - 1) v
      = Some (mk_info sh st off ews v)"
  using assms
    wr_append [of "shapeInfoLength (int (length sh)) - 3" "int (length sh) # sh @ st" off "[ews, ord]" v]
    wr_append [of "shapeInfoLength (int (length sh)) - 2" "int (length sh) # sh @ st @ [off]" ews "[ord]" v]
    wr_append [of "shapeInfoLength (int (length sh)) - 1" "int (length sh) # sh @ st @ [off, ews]" ord "[]" v]
  by (simp_all add: mk_info_def shapeInfoLength_def)

lemma copyOf_mk_info [buf_simps]:
  "length st = length sh \<Longrightarrow>
   copyOf (shapeInfoLength (int (length sh))) (mk_info sh st off ews ord)
     = Some (mk_info sh st off ews ord)"
  using copyOf_exact [of "2 * length sh + 4" "mk_info sh st off ews ord"]
  by (simp add: length_mk_info shapeInfoLength_def ac_simps)

end
