(* ===== verification/ShapeStrides.thy ===== *)
theory ShapeStrides
  imports ShapeInfo
begin

text \<open>
  Strides: the packed strides of a shape in row-major (c) and column-major (f) order, the in-place
  stride update, the recognition of an order from the strides, and the stride selections used by
  the reductions (\<open>include/helpers/shape.h\<close>).
\<close>

subsection \<open>Packed strides\<close>

definition fill_ones :: "cells \<Rightarrow> cells option" where
  "fill_ones ret = for_up 0 2 (\<lambda>i ret. wr ret (int i) (Some 1)) ret"

definition fortran_loop :: "int list \<Rightarrow> int \<Rightarrow> int \<Rightarrow> cells \<Rightarrow> cells option" where
  "fortran_loop shape rank startNum ret = do {
     (st, ret) \<leftarrow> for_up 0 (nat rank) (\<lambda>j (st, ret). do {
        ret \<leftarrow> wr ret (int j) (Some st);
        d \<leftarrow> rd shape (int j);
        st \<leftarrow> i32 (st * d);
        Some (st, ret) }) (startNum, ret);
     Some ret }"

definition c_loop :: "int list \<Rightarrow> int \<Rightarrow> int \<Rightarrow> cells \<Rightarrow> cells option" where
  "c_loop shape rank startNum ret = do {
     (st, ret) \<leftarrow> for_down (nat rank) (\<lambda>j (st, ret). do {
        ret \<leftarrow> wr ret (int j) (Some st);
        d \<leftarrow> rd shape (int j);
        st \<leftarrow> i32 (st * d);
        Some (st, ret) }) (startNum, ret);
     Some ret }"

definition calcStridesFortran_start :: "int list \<Rightarrow> int \<Rightarrow> int \<Rightarrow> int list option" where
  "calcStridesFortran_start shape rank startNum = do {
     v \<leftarrow> isVector shape rank;
     if v \<noteq> 0 then do { ret \<leftarrow> new_ints 2; ret \<leftarrow> fill_ones ret; finish ret }
     else do {
       stride \<leftarrow> new_ints rank;
       stride \<leftarrow> fortran_loop shape rank startNum stride;
       finish stride } }"

definition calcStridesFortran_start_into ::
  "int list \<Rightarrow> int \<Rightarrow> int \<Rightarrow> cells \<Rightarrow> cells option" where
  "calcStridesFortran_start_into shape rank startNum ret = do {
     v \<leftarrow> isVector shape rank;
     if v \<noteq> 0 then fill_ones ret else fortran_loop shape rank startNum ret }"

definition calcStrides_start :: "int list \<Rightarrow> int \<Rightarrow> int \<Rightarrow> int list option" where
  "calcStrides_start shape rank startNum = do {
     stride \<leftarrow> new_ints rank;
     v \<leftarrow> isVector shape rank;
     if v \<noteq> 0 then do { stride \<leftarrow> fill_ones stride; finish stride }
     else do { stride \<leftarrow> c_loop shape rank startNum stride; finish stride } }"

definition calcStrides_start_into ::
  "int list \<Rightarrow> int \<Rightarrow> int \<Rightarrow> cells \<Rightarrow> cells option" where
  "calcStrides_start_into shape rank startNum ret = do {
     v \<leftarrow> isVector shape rank;
     if v \<noteq> 0 then fill_ones ret else c_loop shape rank startNum ret }"

definition calcStridesFortran :: "int list \<Rightarrow> int \<Rightarrow> int list option" where
  "calcStridesFortran shape rank = calcStridesFortran_start shape rank 1"

definition calcStridesFortran_into :: "int list \<Rightarrow> int \<Rightarrow> cells \<Rightarrow> cells option" where
  "calcStridesFortran_into shape rank ret = calcStridesFortran_start_into shape rank 1 ret"

definition calcStrides :: "int list \<Rightarrow> int \<Rightarrow> int list option" where
  "calcStrides shape rank = calcStrides_start shape rank 1"

definition calcStrides_into :: "int list \<Rightarrow> int \<Rightarrow> cells \<Rightarrow> cells option" where
  "calcStrides_into shape rank ret = calcStrides_start_into shape rank 1 ret"

definition updateStrides :: "int list \<Rightarrow> int \<Rightarrow> int list option" where
  "updateStrides shape order = do {
     rank \<leftarrow> rd shape 0;
     let doubleRank = 2 * rank;
     shape \<leftarrow> (if order = 99 then do {
         shape \<leftarrow> wr shape doubleRank 1;
         for_up 1 (nat (rank - 1)) (\<lambda>j shape. do {
           t \<leftarrow> rd shape (doubleRank - int j + 1);
           d \<leftarrow> rd shape (rank + 1 - int j);
           p \<leftarrow> i32 (t * d);
           wr shape (doubleRank - int j) p }) shape }
       else do {
         shape \<leftarrow> wr shape (rank + 1) 1;
         for_up (nat (rank + 1)) (nat (doubleRank - (rank + 1))) (\<lambda>j shape. do {
           t \<leftarrow> rd shape (int j);
           d \<leftarrow> rd shape (int j - rank);
           p \<leftarrow> i32 (t * d);
           wr shape (int j + 1) p }) shape });
     shape \<leftarrow> wr shape (doubleRank + 1) 0;
     shape \<leftarrow> wr shape (doubleRank + 2) 1;
     wr shape (doubleRank + 3) order }"

subsection \<open>Recognising an order\<close>

fun c_contiguous :: "int list \<Rightarrow> int list \<Rightarrow> nat \<Rightarrow> int \<Rightarrow> bool option" where
  "c_contiguous shape stride 0 sd = Some True"
| "c_contiguous shape stride (Suc i) sd = do {
     dim \<leftarrow> rd shape (int i);
     t \<leftarrow> rd stride (int i);
     if t \<noteq> sd then Some False
     else if dim = 0 then Some True
     else do { sd \<leftarrow> i32 (sd * dim); c_contiguous shape stride i sd } }"

fun f_contiguous :: "int list \<Rightarrow> int list \<Rightarrow> nat \<Rightarrow> nat \<Rightarrow> int \<Rightarrow> bool \<Rightarrow> bool option" where
  "f_contiguous shape stride i 0 sd isF = Some isF"
| "f_contiguous shape stride i (Suc n) sd isF = do {
     dim \<leftarrow> rd shape (int i);
     t \<leftarrow> rd stride (int i);
     let isF' = (if t \<noteq> sd then False else isF);
     if dim = 0 then Some isF'
     else do { sd \<leftarrow> i32 (sd * dim); f_contiguous shape stride (Suc i) n sd isF' } }"

definition getOrder :: "int \<Rightarrow> int list \<Rightarrow> int list \<Rightarrow> int \<Rightarrow> int option" where
  "getOrder len shape stride elementStride = do {
     cContiguous \<leftarrow> c_contiguous shape stride (nat len) 1;
     isFortran \<leftarrow> f_contiguous shape stride 0 (nat len) elementStride True;
     Some (if isFortran \<and> cContiguous then 97
           else if isFortran \<and> \<not> cContiguous then 102
           else 99) }"

fun strides_ordered :: "(int \<Rightarrow> int \<Rightarrow> bool) \<Rightarrow> int list \<Rightarrow> nat \<Rightarrow> nat \<Rightarrow> bool option" where
  "strides_ordered bad strides i 0 = Some True"
| "strides_ordered bad strides i (Suc n) = do {
     a \<leftarrow> rd strides (int i - 1); b \<leftarrow> rd strides (int i);
     if bad a b then Some False else strides_ordered bad strides (Suc i) n }"

definition strideDescendingCAscendingF :: "int list \<Rightarrow> bool option" where
  "strideDescendingCAscendingF shapeBuffer = do {
     rank \<leftarrow> rank_of shapeBuffer;
     strides \<leftarrow> stride_of shapeBuffer;
     order \<leftarrow> order_of shapeBuffer;
     row \<leftarrow> isRowVector shapeBuffer;
     ones \<leftarrow> (if row then do {
                s0 \<leftarrow> rd strides 0;
                if s0 = 1 then do { s1 \<leftarrow> rd strides 1; Some (s1 = 1) } else Some False }
              else Some False);
     if ones then Some True
     else if order = 99 then strides_ordered (\<lambda>a b. a \<le> b) strides 1 (nat (rank - 1))
     else if order = 102 then strides_ordered (\<lambda>a b. a \<ge> b) strides 1 (nat (rank - 1))
     else Some False }"

subsection \<open>Stride selection for reductions\<close>

definition reductionIndexElementWiseStride :: "int list \<Rightarrow> int list \<Rightarrow> int \<Rightarrow> int option" where
  "reductionIndexElementWiseStride buffer dimension dimensionLength = do {
     order \<leftarrow> order_of buffer;
     stride \<leftarrow> stride_of buffer;
     if dimensionLength > 1 then
       (if order = 102 then do {
          l \<leftarrow> rd dimension (dimensionLength - 1);
          d \<leftarrow> rd (shapeOf buffer) l;
          if d \<noteq> 1 then do { k \<leftarrow> rd dimension 0; rd stride k } else Some 1 }
        else do {
          l \<leftarrow> rd dimension (dimensionLength - 1);
          d \<leftarrow> rd (shapeOf buffer) l;
          if d \<noteq> 1 then rd stride l else Some 1 })
     else
       (if order = 102 then do { k \<leftarrow> rd dimension 0; rd stride k }
        else do { k \<leftarrow> rd dimension (dimensionLength - 1); rd stride k }) }"

definition tadElementWiseStride :: "int list \<Rightarrow> int list \<Rightarrow> int \<Rightarrow> int option" where
  "tadElementWiseStride shapeInfo dimension dimensionLength =
     reductionIndexElementWiseStride shapeInfo dimension dimensionLength"

fun rearMost_loop :: "int list \<Rightarrow> int list \<Rightarrow> nat \<Rightarrow> int \<Rightarrow> int option" where
  "rearMost_loop stride dimension 0 dimIdx = rd stride 0"
| "rearMost_loop stride dimension (Suc i) dimIdx = do {
     d \<leftarrow> rd dimension dimIdx;
     if d \<noteq> int i then rd stride (int i)
     else rearMost_loop stride dimension i (dimIdx - 1) }"

text \<open>Both branches of the test on the order run the same loop.\<close>

definition rearMostLeftOverItem :: "int list \<Rightarrow> int list \<Rightarrow> int \<Rightarrow> int option" where
  "rearMostLeftOverItem data dimension dimensionLength = do {
     stride \<leftarrow> stride_of data;
     rank \<leftarrow> rank_of data;
     order \<leftarrow> order_of data;
     if order = 102 then rearMost_loop stride dimension (nat rank) (dimensionLength - 1)
     else rearMost_loop stride dimension (nat rank) (dimensionLength - 1) }"

subsection \<open>Specification of the packed strides\<close>

fun c_strides :: "int list \<Rightarrow> int list" where
  "c_strides [] = []"
| "c_strides (d # ds) = prod_list ds # c_strides ds"

fun f_strides :: "int \<Rightarrow> int list \<Rightarrow> int list" where
  "f_strides s [] = []"
| "f_strides s (d # ds) = s # f_strides (s * d) ds"

lemma length_c_strides [simp]: "length (c_strides sh) = length sh"
  by (induction sh) auto

lemma length_f_strides [simp]: "length (f_strides s sh) = length sh"
  by (induction sh arbitrary: s) auto

lemma f_strides_snoc: "f_strides s (sh @ [d]) = f_strides s sh @ [s * prod_list sh]"
  by (induction sh arbitrary: s) (auto simp: mult.assoc)

lemma c_strides_drop:
  "j < length sh \<Longrightarrow> c_strides (drop j sh) = prod_list (drop (Suc j) sh) # c_strides (drop (Suc j) sh)"
  by (simp flip: Cons_nth_drop_Suc)

lemma fill_ones_exact: "2 \<le> length ret \<Longrightarrow> fill_ones ret = Some (Some 1 # Some 1 # drop 2 ret)"
  by (cases ret; cases "tl ret") (auto simp: fill_ones_def numeral_eq_Suc wr_def)

lemma scaled_prod_bounds:
  assumes "pos_dims sh" "0 < s" "s * prod_list sh < B"
  shows "0 < s * prod_list (take k sh)" "s * prod_list (take k sh) < B"
    "0 < s * prod_list (drop k sh)" "s * prod_list (drop k sh) < B"
proof -
  have le: "s * prod_list (take k sh) \<le> s * prod_list sh" "s * prod_list (drop k sh) \<le> s * prod_list sh"
    using assms(1,2) by (auto intro: mult_left_mono pos_dims_intros)
  show "0 < s * prod_list (take k sh)" "0 < s * prod_list (drop k sh)"
    using assms(1,2) by (auto intro!: mult_pos_pos pos_dims_intros)
  show "s * prod_list (take k sh) < B" "s * prod_list (drop k sh) < B"
    using le assms(3) by linarith+
qed

lemma i32_scaled:
  "0 < x \<Longrightarrow> x < 2 ^ 31 \<Longrightarrow> i32 x = Some x"
  by (simp add: i32_def)

lemma fortran_loop_exact:
  assumes "pos_dims sh" "0 < s" "s * prod_list sh < 2 ^ 31" "length sh = n" "n \<le> length ret"
  shows "fortran_loop (sh @ rest) (int n) s ret = Some (map Some (f_strides s sh) @ drop n ret)"
proof -
  let ?f = "\<lambda>j (st, ret). do { ret \<leftarrow> wr ret (int j) (Some st); d \<leftarrow> rd (sh @ rest) (int j);
        st \<leftarrow> i32 (st * d); Some (st, ret) }"
  let ?P = "\<lambda>j p. p = (s * prod_list (take j sh), map Some (f_strides s (take j sh)) @ drop j ret)"
  have "\<exists>p. for_up 0 n ?f (s, ret) = Some p \<and> ?P (0 + n) p"
  proof (rule for_up_total)
    fix j p
    assume j: "j < 0 + n" and P: "?P j p"
    have tk: "take (Suc j) sh = take j sh @ [sh ! j]"
      using j assms(4) by (simp add: take_Suc_conv_app_nth)
    have dr: "drop j ret = ret ! j # drop (Suc j) ret"
      using j assms(5) by (simp add: Cons_nth_drop_Suc)
    have "i32 (s * prod_list (take (Suc j) sh)) = Some (s * prod_list (take (Suc j) sh))"
      using scaled_prod_bounds [OF assms(1-3), of "Suc j"] by (intro i32_scaled)
    then show "\<exists>p'. ?f j p = Some p' \<and> ?P (Suc j) p'"
      using P j assms(4,5) tk dr
      by (auto simp: list_update_append f_strides_snoc nth_append mult.assoc)
  qed simp
  then show ?thesis using assms(4) by (auto simp: fortran_loop_def)
qed

lemma c_loop_exact:
  assumes "pos_dims sh" "0 < s" "s * prod_list sh < 2 ^ 31" "length sh = n" "n \<le> length ret"
  shows "c_loop (sh @ rest) (int n) s ret = Some (map Some (map ((*) s) (c_strides sh)) @ drop n ret)"
proof -
  let ?f = "\<lambda>j (st, ret). do { ret \<leftarrow> wr ret (int j) (Some st); d \<leftarrow> rd (sh @ rest) (int j);
        st \<leftarrow> i32 (st * d); Some (st, ret) }"
  let ?P = "\<lambda>j p. p = (s * prod_list (drop j sh),
        take j ret @ map Some (map ((*) s) (c_strides (drop j sh))) @ drop n ret)"
  have "\<exists>p. for_down n ?f (s, ret) = Some p \<and> ?P 0 p"
  proof (rule for_down_total)
    show "?P n (s, ret)" using assms(4) by simp
  next
    fix j p
    assume j: "j < n" and P: "?P (Suc j) p"
    have dr: "prod_list (drop j sh) = sh ! j * prod_list (drop (Suc j) sh)"
      using j assms(4) by (simp add: prod_list_drop_Suc)
    have tk: "take (Suc j) ret = take j ret @ [ret ! j]"
      using j assms(5) by (simp add: take_Suc_conv_app_nth)
    have "i32 (s * prod_list (drop j sh)) = Some (s * prod_list (drop j sh))"
      using scaled_prod_bounds [OF assms(1-3), of j] by (intro i32_scaled)
    then show "\<exists>p'. ?f j p = Some p' \<and> ?P j p'"
      using P j assms(4,5) tk dr c_strides_drop [of j sh]
      by (auto simp: list_update_append nth_append ac_simps)
  qed
  then show ?thesis by (auto simp: c_loop_def)
qed

text \<open>
  A shape has packed strides in the buffer format when it has at least two positive dimensions whose
  product fits in an \<open>int\<close>: the loops multiply the running stride by every dimension, the last one
  included.
\<close>

definition packable :: "int list \<Rightarrow> bool" where
  "packable sh \<longleftrightarrow> 2 \<le> length sh \<and> pos_dims sh \<and> prod_list sh < 2 ^ 31"

definition vector_shape :: "int list \<Rightarrow> bool" where
  "vector_shape sh \<longleftrightarrow> length sh = 2 \<and> (sh ! 0 = 1 \<or> sh ! 1 = 1)"

lemma isVector_exact:
  "2 \<le> length sh \<Longrightarrow> isVector (sh @ rest) (int (length sh)) = Some (c_int (vector_shape sh))"
  by (cases sh; cases "tl sh") (auto simp: isVector_def vector_shape_def)

lemma calcStrides_exact:
  assumes "packable sh"
  shows "calcStrides (sh @ rest) (int (length sh))
    = Some (if vector_shape sh then [1, 1] else c_strides sh)"
proof -
  have sh: "pos_dims sh" "prod_list sh < 2 ^ 31" "2 \<le> length sh"
    using assms by (simp_all add: packable_def)
  have v: "isVector (sh @ rest) (int (length sh)) = Some (c_int (vector_shape sh))"
    by (rule isVector_exact) (fact sh(3))
  show ?thesis
  proof (cases "vector_shape sh")
    case True
    then have "fill_ones (replicate (length sh) None) = Some (map Some [1, 1])"
      by (simp add: fill_ones_exact vector_shape_def)
    with True v finish_map_Some [of "[1, 1]"] show ?thesis
      by (simp add: calcStrides_def calcStrides_start_def)
  next
    case False
    have "c_loop (sh @ rest) (int (length sh)) 1 (replicate (length sh) None)
        = Some (map Some (map ((*) 1) (c_strides sh)) @ drop (length sh) (replicate (length sh) None))"
      by (rule c_loop_exact) (use sh in auto)
    with False v show ?thesis
      by (simp add: calcStrides_def calcStrides_start_def mult_1 [abs_def] id_def [symmetric]
          del: map_map)
  qed
qed

lemma calcStridesFortran_exact:
  assumes "packable sh"
  shows "calcStridesFortran (sh @ rest) (int (length sh))
    = Some (if vector_shape sh then [1, 1] else f_strides 1 sh)"
proof -
  have sh: "pos_dims sh" "prod_list sh < 2 ^ 31" "2 \<le> length sh"
    using assms by (simp_all add: packable_def)
  have v: "isVector (sh @ rest) (int (length sh)) = Some (c_int (vector_shape sh))"
    by (rule isVector_exact) (fact sh(3))
  show ?thesis
  proof (cases "vector_shape sh")
    case True
    have "fill_ones (replicate 2 None) = Some (map Some [1, 1])"
      by (simp add: fill_ones_exact)
    with True v finish_map_Some [of "[1, 1]"] new_ints_nat [of 2] show ?thesis
      by (simp add: calcStridesFortran_def calcStridesFortran_start_def)
  next
    case False
    have "fortran_loop (sh @ rest) (int (length sh)) 1 (replicate (length sh) None)
        = Some (map Some (f_strides 1 sh) @ drop (length sh) (replicate (length sh) None))"
      by (rule fortran_loop_exact) (use sh in auto)
    with False v show ?thesis
      by (simp add: calcStridesFortran_def calcStridesFortran_start_def)
  qed
qed

end
