(* ===== verification/ShapeIndex.thy ===== *)
theory ShapeIndex
  imports ShapeStrides
begin

text \<open>
  Linear indexes and coordinates (\<open>include/helpers/shape.h\<close>): \<open>sub2Ind\<close>, the two families
  \<open>ind2sub\<close> (column-major) and \<open>ind2subC\<close> (row-major), \<open>getOffset\<close> and \<open>computeIndices\<close>.  The
  contract between them is the locale \<open>linearisation\<close>: an encoder and a decoder that are inverse to
  each other on the index box of a shape.
\<close>

subsection \<open>Code\<close>

text \<open>Narrowing of \<open>Nd4jIndex\<close> to \<open>int\<close>.\<close>

definition to_int32 :: "int \<Rightarrow> int" where
  "to_int32 x = (x + 2 ^ 31) mod 2 ^ 32 - 2 ^ 31"

definition sub2Ind :: "int \<Rightarrow> int list \<Rightarrow> int list \<Rightarrow> int option" where
  "sub2Ind rank shape indices = do {
     (index, shift) \<leftarrow> for_up 0 (nat rank) (\<lambda>i (index, shift). do {
        x \<leftarrow> rd indices (int i);
        p \<leftarrow> i32 (shift * x);
        index \<leftarrow> i32 (index + p);
        d \<leftarrow> rd shape (int i);
        shift \<leftarrow> i32 (shift * d);
        Some (index, shift) }) (0, 1);
     Some index }"

definition ind2sub_into :: "int \<Rightarrow> int list \<Rightarrow> int \<Rightarrow> int \<Rightarrow> cells \<Rightarrow> cells option" where
  "ind2sub_into rank shape index numIndices ret = do {
     (denom, index, ret) \<leftarrow> for_down (nat rank) (\<lambda>i (denom, index, ret). do {
        d \<leftarrow> rd shape (int i);
        denom \<leftarrow> cdiv denom d;
        q \<leftarrow> cdiv index denom;
        ret \<leftarrow> wr ret (int i) (Some q);
        index \<leftarrow> cmod index denom;
        Some (denom, index, ret) }) (numIndices, index, ret);
     Some ret }"

definition ind2sub_num :: "int \<Rightarrow> int list \<Rightarrow> int \<Rightarrow> int \<Rightarrow> int list option" where
  "ind2sub_num rank shape index numIndices = do {
     ret \<leftarrow> new_ints rank;
     ret \<leftarrow> ind2sub_into rank shape index numIndices ret;
     finish ret }"

definition ind2sub :: "int \<Rightarrow> int list \<Rightarrow> int \<Rightarrow> int list option" where
  "ind2sub rank shape index = do {
     num \<leftarrow> prodLong shape rank; ind2sub_num rank shape index (to_int32 num) }"

definition ind2sub_out :: "int \<Rightarrow> int list \<Rightarrow> int \<Rightarrow> cells \<Rightarrow> cells option" where
  "ind2sub_out rank shape index out = do {
     num \<leftarrow> prodLong shape rank; ind2sub_into rank shape index (to_int32 num) out }"

definition ind2subC_into :: "int \<Rightarrow> int list \<Rightarrow> int \<Rightarrow> int \<Rightarrow> cells \<Rightarrow> cells option" where
  "ind2subC_into rank shape index numIndices ret = do {
     (denom, index, ret) \<leftarrow> for_up 0 (nat rank) (\<lambda>i (denom, index, ret). do {
        d \<leftarrow> rd shape (int i);
        denom \<leftarrow> cdiv denom d;
        if denom > 0 then do {
          q \<leftarrow> cdiv index denom;
          ret \<leftarrow> wr ret (int i) (Some q);
          index \<leftarrow> cmod index denom;
          Some (denom, index, ret) }
        else do { ret \<leftarrow> wr ret (int i) (Some 0); Some (denom, index, ret) } })
       (numIndices, index, ret);
     Some ret }"

definition ind2subC_num :: "int \<Rightarrow> int list \<Rightarrow> int \<Rightarrow> int \<Rightarrow> int list option" where
  "ind2subC_num rank shape index numIndices = do {
     ret \<leftarrow> new_ints rank;
     ret \<leftarrow> ind2subC_into rank shape index numIndices ret;
     finish ret }"

definition ind2subC :: "int \<Rightarrow> int list \<Rightarrow> int \<Rightarrow> int list option" where
  "ind2subC rank shape index = do {
     num \<leftarrow> prodLong shape rank; ind2subC_num rank shape index (to_int32 num) }"

definition ind2subC_out :: "int \<Rightarrow> int list \<Rightarrow> int \<Rightarrow> cells \<Rightarrow> cells option" where
  "ind2subC_out rank shape index out = do {
     num \<leftarrow> prodLong shape rank; ind2subC_into rank shape index (to_int32 num) out }"

definition ind2subOrder_num :: "int list \<Rightarrow> int \<Rightarrow> int \<Rightarrow> cells \<Rightarrow> cells option" where
  "ind2subOrder_num shapeInfo index numIndices out = do {
     order \<leftarrow> order_of shapeInfo;
     rank \<leftarrow> rank_of shapeInfo;
     if order = 102 then ind2sub_into rank (shapeOf shapeInfo) index numIndices out
     else ind2subC_into rank (shapeOf shapeInfo) index numIndices out }"

definition ind2subOrder :: "int list \<Rightarrow> int \<Rightarrow> cells \<Rightarrow> cells option" where
  "ind2subOrder shapeInfo index out = do {
     num \<leftarrow> length_of shapeInfo;
     ind2subOrder_num shapeInfo index (to_int32 num) out }"

fun getOffset_loop ::
  "int list \<Rightarrow> int list \<Rightarrow> int list \<Rightarrow> nat \<Rightarrow> nat \<Rightarrow> int \<Rightarrow> int option" where
  "getOffset_loop shape stride indices i 0 offset = Some offset"
| "getOffset_loop shape stride indices i (Suc n) offset = do {
     x \<leftarrow> rd indices (int i);
     d \<leftarrow> rd shape (int i);
     if x \<ge> d \<and> d \<noteq> 1 then Some (-1)
     else if d \<noteq> 1 then do {
       t \<leftarrow> rd stride (int i);
       p \<leftarrow> i64 (x * t);
       offset \<leftarrow> i64 (offset + p);
       getOffset_loop shape stride indices (Suc i) n offset }
     else getOffset_loop shape stride indices (Suc i) n offset }"

definition getOffset :: "int \<Rightarrow> int list \<Rightarrow> int list \<Rightarrow> int list \<Rightarrow> int \<Rightarrow> int option" where
  "getOffset baseOffset shape stride indices rank =
     getOffset_loop shape stride indices 0 (nat rank) baseOffset"

definition computeIndices :: "int \<Rightarrow> int list \<Rightarrow> int list \<Rightarrow> int list option" where
  "computeIndices rank shape stride = do {
     len \<leftarrow> prodLong shape rank;
     ret \<leftarrow> new_ints len;
     ret \<leftarrow> for_up 0 (nat len) (\<lambda>i ret. do {
        idx \<leftarrow> ind2sub rank shape (int i);
        off \<leftarrow> getOffset 0 shape stride idx rank;
        wr ret (int i) (Some off) }) ret;
     finish ret }"

definition computeIndices_of :: "int list \<Rightarrow> int list option" where
  "computeIndices_of shapeBuffer = do {
     r \<leftarrow> rank_of shapeBuffer; t \<leftarrow> stride_of shapeBuffer;
     computeIndices r (shapeOf shapeBuffer) t }"

subsection \<open>Mixed-radix specification\<close>

fun in_box :: "int list \<Rightarrow> int list \<Rightarrow> bool" where
  "in_box [] [] = True"
| "in_box (d # ds) (x # xs) = (0 \<le> x \<and> x < d \<and> in_box ds xs)"
| "in_box _ _ = False"

fun enc_f :: "int list \<Rightarrow> int list \<Rightarrow> int" where
  "enc_f (d # ds) (x # xs) = x + d * enc_f ds xs"
| "enc_f _ _ = 0"

fun dec_f :: "int list \<Rightarrow> int \<Rightarrow> int list" where
  "dec_f [] k = []"
| "dec_f (d # ds) k = (k mod d) # dec_f ds (k div d)"

fun enc_c :: "int list \<Rightarrow> int list \<Rightarrow> int" where
  "enc_c (d # ds) (x # xs) = x * prod_list ds + enc_c ds xs"
| "enc_c _ _ = 0"

fun dec_c :: "int list \<Rightarrow> int \<Rightarrow> int list" where
  "dec_c [] k = []"
| "dec_c (d # ds) k = (k div prod_list ds) # dec_c ds (k mod prod_list ds)"

lemma in_box_Nil [simp]: "in_box [] xs \<longleftrightarrow> xs = []"
  by (cases xs) auto

lemma in_box_length: "in_box sh idx \<Longrightarrow> length idx = length sh"
  by (induction sh idx rule: in_box.induct) auto

lemma in_box_nth: "in_box sh idx \<Longrightarrow> i < length sh \<Longrightarrow> 0 \<le> idx ! i \<and> idx ! i < sh ! i"
  by (induction sh idx arbitrary: i rule: in_box.induct) (auto simp: nth_Cons split: nat.splits)

lemma length_dec [simp]: "length (dec_f sh k) = length sh" "length (dec_c sh k) = length sh"
  by (induction sh arbitrary: k) auto

lemma digit_bound:
  fixes x d e B :: int
  assumes "0 \<le> x" "x < d" "0 \<le> e" "e < B"
  shows "x + d * e < d * B" "0 \<le> x + d * e"
proof -
  have "d * (e + 1) \<le> d * B" using assms by (intro mult_left_mono) auto
  then show "x + d * e < d * B" using assms by (simp add: algebra_simps)
  show "0 \<le> x + d * e" using assms by simp
qed

lemma enc_f_bounds: "in_box sh idx \<Longrightarrow> 0 \<le> enc_f sh idx \<and> enc_f sh idx < prod_list sh"
  by (induction sh idx rule: in_box.induct) (auto simp: digit_bound)

lemma dec_enc_f: "in_box sh idx \<Longrightarrow> dec_f sh (enc_f sh idx) = idx"
  by (induction sh idx rule: in_box.induct) auto

lemma div_less_factor:
  fixes k d P :: int
  assumes "0 < d" "k < d * P"
  shows "k div d < P"
proof (rule ccontr)
  assume "\<not> k div d < P"
  then have "d * P \<le> d * (k div d)" using assms(1) by simp
  also have "\<dots> \<le> k"
    using mult_div_mod_eq [of d k] pos_mod_sign [OF assms(1), of k] by linarith
  finally show False using assms(2) by simp
qed

lemma enc_dec_f:
  "pos_dims sh \<Longrightarrow> 0 \<le> k \<Longrightarrow> k < prod_list sh \<Longrightarrow>
   in_box sh (dec_f sh k) \<and> enc_f sh (dec_f sh k) = k"
proof (induction sh arbitrary: k)
  case (Cons d ds)
  then have "k div d < prod_list ds" "0 \<le> k div d"
    by (simp_all add: div_less_factor pos_imp_zdiv_nonneg_iff)
  then show ?case using Cons by simp
qed simp

lemma enc_c_bounds: "in_box sh idx \<Longrightarrow> 0 \<le> enc_c sh idx \<and> enc_c sh idx < prod_list sh"
proof (induction sh idx rule: in_box.induct)
  case (2 d ds x xs)
  then show ?case
    using digit_bound [of "enc_c ds xs" "prod_list ds" x d] by (simp add: ac_simps)
qed auto

lemma dec_enc_c: "in_box sh idx \<Longrightarrow> dec_c sh (enc_c sh idx) = idx"
proof (induction sh idx rule: in_box.induct)
  case (2 d ds x xs)
  then have "0 \<le> enc_c ds xs" "enc_c ds xs < prod_list ds" by (simp_all add: enc_c_bounds)
  with 2 show ?case by (simp add: div_pos_pos_trivial)
qed auto

lemma enc_dec_c:
  "pos_dims sh \<Longrightarrow> 0 \<le> k \<Longrightarrow> k < prod_list sh \<Longrightarrow>
   in_box sh (dec_c sh k) \<and> enc_c sh (dec_c sh k) = k"
proof (induction sh arbitrary: k)
  case (Cons d ds)
  then have pos: "0 < prod_list ds" by (simp add: pos_dims_prod)
  then have "k div prod_list ds < d" "0 \<le> k div prod_list ds"
    using Cons.prems by (simp_all add: div_less_factor pos_imp_zdiv_nonneg_iff mult.commute)
  moreover have "0 \<le> k mod prod_list ds" "k mod prod_list ds < prod_list ds"
    using pos by simp_all
  ultimately show ?case using Cons by simp
qed simp

lemma dec_f_mod: "pos_dims sh \<Longrightarrow> dec_f sh (k mod prod_list sh) = dec_f sh k"
proof (induction sh arbitrary: k)
  case (Cons d ds)
  have "k mod (d * prod_list ds) div d = (k div d) mod prod_list ds"
    using Cons.prems pos_dims_prod [of ds] by (simp add: zmod_zmult2_eq)
  with Cons show ?case by (simp add: mod_mod_cancel)
qed simp

lemma enc_f_snoc:
  "length idx = length sh \<Longrightarrow> enc_f (sh @ [d]) (idx @ [x]) = enc_f sh idx + prod_list sh * x"
  by (induction sh idx rule: list_induct2') (auto simp: algebra_simps)

lemma in_box_take: "in_box sh idx \<Longrightarrow> in_box (take i sh) (take i idx)"
proof (induction sh idx arbitrary: i rule: in_box.induct)
  case (2 d ds x xs)
  then show ?case by (cases i) auto
qed auto

lemma dec_f_nth:
  "pos_dims sh \<Longrightarrow> j < length sh \<Longrightarrow> dec_f sh k ! j = (k div prod_list (take j sh)) mod sh ! j"
proof (induction sh arbitrary: k j)
  case (Cons d ds)
  show ?case
  proof (cases j)
    case (Suc i)
    have "k div (d * prod_list (take i ds)) = k div d div prod_list (take i ds)"
      using Cons.prems pos_dims_prod [OF pos_dims_take, of ds i] by (simp add: zdiv_zmult2_eq)
    with Suc Cons show ?thesis by simp
  qed simp
qed simp

lemma dec_c_nth:
  "pos_dims sh \<Longrightarrow> 0 \<le> k \<Longrightarrow> k < prod_list sh \<Longrightarrow> j < length sh \<Longrightarrow>
   dec_c sh k ! j = (k mod prod_list (drop j sh)) div prod_list (drop (Suc j) sh)"
proof (induction sh arbitrary: k j)
  case (Cons d ds)
  show ?case
  proof (cases j)
    case (Suc i)
    have pos: "0 < prod_list ds" using Cons.prems by (simp add: pos_dims_prod)
    have "prod_list ds = prod_list (take i ds) * prod_list (drop i ds)"
      by (metis append_take_drop_id prod_list_append_int)
    then have "k mod prod_list ds mod prod_list (drop i ds) = k mod prod_list (drop i ds)"
      by (intro mod_mod_cancel) simp
    with Suc Cons pos show ?thesis by simp
  qed (use Cons in simp)
qed simp

subsection \<open>The loops compute the specification\<close>

lemma sub2Ind_exact:
  assumes "in_box sh idx" "pos_dims sh" "prod_list sh < 2 ^ 31"
  shows "sub2Ind (int (length sh)) (sh @ rest) idx = Some (enc_f sh idx)"
proof -
  let ?f = "\<lambda>i (index, shift). do { x \<leftarrow> rd idx (int i); p \<leftarrow> i32 (shift * x);
        index \<leftarrow> i32 (index + p); d \<leftarrow> rd (sh @ rest) (int i); shift \<leftarrow> i32 (shift * d);
        Some (index, shift) }"
  let ?P = "\<lambda>i p. p = (enc_f (take i sh) (take i idx), prod_list (take i sh))"
  have "\<exists>p. for_up 0 (length sh) ?f (0, 1) = Some p \<and> ?P (0 + length sh) p"
  proof (rule for_up_total)
    fix i p
    assume i: "i < 0 + length sh" and P: "?P i p"
    have li: "i < length idx" using i in_box_length [OF assms(1)] by simp
    note x = in_box_nth [OF assms(1), of i]
    have tk: "take (Suc i) sh = take i sh @ [sh ! i]" "take (Suc i) idx = take i idx @ [idx ! i]"
      using i li by (simp_all add: take_Suc_conv_app_nth)
    have len: "length (take i idx) = length (take i sh)" using i li by simp
    have pos: "0 < prod_list (take i sh)" using assms(2) by (intro pos_dims_prod pos_dims_take)
    have le: "prod_list (take (Suc i) sh) < 2 ^ 31"
      using pos_dims_prod_take_le [OF assms(2), of "Suc i"] assms(3) by linarith
    have e: "0 \<le> enc_f (take i sh) (take i idx)"
      "enc_f (take (Suc i) sh) (take (Suc i) idx) < prod_list (take (Suc i) sh)"
      "enc_f (take (Suc i) sh) (take (Suc i) idx)
        = enc_f (take i sh) (take i idx) + prod_list (take i sh) * idx ! i"
      using enc_f_bounds [OF in_box_take [OF assms(1), of i]]
        enc_f_bounds [OF in_box_take [OF assms(1), of "Suc i"]]
      unfolding tk enc_f_snoc [OF len] by auto
    have q: "0 \<le> prod_list (take i sh) * idx ! i" using x i pos by simp
    have "i32 (prod_list (take i sh) * idx ! i) = Some (prod_list (take i sh) * idx ! i)"
      "i32 (enc_f (take i sh) (take i idx) + prod_list (take i sh) * idx ! i)
        = Some (enc_f (take (Suc i) sh) (take (Suc i) idx))"
      using q e le unfolding e(3) by (auto simp: i32_def)
    moreover have "i32 (prod_list (take i sh) * sh ! i) = Some (prod_list (take (Suc i) sh))"
      using le pos_dims_prod [OF pos_dims_take [OF assms(2)], of "Suc i"] tk(1)
      by (simp add: i32_def)
    ultimately show "\<exists>p'. ?f i p = Some p' \<and> ?P (Suc i) p'"
      using P i li by (simp add: nth_append)
  qed simp
  then show ?thesis using in_box_length [OF assms(1)] by (auto simp: sub2Ind_def)
qed

lemma ind2sub_into_exact:
  assumes "pos_dims sh" "0 \<le> k" "k < prod_list sh" "length sh = n" "n \<le> length ret"
  shows "ind2sub_into (int n) (sh @ rest) k (prod_list sh) ret
    = Some (map Some (dec_f sh k) @ drop n ret)"
proof -
  let ?f = "\<lambda>i (denom, index, ret). do { d \<leftarrow> rd (sh @ rest) (int i); denom \<leftarrow> cdiv denom d;
        q \<leftarrow> cdiv index denom; ret \<leftarrow> wr ret (int i) (Some q); index \<leftarrow> cmod index denom;
        Some (denom, index, ret) }"
  let ?P = "\<lambda>j p. p = (prod_list (take j sh), k mod prod_list (take j sh),
        take j ret @ map Some (drop j (dec_f sh k)) @ drop n ret)"
  have "\<exists>p. for_down n ?f (prod_list sh, k, ret) = Some p \<and> ?P 0 p"
  proof (rule for_down_total)
    show "?P n (prod_list sh, k, ret)" using assms by simp
  next
    fix j p
    assume j: "j < n" and P: "?P (Suc j) p"
    let ?B = "prod_list (take j sh)" and ?d = "sh ! j"
    have pos: "0 < ?B" "0 < ?d"
      using assms(1,4) j by (auto intro: pos_dims_intros)
    have B: "prod_list (take (Suc j) sh) = ?B * ?d"
      using j assms(4) by (simp add: prod_list_take_Suc)
    have q: "k mod (?B * ?d) div ?B = dec_f sh k ! j"
      using pos assms(1,4) j by (simp add: zmod_zmult2_eq dec_f_nth)
    have m: "k mod (?B * ?d) mod ?B = k mod ?B" by (simp add: mod_mod_cancel)
    have nn: "0 \<le> k mod (?B * ?d)" using pos by simp
    have tk: "take (Suc j) ret = take j ret @ [ret ! j]"
      using j assms(5) by (simp add: take_Suc_conv_app_nth)
    have dr: "drop j (dec_f sh k) = dec_f sh k ! j # drop (Suc j) (dec_f sh k)"
      using j assms(4) by (simp add: Cons_nth_drop_Suc)
    show "\<exists>p'. ?f j p = Some p' \<and> ?P j p'"
      using P j assms(4,5) pos nn tk dr
      by (simp add: B q m cdiv_pos cmod_pos nth_append list_update_append)
  qed
  then show ?thesis by (auto simp: ind2sub_into_def)
qed

lemma ind2subC_into_exact:
  assumes "pos_dims sh" "0 \<le> k" "k < prod_list sh" "length sh = n" "n \<le> length ret"
  shows "ind2subC_into (int n) (sh @ rest) k (prod_list sh) ret
    = Some (map Some (dec_c sh k) @ drop n ret)"
proof -
  let ?f = "\<lambda>i (denom, index, ret). do { d \<leftarrow> rd (sh @ rest) (int i); denom \<leftarrow> cdiv denom d;
        if denom > 0 then do { q \<leftarrow> cdiv index denom; ret \<leftarrow> wr ret (int i) (Some q);
          index \<leftarrow> cmod index denom; Some (denom, index, ret) }
        else do { ret \<leftarrow> wr ret (int i) (Some 0); Some (denom, index, ret) } }"
  let ?P = "\<lambda>j p. p = (prod_list (drop j sh), k mod prod_list (drop j sh),
        map Some (take j (dec_c sh k)) @ drop j ret)"
  have "\<exists>p. for_up 0 n ?f (prod_list sh, k, ret) = Some p \<and> ?P (0 + n) p"
  proof (rule for_up_total)
    show "?P 0 (prod_list sh, k, ret)" using assms by simp
  next
    fix j p
    assume j: "j < 0 + n" and P: "?P j p"
    let ?B = "prod_list (drop (Suc j) sh)" and ?d = "sh ! j"
    have pos: "0 < ?B" "0 < ?d"
      using assms(1,4) j by (auto intro: pos_dims_intros)
    have B: "prod_list (drop j sh) = ?d * ?B"
      using j assms(4) by (simp add: prod_list_drop_Suc)
    have q: "k mod (?d * ?B) div ?B = dec_c sh k ! j"
      using dec_c_nth [OF assms(1-3), of j] j assms(4) by (simp add: B)
    have m: "k mod (?d * ?B) mod ?B = k mod ?B" by (simp add: mod_mod_cancel)
    have nn: "0 \<le> k mod (?d * ?B)" using pos by simp
    have tk: "take (Suc j) (dec_c sh k) = take j (dec_c sh k) @ [dec_c sh k ! j]"
      using j assms(4) by (simp add: take_Suc_conv_app_nth)
    have dr: "drop j ret = ret ! j # drop (Suc j) ret"
      using j assms(5) by (simp add: Cons_nth_drop_Suc)
    show "\<exists>p'. ?f j p = Some p' \<and> ?P (Suc j) p'"
      using P j assms(4,5) pos nn tk dr
      by (simp add: B q m cdiv_pos cmod_pos nth_append list_update_append)
  qed
  then show ?thesis using assms(4) by (auto simp: ind2subC_into_def)
qed

lemma to_int32_id [simp]: "- (2 ^ 31) \<le> x \<Longrightarrow> x < 2 ^ 31 \<Longrightarrow> to_int32 x = x"
  by (simp add: to_int32_def)

lemma ind2sub_exact:
  assumes "pos_dims sh" "prod_list sh < 2 ^ 31" "0 \<le> k" "k < prod_list sh"
  shows "ind2sub (int (length sh)) (sh @ rest) k = Some (dec_f sh k)"
proof -
  have "prodLong (sh @ rest) (int (length sh)) = Some (prod_list sh)"
    using prodLong_exact [of "length sh" "sh @ rest"] assms by simp
  moreover have "to_int32 (prod_list sh) = prod_list sh"
    using assms by (intro to_int32_id) auto
  ultimately show ?thesis
    using ind2sub_into_exact [OF assms(1,3,4) refl, of "replicate (length sh) None" rest]
    by (simp add: ind2sub_def ind2sub_num_def)
qed

lemma ind2subC_exact:
  assumes "pos_dims sh" "prod_list sh < 2 ^ 31" "0 \<le> k" "k < prod_list sh"
  shows "ind2subC (int (length sh)) (sh @ rest) k = Some (dec_c sh k)"
proof -
  have "prodLong (sh @ rest) (int (length sh)) = Some (prod_list sh)"
    using prodLong_exact [of "length sh" "sh @ rest"] assms by simp
  moreover have "to_int32 (prod_list sh) = prod_list sh"
    using assms by (intro to_int32_id) auto
  ultimately show ?thesis
    using ind2subC_into_exact [OF assms(1,3,4) refl, of "replicate (length sh) None" rest]
    by (simp add: ind2subC_def ind2subC_num_def)
qed

subsection \<open>Offsets through strides\<close>

fun dot :: "int list \<Rightarrow> int list \<Rightarrow> int list \<Rightarrow> int" where
  "dot (d # ds) (t # ts) (x # xs) = (if d = 1 then 0 else x * t) + dot ds ts xs"
| "dot _ _ _ = 0"

lemma dot_drop:
  "i < length sh \<Longrightarrow> length st = length sh \<Longrightarrow> length idx = length sh \<Longrightarrow>
   dot (drop i sh) (drop i st) (drop i idx)
     = (if sh ! i = 1 then 0 else idx ! i * st ! i)
       + dot (drop (Suc i) sh) (drop (Suc i) st) (drop (Suc i) idx)"
  by (simp flip: Cons_nth_drop_Suc)

lemma dot_nonneg: "in_box sh idx \<Longrightarrow> \<forall>t \<in> set st. 0 \<le> t \<Longrightarrow> 0 \<le> dot sh st idx"
  by (induction sh st idx rule: dot.induct) auto

lemma dot_nonneg_all: "\<forall>x \<in> set idx. 0 \<le> x \<Longrightarrow> \<forall>t \<in> set st. 0 \<le> t \<Longrightarrow> 0 \<le> dot sh st idx"
  by (induction sh st idx rule: dot.induct) auto

lemma dot_f_strides: "in_box sh idx \<Longrightarrow> dot sh (f_strides s sh) idx = s * enc_f sh idx"
  by (induction sh idx arbitrary: s rule: in_box.induct) (auto simp: algebra_simps)

lemma dot_c_strides: "in_box sh idx \<Longrightarrow> dot sh (c_strides sh) idx = enc_c sh idx"
  by (induction sh idx rule: in_box.induct) auto

lemma dot_vector:
  assumes "in_box sh idx" "vector_shape sh"
  shows "dot sh [1, 1] idx = enc_f sh idx" "dot sh [1, 1] idx = enc_c sh idx"
proof -
  from assms(2) obtain d e where sh: "sh = [d, e]" "d = 1 \<or> e = 1"
    by (cases sh; cases "tl sh") (auto simp: vector_shape_def)
  with assms(1) obtain x y where "idx = [x, y]"
    by (cases idx; cases "tl idx") auto
  with sh assms(1) show "dot sh [1, 1] idx = enc_f sh idx" "dot sh [1, 1] idx = enc_c sh idx"
    by auto
qed

lemma in_box_drop: "in_box sh idx \<Longrightarrow> in_box (drop i sh) (drop i idx)"
proof (induction sh idx arbitrary: i rule: in_box.induct)
  case (2 d ds x xs)
  then show ?case by (cases i) auto
qed auto

lemma getOffset_loop_exact:
  assumes "in_box sh idx" "length st = length sh" "\<forall>t \<in> set st. 0 \<le> t"
    and "i + n = length sh" "0 \<le> off" "off + dot (drop i sh) (drop i st) (drop i idx) < 2 ^ 63"
  shows "getOffset_loop (sh @ r) (st @ r') idx i n off
    = Some (off + dot (drop i sh) (drop i st) (drop i idx))"
  using assms(4-6)
proof (induction n arbitrary: i off)
  case 0
  then show ?case using assms(2) by simp
next
  case (Suc n)
  have i: "i < length sh" using Suc.prems(1) by simp
  have len: "length idx = length sh" using assms(1) by (rule in_box_length)
  note x = in_box_nth [OF assms(1) i]
  note dd = dot_drop [OF i assms(2) len]
  have t: "0 \<le> st ! i" using assms(2,3) i by simp
  have xt: "0 \<le> idx ! i * st ! i" using x t by simp
  have rest: "0 \<le> dot (drop (Suc i) sh) (drop (Suc i) st) (drop (Suc i) idx)"
    by (rule dot_nonneg) (use assms(1,3) in \<open>auto intro: in_box_drop dest: in_set_dropD\<close>)
  show ?case
  proof (cases "sh ! i = 1")
    case True
    have "getOffset_loop (sh @ r) (st @ r') idx (Suc i) n off
        = Some (off + dot (drop (Suc i) sh) (drop (Suc i) st) (drop (Suc i) idx))"
      by (rule Suc.IH) (use Suc.prems dd True in auto)
    with True i len dd show ?thesis by (simp add: nth_append)
  next
    case False
    have "i64 (idx ! i * st ! i) = Some (idx ! i * st ! i)"
      "i64 (off + idx ! i * st ! i) = Some (off + idx ! i * st ! i)"
      using Suc.prems(2,3) xt rest dd False by (auto simp: i64_def)
    moreover have "getOffset_loop (sh @ r) (st @ r') idx (Suc i) n (off + idx ! i * st ! i)
        = Some (off + idx ! i * st ! i + dot (drop (Suc i) sh) (drop (Suc i) st) (drop (Suc i) idx))"
      by (rule Suc.IH) (use Suc.prems dd False xt in auto)
    ultimately show ?thesis using False i len dd x assms(2) by (simp add: nth_append)
  qed
qed

lemma getOffset_exact:
  assumes "in_box sh idx" "length st = length sh" "\<forall>t \<in> set st. 0 \<le> t" "0 \<le> base"
    and "base + dot sh st idx < 2 ^ 63"
  shows "getOffset base (sh @ r) (st @ r') idx (int (length sh)) = Some (base + dot sh st idx)"
  using getOffset_loop_exact [OF assms(1-3), of 0 "length sh" base r r'] assms(4,5)
  by (simp add: getOffset_def)

text \<open>A coordinate that reaches its dimension is answered with \<open>-1\<close>, never with an offset.\<close>

lemma getOffset_loop_rejects:
  assumes len: "length idx = length sh" "length st = length sh"
    and nn: "\<forall>x \<in> set idx. 0 \<le> x" "\<forall>t \<in> set st. 0 \<le> t"
    and "i + n = length sh" "0 \<le> off" "off + dot (drop i sh) (drop i st) (drop i idx) < 2 ^ 63"
    and "\<exists>j \<ge> i. j < length sh \<and> sh ! j \<noteq> 1 \<and> sh ! j \<le> idx ! j"
  shows "getOffset_loop (sh @ r) (st @ r') idx i n off = Some (-1)"
  using assms(5-8)
proof (induction n arbitrary: i off)
  case (Suc n)
  have i: "i < length sh" using Suc.prems(1) by simp
  note dd = dot_drop [OF i len(2,1)]
  have xt: "0 \<le> idx ! i * st ! i" using nn len i by simp
  have rest: "0 \<le> dot (drop k sh) (drop k st) (drop k idx)" for k
    by (rule dot_nonneg_all) (use nn in \<open>auto dest: in_set_dropD\<close>)
  show ?case
  proof (cases "sh ! i \<noteq> 1 \<and> sh ! i \<le> idx ! i")
    case True
    with i len show ?thesis by (simp add: nth_append)
  next
    case False
    then have ex: "\<exists>j \<ge> Suc i. j < length sh \<and> sh ! j \<noteq> 1 \<and> sh ! j \<le> idx ! j"
      using Suc.prems(4) by (metis le_antisym not_less_eq_eq)
    have "i64 (idx ! i * st ! i) = Some (idx ! i * st ! i)"
      "i64 (off + idx ! i * st ! i) = Some (off + idx ! i * st ! i)" if "sh ! i \<noteq> 1"
      using Suc.prems(2,3) xt rest [of "Suc i"] dd that by (auto simp: i64_def)
    moreover have "getOffset_loop (sh @ r) (st @ r') idx (Suc i) n off' = Some (-1)"
      if "off' = (if sh ! i = 1 then off else off + idx ! i * st ! i)" for off'
      by (rule Suc.IH) (use Suc.prems dd xt that ex in auto)
    ultimately show ?thesis using False i len by (auto simp: nth_append)
  qed
qed auto

subsection \<open>The contract of a linearisation\<close>

locale linearisation =
  fixes enc :: "int list \<Rightarrow> int list \<Rightarrow> int option"
    and dec :: "int list \<Rightarrow> int \<Rightarrow> int list option"
  assumes enc_ok: "packable sh \<Longrightarrow> in_box sh idx \<Longrightarrow>
      \<exists>k. enc sh idx = Some k \<and> 0 \<le> k \<and> k < prod_list sh \<and> dec sh k = Some idx"
    and dec_ok: "packable sh \<Longrightarrow> 0 \<le> k \<Longrightarrow> k < prod_list sh \<Longrightarrow>
      \<exists>idx. dec sh k = Some idx \<and> in_box sh idx \<and> enc sh idx = Some k"
begin

lemma enc_injective:
  assumes "packable sh" "in_box sh idx" "in_box sh idx'" "enc sh idx = enc sh idx'"
  shows "idx = idx'"
  using enc_ok [OF assms(1,2)] enc_ok [OF assms(1,3)] assms(4) by auto

lemma enc_bij:
  assumes "packable sh"
  shows "bij_betw (\<lambda>idx. the (enc sh idx)) {idx. in_box sh idx} {0..<prod_list sh}"
proof (rule bij_betwI')
  fix idx idx' assume "idx \<in> {idx. in_box sh idx}" "idx' \<in> {idx. in_box sh idx}"
  then show "(the (enc sh idx) = the (enc sh idx')) = (idx = idx')"
    using enc_ok [OF assms] by (metis mem_Collect_eq option.sel)
next
  fix idx assume "idx \<in> {idx. in_box sh idx}"
  then show "the (enc sh idx) \<in> {0..<prod_list sh}" using enc_ok [OF assms] by fastforce
next
  fix k assume "k \<in> {0..<prod_list sh}"
  then show "\<exists>idx \<in> {idx. in_box sh idx}. k = the (enc sh idx)"
    using dec_ok [OF assms, of k] by force
qed

lemma enc_dec: "packable sh \<Longrightarrow> 0 \<le> k \<Longrightarrow> k < prod_list sh \<Longrightarrow> Option.bind (dec sh k) (enc sh) = Some k"
  using dec_ok by fastforce

lemma dec_enc: "packable sh \<Longrightarrow> in_box sh idx \<Longrightarrow> Option.bind (enc sh idx) (dec sh) = Some idx"
  using enc_ok by fastforce

end

definition row_major_offset :: "int list \<Rightarrow> int list \<Rightarrow> int option" where
  "row_major_offset sh idx = do {
     st \<leftarrow> calcStrides sh (int (length sh)); getOffset 0 sh st idx (int (length sh)) }"

definition col_major_offset :: "int list \<Rightarrow> int list \<Rightarrow> int option" where
  "col_major_offset sh idx = do {
     st \<leftarrow> calcStridesFortran sh (int (length sh)); getOffset 0 sh st idx (int (length sh)) }"

lemma f_strides_nonneg: "pos_dims sh \<Longrightarrow> 0 \<le> s \<Longrightarrow> t \<in> set (f_strides s sh) \<Longrightarrow> 0 \<le> t"
proof (induction sh arbitrary: s)
  case (Cons d ds)
  then have "0 \<le> s * d" "pos_dims ds" by simp_all
  from Cons.IH [OF this(2,1)] Cons.prems show ?case by auto
qed simp

lemma packable_strides_nonneg:
  assumes "packable sh"
  shows "\<forall>t \<in> set (c_strides sh). 0 \<le> t" "\<forall>t \<in> set (f_strides 1 sh). 0 \<le> t"
proof -
  have "pos_dims sh" using assms by (simp add: packable_def)
  then show "\<forall>t \<in> set (c_strides sh). 0 \<le> t"
    by (induction sh) (auto dest: pos_dims_prod)
  show "\<forall>t \<in> set (f_strides 1 sh). 0 \<le> t"
    using f_strides_nonneg [OF \<open>pos_dims sh\<close>, of 1] by auto
qed

lemma row_major_offset_exact:
  assumes "packable sh" "in_box sh idx"
  shows "row_major_offset sh idx = Some (enc_c sh idx)"
proof -
  let ?st = "if vector_shape sh then [1, 1] else c_strides sh"
  have "calcStrides sh (int (length sh)) = Some ?st"
    using calcStrides_exact [OF assms(1), of "[]"] by simp
  moreover have "getOffset 0 (sh @ []) (?st @ []) idx (int (length sh)) = Some (0 + dot sh ?st idx)"
  proof (rule getOffset_exact [OF assms(2)])
    show "length ?st = length sh" by (simp add: vector_shape_def)
    show "0 + dot sh ?st idx < 2 ^ 63"
      using enc_c_bounds [OF assms(2)] assms by (simp add: dot_vector(2) dot_c_strides packable_def)
  qed (use packable_strides_nonneg [OF assms(1)] in auto)
  ultimately show ?thesis
    using assms(2) by (simp add: row_major_offset_def dot_vector(2) dot_c_strides)
qed

lemma col_major_offset_exact:
  assumes "packable sh" "in_box sh idx"
  shows "col_major_offset sh idx = Some (enc_f sh idx)"
proof -
  let ?st = "if vector_shape sh then [1, 1] else f_strides 1 sh"
  have "calcStridesFortran sh (int (length sh)) = Some ?st"
    using calcStridesFortran_exact [OF assms(1), of "[]"] by simp
  moreover have "getOffset 0 (sh @ []) (?st @ []) idx (int (length sh)) = Some (0 + dot sh ?st idx)"
  proof (rule getOffset_exact [OF assms(2)])
    show "length ?st = length sh" by (simp add: vector_shape_def)
    show "0 + dot sh ?st idx < 2 ^ 63"
      using enc_f_bounds [OF assms(2)] assms by (simp add: dot_vector(1) dot_f_strides packable_def)
  qed (use packable_strides_nonneg [OF assms(1)] in auto)
  ultimately show ?thesis
    using assms(2) by (simp add: col_major_offset_def dot_vector(1) dot_f_strides)
qed

lemma packable_ind2sub:
  "packable sh \<Longrightarrow> 0 \<le> k \<Longrightarrow> k < prod_list sh \<Longrightarrow> ind2sub (int (length sh)) sh k = Some (dec_f sh k)"
  "packable sh \<Longrightarrow> 0 \<le> k \<Longrightarrow> k < prod_list sh \<Longrightarrow> ind2subC (int (length sh)) sh k = Some (dec_c sh k)"
  using ind2sub_exact [of sh k "[]"] ind2subC_exact [of sh k "[]"] by (simp_all add: packable_def)

interpretation row: linearisation row_major_offset "\<lambda>sh k. ind2subC (int (length sh)) sh k"
proof unfold_locales
  fix sh idx assume sh: "packable sh" and idx: "in_box sh idx"
  then show "\<exists>k. row_major_offset sh idx = Some k \<and> 0 \<le> k \<and> k < prod_list sh
      \<and> ind2subC (int (length sh)) sh k = Some idx"
    using enc_c_bounds [OF idx] by (simp add: row_major_offset_exact packable_ind2sub dec_enc_c)
next
  fix sh k assume "packable sh" "0 \<le> k" "k < prod_list sh"
  moreover from this have "in_box sh (dec_c sh k) \<and> enc_c sh (dec_c sh k) = k"
    by (intro enc_dec_c) (simp_all add: packable_def)
  ultimately show "\<exists>idx. ind2subC (int (length sh)) sh k = Some idx \<and> in_box sh idx
      \<and> row_major_offset sh idx = Some k"
    by (simp add: packable_ind2sub row_major_offset_exact)
qed

interpretation col: linearisation col_major_offset "\<lambda>sh k. ind2sub (int (length sh)) sh k"
proof unfold_locales
  fix sh idx assume sh: "packable sh" and idx: "in_box sh idx"
  then show "\<exists>k. col_major_offset sh idx = Some k \<and> 0 \<le> k \<and> k < prod_list sh
      \<and> ind2sub (int (length sh)) sh k = Some idx"
    using enc_f_bounds [OF idx] by (simp add: col_major_offset_exact packable_ind2sub dec_enc_f)
next
  fix sh k assume "packable sh" "0 \<le> k" "k < prod_list sh"
  moreover from this have "in_box sh (dec_f sh k) \<and> enc_f sh (dec_f sh k) = k"
    by (intro enc_dec_f) (simp_all add: packable_def)
  ultimately show "\<exists>idx. ind2sub (int (length sh)) sh k = Some idx \<and> in_box sh idx
      \<and> col_major_offset sh idx = Some k"
    by (simp add: packable_ind2sub col_major_offset_exact)
qed

interpretation sub: linearisation "\<lambda>sh idx. sub2Ind (int (length sh)) sh idx"
  "\<lambda>sh k. ind2sub (int (length sh)) sh k"
proof unfold_locales
  fix sh idx assume sh: "packable sh" and idx: "in_box sh idx"
  have "sub2Ind (int (length sh)) sh idx = Some (enc_f sh idx)"
    using sub2Ind_exact [OF idx, of "[]"] sh by (simp add: packable_def)
  then show "\<exists>k. sub2Ind (int (length sh)) sh idx = Some k \<and> 0 \<le> k \<and> k < prod_list sh
      \<and> ind2sub (int (length sh)) sh k = Some idx"
    using enc_f_bounds [OF idx] sh idx by (simp add: packable_ind2sub dec_enc_f)
next
  fix sh k assume k: "packable sh" "0 \<le> k" "k < prod_list sh"
  then have box: "in_box sh (dec_f sh k) \<and> enc_f sh (dec_f sh k) = k"
    by (intro enc_dec_f) (simp_all add: packable_def)
  then have "sub2Ind (int (length sh)) sh (dec_f sh k) = Some k"
    using sub2Ind_exact [of sh "dec_f sh k" "[]"] k by (simp add: packable_def)
  with k box show "\<exists>idx. ind2sub (int (length sh)) sh k = Some idx \<and> in_box sh idx
      \<and> sub2Ind (int (length sh)) sh idx = Some k"
    by (simp add: packable_ind2sub)
qed

subsection \<open>Tables of offsets\<close>

lemma computeIndices_exact:
  assumes sh: "packable sh" and st: "length st = length sh" "\<forall>t \<in> set st. 0 \<le> t"
    and bound: "\<And>k. 0 \<le> k \<Longrightarrow> k < prod_list sh \<Longrightarrow> dot sh st (dec_f sh k) < 2 ^ 63"
  shows "computeIndices (int (length sh)) (sh @ r) (st @ r')
    = Some (map (\<lambda>k. dot sh st (dec_f sh (int k))) [0..<nat (prod_list sh)])"
proof -
  let ?n = "nat (prod_list sh)"
  have pos: "pos_dims sh" "prod_list sh < 2 ^ 31" "0 < prod_list sh"
    using sh by (auto simp: packable_def pos_dims_prod)
  have len: "prodLong (sh @ r) (int (length sh)) = Some (int ?n)"
    using prodLong_exact [of "length sh" "sh @ r"] pos by simp
  let ?g = "\<lambda>i. do { idx \<leftarrow> ind2sub (int (length sh)) (sh @ r) (int i);
      getOffset 0 (sh @ r) (st @ r') idx (int (length sh)) }"
  have g: "?g i = Some (dot sh st (dec_f sh (int i)))" if "i < ?n" for i
  proof -
    have i: "0 \<le> int i" "int i < prod_list sh" using that pos by auto
    have box: "in_box sh (dec_f sh (int i))"
      using enc_dec_f [OF pos(1) i] by simp
    show ?thesis
      using ind2sub_exact [OF pos(1,2) i] getOffset_exact [OF box st, of 0 r r'] bound [OF i] by simp
  qed
  have "for_up 0 ?n (\<lambda>i ret. Option.bind (?g i) (\<lambda>off. wr ret (int i) (Some off)))
      (replicate ?n None) = Some (map (\<lambda>k. Some (dot sh st (dec_f sh (int k)))) [0..<?n])"
    by (rule for_fill_fresh) (rule g)
  moreover have "new_ints (int ?n) = Some (replicate ?n None)" by (rule new_ints_nat)
  ultimately show ?thesis
    unfolding computeIndices_def len by (simp add: bind_assoc del: int_nat_eq)
qed

end
