(* ===== verification/ShapePermute.thy ===== *)
theory ShapePermute
  imports ShapeIndex "HOL-Library.Multiset"
begin

text \<open>
  Permutation of dimensions (\<open>include/helpers/shape.h\<close>): the permutation of an integer array, out of
  place and in place, the permutation of a shape information buffer in its overloads, and the check
  of a rearrangement array.  In-place operations act through pointers into one buffer, so the model
  updates the buffer from the pointer on.
\<close>

subsection \<open>Code\<close>

definition doPermuteSwap_new :: "int \<Rightarrow> int list \<Rightarrow> int list \<Rightarrow> int list option" where
  "doPermuteSwap_new len shape rearrange = do {
     ret \<leftarrow> new_ints len;
     ret \<leftarrow> for_up 0 (nat len) (\<lambda>i ret. do {
       j \<leftarrow> rd rearrange (int i); v \<leftarrow> rd shape j; wr ret (int i) (Some v) }) ret;
     finish ret }"

definition in_order :: "int \<Rightarrow> int list \<Rightarrow> bool option" where
  "in_order len rearrange =
     for_up 0 (nat (len - 1)) (\<lambda>i inOrder.
       if inOrder then do {
         a \<leftarrow> rd rearrange (int i); b \<leftarrow> rd rearrange (int i + 1); Some (a + 1 = b) }
       else Some False) True"

definition doPermuteSwap :: "int \<Rightarrow> int list \<Rightarrow> int list \<Rightarrow> int list option" where
  "doPermuteSwap len shape rearrange = do {
     inOrder \<leftarrow> in_order len rearrange;
     if inOrder then Some shape
     else if len = 2 then do {
       shapeFirst \<leftarrow> rd shape 0;
       shapeSecond \<leftarrow> rd shape 1;
       shape \<leftarrow> wr shape 0 shapeSecond;
       wr shape 1 shapeFirst }
     else do {
       temp \<leftarrow> copyOf len shape;
       for_up 0 (nat len) (\<lambda>i shape. do {
         j \<leftarrow> rd rearrange (int i); v \<leftarrow> rd temp j; wr shape (int i) v }) shape } }"

text \<open>An update through the pointer \<open>buffer + k\<close>.\<close>

definition at_ptr :: "int list \<Rightarrow> int \<Rightarrow> (int list \<Rightarrow> int list option) \<Rightarrow> int list option" where
  "at_ptr buffer k f =
     (if 0 \<le> k \<and> k \<le> int (length buffer)
      then do { t \<leftarrow> f (drop (nat k) buffer); Some (take (nat k) buffer @ t) } else None)"

definition doPermuteShapeBuffer :: "int list \<Rightarrow> int list \<Rightarrow> int list option" where
  "doPermuteShapeBuffer shapeBuffer rearrange = do {
     rank \<leftarrow> rank_of shapeBuffer;
     b \<leftarrow> at_ptr shapeBuffer 1 (\<lambda>shape. doPermuteSwap rank shape rearrange);
     b \<leftarrow> at_ptr b (1 + rank) (\<lambda>stride. doPermuteSwap rank stride rearrange);
     b \<leftarrow> wr b (shapeInfoLength rank - 2) (-1);
     stride \<leftarrow> stride_of b;
     ord \<leftarrow> getOrder rank (shapeOf b) stride 1;
     wr b (shapeInfoLength rank - 1) ord }"

definition doPermuteShapeBuffer_tmp ::
  "int list \<Rightarrow> int list \<Rightarrow> cells \<Rightarrow> (int list \<times> cells) option" where
  "doPermuteShapeBuffer_tmp shapeBuffer rearrange tmpBuffer = do {
     rank \<leftarrow> rank_of shapeBuffer;
     tmp \<leftarrow> copyOf_into rank rearrange tmpBuffer;
     re \<leftarrow> finish (take (nat rank) tmp);
     b \<leftarrow> at_ptr shapeBuffer 1 (\<lambda>shape. doPermuteSwap rank shape re);
     tmp \<leftarrow> copyOf_into rank rearrange tmp;
     re \<leftarrow> finish (take (nat rank) tmp);
     b \<leftarrow> at_ptr b (1 + rank) (\<lambda>stride. doPermuteSwap rank stride re);
     b \<leftarrow> wr b (shapeInfoLength rank - 2) (-1);
     stride \<leftarrow> stride_of b;
     ord \<leftarrow> getOrder rank (shapeOf b) stride 1;
     b \<leftarrow> wr b (shapeInfoLength rank - 1) ord;
     Some (b, tmp) }"

definition doPermuteShapeBuffer_rank :: "int \<Rightarrow> int list \<Rightarrow> int list \<Rightarrow> int list option" where
  "doPermuteShapeBuffer_rank rank shapeBuffer rearrange = do {
     brank \<leftarrow> rank_of shapeBuffer;
     rearrangeCopy1 \<leftarrow> copyOf rank rearrange;
     b \<leftarrow> at_ptr shapeBuffer 1 (\<lambda>shape. doPermuteSwap rank shape rearrangeCopy1);
     rearrangeCopy2 \<leftarrow> copyOf rank rearrange;
     b \<leftarrow> at_ptr b (1 + brank) (\<lambda>stride. doPermuteSwap rank stride rearrangeCopy2);
     ord \<leftarrow> getOrder rank (drop 1 b) (drop (nat (1 + brank)) b) 1;
     b \<leftarrow> wr b (shapeInfoLength rank - 1) ord;
     wr b (shapeInfoLength rank - 2) (-1) }"

text \<open>
  The overload with a rank and a temporary buffer permutes \<open>shapeBuffer\<close> itself; the temporary
  buffer only receives the first \<open>rank\<close> cells.  \<open>same\<close> says that the two pointers are equal.
\<close>

definition doPermuteShapeBuffer_rank_tmp ::
  "bool \<Rightarrow> int \<Rightarrow> int list \<Rightarrow> int list \<Rightarrow> cells \<Rightarrow> (int list \<times> cells) option" where
  "doPermuteShapeBuffer_rank_tmp same rank shapeBuffer rearrange tmpBuffer = do {
     brank \<leftarrow> rank_of shapeBuffer;
     tmp \<leftarrow> (if \<not> same then copyOf_into rank shapeBuffer tmpBuffer else Some tmpBuffer);
     b \<leftarrow> at_ptr shapeBuffer 1 (\<lambda>shape. doPermuteSwap rank shape rearrange);
     b \<leftarrow> at_ptr b (1 + brank) (\<lambda>stride. doPermuteSwap rank stride rearrange);
     b \<leftarrow> wr b (shapeInfoLength rank - 2) (-1);
     ord \<leftarrow> getOrder rank (drop 1 b) (drop (nat (1 + brank)) b) 1;
     b \<leftarrow> wr b (shapeInfoLength rank - 1) ord;
     Some (b, if same then map Some b else tmp) }"

definition permuteShapeBufferInPlace ::
  "bool \<Rightarrow> int list \<Rightarrow> int list \<Rightarrow> cells \<Rightarrow> (int list \<times> cells) option" where
  "permuteShapeBufferInPlace same shapeBuffer rearrange out = do {
     rank \<leftarrow> rank_of shapeBuffer;
     out \<leftarrow> (if \<not> same then memcpy_ints out shapeBuffer (shapeInfoLength rank) else Some out);
     doPermuteShapeBuffer_rank_tmp same rank shapeBuffer rearrange out }"

definition permuteShapeBuffer :: "int list \<Rightarrow> int list \<Rightarrow> int list option" where
  "permuteShapeBuffer shapeBuffer rearrange = do {
     rank \<leftarrow> rank_of shapeBuffer;
     copy \<leftarrow> copyOf (shapeInfoLength rank) shapeBuffer;
     doPermuteShapeBuffer copy rearrange }"

definition createPermuteIndexes :: "int \<Rightarrow> int list \<Rightarrow> int \<Rightarrow> int list option" where
  "createPermuteIndexes originalRank dimension dimensionLength = do {
     let delta = originalRank - dimensionLength;
     ret \<leftarrow> new_ints originalRank;
     ret \<leftarrow> for_up 0 (nat delta) (\<lambda>i ret. wr ret (int i) (Some (int i + dimensionLength))) ret;
     ret \<leftarrow> for_up 0 (nat (originalRank - delta))
       (\<lambda>k ret. let i = delta + int k in wr ret i (Some (i - delta))) ret;
     finish ret }"

fun check_range :: "int list \<Rightarrow> int \<Rightarrow> nat \<Rightarrow> nat \<Rightarrow> bool option" where
  "check_range arr len i 0 = Some True"
| "check_range arr len i (Suc n) = do {
     a \<leftarrow> rd arr (int i);
     if a \<ge> len \<or> a < 0 then Some False else check_range arr len (Suc i) n }"

fun check_row :: "int list \<Rightarrow> nat \<Rightarrow> nat \<Rightarrow> nat \<Rightarrow> bool option" where
  "check_row arr i j 0 = Some True"
| "check_row arr i j (Suc n) = do {
     a \<leftarrow> rd arr (int i); b \<leftarrow> rd arr (int j);
     if i \<noteq> j \<and> a = b then Some False else check_row arr i (Suc j) n }"

fun check_unique :: "int list \<Rightarrow> nat \<Rightarrow> nat \<Rightarrow> nat \<Rightarrow> bool option" where
  "check_unique arr len i 0 = Some True"
| "check_unique arr len i (Suc n) = do {
     ok \<leftarrow> check_row arr i 0 len;
     if ok then check_unique arr len (Suc i) n else Some False }"

definition checkArrangeArray :: "int list \<Rightarrow> int \<Rightarrow> int \<Rightarrow> int option" where
  "checkArrangeArray arr arrLength shapeLength =
     (if arrLength \<noteq> shapeLength then Some (-1)
      else do {
        ok \<leftarrow> check_range arr arrLength 0 (nat arrLength);
        if \<not> ok then Some (-1)
        else do {
          ok \<leftarrow> check_unique arr (nat arrLength) 0 (nat arrLength);
          Some (if ok then 1 else -1) } })"

text \<open>\<open>permute\<close> calls the check and does not look at its answer.\<close>

definition permute :: "ShapeInformation \<Rightarrow> int list \<Rightarrow> int \<Rightarrow> ShapeInformation option" where
  "permute info rearrange rank = do {
     _ \<leftarrow> checkArrangeArray rearrange rank rank;
     shape \<leftarrow> doPermuteSwap rank (si_shape info) rearrange;
     stride \<leftarrow> doPermuteSwap rank (si_stride info) rearrange;
     order \<leftarrow> getOrder rank shape stride (si_elementWiseStride info);
     Some (info\<lparr>si_shape := shape, si_stride := stride, si_order := order\<rparr>) }"

definition permutedStrides :: "int list \<Rightarrow> int \<Rightarrow> int list \<Rightarrow> int list option" where
  "permutedStrides toPermute shapeRank rearrange = do {
     strideCopy \<leftarrow> copyOf shapeRank toPermute;
     _ \<leftarrow> checkArrangeArray rearrange shapeRank shapeRank;
     doPermuteSwap_new shapeRank strideCopy rearrange }"

subsection \<open>Specification\<close>

definition is_perm :: "nat \<Rightarrow> int list \<Rightarrow> bool" where
  "is_perm n p \<longleftrightarrow> length p = n \<and> distinct p \<and> (\<forall>x \<in> set p. 0 \<le> x \<and> x < int n)"

definition perm :: "int list \<Rightarrow> 'a list \<Rightarrow> 'a list" where
  "perm p xs = map (\<lambda>i. xs ! nat i) p"

lemma length_perm [simp]: "length (perm p xs) = length p"
  by (simp add: perm_def)

lemma is_perm_nth: "is_perm n p \<Longrightarrow> i < n \<Longrightarrow> 0 \<le> p ! i \<and> p ! i < int n"
  by (auto simp: is_perm_def)

lemma is_perm_set: "is_perm n p \<Longrightarrow> set p = {0..<int n}"
proof -
  assume p: "is_perm n p"
  then have "set p \<subseteq> {0..<int n}" "card (set p) = n"
    by (auto simp: is_perm_def distinct_card)
  then show ?thesis by (intro card_subset_eq) auto
qed

lemma is_perm_mset: "is_perm n p \<Longrightarrow> mset (map nat p) = mset [0..<n]"
proof -
  assume p: "is_perm n p"
  have "distinct (map nat p)"
    using p by (auto simp: is_perm_def distinct_map inj_on_def eq_nat_nat_iff)
  moreover have "set (map nat p) = set [0..<n]"
    using is_perm_set [OF p] by (auto simp: image_iff) (metis atLeastLessThan_iff nat_int of_nat_0_le_iff of_nat_less_iff)
  ultimately show ?thesis by (metis set_eq_iff_mset_eq_distinct distinct_upt)
qed

lemma mset_perm:
  assumes "is_perm (length xs) p"
  shows "mset (perm p xs) = mset xs"
proof -
  have "mset (perm p xs) = image_mset ((!) xs) (mset (map nat p))"
    by (simp add: perm_def flip: mset_map) (simp add: comp_def)
  also have "\<dots> = mset (map ((!) xs) [0..<length xs])"
    unfolding is_perm_mset [OF assms] by simp
  finally show ?thesis by (simp add: map_nth)
qed

lemma perm_prod: "is_perm (length xs) p \<Longrightarrow> prod_list (perm p xs) = prod_list (xs :: int list)"
  by (metis mset_perm prod_mset_prod_list)

lemma perm_pos_dims: "is_perm (length xs) p \<Longrightarrow> pos_dims (perm p xs) = pos_dims xs"
  by (metis mset_perm pos_dims_def set_mset_mset)

subsection \<open>The order of a buffer\<close>

definition order_spec :: "int list \<Rightarrow> int list \<Rightarrow> int" where
  "order_spec sh st =
     (if st = f_strides 1 sh then (if st = c_strides sh then 97 else 102) else 99)"

lemma c_strides_nth: "i < length sh \<Longrightarrow> c_strides sh ! i = prod_list (drop (Suc i) sh)"
proof (induction sh arbitrary: i)
  case (Cons d ds)
  then show ?case by (cases i) auto
qed simp

lemma f_strides_nth: "i < length sh \<Longrightarrow> f_strides s sh ! i = s * prod_list (take i sh)"
proof (induction sh arbitrary: i s)
  case (Cons d ds)
  then show ?case by (cases i) (auto simp: mult.assoc)
qed simp

lemma c_contiguous_exact:
  assumes "pos_dims sh" "prod_list sh < 2 ^ 31" "length st = length sh" "i \<le> length sh"
  shows "c_contiguous (sh @ r) (st @ r') i (prod_list (drop i sh))
    = Some (take i st = take i (c_strides sh))"
  using assms(4)
proof (induction i)
  case (Suc i)
  then have i: "i < length sh" by simp
  have d: "0 < sh ! i" using assms(1) i by (rule pos_dims_nth)
  have eq: "prod_list (drop (Suc i) sh) * sh ! i = prod_list (drop i sh)"
    using i by (simp add: prod_list_drop_Suc mult.commute)
  have "i32 (prod_list (drop i sh)) = Some (prod_list (drop i sh))"
    using scaled_prod_bounds(3,4) [of sh 1 "2 ^ 31" i] assms(1,2) by (intro i32_scaled) auto
  with Suc i d eq assms(3) show ?case
    by (auto simp: nth_append take_Suc_conv_app_nth c_strides_nth)
qed simp

lemma f_contiguous_exact:
  assumes "pos_dims sh" "0 < s" "s * prod_list sh < 2 ^ 31" "length st = length sh"
    and "i + n = length sh"
  shows "f_contiguous (sh @ r) (st @ r') i n (s * prod_list (take i sh)) isF
    = Some (isF \<and> drop i st = drop i (f_strides s sh))"
  using assms(5)
proof (induction n arbitrary: i isF)
  case (Suc n)
  then have i: "i < length sh" by simp
  have d: "0 < sh ! i" using assms(1) i by (rule pos_dims_nth)
  have eq: "s * prod_list (take i sh) * sh ! i = s * prod_list (take (Suc i) sh)"
    using i by (simp add: prod_list_take_Suc mult.assoc)
  have "i32 (s * prod_list (take (Suc i) sh)) = Some (s * prod_list (take (Suc i) sh))"
    using scaled_prod_bounds(1,2) [OF assms(1-3)] by (intro i32_scaled)
  moreover have "drop i st = st ! i # drop (Suc i) st"
    "drop i (f_strides s sh) = s * prod_list (take i sh) # drop (Suc i) (f_strides s sh)"
    using i assms(4) by (simp_all add: f_strides_nth flip: Cons_nth_drop_Suc)
  ultimately show ?case
    using Suc.IH [of "Suc i"] Suc.prems i d assms(4)
    by (auto simp: nth_append eq Let_def)
qed (use assms(4) in simp)

lemma getOrder_exact:
  assumes "pos_dims sh" "prod_list sh < 2 ^ 31" "length st = length sh"
  shows "getOrder (int (length sh)) (sh @ r) (st @ r') 1 = Some (order_spec sh st)"
  using c_contiguous_exact [OF assms, of "length sh" r r']
    f_contiguous_exact [of sh 1 st 0 "length sh" r r' True] assms
  by (simp add: getOrder_def order_spec_def)

lemma order_spec_char [simp]: "is_char (order_spec sh st)" "to_char (order_spec sh st) = order_spec sh st"
  by (simp_all add: order_spec_def)

subsection \<open>Permutations of arrays\<close>

lemma doPermuteSwap_new_exact:
  assumes "length p = n" "\<And>i. i < n \<Longrightarrow> 0 \<le> p ! i \<and> p ! i < int (length xs)"
  shows "doPermuteSwap_new (int n) xs p = Some (perm p xs)"
proof -
  let ?g = "\<lambda>i. do { j \<leftarrow> rd p (int i); rd xs j }"
  have "for_up 0 n (\<lambda>i a. Option.bind (?g i) (\<lambda>v. wr a (int i) (Some v))) (replicate n None)
      = Some (map (\<lambda>i. Some (xs ! nat (p ! i))) [0..<n])"
    by (rule for_fill_fresh) (use assms in \<open>auto simp: rd_in_range\<close>)
  moreover have "map (\<lambda>i. xs ! nat (p ! i)) [0..<n] = perm p xs"
    using assms(1) by (intro nth_equalityI) (auto simp: perm_def)
  ultimately show ?thesis
    by (simp add: doPermuteSwap_new_def bind_assoc)
qed

lemma in_order_exact:
  assumes "1 \<le> length p"
  shows "in_order (int (length p)) p = Some (\<forall>i < length p - 1. p ! i + 1 = p ! Suc i)"
proof -
  have "for_up 0 n (\<lambda>i inOrder. if inOrder then do {
         a \<leftarrow> rd p (int i); b \<leftarrow> rd p (int i + 1); Some (a + 1 = b) } else Some False) True
      = Some (\<forall>i < n. p ! i + 1 = p ! Suc i)" if "n < length p" for n
    using that
  proof (induction n)
    case (Suc n)
    then have IH: "for_up 0 n (\<lambda>i inOrder. if inOrder then do {
         a \<leftarrow> rd p (int i); b \<leftarrow> rd p (int i + 1); Some (a + 1 = b) } else Some False) True
      = Some (\<forall>i < n. p ! i + 1 = p ! Suc i)" by simp
    have "rd p (int n + 1) = Some (p ! Suc n)"
      using Suc.prems rd_nat [of p "Suc n"] by (simp add: add.commute)
    then show ?case unfolding for_up_Suc_end IH using Suc.prems by (auto simp: less_Suc_eq)
  qed simp
  from this [of "length p - 1"] assms
  have "for_up 0 (length p - 1) (\<lambda>i inOrder. if inOrder then do {
         a \<leftarrow> rd p (int i); b \<leftarrow> rd p (int i + 1); Some (a + 1 = b) } else Some False) True
      = Some (\<forall>i < length p - 1. p ! i + 1 = p ! Suc i)" by simp
  moreover have "nat (int (length p) - 1) = length p - 1" by simp
  ultimately show ?thesis unfolding in_order_def by (simp only:)
qed

text \<open>A permutation with consecutive entries is the identity, which is why the code may skip it.\<close>

lemma consecutive_perm_id:
  assumes p: "is_perm n p" and c: "\<forall>i < n - 1. p ! i + 1 = p ! Suc i" and i: "i < n"
  shows "p ! i = int i"
proof -
  have step: "j < n \<Longrightarrow> p ! j = p ! 0 + int j" for j
  proof (induction j)
    case (Suc j)
    then show ?case using c by (metis Suc_lessD less_diff_conv add.assoc of_nat_Suc add.commute Suc_eq_plus1)
  qed simp
  have n: "0 < n" using i by simp
  have "0 \<le> p ! 0" "p ! (n - 1) < int n" using is_perm_nth [OF p] n by auto
  with step [of "n - 1"] n have "p ! 0 = 0" by simp
  with step [OF i] show ?thesis by simp
qed

lemma doPermuteSwap_exact:
  assumes p: "is_perm n p" and xs: "length xs = n" and n: "1 \<le> n"
  shows "doPermuteSwap (int n) (xs @ r) p = Some (perm p xs @ r)"
proof -
  have len: "length p = n" using p by (simp add: is_perm_def)
  have ord: "in_order (int n) p = Some (\<forall>i < n - 1. p ! i + 1 = p ! Suc i)"
    using in_order_exact [of p] n by (simp add: len)
  show ?thesis
  proof (cases "\<forall>i < n - 1. p ! i + 1 = p ! Suc i")
    case True
    then have "perm p xs = xs"
      using consecutive_perm_id [OF p True] len xs by (intro nth_equalityI) (auto simp: perm_def)
    with True ord show ?thesis by (simp add: doPermuteSwap_def)
  next
    case no: False
    show ?thesis
    proof (cases "n = 2")
      case True
      then obtain a b where ab: "p = [a, b]" using len by (cases p; cases "tl p") auto
      obtain x y where xy: "xs = [x, y]" using xs True by (cases xs; cases "tl xs") auto
      have "a = 1" "b = 0"
        using p no True ab unfolding is_perm_def by auto
      moreover have "in_order 2 p = Some False" using ord no True by simp
      ultimately show ?thesis using ab xy True by (simp add: doPermuteSwap_def perm_def wr_def)
    next
      case False
      let ?g = "\<lambda>i. do { j \<leftarrow> rd p (int i); rd xs j }"
      have "for_up 0 n (\<lambda>i a. Option.bind (?g i) (wr a (int i))) (xs @ r)
          = Some (map (\<lambda>i. xs ! nat (p ! i)) [0..<n] @ drop n (xs @ r))"
        by (rule for_fill) (use is_perm_nth [OF p] len xs in \<open>auto simp: rd_in_range\<close>)
      moreover have "map (\<lambda>i. xs ! nat (p ! i)) [0..<n] = perm p xs"
        using len by (intro nth_equalityI) (auto simp: perm_def)
      moreover have "copyOf (int n) (xs @ r) = Some xs"
        using copyOf_exact [of n "xs @ r"] xs by simp
      ultimately show ?thesis using no ord False xs
        by (auto simp: doPermuteSwap_def bind_assoc)
    qed
  qed
qed

subsection \<open>Permutations of shape information buffers\<close>

lemma at_ptr_append:
  assumes "k = int (length pre)" "f post = Some post'"
  shows "at_ptr (pre @ post) k f = Some (pre @ post')"
  using assms by (simp add: at_ptr_def)

lemma at_ptr_shape:
  assumes "is_perm (length sh) p" "1 \<le> length sh"
  shows "at_ptr (mk_info sh st off ews ord) 1 (\<lambda>s. doPermuteSwap (int (length sh)) s p)
    = Some (mk_info (perm p sh) st off ews ord)"
proof -
  have "at_ptr ([int (length sh)] @ (sh @ st @ [off, ews, ord])) 1
      (\<lambda>s. doPermuteSwap (int (length sh)) s p)
    = Some ([int (length sh)] @ (perm p sh @ st @ [off, ews, ord]))"
    by (rule at_ptr_append) (use doPermuteSwap_exact [OF assms(1) refl assms(2)] in simp_all)
  moreover have "length p = length sh" using assms by (simp add: is_perm_def)
  ultimately show ?thesis by (simp add: mk_info_def)
qed

lemma at_ptr_stride:
  assumes "is_perm (length sh) p" "1 \<le> length sh" "length st = length sh"
  shows "at_ptr (mk_info sh st off ews ord) (1 + int (length sh))
      (\<lambda>s. doPermuteSwap (int (length sh)) s p)
    = Some (mk_info sh (perm p st) off ews ord)"
proof -
  have "at_ptr ((int (length sh) # sh) @ (st @ [off, ews, ord])) (1 + int (length sh))
      (\<lambda>s. doPermuteSwap (int (length sh)) s p)
    = Some ((int (length sh) # sh) @ (perm p st @ [off, ews, ord]))"
    by (rule at_ptr_append)
      (use doPermuteSwap_exact [OF assms(1) assms(3) assms(2)] in simp_all)
  then show ?thesis by (simp add: mk_info_def)
qed

lemma getOrder_mk_info:
  assumes "pos_dims sh" "prod_list sh < 2 ^ 31" "length st = length sh"
  shows "getOrder (int (length sh)) (shapeOf (mk_info sh st off ews ord)) (st @ [off, ews, ord]) 1
    = Some (order_spec sh st)"
  using getOrder_exact [OF assms, of "st @ [off, ews, ord]" "[off, ews, ord]"]
  by (simp add: shapeOf_mk_info)

lemma doPermuteShapeBuffer_exact:
  assumes p: "is_perm (length sh) p" and sh: "1 \<le> length sh" "pos_dims sh" "prod_list sh < 2 ^ 31"
    and st: "length st = length sh"
  shows "doPermuteShapeBuffer (mk_info sh st off ews ord) p
    = Some (mk_info (perm p sh) (perm p st) off (-1) (order_spec (perm p sh) (perm p st)))"
proof -
  have len: "length p = length sh" using p by (simp add: is_perm_def)
  then have lp: "length (perm p sh) = length sh" "length (perm p st) = length (perm p sh)" by simp_all
  have stride: "at_ptr (mk_info (perm p sh) st off ews ord) (1 + int (length sh))
      (\<lambda>s. doPermuteSwap (int (length sh)) s p) = Some (mk_info (perm p sh) (perm p st) off ews ord)"
    using at_ptr_stride [of "perm p sh" p st off ews ord] p sh st unfolding lp(1) by blast
  have ord: "getOrder (int (length sh)) (shapeOf (mk_info (perm p sh) (perm p st) off (- 1) ord))
      (perm p st @ [off, - 1, ord]) 1 = Some (order_spec (perm p sh) (perm p st))"
    using getOrder_mk_info [of "perm p sh" "perm p st" off "- 1" ord] p sh(2,3) lp(2)
    unfolding lp(1) by (simp add: perm_pos_dims perm_prod)
  have w: "wr (mk_info (perm p sh) (perm p st) off ews ord) (shapeInfoLength (int (length sh)) - 2) v
      = Some (mk_info (perm p sh) (perm p st) off v ord)"
    "wr (mk_info (perm p sh) (perm p st) off v ord) (shapeInfoLength (int (length sh)) - 1) o'
      = Some (mk_info (perm p sh) (perm p st) off v o')" for v o'
    using wr_mk_info(2,3) [OF lp(2)] unfolding lp(1) by blast+
  show ?thesis
    unfolding doPermuteShapeBuffer_def
    by (simp only: rank_mk_info bind.bind_lunit at_ptr_shape [OF p sh(1)] stride w stride_mk_info ord)
qed

lemma permuteShapeBuffer_exact:
  assumes "is_perm (length sh) p" "1 \<le> length sh" "pos_dims sh" "prod_list sh < 2 ^ 31"
    and "length st = length sh"
  shows "permuteShapeBuffer (mk_info sh st off ews ord) p
    = Some (mk_info (perm p sh) (perm p st) off (-1) (order_spec (perm p sh) (perm p st)))"
  using doPermuteShapeBuffer_exact [OF assms]
  by (simp add: permuteShapeBuffer_def rank_mk_info copyOf_mk_info assms)

text \<open>
  Permuting shape, strides and coordinates together does not move an element: the offset computed
  from the permuted buffer is the offset computed from the original one.
\<close>

lemma dot_sum:
  assumes "length sh = n" "length st = n" "length idx = n"
  shows "dot sh st idx
    = sum_list (map (\<lambda>i. if sh ! i = 1 then 0 else idx ! i * st ! i) [0..<n])"
  using assms
proof (induction n arbitrary: sh st idx)
  case (Suc n)
  then obtain d ds t ts x xs where "sh = d # ds" "st = t # ts" "idx = x # xs"
    by (metis length_Suc_conv)
  with Suc show ?case
    by (simp add: map_Suc_upt [symmetric] upt_conv_Cons comp_def del: upt_Suc cong: if_cong)
qed simp

lemma sum_list_map_mset:
  fixes g :: "'a \<Rightarrow> 'b::comm_monoid_add"
  assumes "mset xs = mset ys"
  shows "sum_list (map g xs) = sum_list (map g ys)"
  using arg_cong [OF assms, of "\<lambda>M. sum_mset (image_mset g M)"]
  by (simp add: sum_mset_sum_list flip: mset_map)

lemma dot_perm:
  assumes p: "is_perm (length sh) p" and len: "length st = length sh" "length idx = length sh"
  shows "dot (perm p sh) (perm p st) (perm p idx) = dot sh st idx"
proof -
  let ?n = "length sh" and ?g = "\<lambda>i. if sh ! i = 1 then 0 else idx ! i * st ! i"
  have lp: "length p = ?n" using p by (simp add: is_perm_def)
  have "dot (perm p sh) (perm p st) (perm p idx) = sum_list
      (map (\<lambda>i. if perm p sh ! i = 1 then 0 else perm p idx ! i * perm p st ! i) [0..<?n])"
    by (rule dot_sum) (simp_all add: lp)
  also have "map (\<lambda>i. if perm p sh ! i = 1 then 0 else perm p idx ! i * perm p st ! i) [0..<?n]
      = map (\<lambda>i. ?g (nat (p ! i))) [0..<?n]"
    by (rule map_cong) (auto simp: perm_def lp)
  also have "map (\<lambda>i. ?g (nat (p ! i))) [0..<?n] = map ?g (map nat p)"
    using map_upt_nth [OF lp, of "\<lambda>x. ?g (nat x)"] by (simp only: map_map comp_def)
  also have "sum_list (map ?g (map nat p)) = sum_list (map ?g [0..<?n])"
    by (rule sum_list_map_mset) (rule is_perm_mset [OF p])
  also have "\<dots> = dot sh st idx" using len by (simp add: dot_sum)
  finally show ?thesis .
qed

lemma in_box_iff_nth:
  "in_box sh idx \<longleftrightarrow> length idx = length sh \<and> (\<forall>i < length sh. 0 \<le> idx ! i \<and> idx ! i < sh ! i)"
proof (induction sh idx rule: in_box.induct)
  case (2 d ds x xs)
  then show ?case by (auto simp: All_less_Suc2)
qed auto

lemma in_box_perm:
  assumes "is_perm (length sh) p" "in_box sh idx"
  shows "in_box (perm p sh) (perm p idx)"
proof -
  have "length p = length sh" using assms by (simp add: is_perm_def)
  then show ?thesis
    using assms(2) is_perm_nth [OF assms(1)] unfolding in_box_iff_nth
    by (auto simp: perm_def nat_less_iff)
qed

subsection \<open>The check of a rearrangement\<close>

lemma check_range_exact:
  "i + n \<le> length arr \<Longrightarrow>
   check_range arr len i n = Some (\<forall>k. i \<le> k \<and> k < i + n \<longrightarrow> 0 \<le> arr ! k \<and> arr ! k < len)"
proof (induction n arbitrary: i)
  case (Suc n)
  have "(\<forall>k. i \<le> k \<and> k < i + Suc n \<longrightarrow> P k) \<longleftrightarrow> P i \<and> (\<forall>k. Suc i \<le> k \<and> k < Suc i + n \<longrightarrow> P k)" for P
    by (metis add_Suc_right add_Suc le_eq_less_or_eq le_add1 less_add_Suc1 Suc_le_eq nat_less_le not_less_eq_eq)
  with Suc show ?case by (auto simp: not_le)
qed simp

lemma check_row_exact:
  "j + n \<le> length arr \<Longrightarrow> i < length arr \<Longrightarrow>
   check_row arr i j n = Some (\<forall>k. j \<le> k \<and> k < j + n \<longrightarrow> \<not> (i \<noteq> k \<and> arr ! i = arr ! k))"
proof (induction n arbitrary: j)
  case (Suc n)
  have "(\<forall>k. j \<le> k \<and> k < j + Suc n \<longrightarrow> P k) \<longleftrightarrow> P j \<and> (\<forall>k. Suc j \<le> k \<and> k < Suc j + n \<longrightarrow> P k)" for P
    by (metis add_Suc_right add_Suc le_eq_less_or_eq le_add1 less_add_Suc1 Suc_le_eq nat_less_le not_less_eq_eq)
  with Suc show ?case by auto
qed simp

lemma check_unique_exact:
  "i + n \<le> length arr \<Longrightarrow>
   check_unique arr (length arr) i n
     = Some (\<forall>a. i \<le> a \<and> a < i + n \<longrightarrow> (\<forall>k < length arr. \<not> (a \<noteq> k \<and> arr ! a = arr ! k)))"
proof (induction n arbitrary: i)
  case (Suc n)
  have "(\<forall>k. i \<le> k \<and> k < i + Suc n \<longrightarrow> P k) \<longleftrightarrow> P i \<and> (\<forall>k. Suc i \<le> k \<and> k < Suc i + n \<longrightarrow> P k)" for P
    by (metis add_Suc_right add_Suc le_eq_less_or_eq le_add1 less_add_Suc1 Suc_le_eq nat_less_le not_less_eq_eq)
  with Suc check_row_exact [of 0 "length arr" arr i] show ?case by auto
qed simp

lemma checkArrangeArray_exact:
  "checkArrangeArray p (int (length p)) (int (length p)) = Some (if is_perm (length p) p then 1 else -1)"
proof -
  have "is_perm (length p) p \<longleftrightarrow> (\<forall>k < length p. 0 \<le> p ! k \<and> p ! k < int (length p))
      \<and> (\<forall>a < length p. \<forall>k < length p. \<not> (a \<noteq> k \<and> p ! a = p ! k))"
    by (auto simp: is_perm_def distinct_conv_nth all_set_conv_all_nth)
  then show ?thesis
    using check_range_exact [of 0 "length p" p "int (length p)"] check_unique_exact [of 0 "length p" p]
    by (simp add: checkArrangeArray_def)
qed

end
