(* ===== verification/ShapeReshape.thy ===== *)
theory ShapeReshape
  imports ShapePermute
begin

text \<open>
  Reshaping without a copy (\<open>include/helpers/shape.h\<close>): \<open>reshapeCF\<close>, \<open>canReshape\<close> and
  \<open>computeElementWiseStride\<close> run the same algorithm, which drops the dimensions of size 1, matches
  groups of old axes with groups of new axes of the same size, checks that the old axes of a group
  are contiguous, and lays the new strides out from the innermost old stride of the group.  On top
  of it, the constructors of shape information buffers.
\<close>

subsection \<open>Code\<close>

text \<open>
  The state of the algorithm is what the code keeps in \<open>oldnd\<close>, \<open>olddims\<close> and \<open>oldstrides\<close>; the two
  arrays are full copies of which the first \<open>oldnd\<close> cells are overwritten.
\<close>

definition squeeze :: "int \<Rightarrow> int list \<Rightarrow> int list \<Rightarrow> (int \<times> int list \<times> int list) option" where
  "squeeze oldRank shape stride = do {
     olddims \<leftarrow> copyOf oldRank shape;
     oldstrides \<leftarrow> copyOf oldRank stride;
     for_up 0 (nat oldRank) (\<lambda>oi (oldnd, olddims, oldstrides). do {
       d \<leftarrow> rd shape (int oi);
       if d \<noteq> 1 then do {
         olddims \<leftarrow> wr olddims oldnd d;
         t \<leftarrow> rd stride (int oi);
         oldstrides \<leftarrow> wr oldstrides oldnd t;
         Some (oldnd + 1, olddims, oldstrides) }
       else Some (oldnd, olddims, oldstrides) }) (0, olddims, oldstrides) }"

text \<open>\<open>while (np != op) { if (np < op) np *= newShape[nj++]; else op *= olddims[oj++]; }\<close>\<close>

function match_axes ::
  "int list \<Rightarrow> int list \<Rightarrow> int \<Rightarrow> int \<Rightarrow> nat \<Rightarrow> nat \<Rightarrow> (nat \<times> nat) option" where
  "match_axes newShape olddims np op nj oj =
     (if np = op then Some (nj, oj)
      else if np < op then do {
        d \<leftarrow> rd newShape (int nj); np \<leftarrow> i32 (np * d);
        match_axes newShape olddims np op (Suc nj) oj }
      else do {
        d \<leftarrow> rd olddims (int oj); op \<leftarrow> i32 (op * d);
        match_axes newShape olddims np op nj (Suc oj) })"
  by pat_completeness auto
termination
  by (relation "measure (\<lambda>(newShape, olddims, np, op, nj, oj).
        (length newShape - nj) + (length olddims - oj))")
    (auto simp: rd_def split: if_splits)

declare match_axes.simps [simp del]

fun contiguous :: "bool \<Rightarrow> int list \<Rightarrow> int list \<Rightarrow> nat \<Rightarrow> nat \<Rightarrow> bool option" where
  "contiguous isF olddims oldstrides ok 0 = Some True"
| "contiguous isF olddims oldstrides ok (Suc n) = do {
     a \<leftarrow> rd oldstrides (int ok);
     b \<leftarrow> rd oldstrides (int ok + 1);
     d \<leftarrow> rd olddims (if isF then int ok else int ok + 1);
     p \<leftarrow> i32 (d * (if isF then a else b));
     if (if isF then b \<noteq> p else a \<noteq> p) then Some False
     else contiguous isF olddims oldstrides (Suc ok) n }"

text \<open>The new strides of the axes \<open>ni \<le> nk < nj\<close>.\<close>

definition group_strides ::
  "bool \<Rightarrow> int list \<Rightarrow> int list \<Rightarrow> nat \<Rightarrow> nat \<Rightarrow> nat \<Rightarrow> nat \<Rightarrow> cells \<Rightarrow> cells option" where
  "group_strides isF newShape oldstrides ni nj oi oj newStrides =
     (if isF then do {
        t \<leftarrow> rd oldstrides (int oi);
        newStrides \<leftarrow> wr newStrides (int ni) (Some t);
        for_up (ni + 1) (nj - (ni + 1)) (\<lambda>nk newStrides. do {
          s \<leftarrow> rd newStrides (int nk - 1);
          s \<leftarrow> s;
          d \<leftarrow> rd newShape (int nk - 1);
          p \<leftarrow> i32 (s * d);
          wr newStrides (int nk) (Some p) }) newStrides }
      else do {
        t \<leftarrow> rd oldstrides (int oj - 1);
        newStrides \<leftarrow> wr newStrides (int nj - 1) (Some t);
        for_down (nj - 1 - ni) (\<lambda>k newStrides. do {
          let nk = ni + k + 1;
          s \<leftarrow> rd newStrides (int nk);
          s \<leftarrow> s;
          d \<leftarrow> rd newShape (int nk);
          p \<leftarrow> i32 (s * d);
          wr newStrides (int nk - 1) (Some p) }) newStrides })"

lemma match_axes_mono: "match_axes newShape olddims np op nj oj = Some (nj', oj') \<Longrightarrow> nj \<le> nj' \<and> oj \<le> oj'"
proof (induction newShape olddims np op nj oj rule: match_axes.induct)
  case (1 newShape olddims np op nj oj)
  consider "np = op" | "np \<noteq> op" "np < op" | "np \<noteq> op" "\<not> np < op" by blast
  then show ?case
  proof cases
    case 1
    with "1.prems" show ?thesis by (simp add: match_axes.simps [of _ _ op op])
  next
    case 2
    with "1.prems" obtain d q where "rd newShape (int nj) = Some d" "i32 (np * d) = Some q"
      "match_axes newShape olddims q op (Suc nj) oj = Some (nj', oj')"
      by (simp add: match_axes.simps [of _ _ np op] bind_eq_Some_conv del: rd_nat) blast
    from "1.IH"(1) [OF 2 this] show ?thesis by simp
  next
    case 3
    with "1.prems" obtain d q where "rd olddims (int oj) = Some d" "i32 (op * d) = Some q"
      "match_axes newShape olddims np q nj (Suc oj) = Some (nj', oj')"
      by (simp add: match_axes.simps [of _ _ np op] bind_eq_Some_conv del: rd_nat) blast
    from "1.IH"(2) [OF 3 this] show ?thesis by simp
  qed
qed

text \<open>
  The main loop.  At its head \<open>nj = ni + 1\<close> and \<open>oj = oi + 1\<close>.  The outer option is the absence of
  undefined behaviour, the inner one the early \<open>return false\<close>.
\<close>

function reshape_loop ::
  "bool \<Rightarrow> nat \<Rightarrow> int list \<Rightarrow> nat \<Rightarrow> int list \<Rightarrow> int list \<Rightarrow> nat \<Rightarrow> nat \<Rightarrow> cells
   \<Rightarrow> (nat \<times> cells) option option" where
  "reshape_loop isF newRank newShape oldnd olddims oldstrides ni oi newStrides =
     (if ni < newRank \<and> oi < oldnd then do {
        np \<leftarrow> rd newShape (int ni);
        op \<leftarrow> rd olddims (int oi);
        (nj, oj) \<leftarrow> match_axes newShape olddims np op (ni + 1) (oi + 1);
        ok \<leftarrow> contiguous isF olddims oldstrides oi (oj - 1 - oi);
        if \<not> ok then Some None
        else do {
          newStrides \<leftarrow> group_strides isF newShape oldstrides ni nj oi oj newStrides;
          reshape_loop isF newRank newShape oldnd olddims oldstrides nj oj newStrides } }
      else Some (Some (ni, newStrides)))"
  by pat_completeness auto
termination
  by (relation "measure (\<lambda>(isF, newRank, newShape, oldnd, olddims, oldstrides, ni, oi, ns).
        newRank - ni)") (auto dest: match_axes_mono)

declare reshape_loop.simps [simp del]

text \<open>The sizes are compared first; an array with no element is refused.\<close>

definition reshape_core ::
  "bool \<Rightarrow> int \<Rightarrow> int list \<Rightarrow> int list \<Rightarrow> int \<Rightarrow> int list \<Rightarrow> (nat \<times> cells) option option" where
  "reshape_core isF oldRank shape stride newRank newShape = do {
     (oldnd, olddims, oldstrides) \<leftarrow> squeeze oldRank shape stride;
     newStrides \<leftarrow> new_ints newRank;
     np \<leftarrow> prod_int newShape newRank;
     op \<leftarrow> prod_int olddims oldnd;
     if np \<noteq> op then Some None
     else if np = 0 then Some None
     else reshape_loop isF (nat newRank) newShape (nat oldnd) olddims oldstrides 0 0 newStrides }"

definition computeElementWiseStride :: "int \<Rightarrow> int list \<Rightarrow> int list \<Rightarrow> bool \<Rightarrow> int option" where
  "computeElementWiseStride rank shape stride isFOrder = do {
     v \<leftarrow> isVector shape rank;
     if v \<noteq> 0 then rd stride (rank - 1)
     else do {
       len \<leftarrow> prodLong shape rank;
       let newShape = [1, to_int32 len];
       r \<leftarrow> reshape_core isFOrder rank shape stride 2 newShape;
       case r of
         None \<Rightarrow> Some (-1)
       | Some (ni, newStrides) \<Rightarrow> do {
           last_stride \<leftarrow> (if ni \<ge> 1 then do { s \<leftarrow> rd newStrides (int ni - 1); s }
                            else rd stride (rank - 1));
           if isFOrder \<and> ni \<ge> 1 then do { d \<leftarrow> rd newShape (int ni - 1); i32 (last_stride * d) }
           else Some last_stride } } }"

definition computeElementWiseStride_dim ::
  "int \<Rightarrow> int list \<Rightarrow> int list \<Rightarrow> bool \<Rightarrow> int list \<Rightarrow> int \<Rightarrow> int option" where
  "computeElementWiseStride_dim rank shape stride isFOrder dimension dimensionLength =
     (if dimensionLength = 1 then do { k \<leftarrow> rd dimension 0; rd stride k } else Some (-1))"

definition reshapeCF ::
  "int \<Rightarrow> int list \<Rightarrow> int \<Rightarrow> int list \<Rightarrow> bool \<Rightarrow> cells \<Rightarrow> (bool \<times> cells) option" where
  "reshapeCF oldRank oldShape newRank newShapeOf isFOrder target = do {
     stride \<leftarrow> stride_of oldShape;
     r \<leftarrow> reshape_core isFOrder oldRank (shapeOf oldShape) stride newRank newShapeOf;
     case r of
       None \<Rightarrow> Some (False, target)
     | Some (ni, newStrides) \<Rightarrow> do {
         last_stride \<leftarrow> (if ni \<ge> 1 then do { s \<leftarrow> rd newStrides (int ni - 1); s }
                          else elementWiseStride_of oldShape);
         last_stride \<leftarrow> (if isFOrder \<and> ni \<ge> 1
                          then do { d \<leftarrow> rd newShapeOf (int ni - 1); i32 (last_stride * d) }
                          else Some last_stride);
         newStrides \<leftarrow> for_up ni (nat newRank - ni)
           (\<lambda>nk newStrides. wr newStrides (int nk) (Some last_stride)) newStrides;
         target \<leftarrow> wr target 0 (Some newRank);
         target \<leftarrow> for_up 0 (nat newRank) (\<lambda>e target. do {
           v \<leftarrow> rd newShapeOf (int e); wr target (1 + int e) (Some v) }) target;
         target \<leftarrow> for_up 0 (nat newRank) (\<lambda>e target. do {
           v \<leftarrow> rd newStrides (int e); v \<leftarrow> v; wr target (1 + int (nat newRank) + int e) (Some v) }) target;
         target \<leftarrow> wr target (shapeInfoLength newRank - 3) (Some 0);
         target \<leftarrow> wr target (shapeInfoLength newRank - 2) (Some (-1));
         target \<leftarrow> wr target (shapeInfoLength newRank - 1) (Some (if isFOrder then 102 else 99));
         Some (True, target) } }"

definition canReshape :: "int \<Rightarrow> int list \<Rightarrow> int \<Rightarrow> int list \<Rightarrow> bool \<Rightarrow> bool option" where
  "canReshape oldRank oldShape newRank newShapeOf isFOrder = do {
     stride \<leftarrow> stride_of oldShape;
     r \<leftarrow> reshape_core isFOrder oldRank (shapeOf oldShape) stride newRank newShapeOf;
     Some (r \<noteq> None) }"

subsection \<open>Constructors of buffers\<close>

definition shapeBuffer :: "int \<Rightarrow> int list \<Rightarrow> int list option" where
  "shapeBuffer rank shape = do {
     stride \<leftarrow> calcStrides shape rank;
     ews \<leftarrow> computeElementWiseStride rank shape stride False;
     toShapeBuffer \<lparr>si_shape = shape, si_stride = stride, si_order = 99, si_rank = rank,
                    si_offset = 0, si_elementWiseStride = ews\<rparr> }"

text \<open>The variants that fill a caller's buffer keep the strides in an array of \<open>MAX_RANK\<close> cells.\<close>

definition shapeBuffer_into :: "int \<Rightarrow> int list \<Rightarrow> cells \<Rightarrow> cells option" where
  "shapeBuffer_into rank shape buffer = do {
     stride \<leftarrow> new_ints 32;
     stride \<leftarrow> calcStrides_into shape rank stride;
     stride \<leftarrow> finish (take (nat rank) stride);
     ews \<leftarrow> computeElementWiseStride rank shape stride False;
     toShapeBuffer_into \<lparr>si_shape = shape, si_stride = stride, si_order = 99, si_rank = rank,
                    si_offset = 0, si_elementWiseStride = ews\<rparr> buffer }"

definition shapeBufferFortran :: "int \<Rightarrow> int list \<Rightarrow> int list option" where
  "shapeBufferFortran rank shape = do {
     stride \<leftarrow> calcStridesFortran shape rank;
     ews \<leftarrow> computeElementWiseStride rank shape stride False;
     toShapeBuffer \<lparr>si_shape = shape, si_stride = stride, si_order = 102, si_rank = rank,
                    si_offset = 0, si_elementWiseStride = ews\<rparr> }"

definition shapeBufferFortran_into :: "int \<Rightarrow> int list \<Rightarrow> cells \<Rightarrow> cells option" where
  "shapeBufferFortran_into rank shape output = do {
     stride \<leftarrow> new_ints 32;
     stride \<leftarrow> calcStridesFortran_into shape rank stride;
     stride \<leftarrow> finish (take (nat rank) stride);
     ews \<leftarrow> computeElementWiseStride rank shape stride False;
     toShapeBuffer_into \<lparr>si_shape = shape, si_stride = stride, si_order = 102, si_rank = rank,
                    si_offset = 0, si_elementWiseStride = ews\<rparr> output }"

definition shapeBufferOfNpy :: "int \<Rightarrow> int list \<Rightarrow> bool \<Rightarrow> int list option" where
  "shapeBufferOfNpy rank shape fortranOrder =
     (if fortranOrder then shapeBufferFortran rank (map to_int32 shape)
      else do {
        newShape \<leftarrow> new_ints rank;
        newShape \<leftarrow> for_up 0 (nat rank) (\<lambda>i newShape. do {
          v \<leftarrow> rd shape (int i); wr newShape (int i) (Some (to_int32 v)) }) newShape;
        newShape \<leftarrow> finish newShape;
        shapeBuffer rank newShape })"

subsection \<open>Layouts\<close>

text \<open>
  Two strided layouts agree when they have the same number of elements and the element with linear
  row-major index \<open>k\<close> lies at the same offset in both.
\<close>

definition same_layout :: "int list \<Rightarrow> int list \<Rightarrow> int list \<Rightarrow> int list \<Rightarrow> bool" where
  "same_layout ns nst ds ts \<longleftrightarrow> prod_list ns = prod_list ds
     \<and> (\<forall>k. 0 \<le> k \<and> k < prod_list ns \<longrightarrow> dot ns nst (dec_c ns k) = dot ds ts (dec_c ds k))"

lemma dec_c_append:
  "pos_dims a \<Longrightarrow> pos_dims g \<Longrightarrow> 0 \<le> k \<Longrightarrow> k < prod_list (a @ g) \<Longrightarrow>
   dec_c (a @ g) k = dec_c a (k div prod_list g) @ dec_c g (k mod prod_list g)"
proof (induction a arbitrary: k)
  case Nil
  then show ?case by simp
next
  case (Cons d a)
  then have pos: "0 < prod_list a" "0 < prod_list g" by (simp_all add: pos_dims_prod)
  let ?k = "k mod (prod_list a * prod_list g)"
  have "dec_c (a @ g) ?k = dec_c a (?k div prod_list g) @ dec_c g (?k mod prod_list g)"
    using Cons pos by simp
  moreover have "k div (prod_list a * prod_list g) = k div prod_list g div prod_list a"
    using pos by (metis zdiv_zmult2_eq mult.commute less_imp_le)
  moreover have "?k div prod_list g = k div prod_list g mod prod_list a"
    using pos zmod_zmult2_eq [of "prod_list a" k "prod_list g"] by (simp add: mult.commute)
  ultimately show ?case by (simp add: mod_mod_cancel)
qed

lemma dot_append:
  "length s = length a \<Longrightarrow> length x = length a \<Longrightarrow> dot (a @ g) (s @ sg) (x @ y) = dot a s x + dot g sg y"
proof (induction a arbitrary: s x)
  case (Cons d a)
  then show ?case by (cases s; cases x) auto
qed simp

lemma dot_scaled_c_strides:
  "in_box sh idx \<Longrightarrow> dot sh (map ((*) t) (c_strides sh)) idx = t * enc_c sh idx"
  by (induction sh idx rule: in_box.induct) (auto simp: algebra_simps)

lemma dot_packed_group:
  assumes "pos_dims g" "0 \<le> k" "k < prod_list g"
  shows "dot g (map ((*) t) (c_strides g)) (dec_c g k) = t * k"
  using enc_dec_c [OF assms] by (simp add: dot_scaled_c_strides)

lemma same_layout_append:
  assumes "same_layout a s b u" "length s = length a" "length u = length b"
    and "pos_dims a" "pos_dims b" "pos_dims g" "pos_dims h" "prod_list g = prod_list h"
  shows "same_layout (a @ g) (s @ map ((*) t) (c_strides g)) (b @ h) (u @ map ((*) t) (c_strides h))"
  unfolding same_layout_def
proof (intro conjI allI impI)
  show "prod_list (a @ g) = prod_list (b @ h)"
    using assms by (simp add: same_layout_def)
next
  fix k assume k: "0 \<le> k \<and> k < prod_list (a @ g)"
  let ?G = "prod_list g"
  have G: "0 < ?G" using assms by (simp add: pos_dims_prod)
  have "0 \<le> k div ?G" "k div ?G < prod_list a"
    using k G by (simp_all add: pos_imp_zdiv_nonneg_iff div_less_factor mult.commute)
  then have "dot a s (dec_c a (k div ?G)) = dot b u (dec_c b (k div ?G))"
    using assms(1) by (simp add: same_layout_def)
  moreover have "0 \<le> k mod ?G" "k mod ?G < ?G" using G by simp_all
  ultimately show "dot (a @ g) (s @ map ((*) t) (c_strides g)) (dec_c (a @ g) k)
      = dot (b @ h) (u @ map ((*) t) (c_strides h)) (dec_c (b @ h) k)"
    using assms k dec_c_append [of a g k] dec_c_append [of b h k]
    by (simp add: same_layout_def dot_append dot_packed_group)
qed

text \<open>Axes of size 1 carry no offset.\<close>

lemma dec_c_ones: "pos_dims g \<Longrightarrow> prod_list g = 1 \<Longrightarrow> \<forall>d \<in> set g. d = 1"
proof (induction g)
  case (Cons d g)
  then have "0 < d" "0 < prod_list g" by (simp_all add: pos_dims_prod)
  with Cons.prems have "d = 1" "prod_list g = 1"
    by (auto simp: pos_zmult_eq_1_iff zmult_eq_1_iff)
  with Cons show ?case by simp
qed simp

lemma dot_ones: "\<forall>d \<in> set g. d = 1 \<Longrightarrow> dot g s x = 0"
  by (induction g s x rule: dot.induct) auto

lemma same_layout_trailing_ones:
  assumes "same_layout a s b u" "length s = length a" "pos_dims a" "pos_dims g" "prod_list g = 1"
  shows "same_layout (a @ g) (s @ v) b u"
  unfolding same_layout_def
proof (intro conjI allI impI)
  show "prod_list (a @ g) = prod_list b" using assms by (simp add: same_layout_def)
next
  fix k assume k: "0 \<le> k \<and> k < prod_list (a @ g)"
  have "dot g v x = 0" for x by (rule dot_ones [OF dec_c_ones [OF assms(4,5)]])
  then show "dot (a @ g) (s @ v) (dec_c (a @ g) k) = dot b u (dec_c b k)"
    using assms k dec_c_append [of a g k] by (simp add: same_layout_def dot_append)
qed

definition sq :: "int list \<Rightarrow> int list \<Rightarrow> (int \<times> int) list" where
  "sq sh st = filter (\<lambda>(d, t). d \<noteq> 1) (zip sh st)"

lemma sq_Cons [simp]:
  "sq (d # sh) (t # st) = (if d = 1 then sq sh st else (d, t) # sq sh st)"
  by (simp add: sq_def)

lemma sq_Nil [simp]: "sq [] st = []" "sq sh [] = []"
  by (simp_all add: sq_def)

lemma sq_prod: "length st = length sh \<Longrightarrow> prod_list (map fst (sq sh st)) = prod_list sh"
  by (induction sh st rule: list_induct2') auto

lemma sq_pos: "pos_dims sh \<Longrightarrow> pos_dims (map fst (sq sh st))"
  by (induction sh st rule: list_induct2') auto

lemma sq_ge_2: "pos_dims sh \<Longrightarrow> d \<in> set (map fst (sq sh st)) \<Longrightarrow> 2 \<le> d"
  by (auto simp: sq_def pos_dims_def dest!: set_zip_leftD) 

lemma sq_dot:
  assumes "length st = length sh" "pos_dims sh" "0 \<le> k" "k < prod_list sh"
  shows "dot (map fst (sq sh st)) (map snd (sq sh st)) (dec_c (map fst (sq sh st)) k) = dot sh st (dec_c sh k)"
  using assms
proof (induction sh st arbitrary: k rule: list_induct2')
  case (4 d sh t st)
  then have pos: "0 < prod_list sh" by (simp add: pos_dims_prod)
  then have "0 \<le> k mod prod_list sh" "k mod prod_list sh < prod_list sh" by simp_all
  with 4 show ?case by (auto simp: sq_prod)
qed auto

lemma sq_same_layout:
  "length st = length sh \<Longrightarrow> pos_dims sh \<Longrightarrow>
   same_layout ns nst (map fst (sq sh st)) (map snd (sq sh st)) = same_layout ns nst sh st"
  by (auto simp: same_layout_def sq_prod sq_dot)

lemma sq_snoc:
  "length st = length sh \<Longrightarrow> sq (sh @ [d]) (st @ [t]) = sq sh st @ (if d = 1 then [] else [(d, t)])"
  by (simp add: sq_def)

lemma length_sq: "length (sq sh st) \<le> length sh"
  by (simp add: sq_def) (metis length_filter_le length_zip min.cobounded1 le_trans)

subsection \<open>The steps of the algorithm\<close>

lemma squeeze_exact:
  assumes "length st = length sh"
  shows "squeeze (int (length sh)) (sh @ r) (st @ r')
    = Some (int (length (sq sh st)), map fst (sq sh st) @ drop (length (sq sh st)) sh,
        map snd (sq sh st) @ drop (length (sq sh st)) st)"
proof -
  let ?n = "length sh"
  let ?f = "\<lambda>oi (oldnd, olddims, oldstrides). do { d \<leftarrow> rd (sh @ r) (int oi);
       if d \<noteq> 1 then do { olddims \<leftarrow> wr olddims oldnd d; t \<leftarrow> rd (st @ r') (int oi);
         oldstrides \<leftarrow> wr oldstrides oldnd t; Some (oldnd + 1, olddims, oldstrides) }
       else Some (oldnd, olddims, oldstrides) }"
  let ?s = "\<lambda>i. sq (take i sh) (take i st)"
  let ?P = "\<lambda>i p. p = (int (length (?s i)), map fst (?s i) @ drop (length (?s i)) sh,
        map snd (?s i) @ drop (length (?s i)) st)"
  have "\<exists>p. for_up 0 ?n ?f (0, sh, st) = Some p \<and> ?P (0 + ?n) p"
  proof (rule for_up_total)
    fix i p
    assume i: "i < 0 + ?n" and P: "?P i p"
    have "length (?s i) \<le> i" using length_sq [of "take i sh" "take i st"] i by simp
    then have lt: "length (?s i) < ?n" using i by simp
    have s: "?s (Suc i) = ?s i @ (if sh ! i = 1 then [] else [(sh ! i, st ! i)])"
      using i assms by (simp add: take_Suc_conv_app_nth sq_snoc)
    have dr: "drop (length (?s i)) sh = sh ! length (?s i) # drop (Suc (length (?s i))) sh"
      "drop (length (?s i)) st = st ! length (?s i) # drop (Suc (length (?s i))) st"
      using lt assms by (simp_all add: Cons_nth_drop_Suc)
    show "\<exists>p'. ?f i p = Some p' \<and> ?P (Suc i) p'"
    proof (cases "sh ! i = 1")
      case True
      with P i s show ?thesis by (simp add: nth_append)
    next
      case False
      with P i s dr lt assms show ?thesis
        by (simp add: nth_append list_update_append)
    qed
  qed simp
  moreover have "copyOf (int ?n) (sh @ r) = Some sh" "copyOf (int ?n) (st @ r') = Some st"
    using copyOf_exact [of ?n "sh @ r"] copyOf_exact [of ?n "st @ r'"] assms by simp_all
  ultimately show ?thesis using assms by (simp add: squeeze_def)
qed

lemma match_axes_exact:
  assumes "pos_dims ns" "pos_dims ds" "0 < np" "0 < op" "nj \<le> length ns" "oj \<le> length ds"
    and "np * prod_list (drop nj ns) = op * prod_list (drop oj ds)"
    and "np * prod_list (drop nj ns) < 2 ^ 31"
  shows "\<exists>nj' oj'. match_axes (ns @ r) (ds @ r') np op nj oj = Some (nj', oj')
    \<and> nj \<le> nj' \<and> nj' \<le> length ns \<and> oj \<le> oj' \<and> oj' \<le> length ds
    \<and> np * prod_list (take (nj' - nj) (drop nj ns)) = op * prod_list (take (oj' - oj) (drop oj ds))"
  using assms(3-8)
proof (induction "(length ns - nj) + (length ds - oj)" arbitrary: np op nj oj rule: less_induct)
  case less
  note pos = pos_dims_prod [OF pos_dims_drop [OF assms(1)]] pos_dims_prod [OF pos_dims_drop [OF assms(2)]]
  consider "np = op" | "np < op" | "op < np" by linarith
  then show ?case
  proof cases
    case 1
    with less.prems show ?thesis
      by (intro exI [of _ nj] exI [of _ oj]) (simp add: match_axes.simps [of _ _ op op])
  next
    case 2
    have nj: "nj < length ns"
    proof (rule ccontr)
      assume "\<not> nj < length ns"
      then have "np = op * prod_list (drop oj ds)" using less.prems by simp
      moreover have "op * 1 \<le> op * prod_list (drop oj ds)"
        using pos(2) [of oj] less.prems(2) by (intro mult_left_mono) linarith+
      ultimately show False using 2 by simp
    qed
    have d: "0 < ns ! nj" using assms(1) nj by (rule pos_dims_nth)
    have split: "prod_list (drop nj ns) = ns ! nj * prod_list (drop (Suc nj) ns)"
      using nj by (rule prod_list_drop_Suc)
    have q: "0 < np * ns ! nj" using d less.prems(1) by simp
    have "np * ns ! nj * 1 \<le> np * ns ! nj * prod_list (drop (Suc nj) ns)"
      using q pos(1) [of "Suc nj"] by (intro mult_left_mono) linarith+
    then have "np * ns ! nj < 2 ^ 31" using less.prems(6) split by (simp add: mult.assoc)
    then have i: "i32 (np * ns ! nj) = Some (np * ns ! nj)" using q by (intro i32_scaled)
    have eq: "np * ns ! nj * prod_list (drop (Suc nj) ns) = op * prod_list (drop oj ds)"
      "np * ns ! nj * prod_list (drop (Suc nj) ns) < 2 ^ 31"
      using less.prems(5,6) split by (simp_all add: mult.assoc)
    have meas: "(length ns - Suc nj) + (length ds - oj) < (length ns - nj) + (length ds - oj)"
      using nj by simp
    from less.hyps [OF meas q less.prems(2) _ less.prems(4) eq] nj
    obtain nj' oj' where IH: "match_axes (ns @ r) (ds @ r') (np * ns ! nj) op (Suc nj) oj = Some (nj', oj')"
      "Suc nj \<le> nj'" "nj' \<le> length ns" "oj \<le> oj'" "oj' \<le> length ds"
      "np * ns ! nj * prod_list (take (nj' - Suc nj) (drop (Suc nj) ns))
        = op * prod_list (take (oj' - oj) (drop oj ds))" by auto
    have "take (nj' - nj) (drop nj ns) = ns ! nj # take (nj' - Suc nj) (drop (Suc nj) ns)"
      using IH(2) nj by (simp add: Suc_diff_le take_Cons' flip: Cons_nth_drop_Suc)
    with IH 2 nj i show ?thesis
      by (intro exI [of _ nj'] exI [of _ oj'])
        (simp add: match_axes.simps [of _ _ np op] nth_append mult.assoc)
  next
    case 3
    have oj: "oj < length ds"
    proof (rule ccontr)
      assume "\<not> oj < length ds"
      then have "op = np * prod_list (drop nj ns)" using less.prems by simp
      moreover have "np * 1 \<le> np * prod_list (drop nj ns)"
        using pos(1) [of nj] less.prems(1) by (intro mult_left_mono) linarith+
      ultimately show False using 3 by simp
    qed
    have d: "0 < ds ! oj" using assms(2) oj by (rule pos_dims_nth)
    have split: "prod_list (drop oj ds) = ds ! oj * prod_list (drop (Suc oj) ds)"
      using oj by (rule prod_list_drop_Suc)
    have q: "0 < op * ds ! oj" using d less.prems(2) by simp
    have "op * ds ! oj * 1 \<le> op * ds ! oj * prod_list (drop (Suc oj) ds)"
      using q pos(2) [of "Suc oj"] by (intro mult_left_mono) linarith+
    then have "op * ds ! oj < 2 ^ 31" using less.prems(5,6) split by (simp add: mult.assoc)
    then have i: "i32 (op * ds ! oj) = Some (op * ds ! oj)" using q by (intro i32_scaled)
    have eq: "np * prod_list (drop nj ns) = op * ds ! oj * prod_list (drop (Suc oj) ds)"
      using less.prems(5) split by (simp add: mult.assoc)
    have meas: "(length ns - nj) + (length ds - Suc oj) < (length ns - nj) + (length ds - oj)"
      using oj by simp
    from less.hyps [OF meas less.prems(1) q less.prems(3) _ eq less.prems(6)] oj
    obtain nj' oj' where IH: "match_axes (ns @ r) (ds @ r') np (op * ds ! oj) nj (Suc oj) = Some (nj', oj')"
      "nj \<le> nj'" "nj' \<le> length ns" "Suc oj \<le> oj'" "oj' \<le> length ds"
      "np * prod_list (take (nj' - nj) (drop nj ns))
        = op * ds ! oj * prod_list (take (oj' - Suc oj) (drop (Suc oj) ds))" by auto
    have "take (oj' - oj) (drop oj ds) = ds ! oj # take (oj' - Suc oj) (drop (Suc oj) ds)"
      using IH(4) oj by (simp add: Suc_diff_le take_Cons' flip: Cons_nth_drop_Suc)
    with IH 3 oj i show ?thesis
      by (intro exI [of _ nj'] exI [of _ oj'])
        (simp add: match_axes.simps [of _ _ np op] nth_append mult.assoc)
  qed
qed

text \<open>The strides of the group of axes \<open>i, ..., i + n\<close> are packed in row-major order.\<close>

definition packed_axes :: "int list \<Rightarrow> int list \<Rightarrow> nat \<Rightarrow> nat \<Rightarrow> bool" where
  "packed_axes ds ts i n \<longleftrightarrow> (\<forall>j < n. ts ! (i + j) = ds ! (i + Suc j) * ts ! (i + Suc j))"

definition stride_bounds :: "int list \<Rightarrow> int list \<Rightarrow> bool" where
  "stride_bounds ds ts \<longleftrightarrow> length ts = length ds
     \<and> (\<forall>i < length ds. 0 \<le> ts ! i \<and> ds ! i * ts ! i < 2 ^ 31)"

lemma stride_bounds_i32:
  "pos_dims ds \<Longrightarrow> stride_bounds ds ts \<Longrightarrow> i < length ds \<Longrightarrow> i32 (ds ! i * ts ! i) = Some (ds ! i * ts ! i)"
  by (auto simp: stride_bounds_def i32_def pos_dims_nth less_imp_le intro: order_trans [of _ 0])

lemma packed_axes_Suc:
  "packed_axes ds ts i (Suc n) \<longleftrightarrow>
     ts ! i = ds ! Suc i * ts ! Suc i \<and> packed_axes ds ts (Suc i) n"
  unfolding packed_axes_def by (subst All_less_Suc2) simp

lemma contiguous_exact:
  assumes "pos_dims ds" "stride_bounds ds ts" "i + n < length ds"
  shows "contiguous False (ds @ r) (ts @ r') i n = Some (packed_axes ds ts i n)"
  using assms(3)
proof (induction n arbitrary: i)
  case 0
  then show ?case by (simp add: packed_axes_def)
next
  case (Suc n)
  have len: "length ts = length ds" using assms(2) by (simp add: stride_bounds_def)
  have "i32 (ds ! Suc i * ts ! Suc i) = Some (ds ! Suc i * ts ! Suc i)"
    using assms(1,2) Suc.prems by (intro stride_bounds_i32) auto
  moreover have "rd (ts @ r') (int i + 1) = Some (ts ! Suc i)" "rd (ds @ r) (int i + 1) = Some (ds ! Suc i)"
    using Suc.prems len rd_nat [of "ts @ r'" "Suc i"] rd_nat [of "ds @ r" "Suc i"]
    by (simp_all add: nth_append add.commute)
  ultimately show ?case
    using Suc len by (simp add: nth_append packed_axes_Suc)
qed

lemma packed_axes_c_strides:
  assumes "length ts = length ds" "i + n < length ds" "packed_axes ds ts i n"
  shows "take (Suc n) (drop i ts) = map ((*) (ts ! (i + n))) (c_strides (take (Suc n) (drop i ds)))"
  using assms(2,3)
proof (induction n arbitrary: i)
  case 0
  then show ?case using assms(1) by (simp add: take_Suc hd_drop_conv_nth drop_eq_Nil)
next
  case (Suc n)
  have IH: "take (Suc n) (drop (Suc i) ts)
      = map ((*) (ts ! (i + Suc n))) (c_strides (take (Suc n) (drop (Suc i) ds)))"
    using Suc.IH [of "Suc i"] Suc.prems by (simp add: packed_axes_Suc)
  have dr: "drop i ts = ts ! i # drop (Suc i) ts" "drop i ds = ds ! i # drop (Suc i) ds"
    using assms(1) Suc.prems by (simp_all add: Cons_nth_drop_Suc)
  have tk: "take (Suc n) (drop (Suc i) ts) = ts ! Suc i # take n (drop (Suc (Suc i)) ts)"
    "take (Suc n) (drop (Suc i) ds) = ds ! Suc i # take n (drop (Suc (Suc i)) ds)"
    using assms(1) Suc.prems(1) by (simp_all add: Cons_nth_drop_Suc [symmetric])
  have "ts ! Suc i = ts ! (i + Suc n) * prod_list (take n (drop (Suc (Suc i)) ds))"
    using IH unfolding tk by simp
  moreover have "ts ! i = ds ! Suc i * ts ! Suc i" using Suc.prems(2) by (simp add: packed_axes_Suc)
  ultimately show ?case using dr IH tk by simp
qed

lemma group_strides_exact:
  assumes "ni < nj" "nj \<le> length ns" "nj \<le> length arr" "0 < oj" "oj \<le> length ts"
    and "pos_dims ns" "0 \<le> ts ! (oj - 1)"
    and "ts ! (oj - 1) * prod_list (take (nj - ni) (drop ni ns)) < 2 ^ 31"
  shows "group_strides False (ns @ r) (ts @ r') ni nj oi oj arr
    = Some (take ni arr @ map Some (map ((*) (ts ! (oj - 1))) (c_strides (take (nj - ni) (drop ni ns))))
        @ drop nj arr)"
proof -
  let ?g = "take (nj - ni) (drop ni ns)" and ?t = "ts ! (oj - 1)"
  let ?n = "nj - 1 - ni"
  let ?f = "\<lambda>k newStrides. do { let nk = ni + k + 1; s \<leftarrow> rd newStrides (int nk); s \<leftarrow> s;
       d \<leftarrow> rd (ns @ r) (int nk); p \<leftarrow> i32 (s * d); wr newStrides (int nk - 1) (Some p) }"
  let ?P = "\<lambda>k a. a = take (ni + k) arr @ map Some (map ((*) ?t) (c_strides (drop k ?g))) @ drop nj arr"
  have g: "length ?g = Suc ?n" "pos_dims ?g" using assms by (simp_all add: pos_dims_intros)
  have "\<exists>a. for_down ?n ?f (arr[nj - 1 := Some ?t]) = Some a \<and> ?P 0 a"
  proof (rule for_down_total)
    have "drop ?n ?g = [?g ! ?n]" using g by (simp add: Cons_nth_drop_Suc [symmetric])
    moreover have "arr[nj - 1 := Some ?t] = take (nj - 1) arr @ Some ?t # drop nj arr"
      using assms by (simp add: upd_conv_take_nth_drop)
    ultimately show "?P ?n (arr[nj - 1 := Some ?t])" using assms by simp
  next
    fix j a assume j: "j < ?n" and P: "?P (Suc j) a"
    have dr: "drop (Suc j) ?g = ?g ! Suc j # drop (Suc (Suc j)) ?g" "drop j ?g = ?g ! j # drop (Suc j) ?g"
      using g(1) j by (simp_all add: Cons_nth_drop_Suc [symmetric])
    have tk: "take (ni + Suc j) arr = take (ni + j) arr @ [arr ! (ni + j)]" "length (take (ni + j) arr) = ni + j"
      using j assms by (simp_all add: take_Suc_conv_app_nth)
    have "prod_list (drop (Suc j) ?g) \<le> prod_list ?g" by (rule pos_dims_prod_drop_le [OF g(2)])
    then have "?t * prod_list (drop (Suc j) ?g) \<le> ?t * prod_list ?g" using assms(7) by (rule mult_left_mono)
    moreover have "0 \<le> ?t * prod_list (drop (Suc j) ?g)"
      using assms(7) pos_dims_prod [OF pos_dims_drop [OF g(2), of "Suc j"]] by simp
    ultimately have ok: "i32 (?t * prod_list (drop (Suc j) ?g)) = Some (?t * prod_list (drop (Suc j) ?g))"
      using assms(8) by (simp add: i32_def)
    have pd: "prod_list (drop (Suc j) ?g) = ns ! (ni + Suc j) * prod_list (drop (Suc (Suc j)) ?g)"
      unfolding dr(1) using j assms(2) by simp
    have ok': "i32 (?t * (prod_list (drop (Suc (Suc j)) ?g) * ns ! Suc (ni + j)))
        = Some (?t * prod_list (drop (Suc j) ?g))"
      using ok pd by (simp add: mult.commute)
    have lt: "Suc (ni + j) < length ns" using j assms(2) by linarith
    have rd: "rd a (int (ni + j + 1)) = Some (Some (?t * prod_list (drop (Suc (Suc j)) ?g)))"
      "rd (ns @ r) (int (ni + j + 1)) = Some (ns ! (ni + Suc j))"
      unfolding P dr(1) rd_nat using lt j assms by (simp_all add: nth_append)
    have "wr a (int (ni + j + 1) - 1) v = Some (take (ni + j) arr @ v #
        map Some (map ((*) ?t) (c_strides (drop (Suc j) ?g))) @ drop nj arr)" for v
      unfolding P tk(1) append.assoc append.simps using tk(2) by (intro wr_append) simp
    then show "\<exists>a'. ?f j a = Some a' \<and> ?P j a'"
      using rd ok' dr(2) by (simp add: Let_def mult.assoc del: rd_nat)
  qed
  moreover have "rd (ts @ r') (int oj - 1) = Some ?t"
    using assms(4,5) rd_append_left [of "int oj - 1" ts r'] by (simp add: nat_diff_distrib)
  moreover have "wr arr (int nj - 1) (Some ?t) = Some (arr[nj - 1 := Some ?t])"
    using assms wr_nat [of arr "nj - 1"] by (simp add: of_nat_diff)
  ultimately show ?thesis by (simp add: group_strides_def)
qed

lemma take_split: "i \<le> j \<Longrightarrow> take j xs = take i xs @ take (j - i) (drop i xs)"
  by (metis le_add_diff_inverse take_add)

lemma drop_prod_cancel:
  assumes "pos_dims ns" "pos_dims ds" "prod_list (drop i ns) = prod_list (drop j ds)" "i \<le> i'" "j \<le> j'"
    and "prod_list (take (i' - i) (drop i ns)) = prod_list (take (j' - j) (drop j ds))"
  shows "prod_list (drop i' ns) = prod_list (drop j' ds)"
proof -
  have "drop i ns = take (i' - i) (drop i ns) @ drop i' ns" "drop j ds = take (j' - j) (drop j ds) @ drop j' ds"
    using assms(4,5) append_take_drop_id [of "i' - i" "drop i ns"] append_take_drop_id [of "j' - j" "drop j ds"]
    by (simp_all add: add.commute)
  then have "prod_list (take (i' - i) (drop i ns)) * prod_list (drop i' ns)
      = prod_list (take (j' - j) (drop j ds)) * prod_list (drop j' ds)"
    using assms(3) by (metis prod_list_append_int)
  moreover have "0 < prod_list (take (j' - j) (drop j ds))"
    using assms(2) by (intro pos_dims_intros)
  ultimately show ?thesis using assms(6) by simp
qed

lemma group_stride_bound:
  assumes "pos_dims ds" "stride_bounds ds ts" "i < j" "j \<le> length ds" "packed_axes ds ts i (j - 1 - i)"
  shows "take (j - i) (drop i ts) = map ((*) (ts ! (j - 1))) (c_strides (take (j - i) (drop i ds)))"
    and "ts ! (j - 1) * prod_list (take (j - i) (drop i ds)) < 2 ^ 31"
proof -
  let ?h = "take (j - i) (drop i ds)" and ?t = "ts ! (j - 1)"
  have len: "length ts = length ds" using assms(2) by (simp add: stride_bounds_def)
  show hs: "take (j - i) (drop i ts) = map ((*) ?t) (c_strides ?h)"
    using packed_axes_c_strides [of ts ds i "j - 1 - i"] len assms(3-5) by (simp add: Suc_diff_Suc)
  have h: "?h = ds ! i # take (j - Suc i) (drop (Suc i) ds)"
    "take (j - i) (drop i ts) = ts ! i # take (j - Suc i) (drop (Suc i) ts)"
    using assms(3,4) len by (simp_all add: Suc_diff_Suc [symmetric] Cons_nth_drop_Suc [symmetric])
  have "ts ! i = ?t * prod_list (take (j - Suc i) (drop (Suc i) ds))"
    using hs unfolding h by simp
  then have "?t * prod_list ?h = ds ! i * ts ! i"
    unfolding h(1) by simp
  then show "?t * prod_list ?h < 2 ^ 31"
    using assms(2-4) by (simp add: stride_bounds_def)
qed

lemma reshape_loop_exact:
  assumes pos: "pos_dims ns" "pos_dims ds" "\<forall>d \<in> set ds. d \<noteq> 1" and sb: "stride_bounds ds ts"
    and "length ns \<le> length arr" "ni \<le> length ns" "oi \<le> length ds"
    and "take ni arr = map Some st" "same_layout (take ni ns) st (take oi ds) (take oi ts)"
    and "prod_list (drop ni ns) = prod_list (drop oi ds)" "prod_list (drop ni ns) < 2 ^ 31"
  shows "\<exists>res. reshape_loop False (length ns) (ns @ r) (length ds) (ds @ r') (ts @ r'') ni oi arr = Some res
    \<and> (\<forall>ni' arr'. res = Some (ni', arr') \<longrightarrow> (\<exists>st'. ni' \<le> length ns \<and> length arr' = length arr
        \<and> take ni' arr' = map Some st' \<and> same_layout (take ni' ns) st' ds ts \<and> prod_list (drop ni' ns) = 1))"
  using assms(5-)
proof (induction "length ns - ni" arbitrary: ni oi arr st rule: less_induct)
  case less
  have len: "length ts = length ds" using sb by (simp add: stride_bounds_def)
  show ?case
  proof (cases "ni < length ns \<and> oi < length ds")
    case False
    have "oi = length ds"
    proof (rule ccontr)
      assume "oi \<noteq> length ds"
      then have oi: "oi < length ds" and "ni = length ns" using less.prems False by auto
      then have "prod_list (drop oi ds) = 1" using less.prems(6) by simp
      then have "\<forall>d \<in> set (drop oi ds). d = 1" by (intro dec_c_ones pos_dims_intros pos(2))
      moreover have "ds ! oi \<in> set (drop oi ds)" using oi by (metis Cons_nth_drop_Suc list.set_intros(1))
      ultimately show False using pos(3) oi by (metis in_set_dropD)
    qed
    with False less.prems len show ?thesis
      by (subst reshape_loop.simps) auto
  next
    case True
    then have ni: "ni < length ns" and oi: "oi < length ds" by auto
    have dr: "drop ni ns = ns ! ni # drop (ni + 1) ns" "drop oi ds = ds ! oi # drop (oi + 1) ds"
      using ni oi by (simp_all add: Cons_nth_drop_Suc)
    obtain nj oj where m: "match_axes (ns @ r) (ds @ r') (ns ! ni) (ds ! oi) (ni + 1) (oi + 1) = Some (nj, oj)"
      and nj: "ni + 1 \<le> nj" "nj \<le> length ns" and oj: "oi + 1 \<le> oj" "oj \<le> length ds"
      and gh: "ns ! ni * prod_list (take (nj - (ni + 1)) (drop (ni + 1) ns))
        = ds ! oi * prod_list (take (oj - (oi + 1)) (drop (oi + 1) ds))"
      using match_axes_exact [of ns ds "ns ! ni" "ds ! oi" "ni + 1" "oi + 1" r r'] pos ni oi less.prems(6,7)
      unfolding dr by (auto simp: pos_dims_nth)
    let ?g = "take (nj - ni) (drop ni ns)" and ?h = "take (oj - oi) (drop oi ds)"
    have gh: "prod_list ?g = prod_list ?h"
      using gh nj oj unfolding dr by (simp add: take_Cons' Suc_diff_Suc)
    have c: "contiguous False (ds @ r') (ts @ r'') oi (oj - 1 - oi) = Some (packed_axes ds ts oi (oj - 1 - oi))"
      using pos(2) sb oj by (intro contiguous_exact) auto
    show ?thesis
    proof (cases "packed_axes ds ts oi (oj - 1 - oi)")
      case False
      then show ?thesis using ni oi m c by (subst reshape_loop.simps) (simp add: nth_append)
    next
      case packed: True
      let ?t = "ts ! (oj - 1)"
      have hs: "take (oj - oi) (drop oi ts) = map ((*) ?t) (c_strides ?h)" and tb: "?t * prod_list ?g < 2 ^ 31"
        using group_stride_bound [OF pos(2) sb _ oj(2) packed] oj unfolding gh by auto
      have t0: "0 \<le> ?t" using sb oj by (simp add: stride_bounds_def)
      let ?arr = "take ni arr @ map Some (map ((*) ?t) (c_strides ?g)) @ drop nj arr"
      let ?st = "st @ map ((*) ?t) (c_strides ?g)"
      have gs: "group_strides False (ns @ r) (ts @ r'') ni nj oi oj arr = Some ?arr"
        using group_strides_exact [of ni nj ns arr oj ts r r'' oi] nj oj len less.prems(1) pos(1) t0 tb by simp
      have lst: "length st = ni" using arg_cong [OF less.prems(4), of length] less.prems(1) ni by simp
      have arr: "take nj ?arr = map Some ?st" "length ?arr = length arr"
        using less.prems(1,4) nj lst by simp_all
      have "same_layout (take ni ns @ ?g) ?st (take oi ds @ ?h) (take oi ts @ map ((*) ?t) (c_strides ?h))"
        using less.prems(5) lst ni oi len pos gh by (intro same_layout_append) (auto intro: pos_dims_intros)
      moreover have le: "ni \<le> nj" "oi \<le> oj" using nj oj by simp_all
      ultimately have sl: "same_layout (take nj ns) ?st (take oj ds) (take oj ts)"
        unfolding hs [symmetric] by (simp only: take_split [OF le(1), symmetric] take_split [OF le(2), symmetric])
      have pr: "prod_list (drop nj ns) = prod_list (drop oj ds)"
        by (rule drop_prod_cancel [OF pos(1,2) less.prems(6) le gh])
      have lt: "prod_list (drop nj ns) < 2 ^ 31"
        using less.prems(7) pos_dims_prod_drop_le [OF pos_dims_drop [OF pos(1), of ni], of "nj - ni"] nj by simp
      have "length ns - nj < length ns - ni" using nj by simp
      from less.hyps [OF this _ nj(2) oj(2) arr(1) sl pr lt] arr(2) less.prems(1)
      obtain res where res: "reshape_loop False (length ns) (ns @ r) (length ds) (ds @ r') (ts @ r'') nj oj ?arr = Some res"
        "\<forall>ni' arr'. res = Some (ni', arr') \<longrightarrow> (\<exists>st'. ni' \<le> length ns \<and> length arr' = length arr
        \<and> take ni' arr' = map Some st' \<and> same_layout (take ni' ns) st' ds ts \<and> prod_list (drop ni' ns) = 1)"
        by auto
      have "reshape_loop False (length ns) (ns @ r) (length ds) (ds @ r') (ts @ r'') ni oi arr = Some res"
        using ni oi m c gs res(1) packed by (subst reshape_loop.simps) (simp add: nth_append)
      with res(2) show ?thesis by blast
    qed
  qed
qed

subsection \<open>The algorithm as a whole\<close>

lemma sq_snd_nth:
  assumes "stride_bounds sh st" "pos_dims sh"
  shows "stride_bounds (map fst (sq sh st)) (map snd (sq sh st))"
proof -
  have "\<forall>(d, t) \<in> set (sq sh st). 0 \<le> t \<and> d * t < 2 ^ 31"
    using assms by (auto simp: sq_def set_zip stride_bounds_def)
  then show ?thesis unfolding stride_bounds_def by (simp add: case_prod_beta)
qed

lemma reshape_core_exact:
  assumes "pos_dims sh" "stride_bounds sh st" "prod_list sh < 2 ^ 31"
    and "pos_dims ns" "prod_list ns < 2 ^ 31"
  shows "\<exists>res. reshape_core False (int (length sh)) (sh @ r) (st @ r') (int (length ns)) (ns @ r'') = Some res
    \<and> (\<forall>ni arr. res = Some (ni, arr) \<longrightarrow> (\<exists>st'. ni \<le> length ns \<and> length arr = length ns
        \<and> take ni arr = map Some st' \<and> same_layout (take ni ns) st' sh st \<and> prod_list (drop ni ns) = 1))"
proof -
  let ?ds = "map fst (sq sh st)" and ?ts = "map snd (sq sh st)" and ?k = "length (sq sh st)"
  have len: "length st = length sh" using assms(2) by (simp add: stride_bounds_def)
  have s: "squeeze (int (length sh)) (sh @ r) (st @ r') = Some (int ?k, ?ds @ drop ?k sh, ?ts @ drop ?k st)"
    by (rule squeeze_exact [OF len])
  have p: "prod_int (ns @ r'') (int (length ns)) = Some (prod_list ns)"
    using prod_int_exact [of "length ns" "ns @ r''"] assms(4,5) by simp
  have ds: "pos_dims ?ds" "prod_list ?ds = prod_list sh" "\<forall>d \<in> set ?ds. d \<noteq> 1"
    using assms(1) len by (auto simp: sq_pos sq_prod) (auto simp: sq_def)
  have q: "prod_int (?ds @ drop ?k sh) (int ?k) = Some (prod_list sh)"
    using prod_int_exact [of ?k "?ds @ drop ?k sh"] ds assms(3) by simp
  have sb: "stride_bounds ?ds ?ts" by (rule sq_snd_nth [OF assms(2,1)])
  show ?thesis
  proof (cases "prod_list ns = prod_list sh")
    case False
    then show ?thesis using s p q by (simp add: reshape_core_def)
  next
    case True
    have "\<exists>res. reshape_loop False (length ns) (ns @ r'') (length ?ds) (?ds @ drop ?k sh) (?ts @ drop ?k st) 0 0
        (replicate (length ns) None) = Some res
      \<and> (\<forall>ni' arr'. res = Some (ni', arr') \<longrightarrow> (\<exists>st'. ni' \<le> length ns \<and> length arr' = length (replicate (length ns) (None :: int option))
        \<and> take ni' arr' = map Some st' \<and> same_layout (take ni' ns) st' ?ds ?ts \<and> prod_list (drop ni' ns) = 1))"
      by (rule reshape_loop_exact [where st = "[]"])
        (use assms ds sb True in \<open>simp_all add: same_layout_def\<close>)
    then obtain res where "reshape_loop False (length ns) (ns @ r'') ?k (?ds @ drop ?k sh) (?ts @ drop ?k st) 0 0
        (replicate (length ns) None) = Some res"
      "\<forall>ni' arr'. res = Some (ni', arr') \<longrightarrow> (\<exists>st'. ni' \<le> length ns \<and> length arr' = length ns
        \<and> take ni' arr' = map Some st' \<and> same_layout (take ni' ns) st' sh st \<and> prod_list (drop ni' ns) = 1)"
      using len assms(1) by (auto simp: sq_same_layout)
    moreover have "prod_list ns \<noteq> 0" using pos_dims_prod [OF assms(4)] by simp
    ultimately show ?thesis using s p q True by (auto simp: reshape_core_def)
  qed
qed

lemma wr_three:
  assumes "length pre = 1 + 2 * n"
  shows "wr (pre @ a # b # c # t) (1 + 2 * int n) v = Some (pre @ v # b # c # t)"
    and "wr (pre @ a # b # c # t) (2 + 2 * int n) v = Some (pre @ a # v # c # t)"
    and "wr (pre @ a # b # c # t) (3 + 2 * int n) v = Some (pre @ a # b # v # t)"
  using wr_append [of "1 + 2 * int n" pre a "b # c # t" v] wr_append [of "2 + 2 * int n" "pre @ [a]" b "c # t" v]
    wr_append [of "3 + 2 * int n" "pre @ [a, b]" c t v] assms by simp_all

lemma fill_target:
  assumes "length st = length ns" "2 * length ns + 4 \<le> length target" "n = length ns"
  shows "do { target \<leftarrow> wr target 0 (Some (int n));
         target \<leftarrow> for_up 0 n (\<lambda>e target. do {
           v \<leftarrow> rd (ns @ r) (int e); wr target (1 + int e) (Some v) }) target;
         target \<leftarrow> for_up 0 n (\<lambda>e target. do {
           v \<leftarrow> rd (map Some st) (int e); v \<leftarrow> v; wr target (1 + int n + int e) (Some v) }) target;
         target \<leftarrow> wr target (shapeInfoLength (int n) - 3) (Some off);
         target \<leftarrow> wr target (shapeInfoLength (int n) - 2) (Some ews);
         target \<leftarrow> wr target (shapeInfoLength (int n) - 1) (Some ord);
         k target }
    = k (map Some (mk_info ns st off ews ord) @ drop (2 * n + 4) target)"
proof -
  let ?T = "drop (2 * n + 4) target"
  obtain x xs where x: "target = x # xs" using assms by (cases target) auto
  have xs: "drop (2 * n) xs = xs ! (2 * n) # xs ! (2 * n + 1) # xs ! (2 * n + 2) # drop (2 * n + 3) xs"
    using assms x by (simp add: Cons_nth_drop_Suc numeral_eq_Suc)
  have T: "?T = drop (2 * n + 3) xs" by (simp add: x drop_Cons' add.commute)
  have sh: "for_up 0 n (\<lambda>i t. do { v \<leftarrow> rd (ns @ r) (int i); wr t (1 + int i) (Some v) }) (Some (int n) # xs)
      = Some (Some (int n) # map Some ns @ drop n xs)"
    using fill_at [of n "ns @ r" 1 "Some (int n) # xs"] assms x by simp
  have fl: "for_up 0 n (\<lambda>i t. do { v \<leftarrow> rd (map Some st) (int i); v \<leftarrow> v; wr t (1 + int n + int i) (Some v) }) t
     = for_up 0 n (\<lambda>i t. do { v \<leftarrow> rd st (int i); wr t (int (1 + n) + int i) (Some v) }) t" for t
    using assms by (intro for_up_cong) auto
  have st: "for_up 0 n (\<lambda>i t. do { v \<leftarrow> rd st (int i);
        wr t (int (1 + n) + int i) (Some v) }) (Some (int n) # map Some ns @ drop n xs)
      = Some (Some (int n) # map Some ns @ map Some st @ drop (2 * n) xs)"
    using fill_at [of n st "1 + n" "Some (int n) # map Some ns @ drop n xs"] assms(1,3) assms(2) [unfolded x]
    by (simp add: mult_2 [symmetric])
  define pre where "pre = Some (int n) # map Some ns @ map Some st"
  have lp: "length pre = 1 + 2 * n" using assms by (simp add: pre_def)
  note tail = wr_three [OF lp, of _ _ _ ?T]
  have st': "Some (int n) # map Some ns @ map Some st @ drop (2 * n) xs = pre @ drop (2 * n) xs"
    by (simp add: pre_def)
  have w0: "wr target 0 (Some (int n)) = Some (Some (int n) # xs)" by (simp add: x wr_def)
  have ix: "shapeInfoLength (int n) - 3 = 1 + 2 * int n" "shapeInfoLength (int n) - 2 = 2 + 2 * int n"
    "shapeInfoLength (int n) - 1 = 3 + 2 * int n" by (simp_all add: shapeInfoLength_def)
  show ?thesis
    unfolding w0 ix bind.bind_lunit sh unfolding fl st st' unfolding xs T [symmetric] bind.bind_lunit tail
    by (simp add: mk_info_def pre_def assms)
qed

theorem reshapeCF_layout:
  assumes "pos_dims sh" "stride_bounds sh st" "prod_list sh < 2 ^ 31" "pos_dims ns" "prod_list ns < 2 ^ 31"
    and "2 * length ns + 4 \<le> length target"
  shows "\<exists>ok target'. reshapeCF (int (length sh)) (mk_info sh st off ews ord) (int (length ns)) ns False target
      = Some (ok, target')
    \<and> (if ok then \<exists>st'. target' = map Some (mk_info ns st' 0 (-1) 99) @ drop (2 * length ns + 4) target
           \<and> length st' = length ns \<and> same_layout ns st' sh st
       else target' = target)"
proof -
  let ?b = "mk_info sh st off ews ord" and ?n = "length ns"
  have len: "length st = length sh" using assms(2) by (simp add: stride_bounds_def)
  obtain res where core: "reshape_core False (int (length sh)) (shapeOf ?b) (st @ [off, ews, ord]) (int ?n) ns = Some res"
    and res: "\<forall>ni arr. res = Some (ni, arr) \<longrightarrow> (\<exists>st'. ni \<le> ?n \<and> length arr = ?n
        \<and> take ni arr = map Some st' \<and> same_layout (take ni ns) st' sh st \<and> prod_list (drop ni ns) = 1)"
    using reshape_core_exact [OF assms(1-5), of "st @ [off, ews, ord]" "[off, ews, ord]" "[]"]
    by (auto simp: shapeOf_mk_info)
  show ?thesis
  proof (cases res)
    case None
    then show ?thesis using core by (intro exI [of _ False]) (simp add: reshapeCF_def stride_mk_info)
  next
    case (Some p)
    obtain ni arr where p: "p = (ni, arr)" by (cases p)
    with res Some obtain st' where st': "ni \<le> ?n" "length arr = ?n" "take ni arr = map Some st'"
      "same_layout (take ni ns) st' sh st" "prod_list (drop ni ns) = 1" by auto
    have l: "length st' = ni" using arg_cong [OF st'(3), of length] st'(1,2) by simp
    define s where "s = (if ni \<ge> 1 then st' ! (ni - 1) else ews)"
    have "rd arr (int ni - 1) = Some (Some (st' ! (ni - 1)))" if "ni \<ge> 1"
    proof -
      have "arr ! (ni - 1) = take ni arr ! (ni - 1)" using that by simp
      then show ?thesis using that st'(1,2) l unfolding st'(3) by (simp add: rd_def nat_diff_distrib)
    qed
    then have last: "(if ni \<ge> 1 then do { s \<leftarrow> rd arr (int ni - 1); s } else elementWiseStride_of ?b) = Some s"
      using len by (simp add: s_def ews_mk_info)
    let ?st = "st' @ replicate (?n - ni) s"
    have "\<exists>a. for_up ni (?n - ni) (\<lambda>nk a. wr a (int nk) (Some s)) arr = Some a
        \<and> a = map Some st' @ replicate (ni + (?n - ni) - ni) (Some s) @ drop (ni + (?n - ni)) arr"
    proof (rule for_up_total)
      show "arr = map Some st' @ replicate (ni - ni) (Some s) @ drop ni arr"
        using st'(3) append_take_drop_id [of ni arr] by simp
    next
      fix j a assume j: "ni \<le> j" "j < ni + (?n - ni)"
        and a: "a = map Some st' @ replicate (j - ni) (Some s) @ drop j arr"
      have "drop j arr = arr ! j # drop (Suc j) arr" using j st'(2) by (simp add: Cons_nth_drop_Suc)
      then have "wr a (int j) (Some s) = Some ((map Some st' @ replicate (j - ni) (Some s)) @ Some s # drop (Suc j) arr)"
        unfolding a append.assoc [symmetric] using j l by (simp only:) (rule wr_append, simp)
      then show "\<exists>a'. wr a (int j) (Some s) = Some a' \<and> a' = map Some st' @ replicate (Suc j - ni) (Some s) @ drop (Suc j) arr"
        using j by (simp add: Suc_diff_le replicate_append_same flip: append_Cons)
    qed
    then have fill: "for_up ni (?n - ni) (\<lambda>nk a. wr a (int nk) (Some s)) arr = Some (map Some ?st)"
      using st'(1,2) by simp
    have "reshapeCF (int (length sh)) ?b (int ?n) ns False target
        = Some (True, map Some (mk_info ns ?st 0 (-1) 99) @ drop (2 * ?n + 4) target)"
      unfolding reshapeCF_def stride_mk_info bind.bind_lunit core Some p option.case prod.case last nat_int
        fill if_False simp_thms
      using fill_target [of ?st ns target ?n "[]" 0 "-1" 99 "\<lambda>t. Some (True, t)", unfolded append_Nil2] assms(6) l st'(1)
      by (simp only: length_append length_replicate length_map le_add_diff_inverse refl)
    moreover have "same_layout (take ni ns @ drop ni ns) ?st sh st"
      by (rule same_layout_trailing_ones [OF st'(4)])
        (simp_all add: l st'(1,5) assms(4) pos_dims_take pos_dims_drop)
    moreover have "length ?st = ?n" using l st'(1) by simp
    ultimately show ?thesis
      unfolding append_take_drop_id
      by (intro exI [of _ True] exI [of _ "map Some (mk_info ns ?st 0 (-1) 99) @ drop (2 * ?n + 4) target"] conjI)
        ((assumption), (unfold if_True, intro exI [of _ ?st] conjI refl, assumption+))
  qed
qed

subsection \<open>The element-wise stride\<close>

definition ews_spec :: "int list \<Rightarrow> int list \<Rightarrow> int" where
  "ews_spec sh st = (let ds = map fst (sq sh st); ts = map snd (sq sh st) in
     if vector_shape sh \<or> ds = [] then last st
     else if packed_axes ds ts 0 (length ds - 1) then last ts else -1)"

lemma prod_list_ge_2: "pos_dims ds \<Longrightarrow> \<forall>d \<in> set ds. d \<noteq> 1 \<Longrightarrow> ds \<noteq> [] \<Longrightarrow> 2 \<le> prod_list ds"
proof (induction ds)
  case (Cons d ds)
  then have "2 \<le> d" "1 \<le> prod_list ds" using pos_dims_prod [of ds] by auto
  then have "2 * 1 \<le> d * prod_list ds" by (intro mult_mono) auto
  then show ?case by simp
qed simp

text \<open>Reshaping to \<open>[1, length]\<close> takes one round of the loop.\<close>

lemma flat_match:
  assumes ds: "pos_dims ds" "\<forall>d \<in> set ds. d \<noteq> 1" "ds \<noteq> []" and lt: "prod_list ds < 2 ^ 31"
  shows "match_axes [1, prod_list ds] (ds @ r) 1 (hd ds) 1 1 = Some (2, length ds)"
proof -
  let ?N = "prod_list ds" and ?n = "length ds" and ?ns = "[1, prod_list ds]"
  have d0: "ds = hd ds # drop (Suc 0) ds" "2 \<le> hd ds" "2 \<le> ?N"
    using ds prod_list_ge_2 [OF ds] by (cases ds; force simp: pos_dims_def)+
  have N: "?N = hd ds * prod_list (drop (Suc 0) ds)" using d0(1) by (metis prod_list.Cons)
  have ex: "\<exists>nj oj. match_axes (?ns @ []) (ds @ r) 1 (hd ds) 1 1 = Some (nj, oj)
    \<and> 1 \<le> nj \<and> nj \<le> length ?ns \<and> 1 \<le> oj \<and> oj \<le> length ds
    \<and> 1 * prod_list (take (nj - 1) (drop 1 ?ns)) = hd ds * prod_list (take (oj - 1) (drop 1 ds))"
    by (rule match_axes_exact) (use ds d0 lt N in \<open>auto simp: Suc_le_eq\<close>)
  then obtain nj oj where m: "match_axes ?ns (ds @ r) 1 (hd ds) 1 1 = Some (nj, oj)"
    and nj: "1 \<le> nj" "nj \<le> 2" and oj: "1 \<le> oj" "oj \<le> ?n"
    and eq: "prod_list (take (nj - 1) [?N]) = hd ds * prod_list (take (oj - 1) (drop 1 ds))" by auto
  have one: "1 \<le> prod_list (take (oj - 1) (drop 1 ds))"
    using pos_dims_prod [OF pos_dims_take [OF pos_dims_drop [OF ds(1)]]] by (metis int_one_le_iff_zero_less)
  have "nj = 2"
  proof (rule ccontr)
    assume "nj \<noteq> 2"
    then have "nj = 1" using nj by simp
    then have "1 = hd ds * prod_list (take (oj - 1) (drop 1 ds))" using eq by simp
    moreover have "2 * 1 \<le> hd ds * prod_list (take (oj - 1) (drop 1 ds))" using d0(2) one by (intro mult_mono) auto
    ultimately show False by simp
  qed
  have "oj = ?n"
  proof (rule ccontr)
    assume ne: "oj \<noteq> ?n"
    have "drop oj ds \<noteq> []" using ne oj by simp
    then have "2 \<le> prod_list (drop oj ds)"
      using ds by (intro prod_list_ge_2) (auto dest: in_set_dropD intro: pos_dims_drop)
    have "drop 1 ds = take (oj - 1) (drop 1 ds) @ drop oj ds"
      using oj append_take_drop_id [of "oj - 1" "drop 1 ds"] by simp
    then have "prod_list (drop (Suc 0) ds) = prod_list (take (oj - 1) (drop 1 ds)) * prod_list (drop oj ds)"
      by (metis One_nat_def prod_list_append_int)
    then have "?N = hd ds * prod_list (take (oj - 1) (drop 1 ds)) * prod_list (drop oj ds)"
      using N by (simp only: mult.assoc)
    moreover have "hd ds * prod_list (take (oj - 1) (drop 1 ds)) = ?N" using eq \<open>nj = 2\<close> by simp
    ultimately have "?N = ?N * prod_list (drop oj ds)" by (simp only:)
    then show False using d0(3) \<open>2 \<le> prod_list (drop oj ds)\<close> by simp
  qed
  then show ?thesis using m \<open>nj = 2\<close> by simp
qed

lemma reshape_flat:
  assumes ds: "pos_dims ds" "\<forall>d \<in> set ds. d \<noteq> 1" "ds \<noteq> []" and sb: "stride_bounds ds ts"
    and lt: "prod_list ds < 2 ^ 31"
  shows "reshape_loop False 2 [1, prod_list ds] (length ds) (ds @ r) (ts @ r') 0 0 [None, None]
    = Some (if packed_axes ds ts 0 (length ds - 1)
            then Some (2, [Some (last ts * prod_list ds), Some (last ts)]) else None)"
proof -
  let ?N = "prod_list ds" and ?n = "length ds" and ?ns = "[1, prod_list ds]"
  have len: "length ts = ?n" using sb by (simp add: stride_bounds_def)
  have d0: "2 \<le> ?N" using ds prod_list_ge_2 [OF ds(1)] by blast
  have oj: "1 \<le> ?n" using ds(3) by (simp add: Suc_le_eq)
  note m = flat_match [OF ds lt, of r]
  have c: "contiguous False (ds @ r) (ts @ r') 0 (?n - 1) = Some (packed_axes ds ts 0 (?n - 1))"
    using ds oj by (intro contiguous_exact ds sb) simp
  have last: "last ts = ts ! (?n - 1)" using len oj by (subst last_conv_nth) auto
  have hd: "rd (ds @ r) 0 = Some (hd ds)" using ds(3) by simp
  show ?thesis
  proof (cases "packed_axes ds ts 0 (?n - 1)")
    case False
    then show ?thesis
      using m c hd by (subst reshape_loop.simps) (simp add: ds(3))
  next
    case True
    have b: "ts ! (?n - 1) * ?N < 2 ^ 31"
      using group_stride_bound(2) [OF ds(1) sb, of 0 ?n] oj True ds(3) by simp
    have "group_strides False (?ns @ []) (ts @ r') 0 2 0 ?n [None, None]
      = Some (take 0 [None, None] @ map Some (map ((*) (ts ! (?n - 1))) (c_strides (take (2 - 0) (drop 0 ?ns))))
        @ drop 2 [None, None])"
      by (rule group_strides_exact) (use oj len ds sb d0 b in \<open>auto simp: stride_bounds_def\<close>)
    then have "group_strides False ?ns (ts @ r') 0 2 0 ?n [None, None] = Some [Some (last ts * ?N), Some (last ts)]"
      by (simp add: last numeral_eq_Suc)
    moreover have "reshape_loop False 2 ?ns ?n (ds @ r) (ts @ r') 2 ?n a = Some (Some (2, a))" for a
      by (subst reshape_loop.simps) simp
    ultimately show ?thesis
      using m c hd True by (subst reshape_loop.simps) (simp add: ds(3))
  qed
qed

text \<open>In column-major order (\<open>isFOrder\<close>) the same loop runs over the reversed axes.\<close>

lemma contiguous_F_exact:
  assumes "pos_dims ds" "stride_bounds ds ts" "i + n < length ds"
  shows "contiguous True (ds @ r) (ts @ r') i n
    = Some (\<forall>j < n. ts ! Suc (i + j) = ds ! (i + j) * ts ! (i + j))"
  using assms(3)
proof (induction n arbitrary: i)
  case (Suc n)
  have len: "length ts = length ds" using assms(2) by (simp add: stride_bounds_def)
  have "i32 (ds ! i * ts ! i) = Some (ds ! i * ts ! i)"
    using assms(1,2) Suc.prems by (intro stride_bounds_i32) auto
  moreover have "rd (ts @ r') (int i + 1) = Some (ts ! Suc i)"
    using Suc.prems len rd_nat [of "ts @ r'" "Suc i"] by (simp add: nth_append add.commute)
  moreover have "(\<forall>j < Suc n. ts ! Suc (i + j) = ds ! (i + j) * ts ! (i + j))
      \<longleftrightarrow> ts ! Suc i = ds ! i * ts ! i \<and> (\<forall>j < n. ts ! Suc (Suc i + j) = ds ! (Suc i + j) * ts ! (Suc i + j))"
    by (subst All_less_Suc2) simp
  ultimately show ?case
    using Suc len by (simp add: nth_append)
qed simp

lemma packed_axes_rev:
  assumes "length ts = length ds"
  shows "packed_axes (rev ds) (rev ts) 0 (length ds - 1)
    \<longleftrightarrow> (\<forall>j < length ds - 1. ts ! Suc j = ds ! j * ts ! j)"
proof -
  let ?n = "length ds"
  have e: "packed_axes (rev ds) (rev ts) 0 (?n - 1)
      \<longleftrightarrow> (\<forall>j < ?n - 1. ts ! (?n - Suc j) = ds ! (?n - Suc (Suc j)) * ts ! (?n - Suc (Suc j)))"
    using assms by (auto simp: packed_axes_def rev_nth)
  show ?thesis
  proof
    assume p: "packed_axes (rev ds) (rev ts) 0 (?n - 1)"
    show "\<forall>j < ?n - 1. ts ! Suc j = ds ! j * ts ! j"
    proof (intro allI impI)
      fix j assume "j < ?n - 1"
      then have "?n - 2 - j < ?n - 1" "?n - Suc (?n - 2 - j) = Suc j" "?n - Suc (Suc (?n - 2 - j)) = j" by auto
      with p e show "ts ! Suc j = ds ! j * ts ! j" by metis
    qed
  next
    assume q: "\<forall>j < ?n - 1. ts ! Suc j = ds ! j * ts ! j"
    have "ts ! (?n - Suc j) = ds ! (?n - Suc (Suc j)) * ts ! (?n - Suc (Suc j))" if "j < ?n - 1" for j
    proof -
      have "?n - Suc (Suc j) < ?n - 1" "?n - Suc j = Suc (?n - Suc (Suc j))" using that by auto
      with q show ?thesis by metis
    qed
    with e show "packed_axes (rev ds) (rev ts) 0 (?n - 1)" by blast
  qed
qed

lemma reshape_flat_F:
  assumes ds: "pos_dims ds" "\<forall>d \<in> set ds. d \<noteq> 1" "ds \<noteq> []" and sb: "stride_bounds ds ts"
    and lt: "prod_list ds < 2 ^ 31"
  shows "reshape_loop True 2 [1, prod_list ds] (length ds) (ds @ r) (ts @ r') 0 0 [None, None]
    = Some (if packed_axes (rev ds) (rev ts) 0 (length ds - 1)
            then Some (2, [Some (hd ts), Some (hd ts)]) else None)"
proof -
  let ?N = "prod_list ds" and ?n = "length ds" and ?ns = "[1, prod_list ds]"
  have len: "length ts = ?n" using sb by (simp add: stride_bounds_def)
  have n: "0 < ?n" using ds(3) by simp
  note m = flat_match [OF ds lt, of r]
  have c: "contiguous True (ds @ r) (ts @ r') 0 (?n - 1) = Some (packed_axes (rev ds) (rev ts) 0 (?n - 1))"
    using contiguous_F_exact [OF ds(1) sb, of 0 "?n - 1" r r'] n packed_axes_rev [OF len] by simp
  have hd: "rd (ds @ r) 0 = Some (hd ds)" "rd (ts @ r') 0 = Some (ts ! 0)" "hd ts = ts ! 0" "ts \<noteq> []"
  proof -
    obtain d ds' t ts' where "ds = d # ds'" "ts = t # ts'" using ds(3) len by (cases ds; cases ts) auto
    then show "rd (ds @ r) 0 = Some (hd ds)" "rd (ts @ r') 0 = Some (ts ! 0)" "hd ts = ts ! 0" "ts \<noteq> []"
      by (simp_all add: rd_def)
  qed
  have t: "i32 (ts ! 0) = Some (ts ! 0)"
  proof -
    have "1 \<le> ds ! 0" "0 \<le> ts ! 0" "ds ! 0 * ts ! 0 < 2 ^ 31"
      using ds(1) sb n by (auto simp: stride_bounds_def pos_dims_nth Suc_le_eq int_one_le_iff_zero_less)
    moreover from this have "1 * ts ! 0 \<le> ds ! 0 * ts ! 0" by (intro mult_right_mono) auto
    ultimately show ?thesis by (simp add: i32_def)
  qed
  show ?thesis
  proof (cases "packed_axes (rev ds) (rev ts) 0 (?n - 1)")
    case False
    then show ?thesis using m c hd(1) by (subst reshape_loop.simps) (simp add: ds(3))
  next
    case True
    have "group_strides True ?ns (ts @ r') 0 2 0 ?n [None, None] = Some [Some (hd ts), Some (hd ts)]"
      using t hd by (simp add: group_strides_def numeral_eq_Suc wr_def rd_def)
    moreover have "reshape_loop True 2 ?ns ?n (ds @ r) (ts @ r') 2 ?n a = Some (Some (2, a))" for a
      by (subst reshape_loop.simps) simp
    ultimately show ?thesis using m c hd(1) True by (subst reshape_loop.simps) (simp add: ds(3))
  qed
qed

definition ews_spec_F :: "int list \<Rightarrow> int list \<Rightarrow> int" where
  "ews_spec_F sh st = (let ds = map fst (sq sh st); ts = map snd (sq sh st) in
     if vector_shape sh \<or> ds = [] then last st
     else if packed_axes (rev ds) (rev ts) 0 (length ds - 1) then hd ts * prod_list sh else -1)"

lemma prod_list_rev_int: "prod_list (rev xs) = (prod_list xs :: int)"
  by (induction xs) (simp_all add: prod_list_append_int mult.commute)

lemma computeElementWiseStride_both:
  assumes "2 \<le> length sh" "pos_dims sh" "prod_list sh < 2 ^ 31" "stride_bounds sh st"
  shows "computeElementWiseStride (int (length sh)) (sh @ r) (st @ r') isF = Some (if isF then ews_spec_F sh st else ews_spec sh st)"
proof -
  let ?n = "length sh" and ?ds = "map fst (sq sh st)" and ?ts = "map snd (sq sh st)" and ?k = "length (sq sh st)"
  have len: "length st = ?n" using assms(4) by (simp add: stride_bounds_def)
  have v: "isVector (sh @ r) (int ?n) = Some (c_int (vector_shape sh))"
    by (rule isVector_exact [OF assms(1)])
  have "sh \<noteq> []" using assms(1) by auto
  then have last: "rd (st @ r') (int ?n - 1) = Some (last st)"
    using len assms(1) rd_append_left [of "int ?n - 1" st r']
    by (subst last_conv_nth) (auto simp: nat_diff_distrib)
  have p: "prodLong (sh @ r) (int ?n) = Some (prod_list sh)"
    using prodLong_exact [of ?n "sh @ r"] assms by simp
  have N: "0 < prod_list sh" using assms(2) by (rule pos_dims_prod)
  have t: "to_int32 (prod_list sh) = prod_list sh"
    using N assms(3) by (simp add: to_int32_def)
  have s: "squeeze (int ?n) (sh @ r) (st @ r') = Some (int ?k, ?ds @ drop ?k sh, ?ts @ drop ?k st)"
    by (rule squeeze_exact [OF len])
  have ds: "pos_dims ?ds" "prod_list ?ds = prod_list sh" "\<forall>d \<in> set ?ds. d \<noteq> 1"
    using assms(2) len by (auto simp: sq_pos sq_prod) (auto simp: sq_def)
  have np: "prod_int [1, prod_list sh] 2 = Some (prod_list sh)"
    using prod_int_exact [of 2 "[1, prod_list sh]"] N assms(3) by simp
  have op: "prod_int (?ds @ drop ?k sh) (int ?k) = Some (prod_list sh)"
    using prod_int_exact [of ?k "?ds @ drop ?k sh"] ds assms(3) by simp
  have sb: "stride_bounds ?ds ?ts" by (rule sq_snd_nth [OF assms(4,2)])
  have new: "new_ints 2 = Some [None, None]" by (simp add: new_ints_def numeral_eq_Suc)
  have core: "reshape_core isF (int ?n) (sh @ r) (st @ r') 2 [1, prod_list sh]
    = reshape_loop isF 2 [1, prod_list sh] ?k (?ds @ drop ?k sh) (?ts @ drop ?k st) 0 0 [None, None]"
    using s np op new N by (simp add: reshape_core_def)
  show ?thesis
  proof (cases "vector_shape sh")
    case True
    then show ?thesis using v last by (simp add: computeElementWiseStride_def ews_spec_def ews_spec_F_def)
  next
    case nv: False
    show ?thesis
    proof (cases "?ds = []")
      case True
      then have "reshape_loop isF 2 [1, prod_list sh] ?k (?ds @ drop ?k sh) (?ts @ drop ?k st) 0 0 [None, None]
        = Some (Some (0, [None, None]))" by (subst reshape_loop.simps) simp
      with True nv v last p t core show ?thesis
        by (simp add: computeElementWiseStride_def ews_spec_def ews_spec_F_def)
    next
      case False
      have C: "reshape_loop False 2 [1, prod_list sh] ?k (?ds @ drop ?k sh) (?ts @ drop ?k st) 0 0 [None, None]
        = Some (if packed_axes ?ds ?ts 0 (?k - 1)
            then Some (2, [Some (last ?ts * prod_list sh), Some (last ?ts)]) else None)"
        using reshape_flat [OF ds(1,3) False sb] ds(2) assms(3) by simp
      have F: "reshape_loop True 2 [1, prod_list sh] ?k (?ds @ drop ?k sh) (?ts @ drop ?k st) 0 0 [None, None]
        = Some (if packed_axes (rev ?ds) (rev ?ts) 0 (?k - 1)
            then Some (2, [Some (hd ?ts), Some (hd ?ts)]) else None)"
        using reshape_flat_F [OF ds(1,3) False sb] ds(2) assms(3) by simp
      have b: "i32 (hd ?ts * prod_list sh) = Some (hd ?ts * prod_list sh)"
        if pk: "packed_axes (rev ?ds) (rev ?ts) 0 (?k - 1)"
      proof -
        have n: "0 < ?k" using False by auto
        have sbr: "stride_bounds (rev ?ds) (rev ?ts)" using sb by (auto simp: stride_bounds_def rev_nth)
        have pr: "pos_dims (rev ?ds)" using ds(1) by (simp add: pos_dims_def)
        have "rev ?ts ! (?k - 1) * prod_list (take (?k - 0) (drop 0 (rev ?ds))) < 2 ^ 31"
          by (rule group_stride_bound(2) [OF pr sbr]) (use n pk in auto)
        moreover have "rev ?ts ! (?k - 1) = hd ?ts" using n by (simp add: rev_nth hd_conv_nth)
        moreover have "prod_list (rev ?ds) = prod_list sh" using ds(2) by (simp add: prod_list_rev_int)
        ultimately have "hd ?ts * prod_list sh < 2 ^ 31" by simp
        moreover have "0 \<le> hd ?ts" using sb n by (auto simp: stride_bounds_def hd_conv_nth)
        moreover from this have "0 \<le> hd ?ts * prod_list sh" using N by simp
        ultimately show ?thesis by (simp only: i32_def) simp
      qed
      show ?thesis
      proof (cases isF)
        case True
        with False nv v p t core F b show ?thesis
          by (simp add: computeElementWiseStride_def ews_spec_F_def)
      next
        case C_order: False
        with False nv v p t core C show ?thesis
          by (simp add: computeElementWiseStride_def ews_spec_def)
      qed
    qed
  qed
qed

lemmas computeElementWiseStride_exact = computeElementWiseStride_both [where isF = False, unfolded if_False]

subsection \<open>The constructors of buffers\<close>

lemma strides_eq_Nil [simp]: "c_strides sh = [] \<longleftrightarrow> sh = []" "f_strides s sh = [] \<longleftrightarrow> sh = []"
  by (cases sh; simp)+

lemma last_c_strides: "sh \<noteq> [] \<Longrightarrow> last (c_strides sh) = 1"
  by (induction sh) auto

lemma sq_c_strides: "map snd (sq sh (c_strides sh)) = c_strides (map fst (sq sh (c_strides sh)))"
  by (induction sh) (auto simp: sq_prod)

lemma sq_f_strides: "map snd (sq sh (f_strides s sh)) = f_strides s (map fst (sq sh (f_strides s sh)))"
  by (induction sh arbitrary: s) auto

lemma sq_fst: "length st = length sh \<Longrightarrow> map fst (sq sh st) = filter (\<lambda>d. d \<noteq> 1) sh"
  by (induction sh st rule: list_induct2') auto

lemma packed_c_strides: "n < length ds \<Longrightarrow> packed_axes ds (c_strides ds) 0 n"
  by (auto simp: packed_axes_def c_strides_nth prod_list_drop_Suc)

lemma stride_bounds_c_strides: "pos_dims sh \<Longrightarrow> prod_list sh < 2 ^ 31 \<Longrightarrow> stride_bounds sh (c_strides sh)"
  using pos_dims_prod_drop_le [of sh]
  by (fastforce simp: stride_bounds_def c_strides_nth prod_list_drop_Suc [symmetric]
      intro: less_imp_le pos_dims_prod pos_dims_drop le_less_trans)

lemma stride_bounds_f_strides: "pos_dims sh \<Longrightarrow> prod_list sh < 2 ^ 31 \<Longrightarrow> stride_bounds sh (f_strides 1 sh)"
  using pos_dims_prod_take_le [of sh]
  by (fastforce simp: stride_bounds_def f_strides_nth prod_list_take_Suc [symmetric] mult.commute [of "sh ! _"]
      intro: less_imp_le pos_dims_prod pos_dims_take le_less_trans)

lemma ews_c_strides: "sh \<noteq> [] \<Longrightarrow> ews_spec sh (c_strides sh) = 1"
  by (auto simp: ews_spec_def Let_def sq_c_strides packed_c_strides last_c_strides)

lemma stride_bounds_vector: "packable sh \<Longrightarrow> vector_shape sh \<Longrightarrow> stride_bounds sh [1, 1]"
  by (cases sh; cases "tl sh") (auto simp: stride_bounds_def vector_shape_def packable_def less_Suc_eq)

lemma shapeBuffer_exact:
  assumes "packable sh"
  shows "shapeBuffer (int (length sh)) (sh @ r)
    = Some (mk_info sh (if vector_shape sh then [1, 1] else c_strides sh) 0 1 99)"
proof -
  let ?st = "if vector_shape sh then [1, 1] else c_strides sh"
  have sh: "2 \<le> length sh" "pos_dims sh" "prod_list sh < 2 ^ 31"
    using assms by (simp_all add: packable_def)
  have st: "stride_bounds sh ?st" "length ?st = length sh"
    using assms sh stride_bounds_vector stride_bounds_c_strides by (auto simp: vector_shape_def)
  have "sh \<noteq> []" using sh(1) by auto
  then have "ews_spec sh ?st = 1"
    by (simp add: ews_c_strides) (simp add: ews_spec_def)
  then have "computeElementWiseStride (int (length sh)) (sh @ r) ?st False = Some 1"
    using computeElementWiseStride_exact [OF sh st(1), of r "[]"] by simp
  moreover have "calcStrides (sh @ r) (int (length sh)) = Some ?st" by (rule calcStrides_exact [OF assms])
  ultimately show ?thesis
    using toShapeBuffer_exact [of sh _ ?st r "[]"] st(2) by (simp add: shapeBuffer_def)
qed

lemma ews_f_strides:
  assumes "pos_dims sh" "sh \<noteq> []" "\<not> vector_shape sh"
  shows "ews_spec sh (f_strides 1 sh) = (if length (filter (\<lambda>d. d \<noteq> 1) sh) \<le> 1 then 1 else -1)"
proof -
  let ?ds = "filter (\<lambda>d. d \<noteq> 1) sh"
  have pos: "pos_dims ?ds" using assms(1) by (auto simp: pos_dims_def)
  have one: "prod_list xs = 1" if "filter (\<lambda>d. d \<noteq> 1) xs = []" for xs :: "int list"
    using that by (induction xs) (auto split: if_splits)
  consider "?ds = []" | d where "?ds = [d]" | d e ds where "?ds = d # e # ds"
    by (cases ?ds rule: remdups_adj.cases) auto
  then show ?thesis
  proof cases
    case 1
    have "last (f_strides 1 sh) = prod_list (butlast sh)"
      using assms(2) by (subst last_conv_nth) (auto simp: f_strides_nth butlast_conv_take)
    also have "\<dots> = 1" using 1 by (intro one) (auto simp: filter_empty_conv dest: in_set_butlastD)
    finally show ?thesis using 1 by (simp add: ews_spec_def sq_fst)
  next
    case 2
    then show ?thesis using assms(3) by (simp add: ews_spec_def sq_fst sq_f_strides packed_axes_def)
  next
    case 3
    have "\<forall>x \<in> set ?ds. 0 < x \<and> x \<noteq> 1" using pos by (auto simp: pos_dims_def)
    then have "d \<noteq> 1" "0 < d" unfolding 3 by simp_all
    then have "e * d \<noteq> 1" by (auto simp: zmult_eq_1_iff)
    then have "\<not> packed_axes ?ds (f_strides 1 ?ds) 0 (Suc (length ds))"
      by (simp add: packed_axes_Suc 3)
    then show ?thesis using 3 assms(3) by (simp add: ews_spec_def sq_fst sq_f_strides)
  qed
qed

lemma shapeBufferFortran_exact:
  assumes "packable sh" "\<not> vector_shape sh"
  shows "shapeBufferFortran (int (length sh)) (sh @ r)
    = Some (mk_info sh (f_strides 1 sh) 0 (if length (filter (\<lambda>d. d \<noteq> 1) sh) \<le> 1 then 1 else -1) 102)"
proof -
  have sh: "2 \<le> length sh" "pos_dims sh" "prod_list sh < 2 ^ 31" "sh \<noteq> []"
    using assms(1) by (auto simp: packable_def)
  have "computeElementWiseStride (int (length sh)) (sh @ r) (f_strides 1 sh) False
      = Some (if length (filter (\<lambda>d. d \<noteq> 1) sh) \<le> 1 then 1 else -1)"
    using computeElementWiseStride_exact [OF sh(1-3) stride_bounds_f_strides [OF sh(2,3)], of r "[]"]
      ews_f_strides [OF sh(2,4) assms(2)] by simp
  moreover have "calcStridesFortran (sh @ r) (int (length sh)) = Some (f_strides 1 sh)"
    using calcStridesFortran_exact [OF assms(1)] assms(2) by simp
  ultimately show ?thesis
    using toShapeBuffer_exact [of sh _ "f_strides 1 sh" r "[]"] by (simp add: shapeBufferFortran_def)
qed

end
