(* ===== verification/ShapeTad.thy ===== *)
theory ShapeTad
  imports ShapeReshape
begin

text \<open>
  Tensors along dimensions (\<open>include/helpers/shape.h\<close>): the sub-tensors obtained by fixing the
  coordinates of all axes that are not listed in \<open>dimension\<close>.  The class \<open>TAD\<close> is the record
  \<open>TAD\<close>; its methods are functions from the record to an updated record.  What \<open>new int[n]\<close> holds
  before the first write is the parameter \<open>junk\<close> where the code can read such a cell.
\<close>

subsection \<open>Index arithmetic of tensors\<close>

definition tadLength :: "int list \<Rightarrow> int list \<Rightarrow> int \<Rightarrow> int option" where
  "tadLength shapeInfo dimension dimensionLength =
     (if dimensionLength = 1 then do { k \<leftarrow> rd dimension 0; rd (shapeOf shapeInfo) k }
      else do {
        rank \<leftarrow> rank_of shapeInfo;
        for_up 0 (nat rank) (\<lambda>i ret. for_up 0 (nat dimensionLength) (\<lambda>j ret. do {
          k \<leftarrow> rd dimension (int j);
          if int i = k then do { d \<leftarrow> rd (shapeOf shapeInfo) k; i32 (ret * d) } else Some ret }) ret) 1 })"

definition tensorsAlongDimension_raw :: "int \<Rightarrow> int \<Rightarrow> int list \<Rightarrow> int list \<Rightarrow> int \<Rightarrow> int option" where
  "tensorsAlongDimension_raw rank len shape dimension dimensionLength = do {
     tensorShape \<leftarrow> keep shape dimension dimensionLength rank;
     tensorShape \<leftarrow> finish tensorShape;
     p \<leftarrow> prodLong tensorShape dimensionLength;
     q \<leftarrow> cdiv len p;
     Some (to_int32 q) }"

definition tensorsAlongDimension :: "int list \<Rightarrow> int list \<Rightarrow> int \<Rightarrow> int option" where
  "tensorsAlongDimension shapeInfo dimension dimensionLength = do {
     rank \<leftarrow> rank_of shapeInfo;
     tensorShape \<leftarrow> keep (shapeOf shapeInfo) dimension dimensionLength rank;
     tensorShape \<leftarrow> finish tensorShape;
     len \<leftarrow> length_of shapeInfo;
     p \<leftarrow> prodLong tensorShape dimensionLength;
     q \<leftarrow> cdiv len p;
     Some (to_int32 q) }"

definition lengthPerSlice :: "int \<Rightarrow> int list \<Rightarrow> int list \<Rightarrow> int \<Rightarrow> int option" where
  "lengthPerSlice rank shape dimension dimensionLength = do {
     v \<leftarrow> isVector shape rank;
     d0 \<leftarrow> (if v \<noteq> 0 \<and> dimensionLength = 1 then rd shape 0 else Some 0);
     if v \<noteq> 0 \<and> dimensionLength = 1 \<and> d0 = 1 then prod_int shape rank
     else if v = 0 \<and> rank = dimensionLength then prod_int shape rank
     else do {
       ret2 \<leftarrow> removeIndex shape dimension rank dimensionLength;
       ret2 \<leftarrow> finish ret2;
       prod_int ret2 \<bar>rank - dimensionLength\<bar> } }"

definition sliceOffsetForTensor :: "int \<Rightarrow> int \<Rightarrow> int list \<Rightarrow> int list \<Rightarrow> int \<Rightarrow> int list \<Rightarrow> int \<Rightarrow> int option" where
  "sliceOffsetForTensor rank index shape tensorShape tensorShapeLength dimension dimensionLength = do {
     len \<leftarrow> prodLong tensorShape tensorShapeLength;
     let tensorLength = to_int32 len;
     lengthPerSlice2 \<leftarrow> lengthPerSlice rank shape dimension dimensionLength;
     if lengthPerSlice2 \<le> 0 then Some 0
     else do { p \<leftarrow> i32 (index * tensorLength); cdiv p lengthPerSlice2 } }"

definition sliceOffsetForTensor_of :: "int \<Rightarrow> int \<Rightarrow> int \<Rightarrow> int option" where
  "sliceOffsetForTensor_of index tensorLength lengthPerSlice2 = do {
     p \<leftarrow> i32 (index * tensorLength); cdiv p lengthPerSlice2 }"

definition tadForBlockIndex :: "int \<Rightarrow> int \<Rightarrow> int \<Rightarrow> int option" where
  "tadForBlockIndex blockSize blockIdx i = do { p \<leftarrow> i32 (i * blockSize); i32 (blockIdx + p) }"

text \<open>\<open>ceil(tads / (double) blockSize)\<close>: both numbers are exact in a \<open>double\<close>, and so is the ceiling of their quotient.\<close>

definition tadsPerBlock :: "int \<Rightarrow> int \<Rightarrow> int option" where
  "tadsPerBlock blockSize tads = (if blockSize = 0 then None else i32 (- (- tads div blockSize)))"

definition tadIndex :: "int \<Rightarrow> int \<Rightarrow> int \<Rightarrow> int option" where
  "tadIndex i elementWiseStride numElementsPerTad = do {
     p \<leftarrow> i32 (numElementsPerTad * elementWiseStride); cdiv i p }"

definition reductionIndexForTad :: "int \<Rightarrow> int \<Rightarrow> int \<Rightarrow> int option" where
  "reductionIndexForTad tadIndexForOriginal tadsForReduced tadsForOriginal =
     (if tadIndexForOriginal = 0 then Some 0
      else do { q \<leftarrow> cdiv tadsForOriginal tadsForReduced; cdiv tadIndexForOriginal q })"

definition tadIndexForLinear :: "int \<Rightarrow> int \<Rightarrow> int option" where
  "tadIndexForLinear linearIndex tadLen = cmod linearIndex tadLen"

definition tadsPerReduceIndex :: "int \<Rightarrow> int \<Rightarrow> int option" where
  "tadsPerReduceIndex tadsForReduce tadsForOriginal = cdiv tadsForOriginal tadsForReduce"

definition reductionIndexForLinear :: "int \<Rightarrow> int \<Rightarrow> int \<Rightarrow> int \<Rightarrow> int \<Rightarrow> int option" where
  "reductionIndexForLinear i elementWiseStride numElementsPerTad tadNum originalTadNum = do {
     tad \<leftarrow> tadIndex i elementWiseStride numElementsPerTad;
     reductionIndexForTad tad tadNum originalTadNum }"

subsection \<open>Dimension lists\<close>

text \<open>
  \<open>checkDimensions\<close> throws a string: the left of the sum.  \<open>std::sort\<close> and \<open>std::unique\<close> are
  \<open>sort\<close> and \<open>remdups_adj\<close> of the library.
\<close>

datatype dims_error = EmptyDimensions | TooManyDimensions | DimensionOutOfRange

definition checkDimensions :: "int \<Rightarrow> int list \<Rightarrow> dims_error + int list" where
  "checkDimensions rank dimensions =
     (if dimensions = [] then Inl EmptyDimensions
      else let dims = map (\<lambda>d. if d < 0 then d + rank else d) dimensions;
               dims = (if length dims > 1 then remdups_adj (sort dims) else dims) in
        if int (length dims) > rank then Inl TooManyDimensions
        else if hd dims < 0 \<or> last dims > rank - 1 then Inl DimensionOutOfRange
        else Inr dims)"

definition computeResultShape :: "int list \<Rightarrow> int list \<Rightarrow> int \<Rightarrow> int list option" where
  "computeResultShape originalShapeBuffer dimension dimensionLength = do {
     rank \<leftarrow> rank_of originalShapeBuffer;
     d0 \<leftarrow> (if dimensionLength = 1 then rd dimension 0 else Some 0);
     (retShape, retShapeLength) \<leftarrow>
       (if dimensionLength = 1 \<and> d0 = 2147483647 then Some (map Some [1, 1], 2)
        else do {
          r \<leftarrow> removeIndex (shapeOf originalShapeBuffer) dimension (shapeInfoLength rank) dimensionLength;
          Some (r, rank - dimensionLength) });
     (retShape, retShapeLength) \<leftarrow>
       (if retShapeLength = 1 then do {
          k \<leftarrow> rd dimension 0; v \<leftarrow> rd retShape 0;
          Some (if k = 0 then [Some 1, v] else [v, Some 1], 2) }
        else if retShapeLength = 0 then Some (map Some [1, 1], 2)
        else Some (retShape, retShapeLength));
     sh \<leftarrow> finish (take (nat retShapeLength) retShape);
     shapeBuffer retShapeLength sh }"

subsection \<open>Slices of a shape information buffer\<close>

text \<open>
  Taking a slice cuts the first axis off.  For a row vector the code copies
  \<open>shapeInfoLength(rank * sizeof(int))\<close> bytes, that is \<open>2 * rank + 1\<close> cells.
\<close>

definition slice_finish :: "int list \<Rightarrow> int \<Rightarrow> int \<Rightarrow> int \<Rightarrow> int list \<Rightarrow> int list option" where
  "slice_finish nb rank newRank sliceIdx buf = do {
     currStride \<leftarrow> stride_of buf;
     indices \<leftarrow> wr (replicate (nat rank) 0) 0 sliceIdx;
     offset \<leftarrow> getOffset 0 (drop 1 nb) (drop (nat (1 + newRank)) nb) indices rank;
     nb \<leftarrow> wr nb (shapeInfoLength newRank - 3) (to_int32 offset);
     m \<leftarrow> isMatrix_of buf;
     ews \<leftarrow> (if m \<noteq> 0 then rd currStride 1 else elementWiseStride_of buf);
     nb \<leftarrow> wr nb (shapeInfoLength newRank - 2) ews;
     ord \<leftarrow> getOrder newRank (drop 1 nb) (drop (nat (1 + newRank)) nb) 1;
     wr nb (shapeInfoLength newRank - 1) ord }"

definition sliceOfShapeBuffer :: "(nat \<Rightarrow> int) \<Rightarrow> int \<Rightarrow> int list \<Rightarrow> int list option" where
  "sliceOfShapeBuffer junk sliceIdx buf = do {
     rank \<leftarrow> rank_of buf;
     let newRank = (if rank - 1 < 2 then 2 else rank - 1);
     let nb = (map junk [0..<nat (shapeInfoLength newRank)]) [0 := newRank];
     let currShape = shapeOf buf;
     currStride \<leftarrow> stride_of buf;
     v \<leftarrow> isVector_of buf;
     if v \<noteq> 0 then do {
       d0 \<leftarrow> rd currShape 0;
       if d0 = 1 then
         (if sliceIdx = 0 then
            (let n = nat (shapeInfoLength (rank * 4) div 4) in
             if n \<le> length buf \<and> n \<le> length nb
             then Some (take n buf @ drop n nb) else None)
          else slice_finish nb rank newRank sliceIdx buf)
       else do {
         scalar \<leftarrow> createScalarShapeInfo;
         offset \<leftarrow> offset_of buf;
         v \<leftarrow> i32 (offset + sliceIdx);
         wr scalar (shapeInfoLength 2 - 3) v } }
     else do {
       m \<leftarrow> isMatrix_of buf;
       nb \<leftarrow> (if m \<noteq> 0 then do {
            d1 \<leftarrow> rd currShape 1;
            nb \<leftarrow> wr nb 1 1;
            nb \<leftarrow> wr nb 2 d1;
            nb \<leftarrow> wr nb (1 + newRank) 1;
            t1 \<leftarrow> rd currStride 1;
            wr nb (1 + newRank + 1) t1 }
          else for_up 0 (nat newRank) (\<lambda>i nb. do {
            d \<leftarrow> rd currShape (int i + 1);
            nb \<leftarrow> wr nb (1 + int i) d;
            t \<leftarrow> rd currStride (int i + 1);
            wr nb (1 + newRank + int i) t }) nb);
       slice_finish nb rank newRank sliceIdx buf } }"

text \<open>The free function \<open>shapeInfoOnlyShapeAndStride\<close>; the cells it does not write keep what \<open>buffer\<close> held.\<close>

definition shapeInfoOnlyShapeAndStride_into ::
  "int list \<Rightarrow> int list \<Rightarrow> int \<Rightarrow> bool \<Rightarrow> cells \<Rightarrow> cells option" where
  "shapeInfoOnlyShapeAndStride_into shapeInfo dimension dimensionLength reverseCopyStride buffer = do {
     let theShape = shapeOf shapeInfo;
     theStride \<leftarrow> stride_of shapeInfo;
     let rank = (if dimensionLength = 1 then 2 else dimensionLength);
     ret \<leftarrow> wr buffer 0 (Some rank);
     ret \<leftarrow> (if dimensionLength = 1 then do {
         r \<leftarrow> rank_of shapeInfo;
         m \<leftarrow> isMatrix theShape r;
         k \<leftarrow> rd dimension 0;
         t \<leftarrow> rd theStride k;
         d \<leftarrow> rd theShape k;
         ret \<leftarrow> wr ret 1 (Some (if m \<noteq> 0 then d else 1));
         ret \<leftarrow> wr ret 2 (Some (if m \<noteq> 0 then 1 else d));
         ret \<leftarrow> wr ret 3 (Some (if m \<noteq> 0 then t else 1));
         wr ret 4 (Some (if m \<noteq> 0 then 1 else t)) }
       else do {
         st \<leftarrow> (if reverseCopyStride
                then reverseCopyTo_indexed theStride (drop (nat (1 + rank)) ret) dimension rank
                else copyTo_indexed rank theStride (drop (nat (1 + rank)) ret) dimension);
         let ret = take (nat (1 + rank)) ret @ st;
         sh \<leftarrow> copyTo_indexed rank theShape (drop 1 ret) dimension;
         Some (take 1 ret @ sh) });
     ord \<leftarrow> order_of shapeInfo;
     wr ret (shapeInfoLength rank - 1) (Some ord) }"

definition shapeInfoOnlyShapeAndStride :: "int list \<Rightarrow> int list \<Rightarrow> int \<Rightarrow> bool \<Rightarrow> cells option" where
  "shapeInfoOnlyShapeAndStride shapeInfo dimension dimensionLength reverseCopyStride = do {
     ret \<leftarrow> new_ints (shapeInfoLength (if dimensionLength = 1 then 2 else dimensionLength));
     shapeInfoOnlyShapeAndStride_into shapeInfo dimension dimensionLength reverseCopyStride ret }"

subsection \<open>The class \<open>TAD\<close>\<close>

text \<open>
  \<open>own_dimension\<close> says whether \<open>dimension\<close> still is the caller's array \<open>originalDimension\<close> (it is
  until \<open>collapse\<close> allocates its own).  The members that no method reads are left out.
\<close>

record TAD =
  t_tadIndex :: int
  t_dimensionLength :: int
  t_dimension :: "int list"
  t_own_dimension :: bool
  t_shapeInfo :: "int list"
  t_tadOnlyShapeInfo :: "int list option"
  t_numTads :: int
  t_tadRank :: int
  t_tadShape :: "int list option"
  t_tadStride :: "int list option"
  t_tadOffsets :: "int list option"
  t_rank :: int
  t_numOnes :: int
  t_originalDimensionLength :: int
  t_originalDimension :: "int list"
  t_originalShapeInfo :: "int list"
  t_wholeThing :: bool

definition TAD_empty :: TAD where
  "TAD_empty = \<lparr>t_tadIndex = 0, t_dimensionLength = 0, t_dimension = [], t_own_dimension = False,
     t_shapeInfo = [], t_tadOnlyShapeInfo = None, t_numTads = 0, t_tadRank = 0, t_tadShape = None,
     t_tadStride = None, t_tadOffsets = None, t_rank = 0, t_numOnes = 0, t_originalDimensionLength = 0,
     t_originalDimension = [], t_originalShapeInfo = [], t_wholeThing = False\<rparr>"

text \<open>The members \<open>tadLength\<close> and \<open>tensorsAlongDimension\<close>; the quotient is taken in \<open>Nd4jIndex\<close>.\<close>

definition TAD_tadLength :: "int list \<Rightarrow> int list \<Rightarrow> int \<Rightarrow> int option" where
  "TAD_tadLength shapeInfo dimension dimensionLength =
     (if dimensionLength = 1 then do { k \<leftarrow> rd dimension 0; rd (shapeOf shapeInfo) k }
      else do {
        rank \<leftarrow> rank_of shapeInfo;
        for_up 0 (nat rank) (\<lambda>i ret. for_up 0 (nat dimensionLength) (\<lambda>j ret. do {
          k \<leftarrow> rd dimension (int j);
          if int i = k then do { d \<leftarrow> rd (shapeOf shapeInfo) k; i32 (ret * d) } else Some ret }) ret) 1 })"

definition TAD_tensorsAlongDimension :: "int list \<Rightarrow> int list \<Rightarrow> int \<Rightarrow> int option" where
  "TAD_tensorsAlongDimension shapeInfo dimension dimensionLength = do {
     len \<leftarrow> length_of shapeInfo;
     n \<leftarrow> TAD_tadLength shapeInfo dimension dimensionLength;
     q \<leftarrow> cdiv len n;
     Some (to_int32 q) }"

text \<open>\<open>init\<close> computes the number of tensors and whether one tensor is the whole array.\<close>

definition TAD_init :: "TAD \<Rightarrow> int list \<Rightarrow> int list \<Rightarrow> int \<Rightarrow> TAD option" where
  "TAD_init tad shapeInfo dimension dimensionLength = do {
     rank \<leftarrow> rank_of shapeInfo;
     numTads \<leftarrow> TAD_tensorsAlongDimension shapeInfo dimension dimensionLength;
     ews \<leftarrow> elementWiseStride_of shapeInfo;
     v \<leftarrow> isVector_of shapeInfo;
     whole \<leftarrow>
       (if v = 0 then do {
          len \<leftarrow> length_of shapeInfo;
          Some (numTads = 1 \<or> ((dimensionLength = rank \<or> numTads = len) \<and> ews = 1)) }
        else do {
          s \<leftarrow> isScalar shapeInfo;
          if s \<noteq> 0 then Some True
          else if dimension = [] then None
          else Some (t_wholeThing tad) });
     Some (tad\<lparr>t_originalShapeInfo := shapeInfo, t_originalDimension := dimension,
        t_originalDimensionLength := dimensionLength, t_shapeInfo := shapeInfo,
        t_dimensionLength := dimensionLength, t_dimension := dimension, t_own_dimension := False,
        t_rank := rank, t_numTads := numTads, t_wholeThing := whole\<rparr>) }"

definition TAD_new :: "int \<Rightarrow> int list \<Rightarrow> int list \<Rightarrow> int \<Rightarrow> TAD option" where
  "TAD_new index shapeInfo dimension dimensionLength =
     TAD_init (TAD_empty\<lparr>t_tadIndex := index\<rparr>) shapeInfo dimension dimensionLength"

definition TAD_initWithExternalTAD ::
  "TAD \<Rightarrow> int list \<Rightarrow> int list \<Rightarrow> int list \<Rightarrow> int \<Rightarrow> TAD option" where
  "TAD_initWithExternalTAD tad existingTAD originalShape dimension dimensionLength = do {
     rank \<leftarrow> rank_of originalShape;
     tadStride \<leftarrow> stride_of existingTAD;
     ews \<leftarrow> elementWiseStride_of originalShape;
     len \<leftarrow> length_of originalShape;
     n \<leftarrow> length_of existingTAD;
     q \<leftarrow> cdiv len n;
     let numTads = to_int32 q;
     Some (tad\<lparr>t_tadOnlyShapeInfo := Some existingTAD, t_rank := rank,
        t_originalShapeInfo := originalShape, t_originalDimension := dimension,
        t_originalDimensionLength := dimensionLength, t_shapeInfo := originalShape,
        t_dimension := dimension, t_own_dimension := False, t_dimensionLength := dimensionLength,
        t_tadShape := Some (shapeOf existingTAD), t_tadStride := Some tadStride, t_numTads := numTads,
        t_wholeThing := (numTads = 1 \<or> ((dimensionLength = rank \<or> numTads = len) \<and> ews = 1))\<rparr>) }"

definition TAD_permuteShapeBufferInPlace :: "TAD \<Rightarrow> int list \<Rightarrow> int list \<Rightarrow> cells \<Rightarrow> int list option" where
  "TAD_permuteShapeBufferInPlace tad buf rearrange out = do {
     out \<leftarrow> memcpy_ints out buf (shapeInfoLength (t_rank tad));
     b \<leftarrow> finish (take (nat (shapeInfoLength (t_rank tad))) out);
     doPermuteShapeBuffer_rank (t_rank tad) b rearrange }"

definition TAD_permuteShapeBuffer :: "TAD \<Rightarrow> int list \<Rightarrow> int list \<Rightarrow> int list option" where
  "TAD_permuteShapeBuffer tad buf rearrange = do {
     copy \<leftarrow> copyOf (shapeInfoLength (t_rank tad)) buf;
     doPermuteShapeBuffer_rank (t_rank tad) copy rearrange }"

definition TAD_lengthPerSlice :: "int list \<Rightarrow> int option" where
  "TAD_lengthPerSlice buf = do {
     rank \<leftarrow> rank_of buf;
     r \<leftarrow> removeIndex (shapeOf buf) [0] rank 1;
     r \<leftarrow> finish r;
     prod_int r (rank - 1) }"

text \<open>
  \<open>tad2Sub\<close>: the coordinates of the first element of the tensor with the given number.  The two
  overloads differ in the CUDA branches only.
\<close>

definition leftover_axes :: "int list \<Rightarrow> int list \<Rightarrow> int \<Rightarrow> int \<Rightarrow> cells \<Rightarrow> cells \<Rightarrow> (int \<times> int \<times> cells \<times> cells) option" where
  "leftover_axes shape originalDimension originalDimensionLength rank leftOverIndexes tadShape =
     for_up 0 (nat rank) (\<lambda>i (leftOverIndex, len, leftOverIndexes, tadShape). do {
       found \<leftarrow> idx_search originalDimension (int i) 0 (nat originalDimensionLength);
       if \<not> found then do {
         leftOverIndexes \<leftarrow> wr leftOverIndexes leftOverIndex (Some (int i));
         d \<leftarrow> rd shape (int i);
         tadShape \<leftarrow> wr tadShape leftOverIndex (Some d);
         len \<leftarrow> i32 (len * d);
         Some (leftOverIndex + 1, len, leftOverIndexes, tadShape) }
       else Some (leftOverIndex, len, leftOverIndexes, tadShape) })
     (0, 1, leftOverIndexes, tadShape)"

definition TAD_tad2Sub :: "TAD \<Rightarrow> int \<Rightarrow> int list option" where
  "TAD_tad2Sub tad index = do {
     let shape = shapeOf (t_shapeInfo tad);
     rank \<leftarrow> rank_of (t_shapeInfo tad);
     let leftOverIndexLen = rank - t_originalDimensionLength tad;
     ret \<leftarrow> new_ints rank;
     tadShape \<leftarrow> new_ints leftOverIndexLen;
     leftOverIndexes \<leftarrow> new_ints leftOverIndexLen;
     sub \<leftarrow> new_ints rank;
     let ret = replicate (nat rank) 0;
     (leftOverIndex, len, leftOverIndexes, tadShape) \<leftarrow>
       leftover_axes shape (t_originalDimension tad) (t_originalDimensionLength tad) rank
         leftOverIndexes tadShape;
     tadShape \<leftarrow> finish tadShape;
     leftOverIndexes \<leftarrow> finish leftOverIndexes;
     sub \<leftarrow> ind2subC_into leftOverIndexLen tadShape index len sub;
     for_up 0 (nat leftOverIndexLen) (\<lambda>i ret. do {
       k \<leftarrow> rd leftOverIndexes (int i);
       v \<leftarrow> rd sub (int i); v \<leftarrow> v;
       wr ret k v }) ret }"

definition TAD_permuteDims :: "TAD \<Rightarrow> int list option" where
  "TAD_permuteDims tad = do {
     rank \<leftarrow> rank_of (t_shapeInfo tad);
     permuteDims \<leftarrow> new_ints rank;
     (dimIdx, permuteDims) \<leftarrow> for_up 0 (nat rank) (\<lambda>i (dimIdx, permuteDims). do {
       found \<leftarrow> idx_search (t_originalDimension tad) (int i) 0 (nat (t_originalDimensionLength tad));
       if \<not> found then do {
         permuteDims \<leftarrow> wr permuteDims dimIdx (Some (int i)); Some (dimIdx + 1, permuteDims) }
       else Some (dimIdx, permuteDims) }) (0, permuteDims);
     (dimIdx, permuteDims) \<leftarrow> for_down (nat (t_originalDimensionLength tad)) (\<lambda>i (dimIdx, permuteDims). do {
       k \<leftarrow> rd (t_originalDimension tad) (int i);
       permuteDims \<leftarrow> wr permuteDims dimIdx (Some k);
       Some (dimIdx + 1, permuteDims) }) (dimIdx, permuteDims);
     finish permuteDims }"

definition TAD_tensorShape :: "TAD \<Rightarrow> (int list \<times> TAD) option" where
  "TAD_tensorShape tad =
     (case t_tadShape tad of
        Some s \<Rightarrow> Some (s, tad)
      | None \<Rightarrow> do {
          rank \<leftarrow> rank_of (t_shapeInfo tad);
          s \<leftarrow> keep (shapeOf (t_shapeInfo tad)) (t_dimension tad) (t_dimensionLength tad) rank;
          s \<leftarrow> finish s;
          Some (s, tad\<lparr>t_tadShape := Some s, t_tadRank := t_dimensionLength tad\<rparr>) })"

text \<open>
  \<open>while (length(ret2) > length)\<close> of \<open>shapeInfoOnlyShapeAndStride\<close>; not returning is \<open>None\<close>.
\<close>

partial_function (option) slice_until :: "(nat \<Rightarrow> int) \<Rightarrow> int \<Rightarrow> int \<Rightarrow> int list \<Rightarrow> int list option" where
  "slice_until junk tensorLength sliceIndex ret2 = do {
     len \<leftarrow> length_of ret2;
     if len > tensorLength then do {
       lengthPerSlice2 \<leftarrow> TAD_lengthPerSlice ret2;
       sliceIndex \<leftarrow> sliceOffsetForTensor_of sliceIndex (to_int32 len) lengthPerSlice2;
       n \<leftarrow> slices ret2;
       q \<leftarrow> cdiv sliceIndex n;
       p \<leftarrow> i32 (n * q);
       sliceIndex \<leftarrow> i32 (sliceIndex - p);
       newRet2 \<leftarrow> sliceOfShapeBuffer junk sliceIndex ret2;
       slice_until junk tensorLength sliceIndex newRet2 }
     else Some ret2 }"

declare slice_until.simps [code]

text \<open>The permutation that reverses all axes, and the test of the branches that leave row vectors alone.\<close>

definition reversed_axes :: "int list \<Rightarrow> int list option" where
  "reversed_axes ret2 = do {
     r \<leftarrow> rank_of ret2;
     finalPermuteDims \<leftarrow> new_ints r;
     (forward, finalPermuteDims) \<leftarrow> for_down (nat r) (\<lambda>i (forward, a). do {
       a \<leftarrow> wr a forward (Some (int i)); Some (forward + 1, a) }) (0, finalPermuteDims);
     finish finalPermuteDims }"

definition single_row :: "int \<Rightarrow> int list \<Rightarrow> bool option" where
  "single_row dimensionLength ret2 =
     (if dimensionLength = 1 then do {
        v \<leftarrow> isVector_of ret2;
        if v \<noteq> 0 then do { d \<leftarrow> rd (shapeOf ret2) 0; Some (d = 1) } else Some False }
      else Some False)"

definition reverse_in_place :: "int list \<Rightarrow> int list option" where
  "reverse_in_place ret2 = do {
     p \<leftarrow> reversed_axes ret2;
     (b, _) \<leftarrow> permuteShapeBufferInPlace True ret2 p (map Some ret2);
     Some b }"

text \<open>The part of \<open>shapeInfoOnlyShapeAndStride\<close> after the slice \<open>ret2\<close> has been taken.\<close>

definition tad_shape_from_slice ::
  "(nat \<Rightarrow> int) \<Rightarrow> TAD \<Rightarrow> int list \<Rightarrow> int \<Rightarrow> int list \<Rightarrow> int list option" where
  "tad_shape_from_slice junk tad tensorShape sliceIndex ret2 = do {
     let dimensionLength = t_dimensionLength tad;
     tensorLength \<leftarrow> prod_int tensorShape (t_tadRank tad);
     v \<leftarrow> isVector_of ret2;
     len2 \<leftarrow> length_of ret2;
     let compLength = (if v \<noteq> 0 then to_int32 len2 else tensorLength);
     if dimensionLength = t_tadRank tad \<and> compLength = len2 then do {
       row \<leftarrow> single_row dimensionLength ret2;
       if row then Some ret2
       else if dimensionLength > 1 then reverse_in_place ret2
       else Some ret2 }
     else do {
       perSlice \<leftarrow> TAD_lengthPerSlice ret2;
       p \<leftarrow> i32 (t_tadIndex tad * tensorLength);
       offset \<leftarrow> cdiv p perSlice;
       if sliceIndex = 0 \<and> tensorLength = perSlice then do {
         ret2 \<leftarrow> sliceOfShapeBuffer junk offset ret2;
         row \<leftarrow> isRowVector ret2;
         if \<not> row then reverse_in_place ret2 else Some ret2 }
       else if tensorLength = perSlice then do {
         n \<leftarrow> slices ret2;
         q \<leftarrow> cdiv offset n;
         p \<leftarrow> i32 (n * q);
         offset \<leftarrow> i32 (offset - p);
         ret2 \<leftarrow> sliceOfShapeBuffer junk offset ret2;
         row \<leftarrow> single_row dimensionLength ret2;
         if row then Some ret2
         else do { p \<leftarrow> reversed_axes ret2; permuteShapeBuffer ret2 p } }
       else do {
         ret2 \<leftarrow> slice_until junk tensorLength sliceIndex ret2;
         row \<leftarrow> single_row dimensionLength ret2;
         if row then Some ret2
         else if dimensionLength > 1 then do { p \<leftarrow> reversed_axes ret2; permuteShapeBuffer ret2 p }
         else Some ret2 } } }"

definition tad_shape_general :: "(nat \<Rightarrow> int) \<Rightarrow> TAD \<Rightarrow> (int list \<times> TAD) option" where
  "tad_shape_general junk tad = do {
     let shapeInfo = t_shapeInfo tad;
     let dimension = t_dimension tad;
     let dimensionLength = t_dimensionLength tad;
     rank \<leftarrow> rank_of shapeInfo;
     (tensorShape, tad) \<leftarrow> TAD_tensorShape tad;
     reverseDimensions \<leftarrow> reverseCopy dimension dimensionLength;
     rankRange \<leftarrow> range_ints 0 rank;
     rankRange \<leftarrow> finish rankRange;
     remove \<leftarrow> removeIndex rankRange dimension rank dimensionLength;
     remove \<leftarrow> finish remove;
     newPermuteDims \<leftarrow> concat2 remove (rank - dimensionLength) reverseDimensions dimensionLength;
     permuted \<leftarrow> permuteShapeBuffer shapeInfo newPermuteDims;
     prank \<leftarrow> rank_of permuted;
     sliceIndex \<leftarrow> sliceOffsetForTensor prank (t_tadIndex tad) (shapeOf shapeInfo) tensorShape
       dimensionLength dimension dimensionLength;
     ret2 \<leftarrow> sliceOfShapeBuffer junk sliceIndex permuted;
     r \<leftarrow> tad_shape_from_slice junk tad tensorShape sliceIndex ret2;
     Some (r, tad) }"

definition TAD_shapeInfoOnlyShapeAndStride :: "(nat \<Rightarrow> int) \<Rightarrow> TAD \<Rightarrow> (int list \<times> TAD) option" where
  "TAD_shapeInfoOnlyShapeAndStride junk tad = do {
     let shapeInfo = t_shapeInfo tad;
     let dimension = t_dimension tad;
     let dimensionLength = t_dimensionLength tad;
     let keep_state = (\<lambda>r. do { b \<leftarrow> r; Some (b, tad) });
     d0 \<leftarrow> (if dimensionLength = 1 then rd dimension 0 else Some 0);
     if t_wholeThing tad \<and> dimensionLength = 1 \<and> d0 = 2147483647 then keep_state createScalarShapeInfo
     else do {
       v \<leftarrow> isVector_of shapeInfo;
       rank \<leftarrow> rank_of shapeInfo;
       if dimensionLength < 1 \<and> v = 0 then keep_state (copyOf (shapeInfoLength rank) shapeInfo)
       else if dimensionLength = 1 then do {
         s0 \<leftarrow> (if d0 = 1 \<and> v \<noteq> 0 then rd (shapeOf shapeInfo) 0 else Some 0);
         s1 \<leftarrow> (if d0 = 0 \<and> v \<noteq> 0 then rd (shapeOf shapeInfo) 1 else Some 0);
         if d0 = 0 \<and> v \<noteq> 0 \<and> s1 = 1 then keep_state (permuteShapeBuffer shapeInfo [1, 0])
         else if d0 = 1 \<and> v \<noteq> 0 \<and> s0 = 1 then keep_state (copyOf (shapeInfoLength rank) shapeInfo)
         else do {
           s \<leftarrow> rd (shapeOf shapeInfo) d0;
           if s = 1 then keep_state (do {
             scalarInfo \<leftarrow> createScalarShapeInfo;
             r \<leftarrow> rank_of scalarInfo;
             wr scalarInfo (shapeInfoLength r - 3) (t_tadIndex tad) })
           else tad_shape_general junk tad } }
       else tad_shape_general junk tad } }"

definition TAD_createTadOnlyShapeInfo :: "(nat \<Rightarrow> int) \<Rightarrow> TAD \<Rightarrow> TAD option" where
  "TAD_createTadOnlyShapeInfo junk tad = do {
     (b, tad) \<leftarrow> TAD_shapeInfoOnlyShapeAndStride junk tad;
     st \<leftarrow> stride_of b;
     Some (tad\<lparr>t_tadOnlyShapeInfo := Some b, t_tadShape := Some (shapeOf b), t_tadStride := Some st\<rparr>) }"

definition TAD_tadOffset :: "(nat \<Rightarrow> int) \<Rightarrow> TAD \<Rightarrow> int \<Rightarrow> (int \<times> TAD) option" where
  "TAD_tadOffset junk tad index = do {
     tad \<leftarrow> (if t_tadOnlyShapeInfo tad = None then TAD_createTadOnlyShapeInfo junk tad else Some tad);
     if t_wholeThing tad then Some (index, tad)
     else do {
       sub \<leftarrow> TAD_tad2Sub tad index;
       st \<leftarrow> stride_of (t_shapeInfo tad);
       rank \<leftarrow> rank_of (t_shapeInfo tad);
       ret \<leftarrow> getOffset 0 (shapeOf (t_shapeInfo tad)) st sub rank;
       if t_dimensionLength tad > 1 \<and> ret < 0 then Some (-1, tad)
       else Some (ret, tad) } }"

text \<open>The loop of \<open>createOffsets\<close> is an OpenMP loop; its iterations write different cells.\<close>

definition TAD_createOffsets :: "(nat \<Rightarrow> int) \<Rightarrow> TAD \<Rightarrow> TAD option" where
  "TAD_createOffsets junk tad = do {
     offs \<leftarrow> new_ints (t_numTads tad);
     (offs, tad) \<leftarrow> for_up 0 (nat (t_numTads tad)) (\<lambda>i (offs, tad). do {
       (off, tad) \<leftarrow> TAD_tadOffset junk tad (int i);
       offs \<leftarrow> wr offs (int i) (Some off);
       Some (offs, tad) }) (offs, tad);
     offs \<leftarrow> finish offs;
     Some (tad\<lparr>t_tadOffsets := Some offs\<rparr>) }"

subsection \<open>Collapsing singular dimensions\<close>

text \<open>
  The inner loop of \<open>collapse\<close> runs from the last dimension to the first.  Its state: the
  intermediary result, whether an axis of size 1 (another size) was met, whether the middle
  dimensions are to be collapsed, whether the beginning was hit, the number of dimensions
  counted so far, the length of the list and whether it changed.
\<close>

record collapse_state =
  c_inter :: "int list"
  c_one :: bool
  c_nonOne :: bool
  c_hit :: bool
  c_middle :: bool
  c_onesDecrement :: nat
  c_dimensionLength :: int
  c_changed :: bool

fun collapse_scan :: "int list \<Rightarrow> int list \<Rightarrow> nat \<Rightarrow> collapse_state \<Rightarrow> collapse_state option" where
  "collapse_scan shape dimension 0 c = Some c"
| "collapse_scan shape dimension (Suc i) c = do {
     k \<leftarrow> rd dimension (int i);
     d \<leftarrow> rd shape k;
     if d = 1 then
       (if \<not> c_nonOne c then
          (let n = c_dimensionLength c - 1 in
           Some (c\<lparr>c_one := True, c_dimensionLength := n, c_middle := False,
              c_inter := take (nat n) dimension @ drop (nat n) (c_inter c), c_changed := True\<rparr>))
        else do {
          inter \<leftarrow> wr (c_inter c) (int i) (-1);
          collapse_scan shape dimension i (c\<lparr>c_one := True, c_hit := (c_hit c \<or> i = 0),
             c_inter := inter, c_onesDecrement := c_onesDecrement c + 1\<rparr>) })
     else do {
       inter \<leftarrow> wr (c_inter c) (int i) k;
       collapse_scan shape dimension i (c\<lparr>c_inter := inter, c_nonOne := True\<rparr>) } }"

lemma collapse_scan_length:
  "collapse_scan shape dimension i c = Some c' \<Longrightarrow> c_dimensionLength c' \<le> c_dimensionLength c
     \<and> c_onesDecrement c \<le> c_onesDecrement c'
     \<and> (c_middle c' \<and> c_one c' \<and> \<not> c_one c \<longrightarrow> c_onesDecrement c < c_onesDecrement c')
     \<and> (\<not> c_middle c' \<and> c_middle c \<longrightarrow> c_dimensionLength c' < c_dimensionLength c)
     \<and> (\<not> c_one c' \<and> 0 < i \<longrightarrow> c_nonOne c')"
proof (induction shape dimension i c rule: collapse_scan.induct)
  case (2 shape dimension i c)
  from "2.prems" obtain k d where kd: "rd dimension (int i) = Some k" "rd shape k = Some d"
    by (auto simp: bind_eq_Some_conv simp del: rd_nat)
  consider "d = 1" "\<not> c_nonOne c" | "d = 1" "c_nonOne c" | "d \<noteq> 1" by blast
  then show ?case
  proof cases
    case 1
    with "2.prems" kd show ?thesis by (auto simp: Let_def simp del: rd_nat)
  next
    case 2
    with "2.prems" kd obtain inter where w: "wr (c_inter c) (int i) (-1) = Some inter"
      "collapse_scan shape dimension i (c\<lparr>c_one := True, c_hit := (c_hit c \<or> i = 0),
             c_inter := inter, c_onesDecrement := c_onesDecrement c + 1\<rparr>) = Some c'"
      by (auto simp: bind_eq_Some_conv simp del: rd_nat wr_nat)
    have "c_one c'" if "collapse_scan shape dimension i e = Some c'" "c_one e" for i e
      using that by (induction shape dimension i e rule: collapse_scan.induct)
        (auto simp: bind_eq_Some_conv Let_def split: if_splits)
    from this [OF w(2)] "2.IH"(1) [OF kd 2(1) _ w] 2 show ?thesis by auto
  next
    case 3
    with "2.prems" kd obtain inter where w: "wr (c_inter c) (int i) k = Some inter"
      "collapse_scan shape dimension i (c\<lparr>c_inter := inter, c_nonOne := True\<rparr>) = Some c'"
      by (auto simp: bind_eq_Some_conv simp del: rd_nat wr_nat)
    have "c_nonOne c'" if "collapse_scan shape dimension i e = Some c'" "c_nonOne e" for i e
      using that by (induction shape dimension i e rule: collapse_scan.induct)
        (auto simp: bind_eq_Some_conv Let_def split: if_splits)
    from this [OF w(2)] "2.IH"(2) [OF kd 3 w] show ?thesis by auto
  qed
qed simp

text \<open>
  The outer loop.  \<open>onesDecrement\<close> is not reset between the rounds.  The copies through
  \<open>intermediaryResult\<close> and \<open>newIntermediary\<close> are bounded by \<open>MAX_RANK\<close>, and \<open>memcpy\<close> with a
  negative length is undefined.
\<close>

definition shifted_dims :: "nat \<Rightarrow> int list \<Rightarrow> int list" where
  "shifted_dims onesDecrement mids =
     map (\<lambda>d. if d > 0 then d - int onesDecrement else d) (filter (\<lambda>d. d \<ge> 0) mids)"

function collapse_loop ::
  "int list \<Rightarrow> int list \<Rightarrow> int \<Rightarrow> nat \<Rightarrow> bool \<Rightarrow> (int list \<times> int \<times> bool) option" where
  "collapse_loop shape dimension dimensionLength onesDecrement changed =
     (if dimensionLength < 1 then do {
        dimension \<leftarrow> wr dimension 0 (-1);
        Some (dimension, dimensionLength, changed) }
      else if dimensionLength > 32 \<or> int (length dimension) < dimensionLength then None
      else do {
        c \<leftarrow> collapse_scan shape dimension (nat dimensionLength)
          \<lparr>c_inter = take (nat dimensionLength) dimension, c_one = False, c_nonOne = False, c_hit = False,
           c_middle = True, c_onesDecrement = onesDecrement, c_dimensionLength = dimensionLength,
           c_changed = changed\<rparr>;
        let onesDecrement' = c_onesDecrement c;
        (dimension', dimensionLength', changed') \<leftarrow>
          (if c_middle c \<and> c_one c then do {
             let newIntermediary = shifted_dims onesDecrement' (take (nat (c_dimensionLength c)) (c_inter c));
             let n = c_dimensionLength c - int onesDecrement';
             if n < 0 \<or> n > int (length newIntermediary) then None
             else Some (take (nat n) newIntermediary @ drop (nat n) dimension, n, True) }
           else Some (take (nat (c_dimensionLength c)) (c_inter c) @ drop (nat (c_dimensionLength c)) dimension,
                      c_dimensionLength c, c_changed c));
        if (\<not> c_one c \<and> c_nonOne c) \<or> c_hit c then Some (dimension', dimensionLength', changed')
        else collapse_loop shape dimension' dimensionLength' onesDecrement' changed' })"
  by pat_completeness auto
termination
proof (relation "measure (\<lambda>(shape, dimension, dimensionLength, onesDecrement, changed). nat dimensionLength)",
    goal_cases)
  case (2 shape dimension dimensionLength onesDecrement changed c onesDecrement' p dimension' q dimensionLength' changed')
  from collapse_scan_length [OF 2(3)] 2(1,2,4-) show ?case
    by (auto simp: Let_def split: if_splits)
qed simp

declare collapse_loop.simps [simp del]

fun count_ones :: "int list \<Rightarrow> int list \<Rightarrow> int option" where
  "count_ones shape [] = Some 0"
| "count_ones shape (k # ks) = do {
     d \<leftarrow> rd shape k;
     if d \<noteq> 1 then Some 0 else do { n \<leftarrow> count_ones shape ks; Some (n + 1) } }"

fun any_one :: "int list \<Rightarrow> int list \<Rightarrow> bool option" where
  "any_one shape [] = Some False"
| "any_one shape (k # ks) = do { d \<leftarrow> rd shape k; if d = 1 then Some True else any_one shape ks }"

text \<open>
  \<open>collapse\<close>: the negative dimensions are corrected in place, which also changes the caller's
  array as long as it is shared.
\<close>

definition TAD_collapse :: "TAD \<Rightarrow> TAD option" where
  "TAD_collapse tad = do {
     let shape = shapeOf (t_shapeInfo tad);
     rank \<leftarrow> rank_of (t_shapeInfo tad);
     let n = nat (t_dimensionLength tad);
     if length (t_dimension tad) < n then None
     else do {
       let dims = map (\<lambda>d. if d < 0 then d + rank else d) (take n (t_dimension tad)) @ drop n (t_dimension tad);
       let orig = (if t_own_dimension tad then t_originalDimension tad else dims);
       let tad = tad\<lparr>t_originalDimension := orig, t_own_dimension := True\<rparr>;
       dimension \<leftarrow> copyOf (t_dimensionLength tad) orig;
       trailing \<leftarrow> count_ones shape (rev dimension);
       let len = t_dimensionLength tad - trailing;
       leading \<leftarrow> count_ones shape (take (nat len) dimension);
       let dimension = drop (nat leading) dimension;
       let len = len - leading;
       one \<leftarrow> any_one shape (take (nat len) dimension);
       if \<not> one
       then Some (tad\<lparr>t_dimension := dimension, t_dimensionLength := len\<rparr>)
       else do {
         (dimension, len, changed) \<leftarrow> collapse_loop shape dimension len 0 False;
         let dimension = (if \<not> changed \<and> t_numOnes tad > 0
           then map (\<lambda>d. d - t_numOnes tad) (take (nat len) dimension) @ drop (nat len) dimension
           else dimension);
         Some (tad\<lparr>t_dimension := dimension, t_dimensionLength := len\<rparr>) } } }"

subsection \<open>Splitting the axes\<close>

text \<open>
  \<open>pick m xs\<close> are the elements of \<open>xs\<close> on the axes that the mask \<open>m\<close> selects, and \<open>merge m a b\<close>
  puts a list back together from the selected elements \<open>a\<close> and the others \<open>b\<close>.
\<close>

fun pick :: "bool list \<Rightarrow> 'a list \<Rightarrow> 'a list" where
  "pick (b # m) (x # xs) = (if b then x # pick m xs else pick m xs)"
| "pick _ _ = []"

fun merge :: "bool list \<Rightarrow> 'a list \<Rightarrow> 'a list \<Rightarrow> 'a list" where
  "merge [] xs ys = []"
| "merge (b # m) xs ys = (if b then hd xs # merge m (tl xs) ys else hd ys # merge m xs (tl ys))"

definition axes_mask :: "nat \<Rightarrow> int list \<Rightarrow> bool list" where
  "axes_mask n dims = map (\<lambda>i. int i \<in> set dims) [0..<n]"

abbreviation others :: "bool list \<Rightarrow> bool list" where
  "others m \<equiv> map Not m"

lemma length_axes_mask [simp]: "length (axes_mask n dims) = n"
  by (simp add: axes_mask_def)

lemma pick_append:
  "length m = length xs \<Longrightarrow> pick (m @ m') (xs @ xs') = pick m xs @ pick m' xs'"
  by (induction m xs rule: list_induct2) auto

lemma pick_filter:
  "length xs = n \<Longrightarrow> map ((!) xs) (filter P [0..<n]) = pick (map P [0..<n]) xs"
proof (induction xs arbitrary: n rule: rev_induct)
  case (snoc x xs)
  have "map ((!) (xs @ [x])) (filter P [0..<length xs]) = map ((!) xs) (filter P [0..<length xs])"
    by (auto simp: nth_append)
  also have "\<dots> = pick (map P [0..<length xs]) xs" by (rule snoc.IH) simp
  finally show ?case using snoc.prems by (auto simp: pick_append)
qed simp

lemma pick_axes:
  assumes "n \<le> length xs"
  shows "map ((!) xs) (filter (\<lambda>i. int i \<in> set dims) [0..<n]) = pick (axes_mask n dims) (take n xs)"
    and "map ((!) xs) (filter (\<lambda>i. int i \<notin> set dims) [0..<n]) = pick (others (axes_mask n dims)) (take n xs)"
proof -
  have "map ((!) xs) (filter P [0..<n]) = map ((!) (take n xs)) (filter P [0..<n])" for P
    by auto
  then show "map ((!) xs) (filter (\<lambda>i. int i \<in> set dims) [0..<n]) = pick (axes_mask n dims) (take n xs)"
    and "map ((!) xs) (filter (\<lambda>i. int i \<notin> set dims) [0..<n]) = pick (others (axes_mask n dims)) (take n xs)"
    using assms pick_filter [of "take n xs" n] by (simp_all add: axes_mask_def comp_def)
qed

lemma merge_pick: "length m = length xs \<Longrightarrow> merge m (pick m xs) (pick (others m) xs) = xs"
  by (induction m xs rule: list_induct2) auto

lemma length_pick: "length m = length xs \<Longrightarrow> length (pick m xs) = count_list m True"
  by (induction m xs rule: list_induct2) auto

lemma pick_merge:
  "length a = count_list m True \<Longrightarrow> length b = count_list (others m) True \<Longrightarrow>
   pick m (merge m a b) = a \<and> pick (others m) (merge m a b) = b \<and> length (merge m a b) = length m"
proof (induction m arbitrary: a b)
  case (Cons x m)
  then show ?case by (cases x; cases a; cases b) auto
qed simp

lemma pos_dims_pick: "pos_dims xs \<Longrightarrow> pos_dims (pick m xs)"
  by (induction m xs rule: pick.induct) auto

lemma prod_pick:
  "length m = length xs \<Longrightarrow> prod_list xs = prod_list (pick m xs) * (prod_list (pick (others m) xs) :: int)"
  by (induction m xs rule: list_induct2) auto

lemma in_box_pick:
  "length m = length sh \<Longrightarrow> length idx = length sh \<Longrightarrow>
   in_box sh idx \<longleftrightarrow> in_box (pick m sh) (pick m idx) \<and> in_box (pick (others m) sh) (pick (others m) idx)"
proof (induction m sh arbitrary: idx rule: list_induct2)
  case (Cons b m d sh)
  then show ?case by (cases idx) auto
qed auto

lemma dot_pick:
  "length m = length sh \<Longrightarrow> length idx = length sh \<Longrightarrow> length st = length sh \<Longrightarrow>
   dot sh st idx = dot (pick m sh) (pick m st) (pick m idx)
     + dot (pick (others m) sh) (pick (others m) st) (pick (others m) idx)"
proof (induction m sh arbitrary: idx st rule: list_induct2)
  case (Cons b m d sh)
  then show ?case by (cases idx; cases st) auto
qed auto

lemma dot_zeros: "dot sh st (replicate n 0) = 0"
proof (induction n arbitrary: sh st)
  case (Suc n)
  then show ?case by (cases sh; cases st) auto
qed (cases sh; simp)

subsection \<open>Lengths and numbers of tensors\<close>

lemma axes_mask_Suc: "axes_mask (Suc n) dims = axes_mask n dims @ [int n \<in> set dims]"
  by (simp add: axes_mask_def)

lemma pick_Suc:
  "i < length xs \<Longrightarrow> pick (axes_mask (Suc i) dims) (take (Suc i) xs)
    = pick (axes_mask i dims) (take i xs) @ (if int i \<in> set dims then [xs ! i] else [])"
  by (simp add: axes_mask_Suc take_Suc_conv_app_nth pick_append)

lemma prod_pick_le:
  assumes "pos_dims sh" "i \<le> length sh"
  shows "0 < prod_list (pick (axes_mask i dims) (take i sh))"
    and "prod_list (pick (axes_mask i dims) (take i sh)) \<le> prod_list sh"
proof -
  let ?m = "axes_mask i dims"
  have pos: "pos_dims (take i sh)" by (rule pos_dims_take [OF assms(1)])
  show p: "0 < prod_list (pick ?m (take i sh))" by (intro pos_dims_prod pos_dims_pick pos)
  have q: "1 \<le> prod_list (pick (others ?m) (take i sh))"
    using pos_dims_prod [OF pos_dims_pick [OF pos]] by (metis int_one_le_iff_zero_less)
  have "prod_list (take i sh) = prod_list (pick ?m (take i sh)) * prod_list (pick (others ?m) (take i sh))"
    using assms(2) by (intro prod_pick) simp
  moreover have "prod_list (pick ?m (take i sh)) * 1
      \<le> prod_list (pick ?m (take i sh)) * prod_list (pick (others ?m) (take i sh))"
    using p q by (intro mult_left_mono) auto
  ultimately show "prod_list (pick ?m (take i sh)) \<le> prod_list sh"
    using pos_dims_prod_take_le [OF assms(1), of i] by simp
qed

lemma prod_pick_others_le:
  assumes "pos_dims sh" "i \<le> length sh"
  shows "0 < prod_list (pick (others (axes_mask i dims)) (take i sh))"
    and "prod_list (pick (others (axes_mask i dims)) (take i sh)) \<le> prod_list sh"
proof -
  let ?m = "axes_mask i dims"
  have pos: "pos_dims (take i sh)" by (rule pos_dims_take [OF assms(1)])
  have p: "0 < prod_list (pick ?m (take i sh))" and q: "0 < prod_list (pick (others ?m) (take i sh))"
    using pos by (auto intro: pos_dims_prod pos_dims_pick)
  then show "0 < prod_list (pick (others ?m) (take i sh))" by simp
  have "prod_list (take i sh) = prod_list (pick ?m (take i sh)) * prod_list (pick (others ?m) (take i sh))"
    using assms(2) by (intro prod_pick) simp
  moreover have "1 * prod_list (pick (others ?m) (take i sh))
      \<le> prod_list (pick ?m (take i sh)) * prod_list (pick (others ?m) (take i sh))"
    using p q by (intro mult_right_mono) auto
  ultimately show "prod_list (pick (others ?m) (take i sh)) \<le> prod_list sh"
    using pos_dims_prod_take_le [OF assms(1), of i] by simp
qed

lemma length_filter_upt_mono: "i \<le> n \<Longrightarrow> length (filter P [0..<i]) \<le> length (filter P [0..<n])"
  using upt_add_eq_append [of 0 i "n - i"] by simp

lemma multiply_if_listed:
  assumes "distinct dims" "i < length sh" "i32 (r * sh ! i) = Some (r * sh ! i)"
  shows "for_up 0 (length dims) (\<lambda>j ret. do { k \<leftarrow> rd dims (int j);
       if int i = k then do { d \<leftarrow> rd (sh @ rest) k; i32 (ret * d) } else Some ret }) r
    = Some (if int i \<in> set dims then r * sh ! i else r)"
proof -
  let ?f = "\<lambda>j ret. do { k \<leftarrow> rd dims (int j);
       if int i = k then do { d \<leftarrow> rd (sh @ rest) k; i32 (ret * d) } else Some ret }"
  let ?P = "\<lambda>j a. a = (if int i \<in> set (take j dims) then r * sh ! i else r)"
  have "\<exists>a. for_up 0 (length dims) ?f r = Some a \<and> ?P (0 + length dims) a"
  proof (rule for_up_total)
    fix j a assume j: "j < 0 + length dims" and a: "?P j a"
    have "int i \<notin> set (take j dims)" if "dims ! j = int i"
      using that assms(1) j by (metis add_0 distinct_take id_take_nth_drop distinct_append
          disjoint_insert(1) list.simps(15) )
    moreover have "rd dims (int j) = Some (dims ! j)" "rd (sh @ rest) (int i) = Some (sh ! i)"
      using j assms(2) by (simp_all add: nth_append)
    ultimately show "\<exists>a'. ?f j a = Some a' \<and> ?P (Suc j) a'"
      using a j assms(3) by (auto simp: take_Suc_conv_app_nth simp del: rd_nat)
  qed simp
  then show ?thesis by simp
qed

lemma filter_single: "k < n \<Longrightarrow> filter (\<lambda>i. int i = int k) [0..<n] = [k]"
proof (induction n)
  case (Suc n)
  then show ?case by (cases "k = n") auto
qed simp

lemma tadLength_exact:
  assumes "valid_dims (int (length sh)) dims" "pos_dims sh" "prod_list sh < 2 ^ 31"
    and "shapeOf b = sh @ rest" "rank_of b = Some (int (length sh))"
  shows "tadLength b dims (int (length dims)) = Some (prod_list (pick (axes_mask (length sh) dims) sh))"
proof (cases "length dims = 1")
  case True
  then obtain k where k: "dims = [int k]" "k < length sh"
    using assms(1) by (cases dims) (auto simp: valid_dims_def elim!: nonneg_int_cases)
  have "pick (axes_mask (length sh) dims) sh = [sh ! k]"
    using pick_axes(1) [of "length sh" sh dims] filter_single [OF k(2)] by (simp add: k(1))
  then show ?thesis using assms(4) k by (simp add: tadLength_def nth_append)
next
  case False
  let ?n = "length sh" and ?p = "\<lambda>i. prod_list (pick (axes_mask i dims) (take i sh))"
  let ?f = "\<lambda>i ret. for_up 0 (length dims) (\<lambda>j ret. do { k \<leftarrow> rd dims (int j);
       if int i = k then do { d \<leftarrow> rd (sh @ rest) k; i32 (ret * d) } else Some ret }) ret"
  have "\<exists>a. for_up 0 ?n ?f 1 = Some a \<and> a = ?p (0 + ?n)"
  proof (rule for_up_total)
    fix i a assume i: "i < 0 + ?n" and a: "a = ?p i"
    have b: "0 < ?p i" "?p i \<le> prod_list sh" using prod_pick_le [OF assms(2), of i] i by auto
    show "\<exists>a'. ?f i a = Some a' \<and> a' = ?p (Suc i)"
    proof (cases "int i \<in> set dims")
      case True
      then have s: "?p (Suc i) = ?p i * sh ! i" using i by (simp add: pick_Suc)
      have "0 < ?p (Suc i)" "?p (Suc i) \<le> prod_list sh" using prod_pick_le [OF assms(2), of "Suc i"] i by auto
      then have "i32 (a * sh ! i) = Some (a * sh ! i)" using assms(3) by (auto simp: a i32_def s)
      then show ?thesis using multiply_if_listed [of dims i sh a rest] i assms(1) True s a
        by (simp add: valid_dims_def)
    next
      case False
      have "?f i a = Some a" using False
      proof -
        have "\<exists>c. for_up 0 (length dims) (\<lambda>j ret. do { k \<leftarrow> rd dims (int j);
           if int i = k then do { d \<leftarrow> rd (sh @ rest) k; i32 (ret * d) } else Some ret }) a = Some c \<and> c = a"
          by (rule for_up_total [where P = "\<lambda>j c. c = a"]) (use False in \<open>auto simp: in_set_conv_nth\<close>)
        then show ?thesis by simp
      qed
      then show ?thesis using False i a by (simp add: pick_Suc)
    qed
  qed (simp add: axes_mask_def)
  then show ?thesis using False unfolding tadLength_def assms(4,5) by simp
qed

lemma TAD_tadLength_eq: "TAD_tadLength = tadLength"
  by (intro ext) (simp add: TAD_tadLength_def tadLength_def)

text \<open>The number of tensors is the product of the other dimensions.\<close>

lemma tensorsAlongDimension_exact:
  assumes "valid_dims (int (length sh)) dims" "pos_dims sh" "prod_list sh < 2 ^ 31" "length st = length sh"
  shows "TAD_tensorsAlongDimension (mk_info sh st off ews ord) dims (int (length dims))
      = Some (prod_list (pick (others (axes_mask (length sh) dims)) sh))"
    and "tensorsAlongDimension (mk_info sh st off ews ord) dims (int (length dims))
      = Some (prod_list (pick (others (axes_mask (length sh) dims)) sh))"
proof -
  let ?m = "axes_mask (length sh) dims" and ?b = "mk_info sh st off ews ord"
  have pos: "0 < prod_list (pick ?m sh)" "0 < prod_list (pick (others ?m) sh)"
    using assms(2) by (simp_all add: pos_dims_prod pos_dims_pick)
  have pr: "prod_list sh = prod_list (pick ?m sh) * prod_list (pick (others ?m) sh)"
    by (rule prod_pick) simp
  have "prod_list (pick (others ?m) sh) \<le> prod_list sh"
    using pos unfolding pr by simp
  then have t: "to_int32 (prod_list (pick (others ?m) sh)) = prod_list (pick (others ?m) sh)"
    using pos assms(3) by (intro to_int32_id) auto
  have "cdiv (prod_list sh) (prod_list (pick ?m sh)) = Some (prod_list (pick (others ?m) sh))"
    using pos unfolding pr by (simp add: cdiv_pos)
  moreover have len: "length_of ?b = Some (prod_list sh)"
    using length_of_mk_info [of sh st off ews ord] assms by simp
  moreover have "tadLength ?b dims (int (length dims)) = Some (prod_list (pick ?m sh))"
    by (rule tadLength_exact [OF assms(1-3) shapeOf_mk_info rank_mk_info])
  ultimately show "TAD_tensorsAlongDimension ?b dims (int (length dims)) = Some (prod_list (pick (others ?m) sh))"
    using t by (simp add: TAD_tensorsAlongDimension_def TAD_tadLength_eq)
  have k: "keep (shapeOf ?b) dims (int (length dims)) (int (length sh)) = Some (map Some (pick ?m sh))"
    using keep_valid [OF assms(1), of "sh @ st @ [off, ews, ord]"]
      pick_axes(1) [of "length sh" "sh @ st @ [off, ews, ord]" dims] by (simp add: shapeOf_mk_info)
  have l: "length (pick ?m sh) = length dims"
    using valid_dims_card [OF assms(1)] arg_cong [OF pick_axes(1) [of "length sh" sh dims], of length] by simp
  have "prod_list (pick ?m sh) \<le> prod_list sh" using pos unfolding pr by simp
  then have "prodLong (pick ?m sh) (int (length dims)) = Some (prod_list (pick ?m sh))"
    using prodLong_exact [of "length dims" "pick ?m sh"] l assms(2,3) by (simp add: pos_dims_pick)
  with k len t \<open>cdiv _ _ = _\<close> show "tensorsAlongDimension ?b dims (int (length dims)) = Some (prod_list (pick (others ?m) sh))"
    by (simp add: tensorsAlongDimension_def rank_mk_info)
qed

subsection \<open>Offsets of tensors\<close>

lemma leftover_axes_exact:
  assumes v: "valid_dims (int (length sh)) dims" and pos: "pos_dims sh" "prod_list sh < 2 ^ 31"
  defines "left \<equiv> filter (\<lambda>i. int i \<notin> set dims) [0..<length sh]"
  shows "leftover_axes (sh @ rest) dims (int (length dims)) (int (length sh))
      (replicate (length left) None) (replicate (length left) None)
    = Some (int (length left), prod_list (map ((!) sh) left), map Some (map int left), map Some (map ((!) sh) left))"
proof -
  let ?l = "\<lambda>i. filter (\<lambda>i. int i \<notin> set dims) [0..<i]"
  let ?n = "length sh" and ?N = "replicate (length left) (None :: int option)"
  let ?P = "\<lambda>i p. p = (int (length (?l i)), prod_list (map ((!) sh) (?l i)),
      map Some (map int (?l i)) @ drop (length (?l i)) ?N, map Some (map ((!) sh) (?l i)) @ drop (length (?l i)) ?N)"
  let ?f = "\<lambda>i (leftOverIndex, len, leftOverIndexes, tadShape). do {
       found \<leftarrow> idx_search dims (int i) 0 (length dims);
       if \<not> found then do {
         leftOverIndexes \<leftarrow> wr leftOverIndexes leftOverIndex (Some (int i));
         d \<leftarrow> rd (sh @ rest) (int i);
         tadShape \<leftarrow> wr tadShape leftOverIndex (Some d);
         len \<leftarrow> i32 (len * d);
         Some (leftOverIndex + 1, len, leftOverIndexes, tadShape) }
       else Some (leftOverIndex, len, leftOverIndexes, tadShape) }"
  have "\<exists>p. for_up 0 ?n ?f (0, 1, ?N, ?N) = Some p \<and> ?P (0 + ?n) p"
  proof (rule for_up_total)
    fix i p assume i: "i < 0 + ?n" and P: "?P i p"
    have s: "idx_search dims (int i) 0 (length dims) = Some (int i \<in> set dims)" by simp
    show "\<exists>p'. ?f i p = Some p' \<and> ?P (Suc i) p'"
    proof (cases "int i \<in> set dims")
      case True
      then show ?thesis using P s by simp
    next
      case False
      have "length (?l (Suc i)) \<le> length left"
        unfolding left_def by (rule length_filter_upt_mono) (use i in simp)
      then have lt: "length (?l i) < length left" using False by simp
      then have dr: "drop (length (?l i)) ?N = None # drop (Suc (length (?l i))) ?N"
        by (simp add: Suc_diff_Suc [symmetric])
      have "prod_list (pick (others (axes_mask (Suc i) dims)) (take (Suc i) sh)) \<le> prod_list sh"
        "0 < prod_list (pick (others (axes_mask (Suc i) dims)) (take (Suc i) sh))"
        using prod_pick_others_le [OF pos(1)] i by auto
      moreover have "pick (others (axes_mask (Suc i) dims)) (take (Suc i) sh) = map ((!) sh) (?l (Suc i))"
        using pick_axes(2) [of "Suc i" sh dims] i by simp
      ultimately have "i32 (prod_list (map ((!) sh) (?l i)) * sh ! i) = Some (prod_list (map ((!) sh) (?l i)) * sh ! i)"
        using pos(2) False by (simp add: i32_def)
      then show ?thesis using P False i dr lt by (simp add: nth_append list_update_append)
    qed
  qed simp
  then show ?thesis by (simp add: leftover_axes_def left_def)
qed

lemma scatter_exact:
  assumes "distinct is" "\<forall>i \<in> set is. i < n" "length v = length is" "length is \<le> length sub"
    and "take (length is) sub = map Some v"
  shows "\<exists>r. for_up 0 (length is) (\<lambda>i ret. do {
       k \<leftarrow> rd (map int is) (int i); v \<leftarrow> rd sub (int i); v \<leftarrow> v; wr ret k v }) (replicate n 0) = Some r
    \<and> length r = n \<and> map ((!) r) is = v \<and> (\<forall>p < n. p \<notin> set is \<longrightarrow> r ! p = 0)"
proof -
  let ?f = "\<lambda>i ret. do { k \<leftarrow> rd (map int is) (int i); v \<leftarrow> rd sub (int i); v \<leftarrow> v; wr ret k v }"
  let ?P = "\<lambda>j r. length r = n \<and> (\<forall>i < j. r ! (is ! i) = v ! i) \<and> (\<forall>p < n. p \<notin> set (take j is) \<longrightarrow> r ! p = 0)"
  have "\<exists>r. for_up 0 (length is) ?f (replicate n 0) = Some r \<and> ?P (0 + length is) r"
  proof (rule for_up_total)
    fix j r assume j: "j < 0 + length is" and P: "?P j r"
    have "sub ! j = Some (v ! j)"
      using arg_cong [OF assms(5), of "\<lambda>l. l ! j"] j assms(3,4) by simp
    then have "?f j r = Some (r[is ! j := v ! j])"
      using j P assms by simp
    moreover have "is ! j \<noteq> is ! i" if "i < j" for i
      using that j assms(1) by (simp add: nth_eq_iff_index_eq)
    then have "?P (Suc j) (r[is ! j := v ! j])"
      using P j assms(2) by (auto simp: less_Suc_eq take_Suc_conv_app_nth nth_list_update)
    ultimately show "\<exists>r'. ?f j r = Some r' \<and> ?P (Suc j) r'" by blast
  qed simp
  then obtain r where "for_up 0 (length is) ?f (replicate n 0) = Some r" "?P (length is) r" by auto
  moreover from this(2) have "map ((!) r) is = v"
    using assms(3) by (intro nth_equalityI) auto
  ultimately show ?thesis by auto
qed

definition tad_start :: "int list \<Rightarrow> int list \<Rightarrow> int \<Rightarrow> int list" where
  "tad_start sh dims k =
     (let m = axes_mask (length sh) dims in
      merge m (replicate (length dims) 0) (dec_c (pick (others m) sh) k))"

lemma length_pick_axes:
  assumes "valid_dims (int n) dims" "length xs = n"
  shows "length (pick (axes_mask n dims) xs) = length dims"
    and "length (pick (others (axes_mask n dims)) xs) = n - length dims"
  using valid_dims_card [OF assms(1)] valid_dims_card_compl [OF assms(1)]
    arg_cong [OF pick_axes(1) [of n xs dims], of length] arg_cong [OF pick_axes(2) [of n xs dims], of length]
    assms(2) by simp_all

lemma tad2Sub_exact:
  assumes v: "valid_dims (int (length sh)) (t_originalDimension tad)"
    and dl: "t_originalDimensionLength tad = int (length (t_originalDimension tad))"
    and pos: "pos_dims sh" "prod_list sh < 2 ^ 31"
    and b: "t_shapeInfo tad = mk_info sh st off ews ord"
    and k: "0 \<le> k" "k < prod_list (pick (others (axes_mask (length sh) (t_originalDimension tad))) sh)"
  shows "TAD_tad2Sub tad k = Some (tad_start sh (t_originalDimension tad) k)"
proof -
  let ?dims = "t_originalDimension tad" and ?n = "length sh"
  let ?m = "axes_mask ?n ?dims" and ?l = "filter (\<lambda>i. int i \<notin> set (t_originalDimension tad)) [0..<length sh]"
  let ?o = "pick (others ?m) sh"
  have o: "map ((!) sh) ?l = ?o" using pick_axes(2) [of ?n sh ?dims] by simp
  have lo: "length ?o = ?n - length ?dims" "length ?l = ?n - length ?dims"
    using length_pick_axes(2) [OF v, of sh] valid_dims_card_compl [OF v] by simp_all
  have ll: "int ?n - int (length ?dims) = int (length ?l)"
    using valid_dims_length [OF v] lo(2) by (simp add: of_nat_diff)
  have ax: "leftover_axes (shapeOf (t_shapeInfo tad)) ?dims (int (length ?dims)) (int ?n)
      (replicate (length ?l) None) (replicate (length ?l) None)
    = Some (int (length ?l), prod_list ?o, map Some (map int ?l), map Some ?o)"
    using leftover_axes_exact [OF v pos, of "st @ [off, ews, ord]"] by (simp add: b shapeOf_mk_info o del: map_map)
  let ?sub = "map Some (dec_c ?o k) @ drop (length ?l) (replicate ?n None)"
  have sub: "ind2subC_into (int (length ?l)) ?o k (prod_list ?o) (replicate ?n None) = Some ?sub"
    using ind2subC_into_exact [of ?o k "length ?l" "replicate ?n None" "[]"] pos(1) k lo
    by (simp add: pos_dims_pick)
  have d1: "distinct ?l" and d2: "\<forall>i \<in> set ?l. i < ?n" by auto
  have d3: "length (dec_c ?o k) = length ?l" using lo by (simp only: length_dec)
  have d4: "length ?l \<le> length ?sub" using d3 by simp
  have d5: "take (length ?l) ?sub = map Some (dec_c ?o k)" unfolding d3 [symmetric] by simp
  obtain r where r: "for_up 0 (length ?l) (\<lambda>i ret. do {
       k \<leftarrow> rd (map int ?l) (int i); v \<leftarrow> rd ?sub (int i); v \<leftarrow> v; wr ret k v }) (replicate ?n 0) = Some r"
    and P: "length r = ?n" "map ((!) r) ?l = dec_c ?o k" "\<forall>p < ?n. p \<notin> set ?l \<longrightarrow> r ! p = 0"
    using scatter_exact [of ?l ?n "dec_c ?o k" ?sub, OF d1 d2 d3 d4 d5] by blast
  have "pick (others ?m) r = dec_c ?o k"
    using pick_axes(2) [of ?n r ?dims] P(1,2) by simp
  moreover have "map ((!) r) (filter (\<lambda>i. int i \<in> set ?dims) [0..<?n]) = replicate (length ?dims) 0"
    using P(3) valid_dims_card [OF v] by (intro replicate_eqI) auto
  then have "pick ?m r = replicate (length ?dims) 0"
    using pick_axes(1) [of ?n r ?dims] P(1) by simp
  ultimately have "r = tad_start sh ?dims k"
    using merge_pick [of ?m r] P(1) by (simp add: tad_start_def Let_def)
  then show ?thesis
    using ax sub r ll dl unfolding TAD_tad2Sub_def
    by (simp add: b rank_mk_info Let_def del: rd_nat map_map)
qed

definition tad_base :: "int list \<Rightarrow> int list \<Rightarrow> int list \<Rightarrow> int \<Rightarrow> int" where
  "tad_base sh st dims k =
     (let u = others (axes_mask (length sh) dims) in
      dot (pick u sh) (pick u st) (dec_c (pick u sh) k))"

definition tad_inner :: "int list \<Rightarrow> int list \<Rightarrow> int list \<Rightarrow> int list \<Rightarrow> int" where
  "tad_inner sh st dims x =
     (let m = axes_mask (length sh) dims in dot (pick m sh) (pick m st) x)"

lemma in_box_zeros: "pos_dims sh \<Longrightarrow> in_box sh (replicate (length sh) 0)"
  by (induction sh) auto

lemma tad_start_props:
  assumes v: "valid_dims (int (length sh)) dims" and pos: "pos_dims sh"
    and k: "0 \<le> k" "k < prod_list (pick (others (axes_mask (length sh) dims)) sh)"
    and x: "in_box (pick (axes_mask (length sh) dims) sh) x"
  shows "in_box sh (merge (axes_mask (length sh) dims) x (dec_c (pick (others (axes_mask (length sh) dims)) sh) k))"
    and "length st = length sh \<Longrightarrow>
      dot sh st (merge (axes_mask (length sh) dims) x (dec_c (pick (others (axes_mask (length sh) dims)) sh) k))
        = tad_base sh st dims k + tad_inner sh st dims x"
proof -
  let ?m = "axes_mask (length sh) dims" and ?o = "pick (others (axes_mask (length sh) dims)) sh"
  have lx: "length x = count_list ?m True" using in_box_length [OF x] by (simp add: length_pick)
  have lo: "length (dec_c ?o k) = count_list (others ?m) True" by (simp add: length_pick)
  note pm = pick_merge [OF lx lo]
  have "in_box ?o (dec_c ?o k)" using enc_dec_c [of ?o k] k pos by (simp add: pos_dims_pick)
  then show "in_box sh (merge ?m x (dec_c ?o k))"
    using in_box_pick [of ?m sh "merge ?m x (dec_c ?o k)"] pm x by simp
  show "dot sh st (merge ?m x (dec_c ?o k)) = tad_base sh st dims k + tad_inner sh st dims x"
    if "length st = length sh"
    using dot_pick [of ?m sh "merge ?m x (dec_c ?o k)" st] pm that
    by (simp add: tad_base_def tad_inner_def Let_def)
qed

lemma dot_bounded:
  "in_box sh idx \<Longrightarrow> length st = length sh \<Longrightarrow> \<forall>i < length sh. 0 \<le> st ! i \<and> sh ! i * st ! i < B \<Longrightarrow>
   0 \<le> B \<Longrightarrow> 0 \<le> dot sh st idx \<and> dot sh st idx \<le> int (length sh) * B"
proof (induction sh idx arbitrary: st rule: in_box.induct)
  case (2 d sh x idx)
  then obtain t ts where st: "st = t # ts" by (cases st) auto
  have IH: "0 \<le> dot sh ts idx \<and> dot sh ts idx \<le> int (length sh) * B"
    using 2 st by (intro "2.IH") (auto dest: spec [where x = "Suc _"])
  have "0 \<le> t" "d * t < B" using 2(4) st by (auto dest: spec [where x = 0])
  moreover have "0 \<le> x" "x < d" using 2(2) by auto
  ultimately have "0 \<le> x * t" "x * t \<le> d * t" by (auto intro: mult_right_mono)
  with IH \<open>d * t < B\<close> 2(5) show ?case by (auto simp: st algebra_simps)
qed auto

lemma tadOffset_exact:
  assumes v: "valid_dims (int (length sh)) (t_originalDimension tad)"
    and dl: "t_originalDimensionLength tad = int (length (t_originalDimension tad))"
    and pos: "pos_dims sh" "prod_list sh < 2 ^ 31" and sb: "stride_bounds sh st" "length sh \<le> 32"
    and b: "t_shapeInfo tad = mk_info sh st off ews ord"
    and ready: "t_tadOnlyShapeInfo tad \<noteq> None" "\<not> t_wholeThing tad"
    and k: "0 \<le> k" "k < prod_list (pick (others (axes_mask (length sh) (t_originalDimension tad))) sh)"
  shows "TAD_tadOffset junk tad k = Some (tad_base sh st (t_originalDimension tad) k, tad)"
proof -
  let ?dims = "t_originalDimension tad" and ?m = "axes_mask (length sh) (t_originalDimension tad)"
  have len: "length st = length sh" and st0: "\<forall>t \<in> set st. 0 \<le> t"
    using sb(1) by (auto simp: stride_bounds_def in_set_conv_nth)
  have z: "in_box (pick ?m sh) (replicate (length ?dims) 0)"
    using in_box_zeros [OF pos_dims_pick [OF pos(1)], of ?m] length_pick_axes(1) [OF v, of sh] by simp
  note start = tad_start_props [OF v pos(1) k z]
  have box: "in_box sh (tad_start sh ?dims k)" using start(1) by (simp add: tad_start_def Let_def)
  have d: "dot sh st (tad_start sh ?dims k) = tad_base sh st ?dims k"
    using start(2) [OF len] by (simp add: tad_start_def Let_def tad_inner_def dot_zeros)
  have "0 \<le> dot sh st (tad_start sh ?dims k) \<and> dot sh st (tad_start sh ?dims k) \<le> int (length sh) * 2 ^ 31"
    using dot_bounded [OF box len, of "2 ^ 31"] sb(1) by (simp add: stride_bounds_def)
  then have "0 \<le> tad_base sh st ?dims k" "dot sh st (tad_start sh ?dims k) < 2 ^ 63"
    using sb(2) d by auto
  moreover from this have "getOffset 0 (sh @ st @ [off, ews, ord]) (st @ [off, ews, ord]) (tad_start sh ?dims k) (int (length sh))
      = Some (tad_base sh st ?dims k)"
    using getOffset_exact [OF box len st0, of 0 "st @ [off, ews, ord]" "[off, ews, ord]"] d by simp
  moreover have "TAD_tad2Sub tad k = Some (tad_start sh ?dims k)"
    by (rule tad2Sub_exact [OF v dl pos b k])
  ultimately show ?thesis
    using ready by (auto simp: TAD_tadOffset_def b stride_mk_info rank_mk_info shapeOf_mk_info)
qed

text \<open>
  The tensors partition the array: every coordinate belongs to exactly one tensor, at exactly one
  position inside it, and its offset is the offset of the tensor plus the offset inside.
\<close>

lemma tads_partition:
  assumes v: "valid_dims (int (length sh)) dims" and pos: "pos_dims sh" and len: "length st = length sh"
    and idx: "in_box sh idx"
  defines "m \<equiv> axes_mask (length sh) dims"
  shows "\<exists>!p. 0 \<le> fst p \<and> fst p < prod_list (pick (others m) sh) \<and> in_box (pick m sh) (snd p)
    \<and> idx = merge m (snd p) (dec_c (pick (others m) sh) (fst p))
    \<and> dot sh st idx = tad_base sh st dims (fst p) + tad_inner sh st dims (snd p)"
proof (rule ex1I)
  let ?o = "pick (others m) sh"
  let ?p = "(enc_c ?o (pick (others m) idx), pick m idx)"
  have lm: "length m = length sh" by (simp add: m_def)
  have li: "length idx = length sh" by (rule in_box_length [OF idx])
  have box: "in_box (pick m sh) (pick m idx)" "in_box ?o (pick (others m) idx)"
    using in_box_pick [OF lm li] idx by auto
  have k: "0 \<le> enc_c ?o (pick (others m) idx)" "enc_c ?o (pick (others m) idx) < prod_list ?o"
    "dec_c ?o (enc_c ?o (pick (others m) idx)) = pick (others m) idx"
    using enc_c_bounds [OF box(2)] dec_enc_c [OF box(2)] by auto
  have "idx = merge m (pick m idx) (pick (others m) idx)" using merge_pick [of m idx] lm li by simp
  with k box(1) show "0 \<le> fst ?p \<and> fst ?p < prod_list ?o \<and> in_box (pick m sh) (snd ?p)
    \<and> idx = merge m (snd ?p) (dec_c ?o (fst ?p))
    \<and> dot sh st idx = tad_base sh st dims (fst ?p) + tad_inner sh st dims (snd ?p)"
    using dot_pick [OF lm li len] by (simp add: tad_base_def tad_inner_def Let_def m_def)
next
  fix p
  let ?o = "pick (others m) sh"
  assume p: "0 \<le> fst p \<and> fst p < prod_list ?o \<and> in_box (pick m sh) (snd p)
    \<and> idx = merge m (snd p) (dec_c ?o (fst p))
    \<and> dot sh st idx = tad_base sh st dims (fst p) + tad_inner sh st dims (snd p)"
  have lm: "length m = length sh" by (simp add: m_def)
  have "length (snd p) = count_list m True" using p in_box_length lm by (metis length_pick)
  moreover have "length (dec_c ?o (fst p)) = count_list (others m) True" using lm by (simp add: length_pick)
  ultimately have "pick m idx = snd p" "pick (others m) idx = dec_c ?o (fst p)"
    using pick_merge p by metis+
  moreover have "enc_c ?o (dec_c ?o (fst p)) = fst p"
    using enc_dec_c [of ?o "fst p"] p pos by (simp add: pos_dims_pick)
  ultimately show "p = (enc_c ?o (pick (others m) idx), pick m idx)" by (simp add: prod_eq_iff)
qed

lemma createOffsets_exact:
  assumes v: "valid_dims (int (length sh)) (t_originalDimension tad)"
    and dl: "t_originalDimensionLength tad = int (length (t_originalDimension tad))"
    and pos: "pos_dims sh" "prod_list sh < 2 ^ 31" and sb: "stride_bounds sh st" "length sh \<le> 32"
    and b: "t_shapeInfo tad = mk_info sh st off ews ord"
    and ready: "t_tadOnlyShapeInfo tad \<noteq> None" "\<not> t_wholeThing tad"
    and n: "t_numTads tad = prod_list (pick (others (axes_mask (length sh) (t_originalDimension tad))) sh)"
  shows "TAD_createOffsets junk tad
    = Some (tad\<lparr>t_tadOffsets := Some (map (\<lambda>i. tad_base sh st (t_originalDimension tad) (int i)) [0..<nat (t_numTads tad)])\<rparr>)"
proof -
  let ?N = "nat (t_numTads tad)" and ?b = "\<lambda>i. tad_base sh st (t_originalDimension tad) (int i)"
  let ?P = "\<lambda>j p. p = (map Some (map ?b [0..<j]) @ replicate (?N - j) None, tad)"
  have N: "t_numTads tad = int ?N"
    using n pos_dims_prod [OF pos_dims_pick [OF pos(1)]] by (simp add: less_imp_le)
  have "\<exists>p. for_up 0 ?N (\<lambda>i (offs, tad). do {
       (off, tad) \<leftarrow> TAD_tadOffset junk tad (int i);
       offs \<leftarrow> wr offs (int i) (Some off);
       Some (offs, tad) }) (replicate ?N None, tad) = Some p \<and> ?P (0 + ?N) p"
  proof (rule for_up_total)
    fix j p assume j: "j < 0 + ?N" and P: "?P j p"
    have "TAD_tadOffset junk tad (int j) = Some (?b j, tad)"
      by (rule tadOffset_exact [OF v dl pos sb b ready]) (use j N n in auto)
    moreover have "replicate (?N - j) None = None # replicate (?N - Suc j) (None :: int option)"
      using j by (simp add: Suc_diff_Suc [symmetric])
    ultimately show "\<exists>p'. (\<lambda>(offs, tad). do {
       (off, tad) \<leftarrow> TAD_tadOffset junk tad (int j);
       offs \<leftarrow> wr offs (int j) (Some off);
       Some (offs, tad) }) p = Some p' \<and> ?P (Suc j) p'"
      using P by (simp add: list_update_append)
  qed simp
  moreover have "new_ints (t_numTads tad) = Some (replicate ?N None)"
    using new_ints_nat [of ?N] N by simp
  ultimately show ?thesis
    by (simp add: TAD_createOffsets_def finish_map_comp del: map_map)
qed

lemma TAD_init_exact:
  assumes "valid_dims (int (length sh)) dims" "pos_dims sh" "prod_list sh < 2 ^ 31" "length st = length sh"
    and "2 \<le> length sh" "\<not> vector_shape sh"
  defines "n \<equiv> prod_list (pick (others (axes_mask (length sh) dims)) sh)"
  shows "TAD_init tad (mk_info sh st off ews ord) dims (int (length dims))
    = Some (tad\<lparr>t_originalShapeInfo := mk_info sh st off ews ord, t_originalDimension := dims,
        t_originalDimensionLength := int (length dims), t_shapeInfo := mk_info sh st off ews ord,
        t_dimensionLength := int (length dims), t_dimension := dims, t_own_dimension := False,
        t_rank := int (length sh), t_numTads := n,
        t_wholeThing := (n = 1 \<or> ((length dims = length sh \<or> n = prod_list sh) \<and> ews = 1))\<rparr>)"
proof -
  let ?b = "mk_info sh st off ews ord"
  have "isVector_of ?b = Some 0"
    using isVector_exact [OF assms(5), of "st @ [off, ews, ord]"] assms(6)
    by (simp add: isVector_of_def rank_mk_info shapeOf_mk_info)
  moreover have "length_of ?b = Some (prod_list sh)"
    using length_of_mk_info [of sh st off ews ord] assms by simp
  ultimately show ?thesis
    using tensorsAlongDimension_exact(1) [OF assms(1-4), of off ews ord] assms(4)
    by (simp add: TAD_init_def rank_mk_info ews_mk_info n_def)
qed

subsection \<open>Dimension lists and reductions\<close>

lemma remdups_adj_sorted_distinct: "sorted xs \<Longrightarrow> distinct (remdups_adj (xs :: int list))"
proof (induction xs rule: remdups_adj.induct)
  case (3 x y xs)
  then show ?case by (cases "x = y") auto
qed auto

lemma sorted_dims:
  fixes xs :: "int list"
  shows "sorted (if length xs > 1 then remdups_adj (sort xs) else xs)"
    and "distinct (if length xs > 1 then remdups_adj (sort xs) else xs)"
proof -
  have "sorted xs \<and> distinct xs" if "\<not> length xs > 1" using that by (cases xs) auto
  then show "sorted (if length xs > 1 then remdups_adj (sort xs) else xs)"
    "distinct (if length xs > 1 then remdups_adj (sort xs) else xs)"
    by (simp_all add: sorted_remdups_adj remdups_adj_sorted_distinct)
qed

lemma sorted_hd_last:
  assumes "sorted xs" "xs \<noteq> []" "d \<in> set xs"
  shows "hd xs \<le> d \<and> d \<le> (last xs :: int)"
proof
  show "hd xs \<le> d" using assms by (cases xs) auto
  obtain ys z where "xs = ys @ [z]" using assms(2) by (cases xs rule: rev_cases) auto
  with assms show "d \<le> last xs" by (auto simp: sorted_append)
qed

text \<open>
  \<open>checkDimensions\<close> returns a sorted list of distinct axes of the array, the set of the given ones
  with the negative ones counted from the end, or throws; it throws exactly when such a list does
  not exist.
\<close>

lemma checkDimensions_Inr:
  assumes "checkDimensions rank dims = Inr ds"
  shows "valid_dims rank ds" "sorted ds" "set ds = (\<lambda>d. if d < 0 then d + rank else d) ` set dims" "ds \<noteq> []"
proof -
  let ?f = "\<lambda>d. if d < 0 then d + rank else d"
  let ?e = "if length dims > 1 then remdups_adj (sort (map ?f dims)) else map ?f dims"
  have ds: "ds = ?e" "dims \<noteq> []" "0 \<le> hd ?e" "last ?e \<le> rank - 1"
    using assms by (auto simp: checkDimensions_def Let_def split: if_splits)
  show s: "set ds = ?f ` set dims" unfolding ds(1) by simp
  show ne: "ds \<noteq> []" using ds(2) s by (metis image_is_empty set_empty)
  have "sorted ds \<and> distinct ds"
    unfolding ds(1) by (intro conjI sorted_dims [of "map ?f dims", unfolded length_map])
  then have sorted: "sorted ds" and dist: "distinct ds" by simp_all
  have "hd ds \<le> d \<and> d \<le> last ds" if "d \<in> set ds" for d
    using sorted ne that by (rule sorted_hd_last)
  moreover have "0 \<le> hd ds" "last ds \<le> rank - 1" using ds(3,4) unfolding ds(1) by simp_all
  ultimately show "valid_dims rank ds" using dist by (force simp: valid_dims_def)
  show "sorted ds" by (fact sorted)
qed

lemma checkDimensions_Inl:
  assumes "checkDimensions rank dims = Inl e"
  shows "dims = [] \<or> (\<exists>d \<in> set dims. d < - rank \<or> d \<ge> rank)"
proof (rule ccontr)
  let ?f = "\<lambda>d. if d < 0 then d + rank else d"
  let ?e = "if length dims > 1 then remdups_adj (sort (map ?f dims)) else map ?f dims"
  assume "\<not> ?thesis"
  then have ne: "dims \<noteq> []" and rng: "\<forall>d \<in> set dims. - rank \<le> d \<and> d < rank"
    by (simp, simp add: not_le not_less)
  define ds where "ds = ?e"
  have s: "set ds = ?f ` set dims" by (simp add: ds_def)
  then have sub: "set ds \<subseteq> {0..<rank}" using rng by auto
  have "set ds \<noteq> {}" unfolding s image_is_empty set_empty by (rule ne)
  then have e: "ds \<noteq> []" by simp
  have "distinct ds" unfolding ds_def by (rule sorted_dims(2) [of "map ?f dims", unfolded length_map])
  then have "length ds = card (set ds)" by (simp add: distinct_card)
  also have "\<dots> \<le> card {0..<rank}" using sub by (intro card_mono) auto
  finally have "\<not> int (length ds) > rank" using e sub by (cases ds) auto
  moreover have "hd ds \<in> set ds" "last ds \<in> set ds" using e by simp_all
  then have "\<not> (hd ds < 0 \<or> last ds > rank - 1)" using sub by fastforce
  ultimately show False
    using assms ne unfolding checkDimensions_def Let_def length_map ds_def [symmetric] by simp
qed

text \<open>
  \<open>computeResultShape\<close> passes \<open>shapeInfoLength(rank)\<close> as the length of the shape array, so
  \<open>removeIndex\<close> walks over strides, offset and order and one cell beyond the buffer.
\<close>

lemma computeResultShape_overreads:
  assumes v: "valid_dims (int (length sh)) dims" and "length st = length sh" and "dims \<noteq> [2147483647]"
  shows "computeResultShape (mk_info sh st off ews ord) dims (int (length dims)) = None"
proof -
  let ?b = "mk_info sh st off ews ord" and ?data = "sh @ st @ [off, ews, ord]"
  let ?n = "2 * length sh + 3" and ?lim = "2 * length sh + 4 - length dims" and ?sel = "\<lambda>i. int i \<notin> set dims"
  have ld: "length dims \<le> length sh" by (rule valid_dims_length [OF v])
  have v': "valid_dims (int (2 * length sh + 3)) dims" "valid_dims (int (2 * length sh + 4)) dims"
    using v by (auto simp: valid_dims_def)
  let ?f = "\<lambda>i (c, r). if \<not> c < int ?lim then Some (c, r)
        else do { contains \<leftarrow> map_option Not (Some (?sel i)); if \<not> contains
          then do { d \<leftarrow> rd ?data (int i); r \<leftarrow> wr r c (Some d); Some (c + 1, r) }
          else Some (c, r) }"
  let ?k = "length (filter ?sel [0..<?n])"
  have k: "?k = ?n - length dims" by (rule valid_dims_card_compl [OF v'(1)])
  have "for_up 0 ?n ?f (0, replicate ?lim None)
    = Some (int ?k, map Some (map ((!) ?data) (filter ?sel [0..<?n])) @ drop ?k (replicate ?lim None))"
    by (rule removeIndex_loop) (use assms(2) k in auto)
  moreover have "?sel ?n" using v ld by (auto simp: valid_dims_def)
  ultimately have "for_up 0 (Suc ?n) ?f (0, replicate ?lim None) = None"
    unfolding for_up_Suc_end using assms(2) k ld by (simp add: rd_def)
  moreover have nn: "nat (shapeInfoLength (int (length sh))) = Suc ?n"
    by (simp add: shapeInfoLength_def)
  have abs: "shapeInfoLength (int (length sh)) - int (length dims) = int ?lim"
    using ld by (simp add: shapeInfoLength_def of_nat_diff)
  have search: "map_option Not (Some (?sel i)) = idx_search dims (int i) 0 (length dims)" for i
    by simp
  ultimately have "removeIndex ?data dims (shapeInfoLength (int (length sh))) (int (length dims)) = None"
    unfolding removeIndex_def removeIndex_into_def abs nn search new_ints_nat nat_int by simp
  moreover have "rd dims 0 \<noteq> Some 2147483647" if "length dims = 1"
    using that assms(3) by (cases dims) auto
  ultimately show ?thesis
    using assms(2) by (cases "length dims = 1"; cases dims) (auto simp: computeResultShape_def rank_mk_info shapeOf_mk_info)
qed

end
