(* ===== verification/ShapeProperties.thy ===== *)
theory ShapeProperties
  imports ShapeTad
begin

text \<open>
  The properties of \<open>include/helpers/shape.h\<close>, each followed by a theorem that applies it to a
  concrete array.  The lemmas they rest on are in the theories of the single groups of functions.
\<close>

lemmas concrete = packable_def valid_dims_def stride_bounds_def is_perm_def All_less_Suc less_Suc_eq

subsection \<open>Construction of buffers\<close>

text \<open>
  \<open>shapeBuffer\<close> builds, for every shape with at least two axes and fewer than \<open>2 ^ 31\<close>
  elements, a buffer whose accessors give back the rank, the shape, the row-major strides, offset 0,
  element-wise stride 1 and order \<open>'c'\<close>; no step overflows or leaves the allocated cells.
\<close>

theorem shapeBuffer_accessors:
  assumes "packable sh"
  shows "\<exists>b. shapeBuffer (int (length sh)) sh = Some b
    \<and> rank_of b = Some (int (length sh)) \<and> take (length sh) (shapeOf b) = sh
    \<and> map_option (take (length sh)) (stride_of b)
        = Some (if vector_shape sh then [1, 1] else c_strides sh)
    \<and> offset_of b = Some 0 \<and> elementWiseStride_of b = Some 1 \<and> order_of b = Some 99
    \<and> length_of b = Some (prod_list sh)"
proof -
  let ?st = "if vector_shape sh then [1, 1] else c_strides sh"
  have len: "length ?st = length sh" by (simp add: vector_shape_def)
  have "shapeBuffer (int (length sh)) sh = Some (mk_info sh ?st 0 1 99)"
    using shapeBuffer_exact [OF assms, of "[]"] by simp
  moreover have "length_of (mk_info sh ?st 0 1 99) = Some (prod_list sh)"
    using assms by (intro length_of_mk_info) (auto simp: packable_def len)
  ultimately show ?thesis using len by (simp add: buf_simps)
qed

theorem shapeBuffer_accessors_witness:
  "\<exists>b. shapeBuffer 3 [2, 3, 4] = Some b \<and> length_of b = Some 24
    \<and> map_option (take 3) (stride_of b) = Some [12, 4, 1]"
  using shapeBuffer_accessors [of "[2, 3, 4]"] by (auto simp: concrete vector_shape_def numeral_3_eq_3)

text \<open>
  \<open>shapeBufferFortran\<close> builds the buffer of a column-major array: column-major strides, order
  \<open>'f'\<close>, and element-wise stride 1 exactly when at most one axis is longer than 1 and \<open>-1\<close>
  otherwise, since the helper that computes it is asked for the row-major traversal.
\<close>

theorem shapeBufferFortran_accessors:
  assumes "packable sh" "\<not> vector_shape sh"
  shows "\<exists>b. shapeBufferFortran (int (length sh)) sh = Some b
    \<and> rank_of b = Some (int (length sh)) \<and> take (length sh) (shapeOf b) = sh
    \<and> map_option (take (length sh)) (stride_of b) = Some (f_strides 1 sh)
    \<and> offset_of b = Some 0 \<and> order_of b = Some 102
    \<and> elementWiseStride_of b = Some (if length (filter (\<lambda>d. d \<noteq> 1) sh) \<le> 1 then 1 else -1)"
  using shapeBufferFortran_exact [OF assms, of "[]"] by (simp add: buf_simps)

theorem shapeBufferFortran_accessors_witness:
  "\<exists>b. shapeBufferFortran 3 [2, 3, 4] = Some b \<and> elementWiseStride_of b = Some (-1)
    \<and> map_option (take 3) (stride_of b) = Some [1, 2, 6]"
  using shapeBufferFortran_accessors [of "[2, 3, 4]"]
  by (auto simp: concrete vector_shape_def numeral_3_eq_3)

text \<open>
  \<open>infoFromBuffer\<close> and \<open>toShapeBuffer\<close> are inverse: the record read from a buffer is written
  back to an equal buffer.
\<close>

theorem shape_information_roundtrip:
  assumes "length st = length sh" "is_char ord"
  shows "Option.bind (infoFromBuffer (mk_info sh st off ews ord)) toShapeBuffer
    = Some (mk_info sh st off ews ord)"
  using assms toShapeBuffer_exact [of sh "length sh" st "st @ [off, ews, ord]" "[off, ews, ord]"]
  by (simp add: infoFromBuffer_exact)

theorem shape_information_roundtrip_witness:
  "Option.bind (infoFromBuffer [2, 3, 4, 4, 1, 0, 1, 99]) toShapeBuffer = Some [2, 3, 4, 4, 1, 0, 1, 99]"
  using shape_information_roundtrip [of "[4, 1]" "[3, 4]" 99 0 1] by (simp add: mk_info_def)

subsection \<open>Offsets and linear indexes\<close>

text \<open>
  C5.  The offsets computed by \<open>getOffset\<close> through the strides of \<open>calcStrides\<close> number the elements
  of the array without gaps and without collisions, and \<open>ind2subC\<close> is the inverse numbering.
\<close>

theorem row_major_numbering:
  assumes "packable sh"
  shows "bij_betw (\<lambda>idx. the (row_major_offset sh idx)) {idx. in_box sh idx} {0..<prod_list sh}
    \<and> (\<forall>idx. in_box sh idx \<longrightarrow>
      Option.bind (row_major_offset sh idx) (ind2subC (int (length sh)) sh) = Some idx)"
  by (intro conjI allI impI row.enc_bij [OF assms] row.dec_enc [OF assms])

theorem row_major_numbering_witness:
  "Option.bind (row_major_offset [2, 3, 4] [1, 0, 2]) (ind2subC 3 [2, 3, 4]) = Some [1, 0, 2]"
  using row_major_numbering [of "[2, 3, 4]"] by (simp add: concrete)

text \<open>
  The same for the column-major strides of \<open>calcStridesFortran\<close> and \<open>ind2sub\<close>.
\<close>

theorem column_major_numbering:
  assumes "packable sh"
  shows "bij_betw (\<lambda>idx. the (col_major_offset sh idx)) {idx. in_box sh idx} {0..<prod_list sh}
    \<and> (\<forall>idx. in_box sh idx \<longrightarrow>
      Option.bind (col_major_offset sh idx) (ind2sub (int (length sh)) sh) = Some idx)"
  by (intro conjI allI impI col.enc_bij [OF assms] col.dec_enc [OF assms])

theorem column_major_numbering_witness:
  "Option.bind (col_major_offset [2, 3, 4] [1, 0, 2]) (ind2sub 3 [2, 3, 4]) = Some [1, 0, 2]"
  using column_major_numbering [of "[2, 3, 4]"] by (simp add: concrete)

text \<open>
  \<open>sub2Ind\<close> and \<open>ind2sub\<close> are inverse in both directions.
\<close>

theorem sub2Ind_ind2sub_inverse:
  assumes "packable sh"
  shows "(\<forall>idx. in_box sh idx \<longrightarrow>
      Option.bind (sub2Ind (int (length sh)) sh idx) (ind2sub (int (length sh)) sh) = Some idx)
    \<and> (\<forall>k. 0 \<le> k \<and> k < prod_list sh \<longrightarrow>
      Option.bind (ind2sub (int (length sh)) sh k) (sub2Ind (int (length sh)) sh) = Some k)"
  using sub.dec_enc [OF assms] sub.enc_dec [OF assms] by blast

theorem sub2Ind_ind2sub_inverse_witness:
  "Option.bind (sub2Ind 2 [3, 4] [2, 1]) (ind2sub 2 [3, 4]) = Some [2, 1]
    \<and> Option.bind (ind2sub 2 [3, 4] 7) (sub2Ind 2 [3, 4]) = Some 7"
  using sub2Ind_ind2sub_inverse [of "[3, 4]"] by (simp add: concrete)

text \<open>
  \<open>getOffset\<close> answers a coordinate that reaches its dimension with \<open>-1\<close>, never with an offset
  of another element.
\<close>

theorem getOffset_rejects:
  assumes "length idx = length sh" "length st = length sh"
    and "\<forall>x \<in> set idx. 0 \<le> x" "\<forall>t \<in> set st. 0 \<le> t"
    and "0 \<le> base" "base + dot sh st idx < 2 ^ 63"
    and "j < length sh" "sh ! j \<noteq> 1" "sh ! j \<le> idx ! j"
  shows "getOffset base sh st idx (int (length sh)) = Some (-1)"
  using getOffset_loop_rejects [OF assms(1-4), of 0 "length sh" base "[]" "[]"] assms(5-9)
  by (auto simp: getOffset_def)

theorem getOffset_rejects_witness: "getOffset 0 [3, 4] [4, 1] [1, 4] 2 = Some (-1)"
  using getOffset_rejects [of "[1, 4]" "[3, 4]" "[4, 1]" 0 1] by simp

text \<open>
  \<open>computeIndices\<close> tabulates the offsets of all elements in column-major order.
\<close>

theorem computeIndices_table:
  assumes "packable sh" "length st = length sh" "\<forall>t \<in> set st. 0 \<le> t"
    and "\<And>k. 0 \<le> k \<Longrightarrow> k < prod_list sh \<Longrightarrow> dot sh st (dec_f sh k) < 2 ^ 63"
  shows "computeIndices_of (mk_info sh st off ews ord)
    = Some (map (\<lambda>k. dot sh st (dec_f sh (int k))) [0..<nat (prod_list sh)])"
  using computeIndices_exact [OF assms] by (simp add: computeIndices_of_def buf_simps)

theorem computeIndices_table_witness:
  "computeIndices_of [2, 2, 3, 3, 1, 0, 1, 99] = Some [0, 3, 1, 4, 2, 5]"
proof -
  have "dot [2, 3] [3, 1] (dec_f [2, 3] k) < 2 ^ 63" if "0 \<le> k" "k < 6" for k
  proof -
    have "k mod 2 < 2" "k div 2 mod 3 < 3" by simp_all
    then show ?thesis by simp
  qed
  then show ?thesis
    using computeIndices_table [of "[2, 3]" "[3, 1]" 0 1 99]
    by (simp add: concrete mk_info_def numeral_eq_Suc upt_rec)
qed

subsection \<open>The element-wise stride\<close>

lemma linear_strides:
  assumes "length ts = length ds" "pos_dims ds" "\<forall>d \<in> set ds. 2 \<le> d"
    and "\<And>k. 0 \<le> k \<Longrightarrow> k < prod_list ds \<Longrightarrow> dot ds ts (dec_c ds k) = k * s"
  shows "ts = map ((*) s) (c_strides ds)"
  using assms
proof (induction ts ds rule: list_induct2)
  case (Cons t ts d ds)
  let ?p = "prod_list ds"
  have p: "0 < ?p" "2 \<le> d" using Cons.prems by (simp_all add: pos_dims_prod)
  have "ts = map ((*) s) (c_strides ds)"
  proof (rule Cons.IH)
    fix k assume k: "0 \<le> k" "k < ?p"
    then have "k < 1 * ?p" by simp
    also have "\<dots> \<le> d * ?p" using p by (intro mult_right_mono) auto
    finally have "k < d * ?p" .
    then show "dot ds ts (dec_c ds k) = k * s"
      using Cons.prems(3) [of k] k p by (simp add: div_pos_pos_trivial)
  qed (use Cons.prems in auto)
  moreover have "1 * ?p < d * ?p" using p by (intro mult_strict_right_mono) auto
  then have "dot (d # ds) (t # ts) (dec_c (d # ds) ?p) = ?p * s"
    using Cons.prems(3) [of ?p] p by simp
  then have "t + dot ds ts (dec_c ds 0) = ?p * s" using p by (simp split: if_splits)
  moreover have "dot ds ts (dec_c ds 0) = 0"
    using dot_packed_group [of ds 0 s] Cons.prems(1) p calculation(1) by simp
  ultimately show ?case by (simp add: mult.commute)
qed simp

lemma ews_spec_linear:
  assumes "pos_dims sh" "stride_bounds sh st" "\<not> vector_shape sh" "sh \<noteq> []"
  shows "ews_spec sh st = -1 \<longleftrightarrow>
      \<not> (\<exists>s. \<forall>k. 0 \<le> k \<and> k < prod_list sh \<longrightarrow> dot sh st (dec_c sh k) = k * s)"
    and "ews_spec sh st \<noteq> -1 \<Longrightarrow>
      \<forall>k. 0 \<le> k \<and> k < prod_list sh \<longrightarrow> dot sh st (dec_c sh k) = k * ews_spec sh st"
proof -
  let ?ds = "map fst (sq sh st)" and ?ts = "map snd (sq sh st)"
  have len: "length st = length sh" using assms(2) by (simp add: stride_bounds_def)
  have tpos: "\<forall>t \<in> set st. 0 \<le> t" using assms(2) by (auto simp: stride_bounds_def in_set_conv_nth)
  have ds: "pos_dims ?ds" "\<forall>d \<in> set ?ds. 2 \<le> d" "prod_list ?ds = prod_list sh"
    using assms(1) len sq_ge_2 [OF assms(1)] by (simp_all only: sq_pos sq_prod) blast
  have dots: "dot ?ds ?ts (dec_c ?ds k) = dot sh st (dec_c sh k)" if "0 \<le> k" "k < prod_list sh" for k
    using sq_dot [OF len assms(1) that] .
  have pk: "?ts = map ((*) (last ?ts)) (c_strides ?ds)" if "packed_axes ?ds ?ts 0 (length ?ds - 1)" "?ds \<noteq> []"
  proof -
    have "take (Suc (length ?ds - 1)) (drop 0 ?ts)
        = map ((*) (?ts ! (0 + (length ?ds - 1)))) (c_strides (take (Suc (length ?ds - 1)) (drop 0 ?ds)))"
      by (rule packed_axes_c_strides) (use that in auto)
    moreover have "Suc (length ?ds - 1) = length ?ds" using that(2) by (cases ?ds) auto
    moreover have "?ts ! (length ?ds - 1) = last ?ts"
      using that(2) by (subst last_conv_nth) auto
    ultimately show ?thesis by (simp only: drop_0 add_0 length_map take_all order_refl)
  qed
  have conv: "packed_axes ?ds ?ts 0 (length ?ds - 1)"
    if "\<And>k. 0 \<le> k \<Longrightarrow> k < prod_list sh \<Longrightarrow> dot sh st (dec_c sh k) = k * s" for s
  proof -
    have "?ts = map ((*) s) (c_strides ?ds)"
      by (rule linear_strides) (use ds dots that in auto)
    then show ?thesis by (simp only:) (auto simp: packed_axes_def c_strides_nth prod_list_drop_Suc simp del: map_map)
  qed
  have one: "prod_list sh = 1" if "?ds = []" using ds(3) that by simp
  have last_nn: "0 \<le> last st" "?ds \<noteq> [] \<Longrightarrow> 0 \<le> last ?ts"
  proof -
    have "st \<noteq> []" using assms(4) len by auto
    then show "0 \<le> last st" using tpos by simp
    have "set ?ts \<subseteq> set st" by (auto simp: sq_def dest: set_zip_rightD)
    then show "0 \<le> last ?ts" if "?ds \<noteq> []" using that last_in_set [of ?ts] tpos by auto
  qed
  show lin: "\<forall>k. 0 \<le> k \<and> k < prod_list sh \<longrightarrow> dot sh st (dec_c sh k) = k * ews_spec sh st"
    if ne: "ews_spec sh st \<noteq> -1"
  proof (cases "?ds = []")
    case True
    have "dot sh st (dec_c sh 0) = 0" using dots [of 0] one [OF True] True by simp
    then show ?thesis using one [OF True] by (auto dest!: antisym [of 0])
  next
    case False
    then have e: "ews_spec sh st = last ?ts" "packed_axes ?ds ?ts 0 (length ?ds - 1)"
      using ne assms(3) by (auto simp: ews_spec_def Let_def split: if_splits)
    have "dot ?ds ?ts (dec_c ?ds k) = last ?ts * k" if "0 \<le> k" "k < prod_list sh" for k
      using dot_packed_group [OF ds(1) that(1), of "last ?ts"] that(2) pk [OF e(2) False] ds(3) by simp
    then show ?thesis using dots by (simp add: e(1) mult.commute)
  qed
  show "ews_spec sh st = -1 \<longleftrightarrow>
      \<not> (\<exists>s. \<forall>k. 0 \<le> k \<and> k < prod_list sh \<longrightarrow> dot sh st (dec_c sh k) = k * s)"
  proof
    assume m: "ews_spec sh st = -1"
    then have "\<not> packed_axes ?ds ?ts 0 (length ?ds - 1)"
      using assms(3) last_nn by (auto simp: ews_spec_def Let_def split: if_splits)
    then show "\<not> (\<exists>s. \<forall>k. 0 \<le> k \<and> k < prod_list sh \<longrightarrow> dot sh st (dec_c sh k) = k * s)"
      using conv by blast
  qed (use lin in blast)
qed

text \<open>In column-major order, the same on the reversed axes.\<close>

lemma enc_f_rev: "length idx = length sh \<Longrightarrow> enc_c (rev sh) (rev idx) = enc_f sh idx"
proof (induction sh idx rule: list_induct2')
  case (4 d ds x xs)
  have "enc_c (as @ [d]) (ys @ [x]) = enc_c as ys * d + x" if "length ys = length as" for as ys
    using that by (induction as ys rule: list_induct2') (simp_all add: prod_list_append_int algebra_simps)
  then show ?case using 4 by simp
qed simp_all

lemma dot_rev: "length st = length sh \<Longrightarrow> length idx = length sh \<Longrightarrow> dot (rev sh) (rev st) (rev idx) = dot sh st idx"
proof (induction sh arbitrary: st idx)
  case (Cons d ds)
  obtain t ts x xs where l: "st = t # ts" "idx = x # xs" using Cons.prems by (cases st; cases idx) auto
  have "dot (as @ [d]) (bs @ [t]) (ys @ [x]) = dot as bs ys + (if d = 1 then 0 else x * t)"
    if "length bs = length as" "length ys = length as" for as bs ys
    using that
  proof (induction as arbitrary: bs ys)
    case (Cons a as)
    then show ?case by (cases bs; cases ys) auto
  qed simp
  then show ?case using Cons l by simp
qed simp

lemma dec_f_rev:
  assumes "pos_dims sh" "0 \<le> k" "k < prod_list sh"
  shows "dec_c (rev sh) k = rev (dec_f sh k)"
proof -
  have box: "in_box sh (dec_f sh k)" "enc_f sh (dec_f sh k) = k" using enc_dec_f [OF assms] by auto
  have "in_box sh idx \<longleftrightarrow> list_all2 (\<lambda>d x. 0 \<le> x \<and> x < d) sh idx" for sh idx
    by (induction sh idx rule: in_box.induct) auto
  with box(1) have "in_box (rev sh) (rev (dec_f sh k))" by (simp add: list_all2_rev)
  then show ?thesis using dec_enc_c [of "rev sh" "rev (dec_f sh k)"] box by (simp add: enc_f_rev)
qed

lemma ews_spec_F_linear:
  assumes "pos_dims sh" "stride_bounds sh st" "\<not> vector_shape sh" "sh \<noteq> []"
  shows "ews_spec_F sh st = -1 \<longleftrightarrow>
      \<not> (\<exists>s. \<forall>k. 0 \<le> k \<and> k < prod_list sh \<longrightarrow> dot sh st (dec_f sh k) = k * s)"
    and "ews_spec_F sh st \<noteq> -1 \<Longrightarrow> \<exists>s. ews_spec_F sh st = s * prod_list sh
      \<and> (\<forall>k. 0 \<le> k \<and> k < prod_list sh \<longrightarrow> dot sh st (dec_f sh k) = k * s)"
proof -
  let ?ds = "map fst (sq sh st)" and ?ts = "map snd (sq sh st)"
  have len: "length st = length sh" using assms(2) by (simp add: stride_bounds_def)
  have r: "pos_dims (rev sh)" "stride_bounds (rev sh) (rev st)" "\<not> vector_shape (rev sh)" "rev sh \<noteq> []"
    using assms by (auto simp: pos_dims_def stride_bounds_def rev_nth vector_shape_def)
  have dots: "(0 \<le> k \<and> k < prod_list sh \<longrightarrow> dot (rev sh) (rev st) (dec_c (rev sh) k) = k * s)
      \<longleftrightarrow> (0 \<le> k \<and> k < prod_list sh \<longrightarrow> dot sh st (dec_f sh k) = k * s)" for k s
    using dec_f_rev [OF assms(1)] dot_rev [OF len] by auto
  note L = ews_spec_linear [OF r, unfolded prod_list_rev_int dots]
  have sq_r: "sq (rev sh) (rev st) = rev (sq sh st)" by (simp add: sq_def zip_rev len rev_filter)
  have nn: "0 \<le> last st" "?ds \<noteq> [] \<Longrightarrow> 0 \<le> hd ?ts" "0 \<le> last (rev st)"
  proof -
    have t: "\<forall>t \<in> set st. 0 \<le> t" using assms(2) by (auto simp: stride_bounds_def in_set_conv_nth)
    have "st \<noteq> []" using assms(4) len by auto
    then show "0 \<le> last st" "0 \<le> last (rev st)" using t by (simp_all add: last_rev)
    have "set ?ts \<subseteq> set st" by (auto simp: sq_def dest: set_zip_rightD)
    then show "0 \<le> hd ?ts" if "?ds \<noteq> []" using that hd_in_set [of ?ts] t by auto
  qed
  have N: "0 < prod_list sh" using assms(1) by (rule pos_dims_prod)
  consider (one) "?ds = []" | (packed) "?ds \<noteq> []" "packed_axes (rev ?ds) (rev ?ts) 0 (length ?ds - 1)"
    | (not_packed) "?ds \<noteq> []" "\<not> packed_axes (rev ?ds) (rev ?ts) 0 (length ?ds - 1)" by blast
  then have "(ews_spec_F sh st = -1 \<longleftrightarrow> ews_spec (rev sh) (rev st) = -1)
    \<and> (ews_spec_F sh st \<noteq> -1 \<longrightarrow> (\<exists>s. ews_spec_F sh st = s * prod_list sh
        \<and> (\<forall>k. 0 \<le> k \<and> k < prod_list sh \<longrightarrow> dot sh st (dec_f sh k) = k * s)))"
  proof cases
    case one
    have p: "prod_list sh = 1" using sq_prod [of st sh] one len by simp
    have e: "ews_spec_F sh st = last st" "ews_spec (rev sh) (rev st) = last (rev st)"
      using one assms(3) by (simp_all add: ews_spec_F_def ews_spec_def sq_r Let_def)
    have "dot sh st (dec_f sh 0) = 0" using L(2) e nn(3) p by auto
    then have "\<forall>k. 0 \<le> k \<and> k < prod_list sh \<longrightarrow> dot sh st (dec_f sh k) = k * last st"
      using p by (auto dest!: antisym [of 0])
    with e nn p show ?thesis by auto
  next
    case packed
    then have e: "ews_spec_F sh st = hd ?ts * prod_list sh" "ews_spec (rev sh) (rev st) = hd ?ts"
      using assms(3) r(3) by (simp_all add: ews_spec_F_def ews_spec_def sq_r Let_def rev_map [symmetric] last_rev hd_map)
    moreover have "0 \<le> hd ?ts * prod_list sh" using nn(2) [OF packed(1)] N by simp
    ultimately show ?thesis using L(2) nn(2) [OF packed(1)] by auto
  next
    case not_packed
    then have "ews_spec_F sh st = -1" "ews_spec (rev sh) (rev st) = -1"
      using assms(3) r(3) by (simp_all add: ews_spec_F_def ews_spec_def sq_r Let_def rev_map [symmetric])
    then show ?thesis by simp
  qed
  with L(1) show "ews_spec_F sh st = -1 \<longleftrightarrow>
      \<not> (\<exists>s. \<forall>k. 0 \<le> k \<and> k < prod_list sh \<longrightarrow> dot sh st (dec_f sh k) = k * s)"
    and "ews_spec_F sh st \<noteq> -1 \<Longrightarrow> \<exists>s. ews_spec_F sh st = s * prod_list sh
      \<and> (\<forall>k. 0 \<le> k \<and> k < prod_list sh \<longrightarrow> dot sh st (dec_f sh k) = k * s)"
    by auto
qed

text \<open>
  C4.  \<open>computeElementWiseStride\<close> on shapes that are not vectors, with non-negative strides.  Called
  for row-major order (\<open>isFOrder\<close> false, as every constructor of a buffer calls it) it is right: an
  answer \<open>e \<noteq> -1\<close> means that the element with row-major index \<open>k\<close> lies at offset \<open>k * e\<close>, and
  \<open>-1\<close> is answered exactly when no such stride exists.  Called for column-major order it recognises
  exactly the arrays with such a stride \<open>s\<close> over the column-major index, but answers \<open>s\<close> times the
  length of the array, which is not the stride.
\<close>

theorem elementWiseStride_correct:
  assumes "2 \<le> length sh" "pos_dims sh" "prod_list sh < 2 ^ 31" "stride_bounds sh st"
    and "\<not> vector_shape sh"
  shows "(\<exists>e. computeElementWiseStride (int (length sh)) sh st False = Some e
      \<and> (e = -1 \<longleftrightarrow> \<not> (\<exists>s. \<forall>k. 0 \<le> k \<and> k < prod_list sh \<longrightarrow> dot sh st (dec_c sh k) = k * s))
      \<and> (e \<noteq> -1 \<longrightarrow> (\<forall>k. 0 \<le> k \<and> k < prod_list sh \<longrightarrow> dot sh st (dec_c sh k) = k * e)))
    \<and> (\<exists>e. computeElementWiseStride (int (length sh)) sh st True = Some e
      \<and> (e = -1 \<longleftrightarrow> \<not> (\<exists>s. \<forall>k. 0 \<le> k \<and> k < prod_list sh \<longrightarrow> dot sh st (dec_f sh k) = k * s))
      \<and> (e \<noteq> -1 \<longrightarrow> (\<exists>s. e = s * prod_list sh
          \<and> (\<forall>k. 0 \<le> k \<and> k < prod_list sh \<longrightarrow> dot sh st (dec_f sh k) = k * s))))"
proof -
  have ne: "sh \<noteq> []" using assms(1) by auto
  have "computeElementWiseStride (int (length sh)) sh st isF = Some (if isF then ews_spec_F sh st else ews_spec sh st)" for isF
    using computeElementWiseStride_both [OF assms(1-4), of "[]" "[]"] by simp
  then show ?thesis
    using ews_spec_linear [OF assms(2,4,5) ne] ews_spec_F_linear [OF assms(2,4,5) ne]
    by (simp only: if_True if_False option.inject) blast
qed

theorem elementWiseStride_correct_witness:
  "\<exists>e. computeElementWiseStride (int (length [2, 3 :: int])) [2, 3] [6, 2] False = Some e
    \<and> (e \<noteq> -1 \<longrightarrow> dot [2, 3] [6, 2] (dec_c [2, 3] 5) = 5 * e)"
proof -
  have "2 \<le> length [2, 3 :: int]" "pos_dims [2, 3]" "prod_list [2, 3] < (2 ^ 31 :: int)"
    "stride_bounds [2, 3] [6, 2]" "\<not> vector_shape [2, 3]"
    by (simp_all add: concrete vector_shape_def)
  note t = elementWiseStride_correct [OF this]
  then obtain e
    where e: "computeElementWiseStride (int (length [2, 3 :: int])) [2, 3] [6, 2] False = Some e"
      "e \<noteq> -1 \<longrightarrow> (\<forall>k. 0 \<le> k \<and> k < prod_list [2, 3] \<longrightarrow> dot [2, 3] [6, 2] (dec_c [2, 3] k) = k * e)"
    by blast
  have "(0 :: int) \<le> 5 \<and> 5 < prod_list [2, 3 :: int]" by simp
  with e show ?thesis by blast
qed

subsection \<open>Reshaping and permuting\<close>

text \<open>
  C1.  \<open>reshapeCF\<close> in row-major order always returns.  When it succeeds the target holds a buffer
  of the new shape in which the element with linear index \<open>k\<close> lies at the offset it had before,
  so no element moves; when it declines the target is untouched.
\<close>

theorem reshapeCF_keeps_elements:
  assumes "pos_dims sh" "stride_bounds sh st" "prod_list sh < 2 ^ 31" "pos_dims ns" "prod_list ns < 2 ^ 31"
    and "2 * length ns + 4 \<le> length target"
  shows "\<exists>ok target'. reshapeCF (int (length sh)) (mk_info sh st off ews ord) (int (length ns)) ns False target
      = Some (ok, target')
    \<and> (if ok then \<exists>st'. target' = map Some (mk_info ns st' 0 (-1) 99) @ drop (2 * length ns + 4) target
           \<and> length st' = length ns \<and> same_layout ns st' sh st
       else target' = target)"
  by (rule reshapeCF_layout [OF assms])

theorem reshapeCF_keeps_elements_witness:
  "\<exists>ok target'. reshapeCF (int (length [2, 6 :: int])) (mk_info [2, 6] [6, 1] 0 1 99) (int (length [3, 2, 2 :: int]))
      [3, 2, 2] False (replicate 10 None) = Some (ok, target')"
proof -
  have "pos_dims [2, 6]" "stride_bounds [2, 6] [6, 1]" "prod_list [2, 6] < (2 ^ 31 :: int)" "pos_dims [3, 2, 2]"
    "prod_list [3, 2, 2] < (2 ^ 31 :: int)" "2 * length [3, 2, 2 :: int] + 4 \<le> length (replicate 10 (None :: int option))"
    by (simp_all add: concrete)
  from reshapeCF_keeps_elements [OF this, of 0 1 99] show ?thesis by blast
qed

text \<open>
  C3.  \<open>permuteShapeBuffer\<close> permutes the axes and moves no element: \<open>getOffset\<close> on the new buffer
  with permuted coordinates gives the offset of the old buffer.
\<close>

theorem permuteShapeBuffer_keeps_elements:
  assumes "is_perm (length sh) p" "1 \<le> length sh" "pos_dims sh" "prod_list sh < 2 ^ 31"
    and "length st = length sh" "\<forall>t \<in> set st. 0 \<le> t" "in_box sh idx" "dot sh st idx < 2 ^ 63"
  shows "\<exists>b. permuteShapeBuffer (mk_info sh st off ews ord) p = Some b
    \<and> take (length sh) (shapeOf b) = perm p sh
    \<and> Option.bind (stride_of b) (\<lambda>t. getOffset 0 (shapeOf b) t (perm p idx) (int (length sh)))
      = getOffset 0 sh st idx (int (length sh))"
proof -
  let ?b = "mk_info (perm p sh) (perm p st) off (-1) (order_spec (perm p sh) (perm p st))"
  have lp: "length p = length sh" using assms(1) by (simp add: is_perm_def)
  have "\<forall>t \<in> set (perm p st). 0 \<le> t"
    using assms(1,5,6) by (auto simp: perm_def is_perm_def nat_less_iff)
  then have "getOffset 0 (perm p sh @ r) (perm p st @ r') (perm p idx) (int (length (perm p sh)))
      = Some (0 + dot (perm p sh) (perm p st) (perm p idx))" for r r'
    using dot_perm [OF assms(1,5) in_box_length [OF assms(7)]] assms(8)
    by (intro getOffset_exact in_box_perm assms) (simp_all add: lp)
  then show ?thesis
    using permuteShapeBuffer_exact [OF assms(1-5)] dot_perm [OF assms(1,5) in_box_length [OF assms(7)]]
      getOffset_exact [OF assms(7,5,6), of 0 "[]" "[]"] assms(8)
    by (simp add: shapeOf_mk_info stride_mk_info lp)
qed

theorem permuteShapeBuffer_keeps_elements_witness:
  "\<exists>b. permuteShapeBuffer [3, 2, 3, 4, 12, 4, 1, 0, 1, 99] [2, 0, 1] = Some b
    \<and> Option.bind (stride_of b) (\<lambda>t. getOffset 0 (shapeOf b) t [3, 1, 2] 3)
      = getOffset 0 [2, 3, 4] [12, 4, 1] [1, 2, 3] 3"
  using permuteShapeBuffer_keeps_elements [of "[2, 3, 4]" "[2, 0, 1]" "[12, 4, 1]" "[1, 2, 3]" 0 1 99]
  by (auto simp: concrete mk_info_def perm_def)

text \<open>
  \<open>checkArrangeArray\<close> accepts exactly the permutations, on any input and without reading
  outside the list.
\<close>

theorem checkArrangeArray_decides:
  "checkArrangeArray p (int (length p)) (int (length p)) = Some (if is_perm (length p) p then 1 else -1)"
  by (rule checkArrangeArray_exact)

text \<open>
  \<open>getOrder\<close> recognises the layouts: \<open>'f'\<close> exactly for the column-major strides, \<open>'a'\<close> when
  they are at the same time the row-major ones, \<open>'c'\<close> for everything else.
\<close>

theorem getOrder_recognises:
  assumes "pos_dims sh" "prod_list sh < 2 ^ 31" "length st = length sh"
  shows "getOrder (int (length sh)) sh st 1
    = Some (if st = f_strides 1 sh then (if st = c_strides sh then 97 else 102) else 99)"
  using getOrder_exact [OF assms, of "[]" "[]"] by (simp add: order_spec_def)

theorem getOrder_recognises_witness: "getOrder 3 [2, 3, 4] [1, 2, 6] 1 = Some 102"
  using getOrder_recognises [of "[2, 3, 4]" "[1, 2, 6]"] by simp

subsection \<open>Selecting axes\<close>

text \<open>
  \<open>keep\<close> and \<open>removeIndex\<close> split an array along a list of distinct axes: each returns its
  part in the original order, every cell of both results is written, and together they are a
  permutation of the array.
\<close>

theorem keep_removeIndex_split:
  assumes "valid_dims (int (length data)) dims"
  shows "\<exists>kept rest. keep data dims (int (length dims)) (int (length data)) = Some (map Some kept)
    \<and> removeIndex data dims (int (length data)) (int (length dims)) = Some (map Some rest)
    \<and> length kept = length dims \<and> length rest = length data - length dims
    \<and> mset kept + mset rest = mset data"
proof -
  let ?n = "length data" and ?in = "\<lambda>i. int i \<in> set dims"
  have "mset (filter ?in [0..<?n]) + mset (filter (\<lambda>i. \<not> ?in i) [0..<?n]) = mset [0..<?n]"
    by (simp only: mset_filter multiset_partition [symmetric])
  then have "image_mset ((!) data) (mset (filter ?in [0..<?n]) + mset (filter (\<lambda>i. \<not> ?in i) [0..<?n]))
      = mset (map ((!) data) [0..<?n])" by (simp only: mset_map)
  then have "mset (map ((!) data) (filter ?in [0..<?n])) + mset (map ((!) data) (filter (\<lambda>i. \<not> ?in i) [0..<?n]))
      = mset data" by (simp only: mset_map image_mset_union map_nth)
  then show ?thesis
    using keep_valid [OF assms order_refl] removeIndex_exact [OF assms order_refl]
      valid_dims_card [OF assms] valid_dims_card_compl [OF assms]
    by (intro exI conjI) (assumption | simp only: length_map)+
qed

theorem keep_removeIndex_split_witness:
  "\<exists>kept rest. keep [5, 6, 7] [2, 0] (int (length [2, 0 :: int])) (int (length [5, 6, 7 :: int])) = Some (map Some kept)
    \<and> removeIndex [5, 6, 7] [2, 0] (int (length [5, 6, 7 :: int])) (int (length [2, 0 :: int])) = Some (map Some rest)
    \<and> mset kept + mset rest = mset [5, 6, 7]"
proof -
  have "valid_dims (int (length [5, 6, 7 :: int])) [2, 0]" by (simp add: concrete)
  from keep_removeIndex_split [OF this] show ?thesis by blast
qed

text \<open>
  \<open>checkDimensions\<close> either returns the sorted list of distinct axes that its argument denotes
  (negative axes count from the end), or throws; it throws only on the empty list and when an axis
  is outside the array.
\<close>

theorem checkDimensions_normalises:
  "case checkDimensions rank dims of
     Inr ds \<Rightarrow> ds \<noteq> [] \<and> sorted ds \<and> valid_dims rank ds
       \<and> set ds = (\<lambda>d. if d < 0 then d + rank else d) ` set dims
   | Inl _ \<Rightarrow> \<not> (dims \<noteq> [] \<and> set dims \<subseteq> {- rank..<rank})"
proof (cases "checkDimensions rank dims")
  case (Inl e)
  then show ?thesis using checkDimensions_Inl [OF Inl] by auto
next
  case (Inr ds)
  then show ?thesis using checkDimensions_Inr [OF Inr] by simp
qed

text \<open>
  \<open>computeResultShape\<close> reads beyond the shape information buffer on every array and every valid
  list of axes (the scalar marker \<open>MAX_DIMENSION\<close> apart): it passes the length of the whole
  buffer as the length of the shape.
\<close>

theorem computeResultShape_out_of_bounds:
  assumes "valid_dims (int (length sh)) dims" "length st = length sh" "dims \<noteq> [2147483647]"
  shows "computeResultShape (mk_info sh st off ews ord) dims (int (length dims)) = None"
  by (rule computeResultShape_overreads [OF assms])

theorem computeResultShape_out_of_bounds_witness:
  "computeResultShape [2, 3, 4, 4, 1, 0, 1, 99] [1] 1 = None"
  using computeResultShape_out_of_bounds [of "[3, 4]" "[1]" "[4, 1]" 0 1 99] by (simp add: concrete mk_info_def)

subsection \<open>Tensors along dimensions\<close>

text \<open>
  The length of one tensor along the dimensions times the number of tensors is the number of
  elements of the array, and both counts are computed without overflow.
\<close>

theorem tad_counts:
  assumes "valid_dims (int (length sh)) dims" "pos_dims sh" "prod_list sh < 2 ^ 31" "length st = length sh"
  shows "\<exists>l n. tadLength (mk_info sh st off ews ord) dims (int (length dims)) = Some l
    \<and> tensorsAlongDimension (mk_info sh st off ews ord) dims (int (length dims)) = Some n
    \<and> l * n = prod_list sh \<and> 0 < l \<and> 0 < n"
proof -
  let ?m = "axes_mask (length sh) dims"
  have "prod_list sh = prod_list (pick ?m sh) * prod_list (pick (others ?m) sh)" by (rule prod_pick) simp
  then show ?thesis
    using tadLength_exact [OF assms(1-3) shapeOf_mk_info rank_mk_info, of st off ews ord]
      tensorsAlongDimension_exact(2) [OF assms, of off ews ord] assms(2)
    by (simp add: pos_dims_prod pos_dims_pick)
qed

theorem tad_counts_witness:
  "\<exists>l n. tadLength (mk_info [2, 3, 4] [12, 4, 1] 0 1 99) [0, 2] (int (length [0, 2 :: int])) = Some l
    \<and> tensorsAlongDimension (mk_info [2, 3, 4] [12, 4, 1] 0 1 99) [0, 2] (int (length [0, 2 :: int])) = Some n
    \<and> l * n = prod_list [2, 3, 4]"
proof -
  have "valid_dims (int (length [2, 3, 4 :: int])) [0, 2]" "pos_dims [2, 3, 4]"
    "prod_list [2, 3, 4] < (2 ^ 31 :: int)" "length [12, 4, 1 :: int] = length [2, 3, 4 :: int]"
    by (simp_all add: concrete)
  from tad_counts [OF this, of 0 1 99] show ?thesis by blast
qed

text \<open>
  C2.  The offset table of a \<open>TAD\<close> partitions the array: after \<open>init\<close>, \<open>createOffsets\<close> stores one
  offset per tensor, and every element of the array belongs to exactly one tensor \<open>k\<close> and one
  position \<open>x\<close> inside it; its offset is entry \<open>k\<close> of the table plus the offset of \<open>x\<close> along the
  strides of the chosen dimensions.
\<close>

theorem TAD_offsets_partition:
  assumes "valid_dims (int (length sh)) dims" "pos_dims sh" "prod_list sh < 2 ^ 31"
    and "stride_bounds sh st" "length sh \<le> 32" "2 \<le> length sh" "\<not> vector_shape sh" "in_box sh idx"
    and "TAD_init t (mk_info sh st off ews ord) dims (int (length dims)) = Some tad" "\<not> t_wholeThing tad"
  shows "\<exists>offs. TAD_createOffsets junk (tad\<lparr>t_tadOnlyShapeInfo := Some b\<rparr>)
        = Some (tad\<lparr>t_tadOnlyShapeInfo := Some b, t_tadOffsets := Some offs\<rparr>)
    \<and> int (length offs) = t_numTads tad
    \<and> (\<exists>!p. fst p < length offs \<and> in_box (pick (axes_mask (length sh) dims) sh) (snd p)
         \<and> idx = merge (axes_mask (length sh) dims) (snd p)
             (dec_c (pick (others (axes_mask (length sh) dims)) sh) (int (fst p)))
         \<and> dot sh st idx = offs ! fst p + tad_inner sh st dims (snd p))"
proof -
  let ?n = "prod_list (pick (others (axes_mask (length sh) dims)) sh)"
  have len: "length st = length sh" using assms(4) by (simp add: stride_bounds_def)
  have tad: "t_originalDimension tad = dims" "t_originalDimensionLength tad = int (length dims)"
    "t_shapeInfo tad = mk_info sh st off ews ord" "t_numTads tad = ?n"
    using assms(9) unfolding TAD_init_exact [OF assms(1-3) len assms(6,7)] by auto
  let ?offs = "map (\<lambda>i. tad_base sh st dims (int i)) [0..<nat ?n]"
  have n: "0 < ?n" using assms(2) by (simp add: pos_dims_prod pos_dims_pick)
  have offs: "TAD_createOffsets junk (tad\<lparr>t_tadOnlyShapeInfo := Some b\<rparr>)
      = Some (tad\<lparr>t_tadOnlyShapeInfo := Some b, t_tadOffsets := Some ?offs\<rparr>)"
    using createOffsets_exact [of sh "tad\<lparr>t_tadOnlyShapeInfo := Some b\<rparr>" st off ews ord junk] assms tad
    by simp
  let ?m = "axes_mask (length sh) dims"
  obtain p where p: "0 \<le> fst p" "fst p < ?n" "in_box (pick ?m sh) (snd p)"
      "idx = merge ?m (snd p) (dec_c (pick (others ?m) sh) (fst p))"
      "dot sh st idx = tad_base sh st dims (fst p) + tad_inner sh st dims (snd p)"
    and uniq: "\<And>q. 0 \<le> fst q \<and> fst q < ?n \<and> in_box (pick ?m sh) (snd q)
      \<and> idx = merge ?m (snd q) (dec_c (pick (others ?m) sh) (fst q))
      \<and> dot sh st idx = tad_base sh st dims (fst q) + tad_inner sh st dims (snd q) \<Longrightarrow> q = p"
    using tads_partition [OF assms(1,2) len assms(8)] by (elim ex1E) blast
  have "\<exists>!q. fst q < length ?offs \<and> in_box (pick ?m sh) (snd q)
      \<and> idx = merge ?m (snd q) (dec_c (pick (others ?m) sh) (int (fst q)))
      \<and> dot sh st idx = ?offs ! fst q + tad_inner sh st dims (snd q)"
  proof (rule ex1I [of _ "(nat (fst p), snd p)"])
    fix q assume q: "fst q < length ?offs \<and> in_box (pick ?m sh) (snd q)
      \<and> idx = merge ?m (snd q) (dec_c (pick (others ?m) sh) (int (fst q)))
      \<and> dot sh st idx = ?offs ! fst q + tad_inner sh st dims (snd q)"
    then have i: "fst q < nat ?n" by simp
    then have i': "0 \<le> int (fst q)" "int (fst q) < ?n" by simp_all
    have e: "?offs ! fst q = tad_base sh st dims (int (fst q))" using i by simp
    have "(int (fst q), snd q) = p"
      by (rule uniq) (unfold fst_conv snd_conv e [symmetric], use q i' in blast)
    then have "p = (int (fst q), snd q)" by simp
    then show "q = (nat (fst p), snd p)" by simp
  next
    have "fst p = int (nat (fst p))" using p(1) by simp
    then show "fst (nat (fst p), snd p) < length ?offs \<and> in_box (pick ?m sh) (snd (nat (fst p), snd p))
      \<and> idx = merge ?m (snd (nat (fst p), snd p)) (dec_c (pick (others ?m) sh) (int (fst (nat (fst p), snd p))))
      \<and> dot sh st idx = ?offs ! fst (nat (fst p), snd p) + tad_inner sh st dims (snd (nat (fst p), snd p))"
      using p by simp
  qed
  then show ?thesis
    using offs n tad(4) by (intro exI [of _ ?offs]) simp
qed

definition example_tad :: TAD where
  "example_tad = the (TAD_init TAD_empty (mk_info [2, 3, 4] [12, 4, 1] 0 1 99) [1] 1)"

theorem TAD_offsets_partition_witness:
  "\<exists>offs. TAD_createOffsets (\<lambda>_. 0) (example_tad\<lparr>t_tadOnlyShapeInfo := Some []\<rparr>)
      = Some (example_tad\<lparr>t_tadOnlyShapeInfo := Some [], t_tadOffsets := Some offs\<rparr>)
    \<and> int (length offs) = t_numTads example_tad \<and> t_numTads example_tad = 8"
proof -
  have h: "valid_dims (int (length [2, 3, 4 :: int])) [1]" "pos_dims [2, 3, 4]"
    "prod_list [2, 3, 4] < (2 ^ 31 :: int)" "stride_bounds [2, 3, 4] [12, 4, 1]" "length [2, 3, 4 :: int] \<le> 32"
    "2 \<le> length [2, 3, 4 :: int]" "\<not> vector_shape [2, 3, 4]" "in_box [2, 3, 4] [1, 2, 3]"
    by (simp_all add: concrete vector_shape_def)
  have len: "length [12, 4, 1 :: int] = length [2, 3, 4 :: int]" by simp
  note init = TAD_init_exact [OF h(1-3) len h(6,7), of TAD_empty 0 1 99]
  have n: "prod_list (pick (others (axes_mask (length [2, 3, 4 :: int]) [1])) [2, 3, 4 :: int]) = 8"
    by (simp add: axes_mask_def upt_rec)
  have t: "TAD_init TAD_empty (mk_info [2, 3, 4] [12, 4, 1] 0 1 99) [1] (int (length [1 :: int])) = Some example_tad"
    unfolding example_tad_def using init by simp
  note e = t [unfolded init n option.inject]
  have "\<not> t_wholeThing example_tad \<and> t_numTads example_tad = 8"
    using arg_cong [OF e, of t_wholeThing] arg_cong [OF e, of t_numTads] by simp
  with TAD_offsets_partition [OF h t, of "\<lambda>_. 0" "[]"] show ?thesis by blast
qed

end
