(* ===== verification/GraphVariables.thy ===== *)
theory GraphVariables
  imports CPrelude "HOL-Library.List_Lexorder" "HOL-Library.Char_ord"
begin

text \<open>
  The data that a graph works on: \<open>include/graph/Variable.h\<close> and \<open>VariableSpace.h\<close>.
  Variables and arrays live in a memory and are named by their address, since a
  variable space, its clones and the nodes of a graph share them through pointers; \<open>nullptr\<close> is
  \<^term>\<open>None\<close>.  The contents of an array (\<open>NDArray<T>\<close>) are the type parameter \<open>'a\<close>.  A step that
  would throw, dereference an address that holds nothing, delete twice, or wait for a mutex that
  is never released, has no result.
\<close>

subsection \<open>Memory\<close>

record variable =
  v_id :: int
  v_ndarray :: "nat option"
  v_name :: string
  v_external :: bool
  v_readOnly :: bool
  v_placeholder :: bool
  v_removable :: bool

record 'a mem =
  m_vars :: "nat \<Rightarrow> variable option"
  m_arrs :: "nat \<Rightarrow> 'a option"
  m_next :: nat

definition mem_empty :: "'a mem" where
  "mem_empty = \<lparr>m_vars = (\<lambda>_. None), m_arrs = (\<lambda>_. None), m_next = 0\<rparr>"

definition alloc_var :: "variable \<Rightarrow> 'a mem \<Rightarrow> nat \<times> 'a mem" where
  "alloc_var v m = (m_next m, m\<lparr>m_vars := (m_vars m)(m_next m \<mapsto> v), m_next := m_next m + 1\<rparr>)"

definition alloc_arr :: "'a \<Rightarrow> 'a mem \<Rightarrow> nat \<times> 'a mem" where
  "alloc_arr a m = (m_next m, m\<lparr>m_arrs := (m_arrs m)(m_next m \<mapsto> a), m_next := m_next m + 1\<rparr>)"

definition upd_var :: "nat \<Rightarrow> (variable \<Rightarrow> variable) \<Rightarrow> 'a mem \<Rightarrow> 'a mem option" where
  "upd_var p f m = do { v \<leftarrow> m_vars m p; Some (m\<lparr>m_vars := (m_vars m)(p \<mapsto> f v)\<rparr>) }"

subsection \<open>\<open>Variable\<close>\<close>

text \<open>
  The constructor for placeholders leaves \<open>_id\<close>, \<open>_external\<close> and \<open>_readOnly\<close> unset; the parameter
  \<open>u\<close> is what the fresh object holds there.
\<close>

definition Variable_placeholder :: "variable \<Rightarrow> bool \<Rightarrow> variable" where
  "Variable_placeholder u placeholder =
     u\<lparr>v_ndarray := None, v_name := '''', v_placeholder := placeholder, v_removable := True\<rparr>"

definition Variable_new :: "nat option \<Rightarrow> string \<Rightarrow> variable" where
  "Variable_new array name = \<lparr>v_id = 0, v_ndarray = array, v_name = name, v_external = False,
     v_readOnly = False, v_placeholder = False, v_removable = True\<rparr>"

definition Variable_clone :: "nat \<Rightarrow> 'a mem \<Rightarrow> (nat \<times> 'a mem) option" where
  "Variable_clone p m = do {
     v \<leftarrow> m_vars m p;
     let r = Variable_placeholder v (v_placeholder v);
     let r = r\<lparr>v_external := v_external v, v_id := v_id v, v_readOnly := v_readOnly v, v_name := v_name v\<rparr>;
     (case v_ndarray v of
        None \<Rightarrow> Some (alloc_var r m)
      | Some a \<Rightarrow> do {
          x \<leftarrow> m_arrs m a;
          let (a', m) = alloc_arr x m;
          Some (alloc_var (r\<lparr>v_ndarray := Some a'\<rparr>) m) }) }"

definition Variable_setNDArray :: "nat \<Rightarrow> nat option \<Rightarrow> 'a mem \<Rightarrow> 'a mem option" where
  "Variable_setNDArray p array = upd_var p (v_ndarray_update (\<lambda>_. array))"

definition Variable_setId :: "nat \<Rightarrow> int \<Rightarrow> 'a mem \<Rightarrow> 'a mem option" where
  "Variable_setId p i = upd_var p (v_id_update (\<lambda>_. i))"

definition Variable_setName :: "nat \<Rightarrow> string \<Rightarrow> 'a mem \<Rightarrow> 'a mem option" where
  "Variable_setName p s = upd_var p (v_name_update (\<lambda>_. s))"

definition Variable_markExternal :: "nat \<Rightarrow> bool \<Rightarrow> 'a mem \<Rightarrow> 'a mem option" where
  "Variable_markExternal p b = upd_var p (v_external_update (\<lambda>_. b))"

definition Variable_markReadOnly :: "nat \<Rightarrow> bool \<Rightarrow> 'a mem \<Rightarrow> 'a mem option" where
  "Variable_markReadOnly p b = upd_var p (v_readOnly_update (\<lambda>_. b))"

definition Variable_markRemovable :: "nat \<Rightarrow> bool \<Rightarrow> 'a mem \<Rightarrow> 'a mem option" where
  "Variable_markRemovable p b = upd_var p (v_removable_update (\<lambda>_. b))"

text \<open>The destructor deletes the array of a removable variable; deleting a freed object is undefined.\<close>

definition Variable_delete :: "nat \<Rightarrow> 'a mem \<Rightarrow> 'a mem option" where
  "Variable_delete p m = do {
     v \<leftarrow> m_vars m p;
     let m' = m\<lparr>m_vars := (m_vars m)(p := None)\<rparr>;
     (case v_ndarray v of
        None \<Rightarrow> Some m'
      | Some a \<Rightarrow> if v_removable v
          then do { x \<leftarrow> m_arrs m a; Some (m'\<lparr>m_arrs := (m_arrs m)(a := None)\<rparr>) }
          else Some m') }"

subsection \<open>\<open>VariableSpace\<close>\<close>

text \<open>
  \<open>vs_locked\<close> is the mutex \<open>_varmap\<close>.  Locking it while it is held blocks the thread for ever
  (the code never unlocks it from another place).
\<close>

record vspace =
  vs_paired :: "int \<times> int \<Rightarrow> nat option"
  vs_symbolic :: "string \<Rightarrow> nat option"
  vs_variables :: "int \<Rightarrow> nat option"
  vs_temporary :: "int \<Rightarrow> nat option"
  vs_external :: "nat list"
  vs_internal :: "nat list"
  vs_placeholders :: "nat list"
  vs_auto_counter :: int
  vs_handles :: "nat list"
  vs_locked :: bool

definition VariableSpace_new :: vspace where
  "VariableSpace_new = \<lparr>vs_paired = (\<lambda>_. None), vs_symbolic = (\<lambda>_. None), vs_variables = (\<lambda>_. None),
     vs_temporary = (\<lambda>_. None), vs_external = [], vs_internal = [], vs_placeholders = [],
     vs_auto_counter = -1, vs_handles = [], vs_locked = False\<rparr>"

definition lock :: "vspace \<Rightarrow> vspace option" where
  "lock vs = (if vs_locked vs then None else Some (vs\<lparr>vs_locked := True\<rparr>))"

definition unlock :: "vspace \<Rightarrow> vspace" where
  "unlock vs = vs\<lparr>vs_locked := False\<rparr>"

definition hasVariable :: "vspace \<Rightarrow> int \<Rightarrow> bool" where
  "hasVariable vs i \<longleftrightarrow> vs_variables vs i \<noteq> None \<or> vs_temporary vs i \<noteq> None"

definition hasVariable_pair :: "vspace \<Rightarrow> int \<times> int \<Rightarrow> bool" where
  "hasVariable_pair vs p \<longleftrightarrow> vs_paired vs p \<noteq> None"

definition hasVariable_symbol :: "vspace \<Rightarrow> string \<Rightarrow> bool" where
  "hasVariable_symbol vs s \<longleftrightarrow> vs_symbolic vs s \<noteq> None"

text \<open>
  \<open>getVariable(int)\<close> locks the mutex and then calls \<open>at\<close>: when the variable is missing, the
  exception leaves the mutex locked.  The first component is the result, \<^term>\<open>None\<close> for the
  exception.
\<close>

definition getVariable :: "int \<Rightarrow> vspace \<Rightarrow> (nat option \<times> vspace) option" where
  "getVariable i vs = do {
     vs \<leftarrow> lock vs;
     Some (case (if i < 0 then vs_variables vs i else vs_temporary vs i) of
             Some v \<Rightarrow> (Some v, unlock vs)
           | None \<Rightarrow> (None, vs)) }"

text \<open>
  \<open>getVariable(pair)\<close> falls back on the variable of the node for output 0, and yields \<open>nullptr\<close>
  (the inner \<^term>\<open>None\<close>) when nothing is found.
\<close>

definition getVariable_pair :: "int \<times> int \<Rightarrow> vspace \<Rightarrow> (nat option option \<times> vspace) option" where
  "getVariable_pair p vs =
     (case vs_paired vs p of
        Some v \<Rightarrow> Some (Some (Some v), vs)
      | None \<Rightarrow>
          if hasVariable vs (fst p) \<and> snd p = 0
          then do { (r, vs) \<leftarrow> getVariable (fst p) vs; Some (map_option Some r, vs) }
          else Some (Some None, vs))"

definition getVariable_symbol :: "string \<Rightarrow> vspace \<Rightarrow> nat option" where
  "getVariable_symbol s vs = vs_symbolic vs s"

definition silentPutVariable :: "int \<times> int \<Rightarrow> nat \<Rightarrow> vspace \<Rightarrow> vspace option" where
  "silentPutVariable p v vs = do {
     vs \<leftarrow> lock vs;
     Some (unlock (vs\<lparr>vs_paired := (vs_paired vs)(p \<mapsto> v)\<rparr>)) }"

definition put_name :: "string \<Rightarrow> nat \<Rightarrow> vspace \<Rightarrow> vspace" where
  "put_name s v vs = vs\<lparr>vs_symbolic := (if s \<noteq> '''' then (vs_symbolic vs)(s \<mapsto> v) else vs_symbolic vs)\<rparr>"

definition add_placeholder :: "variable \<Rightarrow> nat \<Rightarrow> vspace \<Rightarrow> vspace" where
  "add_placeholder nv v vs =
     vs\<lparr>vs_placeholders := vs_placeholders vs @ (if v_placeholder nv then [v] else [])\<rparr>"

text \<open>The part of \<open>putVariable(int, Variable)\<close> that runs under the lock.\<close>

definition enter_variable :: "int \<Rightarrow> nat \<Rightarrow> variable \<Rightarrow> vspace \<Rightarrow> vspace" where
  "enter_variable i v nv vs = put_name (v_name nv) v (vs\<lparr>
     vs_handles := vs_handles vs @ [v],
     vs_auto_counter := (if vs_auto_counter vs \<ge> i then i - 1 else vs_auto_counter vs),
     vs_external := vs_external vs @ (if i < 0 then [v] else []),
     vs_variables := (if i < 0 then (vs_variables vs)(i \<mapsto> v) else vs_variables vs),
     vs_internal := vs_internal vs @ (if i < 0 then [] else [v]),
     vs_temporary := (if i < 0 then vs_temporary vs else (vs_temporary vs)(i \<mapsto> v))\<rparr>)"

definition putVariable :: "int \<Rightarrow> nat \<Rightarrow> 'a mem \<Rightarrow> vspace \<Rightarrow> ('a mem \<times> vspace) option" where
  "putVariable i v m vs =
     (if hasVariable vs i then do {
        old \<leftarrow> (if i < 0 then vs_variables vs i else vs_temporary vs i);
        ov \<leftarrow> m_vars m old;
        nv \<leftarrow> m_vars m v;
        if v_ndarray ov = None \<and> v_ndarray nv \<noteq> None
        then do { m \<leftarrow> Variable_setNDArray old (v_ndarray nv) m; Some (m, vs) }
        else Some (m, vs) }
      else do {
        vs \<leftarrow> lock vs;
        m \<leftarrow> Variable_setId v i m;
        nv \<leftarrow> m_vars m v;
        let vs = unlock (enter_variable i v nv vs);
        if \<not> hasVariable_pair vs (i, 0) then do {
          vs \<leftarrow> silentPutVariable (i, 0) v vs;
          Some (m, add_placeholder nv v vs) }
        else Some (m, vs) })"

definition putVariable_pair :: "int \<times> int \<Rightarrow> nat \<Rightarrow> 'a mem \<Rightarrow> vspace \<Rightarrow> ('a mem \<times> vspace) option" where
  "putVariable_pair p v m vs = do {
     vs \<leftarrow> silentPutVariable p v vs;
     nv \<leftarrow> m_vars m v;
     let vs = add_placeholder nv v vs;
     if snd p = 0 \<and> \<not> hasVariable vs (fst p) then putVariable (fst p) v m vs
     else do {
       let vs = put_name (v_name nv) v vs;
       vs \<leftarrow> lock vs;
       Some (m, unlock (vs\<lparr>vs_handles := vs_handles vs @ [v]\<rparr>)) } }"

definition putVariable_array :: "int \<Rightarrow> nat option \<Rightarrow> 'a mem \<Rightarrow> vspace \<Rightarrow> ('a mem \<times> vspace) option" where
  "putVariable_array i array m vs = (let (v, m) = alloc_var (Variable_new array '''') m in putVariable i v m vs)"

definition putVariable_pair_array ::
  "int \<times> int \<Rightarrow> nat option \<Rightarrow> 'a mem \<Rightarrow> vspace \<Rightarrow> ('a mem \<times> vspace) option" where
  "putVariable_pair_array p array m vs =
     (let (v, m) = alloc_var (Variable_new array '''') m in putVariable_pair p v m vs)"

definition putOutputVariable :: "nat \<Rightarrow> 'a mem \<Rightarrow> vspace \<Rightarrow> ('a mem \<times> vspace) option" where
  "putOutputVariable v m vs = do { nv \<leftarrow> m_vars m v; putVariable (v_id nv) v m vs }"

definition externalEntries :: "vspace \<Rightarrow> nat" where "externalEntries vs = length (vs_external vs)"
definition internalEntries :: "vspace \<Rightarrow> nat" where "internalEntries vs = length (vs_internal vs)"
definition totalEntries :: "vspace \<Rightarrow> nat" where "totalEntries vs = externalEntries vs + internalEntries vs"
definition numberOfPlaceholders :: "vspace \<Rightarrow> nat" where "numberOfPlaceholders vs = length (vs_placeholders vs)"

text \<open>The memory statistics; \<open>footprint\<close> stands for \<open>NDArray::memoryFootprint\<close>.\<close>

fun sum_memory :: "('a \<Rightarrow> int) \<Rightarrow> 'a mem \<Rightarrow> nat list \<Rightarrow> int option" where
  "sum_memory footprint m [] = Some 0"
| "sum_memory footprint m (p # ps) = do {
     v \<leftarrow> m_vars m p; a \<leftarrow> v_ndarray v; x \<leftarrow> m_arrs m a;
     s \<leftarrow> sum_memory footprint m ps; Some (footprint x + s) }"

definition externalMemory :: "('a \<Rightarrow> int) \<Rightarrow> 'a mem \<Rightarrow> vspace \<Rightarrow> int option" where
  "externalMemory footprint m vs = sum_memory footprint m (vs_external vs)"

definition internalMemory :: "('a \<Rightarrow> int) \<Rightarrow> 'a mem \<Rightarrow> vspace \<Rightarrow> int option" where
  "internalMemory footprint m vs = sum_memory footprint m (vs_internal vs)"

definition totalMemory :: "('a \<Rightarrow> int) \<Rightarrow> 'a mem \<Rightarrow> vspace \<Rightarrow> int option" where
  "totalMemory footprint m vs = do {
     e \<leftarrow> externalMemory footprint m vs; i \<leftarrow> internalMemory footprint m vs; Some (e + i) }"

text \<open>
  \<open>clone\<close> walks over \<open>_paired\<close> in key order; \<open>keys\<close> is that order.  Stash, workspace, placeholders
  and the lists of external and internal variables are not copied.
\<close>

fun clone_pairs :: "(int \<times> int) list \<Rightarrow> vspace \<Rightarrow> 'a mem \<Rightarrow> vspace \<Rightarrow> ('a mem \<times> vspace) option" where
  "clone_pairs [] src m res = Some (m, res)"
| "clone_pairs (p # ps) src m res = do {
     v \<leftarrow> vs_paired src p;
     (c, m) \<leftarrow> Variable_clone v m;
     cv \<leftarrow> m_vars m c;
     let res = (if snd p = 0 then
         (if fst p < 0 then res\<lparr>vs_variables := (vs_variables res)(fst p \<mapsto> c)\<rparr>
          else res\<lparr>vs_temporary := (vs_temporary res)(fst p \<mapsto> c)\<rparr>) else res);
     let res = put_name (v_name cv) c res;
     let res = res\<lparr>vs_paired := (vs_paired res)(p \<mapsto> c), vs_handles := vs_handles res @ [c]\<rparr>;
     clone_pairs ps src m res }"

definition VariableSpace_clone :: "(int \<times> int) list \<Rightarrow> vspace \<Rightarrow> 'a mem \<Rightarrow> ('a mem \<times> vspace) option" where
  "VariableSpace_clone keys src m = clone_pairs keys src m VariableSpace_new"

fun VariableSpace_delete :: "nat list \<Rightarrow> 'a mem \<Rightarrow> 'a mem option" where
  "VariableSpace_delete [] m = Some m"
| "VariableSpace_delete (p # ps) m = do { m \<leftarrow> Variable_delete p m; VariableSpace_delete ps m }"

subsection \<open>The invariant of a variable space\<close>

text \<open>
  Negative ids are external variables and the others are results of nodes; output 0 of every node
  with a variable is also found by pair; every variable that can be reached is owned (it is in
  \<open>_handles\<close>, so the destructor frees it) and alive; and \<open>_auto_counter\<close> is below all ids.
\<close>

definition reachable_vars :: "vspace \<Rightarrow> nat set" where
  "reachable_vars vs = ran (vs_paired vs) \<union> ran (vs_symbolic vs) \<union> ran (vs_variables vs) \<union> ran (vs_temporary vs)"

text \<open>All variables that a space points to, from its maps and from its lists.\<close>

definition vars_of :: "vspace \<Rightarrow> nat set" where
  "vars_of vs = reachable_vars vs
     \<union> set (vs_handles vs) \<union> set (vs_external vs) \<union> set (vs_internal vs) \<union> set (vs_placeholders vs)"

definition vs_inv :: "'a mem \<Rightarrow> vspace \<Rightarrow> bool" where
  "vs_inv m vs \<longleftrightarrow> \<not> vs_locked vs
     \<and> dom (vs_variables vs) \<subseteq> {..<0} \<and> dom (vs_temporary vs) \<subseteq> {0..}
     \<and> (\<forall>i. hasVariable vs i \<longleftrightarrow> hasVariable_pair vs (i, 0))
     \<and> reachable_vars vs \<subseteq> set (vs_handles vs)
     \<and> (\<forall>p \<in> set (vs_handles vs). m_vars m p \<noteq> None)
     \<and> (\<forall>i. hasVariable vs i \<longrightarrow> vs_auto_counter vs < i)"

named_theorems vs_defs \<open>the operations of the variable space\<close>
lemmas [vs_defs] = lock_def unlock_def hasVariable_def hasVariable_pair_def put_name_def
  silentPutVariable_def upd_var_def Variable_setId_def Variable_setNDArray_def enter_variable_def
  add_placeholder_def

lemma vs_inv_new: "vs_inv m VariableSpace_new"
  by (simp add: vs_inv_def VariableSpace_new_def vs_defs reachable_vars_def)

lemma ran_upd: "ran (f(k \<mapsto> v)) \<subseteq> insert v (ran f)"
  by (auto simp: ran_def)

text \<open>The space after a variable has been put under a new id.\<close>

definition entered :: "int \<Rightarrow> nat \<Rightarrow> variable \<Rightarrow> vspace \<Rightarrow> vspace" where
  "entered i v x vs = vs\<lparr>vs_paired := (vs_paired vs)((i, 0) \<mapsto> v),
    vs_symbolic := (if v_name x \<noteq> '''' then (vs_symbolic vs)(v_name x \<mapsto> v) else vs_symbolic vs),
    vs_variables := (if i < 0 then (vs_variables vs)(i \<mapsto> v) else vs_variables vs),
    vs_temporary := (if i < 0 then vs_temporary vs else (vs_temporary vs)(i \<mapsto> v)),
    vs_external := vs_external vs @ (if i < 0 then [v] else []),
    vs_internal := vs_internal vs @ (if i < 0 then [] else [v]),
    vs_placeholders := vs_placeholders vs @ (if v_placeholder x then [v] else []),
    vs_auto_counter := (if vs_auto_counter vs \<ge> i then i - 1 else vs_auto_counter vs),
    vs_handles := vs_handles vs @ [v], vs_locked := False\<rparr>"

lemma entered_simps [simp]:
  "vs_paired (entered i v x vs) = (vs_paired vs)((i, 0) \<mapsto> v)"
  "vs_symbolic (entered i v x vs) = (if v_name x \<noteq> '''' then (vs_symbolic vs)(v_name x \<mapsto> v) else vs_symbolic vs)"
  "vs_variables (entered i v x vs) = (if i < 0 then (vs_variables vs)(i \<mapsto> v) else vs_variables vs)"
  "vs_temporary (entered i v x vs) = (if i < 0 then vs_temporary vs else (vs_temporary vs)(i \<mapsto> v))"
  "vs_external (entered i v x vs) = vs_external vs @ (if i < 0 then [v] else [])"
  "vs_internal (entered i v x vs) = vs_internal vs @ (if i < 0 then [] else [v])"
  "vs_placeholders (entered i v x vs) = vs_placeholders vs @ (if v_placeholder x then [v] else [])"
  "vs_auto_counter (entered i v x vs) = (if vs_auto_counter vs \<ge> i then i - 1 else vs_auto_counter vs)"
  "vs_handles (entered i v x vs) = vs_handles vs @ [v]"
  "\<not> vs_locked (entered i v x vs)"
  unfolding entered_def by simp_all

lemma ran_if_upd: "ran (if b then f(k \<mapsto> v) else f) \<subseteq> insert v (ran f)"
  "ran (if b then f else f(k \<mapsto> v)) \<subseteq> insert v (ran f)"
  using ran_upd [of f k v] by auto

lemma putVariable_fresh:
  assumes "vs_inv m vs" "m_vars m v = Some x" "\<not> hasVariable vs i"
  shows "putVariable i v m vs = Some (m\<lparr>m_vars := (m_vars m)(v \<mapsto> x\<lparr>v_id := i\<rparr>)\<rparr>, entered i v x vs)"
proof -
  have nl: "\<not> vs_locked vs" and np: "\<not> hasVariable_pair vs (i, 0)"
    using assms by (auto simp: vs_inv_def)
  have a: "lock vs = Some (vs\<lparr>vs_locked := True\<rparr>)" using nl by (simp add: lock_def)
  have b: "Variable_setId v i m = Some (m\<lparr>m_vars := (m_vars m)(v \<mapsto> x\<lparr>v_id := i\<rparr>)\<rparr>)"
    using assms by (simp add: Variable_setId_def upd_var_def)
  let ?e = "unlock (enter_variable i v (x\<lparr>v_id := i\<rparr>) (vs\<lparr>vs_locked := True\<rparr>))"
  have c: "\<not> hasVariable_pair ?e (i, 0)"
    using np by (simp add: hasVariable_pair_def unlock_def enter_variable_def put_name_def)
  have d: "silentPutVariable (i, 0) v ?e = Some (unlock (?e\<lparr>vs_paired := (vs_paired ?e)((i, 0) \<mapsto> v)\<rparr>))"
    unfolding silentPutVariable_def lock_def unlock_def by simp
  have e: "add_placeholder (x\<lparr>v_id := i\<rparr>) v (unlock (?e\<lparr>vs_paired := (vs_paired ?e)((i, 0) \<mapsto> v)\<rparr>)) = entered i v x vs"
    unfolding entered_def add_placeholder_def unlock_def enter_variable_def put_name_def by simp
  show ?thesis
    using assms(3) unfolding putVariable_def a b by (simp add: c d e Let_def)
qed

lemma entered_inv:
  assumes "vs_inv m vs" "m_vars m v \<noteq> None"
  shows "vs_inv m (entered i v x vs)"
  unfolding vs_inv_def
proof (intro conjI)
  show "reachable_vars (entered i v x vs) \<subseteq> set (vs_handles (entered i v x vs))"
  proof -
    have "reachable_vars (entered i v x vs) \<subseteq> insert v (reachable_vars vs)"
      using ran_upd [of "vs_paired vs" "(i, 0)" v]
        ran_if_upd(1) [of "v_name x \<noteq> ''''" "vs_symbolic vs" "v_name x" v]
        ran_if_upd(1) [of "i < 0" "vs_variables vs" i v] ran_if_upd(2) [of "i < 0" "vs_temporary vs" i v]
      unfolding reachable_vars_def entered_simps by (simp only: Un_subset_iff) blast
    moreover have "reachable_vars vs \<subseteq> set (vs_handles vs)" using assms(1) by (simp add: vs_inv_def)
    ultimately show ?thesis by auto
  qed
  show "\<forall>k. hasVariable (entered i v x vs) k \<longrightarrow> vs_auto_counter (entered i v x vs) < k"
    using assms(1) unfolding vs_inv_def hasVariable_def entered_simps by auto
  show "dom (vs_variables (entered i v x vs)) \<subseteq> {..<0}" "dom (vs_temporary (entered i v x vs)) \<subseteq> {0..}"
    using assms(1) by (cases "i < 0"; simp add: vs_inv_def)+
  show "\<forall>k. hasVariable (entered i v x vs) k \<longleftrightarrow> hasVariable_pair (entered i v x vs) (k, 0)"
    using assms(1) unfolding vs_inv_def hasVariable_def hasVariable_pair_def entered_simps by simp
  show "\<forall>p \<in> set (vs_handles (entered i v x vs)). m_vars m p \<noteq> None"
    using assms by (simp add: vs_inv_def)
qed simp

lemma reachable_alive: "vs_inv m vs \<Longrightarrow> p \<in> reachable_vars vs \<Longrightarrow> \<exists>x. m_vars m p = Some x"
  unfolding vs_inv_def by (meson subsetD not_None_eq)

lemma hasVariable_get:
  assumes "vs_inv m vs" "hasVariable vs i"
  shows "(if i < 0 then vs_variables vs i else vs_temporary vs i) \<noteq> None"
proof -
  have d: "dom (vs_variables vs) \<subseteq> {..<0}" "dom (vs_temporary vs) \<subseteq> {0..}"
    using assms(1) by (simp_all add: vs_inv_def)
  show ?thesis
  proof (cases "i < 0")
    case True
    then have "i \<notin> dom (vs_temporary vs)" using d by auto
    with True assms(2) show ?thesis by (simp add: hasVariable_def domIff)
  next
    case False
    then have "i \<notin> dom (vs_variables vs)" using d by auto
    with False assms(2) show ?thesis by (simp add: hasVariable_def domIff)
  qed
qed

lemma putVariable_again:
  assumes "vs_inv m vs" "m_vars m v = Some x" "hasVariable vs i"
  shows "\<exists>old y. (if i < 0 then vs_variables vs i else vs_temporary vs i) = Some old \<and> m_vars m old = Some y
    \<and> putVariable i v m vs = Some (if v_ndarray y = None \<and> v_ndarray x \<noteq> None
        then m\<lparr>m_vars := (m_vars m)(old \<mapsto> y\<lparr>v_ndarray := v_ndarray x\<rparr>)\<rparr> else m, vs)"
proof -
  have "(if i < 0 then vs_variables vs i else vs_temporary vs i) \<noteq> None"
    by (rule hasVariable_get [OF assms(1,3)])
  then obtain old where old: "(if i < 0 then vs_variables vs i else vs_temporary vs i) = Some old" by auto
  then have "old \<in> reachable_vars vs" by (auto simp: reachable_vars_def ran_def split: if_splits)
  then obtain y where y: "m_vars m old = Some y" using reachable_alive [OF assms(1)] by blast
  have "putVariable i v m vs = Some (if v_ndarray y = None \<and> v_ndarray x \<noteq> None
        then m\<lparr>m_vars := (m_vars m)(old \<mapsto> y\<lparr>v_ndarray := v_ndarray x\<rparr>)\<rparr> else m, vs)"
    using old y assms(2,3) by (simp add: putVariable_def Variable_setNDArray_def upd_var_def)
  with old y show ?thesis by blast
qed

lemma vs_inv_mono: "vs_inv m vs \<Longrightarrow> \<forall>p. m_vars m p \<noteq> None \<longrightarrow> m_vars m' p \<noteq> None \<Longrightarrow> vs_inv m' vs"
  by (auto simp: vs_inv_def)

lemma putVariable_total:
  assumes "vs_inv m vs" "m_vars m v \<noteq> None"
  shows "\<exists>m' vs'. putVariable i v m vs = Some (m', vs') \<and> vs_inv m' vs' \<and> hasVariable vs' i
    \<and> (\<forall>p. m_vars m p \<noteq> None \<longrightarrow> m_vars m' p \<noteq> None)"
proof -
  obtain x where x: "m_vars m v = Some x" using assms(2) by auto
  show ?thesis
  proof (cases "hasVariable vs i")
    case False
    let ?m = "m\<lparr>m_vars := (m_vars m)(v \<mapsto> x\<lparr>v_id := i\<rparr>)\<rparr>"
    have "vs_inv ?m (entered i v x vs)"
      by (rule entered_inv) (use vs_inv_mono [OF assms(1), of ?m] in auto)
    moreover have "hasVariable (entered i v x vs) i" by (simp add: hasVariable_def)
    ultimately show ?thesis
      using putVariable_fresh [OF assms(1) x False] by (intro exI conjI) auto
  next
    case True
    from putVariable_again [OF assms(1) x this] obtain old y where
      "m_vars m old = Some y" "putVariable i v m vs = Some (if v_ndarray y = None \<and> v_ndarray x \<noteq> None
        then m\<lparr>m_vars := (m_vars m)(old \<mapsto> y\<lparr>v_ndarray := v_ndarray x\<rparr>)\<rparr> else m, vs)" by blast
    with True assms(1) show ?thesis by (auto intro!: vs_inv_mono [OF assms(1)])
  qed
qed

definition attached :: "int \<times> int \<Rightarrow> nat \<Rightarrow> variable \<Rightarrow> vspace \<Rightarrow> vspace" where
  "attached p v x vs = vs\<lparr>vs_paired := (vs_paired vs)(p \<mapsto> v),
    vs_symbolic := (if v_name x \<noteq> '''' then (vs_symbolic vs)(v_name x \<mapsto> v) else vs_symbolic vs),
    vs_placeholders := vs_placeholders vs @ (if v_placeholder x then [v] else []),
    vs_handles := vs_handles vs @ [v], vs_locked := False\<rparr>"

lemma attached_simps [simp]:
  "vs_paired (attached p v x vs) = (vs_paired vs)(p \<mapsto> v)"
  "vs_symbolic (attached p v x vs) = (if v_name x \<noteq> '''' then (vs_symbolic vs)(v_name x \<mapsto> v) else vs_symbolic vs)"
  "vs_variables (attached p v x vs) = vs_variables vs"
  "vs_temporary (attached p v x vs) = vs_temporary vs"
  "vs_external (attached p v x vs) = vs_external vs"
  "vs_internal (attached p v x vs) = vs_internal vs"
  "vs_placeholders (attached p v x vs) = vs_placeholders vs @ (if v_placeholder x then [v] else [])"
  "vs_auto_counter (attached p v x vs) = vs_auto_counter vs"
  "vs_handles (attached p v x vs) = vs_handles vs @ [v]"
  "\<not> vs_locked (attached p v x vs)"
  unfolding attached_def by simp_all

lemma hasVariable_attached [simp]: "hasVariable (attached p v x vs) i = hasVariable vs i"
  by (simp add: hasVariable_def)

lemma putVariable_pair_exact:
  assumes "vs_inv m vs" "m_vars m v = Some x"
  shows "putVariable_pair p v m vs = Some (
    if snd p = 0 \<and> \<not> hasVariable vs (fst p)
    then (m\<lparr>m_vars := (m_vars m)(v \<mapsto> x\<lparr>v_id := fst p\<rparr>)\<rparr>, entered (fst p) v x vs)
    else (m, attached p v x vs))"
proof -
  have nl: "\<not> vs_locked vs" using assms by (simp add: vs_inv_def)
  let ?a = "add_placeholder x v (unlock (vs\<lparr>vs_locked := True, vs_paired := (vs_paired vs)(p \<mapsto> v)\<rparr>))"
  have s: "silentPutVariable p v vs = Some (unlock (vs\<lparr>vs_locked := True, vs_paired := (vs_paired vs)(p \<mapsto> v)\<rparr>))"
    using nl unfolding silentPutVariable_def lock_def by simp
  have h: "hasVariable ?a k = hasVariable vs k" for k
    by (simp add: hasVariable_def add_placeholder_def unlock_def)
  show ?thesis
  proof (cases "snd p = 0 \<and> \<not> hasVariable vs (fst p)")
    case True
    let ?i = "fst p"
    have p: "p = (?i, 0)" using True by (cases p) simp
    have a: "lock ?a = Some (?a\<lparr>vs_locked := True\<rparr>)" unfolding lock_def add_placeholder_def unlock_def by simp
    have b: "Variable_setId v ?i m = Some (m\<lparr>m_vars := (m_vars m)(v \<mapsto> x\<lparr>v_id := ?i\<rparr>)\<rparr>)"
      using assms by (simp add: Variable_setId_def upd_var_def)
    let ?e = "unlock (enter_variable ?i v (x\<lparr>v_id := ?i\<rparr>) (?a\<lparr>vs_locked := True\<rparr>))"
    have c: "hasVariable_pair ?e (?i, 0)"
      unfolding hasVariable_pair_def unlock_def enter_variable_def put_name_def add_placeholder_def
      using p by (simp add: fun_upd_apply)
    have e: "?e = entered ?i v x vs"
      unfolding entered_def add_placeholder_def unlock_def enter_variable_def put_name_def
      using p by simp
    have "putVariable ?i v m ?a = Some (m\<lparr>m_vars := (m_vars m)(v \<mapsto> x\<lparr>v_id := ?i\<rparr>)\<rparr>, ?e)"
      using True h [of ?i] c unfolding putVariable_def a b by (simp add: Let_def)
    with s h True assms(2) e show ?thesis by (simp add: putVariable_pair_def Let_def)
  next
    case False
    have a: "lock (put_name (v_name x) v ?a) = Some ((put_name (v_name x) v ?a)\<lparr>vs_locked := True\<rparr>)"
      unfolding lock_def add_placeholder_def unlock_def put_name_def by simp
    have e: "unlock ((put_name (v_name x) v ?a)\<lparr>vs_locked := True,
        vs_handles := vs_handles ((put_name (v_name x) v ?a)\<lparr>vs_locked := True\<rparr>) @ [v]\<rparr>) = attached p v x vs"
      unfolding attached_def add_placeholder_def unlock_def put_name_def by simp
    show ?thesis
      by (simp only: putVariable_pair_def s assms(2) Let_def bind.bind_lunit h if_not_P [OF False] a e)
  qed
qed

lemma attached_inv:
  assumes "vs_inv m vs" "m_vars m v \<noteq> None" "\<not> (snd p = 0 \<and> \<not> hasVariable vs (fst p))"
  shows "vs_inv m (attached p v x vs)"
  unfolding vs_inv_def
proof (intro conjI)
  show "reachable_vars (attached p v x vs) \<subseteq> set (vs_handles (attached p v x vs))"
  proof -
    have "reachable_vars (attached p v x vs) \<subseteq> insert v (reachable_vars vs)"
      using ran_upd [of "vs_paired vs" p v]
        ran_if_upd(1) [of "v_name x \<noteq> ''''" "vs_symbolic vs" "v_name x" v]
      unfolding reachable_vars_def attached_simps by (simp only: Un_subset_iff) blast
    moreover have "reachable_vars vs \<subseteq> set (vs_handles vs)" using assms(1) by (simp add: vs_inv_def)
    ultimately show ?thesis by auto
  qed
  show "\<forall>k. hasVariable (attached p v x vs) k \<longleftrightarrow> hasVariable_pair (attached p v x vs) (k, 0)"
    using assms(1,3) unfolding vs_inv_def hasVariable_def hasVariable_pair_def attached_simps
    by (cases p) auto
qed (use assms in \<open>simp_all add: vs_inv_def\<close>)

lemma putVariable_pair_total:
  assumes "vs_inv m vs" "m_vars m v \<noteq> None"
  shows "\<exists>m' vs'. putVariable_pair p v m vs = Some (m', vs') \<and> vs_inv m' vs' \<and> vs_paired vs' p = Some v
    \<and> (\<forall>q. q \<noteq> p \<longrightarrow> vs_paired vs' q = vs_paired vs q)"
proof -
  obtain x where x: "m_vars m v = Some x" using assms(2) by auto
  show ?thesis
  proof (cases "snd p = 0 \<and> \<not> hasVariable vs (fst p)")
    case True
    let ?m = "m\<lparr>m_vars := (m_vars m)(v \<mapsto> x\<lparr>v_id := fst p\<rparr>)\<rparr>"
    have p: "p = (fst p, 0)" using True by (cases p) simp
    have "vs_inv ?m (entered (fst p) v x vs)"
      by (rule entered_inv) (use vs_inv_mono [OF assms(1), of ?m] in auto)
    moreover have "vs_paired (entered (fst p) v x vs) = (vs_paired vs)(p \<mapsto> v)" using p by simp
    ultimately show ?thesis using putVariable_pair_exact [OF assms(1) x, of p] True by auto
  next
    case False
    then show ?thesis
      using putVariable_pair_exact [OF assms(1) x, of p] attached_inv [OF assms False, of x] by auto
  qed
qed

subsection \<open>Lookups\<close>

lemma getVariable_present:
  assumes "vs_inv m vs" "hasVariable vs i"
  shows "\<exists>v. getVariable i vs = Some (Some v, vs) \<and> v \<in> set (vs_handles vs)"
proof -
  have nl: "\<not> vs_locked vs" and sub: "reachable_vars vs \<subseteq> set (vs_handles vs)"
    using assms(1) by (simp_all add: vs_inv_def)
  obtain v where v: "(if i < 0 then vs_variables vs i else vs_temporary vs i) = Some v"
    using hasVariable_get [OF assms] by auto
  then have "v \<in> reachable_vars vs" by (auto simp: reachable_vars_def ran_def split: if_splits)
  moreover have "vs\<lparr>vs_locked := False\<rparr> = vs" using nl by (cases vs) simp
  ultimately show ?thesis using v nl sub by (auto simp: getVariable_def lock_def unlock_def)
qed

text \<open>
  A failed lookup throws while the mutex is held: afterwards every operation that locks it blocks.
\<close>

lemma getVariable_absent:
  assumes "vs_inv m vs" "\<not> hasVariable vs i"
  shows "getVariable i vs = Some (None, vs\<lparr>vs_locked := True\<rparr>)"
    and "getVariable k (vs\<lparr>vs_locked := True\<rparr>) = None"
    and "putVariable_pair p v m (vs\<lparr>vs_locked := True\<rparr>) = None"
proof -
  have "\<not> vs_locked vs" using assms(1) by (simp add: vs_inv_def)
  moreover have "(if i < 0 then vs_variables (vs\<lparr>vs_locked := True\<rparr>) i else vs_temporary (vs\<lparr>vs_locked := True\<rparr>) i) = None"
    using assms(2) by (simp add: hasVariable_def)
  ultimately show "getVariable i vs = Some (None, vs\<lparr>vs_locked := True\<rparr>)"
    by (simp add: getVariable_def lock_def)
qed (simp_all add: getVariable_def lock_def putVariable_pair_def silentPutVariable_def)

text \<open>Under the invariant the fallback of the lookup by pair never finds anything new.\<close>

lemma getVariable_pair_exact:
  assumes "vs_inv m vs"
  shows "getVariable_pair p vs = Some (Some (vs_paired vs p), vs)"
proof (cases "vs_paired vs p")
  case None
  have "\<not> (hasVariable vs (fst p) \<and> snd p = 0)"
    using assms None unfolding vs_inv_def hasVariable_pair_def by (cases p) auto
  then show ?thesis by (simp only: getVariable_pair_def None option.case if_False)
qed (simp add: getVariable_pair_def)

subsection \<open>Entries\<close>

text \<open>The lists of external and internal variables have one entry per id, in the order of insertion.\<close>

definition entries_inv :: "vspace \<Rightarrow> bool" where
  "entries_inv vs \<longleftrightarrow> finite (dom (vs_variables vs)) \<and> finite (dom (vs_temporary vs))
     \<and> externalEntries vs = card (dom (vs_variables vs)) \<and> internalEntries vs = card (dom (vs_temporary vs))"

lemma entries_new: "entries_inv VariableSpace_new"
  by (simp add: entries_inv_def VariableSpace_new_def externalEntries_def internalEntries_def)

lemma putVariable_entries:
  assumes "vs_inv m vs" "entries_inv vs" "m_vars m v \<noteq> None" "putVariable i v m vs = Some (m', vs')"
  shows "entries_inv vs'" "totalEntries vs' = totalEntries vs + (if hasVariable vs i then 0 else 1)"
proof -
  obtain x where x: "m_vars m v = Some x" using assms(3) by auto
  have "entries_inv vs' \<and> totalEntries vs' = totalEntries vs + (if hasVariable vs i then 0 else 1)"
  proof (cases "hasVariable vs i")
    case True
    then have "vs' = vs" using putVariable_again [OF assms(1) x True] assms(4) by auto
    with True assms(2) show ?thesis by simp
  next
    case False
    then have e: "vs' = entered i v x vs" using putVariable_fresh [OF assms(1) x False] assms(4) by simp
    have "i \<notin> dom (vs_variables vs)" "i \<notin> dom (vs_temporary vs)"
      using False by (simp_all add: hasVariable_def domIff)
    then show ?thesis
      using assms(2) False by (cases "i < 0"; simp add: e entries_inv_def externalEntries_def
          internalEntries_def totalEntries_def)
  qed
  then show "entries_inv vs'" "totalEntries vs' = totalEntries vs + (if hasVariable vs i then 0 else 1)"
    by simp_all
qed

subsection \<open>Clones\<close>

definition mem_inv :: "'a mem \<Rightarrow> bool" where
  "mem_inv m \<longleftrightarrow> (\<forall>p \<ge> m_next m. m_vars m p = None \<and> m_arrs m p = None)
     \<and> (\<forall>p v a. m_vars m p = Some v \<longrightarrow> v_ndarray v = Some a \<longrightarrow> m_arrs m a \<noteq> None)"

text \<open>A clone is a new object with equal members and, when there is an array, its own copy of it.\<close>

lemma Variable_clone_exact:
  assumes "mem_inv m" "m_vars m p = Some v"
  obtains c m' cv where "Variable_clone p m = Some (c, m')" "m_next m \<le> c" "m_next m \<le> m_next m'"
    "m_vars m' = (m_vars m)(c \<mapsto> cv)" "mem_inv m'"
    "v_name cv = v_name v" "v_id cv = v_id v" "v_placeholder cv = v_placeholder v"
    "v_external cv = v_external v" "v_readOnly cv = v_readOnly v"
    "\<forall>a < m_next m. m_arrs m' a = m_arrs m a"
    "(case v_ndarray v of None \<Rightarrow> v_ndarray cv = None
      | Some a \<Rightarrow> \<exists>a'. v_ndarray cv = Some a' \<and> m_next m \<le> a' \<and> m_arrs m' a' = m_arrs m a)"
proof (cases "v_ndarray v")
  case None
  let ?cv = "(Variable_placeholder v (v_placeholder v))
    \<lparr>v_external := v_external v, v_id := v_id v, v_readOnly := v_readOnly v, v_name := v_name v\<rparr>"
  let ?m = "m\<lparr>m_vars := (m_vars m)(m_next m \<mapsto> ?cv), m_next := m_next m + 1\<rparr>"
  have "Variable_clone p m = Some (m_next m, ?m)"
    using assms(2) None by (simp add: Variable_clone_def alloc_var_def Let_def)
  moreover have "mem_inv ?m"
    using assms(1) by (auto simp: mem_inv_def Variable_placeholder_def)
  ultimately show thesis
    using None by (intro that [of "m_next m" ?m ?cv]) (simp_all add: Variable_placeholder_def)
next
  case (Some a)
  then obtain x where x: "m_arrs m a = Some x"
    using assms unfolding mem_inv_def by (meson not_None_eq)
  have na: "a \<noteq> m_next m" using assms(1) x by (auto simp: mem_inv_def)
  let ?cv = "(Variable_placeholder v (v_placeholder v))\<lparr>v_external := v_external v, v_id := v_id v,
    v_readOnly := v_readOnly v, v_name := v_name v, v_ndarray := Some (m_next m)\<rparr>"
  let ?m = "m\<lparr>m_vars := (m_vars m)(m_next m + 1 \<mapsto> ?cv), m_arrs := (m_arrs m)(m_next m \<mapsto> x), m_next := m_next m + 2\<rparr>"
  have "Variable_clone p m = Some (m_next m + 1, ?m)"
    using assms(2) Some x by (simp add: Variable_clone_def alloc_var_def alloc_arr_def Let_def)
  moreover have "mem_inv ?m"
    using assms(1) by (auto simp: mem_inv_def)
  ultimately show thesis
    using Some x na by (intro that [of "m_next m + 1" ?m ?cv]) (simp_all add: Variable_placeholder_def)
qed

definition is_copy :: "'a mem \<Rightarrow> 'a mem \<Rightarrow> variable \<Rightarrow> variable \<Rightarrow> bool" where
  "is_copy m m' v cv \<longleftrightarrow> v_name cv = v_name v \<and> v_id cv = v_id v \<and> v_placeholder cv = v_placeholder v
     \<and> v_external cv = v_external v \<and> v_readOnly cv = v_readOnly v
     \<and> (case v_ndarray v of None \<Rightarrow> v_ndarray cv = None
        | Some a \<Rightarrow> \<exists>a'. v_ndarray cv = Some a' \<and> m_next m \<le> a' \<and> m_arrs m' a' = m_arrs m a)"

definition mem_extends :: "'a mem \<Rightarrow> 'a mem \<Rightarrow> bool" where
  "mem_extends m m' \<longleftrightarrow> m_next m \<le> m_next m'
     \<and> (\<forall>q < m_next m. m_vars m' q = m_vars m q \<and> m_arrs m' q = m_arrs m q)"

lemma mem_extends_trans: "mem_extends m m' \<Longrightarrow> mem_extends m' m'' \<Longrightarrow> mem_extends m m''"
  by (auto simp: mem_extends_def)

lemma mem_inv_bound: "mem_inv m \<Longrightarrow> m_vars m p \<noteq> None \<or> m_arrs m p \<noteq> None \<Longrightarrow> p < m_next m"
  unfolding mem_inv_def by (meson not_le)

lemma Variable_clone_copy:
  assumes "mem_inv m" "m_vars m p = Some v"
  shows "\<exists>c m' cv. Variable_clone p m = Some (c, m') \<and> m_next m \<le> c \<and> m_next m \<le> m_next m' \<and> mem_inv m'
    \<and> m_vars m' = (m_vars m)(c \<mapsto> cv) \<and> is_copy m m' v cv \<and> (\<forall>a < m_next m. m_arrs m' a = m_arrs m a)"
  by (rule Variable_clone_exact [OF assms], intro exI conjI, assumption+) (simp_all add: is_copy_def)

lemma is_copy_later:
  assumes "is_copy m m1 v cv" "mem_inv m" "mem_inv m1" "m_vars m p = Some v" "mem_extends m1 m2"
  shows "is_copy m m2 v cv"
proof (cases "v_ndarray v")
  case (Some a)
  then obtain a' where a': "v_ndarray cv = Some a'" "m_next m \<le> a'" "m_arrs m1 a' = m_arrs m a"
    using assms(1) by (auto simp: is_copy_def)
  have "m_arrs m a \<noteq> None" using assms(2,4) Some unfolding mem_inv_def by blast
  then have "a' < m_next m1" using a'(3) mem_inv_bound [OF assms(3)] by metis
  then have "m_arrs m2 a' = m_arrs m a" using assms(5) a'(3) by (simp add: mem_extends_def)
  with assms(1) Some a' show ?thesis by (simp add: is_copy_def)
qed (use assms(1) in \<open>simp add: is_copy_def\<close>)

lemma clone_pairs_exact:
  assumes "mem_inv m" "distinct ps" "\<forall>p \<in> set ps. \<exists>q. vs_paired src p = Some q \<and> m_vars m q \<noteq> None"
  shows "\<exists>m' res'. clone_pairs ps src m res = Some (m', res') \<and> mem_inv m' \<and> mem_extends m m'
    \<and> (\<forall>p \<in> set ps. \<exists>q v c cv. vs_paired src p = Some q \<and> m_vars m q = Some v \<and> vs_paired res' p = Some c
         \<and> m_next m \<le> c \<and> m_vars m' c = Some cv \<and> is_copy m m' v cv)
    \<and> (\<forall>p. p \<notin> set ps \<longrightarrow> vs_paired res' p = vs_paired res p)
    \<and> vars_of res' \<subseteq> vars_of res \<union> ran (vs_paired res')"
  using assms
proof (induction ps arbitrary: m res)
  case Nil
  then show ?case by (simp add: mem_extends_def)
next
  case (Cons p ps)
  from Cons.prems(3) obtain q v where q: "vs_paired src p = Some q" "m_vars m q = Some v" by auto
  obtain c m1 cv where
    c: "Variable_clone q m = Some (c, m1)" "m_next m \<le> c" "m_next m \<le> m_next m1" "mem_inv m1"
    and cv: "m_vars m1 = (m_vars m)(c \<mapsto> cv)" "is_copy m m1 v cv" and ar: "\<forall>a < m_next m. m_arrs m1 a = m_arrs m a"
    using Variable_clone_copy [OF Cons.prems(1) q(2)] by blast
  have ext: "mem_extends m m1" using c(2,3) cv(1) ar by (auto simp: mem_extends_def)
  have al: "\<forall>p \<in> set ps. \<exists>q. vs_paired src p = Some q \<and> m_vars m1 q \<noteq> None"
    using Cons.prems(3) unfolding cv(1) by (metis fun_upd_apply list.set_intros(2) option.distinct(1))
  have d: "distinct ps" "p \<notin> set ps" using Cons.prems(2) by simp_all
  define res0 where "res0 = put_name (v_name cv) c (if snd p = 0 then
         (if fst p < 0 then res\<lparr>vs_variables := (vs_variables res)(fst p \<mapsto> c)\<rparr>
          else res\<lparr>vs_temporary := (vs_temporary res)(fst p \<mapsto> c)\<rparr>) else res)"
  define res1 where "res1 = res0\<lparr>vs_paired := (vs_paired res0)(p \<mapsto> c), vs_handles := vs_handles res0 @ [c]\<rparr>"
  have pr: "vs_paired res1 = (vs_paired res)(p \<mapsto> c)" by (simp add: put_name_def res0_def res1_def)
  from Cons.IH [OF c(4) d(1) al, of res1] obtain m2 res2 where
    r: "clone_pairs ps src m1 res1 = Some (m2, res2)" "mem_inv m2" "mem_extends m1 m2"
    and cs: "\<forall>p \<in> set ps. \<exists>q v c cv. vs_paired src p = Some q \<and> m_vars m1 q = Some v \<and> vs_paired res2 p = Some c
         \<and> m_next m1 \<le> c \<and> m_vars m2 c = Some cv \<and> is_copy m1 m2 v cv"
    and oth: "\<forall>p. p \<notin> set ps \<longrightarrow> vs_paired res2 p = vs_paired res1 p"
    and vo: "vars_of res2 \<subseteq> vars_of res1 \<union> ran (vs_paired res2)" by blast
  have upd: "ran (f(x \<mapsto> c)) \<subseteq> insert c (ran f)" for f :: "'k \<Rightarrow> nat option" and x by (auto simp: ran_def)
  have "vars_of res0 \<subseteq> insert c (vars_of res)"
    unfolding res0_def put_name_def vars_of_def reachable_vars_def
    using upd [of "vs_symbolic res" "v_name cv"] upd [of "vs_variables res" "fst p"] upd [of "vs_temporary res" "fst p"]
    by auto
  then have "vars_of res1 \<subseteq> insert c (vars_of res)"
    using upd [of "vs_paired res0" p] by (auto simp: res1_def vars_of_def reachable_vars_def)
  moreover have "c \<in> ran (vs_paired res2)"
    using oth d(2) pr by (metis fun_upd_same ranI)
  ultimately have vo': "vars_of res2 \<subseteq> vars_of res \<union> ran (vs_paired res2)" using vo by blast
  have "clone_pairs (p # ps) src m res = Some (m2, res2)"
    using q(1) c(1) r(1) cv(1) by (simp add: Let_def res0_def res1_def)
  moreover have "\<exists>q v c cv. vs_paired src p' = Some q \<and> m_vars m q = Some v \<and> vs_paired res2 p' = Some c
         \<and> m_next m \<le> c \<and> m_vars m2 c = Some cv \<and> is_copy m m2 v cv" if p': "p' \<in> set (p # ps)" for p'
  proof (cases "p' = p")
    case True
    have "vs_paired res2 p = Some c" using oth d(2) pr by (metis fun_upd_same)
    moreover have "m_vars m2 c = Some cv"
      using r(3) cv(1) mem_inv_bound [OF c(4), of c] by (simp add: mem_extends_def)
    moreover have "is_copy m m2 v cv" by (rule is_copy_later [OF cv(2) Cons.prems(1) c(4) q(2) r(3)])
    ultimately show ?thesis using True q c(2) by blast
  next
    case False
    then obtain q' v' c' cv' where o: "vs_paired src p' = Some q'" "m_vars m1 q' = Some v'" "vs_paired res2 p' = Some c'"
      "m_next m1 \<le> c'" "m_vars m2 c' = Some cv'" "is_copy m1 m2 v' cv'"
      using cs p' by auto
    obtain v'' where v'': "m_vars m q' = Some v''" using Cons.prems(3) p' False o(1) by force
    then have lt: "q' < m_next m" using mem_inv_bound [OF Cons.prems(1)] by blast
    then have "v'' = v'" using ext o(2) v'' by (simp add: mem_extends_def)
    have "is_copy m m2 v' cv'"
    proof (cases "v_ndarray v'")
      case (Some a)
      then have "m_arrs m a \<noteq> None"
        using Cons.prems(1) v'' \<open>v'' = v'\<close> unfolding mem_inv_def by blast
      then have "a < m_next m" using mem_inv_bound [OF Cons.prems(1)] by blast
      then have "m_arrs m1 a = m_arrs m a" using ar by blast
      with o(6) Some c(3) show ?thesis by (fastforce simp: is_copy_def)
    qed (use o(6) in \<open>simp add: is_copy_def\<close>)
    moreover have "m_next m \<le> c'" using o(4) c(3) by simp
    ultimately show ?thesis using o v'' \<open>v'' = v'\<close> by blast
  qed
  moreover have "mem_extends m m2" by (rule mem_extends_trans [OF ext r(3)])
  moreover have "vs_paired res2 p' = vs_paired res p'" if "p' \<notin> set (p # ps)" for p'
    using oth pr that by (metis fun_upd_apply list.set_intros)
  ultimately show ?case using r(2) vo' by blast
qed

lemma VariableSpace_clone_exact:
  assumes "mem_inv m" "distinct keys" "set keys = dom (vs_paired src)"
    and "\<forall>q \<in> ran (vs_paired src). m_vars m q \<noteq> None"
  shows "\<exists>m' res. VariableSpace_clone keys src m = Some (m', res) \<and> mem_inv m' \<and> mem_extends m m'
    \<and> dom (vs_paired res) = dom (vs_paired src) \<and> vars_of res = ran (vs_paired res)
    \<and> (\<forall>p q. vs_paired src p = Some q \<longrightarrow> (\<exists>v c cv. m_vars m q = Some v \<and> vs_paired res p = Some c
         \<and> m_next m \<le> c \<and> m_vars m' c = Some cv \<and> is_copy m m' v cv))"
proof -
  have al: "\<forall>p \<in> set keys. \<exists>q. vs_paired src p = Some q \<and> m_vars m q \<noteq> None"
    using assms(3,4) by (metis domD ranI)
  obtain m' res where r: "clone_pairs keys src m VariableSpace_new = Some (m', res)" "mem_inv m'" "mem_extends m m'"
    and c: "\<forall>p \<in> set keys. \<exists>q v c cv. vs_paired src p = Some q \<and> m_vars m q = Some v \<and> vs_paired res p = Some c
         \<and> m_next m \<le> c \<and> m_vars m' c = Some cv \<and> is_copy m m' v cv"
    and o: "\<forall>p. p \<notin> set keys \<longrightarrow> vs_paired res p = vs_paired VariableSpace_new p"
    and vo: "vars_of res \<subseteq> vars_of VariableSpace_new \<union> ran (vs_paired res)"
    using clone_pairs_exact [OF assms(1,2) al] by blast
  have "vs_paired res p = None" if "p \<notin> set keys" for p
    using o that by (cases p) (simp add: VariableSpace_new_def)
  then have "dom (vs_paired res) = dom (vs_paired src)"
    using c assms(3) by (auto simp: domIff)
  moreover have "\<exists>v c cv. m_vars m q = Some v \<and> vs_paired res p = Some c
         \<and> m_next m \<le> c \<and> m_vars m' c = Some cv \<and> is_copy m m' v cv" if "vs_paired src p = Some q" for p q
    using c that assms(3) by (metis domI option.inject)
  moreover have "vars_of res = ran (vs_paired res)"
    using vo by (auto simp: VariableSpace_new_def vars_of_def reachable_vars_def)
  ultimately show ?thesis using r unfolding VariableSpace_clone_def by blast
qed

end
