(* ===== verification/VariableProperties.thy ===== *)
theory VariableProperties
  imports GraphVariables
begin

text \<open>
  The properties of \<open>include/graph/VariableSpace.h\<close>.  A run of a variable space is a sequence of
  insertions, by id or by pair, of variables that exist in memory, interleaved with the creation of
  variables and with lookups by id and by pair, of present and of missing variables.
\<close>

subsection \<open>Runs\<close>

text \<open>The last component of a state tells whether a lookup by id has failed so far.\<close>

inductive vs_step :: "'a mem \<times> vspace \<times> bool \<Rightarrow> 'a mem \<times> vspace \<times> bool \<Rightarrow> bool" where
  step_new: "alloc_var x m = (v, m') \<Longrightarrow> vs_step (m, vs, f) (m', vs, f)"
| step_put: "m_vars m v \<noteq> None \<Longrightarrow> putVariable i v m vs = Some (m', vs') \<Longrightarrow> vs_step (m, vs, f) (m', vs', f)"
| step_put_pair:
    "m_vars m v \<noteq> None \<Longrightarrow> putVariable_pair p v m vs = Some (m', vs') \<Longrightarrow> vs_step (m, vs, f) (m', vs', f)"
| step_output: "putOutputVariable v m vs = Some (m', vs') \<Longrightarrow> vs_step (m, vs, f) (m', vs', f)"
| step_get: "getVariable i vs = Some (r, vs') \<Longrightarrow> vs_step (m, vs, f) (m, vs', f \<or> r = None)"
| step_get_pair: "getVariable_pair p vs = Some (r, vs') \<Longrightarrow> vs_step (m, vs, f) (m, vs', f \<or> r = None)"

text \<open>The invariant of a run: but for the mutex, that of the space; the mutex tells of a failure.\<close>

definition vs_run_inv :: "'a mem \<times> vspace \<times> bool \<Rightarrow> bool" where
  "vs_run_inv s \<longleftrightarrow> (case s of (m, vs, f) \<Rightarrow> vs_inv m (unlock vs) \<and> vs_locked vs = f)"

lemma unlock_free [simp]: "\<not> vs_locked vs \<Longrightarrow> unlock vs = vs"
  by (cases vs) (simp add: unlock_def)

lemma unlock_has [simp]: "hasVariable (unlock vs) i = hasVariable vs i"
  by (simp add: hasVariable_def unlock_def)

lemma locked_blocks:
  assumes "vs_locked vs"
  shows "getVariable i vs = None" "putVariable_pair p v m vs = None"
    and "\<not> hasVariable vs i \<Longrightarrow> putVariable i v m vs = None"
  using assms by (simp_all add: getVariable_def putVariable_pair_def silentPutVariable_def putVariable_def lock_def)

lemma locked_putVariable:
  assumes "vs_locked vs" "putVariable i v m vs = Some (m', vs')"
  shows "vs' = vs" "putVariable i v m (unlock vs) = Some (m', unlock vs)"
proof -
  have h: "hasVariable vs i" using locked_blocks(3) [OF assms(1), of i v m] assms(2) by (cases "hasVariable vs i") auto
  then show "vs' = vs" "putVariable i v m (unlock vs) = Some (m', unlock vs)"
    using assms(2) by (auto simp: putVariable_def unlock_def hasVariable_def bind_eq_Some_conv split: if_splits)
qed

lemma vs_put_run_inv:
  assumes "vs_run_inv (m, vs, f)" "m_vars m v \<noteq> None" "putVariable i v m vs = Some (m', vs')"
  shows "vs_run_inv (m', vs', f)"
proof (cases "vs_locked vs")
  case True
  then show ?thesis
    using assms putVariable_total [of m "unlock vs" v i] locked_putVariable [OF True assms(3)]
    by (auto simp: vs_run_inv_def)
next
  case False
  then obtain m'' vs'' where "putVariable i v m vs = Some (m'', vs'')" "vs_inv m'' vs''"
    using assms putVariable_total [of m vs v i] by (auto simp: vs_run_inv_def)
  moreover from this have "\<not> vs_locked vs''" by (simp add: vs_inv_def)
  ultimately show ?thesis using assms False by (simp add: vs_run_inv_def)
qed

lemma vs_get_run_inv:
  assumes "vs_run_inv (m, vs, f)" "getVariable i vs = Some (r, vs')"
  shows "vs_run_inv (m, vs', f \<or> r = None)"
proof -
  have nl: "\<not> vs_locked vs" using assms(2) locked_blocks(1) [of vs i] by (cases "vs_locked vs") auto
  then have inv: "vs_inv m vs" "\<not> f" using assms(1) by (simp_all add: vs_run_inv_def)
  show ?thesis
  proof (cases "hasVariable vs i")
    case True
    with getVariable_present [OF inv(1), of i] assms(2) show ?thesis using inv nl by (auto simp: vs_run_inv_def)
  next
    case False
    then have "r = None" "vs' = vs\<lparr>vs_locked := True\<rparr>"
      using getVariable_absent(1) [OF inv(1)] assms(2) by auto
    moreover have "unlock (vs\<lparr>vs_locked := True\<rparr>) = vs" using nl by (cases vs) (simp add: unlock_def)
    ultimately show ?thesis using inv by (simp add: vs_run_inv_def)
  qed
qed

lemma vs_step_inv:
  assumes "vs_step s s'" "vs_run_inv s"
  shows "vs_run_inv s'"
  using assms(1)
proof cases
  case (step_new x m v m' vs f)
  then have "\<forall>p. m_vars m p \<noteq> None \<longrightarrow> m_vars m' p \<noteq> None" by (auto simp: alloc_var_def)
  then show ?thesis using vs_inv_mono [of m "unlock vs" m'] step_new assms(2) by (simp add: vs_run_inv_def)
next
  case (step_put m v i vs m' vs' f)
  then show ?thesis using vs_put_run_inv assms(2) by blast
next
  case (step_put_pair m v p vs m' vs' f)
  then have nl: "\<not> vs_locked vs" using locked_blocks(2) [of vs p v m] by (cases "vs_locked vs") auto
  then obtain m'' vs'' where "putVariable_pair p v m vs = Some (m'', vs'')" "vs_inv m'' vs''"
    using step_put_pair assms(2) putVariable_pair_total [of m vs v p] by (auto simp: vs_run_inv_def)
  moreover from this have "\<not> vs_locked vs''" by (simp add: vs_inv_def)
  ultimately show ?thesis using step_put_pair assms(2) nl by (simp add: vs_run_inv_def)
next
  case (step_output v m vs m' vs' f)
  then obtain x where "m_vars m v = Some x" "putVariable (v_id x) v m vs = Some (m', vs')"
    by (auto simp: putOutputVariable_def bind_eq_Some_conv)
  then show ?thesis using vs_put_run_inv step_output(1,2) assms(2) by blast
next
  case (step_get i vs r vs' m f)
  then show ?thesis using vs_get_run_inv assms(2) by blast
next
  case (step_get_pair p vs r vs' m f)
  show ?thesis
  proof (cases "vs_paired vs p = None \<and> hasVariable vs (fst p) \<and> snd p = 0")
    case True
    then obtain q where "getVariable (fst p) vs = Some (q, vs')" "r = map_option Some q"
      using step_get_pair(3) by (auto simp: getVariable_pair_def bind_eq_Some_conv)
    then show ?thesis using vs_get_run_inv [of m vs f "fst p" q vs'] step_get_pair(1,2) assms(2) by simp
  next
    case False
    then have "vs' = vs \<and> r \<noteq> None" using step_get_pair(3) by (auto simp: getVariable_pair_def split: option.splits)
    then show ?thesis using step_get_pair(1,2) assms(2) by (auto simp: vs_run_inv_def)
  qed
qed

definition vs_start :: "'a mem \<times> vspace \<times> bool" where
  "vs_start = (mem_empty, VariableSpace_new, False)"

lemma vs_run_invariant: "vs_step\<^sup>*\<^sup>* vs_start s \<Longrightarrow> vs_run_inv s"
proof (induction rule: rtranclp_induct)
  case base
  show ?case using vs_inv_new [of mem_empty]
    by (simp add: vs_start_def vs_run_inv_def) (simp add: VariableSpace_new_def unlock_def)
qed (rule vs_step_inv)

subsection \<open>Properties\<close>

text \<open>
  C6.  In every run of a variable space that starts empty, of creations, insertions of live variables
  and lookups, failing lookups included: negative ids are exactly the external variables, every
  variable that can be looked up by id, pair or name is owned by the space and alive, output 0 of a
  node is found by id exactly when it is found by pair, and the automatic counter is below all ids.
  The mutex is held exactly when some lookup by id has failed so far, and from then on every lookup
  by id, every insertion by pair and every insertion of a new id blocks.
\<close>

theorem variable_space_run_invariant:
  assumes "vs_step\<^sup>*\<^sup>* vs_start (m, vs, failed)"
  shows "dom (vs_variables vs) \<subseteq> {..<0} \<and> dom (vs_temporary vs) \<subseteq> {0..}
    \<and> reachable_vars vs \<subseteq> set (vs_handles vs) \<and> (\<forall>p \<in> set (vs_handles vs). m_vars m p \<noteq> None)
    \<and> (\<forall>i. hasVariable vs i \<longleftrightarrow> hasVariable_pair vs (i, 0))
    \<and> (\<forall>i. hasVariable vs i \<longrightarrow> vs_auto_counter vs < i)
    \<and> vs_locked vs = failed
    \<and> (failed \<longrightarrow> (\<forall>i. getVariable i vs = None) \<and> (\<forall>p v. putVariable_pair p v m vs = None)
        \<and> (\<forall>i v. \<not> hasVariable vs i \<longrightarrow> putVariable i v m vs = None))"
proof -
  have inv: "vs_inv m (unlock vs)" "vs_locked vs = failed"
    using vs_run_invariant [OF assms] by (simp_all add: vs_run_inv_def)
  have u: "vs_variables (unlock vs) = vs_variables vs" "vs_temporary (unlock vs) = vs_temporary vs"
    "reachable_vars (unlock vs) = reachable_vars vs" "vs_handles (unlock vs) = vs_handles vs"
    "hasVariable_pair (unlock vs) q = hasVariable_pair vs q" "vs_auto_counter (unlock vs) = vs_auto_counter vs" for q
    by (simp_all add: unlock_def reachable_vars_def hasVariable_pair_def)
  show ?thesis
    using inv(1) [unfolded vs_inv_def u unlock_has] inv(2) locked_blocks [of vs] by blast
qed

definition example_vs :: "nat mem \<times> vspace" where
  "example_vs = (let (v, m) = alloc_var (Variable_new None ''x'') mem_empty in
     the (putVariable (-1) v m VariableSpace_new))"

text \<open>After the insertion, a lookup of an id that is not there.\<close>

lemma example_vs_run:
  "vs_step\<^sup>*\<^sup>* vs_start (fst example_vs, (snd example_vs)\<lparr>vs_locked := True\<rparr>, True)"
  "hasVariable (snd example_vs) (-1)"
proof -
  let ?x = "Variable_new None ''x''"
  let ?m = "mem_empty\<lparr>m_vars := (m_vars (mem_empty :: nat mem))(0 \<mapsto> ?x), m_next := 1\<rparr> :: nat mem"
  have a: "alloc_var ?x (mem_empty :: nat mem) = (0, ?m)" by (simp add: alloc_var_def mem_empty_def)
  have h: "\<not> hasVariable VariableSpace_new (-1)" by (simp add: hasVariable_def VariableSpace_new_def)
  have m: "m_vars ?m 0 = Some ?x" by simp
  note p = putVariable_fresh [OF vs_inv_new m h]
  have e: "putVariable (-1) 0 ?m VariableSpace_new = Some example_vs"
    unfolding example_vs_def Let_def a prod.case by (simp only: p option.sel)
  obtain m1 vs1 where ev: "example_vs = (m1, vs1)" by (cases example_vs)
  have s1: "vs_step vs_start (?m, VariableSpace_new, False)"
    unfolding vs_start_def by (rule step_new [OF a])
  have s2: "vs_step (?m, VariableSpace_new, False) (m1, vs1, False)"
    using step_put [of ?m 0 "-1" VariableSpace_new m1 vs1] e m ev by simp
  have "vs_step\<^sup>*\<^sup>* vs_start (m1, vs1, False)" using s1 s2 by (meson rtranclp.simps)
  from vs_run_invariant [OF this] have "vs_inv m1 vs1" by (auto simp: vs_run_inv_def)
  have v1: "vs1 = entered (-1) 0 ?x VariableSpace_new" using e [unfolded p option.inject ev prod.inject] by (rule conjunct2 [THEN sym])
  then have "\<not> hasVariable vs1 5" by (simp add: hasVariable_def VariableSpace_new_def)
  then have "getVariable 5 vs1 = Some (None, vs1\<lparr>vs_locked := True\<rparr>)"
    by (rule getVariable_absent(1) [OF \<open>vs_inv m1 vs1\<close>])
  then have "vs_step (m1, vs1, False) (m1, vs1\<lparr>vs_locked := True\<rparr>, True)"
    using step_get [of 5 vs1 None "vs1\<lparr>vs_locked := True\<rparr>" m1 False] by simp
  with s1 s2 show "vs_step\<^sup>*\<^sup>* vs_start (fst example_vs, (snd example_vs)\<lparr>vs_locked := True\<rparr>, True)"
    unfolding ev fst_conv snd_conv by (meson rtranclp.rtrancl_into_rtrancl rtranclp.rtrancl_refl)
  show "hasVariable (snd example_vs) (-1)" unfolding ev snd_conv v1 by (simp add: hasVariable_def)
qed

theorem variable_space_run_invariant_witness:
  "vs_auto_counter ((snd example_vs)\<lparr>vs_locked := True\<rparr>) < -1
    \<and> getVariable (-1) ((snd example_vs)\<lparr>vs_locked := True\<rparr>) = None"
proof -
  have "hasVariable ((snd example_vs)\<lparr>vs_locked := True\<rparr>) (-1)"
    using example_vs_run(2) by (simp add: hasVariable_def)
  then show ?thesis using variable_space_run_invariant [OF example_vs_run(1)] by blast
qed

text \<open>
  C7.  Putting a variable under a new id makes exactly that id available: a later lookup by id and a
  lookup by the pair of output 0 both return this variable and leave the space unchanged, lookups
  of other ids give what they gave before, and one entry is added.
\<close>

theorem put_then_get:
  assumes "vs_inv m vs" "entries_inv vs" "m_vars m v \<noteq> None" "\<not> hasVariable vs i"
  shows "\<exists>m' vs'. putVariable i v m vs = Some (m', vs') \<and> vs_inv m' vs'
    \<and> getVariable i vs' = Some (Some v, vs') \<and> getVariable_pair (i, 0) vs' = Some (Some (Some v), vs')
    \<and> (\<forall>k. k \<noteq> i \<longrightarrow> map_option fst (getVariable k vs') = map_option fst (getVariable k vs))
    \<and> totalEntries vs' = totalEntries vs + 1"
proof -
  obtain x where x: "m_vars m v = Some x" using assms(3) by auto
  let ?m = "m\<lparr>m_vars := (m_vars m)(v \<mapsto> x\<lparr>v_id := i\<rparr>)\<rparr>" and ?e = "entered i v x vs"
  have put: "putVariable i v m vs = Some (?m, ?e)" by (rule putVariable_fresh [OF assms(1) x assms(4)])
  have inv: "vs_inv ?m ?e"
    by (rule entered_inv) (use vs_inv_mono [OF assms(1), of ?m] in auto)
  have nl: "\<not> vs_locked vs" using assms(1) by (simp add: vs_inv_def)
  have u: "?e\<lparr>vs_locked := False\<rparr> = ?e" by (simp add: entered_def)
  have "getVariable i ?e = Some (Some v, ?e)"
    by (cases "i < 0"; simp add: getVariable_def lock_def unlock_def u)
  moreover have "getVariable_pair (i, 0) ?e = Some (Some (Some v), ?e)"
    using getVariable_pair_exact [OF inv, of "(i, 0)"] by simp
  moreover have "map_option fst (getVariable k ?e) = map_option fst (getVariable k vs)" if "k \<noteq> i" for k
    using that nl by (cases "k < 0"; cases "i < 0"; simp add: getVariable_def lock_def split: option.split)
  moreover have "totalEntries ?e = totalEntries vs + 1"
    using putVariable_entries(2) [OF assms(1-3) put] assms(4) by simp
  ultimately show ?thesis using put inv by blast
qed

theorem put_then_get_witness:
  "\<exists>m' vs'. putVariable 7 0 (mem_empty\<lparr>m_vars := [0 \<mapsto> Variable_new None ''x'']\<rparr>) VariableSpace_new = Some (m', vs')
    \<and> getVariable 7 vs' = Some (Some 0, vs')"
proof -
  have "m_vars (mem_empty\<lparr>m_vars := [0 \<mapsto> Variable_new None ''x'']\<rparr>) 0 \<noteq> None" by simp
  moreover have "\<not> hasVariable VariableSpace_new 7" by (simp add: hasVariable_def VariableSpace_new_def)
  ultimately show ?thesis using put_then_get [OF vs_inv_new entries_new] by blast
qed

text \<open>
  C8.  A lookup of a missing id throws with the mutex held, after which every lookup by id and every
  insertion by pair blocks for ever.
\<close>

theorem missing_lookup_deadlocks:
  assumes "vs_inv m vs" "\<not> hasVariable vs i"
  shows "\<exists>vs'. getVariable i vs = Some (None, vs') \<and> (\<forall>k. getVariable k vs' = None)
    \<and> (\<forall>p v. putVariable_pair p v m vs' = None)"
  using getVariable_absent [OF assms] by blast

theorem missing_lookup_deadlocks_witness:
  "\<exists>vs'. getVariable 3 VariableSpace_new = Some (None, vs') \<and> getVariable (-1) vs' = None"
proof -
  have "\<not> hasVariable VariableSpace_new 3" by (simp add: hasVariable_def VariableSpace_new_def)
  then show ?thesis using missing_lookup_deadlocks [OF vs_inv_new] by blast
qed

text \<open>
  \<open>clone\<close> gives an isolated copy: every pair of the original is bound in the clone to a new
  object with the same id, name and flags and with its own copy of the array, nothing else is bound
  or pointed to, and no object of the original is changed.
\<close>

theorem clone_isolates:
  assumes "mem_inv m" "distinct keys" "set keys = dom (vs_paired src)"
    and "\<forall>q \<in> ran (vs_paired src). m_vars m q \<noteq> None"
  shows "\<exists>m' res. VariableSpace_clone keys src m = Some (m', res) \<and> mem_inv m' \<and> mem_extends m m'
    \<and> dom (vs_paired res) = dom (vs_paired src) \<and> vars_of res = ran (vs_paired res)
    \<and> (\<forall>p q. vs_paired src p = Some q \<longrightarrow> (\<exists>v c cv. m_vars m q = Some v \<and> vs_paired res p = Some c
         \<and> m_next m \<le> c \<and> m_vars m' c = Some cv \<and> is_copy m m' v cv))"
  by (rule VariableSpace_clone_exact [OF assms])

theorem clone_isolates_witness:
  "\<exists>m' res. VariableSpace_clone [(7, 0)] (VariableSpace_new\<lparr>vs_paired := [(7, 0) \<mapsto> 0]\<rparr>)
      \<lparr>m_vars = [0 \<mapsto> Variable_new (Some 1) ''x''], m_arrs = [1 \<mapsto> 5 :: nat], m_next = 2\<rparr> = Some (m', res)
    \<and> dom (vs_paired res) = {(7, 0)}"
proof -
  let ?m = "\<lparr>m_vars = [0 \<mapsto> Variable_new (Some 1) ''x''], m_arrs = [1 \<mapsto> 5 :: nat], m_next = 2\<rparr>"
  have "mem_inv ?m" by (simp add: mem_inv_def Variable_new_def)
  from clone_isolates [OF this, of "[(7, 0)]" "VariableSpace_new\<lparr>vs_paired := [(7, 0) \<mapsto> 0]\<rparr>"]
  show ?thesis by auto
qed

end
