(* ===== verification/Containers.thy ===== *)
theory Containers
  imports CPrelude "HOL-Library.List_Lexorder" "HOL-Library.Char_ord" "HOL-Library.Product_Lexorder"
begin

text \<open>
  The containers of the C++ standard library as the graph classes use them.  A \<open>std::map\<close> is the
  list of its pairs in ascending order of the keys, which is the order of its iterators; every
  operation compares keys only with the strict order.  The locale \<open>keyed_store\<close> is the contract
  of an interface that stores values under keys; the components that offer such an interface
  interpret it.
\<close>

subsection \<open>\<open>std::map\<close>\<close>

type_synonym ('k, 'v) std_map = "('k \<times> 'v) list"

text \<open>\<open>m[k] = v\<close>, \<open>m.insert(pair(k, v))\<close>, \<open>m.erase(k)\<close>, and the iterator after the key \<open>k\<close>.\<close>

fun sm_put :: "'k::linorder \<Rightarrow> 'v \<Rightarrow> ('k, 'v) std_map \<Rightarrow> ('k, 'v) std_map" where
  "sm_put k v [] = [(k, v)]"
| "sm_put k v ((k', v') # m) =
     (if k < k' then (k, v) # (k', v') # m
      else if k' < k then (k', v') # sm_put k v m else (k', v) # m)"

fun sm_insert :: "'k::linorder \<Rightarrow> 'v \<Rightarrow> ('k, 'v) std_map \<Rightarrow> ('k, 'v) std_map" where
  "sm_insert k v [] = [(k, v)]"
| "sm_insert k v ((k', v') # m) =
     (if k < k' then (k, v) # (k', v') # m
      else if k' < k then (k', v') # sm_insert k v m else (k', v') # m)"

fun sm_erase :: "'k::linorder \<Rightarrow> ('k, 'v) std_map \<Rightarrow> ('k, 'v) std_map" where
  "sm_erase k [] = []"
| "sm_erase k ((k', v') # m) =
     (if k < k' then (k', v') # m else if k' < k then (k', v') # sm_erase k m else m)"

fun sm_find :: "('k::linorder, 'v) std_map \<Rightarrow> 'k \<Rightarrow> 'v option" where
  "sm_find [] k = None"
| "sm_find ((k', v') # m) k = (if k < k' then None else if k' < k then sm_find m k else Some v')"

definition sm_after :: "'k::linorder \<Rightarrow> ('k, 'v) std_map \<Rightarrow> ('k, 'v) std_map" where
  "sm_after k m = filter (\<lambda>(k', _). k < k') m"

definition sm_wf :: "('k::linorder, 'v) std_map \<Rightarrow> bool" where
  "sm_wf m \<longleftrightarrow> sorted_wrt (<) (map fst m)"

lemma sm_wf_simps [simp]:
  "sm_wf []" "sm_wf ((k, v) # m) \<longleftrightarrow> (\<forall>x \<in> set m. k < fst x) \<and> sm_wf m"
  by (auto simp: sm_wf_def)

lemma sm_find_eq: "sm_wf m \<Longrightarrow> sm_find m k = map_of m k"
proof (induction m)
  case (Cons p m)
  obtain k' v' where p: "p = (k', v')" by (cases p)
  show ?case
  proof (cases "k < k'")
    case True
    then have "k \<notin> fst ` set m" using Cons.prems p by fastforce
    then have "map_of m k = None" by (simp add: map_of_eq_None_iff)
    with True show ?thesis using p by auto
  next
    case False
    then show ?thesis using Cons p by (cases "k' < k") auto
  qed
qed simp

lemma set_sm_put: "sm_wf m \<Longrightarrow> set (sm_put k v m) = insert (k, v) {x \<in> set m. fst x \<noteq> k}"
proof (induction k v m rule: sm_put.induct)
  case (2 k v k' v' m)
  consider "k < k'" | "k' < k" | "k = k'" by (rule linorder_cases)
  then show ?case using 2 by cases (fastforce, auto)
qed simp

lemma set_sm_insert:
  "sm_wf m \<Longrightarrow> set (sm_insert k v m) = (if k \<in> fst ` set m then set m else insert (k, v) (set m))"
proof (induction k v m rule: sm_insert.induct)
  case (2 k v k' v' m)
  show ?case
  proof (cases "k < k'")
    case True
    then have "k \<notin> fst ` set m" using 2(2) by fastforce
    with True show ?thesis by auto
  next
    case False
    then show ?thesis using 2 by (cases "k' < k") auto
  qed
qed simp

lemma set_sm_erase: "sm_wf m \<Longrightarrow> set (sm_erase k m) = {x \<in> set m. fst x \<noteq> k}"
proof (induction k m rule: sm_erase.induct)
  case (2 k k' v' m)
  consider "k < k'" | "k' < k" | "k = k'" by (rule linorder_cases)
  then show ?case using 2 by cases (fastforce, auto)
qed simp

lemma sm_wf_put [simp]: "sm_wf m \<Longrightarrow> sm_wf (sm_put k v m)"
  by (induction k v m rule: sm_put.induct) (auto simp: set_sm_put)

lemma sm_wf_insert [simp]: "sm_wf m \<Longrightarrow> sm_wf (sm_insert k v m)"
  by (induction k v m rule: sm_insert.induct) (auto simp: set_sm_insert)

lemma sm_wf_erase [simp]: "sm_wf m \<Longrightarrow> sm_wf (sm_erase k m)"
  by (induction k m rule: sm_erase.induct) (auto simp: set_sm_erase)

lemma sm_wf_after [simp]: "sm_wf m \<Longrightarrow> sm_wf (sm_after k m)"
  by (simp add: sm_wf_def sm_after_def sorted_wrt_map sorted_wrt_filter)

lemma sm_find_put: "sm_wf m \<Longrightarrow> sm_find (sm_put k v m) = (sm_find m)(k \<mapsto> v)"
  by (induction k v m rule: sm_put.induct) (auto simp: fun_eq_iff)

lemma sm_find_insert:
  "sm_wf m \<Longrightarrow> sm_find (sm_insert k v m) = (if sm_find m k = None then (sm_find m)(k \<mapsto> v) else sm_find m)"
  by (induction k v m rule: sm_insert.induct) (auto simp: fun_eq_iff split: if_splits)

lemma sm_find_erase: "sm_wf m \<Longrightarrow> sm_find (sm_erase k m) = (sm_find m)(k := None)"
proof (induction k m rule: sm_erase.induct)
  case (2 k k' v' m)
  have "sm_find m x = None" if "x \<le> k'" for x
  proof -
    have "x \<notin> fst ` set m" using 2(2) that by fastforce
    then show ?thesis using 2(2) by (simp add: sm_find_eq map_of_eq_None_iff)
  qed
  then show ?case using 2 by (auto simp: fun_eq_iff)
qed (simp add: fun_eq_iff)

lemma sm_find_set: "sm_wf m \<Longrightarrow> sm_find m k = Some v \<longleftrightarrow> (k, v) \<in> set m"
  by (simp add: sm_find_eq sm_wf_def map_of_eq_Some_iff strict_sorted_iff)

lemmas sm_laws = sm_find_put sm_find_insert sm_find_erase

subsection \<open>Stores with keys\<close>

text \<open>
  A store offers \<open>get\<close> and \<open>put\<close>; a put may fail (\<^term>\<open>None\<close>) outside the states \<open>ok\<close> or for values
  that are not \<open>storable\<close>.  The client \<open>put_all\<close> performs a list of insertions.
\<close>

fun put_all :: "('k \<Rightarrow> 'v \<Rightarrow> 's \<Rightarrow> 's option) \<Rightarrow> ('k \<times> 'v) list \<Rightarrow> 's \<Rightarrow> 's option" where
  "put_all put [] s = Some s"
| "put_all put ((k, v) # kvs) s = Option.bind (put k v s) (put_all put kvs)"

locale keyed_store =
  fixes get :: "'k \<Rightarrow> 's \<Rightarrow> 'v option"
    and put :: "'k \<Rightarrow> 'v \<Rightarrow> 's \<Rightarrow> 's option"
    and ok :: "'s \<Rightarrow> bool"
    and storable :: "'v \<Rightarrow> 's \<Rightarrow> bool"
  assumes put_total: "ok s \<Longrightarrow> storable v s \<Longrightarrow> put k v s \<noteq> None"
    and put_ok: "ok s \<Longrightarrow> storable v s \<Longrightarrow> put k v s = Some s' \<Longrightarrow> ok s'"
    and put_storable: "ok s \<Longrightarrow> storable v s \<Longrightarrow> put k v s = Some s' \<Longrightarrow> storable w s \<Longrightarrow> storable w s'"
    and get_put: "ok s \<Longrightarrow> storable v s \<Longrightarrow> put k v s = Some s' \<Longrightarrow>
      get k' s' = (if k' = k then Some v else get k' s)"
begin

lemma put_get_same: "ok s \<Longrightarrow> storable v s \<Longrightarrow> put k v s = Some s' \<Longrightarrow> get k s' = Some v"
  by (simp add: get_put)

lemma put_all_exact:
  assumes "ok s" "\<forall>(k, v) \<in> set kvs. storable v s"
  shows "\<exists>s'. put_all put kvs s = Some s' \<and> ok s'
    \<and> (\<forall>k. get k s' = (case map_of (rev kvs) k of Some v \<Rightarrow> Some v | None \<Rightarrow> get k s))"
  using assms
proof (induction kvs arbitrary: s)
  case (Cons p kvs)
  obtain k v where p: "p = (k, v)" by (cases p)
  have st: "storable v s" using Cons.prems(2) p by simp
  obtain s1 where s1: "put k v s = Some s1" using put_total [OF Cons.prems(1) st, of k] by auto
  have "\<forall>(k, v) \<in> set kvs. storable v s1"
    using Cons.prems put_storable [OF Cons.prems(1) st s1] by auto
  from Cons.IH [OF put_ok [OF Cons.prems(1) st s1] this] obtain s2 where
    s2: "put_all put kvs s1 = Some s2" "ok s2"
      "\<forall>k. get k s2 = (case map_of (rev kvs) k of Some v \<Rightarrow> Some v | None \<Rightarrow> get k s1)" by blast
  have "get x s2 = (case map_of (rev (p # kvs)) x of Some v \<Rightarrow> Some v | None \<Rightarrow> get x s)" for x
    using s2(3) get_put [OF Cons.prems(1) st s1, of x] p
    by (auto simp: map_of_append map_add_def split: option.splits)
  with s1 s2 p show ?case by auto
qed simp

lemma put_all_distinct:
  assumes "ok s" "\<forall>(k, v) \<in> set kvs. storable v s" "distinct (map fst kvs)"
  obtains s' where "put_all put kvs s = Some s'" "ok s'" "\<And>k v. (k, v) \<in> set kvs \<Longrightarrow> get k s' = Some v"
    "\<And>k. k \<notin> fst ` set kvs \<Longrightarrow> get k s' = get k s"
proof -
  obtain s' where s': "put_all put kvs s = Some s'" "ok s'"
    "\<forall>k. get k s' = (case map_of (rev kvs) k of Some v \<Rightarrow> Some v | None \<Rightarrow> get k s)"
    using put_all_exact [OF assms(1,2)] by blast
  have some: "map_of (rev kvs) k = Some v \<longleftrightarrow> (k, v) \<in> set kvs" for k v
    using assms(3) by (subst map_of_eq_Some_iff) (auto simp: rev_map [symmetric])
  show thesis
  proof (rule that [OF s'(1,2)])
    show "get k s' = Some v" if "(k, v) \<in> set kvs" for k v
      using s'(3) that unfolding some [symmetric] by simp
    show "get k s' = get k s" if "k \<notin> fst ` set kvs" for k
    proof -
      have "map_of (rev kvs) k = None" using that by (simp add: map_of_eq_None_iff)
      then show ?thesis using s'(3) by simp
    qed
  qed
qed

end

interpretation sm: keyed_store "\<lambda>k m. sm_find m k" "\<lambda>k v m. Some (sm_put k v m)" sm_wf "\<lambda>_ _. True"
  by unfold_locales (auto simp: sm_find_put)

end
