(* ===== verification/GraphSessions.thy ===== *)
theory GraphSessions
  imports Containers GraphVariables
begin

text \<open>
  \<open>include/graph/Stash.h\<close>, a store of arrays under pairs of a node id and a name, and
  \<open>include/graph/SessionLocalStorage.h\<close>, which gives every thread its own clone of a variable space.
  The sessions are a state machine whose steps are the critical sections of the methods, so that
  the threads interleave between them.
\<close>

subsection \<open>Keys of the stash\<close>

datatype KeyPair = KeyPair (kp_node: int) (kp_name: string)

text \<open>\<open>operator<\<close>.\<close>

fun KeyPair_less :: "KeyPair \<Rightarrow> KeyPair \<Rightarrow> bool" where
  "KeyPair_less (KeyPair node name) (KeyPair node' name') =
     (if node < node' then True else if node > node' then False else name < name')"

instantiation KeyPair :: linorder
begin

definition less_KeyPair :: "KeyPair \<Rightarrow> KeyPair \<Rightarrow> bool" where
  "less_KeyPair = KeyPair_less"

definition less_eq_KeyPair :: "KeyPair \<Rightarrow> KeyPair \<Rightarrow> bool" where
  "less_eq_KeyPair x y \<longleftrightarrow> \<not> KeyPair_less y x"

instance
proof
  fix x y z :: KeyPair
  show "x < y \<longleftrightarrow> x \<le> y \<and> \<not> y \<le> x"
    by (cases x; cases y) (auto simp: less_KeyPair_def less_eq_KeyPair_def)
  show "x \<le> x" by (cases x) (simp add: less_eq_KeyPair_def)
  show "x \<le> y \<or> y \<le> x" by (cases x; cases y) (auto simp: less_eq_KeyPair_def)
  show "x \<le> z" if "x \<le> y" "y \<le> z"
    using that by (cases x; cases y; cases z) (auto simp: less_eq_KeyPair_def split: if_splits)
  show "x = y" if "x \<le> y" "y \<le> x"
    using that by (cases x; cases y) (auto simp: less_eq_KeyPair_def split: if_splits)
qed

end

subsection \<open>\<open>Stash\<close>\<close>

text \<open>
  An array is a pointer, \<^term>\<open>None\<close> for \<open>nullptr\<close>.  The constructor of a key copies its name, so a
  null name (the default) is undefined.
\<close>

record stash =
  st_stash :: "(KeyPair, nat option) std_map"
  st_handles :: "nat option list"

definition Stash_new :: stash where
  "Stash_new = \<lparr>st_stash = [], st_handles = []\<rparr>"

definition KeyPair_new :: "int \<Rightarrow> string option \<Rightarrow> KeyPair option" where
  "KeyPair_new node name = map_option (KeyPair node) name"

definition checkStash :: "int \<Rightarrow> string option \<Rightarrow> stash \<Rightarrow> bool option" where
  "checkStash nodeId name s = do {
     kp \<leftarrow> KeyPair_new nodeId name;
     Some (sm_find (st_stash s) kp \<noteq> None) }"

text \<open>\<open>operator[]\<close> inserts a null pointer for a missing key.\<close>

definition extractArray :: "int \<Rightarrow> string option \<Rightarrow> stash \<Rightarrow> (nat option \<times> stash) option" where
  "extractArray nodeId name s = do {
     kp \<leftarrow> KeyPair_new nodeId name;
     Some (case sm_find (st_stash s) kp of
             Some a \<Rightarrow> (a, s)
           | None \<Rightarrow> (None, s\<lparr>st_stash := sm_insert kp None (st_stash s)\<rparr>)) }"

definition storeArray :: "int \<Rightarrow> string option \<Rightarrow> nat option \<Rightarrow> stash \<Rightarrow> stash option" where
  "storeArray nodeId name array s = do {
     kp \<leftarrow> KeyPair_new nodeId name;
     Some (s\<lparr>st_stash := sm_put kp array (st_stash s), st_handles := st_handles s @ [array]\<rparr>) }"

text \<open>\<open>delete\<close> of a null pointer does nothing, of an object that is gone is undefined.\<close>

fun delete_arrays :: "nat option list \<Rightarrow> 'a mem \<Rightarrow> 'a mem option" where
  "delete_arrays [] m = Some m"
| "delete_arrays (None # hs) m = delete_arrays hs m"
| "delete_arrays (Some a # hs) m = do {
     x \<leftarrow> m_arrs m a;
     delete_arrays hs (m\<lparr>m_arrs := (m_arrs m)(a := None)\<rparr>) }"

definition Stash_clear :: "'a mem \<Rightarrow> stash \<Rightarrow> ('a mem \<times> stash) option" where
  "Stash_clear m s = do {
     m \<leftarrow> delete_arrays (st_handles s) m;
     Some (m, s\<lparr>st_handles := [], st_stash := []\<rparr>) }"

definition Stash_delete :: "'a mem \<Rightarrow> stash \<Rightarrow> 'a mem option" where
  "Stash_delete m s =
     (if length (st_handles s) > 0 then map_option fst (Stash_clear m s) else Some m)"

subsection \<open>The stash as a store\<close>

definition stash_get :: "int \<times> string \<Rightarrow> stash \<Rightarrow> nat option" where
  "stash_get k s = Option.bind (extractArray (fst k) (Some (snd k)) s) fst"

definition stash_put :: "int \<times> string \<Rightarrow> nat \<Rightarrow> stash \<Rightarrow> stash option" where
  "stash_put k a s = storeArray (fst k) (Some (snd k)) (Some a) s"

definition stash_ok :: "stash \<Rightarrow> bool" where
  "stash_ok s \<longleftrightarrow> sm_wf (st_stash s)
     \<and> (\<forall>k a. sm_find (st_stash s) k = Some (Some a) \<longrightarrow> Some a \<in> set (st_handles s))"

lemma stash_get_eq:
  "stash_get k s = (case sm_find (st_stash s) (KeyPair (fst k) (snd k)) of Some a \<Rightarrow> a | None \<Rightarrow> None)"
  by (simp add: stash_get_def extractArray_def KeyPair_new_def split: option.split)

lemma stash_put_eq:
  "stash_put k a s = Some (s\<lparr>st_stash := sm_put (KeyPair (fst k) (snd k)) (Some a) (st_stash s),
     st_handles := st_handles s @ [Some a]\<rparr>)"
  by (simp add: stash_put_def storeArray_def KeyPair_new_def)

interpretation st: keyed_store stash_get stash_put stash_ok "\<lambda>_ _. True"
proof unfold_locales
  fix s v k s' assume s: "stash_ok s" and p: "stash_put k v s = Some s'"
  have wf: "sm_wf (st_stash s)" using s by (simp add: stash_ok_def)
  show "stash_ok s'"
    using s p by (auto simp: stash_put_eq stash_ok_def sm_laws split: if_splits)
  show "stash_get k' s' = (if k' = k then Some v else stash_get k' s)" for k'
    using wf p by (cases k; cases k') (auto simp: stash_put_eq stash_get_eq sm_laws)
qed (simp_all add: stash_put_eq)

text \<open>Clearing frees every stored array exactly when no array was stored twice.\<close>

lemma delete_arrays_exact:
  "(\<exists>m'. delete_arrays hs m = Some m') \<longleftrightarrow>
     distinct (filter (\<lambda>h. h \<noteq> None) hs) \<and> (\<forall>a. Some a \<in> set hs \<longrightarrow> m_arrs m a \<noteq> None)"
proof (induction hs m rule: delete_arrays.induct)
  case (3 a hs m)
  show ?case
  proof (cases "m_arrs m a")
    case None
    then show ?thesis by auto
  next
    case (Some x)
    then show ?thesis using "3.IH" [OF Some] by (auto split: if_splits)
  qed
qed auto

lemma delete_arrays_frees:
  "delete_arrays hs m = Some m' \<Longrightarrow> m_vars m' = m_vars m
     \<and> m_arrs m' = (\<lambda>a. if Some a \<in> set hs then None else m_arrs m a)"
proof (induction hs m rule: delete_arrays.induct)
  case (3 a hs m)
  then obtain x where "m_arrs m a = Some x" "delete_arrays hs (m\<lparr>m_arrs := (m_arrs m)(a := None)\<rparr>) = Some m'"
    by (auto simp: bind_eq_Some_conv)
  with "3.IH" show ?case by (auto simp: fun_eq_iff)
qed auto

subsection \<open>The variable space as a store\<close>

definition vs_get :: "int \<times> int \<Rightarrow> 'a mem \<times> vspace \<Rightarrow> nat option" where
  "vs_get p s = (case getVariable_pair p (snd s) of Some (Some r, _) \<Rightarrow> r | _ \<Rightarrow> None)"

definition vs_put :: "int \<times> int \<Rightarrow> nat \<Rightarrow> 'a mem \<times> vspace \<Rightarrow> ('a mem \<times> vspace) option" where
  "vs_put p v s = putVariable_pair p v (fst s) (snd s)"

lemma putVariable_pair_alive:
  "vs_inv m vs \<Longrightarrow> m_vars m v \<noteq> None \<Longrightarrow> putVariable_pair p v m vs = Some (m', vs') \<Longrightarrow>
   m_vars m w \<noteq> None \<Longrightarrow> m_vars m' w \<noteq> None"
  by (auto simp: putVariable_pair_exact split: if_splits)

interpretation vs: keyed_store vs_get vs_put "\<lambda>s. vs_inv (fst s) (snd s)" "\<lambda>v s. m_vars (fst s) v \<noteq> None"
proof unfold_locales
  fix s :: "'a mem \<times> vspace" and v k s'
  assume s: "vs_inv (fst s) (snd s)" and v: "m_vars (fst s) v \<noteq> None"
  obtain m' vs' where p: "putVariable_pair k v (fst s) (snd s) = Some (m', vs')" "vs_inv m' vs'"
    "vs_paired vs' k = Some v" "\<forall>q. q \<noteq> k \<longrightarrow> vs_paired vs' q = vs_paired (snd s) q"
    using putVariable_pair_total [OF s v, of k] by blast
  show "vs_put k v s \<noteq> None" using p(1) by (simp add: vs_put_def)
  assume s': "vs_put k v s = Some s'"
  then have e: "s' = (m', vs')" using p(1) by (simp add: vs_put_def)
  show "vs_inv (fst s') (snd s')" using p(2) e by simp
  show "m_vars (fst s') w \<noteq> None" if "m_vars (fst s) w \<noteq> None" for w
    using putVariable_pair_alive [OF s v p(1) that] e by simp
  show "vs_get k' s' = (if k' = k then Some v else vs_get k' s)" for k'
    using getVariable_pair_exact [OF s, of k'] getVariable_pair_exact [OF p(2), of k'] p(3) p(4) [rule_format, of k']
    by (simp add: vs_get_def e)
qed

subsection \<open>\<open>SessionLocalStorage\<close>\<close>

text \<open>
  A thread is identified by \<open>getThreadId()\<close>.  \<open>ss_pc\<close> records where a thread is between two critical
  sections of one call.  A thread that throws inside a critical section leaves the mutex locked.
\<close>

datatype thread_pc = Idle | Starting int | Reading int | Ending int

record 'a sessions =
  ss_counter :: int
  ss_thread :: "(int, int) std_map"
  ss_spaces :: "(int, vspace) std_map"
  ss_base :: vspace
  ss_mem :: "'a mem"
  ss_locked :: bool
  ss_pc :: "int \<Rightarrow> thread_pc"

definition SessionLocalStorage_new :: "vspace \<Rightarrow> 'a mem \<Rightarrow> 'a sessions" where
  "SessionLocalStorage_new variableSpace m = \<lparr>ss_counter = 1, ss_thread = [], ss_spaces = [],
     ss_base = variableSpace, ss_mem = m, ss_locked = False, ss_pc = (\<lambda>_. Idle)\<rparr>"

text \<open>\<open>_threadSession[tid]\<close>, which inserts 0 for a thread that is not in the map.\<close>

definition thread_session :: "int \<Rightarrow> (int, int) std_map \<Rightarrow> int \<times> (int, int) std_map" where
  "thread_session tid m = (case sm_find m tid of Some n \<Rightarrow> (n, m) | None \<Rightarrow> (0, sm_insert tid 0 m))"

definition startSession_claim :: "'a sessions \<Rightarrow> int \<times> 'a sessions" where
  "startSession_claim s = (ss_counter s, s\<lparr>ss_counter := ss_counter s + 1\<rparr>)"

definition startSession_register :: "int \<Rightarrow> int \<Rightarrow> 'a sessions \<Rightarrow> 'a sessions option" where
  "startSession_register tid ntid s =
     (if ss_locked s then None else do {
        let thread = sm_put tid ntid (ss_thread s);
        let keys = sorted_list_of_set (dom (vs_paired (ss_base s)));
        (m, vs) \<leftarrow> VariableSpace_clone keys (ss_base s) (ss_mem s);
        Some (s\<lparr>ss_thread := thread, ss_mem := m, ss_spaces := sm_put ntid vs (ss_spaces s)\<rparr>) })"

definition getSessionId :: "int \<Rightarrow> 'a sessions \<Rightarrow> (int \<times> 'a sessions) option" where
  "getSessionId tid s =
     (if ss_locked s then None
      else let (n, m) = thread_session tid (ss_thread s) in Some (n, s\<lparr>ss_thread := m\<rparr>))"

text \<open>\<open>at\<close> throws while the mutex is held; the inner \<^term>\<open>None\<close> is the exception.\<close>

definition localVariableSpace_id :: "int \<Rightarrow> 'a sessions \<Rightarrow> (vspace option \<times> 'a sessions) option" where
  "localVariableSpace_id sessionId s =
     (if ss_locked s then None
      else case sm_find (ss_spaces s) sessionId of
        Some vs \<Rightarrow> Some (Some vs, s)
      | None \<Rightarrow> Some (None, s\<lparr>ss_locked := True\<rparr>))"

definition localVariableSpace :: "int \<Rightarrow> 'a sessions \<Rightarrow> (vspace option \<times> 'a sessions) option" where
  "localVariableSpace tid s = do { (n, s) \<leftarrow> getSessionId tid s; localVariableSpace_id n s }"

definition endSession_id :: "int \<Rightarrow> 'a sessions \<Rightarrow> 'a sessions option" where
  "endSession_id sessionId s =
     (if ss_locked s then None else Some (s\<lparr>ss_spaces := sm_erase sessionId (ss_spaces s)\<rparr>))"

definition endSession_thread :: "int \<Rightarrow> 'a sessions \<Rightarrow> (int \<times> 'a sessions) option" where
  "endSession_thread tid s =
     (if ss_locked s then None
      else let (n, m) = thread_session tid (ss_thread s) in Some (n, s\<lparr>ss_thread := sm_erase tid m\<rparr>))"

definition numberOfSessions :: "'a sessions \<Rightarrow> int option" where
  "numberOfSessions s = (if ss_locked s then None else Some (int (length (ss_thread s))))"

definition at_pc :: "int \<Rightarrow> thread_pc \<Rightarrow> 'a sessions \<Rightarrow> 'a sessions" where
  "at_pc t pc s = s\<lparr>ss_pc := (ss_pc s)(t := pc)\<rparr>"

text \<open>
  The steps: each method in its critical sections, and a thread that stores a new array in a variable
  that it can look up in its own space, as an operation does with its result.
\<close>

inductive ss_step :: "'a sessions \<Rightarrow> 'a sessions \<Rightarrow> bool" where
  claim: "ss_pc s t = Idle \<Longrightarrow> startSession_claim s = (n, s') \<Longrightarrow> ss_step s (at_pc t (Starting n) s')"
| register: "ss_pc s t = Starting n \<Longrightarrow> startSession_register t n s = Some s' \<Longrightarrow> ss_step s (at_pc t Idle s')"
| get_id: "ss_pc s t = Idle \<Longrightarrow> getSessionId t s = Some (n, s') \<Longrightarrow> ss_step s (at_pc t (Reading n) s')"
| get_space: "ss_pc s t = Reading n \<Longrightarrow> localVariableSpace_id n s = Some (r, s') \<Longrightarrow> ss_step s (at_pc t Idle s')"
| end_thread: "ss_pc s t = Idle \<Longrightarrow> endSession_thread t s = Some (n, s') \<Longrightarrow> ss_step s (at_pc t (Ending n) s')"
| end_id: "ss_pc s t = Ending n \<Longrightarrow> endSession_id n s = Some s' \<Longrightarrow> ss_step s (at_pc t Idle s')"
| store: "sm_find (ss_thread s) t = Some n \<Longrightarrow> sm_find (ss_spaces s) n = Some vs \<Longrightarrow> v \<in> reachable_vars vs \<Longrightarrow>
    alloc_arr x (ss_mem s) = (a, m) \<Longrightarrow> Variable_setNDArray v (Some a) m = Some m' \<Longrightarrow>
    ss_step s (s\<lparr>ss_mem := m'\<rparr>)"

subsection \<open>Session ids are never shared\<close>

text \<open>
  \<open>ids_ok c th sp pc\<close> speaks about the counter, the two maps as functions, and the threads.
\<close>

definition ids_ok :: "int \<Rightarrow> (int \<Rightarrow> int option) \<Rightarrow> (int \<Rightarrow> vspace option) \<Rightarrow> (int \<Rightarrow> thread_pc) \<Rightarrow> bool" where
  "ids_ok c th sp pc \<longleftrightarrow> 1 \<le> c
     \<and> (\<forall>n. sp n \<noteq> None \<longrightarrow> 1 \<le> n \<and> n < c)
     \<and> (\<forall>t n. th t = Some n \<longrightarrow> 0 \<le> n \<and> n < c)
     \<and> (\<forall>t t' n. th t = Some n \<longrightarrow> th t' = Some n \<longrightarrow> n \<noteq> 0 \<longrightarrow> t = t')
     \<and> (\<forall>t n. pc t = Starting n \<longrightarrow> 1 \<le> n \<and> n < c \<and> sp n = None \<and> (\<forall>t'. th t' \<noteq> Some n))
     \<and> (\<forall>t t' n. pc t = Starting n \<longrightarrow> pc t' = Starting n \<longrightarrow> t = t')"

definition ids_inv :: "'a sessions \<Rightarrow> bool" where
  "ids_inv s \<longleftrightarrow> sm_wf (ss_thread s) \<and> sm_wf (ss_spaces s)
     \<and> ids_ok (ss_counter s) (sm_find (ss_thread s)) (sm_find (ss_spaces s)) (ss_pc s)"

lemma ids_okD:
  assumes "ids_ok c th sp pc"
  shows "1 \<le> c" "sp n = Some vs \<Longrightarrow> 1 \<le> n \<and> n < c" "th t = Some n \<Longrightarrow> 0 \<le> n \<and> n < c"
    and "th t = Some n \<Longrightarrow> th t' = Some n \<Longrightarrow> n \<noteq> 0 \<Longrightarrow> t = t'"
    and "pc t = Starting n \<Longrightarrow> 1 \<le> n \<and> n < c \<and> sp n = None \<and> (\<forall>t'. th t' \<noteq> Some n)"
    and "pc t = Starting n \<Longrightarrow> pc t' = Starting n \<Longrightarrow> t = t'"
  using assms unfolding ids_ok_def by blast+

lemma ids_okI:
  assumes "1 \<le> c" "\<And>n vs. sp n = Some vs \<Longrightarrow> 1 \<le> n \<and> n < c" "\<And>t n. th t = Some n \<Longrightarrow> 0 \<le> n \<and> n < c"
    and "\<And>t t' n. th t = Some n \<Longrightarrow> th t' = Some n \<Longrightarrow> n \<noteq> 0 \<Longrightarrow> t = t'"
    and "\<And>t n. pc t = Starting n \<Longrightarrow> 1 \<le> n \<and> n < c \<and> sp n = None \<and> (\<forall>t'. th t' \<noteq> Some n)"
    and "\<And>t t' n. pc t = Starting n \<Longrightarrow> pc t' = Starting n \<Longrightarrow> t = t'"
  shows "ids_ok c th sp pc"
  using assms unfolding ids_ok_def by (intro conjI allI impI) (assumption | blast)+

lemma ids_ok_claim:
  assumes "ids_ok c th sp pc"
  shows "ids_ok (c + 1) th sp (pc(t := Starting c))"
proof -
  note D = ids_okD [OF assms]
  have fresh: "pc u \<noteq> Starting c" "th u \<noteq> Some c" "sp c = None" for u
    using D(2) [of c] D(3) [of u c] D(5) [of u c] by (cases "sp c"; auto)+
  show ?thesis
  proof (rule ids_okI)
    fix u k assume "(pc(t := Starting c)) u = Starting k"
    then have "u = t \<and> k = c \<or> pc u = Starting k" by (simp split: if_splits)
    then show "1 \<le> k \<and> k < c + 1 \<and> sp k = None \<and> (\<forall>t'. th t' \<noteq> Some k)"
      using D(1) D(5) [of u k] fresh by auto
  next
    fix u u' k assume "(pc(t := Starting c)) u = Starting k" "(pc(t := Starting c)) u' = Starting k"
    then show "u = u'" using D(6) [of u k u'] fresh(1) by (auto split: if_splits)
  next
    fix u u' k assume "th u = Some k" "th u' = Some k" "k \<noteq> 0"
    then show "u = u'" by (rule D(4))
  next
    fix k vs assume "sp k = Some vs"
    then show "1 \<le> k \<and> k < c + 1" using D(2) by fastforce
  next
    fix u k assume "th u = Some k"
    then show "0 \<le> k \<and> k < c + 1" using D(3) by fastforce
  qed (use D(1) in simp)
qed

lemma ids_ok_register:
  assumes "ids_ok c th sp pc" "pc t = Starting n"
  shows "ids_ok c (th(t \<mapsto> n)) (sp(n \<mapsto> vs)) (pc(t := Idle))"
proof -
  note D = ids_okD [OF assms(1)]
  note n = D(5) [OF assms(2)]
  show ?thesis
  proof (rule ids_okI)
    fix u k assume "(pc(t := Idle)) u = Starting k"
    then have u: "u \<noteq> t" "pc u = Starting k" by (auto split: if_splits)
    then have "k \<noteq> n" using D(6) [OF assms(2), of u] by auto
    with D(5) [OF u(2)] show "1 \<le> k \<and> k < c \<and> (sp(n \<mapsto> vs)) k = None \<and> (\<forall>t'. (th(t \<mapsto> n)) t' \<noteq> Some k)"
      by simp
  next
    fix u u' k assume "(pc(t := Idle)) u = Starting k" "(pc(t := Idle)) u' = Starting k"
    then show "u = u'" using D(6) [of u k u'] by (simp split: if_splits)
  next
    fix u u' k assume "(th(t \<mapsto> n)) u = Some k" "(th(t \<mapsto> n)) u' = Some k" "k \<noteq> 0"
    then show "u = u'" using D(4) [of u k u'] n by (auto split: if_splits)
  next
    fix k vs' assume "(sp(n \<mapsto> vs)) k = Some vs'"
    then show "1 \<le> k \<and> k < c" using D(2) [of k] n by (simp split: if_splits)
  next
    fix u k assume "(th(t \<mapsto> n)) u = Some k"
    then show "0 \<le> k \<and> k < c" using D(3) [of u k] n by (simp split: if_splits)
  qed (fact D(1))
qed

text \<open>Reading or ending a session changes the two maps only by dropping entries and adding id 0.\<close>

lemma ids_ok_weaken:
  assumes "ids_ok c th sp pc" "\<And>k. sp' k \<noteq> None \<Longrightarrow> sp k \<noteq> None"
    and "\<And>u k. th' u = Some k \<Longrightarrow> k = 0 \<or> th u = Some k" "\<And>u k. pc' u = Starting k \<Longrightarrow> pc u = Starting k"
  shows "ids_ok c th' sp' pc'"
proof -
  note D = ids_okD [OF assms(1)]
  show ?thesis
  proof (rule ids_okI)
    fix k vs assume "sp' k = Some vs"
    then show "1 \<le> k \<and> k < c" using assms(2) [of k] D(2) [of k] by auto
  next
    fix u k assume "th' u = Some k"
    then show "0 \<le> k \<and> k < c" using assms(3) D(1,3) by fastforce
  next
    fix u u' k assume "th' u = Some k" "th' u' = Some k" "k \<noteq> 0"
    then show "u = u'" using assms(3) D(4) by blast
  next
    fix u k assume u: "pc' u = Starting k"
    note p = D(5) [OF assms(4) [OF u]]
    then show "1 \<le> k \<and> k < c \<and> sp' k = None \<and> (\<forall>t'. th' t' \<noteq> Some k)"
      using assms(2) [of k] assms(3) by fastforce
  next
    fix u u' k assume "pc' u = Starting k" "pc' u' = Starting k"
    then show "u = u'" using assms(4) D(6) by blast
  qed (fact D(1))
qed

lemma thread_session_find:
  assumes "sm_wf m" "thread_session t m = (n, m')"
  shows "sm_wf m'" "sm_find m' t = Some n" "\<And>t'. t' \<noteq> t \<Longrightarrow> sm_find m' t' = sm_find m t'"
    "sm_find m t = Some n \<or> sm_find m t = None \<and> n = 0"
  using assms by (auto simp: thread_session_def sm_laws split: option.splits)

lemma thread_session_sub:
  assumes "sm_wf m" "thread_session t m = (n, m')" "sm_find m' u = Some k"
  shows "k = 0 \<or> sm_find m u = Some k"
  using thread_session_find [OF assms(1,2)] assms(3) by (cases "u = t") auto

lemmas ss_defs = startSession_claim_def startSession_register_def getSessionId_def localVariableSpace_id_def
  endSession_id_def endSession_thread_def at_pc_def

lemma ids_inv_step:
  assumes "ss_step s s'" "ids_inv s"
  shows "ids_inv s'"
proof -
  have wf: "sm_wf (ss_thread s)" "sm_wf (ss_spaces s)"
    and ok: "ids_ok (ss_counter s) (sm_find (ss_thread s)) (sm_find (ss_spaces s)) (ss_pc s)"
    using assms(2) by (simp_all add: ids_inv_def)
  from assms(1) show ?thesis
  proof cases
    case (claim t n s1)
    then have "s1 = s\<lparr>ss_counter := ss_counter s + 1\<rparr>" "n = ss_counter s"
      by (auto simp: startSession_claim_def)
    then show ?thesis using claim(1) wf ids_ok_claim [OF ok] by (simp add: ids_inv_def at_pc_def)
  next
    case (register t n s1)
    then obtain m vs where "s1 = s\<lparr>ss_thread := sm_put t n (ss_thread s), ss_mem := m, ss_spaces := sm_put n vs (ss_spaces s)\<rparr>"
      by (auto simp: startSession_register_def Let_def bind_eq_Some_conv split: if_splits)
    then show ?thesis
      using register(1) wf ids_ok_register [OF ok register(2), of vs] by (simp add: ids_inv_def at_pc_def sm_laws)
  next
    case (get_id t n s1)
    then obtain m where s1: "thread_session t (ss_thread s) = (n, m)" "s1 = s\<lparr>ss_thread := m\<rparr>"
      by (auto simp: getSessionId_def split: if_splits prod.splits)
    note f = thread_session_find [OF wf(1) s1(1)]
    have "ids_ok (ss_counter s) (sm_find m) (sm_find (ss_spaces s)) ((ss_pc s)(t := Reading n))"
      by (rule ids_ok_weaken [OF ok]) (use thread_session_sub [OF wf(1) s1(1)] in \<open>auto split: if_splits\<close>)
    then show ?thesis using get_id(1) s1(2) wf f(1) by (simp add: ids_inv_def at_pc_def)
  next
    case (get_space t n r s1)
    then have "ss_thread s1 = ss_thread s" "ss_spaces s1 = ss_spaces s" "ss_counter s1 = ss_counter s" "ss_pc s1 = ss_pc s"
      by (auto simp: localVariableSpace_id_def split: if_splits option.splits)
    moreover have "ids_ok (ss_counter s) (sm_find (ss_thread s)) (sm_find (ss_spaces s)) ((ss_pc s)(t := Idle))"
      by (rule ids_ok_weaken [OF ok]) (auto split: if_splits)
    ultimately show ?thesis using get_space(1) wf by (simp add: ids_inv_def at_pc_def)
  next
    case (end_thread t n s1)
    then obtain m where s1: "thread_session t (ss_thread s) = (n, m)" "s1 = s\<lparr>ss_thread := sm_erase t m\<rparr>"
      by (auto simp: endSession_thread_def split: if_splits prod.splits)
    note f = thread_session_find [OF wf(1) s1(1)]
    have "ids_ok (ss_counter s) ((sm_find m)(t := None)) (sm_find (ss_spaces s)) ((ss_pc s)(t := Ending n))"
      by (rule ids_ok_weaken [OF ok]) (use thread_session_sub [OF wf(1) s1(1)] in \<open>auto split: if_splits\<close>)
    then show ?thesis using end_thread(1) s1(2) wf f(1) by (simp add: ids_inv_def at_pc_def sm_laws)
  next
    case (end_id t n s1)
    then have "s1 = s\<lparr>ss_spaces := sm_erase n (ss_spaces s)\<rparr>" by (auto simp: endSession_id_def split: if_splits)
    moreover have "ids_ok (ss_counter s) (sm_find (ss_thread s)) ((sm_find (ss_spaces s))(n := None)) ((ss_pc s)(t := Idle))"
      by (rule ids_ok_weaken [OF ok]) (auto split: if_splits)
    ultimately show ?thesis using end_id(1) wf by (simp add: ids_inv_def at_pc_def sm_laws)
  next
    case store
    then show ?thesis using assms(2) by (simp add: ids_inv_def)
  qed
qed

subsection \<open>The spaces of different sessions share no object\<close>

text \<open>The variables that a space points to, from any of its maps and lists, and their arrays.\<close>

definition footprint :: "'a mem \<Rightarrow> vspace \<Rightarrow> nat set" where
  "footprint m vs = vars_of vs
     \<union> {a. \<exists>q \<in> vars_of vs. \<exists>x. m_vars m q = Some x \<and> v_ndarray x = Some a}"

definition alive :: "'a mem \<Rightarrow> vspace \<Rightarrow> bool" where
  "alive m vs \<longleftrightarrow> (\<forall>q \<in> vars_of vs. m_vars m q \<noteq> None)"

lemma footprint_bound:
  assumes "mem_inv m" "alive m vs"
  shows "footprint m vs \<subseteq> {..<m_next m}"
proof -
  have "q < m_next m" if "q \<in> vars_of vs" for q
    using mem_inv_bound [OF assms(1)] assms(2) that by (auto simp: alive_def)
  moreover have "a < m_next m" if "m_vars m q = Some x" "v_ndarray x = Some a" for q x a
    using mem_inv_bound [OF assms(1), of a] assms(1) that unfolding mem_inv_def by blast
  ultimately show ?thesis by (auto simp: footprint_def)
qed

lemma footprint_extends:
  assumes "mem_inv m" "alive m vs" "mem_extends m m'"
  shows "footprint m' vs = footprint m vs" "alive m' vs"
proof -
  have "m_vars m' q = m_vars m q" if "q \<in> vars_of vs" for q
    using mem_inv_bound [OF assms(1), of q] assms(2,3) that by (auto simp: alive_def mem_extends_def)
  then show "footprint m' vs = footprint m vs" "alive m' vs"
    using assms(2) by (simp_all add: footprint_def alive_def)
qed

lemma footprint_clone:
  assumes "mem_inv m" "finite (dom (vs_paired src))" "alive m src"
  obtains m' res where
    "VariableSpace_clone (sorted_list_of_set (dom (vs_paired src))) src m = Some (m', res)"
    "mem_inv m'" "mem_extends m m'" "alive m' res" "footprint m' res \<subseteq> {m_next m..}"
proof -
  have al: "\<forall>q \<in> ran (vs_paired src). m_vars m q \<noteq> None" using assms(3) by (auto simp: alive_def vars_of_def reachable_vars_def)
  obtain m' res where c:
    "VariableSpace_clone (sorted_list_of_set (dom (vs_paired src))) src m = Some (m', res)"
    "mem_inv m'" "mem_extends m m'" "dom (vs_paired res) = dom (vs_paired src)" "vars_of res = ran (vs_paired res)"
    and cp: "\<And>p q. vs_paired src p = Some q \<Longrightarrow> \<exists>v c cv. m_vars m q = Some v \<and> vs_paired res p = Some c
         \<and> m_next m \<le> c \<and> m_vars m' c = Some cv \<and> is_copy m m' v cv"
    using VariableSpace_clone_exact [OF assms(1) _ _ al, of "sorted_list_of_set (dom (vs_paired src))"] assms(2)
    by auto
  have new: "m_next m \<le> c \<and> (\<exists>cv. m_vars m' c = Some cv \<and> (\<forall>a. v_ndarray cv = Some a \<longrightarrow> m_next m \<le> a))"
    if c': "c \<in> vars_of res" for c
  proof -
    obtain p where p: "vs_paired res p = Some c" using c' c(5) by (auto simp: ran_def)
    then obtain q where "vs_paired src p = Some q" using c(4) by blast
    from cp [OF this] p show ?thesis by (auto simp: is_copy_def split: option.splits)
  qed
  then have "alive m' res" "footprint m' res \<subseteq> {m_next m..}"
    by (auto simp: alive_def footprint_def dest!: new)
  with c that show thesis by blast
qed

text \<open>Storing a fresh array in a variable.\<close>

lemma store_array:
  assumes "mem_inv m" "alloc_arr x m = (a, m1)" "Variable_setNDArray v (Some a) m1 = Some m2"
  shows "mem_inv m2" "\<And>vs. alive m vs \<Longrightarrow> alive m2 vs"
    and "\<And>vs. alive m vs \<Longrightarrow> v \<notin> footprint m vs \<Longrightarrow> footprint m2 vs = footprint m vs"
    and "\<And>vs. alive m vs \<Longrightarrow> footprint m2 vs \<subseteq> insert (m_next m) (footprint m vs)"
    and "m_next m2 = m_next m + 1"
proof -
  have m1: "a = m_next m" "m1 = m\<lparr>m_arrs := (m_arrs m)(a \<mapsto> x), m_next := m_next m + 1\<rparr>"
    using assms(2) by (auto simp: alloc_arr_def)
  obtain y where y: "m_vars m v = Some y" "m2 = m1\<lparr>m_vars := (m_vars m)(v \<mapsto> y\<lparr>v_ndarray := Some a\<rparr>)\<rparr>"
    using assms(3) by (auto simp: Variable_setNDArray_def upd_var_def m1 bind_eq_Some_conv)
  have vars: "m_vars m2 = (m_vars m)(v \<mapsto> y\<lparr>v_ndarray := Some a\<rparr>)" by (simp add: y(2))
  have "v \<noteq> m_next m" using mem_inv_bound [OF assms(1), of v] y(1) by auto
  then show "mem_inv m2" using assms(1) y(1) by (auto simp: mem_inv_def y(2) m1)
  show "alive m2 vs" if "alive m vs" for vs using that by (auto simp: alive_def vars)
  show "footprint m2 vs = footprint m vs" if "alive m vs" "v \<notin> footprint m vs" for vs
    using that by (auto simp: footprint_def vars)
  show "footprint m2 vs \<subseteq> insert (m_next m) (footprint m vs)" if "alive m vs" for vs
    using that by (auto simp: footprint_def vars m1(1) split: if_splits)
  show "m_next m2 = m_next m + 1" by (simp add: y(2) m1)
qed

definition isolated :: "'a mem \<Rightarrow> vspace \<Rightarrow> (int \<Rightarrow> vspace option) \<Rightarrow> bool" where
  "isolated m base sp \<longleftrightarrow> mem_inv m \<and> finite (dom (vs_paired base)) \<and> alive m base
     \<and> (\<forall>n vs. sp n = Some vs \<longrightarrow> alive m vs \<and> footprint m vs \<inter> footprint m base = {})
     \<and> (\<forall>n n' vs vs'. sp n = Some vs \<longrightarrow> sp n' = Some vs' \<longrightarrow> n \<noteq> n' \<longrightarrow> footprint m vs \<inter> footprint m vs' = {})"

lemma isolated_clone:
  assumes i: "isolated m base sp"
    and c: "VariableSpace_clone (sorted_list_of_set (dom (vs_paired base))) base m = Some (m', res)"
  shows "isolated m' base (sp(n \<mapsto> res))"
proof -
  have m: "mem_inv m" "finite (dom (vs_paired base))" "alive m base" using i by (simp_all add: isolated_def)
  have r: "mem_inv m'" "mem_extends m m'" "alive m' res" "footprint m' res \<subseteq> {m_next m..}"
    using footprint_clone [OF m] c by (metis option.inject prod.inject)+
  have old: "footprint m' vs = footprint m vs" "alive m' vs" "footprint m' res \<inter> footprint m vs = {}"
    if "alive m vs" for vs
    using footprint_extends [OF m(1) that r(2)] footprint_bound [OF m(1) that] r(4) by fastforce+
  have al: "alive m vs" if "sp k = Some vs" for k vs using i that by (auto simp: isolated_def)
  show ?thesis
    unfolding isolated_def
  proof (intro conjI allI impI)
    fix k vs assume "(sp(n \<mapsto> res)) k = Some vs"
    then have "vs = res \<or> sp k = Some vs" by (auto split: if_splits)
    then consider "vs = res" | "sp k = Some vs" by blast
    then have "alive m' vs \<and> footprint m' vs \<inter> footprint m' base = {}"
    proof cases
      case 1
      then show ?thesis using r(3) old(1,3) [OF m(3)] by simp
    next
      case 2
      have "footprint m vs \<inter> footprint m base = {}" using i 2 by (auto simp: isolated_def)
      then show ?thesis using old(1) [OF m(3)] old(1,2) [OF al [OF 2]] by simp
    qed
    then show "alive m' vs" "footprint m' vs \<inter> footprint m' base = {}" by simp_all
  next
    fix k k' vs vs' assume a: "(sp(n \<mapsto> res)) k = Some vs" "(sp(n \<mapsto> res)) k' = Some vs'" "k \<noteq> k'"
    then have "vs = res \<and> sp k' = Some vs' \<or> vs' = res \<and> sp k = Some vs \<or> sp k = Some vs \<and> sp k' = Some vs'"
      by (auto split: if_splits)
    then consider "vs = res" "sp k' = Some vs'" | "vs' = res" "sp k = Some vs" | "sp k = Some vs" "sp k' = Some vs'"
      by blast
    then show "footprint m' vs \<inter> footprint m' vs' = {}"
    proof cases
      case 1
      then show ?thesis using old [OF al [OF 1(2)]] by simp
    next
      case 2
      then show ?thesis using old [OF al [OF 2(2)]] by (simp add: Int_commute)
    next
      case 3
      then show ?thesis using old(1) [OF al [OF 3(1)]] old(1) [OF al [OF 3(2)]] i a(3) by (simp add: isolated_def)
    qed
  qed (use r(1) m(2) old(2) [OF m(3)] in simp_all)
qed

lemma isolated_store:
  assumes i: "isolated m base sp" and sp: "sp n = Some vs" and v: "v \<in> reachable_vars vs"
    and s: "alloc_arr x m = (a, m1)" "Variable_setNDArray v (Some a) m1 = Some m2"
  shows "isolated m2 base sp"
    and "\<And>k vs'. sp k = Some vs' \<Longrightarrow> k \<noteq> n \<Longrightarrow> v \<notin> footprint m vs'"
proof -
  have m: "mem_inv m" "alive m base" using i by (simp_all add: isolated_def)
  note S = store_array [OF m(1) s]
  have vf: "v \<in> footprint m vs" using v by (simp add: footprint_def vars_of_def)
  have al: "alive m vs'" if "sp k = Some vs'" for k vs' using i that by (auto simp: isolated_def)
  show dis: "v \<notin> footprint m vs'" if "sp k = Some vs'" "k \<noteq> n" for k vs'
    using i sp that vf unfolding isolated_def by (meson disjoint_iff)
  have vb: "v \<notin> footprint m base" using i sp vf unfolding isolated_def by (meson disjoint_iff)
  have eq: "footprint m2 vs' = footprint m vs'" if "sp k = Some vs'" "k \<noteq> n" for k vs'
    using S(3) [OF al [OF that(1)] dis [OF that]] .
  have eqb: "footprint m2 base = footprint m base" by (rule S(3) [OF m(2) vb])
  have new: "footprint m2 vs \<inter> X = {}" if "footprint m vs \<inter> X = {}" "X \<subseteq> {..<m_next m}" for X
    using S(4) [OF al [OF sp]] that by fastforce
  show "isolated m2 base sp"
    unfolding isolated_def
  proof (intro conjI allI impI)
    fix k vs' assume k: "sp k = Some vs'"
    then show "alive m2 vs'" using al S(2) by blast
    have d: "footprint m vs' \<inter> footprint m base = {}" using i k by (auto simp: isolated_def)
    show "footprint m2 vs' \<inter> footprint m2 base = {}"
    proof (cases "k = n")
      case True
      then show ?thesis using new [OF _ footprint_bound [OF m]] d k sp eqb by simp
    next
      case False
      then show ?thesis using eq [OF k] eqb d by simp
    qed
  next
    fix k k' vs1 vs2 assume k: "sp k = Some vs1" "sp k' = Some vs2" "k \<noteq> k'"
    then have d: "footprint m vs1 \<inter> footprint m vs2 = {}" using i by (auto simp: isolated_def)
    have b: "footprint m vs1 \<subseteq> {..<m_next m}" "footprint m vs2 \<subseteq> {..<m_next m}"
      using footprint_bound [OF m(1)] al k by blast+
    consider "k = n" | "k' = n" | "k \<noteq> n" "k' \<noteq> n" by blast
    then show "footprint m2 vs1 \<inter> footprint m2 vs2 = {}"
    proof cases
      case 1
      then show ?thesis using new [OF _ b(2)] d k sp eq [OF k(2)] by simp
    next
      case 2
      then show ?thesis using new [OF _ b(1)] d k sp eq [OF k(1)] by (simp add: Int_commute)
    next
      case 3
      then show ?thesis using eq [OF k(1)] eq [OF k(2)] d by simp
    qed
  qed (use S(1) S(2) [OF m(2)] i in \<open>simp_all add: isolated_def\<close>)
qed

lemma isolated_mono: "isolated m base sp \<Longrightarrow> (\<And>k vs. sp' k = Some vs \<Longrightarrow> sp k = Some vs) \<Longrightarrow> isolated m base sp'"
  unfolding isolated_def by blast

definition sessions_inv :: "'a sessions \<Rightarrow> bool" where
  "sessions_inv s \<longleftrightarrow> ids_inv s \<and> isolated (ss_mem s) (ss_base s) (sm_find (ss_spaces s))"

lemma sessions_inv_step:
  assumes "ss_step s s'" "sessions_inv s"
  shows "sessions_inv s'"
proof -
  have wf: "sm_wf (ss_spaces s)" and i: "isolated (ss_mem s) (ss_base s) (sm_find (ss_spaces s))"
    using assms(2) by (simp_all add: sessions_inv_def ids_inv_def)
  from assms(1) have "isolated (ss_mem s') (ss_base s') (sm_find (ss_spaces s'))"
  proof cases
    case (register t n s1)
    then obtain m vs where r: "VariableSpace_clone (sorted_list_of_set (dom (vs_paired (ss_base s)))) (ss_base s) (ss_mem s) = Some (m, vs)"
      "s1 = s\<lparr>ss_thread := sm_put t n (ss_thread s), ss_mem := m, ss_spaces := sm_put n vs (ss_spaces s)\<rparr>"
      by (auto simp: startSession_register_def Let_def bind_eq_Some_conv split: if_splits)
    show ?thesis using register(1) isolated_clone [OF i r(1), of n] wf by (simp add: r(2) at_pc_def sm_laws)
  next
    case (end_id t n s1)
    then have "s1 = s\<lparr>ss_spaces := sm_erase n (ss_spaces s)\<rparr>" by (auto simp: endSession_id_def split: if_splits)
    then show ?thesis
      using end_id(1) wf by (auto simp: at_pc_def sm_laws intro!: isolated_mono [OF i] split: if_splits)
  next
    case (store t n vs v x a m m')
    then show ?thesis using isolated_store(1) [OF i store(3-6)] by simp
  next
    case (claim t n s1)
    then show ?thesis using i by (auto simp: startSession_claim_def at_pc_def)
  next
    case (get_id t n s1)
    then show ?thesis using i by (auto simp: getSessionId_def at_pc_def split: if_splits prod.splits)
  next
    case (get_space t n r s1)
    then show ?thesis using i by (auto simp: localVariableSpace_id_def at_pc_def split: if_splits option.splits)
  next
    case (end_thread t n s1)
    then show ?thesis using i by (auto simp: endSession_thread_def at_pc_def split: if_splits prod.splits)
  qed
  then show ?thesis using ids_inv_step [OF assms(1)] assms(2) by (simp add: sessions_inv_def)
qed

lemma sessions_inv_new:
  assumes "mem_inv m" "finite (dom (vs_paired base))" "alive m base"
  shows "sessions_inv (SessionLocalStorage_new base m)"
  using assms by (simp add: sessions_inv_def ids_inv_def ids_ok_def isolated_def SessionLocalStorage_new_def)

lemma sessions_run_inv: "ss_step\<^sup>*\<^sup>* s s' \<Longrightarrow> sessions_inv s \<Longrightarrow> sessions_inv s'"
  by (induction rule: rtranclp_induct) (auto intro: sessions_inv_step)

end
