(* ===== verification/SessionProperties.thy ===== *)
theory SessionProperties
  imports GraphSessions
begin

text \<open>
  The properties of \<open>include/graph/Stash.h\<close> and \<open>include/graph/SessionLocalStorage.h\<close>.
\<close>

subsection \<open>Sessions\<close>

text \<open>
  C13.  However the threads interleave their calls of \<open>startSession\<close>, \<open>localVariableSpace\<close> and
  \<open>endSession\<close> and their stores to variables, no two threads have the same session, other than
  session 0, which a thread gets that asks without having started one and which has no space; and
  the variable spaces of two sessions share no variable and no array, with each other or with the
  original space, whichever of their maps (by pair, id or name) or lists they are reached from.
\<close>

theorem sessions_are_isolated:
  assumes "mem_inv m" "finite (dom (vs_paired base))" "alive m base"
    and "ss_step\<^sup>*\<^sup>* (SessionLocalStorage_new base m) s"
    and "sm_find (ss_thread s) t = Some n" "sm_find (ss_thread s) t' = Some n'" "t \<noteq> t'"
  shows "(n = n' \<longrightarrow> n = 0) \<and> 0 \<le> n \<and> n < ss_counter s \<and> sm_find (ss_spaces s) 0 = None
    \<and> (\<forall>vs vs'. sm_find (ss_spaces s) n = Some vs \<longrightarrow> sm_find (ss_spaces s) n' = Some vs' \<longrightarrow>
         footprint (ss_mem s) vs \<inter> footprint (ss_mem s) vs' = {}
         \<and> footprint (ss_mem s) vs \<inter> footprint (ss_mem s) (ss_base s) = {})"
proof -
  have inv: "sessions_inv s" using sessions_run_inv [OF assms(4) sessions_inv_new [OF assms(1-3)]] .
  then have ok: "ids_ok (ss_counter s) (sm_find (ss_thread s)) (sm_find (ss_spaces s)) (ss_pc s)"
    and i: "isolated (ss_mem s) (ss_base s) (sm_find (ss_spaces s))"
    by (simp_all add: sessions_inv_def ids_inv_def)
  have same: "n = n' \<longrightarrow> n = 0" using ids_okD(4) [OF ok assms(5)] assms(6,7) by metis
  have no0: "sm_find (ss_spaces s) 0 = None"
    using ids_okD(2) [OF ok, of 0] by (cases "sm_find (ss_spaces s) 0") auto
  then have "n \<noteq> n'" if "sm_find (ss_spaces s) n = Some vs" for vs using same that by (cases "n = 0") auto
  then show ?thesis using same no0 ids_okD(3) [OF ok assms(5)] i unfolding isolated_def by blast
qed

text \<open>Two threads that start their sessions one after the other.\<close>

definition example_base :: vspace where
  "example_base = VariableSpace_new\<lparr>vs_paired := [(7, 0) \<mapsto> 0]\<rparr>"

definition example_mem :: "nat mem" where
  "example_mem = \<lparr>m_vars = [0 \<mapsto> Variable_new (Some 1) ''x''], m_arrs = [1 \<mapsto> 5], m_next = 2\<rparr>"

lemma example_mem_ok: "mem_inv example_mem" "finite (dom (vs_paired example_base))" "alive example_mem example_base"
  by (simp_all add: example_mem_def example_base_def mem_inv_def alive_def Variable_new_def vars_of_def reachable_vars_def VariableSpace_new_def)

lemma start_session_steps:
  assumes "sessions_inv s" "ss_pc s t = Idle" "\<not> ss_locked s"
  obtains s' where "ss_step\<^sup>*\<^sup>* s s'" "sm_find (ss_thread s') = (sm_find (ss_thread s))(t \<mapsto> ss_counter s)"
    "ss_pc s' = ss_pc s" "\<not> ss_locked s'" "sm_find (ss_spaces s') (ss_counter s) \<noteq> None" "ss_counter s' = ss_counter s + 1"
proof -
  let ?c = "ss_counter s" and ?s1 = "at_pc t (Starting (ss_counter s)) (s\<lparr>ss_counter := ss_counter s + 1\<rparr>)"
  have wf: "sm_wf (ss_thread s)" "sm_wf (ss_spaces s)"
    and i: "mem_inv (ss_mem s)" "finite (dom (vs_paired (ss_base s)))" "alive (ss_mem s) (ss_base s)"
    using assms(1) by (simp_all add: sessions_inv_def ids_inv_def isolated_def)
  obtain m' res where c: "VariableSpace_clone (sorted_list_of_set (dom (vs_paired (ss_base s)))) (ss_base s) (ss_mem s) = Some (m', res)"
    by (rule footprint_clone [OF i])
  define s2 where "s2 = ?s1\<lparr>ss_thread := sm_put t ?c (ss_thread s), ss_mem := m', ss_spaces := sm_put ?c res (ss_spaces s)\<rparr>"
  have "startSession_claim s = (?c, s\<lparr>ss_counter := ss_counter s + 1\<rparr>)" by (simp add: startSession_claim_def)
  then have 1: "ss_step s ?s1" by (rule claim [OF assms(2)])
  have "startSession_register t ?c ?s1 = Some s2"
    using assms(3) c by (simp add: startSession_register_def at_pc_def s2_def Let_def)
  then have 2: "ss_step ?s1 (at_pc t Idle s2)" by (intro register) (simp_all add: at_pc_def)
  show thesis
  proof (rule that [of "at_pc t Idle s2"])
    show "ss_step\<^sup>*\<^sup>* s (at_pc t Idle s2)" using 1 2 by auto
    show "ss_pc (at_pc t Idle s2) = ss_pc s" using assms(2) by (auto simp: at_pc_def s2_def)
  qed (use wf assms(3) in \<open>simp_all add: at_pc_def s2_def sm_laws\<close>)
qed

theorem sessions_are_isolated_witness:
  "\<exists>s. ss_step\<^sup>*\<^sup>* (SessionLocalStorage_new example_base example_mem) s
    \<and> sm_find (ss_thread s) 10 = Some 1 \<and> sm_find (ss_thread s) 20 = Some 2 \<and> (1 :: int) < ss_counter s"
proof -
  let ?s0 = "SessionLocalStorage_new example_base example_mem"
  note i0 = sessions_inv_new [OF example_mem_ok]
  have new: "ss_pc ?s0 t = Idle" "\<not> ss_locked ?s0" "ss_counter ?s0 = 1" "sm_find (ss_thread ?s0) = (\<lambda>_. None)" for t
    by (simp_all add: SessionLocalStorage_new_def fun_eq_iff)
  obtain s1 where s1: "ss_step\<^sup>*\<^sup>* ?s0 s1" "sm_find (ss_thread s1) = (sm_find (ss_thread ?s0))(10 \<mapsto> ss_counter ?s0)"
    "ss_pc s1 = ss_pc ?s0" "\<not> ss_locked s1" "ss_counter s1 = ss_counter ?s0 + 1"
    by (rule start_session_steps [OF i0 new(1) new(2), of 10])
  obtain s2 where s2: "ss_step\<^sup>*\<^sup>* s1 s2" "sm_find (ss_thread s2) = (sm_find (ss_thread s1))(20 \<mapsto> ss_counter s1)"
    by (rule start_session_steps [OF sessions_run_inv [OF s1(1) i0] _ s1(4), of 20]) (simp add: s1(3) new(1))
  have run: "ss_step\<^sup>*\<^sup>* ?s0 s2" using s1(1) s2(1) by simp
  have th: "sm_find (ss_thread s2) 10 = Some 1" "sm_find (ss_thread s2) 20 = Some 2"
    using s1 s2 new(3) by simp_all
  have "(10 :: int) \<noteq> 20" by simp
  from sessions_are_isolated [OF example_mem_ok run th this] run th show ?thesis by auto
qed

text \<open>
  What one thread stores in a variable of its own session is invisible in every other session:
  the variables of the other space, and which arrays they hold, are unchanged.
\<close>

theorem stores_stay_in_session:
  assumes "sessions_inv s" "sm_find (ss_spaces s) n = Some vs" "v \<in> reachable_vars vs"
    and "alloc_arr x (ss_mem s) = (a, m)" "Variable_setNDArray v (Some a) m = Some m'"
    and "sm_find (ss_spaces s) n' = Some vs'" "n \<noteq> n'" "q \<in> reachable_vars vs'"
  shows "m_vars m' q = m_vars (ss_mem s) q \<and> footprint m' vs' = footprint (ss_mem s) vs'
    \<and> m_vars m' v \<noteq> None \<and> map_option v_ndarray (m_vars m' v) = Some (Some a)"
proof -
  have i: "isolated (ss_mem s) (ss_base s) (sm_find (ss_spaces s))" using assms(1) by (simp add: sessions_inv_def)
  then have m: "mem_inv (ss_mem s)" and al: "alive (ss_mem s) vs'" using assms(6) by (auto simp: isolated_def)
  have v: "v \<notin> footprint (ss_mem s) vs'"
    using isolated_store(2) [OF i assms(2-6)] assms(7) by simp
  have "footprint m' vs' = footprint (ss_mem s) vs'" by (rule store_array(3) [OF m assms(4,5) al v])
  moreover have "q \<noteq> v" using v assms(8) by (auto simp: footprint_def vars_of_def)
  moreover have "m_vars m = m_vars (ss_mem s)" using assms(4) by (auto simp: alloc_arr_def)
  ultimately show ?thesis
    using assms(5) by (auto simp: Variable_setNDArray_def upd_var_def bind_eq_Some_conv)
qed

definition example_sessions :: "nat sessions" where
  "example_sessions = \<lparr>ss_counter = 3, ss_thread = [(10, 1), (20, 2)],
     ss_spaces = [(1, VariableSpace_new\<lparr>vs_paired := [(7, 0) \<mapsto> 2]\<rparr>), (2, VariableSpace_new\<lparr>vs_paired := [(7, 0) \<mapsto> 4]\<rparr>)],
     ss_base = example_base,
     ss_mem = \<lparr>m_vars = [0 \<mapsto> Variable_new (Some 1) ''x'', 2 \<mapsto> Variable_new (Some 3) ''x'', 4 \<mapsto> Variable_new None ''x''],
       m_arrs = [1 \<mapsto> 5, 3 \<mapsto> 5], m_next = 5\<rparr>,
     ss_locked = False, ss_pc = (\<lambda>_. Idle)\<rparr>"

lemma example_sessions_inv: "sessions_inv example_sessions"
  by (auto simp: sessions_inv_def ids_inv_def ids_ok_def isolated_def example_sessions_def example_base_def
      mem_inv_def alive_def footprint_def Variable_new_def vars_of_def reachable_vars_def VariableSpace_new_def split: if_splits)

theorem stores_stay_in_session_witness:
  "\<exists>m'. Variable_setNDArray 2 (Some 5) (snd (alloc_arr 9 (ss_mem example_sessions))) = Some m'
    \<and> m_vars m' 4 = Some (Variable_new None ''x'') \<and> map_option v_ndarray (m_vars m' 2) = Some (Some 5)"
proof -
  let ?m = "snd (alloc_arr 9 (ss_mem example_sessions))"
  have a: "alloc_arr 9 (ss_mem example_sessions) = (5, ?m)" by (simp add: alloc_arr_def example_sessions_def)
  obtain m' where m': "Variable_setNDArray 2 (Some 5) ?m = Some m'"
    by (simp add: Variable_setNDArray_def upd_var_def alloc_arr_def example_sessions_def)
  have "m_vars m' 4 = m_vars (ss_mem example_sessions) 4 \<and> map_option v_ndarray (m_vars m' 2) = Some (Some 5)"
    using stores_stay_in_session [OF example_sessions_inv _ _ a m', of 1 _ 2 _ 4]
    by (simp add: example_sessions_def reachable_vars_def)
  then show ?thesis using m' by (simp add: example_sessions_def)
qed

text \<open>
  After a thread has started a session, its local variable space is the clone that was made for
  it, and asking for it changes nothing.
\<close>

theorem start_then_local:
  assumes "sessions_inv s" "\<not> ss_locked s" "startSession_claim s = (n, s1)"
    and "startSession_register t n s1 = Some s2"
  shows "\<exists>vs. sm_find (ss_spaces s2) n = Some vs \<and> localVariableSpace t s2 = Some (Some vs, s2)
    \<and> dom (vs_paired vs) = dom (vs_paired (ss_base s)) \<and> sm_find (ss_spaces s) n = None"
proof -
  have wf: "sm_wf (ss_thread s)" "sm_wf (ss_spaces s)"
    and ok: "ids_ok (ss_counter s) (sm_find (ss_thread s)) (sm_find (ss_spaces s)) (ss_pc s)"
    and i: "mem_inv (ss_mem s)" "finite (dom (vs_paired (ss_base s)))" "alive (ss_mem s) (ss_base s)"
    using assms(1) by (simp_all add: sessions_inv_def ids_inv_def isolated_def)
  have s1: "s1 = s\<lparr>ss_counter := ss_counter s + 1\<rparr>" "n = ss_counter s"
    using assms(3) by (auto simp: startSession_claim_def)
  obtain m res where c: "VariableSpace_clone (sorted_list_of_set (dom (vs_paired (ss_base s)))) (ss_base s) (ss_mem s) = Some (m, res)"
    and s2: "s2 = s1\<lparr>ss_thread := sm_put t n (ss_thread s), ss_mem := m, ss_spaces := sm_put n res (ss_spaces s)\<rparr>"
    using assms(4) by (auto simp: startSession_register_def Let_def bind_eq_Some_conv s1 split: if_splits)
  have "\<forall>q \<in> ran (vs_paired (ss_base s)). m_vars (ss_mem s) q \<noteq> None" using i(3) by (auto simp: alive_def vars_of_def reachable_vars_def)
  then have "dom (vs_paired res) = dom (vs_paired (ss_base s))"
    using VariableSpace_clone_exact [OF i(1), of "sorted_list_of_set (dom (vs_paired (ss_base s)))" "ss_base s"] i(2) c
    by auto
  moreover have "localVariableSpace t s2 = Some (Some res, s2)"
    using wf assms(2)
    by (simp add: localVariableSpace_def getSessionId_def thread_session_def localVariableSpace_id_def s2 s1 sm_laws)
  moreover have "sm_find (ss_spaces s2) n = Some res" using wf by (simp add: s2 sm_laws)
  moreover have "sm_find (ss_spaces s) n = None"
    using ids_okD(2) [OF ok, of n] s1(2) by (cases "sm_find (ss_spaces s) n") auto
  ultimately show ?thesis by blast
qed

theorem start_then_local_witness:
  "\<exists>s2 vs. startSession_register 30 3 (example_sessions\<lparr>ss_counter := 4\<rparr>) = Some s2
    \<and> localVariableSpace 30 s2 = Some (Some vs, s2)"
proof -
  have c: "startSession_claim example_sessions = (3, example_sessions\<lparr>ss_counter := 4\<rparr>)"
    by (simp add: startSession_claim_def example_sessions_def)
  have l: "\<not> ss_locked example_sessions" by (simp add: example_sessions_def)
  have "mem_inv (ss_mem example_sessions) \<and> finite (dom (vs_paired (ss_base example_sessions)))
      \<and> alive (ss_mem example_sessions) (ss_base example_sessions)"
    using example_sessions_inv by (simp add: sessions_inv_def isolated_def)
  then obtain m res where
    "VariableSpace_clone (sorted_list_of_set (dom (vs_paired (ss_base example_sessions)))) (ss_base example_sessions)
      (ss_mem example_sessions) = Some (m, res)"
    using footprint_clone by blast
  then obtain s2 where r: "startSession_register 30 3 (example_sessions\<lparr>ss_counter := 4\<rparr>) = Some s2"
    using l by (simp add: startSession_register_def Let_def)
  from start_then_local [OF example_sessions_inv l c r] r show ?thesis by blast
qed

text \<open>
  A thread that asks for its local space without a session leaves traces: it is counted as a
  session from then on, the call throws, and the mutex stays locked, so that every later call of
  every thread blocks.
\<close>

theorem phantom_session:
  assumes "sessions_inv s" "\<not> ss_locked s" "sm_find (ss_thread s) t = None"
  shows "\<exists>s'. localVariableSpace t s = Some (None, s')
    \<and> sm_find (ss_thread s') t = Some 0 \<and> length (ss_thread s') = length (ss_thread s) + 1
    \<and> (\<forall>u n. numberOfSessions s' = None \<and> getSessionId u s' = None \<and> localVariableSpace_id n s' = None
         \<and> startSession_register u n s' = None \<and> endSession_id n s' = None \<and> endSession_thread u s' = None)"
proof -
  have wf: "sm_wf (ss_thread s)" and ok: "ids_ok (ss_counter s) (sm_find (ss_thread s)) (sm_find (ss_spaces s)) (ss_pc s)"
    using assms(1) by (simp_all add: sessions_inv_def ids_inv_def)
  have no0: "sm_find (ss_spaces s) 0 = None"
    using ids_okD(2) [OF ok, of 0] by (cases "sm_find (ss_spaces s) 0") auto
  let ?s = "s\<lparr>ss_thread := sm_insert t 0 (ss_thread s), ss_locked := True\<rparr>"
  have "localVariableSpace t s = Some (None, ?s)"
    using assms(2,3) no0 by (simp add: localVariableSpace_def getSessionId_def thread_session_def localVariableSpace_id_def)
  moreover have "length (sm_insert t 0 m) = length m + 1" if "sm_wf m" "sm_find m t = None" for m :: "(int, int) std_map"
    using that by (induction t "0 :: int" m rule: sm_insert.induct) (auto split: if_splits)
  ultimately show ?thesis
    using wf assms(3)
    by (intro exI [of _ ?s]) (simp add: sm_laws numberOfSessions_def ss_defs)
qed

theorem phantom_session_witness:
  "\<exists>s'. localVariableSpace 30 example_sessions = Some (None, s') \<and> length (ss_thread s') = 3 \<and> numberOfSessions s' = None"
proof -
  have "\<not> ss_locked example_sessions" "sm_find (ss_thread example_sessions) 30 = None"
    by (simp_all add: example_sessions_def)
  from phantom_session [OF example_sessions_inv this] show ?thesis by (auto simp: example_sessions_def)
qed

subsection \<open>The stash\<close>

lemma stash_put_all_handles:
  "put_all stash_put kvs s = Some s' \<Longrightarrow> st_handles s' = st_handles s @ map (\<lambda>(k, a). Some a) kvs"
  by (induction kvs arbitrary: s) (auto simp: stash_put_eq)

text \<open>
  After arrays have been stored under distinct keys, every key gives back its array, other keys
  give a null pointer, and clearing the stash frees exactly the stored arrays; clearing is defined
  exactly when no array was stored twice, since every stored pointer is deleted.
\<close>

theorem stash_store_extract_clear:
  assumes "distinct (map fst kvs)" "\<forall>(k, a) \<in> set kvs. m_arrs m a \<noteq> None"
  shows "\<exists>s. put_all stash_put kvs Stash_new = Some s
    \<and> (\<forall>k a. (k, a) \<in> set kvs \<longrightarrow> extractArray (fst k) (Some (snd k)) s = Some (Some a, s))
    \<and> (\<forall>k. k \<notin> fst ` set kvs \<longrightarrow> map_option fst (extractArray (fst k) (Some (snd k)) s) = Some None)
    \<and> (case Stash_clear m s of
         Some (m', s') \<Rightarrow> distinct (map snd kvs) \<and> s' = Stash_new
           \<and> m_arrs m' = (\<lambda>a. if a \<in> snd ` set kvs then None else m_arrs m a)
       | None \<Rightarrow> \<not> distinct (map snd kvs))"
proof -
  have ok: "stash_ok Stash_new" by (simp add: stash_ok_def Stash_new_def)
  have all: "\<forall>(k, v) \<in> set kvs. True" by simp
  obtain s where s: "put_all stash_put kvs Stash_new = Some s" "stash_ok s"
    and get: "\<And>k a. (k, a) \<in> set kvs \<Longrightarrow> stash_get k s = Some a"
    and other: "\<And>k. k \<notin> fst ` set kvs \<Longrightarrow> stash_get k s = stash_get k Stash_new"
    using st.put_all_distinct [OF ok all assms(1)] by blast
  have ex: "extractArray (fst k) (Some (snd k)) s = Some (Some a, s)" if "(k, a) \<in> set kvs" for k a
    using get [OF that] by (auto simp: stash_get_eq extractArray_def KeyPair_new_def split: option.splits)
  have no: "map_option fst (extractArray (fst k) (Some (snd k)) s) = Some None" if "k \<notin> fst ` set kvs" for k
    using other [OF that]
    by (auto simp: stash_get_eq extractArray_def KeyPair_new_def Stash_new_def split: option.splits)
  have hs: "st_handles s = map Some (map snd kvs)"
    using stash_put_all_handles [OF s(1)] by (simp add: Stash_new_def case_prod_unfold comp_def)
  have "distinct (filter (\<lambda>h. h \<noteq> None) (map Some as)) = distinct as" for as :: "nat list"
    by (induction as) auto
  note dist = this [of "map snd kvs"]
  have alive: "\<forall>a. Some a \<in> set (map Some (map snd kvs)) \<longrightarrow> m_arrs m a \<noteq> None" using assms(2) by auto
  have "case Stash_clear m s of
         Some (m', s') \<Rightarrow> distinct (map snd kvs) \<and> s' = Stash_new
           \<and> m_arrs m' = (\<lambda>a. if a \<in> snd ` set kvs then None else m_arrs m a)
       | None \<Rightarrow> \<not> distinct (map snd kvs)"
  proof (cases "delete_arrays (st_handles s) m")
    case None
    then show ?thesis using delete_arrays_exact [of "st_handles s" m] dist alive unfolding hs by (simp add: Stash_clear_def hs)
  next
    case (Some m')
    then have "distinct (map snd kvs)"
      using delete_arrays_exact [of "st_handles s" m] dist unfolding hs by auto
    moreover have "m_arrs m' = (\<lambda>a. if a \<in> snd ` set kvs then None else m_arrs m a)"
      using delete_arrays_frees [OF Some] by (auto simp: hs fun_eq_iff image_iff)
    ultimately show ?thesis using Some by (simp add: Stash_clear_def Stash_new_def)
  qed
  with s ex no show ?thesis by blast
qed

theorem stash_store_extract_clear_witness:
  "\<exists>s. put_all stash_put [((1, ''a''), 3), ((1, ''b''), 4)] Stash_new = Some s
    \<and> extractArray 1 (Some ''b'') s = Some (Some 4, s)"
  using stash_store_extract_clear [of "[((1, ''a''), 3), ((1, ''b''), 4)]" "mem_empty\<lparr>m_arrs := [3 \<mapsto> (), 4 \<mapsto> ()]\<rparr>"]
  by fastforce

end
