(* ===== verification/Workspaces.thy ===== *)
theory Workspaces
  imports Containers
begin

text \<open>
  \<open>include/memory/Workspace.h\<close> and \<open>include/memory/cpu/Workspace.cpp\<close>: an arena that serves
  allocations from one host block, spills what does not fit to \<open>malloc\<close>, and grows at the next
  \<open>scopeIn\<close> to what the last cycle needed.
\<close>

subsection \<open>The heap\<close>

text \<open>
  \<open>malloc\<close> gives a fresh block or, for sizes above what is available, a null pointer; a negative
  size becomes a huge \<open>size_t\<close>.  Freeing a null pointer does nothing, freeing a block that is not
  live is undefined.  A pointer is a block and an offset in it.
\<close>

record heap =
  h_live :: "nat \<Rightarrow> int option"
  h_next :: nat
  h_limit :: int

definition malloc :: "int \<Rightarrow> heap \<Rightarrow> nat option \<times> heap" where
  "malloc n h = (if n < 0 \<or> n > h_limit h then (None, h)
     else (Some (h_next h), h\<lparr>h_live := (h_live h)(h_next h \<mapsto> n), h_next := h_next h + 1\<rparr>))"

definition free :: "nat option \<Rightarrow> heap \<Rightarrow> heap option" where
  "free p h = (case p of None \<Rightarrow> Some h
     | Some b \<Rightarrow> do { n \<leftarrow> h_live h b; Some (h\<lparr>h_live := (h_live h)(b := None)\<rparr>) })"

text \<open>\<open>+=\<close> on an \<open>std::atomic<Nd4jIndex>\<close> wraps around.\<close>

definition wrap64 :: "int \<Rightarrow> int" where
  "wrap64 x = (x + 2 ^ 63) mod 2 ^ 64 - 2 ^ 63"

subsection \<open>Code\<close>

text \<open>
  \<open>_ptrHost\<close> is uninitialised when the initial size is not positive, until \<open>init\<close> has run;
  \<open>_allocatedHost\<close> tells whether it has a value.  A value \<^term>\<open>None\<close> is then the null pointer that
  the \<open>malloc\<close> of \<open>init\<close> returned, which the code does not check.
\<close>

record workspace =
  ws_ptrHost :: "nat option"
  ws_allocatedHost :: bool
  ws_offset :: int
  ws_initialSize :: int
  ws_currentSize :: int
  ws_spills :: "nat option list"
  ws_spillsSize :: int
  ws_cycleAllocations :: int

datatype workspace_error = AllocationFailed | NoDeviceMemory
datatype MemoryType = HOST | DEVICE

definition Workspace_new :: "int \<Rightarrow> heap \<Rightarrow> (workspace_error + workspace) \<times> heap" where
  "Workspace_new initialSize h =
     (let (p, h') = (if initialSize > 0 then malloc initialSize h else (None, h)) in
      if initialSize > 0 \<and> p = None then (Inl AllocationFailed, h')
      else (Inr \<lparr>ws_ptrHost = p, ws_allocatedHost = (initialSize > 0), ws_offset = 0,
        ws_initialSize = initialSize, ws_currentSize = initialSize, ws_spills = [],
        ws_spillsSize = 0, ws_cycleAllocations = 0\<rparr>, h'))"

definition Workspace_init :: "int \<Rightarrow> workspace \<Rightarrow> heap \<Rightarrow> (workspace \<times> heap) option" where
  "Workspace_init bytes w h =
     (if ws_currentSize w < bytes then do {
        h \<leftarrow> (if ws_allocatedHost w then free (ws_ptrHost w) h else Some h);
        let (p, h) = malloc bytes h;
        Some (w\<lparr>ws_ptrHost := p, ws_currentSize := bytes, ws_allocatedHost := True\<rparr>, h) }
      else Some (w, h))"

fun free_all :: "nat option list \<Rightarrow> heap \<Rightarrow> heap option" where
  "free_all [] h = Some h"
| "free_all (p # ps) h = Option.bind (free p h) (free_all ps)"

definition freeSpills :: "workspace \<Rightarrow> heap \<Rightarrow> (workspace \<times> heap) option" where
  "freeSpills w h =
     (let w = w\<lparr>ws_spillsSize := 0\<rparr> in
      if length (ws_spills w) < 1 then Some (w, h)
      else do { h \<leftarrow> free_all (ws_spills w) h; Some (w\<lparr>ws_spills := []\<rparr>, h) })"

definition Workspace_delete :: "workspace \<Rightarrow> heap \<Rightarrow> heap option" where
  "Workspace_delete w h = do {
     h \<leftarrow> (if ws_allocatedHost w then free (ws_ptrHost w) h else Some h);
     (w, h) \<leftarrow> freeSpills w h;
     Some h }"

definition getCurrentSize :: "workspace \<Rightarrow> int" where "getCurrentSize w = ws_currentSize w"
definition getCurrentOffset :: "workspace \<Rightarrow> int" where "getCurrentOffset w = ws_offset w"
definition getSpilledSize :: "workspace \<Rightarrow> int" where "getSpilledSize w = ws_spillsSize w"

text \<open>
  The three critical parts of \<open>allocateBytes\<close>: the atomic count, the region under
  \<open>_mutexAllocation\<close>, and the spill under \<open>_mutexSpills\<close> with the atomic count of spilled bytes.
  The pointer is computed from the offset after it has been advanced.
\<close>

datatype pointer = Host "nat option" int | Spill "nat option"

definition alloc_count :: "int \<Rightarrow> workspace \<Rightarrow> workspace" where
  "alloc_count n w = w\<lparr>ws_cycleAllocations := wrap64 (ws_cycleAllocations w + n)\<rparr>"

text \<open>
  \<open>_ptrHost + _offset\<close>: reading an uninitialised pointer is undefined, and so is adding anything
  but 0 to a null pointer.
\<close>

definition host_pointer :: "workspace \<Rightarrow> pointer option" where
  "host_pointer w = (if \<not> ws_allocatedHost w \<or> ws_ptrHost w = None \<and> ws_offset w \<noteq> 0 then None
     else Some (Host (ws_ptrHost w) (ws_offset w)))"

definition alloc_take :: "int \<Rightarrow> workspace \<Rightarrow> (pointer option \<times> workspace) option" where
  "alloc_take n w = do {
     e \<leftarrow> i64 (ws_offset w + n);
     if e > ws_currentSize w then Some (None, w)
     else do {
       let w = w\<lparr>ws_offset := wrap64 (ws_offset w + n)\<rparr>;
       p \<leftarrow> host_pointer w;
       Some (Some p, w) } }"

definition alloc_spill :: "int \<Rightarrow> workspace \<Rightarrow> heap \<Rightarrow> pointer \<times> workspace \<times> heap" where
  "alloc_spill n w h = (let (p, h) = malloc n h in (Spill p, w\<lparr>ws_spills := ws_spills w @ [p]\<rparr>, h))"

definition alloc_spilled :: "int \<Rightarrow> workspace \<Rightarrow> workspace" where
  "alloc_spilled n w = w\<lparr>ws_spillsSize := wrap64 (ws_spillsSize w + n)\<rparr>"

definition allocateBytes :: "int \<Rightarrow> workspace \<Rightarrow> heap \<Rightarrow> (pointer \<times> workspace \<times> heap) option" where
  "allocateBytes n w h = do {
     let w = alloc_count n w;
     (r, w) \<leftarrow> alloc_take n w;
     (case r of
        Some p \<Rightarrow> Some (p, w, h)
      | None \<Rightarrow> let (p, w, h) = alloc_spill n w h in Some (p, alloc_spilled n w, h)) }"

definition allocateBytes_type ::
  "MemoryType \<Rightarrow> int \<Rightarrow> workspace \<Rightarrow> heap \<Rightarrow> (workspace_error + pointer \<times> workspace \<times> heap) option" where
  "allocateBytes_type type n w h =
     (if type = DEVICE then Some (Inl NoDeviceMemory) else map_option Inr (allocateBytes n w h))"

definition scopeIn :: "workspace \<Rightarrow> heap \<Rightarrow> (workspace \<times> heap) option" where
  "scopeIn w h = do {
     (w, h) \<leftarrow> freeSpills w h;
     (w, h) \<leftarrow> Workspace_init (ws_cycleAllocations w) w h;
     Some (w\<lparr>ws_cycleAllocations := 0\<rparr>, h) }"

definition scopeOut :: "workspace \<Rightarrow> workspace" where
  "scopeOut w = w\<lparr>ws_offset := 0\<rparr>"

definition Workspace_clone :: "workspace \<Rightarrow> heap \<Rightarrow> (workspace_error + workspace) \<times> heap" where
  "Workspace_clone w h = Workspace_new (max (getCurrentSize w) (ws_cycleAllocations w)) h"

fun allocate_all :: "int list \<Rightarrow> workspace \<Rightarrow> heap \<Rightarrow> (pointer list \<times> workspace \<times> heap) option" where
  "allocate_all [] w h = Some ([], w, h)"
| "allocate_all (n # ns) w h = do {
     (p, w, h) \<leftarrow> allocateBytes n w h;
     (ps, w, h) \<leftarrow> allocate_all ns w h;
     Some (p # ps, w, h) }"

subsection \<open>Ownership of heap blocks\<close>

definition blocks :: "nat option list \<Rightarrow> nat list" where
  "blocks ps = map the (filter (\<lambda>p. p \<noteq> None) ps)"

lemma blocks_simps [simp]:
  "blocks [] = []" "blocks (None # ps) = blocks ps" "blocks (Some b # ps) = b # blocks ps"
  "blocks (ps @ qs) = blocks ps @ blocks qs"
  by (simp_all add: blocks_def)

definition ws_blocks :: "workspace \<Rightarrow> nat list" where
  "ws_blocks w = (if ws_allocatedHost w then blocks [ws_ptrHost w] else []) @ blocks (ws_spills w)"

text \<open>
  \<open>owns h0 bs h\<close>: the heap \<open>h\<close> is the heap \<open>h0\<close> with the additional live blocks \<open>bs\<close>.
\<close>

definition owns :: "heap \<Rightarrow> nat list \<Rightarrow> heap \<Rightarrow> bool" where
  "owns h0 bs h \<longleftrightarrow> distinct bs \<and> (\<forall>b \<in> set bs. h_live h b \<noteq> None \<and> h_live h0 b = None \<and> b < h_next h)
     \<and> (\<forall>b. b \<notin> set bs \<longrightarrow> h_live h b = h_live h0 b) \<and> (\<forall>b \<ge> h_next h. h_live h b = None)
     \<and> h_limit h = h_limit h0"

lemma owns_perm: "owns h0 bs h \<Longrightarrow> set bs = set cs \<Longrightarrow> distinct cs \<Longrightarrow> owns h0 cs h"
  by (simp add: owns_def)

lemma owns_malloc:
  assumes "owns h0 bs h" "malloc n h = (p, h')"
  shows "owns h0 (blocks [p] @ bs) h'"
proof (cases p)
  case None
  then show ?thesis using assms by (auto simp: malloc_def split: if_splits)
next
  case (Some b)
  then have b: "b = h_next h" "h' = h\<lparr>h_live := (h_live h)(b \<mapsto> n), h_next := h_next h + 1\<rparr>"
    using assms(2) by (auto simp: malloc_def split: if_splits)
  have "b \<notin> set bs" using assms(1) b(1) by (auto simp: owns_def)
  moreover have "h_live h0 b = None" using assms(1) b(1) calculation unfolding owns_def by (metis order_refl)
  ultimately show ?thesis using assms(1) Some b by (auto simp: owns_def less_Suc_eq)
qed

lemma owns_free:
  assumes "owns h0 (blocks [p] @ bs) h"
  shows "\<exists>h'. free p h = Some h' \<and> owns h0 bs h'"
proof (cases p)
  case None
  then show ?thesis using assms by (simp add: free_def)
next
  case (Some b)
  then have "h_live h b \<noteq> None" "b \<notin> set bs" using assms by (auto simp: owns_def)
  then show ?thesis using assms Some by (auto simp: free_def owns_def)
qed

lemma owns_free_all:
  assumes "owns h0 (blocks ps @ bs) h"
  shows "\<exists>h'. free_all ps h = Some h' \<and> owns h0 bs h'"
  using assms
proof (induction ps arbitrary: h)
  case (Cons p ps)
  have "blocks (p # ps) = blocks [p] @ blocks ps" by (cases p) simp_all
  then have "owns h0 (blocks [p] @ (blocks ps @ bs)) h" using Cons.prems by simp
  from owns_free [OF this] obtain h1 where "free p h = Some h1" "owns h0 (blocks ps @ bs) h1" by blast
  with Cons.IH show ?case by simp
qed simp

lemma owns_swap: "owns h0 (as @ bs) h \<Longrightarrow> owns h0 (bs @ as) h"
  by (rule owns_perm [of h0 "as @ bs"]) (auto simp: owns_def)

subsection \<open>Runs of a workspace\<close>

datatype ws_op = Allocate int | ScopeIn | ScopeOut

fun ws_exec :: "ws_op \<Rightarrow> workspace \<times> heap \<Rightarrow> (workspace \<times> heap) option" where
  "ws_exec (Allocate n) (w, h) = map_option snd (allocateBytes n w h)"
| "ws_exec ScopeIn (w, h) = scopeIn w h"
| "ws_exec ScopeOut (w, h) = Some (scopeOut w, h)"

fun ws_run :: "ws_op list \<Rightarrow> workspace \<times> heap \<Rightarrow> (workspace \<times> heap) option" where
  "ws_run [] s = Some s"
| "ws_run (x # xs) s = Option.bind (ws_exec x s) (ws_run xs)"

fun requested :: "ws_op list \<Rightarrow> int" where
  "requested [] = 0"
| "requested (Allocate n # xs) = n + requested xs"
| "requested (_ # xs) = requested xs"

text \<open>
  The state of a workspace in the heap \<open>h\<close> that was \<open>h0\<close> before; \<open>k\<close> bounds the bytes of the cycle.
  A workspace of positive size has its host block, so no growth has failed.
\<close>

definition ws_inv :: "heap \<Rightarrow> int \<Rightarrow> workspace \<times> heap \<Rightarrow> bool" where
  "ws_inv h0 k s \<longleftrightarrow> (let w = fst s in
     0 \<le> ws_offset w \<and> ws_offset w \<le> ws_currentSize w \<and> ws_currentSize w \<le> 2 ^ 62
     \<and> 0 \<le> ws_spillsSize w \<and> ws_spillsSize w \<le> ws_cycleAllocations w \<and> ws_cycleAllocations w \<le> k
     \<and> (ws_allocatedHost w \<longrightarrow> ws_ptrHost w \<noteq> None \<longrightarrow> h_live (snd s) (the (ws_ptrHost w)) = Some (ws_currentSize w))
     \<and> (ws_currentSize w > 0 \<longrightarrow> ws_allocatedHost w \<and> ws_ptrHost w \<noteq> None)
     \<and> owns h0 (ws_blocks w) (snd s))"

lemma wrap64_id: "0 \<le> x \<Longrightarrow> x < 2 ^ 63 \<Longrightarrow> wrap64 x = x"
  by (simp add: wrap64_def)

lemma allocate_inv:
  assumes inv: "ws_inv h0 k (w, h)" and n: "0 \<le> n" "k + n \<le> 2 ^ 61" and pos: "0 < n \<or> 0 < ws_currentSize w"
  shows "\<exists>p w' h'. allocateBytes n w h = Some (p, w', h') \<and> ws_inv h0 (k + n) (w', h')
    \<and> ws_cycleAllocations w' = ws_cycleAllocations w + n \<and> ws_currentSize w' = ws_currentSize w
    \<and> ws_ptrHost w' = ws_ptrHost w
    \<and> (if ws_offset w + n \<le> ws_currentSize w
       then p = Host (ws_ptrHost w) (ws_offset w + n) \<and> ws_offset w' = ws_offset w + n
         \<and> ws_spills w' = ws_spills w \<and> ws_spillsSize w' = ws_spillsSize w \<and> h' = h
       else \<exists>q. p = Spill q \<and> ws_spills w' = ws_spills w @ [q] \<and> ws_offset w' = ws_offset w
         \<and> ws_spillsSize w' = ws_spillsSize w + n)"
proof -
  note b = inv [unfolded ws_inv_def Let_def fst_conv snd_conv]
  have small: "(2 :: int) ^ 62 < 2 ^ 63" by simp
  have c: "wrap64 (ws_cycleAllocations w + n) = ws_cycleAllocations w + n"
    using b n by (intro wrap64_id) auto
  have e: "i64 (ws_offset w + n) = Some (ws_offset w + n)" using b n by (simp add: i64_def)
  have o': "wrap64 (ws_offset w + n) = ws_offset w + n" using b n by (intro wrap64_id) auto
  have s: "wrap64 (ws_spillsSize w + n) = ws_spillsSize w + n" using b n by (intro wrap64_id) auto
  show ?thesis
  proof (cases "ws_offset w + n \<le> ws_currentSize w")
    case True
    have "0 < ws_currentSize w" using pos True b by linarith
    then have alive: "ws_allocatedHost w \<and> ws_ptrHost w \<noteq> None" using b by blast
    let ?w = "w\<lparr>ws_cycleAllocations := ws_cycleAllocations w + n, ws_offset := ws_offset w + n\<rparr>"
    have "allocateBytes n w h = Some (Host (ws_ptrHost w) (ws_offset w + n), ?w, h)"
      using True alive by (simp add: allocateBytes_def alloc_count_def alloc_take_def host_pointer_def c e o' Let_def)
    moreover have "ws_blocks ?w = ws_blocks w" by (simp add: ws_blocks_def)
    then have "ws_inv h0 (k + n) (?w, h)" using b n True by (simp add: ws_inv_def)
    ultimately show ?thesis using True by simp
  next
    case False
    obtain q h' where q: "malloc n h = (q, h')" by (cases "malloc n h")
    let ?w = "w\<lparr>ws_cycleAllocations := ws_cycleAllocations w + n, ws_spills := ws_spills w @ [q],
      ws_spillsSize := ws_spillsSize w + n\<rparr>"
    have "allocateBytes n w h = Some (Spill q, ?w, h')"
      using False q by (simp add: allocateBytes_def alloc_count_def alloc_take_def alloc_spill_def alloc_spilled_def c e s Let_def)
    moreover have "owns h0 (ws_blocks ?w) h'"
    proof -
      have "ws_blocks ?w = ws_blocks w @ blocks [q]" by (simp add: ws_blocks_def)
      then show ?thesis using owns_swap [OF owns_malloc [OF _ q], of h0 "ws_blocks w"] b by simp
    qed
    moreover have "h_live h' x = h_live h x" if "x < h_next h" for x
      using q that by (auto simp: malloc_def split: if_splits)
    then have "ws_allocatedHost w \<longrightarrow> ws_ptrHost w \<noteq> None \<longrightarrow> h_live h' (the (ws_ptrHost w)) = Some (ws_currentSize w)"
      using b by (auto simp: owns_def ws_blocks_def)
    ultimately show ?thesis using False b n by (auto simp: ws_inv_def)
  qed
qed

lemma scopeIn_inv:
  assumes inv: "ws_inv h0 k (w, h)" and k: "k \<le> 2 ^ 61" and lim: "ws_cycleAllocations w \<le> h_limit h0"
  shows "\<exists>w' h'. scopeIn w h = Some (w', h') \<and> ws_inv h0 k (w', h') \<and> ws_cycleAllocations w' = 0
    \<and> ws_spillsSize w' = 0 \<and> ws_spills w' = [] \<and> ws_offset w' = ws_offset w
    \<and> ws_currentSize w' = max (ws_currentSize w) (ws_cycleAllocations w)"
proof -
  note b = inv [unfolded ws_inv_def Let_def fst_conv snd_conv]
  let ?c = "ws_cycleAllocations w" and ?own = "if ws_allocatedHost w then blocks [ws_ptrHost w] else []"
  have o: "owns h0 (ws_blocks w) h" using b by blast
  have "owns h0 (blocks (ws_spills w) @ ?own) h" by (rule owns_swap [OF o [unfolded ws_blocks_def]])
  from owns_free_all [OF this] obtain h1 where h1: "free_all (ws_spills w) h = Some h1" "owns h0 ?own h1" by blast
  define w1 where "w1 = w\<lparr>ws_spillsSize := 0, ws_spills := []\<rparr>"
  have "freeSpills w h = Some (w1, h1)"
  proof (cases "ws_spills w")
    case Nil
    then have "w\<lparr>ws_spillsSize := 0\<rparr> = w1" by (intro workspace.equality) (simp_all add: w1_def)
    moreover have "ws_spills w1 = []" by (simp add: w1_def)
    ultimately show ?thesis using h1(1) Nil by (simp add: freeSpills_def)
  next
    case (Cons p ps)
    then have "\<not> length (ws_spills w) < 1" by simp
    then show ?thesis using h1(1) by (simp only: freeSpills_def Let_def workspace.simps if_False) (simp add: w1_def)
  qed
  note f = this
  have live: "h_live h1 (the (ws_ptrHost w)) = Some (ws_currentSize w)" if "ws_allocatedHost w" "ws_ptrHost w \<noteq> None"
  proof -
    have "b \<notin> set bs \<Longrightarrow> free_all ps g = Some g' \<Longrightarrow> set (blocks ps) \<subseteq> set bs \<Longrightarrow> h_live g' b = h_live g b" for b bs ps g g'
    proof (induction ps arbitrary: g)
      case (Cons p ps)
      then show ?case by (cases p) (auto simp: free_def bind_eq_Some_conv)
    qed simp
    from this [OF _ h1(1) order_refl] show ?thesis
      using b that by (auto simp: ws_blocks_def owns_def)
  qed
  show ?thesis
  proof (cases "ws_currentSize w < ?c")
    case False
    have "scopeIn w h = Some (w1\<lparr>ws_cycleAllocations := 0\<rparr>, h1)"
      using False f by (simp add: scopeIn_def Workspace_init_def w1_def)
    moreover have "ws_inv h0 k (w1\<lparr>ws_cycleAllocations := 0\<rparr>, h1)"
    proof -
      have "ws_blocks (w1\<lparr>ws_cycleAllocations := 0\<rparr>) = ?own" by (simp add: ws_blocks_def w1_def)
      then show ?thesis using b h1(2) live by (simp add: ws_inv_def w1_def)
    qed
    ultimately show ?thesis using False by (simp add: w1_def)
  next
    case True
    have "\<exists>h2. (if ws_allocatedHost w then free (ws_ptrHost w) h1 else Some h1) = Some h2 \<and> owns h0 [] h2"
      using owns_free [of h0 "ws_ptrHost w" "[]" h1] h1(2) by (cases "ws_allocatedHost w") simp_all
    then obtain h2 where h2: "(if ws_allocatedHost w then free (ws_ptrHost w) h1 else Some h1) = Some h2" "owns h0 [] h2" by blast
    obtain q h3 where q: "malloc ?c h2 = (q, h3)" by (cases "malloc ?c h2")
    have own: "owns h0 (blocks [q]) h3" using owns_malloc [OF h2(2) q] by simp
    have size: "q \<noteq> None \<Longrightarrow> h_live h3 (the q) = Some ?c" using q by (auto simp: malloc_def split: if_splits)
    have lim: "q \<noteq> None" using lim q h2(2) b True by (auto simp: malloc_def owns_def split: if_splits)
    define w3 where "w3 = w1\<lparr>ws_ptrHost := q, ws_currentSize := ?c, ws_allocatedHost := True, ws_cycleAllocations := 0\<rparr>"
    have "scopeIn w h = Some (w3, h3)"
      using True f h2(1) q unfolding scopeIn_def Workspace_init_def
      by (simp add: w1_def w3_def split: if_splits)
    moreover have "ws_inv h0 k (w3, h3)"
      using b own size lim True k by (simp add: ws_inv_def ws_blocks_def w1_def w3_def)
    ultimately show ?thesis using True lim by (simp add: w1_def w3_def)
  qed
qed

lemma scopeOut_inv: "ws_inv h0 k (w, h) \<Longrightarrow> ws_inv h0 k (scopeOut w, h)"
proof -
  assume "ws_inv h0 k (w, h)"
  moreover have "ws_blocks (w\<lparr>ws_offset := 0\<rparr>) = ws_blocks w" by (simp add: ws_blocks_def)
  ultimately show ?thesis by (auto simp: ws_inv_def scopeOut_def Let_def)
qed

lemma ws_inv_mono: "ws_inv h0 k s \<Longrightarrow> k \<le> k' \<Longrightarrow> ws_inv h0 k' s"
  by (auto simp: ws_inv_def Let_def)

lemma ws_run_inv:
  assumes "ws_inv h0 k s" "\<forall>n. Allocate n \<in> set xs \<longrightarrow> 0 \<le> n" "k + requested xs \<le> 2 ^ 61"
    and "k + requested xs \<le> h_limit h0"
    and "\<forall>n. Allocate n \<in> set xs \<longrightarrow> 0 < n \<or> 0 < ws_currentSize (fst s)"
  shows "\<exists>s'. ws_run xs s = Some s' \<and> ws_inv h0 (k + requested xs) s'"
  using assms
proof (induction xs arbitrary: k s)
  case (Cons x xs)
  have nn: "0 \<le> requested xs" if "\<forall>n. Allocate n \<in> set xs \<longrightarrow> 0 \<le> n" for xs
    using that by (induction xs rule: requested.induct) force+
  have r: "0 \<le> requested xs" using Cons.prems(2) by (intro nn) auto
  obtain w h where s: "s = (w, h)" by (cases s)
  have k: "0 \<le> k" using Cons.prems(1) by (auto simp: ws_inv_def Let_def)
  have "\<exists>s1. ws_exec x s = Some s1 \<and> ws_inv h0 (k + requested [x]) s1
      \<and> ws_currentSize (fst s) \<le> ws_currentSize (fst s1)"
  proof (cases x)
    case (Allocate n)
    then have "0 \<le> n" "k + n \<le> 2 ^ 61" "0 < n \<or> 0 < ws_currentSize w" using Cons.prems(2,3,5) r s by auto
    from allocate_inv [OF Cons.prems(1) [unfolded s] this] show ?thesis by (auto simp: s Allocate)
  next
    case ScopeIn
    have "k \<le> 2 ^ 61" using Cons.prems(3) r ScopeIn by simp
    moreover have "ws_cycleAllocations w \<le> h_limit h0"
      using Cons.prems(1,4) r ScopeIn by (auto simp: s ws_inv_def Let_def)
    ultimately have "k \<le> 2 ^ 61" "ws_cycleAllocations w \<le> h_limit h0" by auto
    from scopeIn_inv [OF Cons.prems(1) [unfolded s] this] show ?thesis by (auto simp: s ScopeIn)
  next
    case ScopeOut
    then show ?thesis using scopeOut_inv [OF Cons.prems(1) [unfolded s]] by (simp add: s scopeOut_def)
  qed
  then obtain s1 where s1: "ws_exec x s = Some s1" "ws_inv h0 (k + requested [x]) s1"
    "ws_currentSize (fst s) \<le> ws_currentSize (fst s1)" by blast
  have e: "k + requested (x # xs) = k + requested [x] + requested xs" by (cases x) simp_all
  have "\<exists>s'. ws_run xs s1 = Some s' \<and> ws_inv h0 (k + requested [x] + requested xs) s'"
  proof (rule Cons.IH [OF s1(2)])
    show "\<forall>n. Allocate n \<in> set xs \<longrightarrow> 0 < n \<or> 0 < ws_currentSize (fst s1)" using Cons.prems(5) s1(3) by fastforce
  qed (use Cons.prems(2-4) e in auto)
  then show ?case unfolding e by (auto simp: s1(1))
qed simp

lemma delete_frees:
  assumes "ws_inv h0 k (w, h)"
  shows "\<exists>h'. Workspace_delete w h = Some h' \<and> h_live h' = h_live h0"
proof -
  let ?own = "if ws_allocatedHost w then blocks [ws_ptrHost w] else []"
  have "owns h0 (ws_blocks w) h" using assms by (simp add: ws_inv_def Let_def)
  then have "\<exists>h1. (if ws_allocatedHost w then free (ws_ptrHost w) h else Some h) = Some h1 \<and> owns h0 (blocks (ws_spills w)) h1"
    using owns_free [of h0 "ws_ptrHost w" "blocks (ws_spills w)" h]
    by (cases "ws_allocatedHost w") (simp_all add: ws_blocks_def)
  then obtain h1 where h1: "(if ws_allocatedHost w then free (ws_ptrHost w) h else Some h) = Some h1"
    "owns h0 (blocks (ws_spills w)) h1" by blast
  obtain h2 where h2: "free_all (ws_spills w) h1 = Some h2" "owns h0 [] h2"
    using owns_free_all [of h0 "ws_spills w" "[]" h1] h1(2) by auto
  have "\<exists>w'. freeSpills w h1 = Some (w', h2)"
  proof (cases "ws_spills w")
    case Nil
    then show ?thesis using h2(1) by (simp add: freeSpills_def Let_def)
  next
    case (Cons p ps)
    then have "\<not> length (ws_spills w) < 1" by simp
    then show ?thesis using h2(1) by (simp only: freeSpills_def Let_def workspace.simps if_False) simp
  qed
  moreover have "h_live h2 = h_live h0" using h2(2) by (auto simp: owns_def fun_eq_iff)
  ultimately show ?thesis using h1(1) by (auto simp: Workspace_delete_def)
qed

lemma new_inv:
  assumes "Workspace_new n h0 = (Inr w, h)" "0 \<le> n" "n \<le> 2 ^ 62" "\<forall>b \<ge> h_next h0. h_live h0 b = None"
  shows "ws_inv h0 0 (w, h)"
proof -
  have e: "owns h0 [] h0" using assms(4) by (simp add: owns_def)
  show ?thesis
  proof (cases "n > 0")
    case False
    then show ?thesis using assms e by (auto simp: Workspace_new_def ws_inv_def ws_blocks_def)
  next
    case True
    obtain p h1 where p: "malloc n h0 = (p, h1)" by (cases "malloc n h0")
    then have pn: "p \<noteq> None" "h1 = h" using assms(1) True by (auto simp: Workspace_new_def split: if_splits)
    have "h_live h (the p) = Some n" using p pn by (auto simp: malloc_def split: if_splits)
    then show ?thesis using owns_malloc [OF e p] assms True p pn
      by (auto simp: Workspace_new_def ws_inv_def ws_blocks_def)
  qed
qed

subsection \<open>A cycle that fits\<close>

lemma allocate_fits:
  assumes "ws_inv h0 k (w, h)" "\<forall>n \<in> set ns. 0 \<le> n" "k + sum_list ns \<le> 2 ^ 61"
    and "ws_offset w + sum_list ns \<le> ws_currentSize w" "0 < ws_currentSize w"
  shows "\<exists>w'. allocate_all ns w h
      = Some (map (\<lambda>i. Host (ws_ptrHost w) (ws_offset w + sum_list (take (Suc i) ns))) [0..<length ns], w', h)
    \<and> ws_inv h0 (k + sum_list ns) (w', h) \<and> ws_spills w' = ws_spills w \<and> ws_spillsSize w' = ws_spillsSize w"
  using assms
proof (induction ns arbitrary: w k)
  case (Cons n ns)
  have nn: "0 \<le> sum_list ns" using Cons.prems(2) by (intro sum_list_nonneg) auto
  have n: "0 \<le> n" "k + n \<le> 2 ^ 61" "ws_offset w + n \<le> ws_currentSize w"
    "0 < n \<or> 0 < ws_currentSize w" using Cons.prems nn by auto
  obtain w1 where w1: "allocateBytes n w h = Some (Host (ws_ptrHost w) (ws_offset w + n), w1, h)"
    "ws_inv h0 (k + n) (w1, h)" "ws_offset w1 = ws_offset w + n" "ws_currentSize w1 = ws_currentSize w"
    "ws_ptrHost w1 = ws_ptrHost w" "ws_spills w1 = ws_spills w" "ws_spillsSize w1 = ws_spillsSize w"
    using allocate_inv [OF Cons.prems(1) n(1,2,4)] n(3) by auto
  have "\<forall>n \<in> set ns. 0 \<le> n" "k + n + sum_list ns \<le> 2 ^ 61" "ws_offset w1 + sum_list ns \<le> ws_currentSize w1"
    "0 < ws_currentSize w1"
    using Cons.prems w1(3,4) by auto
  from Cons.IH [OF w1(2) this] obtain w2 where w2:
    "allocate_all ns w1 h = Some (map (\<lambda>i. Host (ws_ptrHost w1) (ws_offset w1 + sum_list (take (Suc i) ns))) [0..<length ns], w2, h)"
    "ws_inv h0 (k + n + sum_list ns) (w2, h)" "ws_spills w2 = ws_spills w1" "ws_spillsSize w2 = ws_spillsSize w1" by blast
  have "map (\<lambda>i. Host (ws_ptrHost w) (ws_offset w + sum_list (take (Suc i) (n # ns)))) [0..<length (n # ns)]
      = Host (ws_ptrHost w) (ws_offset w + n)
        # map (\<lambda>i. Host (ws_ptrHost w1) (ws_offset w1 + sum_list (take (Suc i) ns))) [0..<length ns]"
    by (simp add: w1(3,5) map_upt_Suc add.assoc del: upt_Suc)
  then show ?case using w1(1,6,7) w2 by (auto simp: add.assoc)
qed simp

subsection \<open>Threads\<close>

text \<open>
  Threads that allocate concurrently from one workspace, interleaved between the atomic parts of
  \<open>allocateBytes\<close>.  \<open>Counted n\<close> has counted its bytes, \<open>Full n\<close> has found the block full, \<open>Pushed n\<close>
  has pushed its spill and not yet counted it.
\<close>

datatype alloc_pc = Outside | Counted int | Full int | Pushed int

inductive alloc_step :: "workspace \<times> heap \<times> alloc_pc list \<Rightarrow> workspace \<times> heap \<times> alloc_pc list \<Rightarrow> bool" where
  enter: "i < length pcs \<Longrightarrow> pcs ! i = Outside \<Longrightarrow> 0 \<le> n \<Longrightarrow>
    alloc_step (w, h, pcs) (alloc_count n w, h, pcs[i := Counted n])"
| take_host: "i < length pcs \<Longrightarrow> pcs ! i = Counted n \<Longrightarrow> alloc_take n w = Some (Some p, w') \<Longrightarrow>
    alloc_step (w, h, pcs) (w', h, pcs[i := Outside])"
| take_full: "i < length pcs \<Longrightarrow> pcs ! i = Counted n \<Longrightarrow> alloc_take n w = Some (None, w') \<Longrightarrow>
    alloc_step (w, h, pcs) (w', h, pcs[i := Full n])"
| push: "i < length pcs \<Longrightarrow> pcs ! i = Full n \<Longrightarrow> alloc_spill n w h = (p, w', h') \<Longrightarrow>
    alloc_step (w, h, pcs) (w', h', pcs[i := Pushed n])"
| leave: "i < length pcs \<Longrightarrow> pcs ! i = Pushed n \<Longrightarrow>
    alloc_step (w, h, pcs) (alloc_spilled n w, h, pcs[i := Outside])"

fun pending :: "alloc_pc \<Rightarrow> int" where
  "pending Outside = 0" | "pending (Counted n) = n" | "pending (Full n) = n" | "pending (Pushed n) = n"

text \<open>The counters are equal modulo \<open>2 ^ 64\<close>, so that the atomic additions may wrap.\<close>

definition cong64 :: "int \<Rightarrow> int \<Rightarrow> bool" where
  "cong64 x y \<longleftrightarrow> x mod 2 ^ 64 = y mod 2 ^ 64"

lemma cong64_refl [simp]: "cong64 x x"
  by (simp add: cong64_def)

lemma cong64_wrap: "cong64 (wrap64 x) x"
proof -
  have "(x + 2 ^ 63) mod 2 ^ 64 - 2 ^ 63 = x - 2 ^ 64 * ((x + 2 ^ 63) div 2 ^ 64)"
    by (simp add: minus_mult_div_eq_mod [symmetric])
  then show ?thesis unfolding cong64_def wrap64_def by (simp only:) (simp add: mod_diff_eq [symmetric])
qed

lemma cong64_trans: "cong64 x y \<Longrightarrow> cong64 y z \<Longrightarrow> cong64 x z"
  by (simp add: cong64_def)

lemma cong64_sym: "cong64 x y \<Longrightarrow> cong64 y x"
  by (simp add: cong64_def)

lemma cong64_add: "cong64 x y \<Longrightarrow> cong64 (x + n) (y + n)"
  unfolding cong64_def by (rule mod_add_cong) simp_all

definition accounted :: "workspace \<times> heap \<times> alloc_pc list \<Rightarrow> bool" where
  "accounted s \<longleftrightarrow> (case s of (w, h, pcs) \<Rightarrow>
     cong64 (ws_cycleAllocations w) (ws_offset w + ws_spillsSize w + sum_list (map pending pcs))
     \<and> 0 \<le> ws_offset w \<and> ws_offset w \<le> ws_currentSize w \<and> ws_currentSize w < 2 ^ 63
     \<and> (\<forall>pc \<in> set pcs. 0 \<le> pending pc))"

lemma sum_pending_update:
  "i < length pcs \<Longrightarrow> sum_list (map pending (pcs[i := pc])) = sum_list (map pending pcs) - pending (pcs ! i) + pending pc"
  by (induction pcs arbitrary: i) (auto split: nat.splits)

lemma pending_update:
  "\<forall>pc \<in> set pcs. 0 \<le> pending pc \<Longrightarrow> 0 \<le> pending x \<Longrightarrow> \<forall>pc \<in> set (pcs[i := x]). 0 \<le> pending pc"
  by (auto dest: set_update_subset_insert [THEN subsetD])

lemma accounted_step: "alloc_step s s' \<Longrightarrow> accounted s \<Longrightarrow> accounted s'"
proof (induction rule: alloc_step.induct)
  case (enter i pcs n w h)
  note D = enter(4) [unfolded accounted_def prod.case]
  have "cong64 (wrap64 (ws_cycleAllocations w + n)) (ws_offset w + ws_spillsSize w + sum_list (map pending pcs) + n)"
    using D by (intro cong64_trans [OF cong64_wrap] cong64_add) blast
  then show ?case
    using D enter(1-3) pending_update [of pcs "Counted n" i]
    by (simp add: accounted_def alloc_count_def sum_pending_update add.assoc)
next
  case (take_host i pcs n w p w' h)
  note D = take_host(4) [unfolded accounted_def prod.case]
  have n: "0 \<le> n" using D take_host(1,2) nth_mem by fastforce
  have t: "ws_offset w + n \<le> ws_currentSize w" "w' = w\<lparr>ws_offset := wrap64 (ws_offset w + n)\<rparr>"
    using take_host(3) by (auto simp: alloc_take_def Let_def bind_eq_Some_conv i64_def split: if_splits)
  have "wrap64 (ws_offset w + n) = ws_offset w + n" using n t(1) D by (intro wrap64_id) linarith+
  then show ?case
    using take_host(1,2) n t D pending_update [of pcs Outside i] by (simp add: accounted_def sum_pending_update algebra_simps)
next
  case (take_full i pcs n w w' h)
  note D = take_full(4) [unfolded accounted_def prod.case]
  have "w' = w" using take_full(3) by (auto simp: alloc_take_def Let_def bind_eq_Some_conv split: if_splits)
  moreover have "0 \<le> n" using D take_full(1,2) nth_mem by fastforce
  ultimately show ?case
    using take_full(1,2) D pending_update [of pcs "Full n" i] by (simp add: accounted_def sum_pending_update)
next
  case (push i pcs n w h p w' h')
  note D = push(4) [unfolded accounted_def prod.case]
  have "w' = w\<lparr>ws_spills := ws_spills w @ [fst (malloc n h)]\<rparr>"
    using push(3) by (auto simp: alloc_spill_def split: prod.splits)
  moreover have "0 \<le> n" using D push(1,2) nth_mem by fastforce
  ultimately show ?case
    using push(1,2) D pending_update [of pcs "Pushed n" i] by (simp add: accounted_def sum_pending_update)
next
  case (leave i pcs n w h)
  note D = leave(3) [unfolded accounted_def prod.case]
  let ?S = "sum_list (map pending pcs)"
  have "cong64 (wrap64 (ws_spillsSize w + n) + (ws_offset w + (?S - n))) (ws_spillsSize w + n + (ws_offset w + (?S - n)))"
    by (intro cong64_add cong64_wrap)
  then have "cong64 (ws_offset w + ws_spillsSize w + ?S) (ws_offset w + wrap64 (ws_spillsSize w + n) + (?S - n))"
    by (simp add: cong64_def algebra_simps)
  then have "cong64 (ws_cycleAllocations w) (ws_offset w + wrap64 (ws_spillsSize w + n) + (?S - n))"
    by (rule cong64_trans [OF conjunct1 [OF D]])
  then show ?case
    using leave(1,2) D pending_update [of pcs Outside i] by (simp add: accounted_def alloc_spilled_def sum_pending_update)
qed

end
