(* ===== verification/WorkspaceProperties.thy ===== *)
theory WorkspaceProperties
  imports Workspaces
begin

text \<open>
  The properties of \<open>include/memory/cpu/Workspace.cpp\<close>.
\<close>

definition example_heap :: heap where
  "example_heap = \<lparr>h_live = (\<lambda>_. None), h_next = 0, h_limit = 1000\<rparr>"

definition example_workspace :: "workspace \<times> heap" where
  "example_workspace = (\<lparr>ws_ptrHost = Some 0, ws_allocatedHost = True, ws_offset = 0, ws_initialSize = 100,
     ws_currentSize = 100, ws_spills = [], ws_spillsSize = 0, ws_cycleAllocations = 0\<rparr>,
     \<lparr>h_live = [0 \<mapsto> 100], h_next = 1, h_limit = 1000\<rparr>)"

lemma example_new: "Workspace_new 100 example_heap = (Inr (fst example_workspace), snd example_workspace)"
  by (simp add: Workspace_new_def malloc_def example_heap_def example_workspace_def)

lemma example_inv: "ws_inv example_heap 0 example_workspace"
  using new_inv [OF example_new] by (simp add: example_heap_def)

text \<open>
  C10.  A workspace never leaks and never frees twice.  From a newly made workspace every sequence of
  allocations, \<open>scopeIn\<close> and \<open>scopeOut\<close> runs without undefined behaviour, the offset stays within
  the block, and the destructor then leaves exactly the heap there was before the workspace was
  made.  It is assumed that the bytes requested in all are at most \<open>2 ^ 61\<close> and within what
  \<open>malloc\<close> grants, so that no growth of the host block fails, and that an empty workspace is not
  asked for 0 bytes: in those two cases the code computes with a null or an uninitialised pointer
  (\<open>empty_workspace_undefined\<close>, \<open>failed_growth_undefined\<close>).
\<close>

theorem workspace_no_leak:
  assumes "Workspace_new n h0 = (Inr w, h)" "0 \<le> n" "n \<le> 2 ^ 62" "\<forall>b \<ge> h_next h0. h_live h0 b = None"
    and "\<forall>k. Allocate k \<in> set ops \<longrightarrow> 0 \<le> k \<and> (n = 0 \<longrightarrow> k \<noteq> 0)"
    and "requested ops \<le> 2 ^ 61" "requested ops \<le> h_limit h0"
  shows "\<exists>w' h' h''. ws_run ops (w, h) = Some (w', h') \<and> 0 \<le> getCurrentOffset w'
    \<and> getCurrentOffset w' \<le> getCurrentSize w' \<and> Workspace_delete w' h' = Some h'' \<and> h_live h'' = h_live h0"
proof -
  have size: "ws_currentSize w = n" using assms(1) by (auto simp: Workspace_new_def Let_def split: prod.splits if_splits)
  have "\<exists>s'. ws_run ops (w, h) = Some s' \<and> ws_inv h0 (0 + requested ops) s'"
    by (rule ws_run_inv [OF new_inv [OF assms(1-4)]]) (use assms(2,5-7) size in force)+
  then obtain s where s: "ws_run ops (w, h) = Some s" "ws_inv h0 (0 + requested ops) s" by blast
  obtain w' h' where e: "s = (w', h')" by (cases s)
  obtain h'' where "Workspace_delete w' h' = Some h''" "h_live h'' = h_live h0"
    using delete_frees [OF s(2) [unfolded e]] by blast
  moreover have "0 \<le> ws_offset w' \<and> ws_offset w' \<le> ws_currentSize w'"
    using s(2) by (simp add: e ws_inv_def Let_def)
  ultimately show ?thesis using s(1) by (simp add: e getCurrentOffset_def getCurrentSize_def)
qed

theorem workspace_no_leak_witness:
  "\<exists>w' h' h''. ws_run [Allocate 60, Allocate 60, ScopeOut, ScopeIn, Allocate 120] example_workspace = Some (w', h')
    \<and> Workspace_delete w' h' = Some h'' \<and> h_live h'' = h_live example_heap"
  using workspace_no_leak [OF example_new, of "[Allocate 60, Allocate 60, ScopeOut, ScopeIn, Allocate 120]"]
  by (auto simp: example_heap_def)

text \<open>The two cases without a defined result.\<close>

lemma empty_workspace_undefined:
  "\<exists>w. Workspace_new 0 h = (Inr w, h) \<and> allocateBytes 0 w h = None"
  by (simp add: Workspace_new_def allocateBytes_def alloc_take_def alloc_count_def host_pointer_def i64_def)

lemma failed_growth_undefined:
  assumes "ws_inv h0 k (w, h)" "ws_spills w = []" "ws_offset w = 0" "h_limit h < ws_cycleAllocations w"
    and "ws_currentSize w < ws_cycleAllocations w" "0 < n" "n \<le> ws_cycleAllocations w" "ws_cycleAllocations w < 2 ^ 63"
  shows "\<exists>w1 h1. scopeIn w h = Some (w1, h1) \<and> allocateBytes n w1 h1 = None"
proof -
  have b: "owns h0 (ws_blocks w) h" "0 \<le> ws_currentSize w" using assms(1,3) by (auto simp: ws_inv_def Let_def)
  obtain h1 where h1: "(if ws_allocatedHost w then free (ws_ptrHost w) h else Some h) = Some h1" "h_limit h1 = h_limit h"
  proof (cases "ws_allocatedHost w")
    case True
    then obtain g where "free (ws_ptrHost w) h = Some g" "owns h0 (blocks []) g"
      using owns_free [of h0 "ws_ptrHost w" "blocks (ws_spills w)" h] b(1) assms(2) by (auto simp: ws_blocks_def)
    with that True b(1) show ?thesis by (auto simp: owns_def)
  qed (use that in simp)
  let ?w = "w\<lparr>ws_spillsSize := 0, ws_ptrHost := None, ws_currentSize := ws_cycleAllocations w,
    ws_allocatedHost := True, ws_cycleAllocations := 0\<rparr>"
  have "malloc (ws_cycleAllocations w) h1 = (None, h1)" using assms(4) h1(2) by (simp add: malloc_def)
  then have "scopeIn w h = Some (?w, h1)"
    using h1(1) assms(2,5) by (simp add: scopeIn_def freeSpills_def Workspace_init_def split: if_splits)
  moreover have "wrap64 n = n" using assms(6-8) by (intro wrap64_id) auto
  then have "allocateBytes n ?w h1 = None"
    using assms(3,6-8) by (simp add: allocateBytes_def alloc_take_def alloc_count_def host_pointer_def i64_def)
  ultimately show ?thesis by blast
qed

text \<open>
  C11.  A workspace learns its size: when a cycle has requested \<open>T > 0\<close> bytes in all, and \<open>malloc\<close>
  grants \<open>T\<close> bytes, then after \<open>scopeOut\<close> and \<open>scopeIn\<close> the host block is live with at least \<open>T\<close>
  bytes, and every next cycle that requests at most \<open>T\<close> bytes is served from it alone, the offsets
  running up to the sums of the requests; nothing is spilled and no heap call is made.  \<open>ws_inv\<close>, which
  every run of a new workspace keeps while no growth fails, says that none has failed before.
\<close>

theorem workspace_learns:
  assumes "ws_inv h0 k (w, h)" "k \<le> 2 ^ 60" "0 < ws_cycleAllocations w" "ws_cycleAllocations w \<le> h_limit h0"
    and "\<forall>n \<in> set ns. 0 \<le> n" "sum_list ns \<le> ws_cycleAllocations w"
  shows "\<exists>w1 h1 w2 b size. scopeIn (scopeOut w) h = Some (w1, h1)
    \<and> ws_ptrHost w1 = Some b \<and> h_live h1 b = Some size \<and> ws_cycleAllocations w \<le> size
    \<and> allocate_all ns w1 h1
        = Some (map (\<lambda>i. Host (Some b) (sum_list (take (Suc i) ns))) [0..<length ns], w2, h1)
    \<and> getSpilledSize w2 = 0 \<and> ws_spills w2 = []"
proof -
  have k: "k \<le> 2 ^ 61" using assms(2) by simp
  have "ws_cycleAllocations (scopeOut w) \<le> h_limit h0" using assms(4) by (simp add: scopeOut_def)
  from scopeIn_inv [OF scopeOut_inv [OF assms(1)] k this]
  obtain w1 h1 where w1: "scopeIn (scopeOut w) h = Some (w1, h1)" "ws_inv h0 k (w1, h1)"
    "ws_cycleAllocations w1 = 0" "ws_spillsSize w1 = 0" "ws_spills w1 = []" "ws_offset w1 = 0"
    "ws_currentSize w1 = max (ws_currentSize w) (ws_cycleAllocations w)"
    by (auto simp: scopeOut_def)
  have "ws_cycleAllocations w \<le> k" using assms(1) by (simp add: ws_inv_def Let_def)
  then have fits: "k + sum_list ns \<le> 2 ^ 61" "ws_offset w1 + sum_list ns \<le> ws_currentSize w1" "0 < ws_currentSize w1"
    using assms(2,3,6) w1(6,7) by auto
  then obtain b where b: "ws_ptrHost w1 = Some b" "h_live h1 b = Some (ws_currentSize w1)"
    using w1(2) by (auto simp: ws_inv_def Let_def)
  moreover have "ws_cycleAllocations w \<le> ws_currentSize w1" using w1(7) by simp
  moreover obtain w2 where "allocate_all ns w1 h1
      = Some (map (\<lambda>i. Host (Some b) (sum_list (take (Suc i) ns))) [0..<length ns], w2, h1)"
    "ws_spills w2 = []" "getSpilledSize w2 = 0"
    using allocate_fits [OF w1(2) assms(5) fits] w1(4-6) b(1) by (auto simp: getSpilledSize_def)
  ultimately show ?thesis using w1(1) by blast
qed

theorem workspace_learns_witness:
  "\<exists>w1 h1. scopeIn (scopeOut ((fst example_workspace)\<lparr>ws_cycleAllocations := 300\<rparr>)) (snd example_workspace) = Some (w1, h1)
    \<and> allocate_all [100, 200] w1 h1 \<noteq> None"
proof -
  have "ws_inv example_heap 300 ((fst example_workspace)\<lparr>ws_cycleAllocations := 300\<rparr>, snd example_workspace)"
    using example_inv by (simp add: ws_inv_def ws_blocks_def example_workspace_def Let_def)
  from workspace_learns [OF this, of "[100, 200]"] show ?thesis
    by (auto simp: example_heap_def)
qed

text \<open>
  C9.  \<open>allocateBytes\<close> returns the end of the bytes it reserves, not their beginning: of two
  allocations that fill the block, the second smaller than the first, the regions that the callers
  get overlap, and the second one lies completely outside the block.
\<close>

theorem workspace_regions_overlap:
  assumes "ws_inv h0 k (w, h)" "0 < m" "m < n" "k + n + m \<le> 2 ^ 61" "ws_offset w + n + m = ws_currentSize w"
  shows "\<exists>x y w'. allocate_all [n, m] w h = Some ([Host (ws_ptrHost w) x, Host (ws_ptrHost w) y], w', h)
    \<and> {x..<x + n} \<inter> {y..<y + m} \<noteq> {} \<and> {y..<y + m} \<inter> {0..<getCurrentSize w} = {}"
proof -
  have "\<forall>i \<in> set [n, m]. 0 \<le> i" "k + sum_list [n, m] \<le> 2 ^ 61" "ws_offset w + sum_list [n, m] \<le> ws_currentSize w"
    "0 < ws_currentSize w"
    using assms by (auto simp: ws_inv_def Let_def)
  from allocate_fits [OF assms(1) this] obtain w' where
    "allocate_all [n, m] w h = Some ([Host (ws_ptrHost w) (ws_offset w + n), Host (ws_ptrHost w) (ws_offset w + n + m)], w', h)"
    by (auto simp: add.assoc upt_rec)
  moreover have "ws_offset w + n + m \<in> {ws_offset w + n..<ws_offset w + n + n} \<inter> {ws_offset w + n + m..<ws_offset w + n + m + m}"
    using assms(2,3) by simp
  ultimately show ?thesis
    using assms(5)
    by (intro exI [of _ "ws_offset w + n"] exI [of _ "ws_offset w + n + m"] exI [of _ w'])
      (auto simp: getCurrentSize_def)
qed

theorem workspace_regions_overlap_witness:
  "\<exists>x y w'. allocate_all [60, 40] (fst example_workspace) (snd example_workspace)
      = Some ([Host (Some 0) x, Host (Some 0) y], w', snd example_workspace)
    \<and> {y..<y + 40} \<inter> {0..<100} = {}"
  using workspace_regions_overlap [of example_heap 0 "fst example_workspace" "snd example_workspace" 40 60] example_inv
  by (auto simp: example_workspace_def getCurrentSize_def)

text \<open>
  C12.  Under any interleaving of threads that allocate from one workspace, the counter of the cycle
  is the sum of the bytes served, the bytes spilled and the bytes of the calls in progress (modulo
  \<open>2 ^ 64\<close>), and the offset never leaves the block; when no call is in progress the counters agree.
\<close>

theorem concurrent_allocation_accounts:
  assumes "alloc_step\<^sup>*\<^sup>* (w, h, replicate threads Outside) (w', h', pcs)"
    and "0 \<le> ws_offset w" "ws_offset w \<le> ws_currentSize w" "ws_currentSize w < 2 ^ 63"
    and "ws_cycleAllocations w = ws_offset w + ws_spillsSize w"
  shows "0 \<le> ws_offset w' \<and> ws_offset w' \<le> ws_currentSize w'
    \<and> ws_cycleAllocations w' mod 2 ^ 64 = (ws_offset w' + ws_spillsSize w' + sum_list (map pending pcs)) mod 2 ^ 64"
proof -
  have "accounted (w, h, replicate threads Outside)"
    using assms(2-5) by (simp add: accounted_def map_replicate_const sum_list_replicate)
  moreover have "alloc_step\<^sup>*\<^sup>* s s' \<Longrightarrow> accounted s \<Longrightarrow> accounted s'" for s s'
    by (induction rule: rtranclp_induct) (auto dest: accounted_step)
  ultimately have "accounted (w', h', pcs)" using assms(1) by blast
  then show ?thesis by (simp add: accounted_def cong64_def)
qed

theorem concurrent_allocation_accounts_witness:
  "ws_cycleAllocations (alloc_count 30 (fst example_workspace)) mod 2 ^ 64
    = (ws_offset (alloc_count 30 (fst example_workspace)) + ws_spillsSize (alloc_count 30 (fst example_workspace))
       + sum_list (map pending [Counted 30, Outside])) mod 2 ^ 64"
proof -
  let ?w = "fst example_workspace" and ?h = "snd example_workspace"
  have "alloc_step (?w, ?h, [Outside, Outside]) (alloc_count 30 ?w, ?h, [Outside, Outside][0 := Counted 30])"
    by (rule enter) simp_all
  then have "alloc_step\<^sup>*\<^sup>* (?w, ?h, replicate 2 Outside) (alloc_count 30 ?w, ?h, [Counted 30, Outside])"
    by (simp add: numeral_2_eq_2)
  from concurrent_allocation_accounts [OF this] show ?thesis by (simp add: example_workspace_def)
qed

end
