(* ===== verification/GraphNodes.thy ===== *)
theory GraphNodes
  imports GraphVariables
begin

text \<open>
  \<open>include/graph/Node.h\<close> and \<open>include/graph/Block.h\<close>: the nodes of a graph and the block of
  arguments of a custom operation.  The element type \<open>T\<close> of arrays and arguments is the type
  parameter \<open>'t\<close>.  A custom operation is known to the graph only by its descriptor.
\<close>

datatype OpType = OpType_TRANSFORM | OpType_ACCUMULATION | OpType_INDEX_ACCUMULATION | OpType_SCALAR
  | OpType_BROADCAST | OpType_SUMMARYSTATS | OpType_SHAPE | OpType_AGGREGATION | OpType_CUSTOM
  | OpType_GRAPH | OpType_VARIABLE

datatype OpClass = OpClass_TRANSFORM | OpClass_REDUCTION | OpClass_MULTIPLICATOR | OpClass_GRAPH

subsection \<open>\<open>OpDescriptor\<close>\<close>

record OpDescriptor =
  od_opNum :: int
  od_opName :: string
  od_hash :: int
  od_numInputs :: int
  od_numOutputs :: int
  od_opClass :: OpClass
  od_divergent :: bool
  od_allowsInplace :: bool
  od_tArgs :: int
  od_iArgs :: int

text \<open>The constructors; \<open>getLongHash\<close> is the function of \<open>helper_hash.h\<close>.\<close>

definition OpDescriptor_new :: "(string \<Rightarrow> int) \<Rightarrow> int \<Rightarrow> int \<Rightarrow> string \<Rightarrow> bool \<Rightarrow> OpDescriptor" where
  "OpDescriptor_new getLongHash numInputs numOutputs opName allowsInplace =
     \<lparr>od_opNum = 0, od_opName = opName, od_hash = getLongHash opName, od_numInputs = numInputs,
      od_numOutputs = numOutputs, od_opClass = OpClass_TRANSFORM, od_divergent = False,
      od_allowsInplace = allowsInplace, od_tArgs = 0, od_iArgs = 0\<rparr>"

definition OpDescriptor_configurable ::
  "(string \<Rightarrow> int) \<Rightarrow> int \<Rightarrow> int \<Rightarrow> string \<Rightarrow> bool \<Rightarrow> int \<Rightarrow> int \<Rightarrow> OpDescriptor" where
  "OpDescriptor_configurable getLongHash numInputs numOutputs opName allowsInplace tArgs iArgs =
     (OpDescriptor_new getLongHash numInputs numOutputs opName allowsInplace)\<lparr>od_tArgs := tArgs, od_iArgs := iArgs\<rparr>"

definition OpDescriptor_divergent ::
  "(string \<Rightarrow> int) \<Rightarrow> int \<Rightarrow> int \<Rightarrow> string \<Rightarrow> bool \<Rightarrow> bool \<Rightarrow> OpDescriptor" where
  "OpDescriptor_divergent getLongHash numInputs numOutputs opName allowsInplace divergent =
     (OpDescriptor_new getLongHash numInputs numOutputs opName allowsInplace)\<lparr>od_divergent := divergent\<rparr>"

definition OpDescriptor_configurable_divergent ::
  "(string \<Rightarrow> int) \<Rightarrow> int \<Rightarrow> int \<Rightarrow> string \<Rightarrow> bool \<Rightarrow> bool \<Rightarrow> int \<Rightarrow> int \<Rightarrow> OpDescriptor" where
  "OpDescriptor_configurable_divergent getLongHash numInputs numOutputs opName allowsInplace divergent tArgs iArgs =
     (OpDescriptor_configurable getLongHash numInputs numOutputs opName allowsInplace tArgs iArgs)
       \<lparr>od_divergent := divergent\<rparr>"

subsection \<open>\<open>Block\<close>\<close>

text \<open>
  \<open>b_variables\<close> holds what \<open>getVariable\<close> returned, \<^term>\<open>None\<close> for \<open>nullptr\<close>.  \<open>b_space\<close> says whether
  the block points to a variable space; \<open>b_workspace\<close> and \<open>b_rng\<close> are addresses.  \<open>_rng\<close> is not set
  by the constructor; \<open>u\<close> is what the fresh object holds there.
\<close>

record 't block =
  b_workspace :: "nat option"
  b_inputs :: "int list"
  b_variables :: "nat option list"
  b_space :: bool
  b_outerTime :: int
  b_innerTime :: int
  b_rng :: "nat option"
  b_nodeId :: int
  b_tArgs :: "'t list"
  b_iArgs :: "int list"
  b_isInplace :: bool

definition Block_new :: "nat option \<Rightarrow> int \<Rightarrow> bool \<Rightarrow> 't block" where
  "Block_new u nodeId variableSpace = \<lparr>b_workspace = None, b_inputs = [], b_variables = [], b_space = variableSpace,
     b_outerTime = 0, b_innerTime = 0, b_rng = u, b_nodeId = nodeId, b_tArgs = [], b_iArgs = [], b_isInplace = False\<rparr>"

definition Block_new_inplace :: "nat option \<Rightarrow> int \<Rightarrow> bool \<Rightarrow> bool \<Rightarrow> 't block" where
  "Block_new_inplace u nodeId variableSpace isInplace = (Block_new u nodeId variableSpace)\<lparr>b_isInplace := isInplace\<rparr>"

definition hasWorkspaceProvided :: "'t block \<Rightarrow> bool" where "hasWorkspaceProvided b \<longleftrightarrow> b_workspace b \<noteq> None"
definition attachWorkspace :: "nat option \<Rightarrow> 't block \<Rightarrow> 't block" where
  "attachWorkspace workspace b = b\<lparr>b_workspace := workspace\<rparr>"
definition forgetWorkspace :: "'t block \<Rightarrow> 't block" where "forgetWorkspace b = b\<lparr>b_workspace := None\<rparr>"
definition setVariableSpace :: "bool \<Rightarrow> 't block \<Rightarrow> 't block" where
  "setVariableSpace variableSpace b = b\<lparr>b_space := variableSpace\<rparr>"
definition setRNG :: "nat option \<Rightarrow> 't block \<Rightarrow> 't block" where "setRNG rng b = b\<lparr>b_rng := rng\<rparr>"
definition setOuterTime :: "int \<Rightarrow> 't block \<Rightarrow> 't block" where "setOuterTime time b = b\<lparr>b_outerTime := time\<rparr>"
definition setInnerTime :: "int \<Rightarrow> 't block \<Rightarrow> 't block" where "setInnerTime time b = b\<lparr>b_innerTime := time\<rparr>"
definition hasVariablesFilled :: "'t block \<Rightarrow> bool" where "hasVariablesFilled b \<longleftrightarrow> length (b_variables b) > 0"
definition block_width :: "'t block \<Rightarrow> nat" where "block_width b = length (b_inputs b)"

text \<open>\<open>pickInput\<close> throws (an \<open>Inl\<close>) for an unknown variable, after it has recorded the input.\<close>

datatype block_error = UnknownVariable

definition Block_pickInput :: "int \<Rightarrow> vspace \<Rightarrow> 't block \<Rightarrow> (block_error \<times> 't block + vspace \<times> 't block) option" where
  "Block_pickInput input vs b = (let b = b\<lparr>b_inputs := b_inputs b @ [input]\<rparr> in
     if \<not> hasVariable vs input then Some (Inl (UnknownVariable, b))
     else do {
       (r, vs) \<leftarrow> getVariable input vs;
       v \<leftarrow> r;
       Some (Inr (vs, b\<lparr>b_variables := b_variables b @ [Some v]\<rparr>)) })"

fun Block_fillInputs :: "int list \<Rightarrow> vspace \<Rightarrow> 't block \<Rightarrow> (block_error \<times> 't block + vspace \<times> 't block) option" where
  "Block_fillInputs [] vs b = Some (Inr (vs, b))"
| "Block_fillInputs (v # inputs) vs b = do {
     r \<leftarrow> Block_pickInput v vs b;
     (case r of Inl e \<Rightarrow> Some (Inl e) | Inr (vs, b) \<Rightarrow> Block_fillInputs inputs vs b) }"

subsection \<open>\<open>Node\<close>\<close>

text \<open>
  \<open>_dataType\<close> and, for most kinds of operations, \<open>_opClass\<close> are not set by the constructors; the
  parameter \<open>u\<close> is what the fresh object holds there.  \<open>_dim\<close> is a copy of \<open>_dimensions\<close> and is not
  kept separately.
\<close>

record 't node =
  n_dataType :: int
  n_opType :: OpType
  n_block :: "'t block option"
  n_opNum :: int
  n_id :: int
  n_input :: "(int \<times> int) list"
  n_output :: "int list"
  n_dimensions :: "int list"
  n_name :: string
  n_layer :: int
  n_extraParams :: "'t list option"
  n_scalar :: 't
  n_hasExternalOutputs :: bool
  n_hasExternalInputs :: bool
  n_hasInternalOutputs :: bool
  n_hasInternalInputs :: bool
  n_isInplace :: bool
  n_opClass :: OpClass
  n_graph :: "nat option"
  n_customOp :: "OpDescriptor option"
  n_active :: bool

definition pickInput_pair :: "int \<times> int \<Rightarrow> 't node \<Rightarrow> 't node" where
  "pickInput_pair pair n = n\<lparr>n_input := n_input n @ [pair]\<rparr>"

definition pickInput :: "int \<Rightarrow> 't node \<Rightarrow> 't node" where
  "pickInput inputId n = (let n = pickInput_pair (inputId, 0) n in
     if inputId < 0 then n\<lparr>n_hasExternalInputs := True\<rparr> else n\<lparr>n_hasInternalInputs := True\<rparr>)"

definition pickExternalOutput :: "int \<Rightarrow> 't node \<Rightarrow> 't node" where
  "pickExternalOutput outputId n = n\<lparr>n_output := n_output n @ [outputId], n_hasExternalOutputs := True\<rparr>"

definition pickOutput :: "int \<Rightarrow> 't node \<Rightarrow> 't node" where
  "pickOutput outputId n = (let n = n\<lparr>n_output := n_output n @ [outputId]\<rparr> in
     if outputId < 0 then n\<lparr>n_hasExternalOutputs := True\<rparr> else n\<lparr>n_hasInternalOutputs := True\<rparr>)"

text \<open>The end of the constructors: in-place execution and the class of the operation.\<close>

definition classify :: "'t node \<Rightarrow> 't node" where
  "classify n =
     (if n_opType n \<in> {OpType_TRANSFORM, OpType_SCALAR, OpType_BROADCAST}
      then (if length (n_output n) \<le> 1 then n\<lparr>n_isInplace := True\<rparr> else n)\<lparr>n_opClass := OpClass_TRANSFORM\<rparr>
      else if n_opType n \<in> {OpType_ACCUMULATION, OpType_SUMMARYSTATS}
      then n\<lparr>n_opClass := OpClass_REDUCTION\<rparr> else n)"

definition Node_new ::
  "'t node \<Rightarrow> OpType \<Rightarrow> int \<Rightarrow> int \<Rightarrow> int list \<Rightarrow> int list \<Rightarrow> int list \<Rightarrow> 't \<Rightarrow> 't node" where
  "Node_new u opType opNum i input output dimensions scalar =
     (let n = \<lparr>n_dataType = n_dataType u, n_opType = opType, n_block = None, n_opNum = opNum, n_id = i,
            n_input = [], n_output = [], n_dimensions = dimensions, n_name = '''', n_layer = -1,
            n_extraParams = None, n_scalar = scalar, n_hasExternalOutputs = False, n_hasExternalInputs = False,
            n_hasInternalOutputs = False, n_hasInternalInputs = False, n_isInplace = False,
            n_opClass = n_opClass u, n_graph = None, n_customOp = None, n_active = True\<rparr>;
          n = fold pickInput input n;
          n = fold pickOutput output n in
      classify n)"

text \<open>
  A node read from a flat buffer.  The fields of \<open>FlatNode\<close> are given by the record; a vector that is
  absent is \<^term>\<open>None\<close>.  \<open>registrator\<close> is \<open>OpRegistrator::getOperationFloat\<close>; an unknown custom
  operation throws.
\<close>

record 't flat_node =
  fn_id :: int
  fn_name :: "string option"
  fn_opType :: OpType
  fn_opNum :: int
  fn_dataType :: int
  fn_input :: "int list option"
  fn_inputPaired :: "(int \<times> int) list option"
  fn_output :: "int list option"
  fn_extraParams :: "'t list option"
  fn_extraInteger :: "int list option"
  fn_dimensions :: "int list option"
  fn_scalar :: 't

definition given :: "'b list option \<Rightarrow> 'b list" where
  "given xs = (case xs of None \<Rightarrow> [] | Some ys \<Rightarrow> ys)"

definition Node_flat :: "'t node \<Rightarrow> (int \<Rightarrow> OpDescriptor option) \<Rightarrow> 't flat_node \<Rightarrow> 't node option" where
  "Node_flat u registrator f =
     (let n = \<lparr>n_dataType = fn_dataType f, n_opType = fn_opType f, n_block = None, n_opNum = fn_opNum f,
            n_id = fn_id f, n_input = [], n_output = [], n_dimensions = given (fn_dimensions f),
            n_name = given (fn_name f), n_layer = -1,
            n_extraParams = (if given (fn_extraParams f) = [] then None else fn_extraParams f),
            n_scalar = fn_scalar f, n_hasExternalOutputs = False, n_hasExternalInputs = False,
            n_hasInternalOutputs = False, n_hasInternalInputs = False, n_isInplace = False,
            n_opClass = n_opClass u, n_graph = None, n_customOp = None, n_active = True\<rparr>;
          n = (if given (fn_inputPaired f) \<noteq> [] then fold pickInput_pair (given (fn_inputPaired f)) n
               else fold pickInput (given (fn_input f)) n);
          n = fold pickOutput (given (fn_output f)) n in
      if fn_opType f = OpType_CUSTOM then do {
        op \<leftarrow> registrator (fn_opNum f);
        let b = (Block_new None (fn_id f) False)\<lparr>b_iArgs := given (fn_extraInteger f), b_tArgs := given (fn_extraParams f)\<rparr>;
        Some (n\<lparr>n_block := Some b, n_customOp := Some op\<rparr>) }
      else Some (classify n))"

definition hasBlockAttached :: "'t node \<Rightarrow> bool" where "hasBlockAttached n \<longleftrightarrow> n_block n \<noteq> None"
definition hasCustomOp :: "'t node \<Rightarrow> bool" where "hasCustomOp n \<longleftrightarrow> n_customOp n \<noteq> None"
definition hasGraphEmbedded :: "'t node \<Rightarrow> bool" where "hasGraphEmbedded n \<longleftrightarrow> n_graph n \<noteq> None"
definition isMultiInput :: "'t node \<Rightarrow> bool" where "isMultiInput n \<longleftrightarrow> length (n_input n) > 1"
definition isMultiOutput :: "'t node \<Rightarrow> bool" where "isMultiOutput n \<longleftrightarrow> length (n_output n) > 1"
definition isDivergencePoint :: "'t node \<Rightarrow> bool" where
  "isDivergencePoint n = (case n_customOp n of Some op \<Rightarrow> od_divergent op | None \<Rightarrow> False)"
definition setLayer :: "int \<Rightarrow> 't node \<Rightarrow> 't node" where "setLayer layer n = n\<lparr>n_layer := layer\<rparr>"
definition Node_setOuterTime :: "int \<Rightarrow> 't node \<Rightarrow> 't node" where
  "Node_setOuterTime time n = n\<lparr>n_block := map_option (setOuterTime time) (n_block n)\<rparr>"
definition Node_setInnerTime :: "int \<Rightarrow> 't node \<Rightarrow> 't node" where
  "Node_setInnerTime time n = n\<lparr>n_block := map_option (setInnerTime time) (n_block n)\<rparr>"
definition Node_setGraph :: "nat option \<Rightarrow> 't node \<Rightarrow> 't node" where "Node_setGraph graph n = n\<lparr>n_graph := graph\<rparr>"
definition markInplace :: "bool \<Rightarrow> 't node \<Rightarrow> 't node" where "markInplace reallyInplace n = n\<lparr>n_isInplace := reallyInplace\<rparr>"
definition setActive :: "bool \<Rightarrow> 't node \<Rightarrow> 't node" where "setActive reallyActive n = n\<lparr>n_active := reallyActive\<rparr>"
definition setBlock :: "'t block option \<Rightarrow> 't node \<Rightarrow> 't node" where "setBlock block n = n\<lparr>n_block := block\<rparr>"
definition setId :: "int \<Rightarrow> 't node \<Rightarrow> 't node" where "setId i n = n\<lparr>n_id := i\<rparr>"
definition setCustomOp :: "OpDescriptor option \<Rightarrow> 't node \<Rightarrow> 't node" where
  "setCustomOp customOp n = n\<lparr>n_customOp := customOp\<rparr>"
definition setName :: "string \<Rightarrow> 't node \<Rightarrow> 't node" where "setName name n = n\<lparr>n_name := name\<rparr>"

definition Node_equals :: "'t node \<Rightarrow> 't node \<Rightarrow> bool" where
  "Node_equals n other \<longleftrightarrow> n_opType n = n_opType other \<and> n_dataType n = n_dataType other \<and> n_opNum n = n_opNum other"

end
