(* ===== verification/GraphBuild.thy ===== *)
theory GraphBuild
  imports GraphNodes Containers
begin

text \<open>
  \<open>include/graph/Graph.h\<close>: a graph collects nodes, gives each a layer (the \<open>onion\<close>), and is built
  when every node has one.  Nodes are objects named by addresses (\<open>g_objs\<close>), as in \<open>_handles\<close>.
\<close>

datatype OutputMode = OutputMode_IMPLICIT | OutputMode_EXPLICIT | OutputMode_EXPLICIT_AND_IMPLICIT
  | OutputMode_VARIABLE_SPACE
datatype ExecutionMode = ExecutionMode_SEQUENTIAL | ExecutionMode_STRICT | ExecutionMode_AUTO

text \<open>\<open>ExecutorConfiguration\<close>; the profiling mode is a number.\<close>

record configuration =
  ec_profilingMode :: int
  ec_executionMode :: ExecutionMode
  ec_outputMode :: OutputMode
  ec_timestats :: bool

definition ExecutorConfiguration_new :: "configuration option \<Rightarrow> configuration" where
  "ExecutorConfiguration_new conf = (case conf of Some c \<Rightarrow> c
     | None \<Rightarrow> \<lparr>ec_profilingMode = 0, ec_executionMode = ExecutionMode_SEQUENTIAL,
         ec_outputMode = OutputMode_IMPLICIT, ec_timestats = False\<rparr>)"

record ('a, 't) graph =
  g_configuration :: configuration
  g_variableSpace :: vspace
  g_mem :: "'a mem"
  g_objs :: "nat \<Rightarrow> 't node option"
  g_handles :: "nat list"
  g_mapped :: "(int, nat) std_map"
  g_onion :: "(int, nat list) std_map"
  g_unmapped :: "(int, nat) std_map"
  g_built :: bool
  g_output :: "int list"
  g_autos :: "int list"
  g_next :: nat

definition pushToOutputOnce :: "int \<Rightarrow> ('a, 't) graph \<Rightarrow> ('a, 't) graph" where
  "pushToOutputOnce i g = (if i \<in> set (g_output g) then g else g\<lparr>g_output := g_output g @ [i]\<rparr>)"

definition addOutput :: "int \<Rightarrow> ('a, 't) graph \<Rightarrow> ('a, 't) graph" where
  "addOutput i g =
     (if ec_outputMode (g_configuration g) = OutputMode_EXPLICIT
         \<or> ec_outputMode (g_configuration g) = OutputMode_EXPLICIT_AND_IMPLICIT
      then pushToOutputOnce i g else g)"

definition expandOnion :: "int \<Rightarrow> ('a, 't) graph \<Rightarrow> ('a, 't) graph" where
  "expandOnion newLayer g = g\<lparr>g_onion := sm_insert newLayer [] (g_onion g)\<rparr>"

definition upd_node :: "nat \<Rightarrow> ('t node \<Rightarrow> 't node) \<Rightarrow> ('a, 't) graph \<Rightarrow> ('a, 't) graph option" where
  "upd_node p f g = do { n \<leftarrow> g_objs g p; Some (g\<lparr>g_objs := (g_objs g)(p \<mapsto> f n)\<rparr>) }"

text \<open>\<open>_onion->at(layer)->push_back(node); _mapped->insert(pair)\<close>; \<open>at\<close> throws for a missing layer.\<close>

definition place :: "nat \<Rightarrow> int \<Rightarrow> int \<Rightarrow> ('a, 't) graph \<Rightarrow> ('a, 't) graph option" where
  "place p i layer g = do {
     ps \<leftarrow> sm_find (g_onion g) layer;
     Some (g\<lparr>g_onion := sm_put layer (ps @ [p]) (g_onion g), g_mapped := sm_insert i p (g_mapped g)\<rparr>) }"

definition injectNode :: "nat \<Rightarrow> ('a, 't) graph \<Rightarrow> ('a, 't) graph option" where
  "injectNode p g = do {
     n \<leftarrow> g_objs g p;
     if n_layer n < 0 then None else place p (n_id n) (n_layer n) g }"

text \<open>
  The lookups of the inputs of a custom operation, \<open>block->getVariables().push_back(getVariable(..))\<close>.
\<close>

fun look_up_inputs :: "(int \<times> int) list \<Rightarrow> vspace \<Rightarrow> (nat option list \<times> vspace) option" where
  "look_up_inputs [] vs = Some ([], vs)"
| "look_up_inputs (i # is) vs = do {
     (r, vs) \<leftarrow> getVariable_pair i vs;
     v \<leftarrow> r;
     (rs, vs) \<leftarrow> look_up_inputs is vs;
     Some (v # rs, vs) }"

definition fill_block :: "nat \<Rightarrow> ('a, 't) graph \<Rightarrow> ('a, 't) graph option" where
  "fill_block p g = do {
     n \<leftarrow> g_objs g p;
     if \<not> hasCustomOp n then Some g
     else
       let b = (case n_block n of None \<Rightarrow> Block_new None (n_id n) True | Some b \<Rightarrow> b) in
       if hasVariablesFilled b then Some (g\<lparr>g_objs := (g_objs g)(p \<mapsto> setBlock (Some b) n)\<rparr>)
       else do {
         (rs, vs) \<leftarrow> look_up_inputs (n_input n) (g_variableSpace g);
         let b = (setVariableSpace True b)\<lparr>b_variables := b_variables b @ rs\<rparr>;
         Some (g\<lparr>g_variableSpace := vs, g_objs := (g_objs g)(p \<mapsto> setBlock (Some b) n)\<rparr>) } }"

definition on_space :: "('a mem \<Rightarrow> vspace \<Rightarrow> ('a mem \<times> vspace) option) \<Rightarrow> ('a, 't) graph \<Rightarrow> ('a, 't) graph option" where
  "on_space f g = do {
     (m, vs) \<leftarrow> f (g_mem g) (g_variableSpace g);
     Some (g\<lparr>g_mem := m, g_variableSpace := vs\<rparr>) }"

text \<open>The variables for the outputs \<open>1, ..., n - 1\<close> of an operation with several outputs.\<close>

definition put_new_pair :: "int \<times> int \<Rightarrow> ('a, 't) graph \<Rightarrow> ('a, 't) graph option" where
  "put_new_pair i g = on_space (\<lambda>m vs. let (v, m) = alloc_var (Variable_new None '''') m in putVariable_pair i v m vs) g"

fun deep_variables :: "int \<Rightarrow> nat \<Rightarrow> nat \<Rightarrow> ('a, 't) graph \<Rightarrow> ('a, 't) graph option" where
  "deep_variables i e 0 g = Some g"
| "deep_variables i e (Suc k) g = Option.bind (put_new_pair (i, int e) g) (deep_variables i (Suc e) k)"

text \<open>
  The part of \<open>addNode\<close> that creates the output variable of a node without outputs.  \<open>getName\<close>
  never is null, so the name is always set.
\<close>

definition auto_output :: "nat \<Rightarrow> ('a, 't) graph \<Rightarrow> ('a, 't) graph option" where
  "auto_output p g = do {
     n \<leftarrow> g_objs g p;
     (v, g) \<leftarrow> (if \<not> hasVariable (g_variableSpace g) (n_id n)
        then let (v, m) = alloc_var (Variable_new None '''') (g_mem g) in Some (v, g\<lparr>g_mem := m\<rparr>)
        else do {
          (r, vs) \<leftarrow> getVariable (n_id n) (g_variableSpace g);
          v \<leftarrow> r;
          Some (v, g\<lparr>g_variableSpace := vs\<rparr>) });
     m \<leftarrow> Variable_setId v (n_id n) (g_mem g);
     m \<leftarrow> Variable_setName v (n_name n) m;
     g \<leftarrow> on_space (putOutputVariable v) (g\<lparr>g_mem := m\<rparr>);
     let g = g\<lparr>g_objs := (g_objs g)(p \<mapsto> pickExternalOutput (n_id n) n)\<rparr>;
     let g = (if ec_outputMode (g_configuration g) \<in> {OutputMode_IMPLICIT, OutputMode_EXPLICIT_AND_IMPLICIT, OutputMode_VARIABLE_SPACE}
              then pushToOutputOnce (n_id n) g else g);
     Some (g\<lparr>g_autos := g_autos g @ [n_id n]\<rparr>) }"

definition specific_output :: "'t node \<Rightarrow> ('a, 't) graph \<Rightarrow> ('a, 't) graph" where
  "specific_output n g =
     (if \<not> n_hasInternalOutputs n
         \<and> ec_outputMode (g_configuration g) \<in> {OutputMode_IMPLICIT, OutputMode_EXPLICIT_AND_IMPLICIT}
      then fold pushToOutputOnce (filter (\<lambda>i. i < 0) (n_output n)) g else g)"

text \<open>The last part of \<open>addNode\<close>: the layer of a node, when it is known.\<close>

definition addNode_place :: "nat \<Rightarrow> ('a, 't) graph \<Rightarrow> ('a, 't) graph option" where
  "addNode_place p g = do {
     n \<leftarrow> g_objs g p;
     if n_hasExternalInputs n \<and> \<not> n_hasInternalInputs n
     then do { g \<leftarrow> upd_node p (setLayer 0) g; place p (n_id n) 0 g }
     else if n_hasInternalInputs n \<and> \<not> n_hasExternalInputs n \<and> length (n_input n) = 1
       \<and> sm_find (g_mapped g) (fst (n_input n ! 0)) \<noteq> None
       \<and> (n_output n = [] \<or> sm_find (g_mapped g) (n_output n ! 0) = None)
     then do {
       q \<leftarrow> sm_find (g_mapped g) (fst (n_input n ! 0));
       parent \<leftarrow> g_objs g q;
       let nLayer = n_layer parent + 1;
       let g = (if sm_find (g_onion g) nLayer = None then expandOnion nLayer g else g);
       g \<leftarrow> upd_node p (setLayer nLayer) g;
       place p (n_id n) nLayer g }
     else Some (g\<lparr>g_unmapped := sm_insert (n_id n) p (g_unmapped g)\<rparr>) }"

definition addNode :: "nat \<Rightarrow> ('a, 't) graph \<Rightarrow> ('a, 't) graph option" where
  "addNode p g = do {
     n \<leftarrow> g_objs g p;
     let g = g\<lparr>g_built := False, g_handles := g_handles g @ [p]\<rparr>;
     g \<leftarrow> on_space (\<lambda>m vs. let (v, m) = alloc_var (Variable_new None (n_name n)) m in putVariable (n_id n) v m vs) g;
     g \<leftarrow> fill_block p g;
     g \<leftarrow> (case n_customOp n of
            Some op \<Rightarrow> deep_variables (n_id n) 1 (nat (od_numOutputs op - 1)) g
          | None \<Rightarrow> Some g);
     let g = (if ec_outputMode (g_configuration g) = OutputMode_VARIABLE_SPACE \<and> n_hasInternalOutputs n
              then pushToOutputOnce (n_id n) g else g);
     g \<leftarrow> (if n_output n = [] \<or> n_output n = [0] then auto_output p g
           else if n_hasExternalOutputs n then Some (specific_output n g) else Some g);
     addNode_place p g }"

subsection \<open>Building\<close>

text \<open>
  One visit of the loop in \<open>buildGraph\<close>.  A node with one input waits until the input is mapped; a
  node with another number of inputs takes the layer after the highest of those inputs that are
  mapped, since the inner \<open>continue\<close> only skips to the next input.
\<close>

fun max_layer :: "(int \<times> int) list \<Rightarrow> ('a, 't) graph \<Rightarrow> int \<Rightarrow> int option" where
  "max_layer [] g maxLayer = Some maxLayer"
| "max_layer (i # is) g maxLayer =
     (case sm_find (g_mapped g) (fst i) of
        None \<Rightarrow> max_layer is g maxLayer
      | Some q \<Rightarrow> do {
          iNode \<leftarrow> g_objs g q;
          max_layer is g (if maxLayer < n_layer iNode then n_layer iNode else maxLayer) })"

definition build_place :: "nat \<Rightarrow> int \<Rightarrow> int \<Rightarrow> ('a, 't) graph \<Rightarrow> ('a, 't) graph option" where
  "build_place p i maxLayer g = do {
     g \<leftarrow> upd_node p (setLayer maxLayer) g;
     let g = (if sm_find (g_onion g) maxLayer = None then expandOnion maxLayer g else g);
     g \<leftarrow> injectNode p g;
     g \<leftarrow> fill_block p g;
     Some (g\<lparr>g_unmapped := sm_erase i (g_unmapped g)\<rparr>) }"

definition build_visit :: "nat \<Rightarrow> ('a, 't) graph \<Rightarrow> ('a, 't) graph option" where
  "build_visit p g = do {
     n \<leftarrow> g_objs g p;
     if length (n_input n) = 1
     then (case sm_find (g_mapped g) (fst (n_input n ! 0)) of
             None \<Rightarrow> Some g
           | Some q \<Rightarrow> do { iNode \<leftarrow> g_objs g q; build_place p (n_id n) (n_layer iNode + 1) g })
     else do { maxLayer \<leftarrow> max_layer (n_input n) g 0; build_place p (n_id n) (maxLayer + 1) g } }"

text \<open>
  A pass visits the unmapped nodes in the order of their ids; the outer loop may run for ever.  Two
  things are undefined in the code: a visit that places a node erases the entry the iterator points
  to, and the loop then advances this iterator; and \<open>buildGraph\<close>, which is not void, ends without a
  return statement.  The parameter \<open>lax\<close> is the platform: with \<open>lax\<close> false both give no result, as
  the language has it; with \<open>lax\<close> true an erased element still leads to the next key and the
  function comes back, as with compilers and libraries that leave the freed links as they are.
\<close>

fun build_pass :: "bool \<Rightarrow> nat list \<Rightarrow> ('a, 't) graph \<Rightarrow> ('a, 't) graph option" where
  "build_pass lax [] g = Some g"
| "build_pass lax (p # ps) g = do {
     g' \<leftarrow> build_visit p g;
     if length (g_unmapped g') < length (g_unmapped g) \<and> \<not> lax then None else build_pass lax ps g' }"

partial_function (option) build_loop :: "bool \<Rightarrow> ('a, 't) graph \<Rightarrow> ('a, 't) graph option" where
  [code]: "build_loop lax g =
     (if g_unmapped g = [] then Some g
      else Option.bind (build_pass lax (map snd (g_unmapped g)) g) (build_loop lax))"

fun variable_ids :: "nat list \<Rightarrow> 'a mem \<Rightarrow> int list option" where
  "variable_ids [] m = Some []"
| "variable_ids (p # ps) m = do { v \<leftarrow> m_vars m p; is \<leftarrow> variable_ids ps m; Some (v_id v # is) }"

definition buildGraph :: "bool \<Rightarrow> ('a, 't) graph \<Rightarrow> ('a, 't) graph option" where
  "buildGraph lax g = do {
     g \<leftarrow> build_loop lax g;
     let g = (if g_unmapped g = [] then g\<lparr>g_built := True\<rparr> else g);
     g \<leftarrow> (if ec_outputMode (g_configuration g) = OutputMode_VARIABLE_SPACE
       then do { is \<leftarrow> variable_ids (vs_external (g_variableSpace g)) (g_mem g); Some (fold pushToOutputOnce is g) }
       else Some g);
     if lax then Some g else None }"

definition validate :: "bool \<Rightarrow> ('a, 't) graph \<Rightarrow> (bool \<times> ('a, 't) graph) option" where
  "validate lax g = do {
     g \<leftarrow> (if \<not> g_built g then buildGraph lax g else Some g);
     Some (g_built g, g) }"

definition rootNodes :: "('a, 't) graph \<Rightarrow> nat option" where
  "rootNodes g = map_option length (sm_find (g_onion g) 0)"

definition totalNodes :: "bool \<Rightarrow> ('a, 't) graph \<Rightarrow> (nat \<times> ('a, 't) graph) option" where
  "totalNodes lax g = do {
     g \<leftarrow> (if \<not> g_built g then buildGraph lax g else Some g);
     Some (length (g_mapped g), g) }"

fun fetch_variables :: "int list \<Rightarrow> vspace \<Rightarrow> (nat list \<times> vspace) option" where
  "fetch_variables [] vs = Some ([], vs)"
| "fetch_variables (i # is) vs = do {
     (r, vs) \<leftarrow> getVariable i vs;
     v \<leftarrow> r;
     (rs, vs) \<leftarrow> fetch_variables is vs;
     Some (v # rs, vs) }"

definition fetchOutputs :: "('a, 't) graph \<Rightarrow> (nat list \<times> ('a, 't) graph) option" where
  "fetchOutputs g = do {
     (rs, vs) \<leftarrow> fetch_variables (g_output g) (g_variableSpace g);
     Some (rs, g\<lparr>g_variableSpace := vs\<rparr>) }"

subsection \<open>Construction\<close>

text \<open>
  What the constructor reads from a \<open>FlatGraph\<close>: the configuration, the variables (as the constructor
  of \<open>Variable\<close> makes them, with their arrays), the requested outputs and the nodes.
\<close>

record ('a, 't) flat_graph =
  fg_configuration :: "configuration option"
  fg_variables :: "(variable \<times> 'a) list"
  fg_outputs :: "int list"
  fg_nodes :: "'t flat_node list"

definition Graph_empty :: "configuration option \<Rightarrow> ('a, 't) graph" where
  "Graph_empty conf = expandOnion 0 \<lparr>g_configuration = ExecutorConfiguration_new conf,
     g_variableSpace = VariableSpace_new, g_mem = mem_empty, g_objs = (\<lambda>_. None), g_handles = [],
     g_mapped = [], g_onion = [], g_unmapped = [], g_built = False, g_output = [], g_autos = [], g_next = 0\<rparr>"

definition alloc_node :: "'t node \<Rightarrow> ('a, 't) graph \<Rightarrow> nat \<times> ('a, 't) graph" where
  "alloc_node n g = (g_next g, g\<lparr>g_objs := (g_objs g)(g_next g \<mapsto> n), g_next := g_next g + 1\<rparr>)"

fun put_flat_variables :: "(variable \<times> 'a) list \<Rightarrow> ('a, 't) graph \<Rightarrow> ('a, 't) graph option" where
  "put_flat_variables [] g = Some g"
| "put_flat_variables ((x, a) # xs) g = do {
     let (pa, m) = alloc_arr a (g_mem g);
     let (p, m) = alloc_var (x\<lparr>v_ndarray := Some pa\<rparr>) m;
     g \<leftarrow> on_space (putVariable (v_id x) p) (g\<lparr>g_mem := m\<rparr>);
     let g = (if ec_outputMode (g_configuration g) = OutputMode_VARIABLE_SPACE then pushToOutputOnce (v_id x) g else g);
     put_flat_variables xs g }"

fun push_flat_outputs :: "int list \<Rightarrow> ('a, 't) graph \<Rightarrow> ('a, 't) graph option" where
  "push_flat_outputs [] g = Some g"
| "push_flat_outputs (out # outs) g =
     (if \<not> hasVariable (g_variableSpace g) out then None
      else push_flat_outputs outs (pushToOutputOnce out g))"

fun add_flat_nodes :: "'t node \<Rightarrow> (int \<Rightarrow> OpDescriptor option) \<Rightarrow> 't flat_node list \<Rightarrow> ('a, 't) graph \<Rightarrow> ('a, 't) graph option" where
  "add_flat_nodes u registrator [] g = Some g"
| "add_flat_nodes u registrator (f # fs) g = do {
     n \<leftarrow> Node_flat u registrator f;
     let (p, g) = alloc_node n g;
     g \<leftarrow> addNode p g;
     add_flat_nodes u registrator fs g }"

definition Graph_new ::
  "'t node \<Rightarrow> (int \<Rightarrow> OpDescriptor option) \<Rightarrow> ('a, 't) flat_graph option \<Rightarrow> ('a, 't) graph option" where
  "Graph_new u registrator flat = (case flat of
       None \<Rightarrow> Some (Graph_empty None)
     | Some f \<Rightarrow> do {
         g \<leftarrow> put_flat_variables (fg_variables f) (Graph_empty (fg_configuration f));
         g \<leftarrow> (if ec_outputMode (g_configuration g) \<in> {OutputMode_EXPLICIT, OutputMode_EXPLICIT_AND_IMPLICIT}
               then push_flat_outputs (fg_outputs f) g else Some g);
         add_flat_nodes u registrator (fg_nodes f) g })"

end
