(* ===== verification/GraphLayers.thy ===== *)
theory GraphLayers
  imports GraphBuild
begin

text \<open>
  What building does to the layers of the nodes: the invariant of a graph under construction, the
  effect of one visit, and the graphs on which the loop does not end.
\<close>

subsection \<open>The invariant\<close>

definition build_wf :: "('a, 't) graph \<Rightarrow> bool" where
  "build_wf g \<longleftrightarrow> vs_inv (g_mem g) (g_variableSpace g)
     \<and> sm_wf (g_mapped g) \<and> sm_wf (g_onion g) \<and> sm_wf (g_unmapped g)
     \<and> (\<forall>i p. sm_find (g_mapped g) i = Some p \<longrightarrow> (\<exists>n. g_objs g p = Some n \<and> n_id n = i \<and> 0 \<le> n_layer n))
     \<and> (\<forall>i p. sm_find (g_unmapped g) i = Some p \<longrightarrow>
          sm_find (g_mapped g) i = None \<and> (\<exists>n. g_objs g p = Some n \<and> n_id n = i))
     \<and> (\<forall>l ps. sm_find (g_onion g) l = Some ps \<longrightarrow> distinct ps
          \<and> (\<forall>p \<in> set ps. \<exists>n. g_objs g p = Some n \<and> n_layer n = l \<and> sm_find (g_mapped g) (n_id n) = Some p))
     \<and> (\<forall>i p n. sm_find (g_mapped g) i = Some p \<longrightarrow> g_objs g p = Some n \<longrightarrow>
          (\<exists>ps. sm_find (g_onion g) (n_layer n) = Some ps \<and> p \<in> set ps))"

definition layer_of :: "('a, 't) graph \<Rightarrow> int \<Rightarrow> int option" where
  "layer_of g i = do { p \<leftarrow> sm_find (g_mapped g) i; n \<leftarrow> g_objs g p; Some (n_layer n) }"

lemma build_wfD:
  assumes "build_wf g"
  shows "vs_inv (g_mem g) (g_variableSpace g)" "sm_wf (g_mapped g)" "sm_wf (g_onion g)" "sm_wf (g_unmapped g)"
    and "sm_find (g_mapped g) i = Some p \<Longrightarrow> \<exists>n. g_objs g p = Some n \<and> n_id n = i \<and> 0 \<le> n_layer n"
    and "sm_find (g_unmapped g) i = Some p \<Longrightarrow> sm_find (g_mapped g) i = None \<and> (\<exists>n. g_objs g p = Some n \<and> n_id n = i)"
    and "sm_find (g_onion g) l = Some ps \<Longrightarrow> distinct ps
          \<and> (\<forall>p \<in> set ps. \<exists>n. g_objs g p = Some n \<and> n_layer n = l \<and> sm_find (g_mapped g) (n_id n) = Some p)"
    and "sm_find (g_mapped g) i = Some p \<Longrightarrow> g_objs g p = Some n \<Longrightarrow>
          \<exists>ps. sm_find (g_onion g) (n_layer n) = Some ps \<and> p \<in> set ps"
  using assms unfolding build_wf_def by blast+

lemma layer_of_mapped:
  "build_wf g \<Longrightarrow> sm_find (g_mapped g) i = Some p \<Longrightarrow> \<exists>n. g_objs g p = Some n \<and> layer_of g i = Some (n_layer n) \<and> 0 \<le> n_layer n"
  using build_wfD(5) by (fastforce simp: layer_of_def)

lemma layer_of_None: "build_wf g \<Longrightarrow> layer_of g i = None \<longleftrightarrow> sm_find (g_mapped g) i = None"
  by (cases "sm_find (g_mapped g) i") (auto simp: layer_of_def dest: build_wfD(5))

subsection \<open>One visit\<close>

lemma look_up_inputs_exact:
  "vs_inv m vs \<Longrightarrow> look_up_inputs is vs = Some (map (vs_paired vs) is, vs)"
  by (induction "is") (simp_all add: getVariable_pair_exact)

lemma fill_block_exact:
  assumes "vs_inv (g_mem g) (g_variableSpace g)" "g_objs g p = Some n"
  shows "\<exists>n'. fill_block p g = Some (g\<lparr>g_objs := (g_objs g)(p \<mapsto> n')\<rparr>)
    \<and> n_id n' = n_id n \<and> n_layer n' = n_layer n \<and> n_input n' = n_input n \<and> n_output n' = n_output n"
proof -
  have upd: "(g_objs g)(p \<mapsto> n) = g_objs g" using assms(2) by auto
  have same: "g\<lparr>g_objs := g_objs g\<rparr> = g" "g\<lparr>g_variableSpace := g_variableSpace g, g_objs := f\<rparr> = g\<lparr>g_objs := f\<rparr>" for f
    by (intro graph.equality; simp)+
  show ?thesis
  proof (cases "hasCustomOp n")
    case False
    then have "fill_block p g = Some (g\<lparr>g_objs := (g_objs g)(p \<mapsto> n)\<rparr>)"
      using assms(2) by (simp add: fill_block_def upd same)
    then show ?thesis by blast
  next
    case True
    define b where "b = (case n_block n of None \<Rightarrow> Block_new None (n_id n) True | Some b \<Rightarrow> b)"
    show ?thesis
    proof (cases "hasVariablesFilled b")
      case full: True
      have "fill_block p g = Some (g\<lparr>g_objs := (g_objs g)(p \<mapsto> setBlock (Some b) n)\<rparr>)"
        unfolding fill_block_def assms(2) bind.bind_lunit Let_def b_def [symmetric] using True full by simp
      then show ?thesis by (intro exI conjI, assumption) (simp_all add: setBlock_def)
    next
      case False
      let ?b = "(setVariableSpace True b)\<lparr>b_variables := b_variables b @ map (vs_paired (g_variableSpace g)) (n_input n)\<rparr>"
      have "fill_block p g = Some (g\<lparr>g_objs := (g_objs g)(p \<mapsto> setBlock (Some ?b) n)\<rparr>)"
        unfolding fill_block_def assms(2) bind.bind_lunit Let_def b_def [symmetric]
        using True False by (simp add: look_up_inputs_exact [OF assms(1)] same)
      then show ?thesis by (intro exI conjI, assumption) (simp_all add: setBlock_def)
    qed
  qed
qed

text \<open>Placing an unmapped node on a layer.\<close>

definition placed :: "nat \<Rightarrow> int \<Rightarrow> int \<Rightarrow> 't node \<Rightarrow> ('a, 't) graph \<Rightarrow> ('a, 't) graph" where
  "placed p i l n' g = g\<lparr>g_objs := (g_objs g)(p \<mapsto> n'), g_mapped := sm_insert i p (g_mapped g),
     g_onion := sm_put l ((case sm_find (g_onion g) l of None \<Rightarrow> [] | Some ps \<Rightarrow> ps) @ [p])
       (if sm_find (g_onion g) l = None then sm_insert l [] (g_onion g) else g_onion g),
     g_unmapped := sm_erase i (g_unmapped g)\<rparr>"

lemma build_place_exact:
  assumes wf: "build_wf g" and u: "sm_find (g_unmapped g) i = Some p" and n: "g_objs g p = Some n" and l: "0 \<le> l"
  shows "\<exists>n'. build_place p i l g = Some (placed p i l n' g) \<and> n_id n' = i \<and> n_layer n' = l
    \<and> n_input n' = n_input n \<and> n_output n' = n_output n"
proof -
  note D = build_wfD [OF wf]
  have id: "n_id n = i" using D(6) [OF u] n by auto
  define g1 where "g1 = g\<lparr>g_objs := (g_objs g)(p \<mapsto> setLayer l n)\<rparr>"
  define on where "on = (if sm_find (g_onion g) l = None then sm_insert l [] (g_onion g) else g_onion g)"
  define ps where "ps = (case sm_find (g_onion g) l of None \<Rightarrow> [] | Some ps \<Rightarrow> ps)"
  have 1: "upd_node p (setLayer l) g = Some g1" using n by (simp add: upd_node_def g1_def)
  have 2: "(if sm_find (g_onion g1) l = None then expandOnion l g1 else g1) = g1\<lparr>g_onion := on\<rparr>"
    by (cases "sm_find (g_onion g) l"; intro graph.equality) (simp_all add: g1_def on_def expandOnion_def)
  have f: "sm_find on l = Some ps"
    using D(3) by (auto simp: on_def ps_def sm_laws split: option.split)
  define g2 where "g2 = g1\<lparr>g_onion := sm_put l (ps @ [p]) on, g_mapped := sm_insert i p (g_mapped g)\<rparr>"
  have 3: "injectNode p (g1\<lparr>g_onion := on\<rparr>) = Some g2"
    using l id by (simp add: injectNode_def place_def g1_def g2_def setLayer_def f)
  have "vs_inv (g_mem g2) (g_variableSpace g2)" "g_objs g2 p = Some (setLayer l n)"
    using D(1) by (simp_all add: g2_def g1_def)
  from fill_block_exact [OF this] obtain n' where
    4: "fill_block p g2 = Some (g2\<lparr>g_objs := (g_objs g2)(p \<mapsto> n')\<rparr>)"
    and n': "n_id n' = i" "n_layer n' = l" "n_input n' = n_input n" "n_output n' = n_output n"
    using id by (auto simp: setLayer_def)
  have "build_place p i l g = Some (g2\<lparr>g_objs := (g_objs g2)(p \<mapsto> n'), g_unmapped := sm_erase i (g_unmapped g2)\<rparr>)"
    unfolding build_place_def 1 bind.bind_lunit Let_def 2 3 4 by simp
  also have "g2\<lparr>g_objs := (g_objs g2)(p \<mapsto> n'), g_unmapped := sm_erase i (g_unmapped g2)\<rparr> = placed p i l n' g"
    by (simp add: g2_def g1_def placed_def on_def ps_def)
  finally show ?thesis using n' by blast
qed

lemma placed_simps [simp]:
  "g_objs (placed p i l n' g) = (g_objs g)(p \<mapsto> n')"
  "g_unmapped (placed p i l n' g) = sm_erase i (g_unmapped g)"
  "g_mapped (placed p i l n' g) = sm_insert i p (g_mapped g)"
  "g_variableSpace (placed p i l n' g) = g_variableSpace g" "g_mem (placed p i l n' g) = g_mem g"
  "g_configuration (placed p i l n' g) = g_configuration g" "g_output (placed p i l n' g) = g_output g"
  by (simp_all add: placed_def)

lemma placed_onion:
  "sm_wf (g_onion g) \<Longrightarrow> sm_wf (g_onion (placed p i l n' g)) \<and> sm_find (g_onion (placed p i l n' g))
     = (sm_find (g_onion g))(l \<mapsto> (case sm_find (g_onion g) l of None \<Rightarrow> [] | Some ps \<Rightarrow> ps) @ [p])"
  by (auto simp: placed_def sm_laws fun_eq_iff)

lemma placed_wf:
  assumes wf: "build_wf g" and u: "sm_find (g_unmapped g) i = Some p" and n': "n_id n' = i" "n_layer n' = l" "0 \<le> l"
  shows "build_wf (placed p i l n' g)" "layer_of (placed p i l n' g) = (layer_of g)(i \<mapsto> l)"
proof -
  let ?g = "placed p i l n' g"
  note D = build_wfD [OF wf]
  have fresh: "sm_find (g_mapped g) i = None" using D(6) [OF u] by simp
  have m: "sm_find (g_mapped ?g) = (sm_find (g_mapped g))(i \<mapsto> p)" using D(2) fresh by (simp add: sm_laws)
  have un: "sm_find (g_unmapped ?g) = (sm_find (g_unmapped g))(i := None)" using D(4) by (simp add: sm_laws)
  have on: "sm_find (g_onion ?g) = (sm_find (g_onion g))(l \<mapsto> (case sm_find (g_onion g) l of None \<Rightarrow> [] | Some ps \<Rightarrow> ps) @ [p])"
    "sm_wf (g_onion ?g)" using placed_onion [OF D(3)] by blast+
  have other: "q \<noteq> p" if q: "sm_find (g_mapped g) j = Some q" for j q
  proof
    assume "q = p"
    then have "j = i" using D(5) [OF q] D(6) [OF u] by auto
    then show False using q fresh by simp
  qed
  have other_u: "q \<noteq> p" if q: "sm_find (g_unmapped g) j = Some q" "j \<noteq> i" for j q
    using D(6) [OF q(1)] D(6) [OF u] q(2) by auto
  have nop: "p \<notin> set ps" if ps: "sm_find (g_onion g) k = Some ps" for k ps
    using D(7) [OF ps] other by blast
  show "layer_of ?g = (layer_of g)(i \<mapsto> l)"
  proof
    fix j show "layer_of ?g j = ((layer_of g)(i \<mapsto> l)) j"
      using n'(2) other by (cases "j = i"; cases "sm_find (g_mapped g) j") (auto simp: layer_of_def m simp del: placed_simps(3))
  qed
  show "build_wf ?g"
    unfolding build_wf_def m un
  proof (intro conjI allI impI)
    fix j q assume "((sm_find (g_mapped g))(i \<mapsto> p)) j = Some q"
    then show "\<exists>n. g_objs ?g q = Some n \<and> n_id n = j \<and> 0 \<le> n_layer n"
      using n' D(5) [of j q] other [of j q] by (auto split: if_splits)
  next
    fix j q assume "((sm_find (g_unmapped g))(i := None)) j = Some q"
    then have j: "j \<noteq> i" "sm_find (g_unmapped g) j = Some q" by (auto split: if_splits)
    then show "((sm_find (g_mapped g))(i \<mapsto> p)) j = None" "\<exists>n. g_objs ?g q = Some n \<and> n_id n = j"
      using D(6) [OF j(2)] other_u [OF j(2,1)] by simp_all
  next
    fix k ps assume "sm_find (g_onion ?g) k = Some ps"
    then have "k = l \<and> ps = (case sm_find (g_onion g) l of None \<Rightarrow> [] | Some ps \<Rightarrow> ps) @ [p]
        \<or> k \<noteq> l \<and> sm_find (g_onion g) k = Some ps" by (auto simp: on split: if_splits)
    then consider qs where "k = l" "ps = qs @ [p]" "qs = [] \<or> sm_find (g_onion g) l = Some qs"
      | "k \<noteq> l" "sm_find (g_onion g) k = Some ps" by (cases "sm_find (g_onion g) l") auto
    then have "distinct ps \<and> (\<forall>q \<in> set ps. \<exists>n. g_objs ?g q = Some n \<and> n_layer n = k \<and> ((sm_find (g_mapped g))(i \<mapsto> p)) (n_id n) = Some q)"
    proof (cases)
      case 1
      have qs: "distinct qs \<and> p \<notin> set qs \<and> (\<forall>q \<in> set qs. \<exists>n. g_objs g q = Some n \<and> n_layer n = l \<and> sm_find (g_mapped g) (n_id n) = Some q)"
        using 1(3) D(7) [of l qs] nop [of l qs] by auto
      then have d: "distinct ps" using 1(2) by simp
      have all: "\<forall>q \<in> set ps. \<exists>n. g_objs ?g q = Some n \<and> n_layer n = k \<and> ((sm_find (g_mapped g))(i \<mapsto> p)) (n_id n) = Some q"
      proof
        fix q assume "q \<in> set ps"
        then consider "q = p" | "q \<in> set qs" "q \<noteq> p" using 1(2) by auto
        then show "\<exists>n. g_objs ?g q = Some n \<and> n_layer n = k \<and> ((sm_find (g_mapped g))(i \<mapsto> p)) (n_id n) = Some q"
        proof cases
          case 1
          then show ?thesis using n' \<open>k = l\<close> by simp
        next
          case 2
          then obtain n where n: "g_objs g q = Some n" "n_layer n = l" "sm_find (g_mapped g) (n_id n) = Some q"
            using qs by blast
          then have "n_id n \<noteq> i" using fresh by auto
          then show ?thesis using n 2(2) \<open>k = l\<close> by simp
        qed
      qed
      show ?thesis using d all by blast
    next
      case 2
      have d: "distinct ps" using D(7) [OF 2(2)] by simp
      have "\<forall>q \<in> set ps. \<exists>n. g_objs ?g q = Some n \<and> n_layer n = k \<and> ((sm_find (g_mapped g))(i \<mapsto> p)) (n_id n) = Some q"
        using D(7) [OF 2(2)] nop [OF 2(2)] fresh by fastforce
      with d show ?thesis by blast
    qed
    then show "distinct ps" "\<forall>q \<in> set ps. \<exists>n. g_objs ?g q = Some n \<and> n_layer n = k \<and> ((sm_find (g_mapped g))(i \<mapsto> p)) (n_id n) = Some q" by blast+
  next
    fix j q n assume j: "((sm_find (g_mapped g))(i \<mapsto> p)) j = Some q" "g_objs ?g q = Some n"
    show "\<exists>ps. sm_find (g_onion ?g) (n_layer n) = Some ps \<and> q \<in> set ps"
    proof (cases "j = i")
      case True
      then have "q = p" "n_layer n = l" using j n' by auto
      then show ?thesis by (simp add: on(1))
    next
      case False
      then have q: "sm_find (g_mapped g) j = Some q" "g_objs g q = Some n" using j other [of j q] by auto
      from D(8) [OF this] show ?thesis by (auto simp: on)
    qed
  qed (use D on in simp_all)
qed

lemma max_layer_exact:
  assumes "build_wf g"
  shows "\<exists>M. max_layer is g m = Some M \<and> m \<le> M
    \<and> (\<forall>i \<in> set is. \<forall>k. layer_of g (fst i) = Some k \<longrightarrow> k \<le> M)
    \<and> (M = m \<or> (\<exists>i \<in> set is. layer_of g (fst i) = Some M))"
proof (induction "is" arbitrary: m)
  case (Cons i "is")
  show ?case
  proof (cases "sm_find (g_mapped g) (fst i)")
    case None
    then have "layer_of g (fst i) = None" by (simp add: layer_of_None [OF assms])
    with None Cons [of m] show ?thesis by auto
  next
    case (Some q)
    then obtain n where n: "g_objs g q = Some n" "layer_of g (fst i) = Some (n_layer n)"
      using layer_of_mapped [OF assms] by blast
    obtain M where "max_layer is g (max m (n_layer n)) = Some M" "max m (n_layer n) \<le> M"
      "\<forall>i \<in> set is. \<forall>k. layer_of g (fst i) = Some k \<longrightarrow> k \<le> M"
      "M = max m (n_layer n) \<or> (\<exists>i \<in> set is. layer_of g (fst i) = Some M)"
      using Cons [of "max m (n_layer n)"] by blast
    moreover have "max m (n_layer n) = (if m < n_layer n then n_layer n else m)" by simp
    ultimately show ?thesis using Some n by (auto split: if_splits)
  qed
qed simp

text \<open>A node with one input that is not mapped is left alone; every other node is placed.\<close>

lemma build_visit_waits:
  assumes "g_objs g p = Some n" "n_input n = [(j, o')]" "sm_find (g_mapped g) j = None"
  shows "build_visit p g = Some g"
  using assms by (simp add: build_visit_def)

lemma build_visit_places:
  assumes wf: "build_wf g" and u: "sm_find (g_unmapped g) i = Some p" and n: "g_objs g p = Some n"
    and s: "length (n_input n) = 1 \<longrightarrow> layer_of g (fst (n_input n ! 0)) \<noteq> None"
  shows "\<exists>l n'. build_visit p g = Some (placed p i l n' g) \<and> n_id n' = i \<and> n_layer n' = l \<and> 1 \<le> l
    \<and> n_input n' = n_input n
    \<and> (\<forall>j \<in> set (n_input n). \<forall>k. layer_of g (fst j) = Some k \<longrightarrow> k < l)
    \<and> (l = 1 \<or> (\<exists>j \<in> set (n_input n). layer_of g (fst j) = Some (l - 1)))"
proof -
  have id: "n_id n = i" using build_wfD(6) [OF wf u] n by auto
  show ?thesis
  proof (cases "length (n_input n) = 1")
    case True
    then obtain j where j: "n_input n = [j]" by (cases "n_input n") auto
    with True s obtain q where q: "sm_find (g_mapped g) (fst j) = Some q" using layer_of_None [OF wf] by auto
    then obtain x where x: "g_objs g q = Some x" "layer_of g (fst j) = Some (n_layer x)" "0 \<le> n_layer x"
      using layer_of_mapped [OF wf] by blast
    from build_place_exact [OF wf u n, of "n_layer x + 1"] x(3) obtain n' where
      "build_place p i (n_layer x + 1) g = Some (placed p i (n_layer x + 1) n' g)" "n_id n' = i"
      "n_layer n' = n_layer x + 1" "n_input n' = n_input n" by auto
    then show ?thesis
      using n id j q x by (intro exI [of _ "n_layer x + 1"] exI [of _ n']) (simp add: build_visit_def)
  next
    case False
    obtain M where M: "max_layer (n_input n) g 0 = Some M" "0 \<le> M"
      "\<forall>j \<in> set (n_input n). \<forall>k. layer_of g (fst j) = Some k \<longrightarrow> k \<le> M"
      "M = 0 \<or> (\<exists>j \<in> set (n_input n). layer_of g (fst j) = Some M)"
      using max_layer_exact [OF wf] by blast
    from build_place_exact [OF wf u n, of "M + 1"] M(2) obtain n' where
      "build_place p i (M + 1) g = Some (placed p i (M + 1) n' g)" "n_id n' = i" "n_layer n' = M + 1"
      "n_input n' = n_input n" by auto
    then show ?thesis
      using n id M False
      by (intro exI [of _ "M + 1"] exI [of _ n']) (auto simp: build_visit_def)
  qed
qed

subsection \<open>Graphs whose inputs have smaller ids\<close>

definition unmapped_node :: "('a, 't) graph \<Rightarrow> int \<Rightarrow> 't node \<Rightarrow> bool" where
  "unmapped_node g i n \<longleftrightarrow> (\<exists>p. sm_find (g_unmapped g) i = Some p \<and> g_objs g p = Some n)"

text \<open>
  Every input that still has to be placed has a smaller id, and the input of a node with one input
  is in the graph.
\<close>

definition topological :: "('a, 't) graph \<Rightarrow> bool" where
  "topological g \<longleftrightarrow> (\<forall>i n. unmapped_node g i n \<longrightarrow>
     (\<forall>j \<in> set (n_input n). sm_find (g_unmapped g) (fst j) \<noteq> None \<longrightarrow> fst j < i)
     \<and> (length (n_input n) = 1 \<longrightarrow>
          layer_of g (fst (n_input n ! 0)) \<noteq> None \<or> sm_find (g_unmapped g) (fst (n_input n ! 0)) \<noteq> None))"

lemma unmapped_node_placed:
  assumes "build_wf g" "sm_find (g_unmapped g) i = Some p"
  shows "unmapped_node (placed p i l n' g) j n \<longleftrightarrow> j \<noteq> i \<and> unmapped_node g j n"
proof -
  have "q \<noteq> p" if "sm_find (g_unmapped g) j = Some q" "j \<noteq> i" for q
    using build_wfD(6) [OF assms(1) that(1)] build_wfD(6) [OF assms] that(2) by auto
  then show ?thesis
    using build_wfD(4) [OF assms(1)] by (auto simp: unmapped_node_def sm_laws split: if_splits)
qed

definition layered :: "('a, 't) graph \<Rightarrow> int \<Rightarrow> 't node \<Rightarrow> bool" where
  "layered g i n \<longleftrightarrow> (\<exists>l. layer_of g i = Some l \<and> 1 \<le> l
     \<and> (\<forall>j \<in> set (n_input n). \<forall>k. layer_of g (fst j) = Some k \<longrightarrow> k < l))"

lemma build_pass_topological:
  assumes "build_wf g" "topological g"
  shows "\<exists>g'. build_pass True (map snd (g_unmapped g)) g = Some g' \<and> build_wf g' \<and> g_unmapped g' = []
    \<and> g_configuration g' = g_configuration g
    \<and> (\<forall>j. sm_find (g_unmapped g) j = None \<longrightarrow> layer_of g' j = layer_of g j)
    \<and> (\<forall>i n. unmapped_node g i n \<longrightarrow> layered g' i n)"
  using assms
proof (induction "g_unmapped g" arbitrary: g)
  case Nil
  have "\<not> unmapped_node g i n" for i n by (simp add: unmapped_node_def flip: Nil.hyps)
  then show ?case using Nil.prems(1) by (intro exI [of _ g]) (simp flip: Nil.hyps)
next
  case (Cons x rest)
  obtain i p where x: "x = (i, p)" by (cases x)
  note wf = Cons.prems(1)
  have un: "g_unmapped g = (i, p) # rest" using Cons.hyps(2) x by simp
  have wfu: "sm_wf ((i, p) # rest)" using build_wfD(4) [OF wf] by (simp add: un)
  then have min: "i < j" if "sm_find rest j \<noteq> None" for j
    using that sm_find_set [of rest j] by (cases "sm_find rest j") force+
  have u: "sm_find (g_unmapped g) i = Some p" by (simp add: un)
  then obtain n where n: "g_objs g p = Some n" "n_id n = i" using build_wfD(6) [OF wf] by blast
  then have un_n: "unmapped_node g i n" using u by (auto simp: unmapped_node_def)
  have inp: "sm_find (g_unmapped g) (fst j) = None" if j: "j \<in> set (n_input n)" for j
  proof (rule ccontr)
    assume a: "sm_find (g_unmapped g) (fst j) \<noteq> None"
    then have "fst j < i" using Cons.prems(2) un_n j unfolding topological_def by blast
    with a min show False by (auto simp: un split: if_splits)
  qed
  have "length (n_input n) = 1 \<longrightarrow> layer_of g (fst (n_input n ! 0)) \<noteq> None"
  proof
    assume one: "length (n_input n) = 1"
    then have "n_input n ! 0 \<in> set (n_input n)" by simp
    then show "layer_of g (fst (n_input n ! 0)) \<noteq> None"
      using Cons.prems(2) un_n one inp unfolding topological_def by blast
  qed
  from build_visit_places [OF wf u n(1) this] obtain l n' where
    v: "build_visit p g = Some (placed p i l n' g)" "n_id n' = i" "n_layer n' = l" "1 \<le> l"
    and lt: "\<forall>j \<in> set (n_input n). \<forall>k. layer_of g (fst j) = Some k \<longrightarrow> k < l" by blast
  let ?g = "placed p i l n' g"
  have l0: "0 \<le> l" using v(4) by simp
  note P = placed_wf [OF wf u v(2,3) l0]
  have rest: "g_unmapped ?g = rest" by (simp add: un)
  have find: "sm_find (g_unmapped ?g) = (sm_find (g_unmapped g))(i := None)"
    using build_wfD(4) [OF wf] by (simp add: sm_laws)
  have top: "topological ?g"
    unfolding topological_def
  proof (intro allI impI)
    fix i' m assume "unmapped_node ?g i' m"
    then have "unmapped_node g i' m" using unmapped_node_placed [OF wf u] by blast
    then have "(\<forall>j \<in> set (n_input m). sm_find (g_unmapped g) (fst j) \<noteq> None \<longrightarrow> fst j < i')
     \<and> (length (n_input m) = 1 \<longrightarrow>
          layer_of g (fst (n_input m ! 0)) \<noteq> None \<or> sm_find (g_unmapped g) (fst (n_input m ! 0)) \<noteq> None)"
      using Cons.prems(2) unfolding topological_def by blast
    then show "(\<forall>j \<in> set (n_input m). sm_find (g_unmapped ?g) (fst j) \<noteq> None \<longrightarrow> fst j < i')
     \<and> (length (n_input m) = 1 \<longrightarrow>
          layer_of ?g (fst (n_input m ! 0)) \<noteq> None \<or> sm_find (g_unmapped ?g) (fst (n_input m ! 0)) \<noteq> None)"
      unfolding find P(2) by simp
  qed
  from Cons.hyps(1) [OF rest [symmetric] P(1) top] obtain g' where
    g': "build_pass True (map snd rest) ?g = Some g'" "build_wf g'" "g_unmapped g' = []" "g_configuration g' = g_configuration g"
      "\<forall>j. sm_find rest j = None \<longrightarrow> layer_of g' j = layer_of ?g j"
      "\<forall>i n. unmapped_node ?g i n \<longrightarrow> layered g' i n"
    unfolding rest by auto
  have rn: "sm_find rest j = None" if "sm_find (g_unmapped g) j = None" for j
    using that min [of j] by (cases "sm_find rest j") (auto simp: un split: if_splits)
  have ri: "sm_find rest i = None" using min [of i] by (cases "sm_find rest i") auto
  have inp': "layer_of g' (fst j) = layer_of g (fst j)" if "j \<in> set (n_input n)" for j
  proof -
    have "fst j \<noteq> i" using inp [OF that] u by auto
    then show ?thesis using g'(5) rn [OF inp [OF that]] P(2) by simp
  qed
  have "layered g' i n"
    unfolding layered_def using g'(5) ri P(2) v(4) lt inp' by (intro exI [of _ l]) simp
  moreover have "layered g' i' m" if "unmapped_node g i' m" "i' \<noteq> i" for i' m
    using g'(6) unmapped_node_placed [OF wf u] that by blast
  moreover have "m = n" if "unmapped_node g i m" for m using that u n by (auto simp: unmapped_node_def)
  ultimately have "\<forall>i' m. unmapped_node g i' m \<longrightarrow> layered g' i' m" by blast
  moreover have "layer_of g' j = layer_of g j" if "sm_find (g_unmapped g) j = None" for j
  proof -
    have "j \<noteq> i" using that u by auto
    then show ?thesis using g'(5) rn [OF that] P(2) by simp
  qed
  ultimately show ?case using g' v(1) by (simp add: un)
qed

lemma build_loop_topological:
  assumes "build_wf g" "topological g"
  shows "\<exists>g'. build_loop True g = Some g' \<and> build_wf g' \<and> g_unmapped g' = []
    \<and> g_configuration g' = g_configuration g
    \<and> (\<forall>j. sm_find (g_unmapped g) j = None \<longrightarrow> layer_of g' j = layer_of g j)
    \<and> (\<forall>i n. unmapped_node g i n \<longrightarrow> layered g' i n)"
proof -
  obtain g' where g': "build_pass True (map snd (g_unmapped g)) g = Some g'" "build_wf g'" "g_unmapped g' = []"
    "g_configuration g' = g_configuration g"
    "\<forall>j. sm_find (g_unmapped g) j = None \<longrightarrow> layer_of g' j = layer_of g j"
    "\<forall>i n. unmapped_node g i n \<longrightarrow> layered g' i n"
    using build_pass_topological [OF assms] by blast
  have "build_loop True g' = Some g'" using g'(3) by (simp add: build_loop.simps)
  then have "build_loop True g = Some g'"
    using g'(1) by (cases "g_unmapped g = []") (simp_all add: build_loop.simps [of _ g])
  with g' show ?thesis by blast
qed

subsection \<open>When the loop ends\<close>

text \<open>
  A set of waiting nodes is hopeless when each has one input, not mapped, that is in the set itself
  or not in the graph at all.
\<close>

definition waits :: "('a, 't) graph \<Rightarrow> int \<Rightarrow> int \<Rightarrow> bool" where
  "waits g i j \<longleftrightarrow> (\<exists>n o'. unmapped_node g i n \<and> n_input n = [(j, o')] \<and> sm_find (g_mapped g) j = None)"

definition hopeless :: "('a, 't) graph \<Rightarrow> int set \<Rightarrow> bool" where
  "hopeless g K \<longleftrightarrow> K \<noteq> {} \<and> (\<forall>i \<in> K. \<exists>j. waits g i j \<and> (j \<in> K \<or> sm_find (g_unmapped g) j = None))"

lemma build_visit_cases:
  assumes wf: "build_wf g" and u: "sm_find (g_unmapped g) i = Some p"
  obtains j where "build_visit p g = Some g" "waits g i j"
  | l n' where "build_visit p g = Some (placed p i l n' g)" "n_id n' = i" "n_layer n' = l" "0 \<le> l"
proof -
  obtain n where n: "g_objs g p = Some n" "n_id n = i" using build_wfD(6) [OF wf u] by blast
  then have un: "unmapped_node g i n" using u by (auto simp: unmapped_node_def)
  show thesis
  proof (cases "length (n_input n) = 1 \<and> layer_of g (fst (n_input n ! 0)) = None")
    case True
    then obtain j o' where j: "n_input n = [(j, o')]" by (cases "n_input n") auto
    then have m: "sm_find (g_mapped g) j = None" using True layer_of_None [OF wf, of j] by simp
    have "waits g i j" using un j m by (auto simp: waits_def)
    with that(1) build_visit_waits [OF n(1) j m] show thesis by blast
  next
    case False
    then have "length (n_input n) = 1 \<longrightarrow> layer_of g (fst (n_input n ! 0)) \<noteq> None" by simp
    from build_visit_places [OF wf u n(1) this] that(2) show thesis by fastforce
  qed
qed

lemma hopeless_placed:
  assumes wf: "build_wf g" and u: "sm_find (g_unmapped g) i = Some p"
    and v: "\<not> (\<exists>j. waits g i j)" and K: "n_id n' = i"
  shows "hopeless (placed p i l n' g) K \<longleftrightarrow> hopeless g K"
proof -
  let ?g = "placed p i l n' g"
  have fresh: "sm_find (g_mapped g) i = None" using build_wfD(6) [OF wf u] by simp
  have m: "sm_find (g_mapped ?g) = (sm_find (g_mapped g))(i \<mapsto> p)"
    and un: "sm_find (g_unmapped ?g) = (sm_find (g_unmapped g))(i := None)"
    using build_wfD(2,4) [OF wf] fresh by (simp_all add: sm_laws)
  have w: "waits ?g k j \<longleftrightarrow> k \<noteq> i \<and> j \<noteq> i \<and> waits g k j" for k j
    unfolding waits_def m by (auto simp: unmapped_node_placed [OF wf u] split: if_splits)
  show ?thesis
  proof
    assume "hopeless ?g K"
    then show "hopeless g K" unfolding hopeless_def un w by (simp split: if_splits) blast
  next
    assume h: "hopeless g K"
    then have i: "i \<notin> K" using v unfolding hopeless_def by blast
    have "\<exists>j. waits ?g k j \<and> (j \<in> K \<or> sm_find (g_unmapped ?g) j = None)" if "k \<in> K" for k
    proof -
      obtain j where j: "waits g k j" "j \<in> K \<or> sm_find (g_unmapped g) j = None"
        using h \<open>k \<in> K\<close> unfolding hopeless_def by blast
      have "j \<noteq> i" "k \<noteq> i" using j(2) i u that by auto
      with j show ?thesis unfolding w un by auto
    qed
    then show "hopeless ?g K" using h unfolding hopeless_def by blast
  qed
qed

lemma sm_length_erase: "sm_wf m \<Longrightarrow> sm_find m k = Some v \<Longrightarrow> Suc (length (sm_erase k m)) = length m"
  by (induction k m rule: sm_erase.induct) (auto split: if_splits)

lemma waiting_or_placed:
  assumes wf: "build_wf g" and u: "sm_find (g_unmapped g) i = Some p"
  shows "\<exists>g1. build_visit p g = Some g1 \<and> build_wf g1 \<and> (\<forall>K. hopeless g1 K \<longleftrightarrow> hopeless g K)
    \<and> (\<forall>k q. k \<noteq> i \<longrightarrow> sm_find (g_unmapped g1) k = sm_find (g_unmapped g) k)
    \<and> (g1 = g \<and> (\<exists>j. waits g i j) \<or> Suc (length (g_unmapped g1)) = length (g_unmapped g))"
proof (cases "\<exists>j. waits g i j")
  case True
  then obtain j n o' where j: "unmapped_node g i n" "n_input n = [(j, o')]" "sm_find (g_mapped g) j = None"
    by (auto simp: waits_def)
  then have "g_objs g p = Some n" using u by (auto simp: unmapped_node_def)
  from build_visit_waits [OF this j(2,3)] True wf show ?thesis by blast
next
  case False
  from build_visit_cases [OF wf u] False obtain l n' where
    v: "build_visit p g = Some (placed p i l n' g)" "n_id n' = i" "n_layer n' = l" "0 \<le> l" by metis
  have "Suc (length (g_unmapped (placed p i l n' g))) = length (g_unmapped g)"
    using sm_length_erase [OF build_wfD(4) [OF wf] u] by simp
  moreover have "sm_find (g_unmapped (placed p i l n' g)) k = sm_find (g_unmapped g) k" if "k \<noteq> i" for k
    using build_wfD(4) [OF wf] that by (simp add: sm_laws)
  ultimately show ?thesis
    using v placed_wf(1) [OF wf u v(2-4)] hopeless_placed [OF wf u False v(2)] by blast
qed

lemma build_pass_progress:
  assumes "build_wf g" "distinct (map fst ips)" "\<forall>(i, p) \<in> set ips. sm_find (g_unmapped g) i = Some p"
  shows "\<exists>g'. build_pass True (map snd ips) g = Some g' \<and> build_wf g' \<and> (\<forall>K. hopeless g' K \<longleftrightarrow> hopeless g K)
    \<and> (g' = g \<and> (\<forall>(i, p) \<in> set ips. \<exists>j. waits g i j) \<or> length (g_unmapped g') < length (g_unmapped g))"
  using assms
proof (induction ips arbitrary: g)
  case (Cons x ips)
  obtain i p where x: "x = (i, p)" by (cases x)
  have u: "sm_find (g_unmapped g) i = Some p" using Cons.prems(3) x by simp
  from waiting_or_placed [OF Cons.prems(1) u] obtain g1 where g1: "build_visit p g = Some g1" "build_wf g1"
    "\<forall>K. hopeless g1 K \<longleftrightarrow> hopeless g K" "\<forall>k q. k \<noteq> i \<longrightarrow> sm_find (g_unmapped g1) k = sm_find (g_unmapped g) k"
    "g1 = g \<and> (\<exists>j. waits g i j) \<or> Suc (length (g_unmapped g1)) = length (g_unmapped g)" by (elim exE conjE) rule
  have "\<forall>(k, q) \<in> set ips. sm_find (g_unmapped g1) k = Some q"
  proof (clarify)
    fix k q assume kq: "(k, q) \<in> set ips"
    then have "k \<in> fst ` set ips" by (rule image_eqI [rotated]) simp
    then have "k \<noteq> i" using Cons.prems(2) x by auto
    moreover have "sm_find (g_unmapped g) k = Some q" using Cons.prems(3) kq by auto
    ultimately show "sm_find (g_unmapped g1) k = Some q" using g1(4) by simp
  qed
  from Cons.IH [OF g1(2) _ this] Cons.prems(2) obtain g' where g': "build_pass True (map snd ips) g1 = Some g'" "build_wf g'"
    "\<forall>K. hopeless g' K \<longleftrightarrow> hopeless g1 K"
    "g' = g1 \<and> (\<forall>(i, p) \<in> set ips. \<exists>j. waits g1 i j) \<or> length (g_unmapped g') < length (g_unmapped g1)" by auto
  have "g' = g \<and> (\<forall>(i, p) \<in> set (x # ips). \<exists>j. waits g i j) \<or> length (g_unmapped g') < length (g_unmapped g)"
    using g1(5) g'(4) x by auto
  then show ?case using g1(1,3) g'(1-3) x by auto
qed simp

lemma unmapped_list:
  assumes "build_wf g"
  shows "distinct (map fst (g_unmapped g))" "\<forall>(i, p) \<in> set (g_unmapped g). sm_find (g_unmapped g) i = Some p"
proof -
  have wf: "sm_wf (g_unmapped g)" by (rule build_wfD(4) [OF assms])
  then show "distinct (map fst (g_unmapped g))" by (simp add: sm_wf_def strict_sorted_iff)
  show "\<forall>(i, p) \<in> set (g_unmapped g). sm_find (g_unmapped g) i = Some p" using sm_find_set [OF wf] by auto
qed

lemma build_loop_returns:
  assumes "build_wf g" "\<not> (\<exists>K. hopeless g K)"
  shows "\<exists>g'. build_loop True g = Some g' \<and> build_wf g' \<and> g_unmapped g' = []"
  using assms
proof (induction "length (g_unmapped g)" arbitrary: g rule: less_induct)
  case less
  show ?case
  proof (cases "g_unmapped g = []")
    case True
    then show ?thesis using less.prems(1) by (simp add: build_loop.simps)
  next
    case False
    from build_pass_progress [OF less.prems(1) unmapped_list [OF less.prems(1)]] obtain g1 where
      g1: "build_pass True (map snd (g_unmapped g)) g = Some g1" "build_wf g1" "\<forall>K. hopeless g1 K \<longleftrightarrow> hopeless g K"
      and pr: "g1 = g \<and> (\<forall>(i, p) \<in> set (g_unmapped g). \<exists>j. waits g i j) \<or> length (g_unmapped g1) < length (g_unmapped g)"
      by blast
    have "\<not> (\<forall>(i, p) \<in> set (g_unmapped g). \<exists>j. waits g i j)"
    proof
      assume all: "\<forall>(i, p) \<in> set (g_unmapped g). \<exists>j. waits g i j"
      have "sm_find (g_unmapped g) j \<noteq> None \<longleftrightarrow> j \<in> fst ` set (g_unmapped g)" for j
        using sm_find_set [OF build_wfD(4) [OF less.prems(1)], of j] by (cases "sm_find (g_unmapped g) j") force+
      then have "hopeless g (fst ` set (g_unmapped g))"
        using all False unfolding hopeless_def by fastforce
      with less.prems(2) show False by blast
    qed
    with pr have "length (g_unmapped g1) < length (g_unmapped g)" by blast
    from less.hyps [OF this g1(2)] g1(3) less.prems(2) g1(1) False show ?thesis
      by (simp add: build_loop.simps [of _ g])
  qed
qed

lemma build_loop_diverges:
  assumes "build_wf g" "hopeless g K"
  shows "build_loop True g = None"
proof (rule ccontr)
  assume "build_loop True g \<noteq> None"
  then obtain g' where r: "build_loop True g = Some g'" by auto
  have "True \<longrightarrow> \<not> (build_wf g \<and> hopeless g K)"
  proof (rule build_loop.raw_induct [where P = "\<lambda>lax g _. lax \<longrightarrow> \<not> (build_wf g \<and> hopeless g K)", OF _ r], rule impI)
    fix f :: "bool \<Rightarrow> ('a, 'b) graph \<Rightarrow> ('a, 'b) graph option" and lax g y
    assume IH: "\<And>lax x y. f lax x = Some y \<Longrightarrow> lax \<longrightarrow> \<not> (build_wf x \<and> hopeless x K)" and lax
      and y: "(if g_unmapped g = [] then Some g else Option.bind (build_pass lax (map snd (g_unmapped g)) g) (f lax)) = Some y"
    show "\<not> (build_wf g \<and> hopeless g K)"
    proof
      assume g: "build_wf g \<and> hopeless g K"
      then obtain i j where "waits g i j" unfolding hopeless_def by blast
      then have "g_unmapped g \<noteq> []" by (auto simp: waits_def unmapped_node_def)
      moreover obtain g1 where "build_pass True (map snd (g_unmapped g)) g = Some g1" "build_wf g1" "hopeless g1 K"
        using build_pass_progress [OF _ unmapped_list, of g] g by blast
      ultimately show False using IH [of lax g1 y] y \<open>lax\<close> by simp
    qed
  qed
  with assms show False by blast
qed

end
