(* ===== verification/GraphAdding.thy ===== *)
theory GraphAdding
  imports GraphLayers
begin

text \<open>
  What adding nodes to a graph does: a node is put on the layer it must have, or is kept for
  \<open>buildGraph\<close>, and the graph under construction stays well formed.
\<close>

subsection \<open>Updates that leave the layers alone\<close>

lemma sm_erase_insert: "sm_wf m \<Longrightarrow> sm_find m k = None \<Longrightarrow> sm_erase k (sm_insert k v m) = m"
  by (induction k v m rule: sm_insert.induct) (auto split: if_splits)

definition same_kind :: "'t node \<Rightarrow> 't node \<Rightarrow> bool" where
  "same_kind n n' \<longleftrightarrow> n_id n' = n_id n \<and> n_input n' = n_input n
     \<and> n_hasInternalInputs n' = n_hasInternalInputs n \<and> n_hasExternalInputs n' = n_hasExternalInputs n"

lemma same_kind_trans: "same_kind a b \<Longrightarrow> same_kind b c \<Longrightarrow> same_kind a c"
  by (simp add: same_kind_def)

lemma same_kind_setBlock [simp]: "same_kind n (setBlock b n)" "same_kind n n" "same_kind n (pickExternalOutput i n)"
  "same_kind n (setLayer l n)"
  by (simp_all add: same_kind_def setBlock_def pickExternalOutput_def setLayer_def)

definition touched :: "nat \<Rightarrow> ('a, 't) graph \<Rightarrow> ('a, 't) graph \<Rightarrow> bool" where
  "touched p g g' \<longleftrightarrow> g_mapped g' = g_mapped g \<and> g_onion g' = g_onion g \<and> g_unmapped g' = g_unmapped g
     \<and> g_configuration g' = g_configuration g \<and> g_next g' = g_next g
     \<and> (\<forall>q. q \<noteq> p \<longrightarrow> g_objs g' q = g_objs g q)
     \<and> (\<forall>n. g_objs g p = Some n \<longrightarrow> (\<exists>n'. g_objs g' p = Some n' \<and> same_kind n n'))
     \<and> vs_inv (g_mem g') (g_variableSpace g')
     \<and> (\<forall>i. vs_paired (g_variableSpace g) i \<noteq> None \<longrightarrow> vs_paired (g_variableSpace g') i \<noteq> None)"

lemma touchedD:
  assumes "touched p g g'"
  shows "vs_inv (g_mem g') (g_variableSpace g')"
    and "g_objs g p = Some n \<Longrightarrow> \<exists>n'. g_objs g' p = Some n' \<and> same_kind n n'"
    and "q \<noteq> p \<Longrightarrow> g_objs g' q = g_objs g q"
    and "vs_paired (g_variableSpace g) i \<noteq> None \<Longrightarrow> vs_paired (g_variableSpace g') i \<noteq> None"
  using assms unfolding touched_def by blast+

lemma touched_trans:
  assumes "touched p g g'" "touched p g' g''"
  shows "touched p g g''"
proof -
  have "\<exists>n'. g_objs g'' p = Some n' \<and> same_kind n n'" if "g_objs g p = Some n" for n
    using touchedD(2) [OF assms(1) that] touchedD(2) [OF assms(2)] same_kind_trans by blast
  then show ?thesis using assms unfolding touched_def by simp
qed

text \<open>Updates of the fields that are not about layers.\<close>

lemma touched_fields:
  assumes "vs_inv (g_mem g) (g_variableSpace g)"
  shows "touched p g (g\<lparr>g_built := b, g_handles := hs\<rparr>)" "touched p g (g\<lparr>g_autos := as\<rparr>)"
    "touched p g (pushToOutputOnce i g)" "touched p g (fold pushToOutputOnce is g)"
proof -
  have "touched p g (g\<lparr>g_output := os\<rparr>)" for os using assms by (auto simp: touched_def)
  moreover have "touched p g g" using assms by (auto simp: touched_def)
  moreover have "\<exists>os. fold pushToOutputOnce is g = g\<lparr>g_output := os\<rparr>" for "is"
  proof (induction "is" arbitrary: g)
    case Nil
    show ?case by (intro exI [of _ "g_output g"]) simp
  next
    case (Cons i "is")
    obtain os where "pushToOutputOnce i g = g\<lparr>g_output := os\<rparr>"
      by (cases "i \<in> set (g_output g)") (auto simp: pushToOutputOnce_def intro: that [of "g_output g"])
    moreover obtain os' where "fold pushToOutputOnce is (g\<lparr>g_output := os\<rparr>) = g\<lparr>g_output := os, g_output := os'\<rparr>"
      using Cons [of "g\<lparr>g_output := os\<rparr>"] by blast
    ultimately show ?case by (intro exI [of _ os']) simp
  qed
  ultimately show "touched p g (pushToOutputOnce i g)" "touched p g (fold pushToOutputOnce is g)"
    by (auto simp: pushToOutputOnce_def) metis
qed (use assms in \<open>auto simp: touched_def\<close>)

lemma touched_specific: "vs_inv (g_mem g) (g_variableSpace g) \<Longrightarrow> touched p g (specific_output n g)"
  using touched_fields(4) [of g p "[]"] touched_fields(4) [of g p "filter (\<lambda>i. i < 0) (n_output n)"]
  by (simp add: specific_output_def)

lemma touched_mem:
  assumes "vs_inv m vs" "\<forall>i. vs_paired (g_variableSpace g) i \<noteq> None \<longrightarrow> vs_paired vs i \<noteq> None"
  shows "touched p g (g\<lparr>g_mem := m, g_variableSpace := vs\<rparr>)"
  using assms by (auto simp: touched_def)

lemma hasVariable_paired: "vs_inv m vs \<Longrightarrow> hasVariable vs i \<longleftrightarrow> vs_paired vs (i, 0) \<noteq> None"
  by (simp add: vs_inv_def hasVariable_pair_def)

lemma putVariable_touched:
  assumes inv: "vs_inv (g_mem g) (g_variableSpace g)"
    and m: "\<forall>p. m_vars (g_mem g) p \<noteq> None \<longrightarrow> m_vars m p \<noteq> None" and v: "m_vars m v \<noteq> None"
  shows "\<exists>m' vs'. putVariable i v m (g_variableSpace g) = Some (m', vs')
    \<and> touched p g (g\<lparr>g_mem := m', g_variableSpace := vs'\<rparr>) \<and> vs_paired vs' (i, 0) \<noteq> None"
proof -
  have inv': "vs_inv m (g_variableSpace g)" by (rule vs_inv_mono [OF inv m])
  from putVariable_total [OF this v] obtain m' vs' where
    e: "putVariable i v m (g_variableSpace g) = Some (m', vs')" "vs_inv m' vs'" "hasVariable vs' i" by blast
  obtain x where x: "m_vars m v = Some x" using v by auto
  have "vs_paired vs' j \<noteq> None" if "vs_paired (g_variableSpace g) j \<noteq> None" for j
  proof (cases "hasVariable (g_variableSpace g) i")
    case True
    then have "vs' = g_variableSpace g" using putVariable_again [OF inv' x True] e(1) by auto
    with that show ?thesis by simp
  next
    case False
    then show ?thesis using putVariable_fresh [OF inv' x False] e(1) that by auto
  qed
  with e hasVariable_paired [OF e(2)] show ?thesis by (intro exI [of _ m'] exI [of _ vs']) (simp add: touched_mem)
qed

lemma putVariable_pair_touched:
  assumes inv: "vs_inv (g_mem g) (g_variableSpace g)"
  shows "\<exists>g'. put_new_pair j g = Some g' \<and> touched p g g' \<and> vs_paired (g_variableSpace g') j \<noteq> None"
proof -
  let ?m = "snd (alloc_var (Variable_new None '''') (g_mem g))"
  have inv': "vs_inv ?m (g_variableSpace g)"
    by (rule vs_inv_mono [OF inv]) (simp add: alloc_var_def)
  have "m_vars ?m (m_next (g_mem g)) \<noteq> None" by (simp add: alloc_var_def)
  from putVariable_pair_total [OF inv' this, of j] obtain m' vs' where
    e: "putVariable_pair j (m_next (g_mem g)) ?m (g_variableSpace g) = Some (m', vs')" "vs_inv m' vs'"
      "vs_paired vs' j = Some (m_next (g_mem g))" "\<forall>q. q \<noteq> j \<longrightarrow> vs_paired vs' q = vs_paired (g_variableSpace g) q" by blast
  have "put_new_pair j g = Some (g\<lparr>g_mem := m', g_variableSpace := vs'\<rparr>)"
    using e(1) by (simp add: put_new_pair_def on_space_def alloc_var_def)
  moreover have "vs_paired vs' i \<noteq> None" if "vs_paired (g_variableSpace g) i \<noteq> None" for i
  proof (cases "i = j")
    case False
    then have "vs_paired vs' i = vs_paired (g_variableSpace g) i" using e(4) by blast
    with that show ?thesis by simp
  qed (use e(3) in simp)
  then have "touched p g (g\<lparr>g_mem := m', g_variableSpace := vs'\<rparr>)" using touched_mem [OF e(2)] by blast
  ultimately show ?thesis using e(3) by (intro exI conjI) auto
qed

lemma deep_variables_touched:
  assumes "vs_inv (g_mem g) (g_variableSpace g)"
  shows "\<exists>g'. deep_variables i e k g = Some g' \<and> touched p g g'
    \<and> (\<forall>x. e \<le> x \<and> x < e + k \<longrightarrow> vs_paired (g_variableSpace g') (i, int x) \<noteq> None)"
  using assms
proof (induction k arbitrary: e g)
  case 0
  then show ?case using touched_fields(4) [of g p "[]"] by auto
next
  case (Suc k)
  from putVariable_pair_touched [OF Suc.prems] obtain g1 where
    g1: "put_new_pair (i, int e) g = Some g1" "touched p g g1" "vs_paired (g_variableSpace g1) (i, int e) \<noteq> None" by blast
  from Suc.IH [OF touchedD(1) [OF g1(2)], of "Suc e"] obtain g2 where
    g2: "deep_variables i (Suc e) k g1 = Some g2" "touched p g1 g2"
      "\<forall>x. Suc e \<le> x \<and> x < Suc e + k \<longrightarrow> vs_paired (g_variableSpace g2) (i, int x) \<noteq> None" by blast
  have "vs_paired (g_variableSpace g2) (i, int e) \<noteq> None" by (rule touchedD(4) [OF g2(2) g1(3)])
  then have "vs_paired (g_variableSpace g2) (i, int x) \<noteq> None" if "e \<le> x \<and> x < e + Suc k" for x
    using g2(3) that by (cases "x = e") simp_all
  with touched_trans [OF g1(2) g2(2)] g1(1) g2(1) show ?case by simp
qed

lemma fill_block_touched:
  assumes "vs_inv (g_mem g) (g_variableSpace g)" "g_objs g p = Some n"
  shows "\<exists>g'. fill_block p g = Some g' \<and> touched p g g'"
proof -
  have t: "touched p g (g\<lparr>g_objs := (g_objs g)(p \<mapsto> n')\<rparr>)" if "same_kind n n'" for n'
    using assms that by (simp add: touched_def)
  have s: "g\<lparr>g_variableSpace := g_variableSpace g, g_objs := f\<rparr> = g\<lparr>g_objs := f\<rparr>" for f by simp
  show ?thesis
  proof (cases "hasCustomOp n")
    case False
    then show ?thesis using assms touched_fields(4) [OF assms(1), of p "[]"] by (simp add: fill_block_def)
  next
    case True
    define b where "b = (case n_block n of None \<Rightarrow> Block_new None (n_id n) True | Some b \<Rightarrow> b)"
    have "\<exists>c. fill_block p g = Some (g\<lparr>g_objs := (g_objs g)(p \<mapsto> setBlock (Some c) n)\<rparr>)"
      unfolding fill_block_def assms(2) bind.bind_lunit Let_def b_def [symmetric]
      using True by (cases "hasVariablesFilled b") (auto simp: look_up_inputs_exact [OF assms(1)])
    then show ?thesis using t by fastforce
  qed
qed

lemma auto_output_touched:
  assumes inv: "vs_inv (g_mem g) (g_variableSpace g)" and n: "g_objs g p = Some n"
  shows "\<exists>g'. auto_output p g = Some g' \<and> touched p g g' \<and> vs_paired (g_variableSpace g') (n_id n, 0) \<noteq> None"
proof -
  let ?vs = "g_variableSpace g"
  have "\<exists>v m. (if \<not> hasVariable ?vs (n_id n)
        then let (v, m) = alloc_var (Variable_new None '''') (g_mem g) in Some (v, g\<lparr>g_mem := m\<rparr>)
        else do {
          (r, vs) \<leftarrow> getVariable (n_id n) ?vs;
          v \<leftarrow> r;
          Some (v, g\<lparr>g_variableSpace := vs\<rparr>) }) = Some (v, g\<lparr>g_mem := m\<rparr>)
      \<and> m_vars m v \<noteq> None \<and> (\<forall>q. m_vars (g_mem g) q \<noteq> None \<longrightarrow> m_vars m q \<noteq> None)"
  proof (cases "hasVariable ?vs (n_id n)")
    case False
    then show ?thesis
      by (intro exI [of _ "m_next (g_mem g)"] exI [of _ "snd (alloc_var (Variable_new None '''') (g_mem g))"])
        (simp add: alloc_var_def)
  next
    case True
    from getVariable_present [OF inv True] obtain v where v: "getVariable (n_id n) ?vs = Some (Some v, ?vs)"
      "v \<in> set (vs_handles ?vs)" by blast
    then have "m_vars (g_mem g) v \<noteq> None" using inv by (simp add: vs_inv_def)
    with True v(1) show ?thesis by (intro exI [of _ v] exI [of _ "g_mem g"]) simp
  qed
  then obtain v m where 1: "(if \<not> hasVariable ?vs (n_id n)
        then let (v, m) = alloc_var (Variable_new None '''') (g_mem g) in Some (v, g\<lparr>g_mem := m\<rparr>)
        else do {
          (r, vs) \<leftarrow> getVariable (n_id n) ?vs;
          v \<leftarrow> r;
          Some (v, g\<lparr>g_variableSpace := vs\<rparr>) }) = Some (v, g\<lparr>g_mem := m\<rparr>)"
    and v: "m_vars m v \<noteq> None" and m: "\<forall>q. m_vars (g_mem g) q \<noteq> None \<longrightarrow> m_vars m q \<noteq> None" by blast
  obtain x where x: "m_vars m v = Some x" using v by auto
  define m2 where "m2 = m\<lparr>m_vars := (m_vars m)(v \<mapsto> x\<lparr>v_id := n_id n, v_name := n_name n\<rparr>)\<rparr>"
  have 2: "Variable_setId v (n_id n) m = Some (m\<lparr>m_vars := (m_vars m)(v \<mapsto> x\<lparr>v_id := n_id n\<rparr>)\<rparr>)"
    "Variable_setName v (n_name n) (m\<lparr>m_vars := (m_vars m)(v \<mapsto> x\<lparr>v_id := n_id n\<rparr>)\<rparr>) = Some m2"
    using x by (simp_all add: Variable_setId_def Variable_setName_def upd_var_def m2_def)
  have m2: "\<forall>q. m_vars (g_mem g) q \<noteq> None \<longrightarrow> m_vars m2 q \<noteq> None" "m_vars m2 v \<noteq> None"
    using m by (simp_all add: m2_def)
  from putVariable_touched [OF inv m2] obtain m3 vs3 where
    3: "putVariable (n_id n) v m2 ?vs = Some (m3, vs3)" "touched p g (g\<lparr>g_mem := m3, g_variableSpace := vs3\<rparr>)"
      "vs_paired vs3 (n_id n, 0) \<noteq> None" by blast
  have 4: "on_space (putOutputVariable v) (g\<lparr>g_mem := m2\<rparr>) = Some (g\<lparr>g_mem := m3, g_variableSpace := vs3\<rparr>)"
    using 3(1) by (simp add: on_space_def putOutputVariable_def m2_def)
  let ?g3 = "g\<lparr>g_mem := m3, g_variableSpace := vs3\<rparr>"
  let ?g4 = "?g3\<lparr>g_objs := (g_objs ?g3)(p \<mapsto> pickExternalOutput (n_id n) n)\<rparr>"
  let ?g5 = "if ec_outputMode (g_configuration ?g4) \<in> {OutputMode_IMPLICIT, OutputMode_EXPLICIT_AND_IMPLICIT, OutputMode_VARIABLE_SPACE}
              then pushToOutputOnce (n_id n) ?g4 else ?g4"
  let ?g6 = "?g5\<lparr>g_autos := g_autos ?g5 @ [n_id n]\<rparr>"
  have i3: "vs_inv m3 vs3" using touchedD(1) [OF 3(2)] by simp
  have t4: "touched p ?g3 ?g4" using i3 n by (simp add: touched_def)
  have t5: "touched p ?g4 ?g5" using touched_fields(3,4) [of ?g4 p] touched_fields(4) [of ?g4 p "[]"] i3 by simp
  have t6: "touched p ?g5 ?g6" by (rule touched_fields(2)) (rule touchedD(1) [OF t5])
  have "auto_output p g = Some ?g6"
    unfolding auto_output_def n bind.bind_lunit 1 prod.case
    by (simp add: 2 4 Let_def)
  moreover have "touched p g ?g6" using touched_trans [OF touched_trans [OF touched_trans [OF 3(2) t4] t5] t6] .
  moreover have "vs_paired (g_variableSpace ?g6) (n_id n, 0) \<noteq> None"
    by (rule touchedD(4) [OF touched_trans [OF touched_trans [OF t4 t5] t6]]) (use 3(3) in simp)
  ultimately show ?thesis by blast
qed

text \<open>All of \<open>addNode\<close> but its last part.\<close>

definition addNode_declare :: "nat \<Rightarrow> ('a, 't) graph \<Rightarrow> ('a, 't) graph option" where
  "addNode_declare p g = do {
     n \<leftarrow> g_objs g p;
     let g = g\<lparr>g_built := False, g_handles := g_handles g @ [p]\<rparr>;
     g \<leftarrow> on_space (\<lambda>m vs. let (v, m) = alloc_var (Variable_new None (n_name n)) m in putVariable (n_id n) v m vs) g;
     g \<leftarrow> fill_block p g;
     g \<leftarrow> (case n_customOp n of
            Some op \<Rightarrow> deep_variables (n_id n) 1 (nat (od_numOutputs op - 1)) g
          | None \<Rightarrow> Some g);
     let g = (if ec_outputMode (g_configuration g) = OutputMode_VARIABLE_SPACE \<and> n_hasInternalOutputs n
              then pushToOutputOnce (n_id n) g else g);
     (if n_output n = [] \<or> n_output n = [0] then auto_output p g
      else if n_hasExternalOutputs n then Some (specific_output n g) else Some g) }"

lemma addNode_split: "addNode p g = Option.bind (addNode_declare p g) (addNode_place p)"
  by (auto simp: addNode_def addNode_declare_def Let_def bind_eq_None_conv split: Option.bind_split option.split)

lemma addNode_declare_touched:
  assumes inv: "vs_inv (g_mem g) (g_variableSpace g)" and n: "g_objs g p = Some n"
  shows "\<exists>g'. addNode_declare p g = Some g' \<and> touched p g g' \<and> vs_paired (g_variableSpace g') (n_id n, 0) \<noteq> None
    \<and> (\<forall>op x. n_customOp n = Some op \<longrightarrow> 1 \<le> x \<longrightarrow> x < od_numOutputs op \<longrightarrow>
         vs_paired (g_variableSpace g') (n_id n, x) \<noteq> None)"
proof -
  let ?g1 = "g\<lparr>g_built := False, g_handles := g_handles g @ [p]\<rparr>"
  note t1 = touched_fields(1) [OF inv, where p = p and b = False and hs = "g_handles g @ [p]"]
  let ?m = "snd (alloc_var (Variable_new None (n_name n)) (g_mem g))"
  have inv1: "vs_inv (g_mem ?g1) (g_variableSpace ?g1)" using inv by simp
  have m: "\<forall>q. m_vars (g_mem ?g1) q \<noteq> None \<longrightarrow> m_vars ?m q \<noteq> None" "m_vars ?m (m_next (g_mem g)) \<noteq> None"
    by (simp_all add: alloc_var_def)
  from putVariable_touched [OF inv1 m, of "n_id n" p] obtain m2 vs2 where
    2: "putVariable (n_id n) (m_next (g_mem g)) ?m (g_variableSpace g) = Some (m2, vs2)"
      "touched p ?g1 (?g1\<lparr>g_mem := m2, g_variableSpace := vs2\<rparr>)" "vs_paired vs2 (n_id n, 0) \<noteq> None" by auto
  let ?g2 = "?g1\<lparr>g_mem := m2, g_variableSpace := vs2\<rparr>"
  have e2: "on_space (\<lambda>m vs. let (v, m) = alloc_var (Variable_new None (n_name n)) m in putVariable (n_id n) v m vs) ?g1 = Some ?g2"
    using 2(1) by (simp add: on_space_def alloc_var_def)
  have "g_objs ?g2 p = Some n" using n by simp
  from fill_block_touched [OF touchedD(1) [OF 2(2)] this] obtain g3 where
    3: "fill_block p ?g2 = Some g3" "touched p ?g2 g3" by blast
  have "\<exists>g4. (case n_customOp n of
            Some op \<Rightarrow> deep_variables (n_id n) 1 (nat (od_numOutputs op - 1)) g3
          | None \<Rightarrow> Some g3) = Some g4 \<and> touched p g3 g4
     \<and> (\<forall>op x. n_customOp n = Some op \<longrightarrow> 1 \<le> x \<longrightarrow> x < od_numOutputs op \<longrightarrow>
         vs_paired (g_variableSpace g4) (n_id n, x) \<noteq> None)"
  proof (cases "n_customOp n")
    case None
    then show ?thesis using touched_fields(4) [OF touchedD(1) [OF 3(2)], of p "[]"] by auto
  next
    case (Some op)
    from deep_variables_touched [OF touchedD(1) [OF 3(2)], of "n_id n" 1 "nat (od_numOutputs op - 1)" p] obtain g4 where
      g4: "deep_variables (n_id n) 1 (nat (od_numOutputs op - 1)) g3 = Some g4" "touched p g3 g4"
        "\<forall>x. 1 \<le> x \<and> x < 1 + nat (od_numOutputs op - 1) \<longrightarrow> vs_paired (g_variableSpace g4) (n_id n, int x) \<noteq> None" by blast
    have "vs_paired (g_variableSpace g4) (n_id n, x) \<noteq> None" if "1 \<le> x" "x < od_numOutputs op" for x
    proof -
      have "1 \<le> nat x \<and> nat x < 1 + nat (od_numOutputs op - 1)" "int (nat x) = x" using that by arith+
      with g4(3) show ?thesis by metis
    qed
    with g4(1,2) Some show ?thesis by (intro exI [of _ g4]) simp
  qed
  then obtain g4 where 4: "(case n_customOp n of
            Some op \<Rightarrow> deep_variables (n_id n) 1 (nat (od_numOutputs op - 1)) g3
          | None \<Rightarrow> Some g3) = Some g4" "touched p g3 g4"
     "\<forall>op x. n_customOp n = Some op \<longrightarrow> 1 \<le> x \<longrightarrow> x < od_numOutputs op \<longrightarrow>
         vs_paired (g_variableSpace g4) (n_id n, x) \<noteq> None" by blast
  define g5 where "g5 = (if ec_outputMode (g_configuration g4) = OutputMode_VARIABLE_SPACE \<and> n_hasInternalOutputs n
              then pushToOutputOnce (n_id n) g4 else g4)"
  note i4 = touchedD(1) [OF 4(2)]
  have t5: "touched p g4 g5"
    unfolding g5_def using touched_fields(3) [OF i4] touched_fields(4) [OF i4, of p "[]"] by simp
  note i5 = touchedD(1) [OF t5]
  note t25 = touched_trans [OF 3(2) touched_trans [OF 4(2) t5]]
  obtain n5 where n5: "g_objs g5 p = Some n5" "same_kind n n5"
    using touchedD(2) [OF t25 \<open>g_objs ?g2 p = Some n\<close>] by blast
  have "\<exists>g6. (if n_output n = [] \<or> n_output n = [0] then auto_output p g5
      else if n_hasExternalOutputs n then Some (specific_output n g5) else Some g5) = Some g6 \<and> touched p g5 g6"
  proof (cases "n_output n = [] \<or> n_output n = [0]")
    case True
    then show ?thesis using auto_output_touched [OF i5 n5(1)] by auto
  next
    case False
    have "touched p g5 (specific_output n g5)"
      by (rule touched_specific [OF i5])
    then show ?thesis using False touched_fields(4) [OF i5, of p "[]"] by simp
  qed
  then obtain g6 where 6: "(if n_output n = [] \<or> n_output n = [0] then auto_output p g5
      else if n_hasExternalOutputs n then Some (specific_output n g5) else Some g5) = Some g6" "touched p g5 g6" by blast
  have "addNode_declare p g = Some g6"
    unfolding addNode_declare_def n bind.bind_lunit Let_def e2 [unfolded Let_def] 3(1) 4(1) g5_def [symmetric]
    by (rule 6(1))
  moreover have "touched p g g6" using touched_trans [OF t1 touched_trans [OF 2(2) touched_trans [OF t25 6(2)]]] .
  moreover have "vs_paired (g_variableSpace g6) (n_id n, 0) \<noteq> None"
    by (rule touchedD(4) [OF touched_trans [OF t25 6(2)]]) (use 2(3) in simp)
  moreover have "vs_paired (g_variableSpace g6) (n_id n, x) \<noteq> None"
    if "n_customOp n = Some op" "1 \<le> x" "x < od_numOutputs op" for op x
    by (rule touchedD(4) [OF touched_trans [OF t5 6(2)]]) (use 4(3) that in blast)
  ultimately show ?thesis by blast
qed

subsection \<open>The place of a new node\<close>

definition fresh_node :: "nat \<Rightarrow> 't node \<Rightarrow> ('a, 't) graph \<Rightarrow> bool" where
  "fresh_node p n g \<longleftrightarrow> g_objs g p = Some n \<and> sm_find (g_mapped g) (n_id n) = None \<and> sm_find (g_unmapped g) (n_id n) = None"

text \<open>An update of an object to which no map points.\<close>

lemma frame_wf:
  assumes wf: "build_wf g"
    and e: "g_mapped g' = g_mapped g" "g_onion g' = g_onion g" "g_unmapped g' = g_unmapped g"
    and o: "\<And>q. q \<noteq> p \<Longrightarrow> g_objs g' q = g_objs g q" and v: "vs_inv (g_mem g') (g_variableSpace g')"
    and m: "\<And>j. sm_find (g_mapped g) j \<noteq> Some p" and u: "\<And>j. sm_find (g_unmapped g) j \<noteq> Some p"
  shows "build_wf g'" "layer_of g' = layer_of g" "unmapped_node g' = unmapped_node g"
proof -
  note D = build_wfD [OF wf]
  have same: "g_objs g' q = g_objs g q" if "sm_find (g_mapped g) j = Some q \<or> sm_find (g_unmapped g) j = Some q" for j q
    using that o m u by metis
  have l: "q \<noteq> p" if "sm_find (g_onion g) j = Some ps" "q \<in> set ps" for j ps q using D(7) [OF that(1)] that(2) m by auto
  show "layer_of g' = layer_of g"
  proof
    fix i show "layer_of g' i = layer_of g i"
      using same [of i] by (cases "sm_find (g_mapped g) i") (auto simp: layer_of_def e)
  qed
  show "unmapped_node g' = unmapped_node g"
  proof (intro ext)
    fix i x show "unmapped_node g' i x = unmapped_node g i x"
      using same [of i] by (cases "sm_find (g_unmapped g) i") (auto simp: unmapped_node_def e)
  qed
  show "build_wf g'"
    unfolding build_wf_def e
  proof (intro conjI allI impI)
    fix i q assume "sm_find (g_mapped g) i = Some q"
    with D(5) same show "\<exists>n. g_objs g' q = Some n \<and> n_id n = i \<and> 0 \<le> n_layer n" by metis
  next
    fix i q assume q: "sm_find (g_unmapped g) i = Some q"
    with D(6) show "sm_find (g_mapped g) i = None" by blast
    have "g_objs g' q = g_objs g q" using same q by blast
    then show "\<exists>n. g_objs g' q = Some n \<and> n_id n = i" using D(6) [OF q] by simp
  next
    fix i ps assume ps: "sm_find (g_onion g) i = Some ps"
    then show "distinct ps" using D(7) by blast
    show "\<forall>q \<in> set ps. \<exists>n. g_objs g' q = Some n \<and> n_layer n = i \<and> sm_find (g_mapped g) (n_id n) = Some q"
      using D(7) [OF ps] o l [OF ps] by simp
  next
    fix i q x assume "sm_find (g_mapped g) i = Some q" "g_objs g' q = Some x"
    with D(8) same show "\<exists>ps. sm_find (g_onion g) (n_layer x) = Some ps \<and> q \<in> set ps" by metis
  qed (use D v in simp_all)
qed

lemma touched_wf:
  assumes wf: "build_wf g" and t: "touched p g g'" and n: "fresh_node p n g"
  shows "build_wf g'" "\<exists>n'. fresh_node p n' g' \<and> same_kind n n'" "layer_of g' = layer_of g"
    "unmapped_node g' = unmapped_node g" "g_onion g' = g_onion g"
proof -
  have f: "g_objs g p = Some n" "sm_find (g_mapped g) (n_id n) = None" "sm_find (g_unmapped g) (n_id n) = None"
    using n by (simp_all add: fresh_node_def)
  have e: "g_mapped g' = g_mapped g" "g_onion g' = g_onion g" "g_unmapped g' = g_unmapped g"
    and o: "\<And>q. q \<noteq> p \<Longrightarrow> g_objs g' q = g_objs g q" and v: "vs_inv (g_mem g') (g_variableSpace g')"
    using t by (simp_all add: touched_def)
  have m: "sm_find (g_mapped g) j \<noteq> Some p" for j using build_wfD(5) [OF wf, of j p] f by auto
  have u: "sm_find (g_unmapped g) j \<noteq> Some p" for j using build_wfD(6) [OF wf, of j p] f by auto
  show "build_wf g'" "layer_of g' = layer_of g" "unmapped_node g' = unmapped_node g"
    using frame_wf [OF wf e o v m u] by simp_all
  show "g_onion g' = g_onion g" by (rule e)
  show "\<exists>n'. fresh_node p n' g' \<and> same_kind n n'"
    using touchedD(2) [OF t f(1)] f by (auto simp: fresh_node_def same_kind_def e)
qed

text \<open>A new node that waits for \<open>buildGraph\<close>.\<close>

definition queued :: "nat \<Rightarrow> int \<Rightarrow> ('a, 't) graph \<Rightarrow> ('a, 't) graph" where
  "queued p i g = g\<lparr>g_unmapped := sm_insert i p (g_unmapped g)\<rparr>"

lemma queued_wf:
  assumes wf: "build_wf g" and n: "fresh_node p n g" "n_id n = i"
  shows "build_wf (queued p i g)" "layer_of (queued p i g) = layer_of g"
    "unmapped_node (queued p i g) j m \<longleftrightarrow> (if j = i then m = n else unmapped_node g j m)"
    "sm_find (g_unmapped (queued p i g)) = (sm_find (g_unmapped g))(i \<mapsto> p)"
proof -
  note D = build_wfD [OF wf]
  have f: "g_objs g p = Some n" "sm_find (g_mapped g) i = None" "sm_find (g_unmapped g) i = None"
    using n by (simp_all add: fresh_node_def)
  show u: "sm_find (g_unmapped (queued p i g)) = (sm_find (g_unmapped g))(i \<mapsto> p)"
    using f D(4) by (simp add: queued_def sm_laws)
  show "layer_of (queued p i g) = layer_of g" by (simp add: fun_eq_iff layer_of_def queued_def)
  show "unmapped_node (queued p i g) j m \<longleftrightarrow> (if j = i then m = n else unmapped_node g j m)"
    using f unfolding unmapped_node_def u by (auto simp: queued_def)
  show "build_wf (queued p i g)"
    unfolding build_wf_def u
  proof (intro conjI allI impI)
    fix j q assume "((sm_find (g_unmapped g))(i \<mapsto> p)) j = Some q"
    then have "j = i \<and> q = p \<or> sm_find (g_unmapped g) j = Some q" by (auto split: if_splits)
    then show "sm_find (g_mapped (queued p i g)) j = None" "\<exists>x. g_objs (queued p i g) q = Some x \<and> n_id x = j"
      using f n(2) D(6) [of j q] by (auto simp: queued_def)
  qed (use wf in \<open>simp_all add: build_wf_def queued_def\<close>)
qed

lemma place_new:
  assumes wf: "build_wf g" and n: "fresh_node p n g" "n_id n = i"
  shows "(do { g \<leftarrow> upd_node p (setLayer l) (if sm_find (g_onion g) l = None then expandOnion l g else g); place p i l g })
    = Some (placed p i l (setLayer l n) (queued p i g))"
proof -
  note D = build_wfD [OF wf]
  have f: "g_objs g p = Some n" "sm_find (g_unmapped g) i = None" using n by (simp_all add: fresh_node_def)
  define on where "on = (if sm_find (g_onion g) l = None then sm_insert l [] (g_onion g) else g_onion g)"
  have e: "(if sm_find (g_onion g) l = None then expandOnion l g else g) = g\<lparr>g_onion := on\<rparr>"
    by (simp add: on_def expandOnion_def)
  have ps: "sm_find on l = Some (case sm_find (g_onion g) l of None \<Rightarrow> [] | Some ps \<Rightarrow> ps)"
    using D(3) by (auto simp: on_def sm_laws split: option.split)
  have u: "sm_erase i (sm_insert i p (g_unmapped g)) = g_unmapped g"
    by (rule sm_erase_insert [OF D(4) f(2)])
  have r: "placed p i l (setLayer l n) (queued p i g) = g\<lparr>g_objs := (g_objs g)(p \<mapsto> setLayer l n),
      g_onion := sm_put l ((case sm_find (g_onion g) l of None \<Rightarrow> [] | Some ps \<Rightarrow> ps) @ [p]) on,
      g_mapped := sm_insert i p (g_mapped g)\<rparr>"
    by (intro graph.equality) (simp_all add: placed_def queued_def u on_def)
  show ?thesis
    unfolding e r using f(1) by (simp add: upd_node_def place_def ps)
qed

lemma addNode_place_exact:
  assumes wf: "build_wf g" and root: "sm_find (g_onion g) 0 \<noteq> None" and n: "fresh_node p n g" "n_id n = i"
  shows "(\<exists>l n'. addNode_place p g = Some (placed p i l n' (queued p i g)) \<and> n_id n' = i \<and> n_layer n' = l \<and> 0 \<le> l
        \<and> (n_hasExternalInputs n \<and> \<not> n_hasInternalInputs n \<and> l = 0
           \<or> n_hasInternalInputs n \<and> (\<exists>j o'. n_input n = [(j, o')] \<and> layer_of g j = Some (l - 1))))
    \<or> addNode_place p g = Some (queued p i g) \<and> \<not> (n_hasExternalInputs n \<and> \<not> n_hasInternalInputs n)"
proof -
  have f: "g_objs g p = Some n" using n by (simp add: fresh_node_def)
  consider "n_hasExternalInputs n \<and> \<not> n_hasInternalInputs n"
    | (parent) "n_hasInternalInputs n \<and> \<not> n_hasExternalInputs n \<and> length (n_input n) = 1
       \<and> sm_find (g_mapped g) (fst (n_input n ! 0)) \<noteq> None
       \<and> (n_output n = [] \<or> sm_find (g_mapped g) (n_output n ! 0) = None)"
    | (wait) "\<not> (n_hasExternalInputs n \<and> \<not> n_hasInternalInputs n)"
      "\<not> (n_hasInternalInputs n \<and> \<not> n_hasExternalInputs n \<and> length (n_input n) = 1
       \<and> sm_find (g_mapped g) (fst (n_input n ! 0)) \<noteq> None
       \<and> (n_output n = [] \<or> sm_find (g_mapped g) (n_output n ! 0) = None))"
    by argo
  then show ?thesis
  proof cases
    case 1
    have "addNode_place p g = Some (placed p i 0 (setLayer 0 n) (queued p i g))"
      using place_new [OF wf n, of 0] root 1 n(2) by (simp add: addNode_place_def f)
    then show ?thesis using 1 n(2)
      by (intro disjI1 exI [of _ 0] exI [of _ "setLayer 0 n"]) (simp add: setLayer_def)
  next
    case parent
    then obtain j o' where j: "n_input n = [(j, o')]" by (cases "n_input n") auto
    with parent obtain q where q: "sm_find (g_mapped g) j = Some q" by auto
    then obtain x where x: "g_objs g q = Some x" "layer_of g j = Some (n_layer x)" "0 \<le> n_layer x"
      using layer_of_mapped [OF wf] by blast
    have "addNode_place p g = Some (placed p i (n_layer x + 1) (setLayer (n_layer x + 1) n) (queued p i g))"
      using place_new [OF wf n, of "n_layer x + 1"] parent n(2) j q x(1)
      by (simp add: addNode_place_def f Let_def)
    moreover have "n_id (setLayer (n_layer x + 1) n) = i" "n_layer (setLayer (n_layer x + 1) n) = n_layer x + 1"
      "layer_of g j = Some (n_layer x + 1 - 1)" "0 \<le> n_layer x + 1"
      using n(2) x by (simp_all add: setLayer_def)
    ultimately show ?thesis using parent j by blast
  next
    case wait
    then have "addNode_place p g = Some (queued p i g)"
      unfolding addNode_place_def f bind.bind_lunit n(2) by (simp only: if_False queued_def n(2))
    with wait(1) show ?thesis by blast
  qed
qed

text \<open>The effect of \<open>addNode\<close> on a well-formed graph.\<close>

lemma addNode_exact:
  assumes wf: "build_wf g" and root: "sm_find (g_onion g) 0 \<noteq> None" and n: "fresh_node p n g" "n_id n = i"
  shows "\<exists>g'. addNode p g = Some g' \<and> build_wf g' \<and> sm_find (g_onion g') 0 \<noteq> None
    \<and> g_next g' = g_next g \<and> g_configuration g' = g_configuration g
    \<and> (\<forall>q. q \<noteq> p \<longrightarrow> g_objs g' q = g_objs g q)
    \<and> (\<forall>j m. j \<noteq> i \<longrightarrow> unmapped_node g' j m = unmapped_node g j m)
    \<and> (\<forall>j. j \<noteq> i \<longrightarrow> layer_of g' j = layer_of g j)
    \<and> ((\<exists>l. layer_of g' i = Some l \<and> 0 \<le> l \<and> (\<forall>m. \<not> unmapped_node g' i m)
          \<and> (n_hasExternalInputs n \<and> \<not> n_hasInternalInputs n \<and> l = 0
             \<or> n_hasInternalInputs n \<and> (\<exists>j o'. n_input n = [(j, o')] \<and> layer_of g j = Some (l - 1))))
      \<or> layer_of g' i = None \<and> (\<exists>m. unmapped_node g' i m \<and> n_input m = n_input n)
          \<and> \<not> (n_hasExternalInputs n \<and> \<not> n_hasInternalInputs n))
    \<and> vs_paired (g_variableSpace g') (i, 0) \<noteq> None
    \<and> (\<forall>op x. n_customOp n = Some op \<longrightarrow> 1 \<le> x \<longrightarrow> x < od_numOutputs op \<longrightarrow> vs_paired (g_variableSpace g') (i, x) \<noteq> None)
    \<and> (\<forall>j. vs_paired (g_variableSpace g) j \<noteq> None \<longrightarrow> vs_paired (g_variableSpace g') j \<noteq> None)"
proof -
  have "g_objs g p = Some n" using n(1) by (simp add: fresh_node_def)
  from addNode_declare_touched [OF build_wfD(1) [OF wf] this] obtain g1 where
    g1: "addNode_declare p g = Some g1" "touched p g g1" "vs_paired (g_variableSpace g1) (i, 0) \<noteq> None"
      "\<forall>op x. n_customOp n = Some op \<longrightarrow> 1 \<le> x \<longrightarrow> x < od_numOutputs op \<longrightarrow> vs_paired (g_variableSpace g1) (i, x) \<noteq> None"
    unfolding n(2) by blast
  note W = touched_wf [OF wf g1(2) n(1)]
  obtain n1 where n1: "fresh_node p n1 g1" "same_kind n n1" using W(2) by blast
  then have k: "n_id n1 = i" "n_input n1 = n_input n" "n_hasExternalInputs n1 = n_hasExternalInputs n"
    "n_hasInternalInputs n1 = n_hasInternalInputs n" using n(2) by (simp_all add: same_kind_def)
  note Q = queued_wf [OF W(1) n1(1) k(1)]
  have keep: "vs_paired (g_variableSpace g) j \<noteq> None \<Longrightarrow> vs_paired (g_variableSpace g1) j \<noteq> None" for j
    by (rule touchedD(4) [OF g1(2)])
  have t: "g_next g1 = g_next g" "g_configuration g1 = g_configuration g" "\<And>q. q \<noteq> p \<Longrightarrow> g_objs g1 q = g_objs g q"
    using g1(2) by (simp_all add: touched_def)
  have q1: "sm_find (g_unmapped (queued p i g1)) i = Some p" by (simp add: Q(4))
  have "sm_find (g_onion g1) 0 \<noteq> None" using root W(5) by simp
  note place = addNode_place_exact [OF W(1) this n1(1) k(1), unfolded k W(3)]
  show ?thesis
  proof (cases "addNode_place p g1 = Some (queued p i g1) \<and> \<not> (n_hasExternalInputs n \<and> \<not> n_hasInternalInputs n)")
    case False
    with place obtain l n' where
      placed: "addNode_place p g1 = Some (placed p i l n' (queued p i g1))" "n_id n' = i" "n_layer n' = l" "0 \<le> l"
      "n_hasExternalInputs n \<and> \<not> n_hasInternalInputs n \<and> l = 0
           \<or> n_hasInternalInputs n \<and> (\<exists>j o'. n_input n = [(j, o')] \<and> layer_of g j = Some (l - 1))"
      by (auto simp only: simp_thms)
    let ?g = "placed p i l n' (queued p i g1)"
    note P = placed_wf [OF Q(1) q1 placed(2-4)]
    have on: "sm_find (g_onion ?g) 0 \<noteq> None"
      using placed_onion [of "queued p i g1" p i l n'] build_wfD(3) [OF Q(1)] root W(5) by (simp add: queued_def)
    have un: "unmapped_node ?g j m \<longleftrightarrow> j \<noteq> i \<and> unmapped_node g j m" for j m
      using unmapped_node_placed [OF Q(1) q1] Q(3) W(4) by simp
    have e: "addNode p g = Some ?g" using g1(1) placed(1) by (simp add: addNode_split)
    have l: "layer_of ?g = (layer_of g)(i \<mapsto> l)" using P(2) Q(2) W(3) by simp
    have same: "g_variableSpace ?g = g_variableSpace g1" "g_next ?g = g_next g" "g_configuration ?g = g_configuration g"
      "\<And>q. q \<noteq> p \<Longrightarrow> g_objs ?g q = g_objs g q"
      using t by (simp_all add: queued_def placed_def)
    show ?thesis
      by (intro exI [of _ ?g] conjI; (simp only: same)?) (use e P(1) on same un l placed(4,5) g1(3,4) keep in auto)
  next
    case queued: True
    let ?g = "queued p i g1"
    have e: "addNode p g = Some ?g" using g1(1) queued by (simp add: addNode_split)
    have same: "g_variableSpace ?g = g_variableSpace g1" "g_next ?g = g_next g" "g_configuration ?g = g_configuration g"
      "g_onion ?g = g_onion g" "\<And>q. q \<noteq> p \<Longrightarrow> g_objs ?g q = g_objs g q"
      using t W(5) by (simp_all add: queued_def)
    have l: "layer_of ?g = layer_of g" using Q(2) W(3) by simp
    have un: "unmapped_node ?g j m \<longleftrightarrow> (if j = i then m = n1 else unmapped_node g j m)" for j m
      using Q(3) W(4) by simp
    have "layer_of g i = None" using layer_of_None [OF wf, of i] n by (simp add: fresh_node_def)
    then show ?thesis
      by (intro exI [of _ ?g] conjI; (simp only: same)?) (use e Q(1) root same un l k(2) queued g1(3,4) keep in auto)
  qed
qed

end
