(* ===== verification/GraphConstruction.thy ===== *)
theory GraphConstruction
  imports GraphAdding
begin

text \<open>
  Graphs built from flat nodes: after the constructor every node either has its layer or waits for
  \<open>buildGraph\<close>, and the edges between nodes that have layers go upwards.
\<close>

subsection \<open>Flat nodes\<close>

definition paired :: "'t flat_node \<Rightarrow> bool" where "paired f \<longleftrightarrow> given (fn_inputPaired f) \<noteq> []"

definition flat_inputs :: "'t flat_node \<Rightarrow> (int \<times> int) list" where
  "flat_inputs f = (if paired f then given (fn_inputPaired f) else map (\<lambda>i. (i, 0)) (given (fn_input f)))"

definition known_op :: "(int \<Rightarrow> OpDescriptor option) \<Rightarrow> 't flat_node \<Rightarrow> bool" where
  "known_op registrator f \<longleftrightarrow> (fn_opType f = OpType_CUSTOM \<longrightarrow> registrator (fn_opNum f) \<noteq> None)"

lemma fold_pickInput_pair:
  "n_id (fold pickInput_pair is n) = n_id n" "n_input (fold pickInput_pair is n) = n_input n @ is"
  "n_hasInternalInputs (fold pickInput_pair is n) = n_hasInternalInputs n"
  "n_hasExternalInputs (fold pickInput_pair is n) = n_hasExternalInputs n"
  "n_customOp (fold pickInput_pair is n) = n_customOp n"
  by (induction "is" arbitrary: n) (simp_all add: pickInput_pair_def)

lemma fold_pickInput:
  "n_id (fold pickInput is n) = n_id n" "n_input (fold pickInput is n) = n_input n @ map (\<lambda>i. (i, 0)) is"
  "n_hasInternalInputs (fold pickInput is n) \<longleftrightarrow> n_hasInternalInputs n \<or> (\<exists>i \<in> set is. 0 \<le> i)"
  "n_hasExternalInputs (fold pickInput is n) \<longleftrightarrow> n_hasExternalInputs n \<or> (\<exists>i \<in> set is. i < 0)"
  "n_customOp (fold pickInput is n) = n_customOp n"
  by (induction "is" arbitrary: n) (auto simp: pickInput_def pickInput_pair_def Let_def)

lemma fold_pickOutput:
  "n_id (fold pickOutput is n) = n_id n" "n_input (fold pickOutput is n) = n_input n"
  "n_hasInternalInputs (fold pickOutput is n) = n_hasInternalInputs n"
  "n_hasExternalInputs (fold pickOutput is n) = n_hasExternalInputs n"
  "n_customOp (fold pickOutput is n) = n_customOp n"
  by (induction "is" arbitrary: n) (auto simp: pickOutput_def Let_def)

lemma classify_fields:
  "n_id (classify n) = n_id n" "n_input (classify n) = n_input n"
  "n_hasInternalInputs (classify n) = n_hasInternalInputs n" "n_hasExternalInputs (classify n) = n_hasExternalInputs n"
  "n_customOp (classify n) = n_customOp n"
  by (simp_all add: classify_def)

lemmas node_fields = fold_pickInput_pair fold_pickInput fold_pickOutput classify_fields

lemma Node_flat_known:
  assumes "known_op registrator f"
  shows "\<exists>n. Node_flat u registrator f = Some n \<and> n_id n = fn_id f \<and> n_input n = flat_inputs f
    \<and> (n_hasInternalInputs n \<longleftrightarrow> \<not> paired f \<and> (\<exists>j \<in> set (flat_inputs f). 0 \<le> fst j))
    \<and> (n_hasExternalInputs n \<longleftrightarrow> \<not> paired f \<and> (\<exists>j \<in> set (flat_inputs f). fst j < 0))
    \<and> n_customOp n = (if fn_opType f = OpType_CUSTOM then registrator (fn_opNum f) else None)"
proof (cases "fn_opType f = OpType_CUSTOM")
  case True
  then obtain op where "registrator (fn_opNum f) = Some op" using assms by (auto simp: known_op_def)
  with True show ?thesis
    by (cases "paired f") (simp_all add: Node_flat_def paired_def flat_inputs_def node_fields)
next
  case False
  then show ?thesis
    by (cases "paired f") (simp_all add: Node_flat_def paired_def flat_inputs_def node_fields)
qed

subsection \<open>The graph after its nodes were added\<close>

definition edges_up :: "('a, 't) graph \<Rightarrow> int \<Rightarrow> (int \<times> int) list \<Rightarrow> bool" where
  "edges_up g l inputs \<longleftrightarrow> (\<forall>j \<in> set inputs. 0 \<le> fst j \<longrightarrow> (\<exists>k. layer_of g (fst j) = Some k \<and> k < l))"

definition added :: "('a, 't) graph \<Rightarrow> 't flat_node \<Rightarrow> bool" where
  "added g f \<longleftrightarrow>
     (\<exists>l. layer_of g (fn_id f) = Some l \<and> 0 \<le> l \<and> edges_up g l (flat_inputs f) \<and> \<not> paired f
        \<and> (l = 0 \<and> flat_inputs f \<noteq> [] \<and> (\<forall>j \<in> set (flat_inputs f). fst j < 0)
           \<or> (\<exists>j o'. flat_inputs f = [(j, o')] \<and> 0 \<le> j \<and> layer_of g j = Some (l - 1)))
        \<and> (\<forall>m. \<not> unmapped_node g (fn_id f) m))
     \<or> layer_of g (fn_id f) = None \<and> (\<exists>m. unmapped_node g (fn_id f) m \<and> n_input m = flat_inputs f)
       \<and> (paired f \<or> (\<forall>j. flat_inputs f = [j] \<longrightarrow> 0 \<le> fst j))
       \<and> (paired f \<or> flat_inputs f = [] \<or> (\<exists>j \<in> set (flat_inputs f). 0 \<le> fst j))"

text \<open>Every output of a node has its variable: output 0 always, the others for a custom operation.\<close>

definition declared :: "(int \<Rightarrow> OpDescriptor option) \<Rightarrow> ('a, 't) graph \<Rightarrow> 't flat_node \<Rightarrow> bool" where
  "declared registrator g f \<longleftrightarrow> vs_paired (g_variableSpace g) (fn_id f, 0) \<noteq> None
     \<and> (\<forall>op x. fn_opType f = OpType_CUSTOM \<longrightarrow> registrator (fn_opNum f) = Some op \<longrightarrow> 1 \<le> x \<longrightarrow> x < od_numOutputs op \<longrightarrow>
          vs_paired (g_variableSpace g) (fn_id f, x) \<noteq> None)"

definition graph_of :: "(int \<Rightarrow> OpDescriptor option) \<Rightarrow> 't flat_node list \<Rightarrow> ('a, 't) graph \<Rightarrow> bool" where
  "graph_of registrator fs g \<longleftrightarrow> build_wf g \<and> sm_find (g_onion g) 0 \<noteq> None
     \<and> (\<forall>q. g_objs g q \<noteq> None \<longrightarrow> q < g_next g)
     \<and> (\<forall>j. (layer_of g j \<noteq> None \<or> (\<exists>m. unmapped_node g j m)) \<longleftrightarrow> j \<in> fn_id ` set fs)
     \<and> (\<forall>f \<in> set fs. added g f \<and> declared registrator g f)"

lemma alloc_node_wf:
  assumes wf: "build_wf g" and q: "\<forall>q. g_objs g q \<noteq> None \<longrightarrow> q < g_next g"
  shows "build_wf (snd (alloc_node n g))" "layer_of (snd (alloc_node n g)) = layer_of g"
    "unmapped_node (snd (alloc_node n g)) = unmapped_node g"
proof -
  have "g_objs g (g_next g) = None" using q by blast
  then have "sm_find (g_mapped g) j \<noteq> Some (g_next g)" "sm_find (g_unmapped g) j \<noteq> Some (g_next g)" for j
    using build_wfD(5) [OF wf, of j "g_next g"] build_wfD(6) [OF wf, of j "g_next g"] by auto
  then show "build_wf (snd (alloc_node n g))" "layer_of (snd (alloc_node n g)) = layer_of g"
    "unmapped_node (snd (alloc_node n g)) = unmapped_node g"
    using frame_wf [OF wf, of "snd (alloc_node n g)" "g_next g"] build_wfD(1) [OF wf]
    by (simp_all add: alloc_node_def)
qed

lemma added_keeps:
  assumes "added g f" "fn_id f \<noteq> i"
    and l: "\<forall>j. j \<noteq> i \<longrightarrow> layer_of g' j = layer_of g j" and u: "\<forall>j m. j \<noteq> i \<longrightarrow> unmapped_node g' j m = unmapped_node g j m"
    and i: "layer_of g i = None"
  shows "added g' f"
proof -
  have "edges_up g' k inputs" if "edges_up g k inputs" for k inputs
    unfolding edges_up_def
  proof (intro ballI impI)
    fix j assume "j \<in> set inputs" "0 \<le> fst j"
    then obtain k' where k': "layer_of g (fst j) = Some k'" "k' < k" using \<open>edges_up g k inputs\<close> unfolding edges_up_def by blast
    then have "fst j \<noteq> i" using i by auto
    with l k' show "\<exists>k'. layer_of g' (fst j) = Some k' \<and> k' < k" by simp
  qed
  moreover have "layer_of g' k = Some l'" if "layer_of g k = Some l'" for k l'
  proof -
    have "k \<noteq> i" using i that by auto
    with l that show ?thesis by simp
  qed
  moreover have "layer_of g' (fn_id f) = layer_of g (fn_id f)" "unmapped_node g' (fn_id f) m = unmapped_node g (fn_id f) m" for m
    using l u assms(2) by simp_all
  ultimately show ?thesis using assms(1) unfolding added_def by (elim disjE exE conjE) (simp_all, blast+)
qed

lemma add_one_flat:
  assumes g: "graph_of registrator fs g" and f: "known_op registrator f" "fn_id f \<notin> fn_id ` set fs"
  shows "\<exists>n g'. Node_flat u registrator f = Some n \<and> addNode (g_next g) (snd (alloc_node n g)) = Some g'
    \<and> graph_of registrator (fs @ [f]) g' \<and> g_configuration g' = g_configuration g"
proof -
  note G = g [unfolded graph_of_def]
  let ?p = "g_next g" and ?i = "fn_id f"
  from Node_flat_known [OF f(1)] obtain n where
    n: "Node_flat u registrator f = Some n" "n_id n = ?i" "n_input n = flat_inputs f"
    "n_hasInternalInputs n \<longleftrightarrow> \<not> paired f \<and> (\<exists>j \<in> set (flat_inputs f). 0 \<le> fst j)"
    "n_hasExternalInputs n \<longleftrightarrow> \<not> paired f \<and> (\<exists>j \<in> set (flat_inputs f). fst j < 0)"
    "n_customOp n = (if fn_opType f = OpType_CUSTOM then registrator (fn_opNum f) else None)" by blast
  define ga where "ga = snd (alloc_node n g)"
  have wf: "build_wf ga" and la: "layer_of ga = layer_of g" and ua: "unmapped_node ga = unmapped_node g"
    using alloc_node_wf [of g n] G unfolding ga_def by blast+
  have a: "sm_find (g_onion ga) 0 \<noteq> None" "g_objs ga ?p = Some n" "g_next ga = ?p + 1"
    "g_configuration ga = g_configuration g" "g_variableSpace ga = g_variableSpace g" "\<And>q. q \<noteq> ?p \<Longrightarrow> g_objs ga q = g_objs g q"
    using G by (simp_all add: ga_def alloc_node_def)
  have new: "layer_of g ?i = None" "\<not> unmapped_node g ?i m" for m using f(2) G by blast+
  have "sm_find (g_unmapped ga) ?i = None"
  proof (cases "sm_find (g_unmapped ga) ?i")
    case (Some q)
    then obtain m where "unmapped_node ga ?i m" using build_wfD(6) [OF wf Some] by (auto simp: unmapped_node_def)
    then show ?thesis using new(2) ua by simp
  qed
  then have fresh: "fresh_node ?p n ga"
    using a(2) new(1) layer_of_None [OF wf, of ?i] n(2) la by (simp add: fresh_node_def)
  from addNode_exact [OF wf a(1) fresh n(2)] obtain g' where
    g': "addNode ?p ga = Some g'" "build_wf g'" "sm_find (g_onion g') 0 \<noteq> None" "g_next g' = g_next ga"
      "g_configuration g' = g_configuration ga" "\<forall>q. q \<noteq> ?p \<longrightarrow> g_objs g' q = g_objs ga q"
      "\<forall>j m. j \<noteq> ?i \<longrightarrow> unmapped_node g' j m = unmapped_node ga j m"
      "\<forall>j. j \<noteq> ?i \<longrightarrow> layer_of g' j = layer_of ga j"
    and pl: "(\<exists>l. layer_of g' ?i = Some l \<and> 0 \<le> l \<and> (\<forall>m. \<not> unmapped_node g' ?i m)
          \<and> (n_hasExternalInputs n \<and> \<not> n_hasInternalInputs n \<and> l = 0
             \<or> n_hasInternalInputs n \<and> (\<exists>j o'. n_input n = [(j, o')] \<and> layer_of ga j = Some (l - 1))))
      \<or> layer_of g' ?i = None \<and> (\<exists>m. unmapped_node g' ?i m \<and> n_input m = n_input n)
          \<and> \<not> (n_hasExternalInputs n \<and> \<not> n_hasInternalInputs n)"
    and vs: "vs_paired (g_variableSpace g') (?i, 0) \<noteq> None"
      "\<forall>op x. n_customOp n = Some op \<longrightarrow> 1 \<le> x \<longrightarrow> x < od_numOutputs op \<longrightarrow> vs_paired (g_variableSpace g') (?i, x) \<noteq> None"
      "\<forall>j. vs_paired (g_variableSpace ga) j \<noteq> None \<longrightarrow> vs_paired (g_variableSpace g') j \<noteq> None"
    by (elim exE conjE) rule
  have "added g' f"
  proof (cases "layer_of g' ?i")
    case None
    then have "\<exists>m. unmapped_node g' ?i m \<and> n_input m = n_input n" "\<not> (n_hasExternalInputs n \<and> \<not> n_hasInternalInputs n)"
      using pl by auto
    moreover from this(2) have "paired f \<or> flat_inputs f = [] \<or> (\<exists>j \<in> set (flat_inputs f). 0 \<le> fst j)"
      unfolding n(4,5) by (metis list.set_sel(1) not_less)
    ultimately show ?thesis using None n(3) unfolding added_def by auto
  next
    case (Some l)
    then have l: "0 \<le> l" "\<forall>m. \<not> unmapped_node g' ?i m"
      "n_hasExternalInputs n \<and> \<not> n_hasInternalInputs n \<and> l = 0
             \<or> n_hasInternalInputs n \<and> (\<exists>j o'. n_input n = [(j, o')] \<and> layer_of ga j = Some (l - 1))" using pl by auto
    have "edges_up g' l (flat_inputs f)"
      unfolding edges_up_def
    proof (intro ballI impI)
      fix j assume j: "j \<in> set (flat_inputs f)" "0 \<le> fst j"
      with l(3) n obtain j' o' where j': "flat_inputs f = [(j', o')]" "layer_of g j' = Some (l - 1)"
        unfolding la by auto
      then have "j' \<noteq> ?i" "fst j = j'" using new(1) j by auto
      then show "\<exists>k. layer_of g' (fst j) = Some k \<and> k < l" using g'(8) la j'(2) by simp
    qed
    moreover have np: "\<not> paired f" using l(3) n(4,5) by blast
    moreover have "l = 0 \<and> flat_inputs f \<noteq> [] \<and> (\<forall>j \<in> set (flat_inputs f). fst j < 0)
           \<or> (\<exists>j o'. flat_inputs f = [(j, o')] \<and> 0 \<le> j \<and> layer_of g' j = Some (l - 1))"
      using l(3)
    proof (elim disjE conjE exE)
      assume "n_hasExternalInputs n" "\<not> n_hasInternalInputs n" "l = 0"
      then show ?thesis using np n(4,5) by force
    next
      fix j o' assume j: "n_hasInternalInputs n" "n_input n = [(j, o')]" "layer_of ga j = Some (l - 1)"
      then have "0 \<le> j" "j \<noteq> ?i" using n(3,4) new(1) la by auto
      then show ?thesis using j(2,3) n(3) g'(8) by simp
    qed
    ultimately show ?thesis using Some l(1,2) unfolding added_def by blast
  qed
  moreover have "declared registrator g' f" using vs(1,2) n(6) by (auto simp: declared_def)
  moreover have "added g' f0 \<and> declared registrator g' f0" if "f0 \<in> set fs" for f0
  proof
    have a0: "added g f0" "declared registrator g f0" using G that by blast+
    have "fn_id f0 \<in> fn_id ` set fs" using that by (rule imageI)
    then have "fn_id f0 \<noteq> ?i" using f(2) by metis
    then show "added g' f0" using added_keeps [OF a0(1) _ _ _ new(1)] g'(7,8) la ua by simp
    show "declared registrator g' f0" using a0(2) vs(3) unfolding declared_def a(5) by blast
  qed
  moreover have "(layer_of g' j \<noteq> None \<or> (\<exists>m. unmapped_node g' j m)) \<longleftrightarrow> j \<in> fn_id ` set (fs @ [f])" for j
  proof (cases "j = ?i")
    case True
    then show ?thesis using pl by auto
  next
    case False
    then show ?thesis using g'(7,8) la ua G by simp
  qed
  moreover have "q < g_next g'" if "g_objs g' q \<noteq> None" for q
  proof (cases "q = ?p")
    case False
    then have "q < g_next g" using that g'(6) a(6) G by metis
    then show ?thesis using g'(4) a(3) by simp
  qed (simp add: g'(4) a(3))
  ultimately have "graph_of registrator (fs @ [f]) g'"
    unfolding graph_of_def using g'(2,3) by (auto simp del: split_paired_Ex)
  moreover have "g_configuration g' = g_configuration g" using g'(5) a(4) by simp
  ultimately show ?thesis using n(1) g'(1) unfolding ga_def by blast
qed

lemma add_flat_nodes_exact:
  assumes "graph_of registrator fs g" "\<forall>f \<in> set gs. known_op registrator f" "distinct (map fn_id (fs @ gs))"
  shows "\<exists>g'. add_flat_nodes u registrator gs g = Some g' \<and> graph_of registrator (fs @ gs) g'
    \<and> g_configuration g' = g_configuration g"
  using assms
proof (induction gs arbitrary: fs g)
  case (Cons f gs)
  have "known_op registrator f" "fn_id f \<notin> fn_id ` set fs" using Cons.prems(2,3) by auto
  from add_one_flat [OF Cons.prems(1) this, of u] obtain n g1 where
    g1: "Node_flat u registrator f = Some n" "addNode (g_next g) (snd (alloc_node n g)) = Some g1"
      "graph_of registrator (fs @ [f]) g1" "g_configuration g1 = g_configuration g" by blast
  from Cons.IH [OF g1(3)] Cons.prems(2,3) obtain g2 where
    "add_flat_nodes u registrator gs g1 = Some g2" "graph_of registrator (fs @ f # gs) g2"
      "g_configuration g2 = g_configuration g1" by auto
  with g1 show ?case by (auto simp: alloc_node_def)
qed simp

subsection \<open>The constructor\<close>

lemma graph_of_empty: "graph_of registrator [] (Graph_empty conf)"
  by (auto simp: graph_of_def Graph_empty_def expandOnion_def build_wf_def vs_inv_new layer_of_def unmapped_node_def
      sm_wf_def split: if_splits)

lemma graph_of_space:
  assumes "graph_of registrator [] g" "vs_inv m vs"
  shows "graph_of registrator [] (g\<lparr>g_mem := m, g_variableSpace := vs, g_output := os\<rparr>)"
proof -
  let ?g = "g\<lparr>g_mem := m, g_variableSpace := vs, g_output := os\<rparr>"
  have wf: "build_wf g" and q: "\<forall>q. g_objs g q \<noteq> None \<longrightarrow> q < g_next g" using assms(1) by (simp_all add: graph_of_def)
  have "g_objs g (g_next g) = None" using q by blast
  then have "sm_find (g_mapped g) j \<noteq> Some (g_next g)" "sm_find (g_unmapped g) j \<noteq> Some (g_next g)" for j
    using build_wfD(5) [OF wf, of j "g_next g"] build_wfD(6) [OF wf, of j "g_next g"] by auto
  then have "build_wf ?g" "layer_of ?g = layer_of g" "unmapped_node ?g = unmapped_node g"
    using frame_wf [OF wf, of ?g "g_next g"] assms(2) by simp_all
  with assms(1) show ?thesis by (simp add: graph_of_def)
qed

lemma pushToOutputOnce_shape: "\<exists>os. pushToOutputOnce i g = g\<lparr>g_output := os\<rparr>"
  by (cases "i \<in> set (g_output g)") (auto simp: pushToOutputOnce_def intro: exI [of _ "g_output g"])

definition variable_known :: "('a, 't) graph \<Rightarrow> int \<Rightarrow> bool" where
  "variable_known g i \<longleftrightarrow> hasVariable (g_variableSpace g) i"

lemma put_flat_variables_exact:
  assumes "graph_of registrator [] g"
  shows "\<exists>g'. put_flat_variables xs g = Some g' \<and> graph_of registrator [] g' \<and> g_configuration g' = g_configuration g
    \<and> (\<forall>i. variable_known g i \<or> i \<in> (\<lambda>x. v_id (fst x)) ` set xs \<longrightarrow> variable_known g' i)"
  using assms
proof (induction xs arbitrary: g)
  case (Cons xa xs)
  obtain x a where xa: "xa = (x, a)" by (cases xa)
  have inv: "vs_inv (g_mem g) (g_variableSpace g)" using Cons.prems by (simp add: graph_of_def build_wf_def)
  obtain pa m1 where a1: "alloc_arr a (g_mem g) = (pa, m1)" by (cases "alloc_arr a (g_mem g)")
  obtain p m2 where a2: "alloc_var (x\<lparr>v_ndarray := Some pa\<rparr>) m1 = (p, m2)" by (cases "alloc_var (x\<lparr>v_ndarray := Some pa\<rparr>) m1")
  have m2: "\<forall>q. m_vars (g_mem g) q \<noteq> None \<longrightarrow> m_vars m2 q \<noteq> None" "m_vars m2 p \<noteq> None"
    using a1 a2 by (auto simp: alloc_arr_def alloc_var_def)
  from putVariable_touched [OF inv m2, of "v_id x" 0] obtain m3 vs3 where
    3: "putVariable (v_id x) p m2 (g_variableSpace g) = Some (m3, vs3)"
      "touched 0 g (g\<lparr>g_mem := m3, g_variableSpace := vs3\<rparr>)" "vs_paired vs3 (v_id x, 0) \<noteq> None" by blast
  let ?g3 = "g\<lparr>g_mem := m3, g_variableSpace := vs3\<rparr>"
  have i3: "vs_inv m3 vs3" using touchedD(1) [OF 3(2)] by simp
  have e: "on_space (putVariable (v_id x) p) (g\<lparr>g_mem := m2\<rparr>) = Some ?g3" using 3(1) by (simp add: on_space_def)
  obtain os where os: "(if ec_outputMode (g_configuration ?g3) = OutputMode_VARIABLE_SPACE then pushToOutputOnce (v_id x) ?g3 else ?g3)
      = g\<lparr>g_mem := m3, g_variableSpace := vs3, g_output := os\<rparr>"
  proof (cases "ec_outputMode (g_configuration ?g3) = OutputMode_VARIABLE_SPACE")
    case True
    then show ?thesis using pushToOutputOnce_shape [of "v_id x" ?g3] that by auto
  qed (use that [of "g_output g"] in simp)
  let ?g4 = "g\<lparr>g_mem := m3, g_variableSpace := vs3, g_output := os\<rparr>"
  have step: "put_flat_variables (xa # xs) g = put_flat_variables xs ?g4"
    unfolding xa put_flat_variables.simps a1 Let_def prod.case a2 e bind.bind_lunit by (simp only: os)
  from Cons.IH [OF graph_of_space [OF Cons.prems i3, of os]] obtain g' where
    g': "put_flat_variables xs ?g4 = Some g'" "graph_of registrator [] g'" "g_configuration g' = g_configuration ?g4"
      "\<forall>i. variable_known ?g4 i \<or> i \<in> (\<lambda>x. v_id (fst x)) ` set xs \<longrightarrow> variable_known g' i" by (elim exE conjE) rule
  have "variable_known ?g4 i" if "variable_known g i \<or> i = v_id x" for i
    using that touchedD(4) [OF 3(2), of "(i, 0)"] 3(3) hasVariable_paired [OF inv, of i] hasVariable_paired [OF i3, of i]
    by (auto simp: variable_known_def)
  then have "\<forall>i. variable_known g i \<or> i \<in> (\<lambda>x. v_id (fst x)) ` set (xa # xs) \<longrightarrow> variable_known g' i"
    using g'(4) unfolding xa by auto
  with step g'(1-3) show ?case by auto
qed simp

lemma push_flat_outputs_exact:
  assumes "graph_of registrator [] g" "\<forall>i \<in> set outs. variable_known g i"
  shows "\<exists>g'. push_flat_outputs outs g = Some g' \<and> graph_of registrator [] g' \<and> g_configuration g' = g_configuration g"
  using assms
proof (induction outs arbitrary: g)
  case (Cons i outs)
  obtain os where os: "pushToOutputOnce i g = g\<lparr>g_output := os\<rparr>" using pushToOutputOnce_shape by blast
  have "vs_inv (g_mem g) (g_variableSpace g)" using Cons.prems(1) by (simp add: graph_of_def build_wf_def)
  from graph_of_space [OF Cons.prems(1) this, of os]
  have "graph_of registrator [] (g\<lparr>g_output := os\<rparr>)" by simp
  from Cons.IH [OF this] Cons.prems(2) show ?case by (simp add: os variable_known_def)
qed simp

lemma Graph_new_exact:
  fixes flat :: "('a, 't) flat_graph"
  assumes "\<forall>f \<in> set (fg_nodes flat). known_op registrator f" "distinct (map fn_id (fg_nodes flat))"
    and "set (fg_outputs flat) \<subseteq> (\<lambda>x. v_id (fst x)) ` set (fg_variables flat)"
  shows "\<exists>g. Graph_new u registrator (Some flat) = Some g \<and> graph_of registrator (fg_nodes flat) g
    \<and> g_configuration g = ExecutorConfiguration_new (fg_configuration flat)"
proof -
  let ?c = "ExecutorConfiguration_new (fg_configuration flat)"
  have c: "g_configuration (Graph_empty (fg_configuration flat) :: ('a, 't) graph) = ?c" by (simp add: Graph_empty_def expandOnion_def)
  from put_flat_variables_exact [OF graph_of_empty [where conf = "fg_configuration flat" and registrator = registrator], of "fg_variables flat"] obtain g1 where
    1: "put_flat_variables (fg_variables flat) (Graph_empty (fg_configuration flat)) = Some g1"
      "graph_of registrator [] (g1 :: ('a, 't) graph)"
      "g_configuration g1 = g_configuration (Graph_empty (fg_configuration flat) :: ('a, 't) graph)"
      "\<forall>i. variable_known (Graph_empty (fg_configuration flat) :: ('a, 't) graph) i
         \<or> i \<in> (\<lambda>x. v_id (fst x)) ` set (fg_variables flat) \<longrightarrow> variable_known g1 i"
    by (elim exE conjE) rule
  note c1 = 1(3) [unfolded c]
  have "\<exists>g2. (if ec_outputMode (g_configuration g1) \<in> {OutputMode_EXPLICIT, OutputMode_EXPLICIT_AND_IMPLICIT}
               then push_flat_outputs (fg_outputs flat) g1 else Some g1) = Some g2
      \<and> graph_of registrator [] g2 \<and> g_configuration g2 = ?c"
  proof -
    have "\<forall>i \<in> set (fg_outputs flat). variable_known g1 i" using 1(4) assms(3) by blast
    from push_flat_outputs_exact [OF 1(2) this] 1(2) c1 show ?thesis by auto
  qed
  then obtain g2 where 2: "(if ec_outputMode (g_configuration g1) \<in> {OutputMode_EXPLICIT, OutputMode_EXPLICIT_AND_IMPLICIT}
               then push_flat_outputs (fg_outputs flat) g1 else Some g1) = Some g2"
      "graph_of registrator [] g2" "g_configuration g2 = ?c" by blast
  from add_flat_nodes_exact [OF 2(2) assms(1), of u] assms(2) obtain g3 where
    3: "add_flat_nodes u registrator (fg_nodes flat) g2 = Some g3" "graph_of registrator (fg_nodes flat) g3"
      "g_configuration g3 = ?c" using 2(3) by auto
  have "Graph_new u registrator (Some flat) = Some g3"
    unfolding Graph_new_def option.case 1(1) bind.bind_lunit 2(1) by (rule 3(1))
  with 3 show ?thesis by blast
qed

subsection \<open>Building the graph\<close>

text \<open>
  The nodes are given in an order of ids that respects the edges: every internal input is a node with
  a smaller id.
\<close>

definition ordered_inputs :: "'t flat_node list \<Rightarrow> bool" where
  "ordered_inputs fs \<longleftrightarrow> (\<forall>f \<in> set fs. \<forall>j \<in> set (flat_inputs f).
     if 0 \<le> fst j then fst j \<in> fn_id ` set fs \<and> fst j < fn_id f
     else fst j \<notin> fn_id ` set fs \<and> \<not> (paired f \<and> length (flat_inputs f) = 1))"

lemma ordered_inputsD:
  assumes "ordered_inputs fs" "f \<in> set fs" "j \<in> set (flat_inputs f)"
  shows "0 \<le> fst j \<Longrightarrow> fst j \<in> fn_id ` set fs \<and> fst j < fn_id f"
    and "fst j < 0 \<Longrightarrow> fst j \<notin> fn_id ` set fs \<and> \<not> (paired f \<and> length (flat_inputs f) = 1)"
proof -
  have "if 0 \<le> fst j then fst j \<in> fn_id ` set fs \<and> fst j < fn_id f
     else fst j \<notin> fn_id ` set fs \<and> \<not> (paired f \<and> length (flat_inputs f) = 1)"
    using assms unfolding ordered_inputs_def by blast
  then show "0 \<le> fst j \<Longrightarrow> fst j \<in> fn_id ` set fs \<and> fst j < fn_id f"
    "fst j < 0 \<Longrightarrow> fst j \<notin> fn_id ` set fs \<and> \<not> (paired f \<and> length (flat_inputs f) = 1)"
    by (auto split: if_splits)
qed

lemma unmapped_node_unique: "unmapped_node g i m \<Longrightarrow> unmapped_node g i m' \<Longrightarrow> m = m'"
  by (auto simp: unmapped_node_def)

lemma graph_of_topological:
  assumes g: "graph_of registrator fs g" and o: "ordered_inputs fs"
  shows "topological g"
  unfolding topological_def
proof (intro allI impI)
  fix i n assume n: "unmapped_node g i n"
  note G = g [unfolded graph_of_def]
  have "i \<in> fn_id ` set fs" using n G by blast
  then obtain f where f: "f \<in> set fs" "fn_id f = i" by blast
  then have fa: "added g f" using G by blast
  with n f have inp: "n_input n = flat_inputs f" "paired f \<or> (\<forall>j. flat_inputs f = [j] \<longrightarrow> 0 \<le> fst j)"
    unfolding added_def using unmapped_node_unique by blast+
  have mem: "\<exists>m. unmapped_node g j m" if j: "sm_find (g_unmapped g) j \<noteq> None" for j
  proof -
    obtain q where "sm_find (g_unmapped g) j = Some q" using j by blast
    then show ?thesis using build_wfD(6) [of g j q] G by (auto simp: unmapped_node_def)
  qed
  have in_un: "layer_of g j \<noteq> None \<or> sm_find (g_unmapped g) j \<noteq> None" if "j \<in> fn_id ` set fs" for j
    using that G by (auto simp: unmapped_node_def)
  show "(\<forall>j \<in> set (n_input n). sm_find (g_unmapped g) (fst j) \<noteq> None \<longrightarrow> fst j < i)
     \<and> (length (n_input n) = 1 \<longrightarrow>
          layer_of g (fst (n_input n ! 0)) \<noteq> None \<or> sm_find (g_unmapped g) (fst (n_input n ! 0)) \<noteq> None)"
  proof (intro conjI ballI impI)
    fix j assume j: "j \<in> set (n_input n)" "sm_find (g_unmapped g) (fst j) \<noteq> None"
    have "(layer_of g (fst j) \<noteq> None \<or> (\<exists>m. unmapped_node g (fst j) m)) \<longleftrightarrow> fst j \<in> fn_id ` set fs" using G by blast
    then have "fst j \<in> fn_id ` set fs" using mem [OF j(2)] by simp
    moreover have "j \<in> set (flat_inputs f)" using j(1) inp(1) by simp
    ultimately show "fst j < i" using ordered_inputsD [OF o f(1), of j] f(2) by (cases "0 \<le> fst j") auto
  next
    assume one: "length (n_input n) = 1"
    then obtain j where j: "flat_inputs f = [j]" unfolding inp(1) by (cases "flat_inputs f") auto
    then have jm: "j \<in> set (flat_inputs f)" "length (flat_inputs f) = 1" by simp_all
    have "0 \<le> fst j"
    proof (cases "paired f")
      case True
      then have "\<not> fst j < 0" using ordered_inputsD(2) [OF o f(1) jm(1)] jm(2) by blast
      then show ?thesis by simp
    qed (use inp(2) j in blast)
    then have "fst j \<in> fn_id ` set fs" using ordered_inputsD(1) [OF o f(1) jm(1)] by blast
    then show "layer_of g (fst (n_input n ! 0)) \<noteq> None \<or> sm_find (g_unmapped g) (fst (n_input n ! 0)) \<noteq> None"
      using in_un [of "fst j"] by (simp add: inp(1) j)
  qed
qed

text \<open>Building such a graph ends, with every node on a layer above those of its inputs.\<close>

lemma build_loop_layers:
  assumes g: "graph_of registrator fs g" and o: "ordered_inputs fs"
  shows "\<exists>g'. build_loop True g = Some g' \<and> build_wf g' \<and> g_unmapped g' = [] \<and> g_configuration g' = g_configuration g
    \<and> (\<forall>f \<in> set fs. \<exists>l. layer_of g' (fn_id f) = Some l \<and> 0 \<le> l \<and> edges_up g' l (flat_inputs f))"
proof -
  note G = g [unfolded graph_of_def]
  have wf: "build_wf g" using G by blast
  from build_loop_topological [OF wf graph_of_topological [OF g o]] obtain g' where
    g': "build_loop True g = Some g'" "build_wf g'" "g_unmapped g' = []" "g_configuration g' = g_configuration g"
    "\<forall>j. sm_find (g_unmapped g) j = None \<longrightarrow> layer_of g' j = layer_of g j"
    "\<forall>i n. unmapped_node g i n \<longrightarrow> layered g' i n" by blast
  have un: "sm_find (g_unmapped g) j = None" if "layer_of g j \<noteq> None" for j
  proof (cases "sm_find (g_unmapped g) j")
    case (Some q)
    then show ?thesis using build_wfD(6) [OF wf Some] layer_of_None [OF wf, of j] that by simp
  qed
  have keep: "layer_of g' j = Some l" if "layer_of g j = Some l" for j l
    using that g'(5) un [of j] by simp
  have all: "\<exists>l. layer_of g' j = Some l" if j: "j \<in> fn_id ` set fs" for j
  proof (cases "layer_of g j")
    case None
    then obtain m where "unmapped_node g j m" using G j by blast
    then show ?thesis using g'(6) unfolding layered_def by blast
  qed (use keep in blast)
  have "\<exists>l. layer_of g' (fn_id f) = Some l \<and> 0 \<le> l \<and> edges_up g' l (flat_inputs f)" if f: "f \<in> set fs" for f
  proof -
    have "added g f" using G f by blast
    then consider (mapped) l where "layer_of g (fn_id f) = Some l" "0 \<le> l" "edges_up g l (flat_inputs f)"
      | (waiting) m where "unmapped_node g (fn_id f) m" "n_input m = flat_inputs f"
      unfolding added_def by blast
    then show ?thesis
    proof cases
      case mapped
      have "edges_up g' l (flat_inputs f)" using mapped(3) keep unfolding edges_up_def by blast
      with mapped keep show ?thesis by blast
    next
      case waiting
      then obtain l where l: "layer_of g' (fn_id f) = Some l" "1 \<le> l"
        "\<forall>j \<in> set (n_input m). \<forall>k. layer_of g' (fst j) = Some k \<longrightarrow> k < l" using g'(6) unfolding layered_def by blast
      have "edges_up g' l (flat_inputs f)"
        unfolding edges_up_def
      proof (intro ballI impI)
        fix j assume j: "j \<in> set (flat_inputs f)" "0 \<le> fst j"
        then have "fst j \<in> fn_id ` set fs" using ordered_inputsD(1) [OF o f] by blast
        then obtain k where "layer_of g' (fst j) = Some k" using all by blast
        with l(3) j(1) waiting(2) show "\<exists>k. layer_of g' (fst j) = Some k \<and> k < l" by auto
      qed
      moreover have "0 \<le> l" using l(2) by simp
      ultimately show ?thesis using l(1) by blast
    qed
  qed
  with g' show ?thesis by blast
qed

end
