(* ===== verification/GraphProperties.thy ===== *)
theory GraphProperties
  imports GraphConstruction
begin

text \<open>
  The properties of \<open>include/graph/Graph.h\<close>: what the constructor and \<open>buildGraph\<close> guarantee, and
  when \<open>buildGraph\<close> does not return.
\<close>

subsection \<open>The list of outputs\<close>

lemma distinct_push [simp]: "distinct (g_output g) \<Longrightarrow> distinct (g_output (pushToOutputOnce i g))"
  by (simp add: pushToOutputOnce_def)

lemma distinct_pushes [simp]: "distinct (g_output g) \<Longrightarrow> distinct (g_output (fold pushToOutputOnce is g))"
  by (induction "is" arbitrary: g) simp_all

text \<open>Steps that do not touch the list of outputs.\<close>

lemma same_output:
  "on_space f g = Some g' \<Longrightarrow> g_output g' = g_output g"
  "upd_node p h g = Some g' \<Longrightarrow> g_output g' = g_output g"
  "place p i l g = Some g' \<Longrightarrow> g_output g' = g_output g"
  "injectNode p g = Some g' \<Longrightarrow> g_output g' = g_output g"
  "fill_block p g = Some g' \<Longrightarrow> g_output g' = g_output g"
  by (auto simp: on_space_def upd_node_def place_def injectNode_def fill_block_def Let_def bind_eq_Some_conv split: if_splits)

lemma same_configuration:
  "upd_node p h g = Some g' \<Longrightarrow> g_configuration g' = g_configuration g"
  "place p i l g = Some g' \<Longrightarrow> g_configuration g' = g_configuration g"
  "injectNode p g = Some g' \<Longrightarrow> g_configuration g' = g_configuration g"
  "fill_block p g = Some g' \<Longrightarrow> g_configuration g' = g_configuration g"
  by (auto simp: upd_node_def place_def injectNode_def fill_block_def Let_def bind_eq_Some_conv split: if_splits)

lemma deep_variables_output: "deep_variables i e k g = Some g' \<Longrightarrow> g_output g' = g_output g"
proof (induction k arbitrary: e g)
  case (Suc k)
  then obtain g1 where "put_new_pair (i, int e) g = Some g1" "deep_variables i (Suc e) k g1 = Some g'"
    by (auto simp: bind_eq_Some_conv)
  with Suc.IH [of "Suc e" g1] show ?case using same_output(1) unfolding put_new_pair_def by metis
qed simp

lemma addNode_place_output: "addNode_place p g = Some g' \<Longrightarrow> g_output g' = g_output g"
  by (auto simp: addNode_place_def bind_eq_Some_conv Let_def expandOnion_def dest!: same_output split: if_splits)

lemma auto_output_distinct: "auto_output p g = Some g' \<Longrightarrow> distinct (g_output g) \<Longrightarrow> distinct (g_output g')"
  by (auto simp: auto_output_def bind_eq_Some_conv Let_def dest!: same_output split: if_splits prod.splits)

lemma addNode_distinct:
  assumes "addNode p g = Some g'" "distinct (g_output g)"
  shows "distinct (g_output g')"
proof -
  obtain g1 where g1: "addNode_declare p g = Some g1" "addNode_place p g1 = Some g'"
    using assms(1) by (auto simp: addNode_split bind_eq_Some_conv)
  obtain n where n: "g_objs g p = Some n" using g1(1) by (auto simp: addNode_declare_def bind_eq_Some_conv)
  let ?g0 = "g\<lparr>g_built := False, g_handles := g_handles g @ [p]\<rparr>"
  obtain g2 g3 g4 where s: "on_space (\<lambda>m vs. let (v, m) = alloc_var (Variable_new None (n_name n)) m in putVariable (n_id n) v m vs) ?g0 = Some g2"
    "fill_block p g2 = Some g3"
    "(case n_customOp n of Some op \<Rightarrow> deep_variables (n_id n) 1 (nat (od_numOutputs op - 1)) g3 | None \<Rightarrow> Some g3) = Some g4"
    and e: "(let g = (if ec_outputMode (g_configuration g4) = OutputMode_VARIABLE_SPACE \<and> n_hasInternalOutputs n
              then pushToOutputOnce (n_id n) g4 else g4) in
       (if n_output n = [] \<or> n_output n = [0] then auto_output p g
        else if n_hasExternalOutputs n then Some (specific_output n g) else Some g)) = Some g1"
    using g1(1) n unfolding addNode_declare_def by (auto simp: bind_eq_Some_conv Let_def)
  have "g_output g2 = g_output g" using same_output(1) [OF s(1)] by simp
  moreover have "g_output g3 = g_output g2" by (rule same_output(5) [OF s(2)])
  moreover have "g_output g4 = g_output g3"
    using s(3) deep_variables_output by (cases "n_customOp n") auto
  ultimately have d: "distinct (g_output g4)" using assms(2) by simp
  define g5 where "g5 = (if ec_outputMode (g_configuration g4) = OutputMode_VARIABLE_SPACE \<and> n_hasInternalOutputs n
              then pushToOutputOnce (n_id n) g4 else g4)"
  have d5: "distinct (g_output g5)" using d by (simp add: g5_def)
  have "distinct (g_output g1)"
    using e d5 auto_output_distinct [of p g5 g1] unfolding g5_def [symmetric] Let_def
    by (auto simp: specific_output_def split: if_splits)
  then show ?thesis using addNode_place_output [OF g1(2)] by simp
qed

lemma add_flat_nodes_distinct:
  "add_flat_nodes u registrator fs g = Some g' \<Longrightarrow> distinct (g_output g) \<Longrightarrow> distinct (g_output g')"
proof (induction fs arbitrary: g)
  case (Cons f fs)
  then obtain n g1 where "addNode (g_next g) (snd (alloc_node n g)) = Some g1" "add_flat_nodes u registrator fs g1 = Some g'"
    by (auto simp: bind_eq_Some_conv alloc_node_def)
  moreover have "g_output (snd (alloc_node n g)) = g_output g" by (simp add: alloc_node_def)
  ultimately show ?case using Cons addNode_distinct by metis
qed simp

lemma put_flat_variables_distinct:
  "put_flat_variables xs g = Some g' \<Longrightarrow> distinct (g_output g) \<Longrightarrow> distinct (g_output g')"
proof (induction xs arbitrary: g)
  case (Cons xa xs)
  obtain x a where xa: "xa = (x, a)" by (cases xa)
  obtain pa m where a1: "alloc_arr a (g_mem g) = (pa, m)" by (cases "alloc_arr a (g_mem g)")
  obtain p m2 where a2: "alloc_var (x\<lparr>v_ndarray := Some pa\<rparr>) m = (p, m2)" by (cases "alloc_var (x\<lparr>v_ndarray := Some pa\<rparr>) m")
  from Cons.prems(1) obtain g1 where g1: "on_space (putVariable (v_id x) p) (g\<lparr>g_mem := m2\<rparr>) = Some g1"
    "put_flat_variables xs (if ec_outputMode (g_configuration g1) = OutputMode_VARIABLE_SPACE then pushToOutputOnce (v_id x) g1 else g1) = Some g'"
    unfolding xa put_flat_variables.simps a1 Let_def prod.case a2 by (auto simp: bind_eq_Some_conv simp del: put_flat_variables.simps)
  have "distinct (g_output g1)" using same_output(1) [OF g1(1)] Cons.prems(2) by simp
  then show ?case using Cons.IH [OF g1(2)] by simp
qed simp

lemma push_flat_outputs_distinct:
  "push_flat_outputs outs g = Some g' \<Longrightarrow> distinct (g_output g) \<Longrightarrow> distinct (g_output g')"
  by (induction outs arbitrary: g) (auto split: if_splits)

lemma build_place_output: "build_place p i l g = Some g' \<Longrightarrow> g_output g' = g_output g"
  by (auto simp: build_place_def bind_eq_Some_conv Let_def expandOnion_def dest!: same_output split: if_splits)

lemma build_visit_output: "build_visit p g = Some g' \<Longrightarrow> g_output g' = g_output g"
  by (auto simp: build_visit_def bind_eq_Some_conv dest!: build_place_output split: if_splits option.splits)

lemma build_place_configuration: "build_place p i l g = Some g' \<Longrightarrow> g_configuration g' = g_configuration g"
  by (auto simp: build_place_def bind_eq_Some_conv Let_def expandOnion_def dest!: same_configuration split: if_splits)

lemma build_visit_configuration: "build_visit p g = Some g' \<Longrightarrow> g_configuration g' = g_configuration g"
  by (auto simp: build_visit_def bind_eq_Some_conv dest!: build_place_configuration split: if_splits option.splits)

text \<open>What every visit keeps, the whole loop keeps.\<close>

lemma build_pass_keeps:
  assumes "\<And>p g g'. build_visit p g = Some g' \<Longrightarrow> h g' = h g"
  shows "build_pass lax ps g = Some g' \<Longrightarrow> h g' = h g"
proof (induction ps arbitrary: g)
  case (Cons p ps)
  then obtain g1 where "build_visit p g = Some g1" "build_pass lax ps g1 = Some g'"
    by (auto simp: bind_eq_Some_conv split: if_splits)
  with Cons.IH [of g1] assms show ?case by metis
qed simp

lemma build_loop_keeps:
  fixes g :: "('a, 'b) graph"
  assumes v: "\<And>p g (g' :: ('a, 'b) graph). build_visit p g = Some g' \<Longrightarrow> h g' = h g" and r: "build_loop lax g = Some g'"
  shows "h g' = h g"
proof (rule build_loop.raw_induct [where P = "\<lambda>_ g g'. h g' = h g", OF _ r])
  fix f :: "bool \<Rightarrow> ('a, 'b) graph \<Rightarrow> ('a, 'b) graph option" and lax g y
  assume IH: "\<And>lax x y. f lax x = Some y \<Longrightarrow> h y = h x"
    and y: "(if g_unmapped g = [] then Some g else Option.bind (build_pass lax (map snd (g_unmapped g)) g) (f lax)) = Some y"
  show "h y = h g"
  proof (cases "g_unmapped g = []")
    case False
    then obtain g1 where g1: "build_pass lax (map snd (g_unmapped g)) g = Some g1" "f lax g1 = Some y"
      using y by (auto simp: bind_eq_Some_conv)
    show ?thesis using IH [OF g1(2)] build_pass_keeps [of h, OF v g1(1)] by simp
  qed (use y in simp)
qed

lemma build_loop_output: "build_loop lax g = Some g' \<Longrightarrow> g_output g' = g_output g"
  by (rule build_loop_keeps [of g_output]) (rule build_visit_output)

lemma build_loop_configuration: "build_loop lax g = Some g' \<Longrightarrow> g_configuration g' = g_configuration g"
  by (rule build_loop_keeps [of g_configuration]) (rule build_visit_configuration)

lemma buildGraph_output:
  assumes "buildGraph lax g = Some g'" "distinct (g_output g)"
  shows "distinct (g_output g')"
proof -
  obtain g1 where g1: "build_loop lax g = Some g1" using assms(1) by (auto simp: buildGraph_def bind_eq_Some_conv)
  define g2 where "g2 = (if g_unmapped g1 = [] then g1\<lparr>g_built := True\<rparr> else g1)"
  have d: "distinct (g_output g2)" using build_loop_output [OF g1] assms(2) by (simp add: g2_def)
  have "do { g \<leftarrow> (if ec_outputMode (g_configuration g2) = OutputMode_VARIABLE_SPACE
       then do { is \<leftarrow> variable_ids (vs_external (g_variableSpace g2)) (g_mem g2); Some (fold pushToOutputOnce is g2) }
       else Some g2); if lax then Some g else None } = Some g'"
    using assms(1) unfolding buildGraph_def g1 bind.bind_lunit Let_def g2_def .
  then have "g' = g2 \<or> (\<exists>is. g' = fold pushToOutputOnce is g2)"
    by (auto simp: bind_eq_Some_conv split: if_splits)
  with d show ?thesis by auto
qed

subsection \<open>Examples\<close>

definition example_node :: "int \<Rightarrow> int list option \<Rightarrow> (int \<times> int) list option \<Rightarrow> int flat_node" where
  "example_node i is ps = \<lparr>fn_id = i, fn_name = None, fn_opType = OpType_TRANSFORM, fn_opNum = 0, fn_dataType = 0,
     fn_input = is, fn_inputPaired = ps, fn_output = None, fn_extraParams = None, fn_extraInteger = None,
     fn_dimensions = None, fn_scalar = 0\<rparr>"

definition blank :: "int node" where
  "blank = \<lparr>n_dataType = 0, n_opType = OpType_VARIABLE, n_block = None, n_opNum = 0, n_id = 0, n_input = [], n_output = [],
     n_dimensions = [], n_name = [], n_layer = -1, n_extraParams = None, n_scalar = 0, n_hasExternalOutputs = False,
     n_hasExternalInputs = False, n_hasInternalOutputs = False, n_hasInternalInputs = False, n_isInplace = False,
     n_opClass = OpClass_TRANSFORM, n_graph = None, n_customOp = None, n_active = True\<rparr>"

definition example_flat :: "int flat_node list \<Rightarrow> (nat, int) flat_graph" where
  "example_flat fs = \<lparr>fg_configuration = None, fg_variables = [], fg_outputs = [], fg_nodes = fs\<rparr>"

lemma example_simps [simp]:
  "fg_configuration (example_flat fs) = None" "fg_variables (example_flat fs) = []" "fg_outputs (example_flat fs) = []"
  "fg_nodes (example_flat fs) = fs" "fn_id (example_node i is ps) = i"
  "flat_inputs (example_node i is ps) = (if given ps \<noteq> [] then given ps else map (\<lambda>i. (i, 0)) (given is))"
  "paired (example_node i is ps) \<longleftrightarrow> given ps \<noteq> []" "known_op registrator (example_node i is ps)"
  by (simp_all add: example_flat_def example_node_def flat_inputs_def paired_def known_op_def)

text \<open>Node 1 reads a variable, node 2 reads node 1, and node 3 reads both nodes and a variable.\<close>

definition diamond :: "int flat_node list" where
  "diamond = [example_node 3 (Some [1, 2, -1]) None, example_node 2 (Some [1]) None, example_node 1 (Some [-1]) None]"

subsection \<open>Properties\<close>

text \<open>
  C14.  When the operations are known, the ids of the nodes distinct and the requested outputs among
  the variables, the constructor returns a graph in which every node is either mapped to a layer or
  left for \<open>buildGraph\<close>, never both.  A node whose inputs are not given as pairs is mapped to layer 0
  when it has inputs and all are external; a mapped node has inputs of this kind, or one internal
  input that is mapped to the layer before its own; the other nodes are unmapped.  Each layer of the
  onion lists exactly the nodes that are mapped to it, each once.
\<close>

theorem constructed_graph_is_layered:
  assumes "\<forall>f \<in> set (fg_nodes flat). known_op registrator f" "distinct (map fn_id (fg_nodes flat))"
    and "set (fg_outputs flat) \<subseteq> (\<lambda>x. v_id (fst x)) ` set (fg_variables flat)"
  shows "\<exists>g. Graph_new u registrator (Some flat) = Some g
    \<and> {i. layer_of g i \<noteq> None} \<union> {i. sm_find (g_unmapped g) i \<noteq> None} = fn_id ` set (fg_nodes flat)
    \<and> {i. layer_of g i \<noteq> None} \<inter> {i. sm_find (g_unmapped g) i \<noteq> None} = {}
    \<and> (\<forall>f \<in> set (fg_nodes flat). case layer_of g (fn_id f) of
         Some l \<Rightarrow> \<not> paired f
           \<and> (l = 0 \<and> flat_inputs f \<noteq> [] \<and> (\<forall>j \<in> set (flat_inputs f). fst j < 0)
              \<or> (\<exists>j o'. flat_inputs f = [(j, o')] \<and> 0 \<le> j \<and> layer_of g j = Some (l - 1)))
       | None \<Rightarrow> paired f \<or> flat_inputs f = [] \<or> (\<exists>j \<in> set (flat_inputs f). 0 \<le> fst j))
    \<and> (\<forall>l ps. sm_find (g_onion g) l = Some ps \<longrightarrow> distinct ps
         \<and> {i. \<exists>p \<in> set ps. \<exists>n. g_objs g p = Some n \<and> n_id n = i} = {i. layer_of g i = Some l})"
proof -
  from Graph_new_exact [OF assms, of u] obtain g where
    g: "Graph_new u registrator (Some flat) = Some g" "graph_of registrator (fg_nodes flat) g" by blast
  note G = g(2) [unfolded graph_of_def]
  have wf: "build_wf g" using G by blast
  note D = build_wfD [OF wf]
  have un: "sm_find (g_unmapped g) i \<noteq> None \<longleftrightarrow> (\<exists>m. unmapped_node g i m)" for i
    using D(6) [of i] by (auto simp: unmapped_node_def)
  have ids: "{i. layer_of g i \<noteq> None} \<union> {i. sm_find (g_unmapped g) i \<noteq> None} = fn_id ` set (fg_nodes flat)"
    unfolding un using G by blast
  have dis: "{i. layer_of g i \<noteq> None} \<inter> {i. sm_find (g_unmapped g) i \<noteq> None} = {}"
    using D(6) layer_of_None [OF wf] by auto
  have nodes: "case layer_of g (fn_id f) of
         Some l \<Rightarrow> \<not> paired f
           \<and> (l = 0 \<and> flat_inputs f \<noteq> [] \<and> (\<forall>j \<in> set (flat_inputs f). fst j < 0)
              \<or> (\<exists>j o'. flat_inputs f = [(j, o')] \<and> 0 \<le> j \<and> layer_of g j = Some (l - 1)))
       | None \<Rightarrow> paired f \<or> flat_inputs f = [] \<or> (\<exists>j \<in> set (flat_inputs f). 0 \<le> fst j)"
    if "f \<in> set (fg_nodes flat)" for f
  proof -
    have "added g f" using G that by blast
    then show ?thesis unfolding added_def by (elim disjE exE conjE) simp_all
  qed
  have onion: "distinct ps \<and> {i. \<exists>p \<in> set ps. \<exists>n. g_objs g p = Some n \<and> n_id n = i} = {i. layer_of g i = Some l}"
    if ps: "sm_find (g_onion g) l = Some ps" for l ps
  proof (intro conjI set_eqI)
    show "distinct ps" using D(7) [OF ps] by blast
    fix i show "i \<in> {i. \<exists>p \<in> set ps. \<exists>n. g_objs g p = Some n \<and> n_id n = i} \<longleftrightarrow> i \<in> {i. layer_of g i = Some l}"
    proof
      assume "i \<in> {i. \<exists>p \<in> set ps. \<exists>n. g_objs g p = Some n \<and> n_id n = i}"
      then show "i \<in> {i. layer_of g i = Some l}" using D(7) [OF ps] by (auto simp: layer_of_def)
    next
      assume "i \<in> {i. layer_of g i = Some l}"
      then obtain p n where p: "sm_find (g_mapped g) i = Some p" "g_objs g p = Some n" "n_layer n = l"
        by (auto simp: layer_of_def bind_eq_Some_conv)
      then show "i \<in> {i. \<exists>p \<in> set ps. \<exists>n. g_objs g p = Some n \<and> n_id n = i}"
        using D(8) [OF p(1,2)] D(5) [OF p(1)] ps by auto
    qed
  qed
  from g(1) ids dis nodes onion show ?thesis by blast
qed

text \<open>Node 1 reads a variable and node 2 reads node 1; node 3 reads both and a variable.\<close>

definition chain :: "int flat_node list" where
  "chain = [example_node 1 (Some [-1]) None, example_node 2 (Some [1]) None, example_node 3 (Some [1, 2, -1]) None]"

theorem constructed_graph_is_layered_witness:
  "\<exists>g. Graph_new blank (\<lambda>_. None) (Some (example_flat chain)) = Some g
    \<and> layer_of g 3 = None \<and> {i. layer_of g i \<noteq> None} \<union> {i. sm_find (g_unmapped g) i \<noteq> None} = {1, 2, 3}"
proof -
  have "\<forall>f \<in> set (fg_nodes (example_flat chain)). known_op (\<lambda>_. None) f" "distinct (map fn_id (fg_nodes (example_flat chain)))"
    "set (fg_outputs (example_flat chain)) \<subseteq> (\<lambda>x. v_id (fst x)) ` set (fg_variables (example_flat chain))"
    by (simp_all add: chain_def)
  from constructed_graph_is_layered [OF this, of blank] obtain g where
    g: "Graph_new blank (\<lambda>_. None) (Some (example_flat chain)) = Some g"
    "{i. layer_of g i \<noteq> None} \<union> {i. sm_find (g_unmapped g) i \<noteq> None} = fn_id ` set chain"
    "case layer_of g 3 of
         Some l \<Rightarrow> (\<exists>j o'. map (\<lambda>i. (i, 0)) [1, 2, -1] = [(j, o')])
       | None \<Rightarrow> True"
    by (auto simp: chain_def given_def split: option.splits)
  have "layer_of g 3 = None" using g(3) by (simp split: option.splits)
  with g(1,2) show ?thesis by (auto simp: chain_def)
qed

text \<open>
  C15.  One visit of an unmapped node in the loop of \<open>buildGraph\<close>, on a well-formed graph (as the
  constructor gives it and every visit keeps it): a node with one input that is not mapped is left
  alone; every other node is moved, alone, from the unmapped nodes to the layer after the highest layer
  of those of its inputs that are mapped, which is layer 1 when none is: inputs that are not yet
  mapped are not waited for.
\<close>

theorem build_visit_layer:
  assumes "build_wf g" "sm_find (g_unmapped g) i = Some p" "g_objs g p = Some n"
  shows "\<exists>g'. build_visit p g = Some g' \<and> build_wf g'
    \<and> (if \<exists>j o'. n_input n = [(j, o')] \<and> layer_of g j = None then g' = g
       else sm_find (g_unmapped g') i = None \<and> (\<forall>k. k \<noteq> i \<longrightarrow> sm_find (g_unmapped g') k = sm_find (g_unmapped g) k)
         \<and> layer_of g' = (layer_of g)
             (i \<mapsto> 1 + Max ({0} \<union> {k. \<exists>j \<in> set (n_input n). layer_of g (fst j) = Some k})))"
proof (cases "\<exists>j o'. n_input n = [(j, o')] \<and> layer_of g j = None")
  case True
  then show ?thesis using build_visit_waits [OF assms(3)] layer_of_None [OF assms(1)] assms(1) by force
next
  case False
  then have "length (n_input n) = 1 \<longrightarrow> layer_of g (fst (n_input n ! 0)) \<noteq> None"
    by (cases "n_input n") (auto simp: length_Suc_conv)
  from build_visit_places [OF assms this] obtain l n' where
    v: "build_visit p g = Some (placed p i l n' g)" "n_id n' = i" "n_layer n' = l" "1 \<le> l"
      "\<forall>j \<in> set (n_input n). \<forall>k. layer_of g (fst j) = Some k \<longrightarrow> k < l"
      "l = 1 \<or> (\<exists>j \<in> set (n_input n). layer_of g (fst j) = Some (l - 1))" by blast
  let ?K = "{k. \<exists>j \<in> set (n_input n). layer_of g (fst j) = Some k}"
  have "?K \<subseteq> (\<lambda>j. the (layer_of g (fst j))) ` set (n_input n)" by force
  then have "finite ?K" by (rule finite_subset) simp
  then have "Max ({0} \<union> ?K) = l - 1" by (intro Max_eqI) (use v(4-6) in auto)
  then have l: "1 + Max ({0} \<union> ?K) = l" by simp
  have "0 \<le> l" using v(4) by simp
  note P = placed_wf [OF assms(1,2) v(2,3) this]
  have "sm_find (g_unmapped (placed p i l n' g)) = (sm_find (g_unmapped g))(i := None)"
    using build_wfD(4) [OF assms(1)] by (simp add: sm_laws)
  with v(1) P False show ?thesis by (simp only: if_False l) simp
qed

theorem build_visit_layer_witness:
  "\<exists>g p g'. Graph_new blank (\<lambda>_. None) (Some (example_flat chain)) = Some g \<and> sm_find (g_unmapped g) 3 = Some p
    \<and> build_visit p g = Some g' \<and> sm_find (g_unmapped g') 3 = None \<and> layer_of g' 3 \<noteq> None"
proof -
  from Graph_new_exact [of "example_flat chain" "\<lambda>_. None" blank] obtain g where
    g: "Graph_new blank (\<lambda>_. None) (Some (example_flat chain)) = Some g" "graph_of (\<lambda>_. None) chain g"
    by (auto simp: chain_def)
  then have wf: "build_wf g" and a: "added g (example_node 3 (Some [1, 2, -1]) None)" by (auto simp: graph_of_def chain_def)
  then obtain m where m: "unmapped_node g 3 m" "n_input m = [(1, 0), (2, 0), (-1, 0)]"
    by (auto simp: added_def given_def)
  then obtain p where p: "sm_find (g_unmapped g) 3 = Some p" "g_objs g p = Some m" by (auto simp: unmapped_node_def)
  from build_visit_layer [OF wf p] m(2) obtain g' where "build_visit p g = Some g'" "sm_find (g_unmapped g') 3 = None"
    "layer_of g' 3 \<noteq> None" by auto
  with g(1) p(1) show ?thesis by blast
qed

subsection \<open>Building\<close>

text \<open>
  \<open>buildGraph\<close> as the language has it never gives a result: it either does not return, or advances an
  erased iterator, or runs off its end without a return statement.
\<close>

lemma buildGraph_undefined: "buildGraph False g = None"
  by (cases "build_loop False g") (simp_all add: buildGraph_def Let_def bind_eq_None_conv)

text \<open>
  On a \<open>lax\<close> platform, when the operations are known, the ids are distinct, the requested outputs are
  variables, the output mode is not \<open>VARIABLE_SPACE\<close>, and every internal input is a node with a
  smaller id and no node has a pair with an external variable as its only input, the constructor and
  \<open>buildGraph\<close> return, no node is left unmapped, the graph is marked as built, and every node lies on a
  layer above the layers of all its internal inputs, in whatever order the nodes are given.
\<close>

theorem built_graph_is_layered:
  assumes "\<forall>f \<in> set (fg_nodes flat). known_op registrator f" "distinct (map fn_id (fg_nodes flat))"
    and "set (fg_outputs flat) \<subseteq> (\<lambda>x. v_id (fst x)) ` set (fg_variables flat)"
    and "ordered_inputs (fg_nodes flat)"
    and "ec_outputMode (ExecutorConfiguration_new (fg_configuration flat)) \<noteq> OutputMode_VARIABLE_SPACE"
  shows "\<exists>g g'. Graph_new u registrator (Some flat) = Some g \<and> buildGraph True g = Some g' \<and> g_built g' \<and> g_unmapped g' = []
    \<and> (\<forall>f \<in> set (fg_nodes flat). \<exists>l. layer_of g' (fn_id f) = Some l \<and> 0 \<le> l
         \<and> (\<forall>j \<in> set (flat_inputs f). 0 \<le> fst j \<longrightarrow> (\<exists>k. layer_of g' (fst j) = Some k \<and> k < l)))"
proof -
  from Graph_new_exact [OF assms(1-3), of u] obtain g where
    g: "Graph_new u registrator (Some flat) = Some g" "graph_of registrator (fg_nodes flat) g"
      "g_configuration g = ExecutorConfiguration_new (fg_configuration flat)" by blast
  from build_loop_layers [OF g(2) assms(4)] obtain g' where
    g': "build_loop True g = Some g'" "g_unmapped g' = []" "g_configuration g' = g_configuration g"
    "\<forall>f \<in> set (fg_nodes flat). \<exists>l. layer_of g' (fn_id f) = Some l \<and> 0 \<le> l \<and> edges_up g' l (flat_inputs f)" by blast
  have "buildGraph True g = Some (g'\<lparr>g_built := True\<rparr>)"
    using g'(1-3) g(3) assms(5) by (simp add: buildGraph_def)
  moreover have "layer_of (g'\<lparr>g_built := True\<rparr>) = layer_of g'" by (simp add: fun_eq_iff layer_of_def)
  ultimately show ?thesis
    using g(1) g'(2,4) unfolding edges_up_def by (intro exI [of _ g] exI [of _ "g'\<lparr>g_built := True\<rparr>"]) simp
qed

theorem built_graph_is_layered_witness:
  "\<exists>g g'. Graph_new blank (\<lambda>_. None) (Some (example_flat diamond)) = Some g \<and> buildGraph True g = Some g' \<and> g_unmapped g' = []"
  using built_graph_is_layered [of "example_flat diamond" "\<lambda>_. None" blank]
  by (simp add: diamond_def given_def ordered_inputs_def ExecutorConfiguration_new_def) blast

text \<open>
  On a \<open>lax\<close> platform, and when the output mode is not \<open>VARIABLE_SPACE\<close>, \<open>buildGraph\<close> on a well-formed
  graph never returns exactly when there is a set of unmapped nodes with one input each, in which
  every input is not mapped and is in the set or not in the graph.
\<close>

theorem buildGraph_returns_iff:
  assumes "build_wf g" "ec_outputMode (g_configuration g) \<noteq> OutputMode_VARIABLE_SPACE"
  shows "buildGraph True g = None \<longleftrightarrow> (\<exists>K. hopeless g K)"
proof (cases "\<exists>K. hopeless g K")
  case True
  then have "build_loop True g = None" using build_loop_diverges [OF assms(1)] by blast
  with True show ?thesis by (simp add: buildGraph_def)
next
  case False
  from build_loop_returns [OF assms(1) False] obtain g' where g': "build_loop True g = Some g'" "g_unmapped g' = []" by blast
  then have "g_configuration g' = g_configuration g" using build_loop_configuration by blast
  with g' assms(2) False show ?thesis by (simp add: buildGraph_def)
qed

theorem buildGraph_returns_iff_witness:
  "buildGraph True (Graph_empty None :: (nat, int) graph) = None \<longleftrightarrow> (\<exists>K. hopeless (Graph_empty None :: (nat, int) graph) K)"
proof (rule buildGraph_returns_iff)
  show "build_wf (Graph_empty None :: (nat, int) graph)"
    using graph_of_empty [where conf = None] unfolding graph_of_def by blast
qed (simp add: Graph_empty_def expandOnion_def ExecutorConfiguration_new_def)

text \<open>
  A node that gives its single input as a pair and reads a variable, not a node, makes
  \<open>buildGraph\<close> loop for ever: the constructor does not note that its input is external.
\<close>

theorem paired_external_input_diverges:
  assumes "\<forall>f \<in> set (fg_nodes flat). known_op registrator f" "distinct (map fn_id (fg_nodes flat))"
    and "set (fg_outputs flat) \<subseteq> (\<lambda>x. v_id (fst x)) ` set (fg_variables flat)"
    and "f \<in> set (fg_nodes flat)" "fn_inputPaired f = Some [(i, o')]" "i \<notin> fn_id ` set (fg_nodes flat)"
  shows "\<exists>g. Graph_new u registrator (Some flat) = Some g \<and> buildGraph True g = None"
proof -
  from Graph_new_exact [OF assms(1-3), of u] obtain g where
    g: "Graph_new u registrator (Some flat) = Some g" "graph_of registrator (fg_nodes flat) g" by blast
  note G = g(2) [unfolded graph_of_def]
  have wf: "build_wf g" and a: "added g f" using G assms(4) by blast+
  have p: "paired f" "flat_inputs f = [(i, o')]" using assms(5) by (simp_all add: paired_def flat_inputs_def given_def)
  then obtain m where m: "unmapped_node g (fn_id f) m" "n_input m = [(i, o')]" using a by (auto simp: added_def)
  have "layer_of g i = None" "\<not> unmapped_node g i m" for m using G assms(6) by blast+
  then have i: "sm_find (g_mapped g) i = None" "\<And>m. \<not> unmapped_node g i m" using layer_of_None [OF wf, of i] by simp_all
  have "sm_find (g_unmapped g) i = None"
  proof (cases "sm_find (g_unmapped g) i")
    case (Some q)
    then obtain m where "unmapped_node g i m" using build_wfD(6) [OF wf Some] by (auto simp: unmapped_node_def)
    then show ?thesis using i(2) by simp
  qed
  then have "hopeless g {fn_id f}" using m i(1) unfolding hopeless_def waits_def by blast
  from build_loop_diverges [OF wf this] g(1) show ?thesis by (simp add: buildGraph_def)
qed

theorem paired_external_input_diverges_witness:
  "\<exists>g. Graph_new blank (\<lambda>_. None) (Some (example_flat [example_node 1 None (Some [(-1, 0)])])) = Some g \<and> buildGraph True g = None"
  by (rule paired_external_input_diverges [where f = "example_node 1 None (Some [(-1, 0)])" and i = "-1" and o' = 0])
    (simp_all, simp add: example_node_def)

text \<open>
  A visit places an unmapped node whose inputs, not exactly one, are all still unmapped on layer
  1 at once, instead of skipping it for this round: the inputs get layers that are not below its own.
\<close>

theorem misordered_layer:
  assumes "build_wf g" "sm_find (g_unmapped g) i = Some p" "g_objs g p = Some n" "length (n_input n) \<noteq> 1"
    and "\<forall>j \<in> set (n_input n). layer_of g (fst j) = None"
  shows "\<exists>g'. build_visit p g = Some g' \<and> layer_of g' i = Some 1
    \<and> (\<forall>j. j \<noteq> i \<longrightarrow> layer_of g' j = layer_of g j)"
proof -
  have "length (n_input n) = 1 \<longrightarrow> layer_of g (fst (n_input n ! 0)) \<noteq> None" using assms(4) by simp
  from build_visit_places [OF assms(1-3) this] obtain l n' where
    v: "build_visit p g = Some (placed p i l n' g)" "n_id n' = i" "n_layer n' = l" "1 \<le> l"
      "l = 1 \<or> (\<exists>j \<in> set (n_input n). layer_of g (fst j) = Some (l - 1))" by blast
  then have "l = 1" using assms(5) by auto
  then show ?thesis using v placed_wf(2) [OF assms(1,2) v(2,3)] by (intro exI conjI) (rule v(1), auto)
qed

text \<open>Node 1 reads the nodes 2 and 3, which are given later.\<close>

definition backward :: "int flat_node list" where
  "backward = [example_node 1 None (Some [(2, 0), (3, 0)]), example_node 2 None (Some [(-1, 0), (-2, 0)]),
     example_node 3 None (Some [(-1, 0), (-2, 0)])]"

theorem misordered_layer_witness:
  "\<exists>g p g'. Graph_new blank (\<lambda>_. None) (Some (example_flat backward)) = Some g \<and> build_visit p g = Some g'
    \<and> layer_of g' 1 = Some 1 \<and> layer_of g' 2 = None"
proof -
  from Graph_new_exact [of "example_flat backward" "\<lambda>_. None" blank] obtain g where
    g: "Graph_new blank (\<lambda>_. None) (Some (example_flat backward)) = Some g" "graph_of (\<lambda>_. None) backward g"
    by (auto simp: backward_def)
  have wf: "build_wf g" and a: "added g f" if "f \<in> set backward" for f using g(2) that by (auto simp: graph_of_def)
  have un: "layer_of g (fn_id f) = None \<and> (\<exists>m. unmapped_node g (fn_id f) m \<and> n_input m = flat_inputs f)"
    if "f \<in> set backward" for f
    using a [OF that] that by (auto simp: added_def backward_def given_def)
  obtain p n where n: "sm_find (g_unmapped g) 1 = Some p" "g_objs g p = Some n" "n_input n = [(2, 0), (3, 0)]"
    using un [of "example_node 1 None (Some [(2, 0), (3, 0)])"] by (auto simp: backward_def unmapped_node_def given_def)
  have l: "layer_of g 2 = None" "layer_of g 3 = None"
    using un [of "example_node 2 None (Some [(-1, 0), (-2, 0)])"] un [of "example_node 3 None (Some [(-1, 0), (-2, 0)])"]
    by (simp_all add: backward_def)
  have "build_wf g" using g(2) by (simp add: graph_of_def)
  from misordered_layer [OF this n(1,2)] n(3) l obtain g' where
    "build_visit p g = Some g'" "layer_of g' 1 = Some 1" "layer_of g' 2 = None" by auto
  with g(1) show ?thesis by blast
qed

text \<open>
  The constructor and \<open>buildGraph\<close> never put an id twice into the list of outputs.
\<close>

theorem outputs_once:
  assumes "Graph_new u registrator (Some flat) = Some g" "buildGraph lax g = Some g'"
  shows "distinct (g_output g) \<and> distinct (g_output g')"
proof -
  let ?g0 = "Graph_empty (fg_configuration flat)"
  obtain g1 g2 where g: "put_flat_variables (fg_variables flat) ?g0 = Some g1"
    "(if ec_outputMode (g_configuration g1) \<in> {OutputMode_EXPLICIT, OutputMode_EXPLICIT_AND_IMPLICIT}
               then push_flat_outputs (fg_outputs flat) g1 else Some g1) = Some g2"
    "add_flat_nodes u registrator (fg_nodes flat) g2 = Some g"
    using assms(1) unfolding Graph_new_def option.case bind_eq_Some_conv by blast
  have "distinct (g_output ?g0)" by (simp add: Graph_empty_def expandOnion_def)
  then have "distinct (g_output g1)" by (rule put_flat_variables_distinct [OF g(1)])
  then have "distinct (g_output g2)"
    using g(2) push_flat_outputs_distinct [of "fg_outputs flat" g1 g2] by (auto split: if_splits)
  then have "distinct (g_output g)" by (rule add_flat_nodes_distinct [OF g(3)])
  with buildGraph_output [OF assms(2)] show ?thesis by blast
qed

theorem outputs_once_witness:
  "\<exists>g. Graph_new blank (\<lambda>_. None) (Some (example_flat [])) = Some g \<and> distinct (g_output g)"
proof -
  have e: "Graph_new blank (\<lambda>_. None) (Some (example_flat [])) = Some (Graph_empty None)"
    by (simp add: Graph_new_def Graph_empty_def expandOnion_def ExecutorConfiguration_new_def)
  have "buildGraph True (Graph_empty None :: (nat, int) graph) = Some ((Graph_empty None)\<lparr>g_built := True\<rparr>)"
    by (simp add: buildGraph_def build_loop.simps Graph_empty_def expandOnion_def ExecutorConfiguration_new_def)
  from outputs_once [OF e this] e show ?thesis by blast
qed

text \<open>
  C16.  When the operations are known, the ids of the nodes distinct and the requested outputs among
  the variables, then after the constructor every node has a variable for its output 0, and a custom
  operation with \<open>k\<close> outputs has a variable for each of the outputs \<open>0, ..., k - 1\<close>; all of them are
  alive and owned by the variable space, whose mutex is free.
\<close>

theorem outputs_have_variables:
  assumes "\<forall>f \<in> set (fg_nodes flat). known_op registrator f" "distinct (map fn_id (fg_nodes flat))"
    and "set (fg_outputs flat) \<subseteq> (\<lambda>x. v_id (fst x)) ` set (fg_variables flat)"
  shows "\<exists>g. Graph_new u registrator (Some flat) = Some g \<and> \<not> vs_locked (g_variableSpace g)
    \<and> (\<forall>f \<in> set (fg_nodes flat). \<exists>v \<in> set (vs_handles (g_variableSpace g)). m_vars (g_mem g) v \<noteq> None
         \<and> getVariable (fn_id f) (g_variableSpace g) = Some (Some v, g_variableSpace g))
    \<and> (\<forall>f \<in> set (fg_nodes flat). \<forall>op x. fn_opType f = OpType_CUSTOM \<longrightarrow> registrator (fn_opNum f) = Some op \<longrightarrow>
         0 \<le> x \<longrightarrow> x < od_numOutputs op \<longrightarrow>
         (\<exists>v \<in> set (vs_handles (g_variableSpace g)). m_vars (g_mem g) v \<noteq> None
            \<and> getVariable_pair (fn_id f, x) (g_variableSpace g) = Some (Some (Some v), g_variableSpace g)))"
proof -
  from Graph_new_exact [OF assms, of u] obtain g where
    g: "Graph_new u registrator (Some flat) = Some g" "graph_of registrator (fg_nodes flat) g" by blast
  then have inv: "vs_inv (g_mem g) (g_variableSpace g)" and d: "\<And>f. f \<in> set (fg_nodes flat) \<Longrightarrow> declared registrator g f"
    by (simp_all add: graph_of_def build_wf_def)
  have alive: "m_vars (g_mem g) v \<noteq> None" if "v \<in> set (vs_handles (g_variableSpace g))" for v
    using inv that by (simp add: vs_inv_def)
  have zero: "\<exists>v \<in> set (vs_handles (g_variableSpace g)). getVariable (fn_id f) (g_variableSpace g) = Some (Some v, g_variableSpace g)"
    if "f \<in> set (fg_nodes flat)" for f
  proof -
    have "hasVariable (g_variableSpace g) (fn_id f)"
      using d [OF that] hasVariable_paired [OF inv, of "fn_id f"] by (simp add: declared_def)
    from getVariable_present [OF inv this] show ?thesis by blast
  qed
  have more: "\<exists>v \<in> set (vs_handles (g_variableSpace g)).
      getVariable_pair (fn_id f, x) (g_variableSpace g) = Some (Some (Some v), g_variableSpace g)"
    if "f \<in> set (fg_nodes flat)" "fn_opType f = OpType_CUSTOM" "registrator (fn_opNum f) = Some op" "0 \<le> x" "x < od_numOutputs op"
    for f op x
  proof -
    have "vs_paired (g_variableSpace g) (fn_id f, x) \<noteq> None"
      using d [OF that(1)] that(2-5) by (cases "x = 0") (simp_all add: declared_def)
    then obtain v where v: "vs_paired (g_variableSpace g) (fn_id f, x) = Some v" by auto
    then have "v \<in> reachable_vars (g_variableSpace g)" by (auto simp: reachable_vars_def ran_def)
    then have "v \<in> set (vs_handles (g_variableSpace g))" using inv by (auto simp: vs_inv_def)
    with v show ?thesis using getVariable_pair_exact [OF inv, of "(fn_id f, x)"] by auto
  qed
  have "\<not> vs_locked (g_variableSpace g)" using inv by (simp add: vs_inv_def)
  with g(1) zero more alive show ?thesis by meson
qed

text \<open>A custom operation with three outputs.\<close>

definition split_op :: OpDescriptor where
  "split_op = OpDescriptor_new (\<lambda>_. 0) 1 3 ''split'' False"

definition split_node :: "int flat_node" where
  "split_node = (example_node 5 (Some [-1]) None)\<lparr>fn_opType := OpType_CUSTOM, fn_opNum := 7\<rparr>"

theorem outputs_have_variables_witness:
  "\<exists>g v. Graph_new blank [7 \<mapsto> split_op] (Some (example_flat [split_node])) = Some g
    \<and> getVariable_pair (5, 2) (g_variableSpace g) = Some (Some (Some v), g_variableSpace g)"
proof -
  have f: "known_op [7 \<mapsto> split_op] split_node" "fn_id split_node = 5" "fn_opType split_node = OpType_CUSTOM"
    "fn_opNum split_node = 7" "od_numOutputs split_op = 3"
    by (simp_all add: known_op_def split_node_def split_op_def OpDescriptor_new_def example_node_def)
  have "\<forall>f \<in> set (fg_nodes (example_flat [split_node])). known_op [7 \<mapsto> split_op] f" using f(1) by simp
  from outputs_have_variables [OF this, of blank] obtain g where
    "Graph_new blank [7 \<mapsto> split_op] (Some (example_flat [split_node])) = Some g"
    "\<forall>x \<ge> 0. x < 3 \<longrightarrow> (\<exists>v. getVariable_pair (5, x) (g_variableSpace g) = Some (Some (Some v), g_variableSpace g))"
    using f(2-5) by simp blast
  moreover from this(2) have "\<exists>v. getVariable_pair (5, 2) (g_variableSpace g) = Some (Some (Some v), g_variableSpace g)"
    by simp
  ultimately show ?thesis by blast
qed

end
