(* ===== verification/StrideSort.thy ===== *)
theory StrideSort
  imports CPrelude "HOL-Library.Multiset"
begin

text \<open>
  Sorting of strides (\<open>include/pairwise_util.h\<close>): the non-recursive \<open>quickSort\<close> with its explicit
  stack of ranges, and \<open>SortStrideArray\<close>.  The three loops are partial functions: a run that does not
  end would be \<^term>\<open>None\<close>, so the lemmas that give a result also show termination.
\<close>

subsection \<open>Code\<close>

record StridePermutation =
  sp_perm :: int
  sp_stride :: int

partial_function (option) scan_right ::
  "StridePermutation list \<Rightarrow> StridePermutation \<Rightarrow> int \<Rightarrow> int \<Rightarrow> int option" where
  [code]: "scan_right arr piv L R = do {
     x \<leftarrow> rd arr R;
     if sp_stride x \<ge> sp_stride piv \<and> L < R then scan_right arr piv L (R - 1) else Some R }"

partial_function (option) scan_left ::
  "StridePermutation list \<Rightarrow> StridePermutation \<Rightarrow> int \<Rightarrow> int \<Rightarrow> int option" where
  [code]: "scan_left arr piv L R = do {
     x \<leftarrow> rd arr L;
     if sp_stride x \<le> sp_stride piv \<and> L < R then scan_left arr piv (L + 1) R else Some L }"

text \<open>One round of the partition: both scans, each followed by the move of an element.\<close>

definition partition_round ::
  "StridePermutation list \<Rightarrow> StridePermutation \<Rightarrow> int \<Rightarrow> int \<Rightarrow> (StridePermutation list \<times> int \<times> int) option" where
  "partition_round arr piv L R = do {
     R \<leftarrow> scan_right arr piv L R;
     (arr, L) \<leftarrow> (if L < R then do { x \<leftarrow> rd arr R; arr \<leftarrow> wr arr L x; Some (arr, L + 1) } else Some (arr, L));
     L \<leftarrow> scan_left arr piv L R;
     (arr, R) \<leftarrow> (if L < R then do { x \<leftarrow> rd arr L; arr \<leftarrow> wr arr R x; Some (arr, R - 1) } else Some (arr, R));
     Some (arr, L, R) }"

partial_function (option) partition_loop ::
  "StridePermutation list \<Rightarrow> StridePermutation \<Rightarrow> int \<Rightarrow> int \<Rightarrow> (StridePermutation list \<times> int) option" where
  [code]: "partition_loop arr piv L R =
     (if L < R then do { (arr, L, R) \<leftarrow> partition_round arr piv L R; partition_loop arr piv L R }
      else Some (arr, L))"

text \<open>The loop over the stack; \<open>begs\<close> and \<open>ends\<close> are the arrays \<open>beg\<close> and \<open>end\<close>.\<close>

definition MAX_LEVELS :: int where "MAX_LEVELS = 300"

definition push_range :: "cells \<Rightarrow> cells \<Rightarrow> int \<Rightarrow> int \<Rightarrow> (cells \<times> cells \<times> int) option" where
  "push_range begs ends i L = do {
     begs \<leftarrow> wr begs (i + 1) (Some (L + 1));
     ei \<leftarrow> rd ends i; ei \<leftarrow> ei;
     ends \<leftarrow> wr ends (i + 1) (Some ei);
     ends \<leftarrow> wr ends i (Some L);
     let i = i + 1;
     e1 \<leftarrow> rd ends i; e1 \<leftarrow> e1; b1 \<leftarrow> rd begs i; b1 \<leftarrow> b1;
     e0 \<leftarrow> rd ends (i - 1); e0 \<leftarrow> e0; b0 \<leftarrow> rd begs (i - 1); b0 \<leftarrow> b0;
     s1 \<leftarrow> i32 (e1 - b1); s0 \<leftarrow> i32 (e0 - b0);
     if s1 > s0 then do {
       begs \<leftarrow> wr begs i (Some b0); begs \<leftarrow> wr begs (i - 1) (Some b1);
       ends \<leftarrow> wr ends i (Some e0); ends \<leftarrow> wr ends (i - 1) (Some e1);
       Some (begs, ends, i) }
     else Some (begs, ends, i) }"

partial_function (option) stack_loop ::
  "StridePermutation list \<Rightarrow> cells \<Rightarrow> cells \<Rightarrow> int \<Rightarrow> StridePermutation list option" where
  [code]: "stack_loop arr begs ends i =
     (if i \<ge> 0 then do {
        L \<leftarrow> rd begs i; L \<leftarrow> L;
        e \<leftarrow> rd ends i; e \<leftarrow> e;
        R \<leftarrow> i32 (e - 1);
        if L < R then do {
          piv \<leftarrow> rd arr L;
          (arr, L) \<leftarrow> partition_loop arr piv L R;
          arr \<leftarrow> wr arr L piv;
          (begs, ends, i) \<leftarrow> push_range begs ends i L;
          stack_loop arr begs ends i }
        else stack_loop arr begs ends (i - 1) }
      else Some arr)"

definition quickSort :: "StridePermutation list \<Rightarrow> int \<Rightarrow> StridePermutation list option" where
  "quickSort arr elements = do {
     begs \<leftarrow> new_ints MAX_LEVELS;
     ends \<leftarrow> new_ints MAX_LEVELS;
     begs \<leftarrow> wr begs 0 (Some 0);
     ends \<leftarrow> wr ends 0 (Some elements);
     stack_loop arr begs ends 0 }"

definition SortStrideArray :: "int \<Rightarrow> int list \<Rightarrow> StridePermutation list \<Rightarrow> StridePermutation list option" where
  "SortStrideArray ndim strides out_strideperm = do {
     out_strideperm \<leftarrow> for_up 0 (nat ndim) (\<lambda>i out. do {
       s \<leftarrow> rd strides (int i);
       wr out (int i) \<lparr>sp_perm = int i, sp_stride = s\<rparr> }) out_strideperm;
     quickSort out_strideperm ndim }"

subsection \<open>Partitioning\<close>

abbreviation key :: "StridePermutation list \<Rightarrow> nat \<Rightarrow> int" where "key arr k \<equiv> sp_stride (arr ! k)"

lemma scan_right_exact:
  assumes "L \<le> R" "R < length arr"
  shows "\<exists>R'. scan_right arr piv (int L) (int R) = Some (int R') \<and> L \<le> R' \<and> R' \<le> R
    \<and> (\<forall>k. R' < k \<longrightarrow> k \<le> R \<longrightarrow> sp_stride piv \<le> key arr k) \<and> (L < R' \<longrightarrow> key arr R' < sp_stride piv)"
  using assms
proof (induction "R - L" arbitrary: R)
  case 0
  then have "R = L" by simp
  then show ?case using 0 by (intro exI [of _ L]) (simp add: scan_right.simps)
next
  case (Suc d)
  show ?case
  proof (cases "sp_stride piv \<le> key arr R")
    case False
    then show ?thesis using Suc.prems by (intro exI [of _ R]) (simp add: scan_right.simps)
  next
    case True
    have LR: "L < R" using Suc.hyps(2) by simp
    have "d = R - 1 - L" "L \<le> R - 1" "R - 1 < length arr" using Suc.hyps(2) Suc.prems by simp_all
    from Suc.hyps(1) [OF this] obtain R' where
      R': "scan_right arr piv (int L) (int (R - 1)) = Some (int R')" "L \<le> R'" "R' \<le> R - 1"
        "\<forall>k. R' < k \<longrightarrow> k \<le> R - 1 \<longrightarrow> sp_stride piv \<le> key arr k" "L < R' \<longrightarrow> key arr R' < sp_stride piv"
      by (elim exE conjE) rule
    have "scan_right arr piv (int L) (int R) = Some (int R')"
      using R'(1) True LR Suc.prems by (subst scan_right.simps) (simp add: of_nat_diff)
    moreover have "sp_stride piv \<le> key arr k" if "R' < k" "k \<le> R" for k
      using R'(4) True that LR by (cases "k = R") auto
    ultimately show ?thesis using R' by (intro exI [of _ R']) auto
  qed
qed

lemma scan_left_exact:
  assumes "L \<le> R" "R < length arr"
  shows "\<exists>L'. scan_left arr piv (int L) (int R) = Some (int L') \<and> L \<le> L' \<and> L' \<le> R
    \<and> (\<forall>k. L \<le> k \<longrightarrow> k < L' \<longrightarrow> key arr k \<le> sp_stride piv) \<and> (L' < R \<longrightarrow> sp_stride piv < key arr L')"
  using assms
proof (induction "R - L" arbitrary: L)
  case 0
  then have "L = R" by simp
  then show ?case using 0 by (intro exI [of _ R]) (simp add: scan_left.simps)
next
  case (Suc d)
  show ?case
  proof (cases "key arr L \<le> sp_stride piv")
    case False
    then show ?thesis using Suc.prems by (intro exI [of _ L]) (simp add: scan_left.simps)
  next
    case True
    have LR: "L < R" using Suc.hyps(2) by simp
    have "d = R - Suc L" "Suc L \<le> R" using Suc.hyps(2) LR by simp_all
    from Suc.hyps(1) [OF this Suc.prems(2)] obtain L' where
      L': "scan_left arr piv (int (Suc L)) (int R) = Some (int L')" "Suc L \<le> L'" "L' \<le> R"
        "\<forall>k. Suc L \<le> k \<longrightarrow> k < L' \<longrightarrow> key arr k \<le> sp_stride piv" "L' < R \<longrightarrow> sp_stride piv < key arr L'"
      by (elim exE conjE) rule
    have "scan_left arr piv (int L) (int R) = Some (int L')"
      using L'(1) True LR Suc.prems by (subst scan_left.simps) (simp add: add.commute)
    moreover have "key arr k \<le> sp_stride piv" if "L \<le> k" "k < L'" for k
      using L'(4) True that by (cases "k = L") auto
    ultimately show ?thesis using L' by (intro exI [of _ L']) auto
  qed
qed

text \<open>
  During a partition one position, the hole, has an element that has been copied elsewhere; filling
  it with the pivot gives a rearrangement of the original array.
\<close>

lemma move_hole:
  assumes "x < length a" "y < length a" "x \<noteq> y"
  shows "mset (a[x := a ! y, y := p]) = mset (a[x := p])"
    and "\<forall>k \<in> I. a[x := p] ! k \<in> S \<Longrightarrow> x \<in> I \<Longrightarrow> y \<in> I \<Longrightarrow> \<forall>k \<in> I. a[x := a ! y, y := p] ! k \<in> S"
proof -
  let ?b = "a[x := p]"
  have e: "?b[x := ?b ! y, y := ?b ! x] = a[x := a ! y, y := p]" using assms by simp
  have "mset (?b[x := ?b ! y, y := ?b ! x]) = mset ?b" by (rule mset_swap) (use assms in simp_all)
  then show "mset (a[x := a ! y, y := p]) = mset ?b" unfolding e .
  assume S: "\<forall>k \<in> I. ?b ! k \<in> S" "x \<in> I" "y \<in> I"
  show "\<forall>k \<in> I. a[x := a ! y, y := p] ! k \<in> S"
  proof
    fix k assume "k \<in> I"
    then have "?b ! k \<in> S" "?b ! x \<in> S" "?b ! y \<in> S" using S by blast+
    then show "a[x := a ! y, y := p] ! k \<in> S"
      using assms by (cases "k = y"; cases "k = x") simp_all
  qed
qed

definition parting :: "StridePermutation list \<Rightarrow> StridePermutation \<Rightarrow> nat \<Rightarrow> nat \<Rightarrow> StridePermutation list \<Rightarrow> nat \<Rightarrow> nat \<Rightarrow> bool" where
  "parting orig piv b e arr L R \<longleftrightarrow> length arr = length orig \<and> b \<le> L \<and> L \<le> R \<and> R < e \<and> e \<le> length orig
     \<and> mset (arr[L := piv]) = mset orig \<and> (\<forall>k. k < b \<or> e \<le> k \<longrightarrow> arr ! k = orig ! k)
     \<and> (\<forall>k. b \<le> k \<longrightarrow> k < L \<longrightarrow> key arr k \<le> sp_stride piv) \<and> (\<forall>k. R < k \<longrightarrow> k < e \<longrightarrow> sp_stride piv \<le> key arr k)
     \<and> (\<forall>k \<in> {b..<e}. arr[L := piv] ! k \<in> (!) orig ` {b..<e})"

lemma partition_round_exact:
  assumes P: "parting orig piv b e arr L R" and LR: "L < R"
  shows "\<exists>arr' L' R'. partition_round arr piv (int L) (int R) = Some (arr', int L', int R')
    \<and> parting orig piv b e arr' L' R' \<and> R' - L' < R - L"
proof -
  note D = P [unfolded parting_def]
  have len: "length arr = length orig" "e \<le> length orig" "R < length arr" "b \<le> L" "R < e" using D by auto
  obtain R1 where R1: "scan_right arr piv (int L) (int R) = Some (int R1)" "L \<le> R1" "R1 \<le> R"
    "\<forall>k. R1 < k \<longrightarrow> k \<le> R \<longrightarrow> sp_stride piv \<le> key arr k" "L < R1 \<longrightarrow> key arr R1 < sp_stride piv"
    using scan_right_exact [of L R arr piv] LR len by auto
  have above: "sp_stride piv \<le> key arr k" if "R1 < k" "k < e" for k
    using that R1(4) D by (cases "k \<le> R") auto
  show ?thesis
  proof (cases "L < R1")
    case False
    then have R1L: "R1 = L" using R1(2) by simp
    have "scan_left arr piv (int L) (int L) = Some (int L)"
      using scan_left_exact [of L L arr piv] LR len by auto
    then have "partition_round arr piv (int L) (int R) = Some (arr, int L, int L)"
      using R1(1) R1L by (simp add: partition_round_def)
    moreover have "parting orig piv b e arr L L"
      using D above R1L LR unfolding parting_def by auto
    ultimately show ?thesis using LR by (intro exI [of _ arr] exI [of _ L]) auto
  next
    case True
    define a1 where "a1 = arr[L := arr ! R1]"
    have l1: "length a1 = length orig" using len by (simp add: a1_def)
    have i1: "L < length arr" "R1 < length arr" "L \<noteq> R1" "L \<in> {b..<e}" "R1 \<in> {b..<e}" using True R1(3) len by auto
    note m1 = move_hole [OF i1(1-3), where p = piv, folded a1_def]
    obtain L2 where L2: "scan_left a1 piv (int (Suc L)) (int R1) = Some (int L2)" "Suc L \<le> L2" "L2 \<le> R1"
      "\<forall>k. Suc L \<le> k \<longrightarrow> k < L2 \<longrightarrow> key a1 k \<le> sp_stride piv" "L2 < R1 \<longrightarrow> sp_stride piv < key a1 L2"
      using scan_left_exact [of "Suc L" R1 a1 piv] True i1 l1 len by auto
    have below: "key a1 k \<le> sp_stride piv" if "b \<le> k" "k < L2" for k
    proof (cases k L rule: linorder_cases)
      case less
      then show ?thesis using that D by (simp add: a1_def)
    next
      case equal
      then show ?thesis using R1(5) True i1 by (simp add: a1_def)
    next
      case greater
      then show ?thesis using L2(4) that by simp
    qed
    have above1: "sp_stride piv \<le> key a1 k" if "R1 < k" "k < e" for k
      using above [OF that] that True by (simp add: a1_def)
    have out1: "a1 ! k = orig ! k" if "k < b \<or> e \<le> k" for k
    proof -
      have "k \<noteq> L" using that LR len by auto
      moreover have "arr ! k = orig ! k" using that D by blast
      ultimately show ?thesis by (simp add: a1_def)
    qed
    have set1: "\<forall>k \<in> {b..<e}. a1[R1 := piv] ! k \<in> (!) orig ` {b..<e}"
      by (rule m1(2)) (use D i1 in blast)+
    have mset1: "mset (a1[R1 := piv]) = mset orig" using m1(1) D by simp
    have first: "partition_round arr piv (int L) (int R) =
      (do { L \<leftarrow> Some (int L2);
           (arr, R) \<leftarrow> (if L < int R1 then do { x \<leftarrow> rd a1 L; arr \<leftarrow> wr a1 (int R1) x; Some (arr, int R1 - 1) } else Some (a1, int R1));
           Some (arr, L, R) })"
      using R1(1) True i1 L2(1) unfolding partition_round_def
      by (simp add: a1_def [symmetric] add.commute)
    show ?thesis
    proof (cases "L2 < R1")
      case False
      then have "L2 = R1" using L2(3) by simp
      then have "partition_round arr piv (int L) (int R) = Some (a1, int R1, int R1)" unfolding first by simp
      moreover have "parting orig piv b e a1 R1 R1"
        unfolding parting_def using l1 len R1(2,3) mset1 out1 below above1 set1 \<open>L2 = R1\<close> by auto
      ultimately show ?thesis using LR R1(3) True by (intro exI [of _ a1] exI [of _ R1]) auto
    next
      case L2R: True
      define a2 where "a2 = a1[R1 := a1 ! L2]"
      have i2: "R1 < length a1" "L2 < length a1" "R1 \<noteq> L2" "L2 \<in> {b..<e}" using L2R L2(2) i1 l1 len by auto
      note m2 = move_hole [OF i2(1-3), where p = piv, folded a2_def]
      have "partition_round arr piv (int L) (int R) = Some (a2, int L2, int (R1 - 1))"
        unfolding first using L2R i2 by (simp add: a2_def of_nat_diff)
      moreover have "parting orig piv b e a2 L2 (R1 - 1)"
        unfolding parting_def
      proof (intro conjI allI impI)
        show "length a2 = length orig" "b \<le> L2" "L2 \<le> R1 - 1" "R1 - 1 < e" "e \<le> length orig"
          using l1 len L2R L2(2) i1 by (auto simp: a2_def)
        show "mset (a2[L2 := piv]) = mset orig" using m2(1) mset1 by simp
        show "\<forall>k \<in> {b..<e}. a2[L2 := piv] ! k \<in> (!) orig ` {b..<e}"
          by (rule m2(2)) (use set1 i1 i2 in blast)+
        show "a2 ! k = orig ! k" if "k < b \<or> e \<le> k" for k
        proof -
          have "k \<noteq> R1" using that i1(5) by auto
          then show ?thesis using out1 that by (simp add: a2_def)
        qed
        show "key a2 k \<le> sp_stride piv" if "b \<le> k" "k < L2" for k
          using below [OF that] that L2R by (simp add: a2_def)
        show "sp_stride piv \<le> key a2 k" if "R1 - 1 < k" "k < e" for k
          using above1 [of k] that L2(5) L2R i2 by (cases "k = R1") (auto simp: a2_def)
      qed
      ultimately show ?thesis using LR R1(3) True L2(2) L2R by (intro exI [of _ a2] exI [of _ L2] exI [of _ "R1 - 1"]) auto
    qed
  qed
qed

lemma partition_loop_exact:
  assumes "parting orig piv b e arr L R"
  shows "\<exists>arr' L'. partition_loop arr piv (int L) (int R) = Some (arr', int L') \<and> parting orig piv b e arr' L' L'"
  using assms
proof (induction "R - L" arbitrary: arr L R rule: less_induct)
  case less
  show ?case
  proof (cases "L < R")
    case False
    then have "L = R" using less.prems by (simp add: parting_def)
    then show ?thesis using less.prems by (intro exI [of _ arr] exI [of _ L]) (simp add: partition_loop.simps)
  next
    case True
    from partition_round_exact [OF less.prems True] obtain arr1 L1 R1 where
      1: "partition_round arr piv (int L) (int R) = Some (arr1, int L1, int R1)" "parting orig piv b e arr1 L1 R1" "R1 - L1 < R - L" by blast
    from less.hyps [OF 1(3,2)] obtain arr' L' where
      "partition_loop arr1 piv (int L1) (int R1) = Some (arr', int L')" "parting orig piv b e arr' L' L'" by blast
    with 1(1) True show ?thesis by (subst partition_loop.simps) simp
  qed
qed

subsection \<open>The stack of ranges\<close>

text \<open>
  Every pair of positions that is not inside one range of the stack is in order already; the range at
  depth \<open>k\<close> has at most \<open>n / 2 ^ k\<close> elements, since the shorter part is always on top.
\<close>

definition stack_inv :: "StridePermutation list \<Rightarrow> StridePermutation list \<Rightarrow> (nat \<times> nat) list \<Rightarrow> bool" where
  "stack_inv orig arr fs \<longleftrightarrow> length arr = length orig \<and> mset arr = mset orig
     \<and> (\<forall>(x, y) \<in> set fs. x \<le> y \<and> y \<le> length orig)
     \<and> sorted_wrt (\<lambda>(x, y) (x', y'). y \<le> x' \<or> y' \<le> x) fs
     \<and> (\<forall>k l. k < l \<longrightarrow> l < length orig \<longrightarrow> key arr k \<le> key arr l \<or> (\<exists>(x, y) \<in> set fs. x \<le> k \<and> l < y))
     \<and> (\<forall>k < length fs. (snd (fs ! k) - fst (fs ! k)) * 2 ^ k \<le> length orig)"

lemma stack_invD:
  assumes "stack_inv orig arr fs"
  shows "length arr = length orig" "mset arr = mset orig" "(x, y) \<in> set fs \<Longrightarrow> x \<le> y \<and> y \<le> length orig"
    "k < l \<Longrightarrow> l < length orig \<Longrightarrow> key arr k \<le> key arr l \<or> (\<exists>(x, y) \<in> set fs. x \<le> k \<and> l < y)"
    "k < length fs \<Longrightarrow> (snd (fs ! k) - fst (fs ! k)) * 2 ^ k \<le> length orig"
  using assms unfolding stack_inv_def by blast+

lemma stack_pop:
  assumes "stack_inv orig arr (gs @ [(x, y)])" "y \<le> x + 1"
  shows "stack_inv orig arr gs"
proof -
  note D = stack_invD [OF assms(1)]
  have "key arr k \<le> key arr l \<or> (\<exists>(x, y) \<in> set gs. x \<le> k \<and> l < y)" if "k < l" "l < length orig" for k l
    using D(4) [OF that] that assms(2) by auto
  moreover have "(snd (gs ! k) - fst (gs ! k)) * 2 ^ k \<le> length orig" if "k < length gs" for k
    using D(5) [of k] that by (simp add: nth_append)
  moreover have "sorted_wrt (\<lambda>(x, y) (x', y'). y \<le> x' \<or> y' \<le> x) gs"
    using assms(1) by (simp add: stack_inv_def sorted_wrt_append)
  moreover have "u \<le> v \<and> v \<le> length orig" if "(u, v) \<in> set gs" for u v using D(3) [of u v] that by simp
  ultimately show ?thesis using D(1,2) unfolding stack_inv_def by blast
qed

definition parted :: "StridePermutation list \<Rightarrow> StridePermutation list \<Rightarrow> nat \<Rightarrow> nat \<Rightarrow> nat \<Rightarrow> bool" where
  "parted arr arr2 x y L \<longleftrightarrow> length arr2 = length arr \<and> mset arr2 = mset arr \<and> x \<le> L \<and> L < y
     \<and> (\<forall>k. k < x \<or> y \<le> k \<longrightarrow> arr2 ! k = arr ! k) \<and> (\<forall>k \<in> {x..<y}. arr2 ! k \<in> (!) arr ` {x..<y})
     \<and> (\<forall>k l. x \<le> k \<longrightarrow> k \<le> L \<longrightarrow> L \<le> l \<longrightarrow> l < y \<longrightarrow> key arr2 k \<le> key arr2 l)"

lemma partition_exact:
  assumes "x + 1 < y" "y \<le> length arr"
  shows "\<exists>arr' L. partition_loop arr (arr ! x) (int x) (int (y - 1)) = Some (arr', int L)
    \<and> L < length arr' \<and> parted arr (arr'[L := arr ! x]) x y L"
proof -
  let ?piv = "arr ! x"
  have "arr ! k \<in> (!) arr ` {x..<y}" if "k \<in> {x..<y}" for k using that by blast
  then have "parting arr ?piv x y arr x (y - 1)"
    using assms unfolding parting_def by auto
  from partition_loop_exact [OF this] obtain arr' L where
    L: "partition_loop arr ?piv (int x) (int (y - 1)) = Some (arr', int L)" "parting arr ?piv x y arr' L L" by blast
  note P = L(2) [unfolded parting_def]
  have len: "L < length arr'" using P assms by auto
  have "key (arr'[L := ?piv]) k \<le> sp_stride ?piv" if "x \<le> k" "k \<le> L" for k
    using that P len by (cases "k = L") auto
  moreover have "sp_stride ?piv \<le> key (arr'[L := ?piv]) l" if "L \<le> l" "l < y" for l
    using that P len by (cases "l = L") auto
  ultimately have "\<forall>k l. x \<le> k \<longrightarrow> k \<le> L \<longrightarrow> L \<le> l \<longrightarrow> l < y \<longrightarrow> key (arr'[L := ?piv]) k \<le> key (arr'[L := ?piv]) l"
    by (meson order_trans)
  moreover have "arr'[L := ?piv] ! k = arr ! k" if "k < x \<or> y \<le> k" for k
  proof -
    have "k \<noteq> L" using that P by auto
    moreover have "arr' ! k = arr ! k" using that P by blast
    ultimately show ?thesis by simp
  qed
  ultimately have "parted arr (arr'[L := ?piv]) x y L" using P unfolding parted_def by simp
  with L(1) len show ?thesis by blast
qed

lemma stack_split:
  assumes inv: "stack_inv orig arr (gs @ [(x, y)])" and p: "parted arr arr2 x y L"
    and new: "(p = (x, L) \<and> q = (L + 1, y) \<or> p = (L + 1, y) \<and> q = (x, L))" "snd q - fst q \<le> snd p - fst p"
  shows "stack_inv orig arr2 (gs @ [p, q])"
proof -
  note D = stack_invD [OF inv] and P = p [unfolded parted_def]
  have xy: "x \<le> L" "L < y" "y \<le> length orig" using P D(3) [of x y] by auto
  have dis: "v \<le> x \<or> y \<le> u" if "(u, v) \<in> set gs" for u v
    using inv that by (force simp: stack_inv_def sorted_wrt_append)
  have srt: "sorted_wrt (\<lambda>(x, y) (x', y'). y \<le> x' \<or> y' \<le> x) gs" using inv by (simp add: stack_inv_def sorted_wrt_append)
  have "sorted_wrt (\<lambda>(x, y) (x', y'). y \<le> x' \<or> y' \<le> x) (gs @ [p, q])"
    using srt new(1) xy dis by (fastforce simp: sorted_wrt_append)
  moreover have "\<forall>(u, v) \<in> set (gs @ [p, q]). u \<le> v \<and> v \<le> length orig"
    using D(3) new(1) xy by auto
  moreover have "key arr2 k \<le> key arr2 l \<or> (\<exists>(u, v) \<in> set (gs @ [p, q]). u \<le> k \<and> l < v)"
    if kl: "k < l" "l < length orig" for k l
  proof -
    have old: "key arr a \<le> key arr c \<or> (\<exists>(u, v) \<in> set gs. u \<le> a \<and> c < v) \<or> x \<le> a \<and> c < y"
      if "a < c" "c < length orig" for a c using D(4) [OF that] by auto
    have inside: "\<exists>m. x \<le> m \<and> m < y \<and> arr2 ! a = arr ! m" if "x \<le> a" "a < y" for a
    proof -
      have "arr2 ! a \<in> (!) arr ` {x..<y}" using P that by auto
      then show ?thesis by auto
    qed
    have outside: "arr2 ! a = arr ! a" if "a < x \<or> y \<le> a" for a using P that by blast
    consider (both) "x \<le> k" "l < y" | (left) "x \<le> k" "k < y" "y \<le> l" | (right) "k < x" "x \<le> l" "l < y"
      | (out) "k < x \<or> y \<le> k" "l < x \<or> y \<le> l" using kl(1) by linarith
    then show ?thesis
    proof cases
      case both
      then consider "l < L" | "L < k" | "k \<le> L" "L \<le> l" by linarith
      then show ?thesis
      proof cases
        case 3
        then show ?thesis using P both by blast
      qed (use both new(1) in auto)
    next
      case left
      from inside [OF left(1,2)] obtain m where m: "x \<le> m" "m < y" "arr2 ! k = arr ! m" by blast
      have no: "\<not> (\<exists>(u, v) \<in> set gs. u \<le> m \<and> l < v)" using dis m left(3) by fastforce
      then have "key arr m \<le> key arr l" using old [of m l] m(2) left(3) kl(2) by auto
      then show ?thesis using m(3) outside [of l] left(3) by simp
    next
      case right
      from inside [OF right(2,3)] obtain m where m: "x \<le> m" "m < y" "arr2 ! l = arr ! m" by blast
      have no: "\<not> (\<exists>(u, v) \<in> set gs. u \<le> k \<and> m < v)" using dis m right(1) by fastforce
      then have "key arr k \<le> key arr m" using old [of k m] m(1,2) right(1) xy by auto
      then show ?thesis using m(3) outside [of k] right(1) by simp
    next
      case out
      then show ?thesis using old [OF kl] outside [of k] outside [of l] kl(1) by auto
    qed
  qed
  moreover have "(snd ((gs @ [p, q]) ! k) - fst ((gs @ [p, q]) ! k)) * 2 ^ k \<le> length orig" if k: "k < length (gs @ [p, q])" for k
  proof -
    consider "k < length gs" | "k = length gs" | "k = Suc (length gs)" using k by fastforce
    then show ?thesis
    proof cases
      case 1
      then show ?thesis using D(5) [of k] by (simp add: nth_append)
    next
      case 2
      have "snd p - fst p \<le> y - x" using new(1) xy by auto
      then have "(snd p - fst p) * 2 ^ length gs \<le> (y - x) * 2 ^ length gs" by (rule mult_le_mono1)
      also have "\<dots> \<le> length orig" using D(5) [of "length gs"] by (simp add: nth_append)
      finally show ?thesis using 2 by (simp add: nth_append)
    next
      case 3
      have "2 * (snd q - fst q) \<le> y - x" using new xy by auto
      then have "2 * (snd q - fst q) * 2 ^ length gs \<le> (y - x) * 2 ^ length gs" by (rule mult_le_mono1)
      also have "\<dots> \<le> length orig" using D(5) [of "length gs"] by (simp add: nth_append)
      finally show ?thesis using 3 by (simp add: nth_append mult.commute mult.left_commute)
    qed
  qed
  ultimately show ?thesis using D(1,2) P unfolding stack_inv_def by simp
qed

text \<open>The arrays \<open>beg\<close> and \<open>end\<close> hold the stack.\<close>

definition holds :: "cells \<Rightarrow> cells \<Rightarrow> (nat \<times> nat) list \<Rightarrow> bool" where
  "holds begs ends fs \<longleftrightarrow> length begs = 300 \<and> length ends = 300 \<and> length fs \<le> 300
     \<and> (\<forall>k < length fs. begs ! k = Some (int (fst (fs ! k))) \<and> ends ! k = Some (int (snd (fs ! k))))"

lemma push_range_exact:
  assumes h: "holds begs ends (gs @ [(x, y)])" and b: "x \<le> L" "L < y" "y < 2 ^ 31" and room: "length gs + 1 < 300"
  shows "\<exists>p q begs' ends'. push_range begs ends (int (length gs)) (int L) = Some (begs', ends', int (length gs) + 1)
    \<and> holds begs' ends' (gs @ [p, q]) \<and> (p = (x, L) \<and> q = (L + 1, y) \<or> p = (L + 1, y) \<and> q = (x, L))
    \<and> snd q - fst q \<le> snd p - fst p"
proof -
  let ?i = "length gs"
  have len: "length begs = 300" "length ends = 300" using h by (simp_all add: holds_def)
  have top: "begs ! ?i = Some (int x)" "ends ! ?i = Some (int y)" using h by (auto simp: holds_def nth_append dest!: spec [of _ ?i])
  have low: "begs ! k = Some (int (fst (gs ! k))) \<and> ends ! k = Some (int (snd (gs ! k)))" if "k < ?i" for k
    using h that unfolding holds_def by (auto simp: nth_append dest!: spec [of _ k])
  have n1: "int ?i + 1 = int (Suc ?i)" by simp
  have r: "i32 (int y - int (L + 1)) = Some (int y - int (L + 1))" "i32 (int L - int x) = Some (int L - int x)"
    using b by (auto simp: i32_def)
  define B where "B = begs[Suc ?i := Some (int (L + 1))]"
  define E where "E = ends[Suc ?i := Some (int y), ?i := Some (int L)]"
  have B: "length B = 300" "B ! ?i = Some (int x)" "B ! Suc ?i = Some (int (L + 1))"
    using len room top by (simp_all add: B_def)
  have E: "length E = 300" "E ! ?i = Some (int L)" "E ! Suc ?i = Some (int y)"
    using len room by (simp_all add: E_def)
  have step: "push_range begs ends (int ?i) (int L) =
      (if int y - int (L + 1) > int L - int x
       then Some (B[Suc ?i := Some (int x), ?i := Some (int (L + 1))], E[Suc ?i := Some (int L), ?i := Some (int y)], int ?i + 1)
       else Some (B, E, int ?i + 1))"
  proof -
    have "wr begs (int ?i + 1) (Some (int L + 1)) = Some B" unfolding n1 wr_nat using len room by (simp add: B_def add.commute)
    moreover have "rd ends (int ?i) = Some (Some (int y))" using top len room by simp
    moreover have "wr ends (int ?i + 1) (Some (int y)) = Some (ends[Suc ?i := Some (int y)])" unfolding n1 wr_nat using len room by simp
    moreover have "wr (ends[Suc ?i := Some (int y)]) (int ?i) (Some (int L)) = Some E" using len room by (simp add: E_def)
    moreover have "rd E (int ?i + 1) = Some (Some (int y))" "rd B (int ?i + 1) = Some (Some (int (L + 1)))"
      "rd E (int ?i) = Some (Some (int L))" "rd B (int ?i) = Some (Some (int x))"
      unfolding n1 rd_nat using B E room by simp_all
    moreover have "wr B (int ?i + 1) v = Some (B[Suc ?i := v])" "wr E (int ?i + 1) v = Some (E[Suc ?i := v])" for v
      unfolding n1 wr_nat using B E room by simp_all
    moreover have "wr (B[Suc ?i := v]) (int ?i) w = Some (B[Suc ?i := v, ?i := w])"
      "wr (E[Suc ?i := v]) (int ?i) w = Some (E[Suc ?i := v, ?i := w])" for v w
      using B E room by simp_all
    ultimately show ?thesis using r unfolding push_range_def by (simp add: Let_def)
  qed
  have keepB: "B ! k = begs ! k" "E ! k = ends ! k" if "k < ?i" for k using that by (simp_all add: B_def E_def)
  have H: "holds B' E' (gs @ [p, q])" if l: "length B' = 300" "length E' = 300"
    and k: "\<And>k. k < ?i \<Longrightarrow> B' ! k = begs ! k \<and> E' ! k = ends ! k"
    and pq: "B' ! ?i = Some (int (fst p))" "E' ! ?i = Some (int (snd p))" "B' ! Suc ?i = Some (int (fst q))" "E' ! Suc ?i = Some (int (snd q))"
    for B' E' p q
  proof -
    have "B' ! k = Some (int (fst ((gs @ [p, q]) ! k))) \<and> E' ! k = Some (int (snd ((gs @ [p, q]) ! k)))"
      if kl: "k < length (gs @ [p, q])" for k
    proof -
      consider "k < ?i" | "k = ?i" | "k = Suc ?i" using kl by fastforce
      then show ?thesis using k low pq by cases (simp_all add: nth_append)
    qed
    then show ?thesis using l room unfolding holds_def by simp
  qed
  show ?thesis
  proof (cases "int y - int (L + 1) > int L - int x")
    case True
    have "holds (B[Suc ?i := Some (int x), ?i := Some (int (L + 1))]) (E[Suc ?i := Some (int L), ?i := Some (int y)]) (gs @ [(L + 1, y), (x, L)])"
      by (rule H) (use B E room keepB in simp_all)
    moreover have "push_range begs ends (int ?i) (int L) = Some (B[Suc ?i := Some (int x), ?i := Some (int (L + 1))],
        E[Suc ?i := Some (int L), ?i := Some (int y)], int ?i + 1)" using step True by simp
    moreover have "L - x \<le> y - (L + 1)" using True by linarith
    ultimately show ?thesis by (intro exI [of _ "(L + 1, y)"] exI [of _ "(x, L)"] exI conjI) (assumption, assumption, simp_all)
  next
    case False
    have "holds B E (gs @ [(x, L), (L + 1, y)])"
      by (rule H) (use B E room keepB in simp_all)
    moreover have "push_range begs ends (int ?i) (int L) = Some (B, E, int ?i + 1)" using step False by simp
    moreover have "y - (L + 1) \<le> L - x" using False b by linarith
    ultimately show ?thesis by (intro exI [of _ "(x, L)"] exI [of _ "(L + 1, y)"] exI conjI) (assumption, assumption, simp_all)
  qed
qed

lemma stack_loop_exact:
  assumes "stack_inv orig arr fs" "holds begs ends fs" "length orig < 2 ^ 31"
  shows "\<exists>arr'. stack_loop arr begs ends (int (length fs) - 1) = Some arr' \<and> stack_inv orig arr' []"
  using assms
proof (induction "sum_list (map (\<lambda>(x, y). 2 * (y - x) + 1) fs)" arbitrary: arr begs ends fs rule: less_induct)
  case less
  show ?case
  proof (cases fs rule: rev_cases)
    case Nil
    then show ?thesis using less.prems(1) by (simp add: stack_loop.simps)
  next
    case (snoc gs f)
    obtain x y where f: "f = (x, y)" by (cases f)
    have fs: "fs = gs @ [(x, y)]" by (simp add: snoc f)
    note inv = less.prems(1) [unfolded fs] and h = less.prems(2) [unfolded fs]
    let ?i = "length gs"
    have len: "length begs = 300" "length ends = 300" "?i < 300" using h by (simp_all add: holds_def)
    have top: "begs ! ?i = Some (int x)" "ends ! ?i = Some (int y)" using h by (auto simp: holds_def nth_append dest!: spec [of _ ?i])
    have xy: "x \<le> y" "y \<le> length orig" using stack_invD(3) [OF inv, of x y] by simp_all
    have y32: "y < 2 ^ 31" using xy(2) less.prems(3) by linarith
    have i32: "i32 (int y - 1) = Some (int y - 1)" using y32 by (auto simp: i32_def)
    show ?thesis
    proof (cases "x + 1 < y")
      case False
      have inv': "stack_inv orig arr gs" by (rule stack_pop [OF inv]) (use False in simp)
      have h': "holds begs ends gs" using h unfolding holds_def by (auto simp: nth_append split: if_splits)
      have "sum_list (map (\<lambda>(x, y). 2 * (y - x) + 1) gs) < sum_list (map (\<lambda>(x, y). 2 * (y - x) + 1) fs)"
        by (simp add: fs)
      from less.hyps [OF this inv' h' less.prems(3)] obtain arr' where
        "stack_loop arr begs ends (int (length gs) - 1) = Some arr'" "stack_inv orig arr' []" by blast
      moreover have "\<not> int x < int y - 1" using False by simp
      ultimately show ?thesis using top len i32 by (intro exI [of _ arr']) (simp add: fs stack_loop.simps [of arr begs ends])
    next
      case True
      have la: "length arr = length orig" by (rule stack_invD(1) [OF inv])
      obtain arr1 L where L: "partition_loop arr (arr ! x) (int x) (int (y - 1)) = Some (arr1, int L)"
        "L < length arr1" "parted arr (arr1[L := arr ! x]) x y L"
        using partition_exact [OF True, of arr] xy la by auto
      have b: "x \<le> L" "L < y" using L(3) by (simp_all add: parted_def)
      have "2 * 2 ^ ?i \<le> (y - x) * 2 ^ ?i" by (rule mult_le_mono1) (use True in simp)
      also have "\<dots> \<le> length orig" using stack_invD(5) [OF inv, of ?i] by (simp add: nth_append)
      also note less.prems(3)
      finally have "(2::nat) ^ Suc ?i < 2 ^ 31" by (simp only: power_Suc)
      then have "Suc ?i < 31" by (rule power_less_imp_less_exp [rotated]) simp
      then have room: "?i + 1 < 300" by simp
      from push_range_exact [OF h b y32 room] obtain p q begs' ends' where
        P: "push_range begs ends (int ?i) (int L) = Some (begs', ends', int ?i + 1)" "holds begs' ends' (gs @ [p, q])"
          "p = (x, L) \<and> q = (L + 1, y) \<or> p = (L + 1, y) \<and> q = (x, L)" "snd q - fst q \<le> snd p - fst p" by blast
      have inv': "stack_inv orig (arr1[L := arr ! x]) (gs @ [p, q])" by (rule stack_split [OF inv L(3) P(3,4)])
      have "sum_list (map (\<lambda>(x, y). 2 * (y - x) + 1) (gs @ [p, q])) < sum_list (map (\<lambda>(x, y). 2 * (y - x) + 1) fs)"
        using P(3) b by (auto simp: fs)
      from less.hyps [OF this inv' P(2) less.prems(3)] obtain arr' where
        R: "stack_loop (arr1[L := arr ! x]) begs' ends' (int ?i + 1) = Some arr'" "stack_inv orig arr' []" by (auto simp: add.commute)
      have r: "rd arr (int x) = Some (arr ! x)" "rd begs (int ?i) = Some (Some (int x))" "rd ends (int ?i) = Some (Some (int y))"
        using True xy la top len by simp_all
      have w: "wr arr1 (int L) (arr ! x) = Some (arr1[L := arr ! x])" using L(2) by simp
      have "int (y - 1) = int y - 1" using True by (simp add: of_nat_diff)
      note L1 = L(1) [unfolded this]
      have lt: "int x < int y - 1" using True by simp
      have "stack_loop arr begs ends (int ?i) = Some arr'"
        by (subst stack_loop.simps) (simp only: r bind.bind_lunit i32 lt if_True L1 w P(1) R(1) prod.case of_nat_0_le_iff)
      then have "stack_loop arr begs ends (int (length fs) - 1) = Some arr'" by (simp add: fs)
      with R(2) show ?thesis by blast
    qed
  qed
qed

lemma quickSort_exact:
  assumes "length arr < 2 ^ 31"
  shows "\<exists>arr'. quickSort arr (int (length arr)) = Some arr' \<and> mset arr' = mset arr
    \<and> sorted_wrt (\<lambda>a b. sp_stride a \<le> sp_stride b) arr'"
proof -
  let ?c = "replicate 300 None :: cells"
  have "stack_inv arr arr [(0, length arr)]" by (auto simp: stack_inv_def)
  moreover have "holds (?c[0 := Some 0]) (?c[0 := Some (int (length arr))]) [(0, length arr)]" by (simp add: holds_def)
  ultimately obtain arr' where r: "stack_loop arr (?c[0 := Some 0]) (?c[0 := Some (int (length arr))]) 0 = Some arr'"
    "stack_inv arr arr' []" using stack_loop_exact [OF _ _ assms] by fastforce
  have "wr ?c 0 v = Some (?c[0 := v])" for v by (simp add: wr_def)
  then have "quickSort arr (int (length arr)) = Some arr'"
    using r(1) by (simp add: quickSort_def MAX_LEVELS_def new_ints_def)
  moreover have "sorted_wrt (\<lambda>a b. sp_stride a \<le> sp_stride b) arr'"
    using stack_invD(1,4) [OF r(2)] by (auto simp: sorted_wrt_iff_nth_less)
  ultimately show ?thesis using stack_invD(2) [OF r(2)] by blast
qed

end
