(* ===== verification/RawIteration.thy ===== *)
theory RawIteration
  imports ShapeIndex "HOL-Library.Multiset"
begin

text \<open>
  Iteration over strided arrays (\<open>include/pairwise_util.h\<close>): the macros \<open>ND4J_RAW_ITER_START\<close> and
  \<open>ND4J_RAW_ITER_ONE_NEXT\<close> to \<open>ND4J_RAW_ITER_FOUR_NEXT\<close>, which walk a counter through the
  coordinates of a shape while they move one data pointer per array, the functions
  \<open>PrepareOneRawArrayIter\<close> to \<open>PrepareThreeRawArrayIter\<close>, and the split of work \<open>BlockInformation\<close>.
  The macros for one to four arrays differ only in the number of pointers; an array is a pair of its
  data pointer, counted in elements, and its strides.
\<close>

type_synonym operand = "int \<times> int list"

subsection \<open>Code\<close>

definition wrap_pointers :: "int \<Rightarrow> nat \<Rightarrow> operand list \<Rightarrow> operand list option" where
  "wrap_pointers d idim arrays = those (map (\<lambda>(p, st). do {
     e \<leftarrow> i32 (d - 1); s \<leftarrow> rd st (int idim); m \<leftarrow> i32 (e * s); Some (p - m, st) }) arrays)"

definition step_pointers :: "nat \<Rightarrow> operand list \<Rightarrow> operand list option" where
  "step_pointers idim arrays = those (map (\<lambda>(p, st). do { s \<leftarrow> rd st (int idim); Some (p + s, st) }) arrays)"

text \<open>
  The \<open>for\<close> loop of the macros.  The second number counts the axes that remain; the first component of
  the result is the value of \<open>idim\<close> after the loop.
\<close>

fun raw_next :: "int list \<Rightarrow> nat \<Rightarrow> nat \<Rightarrow> int list \<Rightarrow> operand list \<Rightarrow> (nat \<times> int list \<times> operand list) option" where
  "raw_next shape idim 0 coord arrays = Some (idim, coord, arrays)"
| "raw_next shape idim (Suc n) coord arrays = do {
     c \<leftarrow> rd coord (int idim);
     c \<leftarrow> i32 (c + 1);
     coord \<leftarrow> wr coord (int idim) c;
     d \<leftarrow> rd shape (int idim);
     if c = d then do {
       coord \<leftarrow> wr coord (int idim) 0;
       arrays \<leftarrow> wrap_pointers d idim arrays;
       raw_next shape (Suc idim) n coord arrays }
     else do {
       arrays \<leftarrow> step_pointers idim arrays;
       Some (idim, coord, arrays) } }"

text \<open>
  The \<open>do\<close> loop around the body; the result is the list of the data pointers that the body sees.
\<close>

partial_function (option) raw_loop :: "nat \<Rightarrow> int list \<Rightarrow> int list \<Rightarrow> operand list \<Rightarrow> int list list option" where
  [code]: "raw_loop ndim shape coord arrays = do {
     (idim, coord, next) \<leftarrow> raw_next shape 0 ndim coord arrays;
     rest \<leftarrow> (if idim < ndim then raw_loop ndim shape coord next else Some []);
     Some (map fst arrays # rest) }"

definition raw_iter :: "nat \<Rightarrow> int list \<Rightarrow> operand list \<Rightarrow> int list list option" where
  "raw_iter ndim shape arrays = raw_loop ndim shape (replicate ndim 0) arrays"

text \<open>\<open>ND4J_RAW_ITER_ONE_NEXTF\<close> runs through the axes from the last one.\<close>

fun raw_nextF :: "int list \<Rightarrow> nat \<Rightarrow> int list \<Rightarrow> operand list \<Rightarrow> (int \<times> int list \<times> operand list) option" where
  "raw_nextF shape 0 coord arrays = Some (-1, coord, arrays)"
| "raw_nextF shape (Suc idim) coord arrays = do {
     c \<leftarrow> rd coord (int idim);
     c \<leftarrow> i32 (c + 1);
     coord \<leftarrow> wr coord (int idim) c;
     d \<leftarrow> rd shape (int idim);
     if c = d then do {
       coord \<leftarrow> wr coord (int idim) 0;
       arrays \<leftarrow> wrap_pointers d idim arrays;
       raw_nextF shape idim coord arrays }
     else do {
       arrays \<leftarrow> step_pointers idim arrays;
       Some (int idim, coord, arrays) } }"

partial_function (option) raw_loopF :: "nat \<Rightarrow> int list \<Rightarrow> int list \<Rightarrow> operand list \<Rightarrow> int list list option" where
  [code]: "raw_loopF ndim shape coord arrays = do {
     (idim, coord, next) \<leftarrow> raw_nextF shape ndim coord arrays;
     rest \<leftarrow> (if idim \<ge> 0 then raw_loopF ndim shape coord next else Some []);
     Some (map fst arrays # rest) }"

definition raw_iterF :: "nat \<Rightarrow> int list \<Rightarrow> operand \<Rightarrow> int list list option" where
  "raw_iterF ndim shape array = raw_loopF ndim shape (replicate ndim 0) [array]"

subsection \<open>Preparation\<close>

text \<open>
  The copies of shape and strides; the results are the contents of the output arrays.  For several
  arrays the axes on which the first array has a negative stride are reversed in all of them, and an
  array without elements is replaced by one axis of length 0.
\<close>

definition copy_ints :: "nat \<Rightarrow> int list \<Rightarrow> int list option" where
  "copy_ints n xs = (if n \<le> length xs then Some (take n xs) else None)"

fun copy_operands :: "nat \<Rightarrow> operand list \<Rightarrow> operand list option" where
  "copy_operands n [] = Some []"
| "copy_operands n ((p, st) # arrays) = do {
     st \<leftarrow> copy_ints n st; rest \<leftarrow> copy_operands n arrays; Some ((p, st) # rest) }"

definition reverse_axis :: "nat \<Rightarrow> int \<Rightarrow> operand list \<Rightarrow> operand list option" where
  "reverse_axis i d arrays = those (map (\<lambda>(p, st). do {
     s \<leftarrow> rd st (int i);
     e \<leftarrow> i32 (d - 1);
     m \<leftarrow> i32 (s * e);
     s' \<leftarrow> i32 (- s);
     st \<leftarrow> wr st (int i) s';
     Some (p + m, st) }) arrays)"

fun reverse_axes_loop :: "int list \<Rightarrow> nat \<Rightarrow> nat \<Rightarrow> operand list \<Rightarrow> (nat \<times> int list \<times> operand list) option" where
  "reverse_axes_loop shape i 0 arrays = Some (i, shape, arrays)"
| "reverse_axes_loop shape i (Suc n) arrays = do {
     s \<leftarrow> rd (snd (hd arrays)) (int i);
     d \<leftarrow> rd shape (int i);
     arrays \<leftarrow> (if s < 0 then reverse_axis i d arrays else Some arrays);
     if d = 0 then Some (1, 0 # tl shape, map (\<lambda>(p, st). (p, 0 # tl st)) arrays)
     else reverse_axes_loop shape (Suc i) n arrays }"

definition PrepareOneRawArrayIter :: "nat \<Rightarrow> int list \<Rightarrow> operand \<Rightarrow> (nat \<times> int list \<times> operand list) option" where
  "PrepareOneRawArrayIter ndim shape array = do {
     shape \<leftarrow> copy_ints ndim shape; arrays \<leftarrow> copy_operands ndim [array]; Some (ndim, shape, arrays) }"

definition PrepareTwoRawArrayIter :: "nat \<Rightarrow> int list \<Rightarrow> operand \<Rightarrow> operand \<Rightarrow> (nat \<times> int list \<times> operand list) option" where
  "PrepareTwoRawArrayIter ndim shape A B = do {
     shape \<leftarrow> copy_ints ndim shape; arrays \<leftarrow> copy_operands ndim [A, B]; reverse_axes_loop shape 0 ndim arrays }"

definition PrepareThreeRawArrayIter ::
  "nat \<Rightarrow> int list \<Rightarrow> operand \<Rightarrow> operand \<Rightarrow> operand \<Rightarrow> (nat \<times> int list \<times> operand list) option" where
  "PrepareThreeRawArrayIter ndim shape A B C =
     (if ndim = 0 then Some (1, [1], map (\<lambda>(p, st). (p, [0])) [A, B, C])
      else do {
        shape \<leftarrow> copy_ints ndim shape; arrays \<leftarrow> copy_operands ndim [A, B, C];
        if ndim = 1 then do {
          s \<leftarrow> rd (snd A) 0; d \<leftarrow> rd shape 0;
          arrays \<leftarrow> (if s \<ge> 0 then Some arrays else reverse_axis 0 d arrays);
          Some (1, shape, arrays) }
        else reverse_axes_loop shape 0 ndim arrays })"

subsection \<open>Blocks of work\<close>

record BlockInformation =
  bi_items :: int
  bi_threads :: int
  bi_chunks :: int
  bi_modulo :: int

definition BlockInformation_new :: "int \<Rightarrow> int \<Rightarrow> int \<Rightarrow> BlockInformation option" where
  "BlockInformation_new max_threads len threshold = do {
     q \<leftarrow> cdiv len threshold;
     let tadsPerThread = to_int32 q;
     let threads = min (max 1 tadsPerThread) max_threads;
     items \<leftarrow> cdiv len threads;
     let items = (if items < 1 then 1 else items);
     chunks \<leftarrow> cdiv len items;
     modulo \<leftarrow> cmod len items;
     let chunks = (if modulo > 0 then chunks + 1 else chunks);
     Some \<lparr>bi_items = items, bi_threads = threads, bi_chunks = chunks, bi_modulo = modulo\<rparr> }"

subsection \<open>The odometer\<close>

text \<open>
  One step of the counter, on the axes that remain; the flag says that an axis was advanced without
  wrapping.  The pointers follow the inner product of strides and coordinates.
\<close>

fun odometer :: "int list \<Rightarrow> int list \<Rightarrow> bool \<times> int list" where
  "odometer (d # ds) (c # cs) = (if c + 1 = d then (let (b, cs') = odometer ds cs in (b, 0 # cs')) else (True, (c + 1) # cs))"
| "odometer _ _ = (False, [])"

fun inner :: "int list \<Rightarrow> int list \<Rightarrow> int" where
  "inner (t # ts) (x # xs) = x * t + inner ts xs"
| "inner _ _ = 0"

lemma odometer_dec:
  "pos_dims ds \<Longrightarrow> 0 \<le> k \<Longrightarrow> k < prod_list ds \<Longrightarrow>
     odometer ds (dec_f ds k) = (k + 1 < prod_list ds, dec_f ds (if k + 1 < prod_list ds then k + 1 else 0))"
proof (induction ds arbitrary: k)
  case (Cons d ds)
  then have d: "0 < d" "pos_dims ds" by simp_all
  have q: "0 \<le> k div d" "k div d < prod_list ds"
    using Cons.prems d by (simp_all add: div_less_factor pos_imp_zdiv_nonneg_iff)
  show ?case
  proof (cases "k mod d + 1 = d")
    case True
    have k: "k + 1 = d * (k div d + 1)" using mult_div_mod_eq [of d k] True unfolding distrib_left by linarith
    then have kd: "(k + 1) mod d = 0" "(k + 1) div d = k div d + 1" using d(1) by simp_all
    have "k + 1 < d * prod_list ds \<longleftrightarrow> k div d + 1 < prod_list ds" unfolding k using d(1) by simp
    moreover have "dec_f (d # ds) 0 = 0 # dec_f ds 0" by simp
    ultimately show ?thesis using Cons.IH [OF d(2) q] True kd by simp
  next
    case False
    have "k mod d + 1 < d" using pos_mod_bound [OF d(1), of k] False by linarith
    then have kd: "(k + 1) mod d = k mod d + 1" "(k + 1) div d = k div d"
    proof -
      have k: "k + 1 = d * (k div d) + (k mod d + 1)" "0 \<le> k mod d + 1"
        using mult_div_mod_eq [of d k] pos_mod_sign [OF d(1), of k] by linarith+
      show "(k + 1) mod d = k mod d + 1" by (rule int_mod_pos_eq [OF k]) (rule \<open>k mod d + 1 < d\<close>)
      show "(k + 1) div d = k div d" by (rule int_div_pos_eq [OF k]) (rule \<open>k mod d + 1 < d\<close>)
    qed
    have "k + 1 < d * prod_list ds"
    proof -
      have "k mod d + 1 + d * (k div d) < d * prod_list ds"
        by (rule digit_bound(1)) (use \<open>k mod d + 1 < d\<close> pos_mod_sign [OF d(1), of k] q in simp_all)
      then show ?thesis using mult_div_mod_eq [of d k] by linarith
    qed
    then show ?thesis using False kd by simp
  qed
qed simp

text \<open>The products of the macros fit \<open>int\<close>, and every array has a stride for every axis.\<close>

definition moves_fit :: "int list \<Rightarrow> operand list \<Rightarrow> bool" where
  "moves_fit sh arrays \<longleftrightarrow> pos_dims sh \<and> (\<forall>d \<in> set sh. d < 2 ^ 31)
     \<and> (\<forall>(p, st) \<in> set arrays. length st = length sh
          \<and> (\<forall>i < length sh. \<bar>st ! i\<bar> < 2 ^ 31 \<and> \<bar>(sh ! i - 1) * st ! i\<bar> < 2 ^ 31))"

lemma those_map_Some: "(\<And>x. x \<in> set xs \<Longrightarrow> f x = Some (g x)) \<Longrightarrow> those (map f xs) = Some (map g xs)"
  by (induction xs) simp_all

lemma wrap_pointers_exact:
  assumes "moves_fit sh arrays" "i < length sh"
  shows "wrap_pointers (sh ! i) i arrays = Some (map (\<lambda>(p, st). (p - (sh ! i - 1) * st ! i, st)) arrays)"
  unfolding wrap_pointers_def
proof (rule those_map_Some, clarify)
  fix p st assume x: "(p, st) \<in> set arrays"
  have "sh ! i \<in> set sh" using assms(2) by simp
  then have "0 < sh ! i" "sh ! i < 2 ^ 31" using assms(1) by (auto simp: moves_fit_def pos_dims_def)
  then have "i32 (sh ! i - 1) = Some (sh ! i - 1)" by (simp add: i32_def)
  moreover have len: "length st = length sh" and "\<bar>(sh ! i - 1) * st ! i\<bar> < 2 ^ 31"
    using assms x unfolding moves_fit_def by blast+
  then have "i32 ((sh ! i - 1) * st ! i) = Some ((sh ! i - 1) * st ! i)" unfolding i32_def by auto
  moreover note len
  ultimately show "(do { e \<leftarrow> i32 (sh ! i - 1); s \<leftarrow> rd st (int i); m \<leftarrow> i32 (e * s); Some (p - m, st) })
      = Some (p - (sh ! i - 1) * st ! i, st)" using assms(2) by simp
qed

lemma step_pointers_exact:
  assumes "moves_fit sh arrays" "i < length sh"
  shows "step_pointers i arrays = Some (map (\<lambda>(p, st). (p + st ! i, st)) arrays)"
  unfolding step_pointers_def
  by (rule those_map_Some) (use assms in \<open>auto simp: moves_fit_def\<close>)

text \<open>The effect of the macro: the counter steps, and every pointer moves by the change of the inner product.\<close>

definition moved :: "nat \<Rightarrow> int list \<Rightarrow> int list \<Rightarrow> operand list \<Rightarrow> operand list" where
  "moved i cs cs' arrays = map (\<lambda>(p, st). (p + inner (drop i st) cs' - inner (drop i st) cs, st)) arrays"

lemma moves_fit_map:
  assumes "moves_fit sh arrays" "\<And>x. snd (f x) = snd x"
  shows "moves_fit sh (map f arrays)"
proof -
  have "\<forall>x \<in> set (map f arrays). length (snd x) = length sh
      \<and> (\<forall>i < length sh. \<bar>snd x ! i\<bar> < 2 ^ 31 \<and> \<bar>(sh ! i - 1) * snd x ! i\<bar> < 2 ^ 31)"
    using assms by (auto simp: moves_fit_def)
  then show ?thesis using assms(1) unfolding moves_fit_def by (simp add: case_prod_beta)
qed

lemma raw_next_exact:
  assumes "moves_fit sh arrays" "in_box ds cs" "sh = pre @ ds" "length cpre = length pre"
  shows "\<exists>idim. raw_next sh (length pre) (length ds) (cpre @ cs) arrays
      = Some (idim, cpre @ snd (odometer ds cs), moved (length pre) cs (snd (odometer ds cs)) arrays)
    \<and> (idim < length sh \<longleftrightarrow> fst (odometer ds cs))"
  using assms
proof (induction ds cs arbitrary: pre cpre arrays rule: in_box.induct)
  case 1
  then show ?case by (simp add: moved_def)
next
  case (2 d ds c cs)
  let ?i = "length pre"
  have d: "sh ! ?i = d" "?i < length sh" using 2(4) by simp_all
  have c: "0 \<le> c" "c < d" "d < 2 ^ 31" using 2(2-4) by (auto simp: moves_fit_def)
  have i: "i32 (c + 1) = Some (c + 1)" using c by (simp add: i32_def)
  have len: "length st = length sh" if "(p, st) \<in> set arrays" for p st using 2(2) that by (auto simp: moves_fit_def)
  have dr: "drop ?i st = st ! ?i # drop (Suc ?i) st" if "(p, st) \<in> set arrays" for p st
    using len [OF that] d(2) by (simp add: Cons_nth_drop_Suc)
  have r: "rd (cpre @ c # cs) (int ?i) = Some c" "wr (cpre @ c # cs) (int ?i) v = Some (cpre @ v # cs)" for v
    unfolding 2(5) [symmetric] by (simp_all add: list_update_append)
  have r2: "wr (cpre @ v # cs) (int ?i) 0 = Some (cpre @ 0 # cs)" for v
    unfolding 2(5) [symmetric] by (simp add: list_update_append)
  show ?case
  proof (cases "c + 1 = d")
    case True
    let ?a = "map (\<lambda>(p, st). (p - (d - 1) * st ! ?i, st)) arrays"
    have "moves_fit sh ?a" by (rule moves_fit_map [OF 2(2)]) auto
    moreover have "in_box ds cs" using 2(3) by simp
    moreover have "sh = (pre @ [d]) @ ds" "length (cpre @ [0]) = length (pre @ [d])" using 2(4,5) by simp_all
    ultimately obtain idim where
      n: "raw_next sh (length (pre @ [d])) (length ds) ((cpre @ [0]) @ cs) ?a
        = Some (idim, (cpre @ [0]) @ snd (odometer ds cs), moved (length (pre @ [d])) cs (snd (odometer ds cs)) ?a)"
      "idim < length sh \<longleftrightarrow> fst (odometer ds cs)"
      using 2(1) by blast
    have "moved (length (pre @ [d])) cs (snd (odometer ds cs)) ?a = moved ?i (c # cs) (0 # snd (odometer ds cs)) arrays"
      using dr True by (auto simp: moved_def algebra_simps)
    then have "raw_next sh ?i (length (d # ds)) (cpre @ c # cs) arrays
        = Some (idim, cpre @ 0 # snd (odometer ds cs), moved ?i (c # cs) (0 # snd (odometer ds cs)) arrays)"
      using n(1) r r2 i True d wrap_pointers_exact [OF 2(2) d(2)] by simp
    moreover have "odometer (d # ds) (c # cs) = (fst (odometer ds cs), 0 # snd (odometer ds cs))"
      using True by (simp add: split_beta)
    ultimately show ?thesis using n(2) by auto
  next
    case False
    have "step_pointers ?i arrays = Some (moved ?i (c # cs) ((c + 1) # cs) arrays)"
      unfolding step_pointers_exact [OF 2(2) d(2)] using dr by (auto simp: moved_def algebra_simps)
    then have "raw_next sh ?i (length (d # ds)) (cpre @ c # cs) arrays
        = Some (?i, cpre @ (c + 1) # cs, moved ?i (c # cs) ((c + 1) # cs) arrays)"
      using r i False d by simp
    then show ?thesis using False d(2) by simp
  qed
qed simp_all

subsection \<open>The whole iteration\<close>

definition visit :: "int list \<Rightarrow> operand list \<Rightarrow> int \<Rightarrow> int list" where
  "visit sh arrays k = map (\<lambda>(p, st). p + inner st (dec_f sh k)) arrays"

definition positioned :: "int list \<Rightarrow> operand list \<Rightarrow> int \<Rightarrow> operand list" where
  "positioned sh arrays k = map (\<lambda>(p, st). (p + inner st (dec_f sh k), st)) arrays"

lemma dec_f_zero: "dec_f sh 0 = replicate (length sh) 0"
  by (induction sh) simp_all

lemma inner_zero: "inner st (replicate n 0) = 0"
proof (induction n arbitrary: st)
  case (Suc n)
  then show ?case by (cases st) simp_all
qed simp

lemma positioned_zero: "positioned sh arrays 0 = arrays"
  by (simp add: positioned_def dec_f_zero inner_zero map_idI split_beta)

lemma raw_loop_exact:
  assumes fit: "moves_fit sh arrays" and k: "k < nat (prod_list sh)"
  shows "raw_loop (length sh) sh (dec_f sh (int k)) (positioned sh arrays (int k))
    = Some (map (\<lambda>m. visit sh arrays (int m)) [k..<nat (prod_list sh)])"
  using k
proof (induction "nat (prod_list sh) - k" arbitrary: k rule: less_induct)
  case less
  let ?P = "prod_list sh" and ?a = "positioned sh arrays (int k)"
  have pos: "pos_dims sh" using fit by (simp add: moves_fit_def)
  have kP: "0 \<le> int k" "int k < ?P" using less.prems by simp_all
  have fit': "moves_fit sh ?a" unfolding positioned_def by (rule moves_fit_map [OF fit]) auto
  have box: "in_box sh (dec_f sh (int k))" using enc_dec_f [OF pos kP] by blast
  from raw_next_exact [OF fit' box, of "[]" "[]"] obtain idim where
    n: "raw_next sh 0 (length sh) (dec_f sh (int k)) ?a = Some (idim, snd (odometer sh (dec_f sh (int k))),
         moved 0 (dec_f sh (int k)) (snd (odometer sh (dec_f sh (int k)))) ?a)"
      "idim < length sh \<longleftrightarrow> fst (odometer sh (dec_f sh (int k)))" by auto
  have o: "odometer sh (dec_f sh (int k)) = (int k + 1 < ?P, dec_f sh (if int k + 1 < ?P then int k + 1 else 0))"
    by (rule odometer_dec [OF pos kP])
  have m: "moved 0 (dec_f sh (int k)) (dec_f sh j) ?a = positioned sh arrays j" for j
    by (auto simp: moved_def positioned_def)
  have v: "map fst ?a = visit sh arrays (int k)" by (auto simp: positioned_def visit_def)
  show ?case
  proof (cases "int k + 1 < ?P")
    case True
    then have k1: "Suc k < nat ?P" by linarith
    have "raw_loop (length sh) sh (dec_f sh (int (Suc k))) (positioned sh arrays (int (Suc k)))
        = Some (map (\<lambda>m. visit sh arrays (int m)) [Suc k..<nat ?P])"
      by (rule less.hyps [OF _ k1]) (use less.prems in simp)
    moreover have "[k..<nat ?P] = k # [Suc k..<nat ?P]" using less.prems by (simp add: upt_conv_Cons)
    ultimately show ?thesis
      using n True v by (subst raw_loop.simps) (simp add: o m add.commute)
  next
    case False
    then have "[k..<nat ?P] = [k]" using less.prems by (simp add: upt_conv_Cons)
    then show ?thesis using n False v by (subst raw_loop.simps) (simp add: o)
  qed
qed

lemma raw_iter_exact:
  assumes "moves_fit sh arrays"
  shows "raw_iter (length sh) sh arrays = Some (map (\<lambda>m. visit sh arrays (int m)) [0..<nat (prod_list sh)])"
proof -
  have "0 < prod_list sh" using assms by (simp add: moves_fit_def pos_dims_def prod_list_pos)
  then show ?thesis
    using raw_loop_exact [OF assms, of 0] by (simp add: raw_iter_def positioned_zero dec_f_zero)
qed

text \<open>On an axis of length 0 the counter never reaches the length: the loop has no result.\<close>

lemma raw_loop_empty:
  assumes "0 \<le> c"
  shows "raw_loop 1 (0 # sh) [c] arrays = None"
  using assms
proof (induction "nat (2 ^ 31 - c)" arbitrary: c arrays rule: less_induct)
  case less
  show ?case
  proof (cases "raw_next (0 # sh) 0 1 [c] arrays")
    case None
    then show ?thesis by (subst raw_loop.simps) simp
  next
    case (Some r)
    then obtain arrays' where r: "c + 1 < 2 ^ 31" "r = (0, [c + 1], arrays')"
      using less.prems by (auto simp: bind_eq_Some_conv i32_def wr_def split: if_splits)
    have "raw_loop 1 (0 # sh) [c + 1] arrays' = None" by (rule less.hyps) (use less.prems r(1) in auto)
    then show ?thesis using Some r(2) by (subst raw_loop.simps) simp
  qed
qed

subsection \<open>Reversing axes\<close>

definition reversed :: "int list \<Rightarrow> nat \<Rightarrow> operand \<Rightarrow> operand" where
  "reversed sh i x = (fst x + snd x ! i * (sh ! i - 1), (snd x)[i := - snd x ! i])"

lemma reverse_axis_exact:
  assumes "moves_fit sh arrays" "i < length sh"
  shows "reverse_axis i (sh ! i) arrays = Some (map (reversed sh i) arrays)"
  unfolding reverse_axis_def
proof (rule those_map_Some, clarify)
  fix p st assume x: "(p, st) \<in> set arrays"
  have "sh ! i \<in> set sh" using assms(2) by simp
  then have d: "0 < sh ! i" "sh ! i < 2 ^ 31" using assms(1) by (auto simp: moves_fit_def pos_dims_def)
  have s: "length st = length sh" "\<bar>st ! i\<bar> < 2 ^ 31" "\<bar>(sh ! i - 1) * st ! i\<bar> < 2 ^ 31"
    using assms x unfolding moves_fit_def by blast+
  have "i32 (sh ! i - 1) = Some (sh ! i - 1)" using d by (simp add: i32_def)
  moreover have "i32 (st ! i * (sh ! i - 1)) = Some (st ! i * (sh ! i - 1))"
    using s(3) unfolding mult.commute [of "st ! i"] i32_def by auto
  moreover have "i32 (- st ! i) = Some (- st ! i)" using s(2) unfolding i32_def by auto
  ultimately show "(do { s \<leftarrow> rd st (int i); e \<leftarrow> i32 (sh ! i - 1); m \<leftarrow> i32 (s * e); s' \<leftarrow> i32 (- s);
     st \<leftarrow> wr st (int i) s'; Some (p + m, st) }) = Some (reversed sh i (p, st))"
    using s(1) assms(2) by (simp add: reversed_def)
qed

lemma moves_fit_reversed:
  assumes "moves_fit sh arrays" "i < length sh"
  shows "moves_fit sh (map (reversed sh i) arrays)"
proof -
  have "length (snd (reversed sh i x)) = length sh
      \<and> (\<forall>j < length sh. \<bar>snd (reversed sh i x) ! j\<bar> < 2 ^ 31 \<and> \<bar>(sh ! j - 1) * snd (reversed sh i x) ! j\<bar> < 2 ^ 31)"
    if "x \<in> set arrays" for x
  proof -
    have "length (snd x) = length sh" "\<forall>j < length sh. \<bar>snd x ! j\<bar> < 2 ^ 31 \<and> \<bar>(sh ! j - 1) * snd x ! j\<bar> < 2 ^ 31"
      using assms(1) that by (auto simp: moves_fit_def)
    then show ?thesis using assms(2) by (auto simp: reversed_def nth_list_update)
  qed
  then show ?thesis using assms(1) unfolding moves_fit_def by (simp add: case_prod_beta)
qed

text \<open>The coordinate that a reversed iteration visits in step \<open>k\<close>.\<close>

definition mirror :: "int list \<Rightarrow> nat \<Rightarrow> int \<Rightarrow> int" where
  "mirror sh i k = enc_f sh ((dec_f sh k)[i := sh ! i - 1 - dec_f sh k ! i])"

lemma in_box_update: "in_box sh idx \<Longrightarrow> i < length sh \<Longrightarrow> 0 \<le> x \<Longrightarrow> x < sh ! i \<Longrightarrow> in_box sh (idx[i := x])"
proof (induction sh idx arbitrary: i rule: in_box.induct)
  case (2 d ds y ys)
  then show ?case by (cases i) simp_all
qed simp_all

lemma mirror_bij:
  assumes "pos_dims sh" "i < length sh" "0 \<le> k" "k < prod_list sh"
  shows "0 \<le> mirror sh i k" "mirror sh i k < prod_list sh" "mirror sh i (mirror sh i k) = k"
    "dec_f sh (mirror sh i k) = (dec_f sh k)[i := sh ! i - 1 - dec_f sh k ! i]"
proof -
  have box: "in_box sh (dec_f sh k)" and k: "enc_f sh (dec_f sh k) = k" using enc_dec_f [OF assms(1,3,4)] by blast+
  have b: "0 \<le> dec_f sh k ! i" "dec_f sh k ! i < sh ! i" using in_box_nth [OF box assms(2)] by blast+
  let ?m = "(dec_f sh k)[i := sh ! i - 1 - dec_f sh k ! i]"
  have box': "in_box sh ?m" by (rule in_box_update [OF box assms(2)]) (use b in simp_all)
  then show "0 \<le> mirror sh i k" "mirror sh i k < prod_list sh"
    using enc_f_bounds [OF box'] by (simp_all add: mirror_def)
  show dec: "dec_f sh (mirror sh i k) = ?m" unfolding mirror_def by (rule dec_enc_f [OF box'])
  have "(?m)[i := sh ! i - 1 - ?m ! i] = dec_f sh k" using assms(2) by simp
  then show "mirror sh i (mirror sh i k) = k" using k dec by (simp add: mirror_def)
qed

lemma inner_update:
  "i < length st \<Longrightarrow> length xs = length st \<Longrightarrow>
     inner (st[i := - st ! i]) xs = inner st (xs[i := d - 1 - xs ! i]) - st ! i * (d - 1)"
proof (induction st xs arbitrary: i rule: inner.induct)
  case (1 t ts x xs)
  then show ?case by (cases i) (simp_all add: algebra_simps)
qed simp_all

lemma visit_reversed:
  assumes "moves_fit sh arrays" "i < length sh" "0 \<le> k" "k < prod_list sh"
  shows "visit sh (map (reversed sh i) arrays) k = visit sh arrays (mirror sh i k)"
proof -
  have pos: "pos_dims sh" using assms(1) by (simp add: moves_fit_def)
  have "fst (reversed sh i x) + inner (snd (reversed sh i x)) (dec_f sh k)
      = fst x + inner (snd x) (dec_f sh (mirror sh i k))" if "x \<in> set arrays" for x
  proof -
    have "length (snd x) = length sh" using assms(1) that by (auto simp: moves_fit_def)
    then show ?thesis
      using inner_update [of i "snd x" "dec_f sh k" "sh ! i"] assms(2)
      unfolding mirror_bij(4) [OF pos assms(2-4)] by (simp add: reversed_def)
  qed
  then show ?thesis by (simp add: visit_def case_prod_beta)
qed

definition visits :: "int list \<Rightarrow> operand list \<Rightarrow> int list multiset" where
  "visits sh arrays = image_mset (visit sh arrays) (mset_set {0..<prod_list sh})"

lemma visits_reversed:
  assumes "moves_fit sh arrays" "i < length sh"
  shows "visits sh (map (reversed sh i) arrays) = visits sh arrays"
proof -
  have pos: "pos_dims sh" using assms(1) by (simp add: moves_fit_def)
  note m = mirror_bij [OF pos assms(2)]
  let ?S = "{0..<prod_list sh}"
  have bij: "bij_betw (mirror sh i) ?S ?S"
    by (rule bij_betw_byWitness [where f' = "mirror sh i"]) (use m in auto)
  have "visits sh (map (reversed sh i) arrays) = image_mset (visit sh arrays \<circ> mirror sh i) (mset_set ?S)"
    unfolding visits_def by (rule image_mset_cong) (use visit_reversed [OF assms] in simp)
  also have "\<dots> = image_mset (visit sh arrays) (image_mset (mirror sh i) (mset_set ?S))"
    by (simp add: image_mset.compositionality)
  also have "image_mset (mirror sh i) (mset_set ?S) = mset_set ?S"
    using bij by (simp add: image_mset_mset_set bij_betw_def)
  finally show ?thesis by (simp add: visits_def)
qed

lemma reverse_axes_loop_exact:
  assumes "moves_fit sh arrays" "arrays \<noteq> []" "i + n = length sh"
  shows "\<exists>arrays'. reverse_axes_loop sh i n arrays = Some (length sh, sh, arrays') \<and> moves_fit sh arrays'
    \<and> length arrays' = length arrays \<and> visits sh arrays' = visits sh arrays
    \<and> (\<forall>j < length sh. i \<le> j \<longrightarrow> 0 \<le> snd (hd arrays') ! j)
    \<and> (\<forall>j < i. snd (hd arrays') ! j = snd (hd arrays) ! j)"
  using assms
proof (induction n arbitrary: i arrays)
  case 0
  then show ?case by simp
next
  case (Suc n)
  have i: "i < length sh" using Suc.prems(3) by simp
  have len: "length (snd (hd arrays)) = length sh"
    using Suc.prems(1,2) by (cases arrays) (auto simp: moves_fit_def)
  have "0 < sh ! i" using Suc.prems(1) i by (simp add: moves_fit_def pos_dims_def)
  define arrays1 where "arrays1 = (if snd (hd arrays) ! i < 0 then map (reversed sh i) arrays else arrays)"
  have fit: "moves_fit sh arrays1" "arrays1 \<noteq> []" "visits sh arrays1 = visits sh arrays" "length arrays1 = length arrays"
    using Suc.prems(1,2) moves_fit_reversed [OF Suc.prems(1) i] visits_reversed [OF Suc.prems(1) i]
    by (simp_all add: arrays1_def)
  have hd1: "snd (hd arrays1) = (if snd (hd arrays) ! i < 0 then (snd (hd arrays))[i := - snd (hd arrays) ! i] else snd (hd arrays))"
    using Suc.prems(2) by (simp add: arrays1_def hd_map reversed_def)
  have "(if snd (hd arrays) ! i < 0 then reverse_axis i (sh ! i) arrays else Some arrays) = Some arrays1"
    using reverse_axis_exact [OF Suc.prems(1) i] by (simp add: arrays1_def)
  then have step: "reverse_axes_loop sh i (Suc n) arrays = reverse_axes_loop sh (Suc i) n arrays1"
    using i len \<open>0 < sh ! i\<close> by simp
  from Suc.IH [OF fit(1,2), of "Suc i"] Suc.prems(3) obtain arrays' where
    a: "reverse_axes_loop sh (Suc i) n arrays1 = Some (length sh, sh, arrays')" "moves_fit sh arrays'"
      "length arrays' = length arrays1" "visits sh arrays' = visits sh arrays1"
      "\<forall>j < length sh. Suc i \<le> j \<longrightarrow> 0 \<le> snd (hd arrays') ! j" "\<forall>j < Suc i. snd (hd arrays') ! j = snd (hd arrays1) ! j" by auto
  have "0 \<le> snd (hd arrays') ! j" if "j < length sh" "i \<le> j" for j
  proof (cases "j = i")
    case True
    then have "snd (hd arrays') ! j = snd (hd arrays1) ! i" using a(6) by simp
    then show ?thesis using hd1 len i by simp
  qed (use a(5) that in simp)
  moreover have "snd (hd arrays') ! j = snd (hd arrays) ! j" if "j < i" for j
    using a(6) that hd1 by simp
  ultimately show ?case using step a(1-4) fit(3,4) by auto
qed

subsection \<open>Prepared arrays\<close>

lemma copy_exact:
  "length xs = n \<Longrightarrow> copy_ints n xs = Some xs"
  "\<forall>x \<in> set arrays. length (snd x) = n \<Longrightarrow> copy_operands n arrays = Some arrays"
  by (simp add: copy_ints_def, induction arrays) (auto simp: copy_ints_def)

lemma prepare_two_exact:
  assumes "moves_fit sh [A, B]"
  shows "\<exists>A' B'. PrepareTwoRawArrayIter (length sh) sh A B = Some (length sh, sh, [A', B'])
    \<and> moves_fit sh [A', B'] \<and> visits sh [A', B'] = visits sh [A, B] \<and> (\<forall>t \<in> set (snd A'). 0 \<le> t)"
proof -
  from reverse_axes_loop_exact [OF assms, of 0 "length sh"] obtain arrays' where
    r: "reverse_axes_loop sh 0 (length sh) [A, B] = Some (length sh, sh, arrays')" "moves_fit sh arrays'" "length arrays' = 2"
      "visits sh arrays' = visits sh [A, B]" "\<forall>j < length sh. 0 \<le> snd (hd arrays') ! j" by auto
  then obtain A' B' where a: "arrays' = [A', B']" by (auto simp: length_Suc_conv numeral_2_eq_2)
  have "length (snd A') = length sh" using r(2) a by (auto simp: moves_fit_def)
  then have "\<forall>t \<in> set (snd A'). 0 \<le> t" using r(5) a by (auto simp: in_set_conv_nth)
  moreover have "\<forall>x \<in> set [A, B]. length (snd x) = length sh" using assms by (auto simp: moves_fit_def)
  then have "PrepareTwoRawArrayIter (length sh) sh A B = Some (length sh, sh, [A', B'])"
    using copy_exact(2) [of "[A, B]" "length sh"] r(1) a by (simp add: PrepareTwoRawArrayIter_def copy_exact(1))
  ultimately show ?thesis using r a by blast
qed

lemma reverse_axes_loop_empty:
  assumes "\<forall>k < j. 0 < sh ! k" "j < length sh" "sh ! j = 0" "arrays \<noteq> []" "length (snd (hd arrays)) = length sh"
    and "\<forall>t \<in> set (snd (hd arrays)). 0 \<le> t" "i + n = length sh" "i \<le> j"
  shows "\<exists>arrays'. reverse_axes_loop sh i n arrays = Some (1, 0 # tl sh, arrays')"
  using assms(7,8)
proof (induction n arbitrary: i)
  case 0
  then show ?case using assms(2) by simp
next
  case (Suc n)
  have i: "i < length sh" using Suc.prems(1) by simp
  then have "0 \<le> snd (hd arrays) ! i" using assms(5,6) by simp
  then have step: "reverse_axes_loop sh i (Suc n) arrays = (if sh ! i = 0 then Some (1, 0 # tl sh, map (\<lambda>(p, st). (p, 0 # tl st)) arrays)
      else reverse_axes_loop sh (Suc i) n arrays)" using i assms(5) by simp
  show ?case
  proof (cases "i = j")
    case True
    then show ?thesis unfolding step using assms(3) by simp
  next
    case False
    then have "i < j" using Suc.prems(2) by simp
    then have "sh ! i \<noteq> 0" using assms(1) by fastforce
    then show ?thesis unfolding step using Suc.IH [of "Suc i"] Suc.prems(1) \<open>i < j\<close> by simp
  qed
qed

subsection \<open>Offsets\<close>

lemma dot_inner: "in_box sh idx \<Longrightarrow> length st = length sh \<Longrightarrow> dot sh st idx = inner st idx"
proof (induction sh idx arbitrary: st rule: in_box.induct)
  case (2 d ds x xs)
  then show ?case by (cases st) auto
qed simp_all

lemma inner_bound:
  assumes "in_box sh idx" "length st = length sh" "\<forall>i < length sh. \<bar>(sh ! i - 1) * st ! i\<bar> < 2 ^ 31"
  shows "\<bar>inner st idx\<bar> \<le> int (length sh) * 2 ^ 31"
  using assms
proof (induction sh idx arbitrary: st rule: in_box.induct)
  case (2 d ds x xs)
  obtain t ts where st: "st = t # ts" using 2(3) by (cases st) auto
  have "\<bar>(ds ! i - 1) * ts ! i\<bar> < 2 ^ 31" if "i < length ds" for i
    using 2(4) [rule_format, of "Suc i"] that st by simp
  then have IH: "\<bar>inner ts xs\<bar> \<le> int (length ds) * 2 ^ 31" using 2(1) [of ts] 2(2,3) st by simp
  have "\<bar>x * t\<bar> \<le> \<bar>(d - 1) * t\<bar>"
    unfolding abs_mult by (rule mult_right_mono) (use 2(2) in auto)
  also have "\<dots> < 2 ^ 31" using 2(4) [rule_format, of 0] st by simp
  finally show ?case using IH st by (simp add: algebra_simps)
qed simp_all

lemma work_is_covered:
  assumes "0 < len" "len < 2 ^ 31" "0 < threshold" "0 < max_threads"
  shows "\<exists>b. BlockInformation_new max_threads len threshold = Some b \<and> 0 < bi_threads b \<and> bi_threads b \<le> max_threads
    \<and> 0 < bi_items b \<and> (bi_chunks b - 1) * bi_items b < len \<and> len \<le> bi_chunks b * bi_items b"
proof -
  have q: "0 \<le> len div threshold" "len div threshold < 2 ^ 31"
    using assms zdiv_mono2 [of len 1 threshold] by (auto simp: pos_imp_zdiv_nonneg_iff)
  define threads where "threads = min (max 1 (len div threshold)) max_threads"
  define items where "items = (if len div threads < 1 then 1 else len div threads)"
  define chunks where "chunks = (if len mod items > 0 then len div items + 1 else len div items)"
  have t: "0 < threads" "threads \<le> max_threads" using assms(4) by (auto simp: threads_def)
  have i: "0 < items" by (simp add: items_def)
  have n: "to_int32 (len div threshold) = len div threshold" using q by (intro to_int32_id) auto
  have c: "cdiv len threshold = Some (len div threshold)" "cdiv len threads = Some (len div threads)"
    "cdiv len items = Some (len div items)" "cmod len items = Some (len mod items)"
    using assms t i by (simp_all add: cdiv_pos cmod_pos)
  have "BlockInformation_new max_threads len threshold
      = Some \<lparr>bi_items = items, bi_threads = threads, bi_chunks = chunks, bi_modulo = len mod items\<rparr>"
    by (simp only: BlockInformation_new_def c n bind.bind_lunit Let_def threads_def [symmetric] items_def [symmetric]
        chunks_def [symmetric])
  moreover have "(chunks - 1) * items < len \<and> len \<le> chunks * items"
  proof -
    obtain q m where qm: "len div items = q" "len mod items = m" by blast
    then have d: "len = items * q + m" "0 \<le> m" "m < items" using i by (auto simp flip: qm)
    have "(chunks - 1) * items = (if m > 0 then items * q else items * q - items)"
      "chunks * items = (if m > 0 then items * q + items else items * q)"
      by (simp_all add: chunks_def qm algebra_simps)
    then show ?thesis using d i by (simp split: if_splits)
  qed
  ultimately show ?thesis using t i by simp
qed

end
