(* ===== verification/IterationProperties.thy ===== *)
theory IterationProperties
  imports StrideSort RawIteration
begin

text \<open>
  The properties of \<open>include/pairwise_util.h\<close>: the sort of the strides, and the iteration over one or
  two strided arrays.
\<close>

text \<open>
  C19.  \<open>SortStrideArray\<close>, for fewer than \<open>2 ^ 31\<close> axes, returns without an access outside its stacks and
  fills the array with a permutation of the pairs of axis and stride.  The order is not the one its
  comment documents (descending by absolute value): it is ascending by signed stride, so that strides
  that are not negative and not all equal never come out in the documented order.
\<close>

theorem SortStrideArray_sorts:
  assumes "length strides < 2 ^ 31" "length out = length strides"
  shows "\<exists>out'. SortStrideArray (int (length strides)) strides out = Some out'
    \<and> mset out' = mset (map (\<lambda>i. \<lparr>sp_perm = int i, sp_stride = strides ! i\<rparr>) [0..<length strides])
    \<and> sorted (map sp_stride out')
    \<and> ((\<forall>t \<in> set strides. 0 \<le> t) \<and> (\<exists>t \<in> set strides. \<exists>t' \<in> set strides. t \<noteq> t') \<longrightarrow>
         \<not> sorted_wrt (\<lambda>a b. \<bar>sp_stride a\<bar> \<ge> \<bar>sp_stride b\<bar>) out')"
proof -
  let ?f = "\<lambda>i. \<lparr>sp_perm = int i, sp_stride = strides ! i\<rparr>" and ?n = "length strides"
  have "for_up 0 ?n (\<lambda>i out. Option.bind (rd strides (int i)) (\<lambda>s. wr out (int i) \<lparr>sp_perm = int i, sp_stride = s\<rparr>)) out
      = for_up 0 ?n (\<lambda>i out. Option.bind (Some (?f i)) (wr out (int i))) out"
    by (rule for_up_cong) simp_all
  also have "\<dots> = Some (map ?f [0..<?n] @ drop ?n out)" by (rule for_fill) (use assms in simp_all)
  finally have fill: "for_up 0 ?n (\<lambda>i out. Option.bind (rd strides (int i)) (\<lambda>s. wr out (int i) \<lparr>sp_perm = int i, sp_stride = s\<rparr>)) out
      = Some (map ?f [0..<?n])" using assms(2) by simp
  obtain out' where out': "quickSort (map ?f [0..<?n]) (int ?n) = Some out'" "mset out' = mset (map ?f [0..<?n])"
    "sorted_wrt (\<lambda>a b. sp_stride a \<le> sp_stride b) out'"
    using quickSort_exact [of "map ?f [0..<?n]"] assms(1) by auto
  have "set out' = ?f ` {0..<?n}" using mset_eq_setD [OF out'(2)] by simp
  then have st: "sp_stride ` set out' = set strides" by (force simp: in_set_conv_nth image_image)
  have "t = t'" if nn: "\<forall>t \<in> set strides. 0 \<le> t" and t: "t \<in> set strides" "t' \<in> set strides"
    and d: "sorted_wrt (\<lambda>a b. \<bar>sp_stride a\<bar> \<ge> \<bar>sp_stride b\<bar>) out'" for t t'
  proof -
    obtain i j where ij: "i < length out'" "j < length out'" "t = sp_stride (out' ! i)" "t' = sp_stride (out' ! j)"
      using t unfolding st [symmetric] by (auto simp: in_set_conv_nth)
    have nn': "0 \<le> sp_stride (out' ! k)" if "k < length out'" for k
      using nn that unfolding st [symmetric] by simp
    have "sp_stride (out' ! k) = sp_stride (out' ! k')" if k: "k < k'" "k' < length out'" for k k'
    proof -
      have "k < length out'" using k by simp
      from nn' [OF this] nn' [OF k(2)] sorted_wrt_nth_less [OF out'(3) k] sorted_wrt_nth_less [OF d k]
      show ?thesis by simp
    qed
    note eq = this
    consider "i < j" | "i = j" | "j < i" by linarith
    then show ?thesis
    proof cases
      case 1
      show ?thesis using eq [OF 1 ij(2)] ij(3,4) by (simp only:)
    next
      case 2
      then show ?thesis using ij(3,4) by (simp only:)
    next
      case 3
      show ?thesis using eq [OF 3 ij(1)] ij(3,4) by (simp only:)
    qed
  qed
  then have "(\<forall>t \<in> set strides. 0 \<le> t) \<and> (\<exists>t \<in> set strides. \<exists>t' \<in> set strides. t \<noteq> t') \<longrightarrow>
         \<not> sorted_wrt (\<lambda>a b. \<bar>sp_stride a\<bar> \<ge> \<bar>sp_stride b\<bar>) out'" by blast
  moreover have "SortStrideArray (int ?n) strides out = Some out'" "sorted (map sp_stride out')"
    using fill out'(1,3) by (simp_all add: SortStrideArray_def sorted_map)
  ultimately show ?thesis using out'(2) by blast
qed

theorem SortStrideArray_sorts_witness:
  "\<exists>out'. SortStrideArray 3 [4, 2, 12] (replicate 3 \<lparr>sp_perm = 0, sp_stride = 0\<rparr>) = Some out' \<and> sorted (map sp_stride out')
    \<and> \<not> sorted_wrt (\<lambda>a b. \<bar>sp_stride a\<bar> \<ge> \<bar>sp_stride b\<bar>) out'"
  using SortStrideArray_sorts [of "[4, 2, 12]" "replicate 3 \<lparr>sp_perm = 0, sp_stride = 0\<rparr>"] by auto

text \<open>The example of the comment, \<open>(4, -2, 12)\<close>, for which it gives \<open>[(2, 12), (0, 4), (1, -2)]\<close>.\<close>

lemma SortStrideArray_documented_example:
  "\<exists>out'. SortStrideArray 3 [4, -2, 12] (replicate 3 \<lparr>sp_perm = 0, sp_stride = 0\<rparr>) = Some out'
    \<and> map sp_stride out' = [-2, 4, 12]"
proof -
  have "for_up 0 3 (\<lambda>i out. Option.bind (rd [4, -2, 12] (int i)) (\<lambda>s. wr out (int i) \<lparr>sp_perm = int i, sp_stride = s\<rparr>))
      (replicate 3 \<lparr>sp_perm = 0, sp_stride = 0\<rparr>)
    = Some [\<lparr>sp_perm = 0, sp_stride = 4\<rparr>, \<lparr>sp_perm = 1, sp_stride = -2\<rparr>, \<lparr>sp_perm = 2, sp_stride = 12\<rparr>]"
    by (simp add: numeral_eq_Suc rd_def wr_def)
  moreover obtain out' where q: "quickSort [\<lparr>sp_perm = 0, sp_stride = 4\<rparr>, \<lparr>sp_perm = 1, sp_stride = -2\<rparr>, \<lparr>sp_perm = 2, sp_stride = 12\<rparr>] 3 = Some out'"
    "mset out' = mset [\<lparr>sp_perm = 0, sp_stride = 4\<rparr>, \<lparr>sp_perm = 1, sp_stride = -2\<rparr>, \<lparr>sp_perm = 2, sp_stride = 12\<rparr>]"
    "sorted_wrt (\<lambda>a b. sp_stride a \<le> sp_stride b) out'"
    using quickSort_exact [of "[\<lparr>sp_perm = 0, sp_stride = 4\<rparr>, \<lparr>sp_perm = 1, sp_stride = -2\<rparr>, \<lparr>sp_perm = 2, sp_stride = 12\<rparr>]"] by auto
  have o': "sorted (map sp_stride out')" using q(3) by (simp add: sorted_map)
  have "mset (map sp_stride out') = mset [-2, 4, 12]" using arg_cong [OF q(2), of "image_mset sp_stride"] by simp
  from properties_for_sort [OF this o'] have "map sp_stride out' = [-2, 4, 12]" by simp
  with q(1) show ?thesis using calculation by (simp add: SortStrideArray_def)
qed

text \<open>
  C17.  The iteration over strided arrays shows its body, for every element in column-major order and
  once each, the pointers at the offsets that \<open>getOffset\<close> computes from the coordinates of
  \<open>ind2sub\<close>.
\<close>

theorem raw_iteration_equivalence:
  assumes "packable sh" "length sh \<le> 32" "moves_fit sh arrays" "\<forall>(p, st) \<in> set arrays. \<forall>t \<in> set st. 0 \<le> t"
  shows "\<exists>ptrs. raw_iter (length sh) sh arrays = Some ptrs \<and> int (length ptrs) = prod_list sh
    \<and> (\<forall>k < length ptrs. \<exists>idx. ind2sub (int (length sh)) sh (int k) = Some idx
         \<and> (\<forall>a < length arrays. \<exists>off. getOffset 0 sh (snd (arrays ! a)) idx (int (length sh)) = Some off
              \<and> ptrs ! k ! a = fst (arrays ! a) + off))"
proof -
  have pos: "pos_dims sh" "prod_list sh < 2 ^ 31" using assms(1) by (simp_all add: packable_def)
  have P: "0 < prod_list sh" using pos(1) by (simp add: pos_dims_def prod_list_pos)
  let ?ptrs = "map (\<lambda>m. visit sh arrays (int m)) [0..<nat (prod_list sh)]"
  have "\<exists>idx. ind2sub (int (length sh)) sh (int k) = Some idx
         \<and> (\<forall>a < length arrays. \<exists>off. getOffset 0 sh (snd (arrays ! a)) idx (int (length sh)) = Some off
              \<and> ?ptrs ! k ! a = fst (arrays ! a) + off)" if k: "k < nat (prod_list sh)" for k
  proof -
    have kP: "0 \<le> int k" "int k < prod_list sh" using k by simp_all
    have box: "in_box sh (dec_f sh (int k))" using enc_dec_f [OF pos(1) kP] by blast
    have "ind2sub (int (length sh)) sh (int k) = Some (dec_f sh (int k))"
      using ind2sub_exact [OF pos kP, of "[]"] by simp
    moreover have "getOffset 0 sh st (dec_f sh (int k)) (int (length sh)) = Some (inner st (dec_f sh (int k)))"
      if st: "(p, st) \<in> set arrays" for p st
    proof -
      have s: "length st = length sh" "\<forall>i < length sh. \<bar>(sh ! i - 1) * st ! i\<bar> < 2 ^ 31" "\<forall>t \<in> set st. 0 \<le> t"
        using assms(3,4) st by (auto simp: moves_fit_def)
      note d = dot_inner [OF box s(1)]
      have "inner st (dec_f sh (int k)) \<le> int (length sh) * 2 ^ 31" using inner_bound [OF box s(1,2)] by simp
      also have "\<dots> \<le> 32 * 2 ^ 31" using assms(2) by simp
      finally have "0 + dot sh st (dec_f sh (int k)) < 2 ^ 63" unfolding d by simp
      from getOffset_exact [OF box s(1,3) _ this, of "[]" "[]"] show ?thesis by (simp add: d)
    qed
    then have "\<exists>off. getOffset 0 sh (snd (arrays ! a)) (dec_f sh (int k)) (int (length sh)) = Some off
        \<and> ?ptrs ! k ! a = fst (arrays ! a) + off" if a: "a < length arrays" for a
      using k a nth_mem [OF a] by (cases "arrays ! a") (simp add: visit_def)
    ultimately show ?thesis by blast
  qed
  then show ?thesis
    using raw_iter_exact [OF assms(3)] P by (intro exI [of _ ?ptrs]) simp
qed

theorem raw_iteration_equivalence_witness:
  "\<exists>ptrs. raw_iter 2 [2, 3] [(100, [3, 1]), (200, [1, 2])] = Some ptrs \<and> int (length ptrs) = 6"
  using raw_iteration_equivalence [of "[2, 3]" "[(100, [3, 1]), (200, [1, 2])]"]
  by (auto simp: packable_def moves_fit_def pos_dims_def less_Suc_eq vector_shape_def numeral_2_eq_2)

text \<open>
  C18.  The iteration over two prepared arrays visits the same pairs of elements, each as often, as
  the two arrays have, although the axes with negative strides of the first array are walked backwards.
\<close>

theorem prepared_iteration_visits_all:
  assumes "moves_fit sh [A, B]"
  shows "\<exists>A' B' ptrs. PrepareTwoRawArrayIter (length sh) sh A B = Some (length sh, sh, [A', B'])
    \<and> (\<forall>t \<in> set (snd A'). 0 \<le> t) \<and> raw_iter (length sh) sh [A', B'] = Some ptrs
    \<and> mset ptrs = image_mset (\<lambda>k. [fst A + inner (snd A) (dec_f sh k), fst B + inner (snd B) (dec_f sh k)])
        (mset_set {0..<prod_list sh})"
proof -
  from prepare_two_exact [OF assms] obtain A' B' where
    p: "PrepareTwoRawArrayIter (length sh) sh A B = Some (length sh, sh, [A', B'])" "moves_fit sh [A', B']"
      "visits sh [A', B'] = visits sh [A, B]" "\<forall>t \<in> set (snd A'). 0 \<le> t" by blast
  let ?n = "nat (prod_list sh)"
  have "0 < prod_list sh" using assms by (simp add: moves_fit_def pos_dims_def prod_list_pos)
  then have s: "{0..<prod_list sh} = int ` {0..<?n}" by (simp add: image_int_atLeastLessThan)
  have "mset (map (\<lambda>m. visit sh [A', B'] (int m)) [0..<?n]) = image_mset (visit sh [A', B']) (image_mset int (mset_set {0..<?n}))"
    by (simp add: image_mset.compositionality comp_def)
  also have "image_mset int (mset_set {0..<?n}) = mset_set {0..<prod_list sh}" unfolding s by (simp add: image_mset_mset_set)
  finally have "mset (map (\<lambda>m. visit sh [A', B'] (int m)) [0..<?n]) = visits sh [A, B]" using p(3) by (simp add: visits_def)
  moreover have "visit sh [A, B] = (\<lambda>k. [fst A + inner (snd A) (dec_f sh k), fst B + inner (snd B) (dec_f sh k)])"
    by (simp add: visit_def case_prod_beta fun_eq_iff)
  ultimately show ?thesis using p(1,4) raw_iter_exact [OF p(2)] by (simp add: visits_def)
qed

theorem prepared_iteration_visits_all_witness:
  "\<exists>A' B' ptrs. PrepareTwoRawArrayIter 2 [2, 3] (100, [-3, 1]) (200, [1, -2]) = Some (2, [2, 3], [A', B'])
    \<and> raw_iter 2 [2, 3] [A', B'] = Some ptrs"
proof -
  have "moves_fit [2, 3] [(100, [-3, 1]), (200, [1, -2])]" by (auto simp: moves_fit_def pos_dims_def less_Suc_eq)
  from prepared_iteration_visits_all [OF this] show ?thesis by (simp add: numeral_2_eq_2) blast
qed

text \<open>
  For two arrays without elements the preparation succeeds with one axis of length 0, and the
  iteration over the result does not end within the range of its counter.
\<close>

theorem empty_iteration_diverges:
  assumes "j < length sh" "sh ! j = 0" "\<forall>k < j. 0 < sh ! k"
    and "length (snd A) = length sh" "length (snd B) = length sh" "\<forall>t \<in> set (snd A). 0 \<le> t"
  shows "\<exists>arrays'. PrepareTwoRawArrayIter (length sh) sh A B = Some (1, 0 # tl sh, arrays')
    \<and> raw_iter 1 (0 # tl sh) arrays' = None"
proof -
  from reverse_axes_loop_empty [OF assms(3,1,2), of "[A, B]" 0 "length sh"] assms(4,6) obtain arrays' where
    "reverse_axes_loop sh 0 (length sh) [A, B] = Some (1, 0 # tl sh, arrays')" by auto
  moreover have "copy_operands (length sh) [A, B] = Some [A, B]"
    by (rule copy_exact(2)) (use assms(4,5) in simp)
  ultimately have "PrepareTwoRawArrayIter (length sh) sh A B = Some (1, 0 # tl sh, arrays')"
    by (simp add: PrepareTwoRawArrayIter_def copy_exact(1))
  moreover have "raw_iter 1 (0 # tl sh) arrays' = None" using raw_loop_empty [of 0 "tl sh"] by (simp add: raw_iter_def)
  ultimately show ?thesis by blast
qed

theorem empty_iteration_diverges_witness:
  "\<exists>arrays'. PrepareTwoRawArrayIter 2 [3, 0] (100, [1, 3]) (200, [1, 3]) = Some (1, [0, 0], arrays')
    \<and> raw_iter 1 [0, 0] arrays' = None"
  using empty_iteration_diverges [of 1 "[3, 0]" "(100, [1, 3])" "(200, [1, 3])"] by (simp add: numeral_2_eq_2)

end
