(* ===== verification/ElementLoops.thy ===== *)
theory ElementLoops
  imports RawIteration
begin

text \<open>
  The common parts of the element loops of \<open>include/loops\<close>.  All arrays of a call lie in one memory,
  a list of elements, and a data pointer is an index into it, so calls in place and overlapping
  arrays are covered.  The operation (the template argument \<open>OpType\<close>) is a function.  A loop that
  OpenMP runs in parallel executes its iterations in the order that the runtime chooses: \<open>rt_order\<close>
  maps the list of iterations to that order, and nothing but that it is a permutation is assumed.
\<close>

subsection \<open>Code\<close>

record runtime =
  rt_max_threads :: int
  rt_element_threshold :: int
  rt_tad_threshold :: int
  rt_order :: "int list \<Rightarrow> int list"

fun for_each :: "('i \<Rightarrow> 's \<Rightarrow> 's option) \<Rightarrow> 'i list \<Rightarrow> 's \<Rightarrow> 's option" where
  "for_each f [] s = Some s"
| "for_each f (i # is) s = Option.bind (f i s) (for_each f is)"

text \<open>
  \<open>PARALLEL for (i = 0; i < n; i++)\<close>, the number of threads that the loops ask for, and the loops that
  give every thread a span of \<open>n / threads + 8\<close> iterations.  The last takes the checks of the
  arithmetic on spans as an argument, since the code uses \<open>Nd4jIndex\<close> or \<open>int\<close>.
\<close>

definition parallel_for :: "runtime \<Rightarrow> int \<Rightarrow> (int \<Rightarrow> 's \<Rightarrow> 's option) \<Rightarrow> 's \<Rightarrow> 's option" where
  "parallel_for rt n body s = for_each body (rt_order rt [0..n - 1]) s"

definition thread_count :: "runtime \<Rightarrow> int \<Rightarrow> int \<Rightarrow> int option" where
  "thread_count rt n threshold = do {
     q \<leftarrow> cdiv n threshold; Some (min (max 1 (to_int32 q)) (rt_max_threads rt)) }"

fun thread_spans :: "(int \<Rightarrow> int option) \<Rightarrow> int \<Rightarrow> int \<Rightarrow> nat \<Rightarrow> nat \<Rightarrow> int list option" where
  "thread_spans chk span n tid 0 = Some []"
| "thread_spans chk span n tid (Suc rest) = do {
     start \<leftarrow> chk (span * int tid);
     end' \<leftarrow> chk (span * (int tid + 1));
     more \<leftarrow> thread_spans chk span n (Suc tid) rest;
     Some ([start..(if end' > n then n else end') - 1] @ more) }"

definition spanned_for :: "runtime \<Rightarrow> (int \<Rightarrow> int option) \<Rightarrow> (int \<Rightarrow> int) \<Rightarrow> int \<Rightarrow> (int \<Rightarrow> 's \<Rightarrow> 's option) \<Rightarrow> 's \<Rightarrow> 's option" where
  "spanned_for rt chk narrow n body s = do {
     threads \<leftarrow> thread_count rt n (rt_element_threshold rt);
     q \<leftarrow> cdiv n threads;
     span \<leftarrow> chk (q + 8);
     iterations \<leftarrow> thread_spans chk (narrow span) n 0 (nat threads);
     for_each body (rt_order rt iterations) s }"

text \<open>The body of the raw iteration macros: the pointers are not assigned in the body.\<close>

definition raw_for :: "nat \<Rightarrow> int list \<Rightarrow> operand list \<Rightarrow> (int list \<Rightarrow> 's \<Rightarrow> 's option) \<Rightarrow> 's \<Rightarrow> 's option" where
  "raw_for ndim shape arrays body s = do { ptrs \<leftarrow> raw_iter ndim shape arrays; for_each body ptrs s }"

text \<open>Coordinates in an array \<open>int coord[MAX_RANK]\<close>.\<close>

definition MAX_RANK :: nat where "MAX_RANK = 32"

definition coords_c :: "int \<Rightarrow> int list \<Rightarrow> int \<Rightarrow> int list option" where
  "coords_c rank shape i = do {
     coord \<leftarrow> ind2subC_out rank shape i (replicate MAX_RANK None); finish (take (nat rank) coord) }"

definition coords_f :: "int \<Rightarrow> int list \<Rightarrow> int \<Rightarrow> int list option" where
  "coords_f rank shape i = do {
     coord \<leftarrow> ind2sub_out rank shape i (replicate MAX_RANK None); finish (take (nat rank) coord) }"

text \<open>\<open>z[..] = op(x[..], y[..])\<close> and \<open>z[..] = op(x[..])\<close> on the memory.\<close>

definition apply2 :: "('a \<Rightarrow> 'a \<Rightarrow> 'a) \<Rightarrow> int \<Rightarrow> int \<Rightarrow> int \<Rightarrow> 'a list \<Rightarrow> 'a list option" where
  "apply2 op z x y mem = do { a \<leftarrow> rd mem x; b \<leftarrow> rd mem y; wr mem z (op a b) }"

definition apply1 :: "('a \<Rightarrow> 'a) \<Rightarrow> int \<Rightarrow> int \<Rightarrow> 'a list \<Rightarrow> 'a list option" where
  "apply1 op z x mem = do { a \<leftarrow> rd mem x; wr mem z (op a) }"


subsection \<open>Loops over a permuted list\<close>

lemma for_each_append: "for_each f (xs @ ys) s = Option.bind (for_each f xs s) (for_each f ys)"
proof (induction xs arbitrary: s)
  case (Cons x xs)
  then show ?case by (cases "f x s") simp_all
qed simp

lemma for_each_cong [fundef_cong]:
  assumes "is = js" "s = t" "\<And>i s. i \<in> set js \<Longrightarrow> f i s = g i s"
  shows "for_each f is s = for_each g js t"
  unfolding assms(1,2) using assms(3)
proof (induction js arbitrary: t)
  case (Cons j js)
  then have "for_each f js u = for_each g js u" for u by simp
  then show ?case using Cons.prems [of j t] by (cases "g j t") simp_all
qed simp

lemma for_each_map: "for_each f (map h is) s = for_each (\<lambda>i. f (h i)) is s"
proof (induction "is" arbitrary: s)
  case (Cons i "is")
  then show ?case by (cases "f (h i) s") simp_all
qed simp

lemma for_each_map_fun: "for_each f (map h is) = for_each (\<lambda>i. f (h i)) is"
  by (rule ext) (rule for_each_map)

lemma for_each_concat: "for_each f (concat xss) s = for_each (for_each f) xss s"
proof (induction xss arbitrary: s)
  case (Cons xs xss)
  then show ?case by (cases "for_each f xs s") (simp_all add: for_each_append)
qed simp

text \<open>
  Loops whose body writes one cell \<open>w i\<close> with a value \<open>g i\<close> that depends on cells which no other
  iteration writes.
\<close>

definition gathered :: "'i set \<Rightarrow> ('i \<Rightarrow> int) \<Rightarrow> ('i \<Rightarrow> 'a list \<Rightarrow> 'a) \<Rightarrow> 'a list \<Rightarrow> 'a list \<Rightarrow> bool" where
  "gathered I w g mem mem' \<longleftrightarrow> length mem' = length mem \<and> (\<forall>i \<in> I. mem' ! nat (w i) = g i mem)
     \<and> (\<forall>p < length mem. int p \<notin> w ` I \<longrightarrow> mem' ! p = mem ! p)"

definition isolated :: "'i set \<Rightarrow> ('i \<Rightarrow> int) \<Rightarrow> ('i \<Rightarrow> 'a list \<Rightarrow> 'a) \<Rightarrow> nat \<Rightarrow> bool" where
  "isolated I w g n \<longleftrightarrow> inj_on w I \<and> w ` I \<subseteq> {0..<int n}
     \<and> (\<forall>i \<in> I. \<forall>j \<in> I. i \<noteq> j \<longrightarrow> (\<forall>m v. length m = n \<longrightarrow> g j (m[nat (w i) := v]) = g j m))"

lemma gather_each:
  assumes "distinct is" "isolated (set is) w g (length mem)"
    and "\<And>i m. i \<in> set is \<Longrightarrow> length m = length mem \<Longrightarrow> body i m = Some (m[nat (w i) := g i m])"
  shows "\<exists>mem'. for_each body is mem = Some mem' \<and> gathered (set is) w g mem mem'"
  using assms
proof (induction "is" arbitrary: mem)
  case Nil
  then show ?case by (simp add: gathered_def)
next
  case (Cons i "is")
  let ?m = "mem[nat (w i) := g i mem]"
  have iso: "isolated (set is) w g (length ?m)" using Cons.prems(2) by (auto simp: isolated_def)
  have keep: "g j ?m = g j mem" if "j \<in> set is" for j
  proof -
    have "i \<noteq> j" using Cons.prems(1) that by auto
    then show ?thesis using Cons.prems(2) that unfolding isolated_def by simp
  qed
  have "0 \<le> w i" "w i < int (length mem)" "w i \<notin> w ` set is"
    using Cons.prems(1,2) by (auto simp: isolated_def)
  then have wi: "nat (w i) < length mem" "int (nat (w i)) = w i" "w i \<notin> w ` set is" by auto
  from Cons.IH [OF _ iso] Cons.prems(1,3) obtain mem' where
    m: "for_each body is ?m = Some mem'" "gathered (set is) w g ?m mem'" by auto
  have "mem' ! nat (w i) = ?m ! nat (w i)" using m(2) wi by (simp add: gathered_def)
  then have "mem' ! nat (w i) = g i mem" using wi(1) by simp
  moreover have "mem' ! p = mem ! p" if "p < length mem" "int p \<notin> w ` set (i # is)" for p
  proof -
    have "nat (w i) \<noteq> p" using that(2) wi(2) by auto
    then show ?thesis using m(2) that by (simp add: gathered_def)
  qed
  ultimately have "gathered (set (i # is)) w g mem mem'" using m(2) keep by (simp add: gathered_def)
  then show ?case using Cons.prems(3) m(1) by simp
qed

lemma gather_loop:
  assumes "distinct is" "inj_on h (set is)" "h ` set is = I" "isolated I w g (length mem)"
    and "\<And>i m. i \<in> set is \<Longrightarrow> length m = length mem \<Longrightarrow> body i m = Some (m[nat (w (h i)) := g (h i) m])"
  shows "\<exists>mem'. for_each body is mem = Some mem' \<and> gathered I w g mem mem'"
proof -
  have "inj_on (\<lambda>i. w (h i)) (set is)"
    using comp_inj_on [OF assms(2), of w] assms(3,4) by (simp add: isolated_def comp_def)
  then have "isolated (set is) (\<lambda>i. w (h i)) (\<lambda>i. g (h i)) (length mem)"
    using assms(2-4) by (auto simp: isolated_def inj_on_eq_iff)
  from gather_each [OF assms(1) this assms(5)] obtain mem' where
    "for_each body is mem = Some mem'" "gathered (set is) (\<lambda>i. w (h i)) (\<lambda>i. g (h i)) mem mem'" by auto
  then show ?thesis using assms(3) by (auto simp: gathered_def image_image)
qed

text \<open>The case of one or two operands.\<close>

definition separate :: "'i set \<Rightarrow> ('i \<Rightarrow> int) \<Rightarrow> ('i \<Rightarrow> int) \<Rightarrow> ('i \<Rightarrow> int) \<Rightarrow> 'a list \<Rightarrow> bool" where
  "separate I z x y mem \<longleftrightarrow> inj_on z I \<and> (\<forall>i \<in> I. {z i, x i, y i} \<subseteq> {0..<int (length mem)})
     \<and> (\<forall>i \<in> I. \<forall>j \<in> I. i \<noteq> j \<longrightarrow> z i \<noteq> x j \<and> z i \<noteq> y j)"

definition pointwise :: "('a \<Rightarrow> 'a \<Rightarrow> 'a) \<Rightarrow> 'i set \<Rightarrow> ('i \<Rightarrow> int) \<Rightarrow> ('i \<Rightarrow> int) \<Rightarrow> ('i \<Rightarrow> int) \<Rightarrow> 'a list \<Rightarrow> 'a list \<Rightarrow> bool" where
  "pointwise op I z x y mem mem' \<longleftrightarrow> length mem' = length mem
     \<and> (\<forall>i \<in> I. mem' ! nat (z i) = op (mem ! nat (x i)) (mem ! nat (y i)))
     \<and> (\<forall>p < length mem. int p \<notin> z ` I \<longrightarrow> mem' ! p = mem ! p)"

lemma separate_isolated:
  fixes mem :: "'a list" and op :: "'i \<Rightarrow> 'a \<Rightarrow> 'a \<Rightarrow> 'a"
  assumes "separate I z x y mem"
  shows "isolated I z (\<lambda>i m. op i (m ! nat (x i)) (m ! nat (y i))) (length mem)"
  unfolding isolated_def
proof (intro conjI ballI allI impI)
  show "inj_on z I" "z ` I \<subseteq> {0..<int (length mem)}" using assms by (auto simp: separate_def)
  fix i j and m :: "'a list" and v assume i: "i \<in> I" "j \<in> I" "i \<noteq> j" and "length m = length mem"
  have "{z i, x i, y i} \<subseteq> {0..<int (length mem)}" "{z j, x j, y j} \<subseteq> {0..<int (length mem)}" "z i \<noteq> x j \<and> z i \<noteq> y j"
    using assms i unfolding separate_def by blast+
  then have "nat (z i) \<noteq> nat (x j)" "nat (z i) \<noteq> nat (y j)" by (auto simp: eq_nat_nat_iff)
  then show "op j (m[nat (z i) := v] ! nat (x j)) (m[nat (z i) := v] ! nat (y j)) = op j (m ! nat (x j)) (m ! nat (y j))"
    by simp
qed

lemma pointwise_gathered: "pointwise op I z x y mem mem' \<longleftrightarrow> gathered I z (\<lambda>i m. op (m ! nat (x i)) (m ! nat (y i))) mem mem'"
  by (simp add: pointwise_def gathered_def)

lemma apply2_each:
  fixes mem :: "'a list"
  assumes "distinct is" "separate (set is) z x y mem"
  shows "\<exists>mem'. for_each (\<lambda>i. apply2 op (z i) (x i) (y i)) is mem = Some mem' \<and> pointwise op (set is) z x y mem mem'"
  unfolding pointwise_gathered
proof (rule gather_each [OF assms(1) separate_isolated [OF assms(2), of "\<lambda>_. op"]])
  fix i and m :: "'a list" assume "i \<in> set is" "length m = length mem"
  moreover from this have "{z i, x i, y i} \<subseteq> {0..<int (length m)}" using assms(2) by (simp add: separate_def)
  ultimately show "apply2 op (z i) (x i) (y i) m = Some (m[nat (z i) := op (m ! nat (x i)) (m ! nat (y i))])"
    by (simp add: apply2_def rd_def wr_def)
qed

lemma apply1_apply2: "apply1 op z x mem = apply2 (\<lambda>a b. op a) z x x mem"
  by (cases "rd mem x") (simp_all add: apply1_def apply2_def)

lemma separate_image:
  assumes "inj_on h J" shows "separate J (\<lambda>j. z (h j)) (\<lambda>j. x (h j)) (\<lambda>j. y (h j)) mem \<longleftrightarrow> separate (h ` J) z x y mem"
proof -
  have "inj_on (\<lambda>j. z (h j)) J \<longleftrightarrow> inj_on z (h ` J)" using comp_inj_on_iff [OF assms, of z] by (simp add: comp_def)
  then show ?thesis using assms by (auto simp: separate_def inj_on_eq_iff)
qed

lemma pointwise_image:
  "pointwise op J (\<lambda>j. z (h j)) (\<lambda>j. x (h j)) (\<lambda>j. y (h j)) mem mem' \<longleftrightarrow> pointwise op (h ` J) z x y mem mem'"
  by (simp add: pointwise_def image_image)


lemma pointwise_loop:
  assumes "distinct is" "inj_on h (set is)" "h ` set is = I" "separate I z x y mem"
    and "\<And>i. i \<in> set is \<Longrightarrow> body i = apply2 op (z (h i)) (x (h i)) (y (h i))"
  shows "\<exists>mem'. for_each body is mem = Some mem' \<and> pointwise op I z x y mem mem'"
proof -
  have "for_each body is mem = for_each (\<lambda>i. apply2 op (z (h i)) (x (h i)) (y (h i))) is mem"
    by (rule for_each_cong) (simp_all add: assms(5))
  moreover have "separate (set is) (\<lambda>i. z (h i)) (\<lambda>i. x (h i)) (\<lambda>i. y (h i)) mem"
    using assms(4) unfolding separate_image [OF assms(2)] assms(3) .
  ultimately show ?thesis
    using apply2_each [OF assms(1), of "\<lambda>i. z (h i)" "\<lambda>i. x (h i)" "\<lambda>i. y (h i)" mem op]
    unfolding pointwise_image assms(3) by auto
qed

subsection \<open>Schedules\<close>

definition runtime_ok :: "runtime \<Rightarrow> bool" where
  "runtime_ok rt \<longleftrightarrow> 0 < rt_max_threads rt \<and> 0 < rt_element_threshold rt \<and> 0 < rt_tad_threshold rt
     \<and> (\<forall>is. mset (rt_order rt is) = mset is)"

lemma ordered:
  assumes "runtime_ok rt" "distinct is"
  shows "distinct (rt_order rt is)" "set (rt_order rt is) = set is"
proof -
  have m: "mset (rt_order rt is) = mset is" using assms(1) by (simp add: runtime_ok_def)
  show "distinct (rt_order rt is)" using mset_eq_imp_distinct_iff [OF m] assms(2) by simp
  show "set (rt_order rt is) = set is" by (rule mset_eq_setD [OF m])
qed

lemma upto_set: "set [0..n - 1] = {0..<n :: int}"
  by auto

lemma parallel_pointwise:
  assumes "runtime_ok rt" "bij_betw h {0..<n} I" "separate I z x y mem"
    and "\<And>i. 0 \<le> i \<Longrightarrow> i < n \<Longrightarrow> body i = apply2 op (z (h i)) (x (h i)) (y (h i))"
  shows "\<exists>mem'. parallel_for rt n body mem = Some mem' \<and> pointwise op I z x y mem mem'"
proof -
  have o: "distinct (rt_order rt [0..n - 1])" "set (rt_order rt [0..n - 1]) = {0..<n}"
    using ordered [OF assms(1), of "[0..n - 1]"] upto_set by auto
  show ?thesis
    unfolding parallel_for_def
    by (rule pointwise_loop [OF o(1), of h]) (use o(2) assms(2-4) in \<open>auto simp: bij_betw_def\<close>)
qed

lemma thread_count_pos:
  assumes "runtime_ok rt" "0 < threshold"
  shows "\<exists>t. thread_count rt n threshold = Some t \<and> 0 < t \<and> t \<le> rt_max_threads rt"
  using assms by (auto simp: thread_count_def cdiv_def runtime_ok_def)

lemma upto_join: "a \<le> b \<Longrightarrow> b \<le> c \<Longrightarrow> [a..b - 1] @ [b..c - 1] = [a..c - 1 :: int]"
proof (cases "a = b \<or> b = c")
  case False
  assume "a \<le> b" "b \<le> c"
  then show ?thesis using False upto_split2 [of a "b - 1" "c - 1"] by simp
qed auto

lemma thread_spans_exact:
  assumes "0 \<le> span" "\<And>v. 0 \<le> v \<Longrightarrow> v \<le> span * (int tid + int rest) \<Longrightarrow> chk v = Some v"
  shows "thread_spans chk span n tid rest = Some [min n (span * int tid)..min n (span * (int tid + int rest)) - 1]"
  using assms(2)
proof (induction rest arbitrary: tid)
  case 0
  then show ?case by (simp add: min_def)
next
  case (Suc rest)
  have m: "0 \<le> span * int tid" "span * int tid \<le> span * (int tid + 1)" "span * (int tid + 1) \<le> span * (int tid + int (Suc rest))"
    using assms(1) by (auto intro!: mult_left_mono)
  then have c: "chk (span * int tid) = Some (span * int tid)" "chk (span * (int tid + 1)) = Some (span * (int tid + 1))"
    using Suc.prems by (meson order_trans)+
  have t: "int (Suc tid) + int rest = int tid + int (Suc rest)" "int (Suc tid) = int tid + 1" by simp_all
  have IH: "thread_spans chk span n (Suc tid) rest
      = Some [min n (span * (int tid + 1))..min n (span * (int tid + int (Suc rest))) - 1]"
    by (rule Suc.IH [of "Suc tid", unfolded t(1), unfolded t(2), OF Suc.prems])
  have "[span * int tid..(if span * (int tid + 1) > n then n else span * (int tid + 1)) - 1]
      = [min n (span * int tid)..min n (span * (int tid + 1)) - 1]"
    using m(2) by (cases "span * int tid \<le> n") (auto simp: min_def)
  moreover have "[min n (span * int tid)..min n (span * (int tid + 1)) - 1] @ [min n (span * (int tid + 1))..min n (span * (int tid + int (Suc rest))) - 1]
      = [min n (span * int tid)..min n (span * (int tid + int (Suc rest))) - 1]"
    by (rule upto_join) (use m(2,3) in linarith)+
  ultimately show ?case using c IH by simp
qed

text \<open>The spans of all threads together are the iterations from 0 to \<open>n - 1\<close>.\<close>

lemma spanned_iterations:
  assumes "0 \<le> n" "0 < threads" "\<And>v. 0 \<le> v \<Longrightarrow> v \<le> n + 8 * threads \<Longrightarrow> chk v = Some v"
  shows "thread_spans chk (n div threads + 8) n 0 (nat threads) = Some [0..n - 1]"
proof -
  have q: "0 \<le> n div threads" using assms(1,2) by (simp add: pos_imp_zdiv_nonneg_iff)
  have e: "n div threads * threads + n mod threads = n" by simp
  have m: "0 \<le> n mod threads" "n mod threads < threads" using assms(2) by simp_all
  have p: "(n div threads + 8) * threads = n div threads * threads + 8 * threads" by (simp add: algebra_simps)
  then have le: "n \<le> (n div threads + 8) * threads" "(n div threads + 8) * threads \<le> n + 8 * threads"
    using e m by linarith+
  have "thread_spans chk (n div threads + 8) n 0 (nat threads)
      = Some [min n ((n div threads + 8) * int 0)..min n ((n div threads + 8) * (int 0 + int (nat threads))) - 1]"
    by (rule thread_spans_exact) (use q le(2) assms in auto)
  then show ?thesis using assms(1,2) le(1) by simp
qed


lemma spanned_pointwise:
  assumes "runtime_ok rt" "0 \<le> n" "\<And>v. 0 \<le> v \<Longrightarrow> v \<le> n + 8 * rt_max_threads rt \<Longrightarrow> chk v = Some v \<and> narrow v = v"
    and "bij_betw h {0..<n} I" "separate I z x y mem"
    and "\<And>i. 0 \<le> i \<Longrightarrow> i < n \<Longrightarrow> body i = apply2 op (z (h i)) (x (h i)) (y (h i))"
  shows "\<exists>mem'. spanned_for rt chk narrow n body mem = Some mem' \<and> pointwise op I z x y mem mem'"
proof -
  obtain t where t: "thread_count rt n (rt_element_threshold rt) = Some t" "0 < t" "t \<le> rt_max_threads rt"
    using thread_count_pos [OF assms(1), of "rt_element_threshold rt" n] assms(1) by (auto simp: runtime_ok_def)
  have q: "0 \<le> n div t" "n div t \<le> n"
    using assms(2) t(2) zdiv_mono2 [of n 1 t] by (auto simp: pos_imp_zdiv_nonneg_iff)
  have c: "chk (n div t + 8) = Some (n div t + 8)" "narrow (n div t + 8) = n div t + 8"
    using assms(3) [of "n div t + 8"] q t by auto
  have s: "thread_spans chk (n div t + 8) n 0 (nat t) = Some [0..n - 1]"
    by (rule spanned_iterations) (use assms(2,3) t in auto)
  have "spanned_for rt chk narrow n body mem = for_each body (rt_order rt [0..n - 1]) mem"
    using t(1,2) assms(2) by (simp add: spanned_for_def cdiv_pos c s)
  then show ?thesis
    using parallel_pointwise [OF assms(1,4,5), of body op] assms(6) by (simp add: parallel_for_def)
qed

subsection \<open>Coordinates\<close>

definition box :: "int list \<Rightarrow> int list set" where
  "box sh = {idx. in_box sh idx}"

lemma bij_dec:
  assumes "pos_dims sh"
  shows "bij_betw (dec_f sh) {0..<prod_list sh} (box sh)" "bij_betw (dec_c sh) {0..<prod_list sh} (box sh)"
proof -
  show "bij_betw (dec_f sh) {0..<prod_list sh} (box sh)"
    by (rule bij_betw_byWitness [where f' = "enc_f sh"])
      (use enc_dec_f [OF assms] dec_enc_f enc_f_bounds in \<open>auto simp: box_def\<close>)
  show "bij_betw (dec_c sh) {0..<prod_list sh} (box sh)"
    by (rule bij_betw_byWitness [where f' = "enc_c sh"])
      (use enc_dec_c [OF assms] dec_enc_c enc_c_bounds in \<open>auto simp: box_def\<close>)
qed

lemma finite_box: "pos_dims sh \<Longrightarrow> finite (box sh)"
  using bij_betw_finite [OF bij_dec(1)] by simp

lemma coords_exact:
  assumes "pos_dims sh" "prod_list sh < 2 ^ 31" "length sh \<le> 32" "0 \<le> k" "k < prod_list sh"
  shows "coords_c (int (length sh)) (sh @ rest) k = Some (dec_c sh k)"
    and "coords_f (int (length sh)) (sh @ rest) k = Some (dec_f sh k)"
proof -
  have p: "prodLong (sh @ rest) (int (length sh)) = Some (prod_list sh)"
    using prodLong_exact [of "length sh" "sh @ rest"] assms by simp
  have n: "to_int32 (prod_list sh) = prod_list sh" using assms by (intro to_int32_id) auto
  have l: "length sh \<le> length (replicate MAX_RANK None :: cells)" using assms(3) by (simp add: MAX_RANK_def)
  show "coords_c (int (length sh)) (sh @ rest) k = Some (dec_c sh k)"
    using ind2subC_into_exact [OF assms(1,4,5) refl l, of rest] by (simp add: coords_c_def ind2subC_out_def p n)
  show "coords_f (int (length sh)) (sh @ rest) k = Some (dec_f sh k)"
    using ind2sub_into_exact [OF assms(1,4,5) refl l, of rest] by (simp add: coords_f_def ind2sub_out_def p n)
qed

subsection \<open>Raw iteration with a body\<close>

definition pointers :: "operand list \<Rightarrow> int list \<Rightarrow> int list" where
  "pointers arrays idx = map (\<lambda>(p, st). p + inner st idx) arrays"

lemma visits_box:
  assumes "pos_dims sh" shows "visits sh arrays = image_mset (pointers arrays) (mset_set (box sh))"
proof -
  have v: "visit sh arrays = pointers arrays \<circ> dec_f sh" by (simp add: visit_def pointers_def fun_eq_iff)
  have "image_mset (dec_f sh) (mset_set {0..<prod_list sh}) = mset_set (box sh)"
    using bij_dec(1) [OF assms] by (simp add: image_mset_mset_set bij_betw_def)
  then show ?thesis by (simp add: visits_def v flip: image_mset.compositionality)
qed

lemma mset_image_list:
  "mset ys = image_mset g M \<Longrightarrow> \<exists>xs. mset xs = M \<and> ys = map g xs"
proof (induction ys arbitrary: M)
  case (Cons y ys)
  then have "y \<in># image_mset g M" by (metis list.set_intros(1) set_mset_mset)
  then obtain x where x: "x \<in># M" "y = g x" by auto
  then obtain N where N: "M = add_mset x N" by (metis multi_member_split)
  with Cons x obtain xs where "mset xs = N" "ys = map g xs" by auto
  with x(2) N show ?case by (intro exI [of _ "x # xs"]) simp
qed simp

lemma mset_box_list:
  assumes "pos_dims sh" "mset ptrs = image_mset g (mset_set (box sh))"
  shows "\<exists>L. distinct L \<and> set L = box sh \<and> ptrs = map g L"
proof -
  from mset_image_list [OF assms(2)] obtain L where L: "mset L = mset_set (box sh)" "ptrs = map g L" by blast
  have f: "finite (box sh)" by (rule finite_box [OF assms(1)])
  then have "set L = box sh" using L(1) by (metis finite_set_mset_mset_set set_mset_mset)
  moreover have "distinct L" unfolding distinct_count_atmost_1 using L(1) f calculation by (simp add: count_mset_set)
  ultimately show ?thesis using L(2) by blast
qed

lemma raw_visits:
  assumes "moves_fit sh arrays"
  shows "\<exists>L. distinct L \<and> set L = box sh \<and> raw_iter (length sh) sh arrays = Some (map (pointers arrays) L)"
proof -
  have pos: "pos_dims sh" using assms by (simp add: moves_fit_def)
  have r: "raw_iter (length sh) sh arrays = Some (map (\<lambda>m. pointers arrays (dec_f sh (int m))) [0..<nat (prod_list sh)])"
    using raw_iter_exact [OF assms] by (simp add: visit_def pointers_def)
  let ?L = "map (\<lambda>m. dec_f sh (int m)) [0..<nat (prod_list sh)]"
  have P: "0 < prod_list sh" using pos by (simp add: pos_dims_def prod_list_pos)
  have "inj_on (\<lambda>m. dec_f sh (int m)) {0..<nat (prod_list sh)}"
  proof (rule inj_onI)
    fix a b assume "a \<in> {0..<nat (prod_list sh)}" "b \<in> {0..<nat (prod_list sh)}" "dec_f sh (int a) = dec_f sh (int b)"
    then have "int a = int b" by (intro inj_onD [OF bij_betw_imp_inj_on [OF bij_dec(1) [OF pos]]]) auto
    then show "a = b" by simp
  qed
  then have "distinct ?L" by (simp add: distinct_map)
  moreover have "set ?L = box sh"
  proof -
    have "set ?L = dec_f sh ` int ` {0..<nat (prod_list sh)}" by (simp add: image_image)
    also have "int ` {0..<nat (prod_list sh)} = {0..<prod_list sh}" using P by (simp add: image_int_atLeastLessThan)
    finally show ?thesis using bij_dec(1) [OF pos] by (simp add: bij_betw_def)
  qed
  ultimately show ?thesis using r by (intro exI [of _ ?L]) (simp add: comp_def)
qed


lemma raw_visits_prepared:
  assumes "moves_fit sh arrays'" "visits sh arrays' = visits sh arrays"
  shows "\<exists>L. distinct L \<and> set L = box sh \<and> raw_iter (length sh) sh arrays' = Some (map (pointers arrays) L)"
proof -
  have pos: "pos_dims sh" using assms(1) by (simp add: moves_fit_def)
  from raw_visits [OF assms(1)] obtain K where
    K: "distinct K" "set K = box sh" "raw_iter (length sh) sh arrays' = Some (map (pointers arrays') K)" by blast
  have "mset (map (pointers arrays') K) = visits sh arrays'"
    unfolding visits_box [OF pos] using K(1,2) by (simp add: mset_set_set [symmetric])
  also have "\<dots> = image_mset (pointers arrays) (mset_set (box sh))" unfolding assms(2) by (rule visits_box [OF pos])
  finally show ?thesis using mset_box_list [OF pos] K(3) by metis
qed

lemma copy_prefix:
  "copy_ints (length xs) (xs @ r) = Some xs"
  "length xs = n \<Longrightarrow> copy_ints n (xs @ r) = Some xs"
  by (auto simp: copy_ints_def)

definition raw_prepared :: "(nat \<times> int list \<times> operand list) option \<Rightarrow> int list \<Rightarrow> operand list \<Rightarrow> bool" where
  "raw_prepared prepared sh arrays \<longleftrightarrow> (\<exists>n sh' arrays' L. prepared = Some (n, sh', arrays')
     \<and> raw_iter n sh' arrays' = Some (map (pointers arrays) L) \<and> distinct L \<and> set L = box sh)"

lemma prepare_two_raw:
  assumes "moves_fit sh [(p, sp), (q, sq)]"
  shows "raw_prepared (PrepareTwoRawArrayIter (length sh) (sh @ r0) (p, sp @ r1) (q, sq @ r2)) sh [(p, sp), (q, sq)]"
proof -
  have len: "length sp = length sh" "length sq = length sh" using assms by (simp_all add: moves_fit_def)
  have e: "PrepareTwoRawArrayIter (length sh) (sh @ r0) (p, sp @ r1) (q, sq @ r2)
      = PrepareTwoRawArrayIter (length sh) sh (p, sp) (q, sq)"
    by (simp add: PrepareTwoRawArrayIter_def copy_prefix(1) copy_prefix(2) [OF len(1)] copy_prefix(2) [OF len(2)]
        copy_exact(1) [OF refl] copy_exact(1) [OF len(1)] copy_exact(1) [OF len(2)])
  from prepare_two_exact [OF assms] obtain A B where
    "PrepareTwoRawArrayIter (length sh) sh (p, sp) (q, sq) = Some (length sh, sh, [A, B])"
    "moves_fit sh [A, B]" "visits sh [A, B] = visits sh [(p, sp), (q, sq)]" by blast
  then show ?thesis unfolding raw_prepared_def e using raw_visits_prepared by blast
qed

lemma prepare_one_raw:
  assumes "moves_fit sh [(p, sp)]"
  shows "raw_prepared (PrepareOneRawArrayIter (length sh) (sh @ r0) (p, sp @ r1)) sh [(p, sp)]"
proof -
  have len: "length sp = length sh" using assms by (simp add: moves_fit_def)
  have "PrepareOneRawArrayIter (length sh) (sh @ r0) (p, sp @ r1) = Some (length sh, sh, [(p, sp)])"
    using copy_prefix(2) [OF len] by (simp add: PrepareOneRawArrayIter_def copy_prefix(1))
  then show ?thesis using raw_visits [OF assms] by (auto simp: raw_prepared_def)
qed

lemma raw_scalar: "raw_iter 1 [1] [(p, [0]), (q, [0]), (r, [0])] = Some [[p, q, r]]"
proof -
  have "raw_iter 1 [1] [(p, [0]), (q, [0]), (r, [0])]
      = Some (map (\<lambda>m. visit [1] [(p, [0]), (q, [0]), (r, [0])] (int m)) [0..<nat (prod_list [1])])"
    using raw_iter_exact [of "[1]"] by (simp add: moves_fit_def pos_dims_def)
  then show ?thesis by (simp add: visit_def)
qed

lemma prepare_three_raw:
  assumes fit: "moves_fit sh [(p, sp), (q, sq), (r, sr)]"
  shows "raw_prepared (PrepareThreeRawArrayIter (length sh) (sh @ r0) (p, sp @ r1) (q, sq @ r2) (r, sr @ r3)) sh
    [(p, sp), (q, sq), (r, sr)]"
proof -
  let ?A = "[(p, sp), (q, sq), (r, sr)]"
  have len: "length sp = length sh" "length sq = length sh" "length sr = length sh" using fit by (simp_all add: moves_fit_def)
  have c: "copy_ints (length sh) (sh @ r0) = Some sh"
    "copy_operands (length sh) [(p, sp @ r1), (q, sq @ r2), (r, sr @ r3)] = Some ?A"
    using copy_prefix(2) [OF len(1)] copy_prefix(2) [OF len(2)] copy_prefix(2) [OF len(3)] by (simp_all add: copy_prefix(1))
  consider (none) "sh = []" | (one) d where "sh = [d]" | (more) "2 \<le> length sh"
    by (cases sh; cases "tl sh") auto
  then show ?thesis
  proof cases
    case none
    have "pointers ?A [] = [p, q, r]" by (cases sp; cases sq; cases sr) (simp_all add: pointers_def)
    moreover have "box sh = {[]}" using none by (auto simp: box_def)
    ultimately show ?thesis
      using none raw_scalar
      by (auto simp: PrepareThreeRawArrayIter_def raw_prepared_def intro!: exI [of _ "[[]]"])
  next
    case one
    have i: "0 < length sh" "sh ! 0 = d" "hd sh = d" "sh \<noteq> []" "length sh \<noteq> 0" "length sh = 1" using one by simp_all
    have hd: "rd (sp @ r1) 0 = Some (sp ! 0)" using len(1) one by (cases sp) simp_all
    have rev: "reverse_axis 0 d ?A = Some (map (reversed sh 0) ?A)"
      using reverse_axis_exact [OF fit i(1)] i(2) by simp
    define B where "B = (if 0 \<le> sp ! 0 then ?A else map (reversed sh 0) ?A)"
    have "PrepareThreeRawArrayIter (length sh) (sh @ r0) (p, sp @ r1) (q, sq @ r2) (r, sr @ r3) = Some (length sh, sh, B)"
      unfolding PrepareThreeRawArrayIter_def c using i(3-6) hd rev by (simp add: B_def)
    moreover have "moves_fit sh B" "visits sh B = visits sh ?A"
      using fit moves_fit_reversed [OF fit i(1)] visits_reversed [OF fit i(1)] by (simp_all add: B_def)
    ultimately show ?thesis using raw_visits_prepared unfolding raw_prepared_def by blast
  next
    case more
    then have n: "length sh \<noteq> 0" "length sh \<noteq> 1" by auto
    from reverse_axes_loop_exact [OF fit, of 0 "length sh"] obtain B where
      "reverse_axes_loop sh 0 (length sh) ?A = Some (length sh, sh, B)" "moves_fit sh B" "visits sh B = visits sh ?A" by auto
    moreover from this have "PrepareThreeRawArrayIter (length sh) (sh @ r0) (p, sp @ r1) (q, sq @ r2) (r, sr @ r3) = Some (length sh, sh, B)"
      using n unfolding PrepareThreeRawArrayIter_def c by simp
    ultimately show ?thesis using raw_visits_prepared unfolding raw_prepared_def by blast
  qed
qed

subsection \<open>Nested loops\<close>

lemma for_each_pairs:
  "for_each (\<lambda>r. for_each (\<lambda>f. body (r, f)) (L r)) is s = for_each body (concat (map (\<lambda>r. map (Pair r) (L r)) is)) s"
  by (simp add: for_each_concat for_each_map for_each_map_fun)

lemma distinct_pairs: "distinct is \<Longrightarrow> (\<And>r. r \<in> set is \<Longrightarrow> distinct (L r)) \<Longrightarrow> distinct (concat (map (\<lambda>r. map (Pair r) (L r)) is))"
  by (induction "is") (auto simp: distinct_map inj_on_def)

lemma parallel_nested:
  assumes "runtime_ok rt" "isolated (Sigma {0..<n} (\<lambda>r. {0..<k})) w g (length mem)"
    and "\<And>r f m. 0 \<le> r \<Longrightarrow> r < n \<Longrightarrow> 0 \<le> f \<Longrightarrow> f < k \<Longrightarrow> length m = length mem
      \<Longrightarrow> body r f m = Some (m[nat (w (r, f)) := g (r, f) m])"
  shows "\<exists>mem'. parallel_for rt n (\<lambda>r. for_each (body r) [0..k - 1]) mem = Some mem'
    \<and> gathered (Sigma {0..<n} (\<lambda>r. {0..<k})) w g mem mem'"
proof -
  let ?is = "rt_order rt [0..n - 1]" and ?K = "\<lambda>is. concat (map (\<lambda>r. map (Pair r) [0..k - 1]) is)"
  have o: "distinct ?is" "set ?is = {0..<n}" using ordered [OF assms(1), of "[0..n - 1]"] upto_set by auto
  have K: "distinct (?K ?is)" by (rule distinct_pairs) (use o(1) in simp_all)
  have S: "set (?K ?is) = Sigma {0..<n} (\<lambda>r. {0..<k})" using o(2) by auto
  have "parallel_for rt n (\<lambda>r. for_each (body r) [0..k - 1]) mem = for_each (\<lambda>(r, f). body r f) (?K ?is) mem"
    using for_each_pairs [of "\<lambda>(r, f). body r f" "\<lambda>r. [0..k - 1]" ?is mem] by (simp add: parallel_for_def)
  then show ?thesis
    using gather_loop [OF K inj_on_id2 _ assms(2), of "\<lambda>(r, f). body r f"] assms(3) S by auto
qed

lemma parallel_gather:
  assumes "runtime_ok rt" "isolated {0..<n} w g (length mem)"
    and "\<And>i m. 0 \<le> i \<Longrightarrow> i < n \<Longrightarrow> length m = length mem \<Longrightarrow> body i m = Some (m[nat (w i) := g i m])"
  shows "\<exists>mem'. parallel_for rt n body mem = Some mem' \<and> gathered {0..<n} w g mem mem'"
proof -
  have o: "distinct (rt_order rt [0..n - 1])" "set (rt_order rt [0..n - 1]) = {0..<n}"
    using ordered [OF assms(1), of "[0..n - 1]"] upto_set by auto
  show ?thesis unfolding parallel_for_def
    using gather_loop [OF o(1) inj_on_id2 _ assms(2), of body] assms(3) o(2) by auto
qed

lemma parallel_for_cong:
  assumes "runtime_ok rt" "\<And>i s. 0 \<le> i \<Longrightarrow> i < n \<Longrightarrow> f i s = g i s"
  shows "parallel_for rt n f s = parallel_for rt n g s"
  unfolding parallel_for_def
proof (rule for_each_cong [OF refl refl])
  fix i s assume "i \<in> set (rt_order rt [0..n - 1])"
  then have "0 \<le> i" "i < n" using ordered(2) [OF assms(1), of "[0..n - 1]"] by auto
  then show "f i s = g i s" by (rule assms(2))
qed

text \<open>A nested loop that applies an operation to two operands, one tensor per parallel iteration.\<close>

lemma parallel_nested_apply2:
  fixes mem :: "'a list"
  assumes "runtime_ok rt" "separate (Sigma {0..<n} (\<lambda>r. {0..<k})) z x y mem"
  shows "\<exists>mem'. parallel_for rt n (\<lambda>r. for_each (\<lambda>f. apply2 (op (r, f)) (z (r, f)) (x (r, f)) (y (r, f))) [0..k - 1]) mem = Some mem'
    \<and> gathered (Sigma {0..<n} (\<lambda>r. {0..<k})) z (\<lambda>i m. op i (m ! nat (x i)) (m ! nat (y i))) mem mem'"
proof (rule parallel_nested [OF assms(1) separate_isolated [OF assms(2), of op]])
  fix r f :: int and m :: "'a list"
  assume i: "0 \<le> r" "r < n" "0 \<le> f" "f < k" and "length m = length mem"
  then have "{z (r, f), x (r, f), y (r, f)} \<subseteq> {0..<int (length m)}" using assms(2) by (auto simp: separate_def)
  then show "apply2 (op (r, f)) (z (r, f)) (x (r, f)) (y (r, f)) m = Some (m[nat (z (r, f)) := op (r, f) (m ! nat (x (r, f))) (m ! nat (y (r, f)))])"
    by (simp add: apply2_def rd_def wr_def)
qed

subsection \<open>Loops over disjoint regions\<close>

text \<open>The cells outside \<open>C\<close> are unchanged.\<close>

definition elsewhere :: "int set \<Rightarrow> 'a list \<Rightarrow> 'a list \<Rightarrow> bool" where
  "elsewhere C mem mem' \<longleftrightarrow> length mem' = length mem \<and> (\<forall>q < length mem. int q \<notin> C \<longrightarrow> mem' ! q = mem ! q)"

lemma elsewhere_refl [simp]: "elsewhere C mem mem"
  by (simp add: elsewhere_def)

lemma elsewhere_trans: "elsewhere C m m' \<Longrightarrow> elsewhere C m' m'' \<Longrightarrow> elsewhere C m m''"
  by (simp add: elsewhere_def)

text \<open>
  A parallel loop whose iterations read and write only the cells of a region of their own: every
  iteration has the effect that it would have alone on the initial memory.
\<close>

definition same_on :: "int set \<Rightarrow> 'a list \<Rightarrow> 'a list \<Rightarrow> bool" where
  "same_on C m m' \<longleftrightarrow> (\<forall>q. int q \<in> C \<longrightarrow> m ! q = m' ! q)"

lemma regions_each:
  assumes "distinct is"
    and "\<And>i m. i \<in> set is \<Longrightarrow> length m = length mem \<Longrightarrow> \<exists>m'. body i m = Some m' \<and> R i m m' \<and> elsewhere (C i) m m'"
    and "\<And>i m m' n n'. i \<in> set is \<Longrightarrow> R i m m' \<Longrightarrow> same_on (C i) m n \<Longrightarrow> same_on (C i) m' n' \<Longrightarrow> R i n n'"
    and "\<And>i j. i \<in> set is \<Longrightarrow> j \<in> set is \<Longrightarrow> i \<noteq> j \<Longrightarrow> C i \<inter> C j = {}"
    and "\<And>i. i \<in> set is \<Longrightarrow> C i \<subseteq> {0..<int (length mem)}"
  shows "\<exists>mem'. for_each body is mem = Some mem' \<and> (\<forall>i \<in> set is. R i mem mem') \<and> elsewhere (\<Union>i \<in> set is. C i) mem mem'"
  using assms
proof (induction "is" arbitrary: mem)
  case Nil
  then show ?case by simp
next
  case (Cons i "is")
  from Cons.prems(2) [of i mem] obtain m where m: "body i mem = Some m" "R i mem m" "elsewhere (C i) mem m" by auto
  have len: "length m = length mem" using m(3) by (simp add: elsewhere_def)
  have "\<exists>mem'. for_each body is m = Some mem' \<and> (\<forall>i \<in> set is. R i m mem') \<and> elsewhere (\<Union>i \<in> set is. C i) m mem'"
  proof (rule Cons.IH)
    show "distinct is" using Cons.prems(1) by simp
    show "\<exists>m'. body j n = Some m' \<and> R j n m' \<and> elsewhere (C j) n m'" if "j \<in> set is" "length n = length m" for j n
      using Cons.prems(2) [of j n] that len by simp
    show "R j n n'" if "j \<in> set is" "R j k k'" "same_on (C j) k n" "same_on (C j) k' n'" for j k k' n n'
      using Cons.prems(3) [of j k k' n n'] that by simp
    show "C j \<inter> C k = {}" if "j \<in> set is" "k \<in> set is" "j \<noteq> k" for j k using Cons.prems(4) [of j k] that by simp
    show "C j \<subseteq> {0..<int (length m)}" if "j \<in> set is" for j using Cons.prems(5) [of j] that len by simp
  qed
  then obtain mem' where r: "for_each body is m = Some mem'" "\<forall>i \<in> set is. R i m mem'" "elsewhere (\<Union>i \<in> set is. C i) m mem'"
    by blast
  have apart: "C i \<inter> C j = {}" if "j \<in> set is" for j using Cons.prems(1,4) that by auto
  have inside: "q < length mem" if "j \<in> set (i # is)" "int q \<in> C j" for j q
    using subsetD [OF Cons.prems(5) that(2)] that(1) by simp
  have "m ! q = mem' ! q" if q: "int q \<in> C i" for q
  proof -
    have "int q \<notin> (\<Union>j \<in> set is. C j)" using apart q by blast
    then show ?thesis using r(3) inside [OF _ q] len by (simp add: elsewhere_def)
  qed
  then have "same_on (C i) m mem'" by (simp add: same_on_def)
  then have "R i mem mem'" using Cons.prems(3) [of i mem m mem mem'] m(2) by (simp add: same_on_def)
  moreover have "R j mem mem'" if j: "j \<in> set is" for j
  proof -
    have "same_on (C j) m mem" using m(3) apart [OF j] inside [of j] j unfolding same_on_def elsewhere_def by auto
    moreover have "same_on (C j) mem' mem'" by (simp add: same_on_def)
    ultimately show ?thesis using Cons.prems(3) [of j m mem' mem mem'] r(2) j by auto
  qed
  moreover have "elsewhere (\<Union>i \<in> set (i # is). C i) mem mem'"
    using m(3) r(3) by (simp add: elsewhere_def)
  ultimately show ?case using m(1) r(1) by auto
qed

text \<open>A loop in any order, with an invariant on the set of the iterations that are done.\<close>

lemma for_each_total:
  assumes "distinct is" "P {} s"
    and "\<And>i A s. i \<in> set is \<Longrightarrow> A \<subseteq> set is \<Longrightarrow> i \<notin> A \<Longrightarrow> P A s \<Longrightarrow> \<exists>s'. body i s = Some s' \<and> P (insert i A) s'"
  shows "\<exists>s'. for_each body is s = Some s' \<and> P (set is) s'"
proof -
  have "\<exists>s'. for_each body js s = Some s' \<and> P (A \<union> set js) s'"
    if "distinct js" "set js \<subseteq> set is" "A \<subseteq> set is" "A \<inter> set js = {}" "P A s" for js A s
    using that
  proof (induction js arbitrary: A s)
    case (Cons j js)
    from assms(3) [of j A s] Cons.prems obtain t where t: "body j s = Some t" "P (insert j A) t" by auto
    from Cons.IH [of "insert j A" t] Cons.prems t(2) obtain s' where "for_each body js t = Some s'" "P (insert j A \<union> set js) s'"
      by auto
    then show ?case using t(1) by simp
  qed simp
  from this [of "is" "{}" s] show ?thesis using assms(1,2) by simp
qed

end
