(* ===== verification/ElementwiseLoops.thy ===== *)
theory ElementwiseLoops
  imports ElementLoops ShapeTad
begin

text \<open>
  The element-wise loops for the CPU: \<open>include/loops/pairwise_transform.h\<close>, \<open>include/loops/scalar.h\<close>
  and \<open>include/loops/transform.h\<close>.  \<open>op\<close> is \<open>OpType::op\<close> applied to the extra parameters.
\<close>

subsection \<open>Ranks\<close>

text \<open>The arrays of the raw iteration have \<open>MAX_RANK\<close> cells; a negative rank overruns them.\<close>

definition iter_rank :: "int \<Rightarrow> nat option" where
  "iter_rank rank = (if 0 \<le> rank \<and> rank \<le> int MAX_RANK then Some (nat rank) else None)"

subsection \<open>Two arrays: \<open>pairwise_transform.h\<close>\<close>

definition pairwise_indexed ::
  "runtime \<Rightarrow> ('a \<Rightarrow> 'a \<Rightarrow> 'a) \<Rightarrow> int \<Rightarrow> int list \<Rightarrow> int \<Rightarrow> int \<Rightarrow> int list \<Rightarrow> int list \<Rightarrow> int list \<Rightarrow> 'a list \<Rightarrow> 'a list option" where
  "pairwise_indexed rt op dx xShapeBuffer y result indexes yIndexes resultIndexes mem = do {
     n \<leftarrow> length_of xShapeBuffer;
     parallel_for rt n (\<lambda>i mem. do {
       k \<leftarrow> rd resultIndexes i; a \<leftarrow> rd indexes i; b \<leftarrow> rd yIndexes i;
       apply2 op (result + k) (dx + a) (y + b) mem }) mem }"

definition pairwise_strided ::
  "runtime \<Rightarrow> ('a \<Rightarrow> 'a \<Rightarrow> 'a) \<Rightarrow> int \<Rightarrow> int \<Rightarrow> int \<Rightarrow> int \<Rightarrow> int \<Rightarrow> int \<Rightarrow> int \<Rightarrow> 'a list \<Rightarrow> 'a list option" where
  "pairwise_strided rt op dx xStride y yStride result resultStride n =
     (if xStride = 1 \<and> yStride = 1 \<and> resultStride = 1
      then spanned_for rt i64 to_int32 n (\<lambda>i. apply2 op (result + i) (dx + i) (y + i))
      else spanned_for rt i64 to_int32 n (\<lambda>i mem. do {
        k \<leftarrow> i64 (i * resultStride); a \<leftarrow> i64 (i * xStride); b \<leftarrow> i64 (i * yStride);
        apply2 op (result + k) (dx + a) (y + b) mem }))"

text \<open>The loop over the first axis, with a raw iteration over the others.\<close>

definition pairwise_row ::
  "('a \<Rightarrow> 'a \<Rightarrow> 'a) \<Rightarrow> int \<Rightarrow> int list \<Rightarrow> operand \<Rightarrow> operand \<Rightarrow> operand \<Rightarrow> int \<Rightarrow> 'a list \<Rightarrow> 'a list option" where
  "pairwise_row op rank xShape X Y Z i mem = do {
     s \<leftarrow> rd (snd X) 0; a \<leftarrow> i64 (s * i);
     s \<leftarrow> rd (snd Y) 0; b \<leftarrow> i64 (s * i);
     s \<leftarrow> rd (snd Z) 0; k \<leftarrow> i64 (s * i);
     rankLocal \<leftarrow> iter_rank (rank - 1);
     (rankLocal, shapeIter, arrays) \<leftarrow> PrepareThreeRawArrayIter rankLocal (tl xShape)
       (fst X + a, tl (snd X)) (fst Y + b, tl (snd Y)) (fst Z + k, tl (snd Z));
     raw_for rankLocal shapeIter arrays (\<lambda>ptrs. apply2 op (ptrs ! 2) (ptrs ! 0) (ptrs ! 1)) mem }"

definition pairwise_rows ::
  "runtime \<Rightarrow> ('a \<Rightarrow> 'a \<Rightarrow> 'a) \<Rightarrow> int \<Rightarrow> int list \<Rightarrow> int \<Rightarrow> int list \<Rightarrow> int \<Rightarrow> int list \<Rightarrow> 'a list \<Rightarrow> 'a list option" where
  "pairwise_rows rt op dx xShapeBuffer y yShapeBuffer result resultShapeBuffer mem = do {
     rank \<leftarrow> rank_of xShapeBuffer;
     xStride \<leftarrow> stride_of xShapeBuffer;
     yStride \<leftarrow> stride_of yShapeBuffer;
     resultStride \<leftarrow> stride_of resultShapeBuffer;
     d \<leftarrow> rd (shapeOf xShapeBuffer) 0;
     threads \<leftarrow> thread_count rt d (rt_tad_threshold rt);
     parallel_for rt d (pairwise_row op rank (shapeOf xShapeBuffer) (dx, xStride) (y, yStride) (result, resultStride)) mem }"

definition pairwise_general ::
  "runtime \<Rightarrow> ('a \<Rightarrow> 'a \<Rightarrow> 'a) \<Rightarrow> int \<Rightarrow> int list \<Rightarrow> int \<Rightarrow> int list \<Rightarrow> int \<Rightarrow> int list \<Rightarrow> 'a list \<Rightarrow> 'a list option" where
  "pairwise_general rt op dx xShapeBuffer y yShapeBuffer result resultShapeBuffer mem = do {
     len \<leftarrow> length_of xShapeBuffer;
     xRank \<leftarrow> rank_of xShapeBuffer; yRank \<leftarrow> rank_of yShapeBuffer; resultRank \<leftarrow> rank_of resultShapeBuffer;
     xStride \<leftarrow> stride_of xShapeBuffer; yStride \<leftarrow> stride_of yShapeBuffer; resultStride \<leftarrow> stride_of resultShapeBuffer;
     let xShape = shapeOf xShapeBuffer; let yShape = shapeOf yShapeBuffer; let resultShape = shapeOf resultShapeBuffer;
     threads \<leftarrow> thread_count rt len (rt_element_threshold rt);
     parallel_for rt len (\<lambda>i mem. do {
       xCoord \<leftarrow> coords_c xRank xShape i;
       yCoord \<leftarrow> coords_c yRank yShape i;
       xOffset \<leftarrow> getOffset 0 xShape xStride xCoord xRank;
       yOffset \<leftarrow> getOffset 0 yShape yStride yCoord yRank;
       if dx = result then apply2 op (result + xOffset) (dx + xOffset) (y + yOffset) mem
       else do {
         resultCoord \<leftarrow> coords_c resultRank resultShape i;
         resultOffset \<leftarrow> getOffset 0 resultShape resultStride resultCoord resultRank;
         apply2 op (result + resultOffset) (dx + xOffset) (y + yOffset) mem } }) mem }"

definition pairwise_exec ::
  "runtime \<Rightarrow> ('a \<Rightarrow> 'a \<Rightarrow> 'a) \<Rightarrow> int \<Rightarrow> int list \<Rightarrow> int \<Rightarrow> int list \<Rightarrow> int \<Rightarrow> int list \<Rightarrow> 'a list \<Rightarrow> 'a list option" where
  "pairwise_exec rt op dx xShapeBuffer y yShapeBuffer result resultShapeBuffer mem = do {
     n \<leftarrow> length_of xShapeBuffer;
     xEws \<leftarrow> elementWiseStride_of xShapeBuffer;
     yEws \<leftarrow> elementWiseStride_of yShapeBuffer;
     resultEws \<leftarrow> elementWiseStride_of resultShapeBuffer;
     xRank \<leftarrow> rank_of xShapeBuffer; yRank \<leftarrow> rank_of yShapeBuffer;
     sameShape \<leftarrow> shapeEquals xRank (shapeOf xShapeBuffer) yRank (shapeOf yShapeBuffer);
     linear \<leftarrow> (if xEws \<ge> 1 \<and> yEws \<ge> 1 \<and> resultEws \<ge> 1 then do {
         ox \<leftarrow> order_of xShapeBuffer; oy \<leftarrow> order_of yShapeBuffer; oz \<leftarrow> order_of resultShapeBuffer;
         Some (ox = oy \<and> oz = ox \<and> xEws = yEws) }
       else Some False);
     if linear \<and> sameShape then pairwise_strided rt op dx xEws y yEws result resultEws n mem
     else if linear then do {
       ny \<leftarrow> length_of yShapeBuffer; pairwise_strided rt op dx xEws y yEws result resultEws ny mem }
     else if sameShape then pairwise_rows rt op dx xShapeBuffer y yShapeBuffer result resultShapeBuffer mem
     else pairwise_general rt op dx xShapeBuffer y yShapeBuffer result resultShapeBuffer mem }"

subsection \<open>One array and a scalar: \<open>scalar.h\<close>\<close>

definition scalar_indexed ::
  "runtime \<Rightarrow> ('a \<Rightarrow> 'a \<Rightarrow> 'a) \<Rightarrow> int \<Rightarrow> int list \<Rightarrow> int \<Rightarrow> 'a \<Rightarrow> int list \<Rightarrow> int list \<Rightarrow> 'a list \<Rightarrow> 'a list option" where
  "scalar_indexed rt op x xShapeInfo result scalar indexes resultIndexes mem = do {
     n \<leftarrow> length_of xShapeInfo;
     parallel_for rt n (\<lambda>i mem. do {
       k \<leftarrow> rd resultIndexes i; a \<leftarrow> rd indexes i;
       apply1 (\<lambda>v. op v scalar) (result + k) (x + a) mem }) mem }"

definition scalar_strided ::
  "runtime \<Rightarrow> ('a \<Rightarrow> 'a \<Rightarrow> 'a) \<Rightarrow> int \<Rightarrow> int \<Rightarrow> int \<Rightarrow> int \<Rightarrow> 'a \<Rightarrow> int \<Rightarrow> 'a list \<Rightarrow> 'a list option" where
  "scalar_strided rt op x xStride result resultStride scalar n =
     (if xStride = 1 \<and> resultStride = 1
      then spanned_for rt i64 id n (\<lambda>i. apply1 (\<lambda>v. op v scalar) (result + i) (x + i))
      else spanned_for rt i64 id n (\<lambda>i mem. do {
        k \<leftarrow> i64 (i * resultStride); a \<leftarrow> i64 (i * xStride);
        apply1 (\<lambda>v. op v scalar) (result + k) (x + a) mem }))"

text \<open>The raw iteration over two arrays, which \<open>transform.h\<close> has too.\<close>

definition raw_apply1 ::
  "('a \<Rightarrow> 'a) \<Rightarrow> int \<Rightarrow> int list \<Rightarrow> int \<Rightarrow> int list \<Rightarrow> 'a list \<Rightarrow> 'a list option" where
  "raw_apply1 f x xShapeInfo result resultShapeInfo mem = do {
     xStride \<leftarrow> stride_of xShapeInfo;
     resultStride \<leftarrow> stride_of resultShapeInfo;
     rank \<leftarrow> rank_of xShapeInfo;
     rank \<leftarrow> iter_rank rank;
     (rank, shapeIter, arrays) \<leftarrow> PrepareTwoRawArrayIter rank (shapeOf xShapeInfo) (x, xStride) (result, resultStride);
     raw_for rank shapeIter arrays (\<lambda>ptrs. apply1 f (ptrs ! 1) (ptrs ! 0)) mem }"

definition scalar_general ::
  "runtime \<Rightarrow> ('a \<Rightarrow> 'a \<Rightarrow> 'a) \<Rightarrow> int \<Rightarrow> int list \<Rightarrow> int \<Rightarrow> int list \<Rightarrow> 'a \<Rightarrow> 'a list \<Rightarrow> 'a list option" where
  "scalar_general rt op x xShapeInfo result resultShapeInfo scalar mem = do {
     n \<leftarrow> length_of xShapeInfo;
     xStride \<leftarrow> stride_of xShapeInfo; resultStride \<leftarrow> stride_of resultShapeInfo;
     xRank \<leftarrow> rank_of xShapeInfo; resultRank \<leftarrow> rank_of resultShapeInfo;
     xOffset \<leftarrow> offset_of xShapeInfo; resultOffset \<leftarrow> offset_of resultShapeInfo;
     let xShape = shapeOf xShapeInfo; let resultShape = shapeOf resultShapeInfo;
     parallel_for rt n (\<lambda>i mem. do {
       xIdx \<leftarrow> ind2sub xRank xShape i;
       resultIdx \<leftarrow> ind2sub resultRank resultShape i;
       xOffset2 \<leftarrow> getOffset xOffset xShape xStride xIdx xRank;
       resultOffset2 \<leftarrow> getOffset resultOffset resultShape resultStride resultIdx resultRank;
       apply1 (\<lambda>v. op v scalar) (result + resultOffset2) (x + xOffset2) mem }) mem }"

definition scalar_transform ::
  "runtime \<Rightarrow> ('a \<Rightarrow> 'a \<Rightarrow> 'a) \<Rightarrow> int \<Rightarrow> int list \<Rightarrow> int \<Rightarrow> int list \<Rightarrow> 'a \<Rightarrow> 'a list \<Rightarrow> 'a list option" where
  "scalar_transform rt op x xShapeInfo result resultShapeInfo scalar mem = do {
     xOrdering \<leftarrow> order_of xShapeInfo;
     resultOrdering \<leftarrow> order_of resultShapeInfo;
     xEws \<leftarrow> elementWiseStride_of xShapeInfo;
     resultEws \<leftarrow> elementWiseStride_of resultShapeInfo;
     if xOrdering \<noteq> resultOrdering \<or> xEws < 1 \<or> resultEws < 0
     then raw_apply1 (\<lambda>v. op v scalar) x xShapeInfo result resultShapeInfo mem
     else do {
       n \<leftarrow> length_of xShapeInfo;
       if xEws \<ge> 1 \<and> resultEws \<ge> 1 then scalar_strided rt op x xEws result resultEws scalar n mem
       else scalar_general rt op x xShapeInfo result resultShapeInfo scalar mem } }"

text \<open>
  The variant that applies a scalar of its own to every tensor along the dimensions.  When no layout
  of the result is given, that of \<open>x\<close> is used.  The element-wise stride of the result is read from
  the layout of \<open>x\<close> in both cases.
\<close>

definition scalar_along_dimension ::
  "runtime \<Rightarrow> ('a \<Rightarrow> 'a \<Rightarrow> 'a) \<Rightarrow> int \<Rightarrow> int list \<Rightarrow> int \<Rightarrow> 'a list \<Rightarrow> int list \<Rightarrow> int
    \<Rightarrow> int list \<Rightarrow> int list \<Rightarrow> (int list \<times> int list) option \<Rightarrow> 'a list \<Rightarrow> 'a list option" where
  "scalar_along_dimension rt op x xShapeInfo z scalars dimension dimensionLength tadShapeInfo tadOffsets tadZ mem = do {
     let (tadShapeInfoZ, tadOffsetsZ) = (case tadZ of None \<Rightarrow> (tadShapeInfo, tadOffsets) | Some l \<Rightarrow> l);
     tadEWS \<leftarrow> elementWiseStride_of tadShapeInfo;
     zEWS \<leftarrow> elementWiseStride_of tadShapeInfo;
     tadLen \<leftarrow> tadLength xShapeInfo dimension dimensionLength;
     len \<leftarrow> length_of xShapeInfo;
     numTads \<leftarrow> cdiv len tadLen;
     let numTads = to_int32 numTads;
     threads \<leftarrow> thread_count rt numTads (rt_tad_threshold rt);
     parallel_for rt numTads (\<lambda>r mem. do {
       offset \<leftarrow> rd tadOffsets r;
       offsetZ \<leftarrow> rd tadOffsetsZ r;
       scalar \<leftarrow> rd scalars r;
       if tadEWS \<ge> 1 \<and> zEWS \<ge> 1 then
         for_each (\<lambda>f mem. do {
           k \<leftarrow> i32 (f * zEWS); a \<leftarrow> i32 (f * tadEWS);
           apply1 (\<lambda>v. op v scalar) (z + offsetZ + k) (x + offset + a) mem }) [0..tadLen - 1] mem
       else Some mem }) mem }"

subsection \<open>One array: \<open>transform.h\<close>\<close>

definition transform_indexed ::
  "runtime \<Rightarrow> ('a \<Rightarrow> 'a) \<Rightarrow> int \<Rightarrow> int list \<Rightarrow> int \<Rightarrow> int list \<Rightarrow> int list \<Rightarrow> 'a list \<Rightarrow> 'a list option" where
  "transform_indexed rt op dx xShapeInfo result indexes resultIndexes mem = do {
     n \<leftarrow> length_of xShapeInfo;
     parallel_for rt (to_int32 n) (\<lambda>i mem. do {
       k \<leftarrow> rd resultIndexes i; a \<leftarrow> rd indexes i; apply1 op (result + k) (dx + a) mem }) mem }"

definition transform_strided ::
  "runtime \<Rightarrow> ('a \<Rightarrow> 'a) \<Rightarrow> int \<Rightarrow> int \<Rightarrow> int \<Rightarrow> int \<Rightarrow> int \<Rightarrow> 'a list \<Rightarrow> 'a list option" where
  "transform_strided rt op dx xStride result resultStride n =
     (if xStride = 1 \<and> resultStride = 1
      then spanned_for rt i32 id n (\<lambda>i. apply1 op (result + i) (dx + i))
      else spanned_for rt i32 id n (\<lambda>i mem. do {
        k \<leftarrow> i64 (i * resultStride); a \<leftarrow> i64 (i * xStride); apply1 op (result + k) (dx + a) mem }))"

text \<open>\<open>special\<close> is \<open>OpType::execSpecial\<close> for an operation that requires it.\<close>

definition transform_exec ::
  "runtime \<Rightarrow> ('a list \<Rightarrow> 'a list option) option \<Rightarrow> ('a \<Rightarrow> 'a) \<Rightarrow> int \<Rightarrow> int list \<Rightarrow> int \<Rightarrow> int list \<Rightarrow> 'a list \<Rightarrow> 'a list option" where
  "transform_exec rt special op dx xShapeInfo result resultShapeInfo mem =
     (case special of Some execSpecial \<Rightarrow> execSpecial mem | None \<Rightarrow> do {
        n \<leftarrow> length_of xShapeInfo;
        let n = to_int32 n;
        xEws \<leftarrow> elementWiseStride_of xShapeInfo;
        resultEws \<leftarrow> elementWiseStride_of resultShapeInfo;
        linear \<leftarrow> (if xEws \<ge> 1 \<and> resultEws \<ge> 1 then do {
            ox \<leftarrow> order_of xShapeInfo; oz \<leftarrow> order_of resultShapeInfo; Some (ox = oz) }
          else Some False);
        if linear then transform_strided rt op dx xEws result resultEws n mem
        else raw_apply1 op dx xShapeInfo result resultShapeInfo mem })"


subsection \<open>Layouts\<close>

text \<open>
  The layout of an array of shape \<open>sh\<close> with strides \<open>st\<close>.  An element-wise stride that is not
  negative or 0 is the distance of consecutive elements in the order of the buffer.
\<close>

definition dec_of :: "int \<Rightarrow> int list \<Rightarrow> int \<Rightarrow> int list" where
  "dec_of ord = (if ord = 102 then dec_f else dec_c)"

definition layout :: "int list \<Rightarrow> int list \<Rightarrow> int list \<Rightarrow> bool" where
  "layout info sh st \<longleftrightarrow> (\<exists>off ews ord. info = mk_info sh st off ews ord \<and> pos_dims sh \<and> prod_list sh < 2 ^ 31
     \<and> 1 \<le> length sh \<and> length sh \<le> 32 \<and> length st = length sh \<and> (\<forall>t \<in> set st. 0 \<le> t)
     \<and> (\<forall>i < length sh. st ! i < 2 ^ 31 \<and> (sh ! i - 1) * st ! i < 2 ^ 31) \<and> (ord = 99 \<or> ord = 102) \<and> ews < 2 ^ 31
     \<and> (1 \<le> ews \<longrightarrow> (\<forall>k. 0 \<le> k \<and> k < prod_list sh \<longrightarrow> inner st (dec_of ord sh k) = k * ews)))"

lemma layoutE:
  assumes "layout info sh st"
  obtains off ews ord where "info = mk_info sh st off ews ord" "pos_dims sh" "prod_list sh < 2 ^ 31" "length st = length sh"
    "1 \<le> length sh" "length sh \<le> 32" "ord = 99 \<or> ord = 102" "ews < 2 ^ 31"
    "\<And>k. 1 \<le> ews \<Longrightarrow> 0 \<le> k \<Longrightarrow> k < prod_list sh \<Longrightarrow> inner st (dec_of ord sh k) = k * ews"
    "rank_of info = Some (int (length sh))" "stride_of info = Some (st @ [off, ews, ord])" "shapeOf info = sh @ st @ [off, ews, ord]"
    "elementWiseStride_of info = Some ews" "order_of info = Some ord" "length_of info = Some (prod_list sh)" "offset_of info = Some off"
proof -
  from assms obtain off ews ord where i: "info = mk_info sh st off ews ord" "pos_dims sh" "prod_list sh < 2 ^ 31" "length st = length sh"
    "1 \<le> length sh" "length sh \<le> 32" "ord = 99 \<or> ord = 102" "ews < 2 ^ 31"
    "\<And>k. 1 \<le> ews \<Longrightarrow> 0 \<le> k \<Longrightarrow> k < prod_list sh \<Longrightarrow> inner st (dec_of ord sh k) = k * ews"
    unfolding layout_def by blast
  have "order_of info = Some ord" using i(1,4,7) by (auto simp: order_mk_info)
  moreover have "length_of info = Some (prod_list sh)" unfolding i(1) by (rule length_of_mk_info) (use i in simp_all)
  ultimately show ?thesis using that [of off ews ord] i by (simp add: buf_simps)
qed

lemma layout_fits:
  assumes "layout info sh st"
  shows "length st = length sh" "pos_dims sh" "\<forall>d \<in> set sh. d < 2 ^ 31"
    "\<forall>i < length sh. \<bar>st ! i\<bar> < 2 ^ 31 \<and> \<bar>(sh ! i - 1) * st ! i\<bar> < 2 ^ 31" "\<forall>t \<in> set st. 0 \<le> t"
proof -
  have l: "pos_dims sh" "prod_list sh < 2 ^ 31" "length st = length sh" "\<forall>t \<in> set st. 0 \<le> t"
    "\<forall>i < length sh. st ! i < 2 ^ 31 \<and> (sh ! i - 1) * st ! i < 2 ^ 31"
    using assms unfolding layout_def by blast+
  show "length st = length sh" "pos_dims sh" "\<forall>t \<in> set st. 0 \<le> t" by (rule l)+
  show "\<forall>d \<in> set sh. d < 2 ^ 31"
  proof
    fix d assume "d \<in> set sh"
    then obtain i where i: "i < length sh" "d = sh ! i" by (auto simp: in_set_conv_nth)
    have "prod_list (take 1 (drop i sh)) \<le> prod_list (drop i sh)"
      by (rule prod_list_take_le) (use l(1) in \<open>auto simp: pos_dims_def dest: in_set_dropD\<close>)
    also have "\<dots> \<le> prod_list sh" by (rule prod_list_drop_le) (use l(1) in \<open>auto simp: pos_dims_def\<close>)
    also have "prod_list (take 1 (drop i sh)) = d" using i by (simp add: take_Suc hd_drop_conv_nth)
    finally show "d < 2 ^ 31" using l(2) by simp
  qed
  show "\<forall>i < length sh. \<bar>st ! i\<bar> < 2 ^ 31 \<and> \<bar>(sh ! i - 1) * st ! i\<bar> < 2 ^ 31"
  proof (intro allI impI)
    fix i assume i: "i < length sh"
    then have "0 \<le> st ! i" "0 < sh ! i" using l(1,3,4) by (auto simp: pos_dims_def)
    then have "0 \<le> (sh ! i - 1) * st ! i" by (intro mult_nonneg_nonneg) auto
    then show "\<bar>st ! i\<bar> < 2 ^ 31 \<and> \<bar>(sh ! i - 1) * st ! i\<bar> < 2 ^ 31" using l(5) i \<open>0 \<le> st ! i\<close> by simp
  qed
qed

lemma layouts_fit:
  "layout xi sh sx \<Longrightarrow> layout zi sh sz \<Longrightarrow> moves_fit sh [(x, sx), (z, sz)]"
  "layout xi sh sx \<Longrightarrow> layout yi sh sy \<Longrightarrow> layout zi sh sz \<Longrightarrow> moves_fit sh [(x, sx), (y, sy), (z, sz)]"
  using layout_fits [of xi sh sx] layout_fits [of yi sh sy] layout_fits [of zi sh sz] by (simp_all add: moves_fit_def)

lemma layout_offset:
  assumes "layout info sh st" "0 \<le> k" "k < prod_list sh" "idx = dec_c sh k \<or> idx = dec_f sh k"
  shows "getOffset 0 (sh @ r) (st @ r') idx (int (length sh)) = Some (inner st idx)"
proof -
  note f = layout_fits [OF assms(1)]
  have box: "in_box sh idx" using assms(4) enc_dec_c [OF f(2) assms(2,3)] enc_dec_f [OF f(2) assms(2,3)] by auto
  have d: "dot sh st idx = inner st idx" by (rule dot_inner [OF box f(1)])
  have "\<bar>inner st idx\<bar> \<le> int (length sh) * 2 ^ 31" by (rule inner_bound [OF box f(1)]) (use f(4) in simp)
  also have "\<dots> \<le> 32 * 2 ^ 31" using assms(1) by (auto simp: layout_def)
  finally have "0 + dot sh st idx < 2 ^ 63" unfolding d by simp
  from getOffset_exact [OF box f(1,5) _ this] show ?thesis by (simp add: d)
qed

lemma bij_dec_of: "pos_dims sh \<Longrightarrow> bij_betw (dec_of ord sh) {0..<prod_list sh} (box sh)"
  using bij_dec by (simp add: dec_of_def)

lemma product_fits:
  assumes "0 \<le> i" "i < 2 ^ 31" "1 \<le> e" "e < 2 ^ 31" shows "i64 (i * e) = Some (i * e)"
proof -
  have "i * e \<le> 2 ^ 31 * 2 ^ 31" by (rule mult_mono) (use assms in auto)
  moreover have "0 \<le> i * e" using assms by simp
  ultimately show ?thesis by (simp add: i64_def)
qed


subsection \<open>Correctness of the paths\<close>

abbreviation cell :: "int \<Rightarrow> int list \<Rightarrow> int list \<Rightarrow> int" where
  "cell p st \<equiv> \<lambda>idx. p + inner st idx"

definition room :: "runtime \<Rightarrow> int list \<Rightarrow> bool" where
  "room rt sh \<longleftrightarrow> prod_list sh + 8 * rt_max_threads rt < 2 ^ 31"

lemma spanned_layout:
  assumes "runtime_ok rt" "room rt sh" "pos_dims sh"
    and "chk = i64 \<and> (narrow = to_int32 \<or> narrow = id) \<or> chk = i32 \<and> narrow = id"
    and "separate (box sh) z x y mem"
    and "\<And>i. 0 \<le> i \<Longrightarrow> i < prod_list sh \<Longrightarrow> body i = apply2 op (z (dec_of ord sh i)) (x (dec_of ord sh i)) (y (dec_of ord sh i))"
  shows "\<exists>mem'. spanned_for rt chk narrow (prod_list sh) body mem = Some mem' \<and> pointwise op (box sh) z x y mem mem'"
proof (rule spanned_pointwise [OF assms(1) _ _ bij_dec_of [OF assms(3)] assms(5)])
  show "0 \<le> prod_list sh" using assms(3) by (simp add: pos_dims_def prod_list_pos less_imp_le)
next
  fix v assume "0 \<le> v" "v \<le> prod_list sh + 8 * rt_max_threads rt"
  then have "0 \<le> v" "v < 2 ^ 31" using assms(2) by (simp_all add: room_def)
  then have "i64 v = Some v" "i32 v = Some v" "to_int32 v = v" by (simp_all add: i64_def i32_def)
  then show "chk v = Some v \<and> narrow v = v" using assms(4) by auto
qed (rule assms(6))

lemma pairwise_strided_exact:
  assumes "runtime_ok rt" "room rt sh" "pos_dims sh" "prod_list sh < 2 ^ 31"
    and "1 \<le> ex" "ex < 2 ^ 31" "1 \<le> ey" "ey < 2 ^ 31" "1 \<le> ez" "ez < 2 ^ 31"
    and lin: "\<And>k. 0 \<le> k \<Longrightarrow> k < prod_list sh \<Longrightarrow> inner sx (dec_of ord sh k) = k * ex \<and> inner sy (dec_of ord sh k) = k * ey
      \<and> inner sz (dec_of ord sh k) = k * ez"
    and "separate (box sh) (cell z sz) (cell x sx) (cell y sy) mem"
  shows "\<exists>mem'. pairwise_strided rt op x ex y ey z ez (prod_list sh) mem = Some mem'
    \<and> pointwise op (box sh) (cell z sz) (cell x sx) (cell y sy) mem mem'"
proof (cases "ex = 1 \<and> ey = 1 \<and> ez = 1")
  case True
  then show ?thesis
    using spanned_layout [OF assms(1-3) _ assms(12), of i64 to_int32 "\<lambda>i. apply2 op (z + i) (x + i) (y + i)" op ord] lin
    by (simp add: pairwise_strided_def)
next
  case False
  have body: "(\<lambda>mem. do { k \<leftarrow> i64 (i * ez); a \<leftarrow> i64 (i * ex); b \<leftarrow> i64 (i * ey); apply2 op (z + k) (x + a) (y + b) mem })
      = apply2 op (z + inner sz (dec_of ord sh i)) (x + inner sx (dec_of ord sh i)) (y + inner sy (dec_of ord sh i))"
    if i: "0 \<le> i" "i < prod_list sh" for i
    using product_fits [of i] i assms(4-10) lin [OF i] by simp
  show ?thesis unfolding pairwise_strided_def if_not_P [OF False]
    by (rule spanned_layout [OF assms(1-3) _ assms(12)]) (use body in auto)
qed

lemma scalar_strided_exact:
  assumes "runtime_ok rt" "room rt sh" "pos_dims sh" "prod_list sh < 2 ^ 31" "1 \<le> ex" "ex < 2 ^ 31" "1 \<le> ez" "ez < 2 ^ 31"
    and lin: "\<And>k. 0 \<le> k \<Longrightarrow> k < prod_list sh \<Longrightarrow> inner sx (dec_of ord sh k) = k * ex \<and> inner sz (dec_of ord sh k) = k * ez"
    and "separate (box sh) (cell z sz) (cell x sx) (cell x sx) mem"
  shows "\<exists>mem'. scalar_strided rt op x ex z ez s (prod_list sh) mem = Some mem'
      \<and> pointwise (\<lambda>a b. op a s) (box sh) (cell z sz) (cell x sx) (cell x sx) mem mem'"
    and "\<exists>mem'. transform_strided rt f x ex z ez (prod_list sh) mem = Some mem'
      \<and> pointwise (\<lambda>a b. f a) (box sh) (cell z sz) (cell x sx) (cell x sx) mem mem'"
proof -
  have body: "(\<lambda>mem. do { k \<leftarrow> i64 (i * ez); a \<leftarrow> i64 (i * ex); apply1 f (z + k) (x + a) mem })
      = apply2 (\<lambda>a b. f a) (z + inner sz (dec_of ord sh i)) (x + inner sx (dec_of ord sh i)) (x + inner sx (dec_of ord sh i))"
    "ex = 1 \<and> ez = 1 \<Longrightarrow> apply1 f (z + i) (x + i)
      = apply2 (\<lambda>a b. f a) (z + inner sz (dec_of ord sh i)) (x + inner sx (dec_of ord sh i)) (x + inner sx (dec_of ord sh i))"
    if i: "0 \<le> i" "i < prod_list sh" for f :: "'a \<Rightarrow> 'a" and i
    using product_fits [of i] i assms(4-8) lin [OF i] by (simp_all add: apply1_apply2 fun_eq_iff)
  show "\<exists>mem'. scalar_strided rt op x ex z ez s (prod_list sh) mem = Some mem'
      \<and> pointwise (\<lambda>a b. op a s) (box sh) (cell z sz) (cell x sx) (cell x sx) mem mem'"
  proof (cases "ex = 1 \<and> ez = 1")
    case True
    show ?thesis unfolding scalar_strided_def if_P [OF True]
      by (rule spanned_layout [OF assms(1-3) _ assms(10)]) (use body(2) True in auto)
  next
    case False
    show ?thesis unfolding scalar_strided_def if_not_P [OF False]
      by (rule spanned_layout [OF assms(1-3) _ assms(10)]) (use body(1) in auto)
  qed
  show "\<exists>mem'. transform_strided rt f x ex z ez (prod_list sh) mem = Some mem'
      \<and> pointwise (\<lambda>a b. f a) (box sh) (cell z sz) (cell x sx) (cell x sx) mem mem'"
  proof (cases "ex = 1 \<and> ez = 1")
    case True
    show ?thesis unfolding transform_strided_def if_P [OF True]
      by (rule spanned_layout [OF assms(1-3) _ assms(10)]) (use body(2) True in auto)
  next
    case False
    show ?thesis unfolding transform_strided_def if_not_P [OF False]
      by (rule spanned_layout [OF assms(1-3) _ assms(10)]) (use body(1) in auto)
  qed
qed


lemma raw_apply1_exact:
  assumes "layout xi sh sx" "layout zi sh sz" "separate (box sh) (cell z sz) (cell x sx) (cell x sx) mem"
  shows "\<exists>mem'. raw_apply1 f x xi z zi mem = Some mem' \<and> pointwise (\<lambda>a b. f a) (box sh) (cell z sz) (cell x sx) (cell x sx) mem mem'"
proof -
  obtain r0 r1 r2 where r: "rank_of xi = Some (int (length sh))" "stride_of xi = Some (sx @ r1)" "shapeOf xi = sh @ r0"
    "stride_of zi = Some (sz @ r2)" "length sh \<le> 32"
    using assms(1,2) by (elim layoutE) metis
  let ?A = "[(x, sx), (z, sz)]"
  from prepare_two_raw [OF layouts_fit(1) [OF assms(1,2)]] obtain n sh' arrays L where
    p: "PrepareTwoRawArrayIter (length sh) (sh @ r0) (x, sx @ r1) (z, sz @ r2) = Some (n, sh', arrays)"
      "raw_iter n sh' arrays = Some (map (pointers ?A) L)" "distinct L" "set L = box sh"
    unfolding raw_prepared_def by blast
  have "raw_apply1 f x xi z zi mem = for_each (\<lambda>idx. apply1 f (pointers ?A idx ! 1) (pointers ?A idx ! 0)) L mem"
    using r p(1,2) by (simp add: raw_apply1_def iter_rank_def MAX_RANK_def raw_for_def for_each_map)
  moreover have "\<exists>mem'. for_each (\<lambda>idx. apply1 f (pointers ?A idx ! 1) (pointers ?A idx ! 0)) L mem = Some mem'
      \<and> pointwise (\<lambda>a b. f a) (box sh) (cell z sz) (cell x sx) (cell x sx) mem mem'"
    by (rule pointwise_loop [OF p(3) inj_on_id2 _ assms(3)]) (simp_all add: p(4) pointers_def apply1_apply2 fun_eq_iff)
  ultimately show ?thesis by simp
qed

lemma distinct_rows: "distinct is \<Longrightarrow> (\<And>i. i \<in> set is \<Longrightarrow> distinct (L i)) \<Longrightarrow> distinct (concat (map (\<lambda>i. map ((#) i) (L i)) is))"
  by (induction "is") (auto simp: distinct_map)

lemma pairwise_row_exact:
  assumes fit: "moves_fit (d # ds) [(x, tx # sx), (y, ty # sy), (z, tz # sz)]" and i: "0 \<le> i" "i < d" and r: "length ds < 32"
  shows "\<exists>L. distinct L \<and> set L = box ds \<and> (\<forall>mem. pairwise_row op (int (length (d # ds))) ((d # ds) @ r0)
      (x, (tx # sx) @ r1) (y, (ty # sy) @ r2) (z, (tz # sz) @ r3) i mem
    = for_each (\<lambda>idx. apply2 op (cell z (tz # sz) (i # idx)) (cell x (tx # sx) (i # idx)) (cell y (ty # sy) (i # idx))) L mem)"
proof -
  let ?A = "[(x + tx * i, sx), (y + ty * i, sy), (z + tz * i, sz)]"
  have d: "d < 2 ^ 31" "pos_dims ds" using fit by (simp_all add: moves_fit_def pos_dims_def)
  have fit': "moves_fit ds ?A"
    using fit by (simp add: moves_fit_def pos_dims_def All_less_Suc2)
  have c: "i64 (t * i) = Some (t * i)" if "\<bar>t\<bar> < 2 ^ 31" for t
  proof -
    have "\<bar>t * i\<bar> \<le> 2 ^ 31 * 2 ^ 31" unfolding abs_mult by (rule mult_mono) (use that i d in auto)
    then show ?thesis by (simp add: i64_def abs_le_iff)
  qed
  have t: "\<bar>tx\<bar> < 2 ^ 31" "\<bar>ty\<bar> < 2 ^ 31" "\<bar>tz\<bar> < 2 ^ 31"
    using fit by (simp_all add: moves_fit_def All_less_Suc2)
  from prepare_three_raw [OF fit', of r0 r1 r2 r3] obtain n sh' arrays L where
    p: "PrepareThreeRawArrayIter (length ds) (ds @ r0) (x + tx * i, sx @ r1) (y + ty * i, sy @ r2) (z + tz * i, sz @ r3) = Some (n, sh', arrays)"
      "raw_iter n sh' arrays = Some (map (pointers ?A) L)" "distinct L" "set L = box ds"
    unfolding raw_prepared_def by blast
  have v: "pointers ?A idx = [cell x (tx # sx) (i # idx), cell y (ty # sy) (i # idx), cell z (tz # sz) (i # idx)]" for idx
    by (simp add: pointers_def algebra_simps)
  have "pairwise_row op (int (length (d # ds))) ((d # ds) @ r0) (x, (tx # sx) @ r1) (y, (ty # sy) @ r2) (z, (tz # sz) @ r3) i mem
    = for_each (\<lambda>idx. apply2 op (cell z (tz # sz) (i # idx)) (cell x (tx # sx) (i # idx)) (cell y (ty # sy) (i # idx))) L mem" for mem
    using p(1,2) r t by (simp add: pairwise_row_def c iter_rank_def MAX_RANK_def raw_for_def for_each_map v)
  then show ?thesis using p(3,4) by blast
qed

lemma box_Cons: "box (d # ds) = (\<Union>i \<in> {0..<d}. (#) i ` box ds)"
proof (rule set_eqI)
  show "idx \<in> box (d # ds) \<longleftrightarrow> idx \<in> (\<Union>i \<in> {0..<d}. (#) i ` box ds)" for idx
    by (cases idx) (auto simp: box_def)
qed

lemma pairwise_rows_exact:
  assumes "runtime_ok rt" "layout xi sh sx" "layout yi sh sy" "layout zi sh sz" "separate (box sh) (cell z sz) (cell x sx) (cell y sy) mem"
  shows "\<exists>mem'. pairwise_rows rt op x xi y yi z zi mem = Some mem' \<and> pointwise op (box sh) (cell z sz) (cell x sx) (cell y sy) mem mem'"
proof -
  obtain r0 r1 r2 r3 where r: "rank_of xi = Some (int (length sh))" "stride_of xi = Some (sx @ r1)" "shapeOf xi = sh @ r0"
    "stride_of yi = Some (sy @ r2)" "stride_of zi = Some (sz @ r3)" "length sh \<le> 32" "1 \<le> length sh"
    using assms(2-4) by (elim layoutE) metis
  have fit: "moves_fit sh [(x, sx), (y, sy), (z, sz)]" by (rule layouts_fit(2) [OF assms(2-4)])
  have len: "length sx = length sh" "length sy = length sh" "length sz = length sh" using fit by (simp_all add: moves_fit_def)
  obtain d ds where sh: "sh = d # ds" using r(7) by (cases sh) auto
  obtain tx tsx ty tsy tz tsz where s: "sx = tx # tsx" "sy = ty # tsy" "sz = tz # tsz"
    using len sh by (metis length_Suc_conv)
  let ?body = "\<lambda>idx. apply2 op (cell z sz idx) (cell x sx idx) (cell y sy idx)"
  let ?row = "pairwise_row op (int (length sh)) (sh @ r0) (x, sx @ r1) (y, sy @ r2) (z, sz @ r3)"
  have "\<forall>i \<in> {0..<d}. \<exists>L. distinct L \<and> set L = box ds \<and> (\<forall>mem. ?row i mem = for_each (\<lambda>idx. ?body (i # idx)) L mem)"
    using pairwise_row_exact [OF fit [unfolded sh s], of _ op r0 r1 r2 r3] r(6) unfolding sh s by auto
  from bchoice [OF this] obtain L where
    L: "\<forall>i \<in> {0..<d}. distinct (L i) \<and> set (L i) = box ds \<and> (\<forall>mem. ?row i mem = for_each (\<lambda>idx. ?body (i # idx)) (L i) mem)" ..
  let ?is = "rt_order rt [0..d - 1]"
  have o: "distinct ?is" "set ?is = {0..<d}" using ordered [OF assms(1), of "[0..d - 1]"] upto_set by auto
  let ?K = "concat (map (\<lambda>i. map ((#) i) (L i)) ?is)"
  have K: "distinct ?K" by (rule distinct_rows) (use o L in auto)
  have setK: "set ?K = box sh" unfolding sh box_Cons using o(2) L by auto
  obtain t where t: "thread_count rt d (rt_tad_threshold rt) = Some t"
    using thread_count_pos [OF assms(1)] assms(1) unfolding runtime_ok_def by metis
  have "pairwise_rows rt op x xi y yi z zi mem = for_each ?row ?is mem"
    using r t by (simp add: pairwise_rows_def parallel_for_def sh)
  also have "\<dots> = for_each (\<lambda>i. for_each (\<lambda>idx. ?body (i # idx)) (L i)) ?is mem"
    by (rule for_each_cong) (use L o(2) in auto)
  also have "\<dots> = for_each ?body ?K mem"
    by (simp add: for_each_concat for_each_map for_each_map_fun)
  finally show ?thesis
    using pointwise_loop [OF K inj_on_id2 _ assms(5), of ?body op] setK by simp
qed

lemma pairwise_exec_exact:
  assumes "runtime_ok rt" "room rt sh" "layout xi sh sx" "layout yi sh sy" "layout zi sh sz"
    and "separate (box sh) (cell z sz) (cell x sx) (cell y sy) mem"
  shows "\<exists>mem'. pairwise_exec rt op x xi y yi z zi mem = Some mem' \<and> pointwise op (box sh) (cell z sz) (cell x sx) (cell y sy) mem mem'"
proof -
  obtain offx ex ox where X: "pos_dims sh" "prod_list sh < 2 ^ 31" "ox = 99 \<or> ox = 102" "ex < 2 ^ 31"
    "\<And>k. 1 \<le> ex \<Longrightarrow> 0 \<le> k \<Longrightarrow> k < prod_list sh \<Longrightarrow> inner sx (dec_of ox sh k) = k * ex"
    "rank_of xi = Some (int (length sh))" "shapeOf xi = sh @ sx @ [offx, ex, ox]" "elementWiseStride_of xi = Some ex"
    "order_of xi = Some ox" "length_of xi = Some (prod_list sh)" using assms(3) by (rule layoutE) blast
  obtain offy ey oy where Y: "ey < 2 ^ 31"
    "\<And>k. 1 \<le> ey \<Longrightarrow> 0 \<le> k \<Longrightarrow> k < prod_list sh \<Longrightarrow> inner sy (dec_of oy sh k) = k * ey"
    "rank_of yi = Some (int (length sh))" "shapeOf yi = sh @ sy @ [offy, ey, oy]" "elementWiseStride_of yi = Some ey"
    "order_of yi = Some oy" using assms(4) by (rule layoutE) blast
  obtain ez oz where Z: "ez < 2 ^ 31"
    "\<And>k. 1 \<le> ez \<Longrightarrow> 0 \<le> k \<Longrightarrow> k < prod_list sh \<Longrightarrow> inner sz (dec_of oz sh k) = k * ez"
    "elementWiseStride_of zi = Some ez" "order_of zi = Some oz" using assms(5) by (rule layoutE) blast
  have same: "shapeEquals (int (length sh)) (shapeOf xi) (int (length sh)) (shapeOf yi) = Some True"
    unfolding X(7) Y(4) shapeEquals_def using cells_agree_exact [of 0 "length sh"] by simp
  show ?thesis
  proof (cases "ex \<ge> 1 \<and> ey \<ge> 1 \<and> ez \<ge> 1 \<and> ox = oy \<and> oz = ox \<and> ex = ey")
    case True
    then have "pairwise_exec rt op x xi y yi z zi mem = pairwise_strided rt op x ex y ey z ez (prod_list sh) mem"
      using X(6,8-10) Y(3,5,6) Z(3,4) same by (simp add: pairwise_exec_def)
    moreover have "\<exists>mem'. pairwise_strided rt op x ex y ey z ez (prod_list sh) mem = Some mem'
        \<and> pointwise op (box sh) (cell z sz) (cell x sx) (cell y sy) mem mem'"
      by (rule pairwise_strided_exact [OF assms(1,2) X(1,2) _ X(4) _ Y(1) _ Z(1) _ assms(6), of ox])
        (use X(5) Y(2) Z(2) True in auto)
    ultimately show ?thesis by simp
  next
    case False
    then have "pairwise_exec rt op x xi y yi z zi mem = pairwise_rows rt op x xi y yi z zi mem"
      using X(6,8-10) Y(3,5,6) Z(3,4) same by (auto simp: pairwise_exec_def)
    then show ?thesis using pairwise_rows_exact [OF assms(1,3-6)] by simp
  qed
qed

lemma unary_exec_exact:
  assumes "runtime_ok rt" "room rt sh" "layout xi sh sx" "layout zi sh sz"
    and "separate (box sh) (cell z sz) (cell x sx) (cell x sx) mem"
  shows "elementWiseStride_of zi \<noteq> Some 0 \<Longrightarrow> \<exists>mem'. scalar_transform rt op x xi z zi s mem = Some mem'
      \<and> pointwise (\<lambda>a b. op a s) (box sh) (cell z sz) (cell x sx) (cell x sx) mem mem'"
    and "\<exists>mem'. transform_exec rt None f x xi z zi mem = Some mem'
      \<and> pointwise (\<lambda>a b. f a) (box sh) (cell z sz) (cell x sx) (cell x sx) mem mem'"
proof -
  obtain ex ox where X: "pos_dims sh" "prod_list sh < 2 ^ 31" "ex < 2 ^ 31"
    "\<And>k. 1 \<le> ex \<Longrightarrow> 0 \<le> k \<Longrightarrow> k < prod_list sh \<Longrightarrow> inner sx (dec_of ox sh k) = k * ex"
    "elementWiseStride_of xi = Some ex" "order_of xi = Some ox" "length_of xi = Some (prod_list sh)"
    using assms(3) by (rule layoutE) blast
  obtain ez oz where Z: "ez < 2 ^ 31"
    "\<And>k. 1 \<le> ez \<Longrightarrow> 0 \<le> k \<Longrightarrow> k < prod_list sh \<Longrightarrow> inner sz (dec_of oz sh k) = k * ez"
    "elementWiseStride_of zi = Some ez" "order_of zi = Some oz" using assms(4) by (rule layoutE) blast
  have n: "to_int32 (prod_list sh) = prod_list sh"
    using X(1,2) by (intro to_int32_id) (auto simp: pos_dims_def dest: prod_list_pos)
  note raw = raw_apply1_exact [OF assms(3,4,5)]
  consider "ex \<ge> 1 \<and> ez \<ge> 1 \<and> ox = oz" | "\<not> (ex \<ge> 1 \<and> ez \<ge> 1 \<and> ox = oz)" by blast
  note ways = this
  {
    assume "ex \<ge> 1 \<and> ez \<ge> 1 \<and> ox = oz"
    note c = this
    then have lin: "inner sx (dec_of ox sh k) = k * ex \<and> inner sz (dec_of ox sh k) = k * ez" if "0 \<le> k" "k < prod_list sh" for k
      using X(4) Z(2) that by simp
    have "scalar_transform rt op x xi z zi s mem = scalar_strided rt op x ex z ez s (prod_list sh) mem"
      "transform_exec rt None f x xi z zi mem = transform_strided rt f x ex z ez (prod_list sh) mem"
      using c X(5-7) Z(3,4) by (simp_all add: scalar_transform_def transform_exec_def n)
    then have "(\<exists>mem'. scalar_transform rt op x xi z zi s mem = Some mem'
      \<and> pointwise (\<lambda>a b. op a s) (box sh) (cell z sz) (cell x sx) (cell x sx) mem mem')
      \<and> (\<exists>mem'. transform_exec rt None f x xi z zi mem = Some mem'
      \<and> pointwise (\<lambda>a b. f a) (box sh) (cell z sz) (cell x sx) (cell x sx) mem mem')"
      using scalar_strided_exact [OF assms(1,2) X(1,2) _ X(3) _ Z(1) lin assms(5)] c by simp
  }
  note linear = this
  show "\<exists>mem'. scalar_transform rt op x xi z zi s mem = Some mem'
      \<and> pointwise (\<lambda>a b. op a s) (box sh) (cell z sz) (cell x sx) (cell x sx) mem mem'" if "elementWiseStride_of zi \<noteq> Some 0"
    using ways
  proof cases
    case 2
    then have "scalar_transform rt op x xi z zi s mem = raw_apply1 (\<lambda>v. op v s) x xi z zi mem"
      using X(5-7) Z(3,4) that by (auto simp: scalar_transform_def)
    then show ?thesis using raw [of "\<lambda>v. op v s"] by simp
  qed (use linear in blast)
  show "\<exists>mem'. transform_exec rt None f x xi z zi mem = Some mem'
      \<and> pointwise (\<lambda>a b. f a) (box sh) (cell z sz) (cell x sx) (cell x sx) mem mem'"
    using ways
  proof cases
    case 2
    then have "transform_exec rt None f x xi z zi mem = raw_apply1 f x xi z zi mem"
      using X(5-7) Z(3,4) by (auto simp: transform_exec_def)
    then show ?thesis using raw [of f] by simp
  qed (use linear in blast)
qed

end
