(* ===== verification/TensorLoops.thy ===== *)
theory TensorLoops
  imports ElementwiseLoops
begin

text \<open>
  Loops over the tensors along dimensions: the layouts that a call computes when its caller gives
  none, and the broadcast of an array over the tensors of another (\<open>include/loops/broadcasting.h\<close>).
\<close>

subsection \<open>Tensors of a call\<close>

text \<open>
  \<open>tad = new TAD(xShapeInfo, dimension, dimensionLength); tad->createTadOnlyShapeInfo();
  tad->createOffsets();\<close>  The result is the layout of the tensors, their offsets and the member
  \<open>dimensionLength\<close>; \<open>junk\<close> is the content of fresh memory.
\<close>

definition own_tads ::
  "(nat \<Rightarrow> int) \<Rightarrow> int list \<Rightarrow> int list \<Rightarrow> int \<Rightarrow> (int list \<times> int list \<times> int) option" where
  "own_tads junk xShapeInfo dimension dimensionLength = do {
     tad \<leftarrow> TAD_init TAD_empty xShapeInfo dimension dimensionLength;
     tad \<leftarrow> TAD_createTadOnlyShapeInfo junk tad;
     tad \<leftarrow> TAD_createOffsets junk tad;
     info \<leftarrow> t_tadOnlyShapeInfo tad;
     offsets \<leftarrow> t_tadOffsets tad;
     Some (info, offsets, t_dimensionLength tad) }"

subsection \<open>Broadcasting\<close>

text \<open>The two branches of the loop over one tensor, for an axis and for several axes.\<close>

definition broadcast_axis ::
  "('a \<Rightarrow> 'a \<Rightarrow> 'a) \<Rightarrow> int \<Rightarrow> int \<Rightarrow> int \<Rightarrow> int \<Rightarrow> int \<Rightarrow> int \<Rightarrow> int \<Rightarrow> 'a list \<Rightarrow> 'a list option" where
  "broadcast_axis op oX tadEWS y yStride oRes zEWS f mem =
     (if tadEWS = 1 \<and> yStride = 1 \<and> zEWS = 1 then apply2 op (oRes + f) (oX + f) (y + f) mem
      else do {
        k \<leftarrow> i32 (f * zEWS); a \<leftarrow> i32 (f * tadEWS); b \<leftarrow> i32 (f * yStride);
        apply2 op (oRes + k) (oX + a) (y + b) mem })"

definition broadcast_axes ::
  "('a \<Rightarrow> 'a \<Rightarrow> 'a) \<Rightarrow> int \<Rightarrow> int list \<Rightarrow> int \<Rightarrow> int \<Rightarrow> int list \<Rightarrow> int \<Rightarrow> int list \<Rightarrow> int \<Rightarrow> int \<Rightarrow> 'a list \<Rightarrow> 'a list option" where
  "broadcast_axes op x tadInfo offset y yShapeInfo result tadInfoZ offsetZ f mem = do {
     zStride \<leftarrow> stride_of tadInfoZ; zRank \<leftarrow> rank_of tadInfoZ;
     xStride \<leftarrow> stride_of tadInfo; xRank \<leftarrow> rank_of tadInfo;
     yStride \<leftarrow> stride_of yShapeInfo; yRank \<leftarrow> rank_of yShapeInfo;
     xOrder \<leftarrow> order_of tadInfo;
     let coords = (if xOrder = 99 then coords_c else coords_f);
     xCoord \<leftarrow> coords xRank (shapeOf tadInfo) f;
     yCoord \<leftarrow> coords yRank (shapeOf yShapeInfo) f;
     zOrder \<leftarrow> order_of tadInfoZ;
     zCoord \<leftarrow> (if zOrder = 99 then coords_c else coords_f) zRank (shapeOf tadInfoZ) f;
     xOffset \<leftarrow> getOffset offset (shapeOf tadInfo) xStride xCoord xRank;
     zOffset \<leftarrow> getOffset offsetZ (shapeOf tadInfoZ) zStride zCoord zRank;
     yOffset \<leftarrow> getOffset 0 (shapeOf yShapeInfo) yStride yCoord yRank;
     apply2 op (result + zOffset) (x + xOffset) (y + yOffset) mem }"

definition broadcast_exec ::
  "runtime \<Rightarrow> (nat \<Rightarrow> int) \<Rightarrow> ('a \<Rightarrow> 'a \<Rightarrow> 'a) \<Rightarrow> int \<Rightarrow> int list \<Rightarrow> int \<Rightarrow> int list \<Rightarrow> int \<Rightarrow> int list \<Rightarrow> int
    \<Rightarrow> (int list \<times> int list) option \<Rightarrow> (int list \<times> int list) option \<Rightarrow> 'a list \<Rightarrow> 'a list option" where
  "broadcast_exec rt junk op x xShapeInfo y yShapeInfo result dimension dimensionLength tadX tadZ mem = do {
     (tadInfo, tadOffsets) \<leftarrow> (case tadX of Some l \<Rightarrow> Some l | None \<Rightarrow> do {
        (info, offsets, n) \<leftarrow> own_tads junk xShapeInfo dimension dimensionLength; Some (info, offsets) });
     tadEWS \<leftarrow> elementWiseStride_of tadInfo;
     tadLen \<leftarrow> tadLength xShapeInfo dimension dimensionLength;
     yStride \<leftarrow> elementWiseStride_of yShapeInfo;
     len \<leftarrow> length_of xShapeInfo;
     tads \<leftarrow> cdiv len tadLen;
     let tads = to_int32 tads;
     let (tadInfoZ, tadOffsetsZ) = (case tadZ of None \<Rightarrow> (tadInfo, tadOffsets) | Some l \<Rightarrow> l);
     zEWS \<leftarrow> elementWiseStride_of tadInfoZ;
     threads \<leftarrow> thread_count rt tads (rt_tad_threshold rt);
     parallel_for rt tads (\<lambda>i mem. do {
       offset \<leftarrow> rd tadOffsets i;
       offsetZ \<leftarrow> rd tadOffsetsZ i;
       if tadEWS > 0 \<and> yStride > 0 \<and> zEWS > 0 \<and> dimensionLength = 1
       then for_each (broadcast_axis op (x + offset) tadEWS y yStride (result + offsetZ) zEWS) [0..tadLen - 1] mem
       else for_each (broadcast_axes op x tadInfo offset y yShapeInfo result tadInfoZ offsetZ) [0..tadLen - 1] mem }) mem }"


subsection \<open>Correctness of the broadcast\<close>

lemma layout_offset_base:
  assumes "layout info sh st" "0 \<le> k" "k < prod_list sh" "0 \<le> base" "base < 2 ^ 62"
  shows "getOffset base (sh @ r) (st @ r') (dec_of ord sh k) (int (length sh)) = Some (base + inner st (dec_of ord sh k))"
proof -
  note f = layout_fits [OF assms(1)]
  have box: "in_box sh (dec_of ord sh k)"
    using enc_dec_c [OF f(2) assms(2,3)] enc_dec_f [OF f(2) assms(2,3)] by (simp add: dec_of_def)
  have d: "dot sh st (dec_of ord sh k) = inner st (dec_of ord sh k)" by (rule dot_inner [OF box f(1)])
  have "\<bar>inner st (dec_of ord sh k)\<bar> \<le> int (length sh) * 2 ^ 31" by (rule inner_bound [OF box f(1)]) (use f(4) in simp)
  also have "\<dots> \<le> 32 * 2 ^ 31" using assms(1) by (auto simp: layout_def)
  finally have "base + dot sh st (dec_of ord sh k) < 2 ^ 63" unfolding d using assms(5) by simp
  from getOffset_exact [OF box f(1,5) assms(4) this] show ?thesis by (simp add: d)
qed

lemma layout_coords:
  assumes "layout info sh st" "0 \<le> k" "k < prod_list sh" "order_of info = Some ord"
  shows "(if ord = 99 then coords_c else coords_f) (int (length sh)) (sh @ r) k = Some (dec_of ord sh k)"
proof -
  obtain off ews ord' where "prod_list sh < 2 ^ 31" "length sh \<le> 32" "pos_dims sh" "ord' = 99 \<or> ord' = 102" "order_of info = Some ord'"
    using assms(1) by (rule layoutE)
  then show ?thesis using coords_exact [of sh k r] assms(2-4) by (auto simp: dec_of_def)
qed

definition ews_bound :: "int list \<Rightarrow> int \<Rightarrow> bool" where
  "ews_bound info len \<longleftrightarrow> (\<forall>e. elementWiseStride_of info = Some e \<and> 1 \<le> e \<longrightarrow> len * e < 2 ^ 31)"

lemma ews_step:
  assumes "layout info sh st" "elementWiseStride_of info = Some e" "1 \<le> e" "order_of info = Some ord" "ews_bound info (prod_list sh)"
    and "0 \<le> f" "f < prod_list sh"
  shows "i32 (f * e) = Some (f * e)" "f * e = inner st (dec_of ord sh f)"
proof -
  obtain ews ord' where "elementWiseStride_of info = Some ews" "order_of info = Some ord'"
    "\<And>k. 1 \<le> ews \<Longrightarrow> 0 \<le> k \<Longrightarrow> k < prod_list sh \<Longrightarrow> inner st (dec_of ord' sh k) = k * ews"
    using assms(1) by (rule layoutE) blast
  then show "f * e = inner st (dec_of ord sh f)" using assms by simp
  have "0 \<le> f * e" "f * e \<le> prod_list sh * e" using assms by (auto intro: mult_right_mono)
  moreover have "prod_list sh * e < 2 ^ 31" using assms(2,3,5) by (simp add: ews_bound_def)
  ultimately have "- (2 ^ 31) \<le> f * e" "f * e < 2 ^ 31" by linarith+
  then show "i32 (f * e) = Some (f * e)" by (rule i32_in_range)
qed

lemma broadcast_axis_exact:
  assumes X: "layout tx sh st" "elementWiseStride_of tx = Some ex" "1 \<le> ex" "order_of tx = Some ox" "ews_bound tx (prod_list sh)"
    and Y: "layout yi ysh sty" "elementWiseStride_of yi = Some ey" "1 \<le> ey" "order_of yi = Some ox" "ews_bound yi (prod_list ysh)"
    and Z: "layout tz sh stz" "elementWiseStride_of tz = Some ez" "1 \<le> ez" "order_of tz = Some oz" "ews_bound tz (prod_list sh)"
    and f: "0 \<le> f" "f < prod_list sh" "prod_list ysh = prod_list sh"
  shows "broadcast_axis op x ex y ey z ez f = apply2 op (z + inner stz (dec_of oz sh f)) (x + inner st (dec_of ox sh f)) (y + inner sty (dec_of ox ysh f))"
proof (cases "ex = 1 \<and> ey = 1 \<and> ez = 1")
  case True
  then show ?thesis
    using ews_step(2) [OF X f(1,2)] ews_step(2) [OF Y f(1)] ews_step(2) [OF Z f(1,2)] f(2,3)
    by (simp add: broadcast_axis_def fun_eq_iff)
next
  case False
  show ?thesis
    unfolding broadcast_axis_def if_not_P [OF False]
    using ews_step [OF X f(1,2)] ews_step [OF Y f(1)] ews_step [OF Z f(1,2)] f(2,3) by (simp add: fun_eq_iff)
qed

lemma broadcast_axes_exact:
  assumes "layout tx sh st" "order_of tx = Some ox" "layout yi ysh sty" "layout tz sh stz" "order_of tz = Some oz"
    and f: "0 \<le> f" "f < prod_list sh" "prod_list ysh = prod_list sh" and b: "0 \<le> bx" "bx < 2 ^ 62" "0 \<le> bz" "bz < 2 ^ 62"
  shows "broadcast_axes op x tx bx y yi z tz bz f
    = apply2 op (z + bz + inner stz (dec_of oz sh f)) (x + bx + inner st (dec_of ox sh f)) (y + inner sty (dec_of ox ysh f))"
proof -
  obtain rx sx where X: "rank_of tx = Some (int (length sh))" "stride_of tx = Some (st @ sx)" "shapeOf tx = sh @ rx"
    using assms(1) by (rule layoutE) blast
  obtain ry sy where Y: "rank_of yi = Some (int (length ysh))" "stride_of yi = Some (sty @ sy)" "shapeOf yi = ysh @ ry"
    "pos_dims ysh" "prod_list ysh < 2 ^ 31" "length ysh \<le> 32"
    using assms(3) by (rule layoutE) blast
  obtain rz sz where Z: "rank_of tz = Some (int (length sh))" "stride_of tz = Some (stz @ sz)" "shapeOf tz = sh @ rz"
    using assms(4) by (rule layoutE) blast
  have ord: "ox = 99 \<or> ox = 102" using assms(1,2) by (auto elim!: layoutE)
  have f': "f < prod_list ysh" using f by simp
  have yc: "(if ox = 99 then coords_c else coords_f) (int (length ysh)) (ysh @ ry) f = Some (dec_of ox ysh f)"
    using coords_exact [OF Y(4-6) f(1) f', of ry] ord by (auto simp: dec_of_def)
  note xc = layout_coords [OF assms(1) f(1,2) assms(2), of rx] and zc = layout_coords [OF assms(4) f(1,2) assms(5), of rz]
  show ?thesis
    using X Y(1-3) Z assms(2,5) xc yc zc layout_offset_base [OF assms(1) f(1,2) b(1,2)] layout_offset_base [OF assms(4) f(1,2) b(3,4)]
      layout_offset_base [OF assms(3) f(1) f', of 0]
    by (simp add: broadcast_axes_def fun_eq_iff Let_def add.assoc)
qed

end
