(* ===== verification/ReduceLoops.thy ===== *)
theory ReduceLoops
  imports TensorLoops
begin

text \<open>
  Reductions on the CPU (\<open>include/loops/reduce.h\<close>).  An operation is given by its starting value,
  the function on elements, the function that combines an old value with an element, the final step,
  and \<open>merge\<close>, which only the CUDA kernels call; \<open>startingValue\<close> is a constant or the first element in every operation of \<open>ops.h\<close>.
\<close>

subsection \<open>Operations\<close>

datatype 'a start = Constant 'a | First

record 'a reduction =
  rn_start :: "'a start"
  rn_op :: "'a \<Rightarrow> 'a"
  rn_merge :: "'a \<Rightarrow> 'a \<Rightarrow> 'a"
  rn_update :: "'a \<Rightarrow> 'a \<Rightarrow> 'a"
  rn_post :: "'a \<Rightarrow> int \<Rightarrow> 'a"

definition starting :: "'a reduction \<Rightarrow> 'a list \<Rightarrow> int \<Rightarrow> 'a option" where
  "starting r mem x = (case rn_start r of Constant c \<Rightarrow> Some c | First \<Rightarrow> rd mem x)"

definition reduce_step :: "'a reduction \<Rightarrow> 'a list \<Rightarrow> int \<Rightarrow> 'a \<Rightarrow> 'a option" where
  "reduce_step r mem p local = do { v \<leftarrow> rd mem p; Some (rn_update r local (rn_op r v)) }"

subsection \<open>The whole array\<close>

text \<open>
  The chunks of a thread: \<open>for (i = tid; i < chunks; i += threads)\<close>.  A thread leaves its loop at a
  chunk behind the end.  The threads write only their own cell of \<open>blocks\<close>, so their order does not
  matter.
\<close>

function chunk_indexes :: "int \<Rightarrow> int \<Rightarrow> int \<Rightarrow> int list option" where
  "chunk_indexes i threads chunks =
     (if i < chunks \<and> 0 < threads then do {
        i' \<leftarrow> i32 (i + threads); rest \<leftarrow> chunk_indexes i' threads chunks; Some (i # rest) }
      else Some [])"
  by pat_completeness auto
termination
  by (relation "measure (\<lambda>(i, threads, chunks). nat (chunks - i))") (auto simp: i32_def split: if_splits)

declare chunk_indexes.simps [simp del]

definition chunk_items :: "int \<Rightarrow> int \<Rightarrow> int \<Rightarrow> int \<Rightarrow> int list" where
  "chunk_items ews items len i =
     (let itemsToLoop = (if ews = 1 \<and> i * items + items \<ge> len then len - i * items else items)
      in [0..min itemsToLoop (len - i * items) - 1])"

definition reduce_block :: "'a reduction \<Rightarrow> int \<Rightarrow> int \<Rightarrow> int \<Rightarrow> BlockInformation \<Rightarrow> 'a list \<Rightarrow> int \<Rightarrow> 'a option" where
  "reduce_block r x ews len info mem tid = do {
     local \<leftarrow> starting r mem x;
     is \<leftarrow> chunk_indexes tid (bi_threads info) (bi_chunks info);
     for_each (\<lambda>i local. do {
       p \<leftarrow> i64 (i * bi_items info);
       newOffset \<leftarrow> i64 (p * ews);
       for_each (\<lambda>j local. do {
         o' \<leftarrow> i64 (j * ews); reduce_step r mem (x + newOffset + o') local }) (chunk_items ews (bi_items info) len i) local })
       (takeWhile (\<lambda>i. i * bi_items info < len) is) local }"

definition reduce_strided :: "runtime \<Rightarrow> 'a reduction \<Rightarrow> int \<Rightarrow> int \<Rightarrow> int \<Rightarrow> 'a list \<Rightarrow> 'a option" where
  "reduce_strided rt r x ews len mem = do {
     startingVal \<leftarrow> starting r mem x;
     if len < rt_element_threshold rt then do {
       local \<leftarrow> starting r mem x;
       local \<leftarrow> for_each (\<lambda>i local. do { o' \<leftarrow> i64 (i * ews); reduce_step r mem (x + o') local }) [0..len - 1] local;
       Some (rn_post r local len) }
     else do {
       info \<leftarrow> BlockInformation_new (rt_max_threads rt) len (rt_element_threshold rt);
       blocks \<leftarrow> those (map (reduce_block r x ews len info mem) [0..bi_threads info - 1]);
       Some (rn_post r (foldl (rn_update r) startingVal blocks) len) } }"

definition reduce_scalar :: "runtime \<Rightarrow> 'a reduction \<Rightarrow> int \<Rightarrow> int list \<Rightarrow> 'a list \<Rightarrow> 'a option" where
  "reduce_scalar rt r x xShapeInfo mem = do {
     len \<leftarrow> length_of xShapeInfo;
     ews \<leftarrow> elementWiseStride_of xShapeInfo;
     if ews \<ge> 1 then reduce_strided rt r x ews len mem
     else do {
       xStride \<leftarrow> stride_of xShapeInfo;
       start \<leftarrow> starting r mem x;
       rank \<leftarrow> rank_of xShapeInfo;
       rank \<leftarrow> iter_rank rank;
       (rank, shapeIter, arrays) \<leftarrow> PrepareOneRawArrayIter rank (shapeOf xShapeInfo) (x, xStride);
       start \<leftarrow> raw_for rank shapeIter arrays (\<lambda>ptrs. reduce_step r mem (ptrs ! 0)) start;
       Some (rn_post r start len) } }"

subsection \<open>Along dimensions\<close>

definition reduce_tad_linear :: "'a reduction \<Rightarrow> int \<Rightarrow> int \<Rightarrow> int \<Rightarrow> 'a list \<Rightarrow> 'a option" where
  "reduce_tad_linear r iter tadEWS tadLen mem = do {
     start \<leftarrow> starting r mem iter;
     start \<leftarrow> for_each (\<lambda>j start. do { o' \<leftarrow> i32 (j * tadEWS); reduce_step r mem (iter + o') start }) [0..tadLen - 1] start;
     Some (rn_post r start tadLen) }"

definition reduce_tad_general :: "'a reduction \<Rightarrow> int \<Rightarrow> int list \<Rightarrow> int \<Rightarrow> int \<Rightarrow> 'a list \<Rightarrow> 'a option" where
  "reduce_tad_general r x tadInfo offset tadLen mem = do {
     tadStride \<leftarrow> stride_of tadInfo; tadRank \<leftarrow> rank_of tadInfo;
     start \<leftarrow> starting r mem (x + offset);
     start \<leftarrow> for_each (\<lambda>j start. do {
       xCoord \<leftarrow> coords_c tadRank (shapeOf tadInfo) j;
       xOffset \<leftarrow> getOffset offset (shapeOf tadInfo) tadStride xCoord tadRank;
       reduce_step r mem (x + xOffset) start }) [0..tadLen - 1] start;
     Some (rn_post r start tadLen) }"

text \<open>\<open>special\<close> is \<open>OpType::execSpecial\<close> of an operation with its own accumulation.\<close>

definition reduce_exec ::
  "runtime \<Rightarrow> (nat \<Rightarrow> int) \<Rightarrow> ('a list \<Rightarrow> 'a list option) option \<Rightarrow> 'a reduction \<Rightarrow> int \<Rightarrow> int list \<Rightarrow> int \<Rightarrow> int list
    \<Rightarrow> int list option \<Rightarrow> int \<Rightarrow> (int list \<times> int list) option \<Rightarrow> 'a list \<Rightarrow> 'a list option" where
  "reduce_exec rt junk special r x xShapeInfo result resultShapeInfo dimension dimensionLength tadX mem = do {
     resultLength \<leftarrow> length_of resultShapeInfo;
     let resultLength = to_int32 resultLength;
     rank \<leftarrow> rank_of xShapeInfo;
     case dimension of
       None \<Rightarrow> do { v \<leftarrow> reduce_scalar rt r x xShapeInfo mem; wr mem result v }
     | Some dims \<Rightarrow>
        if resultLength = 1 \<or> dimensionLength = rank
        then do { v \<leftarrow> reduce_scalar rt r x xShapeInfo mem; wr mem result v }
        else (case special of Some execSpecial \<Rightarrow> execSpecial mem | None \<Rightarrow> do {
          (tadInfo, tadOffsets, n) \<leftarrow> (case tadX of Some (info, offsets) \<Rightarrow> Some (info, offsets, 1)
             | None \<Rightarrow> own_tads junk xShapeInfo dims dimensionLength);
          if n < 1 then Some mem
          else do {
            tadLen \<leftarrow> tadLength xShapeInfo dims dimensionLength;
            len \<leftarrow> length_of xShapeInfo;
            numTads \<leftarrow> cdiv len tadLen;
            tadEWS \<leftarrow> elementWiseStride_of tadInfo;
            threads \<leftarrow> thread_count rt resultLength (rt_tad_threshold rt);
            linear \<leftarrow> (if tadEWS > 0 then
                (if to_int32 numTads = 1 then Some True
                 else do { v \<leftarrow> isVector_of tadInfo;
                   if v \<noteq> 0 then Some True else do { s \<leftarrow> isScalar tadInfo; Some (s \<noteq> 0) } })
              else Some False);
            parallel_for rt resultLength (\<lambda>i mem. do {
              offset \<leftarrow> rd tadOffsets i;
              v \<leftarrow> (if linear then reduce_tad_linear r (x + offset) tadEWS tadLen mem
                    else reduce_tad_general r x tadInfo offset tadLen mem);
              wr mem (result + i) v }) mem } }) }"


subsection \<open>Combining functions\<close>

text \<open>
  What a parallel reduction asks of its combining function: the order of the elements does not
  matter, and the starting value may be counted more than once.
\<close>

locale combination =
  fixes update :: "'a \<Rightarrow> 'a \<Rightarrow> 'a" and s :: 'a
  assumes assoc: "update (update a b) c = update a (update b c)"
    and comm: "update a b = update b a"
    and absorb: "update (update s s) a = update s a"
begin

lemma push: "update a (foldl update b xs) = foldl update (update a b) xs"
  by (induction xs arbitrary: b) (simp_all add: assoc)

lemma left_comm: "update a (update b c) = update b (update a c)"
  by (simp only: assoc [symmetric] comm [of a b])

lemma absorb_twice: "update s (update s a) = update s a"
  by (simp only: assoc [symmetric] absorb)

lemma absorbing:
  assumes "xs \<noteq> []" shows "update s (foldl update s xs) = foldl update s xs"
proof (cases xs)
  case (Cons x xs')
  then show ?thesis by (simp add: push absorb_twice)
qed (use assms in simp)

lemma blocks_from: "update s v = v \<Longrightarrow> foldl update v (map (foldl update s) Ls) = foldl update v (concat Ls)"
proof (induction Ls arbitrary: v)
  case (Cons L Ls)
  have "update v (foldl update s L) = foldl update v L" using Cons.prems push comm by metis
  moreover have "update s (foldl update v L) = foldl update v L" by (simp add: push Cons.prems)
  ultimately show ?case using Cons.IH by simp
qed simp

lemma blocks:
  assumes "Ls \<noteq> []" "hd Ls \<noteq> []"
  shows "foldl update s (map (foldl update s) Ls) = foldl update s (concat Ls)"
proof -
  obtain L Ms where L: "Ls = L # Ms" "L \<noteq> []" using assms by (cases Ls) auto
  have "update s (foldl update s L) = foldl update s L" by (rule absorbing [OF L(2)])
  then show ?thesis using blocks_from [OF absorbing [OF L(2)], of Ms] L(1) by simp
qed

lemma any_order:
  assumes "mset xs = mset ys" shows "foldl update s xs = foldl update s ys"
proof -
  have "foldl update s zs = fold (\<lambda>x a. update a x) zs s" for zs by (rule foldl_conv_fold)
  moreover have "fold (\<lambda>x a. update a x) xs = fold (\<lambda>x a. update a x) ys"
  proof (rule fold_multiset_equiv [OF _ assms])
    fix x y show "(\<lambda>a. update a x) \<circ> (\<lambda>a. update a y) = (\<lambda>a. update a y) \<circ> (\<lambda>a. update a x)"
      by (simp add: fun_eq_iff assoc comm [of y x])
  qed
  ultimately show ?thesis by simp
qed

end

subsection \<open>The elements of the threads\<close>

lemma distinct_concat_map:
  "distinct xs \<Longrightarrow> (\<And>x. x \<in> set xs \<Longrightarrow> distinct (A x))
    \<Longrightarrow> (\<And>x y. x \<in> set xs \<Longrightarrow> y \<in> set xs \<Longrightarrow> x \<noteq> y \<Longrightarrow> set (A x) \<inter> set (A y) = {}) \<Longrightarrow> distinct (concat (map A xs))"
proof (induction xs)
  case (Cons x xs)
  have "set (A x) \<inter> set (A y) = {}" if "y \<in> set xs" for y
    using Cons.prems(1) that by (intro Cons.prems(3)) auto
  then have "set (A x) \<inter> set (concat (map A xs)) = {}" by auto
  moreover have "distinct (concat (map A xs))" using Cons.prems by (intro Cons.IH) auto
  ultimately show ?case using Cons.prems by simp
qed simp

lemma chunk_indexes_exact:
  assumes "0 < threads" "0 \<le> i" "i \<le> chunks + threads" "chunks + threads < 2 ^ 31"
  shows "\<exists>is. chunk_indexes i threads chunks = Some is \<and> distinct is \<and> sorted is
    \<and> set is = {k. i \<le> k \<and> k < chunks \<and> k mod threads = i mod threads}"
  using assms(2,3)
proof (induction "nat (chunks - i)" arbitrary: i rule: less_induct)
  case less
  show ?case
  proof (cases "i < chunks")
    case False
    then show ?thesis by (subst chunk_indexes.simps) auto
  next
    case True
    have n: "i32 (i + threads) = Some (i + threads)" using less.prems True assms by (intro i32_in_range) auto
    from less.hyps [of "i + threads"] less.prems True assms(1) obtain "is" where
      r: "chunk_indexes (i + threads) threads chunks = Some is" "distinct is" "sorted is"
        "set is = {k. i + threads \<le> k \<and> k < chunks \<and> k mod threads = (i + threads) mod threads}" by auto
    have "k = i \<or> i + threads \<le> k" if "i \<le> k" "k mod threads = i mod threads" for k
    proof -
      have "(k - i) mod threads = 0" using that(2) by (simp add: mod_eq_dvd_iff)
      then obtain q where q: "k - i = threads * q" by auto
      then have "0 \<le> q" using that(1) assms(1) by (metis diff_ge_0_iff_ge zero_le_mult_iff not_le order_less_irrefl order.strict_trans2)
      then consider "q = 0" | "1 \<le> q" by linarith
      then show ?thesis
      proof cases
        case 2
        then have "threads * 1 \<le> threads * q" using assms(1) by (intro mult_left_mono) auto
        then show ?thesis using q by simp
      qed (use q in simp)
    qed
    then have "set (i # is) = {k. i \<le> k \<and> k < chunks \<and> k mod threads = i mod threads}"
      using r(4) True assms(1) by auto
    moreover have "distinct (i # is)" "sorted (i # is)" using r(2-4) assms(1) by auto
    ultimately show ?thesis using r(1) n True assms(1) by (subst chunk_indexes.simps) simp
  qed
qed


lemma for_each_foldl:
  assumes "\<And>i a. i \<in> set is \<Longrightarrow> body i a = Some (foldl u a (E i))"
  shows "for_each body is a = Some (foldl u a (concat (map E is)))"
  using assms
proof (induction "is" arbitrary: a)
  case (Cons i "is")
  then have "body i a = Some (foldl u a (E i))" by simp
  then show ?case using Cons by simp
qed simp

lemma foldl_singletons: "concat (map (\<lambda>i. [g i]) is) = map g is"
  by (induction "is") simp_all

definition chunk_elements :: "int \<Rightarrow> int \<Rightarrow> int \<Rightarrow> int list" where
  "chunk_elements items len i = map (\<lambda>j. i * items + j) [0..min items (len - i * items) - 1]"

lemma chunk_elements_set:
  assumes "0 < items" "0 \<le> i"
  shows "distinct (chunk_elements items len i)" "set (chunk_elements items len i) = {k. 0 \<le> k \<and> k < len \<and> k div items = i}"
proof -
  show "distinct (chunk_elements items len i)" by (simp add: chunk_elements_def distinct_map inj_on_def)
  have d: "k div items = i \<longleftrightarrow> i * items \<le> k \<and> k < i * items + items" for k
  proof
    assume "k div items = i"
    then have "k = items * i + k mod items" using mult_div_mod_eq [of items k] by simp
    moreover have "0 \<le> k mod items" "k mod items < items" using assms(1) by simp_all
    ultimately show "i * items \<le> k \<and> k < i * items + items" unfolding mult.commute [of items i] by linarith
  next
    assume "i * items \<le> k \<and> k < i * items + items"
    then show "k div items = i" by (intro int_div_pos_eq [of k items i "k - i * items"]) (simp_all add: mult.commute)
  qed
  show "set (chunk_elements items len i) = {k. 0 \<le> k \<and> k < len \<and> k div items = i}"
  proof (intro set_eqI iffI)
    fix k assume "k \<in> set (chunk_elements items len i)"
    then obtain j where j: "k = i * items + j" "j \<in> set [0..min items (len - i * items) - 1]"
      unfolding chunk_elements_def set_map by blast
    then have "0 \<le> j" "j < items" "j < len - i * items" by simp_all
    moreover note j(1)
    moreover have "0 \<le> i * items" using assms by simp
    ultimately show "k \<in> {k. 0 \<le> k \<and> k < len \<and> k div items = i}" by (simp add: d)
  next
    fix k assume "k \<in> {k. 0 \<le> k \<and> k < len \<and> k div items = i}"
    then have "k - i * items \<in> set [0..min items (len - i * items) - 1]" by (auto simp: d)
    then have "i * items + (k - i * items) \<in> set (chunk_elements items len i)" unfolding chunk_elements_def by auto
    then show "k \<in> set (chunk_elements items len i)" by simp
  qed
qed


lemma reduce_block_exact:
  assumes info: "0 < bi_threads info" "0 < bi_items info" "(bi_chunks info - 1) * bi_items info < len"
      "bi_chunks info + bi_threads info < 2 ^ 31"
    and t: "0 \<le> tid" "tid < bi_threads info" "0 \<le> bi_chunks info" and len: "len < 2 ^ 31" and ews: "1 \<le> ews" "ews < 2 ^ 31"
    and elem: "\<And>k. 0 \<le> k \<Longrightarrow> k < len \<Longrightarrow> rd mem (x + k * ews) = Some (elem k)"
    and s: "starting r mem x = Some s"
  shows "\<exists>is. distinct is \<and> set is = {k. 0 \<le> k \<and> k < bi_chunks info \<and> k mod bi_threads info = tid}
    \<and> reduce_block r x ews len info mem tid
      = Some (foldl (rn_update r) s (map (\<lambda>k. rn_op r (elem k)) (concat (map (chunk_elements (bi_items info) len) is))))"
proof -
  let ?N = "bi_items info"
  have "tid \<le> bi_chunks info + bi_threads info" using t by simp
  from chunk_indexes_exact [OF info(1) t(1) this info(4)] obtain "is" where
    c: "chunk_indexes tid (bi_threads info) (bi_chunks info) = Some is" "distinct is"
      "set is = {k. tid \<le> k \<and> k < bi_chunks info \<and> k mod bi_threads info = tid mod bi_threads info}" by blast
  have m: "tid mod bi_threads info = tid" using t by simp
  have "tid \<le> k" if "0 \<le> k" "k mod bi_threads info = tid" for k
    using that info(1) zmod_le_nonneg_dividend [of k "bi_threads info"] by simp
  then have set: "set is = {k. 0 \<le> k \<and> k < bi_chunks info \<and> k mod bi_threads info = tid}" using c(3) t(1) unfolding m by auto
  have pos: "0 \<le> i * ?N" "i * ?N < len" if "i \<in> set is" for i
  proof -
    have i: "0 \<le> i" "i \<le> bi_chunks info - 1" using that set by auto
    show "0 \<le> i * ?N" using i(1) info(2) by simp
    have "i * ?N \<le> (bi_chunks info - 1) * ?N" using i(2) info(2) by (intro mult_right_mono) auto
    then show "i * ?N < len" using info(3) by simp
  qed
  have tw: "takeWhile (\<lambda>i. i * ?N < len) is = is" by (rule takeWhile_eq_all_conv [THEN iffD2]) (use pos(2) in blast)
  have items: "chunk_items ews ?N len i = [0..min ?N (len - i * ?N) - 1]" if "i \<in> set is" for i
  proof -
    have "min (if ews = 1 \<and> i * ?N + ?N \<ge> len then len - i * ?N else ?N) (len - i * ?N) = min ?N (len - i * ?N)" by auto
    then show ?thesis by (simp only: chunk_items_def Let_def)
  qed
  have step: "reduce_step r mem (x + i * ?N * ews + j * ews) a = Some (rn_update r a (rn_op r (elem (i * ?N + j))))"
    "i64 (j * ews) = Some (j * ews)"
    if "i \<in> set is" "j \<in> set [0..min ?N (len - i * ?N) - 1]" for i j a
  proof -
    have k: "0 \<le> i * ?N + j" "i * ?N + j < len" "0 \<le> j" "j < len" using pos [OF that(1)] that(2) by auto
    have e: "x + i * ?N * ews + j * ews = x + (i * ?N + j) * ews" by (simp add: algebra_simps)
    show "reduce_step r mem (x + i * ?N * ews + j * ews) a = Some (rn_update r a (rn_op r (elem (i * ?N + j))))"
      unfolding reduce_step_def e elem [OF k(1,2)] by simp
    show "i64 (j * ews) = Some (j * ews)" using product_fits [of j ews] k(3,4) len ews by simp
  qed
  have inner: "for_each (\<lambda>j local. do { o' \<leftarrow> i64 (j * ews); reduce_step r mem (x + i * ?N * ews + o') local })
      [0..min ?N (len - i * ?N) - 1] a = Some (foldl (rn_update r) a (map (\<lambda>k. rn_op r (elem k)) (chunk_elements ?N len i)))"
    if "i \<in> set is" for i a
    using for_each_foldl [of "[0..min ?N (len - i * ?N) - 1]" "\<lambda>j local. do { o' \<leftarrow> i64 (j * ews); reduce_step r mem (x + i * ?N * ews + o') local }"
        "rn_update r" "\<lambda>j. [rn_op r (elem (i * ?N + j))]" a] step [OF that]
    by (simp add: foldl_singletons chunk_elements_def comp_def)
  have "i64 (i * ?N) = Some (i * ?N)" "i64 (i * ?N * ews) = Some (i * ?N * ews)" if "i \<in> set is" for i
    using pos [OF that] len ews product_fits [of "i * ?N" ews] by (simp_all add: i64_def)
  then have "for_each (\<lambda>i local. do { p \<leftarrow> i64 (i * ?N); newOffset \<leftarrow> i64 (p * ews);
       for_each (\<lambda>j local. do { o' \<leftarrow> i64 (j * ews); reduce_step r mem (x + newOffset + o') local }) (chunk_items ews ?N len i) local }) is s
    = Some (foldl (rn_update r) s (concat (map (\<lambda>i. map (\<lambda>k. rn_op r (elem k)) (chunk_elements ?N len i)) is)))"
    using items inner by (intro for_each_foldl) simp
  then have "reduce_block r x ews len info mem tid
      = Some (foldl (rn_update r) s (map (\<lambda>k. rn_op r (elem k)) (concat (map (chunk_elements ?N len) is))))"
    unfolding reduce_block_def s c(1) by (simp add: tw map_concat comp_def)
  then show ?thesis using c(2) set by blast
qed


lemma thread_elements:
  assumes "0 < threads" "0 < items" "len \<le> chunks * items"
    and I: "\<And>t. 0 \<le> t \<Longrightarrow> t < threads \<Longrightarrow> distinct (I t) \<and> set (I t) = {k. 0 \<le> k \<and> k < chunks \<and> k mod threads = t}"
  shows "mset (concat (map (\<lambda>t. concat (map (chunk_elements items len) (I t))) [0..threads - 1])) = mset [0..len - 1]"
proof -
  let ?T = "\<lambda>t. concat (map (chunk_elements items len) (I t))"
  note ce = chunk_elements_set [OF assms(2)]
  have chunk: "k div items < chunks" if "k < len" for k
  proof -
    have "k < chunks * items" using that assms(3) by simp
    then show ?thesis using assms(2) by (simp add: div_less_factor mult.commute)
  qed
  have T: "distinct (?T t)" "set (?T t) = {k. 0 \<le> k \<and> k < len \<and> (k div items) mod threads = t}" if t: "0 \<le> t" "t < threads" for t
  proof -
    show "distinct (?T t)"
    proof (rule distinct_concat_map)
      show "distinct (I t)" using I [OF t] by blast
      show "distinct (chunk_elements items len i)" if "i \<in> set (I t)" for i using ce(1) that I [OF t] by simp
      show "set (chunk_elements items len i) \<inter> set (chunk_elements items len j) = {}"
        if "i \<in> set (I t)" "j \<in> set (I t)" "i \<noteq> j" for i j using ce(2) that I [OF t] by auto
    qed
    have "set (?T t) = (\<Union>i \<in> set (I t). set (chunk_elements items len i))" by simp
    also have "\<dots> = {k. 0 \<le> k \<and> k < len \<and> (k div items) mod threads = t}"
    proof (intro set_eqI iffI)
      fix k assume "k \<in> (\<Union>i \<in> set (I t). set (chunk_elements items len i))"
      then obtain i where "i \<in> set (I t)" "k \<in> set (chunk_elements items len i)" by blast
      then show "k \<in> {k. 0 \<le> k \<and> k < len \<and> (k div items) mod threads = t}" using ce(2) I [OF t] by auto
    next
      fix k assume k: "k \<in> {k. 0 \<le> k \<and> k < len \<and> (k div items) mod threads = t}"
      then have "k div items \<in> set (I t)" using I [OF t] chunk assms(2) by (simp add: pos_imp_zdiv_nonneg_iff)
      moreover have "k \<in> set (chunk_elements items len (k div items))"
        using k ce(2) [of "k div items"] assms(2) by (simp add: pos_imp_zdiv_nonneg_iff)
      ultimately show "k \<in> (\<Union>i \<in> set (I t). set (chunk_elements items len i))" by blast
    qed
    finally show "set (?T t) = {k. 0 \<le> k \<and> k < len \<and> (k div items) mod threads = t}" .
  qed
  have "distinct (concat (map ?T [0..threads - 1]))"
    by (rule distinct_concat_map) (use T in auto)
  moreover have "set (concat (map ?T [0..threads - 1])) = set [0..len - 1]"
  proof -
    have "set (concat (map ?T [0..threads - 1])) = (\<Union>t \<in> {0..<threads}. set (?T t))"
      by (simp only: set_concat set_map upto_set image_image)
    also have "\<dots> = (\<Union>t \<in> {0..<threads}. {k. 0 \<le> k \<and> k < len \<and> (k div items) mod threads = t})"
      by (rule SUP_cong) (use T(2) in auto)
    also have "\<dots> = {0..<len}" using assms(1) by auto
    finally show ?thesis unfolding upto_set .
  qed
  ultimately show ?thesis by (metis distinct_upto set_eq_iff_mset_eq_distinct)
qed

lemma reduce_strided_exact:
  assumes ok: "runtime_ok rt" and C: "combination (rn_update r) s" and s: "starting r mem x = Some s"
    and len: "0 < len" "len + rt_max_threads rt < 2 ^ 31" and ews: "1 \<le> ews" "ews < 2 ^ 31"
    and elem: "\<And>k. 0 \<le> k \<Longrightarrow> k < len \<Longrightarrow> rd mem (x + k * ews) = Some (elem k)"
  shows "reduce_strided rt r x ews len mem = Some (rn_post r (foldl (rn_update r) s (map (\<lambda>k. rn_op r (elem k)) [0..len - 1])) len)"
proof (cases "len < rt_element_threshold rt")
  case True
  have "do { o' \<leftarrow> i64 (i * ews); reduce_step r mem (x + o') a } = Some (foldl (rn_update r) a [rn_op r (elem i)])"
    if "i \<in> set [0..len - 1]" for i a
    using product_fits [of i ews] that len ok ews elem [of i] by (simp add: reduce_step_def runtime_ok_def)
  then have "for_each (\<lambda>i local. do { o' \<leftarrow> i64 (i * ews); reduce_step r mem (x + o') local }) [0..len - 1] s
      = Some (foldl (rn_update r) s (concat (map (\<lambda>i. [rn_op r (elem i)]) [0..len - 1])))"
    by (rule for_each_foldl)
  then show ?thesis using True s by (simp add: reduce_strided_def foldl_singletons)
next
  case False
  have mt: "0 < rt_max_threads rt" "0 < rt_element_threshold rt" using ok by (simp_all add: runtime_ok_def)
  then have len31: "len < 2 ^ 31" using len by simp
  obtain info where info: "BlockInformation_new (rt_max_threads rt) len (rt_element_threshold rt) = Some info"
    "0 < bi_threads info" "bi_threads info \<le> rt_max_threads rt" "0 < bi_items info"
    "(bi_chunks info - 1) * bi_items info < len" "len \<le> bi_chunks info * bi_items info"
    using work_is_covered [OF len(1) len31 mt(2,1)] by blast
  let ?n = "bi_threads info" and ?N = "bi_items info" and ?c = "bi_chunks info"
  have c: "0 < ?c" using info(4,6) len(1) by (metis less_le_trans not_less zero_less_mult_iff order_less_imp_le)
  have "?c - 1 \<le> (?c - 1) * ?N" using c info(4) mult_left_mono [of 1 ?N "?c - 1"] by simp
  then have room: "?c + ?n < 2 ^ 31" using info(3,5) len(2) by simp
  have "\<forall>t \<in> {0..<?n}. \<exists>is. distinct is \<and> set is = {k. 0 \<le> k \<and> k < ?c \<and> k mod ?n = t}
      \<and> reduce_block r x ews len info mem t
        = Some (foldl (rn_update r) s (map (\<lambda>k. rn_op r (elem k)) (concat (map (chunk_elements ?N len) is))))"
    using reduce_block_exact [OF info(2,4,5) room _ _ _ len31 ews elem s] c by simp
  from bchoice [OF this] obtain I where I: "\<forall>t \<in> {0..<?n}. distinct (I t) \<and> set (I t) = {k. 0 \<le> k \<and> k < ?c \<and> k mod ?n = t}
      \<and> reduce_block r x ews len info mem t
        = Some (foldl (rn_update r) s (map (\<lambda>k. rn_op r (elem k)) (concat (map (chunk_elements ?N len) (I t)))))" ..
  let ?T = "\<lambda>t. concat (map (chunk_elements ?N len) (I t))" and ?g = "\<lambda>k. rn_op r (elem k)"
  have blocks: "those (map (reduce_block r x ews len info mem) [0..?n - 1])
      = Some (map (\<lambda>t. foldl (rn_update r) s (map ?g (?T t))) [0..?n - 1])"
    by (rule those_map_Some) (use I in auto)
  have m: "mset (concat (map ?T [0..?n - 1])) = mset [0..len - 1]"
    by (rule thread_elements [OF info(2,4,6)]) (use I in auto)
  let ?Ls = "map (\<lambda>t. map ?g (?T t)) [0..?n - 1]"
  have hd: "[0..?n - 1] = 0 # [1..?n - 1]" using info(2) by (simp add: upto_rec1)
  have "0 \<in> set (chunk_elements ?N len 0)" using chunk_elements_set(2) [OF info(4), of 0 len] len(1) by simp
  moreover have "0 \<in> set (I 0)" using I info(2) c by auto
  ultimately have "0 \<in> set (?T 0)" by auto
  then have "?T 0 \<noteq> []" by (metis empty_iff list.set(1))
  then have ne: "?Ls \<noteq> []" "hd ?Ls \<noteq> []" unfolding hd by auto
  have "foldl (rn_update r) s (map (foldl (rn_update r) s) ?Ls) = foldl (rn_update r) s (concat ?Ls)"
    by (rule combination.blocks [OF C ne])
  also have "concat ?Ls = map ?g (concat (map ?T [0..?n - 1]))" by (simp add: map_concat comp_def)
  also have "foldl (rn_update r) s \<dots> = foldl (rn_update r) s (map ?g [0..len - 1])"
    by (rule combination.any_order [OF C]) (use m in \<open>simp only: mset_map\<close>)
  finally have "foldl (rn_update r) s (map (\<lambda>t. foldl (rn_update r) s (map ?g (?T t))) [0..?n - 1])
      = foldl (rn_update r) s (map ?g [0..len - 1])" by (simp add: comp_def)
  then show ?thesis using False s info(1) blocks by (simp add: reduce_strided_def)
qed


lemma mset_dec:
  assumes "pos_dims sh" shows "mset (map (dec_of ord sh) [0..prod_list sh - 1]) = mset_set (box sh)"
proof -
  have "mset (map (dec_of ord sh) [0..prod_list sh - 1]) = image_mset (dec_of ord sh) (mset_set {0..<prod_list sh})"
    unfolding upto_set [symmetric] mset_set_set [OF distinct_upto] mset_map ..
  also have "\<dots> = mset_set (box sh)"
    using bij_dec_of [OF assms, of ord] by (simp add: image_mset_mset_set bij_betw_def)
  finally show ?thesis .
qed

definition element :: "'a list \<Rightarrow> int \<Rightarrow> int list \<Rightarrow> int list \<Rightarrow> 'a" where
  "element mem p st idx = mem ! nat (p + inner st idx)"

definition reduced :: "'a reduction \<Rightarrow> 'a \<Rightarrow> 'a list \<Rightarrow> int \<Rightarrow> int list \<Rightarrow> int list \<Rightarrow> 'a" where
  "reduced r s mem p st sh = rn_post r (foldl (rn_update r) s
     (map (\<lambda>k. rn_op r (element mem p st (dec_c sh k))) [0..prod_list sh - 1])) (prod_list sh)"

lemma reduced_any_order:
  assumes "combination (rn_update r) s" "pos_dims sh" "mset L = mset_set (box sh)"
  shows "rn_post r (foldl (rn_update r) s (map (\<lambda>idx. rn_op r (element mem p st idx)) L)) (prod_list sh) = reduced r s mem p st sh"
proof -
  have "mset L = mset (map (dec_of 99 sh) [0..prod_list sh - 1])" using mset_dec [OF assms(2), of 99] assms(3) by simp
  then have "mset (map (\<lambda>idx. rn_op r (element mem p st idx)) L)
      = mset (map (\<lambda>idx. rn_op r (element mem p st idx)) (map (dec_of 99 sh) [0..prod_list sh - 1]))" by (simp only: mset_map)
  from combination.any_order [OF assms(1) this] show ?thesis by (simp add: reduced_def dec_of_def comp_def)
qed

lemma reduce_scalar_exact:
  assumes ok: "runtime_ok rt" "room rt sh" and C: "combination (rn_update r) s" and s: "starting r mem x = Some s"
    and lay: "layout xi sh sx" and mem: "\<forall>idx \<in> box sh. 0 \<le> x + inner sx idx \<and> x + inner sx idx < int (length mem)"
  shows "reduce_scalar rt r x xi mem = Some (reduced r s mem x sx sh)"
proof -
  obtain off ex ox where X: "pos_dims sh" "prod_list sh < 2 ^ 31" "ex < 2 ^ 31" "length sx = length sh" "length sh \<le> 32"
    "\<And>k. 1 \<le> ex \<Longrightarrow> 0 \<le> k \<Longrightarrow> k < prod_list sh \<Longrightarrow> inner sx (dec_of ox sh k) = k * ex"
    "rank_of xi = Some (int (length sh))" "stride_of xi = Some (sx @ [off, ex, ox])" "shapeOf xi = sh @ sx @ [off, ex, ox]"
    "elementWiseStride_of xi = Some ex" "length_of xi = Some (prod_list sh)" using lay by (rule layoutE) blast
  have P: "0 < prod_list sh" using X(1) by (simp add: pos_dims_def prod_list_pos)
  have el: "rd mem (x + inner sx idx) = Some (element mem x sx idx)" if "idx \<in> box sh" for idx
    using mem that by (simp add: rd_def element_def)
  show ?thesis
  proof (cases "1 \<le> ex")
    case True
    have "rd mem (x + k * ex) = Some (element mem x sx (dec_of ox sh k))" if "0 \<le> k" "k < prod_list sh" for k
      using el [of "dec_of ox sh k"] X(6) [OF True that] bij_betwE [OF bij_dec_of [OF X(1)], of ox] that by simp
    moreover have "prod_list sh + rt_max_threads rt < 2 ^ 31" using ok by (simp add: room_def runtime_ok_def)
    ultimately have "reduce_strided rt r x ex (prod_list sh) mem = Some (rn_post r (foldl (rn_update r) s
        (map (\<lambda>k. rn_op r (element mem x sx (dec_of ox sh k))) [0..prod_list sh - 1])) (prod_list sh))"
      using reduce_strided_exact [OF ok(1) C s P _ True X(3), of "\<lambda>k. element mem x sx (dec_of ox sh k)"] by simp
    also have "\<dots> = Some (reduced r s mem x sx sh)"
      using reduced_any_order [OF C X(1) mset_dec [OF X(1), of ox], of mem x sx] by (simp add: comp_def)
    finally show ?thesis using True X(10,11) by (simp add: reduce_scalar_def)
  next
    case False
    have "moves_fit sh [(x, sx)]" using layout_fits [OF lay] by (simp add: moves_fit_def)
    from prepare_one_raw [OF this] obtain n sh' arrays L where
      p: "PrepareOneRawArrayIter (length sh) (sh @ sx @ [off, ex, ox]) (x, sx @ [off, ex, ox]) = Some (n, sh', arrays)"
        "raw_iter n sh' arrays = Some (map (pointers [(x, sx)]) L)" "distinct L" "set L = box sh"
      unfolding raw_prepared_def by blast
    have m: "mset L = mset_set (box sh)" using p(3,4) by (simp flip: mset_set_set)
    have "reduce_step r mem (pointers [(x, sx)] idx ! 0) a = Some (foldl (rn_update r) a [rn_op r (element mem x sx idx)])"
      if "idx \<in> set L" for idx a
      using el [of idx] that p(4) by (simp add: reduce_step_def pointers_def)
    then have "for_each (\<lambda>idx. reduce_step r mem (pointers [(x, sx)] idx ! 0)) L s
        = Some (foldl (rn_update r) s (concat (map (\<lambda>idx. [rn_op r (element mem x sx idx)]) L)))"
      by (rule for_each_foldl)
    then show ?thesis
      using False X(5,7-11) p(1,2) s reduced_any_order [OF C X(1) m, of mem x sx]
      by (simp add: reduce_scalar_def iter_rank_def MAX_RANK_def raw_for_def for_each_map foldl_singletons)
  qed
qed


definition start_at :: "'a reduction \<Rightarrow> 'a list \<Rightarrow> int \<Rightarrow> 'a" where
  "start_at r mem p = (case rn_start r of Constant c \<Rightarrow> c | First \<Rightarrow> mem ! nat p)"

lemma starting_at: "0 \<le> p \<Longrightarrow> p < int (length mem) \<Longrightarrow> starting r mem p = Some (start_at r mem p)"
  by (simp add: starting_def start_at_def rd_def split: start.split)

lemma box_zero: "pos_dims sh \<Longrightarrow> dec_c sh 0 \<in> box sh \<and> inner st (dec_c sh 0) = 0"
proof -
  assume p: "pos_dims sh"
  have "dec_c sh 0 = replicate (length sh) 0" by (induction sh) simp_all
  moreover have "dec_c sh 0 \<in> box sh"
    using bij_betwE [OF bij_dec(2) [OF p]] p by (simp add: pos_dims_def prod_list_pos)
  ultimately show ?thesis by (simp add: inner_zero)
qed

lemma reduce_tad_exact:
  assumes C: "combination (rn_update r) (start_at r mem (x + b))" and lay: "layout tx sh st"
    and mem: "\<forall>idx \<in> box sh. 0 \<le> x + b + inner st idx \<and> x + b + inner st idx < int (length mem)" and b: "0 \<le> b" "b < 2 ^ 62"
  shows "elementWiseStride_of tx = Some e \<Longrightarrow> 1 \<le> e \<Longrightarrow> ews_bound tx (prod_list sh)
      \<Longrightarrow> reduce_tad_linear r (x + b) e (prod_list sh) mem = Some (reduced r (start_at r mem (x + b)) mem (x + b) st sh)"
    and "reduce_tad_general r x tx b (prod_list sh) mem = Some (reduced r (start_at r mem (x + b)) mem (x + b) st sh)"
proof -
  obtain off ex ox where X: "pos_dims sh" "prod_list sh < 2 ^ 31" "length sh \<le> 32" "rank_of tx = Some (int (length sh))"
    "stride_of tx = Some (st @ [off, ex, ox])" "shapeOf tx = sh @ st @ [off, ex, ox]" "order_of tx = Some ox"
    using lay by (rule layoutE) blast
  have el: "rd mem (x + b + inner st idx) = Some (element mem (x + b) st idx)" if "idx \<in> box sh" for idx
    using mem that by (simp add: rd_def element_def)
  have s: "starting r mem (x + b) = Some (start_at r mem (x + b))"
    using mem box_zero [OF X(1), of st] by (intro starting_at) auto
  have d: "dec_of ord sh k \<in> box sh" if "0 \<le> k" "k < prod_list sh" for k ord
    using bij_betwE [OF bij_dec_of [OF X(1), of ord]] that by simp
  let ?s = "start_at r mem (x + b)"
  have fold: "rn_post r (foldl (rn_update r) ?s (concat (map (\<lambda>k. [rn_op r (element mem (x + b) st (dec_of ord sh k))]) [0..prod_list sh - 1]))) (prod_list sh)
      = reduced r ?s mem (x + b) st sh" for ord
    using reduced_any_order [OF C X(1) mset_dec [OF X(1), of ord], of mem "x + b" st] by (simp add: comp_def foldl_singletons)
  show "reduce_tad_linear r (x + b) e (prod_list sh) mem = Some (reduced r ?s mem (x + b) st sh)"
    if e: "elementWiseStride_of tx = Some e" "1 \<le> e" "ews_bound tx (prod_list sh)"
  proof -
    have "do { o' \<leftarrow> i32 (j * e); reduce_step r mem (x + b + o') a }
        = Some (foldl (rn_update r) a [rn_op r (element mem (x + b) st (dec_of ox sh j))])"
      if "j \<in> set [0..prod_list sh - 1]" for j a
    proof -
      have j: "0 \<le> j" "j < prod_list sh" using that by simp_all
      show ?thesis using ews_step [OF lay e(1,2) X(7) e(3) j] el [OF d [OF j, of ox]] by (simp add: reduce_step_def)
    qed
    then have "for_each (\<lambda>j a. do { o' \<leftarrow> i32 (j * e); reduce_step r mem (x + b + o') a }) [0..prod_list sh - 1] ?s
        = Some (foldl (rn_update r) ?s (concat (map (\<lambda>k. [rn_op r (element mem (x + b) st (dec_of ox sh k))]) [0..prod_list sh - 1])))"
      by (rule for_each_foldl)
    then show ?thesis using s fold [of ox] by (simp add: reduce_tad_linear_def)
  qed
  have "do { xCoord \<leftarrow> coords_c (int (length sh)) (sh @ st @ [off, ex, ox]) j;
       xOffset \<leftarrow> getOffset b (sh @ st @ [off, ex, ox]) (st @ [off, ex, ox]) xCoord (int (length sh)); reduce_step r mem (x + xOffset) a }
      = Some (foldl (rn_update r) a [rn_op r (element mem (x + b) st (dec_of 99 sh j))])"
    if "j \<in> set [0..prod_list sh - 1]" for j a
  proof -
    have j: "0 \<le> j" "j < prod_list sh" using that by simp_all
    show ?thesis
      using coords_exact(1) [OF X(1-3) j] layout_offset_base [OF lay j b, where ord = 99] el [OF d [OF j, of 99]]
      by (simp add: reduce_step_def dec_of_def add.assoc)
  qed
  then have "for_each (\<lambda>j a. do { xCoord \<leftarrow> coords_c (int (length sh)) (sh @ st @ [off, ex, ox]) j;
       xOffset \<leftarrow> getOffset b (sh @ st @ [off, ex, ox]) (st @ [off, ex, ox]) xCoord (int (length sh)); reduce_step r mem (x + xOffset) a })
        [0..prod_list sh - 1] ?s
      = Some (foldl (rn_update r) ?s (concat (map (\<lambda>k. [rn_op r (element mem (x + b) st (dec_of 99 sh k))]) [0..prod_list sh - 1])))"
    by (rule for_each_foldl)
  then show "reduce_tad_general r x tx b (prod_list sh) mem = Some (reduced r ?s mem (x + b) st sh)"
    using s fold [of 99] X(4-6) by (simp add: reduce_tad_general_def)
qed



text \<open>
  Results of tensors: a function that reads only the elements of tensor \<open>i\<close> is not affected by the
  results of the other tensors, when these are stored outside.
\<close>

lemma tads_isolated:
  assumes "0 \<le> z" "z + tads \<le> int n" and off: "\<And>i. 0 \<le> i \<Longrightarrow> i < tads \<Longrightarrow> off i \<in> B"
    and out: "\<forall>b \<in> B. \<forall>idx \<in> box sh. 0 \<le> x + b + inner st idx \<and> x + b + inner st idx < int n
      \<and> (\<forall>i. 0 \<le> i \<and> i < tads \<longrightarrow> z + i \<noteq> x + b + inner st idx)"
    and reads: "\<And>i m m'. 0 \<le> i \<Longrightarrow> i < tads \<Longrightarrow> (\<And>idx. idx \<in> box sh \<Longrightarrow> element m (x + off i) st idx = element m' (x + off i) st idx)
      \<Longrightarrow> g i m = g i m'"
  shows "isolated {0..<tads} (\<lambda>i. z + i) g n"
  unfolding isolated_def
proof (intro conjI ballI impI allI)
  show "inj_on (\<lambda>i. z + i) {0..<tads}" "(\<lambda>i. z + i) ` {0..<tads} \<subseteq> {0..<int n}"
    using assms(1,2) by (auto simp: inj_on_def)
  fix i j u and m :: "'a list" assume i: "i \<in> {0..<tads}" "j \<in> {0..<tads}" "i \<noteq> j" and m: "length m = n"
  have "nat (z + i) \<noteq> nat (x + off j + inner st idx)" if "idx \<in> box sh" for idx
    using out off [of j] i that assms(1) by (auto simp: eq_nat_nat_iff)
  then show "g j (m[nat (z + i) := u]) = g j m"
    using i(2) by (intro reads) (auto simp: element_def)
qed

lemma reduced_reads:
  assumes "pos_dims sh" "\<And>idx. idx \<in> box sh \<Longrightarrow> element m p st idx = element m' p st idx"
  shows "reduced r (start_at r m p) m p st sh = reduced r (start_at r m' p) m' p st sh"
proof -
  have "element m p st (dec_c sh k) = element m' p st (dec_c sh k)" if "k \<in> set [0..prod_list sh - 1]" for k
    using bij_betwE [OF bij_dec(2) [OF assms(1)]] that by (intro assms(2)) simp
  then have "map (\<lambda>k. rn_op r (element m p st (dec_c sh k))) [0..prod_list sh - 1]
      = map (\<lambda>k. rn_op r (element m' p st (dec_c sh k))) [0..prod_list sh - 1]"
    by (intro map_cong refl) simp
  moreover have "start_at r m p = start_at r m' p"
    using assms(2) [of "dec_c sh 0"] box_zero [OF assms(1), of st] by (simp add: start_at_def element_def split: start.split)
  ultimately show ?thesis by (simp only: reduced_def)
qed

end
