(* ===== verification/ReduceOps.thy ===== *)
theory ReduceOps
  imports ReduceLoops
begin

text \<open>
  The reductions of \<open>include/ops/ops.h\<close> that combine elements with ring operations, absolute values,
  maxima and minima, over any linearly ordered field: the template parameter \<open>T\<close> with exact
  arithmetic.  Each is an interpretation of \<open>combination\<close>, so the parallel and the sequential form of
  a reduction agree for it.
\<close>

subsection \<open>Code\<close>

definition Sum_reduction :: "'a :: linordered_field reduction" where
  "Sum_reduction = \<lparr>rn_start = Constant 0, rn_op = (\<lambda>d1. d1), rn_merge = (\<lambda>old out. out + old),
     rn_update = (\<lambda>old out. out + old), rn_post = (\<lambda>r n. r)\<rparr>"

definition ASum_reduction :: "'a :: linordered_field reduction" where
  "ASum_reduction = \<lparr>rn_start = Constant 0, rn_op = abs, rn_merge = (\<lambda>old out. \<bar>out\<bar> + \<bar>old\<bar>),
     rn_update = (\<lambda>old out. \<bar>out\<bar> + \<bar>old\<bar>), rn_post = (\<lambda>r n. \<bar>r\<bar>)\<rparr>"

definition Prod_reduction :: "'a :: linordered_field reduction" where
  "Prod_reduction = \<lparr>rn_start = Constant 1, rn_op = (\<lambda>d1. d1), rn_merge = (\<lambda>old out. out * old),
     rn_update = (\<lambda>old out. out * old), rn_post = (\<lambda>r n. r)\<rparr>"

definition Mean_reduction :: "'a :: linordered_field reduction" where
  "Mean_reduction = \<lparr>rn_start = Constant 0, rn_op = (\<lambda>d1. d1), rn_merge = (\<lambda>old out. out + old),
     rn_update = (\<lambda>old out. out + old),
     rn_post = (\<lambda>r n. r / of_int (to_int32 n))\<rparr>"

definition AMean_reduction :: "'a :: linordered_field reduction" where
  "AMean_reduction = \<lparr>rn_start = Constant 0, rn_op = abs, rn_merge = (\<lambda>old out. \<bar>out\<bar> + \<bar>old\<bar>),
     rn_update = (\<lambda>old out. \<bar>out\<bar> + \<bar>old\<bar>),
     rn_post = (\<lambda>r n. \<bar>r\<bar> / of_int (to_int32 n))\<rparr>"

definition Max_reduction :: "'a :: linordered_field reduction" where
  "Max_reduction = \<lparr>rn_start = First, rn_op = (\<lambda>d1. d1), rn_merge = (\<lambda>old out. max old out),
     rn_update = (\<lambda>old out. max out old), rn_post = (\<lambda>r n. r)\<rparr>"

definition AMax_reduction :: "'a :: linordered_field reduction" where
  "AMax_reduction = \<lparr>rn_start = First, rn_op = abs, rn_merge = (\<lambda>old out. max \<bar>old\<bar> \<bar>out\<bar>),
     rn_update = (\<lambda>old out. max \<bar>out\<bar> \<bar>old\<bar>), rn_post = (\<lambda>r n. \<bar>r\<bar>)\<rparr>"

definition AMin_reduction :: "'a :: linordered_field reduction" where
  "AMin_reduction = \<lparr>rn_start = First, rn_op = abs, rn_merge = (\<lambda>old out. min \<bar>old\<bar> \<bar>out\<bar>),
     rn_update = (\<lambda>old out. min \<bar>out\<bar> \<bar>old\<bar>), rn_post = (\<lambda>r n. \<bar>r\<bar>)\<rparr>"

definition Min_reduction :: "'a :: linordered_field reduction" where
  "Min_reduction = \<lparr>rn_start = First, rn_op = (\<lambda>d1. d1), rn_merge = (\<lambda>old out. min old out),
     rn_update = (\<lambda>old out. min out old), rn_post = (\<lambda>r n. r)\<rparr>"

definition Norm1_reduction :: "'a :: linordered_field reduction" where
  "Norm1_reduction = \<lparr>rn_start = Constant 0, rn_op = abs, rn_merge = (\<lambda>old out. out + old),
     rn_update = (\<lambda>old out. out + old), rn_post = (\<lambda>r n. r)\<rparr>"

text \<open>The square root of \<open>Norm2\<close> is a parameter.\<close>

definition Norm2_reduction :: "('a \<Rightarrow> 'a) \<Rightarrow> 'a :: linordered_field reduction" where
  "Norm2_reduction root = \<lparr>rn_start = Constant 0, rn_op = (\<lambda>d1. d1 * d1), rn_merge = (\<lambda>old out. out + old),
     rn_update = (\<lambda>old out. out + old), rn_post = (\<lambda>r n. root r)\<rparr>"

definition NormMax_reduction :: "'a :: linordered_field reduction" where
  "NormMax_reduction = \<lparr>rn_start = Constant 0, rn_op = (\<lambda>d1. d1), rn_merge = (\<lambda>old out. out + old),
     rn_update = (\<lambda>old out. max \<bar>old\<bar> \<bar>out\<bar>),
     rn_post = (\<lambda>r n. max \<bar>r\<bar> \<bar>r\<bar>)\<rparr>"

definition Variance_reduction :: "'a \<Rightarrow> 'a \<Rightarrow> 'a :: linordered_field reduction" where
  "Variance_reduction mean bias = \<lparr>rn_start = Constant 0, rn_op = (\<lambda>d1. (d1 - mean) * (d1 - mean)),
     rn_merge = (\<lambda>old out. old + out),
     rn_update = (\<lambda>old out. old + out),
     rn_post = (\<lambda>r n. (r - bias ^ 2 / of_int (to_int32 n)) / of_int (n - 1))\<rparr>"

definition StandardDeviation_reduction :: "('a \<Rightarrow> 'a) \<Rightarrow> 'a \<Rightarrow> 'a \<Rightarrow> 'a :: linordered_field reduction" where
  "StandardDeviation_reduction root mean bias = \<lparr>rn_start = Constant 0, rn_op = (\<lambda>d1. (d1 - mean) * (d1 - mean)),
     rn_merge = (\<lambda>old out. old + out),
     rn_update = (\<lambda>old out. old + out),
     rn_post = (\<lambda>r n. root (rn_post (Variance_reduction mean bias) r n))\<rparr>"

text \<open>The entropies; power and logarithm are parameters.\<close>

definition ShannonEntropy_reduction :: "('a \<Rightarrow> 'a \<Rightarrow> 'a) \<Rightarrow> ('a \<Rightarrow> 'a) \<Rightarrow> 'a :: linordered_field reduction" where
  "ShannonEntropy_reduction pw lg = \<lparr>rn_start = Constant 0, rn_op = (\<lambda>d1. pw d1 2 * lg (pw d1 2)),
     rn_merge = (\<lambda>old out. out + old), rn_update = (\<lambda>old out. out + old), rn_post = (\<lambda>r n. - r)\<rparr>"

definition LogEntropy_reduction :: "('a \<Rightarrow> 'a \<Rightarrow> 'a) \<Rightarrow> ('a \<Rightarrow> 'a) \<Rightarrow> 'a :: linordered_field reduction" where
  "LogEntropy_reduction pw lg = \<lparr>rn_start = Constant 0, rn_op = (\<lambda>d1. lg (pw d1 2)),
     rn_merge = (\<lambda>old out. out + old), rn_update = (\<lambda>old out. out + old), rn_post = (\<lambda>r n. r)\<rparr>"

definition Entropy_reduction :: "('a \<Rightarrow> 'a) \<Rightarrow> 'a :: linordered_field reduction" where
  "Entropy_reduction lg = \<lparr>rn_start = Constant 0, rn_op = (\<lambda>d1. d1 * lg d1),
     rn_merge = (\<lambda>old out. out + old), rn_update = (\<lambda>old out. out + old), rn_post = (\<lambda>r n. r)\<rparr>"

text \<open>
  \<open>MatchCondition\<close>: the extra parameters are the value to compare with, the tolerance and the mode;
  \<open>isinf\<close> and \<open>isnan\<close> test the element converted to \<open>float\<close>.  An unknown mode gives the element.
\<close>

record 'a condition =
  mc_compare :: 'a
  mc_eps :: 'a
  mc_mode :: int

definition MatchCondition_op :: "('a \<Rightarrow> bool) \<Rightarrow> ('a \<Rightarrow> bool) \<Rightarrow> 'a condition \<Rightarrow> 'a \<Rightarrow> 'a :: linordered_field" where
  "MatchCondition_op isinf isnan p d1 =
     (let compare = mc_compare p; eps = mc_eps p; mode = mc_mode p in
      if mode = 0 then (if \<bar>d1 - compare\<bar> \<le> eps then 1 else 0)
      else if mode = 1 then (if \<bar>d1 - compare\<bar> > eps then 1 else 0)
      else if mode = 2 then (if d1 < compare then 1 else 0)
      else if mode = 3 then (if d1 > compare then 1 else 0)
      else if mode = 4 then (if d1 \<le> compare then 1 else 0)
      else if mode = 5 then (if d1 \<ge> compare then 1 else 0)
      else if mode = 6 then (if \<bar>d1\<bar> < compare then 1 else 0)
      else if mode = 7 then (if \<bar>d1\<bar> > compare then 1 else 0)
      else if mode = 8 then (if isinf d1 then 1 else 0)
      else if mode = 9 then (if isnan d1 then 1 else 0)
      else if mode = 10 then (if d1 = compare then 1 else 0)
      else if mode = 11 then (if d1 \<noteq> compare then 1 else 0)
      else if mode = 12 then (if \<bar>d1\<bar> \<ge> compare then 1 else 0)
      else if mode = 13 then (if \<bar>d1\<bar> \<le> compare then 1 else 0)
      else d1)"

definition MatchCondition_reduction :: "('a \<Rightarrow> bool) \<Rightarrow> ('a \<Rightarrow> bool) \<Rightarrow> 'a condition \<Rightarrow> 'a :: linordered_field reduction" where
  "MatchCondition_reduction isinf isnan p = \<lparr>rn_start = Constant 0, rn_op = MatchCondition_op isinf isnan p,
     rn_merge = (\<lambda>old out. old + out), rn_update = (\<lambda>old out. old + out), rn_post = (\<lambda>r n. r)\<rparr>"

subsection \<open>Combining functions\<close>

lemma abs_max: "\<bar>max \<bar>a\<bar> \<bar>b\<bar>\<bar> = max \<bar>a\<bar> \<bar>b :: 'a :: linordered_field\<bar>"
  by (simp add: max_def)

lemma abs_min: "\<bar>min \<bar>a\<bar> \<bar>b\<bar>\<bar> = min \<bar>a\<bar> \<bar>b :: 'a :: linordered_field\<bar>"
  by (simp add: min_def)

interpretation sum: combination "rn_update Sum_reduction" 0
  by unfold_locales (simp_all add: Sum_reduction_def)

interpretation asum: combination "rn_update ASum_reduction" 0
  by unfold_locales (simp_all add: ASum_reduction_def)

interpretation product: combination "rn_update Prod_reduction" 1
  by unfold_locales (simp_all add: Prod_reduction_def)

interpretation maximum: combination "rn_update Max_reduction" s for s
  by unfold_locales (simp_all add: Max_reduction_def max.assoc max.commute max.left_commute)

interpretation minimum: combination "rn_update Min_reduction" s for s
  by unfold_locales (simp_all add: Min_reduction_def min.assoc min.commute min.left_commute)

interpretation amax: combination "rn_update AMax_reduction" s for s
  by unfold_locales (simp_all add: AMax_reduction_def abs_max max.assoc max.commute max.left_commute)

interpretation amin: combination "rn_update AMin_reduction" s for s
  by unfold_locales (simp_all add: AMin_reduction_def abs_min min.assoc min.commute min.left_commute)

interpretation norm_max: combination "rn_update NormMax_reduction" 0
  by unfold_locales (simp_all add: NormMax_reduction_def abs_max max.assoc max.commute max.left_commute)

interpretation norm1: combination "rn_update Norm1_reduction" 0
  by unfold_locales (simp_all add: Norm1_reduction_def)

interpretation norm2: combination "rn_update (Norm2_reduction root)" 0 for root
  by unfold_locales (simp_all add: Norm2_reduction_def)

interpretation mean: combination "rn_update Mean_reduction" 0
  by unfold_locales (simp_all add: Mean_reduction_def)

interpretation amean: combination "rn_update AMean_reduction" 0
  by unfold_locales (simp_all add: AMean_reduction_def)

interpretation variance: combination "rn_update (Variance_reduction mu bias)" 0 for mu bias
  by unfold_locales (simp_all add: Variance_reduction_def)

interpretation deviation: combination "rn_update (StandardDeviation_reduction root mu bias)" 0 for root mu bias
  by unfold_locales (simp_all add: StandardDeviation_reduction_def)

interpretation shannon: combination "rn_update (ShannonEntropy_reduction pw lg)" 0 for pw lg
  by unfold_locales (simp_all add: ShannonEntropy_reduction_def)

interpretation log_entropy: combination "rn_update (LogEntropy_reduction pw lg)" 0 for pw lg
  by unfold_locales (simp_all add: LogEntropy_reduction_def)

interpretation entropy: combination "rn_update (Entropy_reduction lg)" 0 for lg
  by unfold_locales (simp_all add: Entropy_reduction_def)

interpretation matching: combination "rn_update (MatchCondition_reduction isinf isnan p)" 0 for isinf isnan p
  by unfold_locales (simp_all add: MatchCondition_reduction_def)

text \<open>
  \<open>merge\<close> combines the same as \<open>update\<close>, except for \<open>NormMax\<close>, whose partial maxima it adds.
\<close>

lemma merge_is_update:
  "rn_merge r = rn_update r"
  if "r \<in> {Sum_reduction, ASum_reduction, Prod_reduction, Mean_reduction, AMean_reduction, Max_reduction, AMax_reduction,
    AMin_reduction, Min_reduction, Norm1_reduction, Norm2_reduction root, Variance_reduction mu bias,
    StandardDeviation_reduction root mu bias, ShannonEntropy_reduction pw lg, LogEntropy_reduction pw lg, Entropy_reduction lg,
    MatchCondition_reduction isinf isnan p}"
  using that
  by (auto simp: fun_eq_iff max.commute min.commute Sum_reduction_def ASum_reduction_def Prod_reduction_def Mean_reduction_def
    AMean_reduction_def Max_reduction_def AMax_reduction_def AMin_reduction_def Min_reduction_def Norm1_reduction_def
    Norm2_reduction_def Variance_reduction_def StandardDeviation_reduction_def ShannonEntropy_reduction_def
    LogEntropy_reduction_def Entropy_reduction_def MatchCondition_reduction_def)

lemma NormMax_merge_adds:
  "rn_merge NormMax_reduction 1 (2 :: 'a :: linordered_field) \<noteq> rn_update NormMax_reduction 1 2"
  by (simp add: NormMax_reduction_def)

end
