(* ===== verification/LoopProperties.thy ===== *)
theory LoopProperties
  imports Complex_Main ReduceOps
begin

text \<open>
  The properties of the loops over elements (\<open>include/loops\<close>).  Each is stated for every order in
  which the runtime may execute parallel iterations, and for arrays in one memory that may overlap
  as far as \<open>separate\<close> allows: no two results share a cell, and no result is an operand of another
  element (an array may be overwritten in place).
\<close>

subsection \<open>Element-wise operations\<close>

text \<open>
  C20.  A pairwise operation on three arrays of one shape, of any strides and orders, returns; each
  element of the result is the operation applied to the elements of the operands at the same
  coordinates, and no other cell of the memory changes.
\<close>

theorem pairwise_exec_pointwise:
  assumes "runtime_ok rt" "room rt sh" "layout xi sh sx" "layout yi sh sy" "layout zi sh sz"
    and "separate (box sh) (cell z sz) (cell x sx) (cell y sy) mem"
  shows "\<exists>mem'. pairwise_exec rt op x xi y yi z zi mem = Some mem' \<and> pointwise op (box sh) (cell z sz) (cell x sx) (cell y sy) mem mem'"
  using assms by (rule pairwise_exec_exact)

text \<open>A small environment and arrays for the witnesses: two threads, iterations in reverse order.\<close>

definition sample_runtime :: runtime where
  "sample_runtime = \<lparr>rt_max_threads = 2, rt_element_threshold = 1, rt_tad_threshold = 1, rt_order = rev\<rparr>"

lemma sample_runtime_ok: "runtime_ok sample_runtime" "room sample_runtime [2, 2]"
  by (simp_all add: runtime_ok_def sample_runtime_def room_def)

lemma sample_box: "box [2, 2] = {[0, 0], [0, 1], [1, 0], [1, 1 :: int]}"
proof -
  have "idx \<in> box [2, 2] \<longleftrightarrow> idx \<in> {[0, 0], [0, 1], [1, 0], [1, 1]}" for idx
    by (cases idx; cases "tl idx") (auto simp: box_def)
  then show ?thesis by blast
qed

lemma small_cases: "(0 :: int) \<le> k \<and> k < 4 \<longleftrightarrow> k = 0 \<or> k = 1 \<or> k = 2 \<or> k = 3"
  by auto

lemma sample_layouts: "layout (mk_info [2, 2] [2, 1] 0 1 99) [2, 2] [2, 1]"
  "layout (mk_info [2, 2] [1, 2] 0 1 102) [2, 2] [1, 2]" "layout (mk_info [2, 2] [4, 2] 0 2 99) [2, 2] [4, 2]"
  unfolding layout_def
  by (rule exI, rule exI, rule exI, rule conjI [OF refl], simp add: pos_dims_def dec_of_def small_cases All_less_Suc2 numeral_2_eq_2)+

theorem pairwise_exec_pointwise_witness:
  "\<exists>mem'. pairwise_exec sample_runtime (+) 0 (mk_info [2, 2] [2, 1] 0 1 99) 4 (mk_info [2, 2] [1, 2] 0 1 102) 0 (mk_info [2, 2] [2, 1] 0 1 99)
      [1, 2, 3, 4, 10, 20, 30, 40] = Some mem' \<and> mem' ! 1 = (32 :: int)"
proof -
  let ?m = "[1, 2, 3, 4, 10, 20, 30, 40 :: int]"
  have "separate (box [2, 2]) (cell 0 [2, 1]) (cell 0 [2, 1]) (cell 4 [1, 2]) ?m"
    by (simp add: separate_def sample_box)
  from pairwise_exec_pointwise [OF sample_runtime_ok sample_layouts(1,2,1) this, of "(+)"]
  show ?thesis by (auto simp: pointwise_def sample_box)
qed


text \<open>
  The operation with a scalar adds the offsets of the buffers to the pointers in one of its branches
  only: when both orders are equal, \<open>x\<close> has an element-wise stride and that of the result is 0.
\<close>

definition scalar_shift :: "int list \<Rightarrow> int list \<Rightarrow> int \<times> int" where
  "scalar_shift xi zi = (case (elementWiseStride_of xi, offset_of xi, offset_of zi) of
       (Some ex, Some dx, Some dz) \<Rightarrow>
         if order_of xi = order_of zi \<and> 1 \<le> ex \<and> elementWiseStride_of zi = Some 0 then (dx, dz) else (0, 0)
     | _ \<Rightarrow> (0, 0))"

lemma getOffset_based:
  assumes "layout info sh st" "0 \<le> k" "k < prod_list sh" "0 \<le> base" "base < 2 ^ 31"
  shows "getOffset base (sh @ r) (st @ r') (dec_f sh k) (int (length sh)) = Some (base + inner st (dec_f sh k))"
proof -
  note f = layout_fits [OF assms(1)]
  have box: "in_box sh (dec_f sh k)" using enc_dec_f [OF f(2) assms(2,3)] by auto
  have d: "dot sh st (dec_f sh k) = inner st (dec_f sh k)" by (rule dot_inner [OF box f(1)])
  have "\<bar>inner st (dec_f sh k)\<bar> \<le> int (length sh) * 2 ^ 31" by (rule inner_bound [OF box f(1)]) (use f(4) in simp)
  also have "\<dots> \<le> 32 * 2 ^ 31" using assms(1) by (auto simp: layout_def)
  finally have "base + dot sh st (dec_f sh k) < 2 ^ 63" unfolding d using assms(5) by simp
  from getOffset_exact [OF box f(1,5) assms(4) this] show ?thesis by (simp add: d)
qed

lemma scalar_general_exact:
  assumes "runtime_ok rt" "layout xi sh sx" "layout zi sh sz" "offset_of xi = Some dx" "offset_of zi = Some dz"
    and "0 \<le> dx" "dx < 2 ^ 31" "0 \<le> dz" "dz < 2 ^ 31"
    and "separate (box sh) (cell (z + dz) sz) (cell (x + dx) sx) (cell (x + dx) sx) mem"
  shows "\<exists>mem'. scalar_general rt op x xi z zi s mem = Some mem'
    \<and> pointwise (\<lambda>a b. op a s) (box sh) (cell (z + dz) sz) (cell (x + dx) sx) (cell (x + dx) sx) mem mem'"
proof -
  obtain r0 r1 where X: "rank_of xi = Some (int (length sh))" "stride_of xi = Some (sx @ r1)" "shapeOf xi = sh @ r0"
    "length_of xi = Some (prod_list sh)" "pos_dims sh" "prod_list sh < 2 ^ 31" using assms(2) by (rule layoutE) blast
  obtain r2 r3 where Z: "rank_of zi = Some (int (length sh))" "stride_of zi = Some (sz @ r3)" "shapeOf zi = sh @ r2"
    using assms(3) by (rule layoutE) blast
  let ?body = "\<lambda>i. apply2 (\<lambda>a b. op a s) (cell (z + dz) sz (dec_f sh i)) (cell (x + dx) sx (dec_f sh i)) (cell (x + dx) sx (dec_f sh i))"
  have "scalar_general rt op x xi z zi s mem = parallel_for rt (prod_list sh) ?body mem"
    unfolding scalar_general_def X Z assms(4,5) bind.bind_lunit Let_def
  proof (rule parallel_for_cong [OF assms(1)])
    fix i m assume i: "0 \<le> i" "i < prod_list sh"
    show "do { xIdx \<leftarrow> ind2sub (int (length sh)) (sh @ r0) i;
       resultIdx \<leftarrow> ind2sub (int (length sh)) (sh @ r2) i;
       xOffset2 \<leftarrow> getOffset dx (sh @ r0) (sx @ r1) xIdx (int (length sh));
       resultOffset2 \<leftarrow> getOffset dz (sh @ r2) (sz @ r3) resultIdx (int (length sh));
       apply1 (\<lambda>v. op v s) (z + resultOffset2) (x + xOffset2) m } = ?body i m"
      unfolding ind2sub_exact [OF X(5,6) i] getOffset_based [OF assms(2) i assms(6,7)]
        getOffset_based [OF assms(3) i assms(8,9)] bind.bind_lunit
      by (simp only: apply1_apply2 add.assoc)
  qed
  moreover have "bij_betw (dec_f sh) {0..<prod_list sh} (box sh)" by (rule bij_dec(1) [OF X(5)])
  ultimately show ?thesis using parallel_pointwise [OF assms(1) _ assms(10), of "dec_f sh"] by simp
qed

text \<open>
  C21.  The operations with a scalar and the transforms of one array return on layouts of one shape
  with non-negative strides, and apply the operation to every element, whatever the strides, orders and
  element-wise strides of the two arrays; no other cell changes.  In one branch of the operation with a
  scalar (equal orders, an element-wise stride of \<open>x\<close>, none of the result) the elements are not those
  of all other branches, but lie further by the offsets of the two buffers (\<open>scalar_shift\<close>).
\<close>

theorem unary_loops_pointwise:
  assumes "runtime_ok rt" "room rt sh" "layout xi sh sx" "layout zi sh sz"
    and "scalar_shift xi zi = (dx, dz)" "0 \<le> dx" "dx < 2 ^ 31" "0 \<le> dz" "dz < 2 ^ 31"
  shows "(separate (box sh) (cell (z + dz) sz) (cell (x + dx) sx) (cell (x + dx) sx) mem \<longrightarrow>
      (\<exists>mem'. scalar_transform rt op x xi z zi s mem = Some mem'
        \<and> pointwise (\<lambda>a b. op a s) (box sh) (cell (z + dz) sz) (cell (x + dx) sx) (cell (x + dx) sx) mem mem'))
    \<and> (separate (box sh) (cell z sz) (cell x sx) (cell x sx) mem \<longrightarrow>
      (\<exists>mem'. transform_exec rt None f x xi z zi mem = Some mem'
        \<and> pointwise (\<lambda>a b. f a) (box sh) (cell z sz) (cell x sx) (cell x sx) mem mem'))"
proof (intro conjI impI)
  assume "separate (box sh) (cell z sz) (cell x sx) (cell x sx) mem"
  from unary_exec_exact(2) [OF assms(1-4) this]
  show "\<exists>mem'. transform_exec rt None f x xi z zi mem = Some mem'
        \<and> pointwise (\<lambda>a b. f a) (box sh) (cell z sz) (cell x sx) (cell x sx) mem mem'" .
next
  assume sep: "separate (box sh) (cell (z + dz) sz) (cell (x + dx) sx) (cell (x + dx) sx) mem"
  obtain ex ox px where X: "elementWiseStride_of xi = Some ex" "order_of xi = Some ox" "length_of xi = Some (prod_list sh)"
    "offset_of xi = Some px" using assms(3) by (rule layoutE) blast
  obtain ez oz pz where Z: "elementWiseStride_of zi = Some ez" "order_of zi = Some oz" "offset_of zi = Some pz"
    using assms(4) by (rule layoutE) blast
  show "\<exists>mem'. scalar_transform rt op x xi z zi s mem = Some mem'
        \<and> pointwise (\<lambda>a b. op a s) (box sh) (cell (z + dz) sz) (cell (x + dx) sx) (cell (x + dx) sx) mem mem'"
  proof (cases "ox = oz \<and> 1 \<le> ex \<and> ez = 0")
    case True
    then have d: "dx = px" "dz = pz" using assms(5) X Z by (simp_all add: scalar_shift_def)
    have "scalar_transform rt op x xi z zi s mem = scalar_general rt op x xi z zi s mem"
      using True X Z by (simp add: scalar_transform_def)
    then show ?thesis
      using scalar_general_exact [OF assms(1,3,4) X(4) Z(3) _ _ _ _ sep [unfolded d]] assms(6-9) d by simp
  next
    case False
    then have d: "dx = 0" "dz = 0" using assms(5) X Z by (auto simp: scalar_shift_def split: if_splits)
    note sep' = sep [unfolded d add_0_right]
    show ?thesis
    proof (cases "ez = 0")
      case True
      then have "scalar_transform rt op x xi z zi s mem = raw_apply1 (\<lambda>v. op v s) x xi z zi mem"
        using False X Z by (auto simp: scalar_transform_def)
      then show ?thesis using raw_apply1_exact [OF assms(3,4) sep', of "\<lambda>v. op v s"] by (simp add: d)
    next
      case ne: False
      then have "elementWiseStride_of zi \<noteq> Some 0" using Z by simp
      from unary_exec_exact(1) [OF assms(1-4) sep' this] show ?thesis by (simp only: d add_0_right)
    qed
  qed
qed

text \<open>The branch with offsets: the result lies from cell 4 + 2 on.\<close>

theorem unary_loops_pointwise_witness:
  "\<exists>mem'. scalar_transform sample_runtime (*) 0 (mk_info [2, 2] [2, 1] 0 1 99) 4 (mk_info [2, 2] [2, 1] 2 0 99) 3
      [1, 2, 3, 4, 0, 0, 0, 0, 0, 0] = Some mem' \<and> mem' ! 7 = (6 :: int)"
proof -
  let ?m = "[1, 2, 3, 4, 0, 0, 0, 0, 0, 0 :: int]"
  have s: "separate (box [2, 2]) (cell (4 + 2) [2, 1]) (cell (0 + 0) [2, 1]) (cell (0 + 0) [2, 1]) ?m"
    by (simp add: separate_def sample_box)
  have l: "layout (mk_info [2, 2] [2, 1] 2 0 99) [2, 2] [2, 1]"
    unfolding layout_def
    by (rule exI, rule exI, rule exI, rule conjI [OF refl]) (simp add: pos_dims_def All_less_Suc2 numeral_2_eq_2)
  have "scalar_shift (mk_info [2, 2] [2, 1] 0 1 99) (mk_info [2, 2] [2, 1] 2 0 99) = (0, 2)"
    by (simp add: scalar_shift_def buf_simps order_mk_info)
  from unary_loops_pointwise [OF sample_runtime_ok sample_layouts(1) l this] s obtain mem' where
    "scalar_transform sample_runtime (*) 0 (mk_info [2, 2] [2, 1] 0 1 99) 4 (mk_info [2, 2] [2, 1] 2 0 99) 3 ?m = Some mem'"
    "pointwise (\<lambda>a b. a * 3) (box [2, 2]) (cell (4 + 2) [2, 1]) (cell (0 + 0) [2, 1]) (cell (0 + 0) [2, 1]) ?m mem'" by force
  then show ?thesis by (auto simp: pointwise_def sample_box)
qed

text \<open>
  \<open>scalar_along_dimension\<close> applies to each tensor along the dimensions its own scalar.  It takes
  the distance of elements from the layout of the tensors of the input for the result as well, and
  never reads the layout \<open>tz\<close> of the tensors of the result: the results are at the right places only
  when both layouts have the same element-wise stride.
\<close>

theorem scalar_along_dimension_exact:
  assumes "runtime_ok rt" "elementWiseStride_of tx = Some e" "1 \<le> e"
    and "tadLength xi dims n = Some len" "length_of xi = Some (len * tads)" "0 < len" "len * e < 2 ^ 31"
    and "0 \<le> tads" "tads < 2 ^ 31" "int (length ox) = tads" "int (length oz) = tads" "int (length scalars) = tads"
    and "separate (Sigma {0..<tads} (\<lambda>r. {0..<len})) (\<lambda>(r, f). z + oz ! nat r + f * e)
      (\<lambda>(r, f). x + ox ! nat r + f * e) (\<lambda>(r, f). x + ox ! nat r + f * e) mem"
  shows "\<exists>mem'. scalar_along_dimension rt op x xi z scalars dims n tx ox (Some (tz, oz)) mem = Some mem'
    \<and> gathered (Sigma {0..<tads} (\<lambda>r. {0..<len})) (\<lambda>(r, f). z + oz ! nat r + f * e)
        (\<lambda>(r, f) m. op (m ! nat (x + ox ! nat r + f * e)) (scalars ! nat r)) mem mem'"
proof -
  let ?I = "Sigma {0..<tads} (\<lambda>r. {0..<len})"
  let ?w = "\<lambda>(r, f). z + oz ! nat r + f * e" and ?x = "\<lambda>(r, f). x + ox ! nat r + f * e"
  let ?g = "\<lambda>i m. op (m ! nat (?x i)) (scalars ! nat (fst i))"
  let ?body = "\<lambda>r f mem. do { k \<leftarrow> i32 (f * e); a \<leftarrow> i32 (f * e);
           apply1 (\<lambda>v. op v (scalars ! nat r)) (z + oz ! nat r + k) (x + ox ! nat r + a) mem }"
  have "cdiv (len * tads) len = Some tads" using assms(6,8) by (simp add: cdiv_pos)
  moreover have "to_int32 tads = tads" using assms(8,9) by (intro to_int32_id) auto
  moreover obtain t where "thread_count rt tads (rt_tad_threshold rt) = Some t"
    using thread_count_pos [OF assms(1)] assms(1) unfolding runtime_ok_def by metis
  ultimately have "scalar_along_dimension rt op x xi z scalars dims n tx ox (Some (tz, oz)) mem
      = parallel_for rt tads (\<lambda>r mem. do { offset \<leftarrow> rd ox r; offsetZ \<leftarrow> rd oz r; scalar \<leftarrow> rd scalars r;
         for_each (\<lambda>f mem. do { k \<leftarrow> i32 (f * e); a \<leftarrow> i32 (f * e);
           apply1 (\<lambda>v. op v scalar) (z + offsetZ + k) (x + offset + a) mem }) [0..len - 1] mem }) mem"
    using assms(2-5) by (simp add: scalar_along_dimension_def)
  also have "\<dots> = parallel_for rt tads (\<lambda>r. for_each (?body r) [0..len - 1]) mem"
    unfolding parallel_for_def
  proof (rule for_each_cong [OF refl refl])
    fix r s assume "r \<in> set (rt_order rt [0..tads - 1])"
    then have "0 \<le> r" "r < tads" using ordered(2) [OF assms(1), of "[0..tads - 1]"] by auto
    then have "rd ox r = Some (ox ! nat r)" "rd oz r = Some (oz ! nat r)" "rd scalars r = Some (scalars ! nat r)"
      using assms(10-12) by (simp_all add: rd_def)
    then show "do { offset \<leftarrow> rd ox r; offsetZ \<leftarrow> rd oz r; scalar \<leftarrow> rd scalars r;
         for_each (\<lambda>f mem. do { k \<leftarrow> i32 (f * e); a \<leftarrow> i32 (f * e);
           apply1 (\<lambda>v. op v scalar) (z + offsetZ + k) (x + offset + a) mem }) [0..len - 1] s }
      = for_each (?body r) [0..len - 1] s" by simp
  qed
  finally have e: "scalar_along_dimension rt op x xi z scalars dims n tx ox (Some (tz, oz)) mem
      = parallel_for rt tads (\<lambda>r. for_each (?body r) [0..len - 1]) mem" .
  have iso: "isolated ?I ?w ?g (length mem)"
    using separate_isolated [OF assms(13), of "\<lambda>i a b. op a (scalars ! nat (fst i))"] by simp
  have "?body r f m = Some (m[nat (?w (r, f)) := ?g (r, f) m])"
    if i: "0 \<le> r" "r < tads" "0 \<le> f" "f < len" and m: "length m = length mem" for r f m
  proof -
    have "0 \<le> f * e" "f * e \<le> len * e" using i(3,4) assms(3) by (auto intro: mult_right_mono)
    then have "- (2 ^ 31) \<le> f * e" "f * e < 2 ^ 31" using assms(7) by linarith+
    then have "i32 (f * e) = Some (f * e)" by (rule i32_in_range)
    moreover have "{?w (r, f), ?x (r, f)} \<subseteq> {0..<int (length m)}" using assms(13) i m by (auto simp: separate_def)
    ultimately show ?thesis by (simp add: apply1_def rd_def wr_def)
  qed
  from parallel_nested [OF assms(1) iso this]
  have "\<exists>mem'. parallel_for rt tads (\<lambda>r. for_each (?body r) [0..len - 1]) mem = Some mem' \<and> gathered ?I ?w ?g mem mem'"
    by blast
  moreover have "?g = (\<lambda>(r, f) m. op (m ! nat (x + ox ! nat r + f * e)) (scalars ! nat r))" by (simp add: fun_eq_iff)
  ultimately show ?thesis unfolding e by simp
qed

theorem scalar_along_dimension_exact_witness:
  "\<exists>mem'. scalar_along_dimension sample_runtime (+) 0 (mk_info [2, 2] [2, 1] 0 1 99) 4 [10, 20] [1] 1 (mk_info [1, 2] [1, 1] 0 1 99) [0, 2]
      (Some (mk_info [1, 2] [2, 2] 0 2 99, [0, 2])) [1, 2, 3, 4, 0, 0, 0, 0] = Some mem' \<and> mem' ! 5 = (12 :: int)"
proof -
  let ?m = "[1, 2, 3, 4, 0, 0, 0, 0 :: int]"
  have S: "Sigma {0..<2} (\<lambda>r. {0..<2}) = {(0, 0), (0, 1), (1, 0), (1, 1) :: int \<times> int}" by auto
  have s: "separate (Sigma {0..<2} (\<lambda>r. {0..<2})) (\<lambda>(r, f). 4 + [0, 2] ! nat r + f * 1)
      (\<lambda>(r, f). 0 + [0, 2] ! nat r + f * 1) (\<lambda>(r, f). 0 + [0, 2] ! nat r + f * 1) ?m"
    unfolding S by (simp add: separate_def)
  have "elementWiseStride_of (mk_info [1, 2] [1, 1] 0 1 99) = Some 1" by (simp add: buf_simps)
  moreover have "tadLength (mk_info [2, 2] [2, 1] 0 1 99) [1] 1 = Some 2" by (simp add: tadLength_def mk_info_def shapeOf_def)
  moreover have "length_of (mk_info [2, 2] [2, 1] 0 1 99) = Some (2 * 2)" by (simp add: length_of_mk_info pos_dims_def)
  ultimately show ?thesis
    using scalar_along_dimension_exact [OF sample_runtime_ok(1) _ _ _ _ _ _ _ _ _ _ _ s, of "mk_info [1, 2] [1, 1] 0 1 99"
      "mk_info [2, 2] [2, 1] 0 1 99" "[1]" 1 "[10, 20]" "(+)"]
    by (auto simp: gathered_def S)
qed


subsection \<open>Broadcasts\<close>

text \<open>
  C22.  A broadcast returns, and combines element \<open>f\<close> of every tensor along the dimensions with
  element \<open>f\<close> of the second array.  The elements of the input tensor and of the second array are
  counted in the order of the tensor, those of the result in the order of its own tensors; when these
  orders differ, elements of different coordinates are combined.
\<close>

theorem broadcast_exec_exact:
  assumes "runtime_ok rt" "layout tx sh st" "layout tz sh stz" "layout yi ysh sty" "prod_list ysh = prod_list sh"
    and "order_of tx = Some cx" "order_of yi = Some cx" "order_of tz = Some cz"
    and "ews_bound tx (prod_list sh)" "ews_bound tz (prod_list sh)" "ews_bound yi (prod_list sh)"
    and "tadLength xi dims n = Some (prod_list sh)" "length_of xi = Some (prod_list sh * tads)" "0 \<le> tads" "tads < 2 ^ 31"
    and "int (length ox) = tads" "int (length oz) = tads" "\<forall>b \<in> set ox \<union> set oz. 0 \<le> b \<and> b < 2 ^ 62"
    and "separate (Sigma {0..<tads} (\<lambda>r. {0..<prod_list sh})) (\<lambda>(r, f). z + oz ! nat r + inner stz (dec_of cz sh f))
      (\<lambda>(r, f). x + ox ! nat r + inner st (dec_of cx sh f)) (\<lambda>(r, f). y + inner sty (dec_of cx ysh f)) mem"
  shows "\<exists>mem'. broadcast_exec rt junk op x xi y yi z dims n (Some (tx, ox)) (Some (tz, oz)) mem = Some mem'
    \<and> gathered (Sigma {0..<tads} (\<lambda>r. {0..<prod_list sh})) (\<lambda>(r, f). z + oz ! nat r + inner stz (dec_of cz sh f))
        (\<lambda>(r, f) m. op (m ! nat (x + ox ! nat r + inner st (dec_of cx sh f))) (m ! nat (y + inner sty (dec_of cx ysh f)))) mem mem'"
proof -
  let ?P = "prod_list sh" and ?I = "Sigma {0..<tads} (\<lambda>r. {0..<prod_list sh})"
  let ?z = "\<lambda>(r, f). z + oz ! nat r + inner stz (dec_of cz sh f)"
    and ?x = "\<lambda>(r, f). x + ox ! nat r + inner st (dec_of cx sh f)" and ?y = "\<lambda>(r, f). y + inner sty (dec_of cx ysh f)"
  obtain ex ez ey where e: "elementWiseStride_of tx = Some ex" "elementWiseStride_of tz = Some ez" "elementWiseStride_of yi = Some ey"
    using assms(2-4) by (elim layoutE) blast
  have P: "0 < ?P" using layout_fits(2) [OF assms(2)] by (simp add: pos_dims_def prod_list_pos)
  obtain t where t: "thread_count rt tads (rt_tad_threshold rt) = Some t"
    using thread_count_pos [OF assms(1)] assms(1) unfolding runtime_ok_def by metis
  have q: "cdiv (?P * tads) ?P = Some tads" using P assms(14) by (simp add: cdiv_pos)
  have n: "to_int32 tads = tads" using assms(14,15) by (intro to_int32_id) auto
  let ?body = "\<lambda>r mem. do { offset \<leftarrow> rd ox r; offsetZ \<leftarrow> rd oz r;
       if ex > 0 \<and> ey > 0 \<and> ez > 0 \<and> n = 1
       then for_each (broadcast_axis op (x + offset) ex y ey (z + offsetZ) ez) [0..?P - 1] mem
       else for_each (broadcast_axes op x tx offset y yi z tz offsetZ) [0..?P - 1] mem }"
  have b: "broadcast_exec rt junk op x xi y yi z dims n (Some (tx, ox)) (Some (tz, oz)) mem = parallel_for rt tads ?body mem"
    using e t assms(12,13) by (simp add: broadcast_exec_def q n)
  have "parallel_for rt tads ?body mem = parallel_for rt tads (\<lambda>r. for_each (\<lambda>f. apply2 op (?z (r, f)) (?x (r, f)) (?y (r, f))) [0..?P - 1]) mem"
  proof (rule parallel_for_cong [OF assms(1)])
    fix r m assume r: "0 \<le> r" "r < tads"
    then have o: "rd ox r = Some (ox ! nat r)" "rd oz r = Some (oz ! nat r)" using assms(16,17) by (simp_all add: rd_def)
    have m: "0 \<le> ox ! nat r" "ox ! nat r < 2 ^ 62" "0 \<le> oz ! nat r" "oz ! nat r < 2 ^ 62"
      using r assms(16-18) by auto
    have "broadcast_axis op (x + ox ! nat r) ex y ey (z + oz ! nat r) ez f = apply2 op (?z (r, f)) (?x (r, f)) (?y (r, f))"
      if "0 < ex" "0 < ey" "0 < ez" "f \<in> set [0..?P - 1]" for f
      using broadcast_axis_exact [where op = op, OF assms(2) e(1) _ assms(6,9,4) e(3) _ assms(7) _ assms(3) e(2) _ assms(8,10) _ _ assms(5)] assms(5,11) that
      by simp
    moreover have "broadcast_axes op x tx (ox ! nat r) y yi z tz (oz ! nat r) f = apply2 op (?z (r, f)) (?x (r, f)) (?y (r, f))"
      if "f \<in> set [0..?P - 1]" for f
      using broadcast_axes_exact [where op = op, OF assms(2,6,4,3,8) _ _ assms(5) m] that by simp
    ultimately show "?body r m = for_each (\<lambda>f. apply2 op (?z (r, f)) (?x (r, f)) (?y (r, f))) [0..?P - 1] m"
      using o by (auto intro: for_each_cong)
  qed
  moreover have "(\<lambda>i m. op (m ! nat (?x i)) (m ! nat (?y i)))
      = (\<lambda>(r, f) m. op (m ! nat (x + ox ! nat r + inner st (dec_of cx sh f))) (m ! nat (y + inner sty (dec_of cx ysh f))))"
    by (simp add: fun_eq_iff)
  ultimately show ?thesis
    using parallel_nested_apply2 [OF assms(1,19), of "\<lambda>_. op"] b by simp
qed


lemma sample_row: "layout (mk_info [1, 2] [1, 1] 0 1 99) [1, 2] [1, 1]" "order_of (mk_info [1, 2] [1, 1] 0 1 99) = Some 99"
    "ews_bound (mk_info [1, 2] [1, 1] 0 1 99) (prod_list [1, 2])"
proof -
  have "(0 :: int) \<le> k \<and> k < 2 \<longleftrightarrow> k = 0 \<or> k = 1" for k by auto
  then show "layout (mk_info [1, 2] [1, 1] 0 1 99) [1, 2] [1, 1]"
    unfolding layout_def
    by - (rule exI, rule exI, rule exI, rule conjI [OF refl], simp add: pos_dims_def dec_of_def All_less_Suc2 numeral_2_eq_2)
qed (simp_all add: buf_simps ews_bound_def)

lemma sample_matrix:
  "tadLength (mk_info [2, 2] [2, 1] 0 1 99) [1] 1 = Some (prod_list [1, 2])"
  "length_of (mk_info [2, 2] [2, 1] 0 1 99) = Some (prod_list [1, 2] * 2)"
  "Sigma {0..<2} (\<lambda>r. {0..<prod_list [1, 2]}) = {(0, 0), (0, 1), (1, 0), (1, 1) :: int \<times> int}"
proof -
  show "tadLength (mk_info [2, 2] [2, 1] 0 1 99) [1] 1 = Some (prod_list [1, 2])"
    by (simp add: tadLength_def mk_info_def shapeOf_def)
  show "length_of (mk_info [2, 2] [2, 1] 0 1 99) = Some (prod_list [1, 2] * 2)" by (simp add: length_of_mk_info pos_dims_def)
qed auto

theorem broadcast_exec_exact_witness:
  "\<exists>mem'. broadcast_exec sample_runtime (\<lambda>_. 0) (+) 0 (mk_info [2, 2] [2, 1] 0 1 99) 4 (mk_info [1, 2] [1, 1] 0 1 99) 0 [1] 1
      (Some (mk_info [1, 2] [1, 1] 0 1 99, [0, 2])) (Some (mk_info [1, 2] [1, 1] 0 1 99, [0, 2])) [1, 2, 3, 4, 10, 20] = Some mem'
    \<and> mem' ! 3 = (24 :: int)"
proof -
  let ?m = "[1, 2, 3, 4, 10, 20 :: int]"
  have s: "separate (Sigma {0..<2} (\<lambda>r. {0..<prod_list [1, 2]})) (\<lambda>(r, f). 0 + [0, 2] ! nat r + inner [1, 1] (dec_of 99 [1, 2] f))
      (\<lambda>(r, f). 0 + [0, 2] ! nat r + inner [1, 1] (dec_of 99 [1, 2] f)) (\<lambda>(r, f). 4 + inner [1, 1] (dec_of 99 [1, 2] f)) ?m"
    unfolding sample_matrix(3) by (simp add: separate_def dec_of_def)
  from broadcast_exec_exact [OF sample_runtime_ok(1) sample_row(1,1,1) refl sample_row(2,2,2,3,3,3) sample_matrix(1,2) _ _ _ _ _ s,
      of "\<lambda>_. 0" "(+)"]
  show ?thesis unfolding sample_matrix(3) by (auto simp: gathered_def dec_of_def)
qed


subsection \<open>Reductions\<close>

text \<open>
  C23.  The reduction of a whole array, with its threads, blocks of chunks and the path for small
  arrays, gives the sequential reduction of the elements in row-major order, for every layout, number
  of threads and threshold, when the combining function is associative and commutative and absorbs a
  second starting value.
\<close>

theorem reduce_scalar_sequential:
  assumes "runtime_ok rt" "room rt sh" "layout xi sh sx"
    and "\<forall>idx \<in> box sh. 0 \<le> x + inner sx idx \<and> x + inner sx idx < int (length mem)"
    and "combination (rn_update r) (start_at r mem x)"
  shows "reduce_scalar rt r x xi mem = Some (rn_post r (foldl (rn_update r) (start_at r mem x)
    (map (\<lambda>k. rn_op r (mem ! nat (x + inner sx (dec_c sh k)))) [0..prod_list sh - 1])) (prod_list sh))"
proof -
  have "pos_dims sh" using layout_fits(2) [OF assms(3)] .
  then have "starting r mem x = Some (start_at r mem x)"
    using assms(4) box_zero [of sh sx] by (intro starting_at) auto
  from reduce_scalar_exact [OF assms(1,2,5) this assms(3,4)] show ?thesis by (simp add: reduced_def element_def)
qed

theorem reduce_scalar_sequential_witness:
  "reduce_scalar sample_runtime Sum_reduction 0 (mk_info [2, 2] [2, 1] 0 1 99) [1, 2, 3, 4 :: rat] = Some 10"
proof -
  have "\<forall>idx \<in> box [2, 2]. 0 \<le> 0 + inner [2, 1] idx \<and> 0 + inner [2, 1] idx < int (length [1, 2, 3, 4 :: rat])"
    by (simp add: sample_box)
  moreover have "combination (rn_update Sum_reduction) (start_at Sum_reduction [1, 2, 3, 4 :: rat] 0)"
    using sum.combination_axioms by (simp add: start_at_def Sum_reduction_def)
  moreover have "[0..prod_list [2, 2] - 1] = [0, 1, 2, 3 :: int]" by (simp add: upto_rec1)
  ultimately show ?thesis
    using reduce_scalar_sequential [OF sample_runtime_ok sample_layouts(1), of 0 "[1, 2, 3, 4 :: rat]" Sum_reduction]
    by (simp add: start_at_def Sum_reduction_def)
qed

text \<open>
  C24.  A reduction along dimensions returns and stores in cell \<open>i\<close> of the result the sequential
  reduction of the elements of tensor \<open>i\<close>; no other cell changes.
\<close>

theorem reduce_exec_along_dimensions:
  assumes "runtime_ok rt" "layout tx sh st" "ews_bound tx (prod_list sh)"
    and "length_of ri = Some tads" "2 \<le> tads" "tads < 2 ^ 31" "rank_of xi = Some rank" "rank \<noteq> n"
    and "tadLength xi dims n = Some (prod_list sh)" "length_of xi = Some (prod_list sh * tads)"
    and "isVector_of tx = Some v" "isScalar tx = Some w"
    and "int (length ox) = tads" "\<forall>b \<in> set ox. 0 \<le> b \<and> b < 2 ^ 62"
    and "\<And>a. combination (rn_update r) (case rn_start r of Constant c \<Rightarrow> c | First \<Rightarrow> a)"
    and "\<forall>b \<in> set ox. \<forall>idx \<in> box sh. 0 \<le> x + b + inner st idx \<and> x + b + inner st idx < int (length mem)
      \<and> (\<forall>i. 0 \<le> i \<and> i < tads \<longrightarrow> z + i \<noteq> x + b + inner st idx)"
    and "0 \<le> z" "z + tads \<le> int (length mem)"
  shows "\<exists>mem'. reduce_exec rt junk None r x xi z ri (Some dims) n (Some (tx, ox)) mem = Some mem'
    \<and> gathered {0..<tads} (\<lambda>i. z + i) (\<lambda>i m. reduced r (start_at r m (x + ox ! nat i)) m (x + ox ! nat i) st sh) mem mem'"
proof -
  let ?P = "prod_list sh"
  let ?g = "\<lambda>i m. reduced r (start_at r m (x + ox ! nat i)) m (x + ox ! nat i) st sh"
  obtain e where e: "elementWiseStride_of tx = Some e" using assms(2) by (elim layoutE) blast
  have pos: "pos_dims sh" by (rule layout_fits(2) [OF assms(2)])
  then have P: "0 < ?P" by (simp add: pos_dims_def prod_list_pos)
  obtain t where t: "thread_count rt tads (rt_tad_threshold rt) = Some t"
    using thread_count_pos [OF assms(1)] assms(1) unfolding runtime_ok_def by metis
  have q: "cdiv (?P * tads) ?P = Some tads" "to_int32 tads = tads"
    using P assms(5,6) by (simp_all add: cdiv_pos)
  define linear where "linear \<longleftrightarrow> 0 < e \<and> (tads = 1 \<or> v \<noteq> 0 \<or> w \<noteq> 0)"
  let ?body = "\<lambda>i mem. do { offset \<leftarrow> rd ox i;
     v \<leftarrow> (if linear then reduce_tad_linear r (x + offset) e ?P mem else reduce_tad_general r x tx offset ?P mem);
     wr mem (z + i) v }"
  have b: "reduce_exec rt junk None r x xi z ri (Some dims) n (Some (tx, ox)) mem = parallel_for rt tads ?body mem"
    using e t q assms(4,5,7-12) by (auto simp: reduce_exec_def linear_def)
  have off: "ox ! nat i \<in> set ox" if "0 \<le> i" "i < tads" for i using that assms(13) by auto
  have "isolated {0..<tads} (\<lambda>i. z + i) ?g (length mem)"
    by (rule tads_isolated [where off = "\<lambda>i. ox ! nat i", OF assms(17,18) _ assms(16)]) (blast intro: off reduced_reads [OF pos])+
  from parallel_gather [OF assms(1) this, of ?body] show ?thesis unfolding b
  proof
    fix i and m :: "'a list" assume i: "0 \<le> i" "i < tads" and m: "length m = length mem"
    have o: "0 \<le> ox ! nat i" "ox ! nat i < 2 ^ 62" using off [OF i] assms(14) by auto
    have C: "combination (rn_update r) (start_at r m (x + ox ! nat i))" unfolding start_at_def by (rule assms(15))
    have M: "\<forall>idx \<in> box sh. 0 \<le> x + ox ! nat i + inner st idx \<and> x + ox ! nat i + inner st idx < int (length m)"
      unfolding m using bspec [OF assms(16) off [OF i]] by simp
    note exact = reduce_tad_exact [OF C assms(2) M o]
    have "(if linear then reduce_tad_linear r (x + ox ! nat i) e ?P m else reduce_tad_general r x tx (ox ! nat i) ?P m) = Some (?g i m)"
      using exact(1) [OF e _ assms(3)] exact(2) by (simp add: linear_def)
    then show "?body i m = Some (m[nat (z + i) := ?g i m])"
      using i assms(13,17,18) m by (simp add: rd_def wr_def)
  qed simp
qed


lemma sample_row_box: "box [1, 2] = {[0, 0], [0, 1 :: int]}"
proof -
  have "idx \<in> box [1, 2] \<longleftrightarrow> idx \<in> {[0, 0], [0, 1]}" for idx
    by (cases idx; cases "tl idx") (auto simp: box_def)
  then show ?thesis by blast
qed

theorem reduce_exec_along_dimensions_witness:
  "\<exists>mem'. reduce_exec sample_runtime (\<lambda>_. 0) None Sum_reduction 0 (mk_info [2, 2] [2, 1] 0 1 99) 4 (mk_info [1, 2] [1, 1] 0 1 99) (Some [1]) 1
      (Some (mk_info [1, 2] [1, 1] 0 1 99, [0, 2])) [1, 2, 3, 4, 0, 0] = Some mem' \<and> mem' ! 5 = (7 :: rat)"
proof -
  let ?m = "[1, 2, 3, 4, 0, 0 :: rat]" and ?r = "Sum_reduction :: rat reduction"
  have C: "combination (rn_update ?r) (case rn_start ?r of Constant c \<Rightarrow> c | First \<Rightarrow> a)" for a
    using sum.combination_axioms by (simp add: Sum_reduction_def)
  have M: "\<forall>b \<in> set [0, 2]. \<forall>idx \<in> box [1, 2]. 0 \<le> 0 + b + inner [1, 1] idx \<and> 0 + b + inner [1, 1] idx < int (length ?m)
      \<and> (\<forall>i. 0 \<le> i \<and> i < 2 \<longrightarrow> 4 + i \<noteq> 0 + b + inner [1, 1] idx)"
    by (simp add: sample_row_box)
  have l: "length_of (mk_info [1, 2] [1, 1] 0 1 99) = Some 2" by (simp add: length_of_mk_info pos_dims_def)
  have v: "isVector_of (mk_info [1, 2] [1, 1] 0 1 99) = Some 1" "isScalar (mk_info [1, 2] [1, 1] 0 1 99) = Some 0"
    by (simp_all add: isVector_of_def isVector_def isScalar_def buf_simps)
  from reduce_exec_along_dimensions [OF sample_runtime_ok(1) sample_row(1,3) l _ _ rank_mk_info _ sample_matrix(1,2) v _ _ C M,
      of "\<lambda>_. 0"] obtain mem' where m: "reduce_exec sample_runtime (\<lambda>_. 0) None ?r 0 (mk_info [2, 2] [2, 1] 0 1 99) 4 (mk_info [1, 2] [1, 1] 0 1 99) (Some [1]) 1
      (Some (mk_info [1, 2] [1, 1] 0 1 99, [0, 2])) ?m = Some mem'"
    "gathered {0..<2} (\<lambda>i. 4 + i) (\<lambda>i m. reduced ?r (start_at ?r m (0 + [0, 2] ! nat i)) m (0 + [0, 2] ! nat i) [1, 1] [1, 2]) ?m mem'"
    by auto
  have "mem' ! nat (4 + 1) = reduced ?r (start_at ?r ?m (0 + [0, 2] ! nat 1)) ?m (0 + [0, 2] ! nat 1) [1, 1] [1, 2]"
    using bspec [OF conjunct1 [OF conjunct2 [OF m(2) [unfolded gathered_def]]], of 1] by simp
  moreover have "[0..1] = [0, 1 :: int]" by (simp add: upto_rec1)
  ultimately have "mem' ! 5 = 7" by (simp add: reduced_def element_def start_at_def Sum_reduction_def)
  then show ?thesis using m(1) by blast
qed

end
