(* ===== verification/IndexLoops.thy ===== *)
theory IndexLoops
  imports ReduceLoops
begin

text \<open>
  Reductions to an index on the CPU (\<open>include/loops/indexreduce.h\<close>) and the operations that look for
  the largest or smallest element (\<open>include/ops/ops.h\<close>).  The code returns an index as an element;
  \<open>conv\<close> is that conversion.
\<close>

subsection \<open>Operations\<close>

record 'a IndexValue =
  iv_value :: 'a
  iv_index :: int

record 'a index_reduction =
  ir_start :: "'a IndexValue"
  ir_update :: "'a IndexValue \<Rightarrow> 'a IndexValue \<Rightarrow> 'a IndexValue"
  ir_merge :: "'a IndexValue \<Rightarrow> 'a IndexValue \<Rightarrow> 'a IndexValue"

text \<open>
  \<open>update\<close> as compiled for the CPU (the CUDA build breaks ties towards the smaller index); \<open>merge\<close> has
  no caller on the CPU.  \<open>limit\<close> is \<open>MAX_FLOAT\<close> and \<open>tiny\<close> is \<open>MIN_FLOAT\<close>.\<close>

definition IndexMax :: "'a \<Rightarrow> 'a :: linordered_field index_reduction" where
  "IndexMax limit = \<lparr>ir_start = \<lparr>iv_value = - limit, iv_index = 0\<rparr>,
     ir_update = (\<lambda>old out. if iv_value out > iv_value old then out else old),
     ir_merge = (\<lambda>f1 f2. if iv_value f1 > iv_value f2 then f2 else f1)\<rparr>"

definition IndexMin :: "'a \<Rightarrow> 'a :: linordered_field index_reduction" where
  "IndexMin limit = \<lparr>ir_start = \<lparr>iv_value = limit, iv_index = 0\<rparr>,
     ir_update = (\<lambda>old out. if iv_value out < iv_value old then out else old),
     ir_merge = (\<lambda>f1 f2. if iv_value f1 < iv_value f2 then f2 else f1)\<rparr>"

definition IndexAbsoluteMax :: "'a \<Rightarrow> 'a :: linordered_field index_reduction" where
  "IndexAbsoluteMax tiny = \<lparr>ir_start = \<lparr>iv_value = tiny, iv_index = 0\<rparr>,
     ir_update = (\<lambda>old out.
       let out = out\<lparr>iv_value := \<bar>iv_value out\<bar>\<rparr>; old = old\<lparr>iv_value := \<bar>iv_value old\<bar>\<rparr>
       in if iv_value out > iv_value old then out else old),
     ir_merge = (\<lambda>f1 f2. if \<bar>iv_value f1\<bar> > \<bar>iv_value f2\<bar> then f2 else f1)\<rparr>"

definition IndexAbsoluteMin :: "'a \<Rightarrow> 'a :: linordered_field index_reduction" where
  "IndexAbsoluteMin limit = \<lparr>ir_start = \<lparr>iv_value = limit, iv_index = 0\<rparr>,
     ir_update = (\<lambda>old out.
       let out = out\<lparr>iv_value := \<bar>iv_value out\<bar>\<rparr>; old = old\<lparr>iv_value := \<bar>iv_value old\<bar>\<rparr>
       in if iv_value out < iv_value old then out else old),
     ir_merge = (\<lambda>f1 f2. if \<bar>iv_value f1\<bar> < \<bar>iv_value f2\<bar> then f2 else f1)\<rparr>"

subsection \<open>The whole array\<close>

definition index_step :: "'a index_reduction \<Rightarrow> 'a list \<Rightarrow> int \<Rightarrow> int \<Rightarrow> 'a IndexValue \<Rightarrow> 'a IndexValue option" where
  "index_step r mem p k old = do { v \<leftarrow> rd mem p; Some (ir_update r old \<lparr>iv_value = v, iv_index = k\<rparr>) }"

text \<open>
  One chunk of a thread; \<open>local\<close> is not reset between the chunks.  \<open>thread_local\<close> is its value after
  chunk \<open>i\<close>, when the thread has worked on all its chunks up to \<open>i\<close>.
\<close>

definition index_chunk :: "'a index_reduction \<Rightarrow> int \<Rightarrow> int \<Rightarrow> BlockInformation \<Rightarrow> 'a list \<Rightarrow> int \<Rightarrow> 'a IndexValue \<Rightarrow> 'a IndexValue option" where
  "index_chunk r x len info mem i local = do {
     newOffset \<leftarrow> i64 (i * bi_items info);
     let itemsToLoop = (if newOffset + bi_items info \<ge> len then len - newOffset else bi_items info);
     for_each (\<lambda>j. index_step r mem (x + newOffset + j) (newOffset + j)) [0..itemsToLoop - 1] local }"

definition thread_local :: "'a index_reduction \<Rightarrow> int \<Rightarrow> int \<Rightarrow> BlockInformation \<Rightarrow> 'a list \<Rightarrow> int \<Rightarrow> 'a IndexValue option" where
  "thread_local r x len info mem i =
     for_each (index_chunk r x len info mem)
       (filter (\<lambda>k. k mod bi_threads info = i mod bi_threads info) [0..i]) (ir_start r)"

text \<open>
  The parallel loop.  After each chunk a thread merges its local value into the common one in a
  critical section; \<open>rt_order\<close> gives the order of these sections, one for each chunk.  (A chunk that
  starts behind the end makes its thread leave the loop.)
\<close>

definition index_parallel :: "runtime \<Rightarrow> 'a index_reduction \<Rightarrow> int \<Rightarrow> int \<Rightarrow> 'a list \<Rightarrow> 'a IndexValue option" where
  "index_parallel rt r x len mem = do {
     info \<leftarrow> BlockInformation_new (rt_max_threads rt) len (rt_element_threshold rt);
     for_each (\<lambda>i startingIndex. do {
       local \<leftarrow> thread_local r x len info mem i; Some (ir_update r startingIndex local) })
       (rt_order rt (filter (\<lambda>i. i * bi_items info < len) [0..bi_chunks info - 1])) (ir_start r) }"

definition index_search :: "runtime \<Rightarrow> 'a index_reduction \<Rightarrow> int \<Rightarrow> int list \<Rightarrow> 'a list \<Rightarrow> int option" where
  "index_search rt r x xShapeInfo mem = do {
     len \<leftarrow> length_of xShapeInfo;
     ews \<leftarrow> elementWiseStride_of xShapeInfo;
     res \<leftarrow> (if ews < 1 then do {
         xStride \<leftarrow> stride_of xShapeInfo;
         rank \<leftarrow> rank_of xShapeInfo;
         for_each (\<lambda>i old. do {
           xCoord \<leftarrow> coords_c rank (shapeOf xShapeInfo) i;
           xOffset \<leftarrow> getOffset 0 (shapeOf xShapeInfo) xStride xCoord rank;
           index_step r mem (x + xOffset) i old }) [0..len - 1] (ir_start r) }
       else if ews = 1 \<and> len \<ge> rt_element_threshold rt then index_parallel rt r x len mem
       else for_each (\<lambda>i old. do { o' \<leftarrow> i64 (i * ews); index_step r mem (x + o') i old }) [0..len - 1] (ir_start r));
     Some (iv_index res) }"

text \<open>\<open>execScalar\<close> returns the index as an element: \<open>conv\<close> converts it.\<close>

definition index_scalar :: "runtime \<Rightarrow> (int \<Rightarrow> 'a) \<Rightarrow> 'a index_reduction \<Rightarrow> int \<Rightarrow> int list \<Rightarrow> 'a list \<Rightarrow> 'a option" where
  "index_scalar rt conv r x xShapeInfo mem = do { i \<leftarrow> index_search rt r x xShapeInfo mem; Some (conv i) }"

subsection \<open>Along dimensions\<close>

definition index_tad_general :: "'a index_reduction \<Rightarrow> int \<Rightarrow> int list \<Rightarrow> int \<Rightarrow> int \<Rightarrow> 'a list \<Rightarrow> int option" where
  "index_tad_general r x tadInfo offset tadLen mem = do {
     tadStride \<leftarrow> stride_of tadInfo; rank \<leftarrow> rank_of tadInfo;
     res \<leftarrow> for_each (\<lambda>j old. do {
       xCoord \<leftarrow> coords_c rank (shapeOf tadInfo) j;
       xOffset \<leftarrow> getOffset offset (shapeOf tadInfo) tadStride xCoord rank;
       index_step r mem (x + xOffset) j old }) [0..tadLen - 1] (ir_start r);
     Some (iv_index res) }"

definition index_tad_linear :: "'a index_reduction \<Rightarrow> int \<Rightarrow> int \<Rightarrow> int \<Rightarrow> int \<Rightarrow> 'a list \<Rightarrow> int option" where
  "index_tad_linear r x baseOffset tadEWS tadLen mem = do {
     res \<leftarrow> for_each (\<lambda>j old. do {
       p \<leftarrow> i32 (tadEWS * j); o' \<leftarrow> i64 (baseOffset + p); index_step r mem (x + o') j old }) [0..tadLen - 1] (ir_start r);
     Some (iv_index res) }"

definition index_exec ::
  "runtime \<Rightarrow> (nat \<Rightarrow> int) \<Rightarrow> (int \<Rightarrow> 'a) \<Rightarrow> 'a index_reduction \<Rightarrow> int \<Rightarrow> int list \<Rightarrow> int \<Rightarrow> int list
    \<Rightarrow> int list \<Rightarrow> int \<Rightarrow> (int list \<times> int list) option \<Rightarrow> 'a list \<Rightarrow> 'a list option" where
  "index_exec rt junk conv r x xShapeInfo result resultShapeInfo dimension dimensionLength tadX mem = do {
     scalar \<leftarrow> isScalar resultShapeInfo;
     if scalar \<noteq> 0 then do { v \<leftarrow> index_scalar rt conv r x xShapeInfo mem; wr mem result v }
     else do {
       resultLength \<leftarrow> length_of resultShapeInfo;
       (tadInfo, tadOffsets, n) \<leftarrow> (case tadX of Some (info, offsets) \<Rightarrow> Some (info, offsets, 1)
          | None \<Rightarrow> own_tads junk xShapeInfo dimension dimensionLength);
       if n < 1 then Some mem
       else do {
         tadLen \<leftarrow> tadLength xShapeInfo dimension dimensionLength;
         len \<leftarrow> length_of xShapeInfo;
         numTads \<leftarrow> cdiv len tadLen;
         tadEWS \<leftarrow> elementWiseStride_of tadInfo;
         linear \<leftarrow> (if tadEWS > 0 then
             (if to_int32 numTads = 1 then Some True
              else do { v \<leftarrow> isVector_of tadInfo;
                if v \<noteq> 0 then Some True else do { s \<leftarrow> isScalar tadInfo; Some (s \<noteq> 0) } })
           else Some False);
         parallel_for rt resultLength (\<lambda>i mem. do {
           offset \<leftarrow> rd tadOffsets i;
           k \<leftarrow> (if linear then index_tad_linear r x offset tadEWS tadLen mem
                 else index_tad_general r x tadInfo offset tadLen mem);
           wr mem (result + i) (conv k) }) mem } } }"


subsection \<open>Selecting functions\<close>

text \<open>
  What a reduction to an index asks of its combining function: it keeps the larger key, together with
  the tag of a value that has it.  On a tie either tag may be kept.
\<close>

locale selection =
  fixes update :: "'v \<Rightarrow> 'v \<Rightarrow> 'v" and key :: "'v \<Rightarrow> 'k :: linorder" and tag :: "'v \<Rightarrow> int"
  assumes key: "key (update a b) = max (key a) (key b)"
    and picks: "(key (update a b), tag (update a b)) \<in> {(key a, tag a), (key b, tag b)}"
begin

definition represents :: "'v set \<Rightarrow> 'v set \<Rightarrow> 'v \<Rightarrow> bool" where
  "represents L S r \<longleftrightarrow> (\<forall>v \<in> L. key v \<le> key r) \<and> (\<exists>v \<in> S. key v = key r \<and> tag v = tag r)"

lemma represents_self: "v \<in> S \<Longrightarrow> represents {v} S v"
  by (auto simp: represents_def)

lemma represents_update: "represents L S a \<Longrightarrow> represents M S b \<Longrightarrow> represents (L \<union> M) S (update a b)"
  using picks [of a b] by (auto simp: represents_def key max_def split: if_splits intro: order_trans)

lemma represents_fold:
  assumes "represents L S s" "\<And>i. i \<in> set is \<Longrightarrow> represents (M i) S (f i)"
  shows "represents (L \<union> (\<Union>i \<in> set is. M i)) S (foldl update s (map f is))"
  using assms
proof (induction "is" arbitrary: s L)
  case (Cons i "is")
  have "represents (L \<union> M i) S (update s (f i))" using Cons.prems by (intro represents_update) simp_all
  from Cons.IH [OF this] Cons.prems(2) have
    "represents ((L \<union> M i) \<union> (\<Union>i \<in> set is. M i)) S (foldl update (update s (f i)) (map f is))" by simp
  then show ?case by (simp add: Un_assoc)
qed simp

lemma represents_elements:
  assumes "s \<in> S" "f ` set is \<subseteq> S"
  shows "represents ({s} \<union> f ` set is) S (foldl update s (map f is))"
proof -
  have "represents ({s} \<union> (\<Union>i \<in> set is. {f i})) S (foldl update s (map f is))"
    by (rule represents_fold) (use assms in \<open>auto intro!: represents_self\<close>)
  then show ?thesis by (simp add: UNION_singleton_eq_range)
qed

lemma represents_less: "represents L S r \<Longrightarrow> M \<subseteq> L \<Longrightarrow> represents M S r"
  by (auto simp: represents_def)

end

text \<open>When a tie keeps the first operand, a start that nothing beats is kept.\<close>

locale strict_selection = selection +
  assumes keeps: "key b \<le> key a \<Longrightarrow> tag (update a b) = tag a"
begin

lemma unbeaten_fold:
  "\<forall>v \<in> set vs. key v \<le> key s \<Longrightarrow> key (foldl update s vs) = key s \<and> tag (foldl update s vs) = tag s"
proof (induction vs arbitrary: s)
  case (Cons v vs)
  then have "key (update s v) = key s" "tag (update s v) = tag s" by (simp_all add: key keeps)
  with Cons.IH [of "update s v"] Cons.prems show ?case by simp
qed simp

end

interpretation largest: strict_selection "ir_update (IndexMax limit)" iv_value iv_index for limit
  by unfold_locales (auto simp: IndexMax_def max_def)

interpretation smallest: strict_selection "ir_update (IndexMin limit)" "\<lambda>v. - iv_value v" iv_index for limit
  by unfold_locales (auto simp: IndexMin_def max_def)

interpretation largest_abs: strict_selection "ir_update (IndexAbsoluteMax tiny)" "\<lambda>v. \<bar>iv_value v\<bar>" iv_index for tiny
  by unfold_locales (auto simp: IndexAbsoluteMax_def max_def)

interpretation smallest_abs: strict_selection "ir_update (IndexAbsoluteMin limit)" "\<lambda>v. - \<bar>iv_value v\<bar>" iv_index for limit
  by unfold_locales (auto simp: IndexAbsoluteMin_def max_def)

subsection \<open>Correctness\<close>

definition indexed :: "(int \<Rightarrow> 'a) \<Rightarrow> int \<Rightarrow> 'a IndexValue" where
  "indexed elem k = \<lparr>iv_value = elem k, iv_index = k\<rparr>"

text \<open>A result of a search: its index is in the range, and no element has a larger key.\<close>

definition found :: "('a IndexValue \<Rightarrow> 'k :: linorder) \<Rightarrow> (int \<Rightarrow> 'a) \<Rightarrow> int \<Rightarrow> int \<Rightarrow> bool" where
  "found key elem len i \<longleftrightarrow> 0 \<le> i \<and> i < len \<and> (\<forall>k. 0 \<le> k \<and> k < len \<longrightarrow> key (indexed elem k) \<le> key (indexed elem i))"

text \<open>The starting value does not hide the elements: one of them is better, or it is no better than the first.\<close>

definition beaten :: "('a IndexValue \<Rightarrow> 'k :: linorder) \<Rightarrow> 'a IndexValue \<Rightarrow> (int \<Rightarrow> 'a) \<Rightarrow> int \<Rightarrow> bool" where
  "beaten key s elem len \<longleftrightarrow> key s \<le> key (indexed elem 0) \<or> (\<exists>k. 0 \<le> k \<and> k < len \<and> key s < key (indexed elem k))"

lemma represents_found:
  assumes "selection update key iv_index" "0 < len" "iv_index s = 0" "beaten key s elem len"
    and "selection.represents key iv_index (indexed elem ` {0..<len}) (insert s (indexed elem ` {0..<len})) r"
  shows "found key elem len (iv_index r)"
proof -
  from assms(5) have L: "\<forall>k. 0 \<le> k \<and> k < len \<longrightarrow> key (indexed elem k) \<le> key r"
    and ex: "\<exists>v \<in> insert s (indexed elem ` {0..<len}). key v = key r \<and> iv_index v = iv_index r"
    by (simp_all add: selection.represents_def [OF assms(1)])
  from ex obtain v where "v \<in> insert s (indexed elem ` {0..<len})" and kv: "key v = key r" "iv_index v = iv_index r"
    by (elim bexE conjE)
  then have v: "v = s \<or> (\<exists>k. 0 \<le> k \<and> k < len \<and> v = indexed elem k)" by auto
  from v show ?thesis
  proof
    assume "v = s"
    then have "iv_index r = 0" "key r = key s" using kv assms(3) by simp_all
    moreover from this L assms(4) have "key r \<le> key (indexed elem 0)" by (auto simp: beaten_def not_le [symmetric])
    ultimately show ?thesis using L assms(2) by (auto simp: found_def intro: order_trans)
  next
    assume "\<exists>k. 0 \<le> k \<and> k < len \<and> v = indexed elem k"
    then obtain k where k: "0 \<le> k" "k < len" "v = indexed elem k" by blast
    then have "iv_index r = k" using kv(2) by (simp add: indexed_def)
    then show ?thesis using L k kv(1) by (simp add: found_def)
  qed
qed

lemma thread_local_exact:
  assumes info: "0 < bi_items info" and i: "0 \<le> i" "i * bi_items info < len" and len: "len < 2 ^ 31"
    and elem: "\<And>k. 0 \<le> k \<Longrightarrow> k < len \<Longrightarrow> rd mem (x + k) = Some (elem k)"
  shows "thread_local r x len info mem i = Some (foldl (ir_update r) (ir_start r)
    (map (indexed elem) (concat (map (chunk_elements (bi_items info) len)
      (filter (\<lambda>k. k mod bi_threads info = i mod bi_threads info) [0..i])))))"
proof -
  let ?N = "bi_items info" and ?ks = "filter (\<lambda>k. k mod bi_threads info = i mod bi_threads info) [0..i]"
  have "index_chunk r x len info mem k a = Some (foldl (ir_update r) a (map (indexed elem) (chunk_elements ?N len k)))"
    if "k \<in> set ?ks" for k a
  proof -
    have k: "0 \<le> k" "k \<le> i" using that by auto
    then have "k * ?N \<le> i * ?N" using info by (intro mult_right_mono) auto
    from order.strict_trans1 [OF this i(2)] have b: "0 \<le> k * ?N" "k * ?N < len" using info k(1) by simp_all
    then have n: "i64 (k * ?N) = Some (k * ?N)" using len by (simp add: i64_def)
    have e: "(if k * ?N + ?N \<ge> len then len - k * ?N else ?N) = min ?N (len - k * ?N)" by auto
    have "index_step r mem (x + k * ?N + j) (k * ?N + j) old = Some (foldl (ir_update r) old [indexed elem (k * ?N + j)])"
      if "j \<in> set [0..min ?N (len - k * ?N) - 1]" for j old
      using elem [of "k * ?N + j"] that b by (simp add: index_step_def indexed_def add.assoc)
    then have "for_each (\<lambda>j. index_step r mem (x + k * ?N + j) (k * ?N + j)) [0..min ?N (len - k * ?N) - 1] a
        = Some (foldl (ir_update r) a (concat (map (\<lambda>j. [indexed elem (k * ?N + j)]) [0..min ?N (len - k * ?N) - 1])))"
      by (rule for_each_foldl)
    then show ?thesis by (simp only: index_chunk_def n e Let_def bind.simps foldl_singletons chunk_elements_def map_map comp_def)
  qed
  then have "for_each (index_chunk r x len info mem) ?ks (ir_start r)
      = Some (foldl (ir_update r) (ir_start r) (concat (map (\<lambda>k. map (indexed elem) (chunk_elements ?N len k)) ?ks)))"
    by (rule for_each_foldl)
  then show ?thesis by (simp add: thread_local_def map_concat comp_def)
qed

text \<open>
  The ways in which a search may combine the elements: the threads fold lists \<open>Ks\<close> of indexes, which
  cover the array, and merge their results; or there is one sequential fold.
\<close>

definition searched :: "'a index_reduction \<Rightarrow> (int \<Rightarrow> 'a) \<Rightarrow> int \<Rightarrow> 'a IndexValue \<Rightarrow> bool" where
  "searched r elem len v \<longleftrightarrow> v = foldl (ir_update r) (ir_start r) (map (indexed elem) [0..len - 1])
     \<or> (\<exists>Ks. (\<Union>es \<in> set Ks. set es) = {0..<len}
         \<and> v = foldl (ir_update r) (ir_start r) (map (\<lambda>es. foldl (ir_update r) (ir_start r) (map (indexed elem) es)) Ks))"

lemma index_sequential:
  assumes "\<And>k old. 0 \<le> k \<Longrightarrow> k < len \<Longrightarrow> body k old = Some (ir_update r old (indexed elem k))"
  shows "for_each body [0..len - 1] (ir_start r) = Some (foldl (ir_update r) (ir_start r) (map (indexed elem) [0..len - 1]))"
proof -
  have "for_each body [0..len - 1] (ir_start r) = Some (foldl (ir_update r) (ir_start r) (concat (map (\<lambda>k. [indexed elem k]) [0..len - 1])))"
    by (rule for_each_foldl) (use assms in simp)
  then show ?thesis by (simp add: foldl_singletons)
qed

lemma index_parallel_searches:
  assumes ok: "runtime_ok rt" and len: "0 < len" "len < 2 ^ 31"
    and elem: "\<And>k. 0 \<le> k \<Longrightarrow> k < len \<Longrightarrow> rd mem (x + k) = Some (elem k)"
  shows "\<exists>v. index_parallel rt r x len mem = Some v \<and> searched r elem len v"
proof -
  have "0 < rt_max_threads rt" "0 < rt_element_threshold rt" using ok by (simp_all add: runtime_ok_def)
  then obtain info where info: "BlockInformation_new (rt_max_threads rt) len (rt_element_threshold rt) = Some info"
    "0 < bi_items info" "len \<le> bi_chunks info * bi_items info"
    using work_is_covered [OF len] by blast
  let ?N = "bi_items info" and ?start = "ir_start r"
  let ?is = "filter (\<lambda>i. i * ?N < len) [0..bi_chunks info - 1]"
  have d: "distinct ?is" by simp
  have set: "set (rt_order rt ?is) = {i. 0 \<le> i \<and> i < bi_chunks info \<and> i * ?N < len}"
    using ordered(2) [OF ok d] by auto
  let ?ks = "\<lambda>i. filter (\<lambda>k. k mod bi_threads info = i mod bi_threads info) [0..i]"
  let ?es = "\<lambda>i. concat (map (chunk_elements ?N len) (?ks i))"
  let ?f = "\<lambda>es. foldl (ir_update r) ?start (map (indexed elem) es)"
  let ?Ks = "map ?es (rt_order rt ?is)"
  have "for_each (\<lambda>i a. do { local \<leftarrow> thread_local r x len info mem i; Some (ir_update r a local) }) (rt_order rt ?is) ?start
      = Some (foldl (ir_update r) ?start (concat (map (\<lambda>i. [?f (?es i)]) (rt_order rt ?is))))"
  proof (rule for_each_foldl)
    fix i a assume "i \<in> set (rt_order rt ?is)"
    then have "thread_local r x len info mem i = Some (?f (?es i))"
      unfolding set using thread_local_exact [OF info(2) _ _ len(2) elem] by simp
    then show "do { local \<leftarrow> thread_local r x len info mem i; Some (ir_update r a local) }
        = Some (foldl (ir_update r) a [?f (?es i)])" by simp
  qed
  then have run: "index_parallel rt r x len mem = Some (foldl (ir_update r) ?start (map ?f ?Ks))"
    by (simp add: index_parallel_def info(1) foldl_singletons comp_def)
  note ce = chunk_elements_set(2) [OF info(2)]
  have "(\<Union>es \<in> set ?Ks. set es) = {0..<len}"
  proof (intro set_eqI iffI)
    fix k assume "k \<in> (\<Union>es \<in> set ?Ks. set es)"
    then show "k \<in> {0..<len}" using ce by auto
  next
    fix k assume k: "k \<in> {0..<len}"
    let ?i = "k div ?N"
    have i0: "0 \<le> ?i" using k info(2) by (simp add: pos_imp_zdiv_nonneg_iff)
    have "k < bi_chunks info * ?N" using k info(3) by simp
    then have "?i < bi_chunks info" using info(2) by (simp add: div_less_factor mult.commute)
    moreover have "?i * ?N \<le> k" using info(2) by (metis div_mult_mod_eq le_add_same_cancel1 pos_mod_sign)
    ultimately have "?es ?i \<in> set ?Ks" using k i0 unfolding set_map set by (intro imageI) simp
    moreover have "k \<in> set (?es ?i)" using ce [OF i0, of len] k i0 by auto
    ultimately show "k \<in> (\<Union>es \<in> set ?Ks. set es)" by blast
  qed
  then show ?thesis using run unfolding searched_def by blast
qed

text \<open>A search with a selecting function finds, however the work is divided.\<close>

lemma searched_found:
  assumes sel: "selection (ir_update r) key iv_index" and len: "0 < len"
    and s: "iv_index (ir_start r) = 0" "beaten key (ir_start r) elem len" and v: "searched r elem len v"
  shows "found key elem len (iv_index v)"
proof (rule represents_found [OF sel len s])
  let ?E = "indexed elem ` {0..<len}" and ?s = "ir_start r"
  let ?S = "insert ?s ?E" and ?f = "\<lambda>es. foldl (ir_update r) ?s (map (indexed elem) es)"
  have part: "selection.represents key iv_index ({?s} \<union> indexed elem ` set es) ?S (?f es)" if "set es \<subseteq> {0..<len}" for es
    by (rule selection.represents_elements [OF sel]) (use that in auto)
  from v consider "v = ?f [0..len - 1]"
    | Ks where "(\<Union>es \<in> set Ks. set es) = {0..<len}" "v = foldl (ir_update r) ?s (map ?f Ks)"
    unfolding searched_def by blast
  then show "selection.represents key iv_index ?E ?S v"
  proof cases
    case 1
    have "selection.represents key iv_index ({?s} \<union> ?E) ?S v"
      using part [of "[0..len - 1]"] unfolding upto_set 1 by simp
    then show ?thesis by (rule selection.represents_less [OF sel]) (rule Un_upper2)
  next
    case (2 Ks)
    have "selection.represents key iv_index ({?s} \<union> (\<Union>es \<in> set Ks. indexed elem ` set es)) ?S v"
      unfolding 2(2)
    proof (rule selection.represents_fold [OF sel])
      show "selection.represents key iv_index {?s} ?S ?s" by (rule selection.represents_self [OF sel]) simp
      fix es assume "es \<in> set Ks"
      then have "set es \<subseteq> {0..<len}" using 2(1) by blast
      from part [OF this] show "selection.represents key iv_index (indexed elem ` set es) ?S (?f es)"
        by (rule selection.represents_less [OF sel]) (rule Un_upper2)
    qed
    then show ?thesis by (rule selection.represents_less [OF sel]) (use 2(1) in blast)
  qed
qed


text \<open>
  What a search answers: the index of an element with the largest key, or, when no element is better
  than the starting value and the first one is worse, the index 0 of the starting value.
\<close>

definition search_result :: "('a IndexValue \<Rightarrow> 'k :: linorder) \<Rightarrow> 'a IndexValue \<Rightarrow> (int \<Rightarrow> 'a) \<Rightarrow> int \<Rightarrow> int \<Rightarrow> bool" where
  "search_result key s elem len i \<longleftrightarrow> (if beaten key s elem len then found key elem len i else i = 0)"

lemma searched_result:
  assumes sel: "strict_selection (ir_update r) key iv_index" and len: "0 < len"
    and s: "iv_index (ir_start r) = 0" and v: "searched r elem len v"
  shows "search_result key (ir_start r) elem len (iv_index v)"
proof (cases "beaten key (ir_start r) elem len")
  case True
  have "selection (ir_update r) key iv_index" using sel by (simp add: strict_selection_def)
  from searched_found [OF this len s True v] True show ?thesis by (simp add: search_result_def)
next
  case False
  let ?s = "ir_start r" and ?f = "\<lambda>es. foldl (ir_update r) (ir_start r) (map (indexed elem) es)"
  have worse: "key (indexed elem k) \<le> key ?s" if "k \<in> {0..<len}" for k
    using False that by (auto simp: beaten_def not_less)
  note fold = strict_selection.unbeaten_fold [OF sel]
  have part: "key (?f es) = key ?s \<and> iv_index (?f es) = 0" if "set es \<subseteq> {0..<len}" for es
    using fold [of "map (indexed elem) es" ?s] worse that s by fastforce
  from v consider "v = ?f [0..len - 1]"
    | Ks where "(\<Union>es \<in> set Ks. set es) = {0..<len}" "v = foldl (ir_update r) ?s (map ?f Ks)"
    unfolding searched_def by blast
  then have "iv_index v = 0"
  proof cases
    case 1
    have "set [0..len - 1] \<subseteq> {0..<len}" by auto
    then show ?thesis using part 1 by blast
  next
    case (2 Ks)
    have "key (?f es) = key ?s" if "es \<in> set Ks" for es
      by (rule conjunct1 [OF part]) (use that 2(1) in blast)
    then have "\<forall>v \<in> set (map ?f Ks). key v \<le> key ?s" by simp
    from fold [OF this] show ?thesis using 2(2) s by simp
  qed
  with False show ?thesis by (simp add: search_result_def)
qed


subsection \<open>The whole array and the tensors\<close>

text \<open>
  The order in which a reduction to an index counts elements: the order of the buffer when the array
  has an element-wise stride, row-major otherwise.
\<close>

definition counting :: "int \<Rightarrow> int \<Rightarrow> int list \<Rightarrow> int \<Rightarrow> int list" where
  "counting ews ord sh k = dec_of (if 1 \<le> ews then ord else 99) sh k"

lemma index_search_searches:
  assumes ok: "runtime_ok rt"
    and lay: "layout xi sh sx" "elementWiseStride_of xi = Some ews" "order_of xi = Some ord"
    and mem: "\<forall>idx \<in> box sh. 0 \<le> x + inner sx idx \<and> x + inner sx idx < int (length mem)"
  shows "\<exists>v. index_search rt r x xi mem = Some (iv_index v) \<and> searched r (\<lambda>k. element mem x sx (counting ews ord sh k)) (prod_list sh) v"
proof -
  obtain off ex ox where X: "pos_dims sh" "prod_list sh < 2 ^ 31" "ex < 2 ^ 31" "length sx = length sh" "length sh \<le> 32"
    "\<And>k. 1 \<le> ex \<Longrightarrow> 0 \<le> k \<Longrightarrow> k < prod_list sh \<Longrightarrow> inner sx (dec_of ox sh k) = k * ex"
    "rank_of xi = Some (int (length sh))" "stride_of xi = Some (sx @ [off, ex, ox])" "shapeOf xi = sh @ sx @ [off, ex, ox]"
    "elementWiseStride_of xi = Some ex" "length_of xi = Some (prod_list sh)" "order_of xi = Some ox"
    using lay(1) by (rule layoutE) blast
  have e: "ex = ews" "ox = ord" using X(10,12) lay(2,3) by simp_all
  let ?elem = "\<lambda>k. element mem x sx (counting ews ord sh k)"
  have P: "0 < prod_list sh" using X(1) by (simp add: pos_dims_def prod_list_pos)
  have el: "rd mem (x + inner sx (counting ews ord sh k)) = Some (?elem k)" if "0 \<le> k" "k < prod_list sh" for k
  proof -
    have "counting ews ord sh k \<in> box sh"
      using bij_betwE [OF bij_dec_of [OF X(1)]] that by (simp add: counting_def)
    then show ?thesis using mem by (simp add: rd_def element_def)
  qed
  show ?thesis
  proof (cases "1 \<le> ews")
    case False
    have "do { xCoord \<leftarrow> coords_c (int (length sh)) (sh @ sx @ [off, ex, ox]) k;
           xOffset \<leftarrow> getOffset 0 (sh @ sx @ [off, ex, ox]) (sx @ [off, ex, ox]) xCoord (int (length sh));
           index_step r mem (x + xOffset) k old } = Some (ir_update r old (indexed ?elem k))" if k: "0 \<le> k" "k < prod_list sh" for k old
      using coords_exact(1) [OF X(1,2,5) k] layout_offset_base [OF lay(1) k order_refl, where ord = 99] el [OF k] False
      by (simp add: index_step_def indexed_def counting_def dec_of_def)
    from index_sequential [where body = "\<lambda>k old. do { xCoord \<leftarrow> coords_c (int (length sh)) (sh @ sx @ [off, ex, ox]) k;
           xOffset \<leftarrow> getOffset 0 (sh @ sx @ [off, ex, ox]) (sx @ [off, ex, ox]) xCoord (int (length sh));
           index_step r mem (x + xOffset) k old }", OF this]
    show ?thesis using False X(7-11) e by (auto simp: index_search_def searched_def)
  next
    case True
    have lin: "rd mem (x + k * ews) = Some (?elem k)" if "0 \<le> k" "k < prod_list sh" for k
      using el [OF that] X(6) [of k] that True e by (simp add: counting_def)
    show ?thesis
    proof (cases "ews = 1 \<and> prod_list sh \<ge> rt_element_threshold rt")
      case True
      then have "rd mem (x + k) = Some (?elem k)" if "0 \<le> k" "k < prod_list sh" for k using lin [OF that] by simp
      from index_parallel_searches [OF ok P X(2) this, of r] obtain v where
        "index_parallel rt r x (prod_list sh) mem = Some v" "searched r ?elem (prod_list sh) v" by auto
      then show ?thesis using True X(10,11) e by (intro exI [of _ v]) (simp add: index_search_def)
    next
      case False
      have "do { o' \<leftarrow> i64 (k * ews); index_step r mem (x + o') k old } = Some (ir_update r old (indexed ?elem k))"
        if k: "0 \<le> k" "k < prod_list sh" for k old
        using product_fits [of k ews] lin [OF k] k X(2,3) True e by (simp add: index_step_def indexed_def)
      from index_sequential [where body = "\<lambda>k old. do { o' \<leftarrow> i64 (k * ews); index_step r mem (x + o') k old }", OF this]
      show ?thesis using False True X(10,11) e by (auto simp: index_search_def searched_def)
    qed
  qed
qed

definition selected :: "'a index_reduction \<Rightarrow> (int \<Rightarrow> 'a) \<Rightarrow> int \<Rightarrow> int" where
  "selected r elem len = iv_index (foldl (ir_update r) (ir_start r) (map (indexed elem) [0..len - 1]))"

lemma selected_steps:
  assumes "\<And>k old. 0 \<le> k \<Longrightarrow> k < len \<Longrightarrow> body k old = Some (ir_update r old (indexed elem k))"
  shows "do { res \<leftarrow> for_each body [0..len - 1] (ir_start r); Some (iv_index res) } = Some (selected r elem len)"
  by (simp add: index_sequential [OF assms] selected_def)

lemma selected_found:
  assumes "selection (ir_update r) key iv_index" "0 < len" "iv_index (ir_start r) = 0" "beaten key (ir_start r) elem len"
  shows "found key elem len (selected r elem len)"
  unfolding selected_def by (rule searched_found [OF assms]) (simp add: searched_def)

lemma selected_result:
  assumes "strict_selection (ir_update r) key iv_index" "0 < len" "iv_index (ir_start r) = 0"
  shows "search_result key (ir_start r) elem len (selected r elem len)"
  unfolding selected_def by (rule searched_result [OF assms]) (simp add: searched_def)

lemma index_tad_exact:
  assumes lay: "layout tx sh st" and b: "0 \<le> b" "b < 2 ^ 31"
    and mem: "\<forall>idx \<in> box sh. 0 \<le> x + b + inner st idx \<and> x + b + inner st idx < int (length mem)"
  shows "elementWiseStride_of tx = Some e \<Longrightarrow> 1 \<le> e \<Longrightarrow> ews_bound tx (prod_list sh) \<Longrightarrow> order_of tx = Some ord
      \<Longrightarrow> index_tad_linear r x b e (prod_list sh) mem = Some (selected r (\<lambda>k. element mem (x + b) st (dec_of ord sh k)) (prod_list sh))"
    and "index_tad_general r x tx b (prod_list sh) mem = Some (selected r (\<lambda>k. element mem (x + b) st (dec_of 99 sh k)) (prod_list sh))"
proof -
  obtain off ex ox where X: "pos_dims sh" "prod_list sh < 2 ^ 31" "length sh \<le> 32" "rank_of tx = Some (int (length sh))"
    "stride_of tx = Some (st @ [off, ex, ox])" "shapeOf tx = sh @ st @ [off, ex, ox]" "order_of tx = Some ox"
    using lay by (rule layoutE) blast
  have el: "rd mem (x + b + inner st (dec_of ord sh k)) = Some (element mem (x + b) st (dec_of ord sh k))"
    if "0 \<le> k" "k < prod_list sh" for k ord
    using mem bij_betwE [OF bij_dec_of [OF X(1), of ord]] that by (simp add: rd_def element_def)
  show "index_tad_linear r x b e (prod_list sh) mem = Some (selected r (\<lambda>k. element mem (x + b) st (dec_of ord sh k)) (prod_list sh))"
    if e: "elementWiseStride_of tx = Some e" "1 \<le> e" "ews_bound tx (prod_list sh)" "order_of tx = Some ord"
    unfolding index_tad_linear_def
  proof (rule selected_steps)
    fix k old assume k: "0 \<le> k" "k < prod_list sh"
    have step: "i32 (k * e) = Some (k * e)" "inner st (dec_of ord sh k) = k * e"
      using ews_step [OF lay e(1,2,4,3) k] by simp_all
    have "0 \<le> k * e" "k * e < 2 ^ 31" using step(1) k e(2) by (auto simp: i32_def split: if_splits)
    then have "i64 (b + k * e) = Some (b + k * e)" using b by (simp add: i64_def)
    then show "do { p \<leftarrow> i32 (e * k); o' \<leftarrow> i64 (b + p); index_step r mem (x + o') k old }
        = Some (ir_update r old (indexed (\<lambda>k. element mem (x + b) st (dec_of ord sh k)) k))"
      using step el [OF k, of ord] by (simp add: mult.commute [of e] index_step_def indexed_def add.assoc)
  qed
  show "index_tad_general r x tx b (prod_list sh) mem = Some (selected r (\<lambda>k. element mem (x + b) st (dec_of 99 sh k)) (prod_list sh))"
    unfolding index_tad_general_def X(4-6) bind.simps
  proof (rule selected_steps)
    fix k old assume k: "0 \<le> k" "k < prod_list sh"
    have b62: "b < 2 ^ 62" using b by simp
    show "do { xCoord \<leftarrow> coords_c (int (length sh)) (sh @ st @ [off, ex, ox]) k;
        xOffset \<leftarrow> getOffset b (sh @ st @ [off, ex, ox]) (st @ [off, ex, ox]) xCoord (int (length sh));
        index_step r mem (x + xOffset) k old } = Some (ir_update r old (indexed (\<lambda>k. element mem (x + b) st (dec_of 99 sh k)) k))"
      using coords_exact(1) [OF X(1-3) k] layout_offset_base [OF lay k b(1) b62, where ord = 99] el [OF k, of 99]
      by (simp add: index_step_def indexed_def dec_of_def add.assoc)
  qed
qed

end
