(* ===== verification/MatchLoops.thy ===== *)
theory MatchLoops
  imports ReduceOps IndexLoops
begin

text \<open>
  The operations of \<open>include/ops/ops.h\<close> that look for elements with a condition: the number of matches
  (\<open>MatchCondition\<close> as a reduction) and the first and the last match (\<open>FirstIndex\<close>, \<open>LastIndex\<close>).
\<close>

subsection \<open>Code\<close>

text \<open>
  \<open>update\<close> for the CPU: the test \<open>opOutput.index < 0\<close>, which keeps a thread without a match from
  taking part, is compiled for CUDA only.
\<close>

definition FirstIndex :: "('a \<Rightarrow> bool) \<Rightarrow> ('a \<Rightarrow> bool) \<Rightarrow> 'a condition \<Rightarrow> 'a \<Rightarrow> 'a :: linordered_field index_reduction" where
  "FirstIndex isinf isnan p limit = \<lparr>ir_start = \<lparr>iv_value = - limit, iv_index = - 1\<rparr>,
     ir_update = (\<lambda>old out.
       let res = MatchCondition_op isinf isnan p (iv_value out)
       in if res = 0 then old
          else if iv_index old < 0 then out
          else if iv_index old > iv_index out then out
          else old),
     ir_merge = (\<lambda>f1 f2. if iv_index f1 > iv_index f2 then f2 else f1)\<rparr>"

definition LastIndex :: "('a \<Rightarrow> bool) \<Rightarrow> ('a \<Rightarrow> bool) \<Rightarrow> 'a condition \<Rightarrow> 'a \<Rightarrow> 'a :: linordered_field index_reduction" where
  "LastIndex isinf isnan p limit = \<lparr>ir_start = \<lparr>iv_value = - limit, iv_index = - 1\<rparr>,
     ir_update = (\<lambda>old out.
       let res = MatchCondition_op isinf isnan p (iv_value out)
       in if res = 0 then old
          else if iv_index old < 0 then out
          else if iv_index old < iv_index out then out
          else old),
     ir_merge = (\<lambda>f1 f2. if iv_index f1 < iv_index f2 then f2 else f1)\<rparr>"

subsection \<open>Searches for a match\<close>

text \<open>
  The common form of both: \<open>before\<close> is the order that decides between two matches.
  \<open>best\<close> is the index that a search among the indexes \<open>K\<close> has to give.
\<close>

definition match_update :: "('a \<Rightarrow> bool) \<Rightarrow> (int \<Rightarrow> int \<Rightarrow> bool) \<Rightarrow> 'a IndexValue \<Rightarrow> 'a IndexValue \<Rightarrow> 'a IndexValue" where
  "match_update test before old out =
     (if \<not> test (iv_value out) then old else if iv_index old < 0 then out
      else if before (iv_index out) (iv_index old) then out else old)"

definition matches :: "('a \<Rightarrow> bool) \<Rightarrow> ('a \<Rightarrow> bool) \<Rightarrow> 'a :: linordered_field condition \<Rightarrow> 'a \<Rightarrow> bool" where
  "matches isinf isnan p v \<longleftrightarrow> MatchCondition_op isinf isnan p v \<noteq> 0"

lemma FirstIndex_update: "ir_update (FirstIndex isinf isnan p limit) = match_update (matches isinf isnan p) (<)"
  by (simp add: fun_eq_iff FirstIndex_def match_update_def matches_def Let_def)

lemma LastIndex_update: "ir_update (LastIndex isinf isnan p limit) = match_update (matches isinf isnan p) (>)"
  by (simp add: fun_eq_iff LastIndex_def match_update_def matches_def Let_def)

definition best :: "(int \<Rightarrow> bool) \<Rightarrow> (int \<Rightarrow> int \<Rightarrow> bool) \<Rightarrow> int set \<Rightarrow> int \<Rightarrow> bool" where
  "best P before K i \<longleftrightarrow> (if \<exists>k \<in> K. P k then i \<in> K \<and> P i \<and> (\<forall>k \<in> K. P k \<longrightarrow> \<not> before k i) else i = - 1)"

text \<open>The values that occur in a search: the starting value, or a match with its index.\<close>

definition covers :: "('a \<Rightarrow> bool) \<Rightarrow> (int \<Rightarrow> int \<Rightarrow> bool) \<Rightarrow> 'a IndexValue \<Rightarrow> (int \<Rightarrow> 'a) \<Rightarrow> int set \<Rightarrow> 'a IndexValue \<Rightarrow> bool" where
  "covers test before s elem K v \<longleftrightarrow> best (\<lambda>k. test (elem k)) before K (iv_index v)
     \<and> v = (if iv_index v < 0 then s else indexed elem (iv_index v))"

locale priority =
  fixes before :: "int \<Rightarrow> int \<Rightarrow> bool"
  assumes irrefl: "\<not> before i i"
    and trans: "before i j \<Longrightarrow> before j k \<Longrightarrow> before i k"
    and total: "i \<noteq> j \<Longrightarrow> before i j \<or> before j i"
begin

lemma covers_start: "iv_index s = - 1 \<Longrightarrow> covers test before s elem {} s"
  by (simp add: covers_def best_def)

lemma covers_element:
  assumes "covers test before s elem K v" "\<forall>k \<in> insert i K. 0 \<le> k"
  shows "covers test before s elem (insert i K) (match_update test before v (indexed elem i))"
proof (cases "test (elem i)")
  case False
  then show ?thesis using assms(1) by (auto simp: covers_def best_def match_update_def indexed_def)
next
  case True
  show ?thesis
  proof (cases "iv_index v < 0")
    case none: True
    then have "\<forall>k \<in> K. \<not> test (elem k)" using assms by (auto simp: covers_def best_def split: if_splits)
    then show ?thesis
      using True none assms(2) irrefl by (auto simp: covers_def best_def match_update_def indexed_def)
  next
    case some: False
    then have v: "iv_index v \<in> K" "test (elem (iv_index v))" "\<forall>k \<in> K. test (elem k) \<longrightarrow> \<not> before k (iv_index v)"
        "v = indexed elem (iv_index v)"
      using assms(1) by (auto simp: covers_def best_def split: if_splits)
    show ?thesis
    proof (cases "before i (iv_index v)")
      case True
      have "\<not> before k i" if "k \<in> K" "test (elem k)" for k using v(3) that True trans by blast
      then show ?thesis
        using True v \<open>test (elem i)\<close> some assms(2) irrefl
        by (auto simp: covers_def best_def match_update_def indexed_def)
    next
      case False
      then have "match_update test before v (indexed elem i) = v" using some by (simp add: match_update_def indexed_def)
      then show ?thesis using v False some by (auto simp: covers_def best_def)
    qed
  qed
qed

lemma covers_elements:
  assumes "covers test before s elem K v" "\<forall>k \<in> set es \<union> K. 0 \<le> k"
  shows "covers test before s elem (set es \<union> K) (foldl (match_update test before) v (map (indexed elem) es))"
  using assms
proof (induction es arbitrary: K v)
  case (Cons e es)
  have "covers test before s elem (insert e K) (match_update test before v (indexed elem e))"
    using Cons.prems by (intro covers_element) auto
  from Cons.IH [OF this] Cons.prems(2) show ?case by simp
qed simp

lemma covers_merge:
  assumes "covers test before s elem K a" "covers test before s elem L b" "\<forall>k \<in> K \<union> L. 0 \<le> k" "\<not> test (iv_value s)"
  shows "covers test before s elem (K \<union> L) (match_update test before a b)"
proof (cases "iv_index b < 0")
  case True
  then have "iv_index b \<notin> L" using assms(3) by (auto simp: not_le [symmetric])
  then have "\<forall>k \<in> L. \<not> test (elem k)" "b = s"
    using assms(2) True unfolding covers_def best_def by (metis, simp)
  then show ?thesis using assms(1,4) by (auto simp: covers_def best_def match_update_def split: if_splits)
next
  case False
  define i where "i = iv_index b"
  have b: "b = indexed elem i" "i \<in> L" "test (elem i)" "\<forall>k \<in> L. test (elem k) \<longrightarrow> \<not> before k i"
    using assms(2) False by (auto simp: covers_def best_def i_def split: if_splits)
  let ?m = "match_update test before a b"
  have "covers test before s elem (insert i K) ?m"
    unfolding b(1) by (rule covers_element) (use assms b in auto)
  then have m: "iv_index ?m \<in> insert i K" "test (elem (iv_index ?m))"
    "\<forall>k \<in> insert i K. test (elem k) \<longrightarrow> \<not> before k (iv_index ?m)" "?m = (if iv_index ?m < 0 then s else indexed elem (iv_index ?m))"
    using b(3) by (auto simp: covers_def best_def split: if_splits)
  have "\<not> before k (iv_index ?m)" if k: "k \<in> K \<union> L" "test (elem k)" for k
  proof (cases "k \<in> K")
    case True
    then show ?thesis using m(3) k(2) by simp
  next
    case False
    then have "\<not> before k i" using b(4) k by simp
    moreover have "\<not> before i (iv_index ?m)" using m(3) b(3) by simp
    ultimately show ?thesis using trans total by metis
  qed
  moreover have "\<exists>k \<in> K \<union> L. test (elem k)" using b(2,3) by blast
  moreover have "iv_index ?m \<in> K \<union> L" using m(1) b(2) by blast
  ultimately show ?thesis using m(2,4) unfolding covers_def best_def by simp
qed

lemma covers_threads:
  assumes "covers test before s elem K v" "\<And>es. es \<in> set Ks \<Longrightarrow> covers test before s elem (set es) (f es)"
    and "\<forall>k \<in> (\<Union>es \<in> set Ks. set es) \<union> K. 0 \<le> k" "\<not> test (iv_value s)"
  shows "covers test before s elem ((\<Union>es \<in> set Ks. set es) \<union> K) (foldl (match_update test before) v (map f Ks))"
  using assms(1-3)
proof (induction Ks arbitrary: K v)
  case (Cons es Ks)
  have "covers test before s elem (K \<union> set es) (match_update test before v (f es))"
    by (rule covers_merge [OF Cons.prems(1)]) (use Cons.prems assms(4) in auto)
  from Cons.IH [OF this] Cons.prems(2,3) have
    "covers test before s elem ((\<Union>es \<in> set Ks. set es) \<union> (K \<union> set es)) (foldl (match_update test before) (match_update test before v (f es)) (map f Ks))"
    by auto
  then show ?case by (simp add: Un_ac)
qed simp

text \<open>A search finds the best match if its starting value is no match.\<close>

lemma searched_best:
  assumes "ir_update r = match_update test before" "iv_index (ir_start r) = - 1" "\<not> test (iv_value (ir_start r))"
    and "searched r elem len v"
  shows "best (\<lambda>k. test (elem k)) before {0..<len} (iv_index v)"
proof -
  have thread: "covers test before (ir_start r) elem (set es) (foldl (match_update test before) (ir_start r) (map (indexed elem) es))"
    if "set es \<subseteq> {0..<len}" for es
  proof -
    have "\<forall>k \<in> set es \<union> {}. 0 \<le> k" using that by auto
    from covers_elements [OF covers_start [OF assms(2)] this] show ?thesis by simp
  qed
  from assms(4) consider "v = foldl (match_update test before) (ir_start r) (map (indexed elem) [0..len - 1])"
    | Ks where "(\<Union>es \<in> set Ks. set es) = {0..<len}"
        "v = foldl (match_update test before) (ir_start r)
          (map (\<lambda>es. foldl (match_update test before) (ir_start r) (map (indexed elem) es)) Ks)"
    unfolding searched_def assms(1) by blast
  then have "covers test before (ir_start r) elem {0..<len} v"
  proof cases
    case 1
    then show ?thesis using thread [of "[0..len - 1]"] unfolding upto_set by simp
  next
    case (2 Ks)
    have "covers test before (ir_start r) elem ((\<Union>es \<in> set Ks. set es) \<union> {}) v"
      unfolding 2(2)
    proof (rule covers_threads [OF covers_start [OF assms(2)]])
      fix es assume "es \<in> set Ks"
      then have "set es \<subseteq> {0..<len}" using 2(1) by blast
      then show "covers test before (ir_start r) elem (set es) (foldl (match_update test before) (ir_start r) (map (indexed elem) es))"
        by (rule thread)
    qed (use 2(1) assms(3) in auto)
    then show ?thesis using 2(1) by simp
  qed
  then show ?thesis by (simp add: covers_def)
qed

end

interpretation first: priority "(<)"
  by unfold_locales auto

interpretation last: priority "(>)"
  by unfold_locales auto

end
