(* ===== verification/SearchProperties.thy ===== *)
theory SearchProperties
  imports LoopProperties MatchLoops
begin

text \<open>
  The properties of the searches: reductions to an index (\<open>include/loops/indexreduce.h\<close>) and
  conditions on elements, for every order in which threads may merge their results.
\<close>

subsection \<open>Reductions to an index\<close>

text \<open>The four searches: the operation, and the key whose largest value it looks for.\<close>

lemma search_operations:
  "strict_selection (ir_update (IndexMax limit)) iv_value iv_index"
  "strict_selection (ir_update (IndexMin limit)) (\<lambda>v. - iv_value v) iv_index"
  "strict_selection (ir_update (IndexAbsoluteMax tiny)) (\<lambda>v. \<bar>iv_value v\<bar>) iv_index"
  "strict_selection (ir_update (IndexAbsoluteMin limit)) (\<lambda>v. - \<bar>iv_value v\<bar>) iv_index"
  "iv_index (ir_start (IndexMax limit)) = 0" "iv_index (ir_start (IndexMin limit)) = 0"
  "iv_index (ir_start (IndexAbsoluteMax tiny)) = 0" "iv_index (ir_start (IndexAbsoluteMin limit)) = 0"
  by (rule largest.strict_selection_axioms smallest.strict_selection_axioms largest_abs.strict_selection_axioms
      smallest_abs.strict_selection_axioms | simp add: IndexMax_def IndexMin_def IndexAbsoluteMax_def IndexAbsoluteMin_def)+

text \<open>
  C25.  The search for the largest (smallest, absolutely largest, absolutely smallest) element of an
  array, for every layout, number of threads and order in which the threads merge their results.  When
  an element is better than the starting value of the operation (\<open>- limit\<close>, \<open>limit\<close>, \<open>tiny\<close> and
  \<open>limit\<close>), or the first element is as good as it, the answer is the index of an element that no other
  one beats.  Otherwise, that is when no element is better than the starting value and the first is
  worse, the answer is 0, whatever the elements are.  The index counts elements in the order of the
  buffer when the array has an element-wise stride, and in row-major order otherwise; the function
  returns it as an element, by the conversion \<open>conv\<close>.
\<close>

theorem index_scalar_finds:
  assumes "runtime_ok rt" "layout xi sh sx" "elementWiseStride_of xi = Some ews" "order_of xi = Some ord"
    and "\<forall>idx \<in> box sh. 0 \<le> x + inner sx idx \<and> x + inner sx idx < int (length mem)"
  shows "\<forall>(r, key) \<in> {(IndexMax limit, iv_value), (IndexMin limit, \<lambda>v. - iv_value v),
      (IndexAbsoluteMax tiny, \<lambda>v. \<bar>iv_value v\<bar>), (IndexAbsoluteMin limit, \<lambda>v. - \<bar>iv_value v\<bar>)}.
    \<exists>i. index_scalar rt conv r x xi mem = Some (conv i)
      \<and> search_result key (ir_start r) (\<lambda>k. mem ! nat (x + inner sx (counting ews ord sh k))) (prod_list sh) i"
proof -
  have P: "0 < prod_list sh" using layout_fits(2) [OF assms(2)] by (simp add: pos_dims_def prod_list_pos)
  have "\<exists>i. index_scalar rt conv r x xi mem = Some (conv i)
      \<and> search_result key (ir_start r) (\<lambda>k. mem ! nat (x + inner sx (counting ews ord sh k))) (prod_list sh) i"
    if "strict_selection (ir_update r) key iv_index" "iv_index (ir_start r) = 0" for r and key :: "'a IndexValue \<Rightarrow> 'a"
    using index_search_searches [OF assms, of r] searched_result [OF that(1) P that(2)]
    by (auto simp: index_scalar_def element_def)
  then show ?thesis by (auto intro: search_operations)
qed

theorem index_scalar_finds_witness:
  "index_scalar sample_runtime (\<lambda>i. of_int i) (IndexMax 100) 0 (mk_info [2, 2] [2, 1] 0 1 99) [1, 7, 3, 4 :: rat] = Some 1"
proof -
  let ?m = "[1, 7, 3, 4 :: rat]"
  have "\<forall>idx \<in> box [2, 2]. 0 \<le> 0 + inner [2, 1] idx \<and> 0 + inner [2, 1] idx < int (length ?m)" by (simp add: sample_box)
  moreover have "elementWiseStride_of (mk_info [2, 2] [2, 1] 0 1 99) = Some 1" "order_of (mk_info [2, 2] [2, 1] 0 1 99) = Some 99"
    by (simp_all add: buf_simps)
  ultimately obtain i where i: "index_scalar sample_runtime (\<lambda>i. of_int i) (IndexMax 100) 0 (mk_info [2, 2] [2, 1] 0 1 99) ?m = Some (of_int i)"
    "search_result iv_value (ir_start (IndexMax 100)) (\<lambda>k. ?m ! nat (0 + inner [2, 1] (counting 1 99 [2, 2] k))) 4 i"
    using index_scalar_finds [OF sample_runtime_ok(1) sample_layouts(1), of 1 99 0 ?m 100 0 "\<lambda>i. of_int i"] by auto
  have at: "?m ! nat (0 + inner [2, 1] (counting 1 99 [2, 2] k)) = ?m ! nat k" if "0 \<le> k" "k < 4" for k
  proof -
    from that have "k = 0 \<or> k = 1 \<or> k = 2 \<or> k = 3" by auto
    then show ?thesis by (auto simp: counting_def dec_of_def)
  qed
  have "found iv_value (\<lambda>k. ?m ! nat (0 + inner [2, 1] (counting 1 99 [2, 2] k))) 4 i"
    using i(2) at [of 0] by (simp add: search_result_def beaten_def indexed_def IndexMax_def split: if_splits)
  then have "0 \<le> i" "i < 4" and "\<forall>k. 0 \<le> k \<and> k < 4 \<longrightarrow> ?m ! nat (0 + inner [2, 1] (counting 1 99 [2, 2] k)) \<le> ?m ! nat i"
    using at [of i] by (auto simp: found_def indexed_def)
  from this(1,2) spec [OF this(3), of 1] have "0 \<le> i" "i < 4" "?m ! 1 \<le> ?m ! nat i" using at [of 1] by simp_all
  moreover from this have "i = 0 \<or> i = 1 \<or> i = 2 \<or> i = 3" by auto
  ultimately have "i = 1" by auto
  then show ?thesis using i(1) by simp
qed

text \<open>
  With equal largest elements the index that is returned depends on the order in which the threads
  merge: two orders of one and the same search, with different results.
\<close>

lemma index_of_ties_is_unstable:
  "\<exists>rt rt'. runtime_ok rt \<and> runtime_ok rt' \<and> rt_max_threads rt = rt_max_threads rt' \<and> rt_element_threshold rt = rt_element_threshold rt'
    \<and> index_scalar rt of_int (IndexMax 100) 0 (mk_info [1, 2] [2, 1] 0 1 99) [5, 5 :: rat] = Some 0
    \<and> index_scalar rt' of_int (IndexMax 100) 0 (mk_info [1, 2] [2, 1] 0 1 99) [5, 5 :: rat] = Some 1"
proof -
  let ?rt = "\<lambda>f. \<lparr>rt_max_threads = 2, rt_element_threshold = 1, rt_tad_threshold = 1, rt_order = f\<rparr>"
  have ok: "runtime_ok (?rt id)" "runtime_ok (?rt rev)" by (simp_all add: runtime_ok_def)
  have l: "length_of (mk_info [1, 2] [2, 1] 0 1 99) = Some 2" by (simp add: length_of_mk_info pos_dims_def)
  have e: "elementWiseStride_of (mk_info [1, 2] [2, 1] 0 1 99) = Some 1" by (simp add: buf_simps)
  have c: "BlockInformation_new 2 2 1 = Some \<lparr>bi_items = 1, bi_threads = 2, bi_chunks = 2, bi_modulo = 0\<rparr>"
    by (simp add: BlockInformation_new_def cdiv_def cmod_def to_int32_def signed_modulo_int_def)
  show ?thesis
    by (intro exI [of _ "?rt id"] exI [of _ "?rt rev"] conjI ok)
      (simp_all add: index_scalar_def index_search_def l e index_parallel_def c thread_local_def index_chunk_def index_step_def IndexMax_def upto_rec1 rd_def i64_def)
qed



text \<open>
  C26.  A search along dimensions whose result is no scalar, with the tensors' layout and offsets
  given by the caller or made by the loop itself, stores in cell \<open>i\<close> of the result what the search for
  the largest (smallest, absolutely largest, absolutely smallest) element finds in tensor \<open>i\<close>, and
  changes no other cell.  That is the index, inside the tensor, of an element that no other one beats,
  provided one is better than the starting value of the operation or the first one is as good as it;
  otherwise it is 0.
\<close>

theorem index_exec_along_dimensions:
  assumes "runtime_ok rt" "layout tx sh st" "elementWiseStride_of tx = Some e" "order_of tx = Some ord" "ews_bound tx (prod_list sh)"
    and "isScalar ri = Some 0" "length_of ri = Some tads" "0 < tads" "tads < 2 ^ 31"
    and "tadLength xi dims n = Some (prod_list sh)" "length_of xi = Some (prod_list sh * tads)"
    and "isVector_of tx = Some v" "isScalar tx = Some w"
    and "int (length ox) = tads" "\<forall>b \<in> set ox. 0 \<le> b \<and> b < 2 ^ 31"
    and "(r, key) \<in> {(IndexMax limit, iv_value), (IndexMin limit, \<lambda>v. - iv_value v),
      (IndexAbsoluteMax tiny, \<lambda>v. \<bar>iv_value v\<bar>), (IndexAbsoluteMin limit, \<lambda>v. - \<bar>iv_value v\<bar>)}"
    and "tadX = Some (tx, ox) \<or> tadX = None \<and> (\<exists>c \<ge> 1. own_tads junk xi dims n = Some (tx, ox, c))"
    and "\<forall>b \<in> set ox. \<forall>idx \<in> box sh. 0 \<le> x + b + inner st idx \<and> x + b + inner st idx < int (length mem)
      \<and> (\<forall>i. 0 \<le> i \<and> i < tads \<longrightarrow> z + i \<noteq> x + b + inner st idx)"
    and "0 \<le> z" "z + tads \<le> int (length mem)"
  shows "\<exists>mem' k ord'. index_exec rt junk conv r x xi z ri dims n tadX mem = Some mem'
    \<and> gathered {0..<tads} (\<lambda>i. z + i) (\<lambda>i m. conv (k i)) mem mem' \<and> (ord' = ord \<or> ord' = 99)
    \<and> (\<forall>i. 0 \<le> i \<and> i < tads
        \<longrightarrow> search_result key (ir_start r) (\<lambda>f. mem ! nat (x + ox ! nat i + inner st (dec_of ord' sh f))) (prod_list sh) (k i))"
proof -
  let ?P = "prod_list sh"
  define linear where "linear \<longleftrightarrow> 0 < e \<and> (tads = 1 \<or> v \<noteq> 0 \<or> w \<noteq> 0)"
  define ord' where "ord' = (if linear then ord else 99)"
  define sel where "sel = (\<lambda>i (m :: 'a list). selected r (\<lambda>f. element m (x + ox ! nat i) st (dec_of ord' sh f)) ?P)"
  have pos: "pos_dims sh" by (rule layout_fits(2) [OF assms(2)])
  then have P: "0 < ?P" by (simp add: pos_dims_def prod_list_pos)
  have q: "cdiv (?P * tads) ?P = Some tads" "to_int32 tads = tads" using P assms(8,9) by (simp_all add: cdiv_pos)
  let ?body = "\<lambda>i mem. do { offset \<leftarrow> rd ox i;
     k \<leftarrow> (if linear then index_tad_linear r x offset e ?P mem else index_tad_general r x tx offset ?P mem);
     wr mem (z + i) (conv k) }"
  have b: "index_exec rt junk conv r x xi z ri dims n tadX mem = parallel_for rt tads ?body mem"
    using assms(17) q assms(3,6-13) by (elim disjE conjE exE) (auto simp: index_exec_def linear_def)
  have off: "ox ! nat i \<in> set ox" if "0 \<le> i" "i < tads" for i using that assms(14) by auto
  have reads: "conv (sel i m) = conv (sel i m')"
    if "\<And>idx. idx \<in> box sh \<Longrightarrow> element m (x + ox ! nat i) st idx = element m' (x + ox ! nat i) st idx" for i m m'
  proof -
    have "map (indexed (\<lambda>f. element m (x + ox ! nat i) st (dec_of ord' sh f))) [0..?P - 1]
        = map (indexed (\<lambda>f. element m' (x + ox ! nat i) st (dec_of ord' sh f))) [0..?P - 1]"
      using that bij_betwE [OF bij_dec_of [OF pos, of ord']] by (intro map_cong refl) (simp add: indexed_def)
    then show ?thesis by (simp only: sel_def selected_def)
  qed
  have iso: "isolated {0..<tads} (\<lambda>i. z + i) (\<lambda>i m. conv (sel i m)) (length mem)"
    by (rule tads_isolated [where off = "\<lambda>i. ox ! nat i", OF assms(19,20) _ assms(18)]) (blast intro: off reads)+
  have "?body i m = Some (m[nat (z + i) := conv (sel i m)])"
    if i: "0 \<le> i" "i < tads" and m: "length m = length mem" for i and m :: "'a list"
  proof -
    have o: "0 \<le> ox ! nat i" "ox ! nat i < 2 ^ 31" using off [OF i] assms(15) by auto
    have M: "\<forall>idx \<in> box sh. 0 \<le> x + ox ! nat i + inner st idx \<and> x + ox ! nat i + inner st idx < int (length m)"
      unfolding m using bspec [OF assms(18) off [OF i]] by simp
    note exact = index_tad_exact [OF assms(2) o M]
    have "linear \<Longrightarrow> 1 \<le> e" by (simp add: linear_def)
    then have "(if linear then index_tad_linear r x (ox ! nat i) e ?P m else index_tad_general r x tx (ox ! nat i) ?P m) = Some (sel i m)"
      using exact(1) [OF assms(3) _ assms(5,4), of r] exact(2) [of r] by (cases linear) (simp_all add: ord'_def sel_def)
    then show ?thesis using i assms(14,19,20) m by (simp add: rd_def wr_def)
  qed
  from parallel_gather [OF assms(1) iso this] obtain mem' where
    run: "parallel_for rt tads ?body mem = Some mem'" "gathered {0..<tads} (\<lambda>i. z + i) (\<lambda>i m. conv (sel i m)) mem mem'" by blast
  have "gathered {0..<tads} (\<lambda>i. z + i) (\<lambda>i m. conv (sel i mem)) mem mem'"
    using run(2) by (simp add: gathered_def)
  moreover have "strict_selection (ir_update r) key iv_index \<and> iv_index (ir_start r) = 0"
    using assms(16) by (auto simp: search_operations)
  then have "search_result key (ir_start r) (\<lambda>f. mem ! nat (x + ox ! nat i + inner st (dec_of ord' sh f))) ?P (sel i mem)" for i
    unfolding sel_def element_def by (elim conjE) (rule selected_result [OF _ P])
  moreover have "ord' = ord \<or> ord' = 99" by (simp add: ord'_def)
  ultimately show ?thesis using run(1) unfolding b
    by (intro exI [of _ mem'] exI [of _ "\<lambda>i. sel i mem"] exI [of _ ord']) simp
qed

theorem index_exec_along_dimensions_witness:
  "\<exists>mem' k. index_exec sample_runtime (\<lambda>_. 0) (\<lambda>i. of_int i) (IndexMax 100) 0 (mk_info [2, 2] [2, 1] 0 1 99) 4 (mk_info [1, 2] [1, 1] 0 1 99) [1] 1
      (Some (mk_info [1, 2] [1, 1] 0 1 99, [0, 2])) [1, 2, 4, 3, 9, 9] = Some mem'
    \<and> mem' ! 5 = (of_int k :: rat) \<and> found iv_value (\<lambda>f. [4, 3 :: rat] ! nat f) 2 k"
proof -
  let ?m = "[1, 2, 4, 3, 9, 9 :: rat]" and ?t = "mk_info [1, 2] [1, 1] 0 1 99"
  have M: "\<forall>b \<in> set [0, 2]. \<forall>idx \<in> box [1, 2]. 0 \<le> 0 + b + inner [1, 1] idx \<and> 0 + b + inner [1, 1] idx < int (length ?m)
      \<and> (\<forall>i. 0 \<le> i \<and> i < 2 \<longrightarrow> 4 + i \<noteq> 0 + b + inner [1, 1] idx)"
    by (simp_all add: sample_row_box)
  have l: "length_of ?t = Some 2" by (simp add: length_of_mk_info pos_dims_def)
  have v: "isVector_of ?t = Some 1" "isScalar ?t = Some 0" "elementWiseStride_of ?t = Some 1"
    by (simp_all add: isVector_of_def isVector_def isScalar_def buf_simps)
  from index_exec_along_dimensions [OF sample_runtime_ok(1) sample_row(1) v(3) sample_row(2,3) v(2) l _ _ sample_matrix(1,2) v(1,2) _ _
      _ _ M, of "IndexMax 100" iv_value 100 0 "Some (?t, [0, 2])" "\<lambda>_. 0" "\<lambda>i. of_int i"]
  obtain mem' k ord' where m: "index_exec sample_runtime (\<lambda>_. 0) (\<lambda>i. of_int i) (IndexMax 100) 0 (mk_info [2, 2] [2, 1] 0 1 99) 4 ?t [1] 1
      (Some (?t, [0, 2])) ?m = Some mem'" "gathered {0..<2} (\<lambda>i. 4 + i) (\<lambda>i m. of_int (k i)) ?m mem'" "ord' = 99"
    "\<And>i. 0 \<le> i \<Longrightarrow> i < 2
        \<Longrightarrow> search_result iv_value (ir_start (IndexMax 100)) (\<lambda>f. ?m ! nat (0 + [0, 2] ! nat i + inner [1, 1] (dec_of ord' [1, 2] f))) (prod_list [1, 2]) (k i)"
    by auto
  have "mem' ! nat (4 + 1) = of_int (k 1)"
    using bspec [OF conjunct1 [OF conjunct2 [OF m(2) [unfolded gathered_def]]], of 1] by simp
  moreover have e: "?m ! nat (0 + [0, 2] ! nat 1 + inner [1, 1] (dec_of 99 [1, 2] f)) = [4, 3] ! nat f" if "0 \<le> f" "f < 2" for f
  proof -
    have "f = 0 \<or> f = 1" using that by auto
    then show ?thesis by (auto simp: dec_of_def)
  qed
  have F: "found iv_value (\<lambda>f. ?m ! nat (0 + [0, 2] ! nat 1 + inner [1, 1] (dec_of 99 [1, 2] f))) 2 (k 1)"
    using m(4) [of 1] e [of 0] unfolding m(3) by (simp add: search_result_def beaten_def indexed_def IndexMax_def split: if_splits)
  then have "0 \<le> k 1" "k 1 < 2" by (simp_all add: found_def)
  then have "found iv_value (\<lambda>f. [4, 3 :: rat] ! nat f) 2 (k 1)"
    using F e [of "k 1"] e unfolding found_def indexed_def by simp
  ultimately show ?thesis using m(1) by auto
qed


subsection \<open>Conditions\<close>

text \<open>
  C27.  The searches for the first and for the last element with a condition give the smallest and
  the largest index of a match, or -1 when there is none, converted to an element by \<open>conv\<close>, for every
  number of threads and order of merging, provided the starting value \<open>- limit\<close> does not satisfy the condition itself.
\<close>

theorem match_searches_find:
  assumes "runtime_ok rt" "layout xi sh sx" "elementWiseStride_of xi = Some ews" "order_of xi = Some ord"
    and "\<forall>idx \<in> box sh. 0 \<le> x + inner sx idx \<and> x + inner sx idx < int (length mem)"
    and "\<not> matches isinf isnan p (- limit)"
  shows "(\<exists>i. index_scalar rt conv (FirstIndex isinf isnan p limit) x xi mem = Some (conv i)
      \<and> best (\<lambda>k. matches isinf isnan p (mem ! nat (x + inner sx (counting ews ord sh k)))) (<) {0..<prod_list sh} i)
    \<and> (\<exists>i. index_scalar rt conv (LastIndex isinf isnan p limit) x xi mem = Some (conv i)
      \<and> best (\<lambda>k. matches isinf isnan p (mem ! nat (x + inner sx (counting ews ord sh k)))) (>) {0..<prod_list sh} i)"
proof -
  note searches = index_search_searches [OF assms(1-5), unfolded element_def]
  have F: "iv_index (ir_start (FirstIndex isinf isnan p limit)) = - 1" "iv_index (ir_start (LastIndex isinf isnan p limit)) = - 1"
    "\<not> matches isinf isnan p (iv_value (ir_start (FirstIndex isinf isnan p limit)))"
    "\<not> matches isinf isnan p (iv_value (ir_start (LastIndex isinf isnan p limit)))"
    using assms(6) by (simp_all add: FirstIndex_def LastIndex_def)
  show ?thesis
    using searches [of "FirstIndex isinf isnan p limit"] searches [of "LastIndex isinf isnan p limit"]
      first.searched_best [OF FirstIndex_update F(1,3)] last.searched_best [OF LastIndex_update F(2,4)]
    unfolding index_scalar_def by fastforce
qed

theorem match_searches_find_witness:
  "index_scalar sample_runtime (\<lambda>i. of_int i) (FirstIndex (\<lambda>_. False) (\<lambda>_. False) \<lparr>mc_compare = 2, mc_eps = 0, mc_mode = 3\<rparr> 100) 0
      (mk_info [2, 2] [2, 1] 0 1 99) [1, 7, 3, 4 :: rat] = Some 1"
proof -
  let ?p = "\<lparr>mc_compare = 2, mc_eps = 0, mc_mode = 3\<rparr> :: rat condition" and ?f = "\<lambda>_ :: rat. False" and ?m = "[1, 7, 3, 4 :: rat]"
  have M: "matches ?f ?f ?p v \<longleftrightarrow> 2 < v" for v by (simp add: matches_def MatchCondition_op_def)
  have "\<forall>idx \<in> box [2, 2]. 0 \<le> 0 + inner [2, 1] idx \<and> 0 + inner [2, 1] idx < int (length ?m)" by (simp add: sample_box)
  moreover have "elementWiseStride_of (mk_info [2, 2] [2, 1] 0 1 99) = Some 1" "order_of (mk_info [2, 2] [2, 1] 0 1 99) = Some 99"
    by (simp_all add: buf_simps)
  moreover have "\<not> matches ?f ?f ?p (- 100)" unfolding M by simp
  ultimately obtain i where i: "index_scalar sample_runtime (\<lambda>i. of_int i) (FirstIndex ?f ?f ?p 100) 0 (mk_info [2, 2] [2, 1] 0 1 99) ?m = Some (of_int i)"
    "best (\<lambda>k. 2 < ?m ! nat (0 + inner [2, 1] (counting 1 99 [2, 2] k))) (<) {0..<prod_list [2, 2]} i"
    using match_searches_find [OF sample_runtime_ok(1) sample_layouts(1), of 1 99 0 ?m ?f ?f ?p 100 "\<lambda>i. of_int i"] unfolding M by blast
  have at1: "2 < ?m ! nat (0 + inner [2, 1] (counting 1 99 [2, 2] 1))" and at0: "\<not> 2 < ?m ! nat (0 + inner [2, 1] (counting 1 99 [2, 2] 0))"
    by (simp_all add: counting_def dec_of_def)
  have "(1 :: int) \<in> {0..<prod_list [2, 2]}" by simp
  then have "i \<in> {0..<prod_list [2, 2]}" "2 < ?m ! nat (0 + inner [2, 1] (counting 1 99 [2, 2] i))" "\<not> 1 < i"
    using i(2) at1 unfolding best_def by (metis)+
  moreover from this have "i \<noteq> 0" using at0 by metis
  ultimately have "i = 1" by simp
  then show ?thesis using i(1) by simp
qed


text \<open>
  When the starting value \<open>- limit\<close> satisfies the condition, as it does for \<open>less than\<close>, a thread
  without a match hides the matches of the others: of an element below \<open>c\<close> and one above, searched by
  two threads that merge in order, the first match is reported as -1.
\<close>

theorem unmatched_thread_hides_match:
  assumes "a < c" "c \<le> b" "- limit < c"
  shows "\<exists>rt. runtime_ok rt \<and> matches isinf isnan \<lparr>mc_compare = c, mc_eps = eps, mc_mode = 2\<rparr> a
    \<and> index_scalar rt conv (FirstIndex isinf isnan \<lparr>mc_compare = c, mc_eps = eps, mc_mode = 2\<rparr> limit) 0
        (mk_info [1, 2] [2, 1] 0 1 99) [a, b] = Some (conv (- 1))"
proof -
  let ?rt = "\<lparr>rt_max_threads = 2, rt_element_threshold = 1, rt_tad_threshold = 1, rt_order = id\<rparr>"
  have ok: "runtime_ok ?rt" by (simp add: runtime_ok_def)
  have l: "length_of (mk_info [1, 2] [2, 1] 0 1 99) = Some 2" by (simp add: length_of_mk_info pos_dims_def)
  have e: "elementWiseStride_of (mk_info [1, 2] [2, 1] 0 1 99) = Some 1" by (simp add: buf_simps)
  have c: "BlockInformation_new 2 2 1 = Some \<lparr>bi_items = 1, bi_threads = 2, bi_chunks = 2, bi_modulo = 0\<rparr>"
    by (simp add: BlockInformation_new_def cdiv_def cmod_def to_int32_def signed_modulo_int_def)
  have test: "MatchCondition_op isinf isnan \<lparr>mc_compare = c, mc_eps = eps, mc_mode = 2\<rparr> v = (if v < c then 1 else 0)" for v
    by (simp add: MatchCondition_op_def)
  have start: "ir_start (FirstIndex isinf isnan \<lparr>mc_compare = c, mc_eps = eps, mc_mode = 2\<rparr> limit) = \<lparr>iv_value = - limit, iv_index = - 1\<rparr>"
    by (simp add: FirstIndex_def)
  have upd: "ir_update (FirstIndex isinf isnan \<lparr>mc_compare = c, mc_eps = eps, mc_mode = 2\<rparr> limit) old out =
      (if \<not> iv_value out < c then old else if iv_index old < 0 then out else if iv_index old > iv_index out then out else old)" for old out
    by (simp add: FirstIndex_def test)
  have "index_scalar ?rt conv (FirstIndex isinf isnan \<lparr>mc_compare = c, mc_eps = eps, mc_mode = 2\<rparr> limit) 0
        (mk_info [1, 2] [2, 1] 0 1 99) [a, b] = Some (conv (- 1))"
    using assms
    by (simp add: index_scalar_def index_search_def l e index_parallel_def c thread_local_def index_chunk_def index_step_def start upd upto_rec1 rd_def i64_def)
  then show ?thesis using ok assms by (intro exI [of _ ?rt]) (simp add: matches_def test)
qed

theorem unmatched_thread_hides_match_witness:
  "\<exists>rt. runtime_ok rt \<and> index_scalar rt (\<lambda>i. of_int i) (FirstIndex (\<lambda>_. False) (\<lambda>_. False) \<lparr>mc_compare = 3, mc_eps = 0, mc_mode = 2\<rparr> 100) 0
      (mk_info [1, 2] [2, 1] 0 1 99) [1, 5 :: rat] = Some (- 1)"
  using unmatched_thread_hides_match [of "1 :: rat" 3 5 100 "\<lambda>_. False" "\<lambda>_. False" 0 "\<lambda>i. of_int i"] by auto

text \<open>
  The reduction \<open>MatchCondition\<close> counts the elements with the condition, for every layout,
  number of threads and threshold.
\<close>

theorem match_condition_counts:
  assumes "runtime_ok rt" "room rt sh" "layout xi sh sx"
    and "\<forall>idx \<in> box sh. 0 \<le> x + inner sx idx \<and> x + inner sx idx < int (length mem)"
    and "0 \<le> mc_mode p" "mc_mode p \<le> 13"
  shows "reduce_scalar rt (MatchCondition_reduction isinf isnan p) x xi mem
    = Some (of_nat (card {idx \<in> box sh. matches isinf isnan p (mem ! nat (x + inner sx idx))}))"
proof -
  let ?r = "MatchCondition_reduction isinf isnan p" and ?el = "element mem x sx"
  have pos: "pos_dims sh" by (rule layout_fits(2) [OF assms(3)])
  have C: "combination (rn_update ?r) 0" by (rule matching.combination_axioms)
  have s: "starting ?r mem x = Some 0" by (simp add: starting_def MatchCondition_reduction_def)
  have "mc_mode p \<in> {0, 1, 2, 3, 4, 5, 6, 7, 8, 9, 10, 11, 12, 13}"
    using assms(5,6) set_upto [of 0 13] by (auto simp: upto_rec1)
  then have op: "rn_op ?r v = (if matches isinf isnan p v then 1 else 0)" for v
    by (elim insertE emptyE) (simp_all add: MatchCondition_reduction_def matches_def MatchCondition_op_def)
  have fold: "foldl (rn_update ?r) a (map (\<lambda>k. rn_op ?r (g k)) ks) = a + of_nat (length (filter (\<lambda>k. matches isinf isnan p (g k)) ks))"
    for a and g :: "int \<Rightarrow> 'a" and ks
    by (induction ks arbitrary: a) (simp_all add: op, simp_all add: MatchCondition_reduction_def)
  let ?I = "{k \<in> {0..<prod_list sh}. matches isinf isnan p (?el (dec_c sh k))}"
  have bij: "bij_betw (dec_c sh) {0..<prod_list sh} (box sh)" by (rule bij_dec(2) [OF pos])
  have "reduce_scalar rt ?r x xi mem = Some (rn_post ?r (of_nat (length (filter (\<lambda>k. matches isinf isnan p (?el (dec_c sh k))) [0..prod_list sh - 1]))) (prod_list sh))"
    unfolding reduce_scalar_exact [OF assms(1,2) C s assms(3,4)] reduced_def fold by simp
  also have "length (filter (\<lambda>k. matches isinf isnan p (?el (dec_c sh k))) [0..prod_list sh - 1]) = card ?I"
    by (subst distinct_card [symmetric]) (auto intro: arg_cong [where f = card])
  also have "?I = (dec_c sh -` {idx. matches isinf isnan p (?el idx)}) \<inter> {0..<prod_list sh}" by auto
  also have "card \<dots> = card (dec_c sh ` ((dec_c sh -` {idx. matches isinf isnan p (?el idx)}) \<inter> {0..<prod_list sh}))"
    using bij by (intro card_image [symmetric]) (auto simp: bij_betw_def inj_on_def)
  also have "dec_c sh ` ((dec_c sh -` {idx. matches isinf isnan p (?el idx)}) \<inter> {0..<prod_list sh})
      = {idx \<in> box sh. matches isinf isnan p (?el idx)}" using bij by (auto simp: bij_betw_def)
  finally show ?thesis by (simp add: MatchCondition_reduction_def element_def)
qed

theorem match_condition_counts_witness:
  "reduce_scalar sample_runtime (MatchCondition_reduction (\<lambda>_. False) (\<lambda>_. False) \<lparr>mc_compare = 2, mc_eps = 0, mc_mode = 3\<rparr>) 0
      (mk_info [2, 2] [2, 1] 0 1 99) [1, 7, 3, 4 :: rat] = Some 3"
proof -
  let ?p = "\<lparr>mc_compare = 2, mc_eps = 0, mc_mode = 3\<rparr> :: rat condition" and ?f = "\<lambda>_ :: rat. False" and ?m = "[1, 7, 3, 4 :: rat]"
  have "\<forall>idx \<in> box [2, 2]. 0 \<le> 0 + inner [2, 1] idx \<and> 0 + inner [2, 1] idx < int (length ?m)" by (simp add: sample_box)
  moreover have "{idx \<in> box [2, 2]. matches ?f ?f ?p (?m ! nat (0 + inner [2, 1] idx))} = {[0, 1], [1, 0], [1, 1]}"
    by (auto simp: sample_box matches_def MatchCondition_op_def)
  moreover have "card {[0, 1], [1, 0], [1, 1 :: int]} = 3" by simp
  ultimately show ?thesis
    using match_condition_counts [OF sample_runtime_ok sample_layouts(1), of 0 ?m ?p ?f ?f] by simp
qed

end
