(* ===== verification/WordFacts.thy ===== *)
theory WordFacts
  imports Main "HOL-Library.Word"
begin

text \<open>
  Machine words read as natural numbers: masks, shifts and disjunctions of fields that do not overlap.
\<close>

unbundle bit_operations_syntax

named_theorems fields "the fields of a word as natural numbers"

lemma unat_take [fields]: "unat (take_bit n (x :: 'a :: len word)) = unat x mod 2 ^ n"
  by (simp only: unsigned_take_bit_eq take_bit_eq_mod [of n "unat x"])

lemma unat_drop [fields]: "unat (drop_bit n (x :: 'a :: len word)) = unat x div 2 ^ n"
  by (simp only: unat_drop_bit_eq drop_bit_eq_div [of n "unat x"])

lemma unat_push: "unat x * 2 ^ n < 2 ^ LENGTH('a) \<Longrightarrow> unat (push_bit n (x :: 'a :: len word)) = unat x * 2 ^ n"
  by (simp only: unsigned_push_bit_eq push_bit_eq_mult [of n "unat x"] take_bit_nat_eq_self)

lemma and_bit: "(y :: 'a :: len word) AND 2 ^ k = (if bit y k then 2 ^ k else 0)"
  by (rule bit_word_eqI) (auto simp: bit_simps)

lemma nat_or_add:
  assumes "(a :: nat) mod 2 ^ n = 0" "b < 2 ^ n" shows "a OR b = a + b"
proof -
  have t: "take_bit n a = 0" "take_bit n b = b" using assms by (simp_all add: take_bit_eq_mod take_bit_nat_eq_self)
  have "a AND b = 0"
  proof (rule bit_eqI)
    fix k
    have "\<not> (bit a k \<and> bit b k)" using t by (metis bit_take_bit_iff bit_0_eq bot_apply bot_bool_def)
    then show "bit (a AND b) k = bit (0 :: nat) k" by (simp add: bit_and_iff)
  qed
  then show ?thesis by (simp add: disjunctive_add_eq_or)
qed

lemma unat_or: "unat (x :: 'a :: len word) mod 2 ^ n = 0 \<Longrightarrow> unat y < 2 ^ n \<Longrightarrow> unat (x OR y) = unat x + unat y"
  by (simp only: unsigned_or_eq nat_or_add)

lemma unat_plus: "unat x + unat y < 2 ^ LENGTH('a) \<Longrightarrow> unat (x + y :: 'a :: len word) = unat x + unat y"
  by (simp add: unat_word_ariths)

lemma unat_minus: "unat y \<le> unat x \<Longrightarrow> unat (x - y :: 'a :: len word) = unat x - unat y"
  by (simp add: unat_sub word_le_nat_alt)

lemma unat_narrow [fields]: "unat (ucast (x :: 'a :: len word) :: 'b :: len word) = unat x mod 2 ^ LENGTH('b)"
  by (simp only: unsigned_ucast_eq take_bit_eq_mod [of _ "unat x"])

lemma bit_high: "n < LENGTH('a) \<Longrightarrow> unat x < 2 ^ Suc n \<Longrightarrow> bit (x :: 'a :: len word) n \<longleftrightarrow> 2 ^ n \<le> unat x"
proof -
  assume "n < LENGTH('a)" "unat x < 2 ^ Suc n"
  then have "unat x div 2 ^ n < 2" by (simp add: less_mult_imp_div_less)
  moreover have "bit x n \<longleftrightarrow> odd (unat x div 2 ^ n)"
    using \<open>n < LENGTH('a)\<close> by (simp add: bit_unsigned_iff flip: bit_iff_odd)
  moreover have "2 ^ n \<le> unat x \<longleftrightarrow> 1 \<le> unat x div 2 ^ n" by (metis Suc_leI div_greater_zero_iff One_nat_def zero_less_numeral zero_less_power Suc_le_eq)
  moreover have "odd d \<longleftrightarrow> 1 \<le> d" if "d < 2" for d :: nat using that by (cases d) auto
  ultimately show ?thesis by blast
qed

end
