(* ===== verification/SmallFloats.thy ===== *)
theory SmallFloats
  imports CPrelude WordFacts "HOL-Library.Log_Nat"
begin

text \<open>
  The short element types of \<open>include/types\<close>: half precision (\<open>float16.h\<close> with \<open>fp16_emu.h\<close>), the
  8-bit floats of \<open>float8.h\<close>, and the integers of \<open>int8.h\<close>, \<open>int16.h\<close>, \<open>uint8.h\<close> and \<open>uint16.h\<close>.  A
  \<open>float\<close> is the word of its bits, as the code reads it through a pointer cast.
\<close>

unbundle bit_operations_syntax

subsection \<open>Half precision: \<open>float16.h\<close>\<close>

text \<open>The loop that normalises the mantissa of a denormal number; it does not end on 0.\<close>

partial_function (option) normalize_mantissa :: "32 word \<Rightarrow> 32 word \<Rightarrow> (32 word \<times> 32 word) option" where
  "normalize_mantissa mantissa exponent =
     (let msb = mantissa AND 0x400000; mantissa = push_bit 1 mantissa; exponent = exponent - 1
      in if msb = 0 then normalize_mantissa mantissa exponent else Some (mantissa, exponent))"

declare normalize_mantissa.simps [code]

definition cpu_ihalf2float :: "16 word \<Rightarrow> 32 word option" where
  "cpu_ihalf2float h =
     (let x = ucast h :: 32 word;
          sign = drop_bit 15 x AND 1; exponent = drop_bit 10 x AND 0x1f; mantissa = push_bit 13 (x AND 0x3ff)
      in do {
        (sign, exponent, mantissa) \<leftarrow>
          (if exponent = 0x1f then Some (if mantissa \<noteq> 0 then (0, 0xff, 0x7fffff) else (sign, 0xff, 0))
           else if exponent = 0 then
             (if mantissa \<noteq> 0 then do {
                (mantissa, exponent) \<leftarrow> normalize_mantissa mantissa 0x71; Some (sign, exponent, mantissa AND 0x7fffff) }
              else Some (sign, exponent, mantissa))
           else Some (sign, exponent + 0x70, mantissa));
        Some (push_bit 31 sign OR push_bit 23 exponent OR mantissa) })"

text \<open>
  The rounding of a mantissa that is \<open>shift\<close> bits too long, to the nearest and on a tie to even;
  \<open>limit\<close> masks the bits of the short mantissa.  \<open>float8.h\<close> has the same code.
\<close>

definition round_mantissa :: "32 word \<Rightarrow> 32 word \<Rightarrow> 32 word \<Rightarrow> 32 word \<Rightarrow> 32 word \<times> 32 word" where
  "round_mantissa limit shift exponent mantissa =
     (let lsb = push_bit (unat shift) 1; lsb_s1 = drop_bit 1 lsb; lsb_m1 = lsb - 1;
          remainder = mantissa AND lsb_m1;
          mantissa = drop_bit (unat shift) mantissa
      in if remainder > lsb_s1 \<or> remainder = lsb_s1 \<and> mantissa AND 1 \<noteq> 0
         then let mantissa = mantissa + 1
           in if mantissa AND limit = 0 then (exponent + 1, 0) else (exponent, mantissa)
         else (exponent, mantissa))"

definition cpu_float2ihalf_rn :: "32 word \<Rightarrow> 16 word" where
  "cpu_float2ihalf_rn x =
     (let u = x AND 0x7fffffff in
      if u > 0x7f800000 then 0x7fff
      else let sign = drop_bit 16 x AND 0x8000 in
      if u > 0x477fefff then ucast (sign OR 0x7c00)
      else if u < 0x33000001 then ucast sign
      else let
        exponent = drop_bit 23 u AND 0xff; mantissa = u AND 0x7fffff;
        (shift, exponent, mantissa) = (if exponent > 0x70 then (13, exponent - 0x70, mantissa)
          else (0x7e - exponent, 0, mantissa OR 0x800000));
        (exponent, mantissa) = round_mantissa 0x3ff shift exponent mantissa
      in ucast (sign OR push_bit 10 exponent OR mantissa))"

text \<open>Tests and constants of \<open>fp16_emu.h\<close>.\<close>

definition ishnan :: "16 word \<Rightarrow> bool" where
  "ishnan h \<longleftrightarrow> h AND 0x7c00 = 0x7c00 \<and> h AND 0x03ff \<noteq> 0"

definition ishinf :: "16 word \<Rightarrow> bool" where
  "ishinf h \<longleftrightarrow> h AND 0x7c00 = 0x7c00 \<and> h AND 0x03ff = 0"

definition ishequ :: "16 word \<Rightarrow> 16 word \<Rightarrow> bool" where
  "ishequ x y \<longleftrightarrow> \<not> ishnan x \<and> \<not> ishnan y \<and> x = y"

definition hneg :: "16 word \<Rightarrow> 16 word" where "hneg h = h XOR 0x8000"

definition habs :: "16 word \<Rightarrow> 16 word" where "habs h = h AND 0x7fff"

definition hzero :: "16 word" where "hzero = 0x0000"
definition hone :: "16 word" where "hone = 0x3c00"
definition hnan :: "16 word" where "hnan = 0x7e00"
definition hmax :: "16 word" where "hmax = 0x7bff"
definition hmin :: "16 word" where "hmin = 0x0400"

text \<open>\<open>operator==\<close> and the unary \<open>operator-\<close> of \<open>float16\<close>.\<close>

definition float16_eq :: "16 word \<Rightarrow> 16 word \<Rightarrow> bool" where "float16_eq a b = ishequ a b"

definition float16_neg :: "16 word \<Rightarrow> 16 word" where "float16_neg h = hneg h"

subsection \<open>Eight bits: \<open>float8.h\<close>\<close>

definition cpu_quarter2float :: "8 word \<Rightarrow> 32 word option" where
  "cpu_quarter2float b =
     (let x = ucast b :: 32 word;
          sign = drop_bit 7 x AND 1; exponent = drop_bit 4 x AND 0x7; mantissa = push_bit 19 (x AND 0xf)
      in do {
        (sign, exponent, mantissa) \<leftarrow>
          (if exponent = 0x7 then Some (if mantissa \<noteq> 0 then (0, 0xff, 0x7fffff) else (sign, 0xff, 0))
           else if exponent = 0 then
             (if mantissa \<noteq> 0 then do {
                (mantissa, exponent) \<leftarrow> normalize_mantissa mantissa 0x7d; Some (sign, exponent, mantissa AND 0x7fffff) }
              else Some (sign, exponent, mantissa))
           else Some (sign, exponent + 0x7c, mantissa));
        Some (push_bit 31 sign OR push_bit 23 exponent OR mantissa) })"

text \<open>A shift by 32 or more has no defined result.\<close>

definition cpu_float2quarter_rn :: "32 word \<Rightarrow> 8 word option" where
  "cpu_float2quarter_rn x =
     (let u = x AND 0x7fffffff in
      if u > 0x7f800000 then Some 0x7f
      else let sign = drop_bit 24 x AND 0x80 in
      if u > 0x477fefff then Some (ucast (sign OR 0x70))
      else if u < 0x33000001 then Some (ucast sign)
      else let
        exponent = drop_bit 23 u AND 0xff; mantissa = u AND 0x7fffff;
        (shift, exponent, mantissa) = (if exponent > 0x7c then (19, exponent - 0x7c, mantissa)
          else (0x90 - exponent, 0, mantissa OR 0x800000))
      in if shift \<ge> 32 then None
      else let (exponent, mantissa) = round_mantissa 0xf shift exponent mantissa
      in Some (ucast (sign OR push_bit 4 exponent OR mantissa)))"

subsection \<open>Short integers: \<open>int8.h\<close>, \<open>uint8.h\<close>, \<open>int16.h\<close>, \<open>uint16.h\<close>\<close>

text \<open>
  The conversions of the language: \<open>(int) data\<close> truncates towards zero and has no defined result for
  a number outside \<open>int\<close>; \<open>(float) n\<close> is exact for integers below \<open>2 ^ 24\<close>, the only ones that occur.
\<close>

definition float_to_int :: "32 word \<Rightarrow> int option" where
  "float_to_int x =
     (let u = unat x mod 2 ^ 31; e = u div 2 ^ 23; m = 2 ^ 23 + u mod 2 ^ 23;
          n = (if e < 127 then 0 else if e \<le> 150 then m div 2 ^ (150 - e) else m * 2 ^ (e - 150))
      in if e = 255 then None else i32 (if unat x div 2 ^ 31 = 1 then - int n else int n))"

definition int_to_float :: "int \<Rightarrow> 32 word option" where
  "int_to_float n =
     (let m = nat \<bar>n\<bar>; e = floorlog 2 m - 1; s = (if n < 0 then 2 ^ 31 else 0)
      in if m = 0 then Some 0
      else if m < 2 ^ 24 then Some (word_of_nat (s + (127 + e) * 2 ^ 23 + (m * 2 ^ (23 - e) - 2 ^ 23)))
      else None)"

definition cpu_int82float :: "8 word \<Rightarrow> 32 word option" where
  "cpu_int82float data = int_to_float (sint data)"

definition cpu_float2int8 :: "32 word \<Rightarrow> 8 word option" where
  "cpu_float2int8 data = do {
     t \<leftarrow> float_to_int data;
     let t = (if t > 127 then 127 else t);
     let t = (if t < -128 then -128 else t);
     Some (word_of_int t) }"

definition cpu_uint82float :: "8 word \<Rightarrow> 32 word option" where
  "cpu_uint82float data = int_to_float (uint data)"

definition cpu_float2uint8 :: "32 word \<Rightarrow> 8 word option" where
  "cpu_float2uint8 data = do {
     t \<leftarrow> float_to_int data;
     let t = (if t > 255 then 255 else t);
     let t = (if t < 0 then 0 else t);
     Some (word_of_int t) }"

definition cpu_int162float :: "16 word \<Rightarrow> 32 word option" where
  "cpu_int162float data = int_to_float (sint data)"

definition cpu_float2int16 :: "32 word \<Rightarrow> 16 word option" where
  "cpu_float2int16 data = do {
     t \<leftarrow> float_to_int data;
     let t = (if t > 32767 then 32767 else t);
     let t = (if t < -32768 then -32768 else t);
     Some (word_of_int t) }"

text \<open>The parameter of the first is an \<open>int16_t\<close>, the result of the second a \<open>uint8_t\<close>.\<close>

definition cpu_uint162float :: "16 word \<Rightarrow> 32 word option" where
  "cpu_uint162float data = int_to_float (sint data)"

definition cpu_float2uint16 :: "32 word \<Rightarrow> 8 word option" where
  "cpu_float2uint16 data = do {
     t \<leftarrow> float_to_int data;
     let t = (if t > 65536 then 65536 else t);
     let t = (if t < 0 then 0 else t);
     Some (ucast (word_of_int t :: 16 word)) }"

subsection \<open>Values\<close>

text \<open>
  The absolute value of a finite number with \<open>m\<close> bits of mantissa, whose bits without the sign are
  \<open>u\<close>, as a multiple of the smallest positive number: \<open>2 ^ -149\<close> for \<open>float\<close> (\<open>m = 23\<close>), \<open>2 ^ -24\<close> for
  half precision (\<open>m = 10\<close>) and \<open>2 ^ -6\<close> for 8 bits (\<open>m = 4\<close>).
\<close>

definition magnitude :: "nat \<Rightarrow> nat \<Rightarrow> nat" where
  "magnitude m u = (if u div 2 ^ m = 0 then u else (2 ^ m + u mod 2 ^ m) * 2 ^ (u div 2 ^ m - 1))"

lemma magnitude_fields:
  assumes "f < 2 ^ m" shows "magnitude m (e * 2 ^ m + f) = (if e = 0 then f else (2 ^ m + f) * 2 ^ (e - 1))"
  using assms by (simp add: magnitude_def)

text \<open>The distance to the next number.\<close>

lemma magnitude_Suc: "magnitude m (Suc u) = magnitude m u + 2 ^ (u div 2 ^ m - 1)"
proof -
  define e f where "e = u div 2 ^ m" and "f = u mod 2 ^ m"
  have u: "u = e * 2 ^ m + f" "f < 2 ^ m"
    unfolding e_def f_def by (rule div_mult_mod_eq [symmetric]) simp
  show ?thesis
  proof (cases "Suc f = 2 ^ m")
    case False
    then have "Suc f < 2 ^ m" using u(2) by simp
    then have "magnitude m (e * 2 ^ m + Suc f) = (if e = 0 then Suc f else (2 ^ m + Suc f) * 2 ^ (e - 1))"
      by (rule magnitude_fields)
    then show ?thesis using magnitude_fields [OF u(2), of e] u by (auto simp: algebra_simps)
  next
    case True
    then have s: "Suc u = Suc e * 2 ^ m + 0" using u(1) by simp
    have "magnitude m (Suc u) = 2 ^ m * 2 ^ e" unfolding s by (subst magnitude_fields) simp_all
    also have "\<dots> = magnitude m u + 2 ^ (e - 1)"
    proof (cases e)
      case 0
      then show ?thesis using True u magnitude_fields [OF u(2), of e] by simp
    next
      case (Suc e')
      have "magnitude m u + 2 ^ e' = (2 ^ m + Suc f) * 2 ^ e'"
        using magnitude_fields [OF u(2), of e] u(1) Suc by (simp add: algebra_simps)
      then show ?thesis unfolding True using Suc by simp
    qed
    finally show ?thesis by (simp add: e_def)
  qed
qed

lemma magnitude_strict: "u < v \<Longrightarrow> magnitude m u < magnitude m v"
  by (rule lift_Suc_mono_less [of "magnitude m"]) (simp_all add: magnitude_Suc)

lemma magnitude_le_iff: "magnitude m u \<le> magnitude m v \<longleftrightarrow> u \<le> v"
  by (metis magnitude_strict not_le order_le_less)

text \<open>
  \<open>k\<close> is the number of a grid that is nearest to \<open>F\<close>, and of two that are equally near the one with an
  even last digit.
\<close>

definition nearest_even :: "(nat \<Rightarrow> nat) \<Rightarrow> nat \<Rightarrow> nat \<Rightarrow> bool" where
  "nearest_even G F k \<longleftrightarrow> (\<forall>j. \<bar>int F - int (G k)\<bar> \<le> \<bar>int F - int (G j)\<bar>
     \<and> (\<bar>int F - int (G k)\<bar> = \<bar>int F - int (G j)\<bar> \<and> j \<noteq> k \<longrightarrow> even k))"

definition rounds_up :: "nat \<Rightarrow> nat \<Rightarrow> nat \<Rightarrow> bool" where
  "rounds_up s r q \<longleftrightarrow> r > 2 ^ (s - 1) \<or> r = 2 ^ (s - 1) \<and> odd q"

lemma nearest_even_round:
  assumes mono: "\<And>i j. i < j \<Longrightarrow> G i < G j" and "1 \<le> s" "r < 2 ^ s" "0 < c"
    and F: "F = G k + r * c" and nxt: "G (Suc k) = G k + 2 ^ s * c"
  shows "nearest_even G F (k + (if rounds_up s r k then 1 else 0))"
proof -
  obtain t where t: "s = Suc t" using assms(2) by (cases s) auto
  define R H where "R = r * c" and "H = 2 ^ t * c"
  have F': "F = G k + R" and nx: "G (Suc k) = G k + 2 * H" using F nxt by (simp_all add: R_def H_def t)
  have R: "R < 2 * H" using assms(3,4) by (simp add: R_def H_def t)
  have low: "G j < G k" if "j < k" for j using mono that by simp
  have high: "G k + 2 * H < G j" if "Suc k < j" for j using mono [OF that] unfolding nx .
  show ?thesis
  proof (cases "rounds_up s r k")
    case True
    then have "2 ^ t \<le> r" "2 ^ t < r \<or> odd k" by (auto simp: rounds_up_def t)
    then have half: "H \<le> R" "H < R \<or> odd k" using assms(4) by (auto simp: R_def H_def)
    have "\<bar>int F - int (G (Suc k))\<bar> \<le> \<bar>int F - int (G j)\<bar>
        \<and> (\<bar>int F - int (G (Suc k))\<bar> = \<bar>int F - int (G j)\<bar> \<and> j \<noteq> Suc k \<longrightarrow> even (Suc k))" for j
    proof -
      consider "j < k" | "j = k" | "j = Suc k" | "Suc k < j" by linarith
      then show ?thesis
      proof cases
        case 1
        from low [OF this] show ?thesis using half R unfolding F' nx by auto
      next
        case 4
        from high [OF this] show ?thesis using half R unfolding F' nx by auto
      qed (use half R in \<open>auto simp: F' nx\<close>)
    qed
    then show ?thesis using True unfolding nearest_even_def by auto
  next
    case False
    then have "r \<le> 2 ^ t" "r < 2 ^ t \<or> even k" by (auto simp: rounds_up_def t)
    then have half: "R \<le> H" "R < H \<or> even k" using assms(4) by (auto simp: R_def H_def)
    have "\<bar>int F - int (G k)\<bar> \<le> \<bar>int F - int (G j)\<bar>
        \<and> (\<bar>int F - int (G k)\<bar> = \<bar>int F - int (G j)\<bar> \<and> j \<noteq> k \<longrightarrow> even k)" for j
    proof -
      consider "j < k" | "j = k" | "j = Suc k" | "Suc k < j" by linarith
      then show ?thesis
      proof cases
        case 1
        from low [OF this] show ?thesis using half R unfolding F' by auto
      next
        case 4
        from high [OF this] show ?thesis using half R unfolding F' by auto
      qed (use half R in \<open>auto simp: F' nx\<close>)
    qed
    then show ?thesis using False unfolding nearest_even_def by auto
  qed
qed

lemma nearest_even_exact:
  assumes "\<And>i j. i < j \<Longrightarrow> G i < G j" "nearest_even G (G j) k" shows "k = j"
proof (rule ccontr)
  assume "k \<noteq> j"
  then have "G k \<noteq> G j" using assms(1) by (metis less_irrefl linorder_neqE_nat)
  moreover have "\<bar>int (G j) - int (G k)\<bar> \<le> \<bar>int (G j) - int (G j)\<bar>" using assms(2) unfolding nearest_even_def by blast
  ultimately show False by simp
qed

end
