(* ===== verification/FloatConversions.thy ===== *)
theory FloatConversions
  imports SmallFloats
begin

text \<open>
  The conversions of \<open>SmallFloats\<close> in terms of the values: widening is exact, narrowing rounds to the
  nearest value and on a tie to the even one.
\<close>

unbundle bit_operations_syntax

subsection \<open>Fields\<close>

lemma masks:
  "(x :: 32 word) AND 0x7fffffff = take_bit 31 x" "x AND 0x7fffff = take_bit 23 x" "x AND 0x3ff = take_bit 10 x"
  "x AND 0xff = take_bit 8 x" "x AND 0x1f = take_bit 5 x" "x AND 0xf = take_bit 4 x" "x AND 1 = take_bit 1 x"
  "x AND 0x7 = take_bit 3 x"
  by (simp_all add: take_bit_eq_mask mask_eq_exp_minus_1)

lemma bits: "(x :: 32 word) AND 0x8000 = (if bit x 15 then 0x8000 else 0)"
  "x AND 0x400000 = (if bit x 22 then 0x400000 else 0)" "x AND 0x80 = (if bit x 7 then 0x80 else 0)"
  using and_bit [of x 15] and_bit [of x 22] and_bit [of x 7] by simp_all

lemma set_bit_23: "unat (x :: 32 word) < 2 ^ 23 \<Longrightarrow> unat (x OR 0x800000) = unat x + 2 ^ 23"
  using unat_or [of "0x800000 :: 32 word" 23 x] by (simp add: or.commute)

lemma below: "unat (take_bit n (x :: 'a :: len word)) < 2 ^ n"
  by (simp add: unat_take)

lemma round_mantissa_exact:
  assumes s: "1 \<le> unat shift" "unat shift \<le> 24" and m: "unat mantissa < 2 ^ (unat shift + n)" and n: "n \<le> 10" and e: "unat exponent < 2 ^ 8"
    and limit: "limit = mask n"
  shows "\<exists>e' m'. round_mantissa limit shift exponent mantissa = (e', m') \<and> unat m' < 2 ^ n
    \<and> unat e' * 2 ^ n + unat m' = unat exponent * 2 ^ n + unat mantissa div 2 ^ unat shift
        + (if rounds_up (unat shift) (unat mantissa mod 2 ^ unat shift) (unat mantissa div 2 ^ unat shift) then 1 else 0)
    \<and> unat e' \<le> unat exponent + 1"
proof -
  define k where "k = unat shift"
  have k: "1 \<le> k" "k \<le> 24" using s by (simp_all add: k_def)
  have lsb: "unat (push_bit k 1 :: 32 word) = 2 ^ k"
    using unat_push [of "1 :: 32 word" k] k(2) power_strict_increasing [of k 32 "2 :: nat"] by simp
  have m1: "mantissa AND (push_bit k 1 - 1) = take_bit k mantissa"
    by (simp add: take_bit_eq_mask mask_eq_exp_minus_1)
  let ?lsb = "push_bit k 1 :: 32 word" and ?q = "drop_bit k mantissa"
  have half: "unat (drop_bit 1 ?lsb) = 2 ^ (k - 1)" unfolding unat_drop lsb using k(1) by (simp add: power_diff)
  have r: "unat (take_bit k mantissa) = unat mantissa mod 2 ^ k" by (rule unat_take)
  have q: "unat ?q = unat mantissa div 2 ^ k" by (rule unat_drop)
  have q_less: "unat ?q < 2 ^ n" unfolding q using m by (simp add: k_def less_mult_imp_div_less power_add mult.commute)
  have n10: "(2 :: nat) ^ n \<le> 2 ^ 10" using n by (intro power_increasing) auto
  have odd: "?q AND 1 \<noteq> 0 \<longleftrightarrow> odd (unat ?q)" unfolding masks unat_eq_zero [symmetric] unat_take by (simp add: odd_iff_mod_2_eq_one)
  have up: "take_bit k mantissa > drop_bit 1 ?lsb \<or> take_bit k mantissa = drop_bit 1 ?lsb \<and> ?q AND 1 \<noteq> 0
      \<longleftrightarrow> rounds_up k (unat mantissa mod 2 ^ k) (unat mantissa div 2 ^ k)"
    unfolding word_less_nat_alt word_unat_eq_iff [of "take_bit k mantissa"] half r odd q rounds_up_def by blast
  have plus: "unat (?q + 1) = unat ?q + 1" using q_less n10 by (subst unat_plus) simp_all
  have carry: "(?q + 1) AND limit = 0 \<longleftrightarrow> unat ?q + 1 = 2 ^ n"
  proof -
    have "(?q + 1) AND limit = take_bit n (?q + 1)" by (simp add: limit take_bit_eq_mask)
    then have "(?q + 1) AND limit = 0 \<longleftrightarrow> (unat ?q + 1) mod 2 ^ n = 0"
      using unat_take [of n "?q + 1"] unfolding plus by (metis unat_eq_zero)
    also have "\<dots> \<longleftrightarrow> unat ?q + 1 = 2 ^ n"
      using q_less by (cases "unat ?q + 1 = 2 ^ n") simp_all
    finally show ?thesis .
  qed
  have e1: "unat (exponent + 1) = unat exponent + 1" using e by (subst unat_plus) simp_all
  have rm: "round_mantissa limit shift exponent mantissa =
      (if rounds_up k (unat mantissa mod 2 ^ k) (unat mantissa div 2 ^ k)
       then if unat ?q + 1 = 2 ^ n then (exponent + 1, 0) else (exponent, ?q + 1) else (exponent, ?q))"
    unfolding round_mantissa_def Let_def k_def [symmetric] m1 up carry by simp
  show ?thesis
  proof (cases "rounds_up k (unat mantissa mod 2 ^ k) (unat mantissa div 2 ^ k)")
    case True
    show ?thesis
    proof (cases "unat ?q + 1 = 2 ^ n")
      case carry: True
      have "(unat exponent + 1) * 2 ^ n = unat exponent * 2 ^ n + (unat ?q + 1)" using carry by simp
      then show ?thesis using rm True carry e1 q unfolding k_def [symmetric] by simp
    next
      case False
      then have "unat (?q + 1) < 2 ^ n" using q_less unfolding plus by simp
      then show ?thesis using rm True False plus q unfolding k_def [symmetric] by simp
    qed
  next
    case False
    then show ?thesis using rm q q_less unfolding k_def [symmetric] by simp
  qed
qed



subsection \<open>From float to half precision\<close>

lemma sign_field: "unat (drop_bit 16 (x :: 32 word) AND 0x8000) = unat x div 2 ^ 31 * 2 ^ 15"
    "unat (drop_bit 24 x AND 0x80) = unat x div 2 ^ 31 * 2 ^ 7"
proof -
  have x: "unat x < 2 ^ 32" using unsigned_less [of x] by simp
  then have "unat (drop_bit 16 x) < 2 ^ Suc 15" "unat (drop_bit 24 x) < 2 ^ Suc 7"
    unfolding unat_drop by (simp_all add: less_mult_imp_div_less)
  from bit_high [OF _ this(1)] bit_high [OF _ this(2)]
  have b: "bit (drop_bit 16 x) 15 \<longleftrightarrow> 2 ^ 15 \<le> unat x div 2 ^ 16" "bit (drop_bit 24 x) 7 \<longleftrightarrow> 2 ^ 7 \<le> unat x div 2 ^ 24"
    unfolding unat_drop by simp_all
  have c: "2 ^ 15 \<le> unat x div 2 ^ 16 \<longleftrightarrow> 2 ^ 31 \<le> unat x" "2 ^ 7 \<le> unat x div 2 ^ 24 \<longleftrightarrow> 2 ^ 31 \<le> unat x"
    by (simp_all add: less_eq_div_iff_mult_less_eq)
  have d: "unat x div 2 ^ 31 = (if 2 ^ 31 \<le> unat x then 1 else 0)"
    using x by (simp add: div_nat_eqI)
  show "unat (drop_bit 16 x AND 0x8000) = unat x div 2 ^ 31 * 2 ^ 15" "unat (drop_bit 24 x AND 0x80) = unat x div 2 ^ 31 * 2 ^ 7"
    unfolding bits b c d by simp_all
qed

lemma sign_small: "unat (x :: 32 word) div 2 ^ 31 \<le> 1"
proof -
  have "unat x < 2 ^ 32" using unsigned_less [of x] by simp
  then have "unat x div 2 ^ 31 < 2" by (simp add: less_mult_imp_div_less)
  then show ?thesis by simp
qed

lemma signed_half:
  assumes "unat (r :: 32 word) < 2 ^ 15"
  shows "unat (ucast (drop_bit 16 (x :: 32 word) AND 0x8000 OR r) :: 16 word) = unat x div 2 ^ 31 * 2 ^ 15 + unat r"
proof -
  have "unat (drop_bit 16 x AND 0x8000 OR r) = unat x div 2 ^ 31 * 2 ^ 15 + unat r"
    unfolding sign_field(1) [symmetric] by (rule unat_or) (use assms in \<open>simp_all only: sign_field mod_mult_self2_is_0\<close>)
  moreover have "unat x div 2 ^ 31 * 2 ^ 15 + unat r < 2 ^ 16"
    using sign_small [of x] assms by (cases "unat x div 2 ^ 31 = 0") (simp_all add: le_less)
  ultimately show ?thesis unfolding unat_narrow by simp
qed

text \<open>The number of the half precision grid that the rounding computes from the bits \<open>u\<close> of a float.\<close>

definition half_number :: "nat \<Rightarrow> nat" where
  "half_number u = (let e = u div 2 ^ 23; s = (if e > 112 then 13 else 126 - e); b = e - 112;
      m = u mod 2 ^ 23 + (if e > 112 then 0 else 2 ^ 23); q = b * 2 ^ 10 + m div 2 ^ s
    in q + (if rounds_up s (m mod 2 ^ s) q then 1 else 0))"

lemma rounds_up_parity: "even b \<Longrightarrow> rounds_up s r (b + q) \<longleftrightarrow> rounds_up s r q"
  by (simp add: rounds_up_def)

lemma float2ihalf_bits:
  assumes u: "u = unat x mod 2 ^ 31" "u \<le> 0x7f800000"
  shows "unat (cpu_float2ihalf_rn x) = unat x div 2 ^ 31 * 2 ^ 15
    + (if u > 0x477fefff then 0x7c00 else if u < 0x33000001 then 0 else half_number u)"
proof -
  let ?u = "take_bit 31 x" and ?sign = "drop_bit 16 x AND 0x8000"
  have U: "unat ?u = u" unfolding u(1) by (rule unat_take)
  have cmp: "?u > 0x7f800000 \<longleftrightarrow> u > 0x7f800000" "?u > 0x477fefff \<longleftrightarrow> u > 0x477fefff" "?u < 0x33000001 \<longleftrightarrow> u < 0x33000001"
    unfolding word_less_nat_alt U by simp_all
  consider "u > 0x477fefff" | "u < 0x33000001" | "u \<le> 0x477fefff" "0x33000001 \<le> u" by linarith
  then show ?thesis
  proof cases
    case 1
    then have "cpu_float2ihalf_rn x = ucast (?sign OR 0x7c00)"
      using u(2) by (simp only: cpu_float2ihalf_rn_def masks Let_def cmp) simp
    then show ?thesis using signed_half [of "0x7c00" x] 1 by simp
  next
    case 2
    then have "cpu_float2ihalf_rn x = ucast ?sign"
      using u(2) by (simp only: cpu_float2ihalf_rn_def masks Let_def cmp) simp
    then show ?thesis using signed_half [of "0" x] 2 by simp
  next
    case 3
    define e where "e = u div 2 ^ 23"
    have "e < 143" unfolding e_def by (rule less_mult_imp_div_less) (use 3 in simp)
    then have e: "102 \<le> e" "e \<le> 142" using 3 unfolding e_def by (simp_all add: less_eq_div_iff_mult_less_eq)
    let ?e = "take_bit 8 (drop_bit 23 ?u)" and ?m = "take_bit 23 ?u"
    have E: "unat ?e = e" unfolding unat_take [of 8] unat_drop U using e by (simp add: e_def)
    have M: "unat ?m = u mod 2 ^ 23" unfolding unat_take [of 23] U ..
    have big: "?e > 0x70 \<longleftrightarrow> e > 112" unfolding word_less_nat_alt E by simp
    define sh ex ma where "sh = (if e > 112 then 13 else 0x7e - ?e)" and "ex = (if e > 112 then ?e - 0x70 else 0)"
      and "ma = (if e > 112 then ?m else ?m OR 0x800000)"
    have sh: "unat sh = (if e > 112 then 13 else 126 - e)"
      unfolding sh_def using E e unat_minus [of ?e "0x7e :: 32 word"] by simp
    have ex: "unat ex = e - 112" unfolding ex_def using E unat_minus [of "0x70 :: 32 word" ?e] by simp
    have ma: "unat ma = u mod 2 ^ 23 + (if e > 112 then 0 else 2 ^ 23)"
      unfolding ma_def using M set_bit_23 [of ?m] by simp
    have mal: "unat ma < 2 ^ (unat sh + 10)"
    proof (cases "e > 112")
      case False
      have "u mod 2 ^ 23 < 2 ^ 23" by simp
      then have "unat ma < 2 ^ 24" using ma False by simp
      also have "(2 :: nat) ^ 24 \<le> 2 ^ (unat sh + 10)" using sh False e by (intro power_increasing) auto
      finally show ?thesis .
    qed (use sh ma in simp)
    have "1 \<le> unat sh" "unat sh \<le> 24" "(10 :: nat) \<le> 10" "unat ex < 2 ^ 8" "0x3ff = (mask 10 :: 32 word)"
      using sh ex e by (auto simp: mask_eq_exp_minus_1)
    from round_mantissa_exact [OF this(1,2) mal this(3,4,5)] obtain e' m' where
      r: "round_mantissa 0x3ff sh ex ma = (e', m')" "unat m' < 2 ^ 10" "unat e' \<le> unat ex + 1"
        "unat e' * 2 ^ 10 + unat m' = unat ex * 2 ^ 10 + unat ma div 2 ^ unat sh
          + (if rounds_up (unat sh) (unat ma mod 2 ^ unat sh) (unat ma div 2 ^ unat sh) then 1 else 0)"
      by blast
    have hn: "half_number u = unat e' * 2 ^ 10 + unat m'"
      unfolding r(4) half_number_def Let_def e_def [symmetric] sh ex ma by (simp add: rounds_up_parity)
    have "cpu_float2ihalf_rn x = ucast (?sign OR push_bit 10 e' OR m')"
    proof -
      have t: "(if ?e > 0x70 then (13, ?e - 0x70, ?m) else (0x7e - ?e, 0, ?m OR 0x800000)) = (sh, ex, ma)"
        unfolding big sh_def ex_def ma_def by simp
      show ?thesis using 3 u(2) by (simp only: cpu_float2ihalf_rn_def masks Let_def cmp t r(1) prod.case) (simp add: not_less)
    qed
    moreover have p: "unat (push_bit 10 e') = unat e' * 2 ^ 10" by (rule unat_push) (use r(3) ex e in simp)
    have o: "unat (push_bit 10 e' OR m') = unat e' * 2 ^ 10 + unat m'"
      unfolding p [symmetric] by (rule unat_or) (use r(2) in \<open>simp_all only: p mod_mult_self2_is_0\<close>)
    have "unat (push_bit 10 e' OR m') < 2 ^ 15" unfolding o using r(2,3) ex e by simp
    ultimately show ?thesis using signed_half [of "push_bit 10 e' OR m'" x] 3 o hn by (simp add: or.assoc)
  qed
qed



lemma rounded_nearest:
  fixes u s b n d e :: nat
  defines "m \<equiv> u mod 2 ^ 23 + (if 0 < b then 0 else 2 ^ 23)"
  assumes e: "e = u div 2 ^ 23" "1 \<le> e" and s: "1 \<le> s" and fit: "m div 2 ^ s < 2 ^ n"
    and full: "0 < b \<Longrightarrow> s = 23 - n \<and> n \<le> 22 \<and> 23 + e = b + d + n"
    and short: "b = 0 \<Longrightarrow> s + (e - 1) = d"
  shows "nearest_even (\<lambda>j. magnitude n j * 2 ^ d) (magnitude 23 u)
    (b * 2 ^ n + m div 2 ^ s + (if rounds_up s (m mod 2 ^ s) (b * 2 ^ n + m div 2 ^ s) then 1 else 0))"
proof (rule nearest_even_round [where c = "2 ^ (e - 1)"])
  let ?q = "b * 2 ^ n + m div 2 ^ s" and ?c = "2 ^ (e - 1) :: nat"
  show "magnitude n i * 2 ^ d < magnitude n j * 2 ^ d" if "i < j" for i j using magnitude_strict [OF that] by simp
  show "1 \<le> s" "m mod 2 ^ s < 2 ^ s" "0 < ?c" using s by simp_all
  have F: "magnitude 23 u = (2 ^ 23 + u mod 2 ^ 23) * ?c" using e by (simp add: magnitude_def)
  have G: "magnitude n ?q = (if b = 0 then m div 2 ^ s else (2 ^ n + m div 2 ^ s) * 2 ^ (b - 1))"
    by (rule magnitude_fields [OF fit])
  have qb: "?q div 2 ^ n = b" using fit by simp
  have step: "2 ^ s * ?c = 2 ^ (b - 1) * 2 ^ d"
  proof (cases "b = 0")
    case True
    then show ?thesis using short by (simp flip: power_add)
  next
    case False
    then have "s + (e - 1) = b - 1 + d" using full e(2) by simp
    then show ?thesis by (simp flip: power_add)
  qed
  show "magnitude n (Suc ?q) * 2 ^ d = magnitude n ?q * 2 ^ d + 2 ^ s * ?c"
    unfolding magnitude_Suc qb step by (simp add: algebra_simps)
  show "magnitude 23 u = magnitude n ?q * 2 ^ d + m mod 2 ^ s * ?c"
  proof (cases "b = 0")
    case True
    have "magnitude 23 u = m * ?c" unfolding F m_def using True by simp
    also have "\<dots> = (2 ^ s * (m div 2 ^ s) + m mod 2 ^ s) * ?c" by (simp only: mult_div_mod_eq)
    also have "\<dots> = (m div 2 ^ s) * (2 ^ s * ?c) + m mod 2 ^ s * ?c" by (simp only: algebra_simps)
    finally show ?thesis unfolding step G using True by simp
  next
    case False
    have "(2 :: nat) ^ 23 = 2 ^ s * 2 ^ n" using full False by (simp flip: power_add)
    then have "2 ^ 23 + (2 ^ s * (m div 2 ^ s) + m mod 2 ^ s) = 2 ^ s * (2 ^ n + m div 2 ^ s) + m mod 2 ^ s"
      by (simp only: algebra_simps)
    then have sum: "2 ^ 23 + m = 2 ^ s * (2 ^ n + m div 2 ^ s) + m mod 2 ^ s" by (simp only: mult_div_mod_eq)
    have "magnitude 23 u = (2 ^ 23 + m) * ?c" unfolding F m_def using False by simp
    then have "magnitude 23 u = (2 ^ n + m div 2 ^ s) * (2 ^ s * ?c) + m mod 2 ^ s * ?c"
      unfolding sum by (simp only: algebra_simps)
    then show ?thesis unfolding step G using False by (simp add: algebra_simps)
  qed
qed

lemma half_number_nearest:
  assumes "102 \<le> u div 2 ^ 23" "u div 2 ^ 23 \<le> 254"
  shows "nearest_even (\<lambda>j. magnitude 10 j * 2 ^ 125) (magnitude 23 u) (half_number u)"
proof (cases "112 < u div 2 ^ 23")
  case True
  have "u mod 2 ^ 23 div 2 ^ 13 < 2 ^ 10" by (rule less_mult_imp_div_less) simp
  then have "nearest_even (\<lambda>j. magnitude 10 j * 2 ^ 125) (magnitude 23 u)
    ((u div 2 ^ 23 - 112) * 2 ^ 10 + u mod 2 ^ 23 div 2 ^ 13
      + (if rounds_up 13 (u mod 2 ^ 23 mod 2 ^ 13) ((u div 2 ^ 23 - 112) * 2 ^ 10 + u mod 2 ^ 23 div 2 ^ 13) then 1 else 0))"
    using rounded_nearest [of "u div 2 ^ 23" u 13 "u div 2 ^ 23 - 112" 10 125] True by simp
  then show ?thesis using True by (simp add: half_number_def Let_def)
next
  case False
  let ?s = "126 - u div 2 ^ 23" and ?m = "u mod 2 ^ 23 + 2 ^ 23"
  have "?m < 2 ^ 10 * 2 ^ 14" by simp
  also have "\<dots> \<le> 2 ^ 10 * 2 ^ ?s" using False by (intro mult_left_mono power_increasing) auto
  finally have "?m div 2 ^ ?s < 2 ^ 10" by (rule less_mult_imp_div_less)
  then have "nearest_even (\<lambda>j. magnitude 10 j * 2 ^ 125) (magnitude 23 u)
    (0 * 2 ^ 10 + ?m div 2 ^ ?s + (if rounds_up ?s (?m mod 2 ^ ?s) (0 * 2 ^ 10 + ?m div 2 ^ ?s) then 1 else 0))"
    using rounded_nearest [of "u div 2 ^ 23" u ?s 0 10 125] False assms by simp
  then show ?thesis using False by (simp add: half_number_def Let_def)
qed

lemma half_number_overflows:
  assumes "0x33000001 \<le> u" shows "0x7c00 \<le> half_number u \<longleftrightarrow> 0x477fefff < u"
proof -
  let ?e = "u div 2 ^ 23" and ?f = "u mod 2 ^ 23"
  have u: "u = ?e * 2 ^ 23 + ?f" "?f < 2 ^ 23" by simp_all
  consider "?e \<le> 112" | "112 < ?e" "?e < 142" | "?e = 142" | "142 < ?e" by linarith
  then show ?thesis
  proof cases
    case 1
    let ?s = "126 - ?e" and ?m = "u mod 2 ^ 23 + 2 ^ 23"
    have "?m < 2 ^ 10 * 2 ^ 14" by simp
    also have "\<dots> \<le> 2 ^ 10 * 2 ^ ?s" using 1 by (intro mult_left_mono power_increasing) auto
    finally have "?m div 2 ^ ?s < 2 ^ 10" by (rule less_mult_imp_div_less)
    then have "half_number u < 0x7c00" using 1 by (simp add: half_number_def Let_def)
    moreover have "u \<le> 0x477fefff" using 1 div_less_iff_less_mult [of "2 ^ 23" u 113] by simp
    ultimately show ?thesis by simp
  next
    case 2
    have "?f div 2 ^ 13 < 2 ^ 10" by (rule less_mult_imp_div_less) simp
    moreover have "(?e - 112) * 2 ^ 10 \<le> 29 * 2 ^ 10" using 2 by (intro mult_right_mono) auto
    ultimately have "(?e - 112) * 2 ^ 10 + ?f div 2 ^ 13 + 1 \<le> 29 * 2 ^ 10 + 2 ^ 10" by linarith
    then have "half_number u \<le> 29 * 2 ^ 10 + 2 ^ 10" using 2 by (simp add: half_number_def Let_def)
    moreover have "u \<le> 0x477fefff" using 2 div_less_iff_less_mult [of "2 ^ 23" u 142] by simp
    ultimately show ?thesis by simp
  next
    case 3
    let ?q = "?f div 2 ^ 13" and ?r = "?f mod 2 ^ 13"
    have f: "?f = 2 ^ 13 * ?q + ?r" "?q < 2 ^ 10" "?r < 2 ^ 13"
      using less_mult_imp_div_less [of ?f "2 ^ 10" "2 ^ 13"] by simp_all
    have hn: "half_number u = 30 * 2 ^ 10 + ?q + (if rounds_up 13 ?r (30 * 2 ^ 10 + ?q) then 1 else 0)"
      using 3 by (simp add: half_number_def Let_def)
    have un: "0x477fefff < u \<longleftrightarrow> 0x7fefff < ?f"
    proof -
      define f where "f = ?f"
      have "u = 142 * 2 ^ 23 + f" using u(1) unfolding 3 f_def .
      then show ?thesis unfolding f_def [symmetric] by simp
    qed
    show ?thesis
    proof (cases "?q = 1023")
      case True
      then have "rounds_up 13 ?r (30 * 2 ^ 10 + ?q) \<longleftrightarrow> 2 ^ 12 \<le> ?r" by (auto simp: rounds_up_def le_less)
      moreover have "0x7fefff < ?f \<longleftrightarrow> 2 ^ 12 \<le> ?r"
      proof -
        define g r where "g = ?f" and "r = ?r"
        have "g = 2 ^ 13 * 1023 + r" using f(1) unfolding True g_def r_def .
        then show ?thesis unfolding r_def [symmetric] unfolding g_def [symmetric] by auto
      qed
      ultimately show ?thesis unfolding hn un True by simp
    next
      case False
      then have "?q < 1023" using f(2) by simp
      then have "half_number u < 0x7c00" unfolding hn by simp
      moreover have "\<not> 0x7fefff < ?f" using f(1,3) \<open>?q < 1023\<close> by simp
      ultimately show ?thesis unfolding un by simp
    qed
  next
    case 4
    then have "31 * 2 ^ 10 \<le> (?e - 112) * 2 ^ 10" by (intro mult_right_mono) auto
    then have "31 * 2 ^ 10 \<le> (?e - 112) * 2 ^ 10 + ?f div 2 ^ 13" by (rule trans_le_add1)
    then have "31 * 2 ^ 10 \<le> half_number u" using 4 by (simp add: half_number_def Let_def)
    moreover have "0x477fefff < u" using 4 less_eq_div_iff_mult_less_eq [of "2 ^ 23" 143 u] by simp
    ultimately show ?thesis by simp
  qed
qed

lemma underflow_nearest:
  assumes "\<And>i j. i < j \<Longrightarrow> G i < (G j :: nat)" "G 0 = 0" "2 * F \<le> G 1" shows "nearest_even G F 0"
  unfolding nearest_even_def
proof (intro allI conjI impI)
  fix j show "\<bar>int F - int (G 0)\<bar> \<le> \<bar>int F - int (G j)\<bar>"
  proof (cases j)
    case (Suc i)
    then have "G 1 \<le> G j" using assms(1) [of 1 j] by (cases "j = 1") auto
    then show ?thesis using assms(2,3) by simp
  qed simp
qed simp



subsection \<open>From half precision to float\<close>

lemma normalize_exact:
  assumes "0 < unat M" "unat M < 2 ^ 23" "2 ^ 22 \<le> unat M * 2 ^ n" "n + 2 \<le> unat E" "unat E < 2 ^ 8"
  shows "\<exists>M' E' j. normalize_mantissa M E = Some (M', E') \<and> j \<le> Suc n \<and> unat M' = unat M * 2 ^ j \<and> 2 ^ 23 \<le> unat M' \<and> unat M' < 2 ^ 24
    \<and> unat E' + j = unat E"
  using assms
proof (induction n arbitrary: M E)
  case (0 M E)
  have "bit M 22" using 0 by (subst bit_high) simp_all
  then have "normalize_mantissa M E = Some (push_bit 1 M, E - 1)" by (subst normalize_mantissa.simps) (simp only: bits Let_def, simp)
  moreover have "unat (push_bit 1 M) = unat M * 2 ^ 1" by (rule unat_push) (use 0 in simp)
  moreover have "unat (E - 1) = unat E - 1" using 0 by (subst unat_minus) simp_all
  ultimately show ?case using 0 by (intro exI [of _ "push_bit 1 M"] exI [of _ "E - 1"] exI [of _ 1]) simp
next
  case (Suc n M E)
  have p: "unat (push_bit 1 M) = unat M * 2 ^ 1" by (rule unat_push) (use Suc.prems in simp)
  have e: "unat (E - 1) = unat E - 1" using Suc.prems by (subst unat_minus) simp_all
  show ?case
  proof (cases "2 ^ 22 \<le> unat M")
    case True
    then have "bit M 22" using Suc.prems by (subst bit_high) simp_all
    then have "normalize_mantissa M E = Some (push_bit 1 M, E - 1)" by (subst normalize_mantissa.simps) (simp only: bits Let_def, simp)
    then show ?thesis using Suc.prems True p e by (intro exI [of _ "push_bit 1 M"] exI [of _ "E - 1"] exI [of _ 1]) simp
  next
    case False
    then have "\<not> bit M 22" using Suc.prems by (subst bit_high) simp_all
    then have r: "normalize_mantissa M E = normalize_mantissa (push_bit 1 M) (E - 1)" by (subst normalize_mantissa.simps) (simp only: bits Let_def, simp)
    have "2 ^ 22 \<le> unat (push_bit 1 M) * 2 ^ n" using Suc.prems(3) p by (simp add: mult.assoc)
    moreover have "0 < unat (push_bit 1 M)" "unat (push_bit 1 M) < 2 ^ 23" "n + 2 \<le> unat (E - 1)" "unat (E - 1) < 2 ^ 8"
      unfolding p e using Suc.prems False by simp_all
    ultimately obtain M' E' j where
      "normalize_mantissa (push_bit 1 M) (E - 1) = Some (M', E')" "j \<le> Suc n" "unat M' = unat (push_bit 1 M) * 2 ^ j"
      "2 ^ 23 \<le> unat M'" "unat M' < 2 ^ 24" "unat E' + j = unat E - 1" using Suc.IH [of "push_bit 1 M" "E - 1"] unfolding e by blast
    then show ?thesis using r p Suc.prems(4) by (intro exI [of _ M'] exI [of _ E'] exI [of _ "Suc j"]) simp
  qed
qed

lemma assembled:
  assumes "unat (s :: 32 word) \<le> 1" "unat e < 2 ^ 8" "unat m < 2 ^ 23"
  shows "unat (push_bit 31 s OR push_bit 23 e OR m) = unat s * 2 ^ 31 + (unat e * 2 ^ 23 + unat m)"
    and "unat e * 2 ^ 23 + unat m < 2 ^ 31"
proof -
  have p: "unat (push_bit 31 s) = unat s * 2 ^ 31" "unat (push_bit 23 e) = unat e * 2 ^ 23"
    using assms by (simp_all add: unat_push)
  have o: "unat (push_bit 23 e OR m) = unat e * 2 ^ 23 + unat m"
    unfolding p(2) [symmetric] by (rule unat_or) (use assms in \<open>simp_all only: p mod_mult_self2_is_0\<close>)
  show b: "unat e * 2 ^ 23 + unat m < 2 ^ 31" using assms by simp
  have "unat (push_bit 31 s OR (push_bit 23 e OR m)) = unat (push_bit 31 s) + unat (push_bit 23 e OR m)"
    by (rule unat_or) (use b in \<open>simp_all only: p o mod_mult_self2_is_0\<close>)
  then show "unat (push_bit 31 s OR push_bit 23 e OR m) = unat s * 2 ^ 31 + (unat e * 2 ^ 23 + unat m)"
    unfolding p o by (simp only: or.assoc)
qed

lemma top_bit: "b < 2 ^ n \<Longrightarrow> (a * 2 ^ n + b :: nat) div 2 ^ n = a \<and> (a * 2 ^ n + b) mod 2 ^ n = b"
  by simp

text \<open>A half precision number that is not a NaN.\<close>

lemma ihalf2float_exact:
  assumes "unat h mod 2 ^ 15 \<le> 0x7c00"
  shows "\<exists>x. cpu_ihalf2float h = Some x \<and> unat x div 2 ^ 31 = unat h div 2 ^ 15
    \<and> (if unat h mod 2 ^ 15 = 0x7c00 then unat x mod 2 ^ 31 = 0x7f800000
       else unat x mod 2 ^ 31 < 0x7f800000 \<and> magnitude 23 (unat x mod 2 ^ 31) = magnitude 10 (unat h mod 2 ^ 15) * 2 ^ 125)"
proof -
  define u where "u = unat h mod 2 ^ 15"
  let ?x = "ucast h :: 32 word"
  have h: "unat h < 2 ^ 16" using unsigned_less [of h] by simp
  have x: "unat ?x = unat h" unfolding unat_narrow using h by simp
  define s e m where "s = take_bit 1 (drop_bit 15 ?x)" and "e = take_bit 5 (drop_bit 10 ?x)" and "m = push_bit 13 (take_bit 10 ?x)"
  define f where "f = u mod 2 ^ 10"
  have s1: "unat s = unat h div 2 ^ 15"
  proof -
    have "unat h div 2 ^ 15 < 2" using h by (simp add: less_mult_imp_div_less)
    then show ?thesis unfolding s_def unat_take [of 1] unat_drop x by simp
  qed
  then have s: "unat s \<le> 1" using h less_mult_imp_div_less [of "unat h" 2 "2 ^ 15"] by simp
  have e: "unat e = u div 2 ^ 10"
  proof -
    have "unat h div 2 ^ 10 mod 2 ^ 5 = unat h mod (2 ^ 10 * 2 ^ 5) div 2 ^ 10"
      by (subst mod_mult2_eq) simp
    then show ?thesis unfolding e_def unat_take [of 5] unat_drop x u_def by simp
  qed
  have f: "unat h mod 2 ^ 10 = f" "f < 2 ^ 10" unfolding f_def u_def by (simp_all add: mod_mod_cancel)
  have m: "unat m = f * 2 ^ 13"
    unfolding m_def by (subst unat_push) (use f in \<open>simp_all add: unat_take x\<close>)
  have u: "u = u div 2 ^ 10 * 2 ^ 10 + f" unfolding f_def by (rule div_mult_mod_eq [symmetric])
  have e31: "u div 2 ^ 10 \<le> 31" using assms unfolding u_def [symmetric] by (simp add: div_le_mono [of u "31 * 2 ^ 10" "2 ^ 10", simplified])
  have run: "cpu_ihalf2float h = do {
        (sign, exponent, mantissa) \<leftarrow>
          (if e = 0x1f then Some (if m \<noteq> 0 then (0, 0xff, 0x7fffff) else (s, 0xff, 0))
           else if e = 0 then
             (if m \<noteq> 0 then do {
                (mantissa, exponent) \<leftarrow> normalize_mantissa m 0x71; Some (s, exponent, take_bit 23 mantissa) }
              else Some (s, e, m))
           else Some (s, e + 0x70, m));
        Some (push_bit 31 sign OR push_bit 23 exponent OR mantissa) }"
    unfolding cpu_ihalf2float_def Let_def masks s_def e_def m_def ..
  have finish: "\<exists>x. Some (push_bit 31 s OR push_bit 23 e' OR m') = Some x \<and> unat x div 2 ^ 31 = unat h div 2 ^ 15 \<and> unat x mod 2 ^ 31 = unat e' * 2 ^ 23 + unat m'"
    if "unat e' < 2 ^ 8" "unat m' < 2 ^ 23" for e' m'
  proof -
    note t = top_bit [OF assembled(2) [OF s that], of "unat s"]
    have "unat (push_bit 31 s OR push_bit 23 e' OR m') div 2 ^ 31 = unat s"
      "unat (push_bit 31 s OR push_bit 23 e' OR m') mod 2 ^ 31 = unat e' * 2 ^ 23 + unat m'"
      unfolding assembled(1) [OF s that] by (rule conjunct1 [OF t], rule conjunct2 [OF t])
    then show ?thesis using s1 by (intro exI conjI refl) simp_all
  qed
  consider "u div 2 ^ 10 = 31" | "u div 2 ^ 10 = 0" "f = 0" | "u div 2 ^ 10 = 0" "0 < f" | "0 < u div 2 ^ 10" "u div 2 ^ 10 < 31"
    using e31 by linarith
  then show ?thesis unfolding u_def [symmetric]
  proof cases
    case 1
    then have "f = 0" using assms u unfolding u_def [symmetric] by simp
    then have "m = 0" "e = 0x1f" using m e 1 by (simp_all add: word_unat_eq_iff)
    then have "cpu_ihalf2float h = Some (push_bit 31 s OR push_bit 23 0xff OR 0)" unfolding run by simp
    moreover have "u = 0x7c00" using u 1 \<open>f = 0\<close> by simp
    ultimately show "\<exists>x. cpu_ihalf2float h = Some x \<and> unat x div 2 ^ 31 = unat h div 2 ^ 15
      \<and> (if u = 0x7c00 then unat x mod 2 ^ 31 = 0x7f800000
         else unat x mod 2 ^ 31 < 0x7f800000 \<and> magnitude 23 (unat x mod 2 ^ 31) = magnitude 10 u * 2 ^ 125)"
      using finish [of "0xff" 0] by simp
  next
    case 2
    then have "m = 0" "e = 0" using m e by (simp_all add: word_unat_eq_iff)
    then have "cpu_ihalf2float h = Some (push_bit 31 s OR push_bit 23 0 OR 0)" unfolding run by simp
    moreover have "u = 0" using u 2 by simp
    ultimately show "\<exists>x. cpu_ihalf2float h = Some x \<and> unat x div 2 ^ 31 = unat h div 2 ^ 15
      \<and> (if u = 0x7c00 then unat x mod 2 ^ 31 = 0x7f800000
         else unat x mod 2 ^ 31 < 0x7f800000 \<and> magnitude 23 (unat x mod 2 ^ 31) = magnitude 10 u * 2 ^ 125)"
      using finish [of 0 0] by (simp add: magnitude_def)
  next
    case 3
    then have m0: "m \<noteq> 0" "e = 0" using m e by (simp_all add: word_unat_eq_iff)
    have "2 ^ 22 \<le> unat m * 2 ^ 9" "0 < unat m" "unat m < 2 ^ 23" unfolding m using 3 f(2) by simp_all
    then obtain M' E' j where n: "normalize_mantissa m 0x71 = Some (M', E')" "j \<le> 10" "unat M' = unat m * 2 ^ j" "2 ^ 23 \<le> unat M'"
      "unat M' < 2 ^ 24" "unat E' + j = 0x71"
      using normalize_exact [of m 9 "0x71"] by auto
    have t: "unat (take_bit 23 M') = unat M' - 2 ^ 23"
      unfolding unat_take using n(4,5) by (simp add: mod_if)
    have "cpu_ihalf2float h = Some (push_bit 31 s OR push_bit 23 E' OR take_bit 23 M')"
      unfolding run using m0 n(1) by simp
    with finish [of E' "take_bit 23 M'"] n below [of 23 M'] obtain y where
      y: "cpu_ihalf2float h = Some y" "unat y div 2 ^ 31 = unat h div 2 ^ 15" "unat y mod 2 ^ 31 = unat E' * 2 ^ 23 + (unat M' - 2 ^ 23)"
      unfolding t by auto
    have E': "unat E' = 0x71 - j" "0 < unat E'" using n(2,6) by simp_all
    have "magnitude 23 (unat y mod 2 ^ 31) = (2 ^ 23 + (unat M' - 2 ^ 23)) * 2 ^ (unat E' - 1)"
      unfolding y(3) using E' n(4,5) by (subst magnitude_fields) auto
    also have "\<dots> = unat m * (2 ^ j * 2 ^ (0x71 - j - 1))" using n(3,4) E' by simp
    also have "2 ^ j * 2 ^ (0x71 - j - 1) = (2 :: nat) ^ 112" using n(2) by (simp flip: power_add)
    also have "unat m * 2 ^ 112 = f * 2 ^ 125" unfolding m by simp
    finally have "magnitude 23 (unat y mod 2 ^ 31) = magnitude 10 u * 2 ^ 125" using u 3 by (simp add: magnitude_def)
    moreover have "unat y mod 2 ^ 31 < 0x7f800000" unfolding y(3) using E' n(5) by simp
    moreover have "u < 0x7c00" using u 3 f(2) by simp
    ultimately show "\<exists>x. cpu_ihalf2float h = Some x \<and> unat x div 2 ^ 31 = unat h div 2 ^ 15
      \<and> (if u = 0x7c00 then unat x mod 2 ^ 31 = 0x7f800000
         else unat x mod 2 ^ 31 < 0x7f800000 \<and> magnitude 23 (unat x mod 2 ^ 31) = magnitude 10 u * 2 ^ 125)"
      using y(1,2) by auto
  next
    case 4
    then have e0: "e \<noteq> 0x1f" "e \<noteq> 0" using e by (auto simp: word_unat_eq_iff)
    have ep: "unat (e + 0x70) = u div 2 ^ 10 + 112" using e 4 by (subst unat_plus) simp_all
    have "cpu_ihalf2float h = Some (push_bit 31 s OR push_bit 23 (e + 0x70) OR m)" unfolding run using e0 by simp
    with finish [of "e + 0x70" m] obtain y where
      y: "cpu_ihalf2float h = Some y" "unat y div 2 ^ 31 = unat h div 2 ^ 15" "unat y mod 2 ^ 31 = (u div 2 ^ 10 + 112) * 2 ^ 23 + f * 2 ^ 13"
      unfolding ep m using 4 f(2) by auto
    have "magnitude 23 (unat y mod 2 ^ 31) = (2 ^ 23 + f * 2 ^ 13) * 2 ^ (u div 2 ^ 10 + 112 - 1)"
      unfolding y(3) using f(2) by (subst magnitude_fields) simp_all
    also have "u div 2 ^ 10 + 112 - 1 = (u div 2 ^ 10 - 1) + 112" using 4(1) by linarith
    also have "2 ^ (u div 2 ^ 10 - 1 + 112) = (2 :: nat) ^ (u div 2 ^ 10 - 1) * 2 ^ 112" by (rule power_add)
    also have "(2 ^ 23 + f * 2 ^ 13) * (2 ^ (u div 2 ^ 10 - 1) * 2 ^ 112) = (2 ^ 10 + f) * 2 ^ (u div 2 ^ 10 - 1) * 2 ^ 125"
      by simp
    also have "(2 ^ 10 + f) * 2 ^ (u div 2 ^ 10 - 1) = magnitude 10 u"
      using magnitude_fields [OF f(2), of "u div 2 ^ 10"] u 4(1) by simp
    finally have "magnitude 23 (unat y mod 2 ^ 31) = magnitude 10 u * 2 ^ 125" .
    moreover have "unat y mod 2 ^ 31 < 0x7f800000" unfolding y(3) using 4 f(2) by simp
    moreover have "u < 0x7c00" using u 4 f(2) by simp
    ultimately show "\<exists>x. cpu_ihalf2float h = Some x \<and> unat x div 2 ^ 31 = unat h div 2 ^ 15
      \<and> (if u = 0x7c00 then unat x mod 2 ^ 31 = 0x7f800000
         else unat x mod 2 ^ 31 < 0x7f800000 \<and> magnitude 23 (unat x mod 2 ^ 31) = magnitude 10 u * 2 ^ 125)"
      using y(1,2) by auto
  qed
qed



subsection \<open>Integers\<close>

lemma int_float_exact:
  assumes "\<bar>n\<bar> < 2 ^ 24"
  shows "\<exists>x. int_to_float n = Some x \<and> float_to_int x = Some n"
proof (cases "n = 0")
  case True
  then show ?thesis by (simp add: int_to_float_def float_to_int_def i32_def)
next
  case False
  define m where "m = nat \<bar>n\<bar>"
  define e where "e = floorlog 2 m - 1"
  define s where "s = (if n < 0 then 2 ^ 31 else 0 :: nat)"
  have m: "0 < m" "m < 2 ^ 24" using False assms by (auto simp: m_def nat_less_iff)
  have "0 < floorlog 2 m" using m(1) by (simp add: floorlog_def)
  then have b: "2 ^ e \<le> m" "m < 2 * 2 ^ e"
    using floorlog_bounds [OF m(1), of 2] by (simp_all add: e_def flip: power_Suc)
  have e: "e \<le> 23"
  proof (rule ccontr)
    assume "\<not> e \<le> 23"
    then have "(2 :: nat) ^ 24 \<le> 2 ^ e" by (intro power_increasing) auto
    then show False using b(1) m(2) by simp
  qed
  define f where "f = m * 2 ^ (23 - e) - 2 ^ 23"
  have p: "(2 :: nat) ^ e * 2 ^ (23 - e) = 2 ^ 23" using e by (simp flip: power_add)
  have lo: "2 ^ 23 \<le> m * 2 ^ (23 - e)" using mult_right_mono [OF b(1), of "2 ^ (23 - e)"] unfolding p by simp
  have "m * 2 ^ (23 - e) < 2 * 2 ^ e * 2 ^ (23 - e)" using b(2) by (intro mult_strict_right_mono) auto
  then have "m * 2 ^ (23 - e) < 2 * 2 ^ 23" unfolding mult.assoc p .
  then have f: "f < 2 ^ 23" "2 ^ 23 + f = m * 2 ^ (23 - e)" using lo by (simp_all add: f_def)
  define u where "u = (127 + e) * 2 ^ 23 + f"
  have u: "u div 2 ^ 23 = 127 + e" "u mod 2 ^ 23 = f" "u < 2 ^ 31"
    unfolding u_def using top_bit [OF f(1), of "127 + e"] f(1) e by simp_all
  let ?x = "word_of_nat (s + u) :: 32 word"
  have "s + u < 2 ^ 32" using u(3) by (simp add: s_def)
  then have x: "unat ?x = s + u" by (simp only: unat_of_nat) simp
  have su: "unat ?x mod 2 ^ 31 = u" "unat ?x div 2 ^ 31 = (if n < 0 then 1 else 0)"
    unfolding x using u(3) by (simp_all add: s_def)
  have d: "150 - (127 + e) = 23 - e" using e by simp
  have q: "m * 2 ^ (23 - e) div 2 ^ (23 - e) = m" by simp
  have "int_to_float n = Some ?x"
    using False m unfolding int_to_float_def Let_def m_def [symmetric] e_def [symmetric]
    by (simp add: s_def u_def f_def)
  moreover have "float_to_int ?x = i32 (if n < 0 then - int m else int m)"
    using e unfolding float_to_int_def Let_def su u d f q by simp
  moreover have "(if n < 0 then - int m else int m) = n" by (simp add: m_def)
  moreover have "i32 n = Some n" using assms by (simp add: i32_def abs_less_iff)
  ultimately show ?thesis by auto
qed

end
