(* ===== verification/FloatProperties.thy ===== *)
theory FloatProperties
  imports FloatConversions
begin

text \<open>The properties of the short element types (\<open>include/types\<close>).\<close>

unbundle bit_operations_syntax

subsection \<open>Half precision\<close>

lemma and_shifted: "push_bit n a AND b = push_bit n (a AND drop_bit n b :: 'a :: len word)"
  by (rule bit_word_eqI) (auto simp: bit_simps)

lemma half_fields:
  fixes h :: "16 word"
  defines "e \<equiv> unat h div 2 ^ 10 mod 2 ^ 5" and "f \<equiv> unat h mod 2 ^ 10"
  shows "h AND 0x7c00 = 0x7c00 \<longleftrightarrow> e = 31" "h AND 0x03ff = 0 \<longleftrightarrow> f = 0" "unat h mod 2 ^ 15 = e * 2 ^ 10 + f" "e \<le> 31" "f < 2 ^ 10"
proof -
  have f: "unat (h AND 0x03ff) = f"
    using unat_take [of 10 h] by (simp add: take_bit_eq_mask mask_eq_exp_minus_1 f_def)
  then show "h AND 0x03ff = 0 \<longleftrightarrow> f = 0" by (metis unat_eq_zero)
  have c: "(0x7c00 :: 16 word) = push_bit 10 31" by (simp add: push_bit_eq_mult)
  have "h AND 0x7c00 = push_bit 10 (31 AND drop_bit 10 h)" unfolding c and_shifted [symmetric] by (simp only: and.commute)
  also have "31 AND drop_bit 10 h = take_bit 5 (drop_bit 10 h)"
    by (simp add: take_bit_eq_mask mask_eq_exp_minus_1 and.commute)
  finally have "unat (h AND 0x7c00) = e * 2 ^ 10"
    by (simp only:) (subst unat_push, simp_all add: unat_take unat_drop e_def)
  then show "h AND 0x7c00 = 0x7c00 \<longleftrightarrow> e = 31" by (simp add: word_unat_eq_iff)
  show "unat h mod 2 ^ 15 = e * 2 ^ 10 + f"
    using mod_mult2_eq [of "unat h" "2 ^ 10" "2 ^ 5"] by (simp add: e_def f_def)
  have "e < 2 ^ 5" "f < 2 ^ 10" by (simp_all add: e_def f_def)
  then show "e \<le> 31" "f < 2 ^ 10" by simp_all
qed

lemma ishnan_iff: "ishnan h \<longleftrightarrow> 0x7c00 < unat h mod 2 ^ 15"
  using half_fields [of h] by (auto simp: ishnan_def)

lemma ishinf_iff: "ishinf h \<longleftrightarrow> unat h mod 2 ^ 15 = 0x7c00"
proof -
  have "e * 2 ^ 10 + f = 31 * 2 ^ 10 \<longleftrightarrow> e = 31 \<and> f = 0" if "f < 2 ^ 10" for e f :: nat
    using that top_bit [OF that, of e] by (metis add_0_right mult_div_mod_eq nonzero_mult_div_cancel_right div_mult_self_is_m mod_mult_self2_is_0 zero_less_numeral zero_less_power)
  from this [OF half_fields(5)] show ?thesis unfolding ishinf_def half_fields(1,2) half_fields(3) [of h] by simp
qed

lemma half_nan:
  assumes "ishnan h" shows "cpu_ihalf2float h = Some 0x7fffffff"
proof -
  have word_less: "unat h < 2 ^ 16" using unsigned_less [of h] by simp
  note f = half_fields [of h] and n = assms [unfolded ishnan_def]
  have x: "unat (ucast h :: 32 word) = unat h"
    using word_less unfolding unat_narrow by simp
  have e: "take_bit 5 (drop_bit 10 (ucast h :: 32 word)) = 0x1f"
    using f(1) n by (simp add: word_unat_eq_iff unat_take unat_drop x)
  have "unat (push_bit 13 (take_bit 10 (ucast h :: 32 word))) = unat h mod 2 ^ 10 * 2 ^ 13"
    using f(5) by (subst unat_push) (simp_all add: unat_take x)
  then have "push_bit 13 (take_bit 10 (ucast h :: 32 word)) \<noteq> 0" using f(2) n by auto
  then show ?thesis unfolding cpu_ihalf2float_def Let_def masks e by simp
qed

lemma half_grid_strict: "i < j \<Longrightarrow> magnitude 10 i * 2 ^ 125 < magnitude 10 j * 2 ^ 125"
  using magnitude_strict by simp

lemma float_to_half_finite:
  assumes "unat x mod 2 ^ 31 < 0x7f800000"
  shows "\<exists>k. nearest_even (\<lambda>j. magnitude 10 j * 2 ^ 125) (magnitude 23 (unat x mod 2 ^ 31)) k
    \<and> unat (cpu_float2ihalf_rn x) = unat x div 2 ^ 31 * 2 ^ 15 + min k 0x7c00"
proof -
  define u where "u = unat x mod 2 ^ 31"
  note b = float2ihalf_bits [OF u_def]
  have u: "u < 255 * 2 ^ 23" using assms unfolding u_def by simp
  then have e: "u div 2 ^ 23 \<le> 254" using less_mult_imp_div_less [OF u] by simp
  show ?thesis unfolding u_def [symmetric]
  proof (cases "u < 0x33000001")
    case True
    have "magnitude 23 u \<le> magnitude 23 0x33000000" using True by (simp add: magnitude_le_iff)
    also have "magnitude 23 0x33000000 = 2 ^ 124" by (simp add: magnitude_def)
    finally have "2 * magnitude 23 u \<le> magnitude 10 1 * 2 ^ 125" by (simp add: magnitude_def)
    then have "nearest_even (\<lambda>j. magnitude 10 j * 2 ^ 125) (magnitude 23 u) 0"
      by (intro underflow_nearest half_grid_strict) (simp_all add: magnitude_def)
    then show "\<exists>k. nearest_even (\<lambda>j. magnitude 10 j * 2 ^ 125) (magnitude 23 u) k
      \<and> unat (cpu_float2ihalf_rn x) = unat x div 2 ^ 31 * 2 ^ 15 + min k 0x7c00"
      using True b by (intro exI [of _ 0]) simp
  next
    case False
    have "102 * 2 ^ 23 \<le> u" using False by simp
    then have "102 \<le> u div 2 ^ 23" by (subst less_eq_div_iff_mult_less_eq) simp_all
    from half_number_nearest [OF this e]
    show "\<exists>k. nearest_even (\<lambda>j. magnitude 10 j * 2 ^ 125) (magnitude 23 u) k
      \<and> unat (cpu_float2ihalf_rn x) = unat x div 2 ^ 31 * 2 ^ 15 + min k 0x7c00"
      using False b u half_number_overflows [of u] by (intro exI [of _ "half_number u"]) auto
  qed
qed

text \<open>
  C37.  Every \<open>float16\<close> that is not a NaN is converted to the \<open>float\<close> with the same sign and the same
  value; the loop that normalises a denormal mantissa ends.
\<close>

theorem half_to_float_exact:
  assumes "\<not> ishnan h"
  shows "\<exists>x. cpu_ihalf2float h = Some x \<and> unat x div 2 ^ 31 = unat h div 2 ^ 15
    \<and> (if ishinf h then unat x mod 2 ^ 31 = 0x7f800000
       else unat x mod 2 ^ 31 < 0x7f800000 \<and> magnitude 23 (unat x mod 2 ^ 31) = magnitude 10 (unat h mod 2 ^ 15) * 2 ^ 125)"
  using ihalf2float_exact [of h] assms by (simp add: ishnan_iff ishinf_iff)

theorem half_to_float_exact_witness:
  "\<exists>x. cpu_ihalf2float 0x8001 = Some x \<and> unat x div 2 ^ 31 = 1
    \<and> magnitude 23 (unat x mod 2 ^ 31) = magnitude 10 1 * 2 ^ 125"
  using half_to_float_exact [of "0x8001"] by (auto simp: ishnan_iff ishinf_def)

text \<open>
  C38.  A finite \<open>float\<close> is converted to the half precision number nearest to it, on a tie to the even
  one; a result beyond the largest finite number is infinity.
\<close>

theorem float_to_half_nearest:
  assumes "unat x mod 2 ^ 31 < 0x7f800000"
  shows "\<exists>k. nearest_even (\<lambda>j. magnitude 10 j * 2 ^ 125) (magnitude 23 (unat x mod 2 ^ 31)) k
    \<and> unat (cpu_float2ihalf_rn x) = unat x div 2 ^ 31 * 2 ^ 15 + min k 0x7c00"
  using float_to_half_finite [OF assms] .

theorem float_to_half_nearest_witness:
  "\<exists>k. nearest_even (\<lambda>j. magnitude 10 j * 2 ^ 125) (magnitude 23 0x3f803000) k
    \<and> unat (cpu_float2ihalf_rn 0xbf803000) = 2 ^ 15 + min k 0x7c00"
  using float_to_half_nearest [of "0xbf803000"] by simp

lemma half_back:
  assumes "\<not> ishnan h" shows "\<exists>x. cpu_ihalf2float h = Some x \<and> cpu_float2ihalf_rn x = h"
proof -
  define u where "u = unat h mod 2 ^ 15"
  have u: "u \<le> 0x7c00" using assms by (simp add: ishnan_iff u_def)
  obtain x where x: "cpu_ihalf2float h = Some x" "unat x div 2 ^ 31 = unat h div 2 ^ 15"
    and m: "if u = 0x7c00 then unat x mod 2 ^ 31 = 0x7f800000
       else unat x mod 2 ^ 31 < 0x7f800000 \<and> magnitude 23 (unat x mod 2 ^ 31) = magnitude 10 u * 2 ^ 125"
    using ihalf2float_exact [of h] u unfolding u_def [symmetric] by blast
  have "unat (cpu_float2ihalf_rn x) = unat x div 2 ^ 31 * 2 ^ 15 + u"
  proof (cases "u = 0x7c00")
    case True
    then show ?thesis using m float2ihalf_bits [OF refl, of x] by simp
  next
    case False
    then obtain k where k: "nearest_even (\<lambda>j. magnitude 10 j * 2 ^ 125) (magnitude 10 u * 2 ^ 125) k"
      "unat (cpu_float2ihalf_rn x) = unat x div 2 ^ 31 * 2 ^ 15 + min k 0x7c00"
      using m float_to_half_finite [of x] by auto
    then have "k = u" by (intro nearest_even_exact [OF half_grid_strict])
    then show ?thesis using k(2) u by simp
  qed
  then have "unat (cpu_float2ihalf_rn x) = unat h"
    unfolding x(2) u_def by (simp only: div_mult_mod_eq)
  then have "cpu_float2ihalf_rn x = h" by (simp only: word_unat_eq_iff)
  then show ?thesis using x(1) by blast
qed

text \<open>
  C39.  Converting a \<open>float16\<close> to \<open>float\<close> and back gives the same bits, for every one of them but the
  NaNs, which become the one NaN \<open>0x7fff\<close>.
\<close>

theorem half_roundtrip:
  "\<exists>x. cpu_ihalf2float h = Some x \<and> cpu_float2ihalf_rn x = (if ishnan h then 0x7fff else h)"
proof (cases "ishnan h")
  case True
  then show ?thesis by (simp add: half_nan cpu_float2ihalf_rn_def)
next
  case False
  then show ?thesis using half_back [of h] by simp
qed

subsection \<open>Eight bits\<close>

text \<open>
  The bounds of half precision that \<open>float8.h\<close> copies are too wide for 3 bits of exponent: the
  powers of two from 32 to \<open>2 ^ 15\<close>, all beyond the largest finite number 15.5, do not become infinity;
  their exponent runs over the sign, so that 32 becomes -0 and 64 becomes -0.25.
\<close>

theorem float8_overflow_wraps:
  "list_all (\<lambda>k. cpu_float2quarter_rn (word_of_nat ((127 + k) * 2 ^ 23)) = Some (word_of_nat ((k + 3) * 16))) [5..<16]"
  by (simp add: upt_rec cpu_float2quarter_rn_def round_mantissa_def Let_def)

subsection \<open>Short integers\<close>

lemma short_integer:
  assumes "\<bar>n\<bar> < 2 ^ 24"
  obtains x where "int_to_float n = Some x" "float_to_int x = Some n"
  using int_float_exact [OF assms] by blast

lemma byte_range: "sint (b :: 8 word) \<le> 127" "-128 \<le> sint b" "0 \<le> uint b" "uint b \<le> 255"
  using sint_less [of b] sint_greater_eq [of b] uint_bounded [of b] by simp_all

lemma short_range: "sint (s :: 16 word) \<le> 32767" "-32768 \<le> sint s"
  using sint_less [of s] sint_greater_eq [of s] by simp_all

text \<open>
  The 8 and 16 bit integers but \<open>uint16\<close> keep their value when they are converted to \<open>float\<close> and
  back.
\<close>

theorem short_integers_roundtrip:
  "\<exists>x y z. cpu_int82float b = Some x \<and> cpu_float2int8 x = Some b
     \<and> cpu_uint82float b = Some y \<and> cpu_float2uint8 y = Some b
     \<and> cpu_int162float s = Some z \<and> cpu_float2int16 z = Some s"
proof -
  obtain x where x: "int_to_float (sint b) = Some x" "float_to_int x = Some (sint b)"
    by (rule short_integer [of "sint b"]) (use byte_range [of b] in simp_all)
  obtain y where y: "int_to_float (uint b) = Some y" "float_to_int y = Some (uint b)"
    by (rule short_integer [of "uint b"]) (use byte_range [of b] in simp_all)
  obtain z where z: "int_to_float (sint s) = Some z" "float_to_int z = Some (sint s)"
    by (rule short_integer [of "sint s"]) (use short_range [of s] in simp_all)
  show ?thesis
    using x y z byte_range [of b] short_range [of s]
    by (simp add: cpu_int82float_def cpu_float2int8_def cpu_uint82float_def cpu_float2uint8_def cpu_int162float_def cpu_float2int16_def)
qed

text \<open>
  \<open>uint16\<close> loses its upper byte: the function that converts a \<open>float\<close> to it returns 8 bits, and the
  one that reads it takes it as signed, so that a value from \<open>2 ^ 15\<close> on is negative and comes back as 0.
\<close>

theorem uint16_truncates:
  "\<exists>x. cpu_uint162float d = Some x \<and> cpu_float2uint16 x = Some (if 2 ^ 15 \<le> unat d then 0 else ucast d)"
proof -
  obtain x where x: "int_to_float (sint d) = Some x" "float_to_int x = Some (sint d)"
    by (rule short_integer [of "sint d"]) (use short_range [of d] in simp_all)
  have neg: "sint d < 0 \<longleftrightarrow> 2 ^ 15 \<le> unat d"
    using bit_last_iff [of d] bit_high [of 15 d] unsigned_less [of d] by simp
  show ?thesis using x short_range [of d] neg by (simp add: cpu_uint162float_def cpu_float2uint16_def)
qed

end
