(* ===== verification/ParallelSort.thy ===== *)
theory ParallelSort
  imports IndexLoops
begin

text \<open>
  The sort of \<open>include/ops/specials.h\<close>.  The quick sort works in place on the elements of an array with
  any layout; ranges of at least \<open>cutoff\<close> elements are divided into two OpenMP tasks.  The tasks work
  on disjoint ranges, and the model runs the two tasks of a call one after the other, in the order
  that the runtime chooses (\<open>first\<close> is true when the left one runs first).
\<close>

subsection \<open>Code\<close>

definition getPosition :: "int list \<Rightarrow> int \<Rightarrow> int option" where
  "getPosition xShapeInfo index = do {
     xEWS \<leftarrow> elementWiseStride_of xShapeInfo;
     if xEWS = 1 then Some index
     else if xEWS > 1 then i32 (index * xEWS)
     else do {
       xRank \<leftarrow> rank_of xShapeInfo;
       xStride \<leftarrow> stride_of xShapeInfo;
       xCoord \<leftarrow> coords_c xRank (shapeOf xShapeInfo) index;
       xOffset \<leftarrow> getOffset 0 (shapeOf xShapeInfo) xStride xCoord xRank;
       Some (to_int32 xOffset) } }"

text \<open>The order of the sort: \<open>before descending a b\<close> when \<open>a\<close> belongs in front of \<open>b\<close>.\<close>

definition before :: "bool \<Rightarrow> 'a :: linorder \<Rightarrow> 'a \<Rightarrow> bool" where
  "before descending a b = (if descending then b < a else a < b)"

definition item :: "(int \<Rightarrow> int option) \<Rightarrow> 'a list \<Rightarrow> int \<Rightarrow> 'a option" where
  "item pos mem i = do { p \<leftarrow> pos i; rd mem p }"

partial_function (option) skip_front :: "('a \<Rightarrow> 'a \<Rightarrow> bool) \<Rightarrow> (int \<Rightarrow> int option) \<Rightarrow> 'a list \<Rightarrow> 'a \<Rightarrow> int \<Rightarrow> int option" where
  [code]: "skip_front bef pos mem pivot i = do {
     v \<leftarrow> item pos mem i;
     if bef v pivot then do { i \<leftarrow> i32 (i + 1); skip_front bef pos mem pivot i } else Some i }"

partial_function (option) skip_back :: "('a \<Rightarrow> 'a \<Rightarrow> bool) \<Rightarrow> (int \<Rightarrow> int option) \<Rightarrow> 'a list \<Rightarrow> 'a \<Rightarrow> int \<Rightarrow> int option" where
  [code]: "skip_back bef pos mem pivot j = do {
     v \<leftarrow> item pos mem j;
     if bef pivot v then do { j \<leftarrow> i32 (j - 1); skip_back bef pos mem pivot j } else Some j }"

definition swap_items :: "(int \<Rightarrow> int option) \<Rightarrow> 'a list \<Rightarrow> int \<Rightarrow> int \<Rightarrow> 'a list option" where
  "swap_items pos mem i j = do {
     tmp \<leftarrow> item pos mem i;
     v \<leftarrow> item pos mem j; p \<leftarrow> pos i; mem \<leftarrow> wr mem p v;
     p \<leftarrow> pos j; wr mem p tmp }"

partial_function (option) split_range ::
  "('a \<Rightarrow> 'a \<Rightarrow> bool) \<Rightarrow> (int \<Rightarrow> int option) \<Rightarrow> 'a \<Rightarrow> 'a list \<Rightarrow> int \<Rightarrow> int \<Rightarrow> ('a list \<times> int \<times> int) option" where
  [code]: "split_range bef pos pivot mem i j =
     (if i \<le> j then do {
        i \<leftarrow> skip_front bef pos mem pivot i;
        j \<leftarrow> skip_back bef pos mem pivot j;
        if i \<le> j then do {
          mem \<leftarrow> swap_items pos mem i j;
          i \<leftarrow> i32 (i + 1); j \<leftarrow> i32 (j - 1);
          split_range bef pos pivot mem i j }
        else split_range bef pos pivot mem i j }
      else Some (mem, i, j))"

partial_function (option) quickSort_parallel_internal ::
  "(int \<Rightarrow> int \<Rightarrow> bool) \<Rightarrow> ('a \<Rightarrow> 'a \<Rightarrow> bool) \<Rightarrow> (int \<Rightarrow> int option) \<Rightarrow> int \<Rightarrow> 'a list \<Rightarrow> int \<Rightarrow> int \<Rightarrow> 'a list option" where
  [code]: "quickSort_parallel_internal first bef pos cutoff mem left right = do {
     m \<leftarrow> i32 (left + right);
     m \<leftarrow> cdiv m 2;
     pivot \<leftarrow> item pos mem m;
     (mem, i, j) \<leftarrow> split_range bef pos pivot mem left right;
     n \<leftarrow> i32 (right - left);
     if n < cutoff then do {
       mem \<leftarrow> (if left < j then quickSort_parallel_internal first bef pos cutoff mem left j else Some mem);
       (if i < right then quickSort_parallel_internal first bef pos cutoff mem i right else Some mem) }
     else do {
       let ((l1, r1), (l2, r2)) = (if first left right then ((left, j), (i, right)) else ((i, right), (left, j)));
       mem \<leftarrow> quickSort_parallel_internal first bef pos cutoff mem l1 r1;
       quickSort_parallel_internal first bef pos cutoff mem l2 r2 } }"

definition quickSort_parallel ::
  "(int \<Rightarrow> int \<Rightarrow> bool) \<Rightarrow> int \<Rightarrow> int list \<Rightarrow> int \<Rightarrow> bool \<Rightarrow> 'a :: linorder list \<Rightarrow> 'a list option" where
  "quickSort_parallel first array xShapeInfo lenArray descending mem =
     quickSort_parallel_internal first (before descending)
       (\<lambda>i. do { p \<leftarrow> getPosition xShapeInfo i; Some (array + p) }) 1000 mem 0 (to_int32 (lenArray - 1))"

definition sortGeneric :: "(int \<Rightarrow> int \<Rightarrow> bool) \<Rightarrow> int \<Rightarrow> int list \<Rightarrow> bool \<Rightarrow> 'a :: linorder list \<Rightarrow> 'a list option" where
  "sortGeneric first x xShapeInfo descending mem = do {
     n \<leftarrow> length_of xShapeInfo; quickSort_parallel first x xShapeInfo n descending mem }"

definition sortTadGeneric ::
  "runtime \<Rightarrow> (int \<Rightarrow> int \<Rightarrow> bool) \<Rightarrow> int \<Rightarrow> int list \<Rightarrow> int list \<Rightarrow> int \<Rightarrow> int list \<Rightarrow> int list \<Rightarrow> bool \<Rightarrow> 'a :: linorder list \<Rightarrow> 'a list option" where
  "sortTadGeneric rt first x xShapeInfo dimension dimensionLength tadShapeInfo tadOffsets descending mem = do {
     xLength \<leftarrow> length_of xShapeInfo;
     xTadLength \<leftarrow> tadLength xShapeInfo dimension dimensionLength;
     numTads \<leftarrow> cdiv xLength xTadLength;
     parallel_for rt (to_int32 numTads) (\<lambda>r mem. do {
       offset \<leftarrow> rd tadOffsets r;
       quickSort_parallel first (x + offset) tadShapeInfo xTadLength descending mem }) mem }"

subsection \<open>Rearrangements\<close>

text \<open>The elements \<open>a..b\<close> of a sequence are permuted, the others stay.\<close>

definition rearranged :: "int \<Rightarrow> int \<Rightarrow> (int \<Rightarrow> 'a) \<Rightarrow> (int \<Rightarrow> 'a) \<Rightarrow> bool" where
  "rearranged a b E E' \<longleftrightarrow> mset (map E' [a..b]) = mset (map E [a..b]) \<and> (\<forall>k. k < a \<or> b < k \<longrightarrow> E' k = E k)"

lemma rearranged_refl [simp]: "rearranged a b E E"
  by (simp add: rearranged_def)

lemma rearranged_trans: "rearranged a b E E' \<Longrightarrow> rearranged a b E' E'' \<Longrightarrow> rearranged a b E E''"
  by (simp add: rearranged_def)

lemma rearranged_widen:
  assumes "rearranged c d E E'" "a \<le> c" "d \<le> b" shows "rearranged a b E E'"
proof (cases "c \<le> d")
  case True
  have s: "[a..b] = [a..c - 1] @ [c..d] @ [d + 1..b]"
    using upto_split1 [of a c b] upto_split2 [of c d b] assms True by simp
  have "map E' [a..c - 1] = map E [a..c - 1]" "map E' [d + 1..b] = map E [d + 1..b]"
    using assms(1) by (auto simp: rearranged_def)
  then have "mset (map E' [a..b]) = mset (map E [a..b])"
    using assms(1) unfolding s map_append mset_append by (simp only: rearranged_def)
  then show ?thesis using assms by (auto simp: rearranged_def)
next
  case False
  then have "E' k = E k" for k using assms(1) by (cases "k < c") (auto simp: rearranged_def)
  then have "E' = E" by (rule ext)
  then show ?thesis by simp
qed

lemma rearranged_all:
  assumes "rearranged a b E E'" "\<And>k. a \<le> k \<Longrightarrow> k \<le> b \<Longrightarrow> P (E k)" "a \<le> k" "k \<le> b"
  shows "P (E' k)"
proof -
  have "set (map E' [a..b]) = set (map E [a..b])"
    using assms(1) unfolding rearranged_def by (metis mset_eq_setD)
  then have "E' k \<in> E ` {a..b}" using assms(3,4) by auto
  then show ?thesis using assms(2) by auto
qed

lemma rearranged_swap:
  assumes "a \<le> i" "i \<le> b" "a \<le> j" "j \<le> b"
  shows "rearranged a b E (E(i := E j, j := E i))"
proof -
  define n where "n k = nat (k - a)" for k
  have m: "map F [a..b] = map (\<lambda>k. F (a + int k)) [0..<nat (b - a + 1)]" for F :: "int \<Rightarrow> 'a"
    by (rule nth_equalityI) simp_all
  let ?xs = "map E [a..b]"
  have len: "n i < length ?xs" "n j < length ?xs" using assms by (simp_all add: n_def)
  have x: "?xs ! n i = E i" "?xs ! n j = E j" using assms by (simp_all add: n_def)
  have "map (E(i := E j, j := E i)) [a..b] = ?xs[n i := ?xs ! n j, n j := ?xs ! n i]"
    unfolding x using assms by (intro nth_equalityI) (auto simp: n_def nth_list_update)
  then have "mset (map (E(i := E j, j := E i)) [a..b]) = mset ?xs" by (simp only: mset_swap [OF len(2,1)])
  then show ?thesis using assms by (simp add: rearranged_def)
qed

subsection \<open>The order\<close>

text \<open>What the sort asks of its comparison: the negation is a total preorder.\<close>

locale order_test =
  fixes bef :: "'a \<Rightarrow> 'a \<Rightarrow> bool"
  assumes asym: "bef a b \<Longrightarrow> \<not> bef b a" and negtrans: "\<not> bef b a \<Longrightarrow> \<not> bef c b \<Longrightarrow> \<not> bef c a"

interpretation direction: order_test "before descending" for descending
  by unfold_locales (auto simp: before_def split: if_splits)

text \<open>
  \<open>n\<close> elements at the cells \<open>p 0, p 1, \<dots>\<close> of a memory, and the sequence of their values.
\<close>

definition addressed :: "(int \<Rightarrow> int option) \<Rightarrow> (int \<Rightarrow> int) \<Rightarrow> int \<Rightarrow> 'a list \<Rightarrow> bool" where
  "addressed pos p n mem \<longleftrightarrow> n \<le> 2 ^ 30 \<and> inj_on p {0..<n}
     \<and> (\<forall>k. 0 \<le> k \<and> k < n \<longrightarrow> pos k = Some (p k) \<and> 0 \<le> p k \<and> p k < int (length mem))"

definition seq_of :: "(int \<Rightarrow> int) \<Rightarrow> int \<Rightarrow> 'a list \<Rightarrow> int \<Rightarrow> 'a" where
  "seq_of p n mem k = (if 0 \<le> k \<and> k < n then mem ! nat (p k) else undefined)"

lemma addressed_length: "addressed pos p n mem \<Longrightarrow> elsewhere C mem mem' \<Longrightarrow> addressed pos p n mem'"
  by (simp add: addressed_def elsewhere_def)

lemma item_exact: "addressed pos p n mem \<Longrightarrow> 0 \<le> k \<Longrightarrow> k < n \<Longrightarrow> item pos mem k = Some (seq_of p n mem k)"
  by (simp add: addressed_def item_def seq_of_def rd_def)

lemma swap_exact:
  assumes A: "addressed pos p n mem" and i: "0 \<le> i" "i < n" "0 \<le> j" "j < n"
  shows "\<exists>mem'. swap_items pos mem i j = Some mem' \<and> elsewhere (p ` {0..<n}) mem mem'
    \<and> seq_of p n mem' = (seq_of p n mem)(i := seq_of p n mem j, j := seq_of p n mem i)"
proof -
  let ?E = "seq_of p n mem"
  have P: "pos k = Some (p k) \<and> 0 \<le> p k \<and> p k < int (length mem)" if "0 \<le> k" "k < n" for k
    using A that by (simp add: addressed_def)
  define mem' where "mem' = mem[nat (p i) := ?E j, nat (p j) := ?E i]"
  have "swap_items pos mem i j = Some mem'"
    using item_exact [OF A i(1,2)] item_exact [OF A i(3,4)] P [OF i(1,2)] P [OF i(3,4)]
    by (simp add: swap_items_def mem'_def wr_def)
  moreover have "elsewhere (p ` {0..<n}) mem mem'"
  proof -
    have "mem' ! q = mem ! q" if "int q \<notin> p ` {0..<n}" for q
    proof -
      have "nat (p i) \<noteq> q" "nat (p j) \<noteq> q" using that i P [OF i(1,2)] P [OF i(3,4)] by auto
      then show ?thesis by (simp add: mem'_def)
    qed
    then show ?thesis by (simp add: elsewhere_def mem'_def)
  qed
  moreover have "seq_of p n mem' k = (?E(i := ?E j, j := ?E i)) k" for k
  proof (cases "0 \<le> k \<and> k < n")
    case True
    have "nat (p k) = nat (p l) \<longleftrightarrow> k = l" if "0 \<le> l" "l < n" for l
    proof -
      have "inj_on p {0..<n}" using A by (simp add: addressed_def)
      then have "p k = p l \<longleftrightarrow> k = l" by (rule inj_on_eq_iff) (use True that in simp_all)
      then show ?thesis using P [of k] P [of l] True that by (simp add: eq_nat_nat_iff)
    qed
    note same = this [OF i(1,2)] this [OF i(3,4)]
    have "0 \<le> p l \<Longrightarrow> p l < int (length mem) \<Longrightarrow> nat (p l) < length mem" for l by (simp add: nat_less_iff)
    then have "nat (p i) < length mem" "nat (p j) < length mem" using P [OF i(1,2)] P [OF i(3,4)] by blast+
    then have "mem' ! nat (p k) = (if nat (p k) = nat (p j) then ?E i else if nat (p k) = nat (p i) then ?E j else mem ! nat (p k))"
      unfolding mem'_def by (simp add: nth_list_update)
    then have "mem' ! nat (p k) = (if k = j then ?E i else if k = i then ?E j else mem ! nat (p k))" unfolding same .
    then show ?thesis using True i by (simp add: seq_of_def)
  next
    case False
    then show ?thesis using i by (auto simp: seq_of_def)
  qed
  ultimately show ?thesis by blast
qed

context order_test
begin

lemma skip_front_exact:
  assumes A: "addressed pos p n mem" and k: "0 \<le> i" "i \<le> k" "k < n" "\<not> bef (seq_of p n mem k) pivot"
  shows "\<exists>i'. skip_front bef pos mem pivot i = Some i' \<and> i \<le> i' \<and> i' \<le> k
    \<and> (\<forall>l. i \<le> l \<and> l < i' \<longrightarrow> bef (seq_of p n mem l) pivot) \<and> \<not> bef (seq_of p n mem i') pivot"
  using k
proof (induction "nat (k - i)" arbitrary: i rule: less_induct)
  case less
  note it = item_exact [OF A less.prems(1)]
  show ?case
  proof (cases "bef (seq_of p n mem i) pivot")
    case False
    then show ?thesis using it less.prems by (intro exI [of _ i]) (auto simp: skip_front.simps)
  next
    case True
    then have ik: "i < k" using less.prems by (cases "i = k") auto
    have "i32 (i + 1) = Some (i + 1)" using less.prems ik A by (simp add: i32_def addressed_def)
    then have r: "skip_front bef pos mem pivot i = skip_front bef pos mem pivot (i + 1)"
      using it less.prems True by (subst skip_front.simps) simp
    obtain i' where "skip_front bef pos mem pivot (i + 1) = Some i'" "i + 1 \<le> i'" "i' \<le> k"
      "\<forall>l. i + 1 \<le> l \<and> l < i' \<longrightarrow> bef (seq_of p n mem l) pivot" "\<not> bef (seq_of p n mem i') pivot"
      using less.hyps [of "i + 1"] less.prems ik by auto
    moreover have "l = i \<or> i + 1 \<le> l" if "i \<le> l" for l using that by linarith
    ultimately show ?thesis using r True by (intro exI [of _ i']) auto
  qed
qed

lemma skip_back_exact:
  assumes A: "addressed pos p n mem" and k: "0 \<le> k" "k \<le> j" "j < n" "\<not> bef pivot (seq_of p n mem k)"
  shows "\<exists>j'. skip_back bef pos mem pivot j = Some j' \<and> k \<le> j' \<and> j' \<le> j
    \<and> (\<forall>l. j' < l \<and> l \<le> j \<longrightarrow> bef pivot (seq_of p n mem l)) \<and> \<not> bef pivot (seq_of p n mem j')"
  using k
proof (induction "nat (j - k)" arbitrary: j rule: less_induct)
  case less
  have it: "item pos mem j = Some (seq_of p n mem j)" using item_exact [OF A] less.prems by simp
  show ?case
  proof (cases "bef pivot (seq_of p n mem j)")
    case False
    then show ?thesis using it less.prems by (intro exI [of _ j]) (auto simp: skip_back.simps)
  next
    case True
    then have ik: "k < j" using less.prems by (cases "k = j") auto
    have "i32 (j - 1) = Some (j - 1)" using less.prems ik A by (simp add: i32_def addressed_def)
    then have r: "skip_back bef pos mem pivot j = skip_back bef pos mem pivot (j - 1)"
      using it True by (subst skip_back.simps) simp
    obtain j' where "skip_back bef pos mem pivot (j - 1) = Some j'" "k \<le> j'" "j' \<le> j - 1"
      "\<forall>l. j' < l \<and> l \<le> j - 1 \<longrightarrow> bef pivot (seq_of p n mem l)" "\<not> bef pivot (seq_of p n mem j')"
      using less.hyps [of "j - 1"] less.prems ik by auto
    moreover have "l = j \<or> l \<le> j - 1" if "l \<le> j" for l using that by linarith
    ultimately show ?thesis using r True by (intro exI [of _ j']) auto
  qed
qed

end

subsection \<open>The partition\<close>

context order_test
begin

definition parted :: "(int \<Rightarrow> 'a) \<Rightarrow> 'a \<Rightarrow> int \<Rightarrow> int \<Rightarrow> int \<Rightarrow> int \<Rightarrow> bool" where
  "parted E pivot left right i j \<longleftrightarrow> left \<le> i \<and> i \<le> right + 1 \<and> left - 1 \<le> j \<and> j \<le> right
     \<and> (\<forall>l. left \<le> l \<and> l < i \<longrightarrow> \<not> bef pivot (E l)) \<and> (\<forall>l. j < l \<and> l \<le> right \<longrightarrow> \<not> bef (E l) pivot)
     \<and> (i \<le> j \<longrightarrow> (\<exists>k. i \<le> k \<and> k \<le> right \<and> \<not> bef (E k) pivot) \<and> (\<exists>k. left \<le> k \<and> k \<le> j \<and> \<not> bef pivot (E k)))"

lemma parted_after_swap:
  assumes "left \<le> i" "i \<le> j" "j \<le> right" "\<not> bef (E i) pivot" "\<not> bef pivot (E j)"
    and "\<forall>l. left \<le> l \<and> l < i \<longrightarrow> \<not> bef pivot (E l)" "\<forall>l. j < l \<and> l \<le> right \<longrightarrow> \<not> bef (E l) pivot"
  shows "parted (E(i := E j, j := E i)) pivot left right (i + 1) (j - 1)"
  unfolding parted_def
proof (intro conjI allI impI)
  let ?F = "E(i := E j, j := E i)"
  show "left \<le> i + 1" "i + 1 \<le> right + 1" "left - 1 \<le> j - 1" "j - 1 \<le> right" using assms(1-3) by simp_all
  have ends: "\<not> bef pivot (?F i)" "\<not> bef (?F j) pivot" using assms(4,5) by auto
  show "\<not> bef pivot (?F l)" if "left \<le> l \<and> l < i + 1" for l
  proof (cases "l = i")
    case False
    then show ?thesis using that assms(2,6) by simp
  qed (use ends in simp)
  show "\<not> bef (?F l) pivot" if "j - 1 < l \<and> l \<le> right" for l
  proof (cases "l = j")
    case False
    then show ?thesis using that assms(2,7) by simp
  qed (use ends in simp)
  show "\<exists>k. i + 1 \<le> k \<and> k \<le> right \<and> \<not> bef (?F k) pivot" if "i + 1 \<le> j - 1"
    using that assms(3) ends(2) by (intro exI [of _ j]) simp
  show "\<exists>k. left \<le> k \<and> k \<le> j - 1 \<and> \<not> bef pivot (?F k)" if "i + 1 \<le> j - 1"
    using that assms(1) ends(1) by (intro exI [of _ i]) simp
qed

lemma split_round:
  assumes A: "addressed pos p n mem" and b: "0 \<le> left" "right < n"
    and I: "parted (seq_of p n mem) pivot left right i j" and ij: "i \<le> j"
  shows "\<exists>mem' i' j'. split_range bef pos pivot mem i j = split_range bef pos pivot mem' i' j'
    \<and> elsewhere (p ` {0..<n}) mem mem' \<and> rearranged left right (seq_of p n mem) (seq_of p n mem')
    \<and> parted (seq_of p n mem') pivot left right i' j' \<and> i \<le> i' \<and> j' \<le> j \<and> j' - i' < j - i
    \<and> ((\<exists>m. i \<le> m \<and> m \<le> j \<and> seq_of p n mem m = pivot) \<longrightarrow> i < i' \<and> j' < j)"
proof -
  let ?E = "seq_of p n mem"
  note I = I [unfolded parted_def]
  obtain k where "i \<le> k" "k \<le> right" "\<not> bef (?E k) pivot" using I ij by blast
  then obtain i1 where i1: "skip_front bef pos mem pivot i = Some i1" "i \<le> i1" "i1 \<le> right"
    "\<forall>l. i \<le> l \<and> l < i1 \<longrightarrow> bef (?E l) pivot" "\<not> bef (?E i1) pivot"
    using skip_front_exact [OF A, of i k pivot] I b by fastforce
  obtain k' where "left \<le> k'" "k' \<le> j" "\<not> bef pivot (?E k')" using I ij by blast
  then obtain j1 where j1: "skip_back bef pos mem pivot j = Some j1" "left \<le> j1" "j1 \<le> j"
    "\<forall>l. j1 < l \<and> l \<le> j \<longrightarrow> bef pivot (?E l)" "\<not> bef pivot (?E j1)"
    using skip_back_exact [OF A, of k' j pivot] I b by fastforce
  have low: "\<forall>l. left \<le> l \<and> l < i1 \<longrightarrow> \<not> bef pivot (?E l)"
  proof (intro allI impI)
    fix l assume "left \<le> l \<and> l < i1"
    then show "\<not> bef pivot (?E l)" using I i1(4) asym by (cases "l < i") auto
  qed
  have high: "\<forall>l. j1 < l \<and> l \<le> right \<longrightarrow> \<not> bef (?E l) pivot"
  proof (intro allI impI)
    fix l assume "j1 < l \<and> l \<le> right"
    then show "\<not> bef (?E l) pivot" using I j1(4) asym by (cases "j < l") auto
  qed
  have mid: "i1 \<le> m \<and> m \<le> j1" if "i \<le> m" "m \<le> j" "?E m = pivot" for m
    using that i1(4) j1(4) asym [of pivot pivot] by (metis not_le)
  show ?thesis
  proof (cases "i1 \<le> j1")
    case False
    have "split_range bef pos pivot mem i j = split_range bef pos pivot mem i1 j1"
      by (subst split_range.simps) (simp add: ij i1(1) j1(1) False)
    moreover have "parted ?E pivot left right i1 j1" unfolding parted_def using i1 j1 low high False I by auto
    ultimately show ?thesis using i1(2) j1(3) ij False mid by (intro exI [of _ mem] exI [of _ i1] exI [of _ j1]) fastforce
  next
    case True
    have r: "0 \<le> i1" "i1 < n" "0 \<le> j1" "j1 < n" using i1(2,3) j1(2,3) I b ij by linarith+
    from swap_exact [OF A r] obtain mem' where m: "swap_items pos mem i1 j1 = Some mem'" "elsewhere (p ` {0..<n}) mem mem'"
      "seq_of p n mem' = ?E(i1 := ?E j1, j1 := ?E i1)" by blast
    have "i32 (i1 + 1) = Some (i1 + 1)" "i32 (j1 - 1) = Some (j1 - 1)" using r A by (simp_all add: i32_def addressed_def)
    then have s: "split_range bef pos pivot mem i j = split_range bef pos pivot mem' (i1 + 1) (j1 - 1)"
      by (subst split_range.simps) (simp add: ij i1(1) j1(1) True m(1))
    have p: "parted (seq_of p n mem') pivot left right (i1 + 1) (j1 - 1)"
      unfolding m(3) using parted_after_swap [OF _ True _ i1(5) j1(5) low high] i1(2) j1(3) I by simp
    have e: "rearranged left right ?E (seq_of p n mem')"
      unfolding m(3) by (rule rearranged_swap) (use i1(2,3) j1(2,3) I True in linarith)+
    show ?thesis using s m(2) p e i1(2) j1(3) True
      by (intro exI [of _ mem'] exI [of _ "i1 + 1"] exI [of _ "j1 - 1"]) auto
  qed
qed

lemma split_range_exact:
  assumes "addressed pos p n mem" and b: "0 \<le> left" "right < n" and "parted (seq_of p n mem) pivot left right i j"
  shows "\<exists>mem' i' j'. split_range bef pos pivot mem i j = Some (mem', i', j')
    \<and> elsewhere (p ` {0..<n}) mem mem' \<and> rearranged left right (seq_of p n mem) (seq_of p n mem')
    \<and> parted (seq_of p n mem') pivot left right i' j' \<and> i \<le> i' \<and> j' \<le> j \<and> j' < i'
    \<and> ((\<exists>m. i \<le> m \<and> m \<le> j \<and> seq_of p n mem m = pivot) \<longrightarrow> i < i' \<and> j' < j)"
  using assms(1,4)
proof (induction "nat (j - i + 1)" arbitrary: mem i j rule: less_induct)
  case less
  show ?case
  proof (cases "i \<le> j")
    case False
    then show ?thesis using less.prems(2)
      by (intro exI [of _ mem] exI [of _ i] exI [of _ j]) (auto simp: split_range.simps)
  next
    case True
    from split_round [OF less.prems(1) b less.prems(2) True] obtain mem' i' j' where
      r: "split_range bef pos pivot mem i j = split_range bef pos pivot mem' i' j'"
      "elsewhere (p ` {0..<n}) mem mem'" "rearranged left right (seq_of p n mem) (seq_of p n mem')"
      "parted (seq_of p n mem') pivot left right i' j'" "i \<le> i'" "j' \<le> j" "j' - i' < j - i"
      "(\<exists>m. i \<le> m \<and> m \<le> j \<and> seq_of p n mem m = pivot) \<longrightarrow> i < i' \<and> j' < j" by blast
    have "nat (j' - i' + 1) < nat (j - i + 1)" using r(7) True by simp
    from less.hyps [OF this addressed_length [OF less.prems(1) r(2)] r(4)] obtain mem'' i'' j'' where
      s: "split_range bef pos pivot mem' i' j' = Some (mem'', i'', j'')" "elsewhere (p ` {0..<n}) mem' mem''"
      "rearranged left right (seq_of p n mem') (seq_of p n mem'')" "parted (seq_of p n mem'') pivot left right i'' j''"
      "i' \<le> i''" "j'' \<le> j'" "j'' < i''" by blast
    show ?thesis
      using r(1,5,6,8) s(1,4-7) elsewhere_trans [OF r(2) s(2)] rearranged_trans [OF r(3) s(3)]
      by (intro exI [of _ mem''] exI [of _ i''] exI [of _ j'']) fastforce
  qed
qed

end

subsection \<open>The sort\<close>

lemma rearranged_keeps:
  assumes "rearranged c d E E'" "a \<le> c \<and> d \<le> b \<or> d < a \<or> b < c" "\<forall>k. a \<le> k \<and> k \<le> b \<longrightarrow> Q (E k)"
  shows "\<forall>k. a \<le> k \<and> k \<le> b \<longrightarrow> Q (E' k)"
proof (cases "a \<le> c \<and> d \<le> b")
  case True
  then show ?thesis
    using rearranged_all [OF rearranged_widen [OF assms(1)], of a b Q] assms(3) by blast
next
  case False
  then have "E' k = E k" if "a \<le> k" "k \<le> b" for k using assms(1,2) that by (auto simp: rearranged_def)
  then show ?thesis using assms(3) by simp
qed

context order_test
begin

definition ordered_range :: "int \<Rightarrow> int \<Rightarrow> (int \<Rightarrow> 'a) \<Rightarrow> bool" where
  "ordered_range a b E \<longleftrightarrow> (\<forall>k l. a \<le> k \<and> k < l \<and> l \<le> b \<longrightarrow> \<not> bef (E l) (E k))"

definition sorts :: "(int \<Rightarrow> int) \<Rightarrow> int \<Rightarrow> int \<Rightarrow> int \<Rightarrow> 'a list \<Rightarrow> 'a list \<Rightarrow> bool" where
  "sorts p n a b mem mem' \<longleftrightarrow> elsewhere (p ` {0..<n}) mem mem'
     \<and> rearranged a b (seq_of p n mem) (seq_of p n mem') \<and> ordered_range a b (seq_of p n mem')"

lemma sorts_trivial: "b \<le> a \<Longrightarrow> sorts p n a b mem mem"
  by (auto simp: sorts_def ordered_range_def)

lemma ordered_range_kept:
  assumes "ordered_range a b E" "rearranged c d E E'" "d < a \<or> b < c" shows "ordered_range a b E'"
proof -
  have "E' k = E k" if "a \<le> k" "k \<le> b" for k using assms(2,3) that by (auto simp: rearranged_def)
  then show ?thesis using assms(1) by (simp add: ordered_range_def)
qed

lemma sorts_parts:
  assumes P: "parted E1 pivot left right i j" "j < i" and E: "E1 = seq_of p n mem1"
    and 0: "elsewhere (p ` {0..<n}) mem mem1" "rearranged left right (seq_of p n mem) E1"
    and parts: "sorts p n l1 r1 mem1 mem2" "sorts p n l2 r2 mem2 mem3"
      "(l1, r1, l2, r2) = (left, j, i, right) \<or> (l1, r1, l2, r2) = (i, right, left, j)"
  shows "sorts p n left right mem mem3"
proof -
  let ?E2 = "seq_of p n mem2" and ?E3 = "seq_of p n mem3"
  note I = P(1) [unfolded parted_def]
  have b: "left \<le> l1" "r1 \<le> right" "left \<le> l2" "r2 \<le> right" "r1 < l2 \<or> r2 < l1" using parts(3) I P(2) by auto
  have r: "rearranged l1 r1 E1 ?E2" "rearranged l2 r2 ?E2 ?E3" using parts(1,2) E by (simp_all add: sorts_def)
  have o: "ordered_range l1 r1 ?E3" "ordered_range l2 r2 ?E3"
    using ordered_range_kept [OF _ r(2), of l1 r1] parts(1,2) b(5) by (auto simp: sorts_def)
  have whole: "rearranged left right E1 ?E3"
    by (rule rearranged_trans [OF rearranged_widen [OF r(1) b(1,2)] rearranged_widen [OF r(2) b(3,4)]])
  have kept: "\<forall>k. c \<le> k \<and> k \<le> d \<longrightarrow> Q (?E3 k)"
    if "c = left \<and> d = i - 1 \<or> c = j + 1 \<and> d = right" "\<forall>k. c \<le> k \<and> k \<le> d \<longrightarrow> Q (E1 k)" for c d Q
    by (rule rearranged_keeps [OF r(2) _ rearranged_keeps [OF r(1) _ that(2)]]) (use that(1) parts(3) I P(2) in auto)
  have low: "\<not> bef pivot (?E3 k)" if "left \<le> k" "k < i" for k
    using kept [of left "i - 1" "\<lambda>v. \<not> bef pivot v"] I that by auto
  have high: "\<not> bef (?E3 k) pivot" if "j < k" "k \<le> right" for k
    using kept [of "j + 1" right "\<lambda>v. \<not> bef v pivot"] I that by auto
  have "\<not> bef (?E3 l) (?E3 k)" if k: "left \<le> k" "k < l" "l \<le> right" for k l
  proof -
    consider "l \<le> j" | "i \<le> k" | "k < i" "j < l" using P(2) k by linarith
    then show ?thesis
    proof cases
      case 3
      then show ?thesis using negtrans [OF low high] k by blast
    qed (use o parts(3) k in \<open>auto simp: ordered_range_def\<close>)
  qed
  then have "ordered_range left right ?E3" by (simp add: ordered_range_def)
  moreover have "elsewhere (p ` {0..<n}) mem mem3"
    using 0(1) parts(1,2) elsewhere_trans unfolding sorts_def by blast
  moreover have "rearranged left right (seq_of p n mem) ?E3" by (rule rearranged_trans [OF 0(2) whole])
  ultimately show ?thesis by (simp add: sorts_def)
qed

lemma internal_sorts:
  assumes "addressed pos p n mem" "0 < n" "0 < cutoff" "0 \<le> left" "left \<le> right + 1" "right < n"
  shows "\<exists>mem'. quickSort_parallel_internal first bef pos cutoff mem left right = Some mem' \<and> sorts p n left right mem mem'"
  using assms(1,4-6)
proof (induction "nat (right - left + 1)" arbitrary: mem left right rule: less_induct)
  case less
  note A = less.prems(1) and R = less.prems(2-4)
  have n: "n \<le> 2 ^ 30" using A by (simp add: addressed_def)
  define mid where "mid = (left + right) sdiv 2"
  have m32: "i32 (left + right) = Some (left + right)" "i32 (right - left) = Some (right - left)"
    using R n by (simp_all add: i32_def)
  have mid: "0 \<le> mid" "mid < n" "left \<le> right \<longrightarrow> left \<le> mid \<and> mid \<le> right"
    using R assms(2) by (auto simp: mid_def signed_divide_int_def sgn_if)
  define pivot where "pivot = seq_of p n mem mid"
  have start: "quickSort_parallel_internal first bef pos cutoff mem left right = do {
     (mem, i, j) \<leftarrow> split_range bef pos pivot mem left right;
     if right - left < cutoff then do {
       mem \<leftarrow> (if left < j then quickSort_parallel_internal first bef pos cutoff mem left j else Some mem);
       (if i < right then quickSort_parallel_internal first bef pos cutoff mem i right else Some mem) }
     else do {
       let ((l1, r1), (l2, r2)) = (if first left right then ((left, j), (i, right)) else ((i, right), (left, j)));
       mem \<leftarrow> quickSort_parallel_internal first bef pos cutoff mem l1 r1;
       quickSort_parallel_internal first bef pos cutoff mem l2 r2 } }"
    using item_exact [OF A mid(1,2)] m32
    by (subst quickSort_parallel_internal.simps) (simp add: cdiv_def mid_def pivot_def)
  show ?case
  proof (cases "left \<le> right")
    case False
    then have "split_range bef pos pivot mem left right = Some (mem, left, right)" by (simp add: split_range.simps)
    then show ?thesis unfolding start using False R assms(3) by (simp add: sorts_trivial)
  next
    case True
    have I: "parted (seq_of p n mem) pivot left right left right"
      unfolding parted_def using mid asym [of pivot pivot] True by (auto simp: pivot_def)
    from split_range_exact [OF A R(1,3) I] obtain mem1 i j where
      s: "split_range bef pos pivot mem left right = Some (mem1, i, j)" "elsewhere (p ` {0..<n}) mem mem1"
      "rearranged left right (seq_of p n mem) (seq_of p n mem1)" "parted (seq_of p n mem1) pivot left right i j" "j < i"
      and fewer: "left < i" "j < right"
      using mid True unfolding pivot_def by blast
    have b: "left - 1 \<le> j" "i \<le> right + 1" using s(4) by (auto simp: parted_def)
    have A1: "addressed pos p n mem1" by (rule addressed_length [OF A s(2)])
    have rec: "\<exists>mem'. quickSort_parallel_internal first bef pos cutoff m l r = Some mem' \<and> sorts p n l r m mem'"
      if "(l, r) = (left, j) \<or> (l, r) = (i, right)" "addressed pos p n m" for m l r
      by (rule less.hyps) (use that fewer b R in auto)
    have next2: "addressed pos p n m'" if "addressed pos p n m" "sorts p n l r m m'" for l r m m'
      using addressed_length that by (auto simp: sorts_def)
    note fin = sorts_parts [OF s(4,5) refl s(2,3)]
    show ?thesis
    proof (cases "right - left < cutoff")
      case True
      have g: "\<exists>mem'. (if l < r then quickSort_parallel_internal first bef pos cutoff m l r else Some m) = Some mem' \<and> sorts p n l r m mem'"
        if "(l, r) = (left, j) \<or> (l, r) = (i, right)" "addressed pos p n m" for m l r
        using rec [OF that] sorts_trivial [of r l p n m] by (cases "l < r") auto
      obtain mem2 where 2: "(if left < j then quickSort_parallel_internal first bef pos cutoff mem1 left j else Some mem1) = Some mem2"
        "sorts p n left j mem1 mem2" using g [of left j mem1] A1 by blast
      obtain mem3 where 3: "(if i < right then quickSort_parallel_internal first bef pos cutoff mem2 i right else Some mem2) = Some mem3"
        "sorts p n i right mem2 mem3" using g [of i right mem2] next2 [OF A1 2(2)] by blast
      show ?thesis unfolding start using s(1) True 2(1) 3(1) fin [OF 2(2) 3(2)] by simp
    next
      case False
      define l1 r1 l2 r2 where q: "l1 = (if first left right then left else i)" "r1 = (if first left right then j else right)"
        "l2 = (if first left right then i else left)" "r2 = (if first left right then right else j)"
      have qs: "(l1, r1, l2, r2) = (left, j, i, right) \<or> (l1, r1, l2, r2) = (i, right, left, j)" by (simp add: q)
      obtain mem2 where 2: "quickSort_parallel_internal first bef pos cutoff mem1 l1 r1 = Some mem2" "sorts p n l1 r1 mem1 mem2"
        using rec [of l1 r1 mem1] A1 qs by auto
      obtain mem3 where 3: "quickSort_parallel_internal first bef pos cutoff mem2 l2 r2 = Some mem3" "sorts p n l2 r2 mem2 mem3"
        using rec [of l2 r2 mem2] next2 [OF A1 2(2)] qs by auto
      have "quickSort_parallel_internal first bef pos cutoff mem left right = Some mem3"
        unfolding start using s(1) False 2(1) 3(1) by (simp add: q split: if_splits)
      then show ?thesis using fin [OF 2(2) 3(2) qs] by blast
    qed
  qed
qed

end

subsection \<open>Arrays\<close>

lemma dec_of_injective:
  assumes "pos_dims sh" "inj_on (inner st) (box sh)"
  shows "inj_on (\<lambda>k. x + inner st (dec_of ord sh k)) {0..<prod_list sh}"
proof -
  note b = bij_dec_of [OF assms(1), of ord]
  have "inj_on (inner st \<circ> dec_of ord sh) {0..<prod_list sh}"
    by (rule comp_inj_on [OF bij_betw_imp_inj_on [OF b]]) (simp add: bij_betw_imp_surj_on [OF b] assms(2))
  then show ?thesis by (auto simp: inj_on_def)
qed

lemma inner_nonneg: "in_box sh idx \<Longrightarrow> \<forall>t \<in> set st. 0 \<le> t \<Longrightarrow> 0 \<le> inner st idx"
proof (induction sh idx arbitrary: st rule: in_box.induct)
  case (2 d ds x xs)
  then show ?case by (cases st) auto
qed auto

text \<open>\<open>getPosition\<close> numbers the elements in the order of the buffer when there is an element-wise stride.\<close>

lemma getPosition_exact:
  assumes lay: "layout xi sh sx" "elementWiseStride_of xi = Some ews" "order_of xi = Some ord" and k: "0 \<le> k" "k < prod_list sh"
    and small: "inner sx (counting ews ord sh k) < 2 ^ 31"
  shows "getPosition xi k = Some (inner sx (counting ews ord sh k))"
proof -
  obtain off ex ox where X: "pos_dims sh" "prod_list sh < 2 ^ 31" "length sx = length sh" "length sh \<le> 32"
    "\<And>k. 1 \<le> ex \<Longrightarrow> 0 \<le> k \<Longrightarrow> k < prod_list sh \<Longrightarrow> inner sx (dec_of ox sh k) = k * ex"
    "rank_of xi = Some (int (length sh))" "stride_of xi = Some (sx @ [off, ex, ox])" "shapeOf xi = sh @ sx @ [off, ex, ox]"
    "elementWiseStride_of xi = Some ex" "order_of xi = Some ox"
    using lay(1) by (rule layoutE) blast
  have e: "ex = ews" "ox = ord" using X(9,10) lay(2,3) by simp_all
  show ?thesis
  proof (cases "1 \<le> ews")
    case True
    then have l: "inner sx (counting ews ord sh k) = k * ews" using X(5) [of k] k e by (simp add: counting_def)
    moreover have "0 \<le> k * ews" using True k by simp
    ultimately have "i32 (k * ews) = Some (k * ews)" using small by (simp add: i32_def)
    then show ?thesis unfolding l using True by (auto simp: getPosition_def lay(2))
  next
    case False
    then have c: "counting ews ord sh k = dec_of 99 sh k" by (simp add: counting_def)
    have "in_box sh (dec_of 99 sh k)" using bij_betwE [OF bij_dec_of [OF X(1), of 99]] k by (simp add: box_def)
    then have "0 \<le> inner sx (dec_of 99 sh k)"
      using layout_fits(5) [OF lay(1)] by (rule inner_nonneg)
    then have "to_int32 (inner sx (dec_of 99 sh k)) = inner sx (dec_of 99 sh k)" using small unfolding c by simp
    then show ?thesis unfolding c
      using False X(6-9) e coords_exact(1) [OF X(1,2,4) k] layout_offset_base [OF lay(1) k order_refl, where ord = 99]
      by (simp add: getPosition_def dec_of_def)
  qed
qed

text \<open>
  The result of a sort of the \<open>n\<close> cells \<open>p 0, p 1, \<dots>\<close>: they hold their elements in order, and all other
  cells are unchanged.
\<close>

definition sorted_values :: "bool \<Rightarrow> int \<Rightarrow> (int \<Rightarrow> int) \<Rightarrow> 'a :: linorder list \<Rightarrow> 'a list \<Rightarrow> bool" where
  "sorted_values descending n p mem mem' \<longleftrightarrow> (let E = map (\<lambda>k. mem ! nat (p k)) [0..n - 1]
     in map (\<lambda>k. mem' ! nat (p k)) [0..n - 1] = (if descending then rev (sort E) else sort E))"

definition sorted_into :: "bool \<Rightarrow> int \<Rightarrow> (int \<Rightarrow> int) \<Rightarrow> 'a :: linorder list \<Rightarrow> 'a list \<Rightarrow> bool" where
  "sorted_into descending n p mem mem' \<longleftrightarrow> sorted_values descending n p mem mem' \<and> elsewhere (p ` {0..<n}) mem mem'"

lemma sorts_sorted:
  assumes "direction.sorts descending p n 0 (n - 1) mem mem'"
  shows "sorted_into descending n p mem mem'"
proof -
  let ?E = "map (\<lambda>k. mem ! nat (p k)) [0..n - 1]" and ?E' = "map (\<lambda>k. mem' ! nat (p k)) [0..n - 1]"
  note D = assms [unfolded direction.sorts_def direction.ordered_range_def rearranged_def]
  have e: "map (seq_of p n m) [0..n - 1] = map (\<lambda>k. m ! nat (p k)) [0..n - 1]" for m :: "'a list"
    by (rule map_cong [OF refl]) (simp add: seq_of_def)
  have m: "mset ?E' = mset ?E" using D unfolding e by blast
  have o: "\<not> before descending (?E' ! l) (?E' ! k)" if "k < l" "l < nat n" for k l
  proof -
    have "\<not> before descending (seq_of p n mem' (int l)) (seq_of p n mem' (int k))"
      using D that by (auto simp: zless_nat_eq_int_zless)
    then show ?thesis using that by (simp add: seq_of_def zless_nat_eq_int_zless)
  qed
  have "?E' = (if descending then rev (sort ?E) else sort ?E)"
  proof (cases descending)
    case False
    then have "sorted ?E'" using o by (auto simp: sorted_iff_nth_mono_less before_def not_less)
    then show ?thesis using False m properties_for_sort by metis
  next
    case True
    have "sorted (rev ?E')"
      unfolding sorted_rev_iff_nth_mono
    proof (intro allI impI)
      fix i j assume "i \<le> j" "j < length ?E'"
      then show "?E' ! j \<le> ?E' ! i" using o [of i j] True by (cases "i = j") (auto simp: before_def not_less)
    qed
    then have "sort ?E = rev ?E'" using m by (intro properties_for_sort) (simp_all only: mset_rev)
    then show ?thesis using True by simp
  qed
  then show ?thesis using D by (simp add: sorted_into_def sorted_values_def)
qed

lemma quickSort_parallel_exact:
  assumes lay: "layout xi sh sx" "elementWiseStride_of xi = Some ews" "order_of xi = Some ord" and small: "prod_list sh \<le> 2 ^ 30"
    and inj: "inj_on (inner sx) (box sh)"
    and mem: "\<forall>idx \<in> box sh. inner sx idx < 2 ^ 31 \<and> 0 \<le> x + inner sx idx \<and> x + inner sx idx < int (length mem)"
  shows "\<exists>mem'. quickSort_parallel first x xi (prod_list sh) descending mem = Some mem'
    \<and> sorted_into descending (prod_list sh) (\<lambda>k. x + inner sx (counting ews ord sh k)) mem mem'"
proof -
  let ?p = "\<lambda>k. x + inner sx (counting ews ord sh k)" and ?n = "prod_list sh"
  let ?pos = "\<lambda>i. do { p \<leftarrow> getPosition xi i; Some (x + p) }"
  have pos: "pos_dims sh" using layout_fits [OF lay(1)] by blast
  have d: "counting ews ord sh k \<in> box sh" if "0 \<le> k" "k < ?n" for k
    using bij_betwE [OF bij_dec_of [OF pos]] that by (simp add: counting_def)
  have "addressed ?pos ?p ?n mem"
    unfolding addressed_def
  proof (intro conjI allI impI)
    show "inj_on ?p {0..<?n}" unfolding counting_def by (rule dec_of_injective [OF pos inj])
    fix k assume k: "0 \<le> k \<and> k < ?n"
    show "?pos k = Some (?p k)" using getPosition_exact [OF lay, of k] d [of k] mem k by simp
    show "0 \<le> ?p k" "?p k < int (length mem)" using d [of k] mem k by auto
  qed (rule small)
  moreover have "0 < ?n" using pos by (simp add: pos_dims_def prod_list_pos)
  ultimately obtain mem' where m: "quickSort_parallel_internal first (before descending) ?pos 1000 mem 0 (?n - 1) = Some mem'"
    "direction.sorts descending ?p ?n 0 (?n - 1) mem mem'"
    using direction.internal_sorts [of ?pos ?p ?n mem 1000 0 "?n - 1" first descending] by auto
  have "to_int32 (?n - 1) = ?n - 1" using small \<open>0 < ?n\<close> by simp
  then show ?thesis using m(1) sorts_sorted [OF m(2)] by (auto simp: quickSort_parallel_def)
qed

end
