(* ===== verification/SortProperties.thy ===== *)
theory SortProperties
  imports ParallelSort LoopProperties
begin

text \<open>The properties of the sort of \<open>include/ops/specials.h\<close>.\<close>

subsection \<open>Whole arrays\<close>

text \<open>
  C28.  The parallel quick sort ends and leaves the elements of the array in ascending or descending
  order, whatever order the runtime gives to the tasks; no cell outside the array changes.  The order
  is that of the buffer for an array with an element-wise stride and row-major otherwise.
\<close>

theorem sortGeneric_sorts:
  assumes "layout xi sh sx" "elementWiseStride_of xi = Some ews" "order_of xi = Some ord" "prod_list sh \<le> 2 ^ 30"
    and "inj_on (inner sx) (box sh)"
    and "\<forall>idx \<in> box sh. inner sx idx < 2 ^ 31 \<and> 0 \<le> x + inner sx idx \<and> x + inner sx idx < int (length mem)"
  shows "\<exists>mem'. sortGeneric first x xi descending mem = Some mem'
    \<and> sorted_into descending (prod_list sh) (\<lambda>k. x + inner sx (counting ews ord sh k)) mem mem'"
proof -
  have "length_of xi = Some (prod_list sh)" using assms(1) by (rule layoutE)
  then show ?thesis using quickSort_parallel_exact [OF assms] by (simp add: sortGeneric_def)
qed

theorem sortGeneric_sorts_witness:
  "\<exists>mem'. sortGeneric (\<lambda>_ _. True) 0 (mk_info [2, 2] [1, 2] 0 0 99) True [3, 1, 4, 2, 7 :: int] = Some mem'
    \<and> map (\<lambda>k. mem' ! nat k) [0, 2, 1, 3] = [4, 3, 2, 1] \<and> mem' ! 4 = 7"
proof -
  have l: "layout (mk_info [2, 2] [1, 2] 0 0 99) [2, 2] [1, 2]"
    unfolding layout_def by (rule exI, rule exI, rule exI, rule conjI [OF refl]) (simp add: pos_dims_def dec_of_def All_less_Suc2 numeral_2_eq_2)
  have e: "elementWiseStride_of (mk_info [2, 2] [1, 2] 0 0 99) = Some 0" "order_of (mk_info [2, 2] [1, 2] 0 0 99) = Some 99"
    by (simp_all add: buf_simps order_mk_info)
  have u: "[0..prod_list [2, 2] - 1] = [0, 1, 2, 3 :: int]" by (simp add: upto_rec1)
  from sortGeneric_sorts [OF l e, of 0 "[3, 1, 4, 2, 7 :: int]" "\<lambda>_ _. True" True] obtain mem' where
    m: "sortGeneric (\<lambda>_ _. True) 0 (mk_info [2, 2] [1, 2] 0 0 99) True [3, 1, 4, 2, 7 :: int] = Some mem'"
      "sorted_into True (prod_list [2, 2]) (\<lambda>k. 0 + inner [1, 2] (counting 0 99 [2, 2] k)) [3, 1, 4, 2, 7] mem'"
    by (auto simp: sample_box inj_on_def)
  then have "map (\<lambda>k. mem' ! nat k) [0, 2, 1, 3] = [4, 3, 2, 1]"
    unfolding sorted_into_def sorted_values_def u by (simp add: counting_def dec_of_def)
  moreover have "4 \<notin> (\<lambda>k. 0 + inner [1, 2] (counting 0 99 [2, 2] k)) ` {0..<4}"
  proof -
    have "{0..<4} = {0, 1, 2, 3 :: int}" by auto
    then show ?thesis by (simp add: counting_def dec_of_def)
  qed
  ultimately show ?thesis using m by (auto simp: sorted_into_def elsewhere_def)
qed

subsection \<open>Tensors along dimensions\<close>

text \<open>
  C29.  Sorting along dimensions sorts every tensor in itself, for any schedule of the tensors over the
  threads: the elements of tensor \<open>i\<close> stay in tensor \<open>i\<close>, and no cell outside the tensors changes.
\<close>

theorem sortTadGeneric_sorts:
  fixes mem :: "'a :: linorder list"
  assumes "runtime_ok rt" "layout tx sh st" "elementWiseStride_of tx = Some ews" "order_of tx = Some ord" "prod_list sh \<le> 2 ^ 30"
    and "tadLength xi dims n = Some (prod_list sh)" "length_of xi = Some (prod_list sh * tads)" "0 < tads" "tads < 2 ^ 31"
    and "int (length os) = tads" "inj_on (\<lambda>(i, idx). os ! nat i + inner st idx) ({0..<tads} \<times> box sh)"
    and "\<forall>i \<in> {0..<tads}. \<forall>idx \<in> box sh. inner st idx < 2 ^ 31
      \<and> 0 \<le> x + os ! nat i + inner st idx \<and> x + os ! nat i + inner st idx < int (length mem)"
  shows "\<exists>mem'. sortTadGeneric rt first x xi dims n tx os descending mem = Some mem'
    \<and> (\<forall>i \<in> {0..<tads}. sorted_values descending (prod_list sh) (\<lambda>k. x + os ! nat i + inner st (counting ews ord sh k)) mem mem')
    \<and> elsewhere (\<Union>i \<in> {0..<tads}. \<Union>idx \<in> box sh. {x + os ! nat i + inner st idx}) mem mem'"
proof -
  let ?n = "prod_list sh"
  define p where "p = (\<lambda>i k. x + os ! nat i + inner st (counting ews ord sh k))"
  define C where "C i = p i ` {0..<?n}" for i
  have pos: "pos_dims sh" by (rule layout_fits(2) [OF assms(2)])
  have "bij_betw (counting ews ord sh) {0..<?n} (box sh)" unfolding counting_def by (rule bij_dec_of [OF pos])
  then have "box sh = counting ews ord sh ` {0..<?n}" by (simp add: bij_betw_def)
  then have C: "C i = (\<Union>idx \<in> box sh. {x + os ! nat i + inner st idx})" for i unfolding C_def p_def by auto
  have P: "0 < ?n" using pos by (simp add: pos_dims_def prod_list_pos)
  have q: "cdiv (?n * tads) ?n = Some tads" "to_int32 tads = tads" using P assms(8,9) by (simp_all add: cdiv_pos)
  let ?body = "\<lambda>r mem. do { offset \<leftarrow> rd os r; quickSort_parallel first (x + offset) tx ?n descending mem }"
  have run: "sortTadGeneric rt first x xi dims n tx os descending mem = for_each ?body (rt_order rt [0..tads - 1]) mem"
    using assms(6,7) q by (simp add: sortTadGeneric_def parallel_for_def)
  have o: "distinct (rt_order rt [0..tads - 1])" "set (rt_order rt [0..tads - 1]) = {0..<tads}"
    using ordered [OF assms(1) distinct_upto, of 0 "tads - 1"] by (simp_all only: upto_set)
  have inj: "inj_on (inner st) (box sh)"
  proof (rule inj_onI)
    fix a b assume "a \<in> box sh" "b \<in> box sh" "inner st a = inner st b"
    then have "(0 :: int, a) = (0, b)" using assms(8) by (intro inj_onD [OF assms(11)]) simp_all
    then show "a = b" by simp
  qed
  have "\<exists>mem'. for_each ?body (rt_order rt [0..tads - 1]) mem = Some mem'
    \<and> (\<forall>i \<in> set (rt_order rt [0..tads - 1]). sorted_values descending ?n (p i) mem mem')
    \<and> elsewhere (\<Union>i \<in> set (rt_order rt [0..tads - 1]). C i) mem mem'"
  proof (rule regions_each [OF o(1)], unfold o(2))
    fix i and m :: "'a list" assume i: "i \<in> {0..<tads}" and m: "length m = length mem"
    have r: "rd os i = Some (os ! nat i)" using i assms(10) by (simp add: rd_def)
    have M: "\<forall>idx \<in> box sh. inner st idx < 2 ^ 31 \<and> 0 \<le> x + os ! nat i + inner st idx \<and> x + os ! nat i + inner st idx < int (length m)"
      unfolding m using assms(12) i by blast
    from quickSort_parallel_exact [OF assms(2-5) inj M, of first descending]
    show "\<exists>m'. ?body i m = Some m' \<and> sorted_values descending ?n (p i) m m' \<and> elsewhere (C i) m m'"
      unfolding r by (simp add: sorted_into_def C_def p_def)
  next
    fix i and m m' k k' :: "'a list" assume i: "i \<in> {0..<tads}" and v: "sorted_values descending ?n (p i) m m'"
      and s: "same_on (C i) m k" "same_on (C i) m' k'"
    have "map (\<lambda>l. a ! nat (p i l)) [0..?n - 1] = map (\<lambda>l. b ! nat (p i l)) [0..?n - 1]" if "same_on (C i) a b" for a b :: "'a list"
    proof (rule map_cong [OF refl])
      fix l assume "l \<in> set [0..?n - 1]"
      then have "p i l \<in> C i" by (simp add: C_def)
      moreover from this have "0 \<le> p i l" unfolding C using assms(12) i by auto
      ultimately show "a ! nat (p i l) = b ! nat (p i l)" using that by (simp add: same_on_def)
    qed
    from this [OF s(1)] this [OF s(2)] v show "sorted_values descending ?n (p i) k k'" by (simp only: sorted_values_def)
  next
    fix i j assume i: "i \<in> {0..<tads}" "j \<in> {0..<tads}" "i \<noteq> j"
    have "os ! nat i + inner st a \<noteq> os ! nat j + inner st b" if "a \<in> box sh" "b \<in> box sh" for a b
      using inj_onD [OF assms(11), of "(i, a)" "(j, b)"] i that by auto
    then show "C i \<inter> C j = {}" unfolding C by auto
  next
    fix i assume "i \<in> {0..<tads}"
    then show "C i \<subseteq> {0..<int (length mem)}" unfolding C using assms(12) by auto
  qed
  then show ?thesis unfolding run o(2) C p_def .
qed

theorem sortTadGeneric_sorts_witness:
  "\<exists>mem'. sortTadGeneric sample_runtime (\<lambda>_ _. True) 0 (mk_info [2, 2] [2, 1] 0 1 99) [1] 1 (mk_info [1, 2] [1, 1] 0 1 99) [0, 2] False
      [5, 3, 4, 2 :: int] = Some mem' \<and> mem' = [3, 5, 2, 4]"
proof -
  have o: "inj_on (\<lambda>(i, idx). [0, 2 :: int] ! nat i + inner [1, 1] idx) ({0..<2} \<times> box [1, 2])"
  proof (rule inj_onI, clarify)
    fix i a j b assume "i \<in> {0..<2 :: int}" "j \<in> {0..<2 :: int}" "a \<in> box [1, 2]" "b \<in> box [1, 2]"
      "[0, 2 :: int] ! nat i + inner [1, 1] a = [0, 2] ! nat j + inner [1, 1] b"
    moreover have "i = 0 \<or> i = 1" "j = 0 \<or> j = 1" using calculation by auto
    ultimately show "i = j \<and> a = b" by (auto simp: sample_row_box)
  qed
  have two: "{0..<2 :: int} = {0, 1}" by auto
  have u: "[0..prod_list [1, 2] - 1] = [0, 1 :: int]" by (simp add: upto_rec1)
  have e: "elementWiseStride_of (mk_info [1, 2] [1, 1] 0 1 99) = Some 1" by (simp add: buf_simps)
  from sortTadGeneric_sorts [OF sample_runtime_ok(1) sample_row(1) e sample_row(2) _ sample_matrix(1,2) _ _ _ o, of 0 "[5, 3, 4, 2 :: int]" "\<lambda>_ _. True" False]
  obtain mem' where m: "sortTadGeneric sample_runtime (\<lambda>_ _. True) 0 (mk_info [2, 2] [2, 1] 0 1 99) [1] 1 (mk_info [1, 2] [1, 1] 0 1 99) [0, 2] False
      [5, 3, 4, 2 :: int] = Some mem'"
    "\<forall>i \<in> {0, 1}. sorted_values False (prod_list [1, 2]) (\<lambda>k. 0 + [0, 2] ! nat i + inner [1, 1] (counting 1 99 [1, 2] k)) [5, 3, 4, 2] mem'"
    "length mem' = 4"
    unfolding two by (auto simp: sample_row_box elsewhere_def)
  have "map (\<lambda>k. mem' ! nat k) [0, 1] = [3, 5]" "map (\<lambda>k. mem' ! nat k) [2, 3] = [2, 4]"
    using m(2) unfolding sorted_values_def u by (simp_all add: counting_def dec_of_def)
  then have "mem' = [3, 5, 2, 4]" using m(3) by (intro nth_equalityI) (auto simp: less_Suc_eq numeral_eq_Suc)
  then show ?thesis using m(1) by blast
qed

end
