(* ===== verification/Specials.thy ===== *)
theory Specials
  imports ElementLoops WordFacts
begin

text \<open>
  Special kernels of \<open>include/ops/specials.h\<close>: powers of two, accumulation and averaging of arrays, and
  the encoding of a gradient as a bitmap of two bits for each element.
\<close>

unbundle bit_operations_syntax

subsection \<open>Powers of two\<close>

function count_shifts :: "int \<Rightarrow> int" where
  "count_shifts number = (if number > 0 then count_shifts (number div 2) + 1 else 0)"
  by pat_completeness auto
termination by (relation "measure nat") auto

declare count_shifts.simps [simp del]

definition nextPowerOf2 :: "int \<Rightarrow> int option" where
  "nextPowerOf2 number = i32 (2 ^ nat (count_shifts number))"

partial_function (option) double_past :: "int \<Rightarrow> int \<Rightarrow> int option" where
  [code]: "double_past number p = (if p \<le> number then do { p \<leftarrow> i32 (p * 2); double_past number p } else Some p)"

definition lastPowerOf2 :: "int \<Rightarrow> int option" where
  "lastPowerOf2 number = do { p \<leftarrow> double_past number 1; Some (p div 2) }"

subsection \<open>Accumulation and averages\<close>

text \<open>
  The arrays lie in one memory; \<open>xs\<close> lists their addresses.  The iterations over the elements run in
  parallel.
\<close>

definition accumulateGeneric :: "runtime \<Rightarrow> int list \<Rightarrow> int \<Rightarrow> int \<Rightarrow> int \<Rightarrow> 'a :: plus list \<Rightarrow> 'a list option" where
  "accumulateGeneric rt xs z n len = parallel_for rt len (\<lambda>i.
     for_each (\<lambda>ar mem. do {
       x \<leftarrow> rd xs ar; v \<leftarrow> rd mem (x + i); a \<leftarrow> rd mem (z + i); wr mem (z + i) (a + v) }) [0..n - 1])"

text \<open>\<open>memcpy(x, z, length * sizeof(T))\<close> and the propagation of the result to the arrays from \<open>first\<close> on.\<close>

definition copy_array :: "int \<Rightarrow> int \<Rightarrow> int \<Rightarrow> 'a list \<Rightarrow> 'a list option" where
  "copy_array x z len = for_each (\<lambda>i mem. do { v \<leftarrow> rd mem (z + i); wr mem (x + i) v }) [0..len - 1]"

definition propagate :: "runtime \<Rightarrow> int \<Rightarrow> int list \<Rightarrow> int \<Rightarrow> int \<Rightarrow> int \<Rightarrow> 'a list \<Rightarrow> 'a list option" where
  "propagate rt first xs z n len =
     for_each (\<lambda>ar mem. do { x \<leftarrow> rd xs ar; copy_array x z len mem }) (rt_order rt [first..n - 1])"

definition add_shares :: "runtime \<Rightarrow> int \<Rightarrow> int list \<Rightarrow> int \<Rightarrow> int \<Rightarrow> int \<Rightarrow> 'a :: field list \<Rightarrow> 'a list option" where
  "add_shares rt first xs z n len = parallel_for rt len (\<lambda>i.
     for_each (\<lambda>ar mem. do {
       x \<leftarrow> rd xs ar; v \<leftarrow> rd mem (x + i); a \<leftarrow> rd mem (z + i); wr mem (z + i) (a + v / of_int n) }) [first..n - 1])"

text \<open>The pointer \<open>z\<close> may be null; then the first array receives the average.\<close>

definition averageGeneric :: "runtime \<Rightarrow> int list \<Rightarrow> int option \<Rightarrow> int \<Rightarrow> int \<Rightarrow> bool \<Rightarrow> 'a :: field list \<Rightarrow> 'a list option" where
  "averageGeneric rt xs z n len propagate_flag mem = (case z of
     None \<Rightarrow> do {
       z \<leftarrow> rd xs 0;
       mem \<leftarrow> for_each (\<lambda>i mem. do { v \<leftarrow> rd mem (z + i); wr mem (z + i) (v / of_int n) }) [0..len - 1] mem;
       mem \<leftarrow> add_shares rt 1 xs z n len mem;
       propagate rt 1 xs z n len mem }
   | Some z \<Rightarrow> do {
       mem \<leftarrow> for_each (\<lambda>i mem. wr mem (z + i) 0) [0..len - 1] mem;
       mem \<leftarrow> add_shares rt 0 xs z n len mem;
       propagate rt 0 xs z n len mem })"

subsection \<open>Bitmaps\<close>

text \<open>
  One block of 16 elements of \<open>dx\<close> becomes one word of \<open>dz\<close>: bit \<open>i\<close> for an element that is at least as
  large as the threshold, bit \<open>i + 16\<close> for its sign or, alone, for a negative element of at least half
  the threshold.  What the code stands for is taken from the element.
\<close>

definition encode_item :: "'a :: linordered_field \<Rightarrow> int \<Rightarrow> int \<Rightarrow> nat \<Rightarrow> 'a list \<times> 32 word \<times> int \<Rightarrow> ('a list \<times> 32 word \<times> int) option" where
  "encode_item threshold N x f = (\<lambda>(dx, byte, retVal). do {
     e \<leftarrow> i64 (x + int f);
     if e \<ge> N then Some (dx, byte, retVal)
     else do {
       val \<leftarrow> rd dx e;
       bitId \<leftarrow> cmod e 16;
       let abs = (if val < 0 then - val else val);
       if abs \<ge> threshold then do {
         let byte = byte OR push_bit (nat bitId) 1;
         if val < 0 then do {
           let byte = byte OR push_bit (nat bitId + 16) 1;
           dx \<leftarrow> wr dx e (val + threshold); Some (dx, byte, retVal + 1) }
         else do { dx \<leftarrow> wr dx e (val - threshold); Some (dx, byte, retVal + 1) } }
       else if abs \<ge> threshold / 2 \<and> val < 0 then do {
         let byte = byte OR push_bit (nat bitId + 16) 1;
         dx \<leftarrow> wr dx e (val + threshold / 2); Some (dx, byte, retVal + 1) }
       else Some (dx, byte, retVal) } })"

definition encode_block ::
  "'a :: linordered_field \<Rightarrow> int \<Rightarrow> int \<Rightarrow> 'a list \<times> 32 word list \<times> int \<Rightarrow> ('a list \<times> 32 word list \<times> int) option" where
  "encode_block threshold N x = (\<lambda>(dx, dz, retVal). do {
     q \<leftarrow> cdiv x 16;
     let byteId = to_int32 (q + 4);
     (dx, byte, retVal) \<leftarrow> for_up 0 16 (encode_item threshold N x) (dx, 0, retVal);
     dz \<leftarrow> wr dz byteId byte;
     Some (dx, dz, retVal) })"

definition encodeBitmapGeneric ::
  "runtime \<Rightarrow> 'a :: linordered_field list \<Rightarrow> int \<Rightarrow> 32 word list \<Rightarrow> 'a \<Rightarrow> ('a list \<times> 32 word list \<times> int) option" where
  "encodeBitmapGeneric rt dx N dz threshold =
     for_each (encode_block threshold N) (rt_order rt (map (\<lambda>b. b * 16) [0..(N - 1) div 16])) (dx, dz, 0)"

definition decode_bit :: "'a :: field \<Rightarrow> 32 word \<Rightarrow> int \<Rightarrow> nat \<Rightarrow> 'a list \<Rightarrow> 'a list option" where
  "decode_bit threshold word e bitId dz = do {
     let hasBit = word AND push_bit bitId 1 \<noteq> 0;
     let hasSign = word AND push_bit (bitId + 16) 1 \<noteq> 0;
     i \<leftarrow> i64 ((e - 4) * 16 + int bitId);
     if hasBit then do {
       v \<leftarrow> rd dz i; wr dz i (if hasSign then v - threshold else v + threshold) }
     else if hasSign then do { v \<leftarrow> rd dz i; wr dz i (v - threshold / 2) }
     else Some dz }"

text \<open>The third word of the header is the threshold; \<open>float_of\<close> is the number with these bits.\<close>

definition decodeBitmapGeneric ::
  "runtime \<Rightarrow> (32 word \<Rightarrow> 'a) \<Rightarrow> 32 word list \<Rightarrow> int \<Rightarrow> 'a :: field list \<Rightarrow> 'a list option" where
  "decodeBitmapGeneric rt float_of dx N dz = do {
     q \<leftarrow> cdiv N 16;
     let lim = q + 5;
     t \<leftarrow> rd dx 2;
     for_each (\<lambda>e dz. do { word \<leftarrow> rd dx e; for_up 0 16 (decode_bit (float_of t) word e) dz }) (rt_order rt [4..lim - 1]) dz }"

subsection \<open>Powers of two: bounds\<close>

lemma count_shifts_bounds:
  "0 < number \<Longrightarrow> 1 \<le> count_shifts number \<and> 2 ^ nat (count_shifts number - 1) \<le> number \<and> number < 2 ^ nat (count_shifts number)"
proof (induction number rule: count_shifts.induct)
  case (1 number)
  show ?case
  proof (cases "number = 1")
    case True
    then show ?thesis by (simp add: count_shifts.simps [of 1] count_shifts.simps [of 0])
  next
    case False
    then have h: "0 < number div 2" using 1(2) by linarith
    let ?c = "count_shifts (number div 2)"
    have IH: "1 \<le> ?c" "2 ^ nat (?c - 1) \<le> number div 2" "number div 2 < 2 ^ nat ?c" using 1(1) [OF 1(2) h] by auto
    have c: "count_shifts number = ?c + 1" using 1(2) by (subst count_shifts.simps) simp
    have n: "nat ?c = Suc (nat (?c - 1))" "nat (?c + 1) = Suc (nat ?c)" using IH(1) by simp_all
    have "2 * 2 ^ nat (?c - 1) \<le> number" "number < 2 * 2 ^ nat ?c" using IH(2,3) by linarith+
    then show ?thesis unfolding c using IH(1) n by simp
  qed
qed

lemma double_past_exact:
  assumes "0 \<le> number" "number < 2 ^ 30" "1 \<le> k \<longrightarrow> 2 ^ (k - 1) \<le> number"
  shows "\<exists>j. double_past number (2 ^ k) = Some (2 ^ j) \<and> number < 2 ^ j \<and> (1 \<le> j \<longrightarrow> 2 ^ (j - 1) \<le> number)"
  using assms(3)
proof (induction "nat (number + 1 - 2 ^ k)" arbitrary: k rule: less_induct)
  case less
  show ?case
  proof (cases "(2 :: int) ^ k \<le> number")
    case False
    then show ?thesis using less.prems by (intro exI [of _ k]) (simp add: double_past.simps)
  next
    case True
    moreover have "- (2 ^ 31) \<le> (2 :: int) ^ k * 2" by (rule order_trans [of _ 0]) simp_all
    ultimately have "i32 (2 ^ k * 2) = Some (2 ^ Suc k)" using assms(2) by (simp add: i32_def)
    then have r: "double_past number (2 ^ k) = double_past number (2 ^ Suc k)"
      using True by (subst double_past.simps) simp
    have "nat (number + 1 - 2 ^ Suc k) < nat (number + 1 - 2 ^ k)" using True by simp
    from less.hyps [OF this] True show ?thesis unfolding r by simp
  qed
qed

lemma double_past_diverges: "2 ^ 30 \<le> number \<Longrightarrow> k \<le> 30 \<Longrightarrow> double_past number (2 ^ k) = None"
proof (induction "30 - k" arbitrary: k)
  case 0
  then show ?case by (subst double_past.simps) (simp add: i32_def)
next
  case (Suc d)
  have "(2 :: int) ^ k \<le> 2 ^ 29" using Suc by (intro power_increasing) auto
  moreover have "- (2 ^ 31) \<le> (2 :: int) ^ k * 2" by (rule order_trans [of _ 0]) simp_all
  ultimately have "2 ^ k \<le> number" "i32 (2 ^ k * 2) = Some (2 ^ Suc k)" using Suc.prems by (simp_all add: i32_def)
  moreover have "double_past number (2 ^ Suc k) = None" by (rule Suc.hyps(1)) (use Suc in auto)
  ultimately show ?case by (subst double_past.simps) (simp del: power_Suc)
qed

subsection \<open>What a bitmap says\<close>

definition has_bit :: "'a :: linordered_field \<Rightarrow> 'a \<Rightarrow> bool" where
  "has_bit t v \<longleftrightarrow> t \<le> \<bar>v\<bar>"

definition has_sign :: "'a :: linordered_field \<Rightarrow> 'a \<Rightarrow> bool" where
  "has_sign t v \<longleftrightarrow> v < 0 \<and> (t \<le> \<bar>v\<bar> \<or> t / 2 \<le> \<bar>v\<bar>)"

text \<open>The amount that the two bits of an element stand for.\<close>

definition amount :: "'a :: field \<Rightarrow> bool \<Rightarrow> bool \<Rightarrow> 'a" where
  "amount t b s = (if b then (if s then - t else t) else if s then - (t / 2) else 0)"

abbreviation coded :: "'a :: linordered_field \<Rightarrow> 'a \<Rightarrow> 'a" where "coded t v \<equiv> amount t (has_bit t v) (has_sign t v)"

definition block_word :: "'a :: linordered_field \<Rightarrow> nat \<Rightarrow> 'a list \<Rightarrow> nat \<Rightarrow> nat \<Rightarrow> 32 word \<Rightarrow> bool" where
  "block_word t N dx x j w \<longleftrightarrow> (\<forall>m. bit w m \<longleftrightarrow> m < 16 \<and> m < j \<and> x + m < N \<and> has_bit t (dx ! (x + m))
     \<or> 16 \<le> m \<and> m < 32 \<and> m - 16 < j \<and> x + (m - 16) < N \<and> has_sign t (dx ! (x + (m - 16))))"

definition marked :: "'a :: linordered_field \<Rightarrow> nat \<Rightarrow> 'a list \<Rightarrow> nat set" where
  "marked t N dx = {e. e < N \<and> (has_bit t (dx ! e) \<or> has_sign t (dx ! e))}"

lemma bit_or_push: "bit (w OR push_bit k 1 :: 32 word) m \<longleftrightarrow> bit w m \<or> m = k \<and> k < 32"
    "bit (w OR 2 ^ k :: 32 word) m \<longleftrightarrow> bit w m \<or> m = k \<and> k < 32"
  by (auto simp: bit_simps)

lemma mark_step:
  assumes "\<forall>m. bw m \<longleftrightarrow> m < 16 \<and> m < f \<and> B m \<or> 16 \<le> m \<and> m < 32 \<and> m - 16 < f \<and> S (m - 16)"
    and "\<forall>m. bw' m \<longleftrightarrow> bw m \<or> m = f \<and> B f \<or> m = f + 16 \<and> S f" and "f < (16 :: nat)"
  shows "\<forall>m. bw' m \<longleftrightarrow> m < 16 \<and> m < Suc f \<and> B m \<or> 16 \<le> m \<and> m < 32 \<and> m - 16 < Suc f \<and> S (m - 16)"
proof
  fix m
  consider "m = f" | "m = f + 16" | "m \<noteq> f" "m \<noteq> f + 16" by blast
  then show "bw' m \<longleftrightarrow> m < 16 \<and> m < Suc f \<and> B m \<or> 16 \<le> m \<and> m < 32 \<and> m - 16 < Suc f \<and> S (m - 16)"
  proof cases
    case 3
    then have "m < Suc f \<longleftrightarrow> m < f" "16 \<le> m \<Longrightarrow> m - 16 < Suc f \<longleftrightarrow> m - 16 < f" by linarith+
    then show ?thesis using 3 spec [OF assms(1), of m] spec [OF assms(2), of m] by blast
  qed (use spec [OF assms(1), of m] spec [OF assms(2), of m] assms(3) in simp_all)
qed

lemma encode_item_exact:
  assumes "x mod 16 = 0" "f < 16" "x + 16 < 2 ^ 31" "N \<le> length dx" "x + f < N \<Longrightarrow> dx' ! (x + f) = dx ! (x + f)" "length dx' = length dx"
    and w: "block_word t N dx x f w"
  shows "\<exists>w'. encode_item t (int N) (int x) f (dx', w, r) =
      Some (if x + f < N then dx'[x + f := dx ! (x + f) - coded t (dx ! (x + f))] else dx', w', r + (if x + f \<in> marked t N dx then 1 else 0))
    \<and> block_word t N dx x (Suc f) w'"
proof (cases "x + f < N")
  case False
  have i: "i64 (int x + int f) = Some (int (x + f))" using assms(2,3) by (simp add: i64_def)
  have "block_word t N dx x (Suc f) w" using w False unfolding block_word_def by (auto simp: less_Suc_eq)
  then show ?thesis using i False by (simp add: encode_item_def marked_def)
next
  case True
  let ?v = "dx ! (x + f)"
  have i: "i64 (int x + int f) = Some (int (x + f))" using assms(2,3) by (simp add: i64_def)
  have "cmod (int (x + f)) 16 = Some (int ((x + f) mod 16))" by (simp add: cmod_pos zmod_int)
  moreover have "(x + f) mod 16 = f" using assms(2) by (subst mod_add_eq [symmetric]) (simp add: assms(1))
  ultimately have m: "cmod (int (x + f)) 16 = Some (int f)" by (simp only:)
  have l: "x + f < length dx'" using True assms(4,6) by simp
  have step: "block_word t N dx x (Suc f) w'"
    if "\<And>m. bit w' m \<longleftrightarrow> bit w m \<or> m = f \<and> has_bit t ?v \<or> m = f + 16 \<and> has_sign t ?v" for w'
    unfolding block_word_def
    using mark_step [where B = "\<lambda>k. x + k < N \<and> has_bit t (dx ! (x + k))" and S = "\<lambda>k. x + k < N \<and> has_sign t (dx ! (x + k))",
        OF w [unfolded block_word_def] _ assms(2), of "bit w'"] that True by simp
  have keep: "dx'[x + f := ?v] = dx'" using assms(5) [OF True] by (metis list_update_id)
  let ?b = "w OR push_bit f 1" and ?s = "w OR push_bit (f + 16) 1" and ?bs = "(w OR push_bit f 1) OR push_bit (f + 16) 1"
  have rw: "rd dx' (int (x + f)) = Some ?v" "wr dx' (int (x + f)) v = Some (dx'[x + f := v])" for v
    using l assms(5) [OF True] by (simp_all only: rd_nat wr_nat if_True)
  have lt: "(int (x + f) \<ge> int N) = False" using True by simp
  have run: "encode_item t (int N) (int x) f (dx', w, r) =
      (let abs = (if ?v < 0 then - ?v else ?v) in
       if abs \<ge> t then if ?v < 0 then Some (dx'[x + f := ?v + t], ?bs, r + 1) else Some (dx'[x + f := ?v - t], ?b, r + 1)
       else if abs \<ge> t / 2 \<and> ?v < 0 then Some (dx'[x + f := ?v + t / 2], ?s, r + 1) else Some (dx', w, r))"
    by (simp only: encode_item_def prod.case i m rw lt nat_int Let_def Option.bind.simps if_False)
  have abs: "(if ?v < 0 then - ?v else ?v) = \<bar>?v\<bar>" by simp
  have st: "\<exists>w'. encode_item t (int N) (int x) f (dx', w, r) = Some (dx'[x + f := ?v - coded t ?v], w', r + (if has_bit t ?v \<or> has_sign t ?v then 1 else 0))
      \<and> (\<forall>m. bit w' m \<longleftrightarrow> bit w m \<or> m = f \<and> has_bit t ?v \<or> m = f + 16 \<and> has_sign t ?v)"
  proof -
    consider "has_bit t ?v" "?v < 0" | "has_bit t ?v" "\<not> ?v < 0" | "\<not> has_bit t ?v" "has_sign t ?v" | "\<not> has_bit t ?v" "\<not> has_sign t ?v" by blast
    then show ?thesis
    proof cases
      case 1
      then have "has_sign t ?v" by (simp add: has_sign_def has_bit_def)
      then show ?thesis using 1 assms(2) unfolding run abs by (intro exI [of _ ?bs]) (auto simp: has_bit_def amount_def bit_or_push)
    next
      case 2
      then have "\<not> has_sign t ?v" by (simp add: has_sign_def)
      then show ?thesis using 2 assms(2) unfolding run abs by (intro exI [of _ ?b]) (auto simp: has_bit_def amount_def bit_or_push)
    next
      case 3
      then show ?thesis using assms(2) unfolding run abs
        by (intro exI [of _ ?s]) (auto simp: has_bit_def has_sign_def amount_def bit_or_push)
    next
      case 4
      then have "encode_item t (int N) (int x) f (dx', w, r) = Some (dx', w, r)"
        unfolding run abs by (auto simp: has_bit_def has_sign_def)
      then show ?thesis using 4 keep by (intro exI [of _ w]) (simp add: amount_def)
    qed
  qed
  then show ?thesis using True step by (auto simp: marked_def)
qed

text \<open>The array after the blocks of the set \<open>A\<close> (of first elements) have been encoded.\<close>

definition quantised :: "'a :: linordered_field \<Rightarrow> nat \<Rightarrow> 'a list \<Rightarrow> nat set \<Rightarrow> 'a list \<Rightarrow> bool" where
  "quantised t N dx E dx' \<longleftrightarrow> length dx' = length dx
     \<and> (\<forall>e < length dx. dx' ! e = (if e \<in> E \<and> e < N then dx ! e - coded t (dx ! e) else dx ! e))"

lemma card_insert_if: "finite A \<Longrightarrow> k \<notin> A \<Longrightarrow> int (card (if c then insert k A else A)) = int (card A) + (if c then 1 else 0)"
  by simp

lemma encode_items_exact:
  assumes "x mod 16 = 0" "x + 16 < 2 ^ 31" "N \<le> length dx" "quantised t N dx E dx0" "E \<inter> {x..<x + 16} = {}"
  shows "\<exists>dx' w. for_up 0 16 (encode_item t (int N) (int x)) (dx0, 0, r) = Some (dx', w, r + int (card (marked t N dx \<inter> {x..<x + 16})))
    \<and> quantised t N dx (E \<union> {x..<x + 16}) dx' \<and> block_word t N dx x 16 w"
proof -
  let ?P = "\<lambda>f (dx', w, r'). quantised t N dx (E \<union> {x..<x + f}) dx' \<and> block_word t N dx x f w
    \<and> r' = r + int (card (marked t N dx \<inter> {x..<x + f}))"
  have "\<exists>s. for_up 0 16 (encode_item t (int N) (int x)) (dx0, 0, r) = Some s \<and> ?P (0 + 16) s"
  proof (rule for_up_total)
    show "?P 0 (dx0, 0, r)" using assms(4) by (simp add: block_word_def)
  next
    fix f s assume f: "f < 0 + 16" and P: "?P f s"
    obtain dx' w r' where s: "s = (dx', w, r')" by (cases s)
    have q: "quantised t N dx (E \<union> {x..<x + f}) dx'" and w: "block_word t N dx x f w"
      and r: "r' = r + int (card (marked t N dx \<inter> {x..<x + f}))" using P by (simp_all add: s)
    have new: "x + f \<notin> E \<union> {x..<x + f}" using assms(5) f by auto
    have old: "dx' ! (x + f) = dx ! (x + f)" if "x + f < N" using q new that assms(3) by (simp add: quantised_def)
    have l: "length dx' = length dx" using q by (simp add: quantised_def)
    from encode_item_exact [OF assms(1) _ assms(2,3) old l w, of r'] f obtain w' where
      e: "encode_item t (int N) (int x) f (dx', w, r') =
        Some (if x + f < N then dx'[x + f := dx ! (x + f) - coded t (dx ! (x + f))] else dx', w', r' + (if x + f \<in> marked t N dx then 1 else 0))"
      "block_word t N dx x (Suc f) w'" by auto
    have set: "E \<union> {x..<x + Suc f} = insert (x + f) (E \<union> {x..<x + f})" by auto
    have "quantised t N dx (E \<union> {x..<x + Suc f}) (if x + f < N then dx'[x + f := dx ! (x + f) - coded t (dx ! (x + f))] else dx')"
      unfolding set using q new assms(3) by (auto simp: quantised_def nth_list_update)
    moreover have "marked t N dx \<inter> {x..<x + Suc f} = (if x + f \<in> marked t N dx then insert (x + f) (marked t N dx \<inter> {x..<x + f}) else marked t N dx \<inter> {x..<x + f})"
      by (auto simp: less_Suc_eq)
    then have "int (card (marked t N dx \<inter> {x..<x + Suc f})) = int (card (marked t N dx \<inter> {x..<x + f})) + (if x + f \<in> marked t N dx then 1 else 0)"
      by (simp only: card_insert_if [of "marked t N dx \<inter> {x..<x + f}" "x + f"] finite_Int finite_atLeastLessThan) auto
    ultimately show "\<exists>s'. encode_item t (int N) (int x) f s = Some s' \<and> ?P (Suc f) s'"
      using e r by (simp add: s)
  qed
  then show ?thesis by auto
qed

definition covers :: "int set \<Rightarrow> nat set" where
  "covers A = (\<Union>x \<in> A. {nat x..<nat x + 16})"

lemma nat_multiple: "x mod 16 = 0 \<Longrightarrow> 0 \<le> x \<Longrightarrow> nat x mod 16 = 0"
  using nat_mod_distrib [of x 16] by simp

lemma block_index:
  assumes "n mod 16 = 0" "n < N" shows "n div 16 < (N + 15) div (16 :: nat)"
proof -
  obtain d where d: "n = 16 * d" using assms(1) by (auto simp: mod_eq_0_iff_dvd)
  then have "(d + 1) * 16 \<le> N + 15" using assms(2) by simp
  then have "d + 1 \<le> (N + 15) div 16" by (subst less_eq_div_iff_mult_less_eq) simp_all
  then show ?thesis using d by simp
qed

lemma blocks_apart:
  assumes "x mod 16 = 0" "0 \<le> x" "\<forall>y \<in> A. y mod 16 = 0 \<and> 0 \<le> y" "x \<notin> A"
  shows "covers A \<inter> {nat x..<nat x + 16} = {}"
proof -
  have "{nat y..<nat y + 16} \<inter> {nat x..<nat x + 16} = {}" if "y \<in> A" for y
  proof -
    have "y mod 16 = 0" "0 \<le> y" "x \<noteq> y" using assms(3,4) that by auto
    then have "y + 16 \<le> x \<or> x + 16 \<le> y" using assms(1) by presburger
    then show ?thesis using assms(2) \<open>0 \<le> y\<close> by auto
  qed
  then show ?thesis unfolding covers_def by blast
qed

lemma blocks_cover:
  shows "x \<in> set (map (\<lambda>b. b * 16) [0..(int N - 1) div 16]) \<Longrightarrow> x mod 16 = 0 \<and> 0 \<le> x \<and> x < int N"
    and "e < N \<Longrightarrow> e \<in> covers (set (map (\<lambda>b. b * 16) [0..(int N - 1) div 16]))"
proof -
  assume "x \<in> set (map (\<lambda>b. b * 16) [0..(int N - 1) div 16])"
  then obtain b where b: "x = b * 16" "0 \<le> b" "b \<le> (int N - 1) div 16" by auto
  have "(int N - 1) div 16 * 16 \<le> int N - 1" using div_mult_mod_eq [of "int N - 1" 16] pos_mod_sign [of 16 "int N - 1"] by linarith
  then show "x mod 16 = 0 \<and> 0 \<le> x \<and> x < int N" using b by auto
next
  assume e: "e < N"
  have "int e div 16 \<in> {0..(int N - 1) div 16}" using e by (auto intro: zdiv_mono1)
  moreover have "nat (int e div 16 * 16) \<le> e" "e < nat (int e div 16 * 16) + 16"
    using div_mult_mod_eq [of "int e" 16] pos_mod_sign [of 16 "int e"] pos_mod_bound [of 16 "int e"] by linarith+
  ultimately show "e \<in> covers (set (map (\<lambda>b. b * 16) [0..(int N - 1) div 16]))"
    by (auto simp: covers_def intro!: bexI [of _ "int e div 16"])
qed

lemma encode_exact:
  assumes "runtime_ok rt" "N \<le> length dx" "(N + 15) div 16 + 4 \<le> length dz" "N + 32 < 2 ^ 31"
  shows "\<exists>dx' dz'. encodeBitmapGeneric rt dx (int N) dz t = Some (dx', dz', int (card (marked t N dx)))
    \<and> quantised t N dx {..<N} dx' \<and> length dz' = length dz
    \<and> (\<forall>b. b * 16 < N \<longrightarrow> block_word t N dx (b * 16) 16 (dz' ! (4 + b)))
    \<and> (\<forall>q < length dz. q < 4 \<or> 4 + (N + 15) div 16 \<le> q \<longrightarrow> dz' ! q = dz ! q)"
proof -
  let ?xs = "map (\<lambda>b. b * 16) [0..(int N - 1) div 16]"
  have d: "distinct ?xs" by (simp add: distinct_map inj_on_def)
  note o = ordered [OF assms(1) d]
  let ?P = "\<lambda>A (dx', dz', r). quantised t N dx (covers A) dx' \<and> length dz' = length dz
    \<and> (\<forall>x \<in> A. block_word t N dx (nat x) 16 (dz' ! (4 + nat x div 16)))
    \<and> (\<forall>q < length dz. (\<forall>x \<in> A. q \<noteq> 4 + nat x div 16) \<longrightarrow> dz' ! q = dz ! q) \<and> r = int (card (marked t N dx \<inter> covers A))"
  have "\<exists>s. for_each (encode_block t (int N)) (rt_order rt ?xs) (dx, dz, 0) = Some s \<and> ?P (set (rt_order rt ?xs)) s"
  proof (rule for_each_total [OF o(1)], unfold o(2))
    show "?P {} (dx, dz, 0)" by (simp add: covers_def quantised_def)
  next
    fix x A s assume x: "x \<in> set ?xs" and A: "A \<subseteq> set ?xs" "x \<notin> A" and P: "?P A s"
    obtain dx0 dz0 r where s: "s = (dx0, dz0, r)" by (cases s)
    have x': "x mod 16 = 0" "0 \<le> x" "x < int N" using blocks_cover(1) [OF x] by auto
    define n where "n = nat x"
    have n: "x = int n" "n mod 16 = 0" "n < N" using x' nat_multiple [OF x'(1,2)] by (simp_all add: n_def)
    have Am: "\<forall>y \<in> A. y mod 16 = 0 \<and> 0 \<le> y" using blocks_cover(1) A(1) by blast
    have apart: "covers A \<inter> {n..<n + 16} = {}" using blocks_apart [OF x'(1,2) Am A(2)] by (simp add: n_def)
    have ins: "covers (insert x A) = covers A \<union> {n..<n + 16}" by (auto simp: covers_def n_def)
    have "n + 16 < 2 ^ 31" "quantised t N dx (covers A) dx0" using n(3) assms(4) P by (simp_all add: s)
    from encode_items_exact [OF n(2) this(1) assms(2) this(2) apart, of r] obtain dx' w where
      e: "for_up 0 16 (encode_item t (int N) (int n)) (dx0, 0, r) = Some (dx', w, r + int (card (marked t N dx \<inter> {n..<n + 16})))"
      "quantised t N dx (covers A \<union> {n..<n + 16}) dx'" "block_word t N dx n 16 w" by blast
    have q: "4 + n div 16 < length dz" using block_index [OF n(2,3)] assms(3) by linarith
    have c: "cdiv x 16 = Some (int (n div 16))" unfolding n(1) by (simp add: cdiv_pos zdiv_int)
    have "int (n div 16) + 4 < 2 ^ 31" using n(3) assms(4) div_le_dividend [of n 16] by simp
    then have t: "to_int32 (int (n div 16) + 4) = int (4 + n div 16)" by simp
    have "4 + n div 16 < length dz0" using P q by (simp add: s)
    then have "wr dz0 (int (4 + n div 16)) w = Some (dz0[4 + n div 16 := w])" by (simp only: wr_nat if_True)
    then have run: "encode_block t (int N) x s = Some (dx', dz0[4 + n div 16 := w], r + int (card (marked t N dx \<inter> {n..<n + 16})))"
      unfolding encode_block_def s prod.case c Option.bind.simps Let_def t using e(1) by (simp only: n(1) Option.bind.simps prod.case)
    have fin: "finite (marked t N dx)" by (simp add: marked_def)
    have "marked t N dx \<inter> covers (insert x A) = (marked t N dx \<inter> covers A) \<union> (marked t N dx \<inter> {n..<n + 16})"
      unfolding ins by blast
    then have "card (marked t N dx \<inter> covers (insert x A)) = card (marked t N dx \<inter> covers A) + card (marked t N dx \<inter> {n..<n + 16})"
      using apart fin by (simp only:) (rule card_Un_disjoint, auto)
    moreover have "dz0[4 + n div 16 := w] ! (4 + nat y div 16) = dz0 ! (4 + nat y div 16)" if "y \<in> A" for y
    proof -
      have "nat y \<noteq> n" "nat y mod 16 = 0" using Am A(2) that n(1) nat_multiple [of y] by auto
      then have "nat y div 16 \<noteq> n div 16" using n(2) by (metis div_mult_mod_eq)
      then show ?thesis by simp
    qed
    ultimately have "?P (insert x A) (dx', dz0[4 + n div 16 := w], r + int (card (marked t N dx \<inter> {n..<n + 16})))"
      using P e(2,3) q by (simp add: s ins n_def [symmetric])
    then show "\<exists>s'. encode_block t (int N) x s = Some s' \<and> ?P (insert x A) s'" using run by blast
  qed
  then obtain dx' dz' r where m: "encodeBitmapGeneric rt dx (int N) dz t = Some (dx', dz', r)" "?P (set ?xs) (dx', dz', r)"
    unfolding o(2) encodeBitmapGeneric_def by auto
  have "{..<N} \<subseteq> covers (set ?xs)" using blocks_cover(2) by blast
  then have "quantised t N dx {..<N} dx'" "marked t N dx \<inter> covers (set ?xs) = marked t N dx"
    using m(2) by (auto simp: quantised_def marked_def)
  moreover have "block_word t N dx (b * 16) 16 (dz' ! (4 + b))" if "b * 16 < N" for b
  proof -
    have "int b * 16 \<in> set ?xs" using that by (auto intro!: image_eqI [of _ _ "int b"])
    then have "block_word t N dx (nat (int b * 16)) 16 (dz' ! (4 + nat (int b * 16) div 16))" using m(2) by blast
    then show ?thesis by (simp add: nat_mult_distrib)
  qed
  moreover have "dz' ! q = dz ! q" if "q < length dz" "q < 4 \<or> 4 + (N + 15) div 16 \<le> q" for q
  proof -
    have "q \<noteq> 4 + nat x div 16" if x: "x \<in> set ?xs" for x
    proof -
      have "nat x < N" "nat x mod 16 = 0" using blocks_cover(1) [OF x] nat_multiple [of x] by auto
      then have "nat x div 16 < (N + 15) div 16" by (intro block_index)
      then show ?thesis using \<open>q < 4 \<or> 4 + (N + 15) div 16 \<le> q\<close> by linarith
    qed
    then show ?thesis using m(2) that(1) by blast
  qed
  ultimately show ?thesis using m by auto
qed

subsection \<open>Decoding\<close>

lemma and_push: "(w :: 32 word) AND push_bit k 1 \<noteq> 0 \<longleftrightarrow> bit w k"
proof (cases "k < 32")
  case True
  have "push_bit k 1 = (2 ^ k :: 32 word)" by (simp add: push_bit_eq_mult)
  moreover from True have "(2 ^ k :: 32 word) \<noteq> 0" by simp
  ultimately show ?thesis by (simp add: and_bit)
next
  case False
  then have "(2 ^ k :: 32 word) = 0" by simp
  then have "push_bit k 1 = (0 :: 32 word)" by (simp add: push_bit_eq_mult)
  then have "w AND push_bit k 1 = 0" by (simp only: and_zero_eq)
  then show ?thesis using False bit_imp_le_length [of w k] by (simp only:) auto
qed

definition decoded :: "'a :: field \<Rightarrow> (nat \<Rightarrow> 32 word) \<Rightarrow> nat set \<Rightarrow> 'a list \<Rightarrow> 'a list \<Rightarrow> bool" where
  "decoded t W E dz dz' \<longleftrightarrow> length dz' = length dz
     \<and> (\<forall>e < length dz. dz' ! e = dz ! e + (if e \<in> E then amount t (bit (W (e div 16)) (e mod 16)) (bit (W (e div 16)) (e mod 16 + 16)) else 0))"

lemma decode_block_exact:
  assumes "decoded t W E dz0 dz" "E \<inter> {b * 16..<b * 16 + 16} = {}" "b < 2 ^ 40"
    and fits: "\<And>i. i < 16 \<Longrightarrow> bit (W b) i \<or> bit (W b) (i + 16) \<Longrightarrow> b * 16 + i < length dz0"
  shows "\<exists>dz'. for_up 0 16 (decode_bit t (W b) (4 + int b)) dz = Some dz' \<and> decoded t W (E \<union> {b * 16..<b * 16 + 16}) dz0 dz'"
proof -
  let ?P = "\<lambda>j dz'. decoded t W (E \<union> {b * 16..<b * 16 + j}) dz0 dz'"
  have "\<exists>dz'. for_up 0 16 (decode_bit t (W b) (4 + int b)) dz = Some dz' \<and> ?P (0 + 16) dz'"
  proof (rule for_up_total)
    show "?P 0 dz" using assms(1) by simp
  next
    fix j d assume j: "j < 0 + 16" and P: "?P j d"
    let ?k = "b * 16 + j"
    let ?a = "amount t (bit (W b) j) (bit (W b) (j + 16))"
    have i: "i64 ((4 + int b - 4) * 16 + int j) = Some (int ?k)" using j assms(3) by (simp add: i64_def)
    have dm: "?k div 16 = b" "?k mod 16 = j" using j by simp_all
    have new: "?k \<notin> E \<union> {b * 16..<b * 16 + j}" using assms(2) j by auto
    have len: "length d = length dz0" using P by (simp add: decoded_def)
    have set: "E \<union> {b * 16..<b * 16 + Suc j} = insert ?k (E \<union> {b * 16..<b * 16 + j})" by auto
    have upd: "?P (Suc j) (if ?k < length dz0 then d[?k := d ! ?k + ?a] else d)"
      unfolding set decoded_def using P [unfolded decoded_def] new dm by (auto simp: nth_list_update)
    show "\<exists>d'. decode_bit t (W b) (4 + int b) j d = Some d' \<and> ?P (Suc j) d'"
    proof (cases "bit (W b) j \<or> bit (W b) (j + 16)")
      case True
      then have k: "?k < length dz0" using fits [of j] j by simp
      then have rw: "rd d (int ?k) = Some (d ! ?k)" "wr d (int ?k) v = Some (d[?k := v])" for v
        using len by (simp_all only: rd_nat wr_nat if_True)
      have "decode_bit t (W b) (4 + int b) j d = Some (d[?k := d ! ?k + ?a])"
        unfolding decode_bit_def and_push Let_def i Option.bind.simps rw using True by (auto simp: amount_def)
      then show ?thesis using upd k by auto
    next
      case False
      have "decode_bit t (W b) (4 + int b) j d = Some d"
        unfolding decode_bit_def and_push Let_def i Option.bind.simps using False by simp
      moreover have "(if ?k < length dz0 then d[?k := d ! ?k + ?a] else d) = d"
        using False by (simp add: amount_def)
      ultimately show ?thesis using upd by simp
    qed
  qed
  then show ?thesis by simp
qed

lemma decode_exact:
  assumes "runtime_ok rt" "N div 16 + 5 \<le> length xs" "N < 2 ^ 31"
    and fits: "\<And>b i. b \<le> N div 16 \<Longrightarrow> i < 16 \<Longrightarrow> bit (xs ! (4 + b)) i \<or> bit (xs ! (4 + b)) (i + 16) \<Longrightarrow> b * 16 + i < length dz"
  shows "\<exists>dz'. decodeBitmapGeneric rt float_of xs (int N) dz = Some dz'
    \<and> decoded (float_of (xs ! 2)) (\<lambda>b. xs ! (4 + b)) {..<(N div 16 + 1) * 16} dz dz'"
proof -
  let ?W = "\<lambda>b. xs ! (4 + b)" and ?t = "float_of (xs ! 2)"
  let ?es = "[4..int (N div 16) + 5 - 1]"
  note o = ordered [OF assms(1) distinct_upto, of 4 "int (N div 16) + 5 - 1"]
  let ?E = "\<lambda>A. {e. 4 + int (e div 16) \<in> A}"
  have "\<exists>dz'. for_each (\<lambda>e dz. do { word \<leftarrow> rd xs e; for_up 0 16 (decode_bit ?t word e) dz }) (rt_order rt ?es) dz = Some dz'
    \<and> decoded ?t ?W (?E (set (rt_order rt ?es))) dz dz'"
  proof (rule for_each_total [OF o(1)], unfold o(2))
    show "decoded ?t ?W (?E {}) dz dz" by (simp add: decoded_def)
  next
    fix e A d assume e: "e \<in> set ?es" "A \<subseteq> set ?es" "e \<notin> A" and P: "decoded ?t ?W (?E A) dz d"
    define b where "b = nat (e - 4)"
    have b: "e = 4 + int b" "b \<le> N div 16" using e(1) by (auto simp: b_def)
    have blk: "e' div 16 = b" if "e' \<in> {b * 16..<b * 16 + 16}" for e'
    proof -
      show ?thesis by (rule div_nat_eqI) (use that in simp_all)
    qed
    have eq: "?E (insert e A) = ?E A \<union> {b * 16..<b * 16 + 16}"
    proof -
      have "e' \<in> {b * 16..<b * 16 + 16}" if "e' div 16 = b" for e'
      proof -
        have "b * 16 + e' mod 16 = e'" using div_mult_mod_eq [of e' 16] unfolding that .
        moreover have "e' mod 16 < 16" by simp
        ultimately show ?thesis unfolding atLeastLessThan_iff by linarith
      qed
      then have "{b * 16..<b * 16 + 16} = {e'. e' div 16 = b}" using blk by blast
      then show ?thesis unfolding b(1)
        by (intro set_eqI) (simp only: insert_iff Un_iff mem_Collect_eq add_left_cancel of_nat_eq_iff disj_commute)
    qed
    have disj: "?E A \<inter> {b * 16..<b * 16 + 16} = {}"
    proof -
      have False if "4 + int (e' div 16) \<in> A" "e' \<in> {b * 16..<b * 16 + 16}" for e'
        using that(1) e(3) unfolding blk [OF that(2)] b(1) by blast
      then show ?thesis by blast
    qed
    have "b < 2 ^ 40" using b(2) assms(3) div_le_dividend [of N 16] by simp
    from decode_block_exact [OF P disj this fits [OF b(2)]] obtain d' where
      d: "for_up 0 16 (decode_bit ?t (xs ! (4 + b)) (4 + int b)) d = Some d'" "decoded ?t ?W (?E A \<union> {b * 16..<b * 16 + 16}) dz d'" by blast
    have "rd xs e = Some (xs ! (4 + b))"
    proof -
      have "rd xs (int (4 + b)) = Some (xs ! (4 + b))" using b(2) assms(2) by (simp only: rd_nat) simp
      then show ?thesis by (simp add: b(1))
    qed
    then show "\<exists>d'. do { word \<leftarrow> rd xs e; for_up 0 16 (decode_bit ?t word e) d } = Some d' \<and> decoded ?t ?W (?E (insert e A)) dz d'"
      using d(1) d(2) [unfolded eq [symmetric]] by (simp only: b(1) Option.bind.simps) blast
  qed
  moreover have "?E (set (rt_order rt ?es)) = {..<(N div 16 + 1) * 16}"
  proof -
    have "e div 16 \<le> N div 16 \<longleftrightarrow> e < (N div 16 + 1) * 16" for e
      using div_less_iff_less_mult [of 16 e "N div 16 + 1"] by (simp add: less_Suc_eq_le)
    moreover have "4 + int (e div 16) \<in> set [4..int (N div 16) + 5 - 1] \<longleftrightarrow> e div 16 \<le> N div 16" for e by simp
    ultimately show ?thesis unfolding o(2) by (simp only: lessThan_def)
  qed
  moreover have "rd xs 2 = Some (xs ! 2)" "cdiv (int N) 16 = Some (int (N div 16))"
    using assms(2) by (simp_all add: cdiv_pos zdiv_int)
  ultimately show ?thesis unfolding decodeBitmapGeneric_def by simp
qed

subsection \<open>Sums of arrays\<close>

lemma intervals_apart:
  assumes "{x..<x + len} \<inter> {z..<z + len} = {}" "0 \<le> i" "i < len" "0 \<le> k" "k < len" shows "x + i \<noteq> z + (k :: int)"
proof
  assume "x + i = z + k"
  then have "x + i \<in> {x..<x + len} \<inter> {z..<z + len}" using assms(2-5) by simp
  then show False using assms(1) by blast
qed

lemma add_column:
  fixes f :: "'a \<Rightarrow> 'a :: field"
  assumes "\<forall>j \<in> set js. 0 \<le> j \<and> j < int (length xs)" "0 \<le> c" "c < int (length mem)"
    and "\<forall>j \<in> set js. 0 \<le> xs ! nat j + i \<and> xs ! nat j + i < int (length mem) \<and> xs ! nat j + i \<noteq> c"
  shows "for_each (\<lambda>ar mem. do { x \<leftarrow> rd xs ar; v \<leftarrow> rd mem (x + i); a \<leftarrow> rd mem c; wr mem c (a + f v) }) js mem
    = Some (mem[nat c := mem ! nat c + (\<Sum>j \<leftarrow> js. f (mem ! nat (xs ! nat j + i)))])"
  using assms(1,3,4)
proof (induction js arbitrary: mem)
  case (Cons j js)
  let ?m = "mem[nat c := mem ! nat c + f (mem ! nat (xs ! nat j + i))]"
  have j: "0 \<le> j" "j < int (length xs)" using Cons.prems(1) by simp_all
  have c: "nat c < length mem" using Cons.prems(2) assms(2) by (simp add: nat_less_iff)
  have keep: "?m ! nat (xs ! nat k + i) = mem ! nat (xs ! nat k + i)" if "k \<in> set js" for k
  proof -
    have "nat c \<noteq> nat (xs ! nat k + i)" using Cons.prems(3) that assms(2) by (auto simp: eq_nat_nat_iff)
    then show ?thesis by simp
  qed
  then have "(\<Sum>k \<leftarrow> js. f (?m ! nat (xs ! nat k + i))) = (\<Sum>k \<leftarrow> js. f (mem ! nat (xs ! nat k + i)))"
    by (intro arg_cong [where f = sum_list] map_cong refl) simp
  moreover have "for_each (\<lambda>ar mem. do { x \<leftarrow> rd xs ar; v \<leftarrow> rd mem (x + i); a \<leftarrow> rd mem c; wr mem c (a + f v) }) js ?m
      = Some (?m[nat c := ?m ! nat c + (\<Sum>k \<leftarrow> js. f (?m ! nat (xs ! nat k + i)))])"
    by (rule Cons.IH) (use Cons.prems in auto)
  ultimately show ?case using j c Cons.prems(2,3) assms(2) by (simp add: rd_def wr_def add.assoc)
qed (simp add: assms(2))

lemma add_columns:
  fixes f :: "'a \<Rightarrow> 'a :: field"
  assumes "runtime_ok rt" "\<forall>j \<in> set js. 0 \<le> j \<and> j < int (length xs)" "0 \<le> z" "z + len \<le> int (length mem)"
    and "\<forall>j \<in> set js. 0 \<le> xs ! nat j \<and> xs ! nat j + len \<le> int (length mem) \<and> {xs ! nat j..<xs ! nat j + len} \<inter> {z..<z + len} = {}"
  shows "\<exists>mem'. parallel_for rt len (\<lambda>i. for_each (\<lambda>ar mem. do {
        x \<leftarrow> rd xs ar; v \<leftarrow> rd mem (x + i); a \<leftarrow> rd mem (z + i); wr mem (z + i) (a + f v) }) js) mem = Some mem'
    \<and> gathered {0..<len} (\<lambda>i. z + i) (\<lambda>i m. m ! nat (z + i) + (\<Sum>j \<leftarrow> js. f (m ! nat (xs ! nat j + i)))) mem mem'"
proof (rule parallel_gather [OF assms(1)])
  have apart: "xs ! nat j + i \<noteq> z + k" if "j \<in> set js" "0 \<le> i" "i < len" "0 \<le> k" "k < len" for j i k
    by (rule intervals_apart) (use bspec [OF assms(5) that(1)] that(2-5) in simp_all)
  show "isolated {0..<len} (\<lambda>i. z + i) (\<lambda>i m. m ! nat (z + i) + (\<Sum>j \<leftarrow> js. f (m ! nat (xs ! nat j + i)))) (length mem)"
    unfolding isolated_def
  proof (intro conjI ballI impI allI)
    show "inj_on (\<lambda>i. z + i) {0..<len}" "(\<lambda>i. z + i) ` {0..<len} \<subseteq> {0..<int (length mem)}"
      using assms(3,4) by (auto simp: inj_on_def)
    fix i k v and m :: "'a list" assume i: "i \<in> {0..<len}" "k \<in> {0..<len}" "i \<noteq> k"
    have "nat (z + i) \<noteq> nat (z + k)" using i assms(3) by (auto simp: eq_nat_nat_iff)
    moreover have "m[nat (z + i) := v] ! nat (xs ! nat j + k) = m ! nat (xs ! nat j + k)" if "j \<in> set js" for j
    proof -
      have "nat (z + i) \<noteq> nat (xs ! nat j + k)"
        using apart [OF that, of k i] i assms(3) bspec [OF assms(5) that] by (auto simp: eq_nat_nat_iff)
      then show ?thesis by simp
    qed
    then have "(\<Sum>j \<leftarrow> js. f (m[nat (z + i) := v] ! nat (xs ! nat j + k))) = (\<Sum>j \<leftarrow> js. f (m ! nat (xs ! nat j + k)))"
      by (intro arg_cong [where f = sum_list] map_cong refl) simp
    ultimately show "m[nat (z + i) := v] ! nat (z + k) + (\<Sum>j \<leftarrow> js. f (m[nat (z + i) := v] ! nat (xs ! nat j + k)))
        = m ! nat (z + k) + (\<Sum>j \<leftarrow> js. f (m ! nat (xs ! nat j + k)))" by simp
  qed
  fix i and m :: "'a list" assume i: "0 \<le> i" "i < len" and m: "length m = length mem"
  show "for_each (\<lambda>ar mem. do { x \<leftarrow> rd xs ar; v \<leftarrow> rd mem (x + i); a \<leftarrow> rd mem (z + i); wr mem (z + i) (a + f v) }) js m
      = Some (m[nat (z + i) := m ! nat (z + i) + (\<Sum>j \<leftarrow> js. f (m ! nat (xs ! nat j + i)))])"
  proof (rule add_column [OF assms(2)])
    show "\<forall>j \<in> set js. 0 \<le> xs ! nat j + i \<and> xs ! nat j + i < int (length m) \<and> xs ! nat j + i \<noteq> z + i"
    proof
      fix j assume j: "j \<in> set js"
      show "0 \<le> xs ! nat j + i \<and> xs ! nat j + i < int (length m) \<and> xs ! nat j + i \<noteq> z + i"
        using apart [OF j i i] bspec [OF assms(5) j] i m by simp
    qed
  qed (use i assms(3,4) m in simp_all)
qed

text \<open>The array at \<open>x\<close> becomes a copy of that at \<open>z\<close>.\<close>

definition copied :: "int \<Rightarrow> int \<Rightarrow> int \<Rightarrow> 'a list \<Rightarrow> 'a list \<Rightarrow> bool" where
  "copied x z len mem mem' \<longleftrightarrow> (\<forall>i. 0 \<le> i \<and> i < len \<longrightarrow> mem' ! nat (x + i) = mem ! nat (z + i))"

lemma copy_array_exact:
  fixes mem :: "'a list"
  assumes "0 \<le> x" "x + len \<le> int (length mem)" "0 \<le> z" "z + len \<le> int (length mem)" "{x..<x + len} \<inter> {z..<z + len} = {}"
  shows "\<exists>mem'. copy_array x z len mem = Some mem' \<and> copied x z len mem mem' \<and> elsewhere {x..<x + len} mem mem'"
proof -
  have "isolated {0..<len} (\<lambda>i. x + i) (\<lambda>i (m :: 'a list). m ! nat (z + i)) (length mem)"
    unfolding isolated_def
  proof (intro conjI ballI impI allI)
    show "inj_on (\<lambda>i. x + i) {0..<len}" by (simp add: inj_on_def)
    show "(\<lambda>i. x + i) ` {0..<len} \<subseteq> {0..<int (length mem)}" using assms(1,2) by auto
    fix i j v and m :: "'a list" assume "i \<in> {0..<len}" "j \<in> {0..<len}"
    then have "x + i \<noteq> z + j" "0 \<le> x + i" "0 \<le> z + j" using intervals_apart [OF assms(5), of i j] assms(1,3) by simp_all
    then have "nat (x + i) \<noteq> nat (z + j)" by (simp add: eq_nat_nat_iff)
    then show "m[nat (x + i) := v] ! nat (z + j) = m ! nat (z + j)" by simp
  qed
  moreover have "do { v \<leftarrow> rd m (z + i); wr m (x + i) v } = Some (m[nat (x + i) := m ! nat (z + i)])"
    if "0 \<le> i" "i < len" "length m = length mem" for i and m :: "'a list"
    using assms(1-4) that by (simp add: rd_def wr_def)
  ultimately obtain mem' where m: "copy_array x z len mem = Some mem'" "gathered {0..<len} (\<lambda>i. x + i) (\<lambda>i m. m ! nat (z + i)) mem mem'"
    using gather_each [of "[0..len - 1]" "\<lambda>i. x + i" "\<lambda>i m. m ! nat (z + i)" mem "\<lambda>i mem. do { v \<leftarrow> rd mem (z + i); wr mem (x + i) v }"]
    unfolding copy_array_def upto_set by auto
  have im: "(\<lambda>i. x + i) ` {0..<len} = {x..<x + len}" by (auto intro!: image_eqI [where x = "_ - x"])
  show ?thesis using m unfolding gathered_def im by (auto simp: copied_def elsewhere_def)
qed

lemma propagate_exact:
  fixes mem :: "'a list"
  assumes "runtime_ok rt" "0 \<le> first" "n \<le> int (length xs)" "0 \<le> z" "z + len \<le> int (length mem)"
    and "\<forall>j. first \<le> j \<and> j < n \<longrightarrow> 0 \<le> xs ! nat j \<and> xs ! nat j + len \<le> int (length mem) \<and> {xs ! nat j..<xs ! nat j + len} \<inter> {z..<z + len} = {}"
    and "\<forall>j k. first \<le> j \<and> j < n \<and> first \<le> k \<and> k < n \<and> j \<noteq> k
      \<longrightarrow> {xs ! nat j..<xs ! nat j + len} \<inter> {xs ! nat k..<xs ! nat k + len} = {}"
  shows "\<exists>mem'. propagate rt first xs z n len mem = Some mem' \<and> (\<forall>j. first \<le> j \<and> j < n \<longrightarrow> copied (xs ! nat j) z len mem mem')
    \<and> elsewhere (\<Union>j \<in> {first..<n}. {xs ! nat j..<xs ! nat j + len}) mem mem'"
proof -
  let ?R = "\<lambda>j. {xs ! nat j..<xs ! nat j + len}"
  note o = ordered [OF assms(1) distinct_upto, of first "n - 1"]
  have "\<exists>mem'. for_each (\<lambda>ar mem. do { x \<leftarrow> rd xs ar; copy_array x z len mem }) (rt_order rt [first..n - 1]) mem = Some mem'
    \<and> ((\<forall>j \<in> set (rt_order rt [first..n - 1]). copied (xs ! nat j) z len mem mem') \<and> elsewhere (\<Union>j \<in> set (rt_order rt [first..n - 1]). ?R j) mem mem')"
  proof (rule for_each_total [OF o(1)], unfold o(2))
    show "(\<forall>j \<in> {}. copied (xs ! nat j) z len mem mem) \<and> elsewhere (\<Union>j \<in> {}. ?R j) mem mem" by simp
  next
    fix j A m assume j: "j \<in> set [first..n - 1]" "j \<notin> A" and A: "A \<subseteq> set [first..n - 1]"
      and P: "(\<forall>j \<in> A. copied (xs ! nat j) z len mem m) \<and> elsewhere (\<Union>j \<in> A. ?R j) mem m"
    have j': "first \<le> j" "j < n" using j by simp_all
    have A': "first \<le> k \<and> k < n" if "k \<in> A" for k using A that by auto
    have len: "length m = length mem" using P by (simp add: elsewhere_def)
    note b = spec [OF assms(6), of j]
    obtain m' where m': "copy_array (xs ! nat j) z len m = Some m'" "copied (xs ! nat j) z len m m'" "elsewhere (?R j) m m'"
      using copy_array_exact [of "xs ! nat j" len m z] b j' assms(4,5) len by auto
    have src: "m ! nat (z + i) = mem ! nat (z + i)" if i: "0 \<le> i" "i < len" for i
    proof -
      have "z + i \<notin> ?R k" if "k \<in> A" for k
      proof -
        have "?R k \<inter> {z..<z + len} = {}" using spec [OF assms(6), of k] A' [OF that] by simp
        moreover have "z + i \<in> {z..<z + len}" using i by simp
        ultimately show ?thesis by blast
      qed
      then have "int (nat (z + i)) \<notin> (\<Union>k \<in> A. ?R k)" using assms(4) i by auto
      moreover have "nat (z + i) < length mem" using assms(4,5) i by (simp add: nat_less_iff)
      ultimately show ?thesis using P unfolding elsewhere_def by blast
    qed
    have "copied (xs ! nat j) z len mem m'" using m'(2) src by (simp add: copied_def)
    moreover have "copied (xs ! nat k) z len mem m'" if k: "k \<in> A" for k
    proof -
      have "m' ! nat (xs ! nat k + i) = m ! nat (xs ! nat k + i)" if i: "0 \<le> i" "i < len" for i
      proof -
        have "?R k \<inter> ?R j = {}" using assms(7) j' A' [OF k] j(2) k by blast
        moreover have "xs ! nat k + i \<in> ?R k" using i by simp
        ultimately have "xs ! nat k + i \<notin> ?R j" by blast
        moreover have "0 \<le> xs ! nat k + i" "xs ! nat k + i < int (length m)"
          using spec [OF assms(6), of k] A' [OF k] i len by auto
        ultimately have "int (nat (xs ! nat k + i)) \<notin> ?R j" "nat (xs ! nat k + i) < length m" by (simp_all add: nat_less_iff)
        then show ?thesis using m'(3) unfolding elsewhere_def by blast
      qed
      then show ?thesis using P k by (simp add: copied_def)
    qed
    moreover have "elsewhere (\<Union>k \<in> insert j A. ?R k) mem m'"
      using P m'(3) by (simp add: elsewhere_def)
    moreover have "rd xs j = Some (xs ! nat j)" using j' assms(2,3) by (simp add: rd_def)
    ultimately show "\<exists>m'. do { x \<leftarrow> rd xs j; copy_array x z len m } = Some m'
      \<and> ((\<forall>k \<in> insert j A. copied (xs ! nat k) z len mem m') \<and> elsewhere (\<Union>k \<in> insert j A. ?R k) mem m')"
      using m'(1) by simp
  qed
  moreover have "set [first..n - 1] = {first..<n}" by auto
  ultimately show ?thesis unfolding o(2) propagate_def by auto
qed

subsection \<open>Averages\<close>

text \<open>Arrays of \<open>len\<close> elements at the addresses \<open>ps\<close>, none of which overlaps another.\<close>

definition arrays_apart :: "int list \<Rightarrow> int \<Rightarrow> nat \<Rightarrow> bool" where
  "arrays_apart ps len n \<longleftrightarrow> (\<forall>p \<in> set ps. 0 \<le> p \<and> p + len \<le> int n)
     \<and> (\<forall>j < length ps. \<forall>k < length ps. j \<noteq> k \<longrightarrow> {ps ! j..<ps ! j + len} \<inter> {ps ! k..<ps ! k + len} = {})"

lemma arrays_apartD:
  "arrays_apart ps len n \<Longrightarrow> j < length ps \<Longrightarrow> k < length ps \<Longrightarrow> j \<noteq> k \<Longrightarrow> {ps ! j..<ps ! j + len} \<inter> {ps ! k..<ps ! k + len} = {}"
  by (simp add: arrays_apart_def)

lemma sum_indexes:
  assumes "0 \<le> a" "a \<le> int (length xs)"
  shows "(\<Sum>j \<leftarrow> [a..int (length xs) - 1]. g (xs ! nat j)) = (\<Sum>x \<leftarrow> drop (nat a) xs. g x)"
proof -
  have "map (\<lambda>j. g (xs ! nat j)) [a..int (length xs) - 1] = map g (drop (nat a) xs)"
    using assms by (intro nth_equalityI) (auto simp: nat_add_distrib)
  then show ?thesis by simp
qed

text \<open>The last two phases: add the shares of the arrays from \<open>first\<close> on to \<open>z\<close>, and copy \<open>z\<close> to them.\<close>

lemma shares_propagate:
  fixes mem :: "'a :: field list"
  assumes "runtime_ok rt" "n = int (length xs)" "0 \<le> first" "first \<le> n" "arrays_apart (z # drop (nat first) xs) len (length mem)"
  shows "\<exists>mem'. do { m \<leftarrow> add_shares rt first xs z n len mem; propagate rt first xs z n len m } = Some mem'
    \<and> (\<forall>i. 0 \<le> i \<and> i < len \<longrightarrow> (\<forall>p \<in> set (z # drop (nat first) xs).
        mem' ! nat (p + i) = mem ! nat (z + i) + (\<Sum>x \<leftarrow> drop (nat first) xs. mem ! nat (x + i) / of_int n)))
    \<and> elsewhere (\<Union>p \<in> set (z # drop (nat first) xs). {p..<p + len}) mem mem'"
proof -
  let ?ps = "drop (nat first) xs"
  have z: "0 \<le> z" "z + len \<le> int (length mem)" using assms(5) by (simp_all add: arrays_apart_def)
  have nth: "xs ! nat j = ?ps ! nat (j - first)" "nat (j - first) < length ?ps" if "first \<le> j" "j < n" for j
    using that assms(2,3) by (auto simp: nat_less_iff nat_diff_distrib nth_drop)
  have A: "0 \<le> xs ! nat j \<and> xs ! nat j + len \<le> int (length mem) \<and> {xs ! nat j..<xs ! nat j + len} \<inter> {z..<z + len} = {}"
    if j: "first \<le> j" "j < n" for j
  proof -
    have "xs ! nat j \<in> set ?ps" using nth [OF j] by (metis nth_mem)
    moreover have "{?ps ! nat (j - first)..<?ps ! nat (j - first) + len} \<inter> {z..<z + len} = {}"
      using arrays_apartD [OF assms(5), of "Suc (nat (j - first))" 0] nth(2) [OF j] by simp
    ultimately show ?thesis using assms(5) nth(1) [OF j] by (simp add: arrays_apart_def)
  qed
  have B: "{xs ! nat j..<xs ! nat j + len} \<inter> {xs ! nat k..<xs ! nat k + len} = {}"
    if j: "first \<le> j" "j < n" "first \<le> k" "k < n" "j \<noteq> k" for j k
  proof -
    have ne: "Suc (nat (j - first)) \<noteq> Suc (nat (k - first))" using j by auto
    have lt: "Suc (nat (j - first)) < length (z # ?ps)" "Suc (nat (k - first)) < length (z # ?ps)"
      using nth(2) [OF j(1,2)] nth(2) [OF j(3,4)] by simp_all
    show ?thesis using arrays_apartD [OF assms(5) lt ne] unfolding nth(1) [OF j(1,2)] nth(1) [OF j(3,4)] nth_Cons_Suc .
  qed
  obtain m where m: "add_shares rt first xs z n len mem = Some m"
    "gathered {0..<len} (\<lambda>i. z + i) (\<lambda>i m. m ! nat (z + i) + (\<Sum>j \<leftarrow> [first..n - 1]. m ! nat (xs ! nat j + i) / of_int n)) mem m"
    using add_columns [OF assms(1) _ z, of "[first..n - 1]" xs "\<lambda>v. v / of_int n"] A assms(2,3) unfolding add_shares_def by auto
  have len: "length m = length mem" using m(2) by (simp add: gathered_def)
  have sum: "m ! nat (z + i) = mem ! nat (z + i) + (\<Sum>x \<leftarrow> ?ps. mem ! nat (x + i) / of_int n)" if "0 \<le> i" "i < len" for i
    using m(2) that sum_indexes [of first xs "\<lambda>x. mem ! nat (x + i) / of_int n"] assms(2-4) by (simp add: gathered_def)
  have A': "\<forall>j. first \<le> j \<and> j < n \<longrightarrow> 0 \<le> xs ! nat j \<and> xs ! nat j + len \<le> int (length m)
      \<and> {xs ! nat j..<xs ! nat j + len} \<inter> {z..<z + len} = {}" using A unfolding len by blast
  have B': "\<forall>j k. first \<le> j \<and> j < n \<and> first \<le> k \<and> k < n \<and> j \<noteq> k
      \<longrightarrow> {xs ! nat j..<xs ! nat j + len} \<inter> {xs ! nat k..<xs ! nat k + len} = {}" using B by blast
  have "n \<le> int (length xs)" "z + len \<le> int (length m)" using assms(2) z len by simp_all
  from propagate_exact [OF assms(1,3) this(1) z(1) this(2) A' B']
  obtain mem' where p: "propagate rt first xs z n len m = Some mem'" "\<And>j. first \<le> j \<Longrightarrow> j < n \<Longrightarrow> copied (xs ! nat j) z len m mem'"
    "elsewhere (\<Union>j \<in> {first..<n}. {xs ! nat j..<xs ! nat j + len}) m mem'"
    by blast
  have idx: "\<exists>j. first \<le> j \<and> j < n \<and> x = xs ! nat j" if x: "x \<in> set ?ps" for x
  proof -
    obtain k where k: "k < length ?ps" "x = ?ps ! k" using x unfolding in_set_conv_nth by blast
    have "nat (first + int k) = nat first + k" using assms(3) by (simp add: nat_add_distrib)
    then have "x = xs ! nat (first + int k)" using k by simp
    moreover have "first + int k < n" using k(1) assms(2-4) by auto
    ultimately show ?thesis by (intro exI [of _ "first + int k"]) simp
  qed
  have zi: "mem' ! nat (z + i) = m ! nat (z + i)" if i: "0 \<le> i" "i < len" for i
  proof -
    have "z + i \<notin> {xs ! nat j..<xs ! nat j + len}" if "first \<le> j" "j < n" for j
    proof -
      have "z + i \<in> {z..<z + len}" using i by simp
      then show ?thesis using A [OF that] by blast
    qed
    then have "int (nat (z + i)) \<notin> (\<Union>j \<in> {first..<n}. {xs ! nat j..<xs ! nat j + len})" using z i by auto
    moreover have "nat (z + i) < length m" using z i len by (simp add: nat_less_iff)
    ultimately show ?thesis using p(3) unfolding elsewhere_def by blast
  qed
  have "mem' ! nat (x + i) = m ! nat (z + i)" if "x \<in> set (z # ?ps)" "0 \<le> i" "i < len" for x i
    using that zi idx p(2) by (auto simp: copied_def)
  moreover have "elsewhere (\<Union>p \<in> set (z # ?ps). {p..<p + len}) mem mem'"
  proof -
    have "m ! q = mem ! q" if "q < length mem" "int q \<notin> {z..<z + len}" for q
    proof -
      have "int q \<notin> (\<lambda>i. z + i) ` {0..<len}" using that(2) by auto
      then show ?thesis using m(2) that(1) by (simp add: gathered_def)
    qed
    moreover have "mem' ! q = m ! q" if "q < length mem" "\<forall>x \<in> set ?ps. int q \<notin> {x..<x + len}" for q
    proof -
      have "int q \<notin> {xs ! nat j..<xs ! nat j + len}" if "first \<le> j" "j < n" for j
        using nth [OF that] \<open>\<forall>x \<in> set ?ps. int q \<notin> {x..<x + len}\<close> by (metis nth_mem)
      then show ?thesis using p(3) len \<open>q < length mem\<close> by (simp add: elsewhere_def)
    qed
    moreover have "length mem' = length mem" using p(3) len by (simp add: elsewhere_def)
    ultimately show ?thesis by (auto simp: elsewhere_def)
  qed
  ultimately show ?thesis using m(1) p(1) sum by (intro exI [of _ mem']) simp
qed

end
