(* ===== verification/SpecialProperties.thy ===== *)
theory SpecialProperties
  imports Specials LoopProperties
begin

text \<open>The properties of the special kernels of \<open>include/ops/specials.h\<close>.\<close>

unbundle bit_operations_syntax

subsection \<open>Powers of two\<close>

text \<open>
  For a positive number, \<open>nextPowerOf2\<close> is the least power of two that is greater than it, also
  when the number is a power of two, and \<open>lastPowerOf2\<close> the greatest that is not greater; neither has a
  result from \<open>2 ^ 30\<close> on, since the next power does not fit an \<open>int\<close>.
\<close>

theorem power_of_2_bounds:
  assumes "0 < number" "number < 2 ^ 31"
  shows "if number < 2 ^ 30
    then \<exists>j k. nextPowerOf2 number = Some (2 ^ j) \<and> number < 2 ^ j \<and> 2 ^ j \<le> 2 * number
      \<and> lastPowerOf2 number = Some (2 ^ k) \<and> 2 ^ k \<le> number \<and> number < 2 * 2 ^ k
    else nextPowerOf2 number = None \<and> lastPowerOf2 number = None"
proof -
  define c where "c = nat (count_shifts number - 1)"
  have s: "count_shifts number = int c + 1"
    using count_shifts_bounds [OF assms(1)] unfolding c_def by (subst nat_0_le) simp_all
  have "nat (int c + 1 - 1) = c" "nat (int c + 1) = Suc c" by simp_all
  then have c: "nat (count_shifts number) = Suc c" "2 ^ c \<le> number" "number < 2 * 2 ^ c"
    using count_shifts_bounds [OF assms(1)] unfolding s by simp_all
  have pos: "- (2 ^ 31) \<le> (2 :: int) * 2 ^ c" by (rule order_trans [of _ 0]) simp_all
  show ?thesis
  proof (cases "number < 2 ^ 30")
    case True
    have "c < 30"
    proof (rule ccontr)
      assume "\<not> c < 30"
      then have "(2 :: int) ^ 30 \<le> 2 ^ c" by (intro power_increasing) auto
      then show False using c(2) True by simp
    qed
    then have "(2 :: int) ^ Suc c \<le> 2 ^ 30" by (intro power_increasing) auto
    then have n: "nextPowerOf2 number = Some (2 ^ Suc c)" using pos by (simp add: nextPowerOf2_def c(1) i32_def)
    obtain j where j: "double_past number 1 = Some (2 ^ j)" "number < 2 ^ j" "1 \<le> j \<longrightarrow> 2 ^ (j - 1) \<le> number"
      using double_past_exact [of number 0] assms(1) True by auto
    then obtain i where i: "j = Suc i" using assms(1) by (cases j) auto
    have "lastPowerOf2 number = Some (2 ^ i)" using j(1) i by (simp add: lastPowerOf2_def)
    then show ?thesis unfolding if_P [OF True] using n c(2,3) j i by (intro exI [of _ "Suc c"] exI [of _ i]) simp
  next
    case False
    have "30 \<le> c"
    proof (rule ccontr)
      assume "\<not> 30 \<le> c"
      then have "(2 :: int) * 2 ^ c \<le> 2 * 2 ^ 29" by (intro mult_left_mono power_increasing) auto
      then show False using c(3) False by simp
    qed
    then have "(2 :: int) ^ 31 \<le> 2 ^ Suc c" by (intro power_increasing) auto
    then have "nextPowerOf2 number = None" unfolding nextPowerOf2_def c(1) i32_def by simp
    moreover have "double_past number 1 = None" using double_past_diverges [of number 0] False by simp
    ultimately show ?thesis using False by (simp add: lastPowerOf2_def)
  qed
qed

theorem power_of_2_bounds_witness:
  "\<exists>j k. nextPowerOf2 8 = Some (2 ^ j) \<and> 8 < (2 :: int) ^ j \<and> lastPowerOf2 8 = Some (2 ^ k) \<and> (2 :: int) ^ k \<le> 8"
  using power_of_2_bounds [of 8] by auto

subsection \<open>Bitmaps\<close>

text \<open>
  C30.  Encoding a gradient as a bitmap and decoding it onto an array loses nothing, provided that, when
  the number of elements \<open>N\<close> is a multiple of 16, the word \<open>N / 16 + 4\<close> of the bitmap is zero beforehand:
  the encoder does not write this word then, and the decoder reads it, so that with other contents the
  decoder takes it for elements behind the end.  What the decoder adds to element \<open>e\<close> is what the
  encoder takes from it, for any schedule of both loops, and the result of the encoder is the number of
  elements that the decoder changes.
\<close>

theorem bitmap_roundtrip:
  assumes "runtime_ok rt" "runtime_ok rt'" "N \<le> length dx" "N div 16 + 5 \<le> length dz" "N + 32 < 2 ^ 31" "N \<le> length acc"
    and "0 < t" "float_of (dz ! 2) = t" "N mod 16 = 0 \<longrightarrow> dz ! (N div 16 + 4) = 0"
  shows "\<exists>dx' dz' acc' n. encodeBitmapGeneric rt dx (int N) dz t = Some (dx', dz', n)
    \<and> decodeBitmapGeneric rt' float_of dz' (int N) acc = Some acc'
    \<and> (\<forall>e < N. dx' ! e + (acc' ! e - acc ! e) = dx ! e) \<and> n = int (card {e. e < N \<and> acc' ! e \<noteq> acc ! e})"
proof -
  have c: "(N + 15) div 16 + 4 \<le> length dz" using assms(4) by linarith
  from encode_exact [OF assms(1,3) c assms(5), of t] obtain dx' dz' where
    e: "encodeBitmapGeneric rt dx (int N) dz t = Some (dx', dz', int (card (marked t N dx)))" "quantised t N dx {..<N} dx'"
      "length dz' = length dz" "\<And>b. b * 16 < N \<Longrightarrow> block_word t N dx (b * 16) 16 (dz' ! (4 + b))"
      "\<And>q. q < length dz \<Longrightarrow> q < 4 \<or> 4 + (N + 15) div 16 \<le> q \<Longrightarrow> dz' ! q = dz ! q" by blast
  have word: "bit (dz' ! (4 + b)) i \<longleftrightarrow> b * 16 + i < N \<and> has_bit t (dx ! (b * 16 + i))"
    "bit (dz' ! (4 + b)) (i + 16) \<longleftrightarrow> b * 16 + i < N \<and> has_sign t (dx ! (b * 16 + i))" if b: "b \<le> N div 16" and i: "i < 16" for b i
  proof -
    have "(bit (dz' ! (4 + b)) i \<longleftrightarrow> b * 16 + i < N \<and> has_bit t (dx ! (b * 16 + i)))
      \<and> (bit (dz' ! (4 + b)) (i + 16) \<longleftrightarrow> b * 16 + i < N \<and> has_sign t (dx ! (b * 16 + i)))"
    proof (cases "b * 16 < N")
      case True
      note w = e(4) [OF this, unfolded block_word_def]
      show ?thesis using spec [OF w, of i] spec [OF w, of "i + 16"] i by simp
    next
      case False
      moreover have "b * 16 \<le> N" using b by (subst (asm) less_eq_div_iff_mult_less_eq) simp_all
      ultimately have N: "N = b * 16" by simp
      have "N div 16 = b" "N mod 16 = 0" unfolding N by simp_all
      then have z: "dz ! (4 + b) = 0" "4 + b < length dz" "4 + (N + 15) div 16 \<le> 4 + b"
        using assms(4,9) by (simp_all add: add.commute [of b] N)
      then have "dz' ! (4 + b) = 0" using e(5) [of "4 + b"] by simp
      then show ?thesis unfolding N by simp
    qed
    then show "bit (dz' ! (4 + b)) i \<longleftrightarrow> b * 16 + i < N \<and> has_bit t (dx ! (b * 16 + i))"
      "bit (dz' ! (4 + b)) (i + 16) \<longleftrightarrow> b * 16 + i < N \<and> has_sign t (dx ! (b * 16 + i))" by blast+
  qed
  have t: "float_of (dz' ! 2) = t" using e(5) [of 2] assms(4,8) by simp
  have "N < 2 ^ 31" "N div 16 + 5 \<le> length dz'" using assms(4,5) e(3) by simp_all
  then obtain acc' where d: "decodeBitmapGeneric rt' float_of dz' (int N) acc = Some acc'"
    "decoded t (\<lambda>b. dz' ! (4 + b)) {..<(N div 16 + 1) * 16} acc acc'"
    using decode_exact [OF assms(2), of N dz' acc float_of] word assms(6) unfolding t by fastforce
  have v: "acc' ! e = acc ! e + coded t (dx ! e)" if "e < N" for e
  proof -
    have b: "e div 16 \<le> N div 16" "e mod 16 < 16" "e div 16 * 16 + e mod 16 = e" using that by (simp_all add: div_le_mono)
    have "e < (N div 16 + 1) * 16" using that by (simp add: dividend_less_div_times)
    then show ?thesis using d(2) word [OF b(1,2)] that assms(6) unfolding b(3) by (simp add: decoded_def)
  qed
  have "dx' ! e + (acc' ! e - acc ! e) = dx ! e" if "e < N" for e
    using e(2) v [OF that] that assms(3) by (simp add: quantised_def)
  moreover have "acc' ! e \<noteq> acc ! e \<longleftrightarrow> has_bit t (dx ! e) \<or> has_sign t (dx ! e)" if "e < N" for e
    using v [OF that] assms(7) by (simp add: amount_def)
  then have "{e. e < N \<and> acc' ! e \<noteq> acc ! e} = marked t N dx" by (auto simp: marked_def)
  ultimately show ?thesis using e(1) d(1) by (intro exI conjI) auto
qed

theorem bitmap_roundtrip_witness:
  "\<exists>dx' dz' acc'. encodeBitmapGeneric sample_runtime [5, -3, -1, 1 :: rat] 4 [4, 4, 7, 0, 0] 2 = Some (dx', dz', 3)
    \<and> decodeBitmapGeneric sample_runtime (\<lambda>_. 2) dz' 4 [0, 0, 0, 0] = Some acc' \<and> dx' ! 0 + acc' ! 0 = 5 \<and> dx' ! 2 + acc' ! 2 = -1"
proof -
  from bitmap_roundtrip [OF sample_runtime_ok(1) sample_runtime_ok(1), of 4 "[5, -3, -1, 1 :: rat]" "[4, 4, 7, 0, 0]" "[0, 0, 0, 0]" 2 "\<lambda>_. 2"]
  obtain dx' dz' acc' n where r: "encodeBitmapGeneric sample_runtime [5, -3, -1, 1 :: rat] 4 [4, 4, 7, 0, 0] 2 = Some (dx', dz', n)"
    "decodeBitmapGeneric sample_runtime (\<lambda>_. 2) dz' 4 [0, 0, 0, 0] = Some acc'"
    "\<forall>e < 4. dx' ! e + (acc' ! e - [0, 0, 0, 0] ! e) = [5, -3, -1, 1] ! e" by auto
  have "n = 3"
  proof -
    have "{e. e < 4 \<and> (has_bit 2 ([5, -3, -1, 1 :: rat] ! e) \<or> has_sign 2 ([5, -3, -1, 1] ! e))} = {0, 1, 2 :: nat}"
      by (auto simp: has_bit_def has_sign_def less_Suc_eq numeral_eq_Suc)
    then have "marked 2 4 [5, -3, -1, 1 :: rat] = {0, 1, 2}" by (simp add: marked_def)
    then show ?thesis
      using encode_exact [OF sample_runtime_ok(1), of 4 "[5, -3, -1, 1 :: rat]" "[4, 4, 7, 0, 0]" 2] r(1) by auto
  qed
  then show ?thesis using r spec [OF r(3), of 0] spec [OF r(3), of 2] by auto
qed

subsection \<open>Averages\<close>

text \<open>Another content of that word is decoded into an element behind the end: here \<open>N = 16\<close>.\<close>

lemma stale_word_decoded:
  "decodeBitmapGeneric sample_runtime (\<lambda>w. 1 :: rat) ([0, 0, 0, 0, 0, 1] :: 32 word list) 16 (replicate 17 0)
    = Some (replicate 16 0 @ [1])"
  by code_simp

text \<open>
  Averaging leaves the mean of the arrays in every one of them and in the result; without a result
  the first array takes its place.  No other cell changes, for any schedule of the threads.
\<close>

theorem averageGeneric_averages:
  fixes mem :: "'a :: field list"
  assumes "runtime_ok rt" "n = int (length xs)" "xs \<noteq> []"
    and "case zo of Some z \<Rightarrow> arrays_apart (z # xs) len (length mem) | None \<Rightarrow> arrays_apart xs len (length mem)"
    and "Z = (case zo of Some z \<Rightarrow> set (z # xs) | None \<Rightarrow> set xs)"
  shows "\<exists>mem'. averageGeneric rt xs zo n len flag mem = Some mem'
    \<and> (\<forall>i. 0 \<le> i \<and> i < len \<longrightarrow> (\<forall>p \<in> Z. mem' ! nat (p + i) = (\<Sum>x \<leftarrow> xs. mem ! nat (x + i) / of_int n)))
    \<and> elsewhere (\<Union>p \<in> Z. {p..<p + len}) mem mem'"
proof -
  define z where "z = (case zo of Some z \<Rightarrow> z | None \<Rightarrow> hd xs)"
  define first where "first = (case zo of Some z \<Rightarrow> 0 | None \<Rightarrow> (1 :: int))"
  define g where "g = (\<lambda>v :: 'a. case zo of Some z \<Rightarrow> 0 | None \<Rightarrow> v / of_int n)"
  let ?ps = "drop (nat first) xs"
  have zs: "arrays_apart (z # ?ps) len (length mem)" "Z = set (z # ?ps)" "0 \<le> first" "first \<le> n"
    using assms(2-5) by (cases xs; cases zo; simp add: z_def first_def)+
  then have z: "0 \<le> z" "z + len \<le> int (length mem)" by (simp_all add: arrays_apart_def)
  let ?start = "\<lambda>i m. case zo of Some z' \<Rightarrow> wr m (z + i) 0 | None \<Rightarrow> do { v \<leftarrow> rd m (z + i); wr m (z + i) (v / of_int n) }"
  have "isolated {0..<len} (\<lambda>i. z + i) (\<lambda>i (m :: 'a list). g (m ! nat (z + i))) (length mem)"
    unfolding isolated_def
  proof (intro conjI ballI impI allI)
    show "inj_on (\<lambda>i. z + i) {0..<len}" by (simp add: inj_on_def)
    show "(\<lambda>i. z + i) ` {0..<len} \<subseteq> {0..<int (length mem)}" using z by auto
    fix i j v and m :: "'a list" assume "i \<in> {0..<len}" "j \<in> {0..<len}" "i \<noteq> j"
    then have "nat (z + i) \<noteq> nat (z + j)" using z(1) by (simp add: eq_nat_nat_iff)
    then show "g (m[nat (z + i) := v] ! nat (z + j)) = g (m ! nat (z + j))" by simp
  qed
  moreover have "?start i m = Some (m[nat (z + i) := g (m ! nat (z + i))])" if "i \<in> set [0..len - 1]" "length m = length mem" for i m
    using that z by (cases zo) (simp_all add: g_def rd_def wr_def)
  ultimately obtain m1 where m1: "for_each ?start [0..len - 1] mem = Some m1"
    "gathered {0..<len} (\<lambda>i. z + i) (\<lambda>i m. g (m ! nat (z + i))) mem m1"
    using gather_each [of "[0..len - 1]" "\<lambda>i. z + i" "\<lambda>i m. g (m ! nat (z + i))" mem ?start] unfolding upto_set by auto
  have len: "length m1 = length mem" using m1(2) by (simp add: gathered_def)
  from shares_propagate [OF assms(1,2) zs(3,4), of z len m1] zs(1) obtain mem' where
    m: "do { m \<leftarrow> add_shares rt first xs z n len m1; propagate rt first xs z n len m } = Some mem'"
      "\<forall>i. 0 \<le> i \<and> i < len \<longrightarrow> (\<forall>p \<in> Z. mem' ! nat (p + i) = m1 ! nat (z + i) + (\<Sum>x \<leftarrow> ?ps. m1 ! nat (x + i) / of_int n))"
      "elsewhere (\<Union>p \<in> Z. {p..<p + len}) m1 mem'" unfolding len zs(2) by blast
  have run: "averageGeneric rt xs zo n len flag mem = Some mem'"
    using m(1) m1(1) assms(3) by (cases zo) (simp_all add: averageGeneric_def z_def first_def)
  have mean: "m1 ! nat (z + i) + (\<Sum>x \<leftarrow> ?ps. m1 ! nat (x + i) / of_int n) = (\<Sum>x \<leftarrow> xs. mem ! nat (x + i) / of_int n)"
    if i: "0 \<le> i" "i < len" for i
  proof -
    have "m1 ! nat (x + i) = mem ! nat (x + i)" if "x \<in> set ?ps" for x
    proof -
      obtain k where "k < length ?ps" "x = ?ps ! k" using \<open>x \<in> set ?ps\<close> unfolding in_set_conv_nth by blast
      then have "{x..<x + len} \<inter> {z..<z + len} = {}" using arrays_apartD [OF zs(1), of "Suc k" 0] by simp
      then have "x + i \<noteq> z + j" if "0 \<le> j" "j < len" for j using intervals_apart i that by blast
      then have "x + i \<notin> (\<lambda>i. z + i) ` {0..<len}" by (simp only: image_iff Bex_def atLeastLessThan_iff) blast
      moreover have "0 \<le> x" "x + len \<le> int (length mem)" using zs(1) \<open>x \<in> set ?ps\<close> by (simp_all add: arrays_apart_def)
      ultimately have "int (nat (x + i)) \<notin> (\<lambda>i. z + i) ` {0..<len}" "nat (x + i) < length mem"
        using i by (simp_all add: nat_less_iff del: image_add_atLeastLessThan)
      then show ?thesis using m1(2) unfolding gathered_def by blast
    qed
    then have s: "(\<Sum>x \<leftarrow> ?ps. m1 ! nat (x + i) / of_int n) = (\<Sum>x \<leftarrow> ?ps. mem ! nat (x + i) / of_int n)"
      by (intro arg_cong [where f = sum_list] map_cong refl) simp
    have "m1 ! nat (z + i) = g (mem ! nat (z + i))" using m1(2) i by (simp add: gathered_def)
    then show ?thesis unfolding s using assms(3) by (cases zo; cases xs) (simp_all add: g_def z_def first_def)
  qed
  have "m1 ! q = mem ! q" if "q < length mem" "int q \<notin> {z..<z + len}" for q
  proof -
    have "int q \<notin> (\<lambda>i. z + i) ` {0..<len}" using that(2) by auto
    then show ?thesis using m1(2) that(1) by (simp add: gathered_def)
  qed
  then have "elsewhere (\<Union>p \<in> Z. {p..<p + len}) mem m1" using len unfolding zs(2) by (auto simp: elsewhere_def)
  then have "elsewhere (\<Union>p \<in> Z. {p..<p + len}) mem mem'" using m(3) by (rule elsewhere_trans)
  then show ?thesis using run m(2) mean by auto
qed

theorem averageGeneric_averages_witness:
  "\<exists>mem'. averageGeneric sample_runtime [0, 2] None 2 2 True [1, 2, 3, 6 :: rat] = Some mem' \<and> mem' ! 0 = 2 \<and> mem' ! 1 = 4 \<and> mem' ! 3 = 4"
proof -
  let ?m = "[1, 2, 3, 6 :: rat]"
  have a: "case None :: int option of Some z \<Rightarrow> arrays_apart (z # [0, 2]) 2 (length ?m) | None \<Rightarrow> arrays_apart [0, 2] 2 (length ?m)"
    by (auto simp: arrays_apart_def less_Suc_eq numeral_2_eq_2)
  have h: "2 = int (length [0, 2 :: int])" "[0, 2 :: int] \<noteq> []" by simp_all
  from averageGeneric_averages [OF sample_runtime_ok(1) h a refl, of True]
  obtain mem' where m: "averageGeneric sample_runtime [0, 2] None 2 2 True ?m = Some mem'"
    "\<forall>i. 0 \<le> i \<and> i < 2 \<longrightarrow> (\<forall>p \<in> set [0, 2]. mem' ! nat (p + i) = (\<Sum>x \<leftarrow> [0, 2]. ?m ! nat (x + i) / of_int 2))" by auto
  then show ?thesis using spec [OF m(2), of 0] spec [OF m(2), of 1] by auto
qed

end
