(* ===== verification/ElementOps.thy ===== *)
theory ElementOps
  imports Complex_Main ReduceOps
begin

text \<open>
  The operations on single elements of \<open>include/ops/ops.h\<close> and the functions of
  \<open>include/templatemath.h\<close> under them.  The template parameter \<open>T\<close> is an ordered field with exact
  arithmetic; the elementary functions of the C library are a parameter, the record \<open>libm\<close>.  A class
  of \<open>ops.h\<close> is a record of its overloads of \<open>op\<close>: one that the class does not have, so that its
  instantiation does not compile, is \<^term>\<open>None\<close>.
\<close>

subsection \<open>Functions: \<open>templatemath.h\<close>\<close>

record 'a libm =
  lm_exp :: "'a \<Rightarrow> 'a"
  lm_log :: "'a \<Rightarrow> 'a"
  lm_pow :: "'a \<Rightarrow> 'a \<Rightarrow> 'a"
  lm_sqrt :: "'a \<Rightarrow> 'a"
  lm_sin :: "'a \<Rightarrow> 'a"
  lm_cos :: "'a \<Rightarrow> 'a"
  lm_tan :: "'a \<Rightarrow> 'a"
  lm_sinh :: "'a \<Rightarrow> 'a"
  lm_cosh :: "'a \<Rightarrow> 'a"
  lm_tanh :: "'a \<Rightarrow> 'a"
  lm_asin :: "'a \<Rightarrow> 'a"
  lm_acos :: "'a \<Rightarrow> 'a"
  lm_atan :: "'a \<Rightarrow> 'a"
  lm_atan2 :: "'a \<Rightarrow> 'a \<Rightarrow> 'a"
  lm_atanh :: "'a \<Rightarrow> 'a"

text \<open>
  Conversion to an integer and the rounding functions of the C library: towards 0 (a cast), to the
  nearest integer with halves away from 0 (\<open>round\<close>) or to even ones (\<open>remainder\<close>).
\<close>

definition truncated :: "'a :: floor_ceiling \<Rightarrow> int" where
  "truncated x = (if x < 0 then \<lceil>x\<rceil> else \<lfloor>x\<rfloor>)"

definition away_from_zero :: "'a :: floor_ceiling \<Rightarrow> int" where
  "away_from_zero x = (if x < 0 then \<lceil>x - 1 / 2\<rceil> else \<lfloor>x + 1 / 2\<rfloor>)"

definition to_even :: "'a :: floor_ceiling \<Rightarrow> int" where
  "to_even x = (if x - of_int \<lfloor>x\<rfloor> < 1 / 2 \<or> x - of_int \<lfloor>x\<rfloor> = 1 / 2 \<and> even \<lfloor>x\<rfloor> then \<lfloor>x\<rfloor> else \<lfloor>x\<rfloor> + 1)"

definition nd4j_round :: "'a :: floor_ceiling \<Rightarrow> 'a" where
  "nd4j_round val = of_int (away_from_zero val)"

definition nd4j_remainder :: "'a :: floor_ceiling \<Rightarrow> 'a \<Rightarrow> 'a" where
  "nd4j_remainder num denom = num - of_int (to_even (num / denom)) * denom"

definition nd4j_fmod :: "'a :: floor_ceiling \<Rightarrow> 'a \<Rightarrow> 'a" where
  "nd4j_fmod num denom = num - of_int (truncated (num / denom)) * denom"

definition nd4j_max :: "'a :: linordered_field \<Rightarrow> 'a \<Rightarrow> 'a" where
  "nd4j_max val1 val2 = (if val1 > val2 then val1 else val2)"

definition nd4j_min :: "'a :: linordered_field \<Rightarrow> 'a \<Rightarrow> 'a" where
  "nd4j_min val1 val2 = (if val1 < val2 then val1 else val2)"

definition nd4j_abs :: "'a :: linordered_field \<Rightarrow> 'a" where
  "nd4j_abs value' = (if value' < 0 then - value' else value')"

definition nd4j_sigmoid :: "'a :: linordered_field libm \<Rightarrow> 'a \<Rightarrow> 'a" where
  "nd4j_sigmoid m val = 1 / (1 + lm_exp m (- val))"

definition nd4j_elu :: "'a :: linordered_field libm \<Rightarrow> 'a \<Rightarrow> 'a" where
  "nd4j_elu m val = (if val \<ge> 0 then val else lm_exp m val - 1)"

definition nd4j_leakyrelu :: "'a :: linordered_field \<Rightarrow> 'a \<Rightarrow> 'a" where
  "nd4j_leakyrelu val alpha = (if val < 0 then alpha * val else val)"

definition nd4j_eluderivative :: "'a :: linordered_field libm \<Rightarrow> 'a \<Rightarrow> 'a" where
  "nd4j_eluderivative m val = (if val \<ge> 0 then 1 else lm_exp m val)"

definition softplus :: "'a :: linordered_field libm \<Rightarrow> 'a \<Rightarrow> 'a" where
  "softplus m val = lm_log m (1 + lm_exp m val)"

definition nd4j_softsign :: "'a :: linordered_field \<Rightarrow> 'a" where
  "nd4j_softsign val = val / (1 + nd4j_abs val)"

definition nd4j_tanhderivative :: "'a :: linordered_field libm \<Rightarrow> 'a \<Rightarrow> 'a" where
  "nd4j_tanhderivative m val = (let tanh = lm_tanh m val in 1 - tanh * tanh)"

definition nd4j_sigmoidderivative :: "'a :: linordered_field libm \<Rightarrow> 'a \<Rightarrow> 'a" where
  "nd4j_sigmoidderivative m val = (let sigmoid = nd4j_sigmoid m val in sigmoid * (1 - sigmoid))"

definition nd4j_softsignderivative :: "'a :: linordered_field \<Rightarrow> 'a" where
  "nd4j_softsignderivative val = (let y = 1 + nd4j_abs val in 1 / (y * y))"

definition nd4j_sgn :: "'a :: linordered_field \<Rightarrow> 'a" where
  "nd4j_sgn val = (if val < 0 then - 1 else if val > 0 then 1 else 0)"

definition nd4j_sign :: "'a :: linordered_field \<Rightarrow> 'a" where
  "nd4j_sign val = nd4j_sgn val"

definition nd4j_asinh :: "'a :: linordered_field libm \<Rightarrow> 'a \<Rightarrow> 'a" where
  "nd4j_asinh m val = lm_log m (lm_sqrt m (lm_pow m val 2 + 1) + val)"

subsection \<open>Classes of operations\<close>

text \<open>
  The overloads \<open>op(d1, d2)\<close>, \<open>op(d1, d2, params)\<close>, \<open>op(d1)\<close> and \<open>op(d1, params)\<close>.  The extra
  parameters of most classes are the cells that \<open>params\<close> points to.
\<close>

record ('a, 'p) op_class =
  op_pair :: "('a \<Rightarrow> 'a \<Rightarrow> 'a) option"
  op_pair_extra :: "('a \<Rightarrow> 'a \<Rightarrow> 'p \<Rightarrow> 'a) option"
  op_one :: "('a \<Rightarrow> 'a) option"
  op_one_extra :: "('a \<Rightarrow> 'p \<Rightarrow> 'a) option"

type_synonym 'a simple_class = "('a, nat \<Rightarrow> 'a) op_class"

abbreviation one_extra :: "('a \<Rightarrow> 'p \<Rightarrow> 'a) \<Rightarrow> ('a, 'p) op_class" where
  "one_extra f \<equiv> \<lparr>op_pair = None, op_pair_extra = None, op_one = None, op_one_extra = Some f\<rparr>"

text \<open>A truth value converted to \<open>T\<close>.\<close>

definition flag :: "bool \<Rightarrow> 'a :: linordered_field" where
  "flag b = (if b then 1 else 0)"

subsection \<open>Arithmetic\<close>

definition Add_class :: "'a :: linordered_field simple_class" where
  "Add_class = \<lparr>op_pair = Some (\<lambda>d1 d2. d1 + d2), op_pair_extra = Some (\<lambda>d1 d2 params. d1 + d2),
     op_one = Some (\<lambda>d1. d1), op_one_extra = Some (\<lambda>d1 params. d1 + params 0)\<rparr>"

definition Subtract_class :: "'a :: linordered_field simple_class" where
  "Subtract_class = \<lparr>op_pair = Some (\<lambda>d1 d2. d1 - d2), op_pair_extra = Some (\<lambda>d1 d2 params. d1 - d2),
     op_one = Some (\<lambda>d1. d1), op_one_extra = Some (\<lambda>d1 params. d1 - params 0)\<rparr>"

definition ReverseSubtract_class :: "'a :: linordered_field simple_class" where
  "ReverseSubtract_class = \<lparr>op_pair = Some (\<lambda>d1 d2. d2 - d1), op_pair_extra = Some (\<lambda>d1 d2 params. d2 - d1),
     op_one = Some (\<lambda>d1. d1), op_one_extra = Some (\<lambda>d1 params. params 0 - d1)\<rparr>"

definition Multiply_class :: "'a :: linordered_field simple_class" where
  "Multiply_class = \<lparr>op_pair = Some (\<lambda>d1 d2. d1 * d2), op_pair_extra = Some (\<lambda>d1 d2 params. d1 * d2),
     op_one = Some (\<lambda>d1. d1), op_one_extra = Some (\<lambda>d1 params. d1 * params 0)\<rparr>"

definition Divide_class :: "'a :: linordered_field simple_class" where
  "Divide_class = \<lparr>op_pair = Some (\<lambda>d1 d2. d1 / d2), op_pair_extra = Some (\<lambda>d1 d2 params. d1 / d2),
     op_one = Some (\<lambda>d1. d1), op_one_extra = Some (\<lambda>d1 params. d1 / params 0)\<rparr>"

definition Remainder_class :: "'a :: floor_ceiling simple_class" where
  "Remainder_class = \<lparr>op_pair = Some (\<lambda>d1 d2. nd4j_remainder d1 d2), op_pair_extra = Some (\<lambda>d1 d2 params. nd4j_remainder d1 d2),
     op_one = Some (\<lambda>d1. d1), op_one_extra = Some (\<lambda>d1 params. nd4j_remainder d1 (params 0))\<rparr>"

definition FMod_class :: "'a :: floor_ceiling simple_class" where
  "FMod_class = \<lparr>op_pair = Some (\<lambda>d1 d2. nd4j_fmod d1 d2), op_pair_extra = Some (\<lambda>d1 d2 params. nd4j_fmod d1 d2),
     op_one = Some (\<lambda>d1. d1), op_one_extra = Some (\<lambda>d1 params. nd4j_fmod d1 (params 0))\<rparr>"

definition ReverseDivide_class :: "'a :: linordered_field simple_class" where
  "ReverseDivide_class = \<lparr>op_pair = Some (\<lambda>d1 d2. d2 / d1), op_pair_extra = Some (\<lambda>d1 d2 params. d2 / d1),
     op_one = Some (\<lambda>d1. d1), op_one_extra = Some (\<lambda>d1 params. params 0 / d1)\<rparr>"

definition Copy_class :: "'a :: linordered_field simple_class" where
  "Copy_class = \<lparr>op_pair = Some (\<lambda>d1 d2. d2), op_pair_extra = Some (\<lambda>d1 d2 params. d2),
     op_one = Some (\<lambda>d1. d1), op_one_extra = Some (\<lambda>d1 params. params 0)\<rparr>"

definition Axpy_class :: "'a :: linordered_field simple_class" where
  "Axpy_class = \<lparr>op_pair = Some (\<lambda>d1 d2. d2 + d1), op_pair_extra = Some (\<lambda>d1 d2 params. let alpha = params 0 in alpha * d1 + d2),
     op_one = Some (\<lambda>d1. d1), op_one_extra = None\<rparr>"

definition SetValOrLess_class :: "'a :: linordered_field simple_class" where
  "SetValOrLess_class = \<lparr>op_pair = None, op_pair_extra = Some (\<lambda>d1 d2 params. if d2 < d1 then d1 else d2),
     op_one = None, op_one_extra = None\<rparr>"

text \<open>
  The integer remainders.  The casts are undefined outside the range of \<open>int\<close>, the operator for a
  divisor 0 and for the quotient \<open>2 ^ 31\<close>.
\<close>

definition int_remainder :: "int \<Rightarrow> int \<Rightarrow> int option" where
  "int_remainder a b = (if a = - (2 ^ 31) \<and> b = - 1 then None else cmod a b)"

definition Mod_op :: "'a :: floor_ceiling \<Rightarrow> 'a \<Rightarrow> 'a option" where
  "Mod_op d1 d2 = do { a \<leftarrow> i32 (truncated d1); b \<leftarrow> i32 (truncated d2); r \<leftarrow> int_remainder a b; Some (of_int r) }"

definition ReverseMod_op :: "'a :: floor_ceiling \<Rightarrow> 'a \<Rightarrow> 'a option" where
  "ReverseMod_op d1 d2 = do { a \<leftarrow> i32 (truncated d2); b \<leftarrow> i32 (truncated d1); r \<leftarrow> int_remainder a b; Some (of_int r) }"

subsection \<open>Comparisons and truth values\<close>

definition And_class :: "'a :: linordered_field simple_class" where
  "And_class = \<lparr>op_pair = Some (\<lambda>d1 d2. d2 + d1), op_pair_extra = Some (\<lambda>d1 d2 params. let comp = params 0 in flag (d1 \<noteq> comp \<and> d2 \<noteq> comp)),
     op_one = Some (\<lambda>d1. d1), op_one_extra = None\<rparr>"

definition Or_class :: "'a :: linordered_field simple_class" where
  "Or_class = \<lparr>op_pair = Some (\<lambda>d1 d2. d2 + d1), op_pair_extra = Some (\<lambda>d1 d2 params. let comp = params 0 in flag (d1 \<noteq> comp \<or> d2 \<noteq> comp)),
     op_one = Some (\<lambda>d1. d1), op_one_extra = None\<rparr>"

definition Xor_class :: "'a :: linordered_field simple_class" where
  "Xor_class = \<lparr>op_pair = Some (\<lambda>d1 d2. d2 + d1), op_pair_extra = Some (\<lambda>d1 d2 params. let comp = params 0 in flag (d1 = comp \<and> d2 \<noteq> comp \<or> d1 \<noteq> comp \<and> d2 = comp)),
     op_one = Some (\<lambda>d1. d1), op_one_extra = None\<rparr>"

definition Not_class :: "'a :: linordered_field simple_class" where
  "Not_class = one_extra (\<lambda>d1 params. flag (d1 = params 0))"

definition Epsilon_class :: "'a :: linordered_field simple_class" where
  "Epsilon_class = \<lparr>op_pair = None, op_pair_extra = Some (\<lambda>d1 d2 params. let diff = d1 - d2; absDiff = nd4j_abs diff in flag (absDiff \<le> 1 / 10 ^ 12)),
     op_one = None, op_one_extra = Some (\<lambda>d1 params. d1)\<rparr>"

definition EqualTo_class :: "'a :: linordered_field simple_class" where
  "EqualTo_class = \<lparr>op_pair = Some (\<lambda>d1 d2. flag (d1 = d2)), op_pair_extra = Some (\<lambda>d1 d2 params. flag (d1 = d2)),
     op_one = None, op_one_extra = Some (\<lambda>d1 params. d1)\<rparr>"

definition NotEqualTo_class :: "'a :: linordered_field simple_class" where
  "NotEqualTo_class = \<lparr>op_pair = Some (\<lambda>d1 d2. flag (d1 \<noteq> d2)), op_pair_extra = Some (\<lambda>d1 d2 params. flag (d1 \<noteq> d2)),
     op_one = None, op_one_extra = Some (\<lambda>d1 params. d1)\<rparr>"

definition GreaterThanOrEqual_class :: "'a :: linordered_field simple_class" where
  "GreaterThanOrEqual_class = \<lparr>op_pair = Some (\<lambda>d1 d2. flag (d1 \<ge> d2)), op_pair_extra = Some (\<lambda>d1 d2 params. flag (d1 \<ge> d2)),
     op_one = None, op_one_extra = Some (\<lambda>d1 params. d1)\<rparr>"

definition GreaterThan_class :: "'a :: linordered_field simple_class" where
  "GreaterThan_class = \<lparr>op_pair = Some (\<lambda>d1 d2. flag (d1 > d2)), op_pair_extra = Some (\<lambda>d1 d2 params. flag (d1 > d2)),
     op_one = None, op_one_extra = Some (\<lambda>d1 params. d1)\<rparr>"

definition LessThan_class :: "'a :: linordered_field simple_class" where
  "LessThan_class = \<lparr>op_pair = Some (\<lambda>d1 d2. flag (d1 < d2)), op_pair_extra = Some (\<lambda>d1 d2 params. flag (d1 < d2)),
     op_one = None, op_one_extra = Some (\<lambda>d1 params. d1)\<rparr>"

definition LessThanOrEqual_class :: "'a :: linordered_field simple_class" where
  "LessThanOrEqual_class = \<lparr>op_pair = Some (\<lambda>d1 d2. flag (d1 \<le> d2)), op_pair_extra = Some (\<lambda>d1 d2 params. flag (d1 \<le> d2)),
     op_one = None, op_one_extra = Some (\<lambda>d1 params. d1)\<rparr>"

definition Step_class :: "'a :: linordered_field simple_class" where
  "Step_class = one_extra (\<lambda>d1 params. flag (d1 > params 0))"

subsection \<open>Functions of one element\<close>

definition Abs_class :: "'a :: linordered_field simple_class" where
  "Abs_class = one_extra (\<lambda>d1 params. nd4j_abs d1)"

definition Ceiling_class :: "'a :: floor_ceiling simple_class" where
  "Ceiling_class = one_extra (\<lambda>d1 params. of_int \<lceil>d1\<rceil>)"

definition Floor_class :: "'a :: floor_ceiling simple_class" where
  "Floor_class = one_extra (\<lambda>d1 params. of_int \<lfloor>d1\<rfloor>)"

definition Round_class :: "'a :: floor_ceiling simple_class" where
  "Round_class = one_extra (\<lambda>d1 params. nd4j_round d1)"

definition Cosine_class :: "'a :: linordered_field libm \<Rightarrow> 'a simple_class" where
  "Cosine_class m = one_extra (\<lambda>d1 params. lm_cos m d1)"

definition Exp_class :: "'a :: linordered_field libm \<Rightarrow> 'a simple_class" where
  "Exp_class m = one_extra (\<lambda>d1 params. lm_exp m d1)"

definition Log_class :: "'a :: linordered_field libm \<Rightarrow> 'a simple_class" where
  "Log_class m = one_extra (\<lambda>d1 params. lm_log m d1)"

definition Sin_class :: "'a :: linordered_field libm \<Rightarrow> 'a simple_class" where
  "Sin_class m = one_extra (\<lambda>d1 params. lm_sin m d1)"

definition Sqrt_class :: "'a :: linordered_field libm \<Rightarrow> 'a simple_class" where
  "Sqrt_class m = one_extra (\<lambda>d1 params. lm_sqrt m d1)"

definition Tanh_class :: "'a :: linordered_field libm \<Rightarrow> 'a simple_class" where
  "Tanh_class m = one_extra (\<lambda>d1 params. lm_tanh m d1)"

definition ATanh_class :: "'a :: linordered_field libm \<Rightarrow> 'a simple_class" where
  "ATanh_class m = one_extra (\<lambda>d1 params. lm_atanh m d1)"

definition ACos_class :: "'a :: linordered_field libm \<Rightarrow> 'a simple_class" where
  "ACos_class m = one_extra (\<lambda>d1 params. lm_acos m d1)"

definition ASin_class :: "'a :: linordered_field libm \<Rightarrow> 'a simple_class" where
  "ASin_class m = one_extra (\<lambda>d1 params. lm_asin m d1)"

definition Sinh_class :: "'a :: linordered_field libm \<Rightarrow> 'a simple_class" where
  "Sinh_class m = one_extra (\<lambda>d1 params. lm_sinh m d1)"

definition Cosh_class :: "'a :: linordered_field libm \<Rightarrow> 'a simple_class" where
  "Cosh_class m = one_extra (\<lambda>d1 params. lm_cosh m d1)"

definition Tan_class :: "'a :: linordered_field libm \<Rightarrow> 'a simple_class" where
  "Tan_class m = one_extra (\<lambda>d1 params. lm_tan m d1)"

definition ATan_class :: "'a :: linordered_field libm \<Rightarrow> 'a simple_class" where
  "ATan_class m = one_extra (\<lambda>d1 params. lm_atan m d1)"

definition LogX_class :: "'a :: linordered_field libm \<Rightarrow> 'a simple_class" where
  "LogX_class m = one_extra (\<lambda>d1 params. lm_log m d1 / lm_log m (params 0))"

definition Pow_class :: "'a :: linordered_field libm \<Rightarrow> 'a simple_class" where
  "Pow_class m = \<lparr>op_pair = Some (\<lambda>d1 d2. lm_pow m d1 d2), op_pair_extra = Some (\<lambda>d1 d2 params. lm_pow m d1 d2),
     op_one = Some (\<lambda>d1. d1), op_one_extra = Some (\<lambda>d1 params. lm_pow m d1 (params 0))\<rparr>"

definition Atan2_class :: "'a :: linordered_field libm \<Rightarrow> 'a simple_class" where
  "Atan2_class m = \<lparr>op_pair = None, op_pair_extra = Some (\<lambda>d1 d2 params. lm_atan2 m d2 d1), op_one = None, op_one_extra = None\<rparr>"

definition ASinh_class :: "'a :: linordered_field libm \<Rightarrow> 'a simple_class" where
  "ASinh_class m = one_extra (\<lambda>d1 params. nd4j_asinh m d1)"

definition Neg_class :: "'a :: linordered_field simple_class" where
  "Neg_class = one_extra (\<lambda>d1 params. - d1)"

definition Sign_class :: "'a :: linordered_field simple_class" where
  "Sign_class = one_extra (\<lambda>d1 params. flag (d1 > 0) - flag (d1 < 0))"

definition Ones_class :: "'a :: linordered_field simple_class" where
  "Ones_class = one_extra (\<lambda>d1 params. 1)"

definition Identity_class :: "'a :: linordered_field simple_class" where
  "Identity_class = one_extra (\<lambda>d1 params. d1)"

definition OneMinus_class :: "'a :: linordered_field simple_class" where
  "OneMinus_class = one_extra (\<lambda>d1 params. 1 - d1)"

definition TimesOneMinus_class :: "'a :: linordered_field simple_class" where
  "TimesOneMinus_class = one_extra (\<lambda>d1 params. d1 * (1 - d1))"

definition SpecialDerivative_class :: "'a :: linordered_field simple_class" where
  "SpecialDerivative_class = one_extra (\<lambda>d1 params. d1 * (1 - d1))"

definition StabilizeFP16_class :: "'a :: linordered_field simple_class" where
  "StabilizeFP16_class = one_extra (\<lambda>d1 params. if d1 \<le> 0 then 1 / 1000 else d1)"

text \<open>\<open>MIN_CUTFOFF\<close> is \<open>-3.79297773665\<close>.\<close>

definition MIN_CUTFOFF :: "'a :: linordered_field" where
  "MIN_CUTFOFF = - (379297773665 / 10 ^ 11)"

definition Stabilize_class :: "'a :: linordered_field simple_class" where
  "Stabilize_class = one_extra (\<lambda>d1 params. let k = params 0 in
     if d1 * k > - MIN_CUTFOFF then - MIN_CUTFOFF / k
     else if d1 * k < MIN_CUTFOFF then MIN_CUTFOFF / k
     else d1)"

definition ClipByValue_class :: "'a :: linordered_field simple_class" where
  "ClipByValue_class = one_extra (\<lambda>d1 params.
     if d1 > params 1 then params 1 else if d1 < params 0 then params 0 else d1)"

definition SetRange_class :: "'a :: floor_ceiling libm \<Rightarrow> 'a simple_class" where
  "SetRange_class m = one_extra (\<lambda>d1 params. let mn = params 0; mx = params 1 in
     if d1 \<ge> mn \<and> d1 \<le> mx then d1
     else if mn = 0 \<and> mx = 1
       then (let val = 1 / (1 + lm_exp m (- d1)) in of_int \<lfloor>val * (mx - mn)\<rfloor> + mn)
     else (let ret = of_int \<lfloor>d1 * (mx - mn)\<rfloor> + mn in ret))"

text \<open>\<open>isnan\<close> tests an element; a field has no such element of its own.\<close>

definition ReplaceNans_class :: "('a \<Rightarrow> bool) \<Rightarrow> 'a :: linordered_field simple_class" where
  "ReplaceNans_class isnan = one_extra (\<lambda>d1 params. let replacement = params 0 in if isnan d1 then replacement else d1)"

subsection \<open>Activation functions and their derivatives\<close>

definition HardTanh_class :: "'a :: linordered_field simple_class" where
  "HardTanh_class = one_extra (\<lambda>d1 params. if d1 < - 1 then - 1 else if d1 > 1 then 1 else d1)"

definition HardTanhDerivative_class :: "'a :: linordered_field simple_class" where
  "HardTanhDerivative_class = one_extra (\<lambda>d1 params. if d1 \<ge> - 1 \<and> d1 \<le> 1 then 1 else 0)"

definition Sigmoid_class :: "'a :: linordered_field libm \<Rightarrow> 'a simple_class" where
  "Sigmoid_class m = one_extra (\<lambda>d1 params. nd4j_sigmoid m d1)"

definition SigmoidDerivative_class :: "'a :: linordered_field libm \<Rightarrow> 'a simple_class" where
  "SigmoidDerivative_class m = one_extra (\<lambda>d1 params. nd4j_sigmoidderivative m d1)"

definition HardSigmoid_class :: "'a :: linordered_field simple_class" where
  "HardSigmoid_class = one_extra (\<lambda>d1 params. nd4j_min 1 (nd4j_max 0 (1 / 5 * d1 + 1 / 2)))"

definition HardSigmoidDerivative_class :: "'a :: linordered_field simple_class" where
  "HardSigmoidDerivative_class = one_extra (\<lambda>d1 params. if d1 < - (5 / 2) \<or> d1 > 5 / 2 then 0 else 1 / 5)"

definition SoftPlus_class :: "'a :: linordered_field libm \<Rightarrow> 'a simple_class" where
  "SoftPlus_class m = one_extra (\<lambda>d1 params. softplus m d1)"

definition RationalTanh_class :: "'a :: linordered_field libm \<Rightarrow> 'a simple_class" where
  "RationalTanh_class m = one_extra (\<lambda>d1 params. let
       dis = 2 / 3 * d1;
       tanh = nd4j_sgn dis * (1 - 1 / (1 + nd4j_abs dis + lm_pow m dis 2 + 141645 / 100000 * lm_pow m dis 4))
     in 17159 / 10000 * tanh)"

definition RationalTanhDerivative_class :: "'a :: linordered_field libm \<Rightarrow> 'a simple_class" where
  "RationalTanhDerivative_class m = one_extra (\<lambda>d1 params. let
       dis = 2 / 3 * d1;
       a = 1 + nd4j_abs dis + lm_pow m dis 2 + 141645 / 100000 * lm_pow m dis 4;
       tDeriv = (1 + nd4j_sign dis * (2 * dis + 4 * (141645 / 100000) * lm_pow m dis 3)) / (a * a)
     in 17159 / 10000 * (2 / 3) * tDeriv)"

definition RectifiedTanh_class :: "'a :: linordered_field libm \<Rightarrow> 'a simple_class" where
  "RectifiedTanh_class m = one_extra (\<lambda>d1 params. nd4j_max 0 (lm_tanh m d1))"

definition RectifiedTanhDerivative_class :: "'a :: linordered_field libm \<Rightarrow> 'a simple_class" where
  "RectifiedTanhDerivative_class m = one_extra (\<lambda>d1 params. if d1 > 0 then nd4j_tanhderivative m d1 else 0)"

definition TanhDerivative_class :: "'a :: linordered_field libm \<Rightarrow> 'a simple_class" where
  "TanhDerivative_class m = one_extra (\<lambda>d1 params. nd4j_tanhderivative m d1)"

definition TanDerivative_class :: "'a :: linordered_field libm \<Rightarrow> 'a simple_class" where
  "TanDerivative_class m = one_extra (\<lambda>d1 params. 1 / lm_pow m (lm_cos m d1) 2)"

definition Cube_class :: "'a :: linordered_field simple_class" where
  "Cube_class = one_extra (\<lambda>d1 params. d1 * d1 * d1)"

definition CubeDerivative_class :: "'a :: linordered_field simple_class" where
  "CubeDerivative_class = one_extra (\<lambda>d1 params. 3 * d1 * d1)"

definition SoftSign_class :: "'a :: linordered_field simple_class" where
  "SoftSign_class = one_extra (\<lambda>d1 params. nd4j_softsign d1)"

definition SoftSignDerivative_class :: "'a :: linordered_field simple_class" where
  "SoftSignDerivative_class = one_extra (\<lambda>d1 params. nd4j_softsignderivative d1)"

definition ELU_class :: "'a :: linordered_field libm \<Rightarrow> 'a simple_class" where
  "ELU_class m = one_extra (\<lambda>d1 params. nd4j_elu m d1)"

definition ELUDerivative_class :: "'a :: linordered_field libm \<Rightarrow> 'a simple_class" where
  "ELUDerivative_class m = one_extra (\<lambda>d1 params. nd4j_eluderivative m d1)"

definition RELU_class :: "'a :: linordered_field simple_class" where
  "RELU_class = one_extra (\<lambda>d1 params. if d1 < params 0 then params 0 else d1)"

definition LeakyRELU_class :: "'a :: linordered_field simple_class" where
  "LeakyRELU_class = one_extra (\<lambda>d1 params. nd4j_leakyrelu d1 (params 0))"

definition LeakyRELUDerivative_class :: "'a :: linordered_field simple_class" where
  "LeakyRELUDerivative_class = one_extra (\<lambda>d1 params. if d1 \<ge> 0 then 1 else params 0)"

definition SELU_ALPHA :: "'a :: linordered_field" where
  "SELU_ALPHA = 16732632423543772848170429916717 / 10 ^ 31"

definition SELU_LAMBDA :: "'a :: linordered_field" where
  "SELU_LAMBDA = 10507009873554804934193349852946 / 10 ^ 31"

definition SELU_class :: "'a :: linordered_field libm \<Rightarrow> 'a simple_class" where
  "SELU_class m = one_extra (\<lambda>d1 params. if d1 > 0 then SELU_LAMBDA * d1 else SELU_LAMBDA * (SELU_ALPHA * lm_exp m d1 - SELU_ALPHA))"

definition SELUDerivative_class :: "'a :: linordered_field libm \<Rightarrow> 'a simple_class" where
  "SELUDerivative_class m = one_extra (\<lambda>d1 params. if d1 > 0 then SELU_LAMBDA else SELU_ALPHA * SELU_LAMBDA * lm_exp m d1)"

subsection \<open>Conditional replacement\<close>

text \<open>
  The parameters are the value to compare with, the value to set, the tolerance and the mode; an
  unknown mode is reported and leaves the element.  \<open>isinff\<close> and \<open>isnanf\<close> test the element converted
  to \<open>float\<close>, \<open>isinf\<close> and \<open>isnan\<close> the element itself.
\<close>

record 'a replacement = "'a condition" +
  mc_set :: 'a

definition CompareAndReplace_class ::
  "('a \<Rightarrow> bool) \<Rightarrow> ('a \<Rightarrow> bool) \<Rightarrow> ('a :: linordered_field, 'a replacement) op_class" where
  "CompareAndReplace_class isinff isnanf = \<lparr>op_pair = None, op_pair_extra = Some (\<lambda>d1 d2 params.
     let compare = mc_compare params; eps = mc_eps params; mode = mc_mode params in
       if mode = 0 then (if nd4j_abs (d1 - compare) \<le> eps then d2 else d1)
       else if mode = 1 then (if nd4j_abs (d1 - compare) > eps then d2 else d1)
       else if mode = 2 then (if d1 < compare then d2 else d1)
       else if mode = 3 then (if d1 > compare then d2 else d1)
       else if mode = 4 then (if d1 \<le> compare then d2 else d1)
       else if mode = 5 then (if d1 \<ge> compare then d2 else d1)
       else if mode = 6 then (if nd4j_abs d1 < compare then d2 else d1)
       else if mode = 7 then (if nd4j_abs d1 > compare then d2 else d1)
       else if mode = 8 then (if isinff d1 then d2 else d1)
       else if mode = 9 then (if isnanf d1 then d2 else d1)
       else if mode = 10 then (if d1 = compare then d2 else d1)
       else if mode = 11 then (if d1 \<noteq> compare then d2 else d1)
       else if mode = 12 then (if nd4j_abs d1 \<ge> compare then d2 else d1)
       else if mode = 13 then (if nd4j_abs d1 \<le> compare then d2 else d1)
       else d1),
     op_one = None, op_one_extra = None\<rparr>"

definition CompareAndSet_class ::
  "('a \<Rightarrow> bool) \<Rightarrow> ('a \<Rightarrow> bool) \<Rightarrow> ('a \<Rightarrow> bool) \<Rightarrow> ('a \<Rightarrow> bool) \<Rightarrow> ('a :: linordered_field, 'a replacement) op_class" where
  "CompareAndSet_class isinff isnanf isinf isnan = \<lparr>op_pair = None, op_pair_extra = Some (\<lambda>d1 d2 params.
     let compare = mc_compare params; eps = mc_eps params; mode = mc_mode params in
       if mode = 0 then (if nd4j_abs (d2 - compare) \<le> eps then d2 else d1)
       else if mode = 1 then (if nd4j_abs (d2 - compare) > eps then d2 else d1)
       else if mode = 2 then (if d2 < compare then d2 else d1)
       else if mode = 3 then (if d2 > compare then d2 else d1)
       else if mode = 4 then (if d2 \<le> compare then d2 else d1)
       else if mode = 5 then (if d2 \<ge> compare then d2 else d1)
       else if mode = 6 then (if nd4j_abs d2 < compare then d2 else d1)
       else if mode = 7 then (if nd4j_abs d2 > compare then d2 else d1)
       else if mode = 8 then (if isinff d2 then d2 else d1)
       else if mode = 9 then (if isnanf d2 then d2 else d1)
       else if mode = 10 then (if d2 = compare then d2 else d1)
       else if mode = 11 then (if d2 \<noteq> compare then d2 else d1)
       else if mode = 12 then (if nd4j_abs d1 \<ge> compare then d2 else d1)
       else if mode = 13 then (if nd4j_abs d1 \<le> compare then d2 else d1)
       else d1),
     op_one = None, op_one_extra = Some (\<lambda>d1 params.
     let compare = mc_compare params; set = mc_set params; eps = mc_eps params; mode = mc_mode params in
       if mode = 0 then (if nd4j_abs (d1 - compare) \<le> eps then set else d1)
       else if mode = 1 then (if nd4j_abs (d1 - compare) > eps then set else d1)
       else if mode = 2 then (if d1 < compare then set else d1)
       else if mode = 3 then (if d1 > compare then set else d1)
       else if mode = 4 then (if d1 \<le> compare then set else d1)
       else if mode = 5 then (if d1 \<ge> compare then set else d1)
       else if mode = 6 then (if nd4j_abs d1 < compare then set else d1)
       else if mode = 7 then (if nd4j_abs d1 > compare then set else d1)
       else if mode = 8 then (if isinf d1 then set else d1)
       else if mode = 9 then (if isnan d1 then set else d1)
       else if mode = 10 then (if d1 = compare then set else d1)
       else if mode = 11 then (if d1 \<noteq> compare then set else d1)
       else if mode = 12 then (if nd4j_abs d1 \<ge> compare then set else d1)
       else if mode = 13 then (if nd4j_abs d1 \<le> compare then set else d1)
       else d1)\<rparr>"

subsection \<open>Compositions\<close>

text \<open>
  A composed operation has the parameters of its two parts.  \<open>MetaOp\<close> applies the first part to
  the first operand, \<open>InvertedMetaOp\<close> the second part to the result of the first.  The overload
  \<open>op(d1, params)\<close> of \<open>InvertedMetaOp\<close> is a stub that prints a message.
\<close>

definition MetaOp :: "('a, 'p) op_class \<Rightarrow> ('a, 'q) op_class \<Rightarrow> ('a, 'p \<times> 'q) op_class" where
  "MetaOp A B = \<lparr>op_pair = None,
     op_pair_extra = (case (op_one_extra A, op_pair_extra B) of
         (Some f, Some g) \<Rightarrow> Some (\<lambda>d1 d2 params. let (paramsA, paramsB) = params in g (f d1 paramsA) d2 paramsB)
       | _ \<Rightarrow> None),
     op_one = None,
     op_one_extra = (case (op_one_extra A, op_one_extra B) of
         (Some f, Some g) \<Rightarrow> Some (\<lambda>d1 params. let (paramsA, paramsB) = params in g (f d1 paramsA) paramsB)
       | _ \<Rightarrow> None)\<rparr>"

definition InvertedMetaOp :: "('a :: linordered_field, 'p) op_class \<Rightarrow> ('a, 'q) op_class \<Rightarrow> ('a, 'p \<times> 'q) op_class" where
  "InvertedMetaOp A B = \<lparr>op_pair = None,
     op_pair_extra = (case (op_pair_extra A, op_one_extra B) of
         (Some f, Some g) \<Rightarrow> Some (\<lambda>d1 d2 params. let (paramsA, paramsB) = params in g (f d1 d2 paramsA) paramsB)
       | _ \<Rightarrow> None),
     op_one = None,
     op_one_extra = Some (\<lambda>d1 params. 0)\<rparr>"

text \<open>
  \<open>ReduceMetaOp\<close> on a reduction with its parameters; \<open>f\<close> is the operation \<open>A\<close> with its own.  All
  methods but \<open>op\<close> are those of the reduction, the starting value included.
\<close>

definition ReduceMetaOp :: "('a \<Rightarrow> 'a) \<Rightarrow> 'a reduction \<Rightarrow> 'a reduction" where
  "ReduceMetaOp f B = \<lparr>rn_start = rn_start B, rn_op = (\<lambda>d1. rn_op B (f d1)), rn_merge = rn_merge B,
     rn_update = rn_update B, rn_post = rn_post B\<rparr>"

end
