(* ===== verification/ElementProperties.thy ===== *)
theory ElementProperties
  imports LoopProperties ElementOps
begin

text \<open>
  The properties of the operations on single elements: conditional replacement,
  derivatives of the activation functions, and the compositions of operations in the loops.
\<close>

subsection \<open>Conditions\<close>

lemma nd4j_simps [simp]: "nd4j_abs a = \<bar>a\<bar>" "nd4j_max a b = max a b" "nd4j_min a b = min a b" "nd4j_sign a = nd4j_sgn a"
  by (simp_all add: nd4j_abs_def nd4j_max_def nd4j_min_def nd4j_sign_def max_def min_def)

lemma flag_simps [simp]: "flag True = 1" "flag False = 0"
  by (simp_all add: flag_def)

lemma mode_cases:
  assumes "mode \<in> {0..13 :: int}"
  shows "mode = 0 \<or> mode = 1 \<or> mode = 2 \<or> mode = 3 \<or> mode = 4 \<or> mode = 5 \<or> mode = 6
    \<or> mode = 7 \<or> mode = 8 \<or> mode = 9 \<or> mode = 10 \<or> mode = 11 \<or> mode = 12 \<or> mode = 13"
  using assms unfolding atLeastAtMost_iff by presburger

definition matched :: "('a \<Rightarrow> bool) \<Rightarrow> ('a \<Rightarrow> bool) \<Rightarrow> 'a replacement \<Rightarrow> 'a :: linordered_field \<Rightarrow> bool" where
  "matched isinf isnan c v \<longleftrightarrow> MatchCondition_op isinf isnan (condition.truncate c) v = 1"

lemma matched_simps:
  "mc_mode c = 0 \<Longrightarrow> matched isinf isnan c v \<longleftrightarrow> \<bar>v - mc_compare c\<bar> \<le> mc_eps c"
  "mc_mode c = 1 \<Longrightarrow> matched isinf isnan c v \<longleftrightarrow> \<bar>v - mc_compare c\<bar> > mc_eps c"
  "mc_mode c = 2 \<Longrightarrow> matched isinf isnan c v \<longleftrightarrow> v < mc_compare c"
  "mc_mode c = 3 \<Longrightarrow> matched isinf isnan c v \<longleftrightarrow> v > mc_compare c"
  "mc_mode c = 4 \<Longrightarrow> matched isinf isnan c v \<longleftrightarrow> v \<le> mc_compare c"
  "mc_mode c = 5 \<Longrightarrow> matched isinf isnan c v \<longleftrightarrow> v \<ge> mc_compare c"
  "mc_mode c = 6 \<Longrightarrow> matched isinf isnan c v \<longleftrightarrow> \<bar>v\<bar> < mc_compare c"
  "mc_mode c = 7 \<Longrightarrow> matched isinf isnan c v \<longleftrightarrow> \<bar>v\<bar> > mc_compare c"
  "mc_mode c = 8 \<Longrightarrow> matched isinf isnan c v \<longleftrightarrow> isinf v"
  "mc_mode c = 9 \<Longrightarrow> matched isinf isnan c v \<longleftrightarrow> isnan v"
  "mc_mode c = 10 \<Longrightarrow> matched isinf isnan c v \<longleftrightarrow> v = mc_compare c"
  "mc_mode c = 11 \<Longrightarrow> matched isinf isnan c v \<longleftrightarrow> v \<noteq> mc_compare c"
  "mc_mode c = 12 \<Longrightarrow> matched isinf isnan c v \<longleftrightarrow> \<bar>v\<bar> \<ge> mc_compare c"
  "mc_mode c = 13 \<Longrightarrow> matched isinf isnan c v \<longleftrightarrow> \<bar>v\<bar> \<le> mc_compare c"
  by (simp_all add: matched_def MatchCondition_op_def condition.truncate_def)

text \<open>
  C36.  The conditional operations decide as \<open>MatchCondition\<close> counts: \<open>CompareAndReplace\<close> takes the second
  operand where the first one matches, in each of the 14 modes; \<open>CompareAndSet\<close> on two arrays copies the
  second operand where that one matches, and for the modes 12 and 13 where the first one does;
  \<open>CompareAndSet\<close> on one array sets the value where the element matches, except for the modes 8 and 9,
  infinity and NaN: there it tests the element itself, whereas the others test the element converted to
  \<open>float\<close> (\<open>isinff\<close> and \<open>isnanf\<close> are these tests).
\<close>

theorem conditional_replacement:
  fixes c :: "'a :: linordered_field replacement"
  assumes "0 \<le> mc_mode c" "mc_mode c \<le> 13"
  shows "\<exists>replace set_one set_pair.
      op_pair_extra (CompareAndReplace_class isinff isnanf) = Some replace
    \<and> op_one_extra (CompareAndSet_class isinff isnanf isinf isnan) = Some set_one
    \<and> op_pair_extra (CompareAndSet_class isinff isnanf isinf isnan) = Some set_pair
    \<and> (\<forall>d1 d2. replace d1 d2 c = (if matched isinff isnanf c d1 then d2 else d1))
    \<and> (\<forall>d1. set_one d1 c = (if (if mc_mode c = 8 then isinf d1 else if mc_mode c = 9 then isnan d1
        else matched isinff isnanf c d1) then mc_set c else d1))
    \<and> (\<forall>d1 d2. set_pair d1 d2 c
        = (if matched isinff isnanf c (if mc_mode c < 12 then d2 else d1) then d2 else d1))"
proof -
  note defs = CompareAndReplace_class_def CompareAndSet_class_def op_class.simps option.inject Let_def
  from assms consider "mc_mode c = 0" | "mc_mode c = 1" | "mc_mode c = 2" | "mc_mode c = 3" | "mc_mode c = 4" | "mc_mode c = 5"
    | "mc_mode c = 6" | "mc_mode c = 7" | "mc_mode c = 8" | "mc_mode c = 9" | "mc_mode c = 10" | "mc_mode c = 11"
    | "mc_mode c = 12" | "mc_mode c = 13" using mode_cases [of "mc_mode c"] by fastforce
  then show ?thesis
    by cases (simp_all add: defs matched_simps)
qed


subsection \<open>Derivatives\<close>

text \<open>The elementary functions over the real numbers.\<close>

definition real_libm :: "real libm" where
  "real_libm = \<lparr>lm_exp = exp, lm_log = ln,
     lm_pow = (\<lambda>x y. if y = of_int \<lfloor>y\<rfloor> then x powi \<lfloor>y\<rfloor> else x powr y), lm_sqrt = sqrt,
     lm_sin = sin, lm_cos = cos, lm_tan = tan, lm_sinh = sinh, lm_cosh = cosh, lm_tanh = tanh,
     lm_asin = arcsin, lm_acos = arccos, lm_atan = arctan,
     lm_atan2 = (\<lambda>y x. if x > 0 then arctan (y / x) else if x < 0 then (if y < 0 then arctan (y / x) - pi else arctan (y / x) + pi)
       else if y > 0 then pi / 2 else if y < 0 then - (pi / 2) else 0),
     lm_atanh = artanh\<rparr>"

lemma real_libm_simps [simp]:
  "lm_exp real_libm = exp" "lm_log real_libm = ln" "lm_tanh real_libm = tanh" "lm_cos real_libm = cos" "lm_tan real_libm = tan"
  "lm_sqrt real_libm = sqrt" "lm_pow real_libm x (numeral k) = x ^ numeral k"
  by (simp_all add: real_libm_def power_int_def)

definition differentiates :: "real simple_class \<Rightarrow> real simple_class \<Rightarrow> (nat \<Rightarrow> real) \<Rightarrow> real \<Rightarrow> bool" where
  "differentiates C D params x \<longleftrightarrow> (\<exists>f g. op_one_extra C = Some f \<and> op_one_extra D = Some g
     \<and> ((\<lambda>d1. f d1 params) has_real_derivative g x params) (at x))"

lemma differentiates_one [simp]:
  "differentiates (one_extra f) (one_extra g) params x \<longleftrightarrow> ((\<lambda>d1. f d1 params) has_real_derivative g x params) (at x)"
  by (simp add: differentiates_def)

text \<open>Functions by cases: inside a branch, and at a place where two branches meet.\<close>

lemma derivative_below:
  fixes f l :: "real \<Rightarrow> real"
  assumes "(l has_real_derivative D) (at x)" "x < c" "\<And>y. y < c \<Longrightarrow> f y = l y"
  shows "(f has_real_derivative D) (at x)"
proof -
  have ev: "\<forall>\<^sub>F y in nhds x. f y = l y"
    unfolding eventually_nhds using assms(2,3) by (intro exI [of _ "{..<c}"]) simp
  show ?thesis using DERIV_cong_ev [OF refl ev refl] assms(1) by simp
qed

lemma derivative_above:
  fixes f r :: "real \<Rightarrow> real"
  assumes "(r has_real_derivative D) (at x)" "c < x" "\<And>y. c < y \<Longrightarrow> f y = r y"
  shows "(f has_real_derivative D) (at x)"
proof -
  have ev: "\<forall>\<^sub>F y in nhds x. f y = r y"
    unfolding eventually_nhds using assms(2,3) by (intro exI [of _ "{c<..}"]) simp
  show ?thesis using DERIV_cong_ev [OF refl ev refl] assms(1) by simp
qed

lemma derivative_meet:
  fixes f l r :: "real \<Rightarrow> real"
  assumes "(l has_real_derivative D) (at x)" "(r has_real_derivative D) (at x)"
    and "\<And>y. y \<le> x \<Longrightarrow> f y = l y" "\<And>y. x \<le> y \<Longrightarrow> f y = r y"
  shows "(f has_real_derivative D) (at x)"
proof -
  have "((\<lambda>y. (f y - f x) / (y - x)) \<longlongrightarrow> D) (at_left x)"
  proof (rule Lim_transform_eventually)
    show "((\<lambda>y. (l y - l x) / (y - x)) \<longlongrightarrow> D) (at_left x)"
      using has_field_derivative_at_within [OF assms(1)] unfolding has_field_derivative_iff .
    show "\<forall>\<^sub>F y in at_left x. (l y - l x) / (y - x) = (f y - f x) / (y - x)"
      unfolding eventually_at_filter using assms(3) by (auto intro!: always_eventually)
  qed
  moreover have "((\<lambda>y. (f y - f x) / (y - x)) \<longlongrightarrow> D) (at_right x)"
  proof (rule Lim_transform_eventually)
    show "((\<lambda>y. (r y - r x) / (y - x)) \<longlongrightarrow> D) (at_right x)"
      using has_field_derivative_at_within [OF assms(2)] unfolding has_field_derivative_iff .
    show "\<forall>\<^sub>F y in at_right x. (r y - r x) / (y - x) = (f y - f x) / (y - x)"
      unfolding eventually_at_filter using assms(4) by (auto intro!: always_eventually)
  qed
  ultimately show ?thesis
    unfolding has_field_derivative_iff by (simp add: filterlim_at_split)
qed

lemma derivative_branches:
  fixes f l r :: "real \<Rightarrow> real"
  assumes "\<And>y. y \<le> c \<Longrightarrow> f y = l y" "\<And>y. c \<le> y \<Longrightarrow> f y = r y"
    and "x \<le> c \<Longrightarrow> (l has_real_derivative D) (at x)" "c \<le> x \<Longrightarrow> (r has_real_derivative D) (at x)"
  shows "(f has_real_derivative D) (at x)"
proof -
  consider "x < c" | "x = c" | "c < x" by linarith
  then show ?thesis
  proof cases
    case 1
    show ?thesis by (rule derivative_below [OF _ 1]) (use 1 assms in auto)
  next
    case 2
    show ?thesis by (rule derivative_meet) (use 2 assms in auto)
  next
    case 3
    show ?thesis by (rule derivative_above [OF _ 3]) (use 3 assms in auto)
  qed
qed


lemma sigmoid_derivative: "differentiates (Sigmoid_class real_libm) (SigmoidDerivative_class real_libm) params x"
proof -
  have "1 + exp (- x) \<noteq> (0 :: real)" using exp_gt_zero [of "- x"] by linarith
  then show ?thesis
    unfolding Sigmoid_class_def SigmoidDerivative_class_def differentiates_one nd4j_sigmoid_def nd4j_sigmoidderivative_def Let_def real_libm_simps
    by (auto intro!: derivative_eq_intros simp: field_simps power2_eq_square)
qed

lemma tanh_derivative: "differentiates (Tanh_class real_libm) (TanhDerivative_class real_libm) params x"
  unfolding Tanh_class_def TanhDerivative_class_def differentiates_one nd4j_tanhderivative_def Let_def real_libm_simps
  by (auto intro!: derivative_eq_intros simp: power2_eq_square)

lemma cube_derivative: "differentiates Cube_class CubeDerivative_class params x"
  unfolding Cube_class_def CubeDerivative_class_def differentiates_one
  by (auto intro!: derivative_eq_intros)

lemma softsign_derivative: "differentiates SoftSign_class SoftSignDerivative_class params x"
  unfolding SoftSign_class_def SoftSignDerivative_class_def differentiates_one nd4j_softsign_def nd4j_softsignderivative_def Let_def nd4j_simps
proof (rule derivative_branches [of 0 _ "\<lambda>y. y / (1 - y)" "\<lambda>y. y / (1 + y)"])
  show "x \<le> 0 \<Longrightarrow> ((\<lambda>y. y / (1 - y)) has_real_derivative 1 / ((1 + \<bar>x\<bar>) * (1 + \<bar>x\<bar>))) (at x)"
    by (auto intro!: derivative_eq_intros)
  show "0 \<le> x \<Longrightarrow> ((\<lambda>y. y / (1 + y)) has_real_derivative 1 / ((1 + \<bar>x\<bar>) * (1 + \<bar>x\<bar>))) (at x)"
    by (auto intro!: derivative_eq_intros)
qed simp_all

lemma elu_derivative: "differentiates (ELU_class real_libm) (ELUDerivative_class real_libm) params x"
  unfolding ELU_class_def ELUDerivative_class_def differentiates_one nd4j_elu_def nd4j_eluderivative_def real_libm_simps
proof (rule derivative_branches [of 0 _ "\<lambda>y. exp y - 1" "\<lambda>y. y"])
  show "x \<le> 0 \<Longrightarrow> ((\<lambda>y. exp y - 1) has_real_derivative (if 0 \<le> x then 1 else exp x)) (at x)"
    by (auto intro!: derivative_eq_intros)
  show "0 \<le> x \<Longrightarrow> ((\<lambda>y. y) has_real_derivative (if 0 \<le> x then 1 else exp x)) (at x)"
    by (auto intro!: derivative_eq_intros)
qed auto


lemma rational_branch:
  fixes d s k :: real
  assumes "s = 1 \<and> 0 \<le> d \<or> s = - 1 \<and> d \<le> 0" "0 \<le> k"
  shows "((\<lambda>d. s * (1 - 1 / (1 + s * d + d\<^sup>2 + k * d ^ 4))) has_real_derivative
    (1 + s * (2 * d + 4 * k * d ^ 3)) / ((1 + s * d + d\<^sup>2 + k * d ^ 4) * (1 + s * d + d\<^sup>2 + k * d ^ 4))) (at d)"
proof -
  have "0 \<le> s * d" "0 \<le> d\<^sup>2" "0 \<le> k * d ^ 4" using assms by auto
  then have n: "1 + s * d + d\<^sup>2 + k * d ^ 4 \<noteq> 0" by linarith
  have "((\<lambda>d. 1 + s * d + d\<^sup>2 + k * d ^ 4) has_real_derivative s + 2 * d + 4 * k * d ^ 3) (at d)"
    by (auto intro!: derivative_eq_intros)
  note N = this
  let ?n = "1 + s * d + d\<^sup>2 + k * d ^ 4"
  from DERIV_inverse_fun [OF N n]
  have "((\<lambda>d. 1 / (1 + s * d + d\<^sup>2 + k * d ^ 4)) has_real_derivative - ((s + 2 * d + 4 * k * d ^ 3) / (?n * ?n))) (at d)"
    unfolding inverse_eq_divide by (rule DERIV_cong) (simp add: field_simps power2_eq_square)
  from DERIV_cmult [OF DERIV_diff [OF DERIV_const this], of s 1]
  have "((\<lambda>d. s * (1 - 1 / (1 + s * d + d\<^sup>2 + k * d ^ 4))) has_real_derivative
    s * (s + 2 * d + 4 * k * d ^ 3) / ((1 + s * d + d\<^sup>2 + k * d ^ 4) * (1 + s * d + d\<^sup>2 + k * d ^ 4))) (at d)"
    by (rule DERIV_cong) simp
  moreover have "s * (s + 2 * d + 4 * k * d ^ 3) = 1 + s * (2 * d + 4 * k * d ^ 3)" using assms by auto
  ultimately show ?thesis by simp
qed

lemma sgn_branches: "0 \<le> d \<Longrightarrow> nd4j_sgn d * (1 - 1 / (1 + \<bar>d\<bar> + d\<^sup>2 + k * d ^ 4)) = 1 * (1 - 1 / (1 + 1 * d + d\<^sup>2 + k * d ^ 4))"
  "d \<le> 0 \<Longrightarrow> nd4j_sgn d * (1 - 1 / (1 + \<bar>d\<bar> + d\<^sup>2 + k * d ^ 4)) = - 1 * (1 - 1 / (1 + - 1 * d + d\<^sup>2 + k * d ^ 4))"
  for d :: real
  by (auto simp: nd4j_sgn_def)

lemma rational_derivative:
  fixes d k :: real
  assumes "0 \<le> k"
  shows "((\<lambda>d. nd4j_sgn d * (1 - 1 / (1 + \<bar>d\<bar> + d\<^sup>2 + k * d ^ 4))) has_real_derivative
    (1 + nd4j_sgn d * (2 * d + 4 * k * d ^ 3)) / ((1 + \<bar>d\<bar> + d\<^sup>2 + k * d ^ 4) * (1 + \<bar>d\<bar> + d\<^sup>2 + k * d ^ 4))) (at d)"
proof (rule derivative_branches [OF sgn_branches(2,1)])
  show "d \<le> 0 \<Longrightarrow> ((\<lambda>d. - 1 * (1 - 1 / (1 + - 1 * d + d\<^sup>2 + k * d ^ 4))) has_real_derivative
    (1 + nd4j_sgn d * (2 * d + 4 * k * d ^ 3)) / ((1 + \<bar>d\<bar> + d\<^sup>2 + k * d ^ 4) * (1 + \<bar>d\<bar> + d\<^sup>2 + k * d ^ 4))) (at d)"
    using rational_branch [of "- 1" d k] assms by (cases "d = 0") (auto simp: nd4j_sgn_def)
  show "0 \<le> d \<Longrightarrow> ((\<lambda>d. 1 * (1 - 1 / (1 + 1 * d + d\<^sup>2 + k * d ^ 4))) has_real_derivative
    (1 + nd4j_sgn d * (2 * d + 4 * k * d ^ 3)) / ((1 + \<bar>d\<bar> + d\<^sup>2 + k * d ^ 4) * (1 + \<bar>d\<bar> + d\<^sup>2 + k * d ^ 4))) (at d)"
    using rational_branch [of 1 d k] assms by (cases "d = 0") (auto simp: nd4j_sgn_def)
qed

lemma rational_tanh_derivative: "differentiates (RationalTanh_class real_libm) (RationalTanhDerivative_class real_libm) params x"
proof -
  have k: "(0 :: real) \<le> 141645 / 100000" by simp
  have swap: "a * (b * c) = a * c * b" for a b c :: real by simp
  have "((\<lambda>x. 2 / 3 * x) has_real_derivative 2 / 3) (at x)" by (auto intro!: derivative_eq_intros)
  from DERIV_cmult [OF DERIV_chain2 [OF rational_derivative [OF k] this], of "17159 / 10000"]
  show ?thesis
    unfolding RationalTanh_class_def RationalTanhDerivative_class_def differentiates_one Let_def nd4j_simps real_libm_simps
    by (rule DERIV_cong) (rule swap)
qed

lemma selu_derivative: "x \<noteq> 0 \<Longrightarrow> differentiates (SELU_class real_libm) (SELUDerivative_class real_libm) params x"
  unfolding SELU_class_def SELUDerivative_class_def differentiates_one real_libm_simps
proof (cases "x < 0")
  case True
  show "((\<lambda>d1. if 0 < d1 then SELU_LAMBDA * d1 else SELU_LAMBDA * (SELU_ALPHA * exp d1 - SELU_ALPHA)) has_real_derivative
     (if 0 < x then SELU_LAMBDA else SELU_ALPHA * SELU_LAMBDA * exp x)) (at x)"
    by (rule derivative_below [of "\<lambda>d. SELU_LAMBDA * (SELU_ALPHA * exp d - SELU_ALPHA)", OF _ True])
      (use True in \<open>auto intro!: derivative_eq_intros\<close>)
next
  case False
  moreover assume "x \<noteq> 0"
  ultimately have x: "0 < x" by simp
  show "((\<lambda>d1. if 0 < d1 then SELU_LAMBDA * d1 else SELU_LAMBDA * (SELU_ALPHA * exp d1 - SELU_ALPHA)) has_real_derivative
     (if 0 < x then SELU_LAMBDA else SELU_ALPHA * SELU_LAMBDA * exp x)) (at x)"
    by (rule derivative_above [of "\<lambda>d. SELU_LAMBDA * d", OF _ x]) (use x in \<open>auto intro!: derivative_eq_intros\<close>)
qed

lemma leaky_derivative: "x \<noteq> 0 \<Longrightarrow> differentiates LeakyRELU_class LeakyRELUDerivative_class params x"
  unfolding LeakyRELU_class_def LeakyRELUDerivative_class_def differentiates_one nd4j_leakyrelu_def
proof (cases "x < 0")
  case True
  show "((\<lambda>d1. if d1 < 0 then params 0 * d1 else d1) has_real_derivative (if 0 \<le> x then 1 else params 0)) (at x)"
    by (rule derivative_below [of "\<lambda>d. params 0 * d", OF _ True]) (use True in \<open>auto intro!: derivative_eq_intros\<close>)
next
  case False
  moreover assume "x \<noteq> 0"
  ultimately have x: "0 < x" by simp
  show "((\<lambda>d1. if d1 < 0 then params 0 * d1 else d1) has_real_derivative (if 0 \<le> x then 1 else params 0)) (at x)"
    by (rule derivative_above [of "\<lambda>d. d", OF _ x]) (use x in \<open>auto intro!: derivative_eq_intros\<close>)
qed

lemma rectified_derivative: "x \<noteq> 0 \<Longrightarrow> differentiates (RectifiedTanh_class real_libm) (RectifiedTanhDerivative_class real_libm) params x"
  unfolding RectifiedTanh_class_def RectifiedTanhDerivative_class_def differentiates_one nd4j_simps nd4j_tanhderivative_def Let_def real_libm_simps
proof (cases "x < 0")
  case True
  show "((\<lambda>d1. max 0 (tanh d1)) has_real_derivative (if 0 < x then 1 - tanh x * tanh x else 0)) (at x)"
    by (rule derivative_below [of "\<lambda>d. 0", OF _ True]) (use True in \<open>auto intro!: derivative_eq_intros\<close>)
next
  case False
  moreover assume "x \<noteq> 0"
  ultimately have x: "0 < x" by simp
  show "((\<lambda>d1. max 0 (tanh d1)) has_real_derivative (if 0 < x then 1 - tanh x * tanh x else 0)) (at x)"
    by (rule derivative_above [of tanh, OF _ x]) (use x in \<open>auto intro!: derivative_eq_intros simp: power2_eq_square max_def\<close>)
qed

text \<open>A function that is linear between two kinks and constant outside.\<close>

lemma clamp_derivative:
  fixes f :: "real \<Rightarrow> real"
  assumes "lo < hi" "x \<noteq> lo" "x \<noteq> hi"
    and "\<And>y. y < lo \<Longrightarrow> f y = a" "\<And>y. lo < y \<Longrightarrow> y < hi \<Longrightarrow> f y = m * y + t" "\<And>y. hi < y \<Longrightarrow> f y = b"
  shows "(f has_real_derivative (if x < lo \<or> hi < x then 0 else m)) (at x)"
proof -
  consider "x < lo" | "hi < x" | "lo < x" "x < hi" using assms(2,3) by linarith
  then show ?thesis
  proof cases
    case 1
    show ?thesis by (rule derivative_below [of "\<lambda>y. a", OF _ 1]) (use 1 assms(4) in auto)
  next
    case 2
    show ?thesis by (rule derivative_above [of "\<lambda>y. b", OF _ 2]) (use 2 assms(6) in auto)
  next
    case 3
    have ev: "\<forall>\<^sub>F y in nhds x. f y = m * y + t"
      unfolding eventually_nhds using assms(5) 3 by (intro exI [of _ "{lo<..<hi}"]) simp
    show ?thesis using DERIV_cong_ev [OF refl ev refl] 3 by (auto intro!: derivative_eq_intros)
  qed
qed

lemma hard_tanh_derivative:
  "\<bar>x\<bar> \<noteq> 1 \<Longrightarrow> differentiates HardTanh_class HardTanhDerivative_class params x"
  unfolding HardTanh_class_def HardTanhDerivative_class_def differentiates_one
  by (rule DERIV_cong [OF clamp_derivative [of "- 1" 1 x _ "- 1" 1 0 1]]) auto

lemma hard_sigmoid_derivative:
  "\<bar>x\<bar> \<noteq> 5 / 2 \<Longrightarrow> differentiates HardSigmoid_class HardSigmoidDerivative_class params x"
  unfolding HardSigmoid_class_def HardSigmoidDerivative_class_def differentiates_one nd4j_simps
  by (rule DERIV_cong [OF clamp_derivative [of "- (5 / 2)" "5 / 2" x _ 0 "1 / 5" "1 / 2" 1]]) (auto simp: max_def min_def)

lemma tan_derivative: "cos x \<noteq> 0 \<Longrightarrow> differentiates (Tan_class real_libm) (TanDerivative_class real_libm) params x"
  unfolding Tan_class_def TanDerivative_class_def differentiates_one real_libm_simps
  using DERIV_tan [of x] by (simp add: inverse_eq_divide)

text \<open>
  C35.  Over the real numbers the derivative classes of the activation functions are the derivatives
  of their functions: everywhere for the sigmoid, \<open>tanh\<close>, the rational \<open>tanh\<close>, the soft sign, ELU and the
  cube, and away from their kinks or poles for SELU, the leaky and the rectified functions, the hard
  functions and the tangent.
\<close>

theorem activation_derivatives:
  "differentiates (Sigmoid_class real_libm) (SigmoidDerivative_class real_libm) params x
    \<and> differentiates (Tanh_class real_libm) (TanhDerivative_class real_libm) params x
    \<and> differentiates (RationalTanh_class real_libm) (RationalTanhDerivative_class real_libm) params x
    \<and> differentiates SoftSign_class SoftSignDerivative_class params x
    \<and> differentiates (ELU_class real_libm) (ELUDerivative_class real_libm) params x
    \<and> differentiates Cube_class CubeDerivative_class params x
    \<and> (x \<noteq> 0 \<longrightarrow> differentiates (SELU_class real_libm) (SELUDerivative_class real_libm) params x)
    \<and> (x \<noteq> 0 \<longrightarrow> differentiates LeakyRELU_class LeakyRELUDerivative_class params x)
    \<and> (x \<noteq> 0 \<longrightarrow> differentiates (RectifiedTanh_class real_libm) (RectifiedTanhDerivative_class real_libm) params x)
    \<and> (\<bar>x\<bar> \<noteq> 1 \<longrightarrow> differentiates HardTanh_class HardTanhDerivative_class params x)
    \<and> (\<bar>x\<bar> \<noteq> 5 / 2 \<longrightarrow> differentiates HardSigmoid_class HardSigmoidDerivative_class params x)
    \<and> (cos x \<noteq> 0 \<longrightarrow> differentiates (Tan_class real_libm) (TanDerivative_class real_libm) params x)"
  by (intro conjI impI) (simp_all add: sigmoid_derivative tanh_derivative rational_tanh_derivative softsign_derivative elu_derivative
    cube_derivative selu_derivative leaky_derivative rectified_derivative hard_tanh_derivative hard_sigmoid_derivative tan_derivative)

theorem activation_derivatives_witness:
  "differentiates (SELU_class real_libm) (SELUDerivative_class real_libm) (\<lambda>_. 0) (1 / 2)
    \<and> differentiates LeakyRELU_class LeakyRELUDerivative_class (\<lambda>_. 0) (1 / 2)
    \<and> differentiates (RectifiedTanh_class real_libm) (RectifiedTanhDerivative_class real_libm) (\<lambda>_. 0) (1 / 2)
    \<and> differentiates HardTanh_class HardTanhDerivative_class (\<lambda>_. 0) (1 / 2)
    \<and> differentiates HardSigmoid_class HardSigmoidDerivative_class (\<lambda>_. 0) (1 / 2)
    \<and> differentiates (Tan_class real_libm) (TanDerivative_class real_libm) (\<lambda>_. 0) (1 / 2)"
proof -
  have "cos (1 / 2) \<noteq> (0 :: real)" using cos_gt_zero [of "1 / 2"] pi_ge_two by simp
  then show ?thesis using activation_derivatives [of "\<lambda>_. 0" "1 / 2"] by simp
qed

subsection \<open>Ranges\<close>

definition confines :: "('a :: linordered_field, 'p) op_class \<Rightarrow> 'p \<Rightarrow> 'a \<Rightarrow> 'a \<Rightarrow> bool" where
  "confines C params lo hi \<longleftrightarrow> (\<exists>f. op_one_extra C = Some f \<and> (\<forall>d1. lo \<le> f d1 params \<and> f d1 params \<le> hi))"

lemma stabilized:
  fixes d :: "'a :: linordered_field"
  assumes "params 0 \<noteq> 0"
  shows "\<exists>f. op_one_extra Stabilize_class = Some f \<and> \<bar>f d params * params 0\<bar> \<le> - MIN_CUTFOFF"
  using assms by (auto simp: Stabilize_class_def Let_def MIN_CUTFOFF_def abs_le_iff)

lemma softsign_range: "- 1 \<le> nd4j_softsign v \<and> nd4j_softsign v \<le> (1 :: 'a :: linordered_field)"
  by (simp add: nd4j_softsign_def divide_le_eq le_divide_eq abs_if)

lemma sigmoid_range: "0 \<le> nd4j_sigmoid real_libm v \<and> nd4j_sigmoid real_libm v \<le> 1"
  using exp_gt_zero [of "- v"] by (simp add: nd4j_sigmoid_def divide_le_eq add_nonneg_pos less_imp_le)

text \<open>Clipping, the hard and the smooth bounded functions keep their ranges; \<open>Stabilize\<close> bounds the
  product with its parameter.\<close>

theorem ranges_kept:
  fixes params :: "nat \<Rightarrow> 'a :: linordered_field"
  assumes "params 0 \<le> params 1"
  shows "confines ClipByValue_class params (params 0) (params 1)
    \<and> confines HardTanh_class params (- 1 :: 'a) 1
    \<and> confines HardSigmoid_class params (0 :: 'a) 1
    \<and> confines SoftSign_class params (- 1 :: 'a) 1
    \<and> confines (Sigmoid_class real_libm) params' 0 1
    \<and> confines (Tanh_class real_libm) params' (- 1) 1
    \<and> (\<forall>d. params 0 \<noteq> 0 \<longrightarrow> (\<exists>f. op_one_extra Stabilize_class = Some f \<and> \<bar>f d params * params 0\<bar> \<le> - MIN_CUTFOFF))"
  using assms softsign_range sigmoid_range tanh_real_bounds stabilized [of params]
  by (auto simp: confines_def ClipByValue_class_def HardTanh_class_def HardSigmoid_class_def SoftSign_class_def Sigmoid_class_def
    Tanh_class_def max_def min_def less_imp_le)

theorem ranges_kept_witness:
  "confines ClipByValue_class (\<lambda>i. if i = 0 then - 2 else 3) (- 2 :: rat) 3
    \<and> (\<exists>f. op_one_extra Stabilize_class = Some f \<and> \<bar>f 7 (\<lambda>i. if i = 0 then - 2 else 3) * - 2\<bar> \<le> (- MIN_CUTFOFF :: rat))"
  using ranges_kept [of "\<lambda>i. if i = 0 then - 2 else 3 :: rat"] by auto

text \<open>\<open>SetRange\<close> does not bring a value into the range.\<close>

lemma SetRange_escapes:
  "op_one_extra (SetRange_class m) = Some f \<Longrightarrow> f 5 ((\<lambda>_. 0)(0 := 1, 1 := 3)) = (11 :: 'a :: floor_ceiling)"
  by (auto simp: SetRange_class_def Let_def)


subsection \<open>Compositions\<close>

lemma pointwise_determines:
  assumes "pointwise op I z x y mem m" "pointwise op' I z x' y' mem' m'" "length mem = length mem'"
    and "\<And>i. i \<in> I \<Longrightarrow> op (mem ! nat (x i)) (mem ! nat (y i)) = op' (mem' ! nat (x' i)) (mem' ! nat (y' i))"
    and "\<And>p. p < length mem \<Longrightarrow> int p \<notin> z ` I \<Longrightarrow> mem ! p = mem' ! p"
  shows "m = m'"
proof (rule nth_equalityI)
  show "length m = length m'" using assms(1-3) by (simp add: pointwise_def)
  fix p assume "p < length m"
  then have p: "p < length mem" "p < length mem'" using assms(1,3) by (simp_all add: pointwise_def)
  show "m ! p = m' ! p"
  proof (cases "int p \<in> z ` I")
    case True
    then obtain i where "i \<in> I" "int p = z i" by blast
    then have "i \<in> I" "p = nat (z i)" by simp_all
    then show ?thesis using assms(1,2,4) by (simp add: pointwise_def)
  next
    case False
    then show ?thesis using assms(1,2,5) p by (simp add: pointwise_def)
  qed
qed

lemma separate_parts:
  assumes "separate I z x y mem" "length m = length mem"
  shows "separate I z x x m" "separate I z z z m" "(\<forall>i \<in> I. \<forall>j \<in> I. i \<noteq> j \<longrightarrow> z i \<noteq> y j) \<and> separate I z z y m"
  using assms by (auto simp: separate_def inj_on_def)

text \<open>
  C34.  A composed operation \<open>MetaOp A B\<close> over two arrays returns the memory that the two passes
  return one after the other: the transform \<open>A\<close> from the first array into the result, then the pairwise
  operation \<open>B\<close> of the result and the second array, in place.  The arrays may have any strides and
  orders; the result may overwrite the first array, and must not overlap the second.
\<close>

theorem meta_ops_fuse:
  assumes "runtime_ok rt" "room rt sh" "layout xi sh sx" "layout yi sh sy" "layout zi sh sz"
    and "separate (box sh) (cell z sz) (cell x sx) (cell y sy) mem"
    and "\<forall>i \<in> box sh. cell z sz i \<noteq> cell y sy i"
    and "op_one_extra A = Some f" "op_pair_extra B = Some g"
  shows "\<exists>h m m'. op_pair_extra (MetaOp A B) = Some h
    \<and> transform_exec rt None (\<lambda>d1. f d1 paramsA) x xi z zi mem = Some m
    \<and> pairwise_exec rt (\<lambda>d1 d2. g d1 d2 paramsB) z zi y yi z zi m = Some m'
    \<and> pairwise_exec rt (\<lambda>d1 d2. h d1 d2 (paramsA, paramsB)) x xi y yi z zi mem = Some m'"
proof -
  let ?h = "\<lambda>d1 d2 params. let (paramsA, paramsB) = params in g (f d1 paramsA) d2 paramsB"
  have h: "op_pair_extra (MetaOp A B) = Some ?h" using assms(8,9) by (simp add: MetaOp_def)
  obtain m where m: "transform_exec rt None (\<lambda>d1. f d1 paramsA) x xi z zi mem = Some m"
    "pointwise (\<lambda>a b. f a paramsA) (box sh) (cell z sz) (cell x sx) (cell x sx) mem m"
    using unary_exec_exact(2) [OF assms(1-3,5) separate_parts(1) [OF assms(6) refl]] by blast
  have l: "length m = length mem" using m(2) by (simp add: pointwise_def)
  obtain m' where m': "pairwise_exec rt (\<lambda>d1 d2. g d1 d2 paramsB) z zi y yi z zi m = Some m'"
    "pointwise (\<lambda>d1 d2. g d1 d2 paramsB) (box sh) (cell z sz) (cell z sz) (cell y sy) m m'"
    using pairwise_exec_exact [OF assms(1,2,5,4,5)] separate_parts(3) [OF assms(6) l] by blast
  obtain m'' where m'': "pairwise_exec rt (\<lambda>d1 d2. ?h d1 d2 (paramsA, paramsB)) x xi y yi z zi mem = Some m''"
    "pointwise (\<lambda>d1 d2. ?h d1 d2 (paramsA, paramsB)) (box sh) (cell z sz) (cell x sx) (cell y sy) mem m''"
    using pairwise_exec_exact [OF assms(1-6)] by blast
  have "m' = m''"
  proof (rule pointwise_determines [OF m'(2) m''(2) l])
    fix i assume i: "i \<in> box sh"
    have apart: "cell y sy i \<notin> cell z sz ` box sh"
    proof
      assume "cell y sy i \<in> cell z sz ` box sh"
      then obtain j where j: "j \<in> box sh" "cell y sy i = cell z sz j" by blast
      then show False using assms(6,7) i unfolding separate_def by metis
    qed
    have "cell y sy i \<in> {0..<int (length mem)}" using assms(6) i unfolding separate_def by blast
    then have "nat (cell y sy i) < length mem" "int (nat (cell y sy i)) = cell y sy i" by auto
    with apart have "m ! nat (cell y sy i) = mem ! nat (cell y sy i)" using m(2) by (simp add: pointwise_def)
    then show "g (m ! nat (cell z sz i)) (m ! nat (cell y sy i)) paramsB
        = ?h (mem ! nat (cell x sx i)) (mem ! nat (cell y sy i)) (paramsA, paramsB)"
      using m(2) i by (simp add: pointwise_def)
  next
    fix p assume "p < length m" "int p \<notin> cell z sz ` box sh"
    then show "m ! p = mem ! p" using m(2) l unfolding pointwise_def by metis
  qed
  then show ?thesis using h m(1) m'(1) m''(1) by blast
qed

text \<open>\<open>InvertedMetaOp\<close> is the pairwise pass followed by the pass over the result.\<close>

theorem inverted_meta_ops_fuse:
  assumes "runtime_ok rt" "room rt sh" "layout xi sh sx" "layout yi sh sy" "layout zi sh sz"
    and "separate (box sh) (cell z sz) (cell x sx) (cell y sy) mem"
    and "op_pair_extra A = Some f" "op_one_extra B = Some g"
  shows "\<exists>h m m'. op_pair_extra (InvertedMetaOp A B) = Some h
    \<and> pairwise_exec rt (\<lambda>d1 d2. f d1 d2 paramsA) x xi y yi z zi mem = Some m
    \<and> transform_exec rt None (\<lambda>d1. g d1 paramsB) z zi z zi m = Some m'
    \<and> pairwise_exec rt (\<lambda>d1 d2. h d1 d2 (paramsA, paramsB)) x xi y yi z zi mem = Some m'"
proof -
  let ?h = "\<lambda>d1 d2 params. let (paramsA, paramsB) = params in g (f d1 d2 paramsA) paramsB"
  have h: "op_pair_extra (InvertedMetaOp A B) = Some ?h" using assms(7,8) by (simp add: InvertedMetaOp_def)
  obtain m where m: "pairwise_exec rt (\<lambda>d1 d2. f d1 d2 paramsA) x xi y yi z zi mem = Some m"
    "pointwise (\<lambda>d1 d2. f d1 d2 paramsA) (box sh) (cell z sz) (cell x sx) (cell y sy) mem m"
    using pairwise_exec_exact [OF assms(1-6)] by blast
  have l: "length m = length mem" using m(2) by (simp add: pointwise_def)
  obtain m' where m': "transform_exec rt None (\<lambda>d1. g d1 paramsB) z zi z zi m = Some m'"
    "pointwise (\<lambda>a b. g a paramsB) (box sh) (cell z sz) (cell z sz) (cell z sz) m m'"
    using unary_exec_exact(2) [OF assms(1,2,5,5) separate_parts(2) [OF assms(6) l]] by blast
  obtain m'' where m'': "pairwise_exec rt (\<lambda>d1 d2. ?h d1 d2 (paramsA, paramsB)) x xi y yi z zi mem = Some m''"
    "pointwise (\<lambda>d1 d2. ?h d1 d2 (paramsA, paramsB)) (box sh) (cell z sz) (cell x sx) (cell y sy) mem m''"
    using pairwise_exec_exact [OF assms(1-6)] by blast
  have "m' = m''"
  proof (rule pointwise_determines [OF m'(2) m''(2) l])
    fix i assume "i \<in> box sh"
    then show "g (m ! nat (cell z sz i)) paramsB = ?h (mem ! nat (cell x sx i)) (mem ! nat (cell y sy i)) (paramsA, paramsB)"
      using m(2) by (simp add: pointwise_def)
  next
    fix p assume "p < length m" "int p \<notin> cell z sz ` box sh"
    then show "m ! p = mem ! p" using m(2) l unfolding pointwise_def by metis
  qed
  then show ?thesis using h m(1) m'(1) m''(1) by blast
qed

lemma reduce_meta_step: "reduce_step (ReduceMetaOp f r) mem p = reduce_step r (map f mem) p"
  by (auto simp: reduce_step_def ReduceMetaOp_def rd_def fun_eq_iff)

lemma reduce_meta_start: "rn_start r = Constant c \<Longrightarrow> starting (ReduceMetaOp f r) mem p = starting r (map f mem) p"
  by (simp add: starting_def ReduceMetaOp_def)

lemma reduce_meta_block:
  "rn_start r = Constant c \<Longrightarrow> reduce_block (ReduceMetaOp f r) x ews len info mem = reduce_block r x ews len info (map f mem)"
  by (simp add: fun_eq_iff reduce_block_def reduce_meta_step reduce_meta_start)

text \<open>A reduction of \<open>f\<close> of the elements is the reduction of the transformed memory, when it starts
  with a constant.\<close>

theorem reduce_meta_op:
  assumes "rn_start r = Constant c"
  shows "reduce_scalar rt (ReduceMetaOp f r) x xi mem = reduce_scalar rt r x xi (map f mem)"
proof -
  have post: "rn_post (ReduceMetaOp f r) = rn_post r" "rn_update (ReduceMetaOp f r) = rn_update r" by (simp_all add: ReduceMetaOp_def)
  show ?thesis
    by (simp add: reduce_scalar_def reduce_strided_def reduce_meta_step reduce_meta_start [OF assms] reduce_meta_block [OF assms] post cong: if_cong)
qed


text \<open>
  A reduction that starts with the first element starts with that element as it is, before the
  operation \<open>f\<close>: the greatest of the negated elements of \<open>[5, 1]\<close> comes out as 5.
\<close>

lemma reduce_meta_first_raw:
  "reduce_scalar sample_runtime (ReduceMetaOp uminus Max_reduction) 0 (mk_info [1, 2] [1, 1] 0 1 99) [5, 1 :: rat] = Some 5"
  "reduce_scalar sample_runtime Max_reduction 0 (mk_info [1, 2] [1, 1] 0 1 99) (map uminus [5, 1 :: rat]) = Some (- 1)"
  by code_simp+

theorem reduce_meta_op_witness:
  "reduce_scalar sample_runtime (ReduceMetaOp uminus Sum_reduction) 0 (mk_info [2, 2] [2, 1] 0 1 99) [1, 2, 3, 4 :: rat]
    = reduce_scalar sample_runtime Sum_reduction 0 (mk_info [2, 2] [2, 1] 0 1 99) [- 1, - 2, - 3, - 4]"
  using reduce_meta_op [of Sum_reduction 0 sample_runtime uminus 0 "mk_info [2, 2] [2, 1] 0 1 99" "[1, 2, 3, 4]"]
  by (simp add: Sum_reduction_def)

theorem meta_ops_fuse_witness:
  "\<exists>h m'. op_pair_extra (MetaOp Neg_class Add_class) = Some h
    \<and> pairwise_exec sample_runtime (\<lambda>d1 d2. h d1 d2 ((\<lambda>_. 0), (\<lambda>_. 0))) 0 (mk_info [2, 2] [2, 1] 0 1 99) 4 (mk_info [2, 2] [1, 2] 0 1 102)
        0 (mk_info [2, 2] [2, 1] 0 1 99) [1, 2, 3, 4, 10, 20, 30, 40 :: rat] = Some m'"
proof -
  have s: "separate (box [2, 2]) (cell 0 [2, 1]) (cell 0 [2, 1]) (cell 4 [1, 2]) [1, 2, 3, 4, 10, 20, 30, 40 :: rat]"
    by (simp add: separate_def sample_box)
  have d: "\<forall>i \<in> box [2, 2]. cell 0 [2, 1] i \<noteq> cell 4 [1, 2] i" by (simp add: sample_box)
  have f: "op_one_extra (Neg_class :: rat simple_class) = Some (\<lambda>d1 params. - d1)"
    "op_pair_extra (Add_class :: rat simple_class) = Some (\<lambda>d1 d2 params. d1 + d2)"
    by (simp_all add: Neg_class_def Add_class_def)
  show ?thesis
    using meta_ops_fuse [OF sample_runtime_ok sample_layouts(1,2,1) s d f, of "\<lambda>_. 0" "\<lambda>_. 0"] by blast
qed

theorem inverted_meta_ops_fuse_witness:
  "\<exists>h m'. op_pair_extra (InvertedMetaOp Add_class Neg_class) = Some h
    \<and> pairwise_exec sample_runtime (\<lambda>d1 d2. h d1 d2 ((\<lambda>_. 0), (\<lambda>_. 0))) 0 (mk_info [2, 2] [2, 1] 0 1 99) 4 (mk_info [2, 2] [1, 2] 0 1 102)
        0 (mk_info [2, 2] [2, 1] 0 1 99) [1, 2, 3, 4, 10, 20, 30, 40 :: rat] = Some m'"
proof -
  have s: "separate (box [2, 2]) (cell 0 [2, 1]) (cell 0 [2, 1]) (cell 4 [1, 2]) [1, 2, 3, 4, 10, 20, 30, 40 :: rat]"
    by (simp add: separate_def sample_box)
  have f: "op_pair_extra (Add_class :: rat simple_class) = Some (\<lambda>d1 d2 params. d1 + d2)"
    "op_one_extra (Neg_class :: rat simple_class) = Some (\<lambda>d1 params. - d1)"
    by (simp_all add: Neg_class_def Add_class_def)
  show ?thesis
    using inverted_meta_ops_fuse [OF sample_runtime_ok sample_layouts(1,2,1) s f, of "\<lambda>_. 0" "\<lambda>_. 0"] by blast
qed

theorem conditional_replacement_witness:
  "\<exists>f. op_pair_extra (CompareAndReplace_class (\<lambda>_. False) (\<lambda>_. False)) = Some f
    \<and> f 7 1 \<lparr>mc_compare = 5, mc_eps = 0, mc_mode = 3, mc_set = 0\<rparr> = (1 :: rat)"
proof -
  let ?c = "\<lparr>mc_compare = 5, mc_eps = 0, mc_mode = 3, mc_set = 0 :: rat\<rparr>"
  have "matched (\<lambda>_. False) (\<lambda>_. False) ?c 7" using matched_simps(4) [of ?c "\<lambda>_. False" "\<lambda>_. False" 7] by simp
  then show ?thesis
    using conditional_replacement [of ?c "\<lambda>_. False" "\<lambda>_. False" "\<lambda>_. False" "\<lambda>_. False"] by force
qed

end
