(* ===== verification/RandomBuffers.thy ===== *)
theory RandomBuffers
  imports Complex_Main ShapeIndex WordFacts
begin

text \<open>
  The random numbers of \<open>include/helpers/helper_generator.h\<close>: the generator \<open>Xoroshiro128\<close>, which fills
  a buffer of 64-bit numbers, and the buffer with its cursor, from which numbers are drawn in order or
  at a position relative to the cursor.  \<open>Nd4jIndex\<close> is a signed 64-bit integer with checked
  arithmetic, \<open>uint64_t\<close> a word.
\<close>

unbundle bit_operations_syntax

subsection \<open>Mixing functions\<close>

definition MAX_UINT :: "64 word" where
  "MAX_UINT = 18446744073709551615"

definition rotl :: "64 word \<Rightarrow> nat \<Rightarrow> 64 word" where
  "rotl x k = push_bit k x OR drop_bit (64 - k) x"

definition safeShift :: "64 word \<Rightarrow> 64 word \<Rightarrow> 64 word" where
  "safeShift x y = (if y \<noteq> 0 \<and> x > MAX_UINT div y then x div y + 11 else x * y + 11)"

definition seedConv :: "64 word \<Rightarrow> 64 word" where
  "seedConv seed = (let x = seed + 0x9E3779B97F4A7C15; z = x;
     z = (z XOR drop_bit 30 z) * 0xBF58476D1CE4E5B9;
     z = (z XOR drop_bit 27 z) * 0x94D049BB133111EB
   in z XOR drop_bit 31 z)"

definition mix64 :: "64 word \<Rightarrow> 64 word" where
  "mix64 shiftedSeed = (let s0 = shiftedSeed; s1 = shiftedSeed mod 2147483647 + 11;
     s1 = s1 XOR s0; r0 = rotl s0 55 XOR s1 XOR push_bit 14 s1; r1 = rotl s1 36
   in r0 + r1)"

subsection \<open>The generator\<close>

type_synonym xoroshiro = "64 word \<times> 64 word"

definition next64 :: "xoroshiro \<Rightarrow> 64 word \<times> xoroshiro" where
  "next64 state = (let (s0, s1) = state; result = s0 + s1; s1 = s1 XOR s0
     in (result, rotl s0 55 XOR s1 XOR push_bit 14 s1, rotl s1 36))"

definition jump_bit :: "64 word \<Rightarrow> nat \<Rightarrow> xoroshiro \<times> xoroshiro \<Rightarrow> xoroshiro \<times> xoroshiro" where
  "jump_bit word b = (\<lambda>((s0, s1), state).
     let acc = (if word AND push_bit b 1 \<noteq> 0 then (s0 XOR fst state, s1 XOR snd state) else (s0, s1))
     in (acc, snd (next64 state)))"

definition jump :: "xoroshiro \<Rightarrow> xoroshiro" where
  "jump state = fst (fold (\<lambda>word. fold (jump_bit word) [0..<64]) [0xbeac0467eba5facb, 0xd86b048b86aa9922] ((0, 0), state))"

text \<open>\<open>refreshBuffer\<close> fills the first \<open>limit\<close> cells.\<close>

definition refresh_step :: "nat \<Rightarrow> 64 word list \<times> xoroshiro \<Rightarrow> (64 word list \<times> xoroshiro) option" where
  "refresh_step i = (\<lambda>(buffer, state). let (r, state) = next64 state in do {
     buffer \<leftarrow> wr buffer (int i) r; Some (buffer, state) })"

definition refreshBuffer :: "int \<Rightarrow> int \<Rightarrow> 64 word list \<Rightarrow> (64 word list \<times> xoroshiro) option" where
  "refreshBuffer limit seed buffer = do {
     let state0 = seedConv (of_int seed);
     p \<leftarrow> i64 (seed * 119);
     q \<leftarrow> i64 (p + 3);
     let state1 = seedConv (of_int q);
     for_up 0 (nat limit) refresh_step (buffer, (state0, state1)) }"

subsection \<open>The buffer\<close>

record random_buffer =
  rb_size :: int
  rb_buffer :: "64 word list"
  rb_seed :: int
  rb_generation :: int
  rb_currentPosition :: int
  rb_amplifier :: int

definition RandomBuffer_new :: "int \<Rightarrow> int \<Rightarrow> 64 word list \<Rightarrow> random_buffer" where
  "RandomBuffer_new seed size' buffer = \<lparr>rb_size = size', rb_buffer = buffer, rb_seed = seed, rb_generation = 1,
     rb_currentPosition = 0, rb_amplifier = seed\<rparr>"

definition setSeed :: "int \<Rightarrow> random_buffer \<Rightarrow> random_buffer" where
  "setSeed seed rb = rb\<lparr>rb_seed := seed, rb_amplifier := seed\<rparr>"

definition getAllocatedSize :: "random_buffer \<Rightarrow> int option" where
  "getAllocatedSize rb = Some ((rb_size rb * 8 + 2 ^ 63) mod 2 ^ 64 - 2 ^ 63)"

definition setOffset :: "int \<Rightarrow> random_buffer \<Rightarrow> random_buffer" where
  "setOffset offset rb = rb\<lparr>rb_currentPosition := offset\<rparr>"

definition reSeed :: "int \<Rightarrow> random_buffer \<Rightarrow> random_buffer" where
  "reSeed amplifier rb = rb\<lparr>rb_amplifier := amplifier\<rparr>"

definition incrementGeneration :: "random_buffer \<Rightarrow> random_buffer option" where
  "incrementGeneration rb = do { g \<leftarrow> i64 (rb_generation rb + 1); Some (rb\<lparr>rb_generation := g\<rparr>) }"

definition getElement :: "random_buffer \<Rightarrow> int \<Rightarrow> 64 word option" where
  "getElement rb position = do {
     actualPosition \<leftarrow> i64 (rb_currentPosition rb + position);
     (tempGen, actualPosition) \<leftarrow> (if actualPosition \<ge> rb_size rb then do {
         q \<leftarrow> cdiv actualPosition (rb_size rb); g \<leftarrow> i64 (rb_generation rb + q);
         r \<leftarrow> cmod actualPosition (rb_size rb); Some (g, r) }
       else Some (rb_generation rb, actualPosition));
     ret \<leftarrow> rd (rb_buffer rb) actualPosition;
     let ret = (if tempGen \<noteq> rb_generation rb then safeShift ret (of_int tempGen) else ret);
     let ret = (if rb_generation rb > 1 then safeShift ret (of_int (rb_generation rb)) else ret);
     let ret = (if rb_amplifier rb \<noteq> rb_seed rb then safeShift ret (of_int (rb_amplifier rb)) else ret);
     Some (if rb_amplifier rb \<noteq> rb_seed rb \<or> rb_generation rb > 1 \<or> tempGen \<noteq> rb_generation rb
       then mix64 (seedConv ret) else ret) }"

definition getNextIndex :: "random_buffer \<Rightarrow> (int \<times> random_buffer) option" where
  "getNextIndex rb = do {
     p \<leftarrow> i64 (rb_currentPosition rb + 1);
     let rb = rb\<lparr>rb_currentPosition := p\<rparr>;
     rb \<leftarrow> (if p \<ge> rb_size rb then incrementGeneration (rb\<lparr>rb_currentPosition := 0\<rparr>) else Some rb);
     Some (rb_currentPosition rb, rb) }"

text \<open>
  The product of \<open>getNextElement\<close> reads the generation before or after the call that may increment
  it: the language leaves the order open, \<open>early\<close> chooses.
\<close>

definition getNextElement :: "bool \<Rightarrow> random_buffer \<Rightarrow> (64 word \<times> random_buffer) option" where
  "getNextElement early rb = do {
     (i, rb') \<leftarrow> getNextIndex rb;
     v \<leftarrow> rd (rb_buffer rb') i;
     Some (if rb_generation rb = 1 then v else v * of_int (rb_generation (if early then rb else rb')), rb') }"

definition rewindH :: "int \<Rightarrow> random_buffer \<Rightarrow> random_buffer option" where
  "rewindH numberOfElements rb = do {
     newPos \<leftarrow> i64 (rb_currentPosition rb + numberOfElements);
     if newPos > rb_size rb then do {
       q \<leftarrow> cdiv newPos (rb_size rb); g \<leftarrow> i64 (rb_generation rb + q); r \<leftarrow> cmod newPos (rb_size rb);
       Some (setOffset r (rb\<lparr>rb_generation := g\<rparr>)) }
     else if newPos = rb_size rb then do { rb \<leftarrow> incrementGeneration rb; Some (setOffset 0 rb) }
     else Some (setOffset newPos rb) }"

subsection \<open>Numbers in a range\<close>

definition nextUInt :: "bool \<Rightarrow> random_buffer \<Rightarrow> (64 word \<times> random_buffer) option" where
  "nextUInt early rb = getNextElement early rb"

definition nextInt :: "bool \<Rightarrow> random_buffer \<Rightarrow> (int \<times> random_buffer) option" where
  "nextInt early rb = do {
     (w, rb) \<leftarrow> nextUInt early rb;
     let r = to_int32 (uint w);
     r \<leftarrow> (if r < 0 then i32 (- 1 * r) else Some r);
     Some (r, rb) }"

text \<open>The loop that rejects numbers above the last multiple of \<open>to\<close>.\<close>

partial_function (option) reject_loop :: "bool \<Rightarrow> int \<Rightarrow> int \<Rightarrow> int \<Rightarrow> random_buffer \<Rightarrow> (int \<times> random_buffer) option" where
  "reject_loop early to m u rb = do {
     r \<leftarrow> cmod u to;
     a \<leftarrow> i32 (u - r);
     b \<leftarrow> i32 (a + m);
     if b < 0 then do { (u, rb) \<leftarrow> nextInt early rb; reject_loop early to m u rb }
     else Some (r, rb) }"

definition nextInt_to :: "bool \<Rightarrow> int \<Rightarrow> random_buffer \<Rightarrow> (int \<times> random_buffer) option" where
  "nextInt_to early to rb = do {
     (r, rb) \<leftarrow> nextInt early rb;
     m \<leftarrow> i32 (to - 1);
     if to AND m = 0 then do { p \<leftarrow> i64 (to * r); Some (to_int32 (drop_bit 31 p), rb) }
     else reject_loop early to m r rb }"

definition nextInt_range :: "bool \<Rightarrow> int \<Rightarrow> int \<Rightarrow> random_buffer \<Rightarrow> (int \<times> random_buffer) option" where
  "nextInt_range early from to rb =
     (if from = 0 then nextInt_to early to rb
      else do { d \<leftarrow> i32 (to - from); (r, rb) \<leftarrow> nextInt_to early d rb; s \<leftarrow> i32 (from + r); Some (s, rb) })"

definition relativeUInt :: "random_buffer \<Rightarrow> int \<Rightarrow> 64 word option" where
  "relativeUInt rb index = getElement rb index"

definition relativeInt :: "random_buffer \<Rightarrow> int \<Rightarrow> int option" where
  "relativeInt rb index = do { w \<leftarrow> relativeUInt rb index; Some (to_int32 (uint (w mod 2147483648))) }"

definition relativeInt_to :: "random_buffer \<Rightarrow> int \<Rightarrow> int \<Rightarrow> int option" where
  "relativeInt_to rb index to = do { rel \<leftarrow> relativeInt rb index; cmod rel to }"

definition relativeInt_range :: "random_buffer \<Rightarrow> int \<Rightarrow> int \<Rightarrow> int \<Rightarrow> int option" where
  "relativeInt_range rb index from to =
     (if from = 0 then relativeInt_to rb index to
      else do { d \<leftarrow> i32 (to - from); r \<leftarrow> relativeInt_to rb index d; i32 (from + r) })"

text \<open>Numbers of type \<open>T\<close>, an ordered field.\<close>

definition unit_share :: "64 word \<Rightarrow> 'a :: linordered_field" where
  "unit_share w = of_nat (unat w) / of_nat (unat MAX_UINT)"

definition nextMaxT :: "bool \<Rightarrow> random_buffer \<Rightarrow> ('a :: linordered_field \<times> random_buffer) option" where
  "nextMaxT early rb = do { (w, rb) \<leftarrow> getNextElement early rb; let rnd = of_nat (unat w); Some (if rnd < 0 then - 1 * rnd else rnd, rb) }"

definition nextT :: "bool \<Rightarrow> random_buffer \<Rightarrow> ('a :: linordered_field \<times> random_buffer) option" where
  "nextT early rb = do { (w, rb) \<leftarrow> nextUInt early rb; Some (unit_share w, rb) }"

definition nextT_range :: "bool \<Rightarrow> 'a :: linordered_field \<Rightarrow> 'a \<Rightarrow> random_buffer \<Rightarrow> ('a \<times> random_buffer) option" where
  "nextT_range early from to rb = do { (v, rb) \<leftarrow> nextT early rb; Some (from + v * (to - from), rb) }"

definition nextT_to :: "bool \<Rightarrow> 'a :: linordered_field \<Rightarrow> random_buffer \<Rightarrow> ('a \<times> random_buffer) option" where
  "nextT_to early to rb = (if to = 1 then nextT early rb else nextT_range early 0 to rb)"

text \<open>
  For types of fewer than 4 bytes \<open>relativeT\<close> computes the quotient with \<open>float\<close> numbers and converts it:
  \<open>size_T\<close> is \<open>sizeof(T)\<close>, \<open>conv\<close> the conversion of a \<open>float\<close> to \<open>T\<close>.
\<close>

definition relativeT ::
  "int \<Rightarrow> ('f :: linordered_field \<Rightarrow> 'a) \<Rightarrow> random_buffer \<Rightarrow> int \<Rightarrow> 'a :: linordered_field option" where
  "relativeT size_T conv rb index = do {
     w \<leftarrow> relativeUInt rb index;
     if size_T < 4 then Some (conv (unit_share w)) else Some (unit_share w) }"

definition relativeT_range ::
  "int \<Rightarrow> ('f :: linordered_field \<Rightarrow> 'a) \<Rightarrow> random_buffer \<Rightarrow> int \<Rightarrow> 'a :: linordered_field \<Rightarrow> 'a \<Rightarrow> 'a option" where
  "relativeT_range size_T conv rb index from to = do {
     v \<leftarrow> relativeT size_T conv rb index; Some (from + v * (to - from)) }"

definition relativeT_to ::
  "int \<Rightarrow> ('f :: linordered_field \<Rightarrow> 'a) \<Rightarrow> random_buffer \<Rightarrow> int \<Rightarrow> 'a :: linordered_field \<Rightarrow> 'a option" where
  "relativeT_to size_T conv rb index to =
     (if to = 1 then relativeT size_T conv rb index else relativeT_range size_T conv rb index 0 to)"

subsection \<open>Mixing loses nothing\<close>

lemma xor_move:
  fixes x y a b :: "'a :: len word"
  assumes "x XOR a = y XOR b" shows "a XOR b = x XOR y"
proof (rule bit_word_eqI)
  fix n
  have "bit (x XOR a) n \<longleftrightarrow> bit (y XOR b) n" using assms by simp
  then show "bit (a XOR b) n \<longleftrightarrow> bit (x XOR y) n" by (auto simp: bit_xor_iff)
qed

lemma xor_zero: "x XOR y = 0 \<Longrightarrow> x = (y :: 'a :: len word)"
  using xor_move [of x y 0 0] by simp

lemma xor_shift_inj:
  fixes x y :: "64 word"
  assumes "x XOR drop_bit k x = y XOR drop_bit k y" "0 < k" shows "x = y"
proof -
  let ?d = "x XOR y"
  have "drop_bit k ?d = ?d" unfolding drop_bit_xor by (rule xor_move [OF assms(1)])
  then have "unat ?d div 2 ^ k = unat ?d" using unat_drop [of k ?d] by simp
  moreover have "(1 :: nat) < 2 ^ k" using assms(2) by (intro one_less_power) simp_all
  ultimately have "\<not> 0 < unat ?d" using div_less_dividend [of "2 ^ k" "unat ?d"] by linarith
  then have "unat ?d = 0" by blast
  then have "?d = 0" by (simp add: unat_eq_0)
  then show ?thesis by (rule xor_zero)
qed

lemma times_inj:
  fixes x y c d :: "64 word"
  assumes "x * c = y * c" "c * d = 1" shows "x = y"
proof -
  have "x = x * c * d" using assms(2) by (simp add: mult.assoc)
  also have "\<dots> = y * c * d" using assms(1) by simp
  finally show ?thesis using assms(2) by (simp add: mult.assoc)
qed

lemma seedConv_inj: "seedConv x = seedConv y \<Longrightarrow> x = y"
proof -
  assume "seedConv x = seedConv y"
  note step = xor_shift_inj [OF this [unfolded seedConv_def Let_def], simplified]
  note step = times_inj [OF step, of 3573116690164977347, simplified]
  note step = xor_shift_inj [OF step, simplified]
  note step = times_inj [OF step, of 10871156337175269513, simplified]
  from xor_shift_inj [OF step] show "x = y" by simp
qed

lemma rotl_bit: "k < 64 \<Longrightarrow> bit (rotl x k) n \<longleftrightarrow> n < 64 \<and> (if k \<le> n then bit x (n - k) else bit x (n + 64 - k))"
  by (auto simp: rotl_def bit_or_iff bit_push_bit_iff bit_drop_bit_eq add.commute dest: bit_imp_le_length)

lemma rotl_rotl: "0 < k \<Longrightarrow> k < 64 \<Longrightarrow> rotl (rotl x k) (64 - k) = x"
  by (rule bit_word_eqI) (auto simp: rotl_bit)

lemma rotl_inj: "rotl x k = rotl y k \<Longrightarrow> 0 < k \<Longrightarrow> k < 64 \<Longrightarrow> x = y"
  by (metis rotl_rotl)

lemma mix_inj: "rotl a 55 XOR u XOR v = rotl c 55 XOR u XOR v \<Longrightarrow> a = c"
proof -
  assume "rotl a 55 XOR u XOR v = rotl c 55 XOR u XOR v"
  then have "rotl a 55 XOR (u XOR v) = rotl c 55 XOR (u XOR v)" by (simp only: xor.assoc)
  from xor_move [OF this] have "rotl a 55 XOR rotl c 55 = 0" by (simp only: xor_self_eq)
  then have "rotl a 55 = rotl c 55" by (rule xor_zero)
  then show "a = c" by (rule rotl_inj) simp_all
qed

lemma next64_inj: "snd (next64 s) = snd (next64 t) \<Longrightarrow> s = t"
proof -
  obtain a b c d where st: "s = (a, b)" "t = (c, d)" by fastforce
  obtain u u' where u: "u = b XOR a" "u' = d XOR c" by blast
  have n: "snd (next64 s) = (rotl a 55 XOR u XOR push_bit 14 u, rotl u 36)"
    "snd (next64 t) = (rotl c 55 XOR u' XOR push_bit 14 u', rotl u' 36)"
    by (simp_all only: next64_def st u Let_def prod.case snd_conv)
  assume "snd (next64 s) = snd (next64 t)"
  then have e: "rotl a 55 XOR u XOR push_bit 14 u = rotl c 55 XOR u' XOR push_bit 14 u'" "rotl u 36 = rotl u' 36"
    unfolding n by blast+
  from e(2) have x: "u = u'" by (rule rotl_inj) simp_all
  from e(1) have a: "a = c" unfolding x by (rule mix_inj)
  from x have "b XOR a = d XOR a" unfolding u a .
  from xor_move [OF this] have "b XOR d = 0" by (simp only: xor_self_eq)
  then show "s = t" using a st xor_zero by blast
qed

lemma next64_zero: "snd (next64 (0, 0)) = (0, 0)"
  by (simp add: next64_def rotl_def)

end
