(* ===== verification/RandomProperties.thy ===== *)
theory RandomProperties
  imports RandomBuffers
begin

text \<open>
  The properties of the random numbers: the generator never gets stuck, skipping numbers is drawing
  them, access relative to the cursor agrees with access after moving it, and drawn numbers lie in
  the range asked for.
\<close>

unbundle bit_operations_syntax

subsection \<open>The generator\<close>

definition advance :: "xoroshiro \<Rightarrow> xoroshiro" where
  "advance state = snd (next64 state)"

definition outputs :: "nat \<Rightarrow> xoroshiro \<Rightarrow> 64 word list" where
  "outputs n state = map (\<lambda>i. fst (next64 ((advance ^^ i) state))) [0..<n]"

lemma outputs_Suc: "outputs (Suc n) state = fst (next64 state) # outputs n (advance state)"
proof (rule nth_equalityI)
  fix i assume "i < length (outputs (Suc n) state)"
  then show "outputs (Suc n) state ! i = (fst (next64 state) # outputs n (advance state)) ! i"
    by (cases i) (simp_all add: outputs_def funpow_swap1 del: upt_Suc)
qed (simp add: outputs_def)

lemma refresh_run:
  assumes "a + n \<le> length buffer"
  shows "for_up a n refresh_step (buffer, state)
    = Some (take a buffer @ outputs n state @ drop (a + n) buffer, (advance ^^ n) state)"
  using assms
proof (induction n arbitrary: a buffer state)
  case 0
  then show ?case by (simp add: outputs_def)
next
  case (Suc n)
  have "refresh_step a (buffer, state) = Some (buffer[a := fst (next64 state)], advance state)"
    using Suc.prems by (simp add: refresh_step_def advance_def case_prod_beta Let_def)
  moreover have "take (Suc a) (buffer[a := v]) = take a buffer @ [v]" for v
    using Suc.prems by (simp add: take_Suc_conv_app_nth)
  ultimately show ?case
    using Suc.IH [of "Suc a" "buffer[a := fst (next64 state)]" "advance state"] Suc.prems
    by (simp add: outputs_Suc funpow_swap1)
qed

lemma advance_inj: "inj advance"
  by (rule injI) (simp add: advance_def next64_inj)

lemma advance_nonzero: "state \<noteq> (0, 0) \<Longrightarrow> (advance ^^ k) state \<noteq> (0, 0)"
proof (induction k)
  case (Suc k)
  have "advance (0, 0) = (0, 0)" by (simp add: advance_def next64_zero)
  then have "advance ((advance ^^ k) state) \<noteq> (0, 0)" using Suc injD [OF advance_inj, of "(advance ^^ k) state" "(0, 0)"] by auto
  then show ?case by simp
qed simp

text \<open>No seed converts to 0 in both halves, since \<open>119 * seed + 3 = seed\<close> has no solution modulo \<open>2 ^ 64\<close>.\<close>

lemma seeds_differ: "(w :: 64 word) \<noteq> w * 119 + 3"
proof -
  have "even (w * 119 + 3) \<longleftrightarrow> odd w" by simp
  then show ?thesis by metis
qed

lemma start_nonzero: "(seedConv (of_int seed), seedConv (of_int (seed * 119 + 3))) \<noteq> (0, 0)"
proof
  assume "(seedConv (of_int seed), seedConv (of_int (seed * 119 + 3))) = (0, 0)"
  then have "seedConv (of_int seed) = seedConv (of_int (seed * 119 + 3))" by simp
  then have "of_int seed = (of_int (seed * 119 + 3) :: 64 word)" by (rule seedConv_inj)
  then show False using seeds_differ [of "of_int seed"] by simp
qed

text \<open>
  C31.  For every seed whose derived seed fits 64 bits, \<open>refreshBuffer\<close> fills the cells up to the limit
  with the numbers of the generator and leaves the others.  The state is never zero in both halves, where
  the generator would produce zeros for ever, and its sequence is a cycle back to the first state.
\<close>

theorem generator_never_stuck:
  assumes "- (2 ^ 63) \<le> seed * 119" "seed * 119 + 3 < 2 ^ 63" "0 \<le> limit" "limit \<le> int (length buffer)"
  shows "\<exists>start. refreshBuffer limit seed buffer
      = Some (outputs (nat limit) start @ drop (nat limit) buffer, (advance ^^ nat limit) start)
    \<and> (\<forall>k. (advance ^^ k) start \<noteq> (0, 0)) \<and> (\<exists>p > 0. (advance ^^ p) start = start)"
proof -
  let ?start = "(seedConv (of_int seed), seedConv (of_int (seed * 119 + 3)))"
  have "refreshBuffer limit seed buffer = for_up 0 (nat limit) refresh_step (buffer, ?start)"
    using assms(1,2) by (simp add: refreshBuffer_def i64_def Let_def)
  also have "\<dots> = Some (outputs (nat limit) ?start @ drop (nat limit) buffer, (advance ^^ nat limit) ?start)"
    using refresh_run [of 0 "nat limit" buffer ?start] assms(3,4) by simp
  finally have run: "refreshBuffer limit seed buffer = \<dots>" .
  have fin: "finite (UNIV :: xoroshiro set)" by simp
  from funpow_inj_finite [OF advance_inj, of ?start] obtain p where "0 < p" "(advance ^^ p) ?start = ?start"
    using finite_subset [OF subset_UNIV fin] by metis
  then show ?thesis using run advance_nonzero [OF start_nonzero] by blast
qed

theorem generator_never_stuck_witness:
  "\<exists>start. refreshBuffer 2 119 [0, 0, 7] = Some (outputs 2 start @ [7], (advance ^^ 2) start) \<and> (\<forall>k. (advance ^^ k) start \<noteq> (0, 0))"
  using generator_never_stuck [of 119 2 "[0, 0, 7]"] by auto

subsection \<open>The cursor\<close>

definition moved :: "int \<Rightarrow> random_buffer \<Rightarrow> random_buffer" where
  "moved k rb = rb\<lparr>rb_currentPosition := (rb_currentPosition rb + k) mod rb_size rb,
     rb_generation := rb_generation rb + (rb_currentPosition rb + k) div rb_size rb\<rparr>"

definition cursor_ok :: "random_buffer \<Rightarrow> bool" where
  "cursor_ok rb \<longleftrightarrow> 0 \<le> rb_currentPosition rb \<and> rb_currentPosition rb < rb_size rb \<and> rb_size rb \<le> int (length (rb_buffer rb))
     \<and> rb_size rb < 2 ^ 63 \<and> 1 \<le> rb_generation rb"

text \<open>Enough room in the counters for \<open>k\<close> more steps.\<close>

definition counts_fit :: "random_buffer \<Rightarrow> int \<Rightarrow> bool" where
  "counts_fit rb k \<longleftrightarrow> rb_currentPosition rb + k < 2 ^ 63 \<and> rb_generation rb + (rb_currentPosition rb + k) div rb_size rb < 2 ^ 63"

lemma div_split: "0 < s \<Longrightarrow> (a + b) div s = a div s + (a mod s + b) div (s :: int)"
proof -
  assume "0 < s"
  have "a + b = (a mod s + b) + s * (a div s)" using mult_div_mod_eq [of s a] by linarith
  then show ?thesis using \<open>0 < s\<close> by (metis add.commute div_mult_self2 less_irrefl)
qed

lemma moved_0: "cursor_ok rb \<Longrightarrow> moved 0 rb = rb"
  by (simp add: moved_def cursor_ok_def)

lemma moved_moved: "cursor_ok rb \<Longrightarrow> moved j (moved k rb) = moved (k + j) rb"
  using div_split [of "rb_size rb" "rb_currentPosition rb + k" j]
  by (simp add: moved_def cursor_ok_def mod_add_left_eq add.assoc)

lemma moved_ok: "cursor_ok rb \<Longrightarrow> 0 \<le> k \<Longrightarrow> cursor_ok (moved k rb)"
  using pos_imp_zdiv_nonneg_iff [of "rb_size rb" "rb_currentPosition rb + k"] by (auto simp: moved_def cursor_ok_def)

lemma moved_fits: "cursor_ok rb \<Longrightarrow> 0 \<le> k \<Longrightarrow> 0 \<le> j \<Longrightarrow> counts_fit rb (k + j) \<Longrightarrow> counts_fit (moved k rb) j"
  using div_split [of "rb_size rb" "rb_currentPosition rb + k" j] zmod_le_nonneg_dividend [of "rb_currentPosition rb + k" "rb_size rb"]
  by (simp add: moved_def counts_fit_def cursor_ok_def add.assoc)

lemma getNextIndex_exact:
  assumes "cursor_ok rb" "counts_fit rb 1"
  shows "getNextIndex rb = Some (rb_currentPosition (moved 1 rb), moved 1 rb)"
proof -
  let ?p = "rb_currentPosition rb" and ?s = "rb_size rb"
  consider "?p + 1 < ?s" | "?p + 1 = ?s" using assms(1) unfolding cursor_ok_def by linarith
  then show ?thesis
  proof cases
    case 1
    then show ?thesis using assms by (simp add: getNextIndex_def moved_def cursor_ok_def i64_def Let_def)
  next
    case 2
    then show ?thesis using assms
      by (simp add: getNextIndex_def moved_def cursor_ok_def counts_fit_def i64_def incrementGeneration_def Let_def)
  qed
qed

fun draw_indexes :: "nat \<Rightarrow> random_buffer \<Rightarrow> random_buffer option" where
  "draw_indexes 0 rb = Some rb"
| "draw_indexes (Suc n) rb = do { (i, rb) \<leftarrow> getNextIndex rb; draw_indexes n rb }"

lemma counts_fit_less: "cursor_ok rb \<Longrightarrow> counts_fit rb k \<Longrightarrow> j \<le> k \<Longrightarrow> counts_fit rb j"
proof -
  assume a: "cursor_ok rb" "counts_fit rb k" "j \<le> k"
  then have "(rb_currentPosition rb + j) div rb_size rb \<le> (rb_currentPosition rb + k) div rb_size rb"
    by (intro zdiv_mono1) (auto simp: cursor_ok_def)
  then show ?thesis using a by (simp add: counts_fit_def)
qed

lemma draw_indexes_exact: "cursor_ok rb \<Longrightarrow> counts_fit rb (int n) \<Longrightarrow> draw_indexes n rb = Some (moved (int n) rb)"
proof (induction n arbitrary: rb)
  case (Suc n)
  have "counts_fit rb 1" by (rule counts_fit_less [OF Suc.prems]) simp
  moreover have "counts_fit (moved 1 rb) (int n)" by (rule moved_fits) (use Suc.prems in \<open>simp_all add: add.commute\<close>)
  ultimately show ?case using Suc.IH [of "moved 1 rb"] Suc.prems moved_ok [of rb 1]
    by (simp add: getNextIndex_exact moved_moved)
qed (simp add: moved_0)

lemma rewindH_exact:
  assumes "cursor_ok rb" "counts_fit rb k" "0 \<le> k"
  shows "rewindH k rb = Some (moved k rb)"
proof -
  let ?p = "rb_currentPosition rb + k" and ?s = "rb_size rb"
  have p: "0 \<le> ?p" "0 < ?s" "?p < 2 ^ 63" "0 \<le> ?p div ?s" using assms by (auto simp: cursor_ok_def counts_fit_def pos_imp_zdiv_nonneg_iff)
  have i: "i64 ?p = Some ?p" using p by (simp add: i64_def)
  have g: "i64 (rb_generation rb + ?p div ?s) = Some (rb_generation rb + ?p div ?s)"
    using p assms by (simp add: i64_def cursor_ok_def counts_fit_def)
  consider "?p > ?s" | "?p = ?s" | "?p < ?s" by linarith
  then show ?thesis
  proof cases
    case 1
    then show ?thesis using p i g by (simp add: rewindH_def cdiv_pos cmod_pos setOffset_def moved_def)
  next
    case 2
    then have "?p div ?s = 1" "?p mod ?s = 0" using p by simp_all
    then show ?thesis using 2 p i g by (simp add: rewindH_def incrementGeneration_def setOffset_def moved_def)
  next
    case 3
    then show ?thesis using p i by (simp add: rewindH_def setOffset_def moved_def)
  qed
qed

text \<open>
  Moving the cursor by \<open>n\<close> is drawing \<open>n\<close> indexes: both leave the same state, which has counted \<open>n\<close>
  numbers in buffers of this size.
\<close>

theorem rewind_is_drawing:
  assumes "cursor_ok rb" "counts_fit rb (int n)"
  shows "\<exists>rb'. rewindH (int n) rb = Some rb' \<and> draw_indexes n rb = Some rb' \<and> cursor_ok rb'
    \<and> rb_size rb * rb_generation rb' + rb_currentPosition rb' = rb_size rb * rb_generation rb + rb_currentPosition rb + int n"
proof -
  have "rb_size rb * rb_generation (moved (int n) rb) + rb_currentPosition (moved (int n) rb)
      = rb_size rb * rb_generation rb + rb_currentPosition rb + int n"
    using mult_div_mod_eq [of "rb_size rb" "rb_currentPosition rb + int n"] by (simp add: moved_def distrib_left)
  then show ?thesis
    using rewindH_exact [OF assms] draw_indexes_exact [OF assms] moved_ok [OF assms(1), of "int n"] by simp
qed


theorem rewind_is_drawing_witness:
  "\<exists>rb'. rewindH 5 (RandomBuffer_new 7 3 [1, 2, 3]) = Some rb' \<and> draw_indexes 5 (RandomBuffer_new 7 3 [1, 2, 3]) = Some rb'"
proof -
  let ?rb = "RandomBuffer_new 7 3 [1, 2, 3]"
  have "cursor_ok ?rb" "counts_fit ?rb (int 5)" by (simp_all add: cursor_ok_def counts_fit_def RandomBuffer_new_def)
  from rewind_is_drawing [OF this] show ?thesis by auto
qed

text \<open>What a position relative to the cursor gives, before and after the cursor has moved.\<close>

lemma getElement_exact:
  assumes "cursor_ok rb" "counts_fit rb k" "0 \<le> k"
  shows "getElement rb k = (let raw = rb_buffer rb ! nat (rb_currentPosition (moved k rb)); g = rb_generation (moved k rb);
      v = (if g \<noteq> rb_generation rb then safeShift raw (of_int g) else raw);
      v = (if rb_generation rb > 1 then safeShift v (of_int (rb_generation rb)) else v);
      v = (if rb_amplifier rb \<noteq> rb_seed rb then safeShift v (of_int (rb_amplifier rb)) else v)
    in Some (if rb_amplifier rb \<noteq> rb_seed rb \<or> g > 1 then mix64 (seedConv v) else v))"
proof -
  let ?p = "rb_currentPosition rb + k" and ?s = "rb_size rb"
  have p: "0 \<le> ?p" "0 < ?s" "?p < 2 ^ 63" "0 \<le> ?p div ?s" "1 \<le> rb_generation rb" "?s \<le> int (length (rb_buffer rb))"
    using assms by (auto simp: cursor_ok_def counts_fit_def pos_imp_zdiv_nonneg_iff)
  have i: "i64 ?p = Some ?p" using p by (simp add: i64_def)
  have g: "i64 (rb_generation rb + ?p div ?s) = Some (rb_generation rb + ?p div ?s)"
    using p assms by (simp add: i64_def cursor_ok_def counts_fit_def)
  have "0 \<le> ?p mod ?s" "?p mod ?s < int (length (rb_buffer rb))"
    using p pos_mod_bound [of ?s ?p] pos_mod_sign [of ?s ?p] by linarith+
  then have r: "rd (rb_buffer rb) (?p mod ?s) = Some (rb_buffer rb ! nat (?p mod ?s))" by (rule rd_in_range)
  have wrap: "(if ?s \<le> ?p then do { q \<leftarrow> cdiv ?p ?s; g \<leftarrow> i64 (rb_generation rb + q); r \<leftarrow> cmod ?p ?s; Some (g, r) }
      else Some (rb_generation rb, ?p)) = Some (rb_generation rb + ?p div ?s, ?p mod ?s)"
    using p g by (simp add: cdiv_pos cmod_pos)
  have m: "rb_generation rb > 1 \<or> rb_generation rb + ?p div ?s \<noteq> rb_generation rb \<longleftrightarrow> rb_generation rb + ?p div ?s > 1"
    using p by linarith
  show ?thesis
    unfolding getElement_def i Option.bind.simps wrap prod.case r Let_def m by (simp add: moved_def)
qed

text \<open>
  C32.  Threads that read positions relative to the cursor see the numbers that are read after the cursor
  has moved: position \<open>k + i\<close> before \<open>rewindH(k)\<close> is position \<open>i\<close> after it, as long as the cursor stays in
  the buffer, or started in the first generation and the position is in the buffer the cursor moved to.
\<close>

theorem relative_access_after_rewind:
  assumes "cursor_ok rb" "counts_fit rb (k + i)" "0 \<le> k" "0 \<le> i"
    and "rb_generation rb = 1 \<and> rb_currentPosition (moved k rb) + i < rb_size rb \<or> rb_currentPosition rb + k < rb_size rb"
  shows "\<exists>rb' v. rewindH k rb = Some rb' \<and> getElement rb' i = Some v \<and> getElement rb (k + i) = Some v"
proof -
  note ok = moved_ok [OF assms(1,3)] and fit = moved_fits [OF assms(1,3,4,2)]
  have r: "rewindH k rb = Some (moved k rb)" by (rule rewindH_exact [OF assms(1) counts_fit_less [OF assms(1,2)] assms(3)]) (use assms(4) in simp)
  note rel = getElement_exact [OF ok fit assms(4)] moved_moved [OF assms(1), of i k]
  note dir = getElement_exact [OF assms(1,2)]
  have same: "rb_buffer (moved k rb) = rb_buffer rb" "rb_amplifier (moved k rb) = rb_amplifier rb" "rb_seed (moved k rb) = rb_seed rb"
    by (simp_all add: moved_def)
  have "rb_generation (moved k rb) = rb_generation rb \<or> rb_generation rb = 1 \<and> rb_generation (moved (k + i) rb) = rb_generation (moved k rb)"
    using assms(5)
  proof
    assume "rb_currentPosition rb + k < rb_size rb"
    then show ?thesis using assms(1,3) by (simp add: moved_def cursor_ok_def)
  next
    assume a: "rb_generation rb = 1 \<and> rb_currentPosition (moved k rb) + i < rb_size rb"
    have "rb_generation (moved i (moved k rb)) = rb_generation (moved k rb)"
      unfolding moved_def [of i] using a ok assms(4) by (simp add: cursor_ok_def moved_def)
    then show ?thesis using a rel(2) by simp
  qed
  moreover have "1 \<le> rb_generation (moved k rb)" using ok by (simp add: cursor_ok_def)
  ultimately have "getElement (moved k rb) i = getElement rb (k + i)"
    using dir assms(3,4) unfolding rel same by (auto simp: Let_def)
  moreover obtain v where "getElement rb (k + i) = Some v" using dir assms(3,4) by (simp add: Let_def)
  ultimately show ?thesis using r by auto
qed


theorem relative_access_after_rewind_witness:
  "\<exists>rb' v. rewindH 4 (RandomBuffer_new 7 3 [1, 2, 3]) = Some rb' \<and> getElement rb' 1 = Some v
    \<and> getElement (RandomBuffer_new 7 3 [1, 2, 3]) 5 = Some v"
proof -
  let ?rb = "RandomBuffer_new 7 3 [1, 2, 3]"
  have "cursor_ok ?rb" "counts_fit ?rb (4 + 1)" "rb_generation ?rb = 1 \<and> rb_currentPosition (moved 4 ?rb) + 1 < rb_size ?rb"
    by (simp_all add: cursor_ok_def counts_fit_def RandomBuffer_new_def moved_def)
  with relative_access_after_rewind [of ?rb 4 1] show ?thesis by simp
qed

text \<open>From the second generation on, a number behind the end of the buffer is shifted twice, after the cursor has moved there once.\<close>

lemma second_generation_differs:
  "getElement (RandomBuffer_new 7 3 [1, 2, 3]\<lparr>rb_generation := 2\<rparr>) 4
    \<noteq> Option.bind (rewindH 4 (RandomBuffer_new 7 3 [1, 2, 3]\<lparr>rb_generation := 2\<rparr>)) (\<lambda>rb. getElement rb 0)"
  by code_simp

subsection \<open>Ranges\<close>

lemma unit_share_range: "0 \<le> (unit_share w :: 'a) \<and> unit_share w \<le> (1 :: 'a :: linordered_field)"
proof -
  have "unat w < 2 ^ LENGTH(64)" by (rule unsigned_less)
  then have "unat w \<le> unat MAX_UINT" by (simp add: MAX_UINT_def)
  then have le: "(of_nat (unat w) :: 'a) \<le> of_nat (unat MAX_UINT)" by (rule of_nat_mono)
  have "0 < unat MAX_UINT" by (simp add: MAX_UINT_def)
  then have pos: "(0 :: 'a) < of_nat (unat MAX_UINT)" by (simp only: of_nat_0_less_iff)
  show ?thesis unfolding unit_share_def
    using divide_nonneg_pos [OF of_nat_0_le_iff pos] iffD2 [OF divide_le_eq_1_pos [OF pos] le] by blast
qed

lemma between: "0 \<le> v \<Longrightarrow> v \<le> 1 \<Longrightarrow> a \<le> b \<Longrightarrow> a \<le> a + v * (b - a) \<and> a + v * (b - a) \<le> (b :: 'a :: linordered_field)"
  using mult_right_mono [of v 1 "b - a"] by simp

lemma getElement_total: "cursor_ok rb \<Longrightarrow> counts_fit rb k \<Longrightarrow> 0 \<le> k \<Longrightarrow> \<exists>w. getElement rb k = Some w"
  using getElement_exact [of rb k] by (simp add: Let_def)

lemma getNextElement_total: "cursor_ok rb \<Longrightarrow> counts_fit rb 1 \<Longrightarrow> \<exists>w. getNextElement early rb = Some (w, moved 1 rb)"
proof -
  assume a: "cursor_ok rb" "counts_fit rb 1"
  have "cursor_ok (moved 1 rb)" by (rule moved_ok [OF a(1)]) simp
  then have "0 \<le> rb_currentPosition (moved 1 rb)" "rb_currentPosition (moved 1 rb) < int (length (rb_buffer (moved 1 rb)))"
    by (auto simp: cursor_ok_def)
  from rd_in_range [OF this] show ?thesis by (simp add: getNextElement_def getNextIndex_exact [OF a])
qed

lemma relativeInt_range_exact:
  assumes "cursor_ok rb" "counts_fit rb k" "0 \<le> k" "from < to" "- (2 ^ 31) \<le> from" "to < 2 ^ 31" "to - from < 2 ^ 31"
  shows "\<exists>v. relativeInt_range rb k from to = Some v \<and> from \<le> v \<and> v < to"
proof -
  obtain w where w: "getElement rb k = Some w" using getElement_total [OF assms(1-3)] by blast
  have "uint (w mod 2147483648) = uint w mod 2147483648" by (simp add: uint_mod)
  then have rel: "relativeInt rb k = Some (uint w mod 2147483648)"
    using w pos_mod_bound [of 2147483648 "uint w"] pos_mod_sign [of 2147483648 "uint w"]
    by (simp add: relativeInt_def relativeUInt_def)
  have to: "relativeInt_to rb k d = Some (uint w mod 2147483648 mod d)" if "0 < d" for d
    using that by (simp add: relativeInt_to_def rel cmod_pos)
  show ?thesis
  proof (cases "from = 0")
    case True
    then show ?thesis using to [of to] assms(4) by (simp add: relativeInt_range_def)
  next
    case False
    let ?r = "uint w mod 2147483648 mod (to - from)"
    have r: "0 \<le> ?r" "?r < to - from" using assms(4) by simp_all
    have "relativeInt_range rb k from to = Some (from + ?r)"
      using False to [of "to - from"] assms(4-7) r by (simp add: relativeInt_range_def i32_def)
    then show ?thesis using r by simp
  qed
qed

lemma nextInt_range_0:
  assumes "nextInt early rb = Some (u, rb')" shows "0 \<le> u" "u < 2 ^ 31"
proof -
  obtain w rb1 where w: "nextUInt early rb = Some (w, rb1)" using assms by (cases "nextUInt early rb") (auto simp: nextInt_def)
  have b: "- (2 ^ 31) \<le> to_int32 (uint w)" "to_int32 (uint w) < 2 ^ 31"
    unfolding to_int32_def using pos_mod_bound [of "2 ^ 32" "uint w + 2 ^ 31"] pos_mod_sign [of "2 ^ 32" "uint w + 2 ^ 31"] by simp_all
  show "0 \<le> u" "u < 2 ^ 31" using assms w b by (auto simp: nextInt_def Let_def i32_def split: if_splits)
qed

lemma nextInt_to_exact:
  assumes "nextInt early rb = Some (u, rb')" "0 < to" "to < 2 ^ 31"
  shows "nextInt_to early to rb = (if to AND (to - 1) = 0 then Some (to * u div 2 ^ 31, rb')
    else if u - u mod to + (to - 1) < 2 ^ 31 then Some (u mod to, rb') else None)"
proof -
  note u = nextInt_range_0 [OF assms(1)]
  have m: "i32 (to - 1) = Some (to - 1)" using assms(2,3) by (simp add: i32_def)
  have p: "0 \<le> to * u" using u assms(2) by simp
  have "to * u \<le> to * 2 ^ 31" using u assms(2) by (intro mult_left_mono) simp_all
  then have "to * u < 2 ^ 63" using assms(3) by simp
  then have i: "i64 (to * u) = Some (to * u)" using p by (simp add: i64_def)
  have "to * u div 2 ^ 31 \<le> to * 2 ^ 31 div 2 ^ 31" using \<open>to * u \<le> to * 2 ^ 31\<close> by (intro zdiv_mono1) simp_all
  moreover have "0 \<le> to * u div 2 ^ 31" using p by (simp add: pos_imp_zdiv_nonneg_iff)
  ultimately have d: "to_int32 (drop_bit 31 (to * u)) = to * u div 2 ^ 31" using assms(3) by (simp add: drop_bit_eq_div)
  have r: "0 \<le> u mod to" "u mod to \<le> u" using u assms(2) by (simp_all add: zmod_le_nonneg_dividend)
  have loop: "reject_loop early to (to - 1) u rb' = (if u - u mod to + (to - 1) < 2 ^ 31 then Some (u mod to, rb') else None)"
  proof -
    have c: "CPrelude.cmod u to = Some (u mod to)" by (rule cmod_pos) (use u assms(2) in simp_all)
    have a: "i32 (u - u mod to) = Some (u - u mod to)" using u r by (simp add: i32_def)
    have b: "i32 (u - u mod to + (to - 1)) = (if u - u mod to + (to - 1) < 2 ^ 31 then Some (u - u mod to + (to - 1)) else None)"
      using u r assms(2) by (simp add: i32_def)
    have n: "\<not> u - u mod to + (to - 1) < 0" using u r assms(2) by simp
    show ?thesis
      by (subst reject_loop.simps, cases "u - u mod to + (to - 1) < 2 ^ 31")
        (simp_all only: c a b n Option.bind.simps if_True if_False)
  qed
  show ?thesis by (simp add: nextInt_to_def assms(1) m i d loop)
qed


text \<open>
  The methods for integers never return the upper end of the range, which their documentation
  includes: an integer drawn in order below \<open>n\<close>, if the call has a result, is one of \<open>0\<close> to \<open>n - 1\<close>, and an
  integer relative to the cursor is one of \<open>from\<close> to \<open>to - 1\<close> (lemma \<open>relativeInt_range_exact\<close>).
\<close>

lemma nextInt_below:
  assumes "0 < n" "n < 2 ^ 31" "nextInt_to early n rb = Some (v, rb')"
  shows "0 \<le> v \<and> v < n"
proof -
  obtain u rb1 where u: "nextInt early rb = Some (u, rb1)" using assms(3) by (cases "nextInt early rb") (auto simp: nextInt_to_def)
  have "n * u < n * 2 ^ 31" using nextInt_range_0 [OF u] assms(1) by (intro mult_strict_left_mono) simp_all
  then have "n * u div 2147483648 < n"
    using mult_div_mod_eq [of 2147483648 "n * u"] pos_mod_sign [of 2147483648 "n * u"] unfolding power_numeral by simp
  then have "n * u div 2 ^ 31 < n" by simp
  moreover have "0 \<le> n * u div 2 ^ 31" using nextInt_range_0 [OF u] assms(1) by (simp add: pos_imp_zdiv_nonneg_iff)
  ultimately show ?thesis using nextInt_to_exact [OF u assms(1,2)] assms(1,3) by (auto split: if_splits)
qed

text \<open>
  C33.  Drawn numbers lie in the closed range that the documentation gives: integers and real numbers
  between two bounds, at any index relative to the cursor, and real numbers drawn in order.  These calls
  return for every buffer whose cursor is inside it.  An integer drawn in order for the bound \<open>n\<close>, if the
  call has a result, is one of \<open>0\<close> to \<open>n\<close>.  The documentation includes the upper end for the integers, and
  the code never returns it (lemmas \<open>relativeInt_range_exact\<close> and \<open>nextInt_below\<close>).  For types of fewer
  than 4 bytes the conversion of a \<open>float\<close> between 0 and 1 is assumed to stay between 0 and 1.
\<close>

theorem drawn_numbers_in_range:
  fixes low high :: "'a :: linordered_field" and conv :: "'f :: linordered_field \<Rightarrow> 'a"
  assumes "cursor_ok rb" "counts_fit rb k" "0 \<le> k" "counts_fit rb 1" "low \<le> high"
    and "from < to" "- (2 ^ 31) \<le> from" "to < 2 ^ 31" "to - from < 2 ^ 31"
    and "\<And>f. 0 \<le> f \<Longrightarrow> f \<le> 1 \<Longrightarrow> 0 \<le> conv f \<and> conv f \<le> 1"
  shows "(\<exists>v. relativeInt_range rb k from to = Some v \<and> from \<le> v \<and> v \<le> to)
    \<and> (\<exists>v. relativeT_range size_T conv rb k low high = Some v \<and> low \<le> v \<and> v \<le> high)
    \<and> (\<exists>v. nextT_range early low high rb = Some (v, moved 1 rb) \<and> low \<le> v \<and> v \<le> high)
    \<and> (\<forall>n v rb'. 0 < n \<and> n < 2 ^ 31 \<and> nextInt_to early n rb = Some (v, rb') \<longrightarrow> 0 \<le> v \<and> v \<le> n)"
proof (intro conjI)
  note unit = unit_share_range [THEN conjunct1] unit_share_range [THEN conjunct2]
  show "\<exists>v. relativeInt_range rb k from to = Some v \<and> from \<le> v \<and> v \<le> to"
    using relativeInt_range_exact [OF assms(1-3,6-9)] by fastforce
  obtain w where w: "getElement rb k = Some w" using getElement_total [OF assms(1-3)] by blast
  show "\<exists>v. relativeT_range size_T conv rb k low high = Some v \<and> low \<le> v \<and> v \<le> high"
  proof (cases "size_T < 4")
    case True
    then show ?thesis using between [OF conjunct1 [OF assms(10) [OF unit]] conjunct2 [OF assms(10) [OF unit]] assms(5)] w
      by (simp add: relativeT_range_def relativeT_def relativeUInt_def)
  next
    case False
    then show ?thesis using between [OF unit assms(5)] w by (simp add: relativeT_range_def relativeT_def relativeUInt_def)
  qed
  obtain w' where "getNextElement early rb = Some (w', moved 1 rb)" using getNextElement_total [OF assms(1,4)] by blast
  then show "\<exists>v. nextT_range early low high rb = Some (v, moved 1 rb) \<and> low \<le> v \<and> v \<le> high"
    using between [OF unit assms(5)] by (simp add: nextT_range_def nextT_def nextUInt_def)
  show "\<forall>n v rb'. 0 < n \<and> n < 2 ^ 31 \<and> nextInt_to early n rb = Some (v, rb') \<longrightarrow> 0 \<le> v \<and> v \<le> n"
    using nextInt_below by (blast intro: less_imp_le)
qed

theorem drawn_numbers_in_range_witness:
  "(\<exists>v. relativeInt_range (RandomBuffer_new 7 3 [1, 2, 3]) 0 (- 5) 5 = Some v \<and> - 5 \<le> v \<and> v \<le> 5)
    \<and> (\<exists>v. relativeT_range 2 (\<lambda>f. f) (RandomBuffer_new 7 3 [1, 2, 3]) 0 2 (3 :: rat) = Some v \<and> 2 \<le> v \<and> v \<le> 3)"
proof -
  let ?rb = "RandomBuffer_new 7 3 [1, 2, 3]"
  have "cursor_ok ?rb" "counts_fit ?rb 0" "counts_fit ?rb 1" by (simp_all add: cursor_ok_def counts_fit_def RandomBuffer_new_def)
  with drawn_numbers_in_range [of ?rb 0 2 "3 :: rat" "- 5" 5 "\<lambda>f. f" 2] show ?thesis by simp
qed

text \<open>
  The loop that is to reject numbers above the last multiple of the bound relies on a signed overflow:
  such a number has no defined result.
\<close>

lemma rejection_overflows:
  "nextInt_to early 3 (RandomBuffer_new 7 3 [1, 2147483646, 3]) = None"
  by (subst nextInt_to_exact [of _ _ 2147483646 "moved 1 (RandomBuffer_new 7 3 [1, 2147483646, 3])"]) code_simp+

end
