(* ===== verification/PairedReductions.thy ===== *)
theory PairedReductions
  imports ElementOps
begin

text \<open>
  Reductions of two arrays on the CPU (\<open>include/loops/reduce3.h\<close>) and their operations from
  \<open>include/ops/ops.h\<close>.  An operation may accumulate in its extra parameters: \<open>ds_op\<close> returns them
  changed.  The parameters are an array, so an operation that reads or writes behind its end has no
  result.
\<close>

subsection \<open>Operations\<close>

record 'a distance =
  ds_extra_len :: nat
  ds_start :: 'a
  ds_op :: "'a \<Rightarrow> 'a \<Rightarrow> 'a list \<Rightarrow> ('a \<times> 'a list) option"
  ds_update :: "'a \<Rightarrow> 'a \<Rightarrow> 'a"
  ds_post :: "'a \<Rightarrow> int \<Rightarrow> 'a list \<Rightarrow> 'a option"

definition add_to :: "int \<Rightarrow> 'a :: linordered_field \<Rightarrow> 'a list \<Rightarrow> 'a list option" where
  "add_to i v extra = do { a \<leftarrow> rd extra i; wr extra i (a + v) }"

definition ManhattanDistance :: "'a :: linordered_field distance" where
  "ManhattanDistance = \<lparr>ds_extra_len = 0, ds_start = 0, ds_op = (\<lambda>d1 d2 extra. Some (nd4j_abs (d1 - d2), extra)),
     ds_update = (\<lambda>old out. old + out), ds_post = (\<lambda>reduction n extra. Some reduction)\<rparr>"

definition EuclideanDistance :: "'a :: linordered_field libm \<Rightarrow> 'a distance" where
  "EuclideanDistance m = \<lparr>ds_extra_len = 0, ds_start = 0,
     ds_op = (\<lambda>d1 d2 extra. let ret = d1 - d2 in Some (ret * ret, extra)),
     ds_update = (\<lambda>old out. out + old), ds_post = (\<lambda>reduction n extra. Some (lm_sqrt m reduction))\<rparr>"

definition CosineSimilarity :: "'a :: linordered_field libm \<Rightarrow> 'a distance" where
  "CosineSimilarity m = \<lparr>ds_extra_len = 2, ds_start = 0,
     ds_op = (\<lambda>d1 d2 extra. do { extra \<leftarrow> add_to 0 (d1 * d1) extra; extra \<leftarrow> add_to 1 (d2 * d2) extra; Some (d1 * d2, extra) }),
     ds_update = (\<lambda>old out. old + out),
     ds_post = (\<lambda>reduction n extra. do { a \<leftarrow> rd extra 0; b \<leftarrow> rd extra 1; Some (reduction / (lm_sqrt m a * lm_sqrt m b)) })\<rparr>"

definition CosineDistance :: "'a :: linordered_field libm \<Rightarrow> 'a distance" where
  "CosineDistance m = \<lparr>ds_extra_len = 2, ds_start = 0,
     ds_op = (\<lambda>d1 d2 extra. do {
       extra \<leftarrow> add_to 0 (nd4j_abs d1 * nd4j_abs d1) extra; extra \<leftarrow> add_to 1 (nd4j_abs d2 * nd4j_abs d2) extra; Some (d1 * d2, extra) }),
     ds_update = (\<lambda>old out. old + out),
     ds_post = (\<lambda>reduction n extra. do { a \<leftarrow> rd extra 0; b \<leftarrow> rd extra 1; Some (1 - reduction / (lm_sqrt m a * lm_sqrt m b)) })\<rparr>"

definition JaccardDistance :: "'a :: linordered_field distance" where
  "JaccardDistance = \<lparr>ds_extra_len = 2, ds_start = 0,
     ds_op = (\<lambda>d1 d2 extra. do { extra \<leftarrow> add_to 0 (nd4j_min d1 d2) extra; extra \<leftarrow> add_to 1 (nd4j_max d1 d2) extra; Some (0, extra) }),
     ds_update = (\<lambda>old out. old + out),
     ds_post = (\<lambda>reduction n extra. do { a \<leftarrow> rd extra 0; b \<leftarrow> rd extra 1; Some (1 - a / b) })\<rparr>"

definition SimpleHammingDistance :: "'a :: linordered_field distance" where
  "SimpleHammingDistance = \<lparr>ds_extra_len = 0, ds_start = 0, ds_op = (\<lambda>d1 d2 extra. Some (if d1 = d2 then 0 else 1, extra)),
     ds_update = (\<lambda>old out. old + out), ds_post = (\<lambda>reduction n extra. Some (reduction / of_int n))\<rparr>"

definition Dot :: "'a :: linordered_field distance" where
  "Dot = \<lparr>ds_extra_len = 0, ds_start = 0, ds_op = (\<lambda>d1 d2 extra. Some (d1 * d2, extra)),
     ds_update = (\<lambda>old out. out + old), ds_post = (\<lambda>reduction n extra. Some reduction)\<rparr>"

text \<open>\<open>EqualsWithEps\<close>; the constants are \<open>FLOAT_MIN_NORMAL\<close> and \<open>FLOAT_MAX_VALUE\<close>.\<close>

definition FLOAT_MIN_NORMAL :: "'a :: linordered_field" where
  "FLOAT_MIN_NORMAL = 117549435 / 10 ^ 46"

definition FLOAT_MAX_VALUE :: "'a :: linordered_field" where
  "FLOAT_MAX_VALUE = 34028235 * 10 ^ 31"

definition eps_differs :: "'a :: linordered_field \<Rightarrow> 'a \<Rightarrow> 'a \<Rightarrow> 'a" where
  "eps_differs eps d1 d2 = (let abs1 = nd4j_abs d1; abs2 = nd4j_abs d2; diff = nd4j_abs (d1 - d2) in
     if d1 = d2 then 0
     else if d1 = 0 \<or> d2 = 0 \<or> diff < FLOAT_MIN_NORMAL then (if diff < eps then 0 else 1)
     else (let xDiff = diff / nd4j_min (abs1 + abs2) FLOAT_MAX_VALUE in if xDiff < eps then 0 else 1))"

definition EqualsWithEps :: "'a :: linordered_field distance" where
  "EqualsWithEps = \<lparr>ds_extra_len = 0, ds_start = 0,
     ds_op = (\<lambda>d1 d2 extra. do { eps \<leftarrow> rd extra 2; Some (eps_differs eps d1 d2, extra) }),
     ds_update = (\<lambda>old out. out + old), ds_post = (\<lambda>reduction n extra. Some reduction)\<rparr>"

subsection \<open>Loops\<close>

text \<open>One step of the loops of a whole array, on the accumulated value and the extra parameters.\<close>

definition distance_step :: "'a distance \<Rightarrow> 'a list \<Rightarrow> int \<Rightarrow> int \<Rightarrow> 'a \<times> 'a list \<Rightarrow> ('a \<times> 'a list) option" where
  "distance_step d mem x y = (\<lambda>(acc, extra). do {
     a \<leftarrow> rd mem x; b \<leftarrow> rd mem y; (v, extra) \<leftarrow> ds_op d a b extra; Some (ds_update d acc v, extra) })"

text \<open>
  \<open>extraParams\<close> is \<^term>\<open>None\<close> for a null pointer.  The loop over coordinates counts in
  \<open>unsigned int\<close>, which does not reach a length above \<open>2 ^ 32\<close>.
\<close>

definition reduce3_scalar ::
  "'a :: linordered_field distance \<Rightarrow> int \<Rightarrow> int list \<Rightarrow> 'a list option \<Rightarrow> int \<Rightarrow> int list \<Rightarrow> 'a list \<Rightarrow> 'a option" where
  "reduce3_scalar d x xShapeInfo extraParams y yShapeInfo mem = do {
     let startingVal = ds_start d;
     n \<leftarrow> length_of xShapeInfo;
     xEws \<leftarrow> elementWiseStride_of xShapeInfo;
     yEws \<leftarrow> elementWiseStride_of yShapeInfo;
     extra \<leftarrow> (case extraParams of None \<Rightarrow> Some [0, 0, 0] | Some ps \<Rightarrow> do { e \<leftarrow> rd ps 0; Some [0, 0, e] });
     xOrder \<leftarrow> order_of xShapeInfo;
     yOrder \<leftarrow> order_of yShapeInfo;
     linear \<leftarrow> (if xOrder = yOrder \<and> xEws \<ge> 1 \<and> yEws \<ge> 1 then do {
         a \<leftarrow> strideDescendingCAscendingF xShapeInfo;
         if a then strideDescendingCAscendingF yShapeInfo else Some False }
       else Some False);
     (acc, extra) \<leftarrow> (if linear then
         (if xEws = 1 \<and> yEws = 1
          then for_each (\<lambda>i s. do { i \<leftarrow> i32 i; distance_step d mem (x + i) (y + i) s }) [0..n - 1] (startingVal, extra)
          else for_each (\<lambda>i s. do { a \<leftarrow> i64 (i * xEws); b \<leftarrow> i64 (i * yEws); distance_step d mem (x + a) (y + b) s })
            [0..n - 1] (startingVal, extra))
       else if n > 2 ^ 32 then None
       else do {
         xRank \<leftarrow> rank_of xShapeInfo; yRank \<leftarrow> rank_of yShapeInfo;
         xStride \<leftarrow> stride_of xShapeInfo; yStride \<leftarrow> stride_of yShapeInfo;
         for_each (\<lambda>i s. do {
           xCoords \<leftarrow> coords_c xRank (shapeOf xShapeInfo) (to_int32 i);
           yCoords \<leftarrow> coords_c yRank (shapeOf yShapeInfo) (to_int32 i);
           offset \<leftarrow> getOffset 0 (shapeOf xShapeInfo) xStride xCoords xRank;
           yOffset \<leftarrow> getOffset 0 (shapeOf yShapeInfo) yStride yCoords yRank;
           distance_step d mem (x + offset) (y + yOffset) s }) [0..n - 1] (startingVal, extra) });
     ds_post d acc n extra }"

text \<open>
  The loops along dimensions accumulate in the cell of the result, starting from what it holds.
  \<open>pair_loop\<close> is the loop over the elements of one pair of tensors.
\<close>

definition accumulate_step ::
  "'a distance \<Rightarrow> int \<Rightarrow> int \<Rightarrow> int \<Rightarrow> 'a list \<times> 'a list \<Rightarrow> ('a list \<times> 'a list) option" where
  "accumulate_step d res x y = (\<lambda>(mem, extra). do {
     old \<leftarrow> rd mem res; a \<leftarrow> rd mem x; b \<leftarrow> rd mem y;
     (v, extra) \<leftarrow> ds_op d a b extra;
     mem \<leftarrow> wr mem res (ds_update d old v); Some (mem, extra) })"

definition tensor_coords :: "int list \<Rightarrow> bool \<Rightarrow> int \<Rightarrow> int list option" where
  "tensor_coords info c f = do { rank \<leftarrow> rank_of info; (if c then coords_c else coords_f) rank (shapeOf info) f }"

definition tensor_offset :: "int \<Rightarrow> int list \<Rightarrow> int list \<Rightarrow> int option" where
  "tensor_offset base info coord = do {
     st \<leftarrow> stride_of info; rank \<leftarrow> rank_of info; getOffset base (shapeOf info) st coord rank }"

definition pair_result ::
  "'a distance \<Rightarrow> int \<Rightarrow> int \<Rightarrow> (int \<Rightarrow> 'a list \<times> 'a list \<Rightarrow> ('a list \<times> 'a list) option) \<Rightarrow> 'a list \<Rightarrow> 'a list option" where
  "pair_result d res tadLen step mem = do {
     let extra = replicate (ds_extra_len d) (ds_start d);
     (mem, extra) \<leftarrow> for_each step [0..tadLen - 1] (mem, extra);
     acc \<leftarrow> rd mem res; v \<leftarrow> ds_post d acc tadLen extra; wr mem res v }"

definition reduce3_tads ::
  "runtime \<Rightarrow> 'a distance \<Rightarrow> int \<Rightarrow> int list \<Rightarrow> int \<Rightarrow> int list \<Rightarrow> int \<Rightarrow> int list \<Rightarrow> int \<Rightarrow> int list \<Rightarrow> int list \<Rightarrow> 'a list \<Rightarrow> 'a list option" where
  "reduce3_tads rt d x xShapeInfo y yShapeInfo result dimension dimensionLength tadShapeInfo tadOffsets mem = do {
     tadLen \<leftarrow> tadLength xShapeInfo dimension dimensionLength;
     len \<leftarrow> length_of xShapeInfo;
     tads \<leftarrow> cdiv len tadLen;
     parallel_for rt (to_int32 tads) (\<lambda>r mem. do {
       offset \<leftarrow> rd tadOffsets r;
       pair_result d (result + r) tadLen (\<lambda>f s. do {
         ord \<leftarrow> order_of tadShapeInfo;
         xCoord \<leftarrow> tensor_coords tadShapeInfo (ord = 99) f;
         yCoord \<leftarrow> tensor_coords yShapeInfo (ord = 99) f;
         xOffset \<leftarrow> tensor_offset offset tadShapeInfo xCoord;
         yOffset \<leftarrow> tensor_offset 0 yShapeInfo yCoord;
         accumulate_step d (result + r) (x + xOffset) (y + yOffset) s }) mem }) mem }"

text \<open>All pairs of a tensor of \<open>x\<close> and a tensor of \<open>y\<close>; the threads share the tensors of \<open>x\<close> among them.\<close>

definition reduce3_all ::
  "runtime \<Rightarrow> 'a distance \<Rightarrow> int \<Rightarrow> int list \<Rightarrow> int \<Rightarrow> int list \<Rightarrow> int \<Rightarrow> int list \<Rightarrow> int \<Rightarrow> int list \<Rightarrow> int list
    \<Rightarrow> int list \<Rightarrow> int list \<Rightarrow> 'a list \<Rightarrow> 'a list option" where
  "reduce3_all rt d x xShapeInfo y yShapeInfo result dimension dimensionLength xTadShapeInfo xOffsets yTadShapeInfo yOffsets mem = do {
     xTadLength \<leftarrow> tadLength xShapeInfo dimension dimensionLength;
     yTadLength \<leftarrow> tadLength yShapeInfo dimension dimensionLength;
     xLen \<leftarrow> length_of xShapeInfo; xTads \<leftarrow> cdiv xLen xTadLength;
     yLen \<leftarrow> length_of yShapeInfo; yTads \<leftarrow> cdiv yLen yTadLength;
     let xTads = to_int32 xTads; let yTads = to_int32 yTads;
     parallel_for rt xTads (\<lambda>r mem. do {
       xOffset \<leftarrow> rd xOffsets r;
       for_each (\<lambda>g mem. do {
         yOffset \<leftarrow> rd yOffsets g;
         p \<leftarrow> i32 (r * yTads); ri \<leftarrow> i32 (p + g);
         pair_result d (result + ri) xTadLength (\<lambda>f s. do {
           yOrd \<leftarrow> order_of yTadShapeInfo; yCoord \<leftarrow> tensor_coords yTadShapeInfo (yOrd = 99) f;
           xOrd \<leftarrow> order_of xTadShapeInfo; xCoord \<leftarrow> tensor_coords xTadShapeInfo (xOrd = 99) f;
           xO \<leftarrow> tensor_offset 0 xTadShapeInfo xCoord; yO \<leftarrow> tensor_offset 0 yTadShapeInfo yCoord;
           accumulate_step d (result + ri) (x + xOffset + xO) (y + to_int32 yOffset + yO) s }) mem }) [0..yTads - 1] mem }) mem }"

subsection \<open>Sums\<close>

text \<open>
  Every operation adds a function of the two elements to the accumulated value and two more to its
  extra parameters, which \<open>pack\<close> makes of the two sums.
\<close>

locale additive_distance =
  fixes d :: "'a :: linordered_field distance" and f g h :: "'a \<Rightarrow> 'a \<Rightarrow> 'a" and pack :: "'a \<Rightarrow> 'a \<Rightarrow> 'a list"
  assumes op_step: "ds_op d a b (pack p q) = Some (f a b, pack (p + g a b) (q + h a b))"
    and op_update: "ds_update d old out = old + out"
begin

lemma distance_steps:
  assumes "\<And>i. i \<in> set is \<Longrightarrow> body i = distance_step d mem (P i) (Q i)"
    and "\<And>i. i \<in> set is \<Longrightarrow> rd mem (P i) = Some (u i) \<and> rd mem (Q i) = Some (v i)"
  shows "for_each body is (acc, pack p q) = Some (acc + (\<Sum>i\<leftarrow>is. f (u i) (v i)),
    pack (p + (\<Sum>i\<leftarrow>is. g (u i) (v i))) (q + (\<Sum>i\<leftarrow>is. h (u i) (v i))))"
  using assms by (induction "is" arbitrary: acc p q) (simp_all add: distance_step_def op_step op_update add.assoc)

lemma accumulate_steps:
  assumes "\<And>i. i \<in> set is \<Longrightarrow> body i = accumulate_step d r (P i) (Q i)"
    and "0 \<le> r" "r < int (length mem)"
    and "\<And>i. i \<in> set is \<Longrightarrow> rd mem (P i) = Some (u i) \<and> rd mem (Q i) = Some (v i) \<and> P i \<noteq> r \<and> Q i \<noteq> r"
  shows "for_each body is (mem, pack p q) = Some (mem[nat r := mem ! nat r + (\<Sum>i\<leftarrow>is. f (u i) (v i))],
    pack (p + (\<Sum>i\<leftarrow>is. g (u i) (v i))) (q + (\<Sum>i\<leftarrow>is. h (u i) (v i))))"
  using assms
proof (induction "is" arbitrary: mem p q)
  case (Cons i "is")
  let ?w = "f (u i) (v i)" and ?m = "mem[nat r := mem ! nat r + f (u i) (v i)]"
  have m: "nat r < length mem" using Cons.prems(2,3) by linarith
  have "body i (mem, pack p q) = Some (?m, pack (p + g (u i) (v i)) (q + h (u i) (v i)))"
    using Cons.prems m by (simp add: accumulate_step_def op_step op_update rd_in_range wr_in_range)
  moreover have "rd ?m k = rd mem k" if "k \<noteq> r" for k
    using that Cons.prems(2) by (auto simp: rd_def nth_list_update eq_nat_nat_iff)
  moreover have "?m ! nat r = mem ! nat r + ?w" using m by simp
  ultimately show ?case using Cons.IH [of ?m "p + g (u i) (v i)" "q + h (u i) (v i)"] Cons.prems m
    by (simp add: add.assoc)
qed simp

end

subsection \<open>Instances\<close>

lemma nd4j_abs_abs [simp]: "nd4j_abs a = \<bar>a\<bar>"
  by (simp add: nd4j_abs_def)

lemma add_to_simps [simp]: "add_to 0 v (a # as) = Some ((a + v) # as)" "add_to 1 v (a # b # as) = Some (a # (b + v) # as)"
  by (simp_all add: add_to_def wr_def)

lemma rd_three [simp]: "rd [a, b, c] 1 = Some b" "rd [a, b, c] 2 = Some c"
  by (simp_all add: rd_def)

interpretation dot: additive_distance Dot "(*)" "\<lambda>a b. 0" "\<lambda>a b. 0" "\<lambda>p q. e" for e
  by unfold_locales (simp_all add: Dot_def)

interpretation manhattan: additive_distance ManhattanDistance "\<lambda>a b. \<bar>a - b\<bar>" "\<lambda>a b. 0" "\<lambda>a b. 0" "\<lambda>p q. e" for e
  by unfold_locales (simp_all add: ManhattanDistance_def)

interpretation euclidean: additive_distance "EuclideanDistance m" "\<lambda>a b. (a - b) * (a - b)" "\<lambda>a b. 0" "\<lambda>a b. 0" "\<lambda>p q. e" for m e
  by unfold_locales (simp_all add: EuclideanDistance_def Let_def)

interpretation hamming: additive_distance SimpleHammingDistance "\<lambda>a b. if a = b then 0 else 1" "\<lambda>a b. 0" "\<lambda>a b. 0" "\<lambda>p q. e" for e
  by unfold_locales (simp_all add: SimpleHammingDistance_def)

interpretation cosine: additive_distance "CosineSimilarity m" "(*)" "\<lambda>a b. a * a" "\<lambda>a b. b * b" "\<lambda>p q. p # q # e" for m e
  by unfold_locales (simp_all add: CosineSimilarity_def)

interpretation cosine_distance: additive_distance "CosineDistance m" "(*)" "\<lambda>a b. a * a" "\<lambda>a b. b * b" "\<lambda>p q. p # q # e" for m e
  by unfold_locales (simp_all add: CosineDistance_def)

interpretation jaccard: additive_distance JaccardDistance "\<lambda>a b. 0" nd4j_min nd4j_max "\<lambda>p q. p # q # e" for e
  by unfold_locales (simp_all add: JaccardDistance_def)

interpretation equality: additive_distance EqualsWithEps "eps_differs eps" "\<lambda>a b. 0" "\<lambda>a b. 0" "\<lambda>p q. [p', q', eps]" for eps p' q'
  by unfold_locales (simp_all add: EqualsWithEps_def)

end
