(* ===== verification/DistanceProperties.thy ===== *)
theory DistanceProperties
  imports PairedReductions LoopProperties
begin

text \<open>
  The properties of the reductions of two arrays.
\<close>

subsection \<open>Whole arrays\<close>

lemma strides_ordered_total: "1 \<le> i \<Longrightarrow> i + n \<le> length strides \<Longrightarrow> \<exists>b. strides_ordered bad strides i n = Some b"
proof (induction n arbitrary: i)
  case 0
  show ?case by (intro exI [of _ True]) simp
next
  case (Suc n)
  have "rd strides (int i - 1) = Some (strides ! (i - 1))" using Suc.prems by (simp add: rd_def nat_diff_distrib)
  moreover have "rd strides (int i) = Some (strides ! i)" using Suc.prems by simp
  ultimately show ?case using Suc.IH [of "Suc i"] Suc.prems by auto
qed

lemma strideDescending_total: "layout info sh st \<Longrightarrow> \<exists>b. strideDescendingCAscendingF info = Some b"
proof -
  assume "layout info sh st"
  then obtain off ews ord where X: "1 \<le> length sh" "length st = length sh" "rank_of info = Some (int (length sh))"
    "stride_of info = Some (st @ [off, ews, ord])" "shapeOf info = sh @ st @ [off, ews, ord]" "order_of info = Some ord"
    by (elim layoutE) metis
  obtain v0 v1 where at: "rd (sh @ st @ [off, ews, ord]) 0 = Some v0" "rd (sh @ st @ [off, ews, ord]) 1 = Some v1"
    using X(1,2) by (simp add: rd_def)
  obtain v where "isVector_of info = Some v"
    unfolding isVector_of_def isVector_def X(3,5) at bind.simps by (cases "int (length sh) > 2"; cases "v0 = 1") simp_all
  then obtain row where r: "isRowVector info = Some row" using X(1) by (auto simp: isRowVector_def X(5))
  have "\<exists>b. strides_ordered bad (st @ [off, ews, ord]) 1 (nat (int (length sh) - 1)) = Some b" for bad
    by (rule strides_ordered_total) (use X(1,2) in auto)
  then show ?thesis using X(1,2) by (auto simp: strideDescendingCAscendingF_def X(3,4,6) r)
qed

lemma sum_dec: "pos_dims sh \<Longrightarrow> (\<Sum>k\<leftarrow>[0..prod_list sh - 1]. F (dec_of ord sh k)) = (\<Sum>idx \<in> box sh. F idx)"
  using sum.reindex_bij_betw [OF bij_dec_of, of sh F ord] by (simp add: sum_list_distinct_conv_sum_set upto_set del: set_upto)

text \<open>The sum of a function of the elements of two arrays at the same coordinates.\<close>

definition pair_sum ::
  "'a list \<Rightarrow> int \<Rightarrow> int list \<Rightarrow> int \<Rightarrow> int list \<Rightarrow> int list \<Rightarrow> ('a \<Rightarrow> 'a \<Rightarrow> 'a :: linordered_field) \<Rightarrow> 'a" where
  "pair_sum mem x sx y sy sh F = (\<Sum>idx \<in> box sh. F (element mem x sx idx) (element mem y sy idx))"

context additive_distance
begin

lemma reduce3_scalar_sums:
  assumes lay: "layout xi sh sx" "layout yi sh sy"
    and mem: "\<forall>idx \<in> box sh. {x + inner sx idx, y + inner sy idx} \<subseteq> {0..<int (length mem)}"
    and e: "pack 0 0 = [0, 0, e]" "extra = (if null then None else Some (e # es))" "null \<longrightarrow> e = 0" and s: "ds_start d = 0"
  shows "reduce3_scalar d x xi extra y yi mem = ds_post d (pair_sum mem x sx y sy sh f) (prod_list sh) (pack (pair_sum mem x sx y sy sh g) (pair_sum mem x sx y sy sh h))"
proof -
  obtain offx ex ox where X: "pos_dims sh" "prod_list sh < 2 ^ 31" "length sh \<le> 32" "ex < 2 ^ 31"
    "\<And>k. 1 \<le> ex \<Longrightarrow> 0 \<le> k \<Longrightarrow> k < prod_list sh \<Longrightarrow> inner sx (dec_of ox sh k) = k * ex"
    "rank_of xi = Some (int (length sh))" "stride_of xi = Some (sx @ [offx, ex, ox])" "shapeOf xi = sh @ sx @ [offx, ex, ox]"
    "elementWiseStride_of xi = Some ex" "order_of xi = Some ox" "length_of xi = Some (prod_list sh)" using lay(1) by (rule layoutE) blast
  obtain offy ey oy where Y: "ey < 2 ^ 31"
    "\<And>k. 1 \<le> ey \<Longrightarrow> 0 \<le> k \<Longrightarrow> k < prod_list sh \<Longrightarrow> inner sy (dec_of oy sh k) = k * ey"
    "rank_of yi = Some (int (length sh))" "stride_of yi = Some (sy @ [offy, ey, oy])" "shapeOf yi = sh @ sy @ [offy, ey, oy]"
    "elementWiseStride_of yi = Some ey" "order_of yi = Some oy" using lay(2) by (rule layoutE) blast
  obtain a b where ab: "strideDescendingCAscendingF xi = Some a" "strideDescendingCAscendingF yi = Some b"
    using strideDescending_total lay by metis
  let ?X = "element mem x sx" and ?Y = "element mem y sy" and ?is = "[0..prod_list sh - 1]"
  have el: "rd mem (x + inner sx idx) = Some (?X idx) \<and> rd mem (y + inner sy idx) = Some (?Y idx)" if "idx \<in> box sh" for idx
    using mem that by (auto simp: rd_def element_def)
  have box: "dec_of ord sh k \<in> box sh" if "k \<in> set ?is" for ord k
    using bij_betwE [OF bij_dec_of [OF X(1), of ord]] that by simp
  have steps: "for_each body ?is (0, pack 0 0) = Some (pair_sum mem x sx y sy sh f, pack (pair_sum mem x sx y sy sh g) (pair_sum mem x sx y sy sh h))"
    if "\<And>k. k \<in> set ?is \<Longrightarrow> body k = distance_step d mem (x + inner sx (dec_of ord sh k)) (y + inner sy (dec_of ord sh k))" for body ord
    using distance_steps [of ?is body mem "\<lambda>k. x + inner sx (dec_of ord sh k)" "\<lambda>k. y + inner sy (dec_of ord sh k)"
        "\<lambda>k. ?X (dec_of ord sh k)" "\<lambda>k. ?Y (dec_of ord sh k)" 0 0 0, OF that el [OF box]]
    by (simp add: sum_dec [OF X(1), where F = "\<lambda>idx. F (?X idx) (?Y idx)" for F] pair_sum_def)
  have ex: "(case extra of None \<Rightarrow> Some [0, 0, 0] | Some ps \<Rightarrow> do { e \<leftarrow> rd ps 0; Some [0, 0, e] }) = Some (pack 0 0)"
    using e by simp
  let ?linear = "ox = oy \<and> 1 \<le> ex \<and> 1 \<le> ey \<and> a \<and> b"
  have lin: "(if ox = oy \<and> ex \<ge> 1 \<and> ey \<ge> 1 then do { a \<leftarrow> strideDescendingCAscendingF xi;
      if a then strideDescendingCAscendingF yi else Some False } else Some False) = Some ?linear"
    using ab by auto
  have n: "\<not> prod_list sh > 2 ^ 32" using X(2) by simp
  define one where "one = for_each (\<lambda>i s. do { i \<leftarrow> i32 i; distance_step d mem (x + i) (y + i) s }) ?is (0, pack 0 0)"
  define many where "many = for_each (\<lambda>i s. do { a \<leftarrow> i64 (i * ex); b \<leftarrow> i64 (i * ey); distance_step d mem (x + a) (y + b) s }) ?is (0, pack 0 0)"
  define general where "general = for_each (\<lambda>i s. do {
     xCoords \<leftarrow> coords_c (int (length sh)) (sh @ sx @ [offx, ex, ox]) (to_int32 i);
     yCoords \<leftarrow> coords_c (int (length sh)) (sh @ sy @ [offy, ey, oy]) (to_int32 i);
     offset \<leftarrow> getOffset 0 (sh @ sx @ [offx, ex, ox]) (sx @ [offx, ex, ox]) xCoords (int (length sh));
     yOffset \<leftarrow> getOffset 0 (sh @ sy @ [offy, ey, oy]) (sy @ [offy, ey, oy]) yCoords (int (length sh));
     distance_step d mem (x + offset) (y + yOffset) s }) ?is (0, pack 0 0)"
  have run: "reduce3_scalar d x xi extra y yi mem = Option.bind (if ?linear then if ex = 1 \<and> ey = 1 then one else many else general)
      (\<lambda>(acc, extra). ds_post d acc (prod_list sh) extra)"
    unfolding reduce3_scalar_def X(6-11) Y(3-7) Option.bind.simps ex lin s one_def many_def general_def Let_def if_not_P [OF n] ..
  have "one = Some (pair_sum mem x sx y sy sh f, pack (pair_sum mem x sx y sy sh g) (pair_sum mem x sx y sy sh h))" if "?linear" "ex = 1 \<and> ey = 1"
    unfolding one_def by (rule steps [of _ ox]) (use that X(2,5) Y(2) in \<open>simp add: i32_def\<close>)
  moreover have "many = Some (pair_sum mem x sx y sy sh f, pack (pair_sum mem x sx y sy sh g) (pair_sum mem x sx y sy sh h))" if "?linear"
    unfolding many_def by (rule steps [of _ ox]) (use that X(2,4,5) Y(1,2) in \<open>simp add: product_fits\<close>)
  moreover have "general = Some (pair_sum mem x sx y sy sh f, pack (pair_sum mem x sx y sy sh g) (pair_sum mem x sx y sy sh h))"
  proof -
    have "(\<lambda>s. do { xCoords \<leftarrow> coords_c (int (length sh)) (sh @ sx @ [offx, ex, ox]) (to_int32 k);
       yCoords \<leftarrow> coords_c (int (length sh)) (sh @ sy @ [offy, ey, oy]) (to_int32 k);
       offset \<leftarrow> getOffset 0 (sh @ sx @ [offx, ex, ox]) (sx @ [offx, ex, ox]) xCoords (int (length sh));
       yOffset \<leftarrow> getOffset 0 (sh @ sy @ [offy, ey, oy]) (sy @ [offy, ey, oy]) yCoords (int (length sh));
       distance_step d mem (x + offset) (y + yOffset) s })
        = distance_step d mem (x + inner sx (dec_of 99 sh k)) (y + inner sy (dec_of 99 sh k))" if "k \<in> set ?is" for k
    proof -
      have k: "0 \<le> k" "k < prod_list sh" "to_int32 k = k" using that X(2) by simp_all
      have dc: "dec_of 99 sh k = dec_c sh k" by (simp add: dec_of_def)
      show ?thesis
        using coords_exact(1) [OF X(1-3) k(1,2)] layout_offset [OF lay(1) k(1,2)] layout_offset [OF lay(2) k(1,2)]
        by (simp add: k(3) dc)
    qed
    then show ?thesis unfolding general_def by (rule steps)
  qed
  ultimately have "(if ?linear then if ex = 1 \<and> ey = 1 then one else many else general)
      = Some (pair_sum mem x sx y sy sh f, pack (pair_sum mem x sx y sy sh g) (pair_sum mem x sx y sy sh h))" by presburger
  then show ?thesis unfolding run by (simp only: bind.simps prod.case)
qed

lemma reduce3_tads_accumulate:
  assumes rt: "runtime_ok rt" and lay: "layout tx sh st" "layout yi sh sy" and ord: "order_of tx = Some ord"
    and tads: "tadLength xi dims n = Some (prod_list sh)" "length_of xi = Some (prod_list sh * tads)" "0 < tads" "tads < 2 ^ 31"
    and ox: "int (length ox) = tads" "\<forall>b \<in> set ox. 0 \<le> b \<and> b < 2 ^ 31"
    and mem: "\<forall>b \<in> set ox. \<forall>idx \<in> box sh. {x + b + inner st idx, y + inner sy idx} \<subseteq> {0..<int (length mem)} - {z..<z + tads}"
    and z: "0 \<le> z" "z + tads \<le> int (length mem)"
    and start: "pack 0 0 = replicate (ds_extra_len d) (ds_start d)" and post: "\<And>acc p q. ds_post d acc (prod_list sh) (pack p q) = Some (post acc p q)"
  shows "\<exists>mem'. reduce3_tads rt d x xi y yi z dims n tx ox mem = Some mem'
    \<and> gathered {0..<tads} (\<lambda>i. z + i) (\<lambda>i m. let S = pair_sum m (x + ox ! nat i) st y sy sh in
        post (m ! nat (z + i) + S f) (S g) (S h)) mem mem'"
proof -
  obtain off ex ox' where X: "pos_dims sh" "prod_list sh < 2 ^ 31" "length sh \<le> 32" "rank_of tx = Some (int (length sh))"
    "stride_of tx = Some (st @ [off, ex, ox'])" "shapeOf tx = sh @ st @ [off, ex, ox']"
    using lay(1) by (rule layoutE) blast
  obtain offy ey oy where Y: "rank_of yi = Some (int (length sh))" "stride_of yi = Some (sy @ [offy, ey, oy])" "shapeOf yi = sh @ sy @ [offy, ey, oy]"
    using lay(2) by (rule layoutE) blast
  let ?P = "prod_list sh" and ?ord = "if ord = 99 then 99 else 102"
  have P: "0 < ?P" using X(1) by (simp add: pos_dims_def prod_list_pos)
  have q: "cdiv (?P * tads) ?P = Some tads" "to_int32 tads = tads" using P tads(3,4) by (simp_all add: cdiv_pos)
  define G where "G = (\<lambda>i m. let S = pair_sum m (x + ox ! nat i) st y sy sh in post (m ! nat (z + i) + S f) (S g) (S h))"
  define step where "step = (\<lambda>r offset f s. do {
     ord \<leftarrow> order_of tx; xCoord \<leftarrow> tensor_coords tx (ord = 99) f; yCoord \<leftarrow> tensor_coords yi (ord = 99) f;
     xOffset \<leftarrow> tensor_offset offset tx xCoord; yOffset \<leftarrow> tensor_offset 0 yi yCoord;
     accumulate_step d (z + r) (x + xOffset) (y + yOffset) s })"
  let ?body = "\<lambda>r mem. do { offset \<leftarrow> rd ox r; pair_result d (z + r) ?P (step r offset) mem }"
  have b: "reduce3_tads rt d x xi y yi z dims n tx ox mem = parallel_for rt tads ?body mem"
    by (simp add: reduce3_tads_def tads(1,2) q step_def)
  have off: "ox ! nat i \<in> set ox" if "0 \<le> i" "i < tads" for i using that ox(1) by auto
  have out: "x + ox ! nat i + inner st idx \<in> {0..<int (length mem)} - {z..<z + tads}" "y + inner sy idx \<in> {0..<int (length mem)} - {z..<z + tads}"
    if "0 \<le> i" "i < tads" "idx \<in> box sh" for i idx
    using bspec [OF bspec [OF mem off [OF that(1,2)]] that(3)] by blast+
  have iso: "isolated {0..<tads} (\<lambda>i. z + i) G (length mem)"
    unfolding isolated_def
  proof (intro conjI ballI impI allI)
    show "inj_on (\<lambda>i. z + i) {0..<tads}" "(\<lambda>i. z + i) ` {0..<tads} \<subseteq> {0..<int (length mem)}"
      using z by (auto simp: inj_on_def)
    fix i j u and m :: "'a list" assume i: "i \<in> {0..<tads}" "j \<in> {0..<tads}" "i \<noteq> j" and m: "length m = length mem"
    have far: "m[nat (z + i) := u] ! nat k = m ! nat k" if "0 \<le> k" "k \<noteq> z + i" for k
      using that z(1) i(1) by (intro nth_list_update_neq) (simp add: eq_nat_nat_iff)
    have "x + ox ! nat j + inner st idx \<noteq> z + i" "y + inner sy idx \<noteq> z + i" "0 \<le> x + ox ! nat j + inner st idx" "0 \<le> y + inner sy idx"
      if "idx \<in> box sh" for idx using out [of j idx] i that by auto
    then have "pair_sum (m[nat (z + i) := u]) (x + ox ! nat j) st y sy sh F = pair_sum m (x + ox ! nat j) st y sy sh F" for F
      unfolding pair_sum_def element_def by (intro sum.cong refl) (simp add: far)
    moreover have "m[nat (z + i) := u] ! nat (z + j) = m ! nat (z + j)" using far [of "z + j"] i z(1) by simp
    ultimately show "G j (m[nat (z + i) := u]) = G j m" by (simp add: G_def Let_def)
  qed
  have "?body i m = Some (m[nat (z + i) := G i m])" if i: "0 \<le> i" "i < tads" and m: "length m = length mem" for i and m :: "'a list"
  proof -
    let ?o = "ox ! nat i" and ?r = "z + i" and ?is = "[0..?P - 1]" and ?dec = "dec_of ?ord sh"
    have o: "0 \<le> ?o" "?o < 2 ^ 62" using bspec [OF ox(2) off [OF i]] by simp_all
    have steps: "step i ?o k = accumulate_step d ?r (x + ?o + inner st (?dec k)) (y + inner sy (?dec k))" if "k \<in> set ?is" for k
    proof -
      have k: "0 \<le> k" "k < ?P" using that by simp_all
      show ?thesis
        using coords_exact [OF X(1-3) k] layout_offset_base [OF lay(1) k o, of _ _ ?ord] layout_offset_base [OF lay(2) k, of 0 _ _ ?ord]
        by (auto simp: fun_eq_iff step_def ord tensor_coords_def tensor_offset_def X(4-6) Y dec_of_def add.assoc)
    qed
    have r: "0 \<le> ?r" "?r < int (length m)" using i z m by simp_all
    have reads: "rd m (x + ?o + inner st (?dec k)) = Some (element m (x + ?o) st (?dec k)) \<and> rd m (y + inner sy (?dec k)) = Some (element m y sy (?dec k))
        \<and> x + ?o + inner st (?dec k) \<noteq> ?r \<and> y + inner sy (?dec k) \<noteq> ?r" if "k \<in> set ?is" for k
    proof -
      have "?dec k \<in> box sh" using bij_betwE [OF bij_dec_of [OF X(1), of ?ord]] that by simp
      from out [OF i this] show ?thesis using m i by (auto simp: rd_def element_def)
    qed
    have "for_each (step i ?o) ?is (m, pack 0 0) = (let S = pair_sum m (x + ?o) st y sy sh in
        Some (m[nat ?r := m ! nat ?r + S f], pack (S g) (S h)))"
      using accumulate_steps [of ?is "step i ?o" ?r "\<lambda>k. x + ?o + inner st (?dec k)" "\<lambda>k. y + inner sy (?dec k)" m
          "\<lambda>k. element m (x + ?o) st (?dec k)" "\<lambda>k. element m y sy (?dec k)" 0 0, OF steps r reads]
      by (simp add: Let_def pair_sum_def sum_dec [OF X(1), where F = "\<lambda>idx. F (element m (x + ?o) st idx) (element m y sy idx)" for F])
    then show ?thesis using i r ox(1)
      by (simp add: pair_result_def start [symmetric] Let_def post rd_def wr_def G_def)
  qed
  from parallel_gather [OF rt iso this] show ?thesis unfolding b G_def by blast
qed

end







subsection \<open>Along dimensions\<close>

text \<open>
  Along dimensions the loops start from what the cells of the result hold, and not from the starting
  value of the operation: the dot product is added to it, the distance is the root of it plus the sum.
\<close>

lemma reduce3_tads_adds_to_result:
  fixes mem :: "'a :: linordered_field list"
  assumes "runtime_ok rt" "layout tx sh st" "layout yi sh sy" "order_of tx = Some ord"
    and "tadLength xi dims n = Some (prod_list sh)" "length_of xi = Some (prod_list sh * tads)" "0 < tads" "tads < 2 ^ 31"
    and "int (length ox) = tads" "\<forall>b \<in> set ox. 0 \<le> b \<and> b < 2 ^ 31"
    and "\<forall>b \<in> set ox. \<forall>idx \<in> box sh. {x + b + inner st idx, y + inner sy idx} \<subseteq> {0..<int (length mem)} - {z..<z + tads}"
    and "0 \<le> z" "z + tads \<le> int (length mem)"
  shows "\<exists>mem'. reduce3_tads rt Dot x xi y yi z dims n tx ox mem = Some mem'
      \<and> gathered {0..<tads} (\<lambda>i. z + i) (\<lambda>i m. m ! nat (z + i) + pair_sum m (x + ox ! nat i) st y sy sh (*)) mem mem'"
    and "\<exists>mem'. reduce3_tads rt (EuclideanDistance lm) x xi y yi z dims n tx ox mem = Some mem'
      \<and> gathered {0..<tads} (\<lambda>i. z + i)
          (\<lambda>i m. lm_sqrt lm (m ! nat (z + i) + pair_sum m (x + ox ! nat i) st y sy sh (\<lambda>a b. (a - b)\<^sup>2))) mem mem'"
    and "\<exists>mem'. reduce3_tads rt (CosineSimilarity lm) x xi y yi z dims n tx ox mem = Some mem'
      \<and> gathered {0..<tads} (\<lambda>i. z + i) (\<lambda>i m. let S = pair_sum m (x + ox ! nat i) st y sy sh in
          (m ! nat (z + i) + S (*)) / (lm_sqrt lm (S (\<lambda>a b. a * a)) * lm_sqrt lm (S (\<lambda>a b. b * b)))) mem mem'"
proof -
  show "\<exists>mem'. reduce3_tads rt Dot x xi y yi z dims n tx ox mem = Some mem'
      \<and> gathered {0..<tads} (\<lambda>i. z + i) (\<lambda>i m. m ! nat (z + i) + pair_sum m (x + ox ! nat i) st y sy sh (*)) mem mem'"
    using dot.reduce3_tads_accumulate [OF assms, of "[]" "\<lambda>acc p q. acc"] by (simp add: Dot_def Let_def)
  show "\<exists>mem'. reduce3_tads rt (EuclideanDistance lm) x xi y yi z dims n tx ox mem = Some mem'
      \<and> gathered {0..<tads} (\<lambda>i. z + i)
          (\<lambda>i m. lm_sqrt lm (m ! nat (z + i) + pair_sum m (x + ox ! nat i) st y sy sh (\<lambda>a b. (a - b)\<^sup>2))) mem mem'"
    using euclidean.reduce3_tads_accumulate [OF assms, of "[]" lm "\<lambda>acc p q. lm_sqrt lm acc"]
    by (simp add: EuclideanDistance_def Let_def power2_eq_square)
  show "\<exists>mem'. reduce3_tads rt (CosineSimilarity lm) x xi y yi z dims n tx ox mem = Some mem'
      \<and> gathered {0..<tads} (\<lambda>i. z + i) (\<lambda>i m. let S = pair_sum m (x + ox ! nat i) st y sy sh in
          (m ! nat (z + i) + S (*)) / (lm_sqrt lm (S (\<lambda>a b. a * a)) * lm_sqrt lm (S (\<lambda>a b. b * b)))) mem mem'"
    using cosine.reduce3_tads_accumulate [OF assms, of "[]" lm "\<lambda>acc p q. acc / (lm_sqrt lm p * lm_sqrt lm q)"]
    by (simp add: CosineSimilarity_def Let_def numeral_2_eq_2)
qed

text \<open>\<open>EqualsWithEps\<close> reads its tolerance behind the extra parameters that these loops give it.\<close>

lemma EqualsWithEps_without_tolerance: "ds_op EqualsWithEps a b (replicate (ds_extra_len EqualsWithEps) v) = None"
  by (simp add: EqualsWithEps_def rd_def)

end
