(* ===== verification/Spec2Isabelle.thy ===== *)
theory Spec2Isabelle
  imports ShapeProperties VariableProperties SessionProperties WorkspaceProperties GraphProperties IterationProperties SearchProperties FloatProperties SortProperties SpecialProperties ElementProperties RandomProperties DistanceProperties
begin

text \<open>
  A verification library for libnd4j, the C++ library of n-dimensional arrays and computation graphs.

  \<^bold>\<open>The program.\<close>  \<open>include/helpers/shape.h\<close> is the arithmetic of shapes, strides and offsets on
  which all kernels rest: a shape information buffer is one array of \<open>int\<close> that holds rank, shape,
  strides, offset, element-wise stride and order.  \<open>include/memory\<close> has the workspaces from which
  arrays are allocated.  \<open>include/graph\<close> holds computation graphs: variables in a variable space,
  nodes that read variables and other nodes, graphs that arrange the nodes in layers, a stash of
  temporary arrays, and sessions that give every thread its own copy of the variables.

  \<^bold>\<open>Conventions.\<close>  Every definition is a function that returns \<^term>\<open>None\<close> exactly where the C++ code
  has no defined result: an access outside an array, a read of a cell that was never written, a
  signed overflow of \<open>int\<close> or \<open>long long\<close>, a division by zero, a null pointer, a loop that does not
  end, or a call that blocks on a mutex that is never released.  An exception is an explicit result.
  Conversions to a smaller type wrap, and are written out (\<open>to_int32\<close>, \<open>wrap64\<close>).  An array is the
  list of its cells (\<open>cells\<close> when some are not yet written); a pointer into an array is the list from
  that cell on, and a function that writes through a pointer returns the array.  What a fresh object
  holds in members that its constructor does not set is a parameter (\<open>junk\<close>, \<open>u\<close>).  Objects that
  are shared by pointers (variables, arrays, nodes, blocks of memory) live in records that map
  addresses to objects, so aliasing and double deletion can be stated.  \<open>std::map\<close> is a sorted list
  of pairs.  Loops are structural recursion or \<open>for_up\<close> and \<open>for_down\<close> from \<open>CPrelude\<close>; loops without
  a syntactic bound are \<open>function\<close>s with a measure, and \<open>build_loop\<close>, which may run for ever, is a
  \<open>partial_function\<close>.  Nothing needs fuel.

  \<^bold>\<open>The theories.\<close>
  \<^item> \<open>CPrelude\<close>: cells, reads and writes, checked arithmetic, the loop combinators and their rules
    (\<open>for_up_invariant\<close>, \<open>for_up_total\<close>), the lemma collections.
  \<^item> \<open>Containers\<close>: \<open>std::map\<close> (\<open>sm_put\<close>, \<open>sm_insert\<close>, \<open>sm_erase\<close>, \<open>sm_find\<close> and their laws
    \<open>sm_laws\<close>) and the locale \<open>keyed_store\<close>, the contract of an interface with \<open>put\<close> and \<open>get\<close>; it is
    interpreted on the map itself, on the stash and on the variable space.
  \<^item> \<open>ShapeArrays\<close>, \<open>ShapeInfo\<close>, \<open>ShapeStrides\<close>, \<open>ShapeIndex\<close>, \<open>ShapePermute\<close>, \<open>ShapeReshape\<close>,
    \<open>ShapeTad\<close>: the functions of \<open>shape.h\<close> by group: products and index lists; accessors and
    predicates of the buffer; row- and column-major strides and the recognition of orders; the
    numbering of elements and the offsets; permutations; reshaping, the element-wise stride and the
    constructors of buffers; the class \<open>TAD\<close> of tensors along dimensions.  Each theory gives, after
    the definitions, lemmas \<open>x_exact\<close> that describe the result of an operation on every valid
    input, and the facts on sums and products they rest on.  \<open>ShapeProperties\<close> holds the properties:
    the numberings are bijections, a reshape or a permutation is a view of the same elements, the
    tensors along dimensions partition the array.
  \<^item> \<open>GraphVariables\<close>: \<open>Variable.h\<close> and \<open>VariableSpace.h\<close>; \<open>vs_inv\<close> is the invariant of a variable
    space and \<open>putVariable_fresh\<close>, \<open>putVariable_pair_exact\<close>, \<open>getVariable_present\<close> describe the
    operations.  \<open>vs_step\<close> is a run of them, failing lookups included: after one the mutex stays locked
    and every later operation blocks.  \<open>VariableProperties\<close> proves the invariant for every run and that
    a clone shares nothing with its source.
  \<^item> \<open>GraphSessions\<close>: \<open>Stash.h\<close> and \<open>SessionLocalStorage.h\<close>; the sessions are a state machine
    \<open>ss_step\<close> whose steps are the critical sections, in any interleaving of threads.
    \<open>SessionProperties\<close> proves that spaces of different sessions stay disjoint: \<open>footprint\<close> is everything
    a space reaches by any of its maps and lists.
  \<^item> \<open>Workspaces\<close>: \<open>memory/cpu/Workspace.cpp\<close> over a heap of live blocks; \<open>ws_inv\<close> relates the
    counters, the spilled blocks and the heap, and \<open>host_pointer\<close> has no result when the block is
    missing.  \<open>alloc_step\<close> interleaves the atomic steps of
    concurrent allocations.  \<open>WorkspaceProperties\<close> has no-leak, learning and the overlap of regions.
  \<^item> \<open>GraphNodes\<close>, \<open>GraphBuild\<close>: \<open>OpDescriptor.h\<close>, \<open>Block.h\<close>, \<open>Node.h\<close>, \<open>ExecutorConfiguration.h\<close> and
    \<open>Graph.h\<close>.  \<open>GraphLayers\<close> has the invariant \<open>build_wf\<close>, the effect of one visit of \<open>buildGraph\<close>
    (\<open>build_visit_places\<close>, \<open>build_visit_waits\<close>), graphs in topological order, and the graphs on which
    the loop ends or does not (\<open>hopeless\<close>).  \<open>GraphAdding\<close> shows what \<open>addNode\<close> does to a
    well-formed graph (\<open>addNode_exact\<close>), \<open>GraphConstruction\<close> lifts this to the constructor
    (\<open>Graph_new_exact\<close>), and \<open>GraphProperties\<close> combines them.

  \<^item> \<open>StrideSort\<close>, \<open>RawIteration\<close>: \<open>include/pairwise_util.h\<close>, the quick sort of strides with its
    explicit stack of ranges, the iteration macros over several strided arrays (one definition over a
    list of pointers with strides) and their preparation.  \<open>quickSort_exact\<close> shows that the
    stack never outgrows its 300 cells; \<open>raw_iter_exact\<close> describes the iteration as a walk through
    the numbering of \<open>ind2sub\<close>; \<open>IterationProperties\<close> has the properties.
  \<^item> \<open>ElementLoops\<close>: what the loops over elements share.  All arrays of a call lie in one memory (a
    list), a data pointer is an index into it, and a loop that OpenMP runs in parallel visits its
    iterations in an order that the environment chooses (\<open>rt_order\<close>, any permutation).  \<open>gathered\<close>,
    \<open>pointwise\<close> and \<open>separate\<close> say what a loop computes and which overlaps are allowed.
  \<^item> \<open>ElementwiseLoops\<close>, \<open>TensorLoops\<close>: \<open>loops/pairwise_transform.h\<close>, \<open>scalar.h\<close>, \<open>transform.h\<close> and
    \<open>broadcasting.h\<close>; \<open>layout\<close> relates a shape information buffer to the shape and the strides.
  \<^item> \<open>ReduceLoops\<close>, \<open>ReduceOps\<close>: \<open>loops/reduce.h\<close> and the reductions of \<open>ops/ops.h\<close>.  The locale
    \<open>combination\<close> is what a parallel reduction asks of a combining function; every reduction of
    \<open>ops.h\<close> is an interpretation.
  \<^item> \<open>IndexLoops\<close>, \<open>MatchLoops\<close>: \<open>loops/indexreduce.h\<close> and its operations.  \<open>searched\<close> describes all
    ways in which threads may divide and merge a search; the locales \<open>selection\<close>, \<open>strict_selection\<close> and
    \<open>priority\<close> give its result, which is \<open>search_result\<close>: an element that no other one beats, or the index
    0 when the starting value hides them all.  \<open>LoopProperties\<close> and \<open>SearchProperties\<close> have the properties of the loops.
  \<^item> \<open>WordFacts\<close>, \<open>SmallFloats\<close>, \<open>FloatConversions\<close>: the element types of \<open>include/types\<close> as words of bits;
    \<open>magnitude\<close> is the value of a number, \<open>nearest_even\<close> the rounding that the conversion to half
    precision must do.  \<open>half_number_nearest\<close> and \<open>ihalf2float_exact\<close> are the conversions,
    \<open>FloatProperties\<close> has the properties.
  \<^item> \<open>ParallelSort\<close>: the sort of \<open>ops/specials.h\<close>, an in-place quick sort on an array of any layout whose
    OpenMP tasks run in any order.  The locale \<open>order_test\<close> is what it asks of the comparison;
    \<open>rearranged\<close> and \<open>elsewhere\<close> say which elements and cells may change.  \<open>SortProperties\<close> has the properties.
  \<^item> \<open>Specials\<close>: the other kernels of \<open>ops/specials.h\<close>: accumulation and averages of arrays, powers of
    two, and the bitmap coding of gradients, where \<open>amount\<close> is what two bits stand for,
    \<open>encode_exact\<close> and \<open>decode_exact\<close> describe the two loops, and \<open>SpecialProperties\<close> composes them.
  \<^item> \<open>ElementOps\<close>: the operations on single elements of \<open>ops/ops.h\<close> with the functions of
    \<open>templatemath.h\<close>; a class is a record of its overloads, compositions (\<open>MetaOp\<close>) combine such
    records.  \<open>ElementProperties\<close> proves that the conditional operations agree, that the derivative classes are derivatives over the real numbers (\<open>differentiates\<close>), and
    that a composed operation is two passes of the loops.
  \<^item> \<open>PairedReductions\<close>: \<open>loops/reduce3.h\<close> and its operations, which may accumulate in their extra
    parameters.  The locale \<open>additive_distance\<close> says that an operation adds three functions of the two
    elements; all eight are interpretations.  \<open>DistanceProperties\<close> has their closed forms for whole arrays,
    and what the loops along dimensions compute.
  \<^item> \<open>RandomBuffers\<close>: the generator and the buffer of random numbers of \<open>helpers/helper_generator.h\<close>, on
    64-bit words; \<open>moved\<close> is the effect of advancing the cursor.  \<open>RandomProperties\<close> shows that the
    generator is injective and never zero, that relative access agrees with moving the cursor, and the
  ranges of the drawn numbers.

  \<^bold>\<open>Bounds.\<close>  The loops keep coordinates in arrays of 32 cells, so \<open>layout\<close> asks for at most 32 axes.  Products
  of lengths are assumed to fit \<open>int\<close> where the code computes them in \<open>int\<close>, and each property states
  that.  Allocations are bounded by \<open>2 ^ 61\<close> bytes in a cycle where wrap-around of the counters would
  matter.  Ids are mathematical integers; the code never does arithmetic on them except for the
  automatic counter.

  \<^bold>\<open>Elements.\<close>  The loops are polymorphic in the type of elements.  The operations of \<open>ops.h\<close> are
  stated over an ordered field, that is without rounding, infinities and NaN (tests for infinity and NaN are parameters): with floating point
  numbers the order of the additions in a parallel sum changes the rounding, which the model does not
  show.  Elementary functions are parameters.

  \<^bold>\<open>Not modelled.\<close>  The other kernels (\<open>special_ops.h\<close>, \<open>declarable\<close>, statistics, random fills) and
  \<open>NDArray\<close>.  \<open>NativeOps\<close> unpacks pointers and dispatches.  Device code, deallocation of shape
  buffers, printing, \<open>estimateRequiredMemory\<close>, and the third-party and generated code are left out.
  In \<open>buildGraph\<close> the code advances an iterator whose element it has erased, and returns without a
  value; the parameter \<open>lax\<close> of the model says whether the platform forgives both, and the properties of
  the graph do not rest on it.
\<close>

end
